(* ===== verification/Prelude.thy ===== *)
theory Prelude
  imports Main "HOL-Library.Word"
begin

text \<open>
  Shared vocabulary of the development: the Python exceptions the modelled code raises, the
  result type of an operation that may raise, its sequencing, bytes, and generic lemmas on
  lists and sums that the components share.

  A raising operation returns \<open>Inl e\<close>.  The exceptions modelled here all propagate out of
  the engine step that raised them, so the partially updated state of a raising operation is
  never observed and is not part of the value.  The message of an exception is dropped.
\<close>

datatype py_error =
    ValueError | RuntimeError | AssertionError | IndexError | KeyError | OverflowError
  | TypeError | AttributeError | StopIteration | ZeroDivisionError | NotImplementedError

type_synonym 'a res = "py_error + 'a"

type_synonym byte = "8 word"
type_synonym bytes = "byte list"

named_theorems frame_simps \<open>fields an operation leaves alone\<close>
named_theorems inv_intros \<open>operations keep their component's invariant\<close>

definition rbind :: "'a res \<Rightarrow> ('a \<Rightarrow> 'b res) \<Rightarrow> 'b res" where
  "rbind m f = (case m of Inl e \<Rightarrow> Inl e | Inr x \<Rightarrow> f x)"

definition guard :: "py_error \<Rightarrow> bool \<Rightarrow> unit res" where
  "guard e ok = (if ok then Inr () else Inl e)"

lemma rbind_simps [simp]:
  "rbind (Inl e) f = Inl e"
  "rbind (Inr x) f = f x"
  by (simp_all add: rbind_def)

lemma rbind_eq_Inr [simp]: "rbind m f = Inr y \<longleftrightarrow> (\<exists>x. m = Inr x \<and> f x = Inr y)"
  by (cases m) simp_all

lemma rbind_eq_Inl: "rbind m f = Inl e \<longleftrightarrow> m = Inl e \<or> (\<exists>x. m = Inr x \<and> f x = Inl e)"
  by (cases m) simp_all

lemma rbind_assoc: "rbind (rbind m f) g = rbind m (\<lambda>x. rbind (f x) g)"
  by (cases m) simp_all

lemma rbind_Inr_right [simp]: "rbind m Inr = m"
  by (cases m) simp_all

lemma rbind_cong [fundef_cong]:
  "m = m' \<Longrightarrow> (\<And>x. m' = Inr x \<Longrightarrow> f x = f' x) \<Longrightarrow> rbind m f = rbind m' f'"
  by (cases m') simp_all

lemma guard_simps [simp]:
  "guard e True = Inr ()"
  "guard e False = Inl e"
  "guard e b = Inr u \<longleftrightarrow> b"
  "guard e b = Inl e' \<longleftrightarrow> \<not> b \<and> e' = e"
  by (auto simp: guard_def)

text \<open>A call whose value is not used.\<close>

definition drop_value :: "('a \<times> 's) res \<Rightarrow> 's res" where
  "drop_value r = rbind r (\<lambda>(x, s). Inr s)"

lemma drop_value_Inr: "drop_value r = Inr s \<longleftrightarrow> (\<exists>x. r = Inr (x, s))"
  by (cases r) (auto simp: drop_value_def split: prod.splits)

lemma drop_value_Inl: "drop_value r = Inl e \<longleftrightarrow> r = Inl e"
  by (cases r) (auto simp: drop_value_def split: prod.splits)

text \<open>A loop over a list whose body may raise: \<open>for x in xs: s = f(x, s)\<close>.\<close>

fun rfold :: "('a \<Rightarrow> 's \<Rightarrow> 's res) \<Rightarrow> 'a list \<Rightarrow> 's \<Rightarrow> 's res" where
  "rfold f [] s = Inr s"
| "rfold f (x # xs) s = rbind (f x s) (rfold f xs)"

lemma rfold_append: "rfold f (xs @ ys) s = rbind (rfold f xs s) (rfold f ys)"
proof (induction xs arbitrary: s)
  case (Cons x xs)
  then show ?case by (cases "f x s") simp_all
qed simp

lemma rfold_invariant:
  assumes "rfold f xs s = Inr t" and "P s"
    and "\<And>x s s'. x \<in> set xs \<Longrightarrow> P s \<Longrightarrow> f x s = Inr s' \<Longrightarrow> P s'"
  shows "P t"
  using assms
proof (induction xs arbitrary: s)
  case (Cons x xs)
  then obtain s' where s': "f x s = Inr s'" "rfold f xs s' = Inr t" by auto
  moreover have "P s'" using Cons.prems s' by auto
  ultimately show ?case using Cons.IH Cons.prems(3) by (meson list.set_intros(2))
qed simp

lemma rfold_total:
  assumes "P s" and "\<And>x s. x \<in> set xs \<Longrightarrow> P s \<Longrightarrow> \<exists>s'. f x s = Inr s' \<and> P s'"
  shows "\<exists>t. rfold f xs s = Inr t \<and> P t"
  using assms
proof (induction xs arbitrary: s)
  case (Cons x xs)
  then obtain s' where s': "f x s = Inr s'" "P s'" by (meson list.set_intros(1))
  then have "\<exists>t. rfold f xs s' = Inr t \<and> P t"
    using Cons.IH Cons.prems(2) by (meson list.set_intros(2))
  with s' show ?case by simp
qed simp

lemma upt_split: "i \<le> j \<Longrightarrow> [0..<j] = [0..<i] @ [i..<j]"
  using upt_add_eq_append[of 0 i "j - i"] by simp

lemma inj_on_Un_image_disjoint:
  "inj_on f A \<Longrightarrow> inj_on f B \<Longrightarrow> f ` B \<inter> f ` A = {} \<Longrightarrow> inj_on f (A \<union> B)"
  unfolding inj_on_Un by blast

subsection \<open>Python lists\<close>

text \<open>\<open>xs[i]\<close> raises outside the list and counts from the end for a negative index.\<close>

definition py_nth :: "'a list \<Rightarrow> int \<Rightarrow> 'a res" where
  "py_nth xs i =
     (if i < - int (length xs) \<or> int (length xs) \<le> i then Inl IndexError
      else Inr (xs ! nat (if 0 \<le> i then i else int (length xs) + i)))"

text \<open>\<open>xs[a:b]\<close> for bounds that are not negative.\<close>

definition py_slice :: "'a list \<Rightarrow> nat \<Rightarrow> nat \<Rightarrow> 'a list" where
  "py_slice xs a b = take (b - a) (drop a xs)"

lemma py_nth_of_nat [simp]:
  "py_nth xs (int i) = (if i < length xs then Inr (xs ! i) else Inl IndexError)"
  by (simp add: py_nth_def)

lemma py_nth_last: "xs \<noteq> [] \<Longrightarrow> py_nth xs (- 1) = Inr (last xs)"
  by (simp add: py_nth_def Let_def last_conv_nth nat_diff_distrib Suc_leI)

lemma length_py_slice [simp]: "length (py_slice xs a b) = min (b - a) (length xs - a)"
  by (simp add: py_slice_def min_def)

lemma py_slice_full [simp]: "py_slice xs 0 (length xs) = xs"
  by (simp add: py_slice_def)

lemma take_py_slice: "a \<le> b \<Longrightarrow> take a xs @ py_slice xs a b = take b xs"
  by (metis le_add_diff_inverse py_slice_def take_add)

subsection \<open>Python sets\<close>

text \<open>A set whose order of iteration the model fixes: a list without repetitions, in the order of
  insertion.  \<open>discard\<close> is \<open>removeAll\<close>.\<close>

definition set_add :: "'a \<Rightarrow> 'a list \<Rightarrow> 'a list" where
  "set_add x xs = (if x \<in> set xs then xs else xs @ [x])"

lemma set_set_add [simp]: "set (set_add x xs) = insert x (set xs)"
  by (auto simp: set_add_def)

lemma distinct_set_add [simp]: "distinct (set_add x xs) = distinct xs"
  by (auto simp: set_add_def)

lemma set_add_not_Nil [simp]: "set_add x xs \<noteq> []"
  by (auto simp: set_add_def)

definition opt_list :: "'a list option \<Rightarrow> 'a list" where
  "opt_list ox = (case ox of None \<Rightarrow> [] | Some xs \<Rightarrow> xs)"

lemma opt_list_simps [simp]: "opt_list None = []" "opt_list (Some xs) = xs"
  by (simp_all add: opt_list_def)

lemma set_add_Nil [simp]: "set_add x [] = [x]"
  by (simp add: set_add_def)

end
