(* ===== verification/Interfaces.thy ===== *)
theory Interfaces
  imports Prelude "HOL-Library.Multiset"
begin

text \<open>
  The contracts between components, as locales: what the block pool asks of the free list
  (\<open>eviction_list\<close>) and of the hash index (\<open>hash_index\<close>), and what the scheduler asks of a
  request queue (\<open>request_queue\<close>, and \<open>ordered_queue\<close> where the queue keeps an order).  Each is
  interpreted on the model of the code in the theory of the component that provides it.
\<close>

text \<open>
  A list of blocks in eviction order: \<open>repr s xs\<close> relates a state to the list, \<open>fresh s bs\<close>
  holds of blocks that may be put in, and \<open>keeps s s'\<close> says that the blocks' own data is the
  same in both states.
\<close>

locale eviction_list =
  fixes repr :: "'s \<Rightarrow> 'b list \<Rightarrow> bool"
    and fresh :: "'s \<Rightarrow> 'b list \<Rightarrow> bool"
    and keeps :: "'s \<Rightarrow> 's \<Rightarrow> bool"
    and popn :: "'s \<Rightarrow> int \<Rightarrow> ('s \<times> 'b list) res"
    and take_out :: "'s \<Rightarrow> 'b \<Rightarrow> 's res"
    and put_front :: "'s \<Rightarrow> 'b list \<Rightarrow> 's res"
    and put_back :: "'s \<Rightarrow> 'b list \<Rightarrow> 's res"
  assumes repr_unique: "repr s xs \<Longrightarrow> repr s ys \<Longrightarrow> xs = ys"
    and fresh_left: "fresh s (bs @ cs) \<Longrightarrow> fresh s bs"
    and fresh_after: "repr s xs \<Longrightarrow> fresh s (bs @ cs) \<Longrightarrow> put_front s bs = Inr s' \<Longrightarrow> fresh s' cs"
    and keeps_trans: "keeps s t \<Longrightarrow> keeps t u \<Longrightarrow> keeps s u"
    and popn_law: "repr s (bs @ cs) \<Longrightarrow>
      \<exists>s'. popn s (int (length bs)) = Inr (s', bs) \<and> repr s' cs \<and> fresh s' bs \<and> keeps s s'"
    and take_out_law: "repr s xs \<Longrightarrow> x \<in> set xs \<Longrightarrow>
      \<exists>s'. take_out s x = Inr s' \<and> repr s' (remove1 x xs) \<and> fresh s' [x] \<and> keeps s s'"
    and put_front_law: "repr s xs \<Longrightarrow> fresh s bs \<Longrightarrow>
      \<exists>s'. put_front s bs = Inr s' \<and> repr s' (bs @ xs) \<and> keeps s s'"
    and put_back_law: "repr s xs \<Longrightarrow> fresh s bs \<Longrightarrow>
      \<exists>s'. put_back s bs = Inr s' \<and> repr s' (xs @ bs) \<and> keeps s s'"
begin

lemma popn_eq:
  assumes "repr s xs" "n \<le> length xs"
  shows "\<exists>s'. popn s (int n) = Inr (s', take n xs) \<and> repr s' (drop n xs) \<and>
              fresh s' (take n xs) \<and> keeps s s'"
  using popn_law[of s "take n xs" "drop n xs"] assms by (simp add: min.absorb2)

text \<open>What is freed to the back is evicted last, and in the order it was freed.\<close>

lemma lru_order:
  assumes "repr s xs" "fresh s bs" "put_back s bs = Inr t" "n \<le> length xs + length bs"
  shows "\<exists>u. popn t (int n) = Inr (u, take n (xs @ bs)) \<and> repr u (drop n (xs @ bs))"
proof -
  have "repr t (xs @ bs)" using put_back_law[OF assms(1,2)] assms(3) by auto
  then show ?thesis using popn_eq[of t "xs @ bs" n] assms(4) by auto
qed

text \<open>What is freed to the front is evicted first.\<close>

lemma front_first:
  assumes "repr s xs" "fresh s bs" "put_front s bs = Inr t"
  shows "\<exists>u. popn t (int (length bs)) = Inr (u, bs) \<and> repr u xs"
  using put_front_law[OF assms(1,2)] assms(3) popn_law by fastforce

lemma popn_put_front_inverse:
  assumes "repr s xs" "n \<le> length xs"
  shows "\<exists>t bs u. popn s (int n) = Inr (t, bs) \<and> put_front t bs = Inr u \<and> repr u xs \<and> keeps s u"
proof -
  obtain t where t: "popn s (int n) = Inr (t, take n xs)" "repr t (drop n xs)" "fresh t (take n xs)"
      "keeps s t"
    using popn_eq[OF assms] by blast
  then obtain u where "put_front t (take n xs) = Inr u" "repr u (take n xs @ drop n xs)" "keeps t u"
    using put_front_law by blast
  with t keeps_trans show ?thesis by (metis append_take_drop_id)
qed

text \<open>Using a free block moves it behind every other one.\<close>

lemma use_moves_to_back:
  assumes "repr s xs" "x \<in> set xs"
  shows "\<exists>t u. take_out s x = Inr t \<and> put_back t [x] = Inr u \<and> repr u (remove1 x xs @ [x])"
  using take_out_law[OF assms] put_back_law by blast

text \<open>Freeing two groups at once: the first to the front, the second to the back.\<close>

lemma put_both:
  assumes "repr s xs" "fresh s (fs @ bs)"
  shows "\<exists>t u. put_front s fs = Inr t \<and> put_back t bs = Inr u \<and> repr u (fs @ xs @ bs) \<and> keeps s u"
proof -
  obtain t where t: "put_front s fs = Inr t" "repr t (fs @ xs)" "keeps s t"
    using put_front_law[OF assms(1) fresh_left[OF assms(2)]] by blast
  then show ?thesis
    using put_back_law[OF t(2) fresh_after[OF assms t(1)]] keeps_trans by fastforce
qed

end

text \<open>
  A multimap from keys to blocks, seen as the set of blocks \<open>at m k\<close> of each key.  The laws
  hold for the blocks that a heap knows: \<open>known h\<close>.
\<close>

locale hash_index =
  fixes known :: "'h \<Rightarrow> 'b set"
    and ok :: "'h \<Rightarrow> 'm \<Rightarrow> bool"
    and at :: "'m \<Rightarrow> 'k \<Rightarrow> 'b set"
    and put :: "'h \<Rightarrow> 'm \<Rightarrow> 'k \<Rightarrow> 'b \<Rightarrow> 'm"
    and del :: "'h \<Rightarrow> 'm \<Rightarrow> 'k \<Rightarrow> 'b \<Rightarrow> 'b option \<times> 'm"
    and has :: "'h \<Rightarrow> 'm \<Rightarrow> 'k \<Rightarrow> 'b \<Rightarrow> bool"
    and get :: "'m \<Rightarrow> 'k \<Rightarrow> 'b option res"
  assumes ok_put: "ok h m \<Longrightarrow> b \<in> known h \<Longrightarrow> ok h (put h m k b)"
    and at_put: "ok h m \<Longrightarrow> b \<in> known h \<Longrightarrow>
      at (put h m k b) k' = (if k' = k then insert b (at m k) else at m k')"
    and ok_del: "ok h m \<Longrightarrow> b \<in> known h \<Longrightarrow> ok h (snd (del h m k b))"
    and at_del: "ok h m \<Longrightarrow> b \<in> known h \<Longrightarrow>
      at (snd (del h m k b)) k' = (if k' = k then at m k - {b} else at m k')"
    and del_result: "ok h m \<Longrightarrow> b \<in> known h \<Longrightarrow>
      fst (del h m k b) = (if b \<in> at m k then Some b else None)"
    and has_iff: "ok h m \<Longrightarrow> b \<in> known h \<Longrightarrow> has h m k b \<longleftrightarrow> b \<in> at m k"
    and get_hit: "ok h m \<Longrightarrow> at m k \<noteq> {} \<Longrightarrow> \<exists>b \<in> at m k. get m k = Inr (Some b)"
    and get_miss: "ok h m \<Longrightarrow> at m k = {} \<Longrightarrow> get m k = Inr None"
begin

lemma get_after_put:
  assumes "ok h m" "b \<in> known h"
  shows "\<exists>b' \<in> insert b (at m k). get (put h m k b) k = Inr (Some b')"
  using get_hit[OF ok_put[OF assms], of k k] at_put[OF assms, of k k] by auto

lemma get_after_last_del:
  assumes "ok h m" "b \<in> known h" "at m k \<subseteq> {b}"
  shows "get (snd (del h m k b)) k = Inr None"
  by (rule get_miss[OF ok_del[OF assms(1,2)]]) (use assms at_del in auto)

lemma get_total:
  assumes "ok h m"
  shows "\<exists>r. get m k = Inr r \<and> (case r of None \<Rightarrow> at m k = {} | Some b \<Rightarrow> b \<in> at m k)"
proof (cases "at m k = {}")
  case False
  then obtain b where "b \<in> at m k" "get m k = Inr (Some b)" using get_hit[OF assms] by blast
  then show ?thesis by auto
qed (auto simp: get_miss[OF assms])

lemma get_none_iff: "ok h m \<Longrightarrow> get m k = Inr None \<longleftrightarrow> at m k = {}"
  using get_hit[of h m k] get_miss[of h m k] by fastforce

lemma get_some_at: "ok h m \<Longrightarrow> get m k = Inr (Some b) \<Longrightarrow> b \<in> at m k"
  using get_hit[of h m k] get_miss[of h m k] by fastforce

text \<open>A loop that deletes one block under several keys.\<close>

fun del_all :: "'h \<Rightarrow> 'k list \<Rightarrow> 'b \<Rightarrow> 'm \<Rightarrow> 'm \<times> 'k list" where
  "del_all h [] b m = (m, [])"
| "del_all h (k # ks) b m =
     (let (r, m1) = del h m k b; (m2, ds) = del_all h ks b m1
      in (m2, if r \<noteq> None then k # ds else ds))"

lemma del_all_spec:
  assumes "ok h m" "b \<in> known h"
  shows "ok h (fst (del_all h ks b m))"
    and "at (fst (del_all h ks b m)) k = (if k \<in> set ks then at m k - {b} else at m k)"
    and "distinct ks \<Longrightarrow> snd (del_all h ks b m) = filter (\<lambda>k. b \<in> at m k) ks"
proof -
  have "ok h (fst (del_all h ks b m)) \<and>
    (\<forall>k. at (fst (del_all h ks b m)) k = (if k \<in> set ks then at m k - {b} else at m k)) \<and>
    (distinct ks \<longrightarrow> snd (del_all h ks b m) = filter (\<lambda>k. b \<in> at m k) ks)"
    using assms(1)
  proof (induction ks arbitrary: m)
    case (Cons k ks)
    define m1 where "m1 = snd (del h m k b)"
    have d: "del h m k b = (if b \<in> at m k then Some b else None, m1)"
      using del_result[OF Cons.prems assms(2), of k] by (simp add: m1_def prod_eq_iff)
    have ok1: "ok h m1" and at1: "\<And>k'. at m1 k' = (if k' = k then at m k - {b} else at m k')"
      using ok_del[OF Cons.prems assms(2)] at_del[OF Cons.prems assms(2)] by (simp_all add: m1_def)
    have "distinct (k # ks) \<Longrightarrow> filter (\<lambda>k. b \<in> at m1 k) ks = filter (\<lambda>k. b \<in> at m k) ks"
      by (intro filter_cong refl) (auto simp: at1)
    moreover obtain m2 ds where m2: "del_all h ks b m1 = (m2, ds)" by (metis surj_pair)
    moreover have "del_all h (k # ks) b m = (m2, if b \<in> at m k then k # ds else ds)"
      using m2 by (simp add: d)
    ultimately show ?case
      using Cons.IH[OF ok1] at1 by auto
  qed simp
  then show "ok h (fst (del_all h ks b m))"
    "at (fst (del_all h ks b m)) k = (if k \<in> set ks then at m k - {b} else at m k)"
    "distinct ks \<Longrightarrow> snd (del_all h ks b m) = filter (\<lambda>k. b \<in> at m k) ks" by blast+
qed

end

text \<open>A queue of requests, seen as a multiset.\<close>

locale request_queue =
  fixes inv :: "'q \<Rightarrow> bool"
    and elems :: "'q \<Rightarrow> 'r multiset"
    and add :: "'q \<Rightarrow> 'r \<Rightarrow> 'q"
    and pop :: "'q \<Rightarrow> ('r \<times> 'q) res"
    and peek :: "'q \<Rightarrow> 'r res"
    and prepend :: "'q \<Rightarrow> 'r \<Rightarrow> 'q"
  assumes inv_add: "inv q \<Longrightarrow> inv (add q r)"
    and elems_add: "inv q \<Longrightarrow> elems (add q r) = add_mset r (elems q)"
    and inv_prepend: "inv q \<Longrightarrow> inv (prepend q r)"
    and elems_prepend: "inv q \<Longrightarrow> elems (prepend q r) = add_mset r (elems q)"
    and pop_empty: "inv q \<Longrightarrow> elems q = {#} \<Longrightarrow> pop q = Inl IndexError"
    and peek_empty: "inv q \<Longrightarrow> elems q = {#} \<Longrightarrow> peek q = Inl IndexError"
    and pop_some: "inv q \<Longrightarrow> elems q \<noteq> {#} \<Longrightarrow>
      \<exists>r q'. pop q = Inr (r, q') \<and> peek q = Inr r \<and> r \<in># elems q \<and>
             elems q' = elems q - {#r#} \<and> inv q'"
begin

lemma pop_size: "inv q \<Longrightarrow> pop q = Inr (r, q') \<Longrightarrow> size (elems q) = Suc (size (elems q'))"
  using pop_some[of q] pop_empty[of q] by (metis (no_types, lifting) Inl_Inr_False Pair_inject
      insert_DiffM size_add_mset sum.inject(2))

fun drain :: "nat \<Rightarrow> 'q \<Rightarrow> 'r list" where
  "drain 0 q = []"
| "drain (Suc n) q = (case pop q of Inl e \<Rightarrow> [] | Inr (r, q') \<Rightarrow> r # drain n q')"

text \<open>Popping as often as the queue is long serves every request exactly once.\<close>

lemma drain_all: "inv q \<Longrightarrow> mset (drain (size (elems q)) q) = elems q"
proof (induction "size (elems q)" arbitrary: q)
  case (Suc n)
  then have "elems q \<noteq> {#}" by auto
  then obtain r q' where q': "pop q = Inr (r, q')" "r \<in># elems q" "elems q' = elems q - {#r#}" "inv q'"
    using pop_some[OF Suc.prems] by blast
  then have "n = size (elems q')" using Suc.hyps(2) by (simp add: size_Diff_singleton)
  then have "mset (drain n q') = elems q'" using Suc.hyps(1) q'(4) by simp
  then show ?case using q'(1-3) by (simp add: Suc.hyps(2)[symmetric])
qed simp

end

text \<open>A queue that serves a least element of a linear order.\<close>

locale ordered_queue = request_queue inv elems add pop peek prepend
  for inv :: "'q \<Rightarrow> bool" and elems :: "'q \<Rightarrow> 'r::linorder multiset"
    and add :: "'q \<Rightarrow> 'r \<Rightarrow> 'q" and pop :: "'q \<Rightarrow> ('r \<times> 'q) res"
    and peek :: "'q \<Rightarrow> 'r res" and prepend :: "'q \<Rightarrow> 'r \<Rightarrow> 'q" +
  assumes pop_least: "inv q \<Longrightarrow> pop q = Inr (r, q') \<Longrightarrow> x \<in># elems q \<Longrightarrow> r \<le> x"
begin

lemma drain_set: "inv q \<Longrightarrow> n = size (elems q) \<Longrightarrow> set (drain n q) = set_mset (elems q)"
  using drain_all by (metis set_mset_mset)

lemma drain_sorted: "inv q \<Longrightarrow> n = size (elems q) \<Longrightarrow> sorted (drain n q)"
proof (induction n arbitrary: q)
  case (Suc n)
  then have "elems q \<noteq> {#}" by auto
  then obtain r q' where q': "pop q = Inr (r, q')" "r \<in># elems q" "elems q' = elems q - {#r#}" "inv q'"
    using pop_some[OF Suc.prems(1)] by blast
  then have n: "n = size (elems q')" using Suc.prems(2) by (simp add: size_Diff_singleton)
  moreover have "\<forall>x \<in> set (drain n q'). r \<le> x"
    using drain_set[OF q'(4) n] q' pop_least[OF Suc.prems(1)] by (auto dest: in_diffD)
  moreover have "sorted (drain n q')" by (rule Suc.IH[OF q'(4) n])
  ultimately show ?case using q'(1) by simp
qed simp

end

end
