(* ===== verification/Free_Queue.thy ===== *)
theory Free_Queue
  imports Interfaces
begin

text \<open>
  The doubly linked free list of \<^verbatim>\<open>vllm/v1/core/kv_cache_utils.py\<close>: the class
  \<open>KVCacheBlock\<close> as a record, objects as references into a heap, and every method of
  \<open>FreeKVCacheBlockQueue\<close> as a function on the heap and the queue's own fields.

  A reference is one of the two fake blocks or a real block \<open>Blk a\<close>.  The pointer fields
  \<open>prev_free_block\<close> and \<open>next_free_block\<close> hold an optional reference.  The shadow set
  \<open>_linked\<close> and the counter \<open>num_free_blocks\<close> are fields of the queue, and \<open>_check\<close>
  compares them at the start of a mutating call as the code does.  The diagnostic ring
  \<open>_trace\<close> (off unless \<^verbatim>\<open>VLLM_FREE_LIST_TRACE=1\<close>) is not modelled.

  \<open>queue_repr h q xs\<close> says that the heap and the fields represent the list \<open>xs\<close> of block
  addresses; each operation refines the matching list operation.
\<close>

datatype bref = FakeHead | FakeTail | Blk nat

record kvblock =
  block_id :: int
  ref_cnt :: int
  block_hash :: "bytes option"
  block_hash_num_tokens :: "int option"
  prev_free_block :: "bref option"
  next_free_block :: "bref option"
  is_null :: bool
  blk_pool_id :: int

type_synonym heap = "bref \<Rightarrow> kvblock"

definition new_block :: "int \<Rightarrow> int \<Rightarrow> kvblock" where
  "new_block i p = \<lparr>block_id = i, ref_cnt = 0, block_hash = None, block_hash_num_tokens = None,
     prev_free_block = None, next_free_block = None, is_null = False, blk_pool_id = p\<rparr>"

definition set_block_hash :: "bytes \<Rightarrow> int option \<Rightarrow> kvblock \<Rightarrow> kvblock res" where
  "set_block_hash bh n b =
     (if block_hash b = None \<and> block_hash_num_tokens b = None
      then Inr (b\<lparr>block_hash := Some bh, block_hash_num_tokens := n\<rparr>)
      else Inl AssertionError)"

definition reset_hash :: "kvblock \<Rightarrow> kvblock" where
  "reset_hash b = b\<lparr>block_hash := None, block_hash_num_tokens := None\<rparr>"

record free_queue =
  num_free_blocks :: int
  linked :: "int set"
  fq_pool_id :: int

definition set_next :: "bref \<Rightarrow> bref option \<Rightarrow> heap \<Rightarrow> heap" where
  "set_next r v h = h(r := (h r)\<lparr>next_free_block := v\<rparr>)"

definition set_prev :: "bref \<Rightarrow> bref option \<Rightarrow> heap \<Rightarrow> heap" where
  "set_prev r v h = h(r := (h r)\<lparr>prev_free_block := v\<rparr>)"

definition assert_new_to_list :: "int set \<Rightarrow> kvblock \<Rightarrow> unit res" where
  "assert_new_to_list ids b = guard RuntimeError (block_id b \<notin> ids)"

definition assert_unlinked :: "kvblock \<Rightarrow> unit res" where
  "assert_unlinked b =
     guard RuntimeError (\<not> (prev_free_block b \<noteq> None \<or> next_free_block b \<noteq> None))"

definition fq_check :: "free_queue \<Rightarrow> unit res" where
  "fq_check q = guard RuntimeError (int (card (linked q)) = num_free_blocks q)"

text \<open>\<open>__init__\<close>: the loop links consecutive blocks, then the fake ends are attached.\<close>

definition fq_link_step :: "bref list \<Rightarrow> nat \<Rightarrow> heap \<Rightarrow> heap" where
  "fq_link_step bs i h =
     (let h1 = (if 0 < i then set_prev (bs ! i) (Some (bs ! (i - 1))) h else h)
      in if i + 1 < length bs then set_next (bs ! i) (Some (bs ! (i + 1))) h1 else h1)"

definition fq_init :: "heap \<Rightarrow> bref list \<Rightarrow> heap \<times> free_queue" where
  "fq_init h bs =
     (let n = length bs;
          h1 = fold (fq_link_step bs) [0..<n] h;
          h2 = h1(FakeHead := new_block (-1) 0, FakeTail := new_block (-1) 0);
          q = \<lparr>num_free_blocks = int n, linked = (\<lambda>r. block_id (h2 r)) ` set bs, fq_pool_id = -1\<rparr>
      in if 0 < n
         then (set_next (bs ! (n - 1)) (Some FakeTail)
                (set_prev FakeTail (Some (bs ! (n - 1)))
                  (set_prev (bs ! 0) (Some FakeHead)
                    (set_next FakeHead (Some (bs ! 0)) h2))), q)
         else (set_prev FakeTail (Some FakeHead) (set_next FakeHead (Some FakeTail) h2), q))"

definition fq_popleft :: "heap \<Rightarrow> free_queue \<Rightarrow> (heap \<times> free_queue \<times> bref) res" where
  "fq_popleft h q =
     (case next_free_block (h FakeHead) of
        None \<Rightarrow> if num_free_blocks q = 0 then Inl ValueError else Inl AssertionError
      | Some first \<Rightarrow>
          if first = FakeTail
          then if num_free_blocks q = 0 then Inl ValueError else Inl AssertionError
          else rbind (fq_check q) (\<lambda>_.
            case next_free_block (h first) of
              None \<Rightarrow> Inl RuntimeError
            | Some nxt \<Rightarrow>
                let h1 = set_next FakeHead (Some nxt) h;
                    h2 = set_prev nxt (Some FakeHead) h1;
                    h3 = set_next first None (set_prev first None h2)
                in Inr (h3, q\<lparr>linked := linked q - {block_id (h first)},
                              num_free_blocks := num_free_blocks q - 1\<rparr>, first)))"

fun fq_pop_loop ::
  "nat \<Rightarrow> heap \<Rightarrow> int set \<Rightarrow> bref option \<Rightarrow> (heap \<times> int set \<times> bref option \<times> bref list) res" where
  "fq_pop_loop 0 h l cur = Inr (h, l, cur, [])"
| "fq_pop_loop (Suc k) h l None = Inl RuntimeError"
| "fq_pop_loop (Suc k) h l (Some b) =
     rbind (fq_pop_loop k (set_next b None (set_prev b None h)) (l - {block_id (h b)})
              (next_free_block (h b)))
       (\<lambda>(h', l', cur, bs). Inr (h', l', cur, b # bs))"

definition fq_popleft_n :: "heap \<Rightarrow> free_queue \<Rightarrow> int \<Rightarrow> (heap \<times> free_queue \<times> bref list) res" where
  "fq_popleft_n h q n =
     (if n = 0 then Inr (h, q, [])
      else if n < 0 then Inl ValueError
      else rbind (fq_check q) (\<lambda>_.
        rbind (guard AssertionError (num_free_blocks q \<ge> n)) (\<lambda>_.
          rbind (fq_pop_loop (nat n) h (linked q) (next_free_block (h FakeHead)))
            (\<lambda>(h', l, cur, ret).
              let q' = q\<lparr>num_free_blocks := num_free_blocks q - n, linked := l\<rparr>
              in case cur of
                   None \<Rightarrow> Inr (h', q', ret)
                 | Some c \<Rightarrow>
                     Inr (set_prev c (Some FakeHead) (set_next FakeHead (Some c) h'), q', ret)))))"

definition fq_remove :: "heap \<Rightarrow> free_queue \<Rightarrow> bref \<Rightarrow> (heap \<times> free_queue) res" where
  "fq_remove h q b =
     rbind (fq_check q) (\<lambda>_.
       case (prev_free_block (h b), next_free_block (h b)) of
         (Some p, Some n) \<Rightarrow>
           let h1 = set_next p (Some n) h;
               h2 = set_prev n (Some p) h1;
               h3 = set_next b None (set_prev b None h2)
           in Inr (h3, q\<lparr>linked := linked q - {block_id (h b)},
                         num_free_blocks := num_free_blocks q - 1\<rparr>)
       | _ \<Rightarrow> Inl RuntimeError)"

definition fq_append :: "heap \<Rightarrow> free_queue \<Rightarrow> bref \<Rightarrow> (heap \<times> free_queue) res" where
  "fq_append h q b =
     (case prev_free_block (h FakeTail) of
        None \<Rightarrow> Inl RuntimeError
      | Some lst \<Rightarrow>
          rbind (fq_check q) (\<lambda>_. rbind (assert_unlinked (h b)) (\<lambda>_.
            rbind (assert_new_to_list (linked q) (h b)) (\<lambda>_.
              let h1 = set_next lst (Some b) h;
                  h2 = set_prev b (Some lst) h1;
                  h3 = set_next b (Some FakeTail) h2;
                  h4 = set_prev FakeTail (Some b) h3
              in Inr (h4, q\<lparr>linked := insert (block_id (h b)) (linked q),
                            num_free_blocks := num_free_blocks q + 1\<rparr>)))))"

text \<open>
  The loop body shared by \<open>prepend_n\<close> and \<open>append_n\<close>: link each block behind the
  previous one.
\<close>

fun fq_link_loop ::
  "bref list \<Rightarrow> heap \<Rightarrow> int set \<Rightarrow> bref \<Rightarrow> (heap \<times> int set \<times> bref) res" where
  "fq_link_loop [] h l prev = Inr (h, l, prev)"
| "fq_link_loop (b # bs) h l prev =
     rbind (assert_unlinked (h b)) (\<lambda>_. rbind (assert_new_to_list l (h b)) (\<lambda>_.
       fq_link_loop bs (set_next prev (Some b) (set_prev b (Some prev) h))
         (insert (block_id (h b)) l) b))"

definition fq_prepend_n :: "heap \<Rightarrow> free_queue \<Rightarrow> bref list \<Rightarrow> (heap \<times> free_queue) res" where
  "fq_prepend_n h q bs =
     (if bs = [] then Inr (h, q)
      else case next_free_block (h FakeHead) of
        None \<Rightarrow> Inl AssertionError
      | Some first \<Rightarrow> rbind (fq_check q) (\<lambda>_.
          rbind (fq_link_loop bs h (linked q) FakeHead) (\<lambda>(h1, l, prev).
            let h2 = set_next prev (Some first) h1;
                h3 = set_prev first (Some prev) h2
            in Inr (h3, q\<lparr>linked := l, num_free_blocks := num_free_blocks q + int (length bs)\<rparr>))))"

definition fq_append_n :: "heap \<Rightarrow> free_queue \<Rightarrow> bref list \<Rightarrow> (heap \<times> free_queue) res" where
  "fq_append_n h q bs =
     (if bs = [] then Inr (h, q)
      else case prev_free_block (h FakeTail) of
        None \<Rightarrow> Inl AssertionError
      | Some lst \<Rightarrow> rbind (fq_check q) (\<lambda>_.
          rbind (fq_link_loop bs h (linked q) lst) (\<lambda>(h1, l, prev).
            let h2 = set_next prev (Some FakeTail) h1;
                h3 = set_prev FakeTail (Some prev) h2
            in Inr (h3, q\<lparr>linked := l, num_free_blocks := num_free_blocks q + int (length bs)\<rparr>))))"

text \<open>The two pointer walks: \<open>None\<close> is a walk that does not end (a cycle).\<close>

partial_function (option) fq_walk :: "heap \<Rightarrow> bref \<Rightarrow> bref list \<Rightarrow> bref list option" where
  "fq_walk h cur acc =
     (case next_free_block (h cur) of
        None \<Rightarrow> Some acc
      | Some nxt \<Rightarrow> fq_walk h nxt (acc @ [cur]))"

definition get_all_free_blocks :: "heap \<Rightarrow> (bref list res) option" where
  "get_all_free_blocks h =
     (case next_free_block (h FakeHead) of
        None \<Rightarrow> Some (Inl RuntimeError)
      | Some first \<Rightarrow> map_option Inr (fq_walk h first []))"

partial_function (option) fq_iter :: "heap \<Rightarrow> bref option \<Rightarrow> bref list \<Rightarrow> bref list option" where
  "fq_iter h cur acc =
     (case cur of
        None \<Rightarrow> Some acc
      | Some c \<Rightarrow> if c = FakeTail then Some acc
                  else fq_iter h (next_free_block (h c)) (acc @ [c]))"

definition iter_blocks_after :: "heap \<Rightarrow> bref option \<Rightarrow> bref list option" where
  "iter_blocks_after h cursor =
     (case cursor of
        None \<Rightarrow> fq_iter h (next_free_block (h FakeHead)) []
      | Some c \<Rightarrow> fq_iter h (next_free_block (h c)) [])"


subsection \<open>The list a heap represents\<close>

fun seg :: "heap \<Rightarrow> bref \<Rightarrow> bref list \<Rightarrow> bref \<Rightarrow> bool" where
  "seg h p [] r \<longleftrightarrow> next_free_block (h p) = Some r \<and> prev_free_block (h r) = Some p"
| "seg h p (x # xs) r \<longleftrightarrow>
     next_free_block (h p) = Some x \<and> prev_free_block (h x) = Some p \<and> seg h x xs r"

definition unlinked :: "heap \<Rightarrow> bref \<Rightarrow> bool" where
  "unlinked h r \<longleftrightarrow> prev_free_block (h r) = None \<and> next_free_block (h r) = None"

definition queue_repr :: "heap \<Rightarrow> free_queue \<Rightarrow> bref list \<Rightarrow> bool" where
  "queue_repr h q xs \<longleftrightarrow>
     seg h FakeHead xs FakeTail \<and> distinct xs \<and> FakeHead \<notin> set xs \<and> FakeTail \<notin> set xs \<and>
     next_free_block (h FakeTail) = None \<and> inj_on (\<lambda>r. block_id (h r)) (set xs) \<and>
     linked q = (\<lambda>r. block_id (h r)) ` set xs \<and> num_free_blocks q = int (length xs) \<and>
     (\<forall>r. r \<notin> set xs \<longrightarrow> r \<noteq> FakeHead \<longrightarrow> r \<noteq> FakeTail \<longrightarrow> unlinked h r)"

text \<open>The data fields of a block, untouched by every list operation.\<close>

definition data_of :: "kvblock \<Rightarrow> kvblock" where
  "data_of b = b\<lparr>prev_free_block := None, next_free_block := None\<rparr>"

definition same_data :: "heap \<Rightarrow> heap \<Rightarrow> bool" where
  "same_data h h' \<longleftrightarrow> (\<forall>r. data_of (h' r) = data_of (h r))"

lemma set_next_simps [simp]:
  "next_free_block (set_next r v h s) = (if s = r then v else next_free_block (h s))"
  "prev_free_block (set_next r v h s) = prev_free_block (h s)"
  "block_id (set_next r v h s) = block_id (h s)"
  "data_of (set_next r v h s) = data_of (h s)"
  by (simp_all add: set_next_def data_of_def)

lemma set_prev_simps [simp]:
  "prev_free_block (set_prev r v h s) = (if s = r then v else prev_free_block (h s))"
  "next_free_block (set_prev r v h s) = next_free_block (h s)"
  "block_id (set_prev r v h s) = block_id (h s)"
  "data_of (set_prev r v h s) = data_of (h s)"
  by (simp_all add: set_prev_def data_of_def)

lemma same_data_refl [simp]: "same_data h h"
  by (simp add: same_data_def)

lemma same_data_trans [trans]: "same_data h h' \<Longrightarrow> same_data h' h'' \<Longrightarrow> same_data h h''"
  by (simp add: same_data_def)

lemma same_data_set [simp]:
  "same_data h (set_next r v h') = same_data h h'"
  "same_data h (set_prev r v h') = same_data h h'"
  by (simp_all add: same_data_def)

lemma data_of_fields:
  assumes "data_of b = data_of c"
  shows "block_id b = block_id c" "ref_cnt b = ref_cnt c" "block_hash b = block_hash c"
    "block_hash_num_tokens b = block_hash_num_tokens c" "is_null b = is_null c"
    "blk_pool_id b = blk_pool_id c"
proof -
  have *: "block_id (data_of b) = block_id (data_of c)" "ref_cnt (data_of b) = ref_cnt (data_of c)"
    "block_hash (data_of b) = block_hash (data_of c)" "is_null (data_of b) = is_null (data_of c)"
    "block_hash_num_tokens (data_of b) = block_hash_num_tokens (data_of c)"
    "blk_pool_id (data_of b) = blk_pool_id (data_of c)"
    using assms by simp_all
  show "block_id b = block_id c" "ref_cnt b = ref_cnt c" "block_hash b = block_hash c"
    "block_hash_num_tokens b = block_hash_num_tokens c" "is_null b = is_null c"
    "blk_pool_id b = blk_pool_id c"
    using * by (simp_all add: data_of_def)
qed

lemma same_data_fields:
  assumes "same_data h h'"
  shows "block_id (h' r) = block_id (h r)" "ref_cnt (h' r) = ref_cnt (h r)"
    "block_hash (h' r) = block_hash (h r)"
    "block_hash_num_tokens (h' r) = block_hash_num_tokens (h r)"
    "is_null (h' r) = is_null (h r)" "blk_pool_id (h' r) = blk_pool_id (h r)"
  using assms data_of_fields[of "h' r" "h r"] by (simp_all add: same_data_def)

text \<open>Pointer updates outside a segment leave it alone.\<close>

lemma seg_frame:
  assumes "\<And>s. s = p \<or> s \<in> set xs \<Longrightarrow> next_free_block (h' s) = next_free_block (h s)"
    and "\<And>s. s = r \<or> s \<in> set xs \<Longrightarrow> prev_free_block (h' s) = prev_free_block (h s)"
  shows "seg h' p xs r = seg h p xs r"
  using assms by (induction xs arbitrary: p) auto

lemma seg_append:
  "seg h p (xs @ y # ys) r \<longleftrightarrow> seg h p xs y \<and> seg h y ys r"
  by (induction xs arbitrary: p) auto

lemma seg_first: "seg h p xs r \<Longrightarrow> next_free_block (h p) = Some (hd (xs @ [r]))"
  by (cases xs) auto

lemma seg_last: "seg h p xs r \<Longrightarrow> prev_free_block (h r) = Some (last (p # xs))"
  by (induction xs arbitrary: p) auto

lemma queue_reprD:
  assumes "queue_repr h q xs"
  shows "seg h FakeHead xs FakeTail" "distinct xs" "FakeHead \<notin> set xs" "FakeTail \<notin> set xs"
    "next_free_block (h FakeTail) = None" "linked q = (\<lambda>r. block_id (h r)) ` set xs"
    "num_free_blocks q = int (length xs)" "inj_on (\<lambda>r. block_id (h r)) (set xs)"
    "\<And>r. r \<notin> set xs \<Longrightarrow> r \<noteq> FakeHead \<Longrightarrow> r \<noteq> FakeTail \<Longrightarrow> unlinked h r"
  using assms by (simp_all add: queue_repr_def)

lemma queue_repr_check [simp]: "queue_repr h q xs \<Longrightarrow> fq_check q = Inr ()"
  by (simp add: queue_repr_def fq_check_def card_image distinct_card)

lemma seg_in_linked:
  assumes "seg h p xs r" "x \<in> set xs"
  shows "next_free_block (h x) \<noteq> None" "prev_free_block (h x) \<noteq> None"
proof -
  obtain ys zs where "xs = ys @ x # zs" using split_list[OF assms(2)] by blast
  then have "seg h p ys x" "seg h x zs r" using assms(1) by (simp_all add: seg_append)
  then show "next_free_block (h x) \<noteq> None" "prev_free_block (h x) \<noteq> None"
    by (simp_all add: seg_first seg_last)
qed

lemma queue_repr_linked_iff:
  assumes "queue_repr h q xs" "r \<noteq> FakeHead" "r \<noteq> FakeTail"
  shows "r \<in> set xs \<longleftrightarrow> prev_free_block (h r) \<noteq> None"
    and "r \<in> set xs \<longleftrightarrow> next_free_block (h r) \<noteq> None"
  using queue_reprD[OF assms(1)] seg_in_linked assms(2,3)
  by (metis (mono_tags, lifting) unlinked_def)+


subsection \<open>Taking blocks out\<close>

lemma hd_snoc_in: "hd (zs @ [r]) \<in> insert r (set zs)"
  by (cases zs) auto

lemma seg_splice:
  assumes "seg h a ys x" "seg h x zs r" "distinct (a # ys @ x # zs)" "r \<notin> set (ys @ zs)" "r \<noteq> x"
    and "\<And>s. next_free_block (h' s) = (if s = x then None
           else if s = last (a # ys) then Some (hd (zs @ [r])) else next_free_block (h s))"
    and "\<And>s. prev_free_block (h' s) = (if s = x then None
           else if s = hd (zs @ [r]) then Some (last (a # ys)) else prev_free_block (h s))"
  shows "seg h' a (ys @ zs) r"
  using assms
proof (induction ys arbitrary: a)
  case Nil
  show ?case
  proof (cases zs)
    case Nil
    with Nil.prems show ?thesis by simp
  next
    case (Cons z zs')
    have "seg h' z zs' r = seg h z zs' r"
      by (rule seg_frame) (use Nil.prems Cons in auto)
    with Nil.prems Cons show ?thesis by auto
  qed
next
  case (Cons y ys)
  have "seg h' y (ys @ zs) r"
    by (rule Cons.IH) (use Cons.prems in auto)
  moreover have "y \<noteq> hd (zs @ [r])" using Cons.prems hd_snoc_in[of zs r] by auto
  ultimately show ?case using Cons.prems by (auto split: if_splits)
qed

lemma queue_repr_splice:
  assumes "queue_repr h q (ys @ x # zs)"
  defines "p \<equiv> last (FakeHead # ys)" and "n \<equiv> hd (zs @ [FakeTail])"
  defines "h' \<equiv> set_next x None (set_prev x None (set_prev n (Some p) (set_next p (Some n) h)))"
  shows "queue_repr h' (q\<lparr>linked := linked q - {block_id (h x)},
            num_free_blocks := num_free_blocks q - 1\<rparr>) (ys @ zs) \<and> same_data h h'"
proof -
  note d = queue_reprD[OF assms(1)]
  have s: "seg h FakeHead ys x" "seg h x zs FakeTail"
    using d(1) by (simp_all add: seg_append)
  have nx: "next_free_block (h' s) = (if s = x then None else if s = p then Some n
              else next_free_block (h s))"
    and pv: "prev_free_block (h' s) = (if s = x then None else if s = n then Some p
              else prev_free_block (h s))" for s
    by (simp_all add: h'_def)
  have "seg h' FakeHead (ys @ zs) FakeTail"
    by (rule seg_splice[OF s]) (use d nx pv in \<open>auto simp: p_def n_def\<close>)
  moreover have "p \<in> insert FakeHead (set ys)" by (simp add: p_def)
  then have "next_free_block (h' FakeTail) = None"
    using d by (auto simp: nx)
  moreover have "same_data h h'" by (simp add: h'_def)
  moreover have "unlinked h' r" if "r \<notin> set (ys @ zs)" "r \<noteq> FakeHead" "r \<noteq> FakeTail" for r
  proof (cases "r = x")
    case False
    then have "unlinked h r" using d(9) that by auto
    moreover have "r \<noteq> p" "r \<noteq> n"
      using that hd_snoc_in[of zs FakeTail] by (auto simp: p_def n_def split: if_splits)
    ultimately show ?thesis by (simp add: unlinked_def nx pv)
  qed (simp add: unlinked_def nx pv)
  moreover have "(\<lambda>r. block_id (h r)) ` set (ys @ x # zs) - {block_id (h x)}
                 = (\<lambda>r. block_id (h r)) ` set (ys @ zs)"
    using d(2,8) by (auto simp: inj_on_def)
  moreover have "inj_on (\<lambda>r. block_id (h r)) (set (ys @ zs))"
    using d(8) by (rule inj_on_subset) auto
  ultimately show ?thesis
    using d by (simp add: queue_repr_def same_data_fields(1))
qed

lemma fq_popleft_Nil: "queue_repr h q [] \<Longrightarrow> fq_popleft h q = Inl ValueError"
  by (simp add: fq_popleft_def queue_repr_def)

lemma fq_popleft_Cons:
  assumes "queue_repr h q (x # xs)"
  obtains h' q' where "fq_popleft h q = Inr (h', q', x)" "queue_repr h' q' xs" "same_data h h'"
    "fq_pool_id q' = fq_pool_id q"
proof -
  let ?n = "hd (xs @ [FakeTail])"
  have "next_free_block (h FakeHead) = Some x" "next_free_block (h x) = Some ?n" "x \<noteq> FakeTail"
    "fq_check q = Inr ()"
    using queue_reprD[OF assms] seg_first[of h x xs FakeTail] assms by auto
  then have "fq_popleft h q = Inr (set_next x None (set_prev x None
      (set_prev ?n (Some FakeHead) (set_next FakeHead (Some ?n) h))),
      q\<lparr>linked := linked q - {block_id (h x)}, num_free_blocks := num_free_blocks q - 1\<rparr>, x)"
    by (simp add: fq_popleft_def Let_def)
  with queue_repr_splice[of h q "[]" x xs] assms that show thesis by auto
qed

lemma fq_remove_mid:
  assumes "queue_repr h q (ys @ x # zs)"
  obtains h' q' where "fq_remove h q x = Inr (h', q')" "queue_repr h' q' (ys @ zs)" "same_data h h'"
    "fq_pool_id q' = fq_pool_id q"
proof -
  let ?p = "last (FakeHead # ys)" and ?n = "hd (zs @ [FakeTail])"
  have "prev_free_block (h x) = Some ?p" "next_free_block (h x) = Some ?n" "fq_check q = Inr ()"
    using queue_reprD(1)[OF assms] assms seg_last seg_first by (auto simp: seg_append)
  then have "fq_remove h q x = Inr (set_next x None (set_prev x None
      (set_prev ?n (Some ?p) (set_next ?p (Some ?n) h))),
      q\<lparr>linked := linked q - {block_id (h x)}, num_free_blocks := num_free_blocks q - 1\<rparr>)"
    by (simp add: fq_remove_def Let_def)
  with queue_repr_splice[OF assms] that show thesis by auto
qed

lemma fq_remove_in:
  assumes "queue_repr h q xs" "x \<in> set xs"
  obtains h' q' where "fq_remove h q x = Inr (h', q')" "queue_repr h' q' (remove1 x xs)"
    "same_data h h'" "fq_pool_id q' = fq_pool_id q"
proof -
  obtain ys zs where xs: "xs = ys @ x # zs" "x \<notin> set ys"
    using split_list_first[OF assms(2)] by blast
  then have "remove1 x xs = ys @ zs" by (simp add: remove1_append)
  with fq_remove_mid[of h q ys x zs] assms(1) xs that show thesis by metis
qed

lemma fq_remove_notin:
  assumes "queue_repr h q xs" "x \<notin> set xs" "x \<noteq> FakeHead" "x \<noteq> FakeTail"
  shows "fq_remove h q x = Inl RuntimeError"
  using assms queue_reprD(9)[OF assms(1), of x] by (simp add: fq_remove_def unlinked_def)

text \<open>Popping several blocks: the loop follows the next pointers and clears both pointers.\<close>

fun path :: "heap \<Rightarrow> bref list \<Rightarrow> bref \<Rightarrow> bool" where
  "path h [] r = True"
| "path h (x # xs) r \<longleftrightarrow> next_free_block (h x) = Some (hd (xs @ [r])) \<and> path h xs r"

definition clear_links :: "bref list \<Rightarrow> heap \<Rightarrow> heap" where
  "clear_links bs h = fold (\<lambda>b h. set_next b None (set_prev b None h)) bs h"

lemma clear_links_simps [simp]:
  "next_free_block (clear_links bs h s) = (if s \<in> set bs then None else next_free_block (h s))"
  "prev_free_block (clear_links bs h s) = (if s \<in> set bs then None else prev_free_block (h s))"
  "block_id (clear_links bs h s) = block_id (h s)"
  "data_of (clear_links bs h s) = data_of (h s)"
  by (induction bs arbitrary: h) (auto simp: clear_links_def)

lemma path_frame:
  "(\<And>s. s \<in> set xs \<Longrightarrow> next_free_block (h' s) = next_free_block (h s)) \<Longrightarrow> path h' xs r = path h xs r"
  by (induction xs) auto

lemma seg_path: "seg h p xs r \<Longrightarrow> path h xs r"
  by (induction xs arbitrary: p) (auto dest: seg_first)

lemma fq_pop_loop_path:
  assumes "path h (bs @ cs) r" "distinct (bs @ cs)"
  shows "fq_pop_loop (length bs) h l (Some (hd (bs @ cs @ [r]))) =
    Inr (clear_links bs h, l - (\<lambda>b. block_id (h b)) ` set bs, Some (hd (cs @ [r])), bs)"
  using assms
proof (induction bs arbitrary: h l)
  case Nil
  then show ?case by (simp add: clear_links_def)
next
  case (Cons b bs)
  let ?h = "set_next b None (set_prev b None h)"
  have "path ?h (bs @ cs) r = path h (bs @ cs) r"
    by (rule path_frame) (use Cons.prems in auto)
  then have "fq_pop_loop (length bs) ?h (l - {block_id (h b)}) (Some (hd (bs @ cs @ [r]))) =
    Inr (clear_links bs ?h, l - {block_id (h b)} - (\<lambda>b. block_id (?h b)) ` set bs,
         Some (hd (cs @ [r])), bs)"
    using Cons.prems by (intro Cons.IH) auto
  moreover have "clear_links (b # bs) h = clear_links bs ?h" by (simp add: clear_links_def)
  ultimately show ?case using Cons.prems by auto
qed

lemma seg_restart:
  assumes "seg h x cs r" "x \<notin> set cs" "distinct cs" "a \<notin> set cs" "r \<notin> set cs"
    and "\<And>s. s \<in> set cs \<Longrightarrow> next_free_block (h' s) = next_free_block (h s)"
    and "\<And>s. s \<in> insert r (set (tl cs)) \<Longrightarrow> s \<noteq> hd (cs @ [r]) \<Longrightarrow>
             prev_free_block (h' s) = prev_free_block (h s)"
    and "next_free_block (h' a) = Some (hd (cs @ [r]))"
    and "prev_free_block (h' (hd (cs @ [r]))) = Some a"
  shows "seg h' a cs r"
proof (cases cs)
  case (Cons c cs')
  have "seg h' c cs' r = seg h c cs' r"
    by (rule seg_frame) (use assms Cons in auto)
  with assms Cons show ?thesis by simp
qed (use assms in simp)

lemma fq_popleft_n_repr:
  assumes "queue_repr h q (bs @ cs)"
  obtains h' q' where "fq_popleft_n h q (int (length bs)) = Inr (h', q', bs)"
    "queue_repr h' q' cs" "same_data h h'" "fq_pool_id q' = fq_pool_id q"
proof (cases "bs = []")
  case True
  with assms that show thesis by (simp add: fq_popleft_n_def)
next
  case False
  note d = queue_reprD[OF assms]
  let ?c = "hd (cs @ [FakeTail])"
  let ?h = "set_prev ?c (Some FakeHead) (set_next FakeHead (Some ?c) (clear_links bs h))"
  let ?q = "q\<lparr>num_free_blocks := num_free_blocks q - int (length bs),
              linked := linked q - (\<lambda>b. block_id (h b)) ` set bs\<rparr>"
  have "next_free_block (h FakeHead) = Some (hd (bs @ cs @ [FakeTail]))"
    using seg_first[OF d(1)] by simp
  then have run: "fq_popleft_n h q (int (length bs)) = Inr (?h, ?q, bs)"
    using False fq_pop_loop_path[OF seg_path[OF d(1)] d(2)] assms d(7)
    by (simp add: fq_popleft_n_def)
  obtain bs' b where bs: "bs = bs' @ [b]" using False by (metis append_butlast_last_id)
  then have "seg h b cs FakeTail" using d(1) seg_append[of h FakeHead bs' b cs] by simp
  then have "seg ?h FakeHead cs FakeTail"
    by (rule seg_restart)
      (use d bs hd_snoc_in[of cs FakeTail] list.set_sel(2)[of cs] in fastforce)+
  moreover have "(\<lambda>r. block_id (h r)) ` set (bs @ cs) - (\<lambda>r. block_id (h r)) ` set bs
                 = (\<lambda>r. block_id (h r)) ` set cs"
    using d(2,8) by (fastforce simp: inj_on_def)
  moreover have "inj_on (\<lambda>r. block_id (h r)) (set cs)"
    using d(8) by (rule inj_on_subset) auto
  moreover have "unlinked ?h r" if "r \<notin> set cs" "r \<noteq> FakeHead" "r \<noteq> FakeTail" for r
    using d(9)[of r] that hd_snoc_in[of cs FakeTail] by (auto simp: unlinked_def)
  moreover have "same_data h ?h" by (simp add: same_data_def)
  ultimately have "queue_repr ?h ?q cs"
    using d by (auto simp: queue_repr_def)
  with run that \<open>same_data h ?h\<close> show thesis by simp
qed


subsection \<open>Putting blocks back\<close>

fun chain :: "heap \<Rightarrow> bref \<Rightarrow> bref list \<Rightarrow> bool" where
  "chain h p [] = True"
| "chain h p (x # xs) \<longleftrightarrow>
     next_free_block (h p) = Some x \<and> prev_free_block (h x) = Some p \<and> chain h x xs"

lemma seg_chain:
  "seg h p xs r \<longleftrightarrow> chain h p xs \<and> next_free_block (h (last (p # xs))) = Some r \<and>
     prev_free_block (h r) = Some (last (p # xs))"
  by (induction xs arbitrary: p) auto

lemma chain_frame:
  assumes "\<And>s. s \<in> set (butlast (p # xs)) \<Longrightarrow> next_free_block (h' s) = next_free_block (h s)"
    and "\<And>s. s \<in> set xs \<Longrightarrow> prev_free_block (h' s) = prev_free_block (h s)"
  shows "chain h' p xs = chain h p xs"
  using assms by (induction xs arbitrary: p) auto

text \<open>Blocks that may enter the list: distinct, unlinked, with fresh ids.\<close>

definition fresh_blocks :: "heap \<Rightarrow> int set \<Rightarrow> bref list \<Rightarrow> bool" where
  "fresh_blocks h l bs \<longleftrightarrow>
     distinct bs \<and> FakeHead \<notin> set bs \<and> FakeTail \<notin> set bs \<and> (\<forall>b \<in> set bs. unlinked h b) \<and>
     inj_on (\<lambda>b. block_id (h b)) (set bs) \<and> (\<lambda>b. block_id (h b)) ` set bs \<inter> l = {}"

lemma fq_link_loop_fresh:
  assumes "distinct bs" "\<forall>b \<in> set bs. unlinked h b" "prev \<notin> set bs"
    "inj_on (\<lambda>b. block_id (h b)) (set bs)" "(\<lambda>b. block_id (h b)) ` set bs \<inter> l = {}"
  shows "\<exists>h'. fq_link_loop bs h l prev =
            Inr (h', l \<union> (\<lambda>b. block_id (h b)) ` set bs, last (prev # bs)) \<and>
          chain h' prev bs \<and> same_data h h' \<and>
          (\<forall>s. s \<notin> set (butlast (prev # bs)) \<longrightarrow> next_free_block (h' s) = next_free_block (h s)) \<and>
          (\<forall>s. s \<notin> set bs \<longrightarrow> prev_free_block (h' s) = prev_free_block (h s))"
  using assms
proof (induction bs arbitrary: h l prev)
  case (Cons b bs)
  let ?h = "set_next prev (Some b) (set_prev b (Some prev) h)"
  have un: "\<forall>c \<in> set bs. unlinked ?h c" using Cons.prems by (auto simp: unlinked_def)
  obtain h' where h':
    "fq_link_loop bs ?h (insert (block_id (h b)) l) b =
       Inr (h', insert (block_id (h b)) l \<union> (\<lambda>c. block_id (?h c)) ` set bs, last (b # bs))"
    "chain h' b bs" "same_data ?h h'"
    "\<forall>s. s \<notin> set (butlast (b # bs)) \<longrightarrow> next_free_block (h' s) = next_free_block (?h s)"
    "\<forall>s. s \<notin> set bs \<longrightarrow> prev_free_block (h' s) = prev_free_block (?h s)"
    using Cons.IH[of ?h b "insert (block_id (h b)) l"] Cons.prems un by auto
  have step: "fq_link_loop (b # bs) h l prev = fq_link_loop bs ?h (insert (block_id (h b)) l) b"
    using Cons.prems by (simp add: assert_unlinked_def assert_new_to_list_def unlinked_def)
  have "prev \<notin> set (butlast (b # bs))"
    using Cons.prems(3) in_set_butlastD[of prev "b # bs"] by auto
  then have "chain h' prev (b # bs)" using h' Cons.prems by simp
  moreover have "same_data h h'" using h'(3) by (simp add: same_data_def)
  ultimately show ?case
    using h' step \<open>prev \<notin> set (butlast (b # bs))\<close> by (intro exI[of _ h']) auto
qed simp

lemma queue_repr_inserted:
  assumes "queue_repr h q xs" "fresh_blocks h (linked q) bs" "same_data h h'"
    and "set ys = set xs \<union> set bs" "length ys = length xs + length bs" "distinct ys"
    and "seg h' FakeHead ys FakeTail" "next_free_block (h' FakeTail) = None"
    and "\<And>s. s \<notin> set ys \<Longrightarrow> s \<noteq> FakeHead \<Longrightarrow> s \<noteq> FakeTail \<Longrightarrow>
           next_free_block (h' s) = next_free_block (h s) \<and> prev_free_block (h' s) = prev_free_block (h s)"
  shows "queue_repr h' (q\<lparr>linked := linked q \<union> (\<lambda>b. block_id (h b)) ` set bs,
            num_free_blocks := num_free_blocks q + int (length bs)\<rparr>) ys"
proof -
  note d = queue_reprD[OF assms(1)]
  have "inj_on (\<lambda>r. block_id (h' r)) (set ys)"
    using d(6,8) assms(2) unfolding assms(4) same_data_fields(1)[OF assms(3)] fresh_blocks_def
    by (intro inj_on_Un_image_disjoint) simp_all
  moreover have "unlinked h' s" if "s \<notin> set ys" "s \<noteq> FakeHead" "s \<noteq> FakeTail" for s
    using assms(9)[OF that] d(9)[of s] that assms(4) by (simp add: unlinked_def)
  moreover have "linked q \<union> (\<lambda>b. block_id (h b)) ` set bs = (\<lambda>r. block_id (h' r)) ` set ys"
    by (simp add: assms(4) same_data_fields(1)[OF assms(3)] d(6) image_Un)
  moreover have "FakeHead \<notin> set ys" "FakeTail \<notin> set ys"
    using d(3,4) assms(2,4) by (simp_all add: fresh_blocks_def)
  moreover have "num_free_blocks q + int (length bs) = int (length ys)"
    using d(7) assms(5) by simp
  ultimately show ?thesis
    unfolding queue_repr_def using assms(6-8) by simp
qed

lemma fq_prepend_n_repr:
  assumes "queue_repr h q xs" "fresh_blocks h (linked q) bs"
  obtains h' q' where "fq_prepend_n h q bs = Inr (h', q')" "queue_repr h' q' (bs @ xs)"
    "same_data h h'" "fq_pool_id q' = fq_pool_id q"
proof (cases "bs = []")
  case True
  with assms that show thesis by (simp add: fq_prepend_n_def)
next
  case False
  note d = queue_reprD[OF assms(1)] and f = assms(2)[unfolded fresh_blocks_def]
  have disj: "set bs \<inter> set xs = {}" using f d(6) by auto
  obtain h1 where h1: "fq_link_loop bs h (linked q) FakeHead =
        Inr (h1, linked q \<union> (\<lambda>b. block_id (h b)) ` set bs, last (FakeHead # bs))"
    "chain h1 FakeHead bs" "same_data h h1"
    "\<forall>s. s \<notin> set (butlast (FakeHead # bs)) \<longrightarrow> next_free_block (h1 s) = next_free_block (h s)"
    "\<forall>s. s \<notin> set bs \<longrightarrow> prev_free_block (h1 s) = prev_free_block (h s)"
    using fq_link_loop_fresh[of bs h FakeHead "linked q"] f by auto
  define b where "b = last bs"
  define c where "c = hd (xs @ [FakeTail])"
  define h' where "h' = set_prev c (Some b) (set_next b (Some c) h1)"
  have c: "next_free_block (h FakeHead) = Some c" using seg_first[OF d(1)] by (simp add: c_def)
  have b: "b \<in> set bs" "last (FakeHead # bs) = b" using False by (auto simp: b_def)
  have cin: "c \<in> insert FakeTail (set xs)" using hd_snoc_in by (simp add: c_def)
  have nb: "b \<notin> set (butlast (FakeHead # bs))"
  proof -
    have "distinct (FakeHead # bs)" using f by auto
    then show ?thesis using b(2) by (metis append_butlast_last_id distinct_append list.distinct(1)
          distinct.simps(2) in_set_conv_decomp not_distinct_conv_prefix)
  qed
  have sbl: "set (butlast (FakeHead # bs)) \<subseteq> insert FakeHead (set bs)"
    by (auto dest: in_set_butlastD)
  have "chain h' FakeHead bs = chain h1 FakeHead bs"
    by (rule chain_frame) (use nb cin disj f in \<open>auto simp: h'_def\<close>)
  then have left: "seg h' FakeHead bs c"
    using h1(2) b by (simp add: seg_chain h'_def)
  have "seg h' FakeHead (bs @ xs) FakeTail"
  proof (cases xs)
    case Nil
    with left show ?thesis by (simp add: c_def)
  next
    case (Cons y ys)
    have "seg h' y ys FakeTail = seg h y ys FakeTail"
      by (rule seg_frame) (use Cons disj f d h1 sbl b in \<open>auto simp: h'_def c_def\<close>)
    then show ?thesis using d(1) left Cons by (simp add: seg_append c_def)
  qed
  moreover have "same_data h h'" using h1(3) by (simp add: h'_def)
  moreover have "FakeTail \<notin> set (butlast (FakeHead # bs))" using sbl f by auto
  then have "next_free_block (h' FakeTail) = None" using h1(4) d(5) b f by (auto simp: h'_def)
  moreover have "next_free_block (h' s) = next_free_block (h s) \<and>
      prev_free_block (h' s) = prev_free_block (h s)"
    if "s \<notin> set (bs @ xs)" "s \<noteq> FakeHead" "s \<noteq> FakeTail" for s
    using that h1(4,5) sbl b cin by (auto simp: h'_def)
  ultimately have "queue_repr h' (q\<lparr>linked := linked q \<union> (\<lambda>b. block_id (h b)) ` set bs,
      num_free_blocks := num_free_blocks q + int (length bs)\<rparr>) (bs @ xs)"
    by (intro queue_repr_inserted[OF assms(1,2)]) (use d(2) f disj in auto)
  moreover have "fq_prepend_n h q bs = Inr (h', q\<lparr>linked := linked q \<union> (\<lambda>b. block_id (h b)) ` set bs,
      num_free_blocks := num_free_blocks q + int (length bs)\<rparr>)"
    using False assms(1) h1(1) c b(2) by (simp add: fq_prepend_n_def h'_def Let_def)
  ultimately show thesis using that \<open>same_data h h'\<close> by simp
qed


lemma fq_append_n_repr:
  assumes "queue_repr h q xs" "fresh_blocks h (linked q) bs"
  obtains h' q' where "fq_append_n h q bs = Inr (h', q')" "queue_repr h' q' (xs @ bs)"
    "same_data h h'" "fq_pool_id q' = fq_pool_id q"
proof (cases bs)
  case Nil
  with assms that show thesis by (simp add: fq_append_n_def)
next
  case (Cons b0 bs0)
  note d = queue_reprD[OF assms(1)] and f = assms(2)[unfolded fresh_blocks_def]
  have disj: "set bs \<inter> set xs = {}" using f d(6) by auto
  define p where "p = last (FakeHead # xs)"
  have p: "prev_free_block (h FakeTail) = Some p" using seg_last[OF d(1)] by (simp add: p_def)
  have pin: "p \<in> insert FakeHead (set xs)" by (simp add: p_def)
  then have pbs: "p \<notin> set bs" using disj f by auto
  obtain h1 where h1: "fq_link_loop bs h (linked q) p =
        Inr (h1, linked q \<union> (\<lambda>b. block_id (h b)) ` set bs, last (p # bs))"
    "chain h1 p bs" "same_data h h1"
    "\<forall>s. s \<notin> set (butlast (p # bs)) \<longrightarrow> next_free_block (h1 s) = next_free_block (h s)"
    "\<forall>s. s \<notin> set bs \<longrightarrow> prev_free_block (h1 s) = prev_free_block (h s)"
    using fq_link_loop_fresh[of bs h p "linked q"] f pbs by auto
  define b where "b = last bs"
  define h' where "h' = set_prev FakeTail (Some b) (set_next b (Some FakeTail) h1)"
  have b: "b \<in> set bs" "last (p # bs) = b" using Cons by (auto simp: b_def)
  have dp: "distinct (p # bs)" using pbs f by simp
  have nb: "b \<notin> set (butlast (p # bs))"
    using dp b(2) by (metis append_butlast_last_id distinct_append list.distinct(1)
        distinct.simps(2) in_set_conv_decomp not_distinct_conv_prefix)
  have sbl: "set (butlast (p # bs)) \<subseteq> insert p (set bs)" by (auto dest: in_set_butlastD)
  have "chain h' p bs = chain h1 p bs"
    by (rule chain_frame) (use nb f in \<open>auto simp: h'_def\<close>)
  then have right: "seg h' p bs FakeTail" using h1(2) b by (simp add: seg_chain h'_def)
  have "chain h' FakeHead xs = chain h FakeHead xs"
  proof (rule chain_frame)
    fix s assume s: "s \<in> set (butlast (FakeHead # xs))"
    then have "s \<in> insert FakeHead (set xs)"
      by (auto dest: in_set_butlastD split: if_splits)
    moreover have "s \<noteq> p"
    proof -
      have "distinct (FakeHead # xs)" using d by simp
      then show ?thesis using s unfolding p_def
        by (metis append_butlast_last_id distinct_append list.distinct(1)
            distinct.simps(2) in_set_conv_decomp not_distinct_conv_prefix)
    qed
    ultimately have "s \<notin> insert p (set bs)" using disj f by auto
    then have "s \<notin> set (butlast (p # bs))" "s \<noteq> b" using sbl b by auto
    then show "next_free_block (h' s) = next_free_block (h s)" using h1(4) by (simp add: h'_def)
  next
    fix s assume "s \<in> set xs"
    then have "s \<notin> set bs" "s \<noteq> FakeTail" using disj d by auto
    then show "prev_free_block (h' s) = prev_free_block (h s)" using h1(5) by (simp add: h'_def)
  qed
  then have left: "chain h' FakeHead xs" using d(1) by (simp add: seg_chain)
  have "seg h' FakeHead (xs @ bs) FakeTail"
    using left right unfolding Cons by (simp add: seg_append seg_chain[of h' FakeHead xs] p_def)
  moreover have "same_data h h'" using h1(3) by (simp add: h'_def)
  moreover have "FakeTail \<notin> set (butlast (p # bs))" using sbl f pin d(4) by auto
  then have "next_free_block (h' FakeTail) = None" using h1(4) d(5) b f by (auto simp: h'_def)
  moreover have "next_free_block (h' s) = next_free_block (h s) \<and>
      prev_free_block (h' s) = prev_free_block (h s)"
    if "s \<notin> set (xs @ bs)" "s \<noteq> FakeHead" "s \<noteq> FakeTail" for s
  proof -
    have "s \<notin> set (butlast (p # bs))" "s \<noteq> b" using that sbl b pin by auto
    then show ?thesis using that h1(4,5) by (simp add: h'_def)
  qed
  ultimately have "queue_repr h' (q\<lparr>linked := linked q \<union> (\<lambda>b. block_id (h b)) ` set bs,
      num_free_blocks := num_free_blocks q + int (length bs)\<rparr>) (xs @ bs)"
    by (intro queue_repr_inserted[OF assms(1,2)]) (use d(2) f disj in auto)
  moreover have "fq_append_n h q bs = Inr (h', q\<lparr>linked := linked q \<union> (\<lambda>b. block_id (h b)) ` set bs,
      num_free_blocks := num_free_blocks q + int (length bs)\<rparr>)"
    using Cons assms(1) h1(1) p b(2) by (simp add: fq_append_n_def h'_def Let_def)
  ultimately show thesis using that \<open>same_data h h'\<close> by simp
qed

lemma set_next_set_prev: "set_next r v (set_prev s w h) = set_prev s w (set_next r v h)"
  by (simp add: set_next_def set_prev_def fun_eq_iff)

lemma fq_append_eq_append_n:
  "prev_free_block (h FakeTail) \<noteq> None \<Longrightarrow> fq_append h q b = fq_append_n h q [b]"
  by (auto simp: fq_append_def fq_append_n_def Let_def set_next_set_prev guard_def
      assert_unlinked_def assert_new_to_list_def split: option.splits)

lemma fq_append_repr:
  assumes "queue_repr h q xs" "fresh_blocks h (linked q) [b]"
  obtains h' q' where "fq_append h q b = Inr (h', q')" "queue_repr h' q' (xs @ [b])"
    "same_data h h'" "fq_pool_id q' = fq_pool_id q"
proof -
  have "prev_free_block (h FakeTail) \<noteq> None"
    using seg_last[OF queue_reprD(1)[OF assms(1)]] by simp
  then show thesis using fq_append_n_repr[OF assms] that by (metis fq_append_eq_append_n)
qed

lemma fq_append_double_free:
  assumes "queue_repr h q xs" "b \<in> set xs"
  shows "fq_append h q b = Inl RuntimeError"
proof -
  have "prev_free_block (h FakeTail) = Some (last (FakeHead # xs))" "prev_free_block (h b) \<noteq> None"
    using queue_reprD(1)[OF assms(1)] assms(2) seg_last seg_in_linked(2) by blast+
  then show ?thesis using assms(1) by (simp add: fq_append_def assert_unlinked_def)
qed

lemma fq_check_diverged: "int (card (linked q)) \<noteq> num_free_blocks q \<Longrightarrow> fq_check q = Inl RuntimeError"
  by (simp add: fq_check_def)

subsection \<open>Pointer walks\<close>

lemma fq_walk_path:
  assumes "path h xs FakeTail" "next_free_block (h FakeTail) = None"
  shows "fq_walk h (hd (xs @ [FakeTail])) acc = Some (acc @ xs)"
  using assms by (induction xs arbitrary: acc) (auto simp: fq_walk.simps)

lemma get_all_free_blocks_repr:
  assumes "queue_repr h q xs"
  shows "get_all_free_blocks h = Some (Inr xs)"
proof -
  note d = queue_reprD[OF assms]
  show ?thesis
    using seg_first[OF d(1)] fq_walk_path[OF seg_path[OF d(1)] d(5), of "[]"]
    by (simp add: get_all_free_blocks_def)
qed

lemma fq_iter_path:
  assumes "path h xs FakeTail" "FakeTail \<notin> set xs"
  shows "fq_iter h (Some (hd (xs @ [FakeTail]))) acc = Some (acc @ xs)"
  using assms by (induction xs arbitrary: acc) (auto simp: fq_iter.simps)

lemma iter_blocks_after_None:
  assumes "queue_repr h q xs"
  shows "iter_blocks_after h None = Some xs"
proof -
  note d = queue_reprD[OF assms]
  show ?thesis
    using seg_first[OF d(1)] fq_iter_path[OF seg_path[OF d(1)] d(4), of "[]"]
    by (simp add: iter_blocks_after_def)
qed

lemma iter_blocks_after_Some:
  assumes "queue_repr h q (ys @ c # zs)"
  shows "iter_blocks_after h (Some c) = Some zs"
proof -
  note d = queue_reprD[OF assms]
  have s: "seg h c zs FakeTail" using d(1) by (simp add: seg_append)
  show ?thesis
    using seg_first[OF s] fq_iter_path[OF seg_path[OF s], of "[]"] d(4)
    by (simp add: iter_blocks_after_def)
qed

subsection \<open>Construction\<close>

lemma fq_link_step_simps:
  assumes "distinct bs" "i < length bs"
  shows "next_free_block (fq_link_step bs i h s) =
      (if i + 1 < length bs \<and> s = bs ! i then Some (bs ! (i + 1)) else next_free_block (h s))"
    and "prev_free_block (fq_link_step bs i h s) =
      (if 0 < i \<and> s = bs ! i then Some (bs ! (i - 1)) else prev_free_block (h s))"
    and "data_of (fq_link_step bs i h s) = data_of (h s)"
  by (simp_all add: fq_link_step_def Let_def)


lemma fold_link_steps:
  fixes h :: heap
  assumes "distinct bs" "k \<le> length bs"
  defines "h' \<equiv> fold (fq_link_step bs) [0..<k] h"
  shows "\<And>i. i < k \<Longrightarrow> i + 1 < length bs \<Longrightarrow> next_free_block (h' (bs ! i)) = Some (bs ! (i + 1))"
    and "\<And>i. 0 < i \<Longrightarrow> i < k \<Longrightarrow> prev_free_block (h' (bs ! i)) = Some (bs ! (i - 1))"
    and "\<And>s. s \<notin> set bs \<Longrightarrow> next_free_block (h' s) = next_free_block (h s)"
    and "\<And>s. s \<notin> set bs \<Longrightarrow> prev_free_block (h' s) = prev_free_block (h s)"
    and "same_data h h'"
  using assms(2) unfolding h'_def
proof (induction k)
  case 0
  case 5 show ?case by simp
next
  case (Suc k)
  note st = fq_link_step_simps[OF assms(1), of k]
  { case (1 i) then show ?case using Suc.IH(1) assms(1) by (auto simp: st less_Suc_eq nth_eq_iff_index_eq) }
  { case (2 i) then show ?case using Suc.IH(2) assms(1) by (auto simp: st less_Suc_eq nth_eq_iff_index_eq) }
  { case (3 s) then show ?case using Suc.IH(3) by (auto simp: st) }
  { case (4 s) then show ?case using Suc.IH(4) by (auto simp: st) }
  { case 5 then show ?case using Suc.IH(5) by (simp add: same_data_def st) }
qed simp_all

lemma chain_nth:
  assumes "\<And>i. i < length xs \<Longrightarrow> next_free_block (h ((p # xs) ! i)) = Some (xs ! i)"
    and "\<And>i. i < length xs \<Longrightarrow> prev_free_block (h (xs ! i)) = Some ((p # xs) ! i)"
  shows "chain h p xs"
  using assms
proof (induction xs arbitrary: p)
  case (Cons x xs)
  have "chain h x xs"
    by (rule Cons.IH) (use Cons.prems(1)[of "Suc _"] Cons.prems(2)[of "Suc _"] in auto)
  then show ?case using Cons.prems(1)[of 0] Cons.prems(2)[of 0] by simp
qed simp

lemma fq_init_repr:
  assumes "distinct bs" "FakeHead \<notin> set bs" "FakeTail \<notin> set bs" "\<And>r. unlinked h r"
    and "inj_on (\<lambda>b. block_id (h b)) (set bs)" and "fq_init h bs = (h', q)"
  shows "queue_repr h' q bs" and "\<And>r. r \<noteq> FakeHead \<Longrightarrow> r \<noteq> FakeTail \<Longrightarrow> data_of (h' r) = data_of (h r)"
proof -
  let ?n = "length bs"
  define h1 where "h1 = fold (fq_link_step bs) [0..<?n] h"
  define h2 where "h2 = h1(FakeHead := new_block (-1) 0, FakeTail := new_block (-1) 0)"
  note l = fold_link_steps[OF assms(1) order.refl, where h = h, folded h1_def]
  have h': "h' = (if 0 < ?n then set_next (bs ! (?n - 1)) (Some FakeTail)
                (set_prev FakeTail (Some (bs ! (?n - 1)))
                  (set_prev (bs ! 0) (Some FakeHead) (set_next FakeHead (Some (bs ! 0)) h2)))
            else set_prev FakeTail (Some FakeHead) (set_next FakeHead (Some FakeTail) h2))"
    and q: "q = \<lparr>num_free_blocks = int ?n, linked = (\<lambda>r. block_id (h2 r)) ` set bs, fq_pool_id = -1\<rparr>"
    using assms(6) by (auto simp: fq_init_def Let_def h1_def h2_def split: if_splits)
  have bi: "bs ! i \<noteq> FakeHead" "bs ! i \<noteq> FakeTail" if "i < ?n" for i
    using that assms(2,3) nth_mem by metis+
  have data: "data_of (h' r) = data_of (h r)" if "r \<noteq> FakeHead" "r \<noteq> FakeTail" for r
    using l(5) that by (simp add: h' h2_def same_data_def)
  have ids: "block_id (h' b) = block_id (h b)" "block_id (h2 b) = block_id (h b)" if "b \<in> set bs" for b
  proof -
    have "b \<noteq> FakeHead" "b \<noteq> FakeTail" using that assms(2,3) by auto
    then show "block_id (h' b) = block_id (h b)" "block_id (h2 b) = block_id (h b)"
      using data_of_fields(1)[OF data] same_data_fields(1)[OF l(5)] by (simp_all add: h2_def)
  qed
  have "chain h' FakeHead bs"
  proof (rule chain_nth)
    fix i assume "i < ?n"
    then show "next_free_block (h' ((FakeHead # bs) ! i)) = Some (bs ! i)"
      using l(1)[of "i - 1"] bi[of "i - 1"] bi[of "?n - 1"] assms(1)
      by (cases i) (auto simp: h' h2_def nth_eq_iff_index_eq)
    show "prev_free_block (h' (bs ! i)) = Some ((FakeHead # bs) ! i)"
      using l(2)[of i] bi[OF \<open>i < ?n\<close>] assms(1) \<open>i < ?n\<close>
      by (cases i) (auto simp: h' h2_def nth_eq_iff_index_eq)
  qed
  moreover have "next_free_block (h' (last (FakeHead # bs))) = Some FakeTail"
    "prev_free_block (h' FakeTail) = Some (last (FakeHead # bs))"
    using bi[of 0] bi[of "?n - 1"] by (auto simp: h' h2_def last_conv_nth)
  ultimately have "seg h' FakeHead bs FakeTail" by (simp add: seg_chain)
  moreover have "next_free_block (h' FakeTail) = None"
    using bi[of "?n - 1"] by (cases "bs = []") (auto simp: h' h2_def new_block_def)
  moreover have "unlinked h' r" if "r \<notin> set bs" "r \<noteq> FakeHead" "r \<noteq> FakeTail" for r
  proof -
    have "r \<noteq> bs ! 0" "r \<noteq> bs ! (?n - 1)" if "0 < ?n"
      using that \<open>r \<notin> set bs\<close> nth_mem[of 0 bs] nth_mem[of "?n - 1" bs] by (metis diff_less zero_less_one)+
    then show ?thesis using that l(3,4) assms(4)[of r] by (auto simp: h' h2_def unlinked_def)
  qed
  moreover have "inj_on (\<lambda>r. block_id (h' r)) (set bs)"
    using assms(5) ids(1) by (simp add: inj_on_def)
  ultimately show "queue_repr h' q bs"
    using assms(1-3) ids unfolding queue_repr_def q by simp
  show "data_of (h' r) = data_of (h r)" if "r \<noteq> FakeHead" "r \<noteq> FakeTail" for r
    using that by (rule data)
qed

subsection \<open>The free list as an eviction list\<close>

text \<open>The operations as the block pool calls them, on the pair of heap and queue.\<close>

type_synonym fq_state = "heap \<times> free_queue"

definition popn_st :: "fq_state \<Rightarrow> int \<Rightarrow> (fq_state \<times> bref list) res" where
  "popn_st s n = rbind (fq_popleft_n (fst s) (snd s) n) (\<lambda>(h, q, bs). Inr ((h, q), bs))"

definition fresh_st :: "fq_state \<Rightarrow> bref list \<Rightarrow> bool" where
  "fresh_st s bs = fresh_blocks (fst s) (linked (snd s)) bs"

lemma fresh_blocks_append:
  "fresh_blocks h l (bs @ cs) \<Longrightarrow> fresh_blocks h l bs"
  by (auto simp: fresh_blocks_def inj_on_Un)

lemma fresh_after_pop:
  assumes "queue_repr h q (bs @ cs)" "queue_repr h' q' cs" "same_data h h'"
  shows "fresh_blocks h' (linked q') bs"
proof -
  note d = queue_reprD[OF assms(1)] and d' = queue_reprD[OF assms(2)]
  have ids: "(\<lambda>b. block_id (h' b)) = (\<lambda>b. block_id (h b))"
    using same_data_fields(1)[OF assms(3)] by simp
  have "distinct bs" "set bs \<inter> set cs = {}" "FakeHead \<notin> set bs" "FakeTail \<notin> set bs"
    using d(2-4) by auto
  moreover have "\<forall>b \<in> set bs. unlinked h' b"
  proof
    fix b assume "b \<in> set bs"
    with calculation show "unlinked h' b" by (intro d'(9)) auto
  qed
  moreover have "inj_on (\<lambda>b. block_id (h b)) (set bs)" using d(8) by (auto simp: inj_on_Un)
  moreover have "(\<lambda>b. block_id (h b)) ` set bs \<inter> (\<lambda>b. block_id (h b)) ` set cs = {}"
    using inj_on_image_Int[OF d(8), of "set bs" "set cs"] calculation(2) by simp
  ultimately show ?thesis unfolding fresh_blocks_def d'(6) ids by blast
qed

lemma fresh_after_put:
  assumes "queue_repr h q xs" "fresh_blocks h (linked q) (bs @ cs)"
    and "queue_repr h' q' (bs @ xs)" "same_data h h'"
  shows "fresh_blocks h' (linked q') cs"
proof -
  note d = queue_reprD[OF assms(1)] and d' = queue_reprD[OF assms(3)]
  note f = assms(2)[unfolded fresh_blocks_def d(6)]
  have ids: "(\<lambda>b. block_id (h' b)) = (\<lambda>b. block_id (h b))"
    using same_data_fields(1)[OF assms(4)] by simp
  have "set cs \<inter> set (bs @ xs) = {}" using f by auto
  moreover have "\<forall>c \<in> set cs. unlinked h' c"
  proof
    fix c assume "c \<in> set cs"
    with calculation f show "unlinked h' c" by (intro d'(9)) auto
  qed
  moreover have "inj_on (\<lambda>b. block_id (h b)) (set cs)" using f by (auto simp: inj_on_Un)
  moreover have "(\<lambda>b. block_id (h b)) ` set cs \<inter> (\<lambda>b. block_id (h b)) ` set (bs @ xs) = {}"
  proof -
    have "inj_on (\<lambda>b. block_id (h b)) (set bs \<union> set cs)" using f by simp
    from inj_on_image_Int[OF this, of "set cs" "set bs"] f show ?thesis by (auto simp: Int_commute)
  qed
  ultimately show ?thesis using f unfolding fresh_blocks_def d'(6) ids by auto
qed

interpretation flist: eviction_list "\<lambda>s. queue_repr (fst s) (snd s)" fresh_st
  "\<lambda>s t. same_data (fst s) (fst t) \<and> fq_pool_id (snd t) = fq_pool_id (snd s)" popn_st
  "\<lambda>s. fq_remove (fst s) (snd s)" "\<lambda>s. fq_prepend_n (fst s) (snd s)"
  "\<lambda>s. fq_append_n (fst s) (snd s)"
proof unfold_locales
  fix s s' t u :: fq_state and xs ys bs cs :: "bref list" and x :: bref
  show "queue_repr (fst s) (snd s) xs \<Longrightarrow> queue_repr (fst s) (snd s) ys \<Longrightarrow> xs = ys"
    by (metis get_all_free_blocks_repr option.inject sum.inject(2))
  show "fresh_st s (bs @ cs) \<Longrightarrow> fresh_st s bs"
    unfolding fresh_st_def by (rule fresh_blocks_append)
  show "queue_repr (fst s) (snd s) (bs @ cs) \<Longrightarrow> \<exists>s'. popn_st s (int (length bs)) = Inr (s', bs) \<and>
      queue_repr (fst s') (snd s') cs \<and> fresh_st s' bs \<and>
      same_data (fst s) (fst s') \<and> fq_pool_id (snd s') = fq_pool_id (snd s)"
    using fq_popleft_n_repr[of "fst s" "snd s" bs cs] fresh_after_pop[of "fst s" "snd s" bs cs]
    by (fastforce simp: popn_st_def fresh_st_def)
  show "queue_repr (fst s) (snd s) xs \<Longrightarrow> fresh_st s bs \<Longrightarrow>
      \<exists>s'. fq_prepend_n (fst s) (snd s) bs = Inr s' \<and> queue_repr (fst s') (snd s') (bs @ xs) \<and>
      same_data (fst s) (fst s') \<and> fq_pool_id (snd s') = fq_pool_id (snd s)"
    using fq_prepend_n_repr[of "fst s" "snd s" xs bs] by (fastforce simp: fresh_st_def)
  show "queue_repr (fst s) (snd s) xs \<Longrightarrow> fresh_st s bs \<Longrightarrow>
      \<exists>s'. fq_append_n (fst s) (snd s) bs = Inr s' \<and> queue_repr (fst s') (snd s') (xs @ bs) \<and>
      same_data (fst s) (fst s') \<and> fq_pool_id (snd s') = fq_pool_id (snd s)"
    using fq_append_n_repr[of "fst s" "snd s" xs bs] by (fastforce simp: fresh_st_def)
  show "fresh_st s' cs" if "queue_repr (fst s) (snd s) xs" "fresh_st s (bs @ cs)"
    "fq_prepend_n (fst s) (snd s) bs = Inr s'"
    using that fq_prepend_n_repr[OF that(1) fresh_blocks_append[OF that(2)[unfolded fresh_st_def]]]
      fresh_after_put[OF that(1) that(2)[unfolded fresh_st_def]]
    by (metis fresh_st_def fst_conv snd_conv sum.inject(2))
  show "\<exists>s'. fq_remove (fst s) (snd s) x = Inr s' \<and> queue_repr (fst s') (snd s') (remove1 x xs) \<and>
      fresh_st s' [x] \<and> same_data (fst s) (fst s') \<and> fq_pool_id (snd s') = fq_pool_id (snd s)"
    if "queue_repr (fst s) (snd s) xs" "x \<in> set xs"
  proof -
    note d = queue_reprD[OF that(1)] and rm = fq_remove_in[OF that]
    obtain h' q' where r: "fq_remove (fst s) (snd s) x = Inr (h', q')"
      "queue_repr h' q' (remove1 x xs)" "same_data (fst s) h'" "fq_pool_id q' = fq_pool_id (snd s)"
      by (rule rm)
    note d' = queue_reprD[OF r(2)]
    have x: "x \<noteq> FakeHead" "x \<noteq> FakeTail" "x \<notin> set (remove1 x xs)"
      using that(2) d(2-4) by auto
    have "unlinked h' x" by (rule d'(9)[OF x(3,1,2)])
    moreover have "block_id (h' x) \<notin> linked q'"
      using inj_onD[OF d(8)] that(2) x(3) set_remove1_subset[of x xs]
      unfolding d'(6) same_data_fields(1)[OF r(3)] by auto
    ultimately have "fresh_blocks h' (linked q') [x]" using x by (simp add: fresh_blocks_def)
    with r show ?thesis by (auto simp: fresh_st_def)
  qed
qed (auto intro: same_data_trans)

end
