(* ===== verification/Hash_Keys.thy ===== *)
theory Hash_Keys
  imports Prelude
begin

text \<open>
  The keys of the prefix cache (\<^verbatim>\<open>vllm/v1/core/kv_cache_utils.py\<close>): a block hash and the
  id of its KV-cache group packed into one byte string, and the external form of a hash in
  KV events.  The lemmas show that packing is injective and that unpacking inverts it.
\<close>

type_synonym block_hash_key = bytes

text \<open>Python's \<open>int.to_bytes(4, "big", signed=False)\<close> and \<open>int.from_bytes(_, "big")\<close>.\<close>

definition to_bytes4_be :: "int \<Rightarrow> bytes res" where
  "to_bytes4_be g =
     (if 0 \<le> g \<and> g < 2 ^ 32
      then Inr [word_of_int (g div 2 ^ 24), word_of_int (g div 2 ^ 16), word_of_int (g div 2 ^ 8),
                word_of_int g]
      else Inl OverflowError)"

definition from_bytes_be :: "bytes \<Rightarrow> int" where
  "from_bytes_be bs = foldl (\<lambda>n b. n * 256 + uint b) 0 bs"

definition make_block_hash_with_group_id :: "bytes \<Rightarrow> int \<Rightarrow> block_hash_key res" where
  "make_block_hash_with_group_id bh g = rbind (to_bytes4_be g) (\<lambda>gb. Inr (bh @ gb))"

definition get_block_hash :: "block_hash_key \<Rightarrow> bytes" where
  "get_block_hash key = take (length key - 4) key"

definition get_group_id :: "block_hash_key \<Rightarrow> int" where
  "get_group_id key = from_bytes_be (drop (length key - 4) key)"

datatype external_hash = ExtBytes bytes | ExtInt int

text \<open>The flag is \<^verbatim>\<open>envs.VLLM_KV_EVENTS_USE_INT_BLOCK_HASHES\<close>.\<close>

definition maybe_convert_block_hash :: "bool \<Rightarrow> bytes \<Rightarrow> external_hash" where
  "maybe_convert_block_hash use_int h =
     (if \<not> use_int then ExtBytes h else ExtInt (and (from_bytes_be h) (2 ^ 64 - 1)))"

lemma to_bytes4_be_Inr:
  "to_bytes4_be g = Inr bs \<Longrightarrow> 0 \<le> g \<and> g < 2 ^ 32 \<and> length bs = 4"
  by (auto simp: to_bytes4_be_def split: if_splits)

lemma base256_step: "(n div 256) * 256 + n mod 256 = (n::int)"
  by simp

lemma to_bytes4_be_from_bytes: "to_bytes4_be g = Inr bs \<Longrightarrow> from_bytes_be bs = g"
proof -
  assume a: "to_bytes4_be g = Inr bs"
  then have g: "0 \<le> g" "g < 256 * (256 * (256 * 256))" by (auto dest: to_bytes4_be_Inr)
  have d: "g div 65536 = g div 256 div 256" "g div 16777216 = g div 256 div 256 div 256"
    by (simp_all flip: zdiv_zmult2_eq)
  have top: "g div 256 div 256 div 256 mod 256 = g div 256 div 256 div 256"
  proof (rule mod_pos_pos_trivial)
    show "0 \<le> g div 256 div 256 div 256" using g(1) by (simp add: pos_imp_zdiv_nonneg_iff)
    show "g div 256 div 256 div 256 < 256" using g(2) by (simp add: d(2)[symmetric])
  qed
  from a have "from_bytes_be bs =
     (((g div 16777216 mod 256) * 256 + g div 65536 mod 256) * 256 + g div 256 mod 256) * 256 + g mod 256"
    by (auto simp: to_bytes4_be_def from_bytes_be_def uint_word_of_int split: if_splits)
  also have "\<dots> = g"
    unfolding d top base256_step ..
  finally show ?thesis .
qed

lemma key_roundtrip:
  assumes "make_block_hash_with_group_id bh g = Inr key"
  shows "get_block_hash key = bh" "get_group_id key = g"
  using assms to_bytes4_be_Inr to_bytes4_be_from_bytes
  by (auto simp: make_block_hash_with_group_id_def get_block_hash_def get_group_id_def)

lemma make_key_inject:
  assumes "make_block_hash_with_group_id bh g = Inr key"
    and "make_block_hash_with_group_id bh' g' = Inr key"
  shows "bh = bh' \<and> g = g'"
  using key_roundtrip[OF assms(1)] key_roundtrip[OF assms(2)] by simp

lemma make_key_total: "0 \<le> g \<Longrightarrow> g < 2 ^ 32 \<Longrightarrow> \<exists>key. make_block_hash_with_group_id bh g = Inr key"
  by (simp add: make_block_hash_with_group_id_def to_bytes4_be_def)

lemma external_int_bound:
  "maybe_convert_block_hash True h = ExtInt n \<Longrightarrow> 0 \<le> n \<and> n < 2 ^ 64"
proof -
  assume "maybe_convert_block_hash True h = ExtInt n"
  then have "n = take_bit 64 (from_bytes_be h)"
    by (simp add: maybe_convert_block_hash_def take_bit_eq_mask mask_eq_exp_minus_1)
  then show ?thesis using take_bit_int_less_exp[of 64 "from_bytes_be h"] by simp
qed

end
