(* ===== verification/Hash_Index.thy ===== *)
theory Hash_Index
  imports Free_Queue Hash_Keys Interfaces "HOL-Library.AList"
begin

text \<open>
  \<open>BlockHashToBlockMap\<close> of \<^verbatim>\<open>vllm/v1/core/block_pool.py\<close>: from a hash key to one block or
  to a dictionary of blocks by their id.  A dictionary is an association list in insertion
  order, which \<open>AList.update\<close> and \<open>AList.delete\<close> change as Python does; the cache itself is a
  map, since its order is never read.  \<open>_unexpected_blocks_type\<close> is unreachable: the datatype
  has the two cases only.

  Then the view of a list of block hashes at a coarser block size
  (\<open>BlockHashListWithBlockSize\<close>, \<open>resolve_block_hashes\<close>).
\<close>

datatype cached_blocks = OneBlock bref | ManyBlocks "(int \<times> bref) list"

type_synonym hash_map = "block_hash_key \<rightharpoonup> cached_blocks"

definition hm_get_one_block :: "hash_map \<Rightarrow> block_hash_key \<Rightarrow> bref option res" where
  "hm_get_one_block m key =
     (case m key of
        None \<Rightarrow> Inr None
      | Some (OneBlock b) \<Rightarrow> Inr (Some b)
      | Some (ManyBlocks d) \<Rightarrow> (case d of [] \<Rightarrow> Inl StopIteration | (i, b) # _ \<Rightarrow> Inr (Some b)))"

definition hm_contain :: "heap \<Rightarrow> hash_map \<Rightarrow> block_hash_key \<Rightarrow> int \<Rightarrow> bool" where
  "hm_contain h m key bid =
     (case m key of
        None \<Rightarrow> False
      | Some (OneBlock b) \<Rightarrow> block_id (h b) = bid
      | Some (ManyBlocks d) \<Rightarrow> bid \<in> fst ` set d)"

definition hm_insert :: "heap \<Rightarrow> hash_map \<Rightarrow> block_hash_key \<Rightarrow> bref \<Rightarrow> hash_map" where
  "hm_insert h m key b =
     (case m key of
        None \<Rightarrow> m(key \<mapsto> OneBlock b)
      | Some (OneBlock c) \<Rightarrow>
          m(key \<mapsto> ManyBlocks (AList.update (block_id (h b)) b [(block_id (h c), c)]))
      | Some (ManyBlocks d) \<Rightarrow> m(key \<mapsto> ManyBlocks (AList.update (block_id (h b)) b d)))"

definition hm_pop :: "heap \<Rightarrow> hash_map \<Rightarrow> block_hash_key \<Rightarrow> int \<Rightarrow> bref option \<times> hash_map" where
  "hm_pop h m key bid =
     (case m key of
        None \<Rightarrow> (None, m)
      | Some (OneBlock b) \<Rightarrow>
          if block_id (h b) = bid then (Some b, m(key := None)) else (None, m)
      | Some (ManyBlocks d) \<Rightarrow>
          let d' = AList.delete bid d
          in (map_of d bid, if d' \<noteq> [] then m(key \<mapsto> ManyBlocks d') else m(key := None)))"

text \<open>The loop of \<open>_remove_cached_block_hashes\<close>: pop a block under several keys and keep the
  keys that had it.\<close>

fun hm_pop_all ::
  "heap \<Rightarrow> block_hash_key list \<Rightarrow> bref \<Rightarrow> hash_map \<Rightarrow> hash_map \<times> block_hash_key list" where
  "hm_pop_all h [] b m = (m, [])"
| "hm_pop_all h (k # ks) b m =
     (let (r, m1) = hm_pop h m k (block_id (h b)); (m2, ds) = hm_pop_all h ks b m1
      in (m2, if r \<noteq> None then k # ds else ds))"

text \<open>The blocks a key maps to.\<close>

definition hm_at :: "hash_map \<Rightarrow> block_hash_key \<Rightarrow> bref set" where
  "hm_at m key =
     (case m key of
        None \<Rightarrow> {}
      | Some (OneBlock b) \<Rightarrow> {b}
      | Some (ManyBlocks d) \<Rightarrow> snd ` set d)"

lemma set_alist_update:
  "distinct (map fst d) \<Longrightarrow>
   set (AList.update k v d) = insert (k, v) {p \<in> set d. fst p \<noteq> k}"
  by (induction d) force+

lemma set_alist_delete: "set (AList.delete k d) = {p \<in> set d. fst p \<noteq> k}"
  by (auto simp: AList.delete_eq)

text \<open>Blocks are told apart by their ids: the condition under which the index is a multimap.\<close>

definition ids_distinct :: "heap \<Rightarrow> bref set \<Rightarrow> bool" where
  "ids_distinct h B \<longleftrightarrow> inj_on (\<lambda>b. block_id (h b)) B"

text \<open>One dictionary.\<close>

definition dict_ok :: "heap \<Rightarrow> (int \<times> bref) list \<Rightarrow> bool" where
  "dict_ok h d \<longleftrightarrow> distinct (map fst d) \<and> (\<forall>p \<in> set d. block_id (h (snd p)) = fst p)"

lemma dict_mem: "dict_ok h d \<Longrightarrow> c \<in> snd ` set d \<longleftrightarrow> (block_id (h c), c) \<in> set d"
  by (force simp: dict_ok_def)

lemma dict_key_eq:
  assumes "dict_ok h d" "ids_distinct h (insert b (snd ` set d))" "p \<in> set d"
  shows "fst p = block_id (h b) \<longleftrightarrow> snd p = b"
proof -
  have "block_id (h (snd p)) = fst p" using assms(1,3) by (simp add: dict_ok_def)
  moreover have "block_id (h (snd p)) = block_id (h b) \<longleftrightarrow> snd p = b"
    using inj_on_eq_iff[OF assms(2)[unfolded ids_distinct_def], of "snd p" b] assms(3) by simp
  ultimately show ?thesis by simp
qed

lemma dict_update:
  assumes "dict_ok h d" "ids_distinct h (insert b (snd ` set d))"
  shows "snd ` set (AList.update (block_id (h b)) b d) = insert b (snd ` set d)"
    and "dict_ok h (AList.update (block_id (h b)) b d)"
proof -
  have "set (AList.update (block_id (h b)) b d) = insert (block_id (h b), b) {p \<in> set d. snd p \<noteq> b}"
    using assms(1) dict_key_eq[OF assms] by (auto simp: dict_ok_def set_alist_update)
  then show "snd ` set (AList.update (block_id (h b)) b d) = insert b (snd ` set d)" by auto
  show "dict_ok h (AList.update (block_id (h b)) b d)"
    using assms(1) by (auto simp: dict_ok_def distinct_update set_alist_update)
qed

lemma dict_update_ok: "dict_ok h d \<Longrightarrow> dict_ok h (AList.update (block_id (h b)) b d)"
  by (auto simp: dict_ok_def distinct_update set_alist_update)

lemma dict_delete:
  assumes "dict_ok h d" "ids_distinct h (insert b (snd ` set d))"
  shows "snd ` set (AList.delete (block_id (h b)) d) = snd ` set d - {b}"
    and "map_of d (block_id (h b)) = (if b \<in> snd ` set d then Some b else None)"
proof -
  have "set (AList.delete (block_id (h b)) d) = {p \<in> set d. snd p \<noteq> b}"
    using dict_key_eq[OF assms] by (auto simp: set_alist_delete)
  then show "snd ` set (AList.delete (block_id (h b)) d) = snd ` set d - {b}" by auto
  show "map_of d (block_id (h b)) = (if b \<in> snd ` set d then Some b else None)"
  proof (cases "b \<in> snd ` set d")
    case True
    then have "(block_id (h b), b) \<in> set d" using dict_mem[OF assms(1)] by simp
    then show ?thesis using True assms(1) by (simp add: dict_ok_def map_of_is_SomeI)
  next
    case False
    have "block_id (h b) \<notin> fst ` set d"
    proof
      assume "block_id (h b) \<in> fst ` set d"
      then obtain p where p: "p \<in> set d" "fst p = block_id (h b)" by auto
      then have "snd p = b" using dict_key_eq[OF assms p(1)] by simp
      then show False using p(1) False by blast
    qed
    then show ?thesis using False by (simp add: map_of_eq_None_iff)
  qed
qed

lemma dict_delete_ok: "dict_ok h d \<Longrightarrow> dict_ok h (AList.delete k d)"
  by (auto simp: dict_ok_def distinct_delete set_alist_delete)

lemma dict_single: "dict_ok h [(block_id (h c), c)]"
  by (simp add: dict_ok_def)

text \<open>The cache: its dictionaries are well formed and not empty.\<close>

definition hm_ok :: "heap \<Rightarrow> hash_map \<Rightarrow> bool" where
  "hm_ok h m \<longleftrightarrow> (\<forall>key d. m key = Some (ManyBlocks d) \<longrightarrow> d \<noteq> [] \<and> dict_ok h d)"

lemma hm_okD:
  assumes "hm_ok h m" "m key = Some (ManyBlocks d)"
  shows "d \<noteq> []" "dict_ok h d"
  using assms unfolding hm_ok_def by blast+

lemma hm_okI: "hm_ok h m \<Longrightarrow> (\<And>d. v = ManyBlocks d \<Longrightarrow> d \<noteq> [] \<and> dict_ok h d) \<Longrightarrow> hm_ok h (m(key \<mapsto> v))"
  by (simp add: hm_ok_def)

lemma hm_ok_insert: "hm_ok h m \<Longrightarrow> hm_ok h (hm_insert h m key b)"
proof -
  assume ok: "hm_ok h m"
  have "dict_ok h (AList.update (block_id (h b)) b [(block_id (h c), c)])" for c
    by (rule dict_update_ok[OF dict_single])
  then show ?thesis
    unfolding hm_insert_def using ok
    by (auto intro!: hm_okI dict_update_ok dict_single simp del: update.simps simp: update_nonempty
        dest: hm_okD split: option.split cached_blocks.split)
qed

lemma hm_at_insert:
  assumes "hm_ok h m" "ids_distinct h (insert b (hm_at m key))"
  shows "hm_at (hm_insert h m key b) k = (if k = key then insert b (hm_at m key) else hm_at m k)"
proof (cases "m key")
  case None
  then show ?thesis by (simp add: hm_insert_def hm_at_def)
next
  case (Some c)
  show ?thesis
  proof (cases c)
    case (OneBlock c')
    then show ?thesis
      using Some assms(2) dict_update(1)[OF dict_single[of h c'], of b]
      by (simp add: hm_insert_def hm_at_def)
  next
    case (ManyBlocks d)
    then show ?thesis
      using Some assms(2) dict_update(1)[OF hm_okD(2)[OF assms(1)], of key d b]
      by (simp add: hm_insert_def hm_at_def)
  qed
qed

lemma hm_ok_pop: "hm_ok h m \<Longrightarrow> hm_ok h (snd (hm_pop h m key bid))"
proof -
  assume ok: "hm_ok h m"
  then have "hm_ok h (m(key := None))" by (simp add: hm_ok_def)
  then show ?thesis
    using ok unfolding hm_pop_def Let_def
    by (auto intro!: hm_okI dict_delete_ok dest: hm_okD split: option.split cached_blocks.split)
qed

lemma hm_at_pop:
  assumes "hm_ok h m" "ids_distinct h (insert b (hm_at m key))"
  shows "hm_at (snd (hm_pop h m key (block_id (h b)))) k =
           (if k = key then hm_at m key - {b} else hm_at m k)"
    and "fst (hm_pop h m key (block_id (h b))) = (if b \<in> hm_at m key then Some b else None)"
proof -
  have "hm_at (snd (hm_pop h m key (block_id (h b)))) k =
           (if k = key then hm_at m key - {b} else hm_at m k) \<and>
        fst (hm_pop h m key (block_id (h b))) = (if b \<in> hm_at m key then Some b else None)"
  proof (cases "m key")
    case None
    then show ?thesis by (simp add: hm_pop_def hm_at_def)
  next
    case (Some c)
    show ?thesis
    proof (cases c)
      case (OneBlock c')
      have "block_id (h c') = block_id (h b) \<longleftrightarrow> c' = b"
        using Some OneBlock assms(2) by (auto simp: hm_at_def ids_distinct_def)
      then show ?thesis using Some OneBlock by (simp add: hm_pop_def hm_at_def)
    next
      case (ManyBlocks d)
      let ?d = "AList.delete (block_id (h b)) d"
      have at: "hm_at m key = snd ` set d" using Some ManyBlocks by (simp add: hm_at_def)
      note del = dict_delete[OF hm_okD(2)[OF assms(1)], of key d b]
      have "snd ` set ?d = snd ` set d - {b}"
        "map_of d (block_id (h b)) = (if b \<in> snd ` set d then Some b else None)"
        using del Some ManyBlocks assms(2) at by simp_all
      moreover have "?d = [] \<Longrightarrow> snd ` set d - {b} = {}"
        using calculation(1) by simp
      ultimately show ?thesis using Some ManyBlocks at
        by (simp add: hm_pop_def Let_def hm_at_def)
    qed
  qed
  then show "hm_at (snd (hm_pop h m key (block_id (h b)))) k =
      (if k = key then hm_at m key - {b} else hm_at m k)"
    "fst (hm_pop h m key (block_id (h b))) = (if b \<in> hm_at m key then Some b else None)" by blast+
qed

lemma hm_get_some:
  assumes "hm_ok h m" "hm_at m key \<noteq> {}"
  shows "\<exists>b \<in> hm_at m key. hm_get_one_block m key = Inr (Some b)"
proof (cases "m key")
  case (Some c)
  show ?thesis
  proof (cases c)
    case (ManyBlocks d)
    then obtain i b d' where "d = (i, b) # d'"
      using hm_okD(1)[OF assms(1)] Some by (metis list.exhaust surj_pair)
    then show ?thesis using Some ManyBlocks by (simp add: hm_get_one_block_def hm_at_def)
  qed (use Some in \<open>simp add: hm_get_one_block_def hm_at_def\<close>)
qed (use assms in \<open>simp add: hm_at_def\<close>)

lemma hm_get_none:
  assumes "hm_ok h m" "hm_at m key = {}"
  shows "hm_get_one_block m key = Inr None"
proof (cases "m key")
  case (Some c)
  then show ?thesis
    using assms hm_okD(1)[OF assms(1), of key]
    by (cases c) (auto simp: hm_get_one_block_def hm_at_def)
qed (simp add: hm_get_one_block_def)

lemma hm_contain_iff:
  assumes "hm_ok h m" "ids_distinct h (insert b (hm_at m key))"
  shows "hm_contain h m key (block_id (h b)) \<longleftrightarrow> b \<in> hm_at m key"
proof (cases "m key")
  case (Some c)
  show ?thesis
  proof (cases c)
    case (OneBlock c')
    then show ?thesis using Some assms(2) by (auto simp: hm_contain_def hm_at_def ids_distinct_def)
  next
    case (ManyBlocks d)
    then have "map_of d (block_id (h b)) = (if b \<in> snd ` set d then Some b else None)"
      using dict_delete(2)[OF hm_okD(2)[OF assms(1)], of key d b] Some assms(2)
      by (simp add: hm_at_def)
    then have "block_id (h b) \<in> fst ` set d \<longleftrightarrow> b \<in> snd ` set d"
      using map_of_eq_None_iff[of d "block_id (h b)"] by (auto split: if_splits)
    then show ?thesis using Some ManyBlocks by (simp add: hm_contain_def hm_at_def)
  qed
qed (simp add: hm_contain_def hm_at_def)

subsection \<open>The index as a multimap\<close>

text \<open>The blocks whose id is their place in the pool, and the well-formed index over them.\<close>

definition own_blocks :: "heap \<Rightarrow> bref set" where
  "own_blocks h = {b. \<exists>i. b = Blk i \<and> block_id (h b) = int i}"

definition index_ok :: "heap \<Rightarrow> hash_map \<Rightarrow> bool" where
  "index_ok h m \<longleftrightarrow> hm_ok h m \<and> (\<forall>k. hm_at m k \<subseteq> own_blocks h)"

lemma ids_distinct_own: "B \<subseteq> own_blocks h \<Longrightarrow> ids_distinct h B"
  unfolding ids_distinct_def
proof (rule inj_onI)
  fix b c assume a: "B \<subseteq> own_blocks h" "b \<in> B" "c \<in> B" "block_id (h b) = block_id (h c)"
  then have "b \<in> own_blocks h" "c \<in> own_blocks h" by blast+
  then show "b = c" using a(4) by (auto simp: own_blocks_def)
qed

lemma index_ids:
  "index_ok h m \<Longrightarrow> b \<in> own_blocks h \<Longrightarrow> ids_distinct h (insert b (hm_at m k))"
  by (rule ids_distinct_own) (auto simp: index_ok_def)

lemma index_ok_hm: "index_ok h m \<Longrightarrow> hm_ok h m"
  by (simp add: index_ok_def)

interpretation hidx: hash_index own_blocks index_ok hm_at hm_insert
  "\<lambda>h m k b. hm_pop h m k (block_id (h b))" "\<lambda>h m k b. hm_contain h m k (block_id (h b))"
  hm_get_one_block
proof unfold_locales
  fix h :: heap and m :: hash_map and k k' :: block_hash_key and b :: bref
  assume ok: "index_ok h m"
  show "hm_at m k \<noteq> {} \<Longrightarrow> \<exists>b \<in> hm_at m k. hm_get_one_block m k = Inr (Some b)"
    by (rule hm_get_some[OF index_ok_hm[OF ok]])
  show "hm_at m k = {} \<Longrightarrow> hm_get_one_block m k = Inr None"
    by (rule hm_get_none[OF index_ok_hm[OF ok]])
  assume b: "b \<in> own_blocks h"
  note i = index_ok_hm[OF ok] index_ids[OF ok b]
  show put: "hm_at (hm_insert h m k b) k' = (if k' = k then insert b (hm_at m k) else hm_at m k')"
    for k' by (rule hm_at_insert[OF i])
  show "index_ok h (hm_insert h m k b)"
    using ok b hm_ok_insert[OF i(1)] by (auto simp: index_ok_def put)
  show del: "hm_at (snd (hm_pop h m k (block_id (h b)))) k' =
      (if k' = k then hm_at m k - {b} else hm_at m k')" for k' by (rule hm_at_pop(1)[OF i])
  show "index_ok h (snd (hm_pop h m k (block_id (h b))))"
    using ok hm_ok_pop[OF i(1)] by (auto simp: index_ok_def del)
  show "fst (hm_pop h m k (block_id (h b))) = (if b \<in> hm_at m k then Some b else None)"
    by (rule hm_at_pop(2)[OF i])
  show "hm_contain h m k (block_id (h b)) \<longleftrightarrow> b \<in> hm_at m k" by (rule hm_contain_iff[OF i])
qed

lemma hm_pop_all_eq: "hm_pop_all h ks b m = hidx.del_all h ks b m"
  by (induction ks arbitrary: m) (simp_all add: Let_def split_def)

lemmas hm_pop_all_spec = hidx.del_all_spec[folded hm_pop_all_eq]

lemma index_ok_empty [simp]: "index_ok h Map.empty"
  by (simp add: index_ok_def hm_ok_def hm_at_def)

lemma index_ok_ids:
  "index_ok h m \<Longrightarrow> (\<And>r. block_id (h' r) = block_id (h r)) \<Longrightarrow> index_ok h' m"
  unfolding index_ok_def hm_ok_def dict_ok_def own_blocks_def by simp

subsection \<open>Block hashes at a coarser block size\<close>

text \<open>
  A \<open>BlockHashList\<close> is the list of hashes itself or the view that reads every
  \<open>scale_factor\<close>-th hash of it.  Indices are Python's: a negative index of the view is
  scaled first and then counted from the end of the raw list.
\<close>

datatype hash_view = RawHashes "bytes list" | ScaledHashes "bytes list" int

definition make_scaled :: "bytes list \<Rightarrow> int \<Rightarrow> int \<Rightarrow> hash_view res" where
  "make_scaled hs hash_bs target_bs =
     rbind (guard AssertionError (target_bs mod hash_bs = 0)) (\<lambda>_.
       Inr (ScaledHashes hs (target_bs div hash_bs)))"

fun view_length :: "hash_view \<Rightarrow> int" where
  "view_length (RawHashes hs) = int (length hs)"
| "view_length (ScaledHashes hs sf) = int (length hs) div sf"

fun view_at :: "hash_view \<Rightarrow> int \<Rightarrow> bytes res" where
  "view_at (RawHashes hs) i = py_nth hs i"
| "view_at (ScaledHashes hs sf) i = py_nth hs ((i + 1) * sf - 1)"

text \<open>\<open>view[start:]\<close> for a start that is not negative, and iteration over a view.\<close>

definition view_from :: "hash_view \<Rightarrow> nat \<Rightarrow> bytes list res" where
  "view_from v start =
     (case v of
        RawHashes hs \<Rightarrow> Inr (drop start hs)
      | ScaledHashes hs sf \<Rightarrow>
          rfold (\<lambda>i acc. rbind (view_at v (int i)) (\<lambda>x. Inr (acc @ [x])))
            [start..<nat (view_length v)] [])"

definition view_iter :: "hash_view \<Rightarrow> bytes list res" where
  "view_iter v = view_from v 0"

definition resolve_block_hashes ::
  "hash_view \<Rightarrow> int \<Rightarrow> int \<Rightarrow> bool \<Rightarrow> int option \<Rightarrow> hash_view res" where
  "resolve_block_hashes v hash_bs bs fine align =
     (if bs = hash_bs then Inr v
      else case v of
        ScaledHashes hs sf \<Rightarrow> rbind (guard AssertionError (sf = bs div hash_bs)) (\<lambda>_. Inr v)
      | RawHashes hs \<Rightarrow>
          if fine \<and> (case align of None \<Rightarrow> False | Some a \<Rightarrow> a < bs \<and> bs mod a = 0) then Inr v
          else rbind (guard AssertionError (bs mod hash_bs = 0)) (\<lambda>_. make_scaled hs hash_bs bs))"

text \<open>Inside its length a view never raises, and its element is the hash of the last covered
  hash block.\<close>

lemma view_at_scaled:
  assumes "0 < sf" "0 \<le> i" "i < view_length (ScaledHashes hs (int sf))"
  shows "view_at (ScaledHashes hs (int sf)) i = Inr (hs ! ((nat i + 1) * sf - 1))"
proof -
  obtain n where n: "i = int n" using assms(2) zero_le_imp_eq_int by blast
  have "n < length hs div sf" using assms(3) n by (simp add: zdiv_int[symmetric])
  then have "(n + 1) * sf \<le> length hs" using assms(1) by (simp add: less_eq_div_iff_mult_less_eq flip: Suc_le_eq)
  moreover have "(int n + 1) * int sf - 1 = int ((n + 1) * sf - 1)"
    using assms(1) by (simp add: of_nat_diff algebra_simps)
  moreover have "(n + 1) * sf - 1 < (n + 1) * sf" using assms(1) by simp
  ultimately show ?thesis using n by (simp only: view_at.simps nat_int py_nth_of_nat if_True
        less_le_trans[of "(n + 1) * sf - 1" "(n + 1) * sf" "length hs"])
qed

lemma view_collect:
  assumes "\<And>i. i \<in> set is \<Longrightarrow> g i = Inr (f i)"
  shows "rfold (\<lambda>i acc. rbind (g i) (\<lambda>x. Inr (acc @ [x]))) is acc = Inr (acc @ map f is)"
  using assms by (induction "is" arbitrary: acc) auto

lemma view_from_scaled:
  assumes "0 < sf"
  shows "view_from (ScaledHashes hs (int sf)) a =
           Inr (map (\<lambda>i. hs ! ((i + 1) * sf - 1)) [a..<length hs div sf])"
proof -
  let ?g = "\<lambda>i. view_at (ScaledHashes hs (int sf)) (int i)"
  have "?g i = Inr (hs ! ((i + 1) * sf - 1))" if "i \<in> set [a..<length hs div sf]" for i
    using view_at_scaled[OF assms, of "int i" hs] that by (simp add: zdiv_int[symmetric])
  then have "rfold (\<lambda>i acc. rbind (?g i) (\<lambda>x. Inr (acc @ [x]))) [a..<length hs div sf] [] =
      Inr ([] @ map (\<lambda>i. hs ! ((i + 1) * sf - 1)) [a..<length hs div sf])"
    by (rule view_collect)
  then show ?thesis
    by (simp add: view_from_def zdiv_int[symmetric] del: view_at.simps)
qed

lemma resolve_same [simp]: "resolve_block_hashes v bs bs fine align = Inr v"
  by (simp add: resolve_block_hashes_def)

lemma resolve_scaled:
  assumes "0 < hbs" "k \<noteq> 1"
  shows "resolve_block_hashes (RawHashes hs) hbs (hbs * k) False align = Inr (ScaledHashes hs k)"
  using assms by (simp add: resolve_block_hashes_def make_scaled_def)

end
