(* ===== verification/KV_Metrics.thy ===== *)
theory KV_Metrics
  imports Complex_Main Free_Queue
begin

text \<open>
  \<^verbatim>\<open>vllm/v1/core/kv_cache_metrics.py\<close>: the collector of block residency metrics.  The clock
  (\<open>time.monotonic_ns\<close>) and the random numbers (\<open>random.random\<close>) are inputs: two infinite
  sequences of which each call reads the next element.  Seconds are rationals.

  A tracked block keeps at most four access times, in increasing order when the clock is
  monotonic, and its birth is not after its last access.
\<close>

record block_metrics_state =
  birth_time_ns :: int
  last_access_ns :: int
  access_history :: "int list"

record eviction_event =
  lifetime_seconds :: rat
  idle_seconds :: rat
  reuse_gaps_seconds :: "rat list"

record kv_metrics =
  sample_rate :: rat
  block_metrics :: "int \<rightharpoonup> block_metrics_state"
  eviction_events :: "eviction_event list"
  clock :: "nat \<Rightarrow> int"
  clock_reads :: nat
  rng :: "nat \<Rightarrow> rat"
  rng_reads :: nat

definition monotonic_ns :: "kv_metrics \<Rightarrow> int \<times> kv_metrics" where
  "monotonic_ns c = (clock c (clock_reads c), c\<lparr>clock_reads := clock_reads c + 1\<rparr>)"

definition new_metrics_state :: "int \<Rightarrow> block_metrics_state" where
  "new_metrics_state now = \<lparr>birth_time_ns = now, last_access_ns = now, access_history = []\<rparr>"

text \<open>A \<open>deque(maxlen=4)\<close> drops its oldest element when it is full.\<close>

definition deque4_append :: "int list \<Rightarrow> int \<Rightarrow> int list" where
  "deque4_append xs x = (let ys = xs @ [x] in drop (length ys - 4) ys)"

definition record_access :: "int \<Rightarrow> block_metrics_state \<Rightarrow> block_metrics_state" where
  "record_access now s =
     s\<lparr>last_access_ns := now, access_history := deque4_append (access_history s) now\<rparr>"

definition ns_to_seconds :: "int \<Rightarrow> rat" where
  "ns_to_seconds d = of_int d / 10 ^ 9"

definition get_lifetime_seconds :: "int \<Rightarrow> block_metrics_state \<Rightarrow> rat" where
  "get_lifetime_seconds now s = ns_to_seconds (now - birth_time_ns s)"

definition get_idle_time_seconds :: "int \<Rightarrow> block_metrics_state \<Rightarrow> rat" where
  "get_idle_time_seconds now s = ns_to_seconds (now - last_access_ns s)"

definition get_reuse_gaps_seconds :: "block_metrics_state \<Rightarrow> rat list" where
  "get_reuse_gaps_seconds s =
     (let hist = access_history s in
      if length hist < 2 then []
      else map (\<lambda>i. ns_to_seconds (hist ! i - hist ! (i - 1))) [1..<length hist])"

definition collector_init :: "rat \<Rightarrow> (nat \<Rightarrow> int) \<Rightarrow> (nat \<Rightarrow> rat) \<Rightarrow> kv_metrics res" where
  "collector_init rate clk rn =
     rbind (guard AssertionError (0 < rate \<and> rate \<le> 1)) (\<lambda>_.
       Inr \<lparr>sample_rate = rate, block_metrics = Map.empty, eviction_events = [],
            clock = clk, clock_reads = 0, rng = rn, rng_reads = 0\<rparr>)"

definition should_sample_block :: "kv_metrics \<Rightarrow> bool \<times> kv_metrics" where
  "should_sample_block c = (rng c (rng_reads c) < sample_rate c, c\<lparr>rng_reads := rng_reads c + 1\<rparr>)"

definition on_block_allocated :: "kvblock \<Rightarrow> kv_metrics \<Rightarrow> kv_metrics" where
  "on_block_allocated b c =
     (let (sample, c1) = should_sample_block c in
      if sample
      then let (now, c2) = monotonic_ns c1
           in c2\<lparr>block_metrics := (block_metrics c2)(block_id b \<mapsto> new_metrics_state now)\<rparr>
      else c1)"

definition on_block_accessed :: "kvblock \<Rightarrow> kv_metrics \<Rightarrow> kv_metrics" where
  "on_block_accessed b c =
     (case block_metrics c (block_id b) of
        None \<Rightarrow> c
      | Some s \<Rightarrow> let (now, c1) = monotonic_ns c
                  in c1\<lparr>block_metrics := (block_metrics c1)(block_id b \<mapsto> record_access now s)\<rparr>)"

definition on_block_evicted :: "kvblock \<Rightarrow> kv_metrics \<Rightarrow> kv_metrics" where
  "on_block_evicted b c =
     (case block_metrics c (block_id b) of
        None \<Rightarrow> c
      | Some s \<Rightarrow>
          let c1 = c\<lparr>block_metrics := (block_metrics c)(block_id b := None)\<rparr>;
              (now1, c2) = monotonic_ns c1;
              (now2, c3) = monotonic_ns c2
          in c3\<lparr>eviction_events := eviction_events c3 @
                 [\<lparr>lifetime_seconds = get_lifetime_seconds now1 s,
                   idle_seconds = get_idle_time_seconds now2 s,
                   reuse_gaps_seconds = get_reuse_gaps_seconds s\<rparr>]\<rparr>)"

definition collector_reset :: "kv_metrics \<Rightarrow> kv_metrics" where
  "collector_reset c = c\<lparr>block_metrics := Map.empty, eviction_events := []\<rparr>"

definition drain_events :: "kv_metrics \<Rightarrow> eviction_event list \<times> kv_metrics" where
  "drain_events c = (eviction_events c, c\<lparr>eviction_events := []\<rparr>)"


subsection \<open>Well-formed collectors\<close>

text \<open>\<open>now\<close> bounds every time read so far.\<close>

definition state_ok :: "int \<Rightarrow> block_metrics_state \<Rightarrow> bool" where
  "state_ok now s \<longleftrightarrow> birth_time_ns s \<le> last_access_ns s \<and> last_access_ns s \<le> now \<and>
     length (access_history s) \<le> 4 \<and> sorted (access_history s) \<and>
     (\<forall>t \<in> set (access_history s). birth_time_ns s \<le> t \<and> t \<le> last_access_ns s)"

definition event_ok :: "eviction_event \<Rightarrow> bool" where
  "event_ok e \<longleftrightarrow> 0 \<le> lifetime_seconds e \<and> 0 \<le> idle_seconds e \<and>
     length (reuse_gaps_seconds e) \<le> 3 \<and> (\<forall>g \<in> set (reuse_gaps_seconds e). 0 \<le> g)"

definition collector_ok :: "kv_metrics \<Rightarrow> bool" where
  "collector_ok c \<longleftrightarrow> mono (clock c) \<and>
     (\<forall>i s. block_metrics c i = Some s \<longrightarrow> state_ok (clock c (clock_reads c)) s) \<and>
     (\<forall>e \<in> set (eviction_events c). event_ok e)"

lemma state_ok_later: "state_ok now s \<Longrightarrow> now \<le> now' \<Longrightarrow> state_ok now' s"
  by (auto simp: state_ok_def)

lemma set_deque4: "set (deque4_append xs x) \<subseteq> insert x (set xs)"
  unfolding deque4_append_def Let_def by (auto dest: in_set_dropD)

lemma state_ok_access:
  assumes "state_ok now s" "now \<le> now'"
  shows "state_ok now' (record_access now' s)"
proof -
  have "sorted (access_history s @ [now'])"
    using assms by (auto simp: state_ok_def sorted_append)
  then have "sorted (deque4_append (access_history s) now')"
    unfolding deque4_append_def Let_def by (rule sorted_wrt_drop)
  moreover have "\<forall>t \<in> set (deque4_append (access_history s) now'). birth_time_ns s \<le> t \<and> t \<le> now'"
    using set_deque4[of "access_history s" now'] assms by (force simp: state_ok_def)
  moreover have "length (deque4_append (access_history s) now') \<le> 4"
    by (simp add: deque4_append_def Let_def)
  ultimately show ?thesis using assms by (simp add: state_ok_def record_access_def)
qed

lemma seconds_nonneg: "0 \<le> d \<Longrightarrow> 0 \<le> ns_to_seconds d"
  by (simp add: ns_to_seconds_def)

lemma reuse_gaps_ok:
  assumes "state_ok now s"
  shows "length (get_reuse_gaps_seconds s) \<le> 3" "\<forall>g \<in> set (get_reuse_gaps_seconds s). 0 \<le> g"
proof -
  show "length (get_reuse_gaps_seconds s) \<le> 3"
    using assms by (auto simp: get_reuse_gaps_seconds_def Let_def state_ok_def)
  have "access_history s ! (i - 1) \<le> access_history s ! i" if "i < length (access_history s)" for i
    using assms that by (simp add: state_ok_def sorted_iff_nth_mono)
  then show "\<forall>g \<in> set (get_reuse_gaps_seconds s). 0 \<le> g"
    by (auto simp: get_reuse_gaps_seconds_def Let_def intro!: seconds_nonneg)
qed

lemma collector_ok_read:
  assumes "collector_ok c"
  shows "collector_ok (c\<lparr>clock_reads := clock_reads c + 1\<rparr>)"
    and "clock c (clock_reads c) \<le> clock c (Suc (clock_reads c))"
proof -
  show *: "clock c (clock_reads c) \<le> clock c (Suc (clock_reads c))"
    using assms by (simp add: collector_ok_def monoD)
  then show "collector_ok (c\<lparr>clock_reads := clock_reads c + 1\<rparr>)"
    using assms state_ok_later[OF _ *] unfolding collector_ok_def by auto
qed

lemma collector_ok_allocated [inv_intros]: "collector_ok c \<Longrightarrow> collector_ok (on_block_allocated b c)"
proof -
  assume c: "collector_ok c"
  have m: "monotonic_ns (c\<lparr>rng_reads := n\<rparr>) = (clock c (clock_reads c),
      c\<lparr>rng_reads := n, clock_reads := clock_reads c + 1\<rparr>)" for n by (simp add: monotonic_ns_def)
  have "state_ok (clock c (Suc (clock_reads c))) (new_metrics_state (clock c (clock_reads c)))"
    using collector_ok_read(2)[OF c] by (simp add: state_ok_def new_metrics_state_def)
  then show ?thesis
    using c collector_ok_read(1)[OF c]
    by (auto simp: on_block_allocated_def should_sample_block_def m collector_ok_def)
qed

lemma collector_ok_accessed [inv_intros]: "collector_ok c \<Longrightarrow> collector_ok (on_block_accessed b c)"
proof (cases "block_metrics c (block_id b)")
  case (Some s)
  assume c: "collector_ok c"
  then have "state_ok (clock c (clock_reads c)) s" using Some by (auto simp: collector_ok_def)
  then have "state_ok (clock c (clock_reads c)) (record_access (clock c (clock_reads c)) s)"
    by (rule state_ok_access) simp
  then have "state_ok (clock c (Suc (clock_reads c))) (record_access (clock c (clock_reads c)) s)"
    using state_ok_later collector_ok_read(2)[OF c] by blast
  then show ?thesis
    using Some collector_ok_read(1)[OF c]
    by (auto simp: on_block_accessed_def monotonic_ns_def collector_ok_def)
qed (simp add: on_block_accessed_def)

lemma on_block_evicted_Some:
  assumes "block_metrics c (block_id b) = Some s"
  defines "t1 \<equiv> clock c (clock_reads c)" and "t2 \<equiv> clock c (Suc (clock_reads c))"
  shows "on_block_evicted b c =
     c\<lparr>block_metrics := (block_metrics c)(block_id b := None),
       clock_reads := clock_reads c + 2,
       eviction_events := eviction_events c @
         [\<lparr>lifetime_seconds = get_lifetime_seconds t1 s, idle_seconds = get_idle_time_seconds t2 s,
           reuse_gaps_seconds = get_reuse_gaps_seconds s\<rparr>]\<rparr>"
  using assms by (simp add: on_block_evicted_def monotonic_ns_def)

lemma collector_ok_evicted [inv_intros]: "collector_ok c \<Longrightarrow> collector_ok (on_block_evicted b c)"
proof (cases "block_metrics c (block_id b)")
  case (Some s)
  assume c: "collector_ok c"
  let ?t = "\<lambda>k. clock c (clock_reads c + k)"
  have t: "?t 0 \<le> ?t 1" "?t 0 \<le> ?t 2" using c by (simp_all add: collector_ok_def monoD)
  have s: "state_ok (?t 0) s" using c Some by (auto simp: collector_ok_def)
  then have "event_ok \<lparr>lifetime_seconds = get_lifetime_seconds (?t 0) s,
      idle_seconds = get_idle_time_seconds (?t 1) s, reuse_gaps_seconds = get_reuse_gaps_seconds s\<rparr>"
    using reuse_gaps_ok[OF s] t(1)
    by (auto simp: event_ok_def get_lifetime_seconds_def get_idle_time_seconds_def state_ok_def
        intro!: seconds_nonneg)
  then show ?thesis
    using c state_ok_later[OF _ t(2)] unfolding on_block_evicted_Some[OF Some] collector_ok_def
    by auto
qed (simp add: on_block_evicted_def)

lemma collector_ok_reset [inv_intros]: "collector_ok c \<Longrightarrow> collector_ok (collector_reset c)"
  by (simp add: collector_ok_def collector_reset_def)

lemma collector_ok_init:
  "collector_init rate clk rn = Inr c \<Longrightarrow> mono clk \<Longrightarrow> collector_ok c"
  by (auto simp: collector_init_def collector_ok_def)

lemma collector_ok_drain: "collector_ok c \<Longrightarrow> collector_ok (snd (drain_events c))"
  by (simp add: collector_ok_def drain_events_def)

end
