(* ===== verification/Request_Data.thy ===== *)
theory Request_Data
  imports Prelude Complex_Main "HOL-Library.AList"
begin

text \<open>
  The data of \<^verbatim>\<open>vllm/v1/request.py\<close>: the status enumeration with its order, the finish
  reasons, multi-modal features, sampling parameters and the \<open>Request\<close> object as a record
  whose fields are the attributes \<open>__init__\<close> sets, in that order.

  Token ids, counters and priorities are Python ints (\<open>int\<close>), arrival times are finite
  floats and so rationals (\<open>rat\<close>), token positions are \<open>nat\<close>.  A prompt embedding tensor is
  the list of its rows as bytes.  Objects behind a transfer parameter, a trace header or a
  grammar are opaque strings.
\<close>

datatype request_status =
    WAITING | WAITING_FOR_STRUCTURED_OUTPUT_GRAMMAR | WAITING_FOR_REMOTE_KVS
  | WAITING_FOR_STREAMING_REQ | RUNNING | PREEMPTED
  | FINISHED_STOPPED | FINISHED_LENGTH_CAPPED | FINISHED_ABORTED | FINISHED_IGNORED
  | FINISHED_ERROR | FINISHED_REPETITION

text \<open>The values \<open>enum.auto()\<close> gives, which order the members of an \<open>IntEnum\<close>.\<close>

primrec status_value :: "request_status \<Rightarrow> int" where
  "status_value WAITING = 1"
| "status_value WAITING_FOR_STRUCTURED_OUTPUT_GRAMMAR = 2"
| "status_value WAITING_FOR_REMOTE_KVS = 3"
| "status_value WAITING_FOR_STREAMING_REQ = 4"
| "status_value RUNNING = 5"
| "status_value PREEMPTED = 6"
| "status_value FINISHED_STOPPED = 7"
| "status_value FINISHED_LENGTH_CAPPED = 8"
| "status_value FINISHED_ABORTED = 9"
| "status_value FINISHED_IGNORED = 10"
| "status_value FINISHED_ERROR = 11"
| "status_value FINISHED_REPETITION = 12"

lemma status_value_inject [simp]: "status_value a = status_value b \<longleftrightarrow> a = b"
  by (cases a; cases b) simp_all

instantiation request_status :: linorder
begin

definition less_eq_request_status :: "request_status \<Rightarrow> request_status \<Rightarrow> bool" where
  "less_eq_request_status a b \<longleftrightarrow> status_value a \<le> status_value b"

definition less_request_status :: "request_status \<Rightarrow> request_status \<Rightarrow> bool" where
  "less_request_status a b \<longleftrightarrow> status_value a < status_value b"

instance
  by standard (auto simp: less_eq_request_status_def less_request_status_def)

end

datatype finish_reason =
    REASON_STOP | REASON_LENGTH | REASON_ABORT | REASON_ERROR | REASON_REPETITION

definition status_is_finished :: "request_status \<Rightarrow> bool" where
  "status_is_finished s \<longleftrightarrow> s > PREEMPTED"

text \<open>The dictionary \<open>_FINISHED_REASON_MAP\<close> and its lookup.\<close>

definition FINISHED_REASON_MAP :: "(request_status \<times> finish_reason) list" where
  "FINISHED_REASON_MAP =
     [(FINISHED_STOPPED, REASON_STOP), (FINISHED_LENGTH_CAPPED, REASON_LENGTH), (FINISHED_ABORTED, REASON_ABORT),
      (FINISHED_IGNORED, REASON_LENGTH), (FINISHED_ERROR, REASON_ERROR), (WAITING_FOR_STREAMING_REQ, REASON_STOP),
      (FINISHED_REPETITION, REASON_REPETITION)]"

definition status_finished_reason :: "request_status \<Rightarrow> finish_reason option" where
  "status_finished_reason s = map_of FINISHED_REASON_MAP s"

record mm_feature =
  mm_identifier :: string
  mm_offset :: nat
  mm_length :: nat
  mm_is_embed :: "bool list option"

text \<open>\<open>PlaceholderRange.get_num_embeds\<close>: the last entry of the cumulative sum of the mask.\<close>

fun cumsum :: "int \<Rightarrow> bool list \<Rightarrow> int list" where
  "cumsum acc [] = []"
| "cumsum acc (b # bs) = (let acc' = acc + of_bool b in acc' # cumsum acc' bs)"

definition embeds_cumsum :: "mm_feature \<Rightarrow> int list option" where
  "embeds_cumsum f = map_option (cumsum 0) (mm_is_embed f)"

definition get_num_embeds :: "mm_feature \<Rightarrow> int" where
  "get_num_embeds f =
     (case embeds_cumsum f of
        None \<Rightarrow> int (mm_length f)
      | Some cs \<Rightarrow> if cs \<noteq> [] then last cs else 0)"

record lora_request =
  lora_name :: string
  lora_int_id :: int

record repetition_params =
  max_pattern_size :: int
  min_pattern_size :: int
  min_count :: int

record sampling_params =
  sp_min_tokens :: int
  sp_max_tokens :: "int option"
  sp_eos_token_id :: "int option"
  sp_stop_token_ids :: "int list option"
  sp_repetition_detection :: "repetition_params option"
  sp_skip_reading_prefix_cache :: "bool option"
  sp_structured :: bool
  sp_extra_args :: "(string \<times> string) list option"

record pooling_params =
  pp_skip_reading_prefix_cache :: "bool option"

datatype stop_reason = StopToken int | StopText string

datatype engine_event_type = QUEUED | SCHEDULED | PREEMPTED_EVENT

record engine_event =
  event_type :: engine_event_type
  event_timestamp :: rat

text \<open>\<open>StructuredOutputRequest\<close>, less the grammar object.\<close>

record structured_output =
  so_reasoning_ended :: "bool option"
  so_reasoning_parser_kwargs :: "string option"

record prefill_stats =
  ps_num_prompt_tokens :: int
  ps_num_computed_tokens :: int
  ps_num_cached_tokens :: int
  ps_num_local_cached_tokens :: int
  ps_num_external_cached_tokens :: int
  ps_num_cache_creation_tokens :: int

record streaming_update =
  su_mm_features :: "mm_feature list option"
  su_prompt_token_ids :: "int list option"
  su_max_tokens :: int
  su_arrival_time :: rat
  su_sampling_params :: "sampling_params option"

record request =
  request_id :: string
  object_id :: nat
  client_index :: int
  priority :: int
  r_sampling_params :: "sampling_params option"
  r_pooling_params :: "pooling_params option"
  r_lora_request :: "lora_request option"
  structured_output_request :: "structured_output option"
  arrival_time :: rat
  status :: request_status
  events :: "engine_event list"
  r_stop_reason :: "stop_reason option"
  kv_transfer_params :: "string option"
  ec_transfer_params :: "string option"
  max_tokens :: int
  kv_cache_report_mode :: "string option"
  prompt_token_ids :: "int list option"
  prompt_embeds :: "bytes list option"
  prompt_is_token_ids :: "bool list option"
  prompt_embeds_hash_memo :: "((nat \<times> nat) \<times> bytes) list"
  num_prompt_tokens :: nat
  output_token_ids :: "int list"
  all_token_ids :: "int list"
  num_output_placeholders :: int
  async_tokens_to_discard :: int
  num_in_flight_tokens :: int
  next_decode_eligible_step :: int
  last_sched_seq :: int
  spec_token_ids :: "int list"
  num_computed_tokens :: int
  cache_salt :: "string option"
  mm_features :: "mm_feature list"
  trace_headers :: "string option"
  is_prefill_chunk :: bool
  shared_prefix_boundary :: int
  num_nans_in_logits :: int
  num_preemptions :: int
  r_prefill_stats :: "prefill_stats option"
  block_hashes :: "bytes list"
  prefix_hash_memo :: "(nat \<times> bytes) list"
  skip_reading_prefix_cache :: bool
  resumable :: bool
  streaming_queue :: "streaming_update option list option"
  abort_immediately :: bool

subsection \<open>The properties and small methods of a request\<close>

definition use_structured_output :: "request \<Rightarrow> bool" where
  "use_structured_output r \<longleftrightarrow> structured_output_request r \<noteq> None"

definition num_tokens :: "request \<Rightarrow> nat" where
  "num_tokens r = length (all_token_ids r)"

definition num_tokens_with_spec :: "request \<Rightarrow> nat" where
  "num_tokens_with_spec r = length (all_token_ids r) + length (spec_token_ids r)"

definition num_output_tokens :: "request \<Rightarrow> nat" where
  "num_output_tokens r = length (output_token_ids r)"

definition num_encoder_inputs :: "request \<Rightarrow> nat" where
  "num_encoder_inputs r = length (mm_features r)"

definition has_encoder_inputs :: "request \<Rightarrow> bool" where
  "has_encoder_inputs r \<longleftrightarrow> num_encoder_inputs r > 0"

definition get_skip_reading_prefix_cache ::
  "sampling_params option \<Rightarrow> pooling_params option \<Rightarrow> bool" where
  "get_skip_reading_prefix_cache sp pp =
     (case Option.bind sp sp_skip_reading_prefix_cache of
        Some b \<Rightarrow> b
      | None \<Rightarrow> (case Option.bind pp pp_skip_reading_prefix_cache of
                   Some b \<Rightarrow> b
                 | None \<Rightarrow> False))"

definition is_finished :: "request \<Rightarrow> bool" where
  "is_finished r = status_is_finished (status r)"

definition get_finished_reason :: "request \<Rightarrow> finish_reason option" where
  "get_finished_reason r = status_finished_reason (status r)"

definition get_num_encoder_embeds :: "request \<Rightarrow> nat \<Rightarrow> int res" where
  "get_num_encoder_embeds r i =
     rbind (guard AssertionError (i < length (mm_features r)))
       (\<lambda>_. Inr (get_num_embeds (mm_features r ! i)))"

text \<open>\<open>now\<close> is the clock read of \<open>EngineCoreEvent.new_event\<close> when no timestamp is given.\<close>

definition record_event :: "rat \<Rightarrow> engine_event_type \<Rightarrow> rat option \<Rightarrow> request \<Rightarrow> request" where
  "record_event now t ts r =
     r\<lparr>events := events r @ [\<lparr>event_type = t, event_timestamp = (case ts of None \<Rightarrow> now | Some x \<Rightarrow> x)\<rparr>]\<rparr>"

definition take_request_events :: "request \<Rightarrow> engine_event list option \<times> request" where
  "take_request_events r = (if events r = [] then (None, r) else (Some (events r), r\<lparr>events := []\<rparr>))"

definition take_prefill_stats :: "request \<Rightarrow> prefill_stats option \<times> request" where
  "take_prefill_stats r =
     (case r_prefill_stats r of None \<Rightarrow> (None, r) | Some p \<Rightarrow> (Some p, r\<lparr>r_prefill_stats := None\<rparr>))"

definition streaming_update_from_request :: "request \<Rightarrow> streaming_update option" where
  "streaming_update_from_request r =
     (if \<not> resumable r then None
      else Some \<lparr>su_mm_features = Some (mm_features r), su_prompt_token_ids = prompt_token_ids r,
                 su_max_tokens = max_tokens r, su_arrival_time = arrival_time r,
                 su_sampling_params = r_sampling_params r\<rparr>)"

lemma finished_iff_reason:
  "status_is_finished s \<longleftrightarrow> (\<exists>f. status_finished_reason s = Some f) \<and> s \<noteq> WAITING_FOR_STREAMING_REQ"
  by (cases s) (simp_all add: status_is_finished_def less_request_status_def
      status_finished_reason_def FINISHED_REASON_MAP_def)

lemma last_cumsum: "bs \<noteq> [] \<Longrightarrow> last (cumsum acc bs) = acc + int (count_list bs True)"
proof (induction bs arbitrary: acc)
  case (Cons b bs)
  then show ?case by (cases bs) (auto simp: Let_def)
qed simp

lemma cumsum_Nil_iff [simp]: "cumsum acc bs = [] \<longleftrightarrow> bs = []"
  by (cases bs) (simp_all add: Let_def)

lemma get_num_embeds_eq:
  "get_num_embeds f = (case mm_is_embed f of None \<Rightarrow> int (mm_length f)
                       | Some m \<Rightarrow> int (count_list m True))"
  by (auto simp: get_num_embeds_def embeds_cumsum_def last_cumsum split: option.splits)

lemma get_num_embeds_nonneg [simp]: "0 \<le> get_num_embeds f"
  by (simp add: get_num_embeds_eq split: option.splits)

end
