(* ===== verification/Block_Hasher.thy ===== *)
theory Block_Hasher
  imports Request_Data
begin

text \<open>
  Block hashing (\<^verbatim>\<open>vllm/v1/core/kv_cache_utils.py\<close>, \<open>_gen_mm_extra_hash_keys\<close> to
  \<open>RequestBlockHasher\<close>): the extra keys of a block, the chained hash of a block and the loop
  that hashes a request's new full blocks.

  The hash function is not code of the repository's subsystem: it is the field
  \<open>caching_hash_fn\<close> of the hasher, a function from the hashed tuple to bytes.  \<open>NONE_HASH\<close>,
  the process-wide seed \<open>init_none_hash\<close> sets, and the SHA-256 of an embedding slice are
  fields too.  \<open>hash_block_size\<close> is positive in every configuration; the loop of the model
  stops at 0, where the code's would not end.
\<close>

datatype extra_key = KeyMM string int | KeyStr string | KeyBytes bytes

type_synonym hash_input = "bytes \<times> int list \<times> extra_key list option"

record block_hasher =
  hash_block_size :: nat
  caching_hash_fn :: "hash_input \<Rightarrow> bytes"
  none_hash :: bytes
  sha256 :: "bytes \<Rightarrow> bytes"

text \<open>
  The loop of \<open>_gen_mm_extra_hash_keys\<close> over the features from \<open>curr_mm_idx\<close> on; it
  returns the keys and the index to continue from.
\<close>

fun mm_keys_loop :: "nat \<Rightarrow> nat \<Rightarrow> mm_feature list \<Rightarrow> nat \<Rightarrow> extra_key list \<times> nat" where
  "mm_keys_loop start_tok end_tok [] i = ([], i)"
| "mm_keys_loop start_tok end_tok (f # fs) i =
     (let off = mm_offset f; len = mm_length f in
      if end_tok > off then
        if start_tok \<ge> off + len then mm_keys_loop start_tok end_tok fs (i + 1)
        else
          let k = KeyMM (mm_identifier f) (int off - int start_tok) in
          if end_tok \<ge> off + len
          then let (ks, j) = mm_keys_loop start_tok end_tok fs (i + 1) in (k # ks, j)
          else ([k], i)
      else ([], i))"

definition gen_mm_extra_hash_keys ::
  "request \<Rightarrow> nat \<Rightarrow> nat \<Rightarrow> int \<Rightarrow> (extra_key list \<times> int) res" where
  "gen_mm_extra_hash_keys r start_tok end_tok start_mm_idx =
     (let fs = mm_features r in
      if fs = [] then Inr ([], start_mm_idx)
      else if mm_offset (last fs) + mm_length (last fs) \<le> start_tok then Inr ([], start_mm_idx)
      else rbind (if start_mm_idx < 0
                  then rbind (guard AssertionError (- start_mm_idx \<le> int (length fs)))
                         (\<lambda>_. Inr (nat (int (length fs) + start_mm_idx)))
                  else Inr (nat start_mm_idx))
             (\<lambda>i. let (ks, j) = mm_keys_loop start_tok end_tok (drop i fs) i in Inr (ks, int j)))"

definition gen_lora_extra_hash_keys :: "request \<Rightarrow> extra_key list" where
  "gen_lora_extra_hash_keys r =
     (case r_lora_request r of None \<Rightarrow> [] | Some l \<Rightarrow> [KeyStr (lora_name l)])"

text \<open>
  The embedding key with the request's memo, as the code computes it, and without it; the
  callers below use the second, which \<open>prompt_embeds_memo_transparent\<close> justifies.
\<close>

definition embeds_slice_hash :: "block_hasher \<Rightarrow> bytes list \<Rightarrow> nat \<Rightarrow> nat \<Rightarrow> bytes" where
  "embeds_slice_hash H rows s e = sha256 H (concat (py_slice rows s e))"

definition gen_prompt_embeds_extra_hash_keys_memo ::
  "block_hasher \<Rightarrow> request \<Rightarrow> nat \<Rightarrow> nat \<Rightarrow> extra_key list \<times> request" where
  "gen_prompt_embeds_extra_hash_keys_memo H r s e =
     (case prompt_embeds r of
        None \<Rightarrow> ([], r)
      | Some rows \<Rightarrow>
          (case map_of (prompt_embeds_hash_memo r) (s, e) of
             Some h \<Rightarrow> ([KeyBytes h], r)
           | None \<Rightarrow>
               let h = embeds_slice_hash H rows s e
               in ([KeyBytes h],
                   r\<lparr>prompt_embeds_hash_memo := AList.update (s, e) h (prompt_embeds_hash_memo r)\<rparr>)))"

definition gen_prompt_embeds_extra_hash_keys ::
  "block_hasher \<Rightarrow> request \<Rightarrow> nat \<Rightarrow> nat \<Rightarrow> extra_key list" where
  "gen_prompt_embeds_extra_hash_keys H r s e =
     (case prompt_embeds r of None \<Rightarrow> [] | Some rows \<Rightarrow> [KeyBytes (embeds_slice_hash H rows s e)])"

definition cache_salt_keys :: "request \<Rightarrow> nat \<Rightarrow> extra_key list" where
  "cache_salt_keys r start_tok =
     (case cache_salt r of
        Some s \<Rightarrow> if start_tok = 0 \<and> s \<noteq> [] then [KeyStr s] else []
      | None \<Rightarrow> [])"

definition generate_block_hash_extra_keys ::
  "block_hasher \<Rightarrow> request \<Rightarrow> nat \<Rightarrow> nat \<Rightarrow> int \<Rightarrow> (extra_key list option \<times> int) res" where
  "generate_block_hash_extra_keys H r start_tok end_tok start_mm_idx =
     rbind (gen_mm_extra_hash_keys r start_tok end_tok start_mm_idx) (\<lambda>(mm_keys, idx).
       let ks = gen_lora_extra_hash_keys r @ mm_keys @ cache_salt_keys r start_tok
                @ gen_prompt_embeds_extra_hash_keys H r start_tok end_tok
       in if ks = [] then Inr (None, idx) else Inr (Some ks, idx))"

text \<open>\<open>if not parent_block_hash\<close> holds for \<open>None\<close> and for empty bytes.\<close>

definition hash_block_tokens ::
  "block_hasher \<Rightarrow> bytes option \<Rightarrow> int list \<Rightarrow> extra_key list option \<Rightarrow> bytes" where
  "hash_block_tokens H parent toks extra =
     (let p = (case parent of None \<Rightarrow> none_hash H | Some b \<Rightarrow> if b = [] then none_hash H else b)
      in caching_hash_fn H (p, toks, extra))"

definition prompt_tail_boundary :: "nat \<Rightarrow> nat \<Rightarrow> bool \<Rightarrow> int" where
  "prompt_tail_boundary n hbs replay =
     (if replay then int n - 1 else int (n div hbs * hbs))"

definition hasher_hash_prefix :: "block_hasher \<Rightarrow> request \<Rightarrow> int \<Rightarrow> bytes option res" where
  "hasher_hash_prefix H r end =
     (if end \<le> 0 \<or> end > int (num_tokens r) then Inr None
      else
        let e = nat end; hbs = hash_block_size H; num_full = e div hbs in
        if num_full > length (block_hashes r) then Inr None
        else
          let parent = (if num_full > 0 then Some (block_hashes r ! (num_full - 1)) else None) in
          if e mod hbs = 0 then Inr parent
          else if mm_features r \<noteq> [] \<or> prompt_embeds r \<noteq> None then Inr None
          else
            let s = num_full * hbs in
            rbind (generate_block_hash_extra_keys H r s e 0)
              (\<lambda>(extra, _). Inr (Some (hash_block_tokens H parent (py_slice (all_token_ids r) s e) extra))))"

function hasher_loop ::
  "block_hasher \<Rightarrow> request \<Rightarrow> nat \<Rightarrow> int \<Rightarrow> bytes option \<Rightarrow> bytes list res" where
  "hasher_loop H r start_tok mm_idx prev =
     (let end_tok = start_tok + hash_block_size H in
      if hash_block_size H = 0 \<or> end_tok > num_tokens r then Inr []
      else rbind (generate_block_hash_extra_keys H r start_tok end_tok mm_idx) (\<lambda>(extra, mm_idx').
        let bh = hash_block_tokens H prev (py_slice (all_token_ids r) start_tok end_tok) extra
        in rbind (hasher_loop H r end_tok mm_idx' (Some bh)) (\<lambda>hs. Inr (bh # hs))))"
  by pat_completeness auto
termination
  by (relation "measure (\<lambda>(H, r, start_tok, _). num_tokens r - start_tok)") auto

declare hasher_loop.simps [simp del]

definition hasher_call :: "block_hasher \<Rightarrow> request \<Rightarrow> bytes list res" where
  "hasher_call H r =
     (let start_tok = length (block_hashes r) * hash_block_size H in
      if start_tok + hash_block_size H > num_tokens r then Inr []
      else hasher_loop H r start_tok (if start_tok > 0 then -1 else 0)
             (if block_hashes r \<noteq> [] then Some (last (block_hashes r)) else None))"


subsection \<open>Reference definitions: the extra keys and the hash of a block by its position\<close>

definition overlaps :: "nat \<Rightarrow> nat \<Rightarrow> mm_feature \<Rightarrow> bool" where
  "overlaps s e f \<longleftrightarrow> s < mm_offset f + mm_length f \<and> mm_offset f < e"

definition mm_key :: "nat \<Rightarrow> mm_feature \<Rightarrow> extra_key" where
  "mm_key s f = KeyMM (mm_identifier f) (int (mm_offset f) - int s)"

text \<open>Features in the order of their positions, each ending before the next one starts.\<close>

fun mm_sorted :: "mm_feature list \<Rightarrow> bool" where
  "mm_sorted [] = True"
| "mm_sorted [f] = True"
| "mm_sorted (f # g # fs) \<longleftrightarrow> mm_offset f + mm_length f \<le> mm_offset g \<and> mm_sorted (g # fs)"

definition mm_passed :: "nat \<Rightarrow> mm_feature list \<Rightarrow> bool" where
  "mm_passed s fs \<longleftrightarrow> (\<forall>f \<in> set fs. mm_offset f + mm_length f \<le> s)"

definition ref_extra :: "block_hasher \<Rightarrow> request \<Rightarrow> nat \<Rightarrow> nat \<Rightarrow> extra_key list option" where
  "ref_extra H r s e =
     (let ks = gen_lora_extra_hash_keys r @ map (mm_key s) (filter (overlaps s e) (mm_features r))
               @ cache_salt_keys r s @ gen_prompt_embeds_extra_hash_keys H r s e
      in if ks = [] then None else Some ks)"

definition block_tokens :: "block_hasher \<Rightarrow> request \<Rightarrow> nat \<Rightarrow> int list" where
  "block_tokens H r k = py_slice (all_token_ids r) (k * hash_block_size H) (Suc k * hash_block_size H)"

definition block_extra :: "block_hasher \<Rightarrow> request \<Rightarrow> nat \<Rightarrow> extra_key list option" where
  "block_extra H r k = ref_extra H r (k * hash_block_size H) (Suc k * hash_block_size H)"

fun ref_hash :: "block_hasher \<Rightarrow> request \<Rightarrow> nat \<Rightarrow> bytes" where
  "ref_hash H r 0 = hash_block_tokens H None (block_tokens H r 0) (block_extra H r 0)"
| "ref_hash H r (Suc k) =
     hash_block_tokens H (Some (ref_hash H r k)) (block_tokens H r (Suc k)) (block_extra H r (Suc k))"

definition num_full_blocks :: "block_hasher \<Rightarrow> request \<Rightarrow> nat" where
  "num_full_blocks H r = num_tokens r div hash_block_size H"

definition hashes_consistent :: "block_hasher \<Rightarrow> request \<Rightarrow> bool" where
  "hashes_consistent H r \<longleftrightarrow>
     length (block_hashes r) \<le> num_full_blocks H r \<and>
     block_hashes r = map (ref_hash H r) [0..<length (block_hashes r)]"

lemma mm_sorted_after:
  "mm_sorted (f # fs) \<Longrightarrow> g \<in> set fs \<Longrightarrow> mm_offset f + mm_length f \<le> mm_offset g"
proof (induction fs arbitrary: f)
  case (Cons h fs)
  then show ?case by (cases "g = h") (auto dest!: Cons.IH[of h])
qed simp

lemma mm_sorted_tl: "mm_sorted (f # fs) \<Longrightarrow> mm_sorted fs"
  by (cases fs) auto

lemma mm_sorted_drop: "mm_sorted fs \<Longrightarrow> mm_sorted (drop i fs)"
proof (induction fs arbitrary: i)
  case (Cons f fs)
  then show ?case by (cases i) (auto dest: mm_sorted_tl)
qed simp

lemma mm_sorted_last:
  assumes "mm_sorted fs" "f \<in> set fs"
  shows "mm_offset f + mm_length f \<le> mm_offset (last fs) + mm_length (last fs)"
  using assms
proof (induction fs)
  case (Cons g fs)
  show ?case
  proof (cases "f = g \<and> fs \<noteq> []")
    case True
    then show ?thesis using mm_sorted_after[OF Cons.prems(1), of "last fs"] by simp
  next
    case False
    then show ?thesis using Cons mm_sorted_tl by (cases "fs = []") auto
  qed
qed simp

lemma mm_keys_loop_filter:
  assumes "mm_sorted fs" "s \<le> e"
  shows "\<exists>j. mm_keys_loop s e fs i = (map (mm_key s) (filter (overlaps s e) fs), j) \<and>
             i \<le> j \<and> mm_passed e (take (j - i) fs)"
  using assms
proof (induction fs arbitrary: i)
  case (Cons f fs)
  have later: "mm_offset f + mm_length f \<le> mm_offset g" if "g \<in> set fs" for g
    using mm_sorted_after[OF Cons.prems(1) that] .
  obtain j where j: "mm_keys_loop s e fs (i + 1) = (map (mm_key s) (filter (overlaps s e) fs), j)"
    "i + 1 \<le> j" "mm_passed e (take (j - (i + 1)) fs)"
    using Cons.IH[OF mm_sorted_tl[OF Cons.prems(1)] Cons.prems(2)] by blast
  have tk: "take (j - i) (f # fs) = f # take (j - (i + 1)) fs"
    using j(2) by (simp add: take_Cons')
  consider (after) "e \<le> mm_offset f" | (passed) "mm_offset f < e" "mm_offset f + mm_length f \<le> s"
    | (ends) "mm_offset f < e" "s < mm_offset f + mm_length f" "mm_offset f + mm_length f \<le> e"
    | (past) "mm_offset f < e" "s < mm_offset f + mm_length f" "e < mm_offset f + mm_length f"
    by linarith
  then show ?case
  proof cases
    case after
    then have "filter (overlaps s e) fs = []"
      using later by (fastforce simp: overlaps_def filter_empty_conv)
    moreover have "\<not> overlaps s e f" using after by (simp add: overlaps_def)
    ultimately show ?thesis using after by (simp add: mm_passed_def)
  next
    case passed
    then have "\<not> overlaps s e f" by (simp add: overlaps_def)
    then show ?thesis using passed j tk Cons.prems(2) by (auto simp: mm_passed_def)
  next
    case ends
    then have "overlaps s e f" by (simp add: overlaps_def)
    then show ?thesis using ends j tk by (auto simp: mm_passed_def mm_key_def Let_def)
  next
    case past
    then have "filter (overlaps s e) fs = []"
      using later by (fastforce simp: overlaps_def filter_empty_conv)
    moreover have "overlaps s e f" using past by (simp add: overlaps_def)
    ultimately show ?thesis using past by (auto simp: mm_passed_def mm_key_def Let_def)
  qed
qed (simp add: mm_passed_def)

lemma mm_passed_mono: "mm_passed s fs \<Longrightarrow> s \<le> e \<Longrightarrow> mm_passed e fs"
  by (auto simp: mm_passed_def)

lemma mm_passed_append [simp]: "mm_passed s (fs @ gs) \<longleftrightarrow> mm_passed s fs \<and> mm_passed s gs"
  by (auto simp: mm_passed_def)

lemma filter_passed: "mm_passed s fs \<Longrightarrow> filter (overlaps s e) fs = []"
  by (auto simp: mm_passed_def overlaps_def filter_empty_conv)

text \<open>Starting from a passed index, or from -1 when all but the last feature are passed, the
  optimised routine yields the keys of every overlapping feature.\<close>

definition mm_index_ok :: "request \<Rightarrow> nat \<Rightarrow> int \<Rightarrow> bool" where
  "mm_index_ok r s idx \<longleftrightarrow>
     (if idx < 0 then idx = -1 \<and> mm_passed s (butlast (mm_features r))
      else mm_passed s (take (nat idx) (mm_features r)))"

lemma gen_mm_extra_hash_keys_ref:
  assumes "mm_sorted (mm_features r)" "s \<le> e" "mm_index_ok r s idx"
  shows "\<exists>j. gen_mm_extra_hash_keys r s e idx =
               Inr (map (mm_key s) (filter (overlaps s e) (mm_features r)), j) \<and> mm_index_ok r e j"
proof -
  let ?fs = "mm_features r"
  have mono: "mm_index_ok r e idx"
    using assms(2,3) by (auto simp: mm_index_ok_def intro: mm_passed_mono)
  consider (none) "?fs = []" | (passed) "?fs \<noteq> []" "mm_offset (last ?fs) + mm_length (last ?fs) \<le> s"
    | (live) "?fs \<noteq> []" "s < mm_offset (last ?fs) + mm_length (last ?fs)"
    by linarith
  then show ?thesis
  proof cases
    case none
    with mono show ?thesis by (simp add: gen_mm_extra_hash_keys_def)
  next
    case passed
    then have "mm_passed s ?fs"
      using mm_sorted_last[OF assms(1)] by (fastforce simp: mm_passed_def)
    then show ?thesis using passed mono by (simp add: gen_mm_extra_hash_keys_def filter_passed)
  next
    case live
    define i where "i = (if idx < 0 then nat (int (length ?fs) + idx) else nat idx)"
    have i: "mm_passed s (take i ?fs)"
    proof (cases "idx < 0")
      case True
      then have "i = length ?fs - 1"
        using assms(3) by (auto simp: i_def mm_index_ok_def)
      then show ?thesis using True assms(3) by (simp add: mm_index_ok_def butlast_conv_take)
    qed (use assms(3) in \<open>simp add: i_def mm_index_ok_def\<close>)
    obtain j where j: "mm_keys_loop s e (drop i ?fs) i =
        (map (mm_key s) (filter (overlaps s e) (drop i ?fs)), j)" "i \<le> j"
      "mm_passed e (take (j - i) (drop i ?fs))"
      using mm_keys_loop_filter[OF mm_sorted_drop[OF assms(1)] assms(2)] by blast
    have "filter (overlaps s e) ?fs = filter (overlaps s e) (drop i ?fs)"
      using filter_passed[OF i] by (metis append_Nil append_take_drop_id filter_append)
    moreover have "gen_mm_extra_hash_keys r s e idx =
        Inr (map (mm_key s) (filter (overlaps s e) (drop i ?fs)), int j)"
      using live j(1) assms(3)
      by (auto simp: gen_mm_extra_hash_keys_def Let_def i_def mm_index_ok_def Suc_le_eq)
    moreover have "take j ?fs = take i ?fs @ take (j - i) (drop i ?fs)"
      using j(2) by (metis le_add_diff_inverse take_add)
    then have "mm_index_ok r e (int j)"
      using j(3) mm_passed_mono[OF i assms(2)] by (simp add: mm_index_ok_def)
    ultimately show ?thesis by simp
  qed
qed

lemma generate_block_hash_extra_keys_ref:
  assumes "mm_sorted (mm_features r)" "s \<le> e" "mm_index_ok r s idx"
  shows "\<exists>j. generate_block_hash_extra_keys H r s e idx = Inr (ref_extra H r s e, j) \<and>
             mm_index_ok r e j"
  using gen_mm_extra_hash_keys_ref[OF assms]
  by (auto simp: generate_block_hash_extra_keys_def ref_extra_def Let_def)


subsection \<open>The hashing loop computes the reference hashes\<close>

lemma hasher_loop_ref:
  assumes "mm_sorted (mm_features r)" "0 < hash_block_size H"
    and "mm_index_ok r (k * hash_block_size H) idx"
    and "prev = (if k = 0 then None else Some (ref_hash H r (k - 1)))"
  shows "hasher_loop H r (k * hash_block_size H) idx prev =
           Inr (map (ref_hash H r) [k..<num_full_blocks H r])"
  using assms(3,4)
proof (induction "num_full_blocks H r - k" arbitrary: k idx prev)
  case 0
  then have "num_tokens r div hash_block_size H < Suc k" by (simp add: num_full_blocks_def)
  then have "num_tokens r < Suc k * hash_block_size H"
    by (simp only: div_less_iff_less_mult[OF assms(2)])
  with 0 show ?case by (subst hasher_loop.simps) (simp add: Let_def)
next
  case (Suc n)
  let ?h = "hash_block_size H"
  have lt: "k < num_full_blocks H r" using Suc.hyps(2) by simp
  have le: "Suc k * ?h \<le> num_tokens r"
    using lt assms(2) by (simp add: num_full_blocks_def less_eq_div_iff_mult_less_eq Suc_le_eq[symmetric]
        del: mult_Suc)
  obtain j where j: "generate_block_hash_extra_keys H r (k * ?h) (Suc k * ?h) idx =
      Inr (block_extra H r k, j)" "mm_index_ok r (Suc k * ?h) j"
    using generate_block_hash_extra_keys_ref[OF assms(1) _ Suc.prems(1), of "Suc k * ?h" H]
    by (auto simp: block_extra_def)
  have cur: "hash_block_tokens H prev (block_tokens H r k) (block_extra H r k) = ref_hash H r k"
    using Suc.prems(2) by (cases k) auto
  have "hasher_loop H r (Suc k * ?h) j (Some (ref_hash H r k)) =
      Inr (map (ref_hash H r) [Suc k..<num_full_blocks H r])"
    using Suc.hyps(2) j(2) by (intro Suc.hyps(1)) auto
  then show ?case
    using j(1) cur le lt assms(2)
    by (subst hasher_loop.simps) (simp add: Let_def block_tokens_def upt_conv_Cons add.commute)
qed

lemma hasher_call_ref:
  assumes "mm_sorted (mm_features r)" "0 < hash_block_size H" "hashes_consistent H r"
    and "block_hashes r = [] \<or>
         mm_passed (length (block_hashes r) * hash_block_size H) (butlast (mm_features r))"
  shows "hasher_call H r = Inr (map (ref_hash H r) [length (block_hashes r)..<num_full_blocks H r])"
proof -
  let ?k = "length (block_hashes r)" and ?h = "hash_block_size H"
  have le: "?k \<le> num_full_blocks H r"
    and eq: "block_hashes r = map (ref_hash H r) [0..<?k]"
    using assms(3) by (simp_all add: hashes_consistent_def)
  have prev: "(if block_hashes r \<noteq> [] then Some (last (block_hashes r)) else None) =
              (if ?k = 0 then None else Some (ref_hash H r (?k - 1)))"
    by (subst (2) eq) (simp add: last_map)
  have idx: "mm_index_ok r (?k * ?h) (if ?k * ?h > 0 then -1 else 0)"
    using assms(2,4) by (auto simp: mm_index_ok_def mm_passed_def)
  show ?thesis
  proof (cases "?k * ?h + ?h > num_tokens r")
    case True
    then have "num_full_blocks H r < Suc ?k"
      using assms(2) by (simp add: num_full_blocks_def div_less_iff_less_mult add.commute)
    with True le show ?thesis by (simp add: hasher_call_def)
  next
    case False
    then show ?thesis
      using hasher_loop_ref[OF assms(1,2) idx prev] by (simp add: hasher_call_def Let_def)
  qed
qed

subsection \<open>The embedding memo\<close>

definition embeds_memo_ok :: "block_hasher \<Rightarrow> request \<Rightarrow> bool" where
  "embeds_memo_ok H r \<longleftrightarrow>
     (\<forall>rows s e h. prompt_embeds r = Some rows \<longrightarrow>
        map_of (prompt_embeds_hash_memo r) (s, e) = Some h \<longrightarrow> h = embeds_slice_hash H rows s e)"

lemma prompt_embeds_memo_transparent:
  assumes "embeds_memo_ok H r"
  shows "fst (gen_prompt_embeds_extra_hash_keys_memo H r s e) = gen_prompt_embeds_extra_hash_keys H r s e"
    and "embeds_memo_ok H (snd (gen_prompt_embeds_extra_hash_keys_memo H r s e))"
  using assms
  by (auto simp: gen_prompt_embeds_extra_hash_keys_memo_def gen_prompt_embeds_extra_hash_keys_def
      embeds_memo_ok_def Let_def update_conv split: option.splits if_splits)

end
