(* ===== verification/Request_Ops.thy ===== *)
theory Request_Ops
  imports Block_Hasher
begin

text \<open>
  The methods of \<open>Request\<close> (\<^verbatim>\<open>vllm/v1/request.py\<close>) that use the block hasher: the
  constructor, \<open>append_output_token_ids\<close>, \<open>update_block_hashes\<close> and the memoised
  \<open>hash_prefix\<close>; and \<open>_update_request_as_session\<close> of the scheduler, the one other place that
  writes a request's token list.

  The lemmas say when \<open>block_hashes\<close> is the list of the reference hashes of the request's full
  blocks, and when the memo of prefix hashes is valid.
\<close>

text \<open>The arguments of \<open>Request.__init__\<close>.\<close>

record request_args =
  a_request_id :: string
  a_prompt_token_ids :: "int list option"
  a_sampling_params :: "sampling_params option"
  a_pooling_params :: "pooling_params option"
  a_client_index :: int
  a_arrival_time :: "rat option"
  a_prompt_embeds :: "bytes list option"
  a_prompt_is_token_ids :: "bool list option"
  a_mm_features :: "mm_feature list option"
  a_lora_request :: "lora_request option"
  a_cache_salt :: "string option"
  a_priority :: int
  a_trace_headers :: "string option"
  a_resumable :: bool
  a_reasoning_ended :: "bool option"
  a_reasoning_parser_kwargs :: "string option"
  a_abort_immediately :: bool

definition length_from_prompt :: "int list option \<Rightarrow> bytes list option \<Rightarrow> nat res" where
  "length_from_prompt toks embeds =
     (case toks of
        None \<Rightarrow> (case embeds of None \<Rightarrow> Inl ValueError | Some e \<Rightarrow> Inr (length e))
      | Some t \<Rightarrow>
          (case embeds of
             Some e \<Rightarrow> if length e \<noteq> length t then Inl ValueError else Inr (length t)
           | None \<Rightarrow> Inr (length t)))"

definition structured_from_sampling_params :: "request_args \<Rightarrow> structured_output option" where
  "structured_from_sampling_params a =
     (case a_sampling_params a of
        None \<Rightarrow> None
      | Some sp \<Rightarrow> if sp_structured sp
                   then Some \<lparr>so_reasoning_ended = a_reasoning_ended a,
                              so_reasoning_parser_kwargs = a_reasoning_parser_kwargs a\<rparr>
                   else None)"

text \<open>
  The branch of the constructor on the kind of request: \<open>max_tokens\<close>, the first status, the two
  transfer parameters and the report mode (\<open>None\<close>: the attribute is not set).
\<close>

definition init_kind ::
  "request_args \<Rightarrow> (int \<times> request_status \<times> string option \<times> string option \<times> string option) res" where
  "init_kind a =
     (case a_pooling_params a of
        Some _ \<Rightarrow> Inr (1, WAITING, None, None, None)
      | None \<Rightarrow>
          (case a_sampling_params a of
             None \<Rightarrow> Inl ValueError
           | Some sp \<Rightarrow>
               (case sp_max_tokens sp of
                  None \<Rightarrow> Inl AssertionError
                | Some mt \<Rightarrow>
                    let st = (if structured_from_sampling_params a \<noteq> None
                              then WAITING_FOR_STRUCTURED_OUTPUT_GRAMMAR else WAITING)
                    in case sp_extra_args sp of
                         Some ex \<Rightarrow>
                           Inr (mt, st, map_of ex ''kv_transfer_params'', map_of ex ''ec_transfer_params'',
                                Some (case map_of ex ''kv_cache_report_mode'' of
                                        None \<Rightarrow> ''incremental'' | Some m \<Rightarrow> m))
                       | None \<Rightarrow> Inr (mt, st, None, None, Some ''incremental''))))"

definition update_block_hashes :: "block_hasher option \<Rightarrow> request \<Rightarrow> request res" where
  "update_block_hashes Ho r =
     (case Ho of
        None \<Rightarrow> Inr r
      | Some H \<Rightarrow> rbind (hasher_call H r) (\<lambda>hs. Inr (r\<lparr>block_hashes := block_hashes r @ hs\<rparr>)))"

text \<open>
  The attributes \<open>__init__\<close> assigns before the block hashes are computed.  \<open>now\<close> is
  \<open>time.time()\<close>, \<open>oid\<close> the identity of the new object, \<open>n\<close> the prompt length.
\<close>

definition request_fields ::
  "rat \<Rightarrow> nat \<Rightarrow> request_args \<Rightarrow> int \<times> request_status \<times> string option \<times> string option \<times> string option
   \<Rightarrow> nat \<Rightarrow> request" where
  "request_fields now oid a kind n =
     (let (mt, st, kvp, ecp, mode) = kind in
       \<lparr>request_id = a_request_id a, object_id = oid, client_index = a_client_index a,
        priority = a_priority a, r_sampling_params = a_sampling_params a,
        r_pooling_params = a_pooling_params a, r_lora_request = a_lora_request a,
        structured_output_request = structured_from_sampling_params a,
        arrival_time = (case a_arrival_time a of None \<Rightarrow> now | Some t \<Rightarrow> t),
        status = st, events = [], r_stop_reason = None, kv_transfer_params = kvp,
        ec_transfer_params = ecp, max_tokens = mt, kv_cache_report_mode = mode,
        prompt_token_ids = a_prompt_token_ids a, prompt_embeds = a_prompt_embeds a,
        prompt_is_token_ids = a_prompt_is_token_ids a, prompt_embeds_hash_memo = [],
        num_prompt_tokens = n, output_token_ids = [],
        all_token_ids = (case a_prompt_token_ids a of Some t \<Rightarrow> t | None \<Rightarrow> replicate n 0),
        num_output_placeholders = 0, async_tokens_to_discard = 0, num_in_flight_tokens = 0,
        next_decode_eligible_step = 0, last_sched_seq = 0, spec_token_ids = [],
        num_computed_tokens = 0, cache_salt = a_cache_salt a,
        mm_features = (case a_mm_features a of None \<Rightarrow> [] | Some fs \<Rightarrow> fs),
        trace_headers = a_trace_headers a, is_prefill_chunk = False, shared_prefix_boundary = 0,
        num_nans_in_logits = 0, num_preemptions = 0,
        r_prefill_stats = Some \<lparr>ps_num_prompt_tokens = 0, ps_num_computed_tokens = 0,
          ps_num_cached_tokens = 0, ps_num_local_cached_tokens = 0,
          ps_num_external_cached_tokens = 0, ps_num_cache_creation_tokens = 0\<rparr>,
        block_hashes = [], prefix_hash_memo = [],
        skip_reading_prefix_cache =
          get_skip_reading_prefix_cache (a_sampling_params a) (a_pooling_params a),
        resumable = a_resumable a, streaming_queue = None,
        abort_immediately = a_abort_immediately a\<rparr>)"

definition request_init :: "block_hasher option \<Rightarrow> rat \<Rightarrow> nat \<Rightarrow> request_args \<Rightarrow> request res" where
  "request_init Ho now oid a =
     rbind (init_kind a) (\<lambda>kind.
       rbind (length_from_prompt (a_prompt_token_ids a) (a_prompt_embeds a)) (\<lambda>n.
         update_block_hashes Ho (request_fields now oid a kind n)))"

text \<open>An \<open>int\<close> argument is the one-element list.\<close>

definition append_output_token_ids :: "block_hasher option \<Rightarrow> int list \<Rightarrow> request \<Rightarrow> request res" where
  "append_output_token_ids Ho toks r =
     update_block_hashes Ho
       (r\<lparr>output_token_ids := output_token_ids r @ toks, all_token_ids := all_token_ids r @ toks\<rparr>)"

text \<open>\<open>Request.hash_prefix\<close>: a hit of the memo, or the hasher's answer, which is then stored.\<close>

definition hash_prefix :: "block_hasher option \<Rightarrow> int \<Rightarrow> request \<Rightarrow> (bytes option \<times> request) res" where
  "hash_prefix Ho end r =
     (case Ho of
        None \<Rightarrow> Inr (None, r)
      | Some H \<Rightarrow>
          (case (if end < 0 then None else map_of (prefix_hash_memo r) (nat end)) of
             Some h \<Rightarrow> Inr (Some h, r)
           | None \<Rightarrow>
               rbind (hasher_hash_prefix H r end) (\<lambda>res.
                 case res of
                   None \<Rightarrow> Inr (None, r)
                 | Some h \<Rightarrow>
                     Inr (Some h, r\<lparr>prefix_hash_memo :=
                                     AList.update (nat end) h (prefix_hash_memo r)\<rparr>))))"

text \<open>
  \<open>Scheduler._update_request_as_session\<close>: the writes before the hashes are updated, the
  writes after, and the whole method.  The result pairs the session with the change of the
  scheduler's counter \<open>num_waiting_for_streaming_input\<close>.
\<close>

definition session_tokens :: "streaming_update \<Rightarrow> int list \<Rightarrow> request \<Rightarrow> request" where
  "session_tokens u pt r =
     (let nc = nat (num_computed_tokens r);
          kept = py_slice (all_token_ids r) (num_prompt_tokens r) nc;
          all1 = take nc (all_token_ids r);
          new = opt_list (su_prompt_token_ids u);
          shifted = map (\<lambda>f. f\<lparr>mm_offset := mm_offset f + length all1\<rparr>) (opt_list (su_mm_features u))
      in r\<lparr>output_token_ids := [], prompt_token_ids := Some ((pt @ kept) @ new),
           mm_features := mm_features r @ shifted, all_token_ids := all1 @ new\<rparr>)"

definition session_resume :: "streaming_update \<Rightarrow> request \<Rightarrow> request" where
  "session_resume u r =
     r\<lparr>num_prompt_tokens := length (opt_list (prompt_token_ids r)),
       arrival_time := su_arrival_time u, r_sampling_params := su_sampling_params u,
       status := WAITING\<rparr>"

definition update_request_as_session ::
  "block_hasher option \<Rightarrow> bool \<Rightarrow> rat \<Rightarrow> streaming_update \<Rightarrow> request \<Rightarrow> (request \<times> int) res" where
  "update_request_as_session Ho log_stats now u r =
     (case prompt_token_ids r of
        None \<Rightarrow> Inl AssertionError
      | Some pt \<Rightarrow>
          rbind (update_block_hashes Ho (session_tokens u pt r)) (\<lambda>r1.
            let r2 = session_resume u r1;
                d = (if status r1 = WAITING_FOR_STREAMING_REQ then -1 else 0)
            in Inr (if log_stats then record_event now QUEUED None r2 else r2, d)))"

subsection \<open>Block hashes stay the reference hashes of the tokens\<close>

lemma ref_hash_cong:
  assumes "\<And>j. j \<le> k \<Longrightarrow> block_tokens H r j = block_tokens H r' j"
    and "\<And>j. j \<le> k \<Longrightarrow> block_extra H r j = block_extra H r' j"
  shows "ref_hash H r k = ref_hash H r' k"
  using assms by (induction k) simp_all

lemma full_block_bound:
  assumes "k < num_full_blocks H r"
  shows "Suc k * hash_block_size H \<le> num_tokens r" "0 < hash_block_size H"
proof -
  show h: "0 < hash_block_size H"
    using assms by (cases "hash_block_size H") (simp_all add: num_full_blocks_def)
  have "Suc k \<le> num_tokens r div hash_block_size H" using assms by (simp add: num_full_blocks_def)
  then show "Suc k * hash_block_size H \<le> num_tokens r"
    by (simp only: less_eq_div_iff_mult_less_eq[OF h])
qed

text \<open>A request that extends another one: more tokens, the same sources of extra keys.\<close>

definition extends :: "request \<Rightarrow> request \<Rightarrow> bool" where
  "extends r r' \<longleftrightarrow>
     (\<exists>ts. all_token_ids r' = all_token_ids r @ ts) \<and> mm_features r' = mm_features r \<and>
     r_lora_request r' = r_lora_request r \<and> cache_salt r' = cache_salt r \<and>
     prompt_embeds r' = prompt_embeds r"

lemma extends_extra:
  assumes "extends r r'"
  shows "ref_extra H r' s e = ref_extra H r s e" "gen_mm_extra_hash_keys r' s e i = gen_mm_extra_hash_keys r s e i"
    "generate_block_hash_extra_keys H r' s e i = generate_block_hash_extra_keys H r s e i"
  using assms
  by (simp_all add: extends_def ref_extra_def gen_lora_extra_hash_keys_def cache_salt_keys_def
      gen_prompt_embeds_extra_hash_keys_def gen_mm_extra_hash_keys_def
      generate_block_hash_extra_keys_def)

lemma extends_slice:
  assumes "extends r r'" "e \<le> num_tokens r"
  shows "py_slice (all_token_ids r') s e = py_slice (all_token_ids r) s e"
  using assms by (auto simp: extends_def py_slice_def num_tokens_def)

lemma extends_ref_hash:
  assumes "extends r r'" "k < num_full_blocks H r"
  shows "ref_hash H r' k = ref_hash H r k"
proof (rule ref_hash_cong)
  fix j assume "j \<le> k"
  then have "Suc j * hash_block_size H \<le> num_tokens r"
    using full_block_bound(1)[of j H r] assms(2) by simp
  then show "block_tokens H r' j = block_tokens H r j" "block_extra H r' j = block_extra H r j"
    using extends_slice[OF assms(1)] by (simp_all add: block_tokens_def block_extra_def extends_extra[OF assms(1)])
qed

lemma extends_num_full_blocks: "extends r r' \<Longrightarrow> num_full_blocks H r \<le> num_full_blocks H r'"
  by (auto simp: extends_def num_full_blocks_def num_tokens_def div_le_mono)

lemma hashes_consistent_extends:
  assumes "extends r r'" "hashes_consistent H r" "block_hashes r' = block_hashes r"
  shows "hashes_consistent H r'"
proof -
  let ?n = "length (block_hashes r)"
  have n: "?n \<le> num_full_blocks H r" and eq: "block_hashes r = map (ref_hash H r) [0..<?n]"
    using assms(2) by (simp_all add: hashes_consistent_def)
  have "map (ref_hash H r) [0..<?n] = map (ref_hash H r') [0..<?n]"
    using extends_ref_hash[OF assms(1)] n by simp
  then show ?thesis
    using n eq extends_num_full_blocks[OF assms(1), of H] assms(3)
    by (simp add: hashes_consistent_def)
qed

lemma ref_hash_block_hashes_update [simp]:
  "ref_hash H (r\<lparr>block_hashes := b\<rparr>) k = ref_hash H r k"
  "num_full_blocks H (r\<lparr>block_hashes := b\<rparr>) = num_full_blocks H r"
proof -
  have "extends r (r\<lparr>block_hashes := b\<rparr>)" by (simp add: extends_def)
  then show "ref_hash H (r\<lparr>block_hashes := b\<rparr>) k = ref_hash H r k"
    by (intro ref_hash_cong)
      (simp_all add: block_tokens_def block_extra_def extends_extra)
qed (simp add: num_full_blocks_def num_tokens_def)

text \<open>Features the hashing may still have to name: all but the last are behind the hashed prefix.\<close>

definition mm_hashable :: "block_hasher \<Rightarrow> request \<Rightarrow> bool" where
  "mm_hashable H r \<longleftrightarrow> mm_sorted (mm_features r) \<and>
     (block_hashes r = [] \<or>
      mm_passed (length (block_hashes r) * hash_block_size H) (butlast (mm_features r)))"

lemma update_block_hashes_consistent:
  assumes "mm_hashable H r" "0 < hash_block_size H" "hashes_consistent H r"
  shows "update_block_hashes (Some H) r =
           Inr (r\<lparr>block_hashes := map (ref_hash H r) [0..<num_full_blocks H r]\<rparr>)"
proof -
  let ?n = "length (block_hashes r)"
  have "block_hashes r @ map (ref_hash H r) [?n..<num_full_blocks H r]
        = map (ref_hash H r) ([0..<?n] @ [?n..<num_full_blocks H r])"
    using assms(3) by (simp add: hashes_consistent_def)
  also have "[0..<?n] @ [?n..<num_full_blocks H r] = [0..<num_full_blocks H r]"
    using assms(3) upt_split[of ?n "num_full_blocks H r"] by (simp add: hashes_consistent_def)
  finally show ?thesis
    using hasher_call_ref[OF _ assms(2,3)] assms(1)
    by (simp add: update_block_hashes_def mm_hashable_def)
qed

lemma hashes_consistent_full:
  "hashes_consistent H (r\<lparr>block_hashes := map (ref_hash H r) [0..<num_full_blocks H r]\<rparr>)"
  by (simp add: hashes_consistent_def)

lemma request_fields_simps [simp]:
  "block_hashes (request_fields now oid a kind n) = []"
  "num_prompt_tokens (request_fields now oid a kind n) = n"
  "mm_features (request_fields now oid a kind n) =
     (case a_mm_features a of None \<Rightarrow> [] | Some fs \<Rightarrow> fs)"
  "all_token_ids (request_fields now oid a kind n) =
     (case a_prompt_token_ids a of Some t \<Rightarrow> t | None \<Rightarrow> replicate n 0)"
  "prefix_hash_memo (request_fields now oid a kind n) = []"
  by (simp_all add: request_fields_def Let_def split: prod.split)

lemma length_from_prompt_all:
  "length_from_prompt toks embeds = Inr n \<Longrightarrow>
   length (case toks of Some t \<Rightarrow> t | None \<Rightarrow> replicate n 0) = n"
  by (auto simp: length_from_prompt_def split: option.splits if_splits)

lemma request_init_hashes:
  assumes "request_init (Some H) now oid a = Inr r" "0 < hash_block_size H"
    and "mm_sorted (mm_features r)"
  shows "block_hashes r = map (ref_hash H r) [0..<num_full_blocks H r]"
    and "num_tokens r = num_prompt_tokens r"
proof -
  obtain kind n where k: "length_from_prompt (a_prompt_token_ids a) (a_prompt_embeds a) = Inr n"
    "update_block_hashes (Some H) (request_fields now oid a kind n) = Inr r"
    using assms(1) by (auto simp: request_init_def)
  define r0 where "r0 = request_fields now oid a kind n"
  have r0: "update_block_hashes (Some H) r0 = Inr r" "block_hashes r0 = []"
    "num_tokens r0 = num_prompt_tokens r0"
    using k length_from_prompt_all by (simp_all add: r0_def num_tokens_def)
  obtain hs where rr: "r = r0\<lparr>block_hashes := block_hashes r0 @ hs\<rparr>"
    using r0(1) by (auto simp: update_block_hashes_def simp del: request.update_convs)
  have mm: "mm_features r0 = mm_features r" "num_tokens r = num_tokens r0"
    "num_prompt_tokens r = num_prompt_tokens r0"
    unfolding rr num_tokens_def by simp_all
  have "mm_hashable H r0" "hashes_consistent H r0"
    using assms(3) mm(1) r0(2) by (simp_all add: mm_hashable_def hashes_consistent_def)
  then have "r = r0\<lparr>block_hashes := map (ref_hash H r0) [0..<num_full_blocks H r0]\<rparr>"
    using update_block_hashes_consistent[of H r0] r0(1) assms(2) by simp
  then show "block_hashes r = map (ref_hash H r) [0..<num_full_blocks H r]" by simp
  show "num_tokens r = num_prompt_tokens r" using mm r0 by simp
qed

lemma append_output_hashes:
  assumes "0 < hash_block_size H" "mm_hashable H r" "hashes_consistent H r"
  shows "\<exists>r'. append_output_token_ids (Some H) toks r = Inr r' \<and> hashes_consistent H r' \<and>
           length (block_hashes r') = num_full_blocks H r' \<and>
           all_token_ids r' = all_token_ids r @ toks \<and> extends r r' \<and>
           (\<exists>hs. block_hashes r' = block_hashes r @ hs) \<and> prefix_hash_memo r' = prefix_hash_memo r"
proof -
  let ?r = "r\<lparr>output_token_ids := output_token_ids r @ toks, all_token_ids := all_token_ids r @ toks\<rparr>"
  let ?r' = "?r\<lparr>block_hashes := map (ref_hash H ?r) [0..<num_full_blocks H ?r]\<rparr>"
  have ext: "extends r ?r" by (simp add: extends_def)
  have cons: "hashes_consistent H ?r"
    by (rule hashes_consistent_extends[OF ext assms(3)]) simp
  have "append_output_token_ids (Some H) toks r = Inr ?r'"
    using update_block_hashes_consistent[OF _ assms(1) cons] assms(2)
    by (simp add: append_output_token_ids_def mm_hashable_def)
  moreover have "hashes_consistent H ?r'" by (rule hashes_consistent_full)
  moreover have "map (ref_hash H ?r) [0..<num_full_blocks H ?r] =
      block_hashes r @ map (ref_hash H ?r) [length (block_hashes r)..<num_full_blocks H ?r]"
    using cons upt_split[of "length (block_hashes r)" "num_full_blocks H ?r"]
    by (simp add: hashes_consistent_def del: upt_Suc)
  moreover have "length (block_hashes ?r') = num_full_blocks H ?r'" by simp
  ultimately show ?thesis using ext by (intro exI[of _ ?r']) (simp add: extends_def)
qed

subsection \<open>The memo of prefix hashes\<close>

definition prefix_memo_ok :: "block_hasher \<Rightarrow> request \<Rightarrow> bool" where
  "prefix_memo_ok H r \<longleftrightarrow>
     (\<forall>e h. map_of (prefix_hash_memo r) e = Some h \<longrightarrow> hasher_hash_prefix H r (int e) = Inr (Some h))"

lemma gen_mm_zero_total: "\<exists>ks j. gen_mm_extra_hash_keys r s e 0 = Inr (ks, j)"
  by (auto simp: gen_mm_extra_hash_keys_def Let_def split: prod.splits)

lemma hasher_hash_prefix_total: "\<exists>res. hasher_hash_prefix H r end = Inr res"
proof -
  have "\<exists>extra j. generate_block_hash_extra_keys H r s e 0 = Inr (extra, j)" for s e
  proof -
    obtain ks j where "gen_mm_extra_hash_keys r s e 0 = Inr (ks, j)" using gen_mm_zero_total by blast
    then show ?thesis
      by (cases "gen_lora_extra_hash_keys r @ ks @ cache_salt_keys r s
            @ gen_prompt_embeds_extra_hash_keys H r s e = []")
        (simp_all add: generate_block_hash_extra_keys_def Let_def del: append_is_Nil_conv)
  qed
  then show ?thesis unfolding hasher_hash_prefix_def Let_def
    by (smt (verit, best) case_prod_conv rbind_simps(2))
qed

lemma hasher_hash_prefix_memo_update [simp]:
  "hasher_hash_prefix H (r\<lparr>prefix_hash_memo := m\<rparr>) end = hasher_hash_prefix H r end"
proof -
  have "extends r (r\<lparr>prefix_hash_memo := m\<rparr>)" by (simp add: extends_def)
  then show ?thesis by (simp add: hasher_hash_prefix_def num_tokens_def extends_extra Let_def)
qed

lemma hash_prefix_transparent:
  assumes "prefix_memo_ok H r"
  shows "\<exists>res r'. hash_prefix (Some H) end r = Inr (res, r') \<and>
           hasher_hash_prefix H r end = Inr res \<and> prefix_memo_ok H r'"
proof -
  obtain res where res: "hasher_hash_prefix H r end = Inr res"
    using hasher_hash_prefix_total by blast
  show ?thesis
  proof (cases "if end < 0 then None else map_of (prefix_hash_memo r) (nat end)")
    case None
    show ?thesis
    proof (cases res)
      case (Some h)
      have "0 < end" using res Some by (auto simp: hasher_hash_prefix_def split: if_splits)
      then show ?thesis
        using None res Some assms
        by (auto simp: hash_prefix_def prefix_memo_ok_def update_conv)
    qed (use None res assms in \<open>auto simp: hash_prefix_def\<close>)
  next
    case (Some h)
    then have "0 \<le> end" "map_of (prefix_hash_memo r) (nat end) = Some h"
      by (auto split: if_splits)
    then have "hasher_hash_prefix H r end = Inr (Some h)"
      using assms by (metis int_nat_eq prefix_memo_ok_def)
    then show ?thesis using Some assms by (simp add: hash_prefix_def)
  qed
qed

lemma hasher_hash_prefix_extends:
  assumes "extends r r'" "block_hashes r' = block_hashes r @ hs"
    and "hasher_hash_prefix H r end = Inr (Some h)"
  shows "hasher_hash_prefix H r' end = Inr (Some h)"
proof -
  have e: "0 < end" "end \<le> int (num_tokens r)" "nat end div hash_block_size H \<le> length (block_hashes r)"
    using assms(3) by (auto simp: hasher_hash_prefix_def Let_def split: if_splits)
  have "num_tokens r \<le> num_tokens r'" using assms(1) by (auto simp: extends_def num_tokens_def)
  moreover have "mm_features r' = mm_features r" "prompt_embeds r' = prompt_embeds r"
    using assms(1) by (simp_all add: extends_def)
  moreover have "length (block_hashes r) \<le> length (block_hashes r')"
    "0 < nat end div hash_block_size H \<Longrightarrow>
       block_hashes r' ! (nat end div hash_block_size H - 1) =
       block_hashes r ! (nat end div hash_block_size H - 1)"
    using assms(2) e(3)
    by (simp_all add: nth_append_left)
  moreover have "py_slice (all_token_ids r') s (nat end) = py_slice (all_token_ids r) s (nat end)" for s
    using extends_slice[OF assms(1)] e(1,2) by simp
  ultimately show ?thesis
    using assms(3) e
    by (simp add: hasher_hash_prefix_def Let_def extends_extra[OF assms(1)] cong: if_cong)
qed

lemma prefix_memo_ok_append:
  assumes "0 < hash_block_size H" "mm_hashable H r" "hashes_consistent H r" "prefix_memo_ok H r"
    and "append_output_token_ids (Some H) toks r = Inr r'"
  shows "prefix_memo_ok H r'"
proof -
  obtain hs where "extends r r'" "block_hashes r' = block_hashes r @ hs"
    "prefix_hash_memo r' = prefix_hash_memo r"
    using append_output_hashes[OF assms(1-3), of toks] assms(5) by auto
  then show ?thesis
    using assms(4) hasher_hash_prefix_extends by (auto simp: prefix_memo_ok_def)
qed

end
