(* ===== verification/Block_Pool.thy ===== *)
theory Block_Pool
  imports Hash_Index KV_Metrics Request_Ops
begin

text \<open>
  \<open>BlockPool\<close> of \<^verbatim>\<open>vllm/v1/core/block_pool.py\<close>: its fields as a record (the block objects are
  the heap of \<^verbatim>\<open>Free_Queue\<close>), and every method as a function on it.

  \<open>cached_block_hashes_by_block\<close> maps a block id to a Python set of further keys; the model
  keeps a list without repetitions and iterates it in insertion order.  Two modules the pool
  reads are fields: \<open>use_int_hashes\<close> is \<^verbatim>\<open>envs.VLLM_KV_EVENTS_USE_INT_BLOCK_HASHES\<close>.  Token counts
  and positions that callers keep non-negative are naturals.  Log messages are not modelled.
\<close>

record stored_event =
  ev_block_hashes :: "external_hash list"
  ev_parent_block_hash :: "external_hash option"
  ev_token_ids :: "int list"
  ev_block_size :: nat
  ev_lora_id :: "int option"
  ev_medium :: string
  ev_lora_name :: "string option"
  ev_extra_keys :: "extra_key list option list option"
  ev_group_idx :: int

datatype kv_event =
    BlockStored stored_event
  | BlockRemoved "external_hash list" string int
  | AllBlocksCleared

definition MEDIUM_GPU :: string where
  "MEDIUM_GPU = ''GPU''"

record block_pool =
  num_gpu_blocks :: int
  bp_pool_id :: int
  enable_caching :: bool
  bp_hash_block_size :: nat
  pool_heap :: heap
  pool_blocks :: "bref list"
  free_block_queue :: free_queue
  cached_block_hash_to_block :: hash_map
  cached_block_hashes_by_block :: "int \<rightharpoonup> block_hash_key list"
  tail_entries_by_root :: "bytes option \<rightharpoonup> (nat \<times> bytes) list"
  tail_entry_owner :: "bytes \<rightharpoonup> bytes option \<times> nat"
  tail_entry_refs :: "bytes \<rightharpoonup> int"
  null_block :: bref
  enable_kv_cache_events :: bool
  kv_event_queue :: "kv_event list"
  metrics_collector :: "kv_metrics option"
  use_int_hashes :: bool

definition upd_block :: "bref \<Rightarrow> (kvblock \<Rightarrow> kvblock) \<Rightarrow> heap \<Rightarrow> heap" where
  "upd_block b f h = h(b := f (h b))"

definition on_metrics :: "(kv_metrics \<Rightarrow> kv_metrics) \<Rightarrow> block_pool \<Rightarrow> block_pool" where
  "on_metrics f p = p\<lparr>metrics_collector := map_option f (metrics_collector p)\<rparr>"

text \<open>\<open>__init__\<close>: the blocks, the free list over them, then the null block.\<close>

definition initial_heap :: "nat \<Rightarrow> int \<Rightarrow> heap" where
  "initial_heap n pid =
     (\<lambda>r. case r of Blk i \<Rightarrow> new_block (int i) (if i < n then pid else 0) | _ \<Rightarrow> new_block (-1) 0)"

definition pool_init ::
  "int \<Rightarrow> bool \<Rightarrow> nat \<Rightarrow> bool \<Rightarrow> kv_metrics option \<Rightarrow> int \<Rightarrow> bool \<Rightarrow> block_pool res" where
  "pool_init n caching hbs kv_events mc pid use_int =
     rbind (guard AssertionError (n > 0)) (\<lambda>_.
       let bs = map Blk [0..<nat n];
           (h, q) = fq_init (initial_heap (nat n) pid) bs
       in rbind (fq_popleft h (q\<lparr>fq_pool_id := pid\<rparr>)) (\<lambda>(h1, q1, nb).
         Inr \<lparr>num_gpu_blocks = n, bp_pool_id = pid, enable_caching = caching,
              bp_hash_block_size = hbs,
              pool_heap = upd_block nb (\<lambda>b. b\<lparr>is_null := True\<rparr>) h1, pool_blocks = bs,
              free_block_queue = q1, cached_block_hash_to_block = Map.empty,
              cached_block_hashes_by_block = Map.empty, tail_entries_by_root = Map.empty,
              tail_entry_owner = Map.empty, tail_entry_refs = Map.empty, null_block = nb,
              enable_kv_cache_events = kv_events, kv_event_queue = [], metrics_collector = mc,
              use_int_hashes = use_int\<rparr>))"

fun get_cached_block :: "hash_map \<Rightarrow> bytes \<Rightarrow> int list \<Rightarrow> bref list option res" where
  "get_cached_block m bh [] = Inr (Some [])"
| "get_cached_block m bh (g # gs) =
     rbind (make_block_hash_with_group_id bh g) (\<lambda>key.
       rbind (hm_get_one_block m key) (\<lambda>ob. case ob of
           None \<Rightarrow> Inr None
         | Some b \<Rightarrow> rbind (get_cached_block m bh gs) (\<lambda>r. Inr (map_option (\<lambda>bs. b # bs) r))))"

definition get_num_free_blocks :: "block_pool \<Rightarrow> int" where
  "get_num_free_blocks p = num_free_blocks (free_block_queue p)"

definition get_usage :: "block_pool \<Rightarrow> rat" where
  "get_usage p =
     (let total = num_gpu_blocks p - 1
      in if total = 0 then 0 else 1 - of_int (get_num_free_blocks p) / of_int total)"

definition take_events :: "block_pool \<Rightarrow> kv_event list \<times> block_pool" where
  "take_events p =
     (if \<not> enable_kv_cache_events p then ([], p)
      else (kv_event_queue p, p\<lparr>kv_event_queue := []\<rparr>))"


subsection \<open>Entering and removing keys\<close>

definition extra_hashes :: "block_pool \<Rightarrow> int \<Rightarrow> block_hash_key list" where
  "extra_hashes p i = opt_list (cached_block_hashes_by_block p i)"

text \<open>\<open>_insert_block_hash\<close>, with the boolean it returns.\<close>

definition insert_block_hash ::
  "block_hash_key \<Rightarrow> bref \<Rightarrow> int option \<Rightarrow> block_pool \<Rightarrow> (block_pool \<times> bool) res" where
  "insert_block_hash key b n p =
     (let h = pool_heap p; m = cached_block_hash_to_block p; i = block_id (h b) in
      if block_hash (h b) = Some key then Inr (p, False)
      else if hm_contain h m key i then Inr (p, False)
      else
        rbind (case block_hash (h b) of
                 None \<Rightarrow> rbind (set_block_hash key n (h b)) (\<lambda>blk. Inr (p\<lparr>pool_heap := h(b := blk)\<rparr>))
               | Some _ \<Rightarrow>
                   Inr (p\<lparr>cached_block_hashes_by_block :=
                            (cached_block_hashes_by_block p)(i \<mapsto> set_add key (extra_hashes p i))\<rparr>))
          (\<lambda>p1. Inr (p1\<lparr>cached_block_hash_to_block :=
                          hm_insert (pool_heap p1) (cached_block_hash_to_block p1) key b\<rparr>, True)))"

definition block_keys :: "block_pool \<Rightarrow> bref \<Rightarrow> block_hash_key list" where
  "block_keys p b =
     (case block_hash (pool_heap p b) of None \<Rightarrow> [] | Some key \<Rightarrow> [key])
     @ extra_hashes p (block_id (pool_heap p b))"

definition remove_cached_block_hashes :: "bref \<Rightarrow> block_pool \<Rightarrow> block_hash_key list \<times> block_pool" where
  "remove_cached_block_hashes b p =
     (let h = pool_heap p; keys = block_keys p b;
          p1 = p\<lparr>cached_block_hashes_by_block :=
                   (cached_block_hashes_by_block p)(block_id (h b) := None)\<rparr>
      in if keys = [] then ([], p1)
         else let (m, removed) = hm_pop_all h keys b (cached_block_hash_to_block p)
              in (removed, p1\<lparr>cached_block_hash_to_block := m,
                              pool_heap := upd_block b reset_hash h\<rparr>))"

definition delete_tail :: "bytes option \<Rightarrow> nat \<Rightarrow> block_pool \<Rightarrow> block_pool" where
  "delete_tail rt len p =
     (case tail_entries_by_root p rt of
        None \<Rightarrow> p
      | Some tails \<Rightarrow>
          let tails' = AList.delete len tails
          in p\<lparr>tail_entries_by_root :=
                 (tail_entries_by_root p)(rt := if tails' = [] then None else Some tails')\<rparr>)"

definition drop_tail_entry :: "block_hash_key \<Rightarrow> block_pool \<Rightarrow> block_pool res" where
  "drop_tail_entry key p =
     (let t = get_block_hash key in
      case tail_entry_refs p t of
        None \<Rightarrow> Inr p
      | Some refs \<Rightarrow>
          if refs > 1 then Inr (p\<lparr>tail_entry_refs := (tail_entry_refs p)(t \<mapsto> refs - 1)\<rparr>)
          else
            case tail_entry_owner p t of
              None \<Rightarrow> Inl KeyError
            | Some (rt, len) \<Rightarrow>
                let p1 = p\<lparr>tail_entry_refs := (tail_entry_refs p)(t := None),
                           tail_entry_owner := (tail_entry_owner p)(t := None)\<rparr>
                in Inr (case tail_entries_by_root p rt of
                          None \<Rightarrow> p1
                        | Some tails \<Rightarrow> if map_of tails len = Some t then delete_tail rt len p1
                                        else p1))"

definition drop_tail_entries :: "block_hash_key list \<Rightarrow> block_pool \<Rightarrow> block_pool res" where
  "drop_tail_entries keys p = rfold drop_tail_entry keys p"

definition emit_block_removed_events :: "block_hash_key list \<Rightarrow> block_pool \<Rightarrow> block_pool" where
  "emit_block_removed_events keys p =
     (if \<not> enable_kv_cache_events p then p
      else p\<lparr>kv_event_queue := kv_event_queue p @
               map (\<lambda>key. BlockRemoved [maybe_convert_block_hash (use_int_hashes p) (get_block_hash key)]
                            MEDIUM_GPU (get_group_id key)) keys\<rparr>)"

text \<open>The three calls that callers make in a row: remove, drop, emit.\<close>

definition forget_block :: "bref \<Rightarrow> block_pool \<Rightarrow> block_pool res" where
  "forget_block b p =
     (let (removed, p1) = remove_cached_block_hashes b p
      in rbind (drop_tail_entries removed p1) (\<lambda>p2. Inr (emit_block_removed_events removed p2)))"

definition maybe_evict_cached_block :: "bref \<Rightarrow> block_pool \<Rightarrow> (block_pool \<times> bool) res" where
  "maybe_evict_cached_block b p =
     (let p0 = on_metrics (on_block_evicted (pool_heap p b)) p;
          (evicted, p1) = remove_cached_block_hashes b p0
      in if evicted = [] then Inr (p1, False)
         else rbind (drop_tail_entries evicted p1) (\<lambda>p2.
                Inr (emit_block_removed_events evicted p2, True)))"

definition move_block_hashes :: "bref \<Rightarrow> bref \<Rightarrow> block_pool \<Rightarrow> block_pool res" where
  "move_block_hashes src dst p =
     (let h = pool_heap p in
      rbind (guard AssertionError (block_hash (h dst) = None)) (\<lambda>_.
      rbind (guard AssertionError (cached_block_hashes_by_block p (block_id (h dst)) = None)) (\<lambda>_.
        let n = block_hash_num_tokens (h src);
            (removed, p1) = remove_cached_block_hashes src p
        in rfold (\<lambda>key p. rbind (insert_block_hash key dst n p) (\<lambda>(p', _). Inr p')) removed p1)))"


subsection \<open>Taking and returning blocks\<close>

definition with_queue :: "block_pool \<Rightarrow> heap \<times> free_queue \<Rightarrow> block_pool" where
  "with_queue p s = p\<lparr>pool_heap := fst s, free_block_queue := snd s\<rparr>"

definition add_ref :: "int \<Rightarrow> bref \<Rightarrow> block_pool \<Rightarrow> block_pool" where
  "add_ref d b p = p\<lparr>pool_heap := upd_block b (\<lambda>k. k\<lparr>ref_cnt := ref_cnt k + d\<rparr>) (pool_heap p)\<rparr>"

definition get_new_step :: "bref \<Rightarrow> block_pool \<Rightarrow> block_pool res" where
  "get_new_step b p =
     rbind (if enable_caching p then rbind (maybe_evict_cached_block b p) (\<lambda>(p', _). Inr p') else Inr p)
       (\<lambda>p1. rbind (guard AssertionError (ref_cnt (pool_heap p1 b) = 0)) (\<lambda>_.
          let p2 = add_ref 1 b p1
          in Inr (on_metrics (on_block_allocated (pool_heap p2 b)) p2)))"

definition get_new_blocks :: "int \<Rightarrow> block_pool \<Rightarrow> (block_pool \<times> bref list) res" where
  "get_new_blocks n p =
     (if n < 0 then Inl ValueError
      else if n > get_num_free_blocks p then Inl ValueError
      else rbind (fq_popleft_n (pool_heap p) (free_block_queue p) n) (\<lambda>(h, q, ret).
        rbind (rfold get_new_step ret (with_queue p (h, q))) (\<lambda>p'. Inr (p', ret))))"

definition check_owned :: "block_pool \<Rightarrow> bref \<Rightarrow> unit res" where
  "check_owned p b =
     (let k = pool_heap p b
      in guard RuntimeError (\<not> (blk_pool_id k \<noteq> bp_pool_id p \<and> \<not> is_null k)))"

definition touch_step :: "bref \<Rightarrow> block_pool \<Rightarrow> block_pool res" where
  "touch_step b p =
     rbind (check_owned p b) (\<lambda>_.
       let k = pool_heap p b in
       rbind (if ref_cnt k = 0 \<and> \<not> is_null k
              then rbind (fq_remove (pool_heap p) (free_block_queue p) b) (\<lambda>s. Inr (with_queue p s))
              else if prev_free_block k \<noteq> None \<and> \<not> is_null k then Inl RuntimeError
              else Inr p)
         (\<lambda>p1. let p2 = add_ref 1 b p1
               in Inr (on_metrics (on_block_accessed (pool_heap p2 b)) p2)))"

definition touch :: "bref list \<Rightarrow> block_pool \<Rightarrow> block_pool res" where
  "touch bs p = rfold touch_step bs p"

text \<open>The state of the loop of \<open>free_blocks\<close>: the pool and the two lists it collects.\<close>

definition free_step ::
  "bref \<Rightarrow> block_pool \<times> bref list \<times> bref list \<Rightarrow> (block_pool \<times> bref list \<times> bref list) res" where
  "free_step b st =
     (case st of (p, with_hash, without_hash) \<Rightarrow>
       rbind (check_owned p b) (\<lambda>_.
         let p1 = add_ref (-1) b p; k = pool_heap p1 b in
         rbind (guard RuntimeError (\<not> (ref_cnt k < 0 \<and> \<not> is_null k))) (\<lambda>_.
           Inr (if ref_cnt k = 0 \<and> \<not> is_null k
                then if block_hash k = None \<and> enable_caching p1
                     then (p1, with_hash, without_hash @ [b])
                     else (p1, with_hash @ [b], without_hash)
                else (p1, with_hash, without_hash)))))"

definition free_blocks :: "bref list \<Rightarrow> block_pool \<Rightarrow> block_pool res" where
  "free_blocks bs p =
     rbind (rfold free_step bs (p, [], [])) (\<lambda>(p1, with_hash, without_hash).
       rbind (fq_prepend_n (pool_heap p1) (free_block_queue p1) without_hash) (\<lambda>s.
         rbind (fq_append_n (fst s) (snd s) with_hash) (\<lambda>s'. Inr (with_queue p1 s'))))"

definition evict_step :: "int \<Rightarrow> block_pool \<Rightarrow> block_pool res" where
  "evict_step i p =
     rbind (guard AssertionError (i < int (length (pool_blocks p)))) (\<lambda>_.
       rbind (py_nth (pool_blocks p) i) (\<lambda>b.
         rbind (maybe_evict_cached_block b p) (\<lambda>(p', _). Inr p')))"

text \<open>The set of ids is given in the order of its iteration.\<close>

definition evict_blocks :: "int list \<Rightarrow> block_pool \<Rightarrow> block_pool res" where
  "evict_blocks ids p = rfold evict_step ids p"

definition reset_prefix_cache :: "block_pool \<Rightarrow> bool \<times> block_pool" where
  "reset_prefix_cache p =
     (if num_gpu_blocks p - get_num_free_blocks p \<noteq> 1 then (False, p)
      else
        let p1 = p\<lparr>cached_block_hash_to_block := Map.empty, tail_entries_by_root := Map.empty,
                   tail_entry_owner := Map.empty, tail_entry_refs := Map.empty,
                   cached_block_hashes_by_block := Map.empty,
                   pool_heap := fold (\<lambda>b. upd_block b reset_hash) (pool_blocks p) (pool_heap p)\<rparr>;
            p2 = on_metrics collector_reset p1
        in (True, if enable_kv_cache_events p2
                  then p2\<lparr>kv_event_queue := kv_event_queue p2 @ [AllBlocksCleared]\<rparr> else p2))"


subsection \<open>Caching full blocks\<close>

text \<open>The fields of a \<open>BlockStored\<close> event that come from the request.\<close>

definition build_block_stored_event ::
  "request \<Rightarrow> external_hash list \<Rightarrow> external_hash option \<Rightarrow> nat \<Rightarrow> nat \<Rightarrow> nat \<Rightarrow> int \<Rightarrow>
   extra_key list option list \<Rightarrow> kv_event" where
  "build_block_stored_event r hashes parent start_tok end_tok bs g keys =
     BlockStored \<lparr>ev_block_hashes = hashes, ev_parent_block_hash = parent,
       ev_token_ids = py_slice (all_token_ids r) start_tok end_tok, ev_block_size = bs,
       ev_lora_id = map_option lora_int_id (r_lora_request r), ev_medium = MEDIUM_GPU,
       ev_lora_name = map_option lora_name (r_lora_request r),
       ev_extra_keys = (if keys = [] then None else Some keys), ev_group_idx = g\<rparr>"

definition skip_block :: "heap \<Rightarrow> bool list option \<Rightarrow> nat \<Rightarrow> bref \<Rightarrow> bool" where
  "skip_block h bmask i b \<longleftrightarrow>
     is_null (h b) \<or> (case bmask of None \<Rightarrow> False | Some m \<Rightarrow> \<not> m ! i)"

text \<open>One block of \<open>cache_full_blocks\<close>: \<open>acc\<close> is \<open>new_hashes\<close>, which stays empty without events.\<close>

definition cache_full_step ::
  "bool list option \<Rightarrow> bytes list \<Rightarrow> nat \<Rightarrow> nat \<Rightarrow> int \<Rightarrow> bool \<Rightarrow> nat \<times> bref \<Rightarrow>
   block_pool \<times> external_hash list \<Rightarrow> (block_pool \<times> external_hash list) res" where
  "cache_full_step bmask hs cached bs g keep ib st =
     (case (ib, st) of ((i, b), (p, acc)) \<Rightarrow>
       if skip_block (pool_heap p) bmask i b then Inr (p, acc)
       else rbind (py_nth hs (int i)) (\<lambda>bh.
         let n = int ((cached + i + 1) * bs) in
         rbind (make_block_hash_with_group_id bh g) (\<lambda>key.
           rbind (if block_hash (pool_heap p b) = None then Inr p
                  else rbind (guard AssertionError
                          (case block_hash_num_tokens (pool_heap p b) of None \<Rightarrow> False | Some k \<Rightarrow> k < n))
                        (\<lambda>_. if keep then Inr p else forget_block b p))
             (\<lambda>p1. rbind (insert_block_hash key b (Some n) p1) (\<lambda>(p2, _).
                Inr (p2, if enable_kv_cache_events p2
                         then acc @ [maybe_convert_block_hash (use_int_hashes p2) bh] else acc))))))"

text \<open>The extra keys of the blocks from \<open>i\<close> on, for the event.\<close>

fun stored_extra_keys ::
  "block_hasher \<Rightarrow> request \<Rightarrow> nat \<Rightarrow> int \<Rightarrow> nat list \<Rightarrow> extra_key list option list res" where
  "stored_extra_keys H r bs mm_idx [] = Inr []"
| "stored_extra_keys H r bs mm_idx (i # is) =
     rbind (generate_block_hash_extra_keys H r (i * bs) (i * bs + bs) mm_idx) (\<lambda>(ks, mm_idx').
       rbind (stored_extra_keys H r bs mm_idx' is) (\<lambda>rest. Inr (ks # rest)))"

fun unskipped :: "heap \<Rightarrow> bref list \<Rightarrow> bool list option \<Rightarrow> nat \<Rightarrow> nat list \<Rightarrow> nat list res" where
  "unskipped h blocks bmask cached [] = Inr []"
| "unskipped h blocks bmask cached (i # is) =
     rbind (py_nth blocks (int i)) (\<lambda>b.
       rbind (unskipped h blocks bmask cached is) (\<lambda>rest.
         Inr (if skip_block h bmask (i - cached) b then rest else i # rest)))"

definition cache_full_event ::
  "block_hasher \<Rightarrow> request \<Rightarrow> bref list \<Rightarrow> nat \<Rightarrow> nat \<Rightarrow> nat \<Rightarrow> int \<Rightarrow> bool list option \<Rightarrow>
   hash_view \<Rightarrow> external_hash list \<Rightarrow> block_pool \<Rightarrow> block_pool res" where
  "cache_full_event H r blocks cached full bs g bmask view new_hashes p =
     rbind (if cached = 0 then Inr None
            else rbind (view_at view (int cached - 1)) (\<lambda>bh.
                   Inr (Some (maybe_convert_block_hash (use_int_hashes p) bh)))) (\<lambda>parent.
       rbind (unskipped (pool_heap p) blocks bmask cached [cached..<full]) (\<lambda>is.
         rbind (stored_extra_keys H r bs 0 is) (\<lambda>keys.
           Inr (p\<lparr>kv_event_queue := kv_event_queue p @
             [build_block_stored_event r new_hashes parent (cached * bs) (full * bs) bs g keys]\<rparr>))))"

definition cache_full_blocks ::
  "block_hasher \<Rightarrow> request \<Rightarrow> bref list \<Rightarrow> nat \<Rightarrow> nat \<Rightarrow> nat \<Rightarrow> int \<Rightarrow> bool list option \<Rightarrow> bool \<Rightarrow>
   block_pool \<Rightarrow> block_pool res" where
  "cache_full_blocks H r blocks cached full bs g bmask keep p =
     (if cached \<ge> full then Inr p
      else
        let new = py_slice blocks cached full in
        rbind (guard AssertionError (case bmask of None \<Rightarrow> True | Some m \<Rightarrow> length m = length new)) (\<lambda>_.
        rbind (resolve_block_hashes (RawHashes (block_hashes r)) (int (bp_hash_block_size p)) (int bs)
                 False None) (\<lambda>view.
        rbind (view_from view cached) (\<lambda>hs.
        rbind (rfold (cache_full_step bmask hs cached bs g keep) (enumerate 0 new) (p, []))
          (\<lambda>(p1, new_hashes).
             if enable_kv_cache_events p1
             then cache_full_event H r blocks cached full bs g bmask view new_hashes p1
             else Inr p1)))))"

fun stored_hashes :: "bool \<Rightarrow> hash_view \<Rightarrow> nat list \<Rightarrow> external_hash list res" where
  "stored_hashes use_int v [] = Inr []"
| "stored_hashes use_int v (i # is) =
     rbind (view_at v (int i)) (\<lambda>bh. rbind (stored_hashes use_int v is) (\<lambda>rest.
       Inr (maybe_convert_block_hash use_int bh # rest)))"

definition emit_cached_block_events ::
  "block_hasher \<Rightarrow> request \<Rightarrow> nat \<Rightarrow> nat \<Rightarrow> int \<Rightarrow> block_pool \<Rightarrow> block_pool res" where
  "emit_cached_block_events H r cached bs g p =
     (if \<not> enable_kv_cache_events p \<or> cached = 0 then Inr p
      else rbind (resolve_block_hashes (RawHashes (block_hashes r)) (int (bp_hash_block_size p)) (int bs)
                    False None) (\<lambda>view.
        rbind (stored_hashes (use_int_hashes p) view [0..<cached]) (\<lambda>hashes.
        rbind (stored_extra_keys H r bs 0 [0..<cached]) (\<lambda>keys.
          if hashes = [] then Inr p
          else Inr (p\<lparr>kv_event_queue := kv_event_queue p @
                 [build_block_stored_event r hashes None 0 (cached * bs) bs g keys]\<rparr>)))))"


subsection \<open>Partial blocks and prompt tails\<close>

definition get_partial_block_hash :: "block_pool \<Rightarrow> request \<Rightarrow> nat \<Rightarrow> bytes res" where
  "get_partial_block_hash p r n =
     rbind (guard AssertionError (n mod bp_hash_block_size p = 0)) (\<lambda>_.
       let k = n div bp_hash_block_size p in
       rbind (guard AssertionError (0 < k \<and> k \<le> length (block_hashes r))) (\<lambda>_.
         py_nth (block_hashes r) (int k - 1)))"

definition get_partial_block_parent_hash_and_start ::
  "block_pool \<Rightarrow> request \<Rightarrow> nat \<Rightarrow> (bytes option \<times> nat) res" where
  "get_partial_block_parent_hash_and_start p r n =
     (let hbs = bp_hash_block_size p in
      if n mod hbs = 0 then
        let k = n div hbs in
        rbind (if k > 1 then rbind (py_nth (block_hashes r) (int k - 2)) (\<lambda>x. Inr (Some x)) else Inr None)
          (\<lambda>parent. Inr (parent, (k - 1) * hbs))
      else
        let start = n div hbs * hbs in
        rbind (if start > 0
               then rbind (py_nth (block_hashes r) (int (start div hbs) - 1)) (\<lambda>x. Inr (Some x))
               else Inr None)
          (\<lambda>parent. Inr (parent, start)))"

definition register_tail :: "bytes option \<Rightarrow> nat \<Rightarrow> bytes \<Rightarrow> bool \<Rightarrow> block_pool \<Rightarrow> block_pool" where
  "register_tail rt len t inserted p =
     (let tails = AList.update len t (opt_list (tail_entries_by_root p rt));
          p1 = p\<lparr>tail_entries_by_root := (tail_entries_by_root p)(rt \<mapsto> tails)\<rparr>
      in if inserted
         then p1\<lparr>tail_entry_owner := (tail_entry_owner p)(t \<mapsto> (rt, len)),
                 tail_entry_refs := (tail_entry_refs p)(t \<mapsto>
                   (case tail_entry_refs p t of None \<Rightarrow> 0 | Some k \<Rightarrow> k) + 1)\<rparr>
         else p1)"

definition partial_event ::
  "block_hasher \<Rightarrow> request \<Rightarrow> bytes \<Rightarrow> bytes option \<Rightarrow> nat \<Rightarrow> nat \<Rightarrow> int \<Rightarrow> block_pool \<Rightarrow> block_pool res" where
  "partial_event H r bh parent start n g p =
     rbind (generate_block_hash_extra_keys H r start n (if start > 0 then -1 else 0)) (\<lambda>(keys, _).
       let conv = maybe_convert_block_hash (use_int_hashes p) in
       Inr (p\<lparr>kv_event_queue := kv_event_queue p @
         [BlockStored \<lparr>ev_block_hashes = [conv bh], ev_parent_block_hash = map_option conv parent,
            ev_token_ids = py_slice (all_token_ids r) start n, ev_block_size = n - start,
            ev_lora_id = map_option lora_int_id (r_lora_request r), ev_medium = MEDIUM_GPU,
            ev_lora_name = map_option lora_name (r_lora_request r),
            ev_extra_keys = Some [keys], ev_group_idx = g\<rparr>]\<rparr>))"

text \<open>The hash of the entry: a prompt tail's own chained hash, or the block hash at a boundary.\<close>

definition partial_hash ::
  "block_hasher option \<Rightarrow> block_pool \<Rightarrow> request \<Rightarrow> nat \<Rightarrow> (bytes option \<times> request) res" where
  "partial_hash Ho p r n =
     (if n mod bp_hash_block_size p \<noteq> 0 then hash_prefix Ho (int n) r
      else rbind (get_partial_block_hash p r n) (\<lambda>bh. Inr (Some bh, r)))"

text \<open>
  \<open>Ho\<close> is the request's own hasher and \<open>H\<close> the module's hash functions.  The result pairs the
  pool and the request (whose memo the tail's hash may extend) with the key.
\<close>

definition cache_partial_block ::
  "block_hasher \<Rightarrow> block_hasher option \<Rightarrow> request \<Rightarrow> bref \<Rightarrow> nat \<Rightarrow> int \<Rightarrow> nat \<Rightarrow> block_pool \<Rightarrow>
   (block_pool \<times> request \<times> block_hash_key option) res" where
  "cache_partial_block H Ho r b n g bs p =
     (if is_null (pool_heap p b) then Inr (p, r, None)
      else
        let hbs = bp_hash_block_size p; is_tail = (n mod hbs \<noteq> 0) in
        rbind (guard AssertionError (bs > hbs)) (\<lambda>_.
        rbind (guard AssertionError (bs mod hbs = 0)) (\<lambda>_.
        rbind (guard AssertionError (n mod bs \<noteq> 0)) (\<lambda>_.
        rbind (partial_hash Ho p r n) (\<lambda>(obh, r1).
          case obh of
            None \<Rightarrow> Inr (p, r1, None)
          | Some bh \<Rightarrow>
              rbind (make_block_hash_with_group_id bh g) (\<lambda>key.
                let k = pool_heap p b;
                    already = (block_hash k = Some key \<or>
                               hm_contain (pool_heap p) (cached_block_hash_to_block p) key (block_id k))
                in
                rbind (if \<not> already \<and> block_hash k \<noteq> None \<and>
                          (case block_hash_num_tokens k of None \<Rightarrow> False | Some m \<Rightarrow> m < int n)
                       then forget_block b p else Inr p) (\<lambda>p1.
                rbind (insert_block_hash key b (Some (int n)) p1) (\<lambda>(p2, inserted).
                  let emit = (enable_kv_cache_events p2 \<and> \<not> already) in
                  if \<not> is_tail \<and> \<not> emit then Inr (p2, r1, Some key)
                  else rbind (get_partial_block_parent_hash_and_start p2 r1 n) (\<lambda>(parent, start).
                    let p3 = (if is_tail then register_tail parent (n - start) bh inserted p2 else p2)
                    in if emit
                       then rbind (partial_event H r1 bh parent start n g p3) (\<lambda>p4. Inr (p4, r1, Some key))
                       else Inr (p3, r1, Some key))))))))))"

text \<open>
  \<open>find_tail_entry\<close>: \<open>hash_tail\<close> is the caller's hash of its own tokens.  The tail lengths
  are tried from the longest on.
\<close>

fun any_group_cached :: "hash_map \<Rightarrow> bytes \<Rightarrow> int list \<Rightarrow> bool res" where
  "any_group_cached m t [] = Inr False"
| "any_group_cached m t (g # gs) =
     rbind (make_block_hash_with_group_id t g) (\<lambda>key.
       rbind (hm_get_one_block m key) (\<lambda>ob.
         if ob \<noteq> None then Inr True else any_group_cached m t gs))"

definition forget_tail :: "bytes option \<Rightarrow> nat \<Rightarrow> bytes \<Rightarrow> block_pool \<Rightarrow> block_pool" where
  "forget_tail rt len t p =
     (let p1 = delete_tail rt len p
      in p1\<lparr>tail_entry_owner := (tail_entry_owner p1)(t := None),
            tail_entry_refs := (tail_entry_refs p1)(t := None)\<rparr>)"

fun find_tail_loop ::
  "bytes option \<Rightarrow> int \<Rightarrow> (nat \<Rightarrow> bytes option) \<Rightarrow> int list \<Rightarrow> (nat \<times> bytes) list \<Rightarrow> block_pool \<Rightarrow>
   ((bref list \<times> nat) option \<times> block_pool) res" where
  "find_tail_loop rt max_len hash_tail gs [] p = Inr (None, p)"
| "find_tail_loop rt max_len hash_tail gs ((len, t) # rest) p =
     (if int len > max_len then find_tail_loop rt max_len hash_tail gs rest p
      else if hash_tail len \<noteq> Some t then find_tail_loop rt max_len hash_tail gs rest p
      else rbind (get_cached_block (cached_block_hash_to_block p) t gs) (\<lambda>oc.
        case oc of
          Some bs \<Rightarrow> Inr (Some (bs, len), p)
        | None \<Rightarrow>
            rbind (any_group_cached (cached_block_hash_to_block p) t gs) (\<lambda>any.
              find_tail_loop rt max_len hash_tail gs rest
                (if any then p else forget_tail rt len t p))))"

definition find_tail_entry ::
  "bytes option \<Rightarrow> int \<Rightarrow> (nat \<Rightarrow> bytes option) \<Rightarrow> int list \<Rightarrow> block_pool \<Rightarrow>
   ((bref list \<times> nat) option \<times> block_pool) res" where
  "find_tail_entry rt max_len hash_tail gs p =
     (case tail_entries_by_root p rt of
        None \<Rightarrow> Inr (None, p)
      | Some [] \<Rightarrow> Inr (None, p)
      | Some tails \<Rightarrow>
          find_tail_loop rt max_len hash_tail gs (rev (sort_key fst tails)) p)"

end
