(* ===== verification/Pool_Invariant.thy ===== *)
theory Pool_Invariant
  imports Block_Pool
begin

text \<open>
  The invariant of the block pool, in four parts: the blocks' identities (\<open>pool_static\<close>), the
  free list against the reference counts (\<open>pool_free\<close>), the hash index against the blocks' own
  keys (\<open>pool_index\<close>) and the tail index (\<open>pool_tails\<close>).  Each low-level operation is given
  its effect on the parts; \<^verbatim>\<open>Pool_Alloc\<close> and \<^verbatim>\<open>Pool_Caching\<close> rest on these.
\<close>

definition usable :: "block_pool \<Rightarrow> bref set" where
  "usable p = Blk ` {1..<nat (num_gpu_blocks p)}"

definition pool_static :: "block_pool \<Rightarrow> bool" where
  "pool_static p \<longleftrightarrow>
     num_gpu_blocks p > 0 \<and> null_block p = Blk 0 \<and>
     pool_blocks p = map Blk [0..<nat (num_gpu_blocks p)] \<and>
     (\<forall>i < nat (num_gpu_blocks p). block_id (pool_heap p (Blk i)) = int i \<and>
        blk_pool_id (pool_heap p (Blk i)) = bp_pool_id p \<and>
        (is_null (pool_heap p (Blk i)) \<longleftrightarrow> i = 0))"

text \<open>\<open>out\<close>: blocks without references that are not linked at the moment.\<close>

definition pool_gap :: "block_pool \<Rightarrow> bref list \<Rightarrow> bref list \<Rightarrow> bool" where
  "pool_gap p xs out \<longleftrightarrow>
     queue_repr (pool_heap p) (free_block_queue p) xs \<and> distinct out \<and> set xs \<inter> set out = {} \<and>
     set xs \<union> set out = {b \<in> usable p. ref_cnt (pool_heap p b) = 0} \<and>
     (\<forall>b \<in> usable p. 0 \<le> ref_cnt (pool_heap p b))"

definition pool_free :: "block_pool \<Rightarrow> bref list \<Rightarrow> bool" where
  "pool_free p xs \<longleftrightarrow> pool_gap p xs []"

definition keys_ok :: "block_pool \<Rightarrow> bref \<Rightarrow> bool" where
  "keys_ok p b \<longleftrightarrow>
     distinct (block_keys p b) \<and>
     (block_hash (pool_heap p b) = None \<longrightarrow> block_keys p b = []) \<and>
     (block_hash (pool_heap p b) = None \<longleftrightarrow> block_hash_num_tokens (pool_heap p b) = None)"

definition pool_index :: "block_pool \<Rightarrow> bool" where
  "pool_index p \<longleftrightarrow>
     index_ok (pool_heap p) (cached_block_hash_to_block p) \<and>
     (\<forall>key b. b \<in> hm_at (cached_block_hash_to_block p) key \<longleftrightarrow>
        b \<in> usable p \<and> key \<in> set (block_keys p b)) \<and>
     (\<forall>b \<in> usable p. keys_ok p b) \<and>
     (\<forall>i l. cached_block_hashes_by_block p i = Some l \<longrightarrow> l \<noteq> [] \<and> 0 < i) \<and>
     block_hash (pool_heap p (Blk 0)) = None"

definition pool_tails :: "block_pool \<Rightarrow> bool" where
  "pool_tails p \<longleftrightarrow>
     dom (tail_entry_refs p) = dom (tail_entry_owner p) \<and>
     (\<forall>t k. tail_entry_refs p t = Some k \<longrightarrow> 1 \<le> k) \<and>
     (\<forall>rt. tail_entries_by_root p rt \<noteq> Some [])"

definition pool_inv :: "block_pool \<Rightarrow> bref list \<Rightarrow> bool" where
  "pool_inv p xs \<longleftrightarrow> pool_static p \<and> pool_free p xs \<and> pool_index p \<and> pool_tails p"

text \<open>The part of the pool that the first three depend on.\<close>

definition pool_core :: "block_pool \<Rightarrow> block_pool" where
  "pool_core p = p\<lparr>tail_entries_by_root := Map.empty, tail_entry_owner := Map.empty,
     tail_entry_refs := Map.empty, kv_event_queue := [], metrics_collector := None\<rparr>"

lemma pool_core_simps [simp]:
  "num_gpu_blocks (pool_core p) = num_gpu_blocks p" "bp_pool_id (pool_core p) = bp_pool_id p"
  "enable_caching (pool_core p) = enable_caching p"
  "bp_hash_block_size (pool_core p) = bp_hash_block_size p"
  "pool_heap (pool_core p) = pool_heap p" "pool_blocks (pool_core p) = pool_blocks p"
  "free_block_queue (pool_core p) = free_block_queue p"
  "cached_block_hash_to_block (pool_core p) = cached_block_hash_to_block p"
  "cached_block_hashes_by_block (pool_core p) = cached_block_hashes_by_block p"
  "null_block (pool_core p) = null_block p"
  "enable_kv_cache_events (pool_core p) = enable_kv_cache_events p"
  "use_int_hashes (pool_core p) = use_int_hashes p"
  "pool_core (p\<lparr>tail_entries_by_root := a\<rparr>) = pool_core p"
  "pool_core (p\<lparr>tail_entry_owner := c\<rparr>) = pool_core p"
  "pool_core (p\<lparr>tail_entry_refs := d\<rparr>) = pool_core p"
  "pool_core (p\<lparr>kv_event_queue := e\<rparr>) = pool_core p"
  "pool_core (on_metrics f p) = pool_core p"
  by (simp_all add: pool_core_def on_metrics_def)

lemma core_fields:
  assumes "pool_core p' = pool_core p"
  shows "num_gpu_blocks p' = num_gpu_blocks p" "bp_pool_id p' = bp_pool_id p"
    "enable_caching p' = enable_caching p" "bp_hash_block_size p' = bp_hash_block_size p"
    "pool_heap p' = pool_heap p" "pool_blocks p' = pool_blocks p"
    "free_block_queue p' = free_block_queue p"
    "cached_block_hash_to_block p' = cached_block_hash_to_block p"
    "cached_block_hashes_by_block p' = cached_block_hashes_by_block p"
    "null_block p' = null_block p" "enable_kv_cache_events p' = enable_kv_cache_events p"
    "use_int_hashes p' = use_int_hashes p"
  using assms by (metis pool_core_simps)+

lemma core_parts:
  assumes "pool_core p' = pool_core p"
  shows "usable p' = usable p" "pool_static p' = pool_static p" "pool_gap p' xs out = pool_gap p xs out"
    "block_keys p' b = block_keys p b" "pool_index p' = pool_index p"
    "get_num_free_blocks p' = get_num_free_blocks p"
proof -
  note f = core_fields[OF assms]
  show u: "usable p' = usable p" by (simp add: usable_def f)
  show "pool_static p' = pool_static p" by (simp add: pool_static_def f)
  show "pool_gap p' xs out = pool_gap p xs out" by (simp add: pool_gap_def f u)
  have e: "extra_hashes p' = extra_hashes p" by (rule ext) (simp add: extra_hashes_def f)
  have k: "block_keys p' = block_keys p" by (rule ext) (simp add: block_keys_def f e)
  show "block_keys p' b = block_keys p b" by (simp add: k)
  show "pool_index p' = pool_index p" by (simp add: pool_index_def keys_ok_def f u k)
  show "get_num_free_blocks p' = get_num_free_blocks p" by (simp add: get_num_free_blocks_def f)
qed

lemma pool_tails_other [simp]:
  "pool_tails (p\<lparr>pool_heap := h\<rparr>) = pool_tails p"
  "pool_tails (p\<lparr>free_block_queue := q\<rparr>) = pool_tails p"
  "pool_tails (p\<lparr>cached_block_hash_to_block := m\<rparr>) = pool_tails p"
  "pool_tails (p\<lparr>cached_block_hashes_by_block := e\<rparr>) = pool_tails p"
  "pool_tails (p\<lparr>kv_event_queue := v\<rparr>) = pool_tails p"
  "pool_tails (on_metrics f p) = pool_tails p"
  by (simp_all add: pool_tails_def on_metrics_def)

text \<open>Blocks of the pool.\<close>

lemma pool_staticD:
  assumes "pool_static p"
  shows "num_gpu_blocks p > 0" "null_block p = Blk 0"
    "pool_blocks p = map Blk [0..<nat (num_gpu_blocks p)]"
    "i < nat (num_gpu_blocks p) \<Longrightarrow> block_id (pool_heap p (Blk i)) = int i"
    "i < nat (num_gpu_blocks p) \<Longrightarrow> blk_pool_id (pool_heap p (Blk i)) = bp_pool_id p"
    "i < nat (num_gpu_blocks p) \<Longrightarrow> is_null (pool_heap p (Blk i)) \<longleftrightarrow> i = 0"
  using assms unfolding pool_static_def by blast+

lemma usable_static:
  assumes "pool_static p" "b \<in> usable p"
  shows "b \<noteq> Blk 0" "\<not> is_null (pool_heap p b)" "blk_pool_id (pool_heap p b) = bp_pool_id p"
    "b \<in> own_blocks (pool_heap p)" "0 < block_id (pool_heap p b)" "check_owned p b = Inr ()"
    "b \<noteq> FakeHead" "b \<noteq> FakeTail"
proof -
  obtain i where i: "b = Blk i" "0 < i" "i < nat (num_gpu_blocks p)"
    using assms(2) by (auto simp: usable_def)
  have s: "block_id (pool_heap p (Blk i)) = int i" "blk_pool_id (pool_heap p (Blk i)) = bp_pool_id p"
    "\<not> is_null (pool_heap p (Blk i))"
    using pool_staticD(4-6)[OF assms(1) i(3)] i(2) by blast+
  show "b \<noteq> Blk 0" "\<not> is_null (pool_heap p b)" "blk_pool_id (pool_heap p b) = bp_pool_id p"
    "0 < block_id (pool_heap p b)" "b \<noteq> FakeHead" "b \<noteq> FakeTail"
    unfolding i(1) using s i(2) by simp_all
  show "b \<in> own_blocks (pool_heap p)" unfolding i(1) own_blocks_def using s(1) by blast
  show "check_owned p b = Inr ()" unfolding i(1) check_owned_def using s(2) by simp
qed

lemma usable_ids:
  assumes "pool_static p" "b \<in> usable p" "c \<in> usable p"
  shows "block_id (pool_heap p b) = block_id (pool_heap p c) \<longleftrightarrow> b = c"
proof -
  have "ids_distinct (pool_heap p) {b, c}"
    by (rule ids_distinct_own) (use usable_static(4)[OF assms(1)] assms(2,3) in blast)
  then show ?thesis by (auto simp: ids_distinct_def inj_on_def)
qed

lemma null_static:
  assumes "pool_static p"
  shows "is_null (pool_heap p (Blk 0))" "block_id (pool_heap p (Blk 0)) = 0"
    "check_owned p (Blk 0) = Inr ()" "Blk 0 \<notin> usable p"
proof -
  have z: "0 < nat (num_gpu_blocks p)" using pool_staticD(1)[OF assms] by simp
  show n: "is_null (pool_heap p (Blk 0))" using pool_staticD(6)[OF assms z] by blast
  show "block_id (pool_heap p (Blk 0)) = 0" using pool_staticD(4)[OF assms z] by simp
  show "check_owned p (Blk 0) = Inr ()" using n by (simp add: check_owned_def)
  show "Blk 0 \<notin> usable p" by (auto simp: usable_def)
qed

lemma null_keys:
  assumes "pool_static p" "pool_index p"
  shows "block_keys p (Blk 0) = []" "cached_block_hashes_by_block p 0 = None"
proof -
  show *: "cached_block_hashes_by_block p 0 = None"
    using assms(2) unfolding pool_index_def by (metis less_irrefl not_None_eq)
  show "block_keys p (Blk 0) = []"
    using assms * null_static(2)[OF assms(1)]
    by (simp add: block_keys_def extra_hashes_def opt_list_def pool_index_def)
qed

lemma pool_indexD:
  assumes "pool_index p"
  shows "index_ok (pool_heap p) (cached_block_hash_to_block p)"
    "b \<in> hm_at (cached_block_hash_to_block p) key \<longleftrightarrow> b \<in> usable p \<and> key \<in> set (block_keys p b)"
    "b \<in> usable p \<Longrightarrow> keys_ok p b"
    "cached_block_hashes_by_block p i = Some l \<Longrightarrow> l \<noteq> [] \<and> 0 < i"
    "block_hash (pool_heap p (Blk 0)) = None"
  using assms unfolding pool_index_def by blast+

lemma keys_okD:
  assumes "keys_ok p b"
  shows "distinct (block_keys p b)" "block_hash (pool_heap p b) = None \<Longrightarrow> block_keys p b = []"
    "block_hash (pool_heap p b) = None \<longleftrightarrow> block_hash_num_tokens (pool_heap p b) = None"
  using assms by (simp_all add: keys_ok_def)

lemma block_keys_Nil_iff:
  "keys_ok p b \<Longrightarrow> block_keys p b = [] \<longleftrightarrow> block_hash (pool_heap p b) = None"
  using keys_okD(2) by (auto simp: block_keys_def split: option.splits)

text \<open>The data fields of the heap decide the static part and the index part.\<close>

lemma pool_static_cong:
  assumes "num_gpu_blocks p' = num_gpu_blocks p" "null_block p' = null_block p"
    "pool_blocks p' = pool_blocks p" "bp_pool_id p' = bp_pool_id p"
    "\<And>r. block_id (pool_heap p' r) = block_id (pool_heap p r)"
    "\<And>r. blk_pool_id (pool_heap p' r) = blk_pool_id (pool_heap p r)"
    "\<And>r. is_null (pool_heap p' r) = is_null (pool_heap p r)"
  shows "pool_static p' = pool_static p"
  unfolding pool_static_def by (simp only: assms)

lemma data_parts:
  assumes "\<And>r. block_id (h r) = block_id (pool_heap p r)"
    "\<And>r. blk_pool_id (h r) = blk_pool_id (pool_heap p r)"
    "\<And>r. is_null (h r) = is_null (pool_heap p r)"
  shows "pool_static (p\<lparr>pool_heap := h\<rparr>) = pool_static p"
  by (rule pool_static_cong) (simp_all add: assms)

lemma data_index:
  assumes "\<And>r. block_id (h r) = block_id (pool_heap p r)"
    "\<And>r. block_hash (h r) = block_hash (pool_heap p r)"
    "\<And>r. block_hash_num_tokens (h r) = block_hash_num_tokens (pool_heap p r)"
  shows "pool_index (p\<lparr>pool_heap := h\<rparr>) = pool_index p"
    and "block_keys (p\<lparr>pool_heap := h\<rparr>) b = block_keys p b"
proof -
  have k: "block_keys (p\<lparr>pool_heap := h\<rparr>) = block_keys p"
    by (rule ext) (simp add: block_keys_def extra_hashes_def assms)
  then show "block_keys (p\<lparr>pool_heap := h\<rparr>) b = block_keys p b" by simp
  have "index_ok h m = index_ok (pool_heap p) m" for m
    using index_ok_ids[where h = "pool_heap p" and h' = h] index_ok_ids[where h = h and h' = "pool_heap p"]
      assms(1) by metis
  then show "pool_index (p\<lparr>pool_heap := h\<rparr>) = pool_index p"
    by (simp add: pool_index_def keys_ok_def k assms usable_def)
qed

lemma usable_other [simp]:
  "usable (p\<lparr>pool_heap := h\<rparr>) = usable p" "usable (p\<lparr>free_block_queue := q\<rparr>) = usable p"
  "usable (p\<lparr>cached_block_hash_to_block := m\<rparr>) = usable p"
  "usable (p\<lparr>cached_block_hashes_by_block := e\<rparr>) = usable p"
  "usable (on_metrics f p) = usable p" "usable (add_ref d b p) = usable p"
  "usable (with_queue p s) = usable p"
  by (simp_all add: usable_def on_metrics_def add_ref_def with_queue_def)

lemma queue_other [simp]:
  "pool_static (p\<lparr>free_block_queue := q\<rparr>) = pool_static p"
  "pool_index (p\<lparr>free_block_queue := q\<rparr>) = pool_index p"
  "block_keys (p\<lparr>free_block_queue := q\<rparr>) b = block_keys p b"
proof -
  have "block_keys (p\<lparr>free_block_queue := q\<rparr>) = block_keys p"
    by (rule ext) (simp add: block_keys_def extra_hashes_def)
  then show "block_keys (p\<lparr>free_block_queue := q\<rparr>) b = block_keys p b"
    "pool_index (p\<lparr>free_block_queue := q\<rparr>) = pool_index p"
    by (simp_all add: pool_index_def keys_ok_def)
qed (simp add: pool_static_def)

lemma upd_block_fields [simp]: "upd_block b f h c = (if c = b then f (h c) else h c)"
  by (simp add: upd_block_def)

lemma add_ref_parts:
  shows "pool_static (add_ref d b p) = pool_static p" "pool_index (add_ref d b p) = pool_index p"
    "pool_tails (add_ref d b p) = pool_tails p" "block_keys (add_ref d b p) c = block_keys p c"
  unfolding add_ref_def by (simp_all add: data_parts data_index)

lemma with_queue_parts:
  assumes "same_data (pool_heap p) (fst s)"
  shows "pool_static (with_queue p s) = pool_static p" "pool_index (with_queue p s) = pool_index p"
    "pool_tails (with_queue p s) = pool_tails p" "block_keys (with_queue p s) b = block_keys p b"
proof -
  have *: "with_queue p s = (p\<lparr>pool_heap := fst s\<rparr>)\<lparr>free_block_queue := snd s\<rparr>"
    by (simp add: with_queue_def)
  show "pool_static (with_queue p s) = pool_static p" "pool_index (with_queue p s) = pool_index p"
    "pool_tails (with_queue p s) = pool_tails p" "block_keys (with_queue p s) b = block_keys p b"
    unfolding * using same_data_fields[OF assms] by (simp_all add: data_parts data_index)
qed

text \<open>Hash metadata is invisible to the free list.\<close>

lemma queue_repr_cong:
  assumes "queue_repr h q xs" "\<And>r. prev_free_block (h' r) = prev_free_block (h r)"
    "\<And>r. next_free_block (h' r) = next_free_block (h r)" "\<And>r. block_id (h' r) = block_id (h r)"
  shows "queue_repr h' q xs"
proof -
  have "seg h' a ys c = seg h a ys c" for a ys c by (rule seg_frame) (simp_all add: assms)
  then show ?thesis using assms(1) by (simp add: queue_repr_def assms(2-4) unlinked_def)
qed

lemma gap_data:
  assumes "pool_gap p xs out" "\<And>r. prev_free_block (h r) = prev_free_block (pool_heap p r)"
    "\<And>r. next_free_block (h r) = next_free_block (pool_heap p r)"
    "\<And>r. block_id (h r) = block_id (pool_heap p r)" "\<And>r. ref_cnt (h r) = ref_cnt (pool_heap p r)"
  shows "pool_gap (p\<lparr>pool_heap := h\<rparr>) xs out"
  using assms(1) queue_repr_cong[of "pool_heap p" _ _ h, OF _ assms(2-4)]
  by (simp add: pool_gap_def assms(5))

subsection \<open>Removing the keys of a block\<close>

definition without_keys :: "bref \<Rightarrow> hash_map \<Rightarrow> block_pool \<Rightarrow> block_pool" where
  "without_keys b m p =
     p\<lparr>cached_block_hashes_by_block :=
          (cached_block_hashes_by_block p)(block_id (pool_heap p b) := None),
       cached_block_hash_to_block := m, pool_heap := upd_block b reset_hash (pool_heap p)\<rparr>"

lemma reset_hash_fields [simp]:
  "block_id (reset_hash k) = block_id k" "ref_cnt (reset_hash k) = ref_cnt k"
  "block_hash (reset_hash k) = None" "block_hash_num_tokens (reset_hash k) = None"
  "prev_free_block (reset_hash k) = prev_free_block k"
  "next_free_block (reset_hash k) = next_free_block k"
  "is_null (reset_hash k) = is_null k" "blk_pool_id (reset_hash k) = blk_pool_id k"
  by (simp_all add: reset_hash_def)

lemma reset_hash_idle:
  "block_hash (h b) = None \<Longrightarrow> block_hash_num_tokens (h b) = None \<Longrightarrow> upd_block b reset_hash h = h"
proof -
  assume "block_hash (h b) = None" "block_hash_num_tokens (h b) = None"
  then have "reset_hash (h b) = h b" by (intro kvblock.equality) simp_all
  then show "upd_block b reset_hash h = h" by (simp add: upd_block_def)
qed

lemma remove_effect:
  assumes "pool_static p" "pool_index p" "b \<in> usable p"
  shows "\<exists>m. remove_cached_block_hashes b p = (block_keys p b, without_keys b m p) \<and>
             index_ok (pool_heap p) m \<and>
             (\<forall>k. hm_at m k = hm_at (cached_block_hash_to_block p) k - {b})"
proof (cases "block_keys p b = []")
  case True
  have "block_hash (pool_heap p b) = None" "block_hash_num_tokens (pool_heap p b) = None"
    using True pool_indexD(3)[OF assms(2,3)] by (simp_all add: block_keys_Nil_iff keys_okD(3)[symmetric])
  then have "without_keys b (cached_block_hash_to_block p) p =
      p\<lparr>cached_block_hashes_by_block :=
          (cached_block_hashes_by_block p)(block_id (pool_heap p b) := None)\<rparr>"
    by (simp add: without_keys_def reset_hash_idle)
  moreover have "b \<notin> hm_at (cached_block_hash_to_block p) k" for k
    using pool_indexD(2)[OF assms(2)] True by simp
  ultimately show ?thesis
    using True pool_indexD(1)[OF assms(2)]
    by (intro exI[of _ "cached_block_hash_to_block p"]) (simp add: remove_cached_block_hashes_def)
next
  case False
  let ?m = "cached_block_hash_to_block p" and ?h = "pool_heap p"
  obtain m ks where m: "hm_pop_all ?h (block_keys p b) b ?m = (m, ks)" by (metis surj_pair)
  note sp = hm_pop_all_spec[OF pool_indexD(1)[OF assms(2)] usable_static(4)[OF assms(1,3)],
      where ks = "block_keys p b", unfolded m, simplified]
  have "filter (\<lambda>k. b \<in> hm_at ?m k) (block_keys p b) = block_keys p b"
    using assms(3) by (simp add: pool_indexD(2)[OF assms(2)] filter_id_conv)
  then have "ks = block_keys p b"
    using sp(3) keys_okD(1)[OF pool_indexD(3)[OF assms(2,3)]] by simp
  then have "remove_cached_block_hashes b p = (block_keys p b, without_keys b m p)"
    using False m by (simp add: remove_cached_block_hashes_def Let_def without_keys_def)
  moreover have "hm_at m k = hm_at ?m k - {b}" for k
    using sp(2) pool_indexD(2)[OF assms(2), of b k] by auto
  ultimately show ?thesis using sp(1) by blast
qed

lemma without_keys_fields [simp]:
  "usable (without_keys b m p) = usable p"
  "pool_tails (without_keys b m p) = pool_tails p"
  "enable_caching (without_keys b m p) = enable_caching p"
  "bp_hash_block_size (without_keys b m p) = bp_hash_block_size p"
  "enable_kv_cache_events (without_keys b m p) = enable_kv_cache_events p"
  "use_int_hashes (without_keys b m p) = use_int_hashes p"
  "cached_block_hash_to_block (without_keys b m p) = m"
  "pool_heap (without_keys b m p) = upd_block b reset_hash (pool_heap p)"
  "free_block_queue (without_keys b m p) = free_block_queue p"
  by (simp_all add: without_keys_def usable_def pool_tails_def)

lemma without_keys_static [simp]: "pool_static (without_keys b m p) = pool_static p"
  by (rule pool_static_cong) (simp_all add: without_keys_def)

lemma without_keys_gap:
  assumes "pool_gap p xs out"
  shows "pool_gap (without_keys b m p) xs out"
  using assms queue_repr_cong[of "pool_heap p" _ xs "upd_block b reset_hash (pool_heap p)"]
  by (auto simp: pool_gap_def)

lemma without_keys_keys:
  assumes "pool_static p" "b \<in> usable p" "c \<in> usable p"
  shows "block_keys (without_keys b m p) c = (if c = b then [] else block_keys p c)"
  using usable_ids[OF assms(1,3,2)]
  by (simp add: block_keys_def extra_hashes_def without_keys_def opt_list_def)

lemma without_keys_index:
  assumes "pool_static p" "pool_index p" "b \<in> usable p"
    and "index_ok (pool_heap p) m" "\<forall>k. hm_at m k = hm_at (cached_block_hash_to_block p) k - {b}"
  shows "pool_index (without_keys b m p)"
proof -
  let ?p = "without_keys b m p"
  note k = without_keys_keys[OF assms(1,3), where m = m]
  have "index_ok (pool_heap ?p) m" by (rule index_ok_ids[OF assms(4)]) simp
  moreover have "c \<in> hm_at m key \<longleftrightarrow> c \<in> usable p \<and> key \<in> set (block_keys ?p c)" for c key
    using assms(5) pool_indexD(2)[OF assms(2), of c key] k[of c] by (cases "c = b") auto
  moreover have "keys_ok ?p c" if "c \<in> usable p" for c
    using that k[OF that] pool_indexD(3)[OF assms(2) that] by (simp add: keys_ok_def)
  moreover have "l \<noteq> [] \<and> 0 < i" if "cached_block_hashes_by_block ?p i = Some l" for i l
    using that pool_indexD(4)[OF assms(2)] by (auto simp: without_keys_def split: if_splits)
  moreover have "block_hash (pool_heap ?p (Blk 0)) = None" using pool_indexD(5)[OF assms(2)] by simp
  ultimately show ?thesis by (simp add: pool_index_def)
qed

lemma remove_null:
  assumes "pool_static p" "pool_index p"
  shows "remove_cached_block_hashes (Blk 0) p = ([], p)"
proof -
  have "cached_block_hashes_by_block p = (cached_block_hashes_by_block p)(0 := None)"
    using null_keys(2)[OF assms] by (simp add: fun_eq_iff)
  then show ?thesis
    using null_keys(1)[OF assms] null_static(2)[OF assms(1)]
    by (simp add: remove_cached_block_hashes_def Let_def)
qed

text \<open>Dropping tail entries and emitting events touch neither blocks nor index.\<close>

lemma delete_tail_parts:
  "pool_core (delete_tail rt len p) = pool_core p"
  "tail_entry_refs (delete_tail rt len p) = tail_entry_refs p"
  "tail_entry_owner (delete_tail rt len p) = tail_entry_owner p"
  "(\<forall>r. tail_entries_by_root p r \<noteq> Some []) \<Longrightarrow>
     (\<forall>r. tail_entries_by_root (delete_tail rt len p) r \<noteq> Some [])"
  by (auto simp: delete_tail_def Let_def split: option.split)

lemma drop_tail_entry_total:
  assumes "pool_tails p"
  shows "\<exists>p'. drop_tail_entry key p = Inr p' \<and> pool_core p' = pool_core p \<and> pool_tails p'"
proof (cases "tail_entry_refs p (get_block_hash key)")
  case None
  with assms show ?thesis by (simp add: drop_tail_entry_def)
next
  case (Some refs)
  let ?t = "get_block_hash key"
  note t = assms[unfolded pool_tails_def]
  show ?thesis
  proof (cases "refs > 1")
    case True
    then have "pool_tails (p\<lparr>tail_entry_refs := (tail_entry_refs p)(?t \<mapsto> refs - 1)\<rparr>)"
      using t Some by (auto simp: pool_tails_def)
    with True Some show ?thesis by (simp add: drop_tail_entry_def)
  next
    case False
    obtain rt len where o: "tail_entry_owner p ?t = Some (rt, len)"
      using t Some by (metis domI domD surj_pair)
    define p1 where "p1 = p\<lparr>tail_entry_refs := (tail_entry_refs p)(?t := None),
        tail_entry_owner := (tail_entry_owner p)(?t := None)\<rparr>"
    define p2 where "p2 = (case tail_entries_by_root p rt of None \<Rightarrow> p1
        | Some tails \<Rightarrow> if map_of tails len = Some ?t then delete_tail rt len p1 else p1)"
    have p1: "pool_tails p1" "pool_core p1 = pool_core p"
      using t by (simp_all add: p1_def pool_tails_def dom_fun_upd)
    have "p2 = p1 \<or> p2 = delete_tail rt len p1"
      by (simp add: p2_def split: option.split)
    then have "pool_tails p2" "pool_core p2 = pool_core p"
      using p1 delete_tail_parts[where p = p1] unfolding pool_tails_def by metis+
    moreover have "drop_tail_entry key p = Inr p2"
      unfolding drop_tail_entry_def Let_def p2_def p1_def using False Some o by simp
    ultimately show ?thesis by blast
  qed
qed

lemma drop_tail_entries_total:
  assumes "pool_tails p"
  shows "\<exists>p'. drop_tail_entries keys p = Inr p' \<and> pool_core p' = pool_core p \<and> pool_tails p'"
proof -
  have "\<exists>q'. drop_tail_entry k q = Inr q' \<and> pool_core q' = pool_core p \<and> pool_tails q'"
    if "pool_core q = pool_core p \<and> pool_tails q" for k q
    using drop_tail_entry_total[of q k] that by simp
  then show ?thesis
    unfolding drop_tail_entries_def
    by (intro rfold_total[where P = "\<lambda>q. pool_core q = pool_core p \<and> pool_tails q"])
      (use assms in simp_all)
qed

lemma emit_removed_parts [simp]:
  "pool_core (emit_block_removed_events keys p) = pool_core p"
  "pool_tails (emit_block_removed_events keys p) = pool_tails p"
  by (simp_all add: emit_block_removed_events_def)

lemma forget_block_total:
  assumes "pool_static p" "pool_index p" "pool_tails p" "b \<in> usable p"
  shows "\<exists>p' m. forget_block b p = Inr p' \<and> pool_core p' = pool_core (without_keys b m p) \<and>
           pool_index p' \<and> pool_tails p'"
proof -
  obtain m where m: "remove_cached_block_hashes b p = (block_keys p b, without_keys b m p)"
    "index_ok (pool_heap p) m" "\<forall>k. hm_at m k = hm_at (cached_block_hash_to_block p) k - {b}"
    using remove_effect[OF assms(1,2,4)] by blast
  obtain p' where p': "drop_tail_entries (block_keys p b) (without_keys b m p) = Inr p'"
    "pool_core p' = pool_core (without_keys b m p)" "pool_tails p'"
    using drop_tail_entries_total[of "without_keys b m p"] assms(3) by auto
  let ?p = "emit_block_removed_events (block_keys p b) p'"
  have "pool_core ?p = pool_core (without_keys b m p)" "pool_tails ?p" using p' by simp_all
  moreover have "pool_index ?p"
    using core_parts(5)[OF calculation(1)] without_keys_index[OF assms(1,2,4) m(2,3)] by simp
  moreover have "forget_block b p = Inr ?p" using m(1) p'(1) by (simp add: forget_block_def)
  ultimately show ?thesis by blast
qed

lemma maybe_evict_total:
  assumes "pool_static p" "pool_index p" "pool_tails p" "b \<in> usable p"
  shows "\<exists>p' m. maybe_evict_cached_block b p = Inr (p', block_keys p b \<noteq> []) \<and>
           pool_core p' = pool_core (without_keys b m p) \<and> pool_index p' \<and> pool_tails p'"
proof -
  define p0 where "p0 = on_metrics (on_block_evicted (pool_heap p b)) p"
  have c: "pool_core p0 = pool_core p" and t0: "pool_tails p0" using assms(3) by (simp_all add: p0_def)
  note cp = core_parts[OF c] core_fields[OF c]
  have a0: "pool_static p0" "pool_index p0" "b \<in> usable p0" "block_keys p0 b = block_keys p b"
    using assms cp by simp_all
  obtain m where m: "remove_cached_block_hashes b p0 = (block_keys p b, without_keys b m p0)"
    "index_ok (pool_heap p0) m" "\<forall>k. hm_at m k = hm_at (cached_block_hash_to_block p0) k - {b}"
    using remove_effect[OF a0(1-3)] a0(4) by auto
  have w: "pool_core (without_keys b m p0) = pool_core (without_keys b m p)"
    by (simp add: p0_def on_metrics_def without_keys_def pool_core_def)
  have i: "pool_index (without_keys b m p0)" by (rule without_keys_index[OF a0(1-3) m(2,3)])
  show ?thesis
  proof (cases "block_keys p b = []")
    case True
    then have "maybe_evict_cached_block b p = Inr (without_keys b m p0, False)"
      using m(1) by (simp add: maybe_evict_cached_block_def p0_def[symmetric])
    moreover have "pool_tails (without_keys b m p0)" using t0 by simp
    ultimately show ?thesis using True w i by (intro exI[of _ "without_keys b m p0"] exI[of _ m]) simp
  next
    case False
    obtain p' where p': "drop_tail_entries (block_keys p b) (without_keys b m p0) = Inr p'"
      "pool_core p' = pool_core (without_keys b m p0)" "pool_tails p'"
      using drop_tail_entries_total[of "without_keys b m p0"] t0 by auto
    let ?p = "emit_block_removed_events (block_keys p b) p'"
    have "pool_core ?p = pool_core (without_keys b m p)" "pool_tails ?p" using p' w by simp_all
    moreover have "pool_index ?p" using core_parts(5)[OF calculation(1)] core_parts(5)[OF w] i by simp
    moreover have "maybe_evict_cached_block b p = Inr (?p, True)"
      using m(1) p'(1) False by (simp add: maybe_evict_cached_block_def p0_def[symmetric])
    ultimately show ?thesis using False by (intro exI[of _ ?p] exI[of _ m]) simp
  qed
qed

subsection \<open>Entering a key\<close>

definition with_key :: "bref \<Rightarrow> block_hash_key \<Rightarrow> int option \<Rightarrow> hash_map \<Rightarrow> block_pool \<Rightarrow> block_pool" where
  "with_key b key n m p =
     (let h = pool_heap p; i = block_id (h b) in
      (if block_hash (h b) = None
       then p\<lparr>pool_heap := upd_block b (\<lambda>k. k\<lparr>block_hash := Some key, block_hash_num_tokens := n\<rparr>) h\<rparr>
       else p\<lparr>cached_block_hashes_by_block :=
                (cached_block_hashes_by_block p)(i \<mapsto> extra_hashes p i @ [key])\<rparr>)
      \<lparr>cached_block_hash_to_block := m\<rparr>)"

lemma with_key_fields [simp]:
  "usable (with_key b key n m p) = usable p"
  "pool_tails (with_key b key n m p) = pool_tails p"
  "enable_caching (with_key b key n m p) = enable_caching p"
  "bp_hash_block_size (with_key b key n m p) = bp_hash_block_size p"
  "enable_kv_cache_events (with_key b key n m p) = enable_kv_cache_events p"
  "use_int_hashes (with_key b key n m p) = use_int_hashes p"
  "cached_block_hash_to_block (with_key b key n m p) = m"
  "free_block_queue (with_key b key n m p) = free_block_queue p"
  by (simp_all add: with_key_def Let_def usable_def pool_tails_def)

lemma with_key_static [simp]: "pool_static (with_key b key n m p) = pool_static p"
  by (rule pool_static_cong) (simp_all add: with_key_def Let_def)

lemma with_key_heap:
  "prev_free_block (pool_heap (with_key b key n m p) r) = prev_free_block (pool_heap p r)"
  "next_free_block (pool_heap (with_key b key n m p) r) = next_free_block (pool_heap p r)"
  "block_id (pool_heap (with_key b key n m p) r) = block_id (pool_heap p r)"
  "ref_cnt (pool_heap (with_key b key n m p) r) = ref_cnt (pool_heap p r)"
  "is_null (pool_heap (with_key b key n m p) r) = is_null (pool_heap p r)"
  "block_hash (pool_heap (with_key b key n m p) r) =
     (if r = b \<and> block_hash (pool_heap p b) = None then Some key else block_hash (pool_heap p r))"
  "block_hash_num_tokens (pool_heap (with_key b key n m p) r) =
     (if r = b \<and> block_hash (pool_heap p b) = None then n else block_hash_num_tokens (pool_heap p r))"
  by (simp_all add: with_key_def Let_def)

lemma with_key_keys:
  assumes "pool_static p" "b \<in> usable p" "keys_ok p b" "c \<in> usable p"
  shows "block_keys (with_key b key n m p) c =
           (if c = b then block_keys p b @ [key] else block_keys p c)"
  using usable_ids[OF assms(1,4,2)] keys_okD(2)[OF assms(3)]
  by (auto simp: with_key_def Let_def block_keys_def extra_hashes_def opt_list_def
      split: option.splits)

lemma with_key_gap:
  assumes "pool_gap p xs out"
  shows "pool_gap (with_key b key n m p) xs out"
  using assms queue_repr_cong[of "pool_heap p" _ xs "pool_heap (with_key b key n m p)"]
  by (simp add: pool_gap_def with_key_heap)

lemma insert_effect:
  assumes "pool_static p" "pool_index p" "b \<in> usable p"
  shows "key \<in> set (block_keys p b) \<Longrightarrow> insert_block_hash key b n p = Inr (p, False)"
    and "key \<notin> set (block_keys p b) \<Longrightarrow>
      \<exists>m. insert_block_hash key b n p = Inr (with_key b key n m p, True) \<and>
          index_ok (pool_heap p) m \<and>
          (\<forall>k. hm_at m k = (if k = key then insert b (hm_at (cached_block_hash_to_block p) k)
                            else hm_at (cached_block_hash_to_block p) k))"
proof -
  let ?h = "pool_heap p" and ?m = "cached_block_hash_to_block p"
  note ix = pool_indexD(1)[OF assms(2)] and own = usable_static(4)[OF assms(1,3)]
  have has: "hm_contain ?h ?m key (block_id (?h b)) \<longleftrightarrow> key \<in> set (block_keys p b)"
    using hidx.has_iff[OF ix own] pool_indexD(2)[OF assms(2)] assms(3) by simp
  show "key \<in> set (block_keys p b) \<Longrightarrow> insert_block_hash key b n p = Inr (p, False)"
    using has by (simp add: insert_block_hash_def Let_def)
  assume new: "key \<notin> set (block_keys p b)"
  then have ne: "block_hash (?h b) \<noteq> Some key" "key \<notin> set (extra_hashes p (block_id (?h b)))"
    by (auto simp: block_keys_def)
  note ok = pool_indexD(3)[OF assms(2,3)]
  define m where "m = hm_insert (pool_heap (with_key b key n ?m p)) ?m key b"
  have "insert_block_hash key b n p = Inr (with_key b key n m p, True)"
  proof (cases "block_hash (?h b)")
    case None
    then have "set_block_hash key n (?h b) =
        Inr ((?h b)\<lparr>block_hash := Some key, block_hash_num_tokens := n\<rparr>)"
      using keys_okD(3)[OF ok] by (simp add: set_block_hash_def)
    then show ?thesis
      using None ne new has
      by (simp add: insert_block_hash_def Let_def with_key_def m_def upd_block_def)
  next
    case (Some k)
    then show ?thesis
      using ne new has
      by (simp add: insert_block_hash_def Let_def with_key_def m_def set_add_def)
  qed
  moreover have ix': "index_ok (pool_heap (with_key b key n ?m p)) ?m"
    by (rule index_ok_ids[OF ix]) (simp add: with_key_heap)
  moreover have own': "b \<in> own_blocks (pool_heap (with_key b key n ?m p))"
    using own by (simp add: own_blocks_def with_key_heap)
  moreover have "index_ok ?h m"
    using index_ok_ids[OF hidx.ok_put[OF ix' own', of key], of ?h] by (simp add: with_key_heap m_def)
  moreover have "hm_at m k = (if k = key then insert b (hm_at ?m k) else hm_at ?m k)" for k
    using hidx.at_put[OF ix' own', of key k] by (simp add: m_def)
  ultimately show "\<exists>m. insert_block_hash key b n p = Inr (with_key b key n m p, True) \<and>
          index_ok ?h m \<and> (\<forall>k. hm_at m k = (if k = key then insert b (hm_at ?m k) else hm_at ?m k))"
    by blast
qed

lemma with_key_index:
  assumes "pool_static p" "pool_index p" "b \<in> usable p" "key \<notin> set (block_keys p b)" "n \<noteq> None"
    and "index_ok (pool_heap p) m"
    and "\<forall>k. hm_at m k = (if k = key then insert b (hm_at (cached_block_hash_to_block p) k)
                            else hm_at (cached_block_hash_to_block p) k)"
  shows "pool_index (with_key b key n m p)"
proof -
  let ?p = "with_key b key n m p"
  note ok = pool_indexD(3)[OF assms(2,3)]
  note k = with_key_keys[OF assms(1,3) ok, where key = key and n = n and m = m]
  have "index_ok (pool_heap ?p) m" by (rule index_ok_ids[OF assms(6)]) (simp add: with_key_heap)
  moreover have "c \<in> hm_at m ky \<longleftrightarrow> c \<in> usable p \<and> ky \<in> set (block_keys ?p c)" for c ky
    using assms(3,7) pool_indexD(2)[OF assms(2), of c ky] k[of c] by (cases "c = b") auto
  moreover have "keys_ok ?p c" if "c \<in> usable p" for c
    using that k[OF that] pool_indexD(3)[OF assms(2) that] assms(4,5) ok
    by (auto simp: keys_ok_def with_key_heap)
  moreover have "l \<noteq> [] \<and> 0 < i" if "cached_block_hashes_by_block ?p i = Some l" for i l
    using that pool_indexD(4)[OF assms(2)] usable_static(5)[OF assms(1,3)]
    by (auto simp: with_key_def Let_def split: if_splits)
  moreover have "block_hash (pool_heap ?p (Blk 0)) = None"
    using pool_indexD(5)[OF assms(2)] usable_static(1)[OF assms(1,3)] by (simp add: with_key_heap)
  ultimately show ?thesis by (simp add: pool_index_def)
qed

end
