(* ===== verification/Pool_Alloc.thy ===== *)
theory Pool_Alloc
  imports Pool_Invariant
begin

text \<open>
  Taking, touching and freeing blocks (\<open>get_new_blocks\<close>, \<open>touch\<close>, \<open>free_blocks\<close>,
  \<open>evict_blocks\<close>, \<open>reset_prefix_cache\<close>): under the invariant each call succeeds exactly when its
  arguments allow it, keeps the invariant, and changes the free list as specified.
\<close>

text \<open>The pool's configuration, which no operation changes.\<close>

definition same_config :: "block_pool \<Rightarrow> block_pool \<Rightarrow> bool" where
  "same_config p p' \<longleftrightarrow>
     num_gpu_blocks p' = num_gpu_blocks p \<and> bp_pool_id p' = bp_pool_id p \<and>
     enable_caching p' = enable_caching p \<and> bp_hash_block_size p' = bp_hash_block_size p \<and>
     enable_kv_cache_events p' = enable_kv_cache_events p \<and> use_int_hashes p' = use_int_hashes p"

lemma same_config_refl [simp]: "same_config p p"
  by (simp add: same_config_def)

lemma same_config_trans [trans]: "same_config p q \<Longrightarrow> same_config q r \<Longrightarrow> same_config p r"
  by (simp add: same_config_def)

lemma same_config_usable: "same_config p p' \<Longrightarrow> usable p' = usable p"
  by (simp add: same_config_def usable_def)

lemma same_config_core: "pool_core p' = pool_core q \<Longrightarrow> same_config p q \<Longrightarrow> same_config p p'"
  using core_fields[of p' q] by (simp add: same_config_def)

lemma same_config_ops [simp]:
  "same_config p (add_ref d b q) = same_config p q"
  "same_config p (on_metrics f q) = same_config p q"
  "same_config p (with_queue q s) = same_config p q"
  "same_config p (without_keys b m q) = same_config p q"
  "same_config p (with_key b key n m q) = same_config p q"
  "same_config p (q\<lparr>kv_event_queue := ev\<rparr>) = same_config p q"
  by (simp_all add: same_config_def add_ref_def on_metrics_def with_queue_def without_keys_def
      with_key_def Let_def)

text \<open>The three parts besides the free list.\<close>

definition pool_rest :: "block_pool \<Rightarrow> bool" where
  "pool_rest p \<longleftrightarrow> pool_static p \<and> pool_index p \<and> pool_tails p"

lemma pool_inv_rest: "pool_inv p xs \<longleftrightarrow> pool_rest p \<and> pool_gap p xs []"
  by (auto simp: pool_inv_def pool_rest_def pool_free_def)

lemma pool_rest_add_ref [simp]: "pool_rest (add_ref d b p) = pool_rest p"
  by (simp add: pool_rest_def add_ref_parts)

lemma pool_rest_metrics [simp]: "pool_rest (on_metrics f p) = pool_rest p"
  using core_parts[of "on_metrics f p" p] by (simp add: pool_rest_def)

lemma gap_metrics [simp]: "pool_gap (on_metrics f p) xs out = pool_gap p xs out"
  by (rule core_parts(3)) simp

lemma pool_rest_queue: "same_data (pool_heap p) (fst s) \<Longrightarrow> pool_rest (with_queue p s) = pool_rest p"
  by (simp add: pool_rest_def with_queue_parts)

lemma metrics_fields [simp]:
  "pool_heap (on_metrics f p) = pool_heap p" "block_keys (on_metrics f p) b = block_keys p b"
  "enable_caching (on_metrics f p) = enable_caching p"
  "free_block_queue (on_metrics f p) = free_block_queue p"
  "cached_block_hash_to_block (on_metrics f p) = cached_block_hash_to_block p"
  using core_fields[of "on_metrics f p" p] core_parts(4)[of "on_metrics f p" p] by simp_all

lemma add_ref_fields [simp]:
  "block_keys (add_ref d b p) c = block_keys p c"
  "enable_caching (add_ref d b p) = enable_caching p"
  "free_block_queue (add_ref d b p) = free_block_queue p"
  "ref_cnt (pool_heap (add_ref d b p) c) = ref_cnt (pool_heap p c) + (if c = b then d else 0)"
  "is_null (pool_heap (add_ref d b p) c) = is_null (pool_heap p c)"
  "block_id (pool_heap (add_ref d b p) c) = block_id (pool_heap p c)"
  "block_hash (pool_heap (add_ref d b p) c) = block_hash (pool_heap p c)"
  "prev_free_block (pool_heap (add_ref d b p) c) = prev_free_block (pool_heap p c)"
  "next_free_block (pool_heap (add_ref d b p) c) = next_free_block (pool_heap p c)"
  "cached_block_hash_to_block (add_ref d b p) = cached_block_hash_to_block p"
proof -
  show "block_keys (add_ref d b p) c = block_keys p c" by (rule add_ref_parts)
qed (simp_all add: add_ref_def)

lemma gapD:
  assumes "pool_gap p xs out"
  shows "queue_repr (pool_heap p) (free_block_queue p) xs" "distinct out" "distinct xs"
    "set xs \<inter> set out = {}" "b \<in> set xs \<union> set out \<longleftrightarrow> b \<in> usable p \<and> ref_cnt (pool_heap p b) = 0"
    "b \<in> usable p \<Longrightarrow> 0 \<le> ref_cnt (pool_heap p b)"
proof -
  show "queue_repr (pool_heap p) (free_block_queue p) xs" "distinct out" "set xs \<inter> set out = {}"
    "b \<in> usable p \<Longrightarrow> 0 \<le> ref_cnt (pool_heap p b)"
    using assms by (simp_all add: pool_gap_def)
  then show "distinct xs" using queue_reprD(2) by blast
  have "set xs \<union> set out = {b \<in> usable p. ref_cnt (pool_heap p b) = 0}"
    using assms by (simp add: pool_gap_def)
  then show "b \<in> set xs \<union> set out \<longleftrightarrow> b \<in> usable p \<and> ref_cnt (pool_heap p b) = 0" by blast
qed

lemma gapI:
  assumes "queue_repr (pool_heap p) (free_block_queue p) xs" "distinct out"
    "set xs \<inter> set out = {}"
    "\<And>b. b \<in> set xs \<union> set out \<longleftrightarrow> b \<in> usable p \<and> ref_cnt (pool_heap p b) = 0"
    "\<And>b. b \<in> usable p \<Longrightarrow> 0 \<le> ref_cnt (pool_heap p b)"
  shows "pool_gap p xs out"
  using assms unfolding pool_gap_def by blast

lemma queue_repr_add_ref:
  "queue_repr (pool_heap p) q xs \<Longrightarrow> queue_repr (pool_heap (add_ref d b p)) q xs"
  by (rule queue_repr_cong) simp_all

lemma gap_free_count: "pool_gap p xs out \<Longrightarrow> get_num_free_blocks p = int (length xs)"
  using queue_reprD(7)[OF gapD(1)] by (simp add: get_num_free_blocks_def)

lemma gap_ref:
  assumes "pool_gap p xs (b # out)"
  shows "pool_gap (add_ref 1 b p) xs out" "b \<in> usable p" "ref_cnt (pool_heap p b) = 0"
proof -
  note g = gapD[OF assms]
  show b: "b \<in> usable p" "ref_cnt (pool_heap p b) = 0" using g(5)[of b] by simp_all
  show "pool_gap (add_ref 1 b p) xs out"
  proof (rule gapI)
    show "c \<in> set xs \<union> set out \<longleftrightarrow>
        c \<in> usable (add_ref 1 b p) \<and> ref_cnt (pool_heap (add_ref 1 b p) c) = 0" for c
      using g(2,4) g(5)[of c] b by (cases "c = b") auto
    show "0 \<le> ref_cnt (pool_heap (add_ref 1 b p) c)" if "c \<in> usable (add_ref 1 b p)" for c
      using that g(6)[of c] by simp
  qed (use g queue_repr_add_ref in auto)
qed

subsection \<open>\<open>get_new_blocks\<close>\<close>

lemma get_new_step_ok:
  assumes "pool_rest p" "pool_gap p xs (b # out)"
  shows "\<exists>p'. get_new_step b p = Inr p' \<and> pool_rest p' \<and> pool_gap p' xs out \<and> same_config p p' \<and>
    (\<forall>c. ref_cnt (pool_heap p' c) = ref_cnt (pool_heap p c) + (if c = b then 1 else 0)) \<and>
    (\<forall>c \<in> usable p. block_keys p' c = (if c = b \<and> enable_caching p then [] else block_keys p c))"
proof -
  note b = gap_ref(2,3)[OF assms(2)]
  note r = assms(1)[unfolded pool_rest_def]
  obtain p1 where p1: "(if enable_caching p
        then rbind (maybe_evict_cached_block b p) (\<lambda>(p', _). Inr p') else Inr p) = Inr p1"
    "pool_rest p1" "pool_gap p1 xs (b # out)" "same_config p p1"
    "\<And>c. ref_cnt (pool_heap p1 c) = ref_cnt (pool_heap p c)"
    "\<And>c. c \<in> usable p \<Longrightarrow> block_keys p1 c = (if c = b \<and> enable_caching p then [] else block_keys p c)"
  proof (cases "enable_caching p")
    case True
    obtain p1 m where e: "maybe_evict_cached_block b p = Inr (p1, block_keys p b \<noteq> [])"
      "pool_core p1 = pool_core (without_keys b m p)" "pool_index p1" "pool_tails p1"
      using maybe_evict_total[of p b] r b(1) by blast
    note c = core_parts[OF e(2)] core_fields[OF e(2)]
    show thesis
    proof (rule that)
      show "pool_gap p1 xs (b # out)" using c(3) without_keys_gap[OF assms(2)] by simp
      show "pool_rest p1" using r e c(2) by (simp add: pool_rest_def)
      show "same_config p p1" by (rule same_config_core[OF e(2)]) simp
      show "ref_cnt (pool_heap p1 d) = ref_cnt (pool_heap p d)" for d
        using c(11) by simp
      show "block_keys p1 d = (if d = b \<and> enable_caching p then [] else block_keys p d)"
        if "d \<in> usable p" for d
        using c(4)[of d] without_keys_keys[OF _ b(1) that] r True by simp
    qed (use True e(1) in simp)
  qed (use assms that in auto)
  let ?p = "on_metrics (on_block_allocated (pool_heap (add_ref 1 b p1) b)) (add_ref 1 b p1)"
  have "get_new_step b p = Inr ?p"
    unfolding get_new_step_def p1(1) by (simp add: p1(5) b(2) Let_def)
  moreover have "pool_gap ?p xs out" using gap_ref(1)[OF p1(3)] by simp
  ultimately show ?thesis
    using p1 by (intro exI[of _ ?p]) simp
qed

lemma get_new_loop_ok:
  assumes "pool_rest p" "pool_gap p xs bs"
  shows "\<exists>p'. rfold get_new_step bs p = Inr p' \<and> pool_rest p' \<and> pool_gap p' xs [] \<and> same_config p p' \<and>
    (\<forall>c. ref_cnt (pool_heap p' c) = ref_cnt (pool_heap p c) + (if c \<in> set bs then 1 else 0)) \<and>
    (\<forall>c \<in> usable p. block_keys p' c = (if c \<in> set bs \<and> enable_caching p then [] else block_keys p c))"
  using assms
proof (induction bs arbitrary: p)
  case (Cons b bs)
  obtain p1 where p1: "get_new_step b p = Inr p1" "pool_rest p1" "pool_gap p1 xs bs" "same_config p p1"
    "\<forall>c. ref_cnt (pool_heap p1 c) = ref_cnt (pool_heap p c) + (if c = b then 1 else 0)"
    "\<forall>c \<in> usable p. block_keys p1 c = (if c = b \<and> enable_caching p then [] else block_keys p c)"
    using get_new_step_ok[OF Cons.prems] by blast
  obtain p2 where p2: "rfold get_new_step bs p1 = Inr p2" "pool_rest p2" "pool_gap p2 xs []"
    "same_config p1 p2"
    "\<forall>c. ref_cnt (pool_heap p2 c) = ref_cnt (pool_heap p1 c) + (if c \<in> set bs then 1 else 0)"
    "\<forall>c \<in> usable p1. block_keys p2 c = (if c \<in> set bs \<and> enable_caching p1 then [] else block_keys p1 c)"
    using Cons.IH[OF p1(2,3)] by blast
  have "b \<notin> set bs" using gapD(2)[OF Cons.prems(2)] by simp
  moreover have c: "enable_caching p1 = enable_caching p" "usable p1 = usable p"
    using p1(4) same_config_usable[OF p1(4)] by (simp_all add: same_config_def)
  moreover have "same_config p p2" by (rule same_config_trans[OF p1(4) p2(4)])
  moreover have "ref_cnt (pool_heap p2 c) = ref_cnt (pool_heap p c) + (if c \<in> set (b # bs) then 1 else 0)" for c
    using calculation(1) p1(5) p2(5) by simp
  moreover have "block_keys p2 c = (if c \<in> set (b # bs) \<and> enable_caching p then [] else block_keys p c)"
    if "c \<in> usable p" for c
    using p1(6)[rule_format, OF that] p2(6)[rule_format, of c] c that by auto
  moreover have "rfold get_new_step (b # bs) p = Inr p2" using p1(1) p2(1) by simp
  ultimately show ?case using p2(2,3) by blast
qed simp

lemma pop_gap:
  assumes "pool_gap p (bs @ xs) []" "popn_st (pool_heap p, free_block_queue p) (int (length bs)) = Inr (s, bs)"
    "queue_repr (fst s) (snd s) xs" "same_data (pool_heap p) (fst s)"
  shows "pool_gap (with_queue p s) xs bs"
proof -
  note g = gapD[OF assms(1)]
  show ?thesis
  proof (rule gapI)
    show "c \<in> set xs \<union> set bs \<longleftrightarrow>
        c \<in> usable (with_queue p s) \<and> ref_cnt (pool_heap (with_queue p s) c) = 0" for c
      using g(5)[of c] same_data_fields(2)[OF assms(4)] by (auto simp: with_queue_def usable_def)
    show "0 \<le> ref_cnt (pool_heap (with_queue p s) c)" if "c \<in> usable (with_queue p s)" for c
      using that g(6)[of c] same_data_fields(2)[OF assms(4)] by (simp add: with_queue_def usable_def)
  qed (use g(3) assms(3) in \<open>auto simp: with_queue_def\<close>)
qed

lemma get_new_blocks_ok:
  assumes "pool_inv p xs" "n \<le> length xs"
  shows "\<exists>p'. get_new_blocks (int n) p = Inr (p', take n xs) \<and> pool_inv p' (drop n xs) \<and>
    same_config p p' \<and>
    (\<forall>c. ref_cnt (pool_heap p' c) = ref_cnt (pool_heap p c) + (if c \<in> set (take n xs) then 1 else 0)) \<and>
    (\<forall>c \<in> usable p. block_keys p' c =
       (if c \<in> set (take n xs) \<and> enable_caching p then [] else block_keys p c))"
proof -
  let ?s = "(pool_heap p, free_block_queue p)"
  have inv: "pool_rest p" "pool_gap p xs []" using assms(1) by (simp_all add: pool_inv_rest)
  obtain s where s: "popn_st ?s (int n) = Inr (s, take n xs)" "queue_repr (fst s) (snd s) (drop n xs)"
    "same_data (pool_heap p) (fst s)"
    using flist.popn_eq[of ?s xs n] gapD(1)[OF inv(2)] assms(2) by auto
  have pop: "fq_popleft_n (pool_heap p) (free_block_queue p) (int n) = Inr (fst s, snd s, take n xs)"
    using s(1) by (auto simp: popn_st_def)
  let ?p = "with_queue p s"
  have "pool_gap p (take n xs @ drop n xs) []" using inv(2) by simp
  then have "pool_gap ?p (drop n xs) (take n xs)"
    by (rule pop_gap) (use s assms(2) in \<open>simp_all add: min.absorb2\<close>)
  moreover have "pool_rest ?p" using pool_rest_queue[OF s(3)] inv(1) by simp
  ultimately obtain p' where p': "rfold get_new_step (take n xs) ?p = Inr p'" "pool_rest p'"
    "pool_gap p' (drop n xs) []" "same_config ?p p'"
    "\<forall>c. ref_cnt (pool_heap p' c) = ref_cnt (pool_heap ?p c) + (if c \<in> set (take n xs) then 1 else 0)"
    "\<forall>c \<in> usable ?p. block_keys p' c =
       (if c \<in> set (take n xs) \<and> enable_caching ?p then [] else block_keys ?p c)"
    using get_new_loop_ok by blast
  have "ref_cnt (pool_heap ?p c) = ref_cnt (pool_heap p c)" for c
    using same_data_fields(2)[OF s(3)] by (simp add: with_queue_def)
  moreover have "enable_caching ?p = enable_caching p" by (simp add: with_queue_def)
  moreover have "same_config p p'" by (rule same_config_trans[OF _ p'(4)]) simp
  moreover have "get_new_blocks (int n) p = Inr (p', take n xs)"
    using p'(1) pop assms(2) gap_free_count[OF inv(2)] by (simp add: get_new_blocks_def)
  moreover have "block_keys ?p c = block_keys p c" for c by (rule with_queue_parts(4)[OF s(3)])
  ultimately show ?thesis using p'(2-6) by (simp add: pool_inv_rest)
qed

lemma get_new_blocks_errors:
  assumes "pool_inv p xs" "n < 0 \<or> int (length xs) < n"
  shows "get_new_blocks n p = Inl ValueError"
  using assms gap_free_count[of p xs "[]"] by (auto simp: get_new_blocks_def pool_inv_rest)


subsection \<open>\<open>touch\<close>\<close>

lemma touch_step_usable:
  assumes "pool_rest p" "pool_gap p xs []" "b \<in> usable p"
  shows "\<exists>p'. touch_step b p = Inr p' \<and> pool_rest p' \<and> pool_gap p' (removeAll b xs) [] \<and>
    same_config p p' \<and>
    (\<forall>c. ref_cnt (pool_heap p' c) = ref_cnt (pool_heap p c) + (if c = b then 1 else 0)) \<and>
    (\<forall>c. block_keys p' c = block_keys p c) \<and>
    cached_block_hash_to_block p' = cached_block_hash_to_block p"
proof (cases "ref_cnt (pool_heap p b) = 0")
  case True
  let ?s = "(pool_heap p, free_block_queue p)"
  note g = gapD[OF assms(2)]
  have b: "b \<in> set xs" using g(5)[of b] True assms(3) by simp
  obtain s where s: "fq_remove (pool_heap p) (free_block_queue p) b = Inr s"
    "queue_repr (fst s) (snd s) (remove1 b xs)" "same_data (pool_heap p) (fst s)"
    using flist.take_out_law[of ?s xs b] g(1) b by auto
  have xs: "remove1 b xs = removeAll b xs" using g(3) by (simp add: distinct_remove1_removeAll)
  have "pool_gap (with_queue p s) (removeAll b xs) [b]"
  proof (rule gapI)
    show "c \<in> set (removeAll b xs) \<union> set [b] \<longleftrightarrow>
        c \<in> usable (with_queue p s) \<and> ref_cnt (pool_heap (with_queue p s) c) = 0" for c
      using g(5)[of c] b same_data_fields(2)[OF s(3)] by (auto simp: with_queue_def usable_def)
    show "0 \<le> ref_cnt (pool_heap (with_queue p s) c)" if "c \<in> usable (with_queue p s)" for c
      using that g(6)[of c] same_data_fields(2)[OF s(3)] by (simp add: with_queue_def usable_def)
  qed (use s(2) xs in \<open>auto simp: with_queue_def\<close>)
  from gap_ref(1)[OF this]
  have gap: "pool_gap (add_ref 1 b (with_queue p s)) (removeAll b xs) []" .
  let ?p = "on_metrics (on_block_accessed (pool_heap (add_ref 1 b (with_queue p s)) b))
              (add_ref 1 b (with_queue p s))"
  have "touch_step b p = Inr ?p"
    using usable_static(2,6)[OF _ assms(3)] assms(1) True s(1)
    by (simp add: touch_step_def pool_rest_def Let_def)
  moreover have "pool_rest ?p" using assms(1) pool_rest_queue[OF s(3)] by simp
  moreover have "ref_cnt (pool_heap (with_queue p s) c) = ref_cnt (pool_heap p c)" for c
    using same_data_fields(2)[OF s(3)] by (simp add: with_queue_def)
  moreover have "block_keys (with_queue p s) c = block_keys p c" for c
    by (rule with_queue_parts(4)[OF s(3)])
  moreover have "cached_block_hash_to_block (with_queue p s) = cached_block_hash_to_block p"
    by (simp add: with_queue_def)
  ultimately show ?thesis using gap by (intro exI[of _ ?p]) simp
next
  case False
  note g = gapD[OF assms(2)]
  have b: "b \<notin> set xs" using g(5)[of b] False by simp
  have st: "pool_static p" using assms(1) by (simp add: pool_rest_def)
  have prev: "prev_free_block (pool_heap p b) = None"
    using queue_repr_linked_iff(1)[OF g(1)] usable_static(7,8)[OF st assms(3)] b by auto
  let ?p = "on_metrics (on_block_accessed (pool_heap (add_ref 1 b p) b)) (add_ref 1 b p)"
  have "touch_step b p = Inr ?p"
    using usable_static(2,6)[OF st assms(3)] False prev by (simp add: touch_step_def Let_def)
  moreover have "pool_gap (add_ref 1 b p) (removeAll b xs) []"
  proof (rule gapI)
    show "c \<in> set (removeAll b xs) \<union> set [] \<longleftrightarrow>
        c \<in> usable (add_ref 1 b p) \<and> ref_cnt (pool_heap (add_ref 1 b p) c) = 0" for c
      using g(5)[of c] g(6)[OF assms(3)] b False by (cases "c = b") auto
    show "0 \<le> ref_cnt (pool_heap (add_ref 1 b p) c)" if "c \<in> usable (add_ref 1 b p)" for c
      using that g(6)[of c] by simp
  qed (use queue_repr_add_ref[OF g(1)] b in auto)
  ultimately show ?thesis using assms(1) by (intro exI[of _ ?p]) simp
qed

lemma gap_null_ref:
  assumes "pool_gap p xs out" "b \<notin> usable p"
  shows "pool_gap (add_ref d b p) xs out"
proof -
  note g = gapD[OF assms(1)]
  show ?thesis
  proof (rule gapI)
    show "c \<in> set xs \<union> set out \<longleftrightarrow>
        c \<in> usable (add_ref d b p) \<and> ref_cnt (pool_heap (add_ref d b p) c) = 0" for c
      using g(5)[of c] assms(2) by (cases "c = b") auto
    show "0 \<le> ref_cnt (pool_heap (add_ref d b p) c)" if "c \<in> usable (add_ref d b p)" for c
      using that g(6)[of c] assms(2) by (cases "c = b") auto
  qed (use g queue_repr_add_ref in auto)
qed

lemma touch_step_null:
  assumes "pool_rest p" "pool_gap p xs []"
  shows "\<exists>p'. touch_step (Blk 0) p = Inr p' \<and> pool_rest p' \<and> pool_gap p' xs [] \<and> same_config p p' \<and>
    (\<forall>c. ref_cnt (pool_heap p' c) = ref_cnt (pool_heap p c) + (if c = Blk 0 then 1 else 0)) \<and>
    (\<forall>c. block_keys p' c = block_keys p c) \<and>
    cached_block_hash_to_block p' = cached_block_hash_to_block p"
proof -
  let ?b = "Blk 0"
  note n = null_static[of p]
  have st: "pool_static p" using assms(1) by (simp add: pool_rest_def)
  let ?p = "on_metrics (on_block_accessed (pool_heap (add_ref 1 ?b p) ?b)) (add_ref 1 ?b p)"
  have "touch_step ?b p = Inr ?p" using n st by (simp add: touch_step_def Let_def)
  moreover have "pool_gap ?p xs []" using gap_null_ref[OF assms(2) n(4)[OF st]] by simp
  ultimately show ?thesis using assms(1) by (intro exI[of _ ?p]) simp
qed

lemma removeAll_filter: "removeAll b xs = filter (\<lambda>x. x \<noteq> b) xs"
  by (induction xs) auto

lemma touch_ok:
  assumes "pool_inv p xs" "set bs \<subseteq> insert (Blk 0) (usable p)"
  shows "\<exists>p'. touch bs p = Inr p' \<and> pool_inv p' (filter (\<lambda>b. b \<notin> set bs) xs) \<and> same_config p p' \<and>
    (\<forall>c. ref_cnt (pool_heap p' c) = ref_cnt (pool_heap p c) + int (count_list bs c)) \<and>
    (\<forall>c. block_keys p' c = block_keys p c) \<and>
    cached_block_hash_to_block p' = cached_block_hash_to_block p"
  using assms unfolding touch_def
proof (induction bs arbitrary: p xs)
  case (Cons b bs)
  have inv: "pool_rest p" "pool_gap p xs []" using Cons.prems(1) by (simp_all add: pool_inv_rest)
  have "Blk 0 \<notin> set xs" using gapD(5)[OF inv(2), of "Blk 0"] by (auto simp: usable_def)
  then have rm0: "b = Blk 0 \<Longrightarrow> removeAll b xs = xs" by simp
  obtain p1 where p1: "touch_step b p = Inr p1" "pool_rest p1" "pool_gap p1 (removeAll b xs) []"
    "same_config p p1"
    "\<And>c. ref_cnt (pool_heap p1 c) = ref_cnt (pool_heap p c) + (if c = b then 1 else 0)"
    "\<And>c. block_keys p1 c = block_keys p c"
    "cached_block_hash_to_block p1 = cached_block_hash_to_block p"
  proof (cases "b = Blk 0")
    case True
    then show thesis using touch_step_null[OF inv] rm0 that by auto
  next
    case False
    then have "b \<in> usable p" using Cons.prems(2) by auto
    then show thesis using touch_step_usable[OF inv] that by blast
  qed
  have "set bs \<subseteq> insert (Blk 0) (usable p1)"
    using Cons.prems(2) same_config_usable[OF p1(4)] by simp
  moreover have "pool_inv p1 (removeAll b xs)" using p1(2,3) by (simp add: pool_inv_rest)
  ultimately obtain p2 where p2: "rfold touch_step bs p1 = Inr p2"
    "pool_inv p2 (filter (\<lambda>b. b \<notin> set bs) (removeAll b xs))" "same_config p1 p2"
    "\<And>c. ref_cnt (pool_heap p2 c) = ref_cnt (pool_heap p1 c) + int (count_list bs c)"
    "\<And>c. block_keys p2 c = block_keys p1 c"
    "cached_block_hash_to_block p2 = cached_block_hash_to_block p1"
    using Cons.IH by blast
  have "filter (\<lambda>b. b \<notin> set bs) (removeAll b xs) = filter (\<lambda>c. c \<notin> set (b # bs)) xs"
    unfolding removeAll_filter filter_filter by (rule filter_cong) auto
  moreover have "same_config p p2" by (rule same_config_trans[OF p1(4) p2(3)])
  ultimately show ?case
    using p2 p1 by (intro exI[of _ p2]) simp
qed simp

lemma touch_foreign:
  assumes "blk_pool_id (pool_heap p b) \<noteq> bp_pool_id p" "\<not> is_null (pool_heap p b)"
  shows "touch (b # bs) p = Inl RuntimeError" "free_blocks (b # bs) p = Inl RuntimeError"
  using assms by (simp_all add: touch_def touch_step_def check_owned_def free_blocks_def free_step_def)


subsection \<open>\<open>free_blocks\<close>\<close>

text \<open>What a call releases: the blocks with one reference left, split by whether they are
  appended (they have a hash, or caching is off) or prepended.\<close>

definition releases :: "block_pool \<Rightarrow> bref \<Rightarrow> bool" where
  "releases p b \<longleftrightarrow> b \<noteq> Blk 0 \<and> ref_cnt (pool_heap p b) = 1"

definition goes_back :: "block_pool \<Rightarrow> bref \<Rightarrow> bool" where
  "goes_back p b \<longleftrightarrow> \<not> (block_hash (pool_heap p b) = None \<and> enable_caching p)"

definition freed_back :: "block_pool \<Rightarrow> bref list \<Rightarrow> bref list" where
  "freed_back p bs = filter (\<lambda>b. releases p b \<and> goes_back p b) bs"

definition freed_front :: "block_pool \<Rightarrow> bref list \<Rightarrow> bref list" where
  "freed_front p bs = filter (\<lambda>b. releases p b \<and> \<not> goes_back p b) bs"

lemma gap_perm:
  assumes "pool_gap p xs out" "set out' = set out" "distinct out'"
  shows "pool_gap p xs out'"
  using assms unfolding pool_gap_def by simp

lemma gap_unref:
  assumes "pool_gap p xs out" "b \<in> usable p" "1 \<le> ref_cnt (pool_heap p b)"
  shows "pool_gap (add_ref (-1) b p) xs (if ref_cnt (pool_heap p b) = 1 then out @ [b] else out)"
proof -
  note g = gapD[OF assms(1)]
  have "b \<notin> set xs \<union> set out" using g(5)[of b] assms(3) by auto
  moreover have "c \<in> set xs \<union> set out \<longleftrightarrow> c \<in> usable p \<and> ref_cnt (pool_heap p c) = 0" for c
    by (rule g(5))
  ultimately show ?thesis
    using g(1-4) g(6) assms(2,3) queue_repr_add_ref[OF g(1)]
    by (intro gapI) auto
qed

lemma gap_fresh:
  assumes "pool_static p" "pool_gap p xs out"
  shows "fresh_st (pool_heap p, free_block_queue p) out"
proof -
  note g = gapD[OF assms(2)]
  have us: "set out \<subseteq> usable p" "set xs \<subseteq> usable p" using g(5) by auto
  have "unlinked (pool_heap p) b" if "b \<in> set out" for b
    using queue_reprD(9)[OF g(1), of b] usable_static(7,8)[OF assms(1), of b] us g(4) that by blast
  moreover have inj: "inj_on (\<lambda>b. block_id (pool_heap p b)) (usable p)"
    using usable_ids[OF assms(1)] by (auto simp: inj_on_def)
  moreover have "FakeHead \<notin> set out" "FakeTail \<notin> set out"
    using us(1) usable_static(7,8)[OF assms(1)] by blast+
  moreover have "(\<lambda>b. block_id (pool_heap p b)) ` set out \<inter> (\<lambda>b. block_id (pool_heap p b)) ` set xs = {}"
    using inj_on_image_Int[OF inj us] g(4) by (simp add: Int_commute)
  ultimately show ?thesis
    using g(2) inj_on_subset[OF inj us(1)]
    unfolding fresh_st_def fresh_blocks_def fst_conv snd_conv queue_reprD(6)[OF g(1)] by blast
qed

lemma free_step_usable:
  assumes "pool_static p" "b \<in> usable p" "1 \<le> ref_cnt (pool_heap p b)"
  shows "free_step b (p, wh, wo) =
    Inr (add_ref (-1) b p,
         if releases p b \<and> goes_back p b then wh @ [b] else wh,
         if releases p b \<and> \<not> goes_back p b then wo @ [b] else wo)"
  using usable_static(1,2,6)[OF assms(1,2)] assms(3)
  by (simp add: free_step_def Let_def releases_def goes_back_def)

lemma free_step_null:
  "pool_static p \<Longrightarrow> free_step (Blk 0) (p, wh, wo) = Inr (add_ref (-1) (Blk 0) p, wh, wo)"
  using null_static[of p] by (simp add: free_step_def Let_def)

lemma free_loop_ok:
  assumes "pool_rest p" "pool_gap p xs (wo @ wh)" "set bs \<subseteq> insert (Blk 0) (usable p)"
    and "distinct (filter (\<lambda>b. b \<noteq> Blk 0) bs)"
    and "\<forall>b \<in> set bs. b \<noteq> Blk 0 \<longrightarrow> 1 \<le> ref_cnt (pool_heap p b)"
  shows "\<exists>p'. rfold free_step bs (p, wh, wo) = Inr (p', wh @ freed_back p bs, wo @ freed_front p bs) \<and>
    pool_rest p' \<and> pool_gap p' xs ((wo @ freed_front p bs) @ (wh @ freed_back p bs)) \<and> same_config p p' \<and>
    (\<forall>c. ref_cnt (pool_heap p' c) = ref_cnt (pool_heap p c) - int (count_list bs c)) \<and>
    (\<forall>c. block_keys p' c = block_keys p c) \<and>
    cached_block_hash_to_block p' = cached_block_hash_to_block p"
  using assms
proof (induction bs arbitrary: p wh wo)
  case (Cons b bs)
  have st: "pool_static p" using Cons.prems(1) by (simp add: pool_rest_def)
  let ?p = "add_ref (-1) b p"
  define wh1 where "wh1 = (if releases p b \<and> goes_back p b then wh @ [b] else wh)"
  define wo1 where "wo1 = (if releases p b \<and> \<not> goes_back p b then wo @ [b] else wo)"
  have step: "free_step b (p, wh, wo) = Inr (?p, wh1, wo1)" and gap: "pool_gap ?p xs (wo1 @ wh1)"
  proof -
    show "free_step b (p, wh, wo) = Inr (?p, wh1, wo1)"
      using Cons.prems(3,5) free_step_usable[OF st, of b wh wo] free_step_null[OF st, of wh wo]
      by (cases "b = Blk 0") (simp_all add: wh1_def wo1_def releases_def)
    show "pool_gap ?p xs (wo1 @ wh1)"
    proof (cases "b = Blk 0")
      case True
      then show ?thesis
        using gap_null_ref[OF Cons.prems(2) null_static(4)[OF st]] by (simp add: wh1_def wo1_def releases_def)
    next
      case False
      then have b: "b \<in> usable p" "1 \<le> ref_cnt (pool_heap p b)" using Cons.prems(3,5) by auto
      note gap = gap_unref[OF Cons.prems(2) b]
      have "set (wo1 @ wh1) = set (if ref_cnt (pool_heap p b) = 1 then (wo @ wh) @ [b] else wo @ wh)"
        using False by (auto simp: wh1_def wo1_def releases_def)
      moreover have "distinct (wo1 @ wh1)"
        using gapD(2)[OF gap] False by (auto simp: wh1_def wo1_def releases_def split: if_splits)
      ultimately show ?thesis by (rule gap_perm[OF gap])
    qed
  qed
  have nb: "c \<noteq> b \<or> c = Blk 0" if "c \<in> set bs" for c
    using Cons.prems(4) that by (cases "b = Blk 0") auto
  have "\<exists>p'. rfold free_step bs (?p, wh1, wo1) = Inr (p', wh1 @ freed_back ?p bs, wo1 @ freed_front ?p bs) \<and>
    pool_rest p' \<and> pool_gap p' xs ((wo1 @ freed_front ?p bs) @ (wh1 @ freed_back ?p bs)) \<and>
    same_config ?p p' \<and>
    (\<forall>c. ref_cnt (pool_heap p' c) = ref_cnt (pool_heap ?p c) - int (count_list bs c)) \<and>
    (\<forall>c. block_keys p' c = block_keys ?p c) \<and>
    cached_block_hash_to_block p' = cached_block_hash_to_block ?p"
  proof (rule Cons.IH[OF _ gap])
    show "\<forall>c \<in> set bs. c \<noteq> Blk 0 \<longrightarrow> 1 \<le> ref_cnt (pool_heap ?p c)"
      using Cons.prems(5) nb by auto
  qed (use Cons.prems in \<open>auto split: if_splits\<close>)
  then obtain p' where p': "rfold free_step bs (?p, wh1, wo1) =
      Inr (p', wh1 @ freed_back ?p bs, wo1 @ freed_front ?p bs)" "pool_rest p'"
    "pool_gap p' xs ((wo1 @ freed_front ?p bs) @ (wh1 @ freed_back ?p bs))" "same_config ?p p'"
    "\<And>c. ref_cnt (pool_heap p' c) = ref_cnt (pool_heap ?p c) - int (count_list bs c)"
    "\<And>c. block_keys p' c = block_keys ?p c"
    "cached_block_hash_to_block p' = cached_block_hash_to_block ?p"
    by blast
  have pred: "(releases ?p c \<longleftrightarrow> releases p c) \<and> (goes_back ?p c \<longleftrightarrow> goes_back p c)" if "c \<in> set bs" for c
    using nb[OF that] by (auto simp: releases_def goes_back_def)
  have "freed_back ?p bs = freed_back p bs" "freed_front ?p bs = freed_front p bs"
    unfolding freed_back_def freed_front_def by (rule filter_cong[OF refl]; simp add: pred)+
  then have "wh1 @ freed_back ?p bs = wh @ freed_back p (b # bs)"
    "wo1 @ freed_front ?p bs = wo @ freed_front p (b # bs)"
    by (simp_all add: wh1_def wo1_def freed_back_def freed_front_def)
  moreover have "same_config p p'" by (rule same_config_trans[OF _ p'(4)]) simp
  ultimately show ?case
    using p' step by (intro exI[of _ p']) simp
qed (simp add: freed_back_def freed_front_def)

lemma gap_linked:
  assumes "pool_gap p xs out" "queue_repr (fst s) (snd s) ys" "set ys = set xs \<union> set out"
    "same_data (pool_heap p) (fst s)"
  shows "pool_gap (with_queue p s) ys []"
proof (rule gapI)
  note g = gapD[OF assms(1)]
  show "c \<in> set ys \<union> set [] \<longleftrightarrow>
      c \<in> usable (with_queue p s) \<and> ref_cnt (pool_heap (with_queue p s) c) = 0" for c
    using g(5)[of c] same_data_fields(2)[OF assms(4)] assms(3) by (simp add: with_queue_def usable_def)
  show "0 \<le> ref_cnt (pool_heap (with_queue p s) c)" if "c \<in> usable (with_queue p s)" for c
    using that g(6)[of c] same_data_fields(2)[OF assms(4)] by (simp add: with_queue_def usable_def)
qed (use assms(2) in \<open>simp_all add: with_queue_def\<close>)

lemma free_blocks_ok:
  assumes "pool_inv p xs" "set bs \<subseteq> insert (Blk 0) (usable p)"
    and "distinct (filter (\<lambda>b. b \<noteq> Blk 0) bs)"
    and "\<forall>b \<in> set bs. b \<noteq> Blk 0 \<longrightarrow> 1 \<le> ref_cnt (pool_heap p b)"
  shows "\<exists>p'. free_blocks bs p = Inr p' \<and>
    pool_inv p' (freed_front p bs @ xs @ freed_back p bs) \<and> same_config p p' \<and>
    (\<forall>c. ref_cnt (pool_heap p' c) = ref_cnt (pool_heap p c) - int (count_list bs c)) \<and>
    (\<forall>c. block_keys p' c = block_keys p c) \<and>
    cached_block_hash_to_block p' = cached_block_hash_to_block p"
proof -
  let ?fs = "freed_front p bs" and ?bk = "freed_back p bs"
  have inv: "pool_rest p" "pool_gap p xs ([] @ [])" using assms(1) by (simp_all add: pool_inv_rest)
  obtain p1 where p1: "rfold free_step bs (p, [], []) = Inr (p1, ?bk, ?fs)" "pool_rest p1"
    "pool_gap p1 xs (?fs @ ?bk)" "same_config p p1"
    "\<And>c. ref_cnt (pool_heap p1 c) = ref_cnt (pool_heap p c) - int (count_list bs c)"
    "\<And>c. block_keys p1 c = block_keys p c"
    "cached_block_hash_to_block p1 = cached_block_hash_to_block p"
    using free_loop_ok[OF inv assms(2-4)] by auto
  let ?s = "(pool_heap p1, free_block_queue p1)"
  have st: "pool_static p1" using p1(2) by (simp add: pool_rest_def)
  obtain s t where t: "fq_prepend_n (pool_heap p1) (free_block_queue p1) ?fs = Inr s"
    "fq_append_n (fst s) (snd s) ?bk = Inr t" "queue_repr (fst t) (snd t) (?fs @ xs @ ?bk)"
    "same_data (pool_heap p1) (fst t)"
    using flist.put_both[of ?s xs ?fs ?bk] gapD(1)[OF p1(3)] gap_fresh[OF st p1(3)] by auto
  let ?p = "with_queue p1 t"
  have "free_blocks bs p = Inr ?p" using p1(1) t(1,2) by (simp add: free_blocks_def)
  moreover have "pool_gap ?p (?fs @ xs @ ?bk) []"
    by (rule gap_linked[OF p1(3) t(3) _ t(4)]) auto
  moreover have "pool_rest ?p" using pool_rest_queue[OF t(4)] p1(2) by simp
  moreover have "block_keys ?p c = block_keys p c" for c
    using with_queue_parts(4)[OF t(4)] p1(6) by simp
  moreover have "ref_cnt (pool_heap ?p c) = ref_cnt (pool_heap p c) - int (count_list bs c)" for c
    using same_data_fields(2)[OF t(4)] p1(5) by (simp add: with_queue_def)
  moreover have "cached_block_hash_to_block ?p = cached_block_hash_to_block p"
    using p1(7) by (simp add: with_queue_def)
  ultimately show ?thesis using p1(4) by (intro exI[of _ ?p]) (simp add: pool_inv_rest)
qed

lemma free_below_zero:
  assumes "pool_inv p xs" "b \<in> set xs"
  shows "free_blocks (b # bs) p = Inl RuntimeError"
proof -
  have inv: "pool_rest p" "pool_gap p xs []" using assms(1) by (simp_all add: pool_inv_rest)
  then have "b \<in> usable p" "ref_cnt (pool_heap p b) = 0" "pool_static p"
    using gapD(5)[OF inv(2), of b] assms(2) by (simp_all add: pool_rest_def)
  then show ?thesis
    using usable_static(2,6)[of p b] by (simp add: free_blocks_def free_step_def Let_def)
qed


subsection \<open>Eviction and reset\<close>

lemma gap_keys_eq:
  "pool_core p' = pool_core (without_keys b m p) \<Longrightarrow> pool_gap p xs out \<Longrightarrow> pool_gap p' xs out"
  using core_parts(3) without_keys_gap by metis

lemma maybe_evict_null:
  assumes "pool_rest p"
  shows "maybe_evict_cached_block (Blk 0) p =
    Inr (on_metrics (on_block_evicted (pool_heap p (Blk 0))) p, False)"
proof -
  let ?p = "on_metrics (on_block_evicted (pool_heap p (Blk 0))) p"
  have "pool_rest ?p" using assms by simp
  then have "remove_cached_block_hashes (Blk 0) ?p = ([], ?p)"
    by (intro remove_null) (simp_all add: pool_rest_def)
  then show ?thesis by (simp add: maybe_evict_cached_block_def)
qed

lemma evict_step_ok:
  assumes "pool_inv p xs" "0 \<le> i" "i < num_gpu_blocks p"
  shows "\<exists>p'. evict_step i p = Inr p' \<and> pool_inv p' xs \<and> same_config p p' \<and>
    (\<forall>c. ref_cnt (pool_heap p' c) = ref_cnt (pool_heap p c)) \<and>
    (\<forall>c \<in> usable p. block_keys p' c = (if c = Blk (nat i) then [] else block_keys p c))"
proof -
  have inv: "pool_rest p" "pool_gap p xs []" using assms(1) by (simp_all add: pool_inv_rest)
  have st: "pool_static p" using inv(1) by (simp add: pool_rest_def)
  obtain n where n: "i = int n" using assms(2) zero_le_imp_eq_int by blast
  have b: "py_nth (pool_blocks p) i = Inr (Blk n)" "i < int (length (pool_blocks p))"
    using assms(3) n pool_staticD(3)[OF st] by simp_all
  show ?thesis
  proof (cases "n = 0")
    case True
    let ?p = "on_metrics (on_block_evicted (pool_heap p (Blk 0))) p"
    have "evict_step i p = Inr ?p"
      using b maybe_evict_null[OF inv(1)] True by (simp add: evict_step_def)
    moreover have "block_keys p c = (if c = Blk (nat i) then [] else block_keys p c)"
      if "c \<in> usable p" for c
      using that null_static(4)[OF st] True n by auto
    ultimately show ?thesis
      using inv by (intro exI[of _ ?p]) (simp add: pool_inv_rest)
  next
    case False
    then have us: "Blk n \<in> usable p" using n assms(3) by (simp add: usable_def)
    obtain p' m where e: "maybe_evict_cached_block (Blk n) p = Inr (p', block_keys p (Blk n) \<noteq> [])"
      "pool_core p' = pool_core (without_keys (Blk n) m p)" "pool_index p'" "pool_tails p'"
      using maybe_evict_total[of p "Blk n"] inv(1) us by (auto simp: pool_rest_def)
    note c = core_parts[OF e(2)] core_fields[OF e(2)]
    have "evict_step i p = Inr p'" using b e(1) by (simp add: evict_step_def)
    moreover have "pool_inv p' xs"
      using e(3,4) c(2) st gap_keys_eq[OF e(2) inv(2)] by (simp add: pool_inv_rest pool_rest_def)
    moreover have "same_config p p'" by (rule same_config_core[OF e(2)]) simp
    moreover have "ref_cnt (pool_heap p' d) = ref_cnt (pool_heap p d)" for d using c(11) by simp
    moreover have "block_keys p' d = (if d = Blk (nat i) then [] else block_keys p d)"
      if "d \<in> usable p" for d
      using c(4)[of d] without_keys_keys[OF st us that] n by simp
    ultimately show ?thesis by blast
  qed
qed

lemma evict_blocks_ok:
  assumes "pool_inv p xs" "\<forall>i \<in> set ids. 0 \<le> i \<and> i < num_gpu_blocks p"
  shows "\<exists>p'. evict_blocks ids p = Inr p' \<and> pool_inv p' xs \<and> same_config p p' \<and>
    (\<forall>c. ref_cnt (pool_heap p' c) = ref_cnt (pool_heap p c)) \<and>
    (\<forall>c \<in> usable p. block_keys p' c = (if c \<in> (Blk \<circ> nat) ` set ids then [] else block_keys p c))"
  using assms unfolding evict_blocks_def
proof (induction ids arbitrary: p)
  case (Cons i ids)
  obtain p1 where p1: "evict_step i p = Inr p1" "pool_inv p1 xs" "same_config p p1"
    "\<forall>c. ref_cnt (pool_heap p1 c) = ref_cnt (pool_heap p c)"
    "\<forall>c \<in> usable p. block_keys p1 c = (if c = Blk (nat i) then [] else block_keys p c)"
    using evict_step_ok[OF Cons.prems(1)] Cons.prems(2) by (meson list.set_intros(1))
  have "\<forall>i \<in> set ids. 0 \<le> i \<and> i < num_gpu_blocks p1"
    using Cons.prems(2) p1(3) by (simp add: same_config_def)
  then obtain p2 where p2: "rfold evict_step ids p1 = Inr p2" "pool_inv p2 xs" "same_config p1 p2"
    "\<forall>c. ref_cnt (pool_heap p2 c) = ref_cnt (pool_heap p1 c)"
    "\<forall>c \<in> usable p1. block_keys p2 c = (if c \<in> (Blk \<circ> nat) ` set ids then [] else block_keys p1 c)"
    using Cons.IH[OF p1(2)] by blast
  have "block_keys p2 c = (if c \<in> (Blk \<circ> nat) ` set (i # ids) then [] else block_keys p c)"
    if "c \<in> usable p" for c
    using p1(5)[rule_format, OF that] p2(5)[rule_format, of c] same_config_usable[OF p1(3)] that by auto
  moreover have "same_config p p2" by (rule same_config_trans[OF p1(3) p2(3)])
  moreover have "rfold evict_step (i # ids) p = Inr p2" using p1(1) p2(1) by simp
  ultimately show ?case using p2(2,4) p1(4) by metis
qed simp

lemma fold_reset [simp]:
  "block_id (fold (\<lambda>b. upd_block b reset_hash) bs h r) = block_id (h r)"
  "ref_cnt (fold (\<lambda>b. upd_block b reset_hash) bs h r) = ref_cnt (h r)"
  "is_null (fold (\<lambda>b. upd_block b reset_hash) bs h r) = is_null (h r)"
  "blk_pool_id (fold (\<lambda>b. upd_block b reset_hash) bs h r) = blk_pool_id (h r)"
  "prev_free_block (fold (\<lambda>b. upd_block b reset_hash) bs h r) = prev_free_block (h r)"
  "next_free_block (fold (\<lambda>b. upd_block b reset_hash) bs h r) = next_free_block (h r)"
  "block_hash (fold (\<lambda>b. upd_block b reset_hash) bs h r) = (if r \<in> set bs then None else block_hash (h r))"
  "block_hash_num_tokens (fold (\<lambda>b. upd_block b reset_hash) bs h r) =
     (if r \<in> set bs then None else block_hash_num_tokens (h r))"
  by (induction bs arbitrary: h) auto

lemma free_count_eq: "pool_inv p xs \<Longrightarrow> get_num_free_blocks p = int (length xs)"
  unfolding pool_inv_rest using gap_free_count by blast

lemma usable_blocks: "pool_static p \<Longrightarrow> set (pool_blocks p) = insert (Blk 0) (usable p)"
proof -
  assume st: "pool_static p"
  have "[0..<nat (num_gpu_blocks p)] = 0 # [1..<nat (num_gpu_blocks p)]"
    using pool_staticD(1)[OF st] by (simp add: upt_rec)
  then show ?thesis using pool_staticD(3)[OF st] by (simp add: usable_def)
qed

lemma reset_ok:
  assumes "pool_inv p xs" "int (length xs) = num_gpu_blocks p - 1"
  shows "\<exists>p'. reset_prefix_cache p = (True, p') \<and> pool_inv p' xs \<and> same_config p p' \<and>
    (\<forall>c \<in> usable p. block_keys p' c = []) \<and> cached_block_hash_to_block p' = Map.empty"
proof -
  have inv: "pool_rest p" "pool_gap p xs []" using assms(1) by (simp_all add: pool_inv_rest)
  have st: "pool_static p" using inv(1) by (simp add: pool_rest_def)
  define h where "h = fold (\<lambda>b. upd_block b reset_hash) (pool_blocks p) (pool_heap p)"
  define p1 where "p1 = p\<lparr>cached_block_hash_to_block := Map.empty, tail_entries_by_root := Map.empty,
      tail_entry_owner := Map.empty, tail_entry_refs := Map.empty,
      cached_block_hashes_by_block := Map.empty, pool_heap := h\<rparr>"
  define p2 where "p2 = on_metrics collector_reset p1"
  define p3 where "p3 = (if enable_kv_cache_events p2
      then p2\<lparr>kv_event_queue := kv_event_queue p2 @ [AllBlocksCleared]\<rparr> else p2)"
  have "\<not> num_gpu_blocks p - get_num_free_blocks p \<noteq> 1" using assms free_count_eq by simp
  then have r: "reset_prefix_cache p = (True, p3)"
    by (simp add: reset_prefix_cache_def Let_def p3_def p2_def p1_def h_def)
  have c: "pool_core p3 = pool_core p1" by (simp add: p3_def p2_def)
  note cp = core_parts[OF c] core_fields[OF c]
  have st1: "pool_static p1"
    using st pool_static_cong[of p1 p] by (simp add: p1_def h_def)
  have us: "usable p1 = usable p" by (simp add: p1_def usable_def)
  have ka: "block_keys p1 b = []" if "b \<in> usable p" for b
    using that usable_blocks[OF st]
    by (simp add: block_keys_def extra_hashes_def p1_def opt_list_def h_def)
  have "pool_index p1"
    unfolding pool_index_def us
  proof (intro conjI allI ballI impI)
    show "index_ok (pool_heap p1) (cached_block_hash_to_block p1)" by (simp add: p1_def)
    show "b \<in> hm_at (cached_block_hash_to_block p1) key \<longleftrightarrow> b \<in> usable p \<and> key \<in> set (block_keys p1 b)"
      for b key using ka[of b] by (auto simp: p1_def hm_at_def)
    show "keys_ok p1 b" if "b \<in> usable p" for b
      using ka[OF that] that usable_blocks[OF st] by (simp add: keys_ok_def) (simp add: p1_def h_def)
    show "block_hash (pool_heap p1 (Blk 0)) = None"
      using usable_blocks[OF st] by (simp add: p1_def h_def)
  qed (simp_all add: p1_def)
  moreover have "pool_tails p3" by (simp add: p3_def p2_def p1_def pool_tails_def on_metrics_def)
  moreover have "pool_gap p1 xs []"
    using inv(2) queue_repr_cong[of "pool_heap p" "free_block_queue p" xs h]
    by (simp add: pool_gap_def p1_def h_def usable_def)
  ultimately have "pool_inv p3 xs" using st1 cp by (simp add: pool_inv_rest pool_rest_def)
  moreover have "same_config p p3"
    by (rule same_config_core[OF c]) (simp add: same_config_def p1_def)
  moreover have "block_keys p3 b = []" if "b \<in> usable p" for b using cp(4) ka[OF that] by simp
  moreover have "cached_block_hash_to_block p3 = Map.empty" using cp(14) by (simp add: p1_def)
  ultimately show ?thesis using r by blast
qed

lemma reset_refused:
  assumes "pool_inv p xs" "int (length xs) \<noteq> num_gpu_blocks p - 1"
  shows "reset_prefix_cache p = (False, p)"
  using assms free_count_eq[OF assms(1)] by (simp add: reset_prefix_cache_def)

text \<open>Every usable block is free or referenced, never both.\<close>

lemma conservation:
  assumes "pool_inv p xs"
  shows "get_num_free_blocks p + int (card {b \<in> usable p. 0 < ref_cnt (pool_heap p b)}) + 1 = num_gpu_blocks p"
proof -
  have inv: "pool_rest p" "pool_gap p xs []" using assms by (simp_all add: pool_inv_rest)
  note g = gapD[OF inv(2)]
  let ?used = "{b \<in> usable p. 0 < ref_cnt (pool_heap p b)}"
  have "set xs \<union> ?used = usable p" "set xs \<inter> ?used = {}" using g(5,6) by force+
  moreover have fin: "finite (usable p)" by (simp add: usable_def)
  ultimately have "card (usable p) = card (set xs) + card ?used"
    using card_Un_disjoint[of "set xs" ?used] by (metis (no_types, lifting) finite_Un)
  moreover have "card (usable p) = nat (num_gpu_blocks p) - 1"
    by (simp add: usable_def card_image inj_on_def)
  moreover have "card (set xs) = length xs" using g(3) by (rule distinct_card)
  ultimately show ?thesis
    using free_count_eq[OF assms] pool_staticD(1)[of p] inv(1) by (simp add: pool_rest_def)
qed

subsection \<open>Construction\<close>

lemma initial_unlinked: "unlinked (initial_heap n pid) r"
  by (cases r) (simp_all add: initial_heap_def unlinked_def new_block_def)

lemma queue_repr_pool_id: "queue_repr h (q\<lparr>fq_pool_id := pid\<rparr>) xs = queue_repr h q xs"
  by (simp add: queue_repr_def)

lemma pool_init_ok:
  assumes "0 < n"
  shows "\<exists>p. pool_init n caching hbs evs mc pid ui = Inr p \<and> pool_inv p (map Blk [1..<nat n]) \<and>
    num_gpu_blocks p = n \<and> cached_block_hash_to_block p = Map.empty \<and> enable_caching p = caching"
proof -
  let ?bs = "map Blk [0..<nat n]" and ?xs = "map Blk [1..<nat n]"
  have bs: "?bs = Blk 0 # ?xs" using assms by (simp add: upt_rec)
  obtain h q where hq: "fq_init (initial_heap (nat n) pid) ?bs = (h, q)" by (metis surj_pair)
  have init: "queue_repr h q ?bs"
    "\<And>r. r \<noteq> FakeHead \<Longrightarrow> r \<noteq> FakeTail \<Longrightarrow> data_of (h r) = data_of (initial_heap (nat n) pid r)"
    by (rule fq_init_repr[OF _ _ _ initial_unlinked _ hq];
        auto simp: distinct_map inj_on_def initial_heap_def new_block_def)+
  have "queue_repr h (q\<lparr>fq_pool_id := pid\<rparr>) (Blk 0 # ?xs)"
    using init(1) unfolding bs queue_repr_pool_id .
  then obtain h1 q1 where pop: "fq_popleft h (q\<lparr>fq_pool_id := pid\<rparr>) = Inr (h1, q1, Blk 0)"
    "queue_repr h1 q1 ?xs" "same_data h h1"
    by (rule fq_popleft_Cons)
  define h2 where "h2 = upd_block (Blk 0) (\<lambda>b. b\<lparr>is_null := True\<rparr>) h1"
  obtain p where p: "pool_init n caching hbs evs mc pid ui = Inr p" "num_gpu_blocks p = n"
    "bp_pool_id p = pid" "pool_heap p = h2" "pool_blocks p = ?bs" "free_block_queue p = q1"
    "cached_block_hash_to_block p = Map.empty" "cached_block_hashes_by_block p = Map.empty"
    "tail_entries_by_root p = Map.empty" "tail_entry_owner p = Map.empty"
    "tail_entry_refs p = Map.empty" "null_block p = Blk 0" "enable_caching p = caching"
    using assms hq pop(1) by (simp add: pool_init_def Let_def h2_def)
  have d: "data_of (h1 (Blk i)) = data_of (initial_heap (nat n) pid (Blk i))" for i
    using init(2)[of "Blk i"] pop(3) by (simp add: same_data_def)
  have f: "block_id (h1 (Blk i)) = int i" "ref_cnt (h1 (Blk i)) = 0" "block_hash (h1 (Blk i)) = None"
    "block_hash_num_tokens (h1 (Blk i)) = None" "is_null (h1 (Blk i)) = False" for i
    using data_of_fields(1-5)[OF d[of i]] by (simp_all add: initial_heap_def new_block_def)
  have f2: "blk_pool_id (h1 (Blk i)) = pid" if "i < nat n" for i
    using data_of_fields(6)[OF d[of i]] that by (simp add: initial_heap_def new_block_def)
  have "pool_static p"
    unfolding pool_static_def p using assms f(1,5) f2 by (auto simp: h2_def)
  moreover have keys: "block_keys p (Blk i) = []" for i
    by (simp add: block_keys_def extra_hashes_def p opt_list_def h2_def f)
  then have "pool_index p"
    unfolding pool_index_def p
    by (auto simp: usable_def keys_ok_def hm_at_def p h2_def f)
  moreover have "pool_gap p ?xs []"
  proof (rule gapI)
    show "queue_repr (pool_heap p) (free_block_queue p) ?xs"
      unfolding p h2_def by (rule queue_repr_cong[OF pop(2)]) simp_all
  qed (auto simp: p usable_def h2_def f)
  moreover have "pool_tails p" by (simp add: pool_tails_def p)
  ultimately show ?thesis using p by (auto simp: pool_inv_rest pool_rest_def)
qed

end
