(* ===== verification/Hash_Soundness.thy ===== *)
theory Hash_Soundness
  imports Request_Ops
begin

text \<open>
  What a block hash identifies.  Where the hash function has no collision on the inputs two
  requests hash, equal hashes mean equal block positions, equal tokens up to the end of the
  block and equal extra keys of every block up to it; so a hit of the prefix cache is a hit on
  the same prefix.  Then the three places where the code's hashes say less than that: a LoRA
  name and a cache salt give the same key, hashing resumed at a later block only sees the last
  multi-modal feature, and a session update keeps the hash of a block whose tokens it replaced.
\<close>

definition parent_bytes :: "block_hasher \<Rightarrow> bytes option \<Rightarrow> bytes" where
  "parent_bytes H p = (case p of None \<Rightarrow> none_hash H | Some b \<Rightarrow> if b = [] then none_hash H else b)"

definition hash_input_at :: "block_hasher \<Rightarrow> request \<Rightarrow> nat \<Rightarrow> hash_input" where
  "hash_input_at H r k =
     (parent_bytes H (if k = 0 then None else Some (ref_hash H r (k - 1))),
      block_tokens H r k, block_extra H r k)"

definition collision_free :: "block_hasher \<Rightarrow> request \<Rightarrow> nat \<Rightarrow> request \<Rightarrow> nat \<Rightarrow> bool" where
  "collision_free H r i r' j \<longleftrightarrow>
     (let S = hash_input_at H r ` {..i} \<union> hash_input_at H r' ` {..j} in
      inj_on (caching_hash_fn H) S \<and>
      (\<forall>x \<in> S. caching_hash_fn H x \<noteq> [] \<and> caching_hash_fn H x \<noteq> none_hash H))"

lemma ref_hash_input: "ref_hash H r k = caching_hash_fn H (hash_input_at H r k)"
  by (cases k) (simp_all add: hash_block_tokens_def hash_input_at_def parent_bytes_def Let_def)

lemma collision_free_Suc:
  "collision_free H r (Suc i) r' (Suc j) \<Longrightarrow> collision_free H r i r' j"
  unfolding collision_free_def Let_def
  by (meson Un_mono atMost_subset_iff image_mono inj_on_subset le_SucI order_refl subsetD)

lemma collision_freeD:
  assumes "collision_free H r i r' j" "k \<le> i" "l \<le> j"
  shows "ref_hash H r k = ref_hash H r' l \<Longrightarrow> hash_input_at H r k = hash_input_at H r' l"
    and "ref_hash H r k \<noteq> []" "ref_hash H r k \<noteq> none_hash H"
    and "ref_hash H r' l \<noteq> []" "ref_hash H r' l \<noteq> none_hash H"
  using assms unfolding collision_free_def Let_def ref_hash_input
  by (auto dest: inj_onD)

lemma ref_hash_injective:
  assumes "collision_free H r i r' j" "ref_hash H r i = ref_hash H r' j"
  shows "i = j \<and> (\<forall>k \<le> i. block_tokens H r k = block_tokens H r' k \<and> block_extra H r k = block_extra H r' k)"
  using assms
proof (induction i arbitrary: j)
  case 0
  have "hash_input_at H r 0 = hash_input_at H r' j"
    using collision_freeD(1)[OF 0(1), of 0 j] 0(2) by simp
  moreover have "j = 0"
  proof (rule ccontr)
    assume "j \<noteq> 0"
    then have "ref_hash H r' (j - 1) \<noteq> []" "ref_hash H r' (j - 1) \<noteq> none_hash H"
      using collision_freeD(4,5)[OF 0(1), of 0 "j - 1"] by simp_all
    with calculation \<open>j \<noteq> 0\<close> show False by (auto simp: hash_input_at_def parent_bytes_def)
  qed
  ultimately show ?case by (simp add: hash_input_at_def)
next
  case (Suc i)
  have inp: "hash_input_at H r (Suc i) = hash_input_at H r' j"
    using collision_freeD(1)[OF Suc.prems(1), of "Suc i" j] Suc.prems(2) by simp
  have ne: "ref_hash H r i \<noteq> []" "ref_hash H r i \<noteq> none_hash H"
    using collision_freeD(2,3)[OF Suc.prems(1), of i 0] by simp_all
  then obtain j' where j: "j = Suc j'"
    using inp by (cases j) (auto simp: hash_input_at_def parent_bytes_def)
  have "ref_hash H r' j' \<noteq> []" using collision_freeD(4)[OF Suc.prems(1), of 0 j'] j by simp
  then have "ref_hash H r i = ref_hash H r' j'"
    using inp ne j by (simp add: hash_input_at_def parent_bytes_def)
  then have "i = j' \<and> (\<forall>k \<le> i. block_tokens H r k = block_tokens H r' k \<and> block_extra H r k = block_extra H r' k)"
    using Suc.IH[of j'] collision_free_Suc Suc.prems(1) j by blast
  then show ?case using inp j by (auto simp: hash_input_at_def le_Suc_eq)
qed

lemma take_blocks:
  "take (n * hash_block_size H) (all_token_ids r) = concat (map (block_tokens H r) [0..<n])"
proof (induction n)
  case (Suc n)
  have "take (Suc n * hash_block_size H) (all_token_ids r) =
        take (n * hash_block_size H) (all_token_ids r) @ block_tokens H r n"
    unfolding block_tokens_def by (rule take_py_slice[symmetric]) simp
  then show ?case using Suc.IH by simp
qed simp

lemma equal_hash_equal_prefix:
  assumes "collision_free H r i r' j" "ref_hash H r i = ref_hash H r' j"
  shows "i = j" "take (Suc i * hash_block_size H) (all_token_ids r)
                 = take (Suc i * hash_block_size H) (all_token_ids r')"
    "k \<le> i \<Longrightarrow> block_extra H r k = block_extra H r' k"
proof -
  note inj = ref_hash_injective[OF assms]
  then show "i = j" "k \<le> i \<Longrightarrow> block_extra H r k = block_extra H r' k" by simp_all
  have "map (block_tokens H r) [0..<Suc i] = map (block_tokens H r') [0..<Suc i]" using inj by simp
  then show "take (Suc i * hash_block_size H) (all_token_ids r)
             = take (Suc i * hash_block_size H) (all_token_ids r')"
    unfolding take_blocks by (rule arg_cong)
qed

lemma ref_hash_same_prefix:
  assumes "take (Suc i * hash_block_size H) (all_token_ids r)
           = take (Suc i * hash_block_size H) (all_token_ids r')"
    and "\<And>k. k \<le> i \<Longrightarrow> block_extra H r k = block_extra H r' k"
  shows "ref_hash H r i = ref_hash H r' i"
proof (rule ref_hash_cong)
  let ?h = "hash_block_size H"
  fix k assume "k \<le> i"
  then have "Suc k * ?h \<le> Suc i * ?h" by simp
  then have "take (Suc k * ?h) (all_token_ids r) = take (Suc k * ?h) (all_token_ids r')"
    using assms(1) by (metis min.absorb1 take_take)
  then show "block_tokens H r k = block_tokens H r' k"
    unfolding block_tokens_def py_slice_def by (metis drop_take)
qed (use assms(2) in blast)

subsection \<open>A LoRA name and a cache salt are the same key\<close>

lemma lora_salt_same_first_block:
  assumes "all_token_ids r = all_token_ids r'" "mm_features r = []" "mm_features r' = []"
    "prompt_embeds r = None" "prompt_embeds r' = None"
    "r_lora_request r = Some l" "cache_salt r = None"
    "r_lora_request r' = None" "cache_salt r' = Some (lora_name l)" "lora_name l \<noteq> []"
  shows "ref_hash H r 0 = ref_hash H r' 0"
  using assms
  by (simp add: block_tokens_def block_extra_def ref_extra_def gen_lora_extra_hash_keys_def
      cache_salt_keys_def gen_prompt_embeds_extra_hash_keys_def)

subsection \<open>Hashing resumed at a later block sees only the last feature\<close>

definition late_index :: "nat \<Rightarrow> int \<Rightarrow> bool" where
  "late_index n i \<longleftrightarrow> i = -1 \<or> i = int n - 1 \<or> i = int n"

lemma gen_mm_late_index:
  assumes "length fs' = length fs" "late_index (Suc (length fs)) i"
  shows "\<exists>ks j. gen_mm_extra_hash_keys (r\<lparr>mm_features := fs @ [g]\<rparr>) s e i = Inr (ks, j) \<and>
     gen_mm_extra_hash_keys (r\<lparr>mm_features := fs' @ [g]\<rparr>) s e i = Inr (ks, j) \<and>
     late_index (Suc (length fs)) j"
  using assms
  by (auto simp: gen_mm_extra_hash_keys_def late_index_def Let_def nat_add_distrib)

lemma hasher_loop_late_index:
  assumes "length fs' = length fs" "late_index (Suc (length fs)) i"
  shows "hasher_loop H (r\<lparr>mm_features := fs @ [g]\<rparr>) s i prev =
         hasher_loop H (r\<lparr>mm_features := fs' @ [g]\<rparr>) s i prev"
  using assms(2)
proof (induction "num_tokens r - s" arbitrary: s i prev rule: less_induct)
  case less
  let ?r = "r\<lparr>mm_features := fs @ [g]\<rparr>" and ?r' = "r\<lparr>mm_features := fs' @ [g]\<rparr>"
  let ?e = "s + hash_block_size H"
  have nt: "num_tokens ?r = num_tokens r" "num_tokens ?r' = num_tokens r"
    by (simp_all add: num_tokens_def)
  show ?case
  proof (cases "hash_block_size H = 0 \<or> ?e > num_tokens r")
    case True
    then show ?thesis using nt by (simp add: hasher_loop.simps Let_def)
  next
    case False
    obtain ks j where mm: "gen_mm_extra_hash_keys ?r s ?e i = Inr (ks, j)"
      "gen_mm_extra_hash_keys ?r' s ?e i = Inr (ks, j)" "late_index (Suc (length fs)) j"
      using gen_mm_late_index[OF assms(1) less.prems] by blast
    have "hasher_loop H ?r ?e j p = hasher_loop H ?r' ?e j p" for p
      by (rule less.hyps) (use False mm(3) in auto)
    moreover have "gen_lora_extra_hash_keys ?r = gen_lora_extra_hash_keys ?r'"
      "cache_salt_keys ?r s = cache_salt_keys ?r' s"
      "gen_prompt_embeds_extra_hash_keys H ?r s ?e = gen_prompt_embeds_extra_hash_keys H ?r' s ?e"
      by (simp_all add: gen_lora_extra_hash_keys_def cache_salt_keys_def
          gen_prompt_embeds_extra_hash_keys_def)
    ultimately show ?thesis
      using mm nt by (subst (1 2) hasher_loop.simps)
        (simp add: generate_block_hash_extra_keys_def Let_def)
  qed
qed

lemma resumed_hashing_ignores_features:
  assumes "length fs' = length fs" "block_hashes r \<noteq> []" "0 < hash_block_size H"
  shows "hasher_call H (r\<lparr>mm_features := fs @ [g]\<rparr>) = hasher_call H (r\<lparr>mm_features := fs' @ [g]\<rparr>)"
  using assms hasher_loop_late_index[OF assms(1), where i = "-1" and r = r]
  by (simp add: hasher_call_def late_index_def num_tokens_def Let_def)


subsection \<open>Session updates\<close>

lemma session_tokens_simps [simp]:
  "block_hashes (session_tokens u pt r) = block_hashes r"
  "all_token_ids (session_tokens u pt r) =
     take (nat (num_computed_tokens r)) (all_token_ids r) @ opt_list (su_prompt_token_ids u)"
  "r_lora_request (session_tokens u pt r) = r_lora_request r"
  "cache_salt (session_tokens u pt r) = cache_salt r"
  "prompt_embeds (session_tokens u pt r) = prompt_embeds r"
  "su_mm_features u = None \<Longrightarrow> mm_features (session_tokens u pt r) = mm_features r"
  by (simp_all add: session_tokens_def Let_def opt_list_def)

lemma ref_hash_session_resume [simp]:
  "ref_hash H (session_resume u r) = ref_hash H r"
  "ref_hash H (record_event now t ts r) = ref_hash H r"
proof -
  have "extends r (session_resume u r)" "extends r (record_event now t ts r)"
    by (simp_all add: extends_def session_resume_def record_event_def)
  moreover have "all_token_ids (session_resume u r) = all_token_ids r"
    "all_token_ids (record_event now t ts r) = all_token_ids r"
    by (simp_all add: session_resume_def record_event_def)
  ultimately show "ref_hash H (session_resume u r) = ref_hash H r"
    "ref_hash H (record_event now t ts r) = ref_hash H r"
    by (intro ext ref_hash_cong; simp add: block_tokens_def block_extra_def extends_extra)+
qed

lemma session_resume_simps [simp]:
  "block_hashes (session_resume u r) = block_hashes r"
  "block_hashes (record_event now t ts r) = block_hashes r"
  "num_full_blocks H (session_resume u r) = num_full_blocks H r"
  "num_full_blocks H (record_event now t ts r) = num_full_blocks H r"
  "all_token_ids (session_resume u r) = all_token_ids r"
  "all_token_ids (record_event now t ts r) = all_token_ids r"
  by (simp_all add: session_resume_def record_event_def num_full_blocks_def num_tokens_def)

lemma session_update_hashed:
  assumes "update_request_as_session Ho lg now u r = Inr (r', d)"
  obtains pt r1 where "update_block_hashes Ho (session_tokens u pt r) = Inr r1"
    "block_hashes r' = block_hashes r1" "all_token_ids r' = all_token_ids r1"
    "ref_hash H r' = ref_hash H r1" "num_full_blocks H r' = num_full_blocks H r1"
proof -
  obtain pt r1 where "update_block_hashes Ho (session_tokens u pt r) = Inr r1"
    "r' = (if lg then record_event now QUEUED None (session_resume u r1) else session_resume u r1)"
    using assms by (auto simp: update_request_as_session_def Let_def split: option.splits)
  then show thesis by (intro that[of pt r1]) auto
qed

lemma update_block_hashes_frame:
  assumes "update_block_hashes Ho r = Inr r1"
  obtains hs where "block_hashes r1 = block_hashes r @ hs" "all_token_ids r1 = all_token_ids r"
    "\<And>H. ref_hash H r1 = ref_hash H r"
proof (cases Ho)
  case None
  with assms show thesis by (intro that[of "[]"]) (simp_all add: update_block_hashes_def)
next
  case (Some H)
  then obtain hs where "r1 = r\<lparr>block_hashes := block_hashes r @ hs\<rparr>"
    using assms by (auto simp: update_block_hashes_def)
  then show thesis by (intro that[of hs]) (simp_all add: fun_eq_iff)
qed

lemma session_update_consistent:
  assumes "update_request_as_session (Some H) lg now u r = Inr (r', d)"
    and "0 < hash_block_size H" "mm_hashable H r" "hashes_consistent H r"
    and "int (length (block_hashes r) * hash_block_size H) \<le> num_computed_tokens r"
    and "num_computed_tokens r \<le> int (num_tokens r)" "su_mm_features u = None"
  shows "hashes_consistent H r'" "length (block_hashes r') = num_full_blocks H r'"
proof -
  let ?n = "length (block_hashes r)"
  define nc where "nc = nat (num_computed_tokens r)"
  obtain pt r1 where r1: "update_block_hashes (Some H) (session_tokens u pt r) = Inr r1"
    "block_hashes r' = block_hashes r1" "ref_hash H r' = ref_hash H r1"
    "num_full_blocks H r' = num_full_blocks H r1"
    using session_update_hashed[OF assms(1)] by metis
  let ?r0 = "r\<lparr>all_token_ids := take nc (all_token_ids r)\<rparr>" and ?s = "session_tokens u pt r"
  have down: "extends ?r0 r"
    by (auto simp: extends_def) (metis append_take_drop_id)
  have up: "extends ?r0 ?s" using assms(7) by (simp add: extends_def nc_def)
  have nc: "?n * hash_block_size H \<le> nc" "nc \<le> num_tokens r"
    using assms(5,6) unfolding nc_def by linarith+
  have "?n \<le> num_full_blocks H ?r0"
    unfolding num_full_blocks_def less_eq_div_iff_mult_less_eq[OF assms(2)]
    using nc by (simp add: num_tokens_def)
  moreover have "map (ref_hash H r) [0..<?n] = map (ref_hash H ?r0) [0..<?n]"
    using extends_ref_hash[OF down] calculation by simp
  then have "block_hashes r = map (ref_hash H ?r0) [0..<?n]"
    using assms(4) unfolding hashes_consistent_def by metis
  ultimately have "hashes_consistent H ?r0" by (simp add: hashes_consistent_def)
  then have "hashes_consistent H ?s" by (rule hashes_consistent_extends[OF up]) simp
  moreover have "mm_hashable H ?s"
    using assms(3,7) by (simp add: mm_hashable_def)
  ultimately have "r1 = ?s\<lparr>block_hashes := map (ref_hash H ?s) [0..<num_full_blocks H ?s]\<rparr>"
    using update_block_hashes_consistent[OF _ assms(2)] r1(1) by simp
  then show "hashes_consistent H r'" "length (block_hashes r') = num_full_blocks H r'"
    using r1(2-4) by (simp_all add: hashes_consistent_def)
qed

lemma session_update_keeps_hash:
  assumes "update_request_as_session Ho lg now u r = Inr (r', d)" "k < length (block_hashes r)"
  shows "block_hashes r' ! k = block_hashes r ! k"
    and "all_token_ids r' = take (nat (num_computed_tokens r)) (all_token_ids r)
                            @ opt_list (su_prompt_token_ids u)"
proof -
  obtain pt r1 where r1: "update_block_hashes Ho (session_tokens u pt r) = Inr r1"
    "block_hashes r' = block_hashes r1" "all_token_ids r' = all_token_ids r1"
    using session_update_hashed[OF assms(1)] by metis
  obtain hs where "block_hashes r1 = block_hashes r @ hs"
    "all_token_ids r1 = all_token_ids (session_tokens u pt r)"
    using update_block_hashes_frame[OF r1(1)] by (metis session_tokens_simps(1))
  then show "block_hashes r' ! k = block_hashes r ! k"
    "all_token_ids r' = take (nat (num_computed_tokens r)) (all_token_ids r)
                        @ opt_list (su_prompt_token_ids u)"
    using r1 assms(2) by (simp_all add: nth_append_left)
qed

text \<open>A block whose tokens the update replaced keeps the hash of the old ones.\<close>

lemma session_update_stale_hash:
  assumes "update_request_as_session (Some H) lg now u r = Inr (r', d)"
    and "hashes_consistent H r" "k < length (block_hashes r)"
    and "block_tokens H r' k \<noteq> block_tokens H r k" "collision_free H r k r' k"
  shows "block_hashes r' ! k \<noteq> ref_hash H r' k" "\<not> hashes_consistent H r'"
proof -
  have "block_hashes r = map (ref_hash H r) [0..<length (block_hashes r)]"
    using assms(2) by (simp add: hashes_consistent_def)
  then have "block_hashes r ! k = ref_hash H r k"
    using assms(3) by (metis add_0 diff_zero nth_map_upt)
  moreover have "ref_hash H r k \<noteq> ref_hash H r' k"
    using ref_hash_injective[OF assms(5)] assms(4) by auto
  ultimately show *: "block_hashes r' ! k \<noteq> ref_hash H r' k"
    using session_update_keeps_hash(1)[OF assms(1,3)] by simp
  obtain pt r1 hs where "block_hashes r' = block_hashes r @ hs"
    using session_update_hashed[OF assms(1)] update_block_hashes_frame
    by (metis session_tokens_simps(1))
  then have lt: "k < length (block_hashes r')" using assms(3) by simp
  show "\<not> hashes_consistent H r'"
  proof
    assume "hashes_consistent H r'"
    then have "block_hashes r' = map (ref_hash H r') [0..<length (block_hashes r')]"
      by (simp add: hashes_consistent_def)
    then have "block_hashes r' ! k = ref_hash H r' k"
      using lt by (metis add_0 diff_zero nth_map_upt)
    with * show False by simp
  qed
qed

end
