(* ===== verification/Pool_Caching.thy ===== *)
theory Pool_Caching
  imports Pool_Alloc Hash_Soundness
begin

text \<open>
  Entering blocks into the prefix cache (\<open>cache_full_blocks\<close>, \<open>cache_partial_block\<close>,
  \<open>move_block_hashes\<close>, \<open>find_tail_entry\<close>): each keeps the invariant of the pool and touches only
  the keys of the blocks it is given; after \<open>cache_full_blocks\<close> a lookup of any of the block
  hashes hits, and a lookup that hits returns a block whose content was hashed from the same
  tokens.
\<close>

text \<open>One block gains or loses keys; everything else stays.\<close>

definition only_keys_of :: "bref set \<Rightarrow> block_pool \<Rightarrow> block_pool \<Rightarrow> bool" where
  "only_keys_of B p p' \<longleftrightarrow> same_config p p' \<and>
     (\<forall>c. ref_cnt (pool_heap p' c) = ref_cnt (pool_heap p c) \<and>
          is_null (pool_heap p' c) = is_null (pool_heap p c)) \<and>
     (\<forall>c. c \<notin> B \<longrightarrow> pool_heap p' c = pool_heap p c) \<and>
     (\<forall>c \<in> usable p. c \<notin> B \<longrightarrow> block_keys p' c = block_keys p c)"

lemma only_keys_refl [simp]: "only_keys_of B p p"
  by (simp add: only_keys_of_def)

lemma only_keysD:
  assumes "only_keys_of B p p'"
  shows "same_config p p'" "ref_cnt (pool_heap p' c) = ref_cnt (pool_heap p c)"
    "is_null (pool_heap p' c) = is_null (pool_heap p c)" "c \<notin> B \<Longrightarrow> pool_heap p' c = pool_heap p c"
    "c \<in> usable p \<Longrightarrow> c \<notin> B \<Longrightarrow> block_keys p' c = block_keys p c" "usable p' = usable p"
  using assms same_config_usable unfolding only_keys_of_def by blast+

lemma only_keys_trans:
  assumes "only_keys_of B p q" "only_keys_of C q r" "B \<subseteq> D" "C \<subseteq> D"
  shows "only_keys_of D p r"
proof -
  note pq = only_keysD[OF assms(1)] and qr = only_keysD[OF assms(2)]
  have "same_config p r" by (rule same_config_trans[OF pq(1) qr(1)])
  moreover have "ref_cnt (pool_heap r c) = ref_cnt (pool_heap p c)"
    "is_null (pool_heap r c) = is_null (pool_heap p c)" for c
    using pq(2,3) qr(2,3) by simp_all
  moreover have "pool_heap r c = pool_heap p c" if "c \<notin> D" for c
  proof -
    have "c \<notin> B" "c \<notin> C" using assms(3,4) that by blast+
    then show ?thesis using pq(4) qr(4) by simp
  qed
  moreover have "block_keys r c = block_keys p c" if "c \<in> usable p" "c \<notin> D" for c
  proof -
    have "c \<notin> B" "c \<notin> C" using assms(3,4) that by blast+
    then show ?thesis using pq(5,6) qr(5) that(1) by simp
  qed
  ultimately show ?thesis by (simp add: only_keys_of_def)
qed

lemma only_keys_core:
  "pool_core p' = pool_core q \<Longrightarrow> only_keys_of B p q \<Longrightarrow> only_keys_of B p p'"
  using core_fields[of p' q] core_parts(4)[of p' q] same_config_core[of p' q p]
  by (simp add: only_keys_of_def)

lemma only_keys_without:
  assumes "pool_static p" "b \<in> usable p"
  shows "only_keys_of {b} p (without_keys b m p)"
  using without_keys_keys[OF assms] by (simp add: only_keys_of_def)

lemma only_keys_with:
  assumes "pool_static p" "b \<in> usable p" "keys_ok p b"
  shows "only_keys_of {b} p (with_key b key n m p)"
  using with_key_keys[OF assms] by (simp add: only_keys_of_def with_key_heap) (simp add: with_key_def Let_def)

lemma forget_block_ok:
  assumes "pool_rest p" "pool_gap p xs out" "b \<in> usable p"
  shows "\<exists>p'. forget_block b p = Inr p' \<and> pool_rest p' \<and> pool_gap p' xs out \<and>
    only_keys_of {b} p p' \<and> block_keys p' b = []"
proof -
  note r = assms(1)[unfolded pool_rest_def]
  obtain p' m where f: "forget_block b p = Inr p'" "pool_core p' = pool_core (without_keys b m p)"
    "pool_index p'" "pool_tails p'"
    using forget_block_total[of p b] r assms(3) by blast
  have "only_keys_of {b} p p'"
    using only_keys_core[OF f(2) only_keys_without] r assms(3) by blast
  moreover have "block_keys p' b = []"
    using core_parts(4)[OF f(2)] without_keys_keys[OF _ assms(3,3)] r by simp
  moreover have "pool_rest p'" using f(3,4) core_parts(2)[OF f(2)] r by (simp add: pool_rest_def)
  ultimately show ?thesis using f(1) gap_keys_eq[OF f(2) assms(2)] by blast
qed

lemma insert_block_hash_ok:
  assumes "pool_rest p" "pool_gap p xs out" "b \<in> usable p"
  shows "\<exists>p'. insert_block_hash key b (Some n) p = Inr (p', key \<notin> set (block_keys p b)) \<and>
    pool_rest p' \<and> pool_gap p' xs out \<and> only_keys_of {b} p p' \<and>
    set (block_keys p' b) = insert key (set (block_keys p b))"
proof (cases "key \<in> set (block_keys p b)")
  case True
  then show ?thesis
    using assms insert_effect(1)[of p b key "Some n"] by (auto simp: pool_rest_def)
next
  case False
  have r: "pool_static p" "pool_index p" "pool_tails p" using assms(1) by (simp_all add: pool_rest_def)
  obtain m where m: "insert_block_hash key b (Some n) p = Inr (with_key b key (Some n) m p, True)"
    "index_ok (pool_heap p) m"
    "\<forall>k. hm_at m k = (if k = key then insert b (hm_at (cached_block_hash_to_block p) k)
                            else hm_at (cached_block_hash_to_block p) k)"
    using insert_effect(2)[OF r(1,2) assms(3) False] by blast
  have "pool_index (with_key b key (Some n) m p)"
    by (rule with_key_index[OF r(1,2) assms(3) False _ m(2,3)]) simp
  moreover have ok: "keys_ok p b" by (rule pool_indexD(3)[OF r(2) assms(3)])
  ultimately show ?thesis
    using m(1) False r with_key_gap[OF assms(2)] only_keys_with[OF r(1) assms(3) ok]
      with_key_keys[OF r(1) assms(3) ok assms(3)]
    by (auto simp: pool_rest_def)
qed

subsection \<open>\<open>cache_full_blocks\<close>\<close>

definition promotable :: "block_pool \<Rightarrow> bref \<Rightarrow> int \<Rightarrow> bool" where
  "promotable p b n \<longleftrightarrow>
     (case block_hash_num_tokens (pool_heap p b) of None \<Rightarrow> True | Some k \<Rightarrow> k < n)"

lemma cache_full_step_ok:
  assumes "pool_rest p" "pool_gap p xs out" "b \<in> usable p" "\<not> skip_block (pool_heap p) bmask i b"
    and "i < length hs" "make_block_hash_with_group_id (hs ! i) g = Inr key"
    and "promotable p b (int ((cached + i + 1) * bs))"
  shows "\<exists>p' acc'. cache_full_step bmask hs cached bs g keep (i, b) (p, acc) = Inr (p', acc') \<and>
    pool_rest p' \<and> pool_gap p' xs out \<and> only_keys_of {b} p p' \<and> key \<in> set (block_keys p' b) \<and>
    set (block_keys p' b) \<subseteq> insert key (set (block_keys p b)) \<and>
    acc' = (if enable_kv_cache_events p then acc @ [maybe_convert_block_hash (use_int_hashes p) (hs ! i)]
            else acc)"
proof -
  let ?n = "int ((cached + i + 1) * bs)"
  have ok: "keys_ok p b" using assms(1,3) pool_indexD(3) by (simp add: pool_rest_def)
  obtain p1 where p1: "(if block_hash (pool_heap p b) = None then Inr p
       else rbind (guard AssertionError (case block_hash_num_tokens (pool_heap p b) of
                     None \<Rightarrow> False | Some k \<Rightarrow> k < ?n))
              (\<lambda>_. if keep then Inr p else forget_block b p)) = Inr p1"
    "pool_rest p1" "pool_gap p1 xs out" "only_keys_of {b} p p1"
    "set (block_keys p1 b) \<subseteq> set (block_keys p b)"
  proof (cases "block_hash (pool_heap p b) = None \<or> keep")
    case True
    then have "(if block_hash (pool_heap p b) = None then Inr p
       else rbind (guard AssertionError (case block_hash_num_tokens (pool_heap p b) of
                     None \<Rightarrow> False | Some k \<Rightarrow> k < ?n))
              (\<lambda>_. if keep then Inr p else forget_block b p)) = Inr p"
      using assms(7) keys_okD(3)[OF ok] by (auto simp: promotable_def split: option.splits)
    then show thesis using assms(1,2) by (intro that) auto
  next
    case False
    moreover obtain p1 where "forget_block b p = Inr p1" "pool_rest p1" "pool_gap p1 xs out"
      "only_keys_of {b} p p1" "block_keys p1 b = []"
      using forget_block_ok[OF assms(1-3)] by blast
    ultimately show thesis
      using assms(7) keys_okD(3)[OF ok] by (intro that) (auto simp: promotable_def split: option.splits)
  qed
  have us: "b \<in> usable p1" using only_keysD(6)[OF p1(4)] assms(3) by simp
  obtain p2 where p2: "insert_block_hash key b (Some ?n) p1 = Inr (p2, key \<notin> set (block_keys p1 b))"
    "pool_rest p2" "pool_gap p2 xs out" "only_keys_of {b} p1 p2"
    "set (block_keys p2 b) = insert key (set (block_keys p1 b))"
    using insert_block_hash_ok[OF p1(2,3) us] by blast
  have only: "only_keys_of {b} p p2" by (rule only_keys_trans[OF p1(4) p2(4)]) simp_all
  have cfg: "enable_kv_cache_events p2 = enable_kv_cache_events p" "use_int_hashes p2 = use_int_hashes p"
    using only_keysD(1)[OF only] by (simp_all add: same_config_def)
  have "cache_full_step bmask hs cached bs g keep (i, b) (p, acc) =
      Inr (p2, if enable_kv_cache_events p
               then acc @ [maybe_convert_block_hash (use_int_hashes p) (hs ! i)] else acc)"
    by (simp only: cache_full_step_def prod.case Let_def assms(4-6) if_False if_True py_nth_of_nat
        rbind_simps p1(1) p2(1) cfg)
  then show ?thesis using p2(2,3,5) p1(5) only by auto
qed

text \<open>The positions the loop enters, and the key of each.\<close>

definition entered :: "heap \<Rightarrow> bool list option \<Rightarrow> (nat \<times> bref) list \<Rightarrow> (nat \<times> bref) list" where
  "entered h bmask ibs = filter (\<lambda>(i, b). \<not> skip_block h bmask i b) ibs"

lemma skip_only_keys:
  "only_keys_of B p p' \<Longrightarrow> skip_block (pool_heap p') bmask i b = skip_block (pool_heap p) bmask i b"
  using only_keysD(3)[of B p p' b] by (simp add: skip_block_def)

lemma entered_only_keys:
  "only_keys_of B p p' \<Longrightarrow> entered (pool_heap p') bmask ibs = entered (pool_heap p) bmask ibs"
  by (simp add: entered_def skip_only_keys)

lemma cache_full_loop_ok:
  assumes "pool_rest p" "pool_gap p xs out"
    and "\<forall>(i, b) \<in> set (entered (pool_heap p) bmask ibs). b \<in> usable p \<and> i < length hs \<and>
           promotable p b (int ((cached + i + 1) * bs))"
    and "distinct (map snd (entered (pool_heap p) bmask ibs))" "0 \<le> g" "g < 2 ^ 32"
  shows "\<exists>p' acc'. rfold (cache_full_step bmask hs cached bs g keep) ibs (p, acc) = Inr (p', acc') \<and>
    pool_rest p' \<and> pool_gap p' xs out \<and>
    only_keys_of (snd ` set (entered (pool_heap p) bmask ibs)) p p' \<and>
    (\<forall>(i, b) \<in> set (entered (pool_heap p) bmask ibs). \<exists>key. make_block_hash_with_group_id (hs ! i) g = Inr key \<and>
       key \<in> set (block_keys p' b) \<and> set (block_keys p' b) \<subseteq> insert key (set (block_keys p b)))"
  using assms(1-4)
proof (induction ibs arbitrary: p acc)
  case Nil
  then show ?case by (simp add: entered_def)
next
  case (Cons ib ibs)
  obtain i b where ib: "ib = (i, b)" by (metis surj_pair)
  show ?case
  proof (cases "skip_block (pool_heap p) bmask i b")
    case True
    then have "entered (pool_heap p) bmask (ib # ibs) = entered (pool_heap p) bmask ibs"
      by (simp add: entered_def ib)
    moreover have "cache_full_step bmask hs cached bs g keep ib (p, acc) = Inr (p, acc)"
      using True by (simp add: cache_full_step_def ib)
    ultimately show ?thesis using Cons.IH[of p acc] Cons.prems by simp
  next
    case False
    then have e: "entered (pool_heap p) bmask (ib # ibs) = (i, b) # entered (pool_heap p) bmask ibs"
      by (simp add: entered_def ib)
    have b: "b \<in> usable p" "i < length hs" "promotable p b (int ((cached + i + 1) * bs))"
      using Cons.prems(3) by (simp_all add: e)
    obtain key where key: "make_block_hash_with_group_id (hs ! i) g = Inr key"
      using make_key_total[OF assms(5,6)] by blast
    obtain p1 acc1 where p1: "cache_full_step bmask hs cached bs g keep (i, b) (p, acc) = Inr (p1, acc1)"
      "pool_rest p1" "pool_gap p1 xs out" "only_keys_of {b} p p1" "key \<in> set (block_keys p1 b)"
      "set (block_keys p1 b) \<subseteq> insert key (set (block_keys p b))"
      using cache_full_step_ok[OF Cons.prems(1,2) b(1) False b(2) key b(3)] by blast
    note o1 = only_keysD[OF p1(4)] and e1 = entered_only_keys[OF p1(4)]
    let ?E = "entered (pool_heap p) bmask ibs"
    have nb: "c \<noteq> b" if "(j, c) \<in> set ?E" for j c using Cons.prems(4) that by (force simp: e)
    have "\<forall>(j, c) \<in> set (entered (pool_heap p1) bmask ibs). c \<in> usable p1 \<and> j < length hs \<and>
           promotable p1 c (int ((cached + j + 1) * bs))"
      using Cons.prems(3) nb o1(4) by (auto simp: e e1 o1(6) promotable_def)
    moreover have "distinct (map snd (entered (pool_heap p1) bmask ibs))"
      using Cons.prems(4) by (simp add: e e1)
    ultimately obtain p2 acc2 where p2: "rfold (cache_full_step bmask hs cached bs g keep) ibs (p1, acc1) = Inr (p2, acc2)"
      "pool_rest p2" "pool_gap p2 xs out" "only_keys_of (snd ` set ?E) p1 p2"
      "\<forall>(i, b) \<in> set ?E. \<exists>key. make_block_hash_with_group_id (hs ! i) g = Inr key \<and>
         key \<in> set (block_keys p2 b) \<and> set (block_keys p2 b) \<subseteq> insert key (set (block_keys p1 b))"
      using Cons.IH[OF p1(2,3), of acc1] unfolding e1 by blast
    have "b \<notin> snd ` set ?E" using nb by force
    then have kb: "block_keys p2 b = block_keys p1 b"
      using only_keysD(5)[OF p2(4), of b] b(1) o1(6) by simp
    have "only_keys_of (snd ` set ((i, b) # ?E)) p p2"
      by (rule only_keys_trans[OF p1(4) p2(4)]) auto
    moreover have "\<exists>key. make_block_hash_with_group_id (hs ! j) g = Inr key \<and>
         key \<in> set (block_keys p2 c) \<and> set (block_keys p2 c) \<subseteq> insert key (set (block_keys p c))"
      if "(j, c) \<in> set ((i, b) # ?E)" for j c
    proof (cases "(j, c) = (i, b)")
      case True
      then show ?thesis using key p1(5,6) kb by auto
    next
      case False
      then have jc: "(j, c) \<in> set ?E" using that by (simp only: list.set insert_iff) blast
      then have "block_keys p1 c = block_keys p c"
        using o1(5)[of c] nb[OF jc] Cons.prems(3) by (auto simp: e)
      then show ?thesis using p2(5) jc by auto
    qed
    moreover have "rfold (cache_full_step bmask hs cached bs g keep) (ib # ibs) (p, acc) = Inr (p2, acc2)"
      using p1(1) p2(1) by (simp add: ib)
    ultimately show ?thesis using p2(2,3) by (intro exI[of _ p2] exI[of _ acc2]) (auto simp: e)
  qed
qed

text \<open>The lookup of a key that some block has.\<close>

lemma get_cached_single:
  assumes "pool_index p" "make_block_hash_with_group_id bh g = Inr key"
  shows "get_cached_block (cached_block_hash_to_block p) bh [g] = Inr (Some [b]) \<Longrightarrow>
           b \<in> usable p \<and> key \<in> set (block_keys p b)"
    and "c \<in> usable p \<Longrightarrow> key \<in> set (block_keys p c) \<Longrightarrow>
           \<exists>b. get_cached_block (cached_block_hash_to_block p) bh [g] = Inr (Some [b]) \<and>
               b \<in> usable p \<and> key \<in> set (block_keys p b)"
    and "(\<forall>c \<in> usable p. key \<notin> set (block_keys p c)) \<Longrightarrow>
           get_cached_block (cached_block_hash_to_block p) bh [g] = Inr None"
proof -
  let ?m = "cached_block_hash_to_block p"
  note ix = pool_indexD(1)[OF assms(1)] and at = pool_indexD(2)[OF assms(1)]
  obtain r where r: "hm_get_one_block ?m key = Inr r"
    "case r of None \<Rightarrow> hm_at ?m key = {} | Some b \<Rightarrow> b \<in> hm_at ?m key"
    using hidx.get_total[OF ix] by blast
  then show "get_cached_block ?m bh [g] = Inr (Some [b]) \<Longrightarrow> b \<in> usable p \<and> key \<in> set (block_keys p b)"
    using at by (auto simp: assms(2) split: option.splits)
  show "\<exists>b. get_cached_block ?m bh [g] = Inr (Some [b]) \<and> b \<in> usable p \<and> key \<in> set (block_keys p b)"
    if "c \<in> usable p" "key \<in> set (block_keys p c)"
  proof -
    have "c \<in> hm_at ?m key" using that at by blast
    then show ?thesis using r at by (auto simp: assms(2) split: option.splits)
  qed
  show "get_cached_block ?m bh [g] = Inr None" if "\<forall>c \<in> usable p. key \<notin> set (block_keys p c)"
  proof -
    have "hm_at ?m key = {}" using that at by blast
    then show ?thesis using r by (auto simp: assms(2) split: option.splits)
  qed
qed

text \<open>The hashes of a request as the group with blocks of \<open>k\<close> hash blocks sees them.\<close>

lemma resolved_hashes:
  assumes "0 < k" "0 < hbs"
  obtains view hs where
    "resolve_block_hashes (RawHashes bhs) (int hbs) (int (k * hbs)) False None = Inr view"
    "view_from view a = Inr hs" "length hs = length bhs div k - a"
    "\<And>i. i < length hs \<Longrightarrow> hs ! i = bhs ! ((a + i + 1) * k - 1)"
    "\<And>j. j < length bhs div k \<Longrightarrow> view_at view (int j) = Inr (bhs ! ((j + 1) * k - 1))"
proof (cases "k = 1")
  case True
  then show thesis
    by (intro that[of "RawHashes bhs" "drop a bhs"]) (simp_all add: view_from_def)
next
  case False
  let ?hs = "map (\<lambda>i. bhs ! ((i + 1) * k - 1)) [a..<length bhs div k]"
  have "resolve_block_hashes (RawHashes bhs) (int hbs) (int (k * hbs)) False None =
      Inr (ScaledHashes bhs (int k))"
    using resolve_scaled[of "int hbs" "int k" bhs None] False assms(2) by (simp add: mult.commute)
  moreover have "view_from (ScaledHashes bhs (int k)) a = Inr ?hs" by (rule view_from_scaled[OF assms(1)])
  moreover have "view_at (ScaledHashes bhs (int k)) (int j) = Inr (bhs ! ((j + 1) * k - 1))"
    if "j < length bhs div k" for j
    using view_at_scaled[OF assms(1), of "int j" bhs] that by (simp add: zdiv_int[symmetric])
  ultimately show thesis by (intro that[of "ScaledHashes bhs (int k)" ?hs]) simp_all
qed

lemma gen_extra_total:
  assumes "0 \<le> i"
  shows "\<exists>ks j. generate_block_hash_extra_keys H r s e i = Inr (ks, j) \<and> 0 \<le> j"
proof -
  have "\<exists>mm j. gen_mm_extra_hash_keys r s e i = Inr (mm, j) \<and> 0 \<le> j"
    using assms by (auto simp: gen_mm_extra_hash_keys_def Let_def split: prod.split)
  then obtain mm j where "gen_mm_extra_hash_keys r s e i = Inr (mm, j)" "0 \<le> j" by blast
  then show ?thesis
    by (cases "gen_lora_extra_hash_keys r @ mm @ cache_salt_keys r s
            @ gen_prompt_embeds_extra_hash_keys H r s e = []")
      (simp_all add: generate_block_hash_extra_keys_def Let_def del: append_is_Nil_conv)
qed

lemma stored_extra_keys_total: "0 \<le> i \<Longrightarrow> \<exists>ks. stored_extra_keys H r bs i is = Inr ks"
proof (induction "is" arbitrary: i)
  case (Cons n ns)
  obtain ks j where k: "generate_block_hash_extra_keys H r (n * bs) (n * bs + bs) i = Inr (ks, j)" "0 \<le> j"
    using gen_extra_total[OF Cons.prems] by blast
  then show ?case using Cons.IH[OF k(2)] by auto
qed simp

lemma unskipped_total:
  "\<forall>i \<in> set is. i < length blocks \<Longrightarrow> \<exists>js. unskipped h blocks bmask a is = Inr js"
  by (induction "is") auto

lemma set_enumerate_slice:
  assumes "e \<le> length bs"
  shows "set (enumerate 0 (py_slice bs a e)) = {(i, bs ! (a + i)) | i. i < e - a}"
  using assms by (auto simp: in_set_enumerate_eq py_slice_def)

lemma cache_full_event_total:
  assumes "e \<le> length blocks" "a = 0 \<or> (\<exists>bh. view_at view (int a - 1) = Inr bh)"
  shows "\<exists>ev. cache_full_event H r blocks a e bs g bmask view nh p =
    Inr (p\<lparr>kv_event_queue := kv_event_queue p @ [ev]\<rparr>)"
proof -
  obtain js where i: "unskipped (pool_heap p) blocks bmask a [a..<e] = Inr js"
    using unskipped_total[of "[a..<e]" blocks "pool_heap p" bmask a] assms(1) by auto
  obtain ks where k: "stored_extra_keys H r bs 0 js = Inr ks"
    using stored_extra_keys_total[of 0] by blast
  show ?thesis
  proof (cases "a = 0")
    case True
    then show ?thesis using i k by (simp add: cache_full_event_def) blast
  next
    case False
    then obtain bh where "view_at view (int a - 1) = Inr bh" using assms(2) by blast
    with False i k show ?thesis by (simp add: cache_full_event_def) blast
  qed
qed

text \<open>The blocks the call enters.\<close>

definition newly_cached :: "block_pool \<Rightarrow> bref list \<Rightarrow> nat \<Rightarrow> nat \<Rightarrow> bool list option \<Rightarrow> bref set" where
  "newly_cached p blocks cached full bmask =
     {blocks ! i | i. cached \<le> i \<and> i < full \<and> \<not> skip_block (pool_heap p) bmask (i - cached) (blocks ! i)}"

lemma cache_full_blocks_ok:
  assumes inv: "pool_inv p xs"
    and sizes: "bp_hash_block_size p = hbs" "0 < hbs" "0 < k" "cached < full"
      "full \<le> length blocks" "full \<le> length (block_hashes r) div k"
    and g: "0 \<le> g" "g < 2 ^ 32"
    and bm: "case bmask of None \<Rightarrow> True | Some m \<Rightarrow> length m = full - cached"
    and new: "\<And>i. cached \<le> i \<Longrightarrow> i < full \<Longrightarrow> \<not> skip_block (pool_heap p) bmask (i - cached) (blocks ! i) \<Longrightarrow>
        blocks ! i \<in> usable p \<and> promotable p (blocks ! i) (int ((i + 1) * (k * hbs)))"
    and inj: "\<And>i j. cached \<le> i \<Longrightarrow> i < full \<Longrightarrow> \<not> skip_block (pool_heap p) bmask (i - cached) (blocks ! i) \<Longrightarrow>
        cached \<le> j \<Longrightarrow> j < full \<Longrightarrow> blocks ! i = blocks ! j \<Longrightarrow> i = j"
  shows "\<exists>p'. cache_full_blocks H r blocks cached full (k * hbs) g bmask keep p = Inr p' \<and>
    pool_inv p' xs \<and> only_keys_of (newly_cached p blocks cached full bmask) p p' \<and>
    (\<forall>i. cached \<le> i \<longrightarrow> i < full \<longrightarrow> \<not> skip_block (pool_heap p) bmask (i - cached) (blocks ! i) \<longrightarrow>
       (\<exists>key. make_block_hash_with_group_id (block_hashes r ! ((i + 1) * k - 1)) g = Inr key \<and>
          key \<in> set (block_keys p' (blocks ! i)) \<and>
          set (block_keys p' (blocks ! i)) \<subseteq> insert key (set (block_keys p (blocks ! i)))))"
proof -
  let ?new = "py_slice blocks cached full" and ?h = "pool_heap p"
  let ?E = "entered ?h bmask (enumerate 0 ?new)"
  obtain view hs where v: "resolve_block_hashes (RawHashes (block_hashes r)) (int hbs) (int (k * hbs))
      False None = Inr view" "view_from view cached = Inr hs"
    "length hs = length (block_hashes r) div k - cached"
    "\<And>i. i < length hs \<Longrightarrow> hs ! i = block_hashes r ! ((cached + i + 1) * k - 1)"
    "\<And>j. j < length (block_hashes r) div k \<Longrightarrow> view_at view (int j) = Inr (block_hashes r ! ((j + 1) * k - 1))"
    using resolved_hashes[OF sizes(3,2)] by blast
  have rest: "pool_rest p" "pool_gap p xs []" using inv by (simp_all add: pool_inv_rest)
  have E: "(i, b) \<in> set ?E \<longleftrightarrow> i < full - cached \<and> b = blocks ! (cached + i) \<and> \<not> skip_block ?h bmask i b" for i b
  proof -
    have "(i, b) \<in> set (enumerate 0 ?new) \<longleftrightarrow> i < full - cached \<and> b = blocks ! (cached + i)"
      unfolding set_enumerate_slice[OF sizes(5)] by blast
    then show ?thesis by (simp add: entered_def)
  qed
  have "distinct ?E" unfolding entered_def by (rule distinct_filter) (simp add: distinct_enumerate)
  moreover have "inj_on snd (set ?E)"
  proof (rule inj_onI)
    fix x y assume "x \<in> set ?E" "y \<in> set ?E" "snd x = snd y"
    moreover obtain i b j c where "x = (i, b)" "y = (j, c)" by (metis surj_pair)
    ultimately show "x = y" using inj[of "cached + i" "cached + j"] by (auto simp: E)
  qed
  ultimately have dist: "distinct (map snd ?E)" by (simp add: distinct_map)
  have pre: "\<forall>(i, b) \<in> set ?E. b \<in> usable p \<and> i < length hs \<and>
      promotable p b (int ((cached + i + 1) * (k * hbs)))"
  proof clarify
    fix i b assume "(i, b) \<in> set ?E"
    then have "i < full - cached" "b = blocks ! (cached + i)" "\<not> skip_block ?h bmask i b"
      unfolding E by blast+
    then show "b \<in> usable p \<and> i < length hs \<and> promotable p b (int ((cached + i + 1) * (k * hbs)))"
      using new[of "cached + i"] v(3) sizes(6) by auto
  qed
  obtain p1 acc where p1: "rfold (cache_full_step bmask hs cached (k * hbs) g keep) (enumerate 0 ?new) (p, [])
      = Inr (p1, acc)" "pool_rest p1" "pool_gap p1 xs []" "only_keys_of (snd ` set ?E) p p1"
    "\<forall>(i, b) \<in> set ?E. \<exists>key. make_block_hash_with_group_id (hs ! i) g = Inr key \<and>
       key \<in> set (block_keys p1 b) \<and> set (block_keys p1 b) \<subseteq> insert key (set (block_keys p b))"
    using cache_full_loop_ok[OF rest pre dist g] by blast
  have "\<exists>ev. cache_full_event H r blocks cached full (k * hbs) g bmask view acc p1 =
      Inr (p1\<lparr>kv_event_queue := kv_event_queue p1 @ [ev]\<rparr>)"
  proof (rule cache_full_event_total[OF sizes(5)])
    show "cached = 0 \<or> (\<exists>bh. view_at view (int cached - 1) = Inr bh)"
      using v(5)[of "cached - 1"] sizes(4,6) by (cases "cached = 0") (auto simp: of_nat_diff)
  qed
  then obtain ev where ev: "cache_full_event H r blocks cached full (k * hbs) g bmask view acc p1 =
      Inr (p1\<lparr>kv_event_queue := kv_event_queue p1 @ [ev]\<rparr>)" by blast
  define p2 where "p2 = (if enable_kv_cache_events p1
      then p1\<lparr>kv_event_queue := kv_event_queue p1 @ [ev]\<rparr> else p1)"
  have c: "pool_core p2 = pool_core p1" by (simp add: p2_def)
  have run: "cache_full_blocks H r blocks cached full (k * hbs) g bmask keep p = Inr p2"
  proof -
    have mg: "(case bmask of None \<Rightarrow> True | Some m \<Rightarrow> length m = length ?new) = True"
      using bm sizes(5) by (simp split: option.splits)
    have "\<not> cached \<ge> full" using sizes(4) by simp
    then show ?thesis
      unfolding cache_full_blocks_def Let_def mg sizes(1) v(1)
      by (simp add: v(2) p1(1) ev p2_def del: of_nat_mult)
  qed
  have "pool_tails p2" using p1(2) by (simp add: p2_def pool_rest_def)
  then have "pool_inv p2 xs"
    using p1(2,3) core_parts[OF c] by (simp add: pool_inv_rest pool_rest_def)
  moreover have "only_keys_of (newly_cached p blocks cached full bmask) p p2"
  proof (rule only_keys_core[OF c])
    have "snd ` set ?E = newly_cached p blocks cached full bmask"
    proof (intro equalityI subsetI)
      fix b assume "b \<in> snd ` set ?E"
      then obtain i where "(i, b) \<in> set ?E" by force
      then show "b \<in> newly_cached p blocks cached full bmask"
        unfolding E newly_cached_def by (intro CollectI exI[of _ "cached + i"]) auto
    next
      fix b assume "b \<in> newly_cached p blocks cached full bmask"
      then obtain i where "cached \<le> i" "(i - cached, b) \<in> set ?E" unfolding E newly_cached_def by auto
      then show "b \<in> snd ` set ?E" by force
    qed
    with p1(4) show "only_keys_of (newly_cached p blocks cached full bmask) p p1" by simp
  qed
  moreover have "\<exists>key. make_block_hash_with_group_id (block_hashes r ! ((i + 1) * k - 1)) g = Inr key \<and>
      key \<in> set (block_keys p2 (blocks ! i)) \<and>
      set (block_keys p2 (blocks ! i)) \<subseteq> insert key (set (block_keys p (blocks ! i)))"
    if "cached \<le> i" "i < full" "\<not> skip_block ?h bmask (i - cached) (blocks ! i)" for i
  proof -
    have "(i - cached, blocks ! i) \<in> set ?E" using that by (simp add: E)
    moreover have "hs ! (i - cached) = block_hashes r ! ((i + 1) * k - 1)"
      using v(3) v(4)[of "i - cached"] that sizes(6) by simp
    ultimately show ?thesis using p1(5) core_parts(4)[OF c] by fastforce
  qed
  ultimately show ?thesis using run by blast
qed

subsection \<open>Where the keys of a block come from\<close>

text \<open>
  \<open>org b\<close>: the (request, hash block) pairs whose chained hash some key of \<open>b\<close> packs.  Filling
  the cache only adds the pairs of the blocks it enters, and a lookup that hits returns a block
  with an origin that agrees with the asking request on every token of the prefix.
\<close>

definition has_origins ::
  "block_hasher \<Rightarrow> (bref \<Rightarrow> (request \<times> nat) set) \<Rightarrow> block_pool \<Rightarrow> bool" where
  "has_origins H org p \<longleftrightarrow> (\<forall>b \<in> usable p. \<forall>key \<in> set (block_keys p b).
     \<exists>(r, j) \<in> org b. \<exists>g. make_block_hash_with_group_id (ref_hash H r j) g = Inr key)"

lemma has_origins_mono:
  assumes "has_origins H org p" "usable p' = usable p"
    "\<And>b. b \<in> usable p \<Longrightarrow> set (block_keys p' b) \<subseteq> set (block_keys p b)"
  shows "has_origins H org p'"
  using assms unfolding has_origins_def by blast

definition add_origins ::
  "request \<Rightarrow> nat \<Rightarrow> nat \<Rightarrow> nat \<Rightarrow> bref list \<Rightarrow> (bref \<Rightarrow> (request \<times> nat) set) \<Rightarrow> bref \<Rightarrow>
   (request \<times> nat) set" where
  "add_origins r k cached full blocks org b =
     org b \<union> {(r, (i + 1) * k - 1) | i. cached \<le> i \<and> i < full \<and> blocks ! i = b}"

lemma block_hashes_ref:
  "hashes_consistent H r \<Longrightarrow> j < length (block_hashes r) \<Longrightarrow> block_hashes r ! j = ref_hash H r j"
  unfolding hashes_consistent_def by (metis add.left_neutral diff_zero length_upt nth_map nth_upt)

lemma has_origins_cached:
  assumes "has_origins H org p" "hashes_consistent H r" "0 < k" "full \<le> length (block_hashes r) div k"
    and "only_keys_of (newly_cached p blocks cached full bmask) p p'"
    and "\<forall>i. cached \<le> i \<longrightarrow> i < full \<longrightarrow> \<not> skip_block (pool_heap p) bmask (i - cached) (blocks ! i) \<longrightarrow>
       (\<exists>key. make_block_hash_with_group_id (block_hashes r ! ((i + 1) * k - 1)) g = Inr key \<and>
          key \<in> set (block_keys p' (blocks ! i)) \<and>
          set (block_keys p' (blocks ! i)) \<subseteq> insert key (set (block_keys p (blocks ! i))))"
  shows "has_origins H (add_origins r k cached full blocks org) p'"
  unfolding has_origins_def only_keysD(6)[OF assms(5)]
proof (intro ballI)
  fix b key assume b: "b \<in> usable p" and key: "key \<in> set (block_keys p' b)"
  show "\<exists>(r', j) \<in> add_origins r k cached full blocks org b.
      \<exists>g. make_block_hash_with_group_id (ref_hash H r' j) g = Inr key"
  proof (cases "key \<in> set (block_keys p b)")
    case True
    then show ?thesis using assms(1) b unfolding has_origins_def add_origins_def by blast
  next
    case False
    then have "b \<in> newly_cached p blocks cached full bmask" using only_keysD(5)[OF assms(5) b] key by metis
    then obtain i where i: "cached \<le> i" "i < full" "blocks ! i = b"
      "\<not> skip_block (pool_heap p) bmask (i - cached) (blocks ! i)"
      unfolding newly_cached_def by blast
    then have "make_block_hash_with_group_id (block_hashes r ! ((i + 1) * k - 1)) g = Inr key"
      using assms(6) key False by blast
    moreover have "(i + 1) * k - 1 < length (block_hashes r)"
    proof -
      have "(i + 1) * k \<le> full * k" using i(2) by (intro mult_le_mono1) simp
      also have "\<dots> \<le> length (block_hashes r)"
        using assms(3,4) by (simp add: less_eq_div_iff_mult_less_eq)
      finally show ?thesis using assms(3) by simp
    qed
    ultimately have "make_block_hash_with_group_id (ref_hash H r ((i + 1) * k - 1)) g = Inr key"
      using block_hashes_ref[OF assms(2)] by simp
    moreover have "(r, (i + 1) * k - 1) \<in> add_origins r k cached full blocks org b"
      using i by (auto simp: add_origins_def)
    ultimately show ?thesis by blast
  qed
qed

lemma lookup_origin:
  assumes "pool_inv p xs" "has_origins H org p" "hashes_consistent H r'" "j' < length (block_hashes r')"
    and "get_cached_block (cached_block_hash_to_block p) (block_hashes r' ! j') [g] = Inr (Some [b])"
  shows "\<exists>(r, j) \<in> org b. ref_hash H r j = ref_hash H r' j'"
proof -
  obtain key where key: "make_block_hash_with_group_id (block_hashes r' ! j') g = Inr key"
    using assms(5) by auto
  have "pool_index p" using assms(1) by (simp add: pool_inv_def)
  from get_cached_single(1)[OF this key assms(5)]
  have "b \<in> usable p" "key \<in> set (block_keys p b)" by simp_all
  then obtain r j g' where rj: "(r, j) \<in> org b" "make_block_hash_with_group_id (ref_hash H r j) g' = Inr key"
    using assms(2) unfolding has_origins_def by blast
  have "ref_hash H r j = block_hashes r' ! j'" using make_key_inject[OF rj(2) key] by simp
  then show ?thesis using rj(1) block_hashes_ref[OF assms(3,4)] by auto
qed


subsection \<open>\<open>move_block_hashes\<close>\<close>

lemma insert_loop_ok:
  assumes "pool_rest p" "pool_gap p xs out" "b \<in> usable p"
  shows "\<exists>p'. rfold (\<lambda>key p. rbind (insert_block_hash key b (Some n) p) (\<lambda>(p', _). Inr p')) keys p = Inr p' \<and>
    pool_rest p' \<and> pool_gap p' xs out \<and> only_keys_of {b} p p' \<and>
    set (block_keys p' b) = set keys \<union> set (block_keys p b)"
  using assms
proof (induction keys arbitrary: p)
  case (Cons key keys)
  obtain p1 where p1: "insert_block_hash key b (Some n) p = Inr (p1, key \<notin> set (block_keys p b))"
    "pool_rest p1" "pool_gap p1 xs out" "only_keys_of {b} p p1"
    "set (block_keys p1 b) = insert key (set (block_keys p b))"
    using insert_block_hash_ok[OF Cons.prems] by blast
  have "b \<in> usable p1" using only_keysD(6)[OF p1(4)] Cons.prems(3) by simp
  then obtain p2 where p2: "rfold (\<lambda>key p. rbind (insert_block_hash key b (Some n) p)
      (\<lambda>(p', _). Inr p')) keys p1 = Inr p2" "pool_rest p2" "pool_gap p2 xs out" "only_keys_of {b} p1 p2"
    "set (block_keys p2 b) = set keys \<union> set (block_keys p1 b)"
    using Cons.IH[OF p1(2,3)] by blast
  have "only_keys_of {b} p p2" by (rule only_keys_trans[OF p1(4) p2(4)]) simp_all
  then show ?case using p1(1,5) p2 by auto
qed simp

lemma remove_ok:
  assumes "pool_rest p" "pool_gap p xs out" "b \<in> usable p"
  shows "\<exists>p'. remove_cached_block_hashes b p = (block_keys p b, p') \<and> pool_rest p' \<and>
    pool_gap p' xs out \<and> only_keys_of {b} p p' \<and> block_keys p' b = []"
proof -
  have r: "pool_static p" "pool_index p" "pool_tails p" using assms(1) by (simp_all add: pool_rest_def)
  obtain m where m: "remove_cached_block_hashes b p = (block_keys p b, without_keys b m p)"
    "index_ok (pool_heap p) m" "\<forall>k. hm_at m k = hm_at (cached_block_hash_to_block p) k - {b}"
    using remove_effect[OF r(1,2) assms(3)] by blast
  show ?thesis
    using m(1) r without_keys_index[OF r(1,2) assms(3) m(2,3)] without_keys_gap[OF assms(2)]
      only_keys_without[OF r(1) assms(3)] without_keys_keys[OF r(1) assms(3,3)]
    by (simp add: pool_rest_def)
qed

lemma move_block_hashes_ok:
  assumes "pool_inv p xs" "src \<in> usable p" "dst \<in> usable p" "src \<noteq> dst" "block_keys p dst = []"
  shows "\<exists>p'. move_block_hashes src dst p = Inr p' \<and> pool_inv p' xs \<and> only_keys_of {src, dst} p p' \<and>
    block_keys p' src = [] \<and> set (block_keys p' dst) = set (block_keys p src)"
proof -
  have rest: "pool_rest p" "pool_gap p xs []" using assms(1) by (simp_all add: pool_inv_rest)
  have ok: "keys_ok p dst" "keys_ok p src"
    using rest(1) assms(2,3) pool_indexD(3) by (simp_all add: pool_rest_def)
  have d: "block_hash (pool_heap p dst) = None" using block_keys_Nil_iff[OF ok(1)] assms(5) by simp
  have e: "cached_block_hashes_by_block p (block_id (pool_heap p dst)) = None"
  proof (cases "cached_block_hashes_by_block p (block_id (pool_heap p dst))")
    case (Some l)
    then have "l \<noteq> []" using pool_indexD(4) rest(1) by (auto simp: pool_rest_def)
    with Some assms(5) show ?thesis by (simp add: block_keys_def extra_hashes_def opt_list_def)
  qed
  obtain p1 where p1: "remove_cached_block_hashes src p = (block_keys p src, p1)" "pool_rest p1"
    "pool_gap p1 xs []" "only_keys_of {src} p p1" "block_keys p1 src = []"
    using remove_ok[OF rest assms(2)] by blast
  have us: "dst \<in> usable p1" "src \<in> usable p1" using only_keysD(6)[OF p1(4)] assms(2,3) by simp_all
  have kd: "block_keys p1 dst = []" using only_keysD(5)[OF p1(4) assms(3)] assms(4,5) by simp
  let ?n = "block_hash_num_tokens (pool_heap p src)"
  have "\<exists>p2. rfold (\<lambda>key p. rbind (insert_block_hash key dst ?n p) (\<lambda>(p', _). Inr p')) (block_keys p src) p1
      = Inr p2 \<and> pool_rest p2 \<and> pool_gap p2 xs [] \<and> only_keys_of {dst} p1 p2 \<and>
      set (block_keys p2 dst) = set (block_keys p src)"
  proof (cases "block_keys p src = []")
    case True
    then show ?thesis using p1(2,3) kd by simp
  next
    case False
    then obtain n where "?n = Some n"
      using block_keys_Nil_iff[OF ok(2)] keys_okD(3)[OF ok(2)] by auto
    then show ?thesis using insert_loop_ok[OF p1(2,3) us(1), of n "block_keys p src"] kd by auto
  qed
  then obtain p2 where p2: "rfold (\<lambda>key p. rbind (insert_block_hash key dst ?n p) (\<lambda>(p', _). Inr p'))
      (block_keys p src) p1 = Inr p2" "pool_rest p2" "pool_gap p2 xs []" "only_keys_of {dst} p1 p2"
      "set (block_keys p2 dst) = set (block_keys p src)" by blast
  have "only_keys_of {src, dst} p p2" by (rule only_keys_trans[OF p1(4) p2(4)]) auto
  moreover have "block_keys p2 src = []" using only_keysD(5)[OF p2(4) us(2)] assms(4) p1(5) by simp
  moreover have "move_block_hashes src dst p = Inr p2"
    using d e p1(1) p2(1) by (simp add: move_block_hashes_def Let_def)
  ultimately show ?thesis using p2(2,3,5) by (auto simp: pool_inv_rest)
qed

lemma move_refused:
  "block_hash (pool_heap p dst) \<noteq> None \<Longrightarrow> move_block_hashes src dst p = Inl AssertionError"
  by (auto simp: move_block_hashes_def Let_def)


subsection \<open>\<open>cache_partial_block\<close>\<close>

lemma register_tail_parts:
  "pool_core (register_tail rt len t ins p) = pool_core p"
  "pool_tails p \<Longrightarrow> pool_tails (register_tail rt len t ins p)"
proof -
  show "pool_core (register_tail rt len t ins p) = pool_core p"
    by (simp add: register_tail_def Let_def)
  assume t: "pool_tails p"
  have ne: "AList.update len t ts \<noteq> []" for ts :: "(nat \<times> bytes) list" by (cases ts) auto
  show "pool_tails (register_tail rt len t ins p)"
  proof -
    note d = t[unfolded pool_tails_def]
    have "1 \<le> (case tail_entry_refs p t of None \<Rightarrow> 0 | Some k \<Rightarrow> k) + (1::int)"
    proof (cases "tail_entry_refs p t")
      case (Some k)
      then have "1 \<le> k" using d by blast
      with Some show ?thesis by simp
    qed simp
    moreover have "\<forall>r. ((tail_entries_by_root p)(rt \<mapsto> AList.update len t ts)) r \<noteq> Some []" for ts
      using d ne by auto
    ultimately show ?thesis
      using d unfolding register_tail_def Let_def pool_tails_def by (simp add: dom_fun_upd)
  qed
qed

lemma gen_extra_last_total:
  "\<exists>ks j. generate_block_hash_extra_keys H r s e (-1) = Inr (ks, j)"
proof -
  have "\<exists>mm j. gen_mm_extra_hash_keys r s e (-1) = Inr (mm, j)"
    by (cases "mm_features r") (auto simp: gen_mm_extra_hash_keys_def Let_def split: prod.split)
  then obtain mm j where "gen_mm_extra_hash_keys r s e (-1) = Inr (mm, j)" by blast
  then show ?thesis
    by (cases "gen_lora_extra_hash_keys r @ mm @ cache_salt_keys r s
            @ gen_prompt_embeds_extra_hash_keys H r s e = []")
      (simp_all add: generate_block_hash_extra_keys_def Let_def del: append_is_Nil_conv)
qed

lemma partial_event_total: "\<exists>ev. partial_event H r bh parent start n g p =
    Inr (p\<lparr>kv_event_queue := kv_event_queue p @ [ev]\<rparr>)"
proof (cases "start > 0")
  case True
  then show ?thesis
    using gen_extra_last_total[of H r start n] by (auto simp: partial_event_def Let_def)
next
  case False
  then show ?thesis
    using gen_extra_total[of 0 H r start n] by (auto simp: partial_event_def Let_def)
qed

lemma parent_total:
  assumes "0 < bp_hash_block_size p" "n div bp_hash_block_size p \<le> length (block_hashes r)"
  shows "\<exists>parent start. get_partial_block_parent_hash_and_start p r n = Inr (parent, start)"
proof -
  let ?h = "bp_hash_block_size p"
  have "py_nth (block_hashes r) (int (n div ?h) - 2) = Inr (block_hashes r ! (n div ?h - 2))"
    if "1 < n div ?h"
    using py_nth_of_nat[of "block_hashes r" "n div ?h - 2"] that assms(2) by (simp add: of_nat_diff)
  moreover have "py_nth (block_hashes r) (int (n div ?h) - 1) = Inr (block_hashes r ! (n div ?h - 1))"
    if "0 < n div ?h"
    using py_nth_of_nat[of "block_hashes r" "n div ?h - 1"] that assms(2) by (simp add: of_nat_diff)
  ultimately show ?thesis
    using assms(1) by (auto simp: get_partial_block_parent_hash_and_start_def Let_def)
qed

lemma hash_prefix_keeps_hashes:
  assumes "hash_prefix Ho n r = Inr (res, r1)"
  shows "block_hashes r1 = block_hashes r"
  using assms by (auto simp: hash_prefix_def split: option.splits)

lemma hash_prefix_total: "\<exists>res r1. hash_prefix Ho n r = Inr (res, r1)"
proof (cases Ho)
  case (Some H)
  obtain res where "hasher_hash_prefix H r n = Inr res" using hasher_hash_prefix_total by blast
  then show ?thesis using Some by (auto simp: hash_prefix_def split: option.split)
qed (simp add: hash_prefix_def)

lemma pool_inv_core:
  assumes "pool_core p' = pool_core p" "pool_tails p'" "pool_inv p xs"
  shows "pool_inv p' xs"
  using core_parts[OF assms(1)] assms(2,3) by (simp add: pool_inv_rest pool_rest_def)

text \<open>What the last part of the method does once the key is in: it only writes the tail index
  and the event queue.\<close>

lemma partial_finish:
  assumes "0 < bp_hash_block_size p2" "n div bp_hash_block_size p2 \<le> length (block_hashes r)"
    and "pool_tails p2"
  shows "\<exists>p'. (if \<not> is_tail \<and> \<not> emit then Inr (p2, r, Some key)
      else rbind (get_partial_block_parent_hash_and_start p2 r n) (\<lambda>(parent, start).
        let p3 = (if is_tail then register_tail parent (n - start) bh ins p2 else p2)
        in if emit then rbind (partial_event H r bh parent start n g p3) (\<lambda>p4. Inr (p4, r, Some key))
           else Inr (p3, r, Some key))) = Inr (p', r, Some key) \<and>
    pool_core p' = pool_core p2 \<and> pool_tails p'"
proof -
  obtain parent start where ps: "get_partial_block_parent_hash_and_start p2 r n = Inr (parent, start)"
    using parent_total[OF assms(1,2)] by blast
  define p3 where "p3 = (if is_tail then register_tail parent (n - start) bh ins p2 else p2)"
  have p3: "pool_core p3 = pool_core p2" "pool_tails p3"
    using register_tail_parts[where p = p2] assms(3) by (simp_all add: p3_def)
  obtain ev where ev: "partial_event H r bh parent start n g p3 =
      Inr (p3\<lparr>kv_event_queue := kv_event_queue p3 @ [ev]\<rparr>)"
    using partial_event_total by blast
  show ?thesis
  proof (cases "\<not> is_tail \<and> \<not> emit")
    case True
    then show ?thesis using assms(3) by simp
  next
    case False
    let ?p = "if emit then p3\<lparr>kv_event_queue := kv_event_queue p3 @ [ev]\<rparr> else p3"
    show ?thesis
      using False ev p3 by (intro exI[of _ ?p]) (auto simp: ps Let_def p3_def[symmetric])
  qed
qed

lemma cache_partial_block_ok:
  assumes "pool_inv p xs" "b \<in> usable p" "bp_hash_block_size p = hbs" "0 < hbs" "hbs < bs"
    and "bs mod hbs = 0" "n mod bs \<noteq> 0" "n div hbs \<le> length (block_hashes r)" "0 \<le> g" "g < 2 ^ 32"
  shows "\<exists>p' r' res. cache_partial_block H Ho r b n g bs p = Inr (p', r', res) \<and> pool_inv p' xs \<and>
    only_keys_of {b} p p' \<and> block_hashes r' = block_hashes r \<and>
    (case res of
       None \<Rightarrow> p' = p \<and> n mod hbs \<noteq> 0 \<and> (\<exists>r1. hash_prefix Ho (int n) r = Inr (None, r1))
     | Some key \<Rightarrow> key \<in> set (block_keys p' b) \<and>
         set (block_keys p' b) \<subseteq> insert key (set (block_keys p b)) \<and>
         (\<exists>bh r1. partial_hash Ho p r n = Inr (Some bh, r1) \<and>
            make_block_hash_with_group_id bh g = Inr key))"
proof -
  have rest: "pool_rest p" "pool_gap p xs []" using assms(1) by (simp_all add: pool_inv_rest)
  have nn: "\<not> is_null (pool_heap p b)"
    using usable_static(2) rest(1) assms(2) by (simp add: pool_rest_def)
  obtain obh r1 where ph: "partial_hash Ho p r n = Inr (obh, r1)" "block_hashes r1 = block_hashes r"
    "obh = None \<Longrightarrow> n mod hbs \<noteq> 0 \<and> hash_prefix Ho (int n) r = Inr (None, r1)"
  proof (cases "n mod hbs = 0")
    case False
    obtain res r1 where "hash_prefix Ho (int n) r = Inr (res, r1)" using hash_prefix_total by blast
    then show thesis
      using False hash_prefix_keeps_hashes that assms(3) by (auto simp: partial_hash_def)
  next
    case True
    have "0 < n" using assms(7) by (cases n) auto
    then have "0 < n div hbs" using True by (metis div_eq_0_iff div_mult_mod_eq add.right_neutral
          gr0I mult_0)
    then have "py_nth (block_hashes r) (int (n div hbs) - 1) = Inr (block_hashes r ! (n div hbs - 1))"
      using py_nth_of_nat[of "block_hashes r" "n div hbs - 1"] assms(8) by (simp add: of_nat_diff)
    then have "partial_hash Ho p r n = Inr (Some (block_hashes r ! (n div hbs - 1)), r)"
      using True \<open>0 < n div hbs\<close> assms(3,8)
      by (simp add: partial_hash_def get_partial_block_hash_def Let_def)
    then show thesis by (intro that) auto
  qed
  show ?thesis
  proof (cases obh)
    case None
    then have "cache_partial_block H Ho r b n g bs p = Inr (p, r1, None)"
      using nn ph(1) assms(3-7) by (simp add: cache_partial_block_def Let_def)
    then show ?thesis using None ph assms(1) by auto
  next
    case (Some bh)
    obtain key where key: "make_block_hash_with_group_id bh g = Inr key"
      using make_key_total[OF assms(9,10)] by blast
    let ?k = "pool_heap p b"
    let ?already = "block_hash ?k = Some key \<or>
        hm_contain (pool_heap p) (cached_block_hash_to_block p) key (block_id ?k)"
    let ?promote = "\<not> ?already \<and> block_hash ?k \<noteq> None \<and>
        (case block_hash_num_tokens ?k of None \<Rightarrow> False | Some m \<Rightarrow> m < int n)"
    obtain p1 where p1: "(if ?promote then forget_block b p else Inr p) = Inr p1" "pool_rest p1"
      "pool_gap p1 xs []" "only_keys_of {b} p p1" "set (block_keys p1 b) \<subseteq> set (block_keys p b)"
    proof (cases ?promote)
      case True
      then show thesis using forget_block_ok[OF rest assms(2)] that by auto
    next
      case False
      then show thesis using rest by (intro that[of p]) (simp_all only: if_False only_keys_refl subset_refl)
    qed
    have us: "b \<in> usable p1" using only_keysD(6)[OF p1(4)] assms(2) by simp
    obtain p2 where p2: "insert_block_hash key b (Some (int n)) p1 = Inr (p2, key \<notin> set (block_keys p1 b))"
      "pool_rest p2" "pool_gap p2 xs []" "only_keys_of {b} p1 p2"
      "set (block_keys p2 b) = insert key (set (block_keys p1 b))"
      using insert_block_hash_ok[OF p1(2,3) us] by blast
    have only: "only_keys_of {b} p p2" by (rule only_keys_trans[OF p1(4) p2(4)]) simp_all
    have h2: "bp_hash_block_size p2 = hbs"
      using only_keysD(1)[OF only] assms(3) by (simp add: same_config_def)
    let ?emit = "enable_kv_cache_events p2 \<and> \<not> ?already"
    obtain p' where p': "(if \<not> (n mod hbs \<noteq> 0) \<and> \<not> ?emit then Inr (p2, r1, Some key)
      else rbind (get_partial_block_parent_hash_and_start p2 r1 n) (\<lambda>(parent, start).
        let p3 = (if n mod hbs \<noteq> 0 then register_tail parent (n - start) bh (key \<notin> set (block_keys p1 b)) p2
                  else p2)
        in if ?emit then rbind (partial_event H r1 bh parent start n g p3) (\<lambda>p4. Inr (p4, r1, Some key))
           else Inr (p3, r1, Some key))) = Inr (p', r1, Some key)"
      "pool_core p' = pool_core p2" "pool_tails p'"
      using partial_finish[of p2 n r1 "n mod hbs \<noteq> 0" ?emit key bh "key \<notin> set (block_keys p1 b)" H g]
        h2 ph(2) assms(4,8) p2(2) by (auto simp: pool_rest_def)
    have fin: "(if n mod hbs = 0 \<and> \<not> ?emit then Inr (p2, r1, Some key)
      else rbind (get_partial_block_parent_hash_and_start p2 r1 n) (\<lambda>(parent, start).
        if ?emit then rbind (partial_event H r1 bh parent start n g
              (if n mod hbs \<noteq> 0 then register_tail parent (n - start) bh (key \<notin> set (block_keys p1 b)) p2
               else p2)) (\<lambda>p4. Inr (p4, r1, Some key))
           else Inr (if n mod hbs \<noteq> 0 then register_tail parent (n - start) bh
                (key \<notin> set (block_keys p1 b)) p2 else p2, r1, Some key))) = Inr (p', r1, Some key)"
      using p'(1) unfolding Let_def not_not .
    have "cache_partial_block H Ho r b n g bs p = Inr (p', r1, Some key)"
      unfolding cache_partial_block_def Let_def
      by (simp only: nn if_False assms(3,5,6,7) guard_simps(1) rbind_simps ph(1) prod.case Some
          option.case key p1(1) p2(1) fin not_False_eq_True simp_thms)
    moreover have "pool_inv p' xs"
      by (rule pool_inv_core[OF p'(2,3)]) (use p2(2,3) in \<open>simp add: pool_inv_rest\<close>)
    moreover have "only_keys_of {b} p p'" by (rule only_keys_core[OF p'(2) only])
    moreover have "block_keys p' b = block_keys p2 b" by (rule core_parts(4)[OF p'(2)])
    ultimately show ?thesis using p2(5) p1(5) ph(1,2) key Some by auto
  qed
qed

subsection \<open>\<open>find_tail_entry\<close>\<close>

lemma delete_tail_ok: "pool_tails p \<Longrightarrow> pool_tails (delete_tail rt len p)"
  using delete_tail_parts[where rt = rt and len = len and p = p] by (simp add: pool_tails_def)

lemma forget_tail_parts:
  "pool_core (forget_tail rt len t p) = pool_core p"
  "pool_tails p \<Longrightarrow> pool_tails (forget_tail rt len t p)"
proof -
  show "pool_core (forget_tail rt len t p) = pool_core p"
    by (simp add: forget_tail_def Let_def delete_tail_parts)
  assume "pool_tails p"
  from delete_tail_ok[OF this, of rt len] show "pool_tails (forget_tail rt len t p)"
    by (simp add: forget_tail_def Let_def pool_tails_def dom_fun_upd)
qed

lemma get_cached_block_total:
  assumes "index_ok h m" "\<forall>g \<in> set gs. 0 \<le> g \<and> g < 2 ^ 32"
  shows "\<exists>res. get_cached_block m bh gs = Inr res"
  using assms(2)
proof (induction gs)
  case (Cons g gs)
  obtain key where k: "make_block_hash_with_group_id bh g = Inr key"
    using make_key_total[of g bh] Cons.prems by auto
  obtain ob where "hm_get_one_block m key = Inr ob" using hidx.get_total[OF assms(1)] by blast
  moreover obtain res where "get_cached_block m bh gs = Inr res" using Cons by auto
  ultimately show ?case using k by (cases ob) simp_all
qed simp

lemma any_group_total:
  assumes "index_ok h m" "\<forall>g \<in> set gs. 0 \<le> g \<and> g < 2 ^ 32"
  shows "\<exists>b. any_group_cached m t gs = Inr b"
  using assms(2)
proof (induction gs)
  case (Cons g gs)
  obtain key where k: "make_block_hash_with_group_id t g = Inr key"
    using make_key_total[of g t] Cons.prems by auto
  obtain ob where "hm_get_one_block m key = Inr ob" using hidx.get_total[OF assms(1)] by blast
  then show ?case using k Cons by (cases ob) auto
qed auto

text \<open>A tail entry matches when it is short enough, its hash is the caller's, and every group
  has its block.\<close>

definition tail_hit ::
  "hash_map \<Rightarrow> int \<Rightarrow> (nat \<Rightarrow> bytes option) \<Rightarrow> int list \<Rightarrow> nat \<times> bytes \<Rightarrow> bool" where
  "tail_hit m max_len hash_tail gs e \<longleftrightarrow> int (fst e) \<le> max_len \<and> hash_tail (fst e) = Some (snd e) \<and>
     (\<exists>bs. get_cached_block m (snd e) gs = Inr (Some bs))"

lemma find_tail_loop_ok:
  assumes "pool_inv p xs" "\<forall>g \<in> set gs. 0 \<le> g \<and> g < 2 ^ 32"
  shows "\<exists>res p'. find_tail_loop rt max_len hash_tail gs tails p = Inr (res, p') \<and>
    pool_inv p' xs \<and> pool_core p' = pool_core p \<and>
    (case res of
       None \<Rightarrow> \<forall>e \<in> set tails. \<not> tail_hit (cached_block_hash_to_block p) max_len hash_tail gs e
     | Some (bs, len) \<Rightarrow> \<exists>ys t zs. tails = ys @ (len, t) # zs \<and>
         (\<forall>e \<in> set ys. \<not> tail_hit (cached_block_hash_to_block p) max_len hash_tail gs e) \<and>
         tail_hit (cached_block_hash_to_block p) max_len hash_tail gs (len, t) \<and>
         get_cached_block (cached_block_hash_to_block p) t gs = Inr (Some bs))"
  using assms(1)
proof (induction tails arbitrary: p)
  case (Cons e tails)
  obtain len t where e: "e = (len, t)" by (metis surj_pair)
  let ?m = "cached_block_hash_to_block p"
  have ix: "index_ok (pool_heap p) ?m"
    using pool_indexD(1) Cons.prems by (simp add: pool_inv_def)
  obtain res where res: "get_cached_block ?m t gs = Inr res"
    using get_cached_block_total[OF ix assms(2)] by blast
  obtain any where any: "any_group_cached ?m t gs = Inr any"
    using any_group_total[OF ix assms(2)] by blast
  show ?case
  proof (cases "tail_hit ?m max_len hash_tail gs e")
    case True
    then obtain bs where "get_cached_block ?m t gs = Inr (Some bs)" by (auto simp: tail_hit_def e)
    then show ?thesis using True Cons.prems by (force simp: e tail_hit_def)
  next
    case False
    define p1 where "p1 = (if int len > max_len \<or> hash_tail len \<noteq> Some t \<or> any then p
        else forget_tail rt len t p)"
    have p1: "pool_core p1 = pool_core p" "pool_inv p1 xs"
      using forget_tail_parts[where p = p] pool_inv_core[OF _ _ Cons.prems, of p1] Cons.prems
      by (auto simp: p1_def pool_inv_def)
    have step: "find_tail_loop rt max_len hash_tail gs (e # tails) p =
        find_tail_loop rt max_len hash_tail gs tails p1"
      using False res any by (auto simp: e p1_def tail_hit_def)
    have m: "cached_block_hash_to_block p1 = ?m" by (rule core_fields(8)[OF p1(1)])
    obtain res' p' where r: "find_tail_loop rt max_len hash_tail gs tails p1 = Inr (res', p')"
      "pool_inv p' xs" "pool_core p' = pool_core p1"
      "case res' of
         None \<Rightarrow> \<forall>e \<in> set tails. \<not> tail_hit ?m max_len hash_tail gs e
       | Some (bs, len) \<Rightarrow> \<exists>ys t zs. tails = ys @ (len, t) # zs \<and>
           (\<forall>e \<in> set ys. \<not> tail_hit ?m max_len hash_tail gs e) \<and>
           tail_hit ?m max_len hash_tail gs (len, t) \<and> get_cached_block ?m t gs = Inr (Some bs)"
      using Cons.IH[OF p1(2)] unfolding m by blast
    have "case res' of
         None \<Rightarrow> \<forall>e \<in> set (e # tails). \<not> tail_hit ?m max_len hash_tail gs e
       | Some (bs, len) \<Rightarrow> \<exists>ys t zs. e # tails = ys @ (len, t) # zs \<and>
           (\<forall>e \<in> set ys. \<not> tail_hit ?m max_len hash_tail gs e) \<and>
           tail_hit ?m max_len hash_tail gs (len, t) \<and> get_cached_block ?m t gs = Inr (Some bs)"
    proof (cases res')
      case (Some x)
      obtain bs l where x: "x = (bs, l)" by (metis surj_pair)
      then obtain ys t' zs where "tails = ys @ (l, t') # zs"
        "\<forall>e \<in> set ys. \<not> tail_hit ?m max_len hash_tail gs e"
        "tail_hit ?m max_len hash_tail gs (l, t')" "get_cached_block ?m t' gs = Inr (Some bs)"
        using r(4) Some by auto
      then have "e # tails = (e # ys) @ (l, t') # zs \<and>
          (\<forall>e \<in> set (e # ys). \<not> tail_hit ?m max_len hash_tail gs e) \<and>
          tail_hit ?m max_len hash_tail gs (l, t') \<and> get_cached_block ?m t' gs = Inr (Some bs)"
        using False by simp
      then show ?thesis unfolding Some x option.case prod.case by blast
    qed (use r(4) False in simp)
    then show ?thesis using step r(1-3) p1(1) by auto
  qed
qed simp

text \<open>The result is the longest matching entry of the index.\<close>

lemma find_tail_entry_ok:
  assumes "pool_inv p xs" "\<forall>g \<in> set gs. 0 \<le> g \<and> g < 2 ^ 32"
  shows "\<exists>res p'. find_tail_entry rt max_len hash_tail gs p = Inr (res, p') \<and>
    pool_inv p' xs \<and> pool_core p' = pool_core p \<and>
    (let hits = {e \<in> set (opt_list (tail_entries_by_root p rt)).
                   tail_hit (cached_block_hash_to_block p) max_len hash_tail gs e} in
     case res of
       None \<Rightarrow> hits = {}
     | Some (bs, len) \<Rightarrow> (\<exists>t. (len, t) \<in> hits \<and>
         get_cached_block (cached_block_hash_to_block p) t gs = Inr (Some bs)) \<and>
         (\<forall>e \<in> hits. fst e \<le> len))"
proof (cases "tail_entries_by_root p rt")
  case None
  then show ?thesis using assms(1) by (auto simp: find_tail_entry_def opt_list_def Let_def)
next
  case (Some tails)
  let ?m = "cached_block_hash_to_block p" and ?l = "rev (sort_key fst tails)"
  obtain res p' where r: "find_tail_loop rt max_len hash_tail gs ?l p = Inr (res, p')"
    "pool_inv p' xs" "pool_core p' = pool_core p"
    "case res of
       None \<Rightarrow> \<forall>e \<in> set ?l. \<not> tail_hit ?m max_len hash_tail gs e
     | Some (bs, len) \<Rightarrow> \<exists>ys t zs. ?l = ys @ (len, t) # zs \<and>
         (\<forall>e \<in> set ys. \<not> tail_hit ?m max_len hash_tail gs e) \<and>
         tail_hit ?m max_len hash_tail gs (len, t) \<and> get_cached_block ?m t gs = Inr (Some bs)"
    using find_tail_loop_ok[OF assms] by blast
  have "find_tail_entry rt max_len hash_tail gs p = Inr (res, p')"
    using r(1) Some by (cases tails) (simp_all add: find_tail_entry_def)
  moreover have "let hits = {e \<in> set (opt_list (Some tails)). tail_hit ?m max_len hash_tail gs e} in
     case res of None \<Rightarrow> hits = {}
     | Some (bs, len) \<Rightarrow> (\<exists>t. (len, t) \<in> hits \<and> get_cached_block ?m t gs = Inr (Some bs)) \<and>
         (\<forall>e \<in> hits. fst e \<le> len)"
  proof (cases res)
    case None
    with r(4) show ?thesis by (auto simp: opt_list_def Let_def)
  next
    case (Some x)
    obtain bs len where x: "x = (bs, len)" by (metis surj_pair)
    then obtain ys t zs where l: "?l = ys @ (len, t) # zs"
      "\<forall>e \<in> set ys. \<not> tail_hit ?m max_len hash_tail gs e"
      "tail_hit ?m max_len hash_tail gs (len, t)" "get_cached_block ?m t gs = Inr (Some bs)"
      using r(4) Some by auto
    have st: "set tails = set ys \<union> insert (len, t) (set zs)"
      using arg_cong[OF l(1), of set] by simp
    have "sorted (map fst (rev ?l))" by simp
    then have "\<forall>e \<in> set zs. fst e \<le> len"
      unfolding l(1) by (auto simp: sorted_append)
    then have "\<forall>e \<in> {e \<in> set tails. tail_hit ?m max_len hash_tail gs e}. fst e \<le> len"
      using l(2) st by auto
    moreover have "(len, t) \<in> {e \<in> set tails. tail_hit ?m max_len hash_tail gs e}"
      using l(3) st by simp
    ultimately show ?thesis using l(4) by (auto simp: opt_list_def Let_def Some x)
  qed
  ultimately show ?thesis using r(2,3) Some by auto
qed

end
