(* ===== verification/Pool_System.thy ===== *)
theory Pool_System
  imports Pool_Caching
begin

text \<open>
  The block pool as a transition system: every call a scheduler makes on it (\<open>get_new_blocks\<close>,
  \<open>touch\<close>, \<open>free_blocks\<close>, \<open>evict_blocks\<close>, \<open>reset_prefix_cache\<close>, \<open>cache_full_blocks\<close>,
  \<open>cache_partial_block\<close>, \<open>move_block_hashes\<close>, \<open>find_tail_entry\<close>, \<open>take_events\<close>) is a step, under
  the conditions its caller keeps.  The invariant holds in every reachable state, by rule
  induction; the second relation carries the requests each block was cached for, and gives
  the soundness of a cache hit in every reachable state.
\<close>

subsection \<open>What the callers keep\<close>

definition pool_blocks_only :: "block_pool \<Rightarrow> bref list \<Rightarrow> bool" where
  "pool_blocks_only p bs \<longleftrightarrow> set bs \<subseteq> insert (Blk 0) (usable p)"

definition held :: "block_pool \<Rightarrow> bref list \<Rightarrow> bool" where
  "held p bs \<longleftrightarrow> pool_blocks_only p bs \<and> distinct (filter (\<lambda>b. b \<noteq> Blk 0) bs) \<and>
     (\<forall>b \<in> set bs. b \<noteq> Blk 0 \<longrightarrow> 1 \<le> ref_cnt (pool_heap p b))"

definition cacheable ::
  "block_pool \<Rightarrow> request \<Rightarrow> bref list \<Rightarrow> nat \<Rightarrow> nat \<Rightarrow> nat \<Rightarrow> int \<Rightarrow> bool list option \<Rightarrow> bool" where
  "cacheable p r blocks cached full k g bmask \<longleftrightarrow>
     0 < bp_hash_block_size p \<and> 0 < k \<and> cached < full \<and> full \<le> length blocks \<and>
     full \<le> length (block_hashes r) div k \<and> 0 \<le> g \<and> g < 2 ^ 32 \<and>
     (case bmask of None \<Rightarrow> True | Some m \<Rightarrow> length m = full - cached) \<and>
     (\<forall>i \<in> {cached..<full}. \<not> skip_block (pool_heap p) bmask (i - cached) (blocks ! i) \<longrightarrow>
        blocks ! i \<in> usable p \<and>
        promotable p (blocks ! i) (int ((i + 1) * (k * bp_hash_block_size p))) \<and>
        (\<forall>j \<in> {cached..<full}. blocks ! i = blocks ! j \<longrightarrow> i = j))"

definition partially_cacheable :: "block_pool \<Rightarrow> request \<Rightarrow> bref \<Rightarrow> nat \<Rightarrow> int \<Rightarrow> nat \<Rightarrow> bool" where
  "partially_cacheable p r b n g bs \<longleftrightarrow>
     b \<in> usable p \<and> 0 < bp_hash_block_size p \<and> bp_hash_block_size p < bs \<and>
     bs mod bp_hash_block_size p = 0 \<and> n mod bs \<noteq> 0 \<and>
     n div bp_hash_block_size p \<le> length (block_hashes r) \<and> 0 \<le> g \<and> g < 2 ^ 32"

definition movable :: "block_pool \<Rightarrow> bref \<Rightarrow> bref \<Rightarrow> bool" where
  "movable p src dst \<longleftrightarrow> src \<in> usable p \<and> dst \<in> usable p \<and> src \<noteq> dst \<and> block_keys p dst = []"


subsection \<open>The steps\<close>

inductive pool_step :: "block_pool \<Rightarrow> block_pool \<Rightarrow> bool" where
  step_new: "get_new_blocks n p = Inr (p', bs) \<Longrightarrow> pool_step p p'"
| step_touch: "pool_blocks_only p bs \<Longrightarrow> touch bs p = Inr p' \<Longrightarrow> pool_step p p'"
| step_free: "held p bs \<Longrightarrow> free_blocks bs p = Inr p' \<Longrightarrow> pool_step p p'"
| step_evict: "\<forall>i \<in> set ids. 0 \<le> i \<and> i < num_gpu_blocks p \<Longrightarrow> evict_blocks ids p = Inr p' \<Longrightarrow> pool_step p p'"
| step_reset: "reset_prefix_cache p = (ok, p') \<Longrightarrow> pool_step p p'"
| step_cache: "cacheable p r blocks cached full k g bmask \<Longrightarrow>
    cache_full_blocks H r blocks cached full (k * bp_hash_block_size p) g bmask keep p = Inr p' \<Longrightarrow>
    pool_step p p'"
| step_partial: "partially_cacheable p r b n g bs \<Longrightarrow>
    cache_partial_block H Ho r b n g bs p = Inr (p', r', res) \<Longrightarrow> pool_step p p'"
| step_move: "movable p src dst \<Longrightarrow> move_block_hashes src dst p = Inr p' \<Longrightarrow> pool_step p p'"
| step_tail: "\<forall>g \<in> set gs. 0 \<le> g \<and> g < 2 ^ 32 \<Longrightarrow>
    find_tail_entry rt n hash_tail gs p = Inr (hit, p') \<Longrightarrow> pool_step p p'"
| step_events: "take_events p = (es, p') \<Longrightarrow> pool_step p p'"

inductive pool_reach :: "block_pool \<Rightarrow> block_pool \<Rightarrow> bool" for p0 :: block_pool where
  reach_start: "pool_reach p0 p0"
| reach_step: "pool_reach p0 p \<Longrightarrow> pool_step p p' \<Longrightarrow> pool_reach p0 p'"

text \<open>Each operation, as a preservation fact about the state it returns.\<close>

lemma get_new_preserves:
  assumes "pool_inv p xs" "get_new_blocks n p = Inr (p', bs)"
  shows "0 \<le> n \<and> n \<le> int (length xs) \<and> bs = take (nat n) xs \<and> pool_inv p' (drop (nat n) xs) \<and>
    same_config p p'"
proof -
  have n: "0 \<le> n" "n \<le> int (length xs)"
    using get_new_blocks_errors[OF assms(1), of n] assms(2) by (auto simp: not_less[symmetric])
  then have "nat n \<le> length xs" "int (nat n) = n" by auto
  then show ?thesis using get_new_blocks_ok[OF assms(1), of "nat n"] assms(2) n by auto
qed

lemma touch_preserves:
  assumes "pool_inv p xs" "pool_blocks_only p bs" "touch bs p = Inr p'"
  shows "\<exists>ys. pool_inv p' ys \<and> same_config p p'"
  using touch_ok[OF assms(1), of bs] assms(2,3) by (auto simp: pool_blocks_only_def)

lemma free_preserves:
  assumes "pool_inv p xs" "held p bs" "free_blocks bs p = Inr p'"
  shows "\<exists>ys. pool_inv p' ys \<and> same_config p p'"
  using free_blocks_ok[OF assms(1), of bs] assms(2,3) by (auto simp: held_def pool_blocks_only_def)

lemma evict_preserves:
  assumes "pool_inv p xs" "\<forall>i \<in> set ids. 0 \<le> i \<and> i < num_gpu_blocks p" "evict_blocks ids p = Inr p'"
  shows "pool_inv p' xs \<and> same_config p p'"
  using evict_blocks_ok[OF assms(1,2)] assms(3) by auto

lemma reset_preserves:
  assumes "pool_inv p xs" "reset_prefix_cache p = (ok, p')"
  shows "pool_inv p' xs \<and> same_config p p'"
  using reset_ok[OF assms(1)] reset_refused[OF assms(1)] assms
  by (cases "int (length xs) = num_gpu_blocks p - 1") auto

lemma cacheable_ok:
  assumes "pool_inv p xs" "cacheable p r blocks cached full k g bmask"
  shows "\<exists>p'. cache_full_blocks H r blocks cached full (k * bp_hash_block_size p) g bmask keep p = Inr p' \<and>
    pool_inv p' xs \<and> only_keys_of (newly_cached p blocks cached full bmask) p p' \<and>
    (\<forall>i. cached \<le> i \<longrightarrow> i < full \<longrightarrow> \<not> skip_block (pool_heap p) bmask (i - cached) (blocks ! i) \<longrightarrow>
       (\<exists>key. make_block_hash_with_group_id (block_hashes r ! ((i + 1) * k - 1)) g = Inr key \<and>
          key \<in> set (block_keys p' (blocks ! i)) \<and>
          set (block_keys p' (blocks ! i)) \<subseteq> insert key (set (block_keys p (blocks ! i)))))"
proof (rule cache_full_blocks_ok[OF assms(1) refl])
  note c = assms(2)[unfolded cacheable_def]
  show "0 < bp_hash_block_size p" "0 < k" "cached < full" "full \<le> length blocks"
    "full \<le> length (block_hashes r) div k" "0 \<le> g" "g < 2 ^ 32"
    "case bmask of None \<Rightarrow> True | Some m \<Rightarrow> length m = full - cached"
    using c by auto
  fix i assume i: "cached \<le> i" "i < full" "\<not> skip_block (pool_heap p) bmask (i - cached) (blocks ! i)"
  show "blocks ! i \<in> usable p \<and> promotable p (blocks ! i) (int ((i + 1) * (k * bp_hash_block_size p)))"
    using c i by (meson atLeastLessThan_iff)
  fix j assume "cached \<le> j" "j < full" "blocks ! i = blocks ! j"
  then show "i = j" using c i by (meson atLeastLessThan_iff)
qed

lemma partial_ok:
  assumes "pool_inv p xs" "partially_cacheable p r b n g bs"
    "cache_partial_block H Ho r b n g bs p = Inr (p', r', res)"
  shows "pool_inv p' xs \<and> only_keys_of {b} p p'"
proof -
  have "b \<in> usable p" "0 < bp_hash_block_size p" "bp_hash_block_size p < bs"
    "bs mod bp_hash_block_size p = 0" "n mod bs \<noteq> 0"
    "n div bp_hash_block_size p \<le> length (block_hashes r)" "0 \<le> g" "g < 2 ^ 32"
    using assms(2) by (auto simp: partially_cacheable_def)
  from cache_partial_block_ok[OF assms(1) this(1) refl this(2-), of H Ho] assms(3)
  show ?thesis by auto
qed

lemma move_preserves:
  assumes "pool_inv p xs" "movable p src dst" "move_block_hashes src dst p = Inr p'"
  shows "pool_inv p' xs \<and> only_keys_of {src, dst} p p' \<and> block_keys p' src = [] \<and>
    set (block_keys p' dst) = set (block_keys p src)"
  using move_block_hashes_ok[OF assms(1), of src dst] assms(2,3) by (auto simp: movable_def)

lemma tail_preserves:
  assumes "pool_inv p xs" "\<forall>g \<in> set gs. 0 \<le> g \<and> g < 2 ^ 32"
    "find_tail_entry rt n hash_tail gs p = Inr (hit, p')"
  shows "pool_inv p' xs \<and> pool_core p' = pool_core p"
  using find_tail_entry_ok[OF assms(1,2), of rt n hash_tail] assms(3) by auto

lemma take_events_core: "take_events p = (es, p') \<Longrightarrow> pool_core p' = pool_core p \<and> pool_tails p' = pool_tails p"
  by (auto simp: take_events_def split: if_splits)

lemma core_same_config: "pool_core p' = pool_core p \<Longrightarrow> same_config p p'"
  using core_fields[of p' p] by (simp add: same_config_def)

lemma step_preserves:
  assumes "pool_step p p'" "pool_inv p xs"
  shows "\<exists>ys. pool_inv p' ys \<and> same_config p p'"
  using assms(1)
proof cases
  case step_new then show ?thesis using get_new_preserves[OF assms(2)] by blast
next
  case step_touch then show ?thesis using touch_preserves[OF assms(2)] by blast
next
  case step_free then show ?thesis using free_preserves[OF assms(2)] by blast
next
  case step_evict then show ?thesis using evict_preserves[OF assms(2)] by blast
next
  case step_reset then show ?thesis using reset_preserves[OF assms(2)] by blast
next
  case (step_cache r blocks cached full k g bmask H keep)
  then show ?thesis using cacheable_ok[OF assms(2) step_cache(1), of H keep] by (auto simp: only_keys_of_def)
next
  case step_partial
  then show ?thesis using partial_ok[OF assms(2)] by (fastforce simp: only_keys_of_def)
next
  case step_move then show ?thesis using move_preserves[OF assms(2)] by (fastforce simp: only_keys_of_def)
next
  case step_tail then show ?thesis using tail_preserves[OF assms(2)] core_same_config by blast
next
  case step_events
  then show ?thesis using take_events_core assms(2) core_same_config pool_inv_core
    by (metis pool_inv_def)
qed

lemma reach_preserves:
  "pool_reach p0 p \<Longrightarrow> pool_inv p0 xs \<Longrightarrow> \<exists>ys. pool_inv p ys \<and> same_config p0 p"
proof (induction rule: pool_reach.induct)
  case (reach_step p p')
  then show ?case using step_preserves same_config_trans by meson
qed (use same_config_refl in blast)


subsection \<open>What a cached block holds\<close>

text \<open>
  A run of the pool with the (request, hash block) pairs behind each block's keys.  Prompt tails
  are left out here: their hash is not the hash of a whole hash block.
\<close>

inductive traced ::
  "block_hasher \<Rightarrow> block_pool \<Rightarrow> block_pool \<Rightarrow> (bref \<Rightarrow> (request \<times> nat) set) \<Rightarrow> bool"
  for H :: block_hasher and p0 :: block_pool where
  traced_start: "traced H p0 p0 (\<lambda>b. {})"
| traced_new: "traced H p0 p org \<Longrightarrow> get_new_blocks n p = Inr (p', bs) \<Longrightarrow> traced H p0 p' org"
| traced_touch: "traced H p0 p org \<Longrightarrow> pool_blocks_only p bs \<Longrightarrow> touch bs p = Inr p' \<Longrightarrow> traced H p0 p' org"
| traced_free: "traced H p0 p org \<Longrightarrow> held p bs \<Longrightarrow> free_blocks bs p = Inr p' \<Longrightarrow> traced H p0 p' org"
| traced_evict: "traced H p0 p org \<Longrightarrow> \<forall>i \<in> set ids. 0 \<le> i \<and> i < num_gpu_blocks p \<Longrightarrow>
    evict_blocks ids p = Inr p' \<Longrightarrow> traced H p0 p' org"
| traced_reset: "traced H p0 p org \<Longrightarrow> reset_prefix_cache p = (ok, p') \<Longrightarrow> traced H p0 p' org"
| traced_cache: "traced H p0 p org \<Longrightarrow> cacheable p r blocks cached full k g bmask \<Longrightarrow>
    hashes_consistent H r \<Longrightarrow>
    cache_full_blocks H r blocks cached full (k * bp_hash_block_size p) g bmask keep p = Inr p' \<Longrightarrow>
    traced H p0 p' (add_origins r k cached full blocks org)"
| traced_move: "traced H p0 p org \<Longrightarrow> movable p src dst \<Longrightarrow> move_block_hashes src dst p = Inr p' \<Longrightarrow>
    traced H p0 p' (org(dst := org src))"

lemma traced_reach: "traced H p0 p org \<Longrightarrow> pool_reach p0 p"
  by (induction rule: traced.induct)
    (auto intro: reach_start reach_step step_new step_touch step_free step_evict step_reset step_cache step_move)

lemma moved_origins:
  assumes "has_origins H org p" "only_keys_of {src, dst} p p'" "movable p src dst"
    "block_keys p' src = []" "set (block_keys p' dst) = set (block_keys p src)"
  shows "has_origins H (org(dst := org src)) p'"
  unfolding has_origins_def only_keysD(6)[OF assms(2)]
proof (intro ballI)
  fix b key assume b: "b \<in> usable p" "key \<in> set (block_keys p' b)"
  then have "if b = dst then key \<in> set (block_keys p src) else key \<in> set (block_keys p b)"
    using assms(4,5) only_keysD(5)[OF assms(2), of b] by (cases "b = src"; cases "b = dst") auto
  moreover have "src \<in> usable p" using assms(3) by (simp add: movable_def)
  ultimately show "\<exists>(r, j) \<in> (org(dst := org src)) b. \<exists>g. make_block_hash_with_group_id (ref_hash H r j) g = Inr key"
    using assms(1) b(1) unfolding has_origins_def by (cases "b = dst") auto
qed

lemma traced_origins:
  assumes "traced H p0 p org" "pool_inv p0 xs" "cached_block_hash_to_block p0 = Map.empty"
  shows "has_origins H org p"
  using assms(1)
proof (induction rule: traced.induct)
  case traced_start
  have "b \<in> hm_at (cached_block_hash_to_block p0) key \<longleftrightarrow> b \<in> usable p0 \<and> key \<in> set (block_keys p0 b)" for b key
    using assms(2) unfolding pool_inv_def pool_index_def by blast
  then have "\<forall>b \<in> usable p0. \<forall>key. key \<notin> set (block_keys p0 b)" using assms(3) by (simp add: hm_at_def)
  then show ?case by (simp add: has_origins_def)
next
  case (traced_new p org n p' bs)
  obtain ys where inv: "pool_inv p ys" using reach_preserves[OF traced_reach[OF traced_new(1)] assms(2)] by blast
  note g = get_new_preserves[OF inv traced_new(2)]
  then have "nat n \<le> length ys" "int (nat n) = n" by auto
  from get_new_blocks_ok[OF inv this(1)] this(2) traced_new(2)
  have "\<forall>c \<in> usable p. set (block_keys p' c) \<subseteq> set (block_keys p c)" by auto
  then show ?case using has_origins_mono[OF traced_new(3)] same_config_usable g by blast
next
  case (traced_touch p org bs p')
  obtain ys where inv: "pool_inv p ys" using reach_preserves[OF traced_reach[OF traced_touch(1)] assms(2)] by blast
  from touch_ok[OF this, of bs] traced_touch(2,3)
  have "same_config p p'" "\<forall>c. block_keys p' c = block_keys p c" by (auto simp: pool_blocks_only_def)
  then show ?case using has_origins_mono[OF traced_touch(4)] same_config_usable by (metis subset_refl)
next
  case (traced_free p org bs p')
  obtain ys where inv: "pool_inv p ys" using reach_preserves[OF traced_reach[OF traced_free(1)] assms(2)] by blast
  from free_blocks_ok[OF this, of bs] traced_free(2,3)
  have "same_config p p'" "\<forall>c. block_keys p' c = block_keys p c"
    by (auto simp: pool_blocks_only_def held_def)
  then show ?case using has_origins_mono[OF traced_free(4)] same_config_usable by (metis subset_refl)
next
  case (traced_evict p org ids p')
  obtain ys where inv: "pool_inv p ys" using reach_preserves[OF traced_reach[OF traced_evict(1)] assms(2)] by blast
  from evict_blocks_ok[OF this traced_evict(2)] traced_evict(3)
  have "same_config p p'" "\<forall>c \<in> usable p. set (block_keys p' c) \<subseteq> set (block_keys p c)" by auto
  then show ?case using has_origins_mono[OF traced_evict(4)] same_config_usable by blast
next
  case (traced_reset p org ok p')
  obtain ys where inv: "pool_inv p ys" using reach_preserves[OF traced_reach[OF traced_reset(1)] assms(2)] by blast
  have "same_config p p' \<and> (\<forall>c \<in> usable p. set (block_keys p' c) \<subseteq> set (block_keys p c))"
    using reset_ok[OF inv] reset_refused[OF inv] traced_reset(2)
    by (cases "int (length ys) = num_gpu_blocks p - 1") auto
  then show ?case using has_origins_mono[OF traced_reset(3)] same_config_usable by blast
next
  case (traced_cache p org r blocks cached full k g bmask keep p')
  obtain ys where inv: "pool_inv p ys" using reach_preserves[OF traced_reach[OF traced_cache(1)] assms(2)] by blast
  have "0 < k" "full \<le> length (block_hashes r) div k" using traced_cache(2) by (auto simp: cacheable_def)
  with cacheable_ok[OF inv traced_cache(2), of H keep] traced_cache(4) show ?case
    by (intro has_origins_cached[OF traced_cache(5,3)]) auto
next
  case (traced_move p org src dst p')
  obtain ys where "pool_inv p ys" using reach_preserves[OF traced_reach[OF traced_move(1)] assms(2)] by blast
  from move_preserves[OF this traced_move(2,3)] show ?case
    using moved_origins[OF traced_move(4) _ traced_move(2)] by blast
qed

end
