(* ===== verification/Sample_States.thy ===== *)
theory Sample_States
  imports Pool_System
begin

text \<open>
  Concrete states at which the witnesses apply the properties: a hasher that keeps its input,
  requests over given tokens, and a pool of four blocks before and after two of them are taken
  and one is cached.
\<close>

definition sample_hasher :: block_hasher where
  "sample_hasher = \<lparr>hash_block_size = 2,
     caching_hash_fn = (\<lambda>(p, toks, extra). 7 # p @ map of_int toks), none_hash = [2],
     sha256 = (\<lambda>b. b)\<rparr>"

definition sample_args :: "int list \<Rightarrow> request_args" where
  "sample_args toks = \<lparr>a_request_id = ''r'', a_prompt_token_ids = Some toks,
     a_sampling_params = Some \<lparr>sp_min_tokens = 0, sp_max_tokens = Some 16, sp_eos_token_id = None,
       sp_stop_token_ids = None, sp_repetition_detection = None, sp_skip_reading_prefix_cache = None,
       sp_structured = False, sp_extra_args = None\<rparr>,
     a_pooling_params = None, a_client_index = 0, a_arrival_time = None, a_prompt_embeds = None,
     a_prompt_is_token_ids = None, a_mm_features = None, a_lora_request = None, a_cache_salt = None,
     a_priority = 0, a_trace_headers = None, a_resumable = False, a_reasoning_ended = None,
     a_reasoning_parser_kwargs = None, a_abort_immediately = False\<rparr>"

definition sample_request :: "int list \<Rightarrow> request" where
  "sample_request toks =
     request_fields 0 0 (sample_args toks) (16, WAITING, None, None, Some ''incremental'') (length toks)"

text \<open>The request with the hashes of its full blocks.\<close>

definition sample_hashed :: "int list \<Rightarrow> request" where
  "sample_hashed toks = (sample_request toks)\<lparr>block_hashes :=
     map (ref_hash sample_hasher (sample_request toks))
       [0..<num_full_blocks sample_hasher (sample_request toks)]\<rparr>"

lemma sample_hasher_simps [simp]:
  "hash_block_size sample_hasher = 2" "none_hash sample_hasher = [2]"
  "caching_hash_fn sample_hasher (p, toks, extra) = 7 # p @ map of_int toks"
  by (simp_all add: sample_hasher_def)

lemma sample_request_simps [simp]:
  "all_token_ids (sample_request toks) = toks" "mm_features (sample_request toks) = []"
  "prompt_embeds (sample_request toks) = None" "r_lora_request (sample_request toks) = None"
  "cache_salt (sample_request toks) = None" "block_hashes (sample_request toks) = []"
  "prefix_hash_memo (sample_request toks) = []" "prompt_embeds_hash_memo (sample_request toks) = []"
  "num_computed_tokens (sample_request toks) = 0" "prompt_token_ids (sample_request toks) = Some toks"
  "num_prompt_tokens (sample_request toks) = length toks" "request_id (sample_request toks) = ''r''"
  by (simp_all add: sample_request_def request_fields_def sample_args_def)

lemma sample_hashed_simps [simp]:
  "all_token_ids (sample_hashed toks) = toks" "mm_features (sample_hashed toks) = []"
  "prompt_embeds (sample_hashed toks) = None" "r_lora_request (sample_hashed toks) = None"
  "cache_salt (sample_hashed toks) = None" "prefix_hash_memo (sample_hashed toks) = []"
  "length (block_hashes (sample_hashed toks)) = length toks div 2"
  "prompt_token_ids (sample_hashed toks) = Some toks"
  "num_prompt_tokens (sample_hashed toks) = length toks"
  by (simp_all add: sample_hashed_def num_full_blocks_def num_tokens_def)

lemma sample_consistent [simp]:
  "hashes_consistent sample_hasher (sample_hashed toks)"
  "hashes_consistent sample_hasher (sample_request toks)"
  unfolding sample_hashed_def by (rule hashes_consistent_full) (simp add: hashes_consistent_def)

lemma sample_hashable [simp]: "mm_hashable sample_hasher (sample_hashed toks)"
  by (simp add: mm_hashable_def mm_passed_def)

lemma sample_extra [simp]:
  "block_extra sample_hasher (sample_hashed toks) k = None"
  "block_extra sample_hasher (sample_request toks) k = None"
  by (simp_all add: block_extra_def ref_extra_def gen_lora_extra_hash_keys_def cache_salt_keys_def
      gen_prompt_embeds_extra_hash_keys_def)


subsection \<open>A pool of four blocks\<close>

definition sample_pool :: block_pool where
  "sample_pool = projr (pool_init 4 True 2 False None 0 False)"

lemma sample_pool_ok:
  "pool_init 4 True 2 False None 0 False = Inr sample_pool" "pool_inv sample_pool [Blk 1, Blk 2, Blk 3]"
  "num_gpu_blocks sample_pool = 4" "cached_block_hash_to_block sample_pool = Map.empty"
  "enable_caching sample_pool" "bp_hash_block_size sample_pool = 2"
proof -
  obtain p where p: "pool_init 4 True 2 False None 0 False = Inr p"
    "pool_inv p (map Blk [1..<nat 4])" "num_gpu_blocks p = 4" "cached_block_hash_to_block p = Map.empty"
    "enable_caching p = True"
    using pool_init_ok[of 4 True 2 False None 0 False] by auto
  have e: "sample_pool = p" unfolding sample_pool_def p(1) by simp
  have l: "map Blk [1..<nat 4] = [Blk 1, Blk 2, Blk 3]" by (simp add: upt_rec)
  show "pool_init 4 True 2 False None 0 False = Inr sample_pool" "pool_inv sample_pool [Blk 1, Blk 2, Blk 3]"
    "num_gpu_blocks sample_pool = 4" "cached_block_hash_to_block sample_pool = Map.empty"
    "enable_caching sample_pool"
    using p l e by simp_all
  show "bp_hash_block_size sample_pool = 2"
    using p(1) unfolding e
    by (auto simp: pool_init_def rbind_def Let_def split: sum.splits prod.splits)
qed

definition taken_pool :: block_pool where
  "taken_pool = fst (projr (get_new_blocks 2 sample_pool))"

lemma usable_sample: "num_gpu_blocks p = 4 \<Longrightarrow> usable p = {Blk 1, Blk 2, Blk 3}"
proof -
  assume "num_gpu_blocks p = 4"
  moreover have "{1..<nat 4} = {1::nat, 2, 3}" by auto
  ultimately show ?thesis by (simp add: usable_def)
qed

lemma taken_pool_ok:
  "get_new_blocks 2 sample_pool = Inr (taken_pool, [Blk 1, Blk 2])" "pool_inv taken_pool [Blk 3]"
  "num_gpu_blocks taken_pool = 4" "bp_hash_block_size taken_pool = 2" "enable_caching taken_pool"
  "ref_cnt (pool_heap taken_pool (Blk 1)) = 1" "ref_cnt (pool_heap taken_pool (Blk 2)) = 1"
  "\<forall>c \<in> usable taken_pool. block_keys taken_pool c = []"
proof -
  have two: "int 2 = 2" by simp
  have t: "take 2 [Blk 1, Blk 2, Blk 3] = [Blk 1, Blk 2]" "drop 2 [Blk 1, Blk 2, Blk 3] = [Blk 3]"
    by (simp_all add: numeral_2_eq_2)
  obtain p' where p': "get_new_blocks 2 sample_pool = Inr (p', [Blk 1, Blk 2])" "pool_inv p' [Blk 3]"
    "same_config sample_pool p'"
    "\<forall>c. ref_cnt (pool_heap p' c) = ref_cnt (pool_heap sample_pool c) + (if c \<in> {Blk 1, Blk 2} then 1 else 0)"
    "\<forall>c \<in> usable sample_pool. block_keys p' c =
       (if c \<in> {Blk 1, Blk 2} \<and> enable_caching sample_pool then [] else block_keys sample_pool c)"
    using get_new_blocks_ok[OF sample_pool_ok(2), of 2] unfolding t two by auto
  have e: "taken_pool = p'" by (simp add: taken_pool_def p'(1))
  have free: "ref_cnt (pool_heap sample_pool c) = 0" if "c \<in> {Blk 1, Blk 2, Blk 3}" for c
    using that sample_pool_ok(2) unfolding pool_inv_def pool_free_def pool_gap_def by auto
  have "b \<in> hm_at (cached_block_hash_to_block sample_pool) key \<longleftrightarrow>
      b \<in> usable sample_pool \<and> key \<in> set (block_keys sample_pool b)" for b key
    using sample_pool_ok(2) unfolding pool_inv_def pool_index_def by blast
  then have "\<forall>b \<in> usable sample_pool. \<forall>key. key \<notin> set (block_keys sample_pool b)"
    by (simp add: sample_pool_ok(4) hm_at_def)
  then have k: "\<forall>b \<in> usable sample_pool. block_keys sample_pool b = []"
    by (metis last_in_set)
  show "get_new_blocks 2 sample_pool = Inr (taken_pool, [Blk 1, Blk 2])" "pool_inv taken_pool [Blk 3]"
    "num_gpu_blocks taken_pool = 4" "bp_hash_block_size taken_pool = 2" "enable_caching taken_pool"
    using p' sample_pool_ok by (simp_all add: e same_config_def)
  show "ref_cnt (pool_heap taken_pool (Blk 1)) = 1" "ref_cnt (pool_heap taken_pool (Blk 2)) = 1"
    using p'(4) free by (simp_all add: e)
  show "\<forall>c \<in> usable taken_pool. block_keys taken_pool c = []"
    using p'(5) k same_config_usable[OF p'(3)] by (simp add: e)
qed

text \<open>Block 1 holds the first hash block of the request with tokens 10 to 13.\<close>

definition cached_pool :: block_pool where
  "cached_pool = projr (cache_full_blocks sample_hasher (sample_hashed [10, 11, 12, 13]) [Blk 1, Blk 2]
     0 1 2 0 None False taken_pool)"

lemma null_taken: "pool_static p \<Longrightarrow> i < nat (num_gpu_blocks p) \<Longrightarrow> is_null (pool_heap p (Blk i)) = (i = 0)"
  by (simp add: pool_static_def)

lemma sample_cacheable:
  "cacheable taken_pool (sample_hashed [10, 11, 12, 13]) [Blk 1, Blk 2] 0 1 1 0 None"
proof -
  have "Blk 1 \<in> usable taken_pool" using usable_sample taken_pool_ok(3) by simp
  moreover have "keys_ok taken_pool (Blk 1)"
    using taken_pool_ok(2) calculation unfolding pool_inv_def pool_index_def by blast
  moreover have "block_keys taken_pool (Blk 1) = []" using taken_pool_ok(8) calculation(1) by blast
  then have "block_hash (pool_heap taken_pool (Blk 1)) = None" by (auto simp: block_keys_def split: option.splits)
  ultimately show ?thesis by (simp add: cacheable_def taken_pool_ok promotable_def keys_ok_def)
qed

lemma cached_pool_ok:
  "cache_full_blocks sample_hasher (sample_hashed [10, 11, 12, 13]) [Blk 1, Blk 2]
     0 1 2 0 None False taken_pool = Inr cached_pool"
  "pool_inv cached_pool [Blk 3]" "only_keys_of {Blk 1} taken_pool cached_pool"
proof -
  let ?r = "sample_hashed [10, 11, 12, 13]"
  from cacheable_ok[OF taken_pool_ok(2) sample_cacheable, of sample_hasher False]
  obtain p' where p': "cache_full_blocks sample_hasher ?r [Blk 1, Blk 2] 0 1 2 0 None False taken_pool = Inr p'"
    "pool_inv p' [Blk 3]" "only_keys_of (newly_cached taken_pool [Blk 1, Blk 2] 0 1 None) taken_pool p'"
    unfolding taken_pool_ok by auto
  have e: "cached_pool = p'" unfolding cached_pool_def p'(1) by simp
  show "cache_full_blocks sample_hasher ?r [Blk 1, Blk 2] 0 1 2 0 None False taken_pool = Inr cached_pool"
    "pool_inv cached_pool [Blk 3]" using p' e by simp_all
  have "\<not> is_null (pool_heap taken_pool (Blk 1))"
    using null_taken[of taken_pool 1] taken_pool_ok(2,3) by (simp add: pool_inv_def)
  then have "newly_cached taken_pool [Blk 1, Blk 2] 0 1 None = {Blk 1}"
    by (auto simp: newly_cached_def skip_block_def)
  then show "only_keys_of {Blk 1} taken_pool cached_pool" using p'(3) e by simp
qed

lemma sample_traced:
  "traced sample_hasher sample_pool cached_pool
     (add_origins (sample_hashed [10, 11, 12, 13]) 1 0 1 [Blk 1, Blk 2] (\<lambda>b. {}))"
proof (rule traced_cache[OF _ sample_cacheable sample_consistent(1)])
  show "traced sample_hasher sample_pool taken_pool (\<lambda>b. {})"
    by (rule traced_new[OF traced_start taken_pool_ok(1)])
  show "cache_full_blocks sample_hasher (sample_hashed [10, 11, 12, 13]) [Blk 1, Blk 2]
      0 1 (1 * bp_hash_block_size taken_pool) 0 None False taken_pool = Inr cached_pool"
    using cached_pool_ok(1) by (simp add: taken_pool_ok)
qed

end
