(* ===== verification/Hash_Properties.thy ===== *)
theory Hash_Properties
  imports Sample_States Hash_Soundness
begin

text \<open>The properties of block hashing and of the packed hash keys, each with a concrete instance.\<close>

text \<open>C6: \<open>RequestBlockHasher.__call__\<close> is equivalent to the reference definition: given hashes
  that are the reference hashes of the tokens, multi-modal features in order and, when hashing
  resumes, all features but the last behind the hashed prefix, the call returns exactly the
  reference hashes of the full blocks that have none yet.\<close>

theorem hasher_equals_reference:
  assumes "mm_hashable H r" "0 < hash_block_size H" "hashes_consistent H r"
  shows "hasher_call H r = Inr (map (ref_hash H r) [length (block_hashes r)..<num_full_blocks H r])"
  using assms hasher_call_ref[of r H] by (simp add: mm_hashable_def)

theorem hasher_equals_reference_witness:
  "hasher_call sample_hasher (sample_request [10, 11, 12, 13, 14]) = Inr [[7, 2, 10, 11], [7, 7, 2, 10, 11, 12, 13]]"
proof -
  let ?r = "sample_request [10, 11, 12, 13, 14]"
  have n: "num_full_blocks sample_hasher ?r = 2" by (simp add: num_full_blocks_def num_tokens_def)
  have "mm_hashable sample_hasher ?r" by (simp add: mm_hashable_def)
  from hasher_equals_reference[OF this] show ?thesis
    unfolding n by (simp add: upt_rec hash_block_tokens_def block_tokens_def py_slice_def)
qed

text \<open>C7: the chain of block hashes identifies the prefix: with a hash function that has no
  collision on the inputs that occur, equal hashes mean the same block index, the same tokens up
  to the end of the block, and the same extra keys (LoRA, multi-modal items, salt) in every block
  on the way.\<close>

theorem equal_hash_means_equal_prefix:
  assumes "collision_free H r i r' j" "ref_hash H r i = ref_hash H r' j"
  shows "i = j \<and> take (Suc i * hash_block_size H) (all_token_ids r) =
                 take (Suc i * hash_block_size H) (all_token_ids r') \<and>
         (\<forall>k \<le> i. block_extra H r k = block_extra H r' k)"
  using equal_hash_equal_prefix[OF assms] by blast

theorem equal_hash_means_equal_prefix_witness:
  "ref_hash sample_hasher (sample_hashed [10, 11, 12]) 0 = ref_hash sample_hasher (sample_hashed [10, 11, 99]) 0 \<and>
   take 2 (all_token_ids (sample_hashed [10, 11, 12])) = take 2 (all_token_ids (sample_hashed [10, 11, 99]))"
proof -
  have h: "ref_hash sample_hasher (sample_hashed [10, 11, 12]) 0 = ref_hash sample_hasher (sample_hashed [10, 11, 99]) 0"
    by (simp add: block_tokens_def py_slice_def hash_block_tokens_def)
  have c: "collision_free sample_hasher (sample_hashed [10, 11, 12]) 0 (sample_hashed [10, 11, 99]) 0"
    by (simp add: collision_free_def hash_input_at_def parent_bytes_def block_tokens_def py_slice_def)
  from equal_hash_means_equal_prefix[OF c h] show ?thesis using h by simp
qed

text \<open>requests that agree on the tokens and the extra keys of a prefix have the same hash for
  it, so a shared prefix is found whatever follows it.\<close>

theorem same_prefix_same_hash:
  assumes "take (Suc i * hash_block_size H) (all_token_ids r) =
           take (Suc i * hash_block_size H) (all_token_ids r')"
    and "\<And>k. k \<le> i \<Longrightarrow> block_extra H r k = block_extra H r' k"
  shows "ref_hash H r i = ref_hash H r' i"
  using ref_hash_same_prefix[OF assms] .

theorem same_prefix_same_hash_witness:
  "ref_hash sample_hasher (sample_hashed [1, 2, 3, 4, 5]) 1 = ref_hash sample_hasher (sample_hashed [1, 2, 3, 4, 6, 7]) 1"
  by (rule same_prefix_same_hash) simp_all

text \<open>appending output tokens keeps the request's block hashes complete and correct: the
  tokens are appended, the hashes extend the old ones, and afterwards there is exactly one hash
  for each full block, the reference hash of its tokens.\<close>

theorem append_keeps_hashes:
  assumes "0 < hash_block_size H" "mm_hashable H r" "hashes_consistent H r"
  shows "\<exists>r'. append_output_token_ids (Some H) toks r = Inr r' \<and> all_token_ids r' = all_token_ids r @ toks \<and>
    hashes_consistent H r' \<and> length (block_hashes r') = num_full_blocks H r' \<and>
    (\<exists>hs. block_hashes r' = block_hashes r @ hs)"
  using append_output_hashes[OF assms, of toks] by blast

theorem append_keeps_hashes_witness:
  "\<exists>r'. append_output_token_ids (Some sample_hasher) [13, 14] (sample_hashed [10, 11, 12]) = Inr r' \<and>
     all_token_ids r' = [10, 11, 12, 13, 14] \<and> length (block_hashes r') = 2"
  using append_keeps_hashes[of sample_hasher "sample_hashed [10, 11, 12]" "[13, 14]"]
  by (auto simp: num_full_blocks_def num_tokens_def)

text \<open>a new request has one hash per full block of its prompt, the reference hash, and counts
  its prompt tokens.\<close>

theorem new_request_hashes:
  assumes "request_init (Some H) now oid a = Inr r" "0 < hash_block_size H" "mm_sorted (mm_features r)"
  shows "block_hashes r = map (ref_hash H r) [0..<num_full_blocks H r] \<and> num_tokens r = num_prompt_tokens r"
  using request_init_hashes[OF assms] by blast

lemma sample_init:
  "request_init (Some sample_hasher) 0 0 (sample_args toks) = Inr (sample_hashed toks)"
proof -
  have k: "init_kind (sample_args toks) = Inr (16, WAITING, None, None, Some ''incremental'')"
    by (simp add: init_kind_def sample_args_def structured_from_sampling_params_def)
  have n: "length_from_prompt (a_prompt_token_ids (sample_args toks)) (a_prompt_embeds (sample_args toks)) =
      Inr (length toks)"
    by (simp add: length_from_prompt_def sample_args_def)
  have "mm_hashable sample_hasher (sample_request toks)" by (simp add: mm_hashable_def)
  from update_block_hashes_consistent[OF this] show ?thesis
    by (simp add: request_init_def k n sample_hashed_def sample_request_def[symmetric])
qed

theorem new_request_hashes_witness:
  "request_init (Some sample_hasher) 0 0 (sample_args [10, 11, 12]) = Inr (sample_hashed [10, 11, 12]) \<and>
   num_tokens (sample_hashed [10, 11, 12]) = num_prompt_tokens (sample_hashed [10, 11, 12])"
  using new_request_hashes[OF sample_init, of "[10, 11, 12]"] sample_init by simp

text \<open>\<open>Request.hash_prefix\<close> with its memo returns what the hasher computes: as long as the
  memo holds correct entries (an invariant the call keeps), the memo never changes an answer.\<close>

theorem hash_prefix_memo_transparent:
  assumes "prefix_memo_ok H r"
  shows "\<exists>res r'. hash_prefix (Some H) n r = Inr (res, r') \<and> hasher_hash_prefix H r n = Inr res \<and>
    prefix_memo_ok H r'"
  using hash_prefix_transparent[OF assms] .

theorem hash_prefix_memo_transparent_witness:
  "\<exists>r'. hash_prefix (Some sample_hasher) 3 (sample_hashed [10, 11, 12]) = Inr (Some [7, 7, 2, 10, 11, 12], r') \<and>
     prefix_memo_ok sample_hasher r'"
proof -
  let ?r = "sample_hashed [10, 11, 12]"
  have "prefix_memo_ok sample_hasher ?r" by (simp add: prefix_memo_ok_def)
  moreover have "hasher_hash_prefix sample_hasher ?r 3 = Inr (Some [7, 7, 2, 10, 11, 12])"
  proof -
    have "block_hashes ?r = [[7, 2, 10, 11]]"
      by (simp add: sample_hashed_def num_full_blocks_def num_tokens_def block_tokens_def py_slice_def
          hash_block_tokens_def)
    then show ?thesis
      by (simp add: hasher_hash_prefix_def num_tokens_def generate_block_hash_extra_keys_def Let_def
          gen_mm_extra_hash_keys_def gen_lora_extra_hash_keys_def cache_salt_keys_def
          gen_prompt_embeds_extra_hash_keys_def hash_block_tokens_def py_slice_def)
  qed
  ultimately show ?thesis using hash_prefix_memo_transparent[of sample_hasher ?r 3] by auto
qed

text \<open>unpacking a packed key gives back the hash and the group id it was made from.\<close>

theorem key_pack_unpack:
  assumes "make_block_hash_with_group_id bh g = Inr key"
  shows "get_block_hash key = bh \<and> get_group_id key = g"
  using key_roundtrip[OF assms] by blast

theorem key_pack_unpack_witness:
  "\<exists>key. make_block_hash_with_group_id [1, 2, 3] 258 = Inr key \<and> get_block_hash key = [1, 2, 3] \<and>
     get_group_id key = 258"
  using make_key_total[of 258 "[1, 2, 3]"] key_pack_unpack[of "[1, 2, 3]" 258] by auto

text \<open>the integer form of a block hash in events fits 64 bits.\<close>

theorem external_hash_fits_64_bits:
  "maybe_convert_block_hash True h = ExtInt n \<Longrightarrow> 0 \<le> n \<and> n < 2 ^ 64"
  by (rule external_int_bound)

theorem external_hash_fits_64_bits_witness:
  "\<exists>n. maybe_convert_block_hash True [1, 2, 3] = ExtInt n \<and> 0 \<le> n \<and> n < 2 ^ 64"
proof -
  obtain n where n: "maybe_convert_block_hash True [1, 2, 3] = ExtInt n"
    by (simp add: maybe_convert_block_hash_def)
  from external_hash_fits_64_bits[OF n] n show ?thesis by blast
qed


definition sample_session :: "int \<Rightarrow> request" where
  "sample_session nc = (sample_hashed [10, 11, 12, 13])\<lparr>num_computed_tokens := nc\<rparr>"

definition sample_update :: streaming_update where
  "sample_update = \<lparr>su_mm_features = None, su_prompt_token_ids = Some [20, 21], su_max_tokens = 8,
     su_arrival_time = 1, su_sampling_params = None\<rparr>"

lemma sample_session_simps [simp]:
  "all_token_ids (sample_session nc) = [10, 11, 12, 13]" "mm_features (sample_session nc) = []"
  "prompt_embeds (sample_session nc) = None" "r_lora_request (sample_session nc) = None"
  "cache_salt (sample_session nc) = None" "num_computed_tokens (sample_session nc) = nc"
  "block_hashes (sample_session nc) = block_hashes (sample_hashed [10, 11, 12, 13])"
  "prompt_token_ids (sample_session nc) = Some [10, 11, 12, 13]"
  "num_prompt_tokens (sample_session nc) = 4"
  by (simp_all add: sample_session_def)

lemma sample_session_consistent: "hashes_consistent sample_hasher (sample_session nc)"
  by (rule hashes_consistent_extends[OF _ sample_consistent(1)]) (simp_all add: extends_def)


lemma hasher_call_total:
  assumes "mm_features r = []"
  shows "\<exists>hs. hasher_call H r = Inr hs"
proof -
  have g: "\<exists>ks. generate_block_hash_extra_keys H r s e i = Inr (ks, i)" for s e i
    using assms by (simp add: generate_block_hash_extra_keys_def gen_mm_extra_hash_keys_def Let_def)
  have "\<exists>hs. hasher_loop H r s i prev = Inr hs" for s i prev
  proof (induction "num_tokens r - s" arbitrary: s prev rule: less_induct)
    case less
    obtain ks where ks: "generate_block_hash_extra_keys H r s (s + hash_block_size H) i = Inr (ks, i)"
      using g by blast
    show ?case
    proof (cases "hash_block_size H = 0 \<or> num_tokens r < s + hash_block_size H")
      case False
      then have "num_tokens r - (s + hash_block_size H) < num_tokens r - s" by auto
      from less[OF this] False ks show ?thesis
        by (subst hasher_loop.simps) (auto simp: Let_def)
    qed (subst hasher_loop.simps, auto simp: Let_def)
  qed
  then show ?thesis by (auto simp: hasher_call_def Let_def)
qed

lemma sample_session_runs:
  "\<exists>r' d. update_request_as_session (Some sample_hasher) False 0 sample_update (sample_session nc) = Inr (r', d)"
proof -
  have "mm_features (session_tokens sample_update [10, 11, 12, 13] (sample_session nc)) = []"
    by (simp add: session_tokens_def sample_update_def Let_def opt_list_def)
  from hasher_call_total[OF this, of sample_hasher] show ?thesis
    by (auto simp: update_request_as_session_def update_block_hashes_def Let_def)
qed


text \<open>a session update that replaces tokens of an already hashed block (tokens past
  \<open>num_computed_tokens\<close> are dropped, the hashes are not) leaves a hash that is not the hash of the
  session's tokens.\<close>

theorem session_update_leaves_stale_hash:
  assumes "update_request_as_session (Some H) lg now u r = Inr (r', d)"
    and "hashes_consistent H r" "k < length (block_hashes r)"
    and "block_tokens H r' k \<noteq> block_tokens H r k" "collision_free H r k r' k"
  shows "block_hashes r' ! k \<noteq> ref_hash H r' k \<and> \<not> hashes_consistent H r'"
  using session_update_stale_hash[OF assms] by blast

lemma session_result_fields:
  assumes "update_request_as_session Ho False now u r = Inr (r', d)"
  shows "mm_features r' = mm_features r @ map (\<lambda>f. f\<lparr>mm_offset := mm_offset f + length (take (nat (num_computed_tokens r)) (all_token_ids r))\<rparr>) (opt_list (su_mm_features u))"
    "prompt_embeds r' = prompt_embeds r" "r_lora_request r' = r_lora_request r" "cache_salt r' = cache_salt r"
  using assms
  by (auto simp: update_request_as_session_def update_block_hashes_def session_tokens_def
      session_resume_def Let_def rbind_def split: option.splits sum.splits)

theorem session_update_leaves_stale_hash_witness:
  "\<exists>r' d. update_request_as_session (Some sample_hasher) False 0 sample_update (sample_session 2) = Inr (r', d) \<and>
     all_token_ids r' = [10, 11, 20, 21] \<and> \<not> hashes_consistent sample_hasher r'"
proof -
  let ?r = "sample_session 2"
  obtain r' d where u: "update_request_as_session (Some sample_hasher) False 0 sample_update ?r
      = Inr (r', d)" using sample_session_runs by blast
  have t: "all_token_ids r' = [10, 11, 20, 21]"
    using session_update_keeps_hash(2)[OF u, of 0] by (simp add: sample_update_def opt_list_def)
  note f = session_result_fields[OF u]
  have x: "block_extra sample_hasher r' k = None" "block_extra sample_hasher ?r k = None" for k
    using f by (simp_all add: block_extra_def ref_extra_def gen_lora_extra_hash_keys_def cache_salt_keys_def
        gen_prompt_embeds_extra_hash_keys_def sample_update_def opt_list_def)
  have atM: "{..Suc 0} = {0, Suc 0}" by auto
  have c: "collision_free sample_hasher ?r 1 r' 1"
    by (auto simp: collision_free_def hash_input_at_def parent_bytes_def block_tokens_def py_slice_def
        x t hash_block_tokens_def atM)
  have "\<not> hashes_consistent sample_hasher r'"
    using session_update_leaves_stale_hash[OF u sample_session_consistent _ _ c]
    by (simp add: block_tokens_def py_slice_def t)
  then show ?thesis using u t by blast
qed

text \<open>hashing that resumes after earlier blocks looks only at the last multi-modal feature:
  with any hash present, exchanging all the other features for as many others does not change
  the hashes it computes.\<close>

theorem resumed_hashing_sees_last_feature_only:
  assumes "length fs' = length fs" "block_hashes r \<noteq> []" "0 < hash_block_size H"
  shows "hasher_call H (r\<lparr>mm_features := fs @ [g]\<rparr>) = hasher_call H (r\<lparr>mm_features := fs' @ [g]\<rparr>)"
  using resumed_hashing_ignores_features[OF assms] .

theorem resumed_hashing_sees_last_feature_only_witness:
  "hasher_call sample_hasher ((sample_hashed [10, 11])\<lparr>all_token_ids := [10, 11, 12, 13, 14, 15],
      mm_features := [\<lparr>mm_identifier = ''a'', mm_offset = 2, mm_length = 2, mm_is_embed = None\<rparr>] @
        [\<lparr>mm_identifier = ''c'', mm_offset = 4, mm_length = 2, mm_is_embed = None\<rparr>]\<rparr>) =
   hasher_call sample_hasher ((sample_hashed [10, 11])\<lparr>all_token_ids := [10, 11, 12, 13, 14, 15],
      mm_features := [\<lparr>mm_identifier = ''b'', mm_offset = 2, mm_length = 2, mm_is_embed = None\<rparr>] @
        [\<lparr>mm_identifier = ''c'', mm_offset = 4, mm_length = 2, mm_is_embed = None\<rparr>]\<rparr>)"
proof (rule resumed_hashing_sees_last_feature_only)
  have "length (block_hashes (sample_hashed [10, 11])) \<noteq> 0" by simp
  then show "block_hashes ((sample_hashed [10, 11])\<lparr>all_token_ids := [10, 11, 12, 13, 14, 15]\<rparr>) \<noteq> []"
    unfolding length_0_conv by simp
qed simp_all

end
