(* ===== verification/Pool_Properties.thy ===== *)
theory Pool_Properties
  imports Sample_States Hash_Soundness
begin

text \<open>The properties of the block pool, each with a concrete instance.\<close>



text \<open>C33: caching full blocks makes them findable: the call succeeds, keeps the invariant and the
  free list, changes only the keys of the blocks it enters, and afterwards looking up the hash of
  any of these blocks is a hit.\<close>

theorem cached_blocks_are_found:
  assumes "pool_inv p xs" "cacheable p r blocks cached full k g bmask"
  shows "\<exists>p'. cache_full_blocks H r blocks cached full (k * bp_hash_block_size p) g bmask keep p = Inr p' \<and>
    pool_inv p' xs \<and> only_keys_of (newly_cached p blocks cached full bmask) p p' \<and>
    (\<forall>i. cached \<le> i \<and> i < full \<and> \<not> skip_block (pool_heap p) bmask (i - cached) (blocks ! i) \<longrightarrow>
       (\<exists>b. get_cached_block (cached_block_hash_to_block p') (block_hashes r ! ((i + 1) * k - 1)) [g]
              = Inr (Some [b])))"
proof -
  from cacheable_ok[OF assms, of H keep] obtain p' where
    p': "cache_full_blocks H r blocks cached full (k * bp_hash_block_size p) g bmask keep p = Inr p'"
    "pool_inv p' xs" "only_keys_of (newly_cached p blocks cached full bmask) p p'"
    "\<And>i. cached \<le> i \<Longrightarrow> i < full \<Longrightarrow> \<not> skip_block (pool_heap p) bmask (i - cached) (blocks ! i) \<Longrightarrow>
       \<exists>key. make_block_hash_with_group_id (block_hashes r ! ((i + 1) * k - 1)) g = Inr key \<and>
          key \<in> set (block_keys p' (blocks ! i))" by blast
  have idx: "pool_index p'" using p'(2) by (simp add: pool_inv_def)
  have "\<exists>b. get_cached_block (cached_block_hash_to_block p') (block_hashes r ! ((i + 1) * k - 1)) [g] = Inr (Some [b])"
    if i: "cached \<le> i" "i < full" "\<not> skip_block (pool_heap p) bmask (i - cached) (blocks ! i)" for i
  proof -
    obtain key where key: "make_block_hash_with_group_id (block_hashes r ! ((i + 1) * k - 1)) g = Inr key"
      "key \<in> set (block_keys p' (blocks ! i))" using p'(4)[OF i] by blast
    have "blocks ! i \<in> usable p'"
      using assms(2) i only_keysD(6)[OF p'(3)] by (simp add: cacheable_def)
    from get_cached_single(2)[OF idx key(1) this key(2)] show ?thesis by blast
  qed
  then show ?thesis using p' by blast
qed

theorem cached_blocks_are_found_witness:
  "\<exists>b. get_cached_block (cached_block_hash_to_block cached_pool)
         (block_hashes (sample_hashed [10, 11, 12, 13]) ! 0) [0] = Inr (Some [b])"
proof -
  have "\<not> skip_block (pool_heap taken_pool) None 0 (Blk 1)"
    using null_taken[of taken_pool 1] taken_pool_ok(2,3) by (simp add: pool_inv_def skip_block_def)
  with cached_blocks_are_found[OF taken_pool_ok(2) sample_cacheable, of sample_hasher False] cached_pool_ok(1)
  show ?thesis by (auto simp: taken_pool_ok)
qed

text \<open>C5: in every state reachable from a fresh pool by the calls of \<open>BlockPool\<close> the invariant
  holds, so blocks are conserved: the free blocks, the blocks with references and the null block
  add up to the pool.\<close>

theorem reachable_pool_invariant:
  assumes "0 < n" "pool_init n caching hbs evs mc pid ui = Inr p0" "pool_reach p0 p"
  shows "(\<exists>xs. pool_inv p xs) \<and>
    get_num_free_blocks p + int (card {b \<in> usable p. 0 < ref_cnt (pool_heap p b)}) + 1 = n"
proof -
  from pool_init_ok[OF assms(1), of caching hbs evs mc pid ui] assms(2)
  have p0: "pool_inv p0 (map Blk [1..<nat n])" "num_gpu_blocks p0 = n" by auto
  from reach_preserves[OF assms(3) p0(1)]
  obtain xs where xs: "pool_inv p xs" "same_config p0 p" by blast
  then show ?thesis using conservation[OF xs(1)] p0(2) by (auto simp: same_config_def)
qed

theorem reachable_pool_invariant_witness:
  "get_num_free_blocks cached_pool + int (card {b \<in> usable cached_pool. 0 < ref_cnt (pool_heap cached_pool b)}) + 1 = 4"
  using reachable_pool_invariant[OF _ sample_pool_ok(1) traced_reach[OF sample_traced]] by simp

text \<open>\<open>get_new_blocks\<close> returns the \<open>n\<close> least recently freed blocks in their order, each with
  one reference more and, with caching on, none of its cached hashes left; other blocks keep
  their references and keys.\<close>

theorem get_new_blocks_takes_front:
  assumes "pool_inv p xs" "n \<le> length xs"
  shows "\<exists>p'. get_new_blocks (int n) p = Inr (p', take n xs) \<and> pool_inv p' (drop n xs) \<and>
    (\<forall>c. ref_cnt (pool_heap p' c) = ref_cnt (pool_heap p c) + (if c \<in> set (take n xs) then 1 else 0)) \<and>
    (\<forall>c \<in> usable p. block_keys p' c =
       (if c \<in> set (take n xs) \<and> enable_caching p then [] else block_keys p c))"
  using get_new_blocks_ok[OF assms] by blast

theorem get_new_blocks_takes_front_witness:
  "\<exists>p'. get_new_blocks 2 sample_pool = Inr (p', [Blk 1, Blk 2]) \<and> pool_inv p' [Blk 3]"
proof -
  have "(2::int) = int 2" "take 2 [Blk 1, Blk 2, Blk 3] = [Blk 1, Blk 2]" "drop 2 [Blk 1, Blk 2, Blk 3] = [Blk 3]"
    by simp_all
  then show ?thesis using get_new_blocks_takes_front[OF sample_pool_ok(2), of 2] by auto
qed

text \<open>\<open>get_new_blocks\<close> raises \<open>ValueError\<close> exactly when the count is negative or more than the
  free blocks.\<close>

theorem get_new_blocks_value_error:
  assumes "pool_inv p xs"
  shows "get_new_blocks n p = Inl ValueError \<longleftrightarrow> n < 0 \<or> get_num_free_blocks p < n"
proof
  assume e: "get_new_blocks n p = Inl ValueError"
  show "n < 0 \<or> get_num_free_blocks p < n"
  proof (rule ccontr)
    assume "\<not> ?thesis"
    then have n: "nat n \<le> length xs" "int (nat n) = n" using free_count_eq[OF assms] by auto
    show False using get_new_blocks_ok[OF assms n(1)] e unfolding n(2) by auto
  qed
qed (use get_new_blocks_errors[OF assms] free_count_eq[OF assms] in auto)

theorem get_new_blocks_value_error_witness:
  "get_new_blocks 4 sample_pool = Inl ValueError \<and> get_new_blocks 3 sample_pool \<noteq> Inl ValueError"
  using get_new_blocks_value_error[OF sample_pool_ok(2), of 4] get_new_blocks_value_error[OF sample_pool_ok(2), of 3]
    free_count_eq[OF sample_pool_ok(2)] by simp

text \<open>\<open>free_blocks\<close> gives one reference back per block; the blocks left without references
  enter the free list: those with no cached hash (caching on) in front of it, to be used first,
  the others behind it, both in the order given.\<close>

theorem free_blocks_order:
  assumes "pool_inv p xs" "held p bs"
  shows "\<exists>p'. free_blocks bs p = Inr p' \<and> pool_inv p' (freed_front p bs @ xs @ freed_back p bs) \<and>
    (\<forall>c. ref_cnt (pool_heap p' c) = ref_cnt (pool_heap p c) - int (count_list bs c)) \<and>
    (\<forall>c. block_keys p' c = block_keys p c)"
  using free_blocks_ok[OF assms(1), of bs] assms(2) unfolding held_def pool_blocks_only_def by blast

theorem free_blocks_order_witness:
  "\<exists>p'. free_blocks [Blk 2, Blk 1] taken_pool = Inr p' \<and> pool_inv p' [Blk 2, Blk 1, Blk 3]"
proof -
  have u: "usable taken_pool = {Blk 1, Blk 2, Blk 3}" using usable_sample taken_pool_ok(3) by blast
  have h: "held taken_pool [Blk 2, Blk 1]"
    using taken_pool_ok(6,7) by (simp add: held_def pool_blocks_only_def u)
  have k: "block_hash (pool_heap taken_pool b) = None" if "b \<in> {Blk 1, Blk 2}" for b
    using taken_pool_ok(8) that unfolding u by (auto simp: block_keys_def split: option.splits)
  have "freed_front taken_pool [Blk 2, Blk 1] = [Blk 2, Blk 1]" "freed_back taken_pool [Blk 2, Blk 1] = []"
    using k[of "Blk 1"] k[of "Blk 2"]
    using taken_pool_ok(5,6,7) by (simp_all add: freed_front_def freed_back_def releases_def goes_back_def)
  then show ?thesis using free_blocks_order[OF taken_pool_ok(2) h] by auto
qed

text \<open>freeing a block that has no references left raises instead of corrupting the list.\<close>

theorem double_free_raises:
  assumes "pool_inv p xs" "b \<in> set xs"
  shows "free_blocks (b # bs) p = Inl RuntimeError"
  by (rule free_below_zero[OF assms])

theorem double_free_raises_witness: "free_blocks [Blk 3] taken_pool = Inl RuntimeError"
  using double_free_raises[OF taken_pool_ok(2), of "Blk 3" "[]"] by simp

text \<open>\<open>touch\<close> adds one reference per occurrence, takes the touched blocks out of the free list,
  keeps the order of the others, and changes no cached hash.\<close>

theorem touch_takes_from_free_list:
  assumes "pool_inv p xs" "pool_blocks_only p bs"
  shows "\<exists>p'. touch bs p = Inr p' \<and> pool_inv p' (filter (\<lambda>b. b \<notin> set bs) xs) \<and>
    (\<forall>c. ref_cnt (pool_heap p' c) = ref_cnt (pool_heap p c) + int (count_list bs c)) \<and>
    (\<forall>c. block_keys p' c = block_keys p c)"
  using touch_ok[OF assms(1), of bs] assms(2) unfolding pool_blocks_only_def by blast

theorem touch_takes_from_free_list_witness:
  "\<exists>p'. touch [Blk 2] sample_pool = Inr p' \<and> pool_inv p' [Blk 1, Blk 3]"
proof -
  have "pool_blocks_only sample_pool [Blk 2]"
    using usable_sample[OF sample_pool_ok(3)] by (simp add: pool_blocks_only_def)
  from touch_takes_from_free_list[OF sample_pool_ok(2) this] show ?thesis by auto
qed

text \<open>evicting blocks by id removes all their keys, so no lookup returns them; free list,
  references and the other blocks' keys stay.\<close>

theorem evicted_blocks_not_found:
  assumes "pool_inv p xs" "\<forall>i \<in> set ids. 0 \<le> i \<and> i < num_gpu_blocks p"
  shows "\<exists>p'. evict_blocks ids p = Inr p' \<and> pool_inv p' xs \<and>
    (\<forall>i \<in> set ids. \<forall>bh g. get_cached_block (cached_block_hash_to_block p') bh [g] \<noteq> Inr (Some [Blk (nat i)])) \<and>
    (\<forall>c \<in> usable p. c \<notin> (Blk \<circ> nat) ` set ids \<longrightarrow> block_keys p' c = block_keys p c)"
proof -
  from evict_blocks_ok[OF assms] obtain p' where p': "evict_blocks ids p = Inr p'" "pool_inv p' xs"
    "same_config p p'"
    "\<And>c. c \<in> usable p \<Longrightarrow> block_keys p' c = (if c \<in> (Blk \<circ> nat) ` set ids then [] else block_keys p c)"
    by blast
  have idx: "pool_index p'" using p'(2) by (simp add: pool_inv_def)
  have "get_cached_block (cached_block_hash_to_block p') bh [g] \<noteq> Inr (Some [Blk (nat i)])"
    if i: "i \<in> set ids" for i bh g
  proof
    assume hit: "get_cached_block (cached_block_hash_to_block p') bh [g] = Inr (Some [Blk (nat i)])"
    then obtain key where "make_block_hash_with_group_id bh g = Inr key" by auto
    from get_cached_single(1)[OF idx this hit] p'(4)[of "Blk (nat i)"] same_config_usable[OF p'(3)] i
    show False by auto
  qed
  then show ?thesis using p' by auto
qed

theorem evicted_blocks_not_found_witness:
  "\<exists>p'. evict_blocks [1] cached_pool = Inr p' \<and>
     (\<forall>bh g. get_cached_block (cached_block_hash_to_block p') bh [g] \<noteq> Inr (Some [Blk 1]))"
proof -
  have "num_gpu_blocks cached_pool = 4"
    using cached_pool_ok(3) taken_pool_ok(3) by (simp add: only_keys_of_def same_config_def)
  then show ?thesis using evicted_blocks_not_found[OF cached_pool_ok(2), of "[1]"] by auto
qed

text \<open>\<open>reset_prefix_cache\<close> succeeds exactly when every block but the null block is free;
  then nothing is cached any more, and otherwise the pool is left as it was.\<close>

theorem reset_iff_all_free:
  assumes "pool_inv p xs"
  shows "\<exists>ok p'. reset_prefix_cache p = (ok, p') \<and> pool_inv p' xs \<and>
    (ok \<longleftrightarrow> get_num_free_blocks p = num_gpu_blocks p - 1) \<and>
    (if ok then cached_block_hash_to_block p' = Map.empty \<and> (\<forall>c \<in> usable p. block_keys p' c = [])
     else p' = p)"
proof (cases "int (length xs) = num_gpu_blocks p - 1")
  case True
  from reset_ok[OF assms this] free_count_eq[OF assms] True show ?thesis by auto
next
  case False
  from reset_refused[OF assms this] free_count_eq[OF assms] False assms show ?thesis by auto
qed

theorem reset_iff_all_free_witness:
  "reset_prefix_cache taken_pool = (False, taken_pool) \<and> fst (reset_prefix_cache sample_pool)"
  using reset_iff_all_free[OF taken_pool_ok(2)] reset_iff_all_free[OF sample_pool_ok(2)]
    free_count_eq[OF taken_pool_ok(2)] free_count_eq[OF sample_pool_ok(2)] taken_pool_ok(3) sample_pool_ok(3)
  by auto

text \<open>\<open>move_block_hashes\<close> moves every key of a block to a block without one: the source loses
  all, the target holds exactly them, and the call is refused on a target with a hash.\<close>

theorem move_block_hashes_moves_all:
  assumes "pool_inv p xs" "movable p src dst"
  shows "(\<exists>p'. move_block_hashes src dst p = Inr p' \<and> pool_inv p' xs \<and> only_keys_of {src, dst} p p' \<and>
      block_keys p' src = [] \<and> set (block_keys p' dst) = set (block_keys p src)) \<and>
    (\<forall>c. block_hash (pool_heap p c) \<noteq> None \<longrightarrow> move_block_hashes src c p = Inl AssertionError)"
  using move_block_hashes_ok[OF assms(1), of src dst] assms(2) move_refused[of p _ src]
  unfolding movable_def by blast

theorem move_block_hashes_moves_all_witness:
  "\<exists>p'. move_block_hashes (Blk 1) (Blk 2) cached_pool = Inr p' \<and> block_keys p' (Blk 1) = [] \<and>
     block_keys p' (Blk 2) \<noteq> []"
proof -
  have "num_gpu_blocks cached_pool = 4"
    using cached_pool_ok(3) taken_pool_ok(3) by (simp add: only_keys_of_def same_config_def)
  then have u: "usable cached_pool = {Blk 1, Blk 2, Blk 3}" by (rule usable_sample)
  have ut: "usable taken_pool = {Blk 1, Blk 2, Blk 3}" by (rule usable_sample[OF taken_pool_ok(3)])
  have k2: "block_keys cached_pool (Blk 2) = []"
    using only_keysD(5)[OF cached_pool_ok(3), of "Blk 2"] taken_pool_ok(8) unfolding ut by simp
  have "\<not> skip_block (pool_heap taken_pool) None 0 (Blk 1)"
    using null_taken[of taken_pool 1] taken_pool_ok(2,3) by (simp add: pool_inv_def skip_block_def)
  with cacheable_ok[OF taken_pool_ok(2) sample_cacheable, of sample_hasher False] cached_pool_ok(1)
  obtain key where "key \<in> set (block_keys cached_pool (Blk 1))" by (auto simp: taken_pool_ok)
  moreover have "movable cached_pool (Blk 1) (Blk 2)" by (simp add: movable_def u k2)
  from move_block_hashes_moves_all[OF cached_pool_ok(2) this]
  obtain p' where "move_block_hashes (Blk 1) (Blk 2) cached_pool = Inr p'" "block_keys p' (Blk 1) = []"
    "set (block_keys p' (Blk 2)) = set (block_keys cached_pool (Blk 1))" by blast
  ultimately show ?thesis by (metis empty_iff list.set(1))
qed

text \<open>\<open>find_tail_entry\<close> returns the longest cached prompt tail that fits, and none exactly
  when no tail matches; it changes no block, key or free list.\<close>

theorem find_tail_entry_longest:
  assumes "pool_inv p xs" "\<forall>g \<in> set gs. 0 \<le> g \<and> g < 2 ^ 32"
  shows "\<exists>res p'. find_tail_entry rt max_len hash_tail gs p = Inr (res, p') \<and>
    pool_inv p' xs \<and> pool_core p' = pool_core p \<and>
    (let hits = {e \<in> set (opt_list (tail_entries_by_root p rt)).
                   tail_hit (cached_block_hash_to_block p) max_len hash_tail gs e} in
     case res of
       None \<Rightarrow> hits = {}
     | Some (bs, len) \<Rightarrow> (\<exists>t. (len, t) \<in> hits \<and>
         get_cached_block (cached_block_hash_to_block p) t gs = Inr (Some bs)) \<and>
         (\<forall>e \<in> hits. fst e \<le> len))"
  by (rule find_tail_entry_ok[OF assms])

theorem find_tail_entry_longest_witness:
  "\<exists>res p'. find_tail_entry None 5 (\<lambda>n. Some []) [0] sample_pool = Inr (res, p') \<and> pool_inv p' [Blk 1, Blk 2, Blk 3]"
  using find_tail_entry_longest[OF sample_pool_ok(2), of "[0]" None 5 "\<lambda>n. Some []"] by auto

text \<open>a partial block is cached under its hash: the call succeeds, keeps the invariant and
  all other blocks' keys, leaves the block hashes of the request, and when it returns a key the
  key is the block's and packs the hash of the request's prefix.\<close>

theorem partial_block_cached:
  assumes "pool_inv p xs" "partially_cacheable p r b n g bs"
  shows "\<exists>p' r' res. cache_partial_block H Ho r b n g bs p = Inr (p', r', res) \<and> pool_inv p' xs \<and>
    only_keys_of {b} p p' \<and> block_hashes r' = block_hashes r \<and>
    (case res of
       None \<Rightarrow> p' = p \<and> n mod bp_hash_block_size p \<noteq> 0
     | Some key \<Rightarrow> key \<in> set (block_keys p' b) \<and>
         (\<exists>bh r1. partial_hash Ho p r n = Inr (Some bh, r1) \<and> make_block_hash_with_group_id bh g = Inr key))"
proof -
  have "b \<in> usable p" "0 < bp_hash_block_size p" "bp_hash_block_size p < bs"
    "bs mod bp_hash_block_size p = 0" "n mod bs \<noteq> 0"
    "n div bp_hash_block_size p \<le> length (block_hashes r)" "0 \<le> g" "g < 2 ^ 32"
    using assms(2) by (auto simp: partially_cacheable_def)
  from cache_partial_block_ok[OF assms(1) this(1) refl this(2-), of H Ho]
  show ?thesis by (fastforce split: option.splits)
qed

theorem partial_block_cached_witness:
  "\<exists>p' r' res. cache_partial_block sample_hasher (Some sample_hasher) (sample_hashed [10, 11, 12, 13])
       (Blk 1) 2 0 4 taken_pool = Inr (p', r', res) \<and> pool_inv p' [Blk 3] \<and>
     (case res of None \<Rightarrow> False | Some key \<Rightarrow> key \<in> set (block_keys p' (Blk 1)))"
proof -
  have "Blk 1 \<in> usable taken_pool" using usable_sample[OF taken_pool_ok(3)] by simp
  then have c: "partially_cacheable taken_pool (sample_hashed [10, 11, 12, 13]) (Blk 1) 2 0 4"
    by (simp add: partially_cacheable_def taken_pool_ok)
  have m: "2 mod bp_hash_block_size taken_pool = 0" by (simp add: taken_pool_ok)
  obtain p' r' res where r: "cache_partial_block sample_hasher (Some sample_hasher) (sample_hashed [10, 11, 12, 13])
       (Blk 1) 2 0 4 taken_pool = Inr (p', r', res)" "pool_inv p' [Blk 3]"
    "case res of None \<Rightarrow> p' = taken_pool \<and> 2 mod bp_hash_block_size taken_pool \<noteq> 0
     | Some key \<Rightarrow> key \<in> set (block_keys p' (Blk 1)) \<and>
         (\<exists>bh r1. partial_hash (Some sample_hasher) taken_pool (sample_hashed [10, 11, 12, 13]) 2 = Inr (Some bh, r1) \<and>
            make_block_hash_with_group_id bh 0 = Inr key)"
    using partial_block_cached[OF taken_pool_ok(2) c, of sample_hasher "Some sample_hasher"] by blast
  then show ?thesis using m by (cases res) auto
qed

text \<open>C36: the walk over the free list terminates: from any block of the list,
  \<open>iter_blocks_after\<close> yields exactly the blocks behind it, and from no cursor all of them.\<close>

theorem iter_blocks_after_terminates:
  assumes "queue_repr h q (ys @ c # zs)"
  shows "iter_blocks_after h (Some c) = Some zs \<and> iter_blocks_after h None = Some (ys @ c # zs)"
  using iter_blocks_after_Some[OF assms] iter_blocks_after_None[OF assms] by blast

theorem iter_blocks_after_terminates_witness:
  "iter_blocks_after (pool_heap sample_pool) (Some (Blk 2)) = Some [Blk 3]"
proof -
  have "queue_repr (pool_heap sample_pool) (free_block_queue sample_pool) ([Blk 1] @ Blk 2 # [Blk 3])"
    using sample_pool_ok(2) by (simp add: pool_inv_def pool_free_def pool_gap_def)
  from iter_blocks_after_terminates[OF this] show ?thesis by blast
qed

text \<open>C34: the doubly linked free list refines the list of its blocks: \<open>popleft_n\<close> returns a
  prefix, \<open>remove\<close> deletes one block, \<open>prepend_n\<close> and \<open>append_n\<close> put unlinked blocks at an end;
  each succeeds and leaves the represented list so changed, and the blocks' data as it was.\<close>

theorem free_queue_refines_list:
  assumes "queue_repr (fst s) (snd s) xs"
  shows "(\<forall>n \<le> length xs. \<exists>s'. popn_st s (int n) = Inr (s', take n xs) \<and>
      queue_repr (fst s') (snd s') (drop n xs) \<and> same_data (fst s) (fst s')) \<and>
    (\<forall>x \<in> set xs. \<exists>s'. fq_remove (fst s) (snd s) x = Inr s' \<and>
      queue_repr (fst s') (snd s') (remove1 x xs) \<and> same_data (fst s) (fst s')) \<and>
    (\<forall>ds. fresh_st s ds \<longrightarrow>
      (\<exists>s'. fq_prepend_n (fst s) (snd s) ds = Inr s' \<and> queue_repr (fst s') (snd s') (ds @ xs) \<and>
         same_data (fst s) (fst s')) \<and>
      (\<exists>s'. fq_append_n (fst s) (snd s) ds = Inr s' \<and> queue_repr (fst s') (snd s') (xs @ ds) \<and>
         same_data (fst s) (fst s')))"
proof -
  have "\<exists>s'. popn_st s (int n) = Inr (s', take n xs) \<and> queue_repr (fst s') (snd s') (drop n xs) \<and>
      same_data (fst s) (fst s')" if "n \<le> length xs" for n
    using flist.popn_law[of s "take n xs" "drop n xs"] assms that by (auto simp: min_absorb2)
  then show ?thesis
    using flist.take_out_law[OF assms] flist.put_front_law[OF assms] flist.put_back_law[OF assms] by blast
qed

theorem free_queue_refines_list_witness:
  "\<exists>s'. popn_st (pool_heap sample_pool, free_block_queue sample_pool) 2 = Inr (s', [Blk 1, Blk 2]) \<and>
     queue_repr (fst s') (snd s') [Blk 3]"
proof -
  have "queue_repr (pool_heap sample_pool) (free_block_queue sample_pool) [Blk 1, Blk 2, Blk 3]"
    using sample_pool_ok(2) by (simp add: pool_inv_def pool_free_def pool_gap_def)
  then have q: "queue_repr (fst (pool_heap sample_pool, free_block_queue sample_pool))
    (snd (pool_heap sample_pool, free_block_queue sample_pool)) [Blk 1, Blk 2, Blk 3]" by simp
  from free_queue_refines_list[OF q] have "\<exists>s'. popn_st (pool_heap sample_pool, free_block_queue sample_pool)
      (int 2) = Inr (s', take 2 [Blk 1, Blk 2, Blk 3]) \<and> queue_repr (fst s') (snd s') (drop 2 [Blk 1, Blk 2, Blk 3])"
    by (elim conjE allE[of _ "2::nat"]) auto
  then show ?thesis by simp
qed

end
