(* ===== verification/Ordered_Dict.thy ===== *)
theory Ordered_Dict
  imports Prelude "HOL-Library.AList" "HOL-Library.Multiset"
begin

text \<open>
  Python's insertion-ordered dictionaries as association lists, and the bookkeeping of resources holdings
  by their values: \<open>holdings f d\<close> lists what the entries of \<open>d\<close> hold, as a multiset so that moving a
  resource between entries and a free list is arithmetic.  The tier indexes share these lemmas.
\<close>

subsection \<open>Operations\<close>

text \<open>\<open>d.move_to_end(k)\<close> for a key that is present; the callers test presence first.\<close>

definition move_to_end :: "'k \<Rightarrow> ('k \<times> 'v) list \<Rightarrow> ('k \<times> 'v) list" where
  "move_to_end k d = (case map_of d k of None \<Rightarrow> d | Some v \<Rightarrow> AList.delete k d @ [(k, v)])"

text \<open>\<open>while len(xs) < n: xs.append(x)\<close>.\<close>

definition pad_to :: "nat \<Rightarrow> 'a \<Rightarrow> 'a list \<Rightarrow> 'a list" where
  "pad_to n x xs = xs @ replicate (n - length xs) x"

definition somes :: "'a option list \<Rightarrow> 'a list" where
  "somes xs = concat (map (\<lambda>x. case x of None \<Rightarrow> [] | Some y \<Rightarrow> [y]) xs)"

lemma length_pad_to [simp]: "length (pad_to n x xs) = max n (length xs)"
  by (simp add: pad_to_def)

lemma somes_simps [simp]:
  "somes [] = []" "somes (None # xs) = somes xs" "somes (Some y # xs) = y # somes xs"
  "somes (xs @ ys) = somes xs @ somes ys"
  by (simp_all add: somes_def)

lemma set_somes: "set (somes xs) = {y. Some y \<in> set xs}"
  by (induction xs) (auto simp: somes_def split: option.splits)

lemma somes_replicate_None [simp]: "somes (replicate n None) = []"
  by (induction n) simp_all

lemma somes_pad_None [simp]: "somes (pad_to n None xs) = somes xs"
  by (simp add: pad_to_def)

lemma pad_to_nth: "i < length xs \<Longrightarrow> pad_to n x xs ! i = xs ! i"
  by (simp add: pad_to_def nth_append)

lemma concat_map_pad: "f x = [] \<Longrightarrow> concat (map f (pad_to n x xs)) = concat (map f xs)"
  by (simp add: pad_to_def)


subsection \<open>What the entries of a list hold\<close>

lemma mset_concat_update:
  assumes "i < length xs"
  shows "mset (concat (map f (xs[i := y]))) + mset (f (xs ! i)) = mset (concat (map f xs)) + mset (f y)"
  using assms
proof (induction xs arbitrary: i)
  case (Cons x xs)
  then show ?case by (cases i) (auto simp: ac_simps)
qed simp

lemma mset_somes_update:
  assumes "i < length xs"
  shows "mset (somes (xs[i := y])) + mset (somes [xs ! i]) = mset (somes xs) + mset (somes [y])"
  using mset_concat_update[OF assms, of "\<lambda>x. case x of None \<Rightarrow> [] | Some y \<Rightarrow> [y]" y]
  by (simp add: somes_def)

text \<open>Resources exchanged between an entry and what is in hand leave the total alone.\<close>

lemma mset_exchange:
  assumes "A + g = H + t" and "t + L' = g + L"
  shows "A + L' = H + (L :: 'a multiset)"
proof (rule multiset_eqI)
  fix x
  show "count (A + L') x = count (H + L) x"
    using arg_cong[OF assms(1), of "\<lambda>m. count m x"] arg_cong[OF assms(2), of "\<lambda>m. count m x"] by simp
qed

lemma mset_distinct_parts:
  assumes "mset xs + M = mset ys" "distinct ys"
  shows "distinct xs" "set xs \<inter> set_mset M = {}"
proof -
  obtain zs where zs: "M = mset zs" using ex_mset by metis
  then have "mset (xs @ zs) = mset ys" using assms(1) by simp
  then have "distinct (xs @ zs)" using assms(2) mset_eq_imp_distinct_iff by blast
  then show "distinct xs" "set xs \<inter> set_mset M = {}" by (auto simp: zs)
qed

definition holdings :: "('v \<Rightarrow> 'a list) \<Rightarrow> ('k \<times> 'v) list \<Rightarrow> 'a multiset" where
  "holdings f d = mset (concat (map (\<lambda>(k, v). f v) d))"

lemma holdings_simps [simp]:
  "holdings f [] = {#}" "holdings f ((k, v) # d) = mset (f v) + holdings f d"
  "holdings f (d @ d') = holdings f d + holdings f d'"
  by (simp_all add: holdings_def)

lemma set_holdings: "set_mset (holdings f d) = (\<Union>(k, v) \<in> set d. set (f v))"
  by (auto simp: holdings_def)

lemma holdings_ge: "(k, v) \<in> set d \<Longrightarrow> mset (f v) \<subseteq># holdings f d"
proof (induction d)
  case (Cons e d)
  show ?case
  proof (cases "e = (k, v)")
    case True
    then show ?thesis by simp
  next
    case False
    then have "mset (f v) \<subseteq># holdings f d" using Cons by auto
    then show ?thesis by (cases e) (auto intro: subset_mset.order_trans)
  qed
qed simp

lemma holdings_new: "map_of d k = None \<Longrightarrow> holdings f (AList.update k v d) = holdings f d + mset (f v)"
  by (induction d) (auto simp: ac_simps split: if_splits)

lemma holdings_set:
  "map_of d k = Some w \<Longrightarrow> holdings f (AList.update k v d) + mset (f w) = holdings f d + mset (f v)"
  by (induction d) (auto simp: ac_simps split: if_splits)

lemma holdings_delete:
  assumes "map_of d k = Some v" "distinct (map fst d)"
  shows "holdings f (AList.delete k d) + mset (f v) = holdings f d"
  using assms
proof (induction d)
  case (Cons e d)
  obtain j w where e: "e = (j, w)" by (cases e)
  show ?case
  proof (cases "j = k")
    case True
    then have "AList.delete k d = d" using Cons.prems by (simp add: e)
    then show ?thesis using Cons.prems True by (simp add: e ac_simps)
  next
    case False
    then show ?thesis using Cons by (simp add: e ac_simps)
  qed
qed simp

lemma holdings_move [simp]: "distinct (map fst d) \<Longrightarrow> holdings f (move_to_end k d) = holdings f d"
  by (auto simp: move_to_end_def holdings_delete split: option.splits)

lemma set_dict_delete: "set (AList.delete k d) = {e \<in> set d. fst e \<noteq> k}"
  by (auto simp: AList.delete_eq)

lemma set_dict_update:
  "distinct (map fst d) \<Longrightarrow> set (AList.update k v d) = insert (k, v) {e \<in> set d. fst e \<noteq> k}"
proof (induction d)
  case (Cons e d)
  obtain j w where e: "e = (j, w)" by (cases e)
  show ?case
  proof (cases "j = k")
    case True
    then have "\<forall>x \<in> set d. fst x \<noteq> k" using Cons.prems by (auto simp: e)
    then show ?thesis using True by (auto simp: e)
  next
    case False
    then show ?thesis using Cons by (auto simp: e)
  qed
qed simp

lemma set_move_to_end [simp]: "distinct (map fst d) \<Longrightarrow> set (move_to_end k d) = set d"
  by (auto simp: move_to_end_def set_dict_delete map_of_eq_Some_iff split: option.splits
      dest: map_of_SomeD) (metis eq_key_imp_eq_value map_of_SomeD)

lemma distinct_dict_delete: "distinct (map fst d) \<Longrightarrow> distinct (map fst (AList.delete k d))"
  by (simp add: distinct_delete)

lemma distinct_move_to_end [simp]: "distinct (map fst d) \<Longrightarrow> distinct (map fst (move_to_end k d))"
  by (auto simp: move_to_end_def distinct_dict_delete set_dict_delete split: option.splits)

lemma map_of_move_to_end [simp]: "map_of (move_to_end k d) = map_of d"
  by (auto simp: move_to_end_def fun_eq_iff map_add_def delete_conv' split: option.splits)


text \<open>Taking one entry out of a list or a dictionary.\<close>

lemma mset_dict_delete:
  "map_of d k = Some v \<Longrightarrow> distinct (map fst d) \<Longrightarrow> mset d = add_mset (k, v) (mset (AList.delete k d))"
proof (induction d)
  case (Cons e d)
  obtain j w where e: "e = (j, w)" by (cases e)
  show ?case
  proof (cases "j = k")
    case True
    then have "AList.delete k d = d" using Cons.prems by (simp add: e)
    then show ?thesis using Cons.prems True by (simp add: e)
  next
    case False
    then show ?thesis using Cons by (simp add: e)
  qed
qed simp

lemma distinct_take_out:
  assumes "mset xs = add_mset x (mset ys)" "distinct (map f xs)"
  shows "distinct (map f ys)" "f x \<notin> f ` set ys"
proof -
  have "mset (map f xs) = mset (map f (x # ys))" using assms(1) by simp
  then have "distinct (map f (x # ys))" using assms(2) mset_eq_imp_distinct_iff by blast
  then show "distinct (map f ys)" "f x \<notin> f ` set ys" by simp_all
qed

lemma update_nonmem: "k \<notin> fst ` set d \<Longrightarrow> AList.update k v d = d @ [(k, v)]"
  by (induction d) auto

end
