(* ===== verification/Group_Manager.thy ===== *)
theory Group_Manager
  imports Pool_System Ordered_Dict
begin

text \<open>
  \<open>SingleTypeKVCacheManager\<close> of \<^verbatim>\<open>core/single_type_kv_cache_manager.py\<close> with its full-attention and
  sliding-window subclasses: which blocks each request holds in one KV cache group, and every method
  that changes it.  The manager shares the block pool: a method maps the pair of the pool and the
  manager.  A \<open>defaultdict\<close> access inserts the key (\<open>default_blocks\<close>).  Token and block counts are
  naturals; block sizes are positive.  Decode and prefill context parallelism are off
  (\<open>dcp_world_size = pcp_world_size = 1\<close>).  A block is the null block of the pool when it is its
  \<open>null_block\<close> object; the code compares the fields, which begin with the id.
\<close>

datatype manager_kind = FullAttention | SlidingWindow nat

record group_manager =
  gm_kind :: manager_kind
  gm_block_size :: nat
  cache_hit_alignment_tokens :: nat
  gm_enable_caching :: bool
  max_admission_blocks :: "nat option"
  record_new_block_ids :: bool
  new_block_ids :: "int list"
  req_to_blocks :: "(string \<times> bref list) list"
  num_cached_block :: "(string \<times> nat) list"
  gm_group_id :: int
  gm_use_eagle :: bool
  prompt_tail_replay :: bool
  partial_hit_reqs :: "(string \<times> nat \<times> bref) list"
  pending_cow_copies :: "(bref \<times> bref) list"

definition manager_init ::
  "manager_kind \<Rightarrow> nat \<Rightarrow> bool \<Rightarrow> int \<Rightarrow> nat \<Rightarrow> bool \<Rightarrow> nat option \<Rightarrow> group_manager" where
  "manager_init kind bs caching g scheduler_bs records cap =
     \<lparr>gm_kind = kind, gm_block_size = bs, cache_hit_alignment_tokens = scheduler_bs,
      gm_enable_caching = caching, max_admission_blocks = cap, record_new_block_ids = records,
      new_block_ids = [], req_to_blocks = [], num_cached_block = [], gm_group_id = g,
      gm_use_eagle = False, prompt_tail_replay = False, partial_hit_reqs = [], pending_cow_copies = []\<rparr>"

text \<open>\<open>cdiv\<close>: \<open>-(a // -b)\<close>, rounded up.\<close>

definition cdiv_nat :: "nat \<Rightarrow> nat \<Rightarrow> nat" where
  "cdiv_nat a b = nat (- (int a div - int b))"

definition blocks_of :: "string \<Rightarrow> group_manager \<Rightarrow> bref list" where
  "blocks_of rid m = opt_list (map_of (req_to_blocks m) rid)"

definition default_blocks :: "string \<Rightarrow> group_manager \<Rightarrow> group_manager" where
  "default_blocks rid m = m\<lparr>req_to_blocks := AList.update rid (blocks_of rid m) (req_to_blocks m)\<rparr>"

definition set_blocks :: "string \<Rightarrow> bref list \<Rightarrow> group_manager \<Rightarrow> group_manager" where
  "set_blocks rid bs m = m\<lparr>req_to_blocks := AList.update rid bs (req_to_blocks m)\<rparr>"

definition set_cached :: "string \<Rightarrow> nat \<Rightarrow> group_manager \<Rightarrow> group_manager" where
  "set_cached rid n m = m\<lparr>num_cached_block := AList.update rid n (num_cached_block m)\<rparr>"

primrec num_skipped_tokens :: "manager_kind \<Rightarrow> nat \<Rightarrow> nat" where
  "num_skipped_tokens FullAttention n = 0"
| "num_skipped_tokens (SlidingWindow w) n = nat (max 0 (int n - int w + 1))"


subsection \<open>How many blocks a request needs\<close>

definition num_evictable_blocks :: "block_pool \<Rightarrow> bref list \<Rightarrow> nat" where
  "num_evictable_blocks p bs =
     length (filter (\<lambda>b. ref_cnt (pool_heap p b) = 0 \<and> \<not> is_null (pool_heap p b)) bs)"

definition has_partial_local_hit :: "group_manager \<Rightarrow> bref list \<Rightarrow> nat \<Rightarrow> bool" where
  "has_partial_local_hit m new_computed num_local \<longleftrightarrow> new_computed \<noteq> [] \<and> num_local mod gm_block_size m \<noteq> 0"

definition get_num_blocks_to_allocate ::
  "block_pool \<Rightarrow> group_manager \<Rightarrow> string \<Rightarrow> nat \<Rightarrow> bref list \<Rightarrow> nat \<Rightarrow> nat \<Rightarrow> bool \<Rightarrow> nat res" where
  "get_num_blocks_to_allocate p m rid toks new_computed total_computed num_local apply_cap =
     (let bs = gm_block_size m;
          required0 = cdiv_nat toks bs;
          required = (case max_admission_blocks m of
             Some cap \<Rightarrow> if apply_cap then min required0 cap else required0 | None \<Rightarrow> required0);
          num_req = length (blocks_of rid m) in
      if map_of (num_cached_block m) rid \<noteq> None
      then rbind (guard AssertionError (new_computed = [])) (\<lambda>_. Inr (required - num_req))
      else
        let skipped = num_skipped_tokens (gm_kind m) total_computed div bs;
            num_new = required - max skipped (length new_computed + num_req);
            evictable = num_evictable_blocks p (drop (skipped - num_req) new_computed) in
        Inr ((if has_partial_local_hit m new_computed num_local then num_new + 1 else num_new) + evictable))"


subsection \<open>Taking blocks\<close>

type_synonym pool_manager = "block_pool \<times> group_manager"

definition add_local_computed_blocks ::
  "string \<Rightarrow> bref list \<Rightarrow> nat \<Rightarrow> nat \<Rightarrow> pool_manager \<Rightarrow> pool_manager res" where
  "add_local_computed_blocks rid new_computed num_local num_external = (\<lambda>(p, m).
     rbind (guard AssertionError (blocks_of rid m = [])) (\<lambda>_.
       let skipped = num_skipped_tokens (gm_kind m) (num_local + num_external) div gm_block_size m;
           new = drop skipped new_computed in
       rbind (if gm_enable_caching m then touch new p
              else rbind (guard AssertionError (new = [])) (\<lambda>_. Inr p)) (\<lambda>p1.
         let blocks = replicate skipped (null_block p) @ new;
             m1 = set_cached rid (length blocks) (set_blocks rid blocks m) in
         if has_partial_local_hit m new num_local then
           let idx = num_local div gm_block_size m in
           Inr (p1, set_cached rid idx
             (m1\<lparr>partial_hit_reqs := AList.update rid (idx, last new) (partial_hit_reqs m1)\<rparr>))
         else Inr (p1, m1))))"

definition note_new_ids :: "block_pool \<Rightarrow> bref list \<Rightarrow> group_manager \<Rightarrow> group_manager" where
  "note_new_ids p bs m =
     (if record_new_block_ids m
      then m\<lparr>new_block_ids := new_block_ids m @ map (\<lambda>b. block_id (pool_heap p b)) bs\<rparr> else m)"

text \<open>\<open>req_blocks.extend(get_new_blocks(n))\<close> and the record of the new ids.\<close>

definition extend_blocks :: "string \<Rightarrow> nat \<Rightarrow> pool_manager \<Rightarrow> (bref list \<times> pool_manager) res" where
  "extend_blocks rid n = (\<lambda>(p, m).
     rbind (get_new_blocks (int n) p) (\<lambda>(p1, new).
       Inr (new, p1, note_new_ids p1 new (set_blocks rid (blocks_of rid m @ new) m))))"

definition allocate_external_computed_blocks ::
  "string \<Rightarrow> nat \<Rightarrow> nat \<Rightarrow> pool_manager \<Rightarrow> pool_manager res" where
  "allocate_external_computed_blocks rid num_local num_external = (\<lambda>(p, m).
     let total = num_local + num_external;
         skipped = num_skipped_tokens (gm_kind m) total;
         external = (if skipped > 0 then min (total - skipped) num_external else num_external) in
     if external = 0 then Inr (p, m)
     else rbind (extend_blocks rid (cdiv_nat total (gm_block_size m) - length (blocks_of rid m)) (p, m))
       (\<lambda>(_, s). Inr s))"

definition apply_cow :: "string \<Rightarrow> nat \<Rightarrow> bref \<Rightarrow> bref \<Rightarrow> pool_manager \<Rightarrow> pool_manager res" where
  "apply_cow rid idx source cow = (\<lambda>(p, m).
     let blocks = blocks_of rid m in
     rbind (guard AssertionError (idx < length blocks)) (\<lambda>_.
     rbind (guard AssertionError (blocks ! idx = source)) (\<lambda>_.
     rbind (guard AssertionError (\<not> is_null (pool_heap p source) \<and> 0 < ref_cnt (pool_heap p source))) (\<lambda>_.
       Inr (add_ref 1 cow p,
            (set_blocks rid (blocks[idx := cow]) m)
              \<lparr>pending_cow_copies := pending_cow_copies m @ [(source, cow)]\<rparr>)))))"

definition redirect_partial_hit :: "string \<Rightarrow> pool_manager \<Rightarrow> (bref list \<times> pool_manager) res" where
  "redirect_partial_hit rid = (\<lambda>(p, m).
     case map_of (partial_hit_reqs m) rid of
       None \<Rightarrow> Inr ([], p, m)
     | Some (idx, source) \<Rightarrow>
         rbind (get_new_blocks 1 p) (\<lambda>(p1, new).
         rbind (py_nth new 0) (\<lambda>cow.
         rbind (apply_cow rid idx source cow
                  (p1, m\<lparr>partial_hit_reqs := AList.delete rid (partial_hit_reqs m)\<rparr>)) (\<lambda>(p2, m2).
           Inr ([cow], p2, m2\<lparr>new_block_ids := new_block_ids m2 @ [block_id (pool_heap p2 cow)]\<rparr>)))))"

definition allocate_new_blocks :: "string \<Rightarrow> nat \<Rightarrow> pool_manager \<Rightarrow> (bref list \<times> pool_manager) res" where
  "allocate_new_blocks rid toks s =
     rbind (redirect_partial_hit rid s) (\<lambda>(cow, p1, m1).
       let required = cdiv_nat toks (gm_block_size m1); have_blocks = length (blocks_of rid m1) in
       if required \<le> have_blocks then Inr (cow, p1, default_blocks rid m1)
       else rbind (extend_blocks rid (required - have_blocks) (p1, m1)) (\<lambda>(new, s2). Inr (cow @ new, s2)))"

definition take_new_block_ids :: "group_manager \<Rightarrow> int list \<times> group_manager" where
  "take_new_block_ids m = (new_block_ids m, m\<lparr>new_block_ids := []\<rparr>)"

definition take_pending_cow_copies :: "group_manager \<Rightarrow> (bref \<times> bref) list \<times> group_manager" where
  "take_pending_cow_copies m = (pending_cow_copies m, m\<lparr>pending_cow_copies := []\<rparr>)"


subsection \<open>Caching\<close>

definition contiguous_blocks_for_hit :: "nat \<Rightarrow> nat \<Rightarrow> bool \<Rightarrow> nat" where
  "contiguous_blocks_for_hit window bs use_eagle =
     (let blocks = cdiv_nat (window - 1) bs in if use_eagle then blocks + 1 else blocks)"

text \<open>\<open>SlidingWindowManager.reachable_block_mask\<close>: the blocks of \<open>[first, end)\<close> that some hit can use.
  Segment boundaries set the mask first, then the explicit boundaries.\<close>

definition segment_mask :: "nat \<Rightarrow> nat \<Rightarrow> nat \<Rightarrow> nat \<Rightarrow> nat \<Rightarrow> bool list" where
  "segment_mask first end shift per_segment need =
     map (\<lambda>i. shift \<le> i \<and> int per_segment - int need \<le> int ((i - shift) mod per_segment)) [first..<end]"

definition boundary_end :: "bool \<Rightarrow> nat \<Rightarrow> nat \<Rightarrow> nat \<Rightarrow> int \<Rightarrow> int" where
  "boundary_end fine align bs shift boundary =
     (if fine then max (boundary - 1) 0 div int bs + 1
      else boundary div int align * int align div int bs + int shift)"

definition mark_boundary :: "nat \<Rightarrow> nat \<Rightarrow> nat \<Rightarrow> int \<Rightarrow> bool list \<Rightarrow> bool list" where
  "mark_boundary first end need e marks =
     fold (\<lambda>j ms. ms[nat (j - int first) := True]) [max (int first) (e - int need)..min (int end) e - 1] marks"

definition sliding_mask ::
  "nat \<Rightarrow> nat \<Rightarrow> nat \<Rightarrow> nat \<Rightarrow> nat \<Rightarrow> bool \<Rightarrow> nat option \<Rightarrow> int list \<Rightarrow> bool list option res" where
  "sliding_mask first end align bs window use_eagle retention boundaries =
     (let fine = (align < bs) in
      rbind (guard AssertionError (if fine then bs mod align = 0 else align mod bs = 0)) (\<lambda>_.
        if fine \<and> retention = None then Inr None
        else
          let need = contiguous_blocks_for_hit window bs (use_eagle \<and> \<not> fine);
              shift = (if use_eagle \<and> \<not> fine then 1 else 0);
              segment = (case retention of None \<Rightarrow> Some align | Some t \<Rightarrow> if t = 0 then None else Some t) in
          if (case segment of None \<Rightarrow> False | Some t \<Rightarrow> t div bs \<le> need) then Inr None
          else
            let mask0 = (case segment of
                  None \<Rightarrow> replicate (end - first) False
                | Some t \<Rightarrow> segment_mask first end shift (t div bs) need) in
            Inr (Some (if retention = None then mask0
              else fold (\<lambda>b. mark_boundary first end need (boundary_end fine align bs shift b)) boundaries mask0))))"

definition reachable_block_mask ::
  "group_manager \<Rightarrow> nat \<Rightarrow> nat \<Rightarrow> nat option \<Rightarrow> int list \<Rightarrow> bool list option res" where
  "reachable_block_mask m first end retention boundaries =
     (case gm_kind m of
        FullAttention \<Rightarrow> Inr None
      | SlidingWindow w \<Rightarrow> sliding_mask first end (cache_hit_alignment_tokens m) (gm_block_size m) w
                            (gm_use_eagle m) retention boundaries)"

definition reachable_boundaries :: "request \<Rightarrow> int list" where
  "reachable_boundaries r =
     [int (num_prompt_tokens r) - 1] @ (if shared_prefix_boundary r \<noteq> 0 then [shared_prefix_boundary r] else [])"

text \<open>\<open>SingleTypeKVCacheManager.cache_blocks\<close>; both subclasses keep partial entries on fill.\<close>

definition cache_full_prefix ::
  "block_hasher \<Rightarrow> request \<Rightarrow> nat \<Rightarrow> nat option \<Rightarrow> pool_manager \<Rightarrow> pool_manager res" where
  "cache_full_prefix H r num_toks retention = (\<lambda>(p, m).
     let rid = request_id r;
         cached = (case map_of (num_cached_block m) rid of None \<Rightarrow> 0 | Some n \<Rightarrow> n);
         full = num_toks div gm_block_size m in
     if full \<le> cached then Inr (p, m)
     else rbind (reachable_block_mask m cached full retention (reachable_boundaries r)) (\<lambda>bmask.
       rbind (cache_full_blocks H r (blocks_of rid m) cached full (gm_block_size m) (gm_group_id m) bmask True p)
         (\<lambda>p1. Inr (p1, set_cached rid full (default_blocks rid m)))))"

definition cache_partial_tail_block ::
  "block_hasher \<Rightarrow> block_hasher option \<Rightarrow> request \<Rightarrow> nat \<Rightarrow> pool_manager \<Rightarrow> (request \<times> pool_manager) res" where
  "cache_partial_tail_block H Ho r num_toks = (\<lambda>(p, m).
     let boundary = prompt_tail_boundary (num_prompt_tokens r) (bp_hash_block_size p) (prompt_tail_replay m);
         bs = gm_block_size m in
     if boundary \<le> 0 \<or> boundary \<noteq> int num_toks then Inr (r, p, m)
     else if num_toks mod bs = 0 then Inr (r, p, m)
     else
       let m1 = default_blocks (request_id r) m; blocks = blocks_of (request_id r) m; idx = num_toks div bs in
       if length blocks \<le> idx then Inr (r, p, m1)
       else rbind (cache_partial_block H Ho r (blocks ! idx) num_toks (gm_group_id m) bs p)
         (\<lambda>(p1, r1, _). Inr (r1, p1, m1)))"

definition cache_blocks ::
  "block_hasher \<Rightarrow> block_hasher option \<Rightarrow> request \<Rightarrow> nat \<Rightarrow> nat option \<Rightarrow> pool_manager \<Rightarrow>
   (request \<times> pool_manager) res" where
  "cache_blocks H Ho r num_toks retention s =
     rbind (cache_full_prefix H r num_toks retention s) (\<lambda>(p, m).
       if gm_block_size m = bp_hash_block_size p then Inr (r, p, m)
       else cache_partial_tail_block H Ho r num_toks (p, m))"


subsection \<open>Giving blocks back\<close>

definition pop_blocks_for_free :: "string \<Rightarrow> group_manager \<Rightarrow> bref list \<times> group_manager" where
  "pop_blocks_for_free rid m =
     (blocks_of rid m,
      m\<lparr>req_to_blocks := AList.delete rid (req_to_blocks m),
        num_cached_block := AList.delete rid (num_cached_block m),
        partial_hit_reqs := AList.delete rid (partial_hit_reqs m)\<rparr>)"

definition free_request :: "string \<Rightarrow> pool_manager \<Rightarrow> pool_manager res" where
  "free_request rid = (\<lambda>(p, m).
     let (blocks, m1) = pop_blocks_for_free rid m in
     rbind (free_blocks (rev blocks) p) (\<lambda>p1. Inr (p1, m1)))"

text \<open>The backward loop of \<open>_remove_blocks_in_range\<close>: it stops at the first null block.\<close>

fun null_backward :: "bref \<Rightarrow> nat list \<Rightarrow> bref list \<Rightarrow> bref list \<Rightarrow> bref list \<times> bref list" where
  "null_backward nb [] blocks freed = (blocks, freed)"
| "null_backward nb (i # is) blocks freed =
     (if blocks ! i = nb then (blocks, freed)
      else null_backward nb is (blocks[i := nb]) (freed @ [blocks ! i]))"

definition remove_blocks_in_range :: "string \<Rightarrow> nat \<Rightarrow> nat \<Rightarrow> pool_manager \<Rightarrow> pool_manager res" where
  "remove_blocks_in_range rid first end = (\<lambda>(p, m).
     if map_of (req_to_blocks m) rid = None \<or> end \<le> first then Inr (p, m)
     else
       let blocks = blocks_of rid m;
           (blocks', freed) = null_backward (null_block p) (rev [first..<min end (length blocks)]) blocks [] in
       rbind (if freed = [] then Inr p else free_blocks freed p) (\<lambda>p1.
         Inr (p1, set_blocks rid blocks' m)))"

definition remove_skipped_blocks :: "string \<Rightarrow> nat \<Rightarrow> pool_manager \<Rightarrow> pool_manager res" where
  "remove_skipped_blocks rid processed = (\<lambda>(p, m).
     let skipped_tokens = num_skipped_tokens (gm_kind m) processed in
     if skipped_tokens = 0 then Inr (p, m)
     else
       let m1 = default_blocks rid m;
           n = min (skipped_tokens div gm_block_size m) (length (blocks_of rid m)) in
       remove_blocks_in_range rid 0 n (p, m1))"

definition get_num_common_prefix_blocks :: "string \<Rightarrow> pool_manager \<Rightarrow> nat \<times> pool_manager" where
  "get_num_common_prefix_blocks rid = (\<lambda>(p, m).
     case gm_kind m of
       FullAttention \<Rightarrow>
         let m1 = default_blocks rid m in
         (length (takeWhile (\<lambda>b. ref_cnt (pool_heap p b) = int (length (req_to_blocks m1))) (blocks_of rid m1)), p, m1)
     | SlidingWindow w \<Rightarrow> (0, p, m))"

end
