(* ===== verification/Cache_Lookup.thy ===== *)
theory Cache_Lookup
  imports Group_Manager
begin

text \<open>
  \<open>find_longest_cache_hit\<close> of the full-attention and the sliding-window manager
  (\<^verbatim>\<open>core/single_type_kv_cache_manager.py\<close>), and the part they share: probing the hash boundaries and
  prompt tails inside the block after the hit.  \<open>own_hash\<close> is the caller's hash of its own first
  tokens; \<open>gs\<close> are the KV cache groups that must all hit, and the result has one list per group.
\<close>

subsection \<open>One hash, all groups\<close>

text \<open>\<open>get_cached_block\<close> as a condition: \<open>None\<close> and an empty list are false.\<close>

definition get_hit :: "hash_map \<Rightarrow> bytes \<Rightarrow> int list \<Rightarrow> bref list option res" where
  "get_hit m bh gs = rbind (get_cached_block m bh gs) (\<lambda>r. Inr (if r = Some [] then None else r))"

definition append_hit :: "bref list list \<Rightarrow> bref list \<Rightarrow> bref list list" where
  "append_hit computed cached = map (\<lambda>(c, b). c @ [b]) (zip computed cached)"

definition first_length :: "bref list list \<Rightarrow> nat res" where
  "first_length computed = rbind (py_nth computed 0) (\<lambda>c. Inr (length c))"


subsection \<open>Inside the next block\<close>

definition find_prompt_tail ::
  "bytes list \<Rightarrow> nat \<Rightarrow> nat \<Rightarrow> int \<Rightarrow> (nat \<Rightarrow> bytes option) \<Rightarrow> int list \<Rightarrow> block_pool \<Rightarrow>
   ((bref list \<times> nat) option \<times> block_pool) res" where
  "find_prompt_tail hs unit_idx hbs max_tail_len own_hash gs p =
     (if max_tail_len \<le> 0 then Inr (None, p)
      else
        rbind (if unit_idx > 0 then rbind (py_nth hs (int unit_idx - 1)) (\<lambda>h. Inr (Some h)) else Inr None)
          (\<lambda>root. find_tail_entry root max_tail_len (\<lambda>n. own_hash (unit_idx * hbs + n)) gs p))"

text \<open>The result: blocks, hit length, unit index and whether the hit is a prompt tail.\<close>

fun partial_hit_loop ::
  "nat list \<Rightarrow> bytes list \<Rightarrow> nat \<Rightarrow> nat \<Rightarrow> nat \<Rightarrow> (nat \<Rightarrow> bytes option) option \<Rightarrow> int list \<Rightarrow> block_pool \<Rightarrow>
   ((bref list \<times> nat \<times> nat \<times> bool) option \<times> block_pool) res" where
  "partial_hit_loop [] hs max_unit hbs max_len own_hash gs p = Inr (None, p)"
| "partial_hit_loop (u # us) hs max_unit hbs max_len own_hash gs p =
     rbind (case own_hash of
              None \<Rightarrow> Inr (None, p)
            | Some f \<Rightarrow> find_prompt_tail hs u hbs (min (int max_len - int (u * hbs)) (int hbs - 1)) f gs p)
       (\<lambda>(tail, p1). case tail of
          Some (cached, n) \<Rightarrow> Inr (Some (cached, u * hbs + n, u, True), p1)
        | None \<Rightarrow>
            if u = max_unit then partial_hit_loop us hs max_unit hbs max_len own_hash gs p1
            else rbind (py_nth hs (int u)) (\<lambda>h.
              rbind (get_hit (cached_block_hash_to_block p1) h gs) (\<lambda>r. case r of
                Some cached \<Rightarrow> Inr (Some (cached, (u + 1) * hbs, u, False), p1)
              | None \<Rightarrow> partial_hit_loop us hs max_unit hbs max_len own_hash gs p1)))"

definition find_partial_block_hit ::
  "bytes list \<Rightarrow> nat \<Rightarrow> nat \<Rightarrow> nat \<Rightarrow> nat \<Rightarrow> (nat \<Rightarrow> bytes option) option \<Rightarrow> int list \<Rightarrow> block_pool \<Rightarrow>
   ((bref list \<times> nat \<times> nat \<times> bool) option \<times> block_pool) res" where
  "find_partial_block_hit hs first_unit max_unit hbs max_len own_hash gs p =
     partial_hit_loop (rev [first_unit..<max_unit + 1]) hs max_unit hbs max_len own_hash gs p"

text \<open>The steps both lookups end with in fine-grained mode: blocks found so far, the hit length without
  a partial hit, and what the partial hit makes of them.\<close>

definition extend_partial ::
  "bytes list \<Rightarrow> nat \<Rightarrow> nat \<Rightarrow> nat \<Rightarrow> (nat \<Rightarrow> bytes option) option \<Rightarrow> int list \<Rightarrow> bref list list \<Rightarrow> nat \<Rightarrow>
   block_pool \<Rightarrow> (bref list list \<times> nat \<times> bool \<times> block_pool) res" where
  "extend_partial hs bs align max_len own_hash gs computed n p =
     (let scale = bs div align; first_partial = n * scale;
          max_partial = min (min (first_partial + scale - 1) (max_len div align)) (length hs) in
      rbind (find_partial_block_hit hs first_partial max_partial align max_len own_hash gs p) (\<lambda>(hit, p1).
        case hit of
          None \<Rightarrow> Inr (computed, n * bs, False, p1)
        | Some (cached, hit_length, _, is_tail) \<Rightarrow> Inr (append_hit computed cached, hit_length, is_tail, p1)))"

definition raw_hashes :: "hash_view \<Rightarrow> bytes list res" where
  "raw_hashes v = (case v of RawHashes hs \<Rightarrow> Inr hs | ScaledHashes hs k \<Rightarrow> Inl AssertionError)"


subsection \<open>Full attention\<close>

fun hit_run :: "hash_map \<Rightarrow> int list \<Rightarrow> bytes list \<Rightarrow> bref list list \<Rightarrow> bref list list res" where
  "hit_run m gs [] computed = Inr computed"
| "hit_run m gs (h # hs) computed =
     rbind (get_hit m h gs) (\<lambda>r. case r of
       None \<Rightarrow> Inr computed
     | Some cached \<Rightarrow> hit_run m gs hs (append_hit computed cached))"

definition full_longest_hit ::
  "hash_view \<Rightarrow> nat \<Rightarrow> int list \<Rightarrow> nat \<Rightarrow> bool \<Rightarrow> nat \<Rightarrow> (nat \<Rightarrow> bytes option) option \<Rightarrow> block_pool \<Rightarrow>
   (bref list list \<times> nat \<times> block_pool) res" where
  "full_longest_hit hashes max_len gs bs drop_eagle align own_hash p =
     rbind (resolve_block_hashes hashes (int (bp_hash_block_size p)) (int bs) True (Some (int align))) (\<lambda>view.
     let fine = (align < bs \<and> bs mod align = 0) in
     rbind (if fine then rbind (raw_hashes view) (\<lambda>hs. make_scaled hs (int align) (int bs)) else Inr view) (\<lambda>full_view.
     rbind (view_iter full_view) (\<lambda>full_hs.
     rbind (hit_run (cached_block_hash_to_block p) gs (take (max_len div bs) full_hs) (map (\<lambda>_. []) gs)) (\<lambda>computed.
     rbind (first_length computed) (\<lambda>n.
     rbind (if fine then rbind (raw_hashes view) (\<lambda>hs. extend_partial hs bs align max_len own_hash gs computed n p)
            else Inr (computed, n * bs, False, p)) (\<lambda>(computed1, hit1, is_tail, p1).
       let hit2 = (if drop_eagle \<and> 0 < hit1 \<and> \<not> is_tail then hit1 - min align bs else hit1);
           hit3 = (if is_tail then hit2 else hit2 - hit2 mod align)
       in Inr (map (take (cdiv_nat hit3 bs)) computed1, hit3, p1)))))))"


subsection \<open>Sliding window\<close>

text \<open>The search from right to left; the first argument is \<open>i + 1\<close>.  The result: the blocks, the length
  of the last run and whether the run is long enough.\<close>

fun sliding_scan ::
  "nat \<Rightarrow> hash_map \<Rightarrow> int list \<Rightarrow> hash_view \<Rightarrow> nat \<Rightarrow> nat \<Rightarrow> bool \<Rightarrow> bool \<Rightarrow> nat \<Rightarrow> bref list list \<Rightarrow> nat \<Rightarrow>
   (bref list list \<times> nat \<times> bool) res" where
  "sliding_scan 0 m gs view bs align fine drop_eagle need computed run = Inr (computed, run, False)"
| "sliding_scan (Suc i) m gs view bs align fine drop_eagle need computed run =
     rbind (view_at view (int i)) (\<lambda>h.
     rbind (get_hit m h gs) (\<lambda>r. case r of
       None \<Rightarrow> sliding_scan i m gs view bs align fine drop_eagle need computed 0
     | Some cached \<Rightarrow>
         if run = 0 \<and> \<not> fine \<and> bs \<noteq> align \<and> ((if drop_eagle then i else i + 1) * bs) mod align \<noteq> 0
         then sliding_scan i m gs view bs align fine drop_eagle need computed run
         else
           let computed1 = map (\<lambda>(c, b). c[i := b]) (zip computed cached) in
           if need \<le> run + 1 then Inr (map (take (i + (run + 1))) computed1, run + 1, True)
           else sliding_scan i m gs view bs align fine drop_eagle need computed1 (run + 1)))"

text \<open>\<open>while len(...) * block_size % alignment_tokens != 0: pop\<close>.\<close>

fun align_down :: "nat \<Rightarrow> nat \<Rightarrow> nat \<Rightarrow> nat" where
  "align_down bs align 0 = 0"
| "align_down bs align (Suc n) = (if (Suc n * bs) mod align \<noteq> 0 then align_down bs align n else Suc n)"

definition sliding_longest_hit ::
  "hash_view \<Rightarrow> nat \<Rightarrow> int list \<Rightarrow> nat \<Rightarrow> nat \<Rightarrow> bool \<Rightarrow> nat \<Rightarrow> (nat \<Rightarrow> bytes option) option \<Rightarrow> block_pool \<Rightarrow>
   (bref list list \<times> nat \<times> block_pool) res" where
  "sliding_longest_hit hashes max_len gs bs window drop_eagle align own_hash p =
     rbind (resolve_block_hashes hashes (int (bp_hash_block_size p)) (int bs) True (Some (int align))) (\<lambda>view.
     let fine = (align < bs \<and> bs mod align = 0) in
     rbind (if fine then rbind (raw_hashes view) (\<lambda>hs. make_scaled hs (int align) (int bs))
            else rbind (guard AssertionError (align mod bs = 0)) (\<lambda>_. Inr view)) (\<lambda>full_view.
     let need = contiguous_blocks_for_hit window bs (drop_eagle \<and> \<not> fine); n = max_len div bs;
         realign = (\<lambda>c. if \<not> fine \<and> bs \<noteq> align then take (align_down bs align (length c)) c else c) in
     rbind (sliding_scan n (cached_block_hash_to_block p) gs full_view bs align fine drop_eagle need
              (map (\<lambda>_. replicate n (null_block p)) gs) 0) (\<lambda>(computed, run, found).
     let computed1 = (if found then computed else map (\<lambda>c. realign (take run c)) computed) in
     rbind (first_length computed1) (\<lambda>len1.
     if \<not> fine then
       let computed2 = (if drop_eagle \<and> len1 \<noteq> 0 then map (\<lambda>c. realign (butlast c)) computed1 else computed1) in
       rbind (first_length computed2) (\<lambda>len2. Inr (computed2, len2 * bs, p))
     else
       rbind (raw_hashes view) (\<lambda>hs.
       rbind (extend_partial hs bs align max_len own_hash gs computed1 len1 p) (\<lambda>(computed2, hit1, is_tail, p1).
         let hit2 = (if drop_eagle \<and> 0 < hit1 \<and> \<not> is_tail then hit1 - align else hit1)
         in Inr (map (take (cdiv_nat hit2 bs)) computed2, hit2, p1)))))))"

definition find_longest_cache_hit ::
  "manager_kind \<Rightarrow> hash_view \<Rightarrow> nat \<Rightarrow> int list \<Rightarrow> nat \<Rightarrow> bool \<Rightarrow> nat \<Rightarrow> (nat \<Rightarrow> bytes option) option \<Rightarrow>
   block_pool \<Rightarrow> (bref list list \<times> nat \<times> block_pool) res" where
  "find_longest_cache_hit kind hashes max_len gs bs drop_eagle align own_hash p =
     (case kind of
        FullAttention \<Rightarrow> full_longest_hit hashes max_len gs bs drop_eagle align own_hash p
      | SlidingWindow w \<Rightarrow> sliding_longest_hit hashes max_len gs bs w drop_eagle align own_hash p)"

end
