(* ===== verification/KV_Manager.thy ===== *)
theory KV_Manager
  imports Cache_Lookup
begin

text \<open>
  \<open>KVCacheCoordinator\<close> (\<^verbatim>\<open>core/kv_cache_coordinator.py\<close>) and \<open>KVCacheManager\<close>
  (\<^verbatim>\<open>core/kv_cache_manager.py\<close>) over one block pool: the groups' managers run in order on the shared
  pool, and \<open>allocate_slots\<close> decides whether a request gets its blocks.  The lookup is the one of
  \<open>UnitaryKVCacheCoordinator\<close>, for a single group.  The packed slab with several pools, cross
  attention and the statistics are not modelled (the hybrid lookup is in \<^verbatim>\<open>Hybrid_Lookup\<close>); \<open>num_tokens_main_model\<close> only
  matters to classes outside the model and is left out.  \<open>None\<close> for the new computed blocks stands for
  the shared object \<open>empty_kv_cache_blocks\<close>, which the code recognises by identity.
\<close>

record kv_manager =
  kv_pool :: block_pool
  kv_groups :: "group_manager list"
  kv_max_model_len :: nat
  kv_enable_caching :: bool
  kv_watermark_blocks :: nat
  kv_retention_interval :: "nat option"

type_synonym kv_blocks = "bref list list option"

subsection \<open>The coordinator\<close>

text \<open>Run a method of every group's manager, each on the pool that the previous one left, with the
  argument of its group.\<close>

fun each_manager ::
  "('b \<Rightarrow> pool_manager \<Rightarrow> ('a \<times> pool_manager) res) \<Rightarrow> 'b list \<Rightarrow> block_pool \<Rightarrow> group_manager list \<Rightarrow>
   ('a list \<times> block_pool \<times> group_manager list) res" where
  "each_manager f (x # xs) p (m # ms) =
     rbind (f x (p, m)) (\<lambda>(a, p1, m1). rbind (each_manager f xs p1 ms) (\<lambda>(as, p2, ms2).
       Inr (a # as, p2, m1 # ms2)))"
| "each_manager f xs p [] = Inr ([], p, [])"
| "each_manager f [] p (m # ms) = Inl IndexError"

definition on_groups ::
  "('b \<Rightarrow> pool_manager \<Rightarrow> ('a \<times> pool_manager) res) \<Rightarrow> 'b list \<Rightarrow> kv_manager \<Rightarrow> ('a list \<times> kv_manager) res" where
  "on_groups f xs kv = rbind (each_manager f xs (kv_pool kv) (kv_groups kv)) (\<lambda>(as, p, ms).
     Inr (as, kv\<lparr>kv_pool := p, kv_groups := ms\<rparr>))"

definition no_value :: "(pool_manager \<Rightarrow> pool_manager res) \<Rightarrow> 'b \<Rightarrow> pool_manager \<Rightarrow> (unit \<times> pool_manager) res" where
  "no_value f x s = rbind (f s) (\<lambda>s'. Inr ((), s'))"

definition all_groups :: "(pool_manager \<Rightarrow> pool_manager res) \<Rightarrow> kv_manager \<Rightarrow> kv_manager res" where
  "all_groups f kv = drop_value (on_groups (no_value f) (map (\<lambda>_. ()) (kv_groups kv)) kv)"

text \<open>The blocks the groups need together, from the one pool.\<close>

fun sum_blocks_to_allocate ::
  "block_pool \<Rightarrow> group_manager list \<Rightarrow> string \<Rightarrow> nat \<Rightarrow> bref list list \<Rightarrow> nat \<Rightarrow> nat \<Rightarrow> bool \<Rightarrow> nat res" where
  "sum_blocks_to_allocate p [] rid toks new_computed total_toks local_toks cap = Inr 0"
| "sum_blocks_to_allocate p (m # ms) rid toks [] total_toks local_toks cap = Inl IndexError"
| "sum_blocks_to_allocate p (m # ms) rid toks (bs # bss) total_toks local_toks cap =
     rbind (get_num_blocks_to_allocate p m rid toks bs total_toks local_toks cap) (\<lambda>n.
     rbind (sum_blocks_to_allocate p ms rid toks bss total_toks local_toks cap) (\<lambda>k. Inr (n + k)))"

definition allocate_new_computed_blocks ::
  "string \<Rightarrow> bref list list \<Rightarrow> nat \<Rightarrow> nat \<Rightarrow> kv_manager \<Rightarrow> kv_manager res" where
  "allocate_new_computed_blocks rid new_computed num_local num_external kv =
     (if list_ex (\<lambda>m. map_of (num_cached_block m) rid \<noteq> None) (kv_groups kv)
      then rbind (guard AssertionError (list_all (\<lambda>bs. bs = []) new_computed)) (\<lambda>_. Inr kv)
      else
        rbind (drop_value (on_groups (\<lambda>bs. no_value (add_local_computed_blocks rid bs num_local num_external) ())
                 new_computed kv)) (\<lambda>kv1.
          if num_external > 0
          then all_groups (allocate_external_computed_blocks rid num_local num_external) kv1
          else Inr kv1))"

definition coordinator_allocate_new_blocks :: "string \<Rightarrow> nat \<Rightarrow> kv_manager \<Rightarrow> (bref list list \<times> kv_manager) res" where
  "coordinator_allocate_new_blocks rid toks kv =
     on_groups (\<lambda>_. allocate_new_blocks rid toks) (map (\<lambda>_. ()) (kv_groups kv)) kv"

fun cache_each ::
  "block_hasher \<Rightarrow> block_hasher option \<Rightarrow> request \<Rightarrow> nat \<Rightarrow> nat option \<Rightarrow> block_pool \<Rightarrow> group_manager list \<Rightarrow>
   (request \<times> block_pool \<times> group_manager list) res" where
  "cache_each H Ho r toks retention p [] = Inr (r, p, [])"
| "cache_each H Ho r toks retention p (m # ms) =
     rbind (cache_blocks H Ho r toks retention (p, m)) (\<lambda>(r1, p1, m1).
     rbind (cache_each H Ho r1 toks retention p1 ms) (\<lambda>(r2, p2, ms2). Inr (r2, p2, m1 # ms2)))"

definition coordinator_cache_blocks ::
  "block_hasher \<Rightarrow> block_hasher option \<Rightarrow> request \<Rightarrow> nat \<Rightarrow> kv_manager \<Rightarrow> (request \<times> kv_manager) res" where
  "coordinator_cache_blocks H Ho r toks kv =
     rbind (cache_each H Ho r toks (kv_retention_interval kv) (kv_pool kv) (kv_groups kv)) (\<lambda>(r1, p, ms).
       Inr (r1, kv\<lparr>kv_pool := p, kv_groups := ms\<rparr>))"

definition kv_free :: "string \<Rightarrow> kv_manager \<Rightarrow> kv_manager res" where
  "kv_free rid kv = all_groups (free_request rid) kv"

definition kv_remove_skipped_blocks :: "string \<Rightarrow> nat \<Rightarrow> kv_manager \<Rightarrow> kv_manager res" where
  "kv_remove_skipped_blocks rid processed kv = all_groups (remove_skipped_blocks rid processed) kv"

definition kv_pop_blocks_for_free :: "string \<Rightarrow> kv_manager \<Rightarrow> bref list \<times> kv_manager" where
  "kv_pop_blocks_for_free rid kv =
     (concat (map (fst \<circ> pop_blocks_for_free rid) (kv_groups kv)),
      kv\<lparr>kv_groups := map (snd \<circ> pop_blocks_for_free rid) (kv_groups kv)\<rparr>)"

definition kv_free_blocks :: "bref list \<Rightarrow> kv_manager \<Rightarrow> kv_manager res" where
  "kv_free_blocks bs kv = rbind (free_blocks bs (kv_pool kv)) (\<lambda>p. Inr (kv\<lparr>kv_pool := p\<rparr>))"

definition kv_get_blocks :: "string \<Rightarrow> kv_manager \<Rightarrow> bref list list" where
  "kv_get_blocks rid kv = map (blocks_of rid) (kv_groups kv)"

definition kv_get_block_ids :: "string \<Rightarrow> kv_manager \<Rightarrow> int list list" where
  "kv_get_block_ids rid kv = map (map (\<lambda>b. block_id (pool_heap (kv_pool kv) b))) (kv_get_blocks rid kv)"

definition kv_num_common_prefix_blocks :: "string \<Rightarrow> kv_manager \<Rightarrow> nat list \<times> kv_manager" where
  "kv_num_common_prefix_blocks rid kv =
     (let rs = map (\<lambda>m. get_num_common_prefix_blocks rid (kv_pool kv, m)) (kv_groups kv) in
      (map fst rs, kv\<lparr>kv_groups := map (\<lambda>(_, _, m). m) rs\<rparr>))"


subsection \<open>The manager\<close>

definition create_kv_cache_blocks :: "bref list list \<Rightarrow> kv_blocks" where
  "create_kv_cache_blocks bss = (if list_ex (\<lambda>bs. bs \<noteq> []) bss then Some bss else None)"

definition fits :: "nat \<Rightarrow> bool \<Rightarrow> int \<Rightarrow> kv_manager \<Rightarrow> bool" where
  "fits need watermark reserved kv \<longleftrightarrow>
     int need + (if watermark then int (kv_watermark_blocks kv) else 0) \<le>
       get_num_free_blocks (kv_pool kv) - reserved"

definition prefix_cache_lookup_enabled :: "request \<Rightarrow> kv_manager \<Rightarrow> bool" where
  "prefix_cache_lookup_enabled r kv \<longleftrightarrow> kv_enable_caching kv \<and> \<not> skip_reading_prefix_cache r"

definition unitary_longest_hit :: "bytes list \<Rightarrow> nat \<Rightarrow> kv_manager \<Rightarrow> (bref list list \<times> nat \<times> kv_manager) res" where
  "unitary_longest_hit hs max_len kv =
     (case kv_groups kv of
        [] \<Rightarrow> Inl IndexError
      | m # _ \<Rightarrow>
          rbind (find_longest_cache_hit (gm_kind m) (RawHashes hs) max_len [0] (gm_block_size m) (gm_use_eagle m)
                   (gm_block_size m) None (kv_pool kv)) (\<lambda>(blocks, n, p).
            Inr (blocks, n, kv\<lparr>kv_pool := p\<rparr>)))"

text \<open>The events for reused blocks that a request asks for.\<close>

fun report_hits ::
  "block_hasher \<Rightarrow> request \<Rightarrow> int \<Rightarrow> (group_manager \<times> bref list) list \<Rightarrow> block_pool \<Rightarrow> block_pool res" where
  "report_hits H r g [] p = Inr p"
| "report_hits H r g ((m, bs) # rest) p =
     rbind (if bs = [] then Inr p else emit_cached_block_events H r (length bs) (gm_block_size m) g p) (\<lambda>p1.
       report_hits H r (g + 1) rest p1)"

definition get_computed_blocks ::
  "block_hasher \<Rightarrow> request \<Rightarrow> kv_manager \<Rightarrow> (kv_blocks \<times> nat \<times> nat \<times> kv_manager) res" where
  "get_computed_blocks H r kv =
     (if \<not> prefix_cache_lookup_enabled r kv then Inr (None, 0, 0, kv)
      else
        rbind (unitary_longest_hit (block_hashes r) (num_tokens r - 1) kv) (\<lambda>(blocks, n, kv1).
        rbind (if 0 < n \<and> enable_kv_cache_events (kv_pool kv1) \<and> kv_cache_report_mode r = Some ''full''
               then rbind (report_hits H r 0 (zip (kv_groups kv1) blocks) (kv_pool kv1)) (\<lambda>p. Inr (kv1\<lparr>kv_pool := p\<rparr>))
               else Inr kv1) (\<lambda>kv2. Inr (create_kv_cache_blocks blocks, n, 0, kv2))))"

record slot_request =
  sr_new_tokens :: nat
  sr_new_computed_tokens :: nat
  sr_new_computed_blocks :: kv_blocks
  sr_lookahead_tokens :: nat
  sr_external_tokens :: nat
  sr_delay_cache_blocks :: bool
  sr_full_sequence_must_fit :: bool
  sr_reserved_blocks :: int
  sr_has_scheduled_reqs :: bool

definition sr_blocks :: "slot_request \<Rightarrow> kv_manager \<Rightarrow> bref list list" where
  "sr_blocks q kv = (case sr_new_computed_blocks q of None \<Rightarrow> map (\<lambda>_. []) (kv_groups kv) | Some bss \<Rightarrow> bss)"

definition sr_local_tokens :: "request \<Rightarrow> slot_request \<Rightarrow> nat" where
  "sr_local_tokens r q = nat (num_computed_tokens r) + sr_new_computed_tokens q"

definition sr_total_tokens :: "request \<Rightarrow> slot_request \<Rightarrow> kv_manager \<Rightarrow> nat" where
  "sr_total_tokens r q kv = min (sr_local_tokens r q + sr_external_tokens q) (kv_max_model_len kv)"

definition sr_slot_tokens :: "request \<Rightarrow> slot_request \<Rightarrow> kv_manager \<Rightarrow> nat" where
  "sr_slot_tokens r q kv =
     min (sr_total_tokens r q kv + sr_new_tokens q + sr_lookahead_tokens q) (kv_max_model_len kv)"

definition sr_watermark :: "request \<Rightarrow> slot_request \<Rightarrow> kv_manager \<Rightarrow> bool" where
  "sr_watermark r q kv \<longleftrightarrow> sr_has_scheduled_reqs q \<and> status r \<in> {WAITING, PREEMPTED} \<and> 0 < kv_watermark_blocks kv"

definition full_sequence_fits :: "request \<Rightarrow> slot_request \<Rightarrow> kv_manager \<Rightarrow> bool res" where
  "full_sequence_fits r q kv =
     (if \<not> sr_full_sequence_must_fit q then Inr True
      else rbind (sum_blocks_to_allocate (kv_pool kv) (kv_groups kv) (request_id r)
                    (min (num_tokens r) (kv_max_model_len kv)) (sr_blocks q kv) (sr_total_tokens r q kv)
                    (sr_local_tokens r q) True) (\<lambda>n. Inr (fits n (sr_watermark r q kv) 0 kv)))"

text \<open>The part of \<open>allocate_slots\<close> after the check: take the blocks, then cache the full ones.\<close>

definition take_slots ::
  "block_hasher \<Rightarrow> block_hasher option \<Rightarrow> request \<Rightarrow> slot_request \<Rightarrow> kv_manager \<Rightarrow>
   (kv_blocks option \<times> request \<times> kv_manager) res" where
  "take_slots H Ho r q kv =
     rbind (if sr_new_computed_blocks q \<noteq> None \<or> 0 < sr_external_tokens q
            then allocate_new_computed_blocks (request_id r) (sr_blocks q kv) (sr_local_tokens r q)
                   (sr_external_tokens q) kv
            else Inr kv) (\<lambda>kv1.
     rbind (coordinator_allocate_new_blocks (request_id r) (sr_slot_tokens r q kv) kv1) (\<lambda>(new, kv2).
       if \<not> kv_enable_caching kv2 \<or> sr_delay_cache_blocks q then Inr (Some (create_kv_cache_blocks new), r, kv2)
       else rbind (coordinator_cache_blocks H Ho r
                     (min (sr_total_tokens r q kv + sr_new_tokens q) (num_tokens r)) kv2) (\<lambda>(r1, kv3).
              Inr (Some (create_kv_cache_blocks new), r1, kv3))))"

definition allocate_slots ::
  "block_hasher \<Rightarrow> block_hasher option \<Rightarrow> request \<Rightarrow> slot_request \<Rightarrow> kv_manager \<Rightarrow>
   (kv_blocks option \<times> request \<times> kv_manager) res" where
  "allocate_slots H Ho r q kv =
     rbind (guard ValueError (\<not> (sr_new_tokens q = 0 \<and> sr_external_tokens q = 0))) (\<lambda>_.
     rbind (full_sequence_fits r q kv) (\<lambda>ok.
       if \<not> ok then Inr (None, r, kv)
       else
         rbind (kv_remove_skipped_blocks (request_id r)
                  (nat (max 0 (int (sr_total_tokens r q kv) - num_in_flight_tokens r))) kv) (\<lambda>kv1.
         rbind (sum_blocks_to_allocate (kv_pool kv1) (kv_groups kv1) (request_id r) (sr_slot_tokens r q kv)
                  (sr_blocks q kv) (sr_local_tokens r q + sr_external_tokens q) (sr_local_tokens r q) False) (\<lambda>n.
           if \<not> fits n (sr_watermark r q kv) (sr_reserved_blocks q) kv1 then Inr (None, r, kv1)
           else take_slots H Ho r q kv1))))"

definition kv_cache_blocks ::
  "block_hasher \<Rightarrow> block_hasher option \<Rightarrow> request \<Rightarrow> nat \<Rightarrow> kv_manager \<Rightarrow> (request \<times> kv_manager) res" where
  "kv_cache_blocks H Ho r toks kv =
     (if kv_enable_caching kv then coordinator_cache_blocks H Ho r toks kv else Inr (r, kv))"

definition kv_evict_blocks :: "int list \<Rightarrow> kv_manager \<Rightarrow> kv_manager res" where
  "kv_evict_blocks ids kv = rbind (evict_blocks ids (kv_pool kv)) (\<lambda>p. Inr (kv\<lparr>kv_pool := p\<rparr>))"

definition kv_reset_prefix_cache :: "kv_manager \<Rightarrow> bool \<times> kv_manager" where
  "kv_reset_prefix_cache kv = (let (ok, p) = reset_prefix_cache (kv_pool kv) in (ok, kv\<lparr>kv_pool := p\<rparr>))"

definition kv_take_new_block_ids :: "kv_manager \<Rightarrow> int list \<times> kv_manager" where
  "kv_take_new_block_ids kv =
     (concat (map (fst \<circ> take_new_block_ids) (kv_groups kv)),
      kv\<lparr>kv_groups := map (snd \<circ> take_new_block_ids) (kv_groups kv)\<rparr>)"

definition kv_take_block_copies :: "kv_manager \<Rightarrow> (int \<times> int) list \<times> bref list \<times> kv_manager" where
  "kv_take_block_copies kv =
     (let copies = concat (map (fst \<circ> take_pending_cow_copies) (kv_groups kv));
          i = (\<lambda>b. block_id (pool_heap (kv_pool kv) b)) in
      (map (\<lambda>(s, d). (i s, i d)) copies, concat (map (\<lambda>(s, d). [s, d]) copies),
       kv\<lparr>kv_groups := map (snd \<circ> take_pending_cow_copies) (kv_groups kv)\<rparr>))"

definition zeroing_ids_in_range :: "string \<Rightarrow> nat \<Rightarrow> nat \<Rightarrow> kv_manager \<Rightarrow> int list \<times> kv_manager" where
  "zeroing_ids_in_range rid start_token end_token kv =
     (concat (map (\<lambda>m. if record_new_block_ids m
       then map (\<lambda>b. block_id (pool_heap (kv_pool kv) b))
              (py_slice (blocks_of rid m) (start_token div gm_block_size m) (cdiv_nat end_token (gm_block_size m)))
       else []) (kv_groups kv)),
      kv\<lparr>kv_groups := map (\<lambda>m. if record_new_block_ids m then default_blocks rid m else m) (kv_groups kv)\<rparr>)"

definition record_for_zeroing :: "block_pool \<Rightarrow> string \<Rightarrow> nat \<Rightarrow> group_manager \<Rightarrow> group_manager res" where
  "record_for_zeroing p rid start_token m =
     (if \<not> record_new_block_ids m then Inr m
      else rbind (guard AssertionError (start_token mod gm_block_size m = 0)) (\<lambda>_.
        Inr ((default_blocks rid m)\<lparr>new_block_ids := new_block_ids m @
          map (\<lambda>b. block_id (pool_heap p b)) (drop (start_token div gm_block_size m) (blocks_of rid m))\<rparr>)))"

definition record_blocks_for_zeroing :: "string \<Rightarrow> nat \<Rightarrow> kv_manager \<Rightarrow> kv_manager res" where
  "record_blocks_for_zeroing rid start_token kv =
     all_groups (\<lambda>(p, m). rbind (record_for_zeroing p rid start_token m) (\<lambda>m1. Inr (p, m1))) kv"

definition block_ids_for_computed_tokens :: "string \<Rightarrow> nat \<Rightarrow> kv_manager \<Rightarrow> int list list" where
  "block_ids_for_computed_tokens rid computed kv =
     map (\<lambda>(m, ids). take (cdiv_nat computed (gm_block_size m)) ids) (zip (kv_groups kv) (kv_get_block_ids rid kv))"

definition estimate_cached_tokens :: "string \<Rightarrow> kv_manager \<Rightarrow> int" where
  "estimate_cached_tokens rid kv =
     (let per_group = map (\<lambda>bs. fold max
            (map (\<lambda>b. case block_hash_num_tokens (pool_heap (kv_pool kv) b) of None \<Rightarrow> 0 | Some n \<Rightarrow> n) bs) 0)
            (kv_get_blocks rid kv) in
      case per_group of [] \<Rightarrow> 0 | n # ns \<Rightarrow> fold min ns n)"

end
