(* ===== verification/KV_Invariant.thy ===== *)
theory KV_Invariant
  imports KV_Manager
begin

text \<open>
  The invariant of a KV cache group over its pool, with one group and blocks of the size that is hashed
  (\<open>UnitaryKVCacheCoordinator\<close>): every block's reference count is the number of places in the requests'
  lists that hold it, and with caching on a block beyond the cached prefix of a request has no keys and
  is held in that place only.  Each method keeps it.
\<close>

subsection \<open>Freeing a list that may repeat a block\<close>

lemma free_loop_multi:
  assumes "pool_rest p" "pool_gap p xs (wo @ wh)" "set bs \<subseteq> insert (Blk 0) (usable p)"
    and "\<forall>b \<in> usable p. int (count_list bs b) \<le> ref_cnt (pool_heap p b)"
  shows "\<exists>p' wh' wo'. rfold free_step bs (p, wh, wo) = Inr (p', wh', wo') \<and>
    pool_rest p' \<and> pool_gap p' xs (wo' @ wh') \<and> same_config p p' \<and>
    (\<forall>c. ref_cnt (pool_heap p' c) = ref_cnt (pool_heap p c) - int (count_list bs c)) \<and>
    (\<forall>c. block_keys p' c = block_keys p c)"
  using assms
proof (induction bs arbitrary: p wh wo)
  case (Cons b bs)
  have st: "pool_static p" using Cons.prems(1) by (simp add: pool_rest_def)
  let ?p = "add_ref (-1) b p"
  define wh1 where "wh1 = (if releases p b \<and> goes_back p b then wh @ [b] else wh)"
  define wo1 where "wo1 = (if releases p b \<and> \<not> goes_back p b then wo @ [b] else wo)"
  have pos: "b \<noteq> Blk 0 \<Longrightarrow> b \<in> usable p \<and> 1 \<le> ref_cnt (pool_heap p b)"
    using Cons.prems(3,4) by fastforce
  have step: "free_step b (p, wh, wo) = Inr (?p, wh1, wo1)"
    using pos free_step_usable[OF st, of b wh wo] free_step_null[OF st, of wh wo]
    by (cases "b = Blk 0") (simp_all add: wh1_def wo1_def releases_def)
  have gap: "pool_gap ?p xs (wo1 @ wh1)"
  proof (cases "b = Blk 0")
    case True
    then show ?thesis
      using gap_null_ref[OF Cons.prems(2) null_static(4)[OF st]] by (simp add: wh1_def wo1_def releases_def)
  next
    case False
    note gap = gap_unref[OF Cons.prems(2) pos[OF False, THEN conjunct1] pos[OF False, THEN conjunct2]]
    have "set (wo1 @ wh1) = set (if ref_cnt (pool_heap p b) = 1 then (wo @ wh) @ [b] else wo @ wh)"
      using False by (auto simp: wh1_def wo1_def releases_def)
    moreover have "distinct (wo1 @ wh1)"
      using gapD(2)[OF gap] False by (auto simp: wh1_def wo1_def releases_def split: if_splits)
    ultimately show ?thesis by (rule gap_perm[OF gap])
  qed
  have "\<forall>c \<in> usable ?p. int (count_list bs c) \<le> ref_cnt (pool_heap ?p c)"
    using Cons.prems(4) by (auto split: if_splits)
  then obtain p' wh' wo' where p': "rfold free_step bs (?p, wh1, wo1) = Inr (p', wh', wo')" "pool_rest p'"
    "pool_gap p' xs (wo' @ wh')" "same_config ?p p'"
    "\<And>c. ref_cnt (pool_heap p' c) = ref_cnt (pool_heap ?p c) - int (count_list bs c)"
    "\<And>c. block_keys p' c = block_keys ?p c"
    using Cons.IH[of ?p wo1 wh1] gap Cons.prems(1,3) by auto
  moreover have "same_config p p'" by (rule same_config_trans[OF _ p'(4)]) simp
  ultimately show ?case using step by (intro exI[of _ p'] exI[of _ wh'] exI[of _ wo']) simp
qed simp

lemma free_blocks_multi:
  assumes "pool_inv p xs" "set bs \<subseteq> insert (Blk 0) (usable p)"
    and "\<forall>b \<in> usable p. int (count_list bs b) \<le> ref_cnt (pool_heap p b)"
  shows "\<exists>p' ys. free_blocks bs p = Inr p' \<and> pool_inv p' ys \<and> same_config p p' \<and>
    (\<forall>c. ref_cnt (pool_heap p' c) = ref_cnt (pool_heap p c) - int (count_list bs c)) \<and>
    (\<forall>c. block_keys p' c = block_keys p c)"
proof -
  have inv: "pool_rest p" "pool_gap p xs ([] @ [])" using assms(1) by (simp_all add: pool_inv_rest)
  obtain p1 wh wo where p1: "rfold free_step bs (p, [], []) = Inr (p1, wh, wo)" "pool_rest p1"
    "pool_gap p1 xs (wo @ wh)" "same_config p p1"
    "\<And>c. ref_cnt (pool_heap p1 c) = ref_cnt (pool_heap p c) - int (count_list bs c)"
    "\<And>c. block_keys p1 c = block_keys p c"
    using free_loop_multi[OF inv assms(2,3)] by auto
  let ?s = "(pool_heap p1, free_block_queue p1)"
  have st: "pool_static p1" using p1(2) by (simp add: pool_rest_def)
  obtain s t where t: "fq_prepend_n (pool_heap p1) (free_block_queue p1) wo = Inr s"
    "fq_append_n (fst s) (snd s) wh = Inr t" "queue_repr (fst t) (snd t) (wo @ xs @ wh)"
    "same_data (pool_heap p1) (fst t)"
    using flist.put_both[of ?s xs wo wh] gapD(1)[OF p1(3)] gap_fresh[OF st p1(3)] by auto
  let ?p = "with_queue p1 t"
  have "free_blocks bs p = Inr ?p" using p1(1) t(1,2) by (simp add: free_blocks_def)
  moreover have "pool_gap ?p (wo @ xs @ wh) []"
    by (rule gap_linked[OF p1(3) t(3) _ t(4)]) auto
  moreover have "pool_rest ?p" using pool_rest_queue[OF t(4)] p1(2) by simp
  moreover have "block_keys ?p c = block_keys p c" for c
    using with_queue_parts(4)[OF t(4)] p1(6) by simp
  moreover have "ref_cnt (pool_heap ?p c) = ref_cnt (pool_heap p c) - int (count_list bs c)" for c
    using same_data_fields(2)[OF t(4)] p1(5) by (simp add: with_queue_def)
  ultimately show ?thesis using p1(4) by (intro exI[of _ ?p] exI[of _ "wo @ xs @ wh"]) (simp add: pool_inv_rest)
qed


subsection \<open>The invariant\<close>

definition block_refs :: "group_manager \<Rightarrow> bref multiset" where
  "block_refs m = holdings (\<lambda>bs. bs) (req_to_blocks m)"

definition cached_count :: "string \<Rightarrow> group_manager \<Rightarrow> nat" where
  "cached_count rid m = (case map_of (num_cached_block m) rid of None \<Rightarrow> 0 | Some n \<Rightarrow> n)"

definition fresh_part :: "block_pool \<Rightarrow> group_manager \<Rightarrow> bool" where
  "fresh_part p m \<longleftrightarrow> (\<forall>rid i. cached_count rid m \<le> i \<and> i < length (blocks_of rid m) \<and>
     blocks_of rid m ! i \<noteq> Blk 0 \<longrightarrow>
     block_keys p (blocks_of rid m ! i) = [] \<and> count (block_refs m) (blocks_of rid m ! i) = 1)"

definition gm_static :: "block_pool \<Rightarrow> group_manager \<Rightarrow> bool" where
  "gm_static p m \<longleftrightarrow> gm_enable_caching m = enable_caching p \<and> 0 < gm_block_size m \<and>
     (enable_caching p \<longrightarrow> gm_block_size m = bp_hash_block_size p \<and> cache_hit_alignment_tokens m = gm_block_size m) \<and>
     0 \<le> gm_group_id m \<and> gm_group_id m < 2 ^ 32 \<and> partial_hit_reqs m = [] \<and> pending_cow_copies m = [] \<and>
     gm_kind m \<noteq> SlidingWindow 0"

definition gm_inv :: "block_pool \<Rightarrow> group_manager \<Rightarrow> bref list \<Rightarrow> bool" where
  "gm_inv p m xs \<longleftrightarrow> pool_inv p xs \<and> gm_static p m \<and> distinct (map fst (req_to_blocks m)) \<and>
     set_mset (block_refs m) \<subseteq> insert (Blk 0) (usable p) \<and>
     (\<forall>b \<in> usable p. ref_cnt (pool_heap p b) = int (count (block_refs m) b)) \<and>
     (enable_caching p \<longrightarrow> fresh_part p m)"

lemma gm_invD:
  assumes "gm_inv p m xs"
  shows "pool_inv p xs" "gm_static p m" "distinct (map fst (req_to_blocks m))"
    "set_mset (block_refs m) \<subseteq> insert (Blk 0) (usable p)"
    "b \<in> usable p \<Longrightarrow> ref_cnt (pool_heap p b) = int (count (block_refs m) b)"
    "enable_caching p \<Longrightarrow> fresh_part p m"
  using assms by (auto simp: gm_inv_def)

lemma fresh_partD:
  assumes "fresh_part p m" "cached_count rid m \<le> i" "i < length (blocks_of rid m)" "blocks_of rid m ! i \<noteq> Blk 0"
  shows "block_keys p (blocks_of rid m ! i) = []" "count (block_refs m) (blocks_of rid m ! i) = 1"
  using assms unfolding fresh_part_def by blast+

lemma block_refs_set:
  "block_refs (set_blocks rid bs m) + mset (blocks_of rid m) = block_refs m + mset bs"
  using holdings_set[of "req_to_blocks m" rid _ "\<lambda>bs. bs" bs] holdings_new[of "req_to_blocks m" rid "\<lambda>bs. bs" bs]
  by (cases "map_of (req_to_blocks m) rid") (simp_all add: block_refs_def set_blocks_def blocks_of_def)

lemma block_refs_ge: "mset (blocks_of rid m) \<subseteq># block_refs m"
proof (cases "map_of (req_to_blocks m) rid")
  case (Some bs)
  then show ?thesis using holdings_ge[OF map_of_SomeD[OF Some], of "\<lambda>bs. bs"]
    by (simp add: block_refs_def blocks_of_def)
qed (simp add: blocks_of_def)

lemma blocks_of_set [simp]:
  "blocks_of rid' (set_blocks rid bs m) = (if rid' = rid then bs else blocks_of rid' m)"
  by (simp add: blocks_of_def set_blocks_def update_conv')

lemma set_blocks_fields [simp]:
  "gm_static p (set_blocks rid bs m) = gm_static p m"
  "num_cached_block (set_blocks rid bs m) = num_cached_block m"
  "gm_kind (set_blocks rid bs m) = gm_kind m" "gm_block_size (set_blocks rid bs m) = gm_block_size m"
  "gm_group_id (set_blocks rid bs m) = gm_group_id m" "gm_enable_caching (set_blocks rid bs m) = gm_enable_caching m"
  "partial_hit_reqs (set_blocks rid bs m) = partial_hit_reqs m"
  by (simp_all add: set_blocks_def gm_static_def)

lemma set_blocks_distinct [simp]:
  "distinct (map fst (req_to_blocks m)) \<Longrightarrow> distinct (map fst (req_to_blocks (set_blocks rid bs m)))"
  by (simp add: set_blocks_def distinct_update)

lemma default_blocks_eq: "default_blocks rid m = set_blocks rid (blocks_of rid m) m"
  by (simp add: default_blocks_def set_blocks_def)

lemma cached_count_set [simp]: "cached_count rid' (set_blocks rid bs m) = cached_count rid' m"
  by (simp add: cached_count_def)

lemma set_cached_fields [simp]:
  "cached_count rid' (set_cached rid n m) = (if rid' = rid then n else cached_count rid' m)"
  "blocks_of rid' (set_cached rid n m) = blocks_of rid' m" "block_refs (set_cached rid n m) = block_refs m"
  "num_cached_block (set_cached rid n m) = AList.update rid n (num_cached_block m)"
  "gm_static p (set_cached rid n m) = gm_static p m" "req_to_blocks (set_cached rid n m) = req_to_blocks m"
  by (simp_all add: set_cached_def cached_count_def blocks_of_def block_refs_def gm_static_def update_conv')

lemma note_new_ids_fields [simp]:
  "gm_static p' (note_new_ids p bs m) = gm_static p' m" "block_refs (note_new_ids p bs m) = block_refs m"
  "blocks_of rid (note_new_ids p bs m) = blocks_of rid m" "cached_count rid (note_new_ids p bs m) = cached_count rid m"
  "req_to_blocks (note_new_ids p bs m) = req_to_blocks m" "num_cached_block (note_new_ids p bs m) = num_cached_block m"
  "gm_kind (note_new_ids p bs m) = gm_kind m" "gm_block_size (note_new_ids p bs m) = gm_block_size m"
  "partial_hit_reqs (note_new_ids p bs m) = partial_hit_reqs m"
  by (simp_all add: note_new_ids_def gm_static_def block_refs_def blocks_of_def cached_count_def)

lemma gm_static_config: "same_config p p' \<Longrightarrow> gm_static p' m = gm_static p m"
  by (simp add: gm_static_def same_config_def)

lemma null_not_usable [simp]: "Blk 0 \<notin> usable p"
  by (auto simp: usable_def)

text \<open>A block is on the free list exactly when no request holds it.\<close>

lemma free_iff_unheld:
  assumes "gm_inv p m xs"
  shows "b \<in> set xs \<longleftrightarrow> b \<in> usable p \<and> b \<notin># block_refs m"
proof -
  have "pool_gap p xs []" using gm_invD(1)[OF assms] by (simp add: pool_inv_rest)
  from gapD(5)[OF this, of b] gm_invD(5)[OF assms, of b] show ?thesis by (auto simp: count_eq_zero_iff)
qed

lemma count_two_positions:
  assumes "i < length bs" "j < length bs" "i \<noteq> j" "bs ! i = bs ! j"
  shows "2 \<le> count (mset bs) (bs ! i)"
proof -
  have "{i, j} \<subseteq> {k. k < length bs \<and> bs ! k = bs ! i}" using assms by auto
  then have "card {i, j} \<le> card {k. k < length bs \<and> bs ! k = bs ! i}" by (intro card_mono) auto
  moreover have "count (mset bs) (bs ! i) = card {k. k < length bs \<and> bs ! k = bs ! i}"
    by (simp add: count_mset count_list_eq_length_filter length_filter_conv_card) metis
  ultimately show ?thesis using assms(3) by simp
qed

end
