(* ===== verification/KV_Ops.thy ===== *)
theory KV_Ops
  imports KV_Invariant
begin

text \<open>
  The methods of a KV cache group's manager keep the invariant, and what each does to the requests'
  blocks and to the free list.
\<close>

definition same_params :: "group_manager \<Rightarrow> group_manager \<Rightarrow> bool" where
  "same_params m m' \<longleftrightarrow> gm_kind m' = gm_kind m \<and> gm_block_size m' = gm_block_size m \<and>
     gm_group_id m' = gm_group_id m \<and> gm_use_eagle m' = gm_use_eagle m"

lemma same_params_simps [simp]:
  "same_params m m" "same_params m (set_blocks rid bs m') = same_params m m'"
  "same_params m (set_cached rid n m') = same_params m m'" "same_params m (note_new_ids p bs m') = same_params m m'"
  by (simp_all add: same_params_def set_blocks_def set_cached_def note_new_ids_def)

lemma same_params_trans [trans]: "same_params m m' \<Longrightarrow> same_params m' m'' \<Longrightarrow> same_params m m''"
  by (simp add: same_params_def)

lemma gm_inv_update:
  assumes "gm_inv p m xs" "pool_inv p' ys" "same_config p p'" "gm_static p m'"
    "distinct (map fst (req_to_blocks m'))" "set_mset (block_refs m') \<subseteq> insert (Blk 0) (usable p)"
    "\<And>b. b \<in> usable p \<Longrightarrow> ref_cnt (pool_heap p' b) + int (count (block_refs m) b) =
       ref_cnt (pool_heap p b) + int (count (block_refs m') b)"
    "enable_caching p \<Longrightarrow> fresh_part p' m'"
  shows "gm_inv p' m' ys"
  using assms gm_static_config[OF assms(3)] same_config_usable[OF assms(3)]
  by (fastforce simp: gm_inv_def same_config_def)

lemma count_set_blocks:
  "count (block_refs (set_blocks rid bs m)) b + count (mset (blocks_of rid m)) b =
     count (block_refs m) b + count (mset bs) b"
  using arg_cong[OF block_refs_set[of rid bs m], of "\<lambda>M. count M b"] by simp

lemma count_blocks_le: "count (mset (blocks_of rid m)) b \<le> count (block_refs m) b"
  by (rule mset_subset_eq_count[OF block_refs_ge])

lemma set_blocks_refs_subset:
  assumes "set_mset (block_refs m) \<subseteq> S" "set bs \<subseteq> S"
  shows "set_mset (block_refs (set_blocks rid bs m)) \<subseteq> S"
proof
  fix b assume "b \<in># block_refs (set_blocks rid bs m)"
  then have "0 < count (block_refs (set_blocks rid bs m)) b" by simp
  then have "0 < count (block_refs m) b \<or> 0 < count (mset bs) b" using count_set_blocks[of rid bs m b] by linarith
  then show "b \<in> S" using assms by (auto simp: count_eq_zero_iff[symmetric] simp del: count_eq_zero_iff)
qed

lemma blocks_of_subset: "set_mset (block_refs m) \<subseteq> S \<Longrightarrow> set (blocks_of rid m) \<subseteq> S"
  using set_mset_mono[OF block_refs_ge[of rid m]] by auto

lemma two_lists_count:
  assumes "rid \<noteq> rid'"
  shows "count (mset (blocks_of rid m)) b + count (mset (blocks_of rid' m)) b \<le> count (block_refs m) b"
proof -
  have "count (block_refs (set_blocks rid [] m)) b + count (mset (blocks_of rid m)) b = count (block_refs m) b"
    using count_set_blocks[of rid "[]" m b] by simp
  moreover have "count (mset (blocks_of rid' m)) b \<le> count (block_refs (set_blocks rid [] m)) b"
    using count_blocks_le[of rid' "set_blocks rid [] m" b] assms by simp
  ultimately show ?thesis by linarith
qed


subsection \<open>New blocks\<close>

lemma extend_blocks_ok:
  assumes inv: "gm_inv p m xs" and n: "n \<le> length xs"
  shows "\<exists>p1 m1. extend_blocks rid n (p, m) = Inr (take n xs, p1, m1) \<and> gm_inv p1 m1 (drop n xs) \<and>
    same_config p p1 \<and> same_params m m1 \<and> num_cached_block m1 = num_cached_block m \<and>
    (\<forall>u. blocks_of u m1 = (if u = rid then blocks_of rid m @ take n xs else blocks_of u m))"
proof -
  note d = gm_invD[OF inv]
  let ?new = "take n xs"
  obtain p1 where p1: "get_new_blocks (int n) p = Inr (p1, ?new)" "pool_inv p1 (drop n xs)" "same_config p p1"
    "\<And>c. ref_cnt (pool_heap p1 c) = ref_cnt (pool_heap p c) + (if c \<in> set ?new then 1 else 0)"
    "\<And>c. c \<in> usable p \<Longrightarrow> block_keys p1 c = (if c \<in> set ?new \<and> enable_caching p then [] else block_keys p c)"
    using get_new_blocks_ok[OF d(1) n] by blast
  let ?m = "set_blocks rid (blocks_of rid m @ ?new) m"
  have new: "b \<in> set ?new \<Longrightarrow> b \<in> usable p \<and> b \<notin># block_refs m" for b
    using free_iff_unheld[OF inv, of b] by (auto dest: in_set_takeD)
  have "distinct xs" using d(1) gapD(3) unfolding pool_inv_rest by blast
  then have "distinct ?new" by simp
  then have cnew: "count (mset ?new) b = (if b \<in> set ?new then 1 else 0)" for b
    by (simp only: distinct_count_atmost_1)
  have cnt: "count (block_refs ?m) b = count (block_refs m) b + (if b \<in> set ?new then 1 else 0)" for b
    using count_set_blocks[of rid "blocks_of rid m @ ?new" m b] cnew[of b] by simp
  have sub: "set_mset (block_refs ?m) \<subseteq> insert (Blk 0) (usable p)"
    by (rule set_blocks_refs_subset[OF d(4)]) (use blocks_of_subset[OF d(4)] new in auto)
  have fresh: "fresh_part p1 ?m" if c: "enable_caching p"
    unfolding fresh_part_def
  proof (intro allI impI)
    fix u i assume a: "cached_count u ?m \<le> i \<and> i < length (blocks_of u ?m) \<and> blocks_of u ?m ! i \<noteq> Blk 0"
    let ?b = "blocks_of u ?m ! i"
    show "block_keys p1 ?b = [] \<and> count (block_refs ?m) ?b = 1"
    proof (cases "?b \<in> set ?new")
      case True
      then show ?thesis using new[OF True] p1(5)[of ?b] c cnt[of ?b] by (auto simp: count_eq_zero_iff)
    next
      case False
      have i: "i < length (blocks_of u m) \<and> ?b = blocks_of u m ! i"
      proof (cases "u = rid \<and> length (blocks_of u m) \<le> i")
        case True
        then have "?b = ?new ! (i - length (blocks_of u m))" "i - length (blocks_of u m) < length ?new"
          using a by (auto simp: nth_append)
        then show ?thesis using False nth_mem by metis
      next
        case False
        then show ?thesis using a by (auto simp: nth_append)
      qed
      then have "block_keys p ?b = []" "count (block_refs m) ?b = 1"
        using fresh_partD[OF d(6)[OF c], of u i] a by simp_all
      moreover have "?b \<in> usable p" using blocks_of_subset[OF d(4), of u] i a by (metis insertE nth_mem subsetD)
      ultimately show ?thesis using p1(5)[of ?b] False cnt[of ?b] by simp
    qed
  qed
  have "gm_inv p1 ?m (drop n xs)"
    by (rule gm_inv_update[OF inv p1(2,3) _ _ sub]) (use d(2,3) p1(4) cnt fresh in simp_all)
  moreover have "extend_blocks rid n (p, m) = Inr (?new, p1, note_new_ids p1 ?new ?m)"
    using p1(1) by (simp add: extend_blocks_def)
  moreover have "gm_inv p1 (note_new_ids p1 ?new ?m) (drop n xs) = gm_inv p1 ?m (drop n xs)"
    by (simp add: gm_inv_def fresh_part_def)
  ultimately show ?thesis using p1(3) by (intro exI[of _ p1] exI[of _ "note_new_ids p1 ?new ?m"]) simp
qed

text \<open>Without partial hits \<open>allocate_new_blocks\<close> is the extension to the number of blocks required.\<close>

lemma default_inv:
  assumes "gm_inv p m xs"
  shows "gm_inv p (default_blocks rid m) xs"
proof -
  have c: "count (block_refs (default_blocks rid m)) b = count (block_refs m) b" for b
    using count_set_blocks[of rid "blocks_of rid m" m b] by (simp add: default_blocks_eq)
  then have "block_refs (default_blocks rid m) = block_refs m" by (simp add: multiset_eq_iff)
  moreover have "blocks_of u (default_blocks rid m) = blocks_of u m" for u by (simp add: default_blocks_eq)
  moreover have "cached_count u (default_blocks rid m) = cached_count u m" for u by (simp add: default_blocks_eq)
  ultimately show ?thesis using assms by (simp add: gm_inv_def fresh_part_def) (simp add: default_blocks_eq)
qed

lemma allocate_new_blocks_ok:
  assumes inv: "gm_inv p m xs" and n: "cdiv_nat toks (gm_block_size m) \<le> length (blocks_of rid m) + length xs"
  shows "\<exists>new p1 m1. allocate_new_blocks rid toks (p, m) = Inr (new, p1, m1) \<and>
    (\<exists>ys. gm_inv p1 m1 ys \<and> length ys + length (blocks_of rid m1) = length xs + length (blocks_of rid m)) \<and>
    same_config p p1 \<and> same_params m m1 \<and> num_cached_block m1 = num_cached_block m \<and>
    (\<forall>u. blocks_of u m1 = (if u = rid then blocks_of rid m @ new else blocks_of u m)) \<and>
    cdiv_nat toks (gm_block_size m) \<le> length (blocks_of rid m1)"
proof -
  have r: "redirect_partial_hit rid (p, m) = Inr ([], p, m)"
    using gm_invD(2)[OF inv] by (simp add: redirect_partial_hit_def gm_static_def)
  let ?req = "cdiv_nat toks (gm_block_size m)" and ?have = "length (blocks_of rid m)"
  show ?thesis
  proof (cases "?req \<le> ?have")
    case True
    then have "allocate_new_blocks rid toks (p, m) = Inr ([], p, default_blocks rid m)"
      using r by (simp add: allocate_new_blocks_def Let_def)
    moreover have "gm_inv p (default_blocks rid m) xs" by (rule default_inv[OF inv])
    ultimately show ?thesis using True n
      by (intro exI[of _ "[]"] exI[of _ p] exI[of _ "default_blocks rid m"])
        (auto simp: default_blocks_eq)
  next
    case False
    then have "?req - ?have \<le> length xs" using n by simp
    then obtain p1 m1 where e: "extend_blocks rid (?req - ?have) (p, m) = Inr (take (?req - ?have) xs, p1, m1)"
      "gm_inv p1 m1 (drop (?req - ?have) xs)" "same_config p p1" "same_params m m1"
      "num_cached_block m1 = num_cached_block m"
      "\<And>u. blocks_of u m1 = (if u = rid then blocks_of rid m @ take (?req - ?have) xs else blocks_of u m)"
      using extend_blocks_ok[OF inv] by blast
    have "allocate_new_blocks rid toks (p, m) = Inr (take (?req - ?have) xs, p1, m1)"
      using r e(1) False by (simp add: allocate_new_blocks_def Let_def)
    then show ?thesis using e n False
      by (intro exI[of _ "take (?req - ?have) xs"] exI[of _ p1] exI[of _ m1]) auto
  qed
qed


subsection \<open>Blocks of a cache hit\<close>

definition hit_blocks_ok :: "block_pool \<Rightarrow> bref list \<Rightarrow> bool" where
  "hit_blocks_ok p new \<longleftrightarrow> set new \<subseteq> insert (Blk 0) (usable p) \<and>
     (\<forall>b \<in> set new. b \<noteq> Blk 0 \<longrightarrow> block_keys p b \<noteq> []) \<and> (\<not> enable_caching p \<longrightarrow> new = [])"

lemma add_local_ok:
  assumes inv: "gm_inv p m xs" and none: "blocks_of rid m = []" and hit: "hit_blocks_ok p new"
    and aligned: "new \<noteq> [] \<Longrightarrow> num_local mod gm_block_size m = 0"
    and skipped: "skipped = num_skipped_tokens (gm_kind m) (num_local + num_external) div gm_block_size m"
  shows "\<exists>p1 m1. add_local_computed_blocks rid new num_local num_external (p, m) = Inr (p1, m1) \<and>
    gm_inv p1 m1 (filter (\<lambda>b. b \<notin> set (drop skipped new)) xs) \<and> same_config p p1 \<and> same_params m m1 \<and>
    num_cached_block m1 = AList.update rid (skipped + length (drop skipped new)) (num_cached_block m) \<and>
    (\<forall>u. blocks_of u m1 = (if u = rid then replicate skipped (Blk 0) @ drop skipped new else blocks_of u m))"
proof -
  note d = gm_invD[OF inv]
  let ?new = "drop skipped new"
  let ?blocks = "replicate skipped (Blk 0) @ ?new"
  have sub: "set ?new \<subseteq> insert (Blk 0) (usable p)" using hit set_drop_subset[of skipped new]
    by (auto simp: hit_blocks_ok_def)
  have nb: "null_block p = Blk 0" using d(1) by (simp add: pool_inv_def pool_static_def)
  obtain p1 where p1: "(if gm_enable_caching m then touch ?new p
        else rbind (guard AssertionError (?new = [])) (\<lambda>_. Inr p)) = Inr p1"
    "pool_inv p1 (filter (\<lambda>b. b \<notin> set ?new) xs)" "same_config p p1"
    "\<And>c. ref_cnt (pool_heap p1 c) = ref_cnt (pool_heap p c) + int (count_list ?new c)"
    "\<And>c. block_keys p1 c = block_keys p c"
  proof (cases "enable_caching p")
    case True
    then show thesis using touch_ok[OF d(1) sub] d(2) that by (auto simp: gm_static_def)
  next
    case False
    then have "new = []" using hit by (simp add: hit_blocks_ok_def)
    then show thesis using that[of p] d(1,2) False by (simp add: gm_static_def)
  qed
  let ?m = "set_cached rid (length ?blocks) (set_blocks rid ?blocks m)"
  have np: "\<not> has_partial_local_hit m ?new num_local"
    using aligned by (cases "new = []") (auto simp: has_partial_local_hit_def)
  have run: "add_local_computed_blocks rid new num_local num_external (p, m) = Inr (p1, ?m)"
    unfolding add_local_computed_blocks_def Let_def prod.case skipped[symmetric]
    using none p1(1) np nb by (simp del: drop_eq_Nil split del: if_split)
  have cnt: "count (block_refs ?m) b = count (block_refs m) b + count (mset ?blocks) b" for b
    using count_set_blocks[of rid ?blocks m b] none by simp
  have cb: "count (mset ?blocks) b = count_list ?new b" if "b \<noteq> Blk 0" for b
    using that by (simp add: count_mset)
  have fresh: "fresh_part p1 ?m" if c: "enable_caching p"
    unfolding fresh_part_def
  proof (intro allI impI)
    fix u i assume a: "cached_count u ?m \<le> i \<and> i < length (blocks_of u ?m) \<and> blocks_of u ?m ! i \<noteq> Blk 0"
    let ?b = "blocks_of u ?m ! i"
    have "u \<noteq> rid" using a by auto
    then have eq: "?b = blocks_of u m ! i" and "block_keys p ?b = []" "count (block_refs m) ?b = 1"
      using fresh_partD[OF d(6)[OF c], of u i] a by simp_all
    moreover have "?b \<notin> set ?new"
      using \<open>block_keys p ?b = []\<close> a hit by (auto simp: hit_blocks_ok_def dest: in_set_dropD)
    ultimately show "block_keys p1 ?b = [] \<and> count (block_refs ?m) ?b = 1"
      using p1(5)[of ?b] cnt[of ?b] cb[of ?b] a by (simp add: count_list_0_iff)
  qed
  have sub': "set_mset (block_refs ?m) \<subseteq> insert (Blk 0) (usable p)"
  proof -
    have "set ?blocks \<subseteq> insert (Blk 0) (usable p)" using sub by auto
    from set_blocks_refs_subset[OF d(4) this] show ?thesis by simp
  qed
  have "gm_inv p1 ?m (filter (\<lambda>b. b \<notin> set ?new) xs)"
  proof (rule gm_inv_update[OF inv p1(2,3) _ _ sub'])
    fix b assume "b \<in> usable p"
    then have "b \<noteq> Blk 0" by auto
    then show "ref_cnt (pool_heap p1 b) + int (count (block_refs m) b) =
        ref_cnt (pool_heap p b) + int (count (block_refs ?m) b)"
      using p1(4)[of b] cnt[of b] cb[of b] by simp
  qed (use d(2,3) fresh in simp_all)
  then show ?thesis using run p1(3)
    by (intro exI[of _ p1] exI[of _ ?m]) simp
qed

lemma allocate_external_ok:
  assumes inv: "gm_inv p m xs"
    and n: "cdiv_nat (num_local + num_external) (gm_block_size m) \<le> length (blocks_of rid m) + length xs"
  shows "\<exists>new p1 m1. allocate_external_computed_blocks rid num_local num_external (p, m) = Inr (p1, m1) \<and>
    (\<exists>ys. gm_inv p1 m1 ys \<and> length ys + length (blocks_of rid m1) = length xs + length (blocks_of rid m)) \<and>
    same_config p p1 \<and> same_params m m1 \<and> num_cached_block m1 = num_cached_block m \<and>
    length new \<le> cdiv_nat (num_local + num_external) (gm_block_size m) - length (blocks_of rid m) \<and>
    (\<forall>u. blocks_of u m1 = (if u = rid then blocks_of rid m @ new else blocks_of u m))"
proof -
  let ?total = "num_local + num_external"
  let ?sk = "num_skipped_tokens (gm_kind m) ?total"
  let ?ext = "if 0 < ?sk then min (?total - ?sk) num_external else num_external"
  let ?k = "cdiv_nat ?total (gm_block_size m) - length (blocks_of rid m)"
  show ?thesis
  proof (cases "?ext = 0")
    case True
    then have "allocate_external_computed_blocks rid num_local num_external (p, m) = Inr (p, m)"
      unfolding allocate_external_computed_blocks_def Let_def by simp
    then show ?thesis using inv by (intro exI[of _ "[]"] exI[of _ p] exI[of _ m]) auto
  next
    case False
    have k: "?k \<le> length xs" using n by simp
    then obtain p1 m1 where e: "extend_blocks rid ?k (p, m) = Inr (take ?k xs, p1, m1)"
      "gm_inv p1 m1 (drop ?k xs)" "same_config p p1" "same_params m m1" "num_cached_block m1 = num_cached_block m"
      "\<And>u. blocks_of u m1 = (if u = rid then blocks_of rid m @ take ?k xs else blocks_of u m)"
      using extend_blocks_ok[OF inv] by blast
    have "allocate_external_computed_blocks rid num_local num_external (p, m) = Inr (p1, m1)"
      using False e(1) unfolding allocate_external_computed_blocks_def Let_def by simp
    then show ?thesis using e k by (intro exI[of _ "take ?k xs"] exI[of _ p1] exI[of _ m1]) auto
  qed
qed

end
