(* ===== verification/KV_Release.thy ===== *)
theory KV_Release
  imports KV_Ops
begin

text \<open>
  Giving blocks back and caching full blocks: the methods of a KV cache group's manager that release
  a request, null the blocks that left its window, and enter its full blocks into the prefix cache.
\<close>

subsection \<open>Releasing a request\<close>

lemma count_list_rev: "count_list (rev xs) x = count_list xs x"
  by (induction xs) simp_all

lemma pop_blocks_simps [simp]:
  "fst (pop_blocks_for_free rid m) = blocks_of rid m"
  "blocks_of u (snd (pop_blocks_for_free rid m)) = (if u = rid then [] else blocks_of u m)"
  "cached_count u (snd (pop_blocks_for_free rid m)) = (if u = rid then 0 else cached_count u m)"
  "gm_static p m \<Longrightarrow> gm_static p (snd (pop_blocks_for_free rid m))"
  "same_params m (snd (pop_blocks_for_free rid m))"
  by (simp_all add: pop_blocks_for_free_def blocks_of_def cached_count_def delete_conv' gm_static_def same_params_def)

lemma pop_blocks_refs:
  assumes "distinct (map fst (req_to_blocks m))"
  shows "block_refs (snd (pop_blocks_for_free rid m)) + mset (blocks_of rid m) = block_refs m"
proof (cases "map_of (req_to_blocks m) rid")
  case None
  then have "rid \<notin> fst ` set (req_to_blocks m)" by (simp add: map_of_eq_None_iff)
  then show ?thesis using None by (simp add: pop_blocks_for_free_def block_refs_def blocks_of_def)
next
  case (Some bs)
  then show ?thesis using holdings_delete[OF Some assms, of "\<lambda>bs. bs"]
    by (simp add: pop_blocks_for_free_def block_refs_def blocks_of_def)
qed

lemma free_request_ok:
  assumes inv: "gm_inv p m xs"
  shows "\<exists>p1 ys. free_request rid (p, m) = Inr (p1, snd (pop_blocks_for_free rid m)) \<and>
    gm_inv p1 (snd (pop_blocks_for_free rid m)) ys \<and> same_config p p1"
proof -
  note d = gm_invD[OF inv]
  let ?bs = "blocks_of rid m" and ?m = "snd (pop_blocks_for_free rid m)"
  have cnt: "count (block_refs ?m) b + count (mset ?bs) b = count (block_refs m) b" for b
    using arg_cong[OF pop_blocks_refs[OF d(3), of rid], of "\<lambda>M. count M b"] by simp
  have sub: "set (rev ?bs) \<subseteq> insert (Blk 0) (usable p)" using blocks_of_subset[OF d(4)] by simp
  have le: "\<forall>b \<in> usable p. int (count_list (rev ?bs) b) \<le> ref_cnt (pool_heap p b)"
  proof
    fix b assume "b \<in> usable p"
    then show "int (count_list (rev ?bs) b) \<le> ref_cnt (pool_heap p b)"
      using d(5)[of b] count_blocks_le[of rid m b] by (simp add: count_list_rev count_mset)
  qed
  obtain p1 ys where p1: "free_blocks (rev ?bs) p = Inr p1" "pool_inv p1 ys" "same_config p p1"
    "\<And>c. ref_cnt (pool_heap p1 c) = ref_cnt (pool_heap p c) - int (count_list (rev ?bs) c)"
    "\<And>c. block_keys p1 c = block_keys p c"
    using free_blocks_multi[OF d(1) sub le] by blast
  have "free_request rid (p, m) = Inr (p1, ?m)"
    using p1(1) by (simp add: free_request_def case_prod_unfold Let_def)
  moreover have "gm_inv p1 ?m ys"
  proof (rule gm_inv_update[OF inv p1(2,3)])
    show "distinct (map fst (req_to_blocks ?m))" using d(3) by (simp add: pop_blocks_for_free_def distinct_delete)
    have "block_refs ?m \<subseteq># block_refs m" using pop_blocks_refs[OF d(3), of rid] by (metis mset_subset_eq_add_left)
    then show "set_mset (block_refs ?m) \<subseteq> insert (Blk 0) (usable p)" using d(4) set_mset_mono by blast
    show "ref_cnt (pool_heap p1 b) + int (count (block_refs m) b) =
        ref_cnt (pool_heap p b) + int (count (block_refs ?m) b)" for b
      using p1(4)[of b] cnt[of b] by (simp add: count_list_rev count_mset)
    assume c: "enable_caching p"
    show "fresh_part p1 ?m"
      unfolding fresh_part_def
    proof (intro allI impI)
      fix u i assume a: "cached_count u ?m \<le> i \<and> i < length (blocks_of u ?m) \<and> blocks_of u ?m ! i \<noteq> Blk 0"
      then have u: "u \<noteq> rid" by auto
      let ?b = "blocks_of u m ! i"
      have f: "block_keys p ?b = []" "count (block_refs m) ?b = 1"
        using fresh_partD[OF d(6)[OF c], of u i] a u by simp_all
      have "0 < count (mset (blocks_of u m)) ?b" using a u by simp
      then have "count (mset ?bs) ?b = 0" using two_lists_count[OF u, of m ?b] f(2) by linarith
      then show "block_keys p1 (blocks_of u ?m ! i) = [] \<and> count (block_refs ?m) (blocks_of u ?m ! i) = 1"
        using f p1(5)[of ?b] cnt[of ?b] u by (simp del: count_mset_0_iff)
    qed
  qed (use d(2) in simp)
  ultimately show ?thesis using p1(3) by blast
qed


subsection \<open>Blocks outside the window\<close>

lemma null_backward_length: "null_backward nb is bs fr = (bs', fr') \<Longrightarrow> length bs' = length bs"
  by (induction "is" arbitrary: bs fr) (auto split: if_splits)

lemma null_backward_nth:
  assumes "null_backward nb is bs fr = (bs', fr')" "j < length bs"
  shows "bs' ! j = nb \<or> bs' ! j = bs ! j"
  using assms
proof (induction "is" arbitrary: bs fr)
  case (Cons i "is")
  show ?case
  proof (cases "bs ! i = nb")
    case False
    then have "bs' ! j = nb \<or> bs' ! j = bs[i := nb] ! j"
      using Cons.IH[of "bs[i := nb]" "fr @ [bs ! i]"] Cons.prems by simp
    then show ?thesis using Cons.prems(2) by (cases "i = j") auto
  qed (use Cons.prems in simp)
qed simp

lemma null_backward_other:
  "null_backward nb is bs fr = (bs', fr') \<Longrightarrow> j \<notin> set is \<Longrightarrow> bs' ! j = bs ! j"
  by (induction "is" arbitrary: bs fr) (auto split: if_splits)

lemma null_backward_freed: "null_backward nb is bs fr = (bs', fr') \<Longrightarrow> nb \<notin> set fr \<Longrightarrow> nb \<notin> set fr'"
  by (induction "is" arbitrary: bs fr) (auto split: if_splits)

lemma count_null_one:
  assumes "i < length bs" "b \<noteq> nb"
  shows "count (mset (bs[i := nb])) b + (if b = bs ! i then 1 else 0) = count (mset bs) b"
proof -
  have "bs ! i \<in># mset bs" using assms(1) by simp
  then have "mset bs = add_mset (bs ! i) (mset bs - {#bs ! i#})" by simp
  then have "count (mset bs) b = count (add_mset (bs ! i) (mset bs - {#bs ! i#})) b" by simp
  then show ?thesis using assms by (simp add: mset_update)
qed

lemma null_backward_count:
  assumes "null_backward nb is bs fr = (bs', fr')" "\<forall>i \<in> set is. i < length bs" "b \<noteq> nb"
  shows "count (mset bs') b + count (mset fr') b = count (mset bs) b + count (mset fr) b"
  using assms(1,2)
proof (induction "is" arbitrary: bs fr)
  case (Cons i "is")
  show ?case
  proof (cases "bs ! i = nb")
    case False
    then have "count (mset bs') b + count (mset fr') b =
        count (mset (bs[i := nb])) b + count (mset (fr @ [bs ! i])) b"
      using Cons.IH[of "bs[i := nb]" "fr @ [bs ! i]"] Cons.prems by simp
    moreover have "i < length bs" using Cons.prems(2) by simp
    ultimately show ?thesis using count_null_one[of i bs b nb] assms(3) by (auto split: if_splits)
  qed (use Cons.prems in simp)
qed simp

lemma remove_blocks_ok:
  assumes inv: "gm_inv p m xs"
  shows "\<exists>p1 m1 ys. remove_blocks_in_range rid first end (p, m) = Inr (p1, m1) \<and> gm_inv p1 m1 ys \<and>
    same_config p p1 \<and> same_params m m1 \<and> num_cached_block m1 = num_cached_block m \<and>
    (\<forall>u. u \<noteq> rid \<longrightarrow> blocks_of u m1 = blocks_of u m) \<and> length (blocks_of rid m1) = length (blocks_of rid m) \<and>
    (\<forall>j < length (blocks_of rid m). blocks_of rid m1 ! j \<noteq> blocks_of rid m ! j \<longrightarrow>
       first \<le> j \<and> j < end \<and> blocks_of rid m1 ! j = Blk 0) \<and> (\<forall>c. block_keys p1 c = block_keys p c)"
proof (cases "map_of (req_to_blocks m) rid = None \<or> end \<le> first")
  case True
  then have "remove_blocks_in_range rid first end (p, m) = Inr (p, m)" by (simp add: remove_blocks_in_range_def)
  then show ?thesis using inv by (intro exI[of _ p] exI[of _ m] exI[of _ xs]) simp
next
  case False
  note d = gm_invD[OF inv]
  let ?bs = "blocks_of rid m"
  let ?is = "rev [first..<min end (length ?bs)]"
  have nb: "null_block p = Blk 0" using d(1) by (simp add: pool_inv_def pool_static_def)
  obtain bs' fr where r: "null_backward (Blk 0) ?is ?bs [] = (bs', fr)" by (cases "null_backward (Blk 0) ?is ?bs []")
  have lt: "\<forall>i \<in> set ?is. i < length ?bs" by auto
  have len: "length bs' = length ?bs" by (rule null_backward_length[OF r])
  have cnt: "b \<noteq> Blk 0 \<Longrightarrow> count (mset bs') b + count (mset fr) b = count (mset ?bs) b" for b
    using null_backward_count[OF r lt] by simp
  have fr0: "Blk 0 \<notin> set fr" using null_backward_freed[OF r] by simp
  have sub: "set fr \<subseteq> insert (Blk 0) (usable p)" "set bs' \<subseteq> insert (Blk 0) (usable p)"
  proof -
    have "b \<in> set ?bs" if "b \<noteq> Blk 0" "b \<in> set fr \<or> b \<in> set bs'" for b
    proof -
      have "0 < count (mset bs') b + count (mset fr) b" using that(2) by auto
      then show ?thesis using cnt[OF that(1)] by (metis count_mset_0_iff neq0_conv)
    qed
    then show "set fr \<subseteq> insert (Blk 0) (usable p)" "set bs' \<subseteq> insert (Blk 0) (usable p)"
      using blocks_of_subset[OF d(4), of rid] by blast+
  qed
  have le: "\<forall>b \<in> usable p. int (count_list fr b) \<le> ref_cnt (pool_heap p b)"
  proof
    fix b assume b: "b \<in> usable p"
    then have "b \<noteq> Blk 0" by auto
    then show "int (count_list fr b) \<le> ref_cnt (pool_heap p b)"
      using d(5)[OF b] cnt[of b] count_blocks_le[of rid m b] by (simp add: count_mset)
  qed
  obtain p1 ys where p1: "(if fr = [] then Inr p else free_blocks fr p) = Inr p1" "pool_inv p1 ys" "same_config p p1"
    "\<And>c. ref_cnt (pool_heap p1 c) = ref_cnt (pool_heap p c) - int (count_list fr c)"
    "\<And>c. block_keys p1 c = block_keys p c"
  proof (cases "fr = []")
    case True
    then show thesis using that[of p xs] d(1) by simp
  next
    case False
    then show thesis using free_blocks_multi[OF d(1) sub(1) le] that by auto
  qed
  let ?m = "set_blocks rid bs' m"
  have run: "remove_blocks_in_range rid first end (p, m) = Inr (p1, ?m)"
    using False r p1(1) by (auto simp: remove_blocks_in_range_def Let_def nb)
  have cm: "b \<noteq> Blk 0 \<Longrightarrow> count (block_refs ?m) b + count (mset fr) b = count (block_refs m) b" for b
    using count_set_blocks[of rid bs' m b] cnt[of b] by linarith
  have keep: "j < length ?bs \<Longrightarrow> bs' ! j \<noteq> ?bs ! j \<Longrightarrow> first \<le> j \<and> j < end \<and> bs' ! j = Blk 0" for j
    using null_backward_nth[OF r, of j] null_backward_other[OF r, of j] by auto
  have "gm_inv p1 ?m ys"
  proof (rule gm_inv_update[OF inv p1(2,3)])
    show "set_mset (block_refs ?m) \<subseteq> insert (Blk 0) (usable p)" by (rule set_blocks_refs_subset[OF d(4) sub(2)])
    show "ref_cnt (pool_heap p1 b) + int (count (block_refs m) b) =
        ref_cnt (pool_heap p b) + int (count (block_refs ?m) b)" if "b \<in> usable p" for b
    proof -
      have "b \<noteq> Blk 0" using that by auto
      then show ?thesis using p1(4)[of b] cm[of b] by (simp add: count_mset)
    qed
    assume c: "enable_caching p"
    show "fresh_part p1 ?m"
      unfolding fresh_part_def
    proof (intro allI impI)
      fix u i assume a: "cached_count u ?m \<le> i \<and> i < length (blocks_of u ?m) \<and> blocks_of u ?m ! i \<noteq> Blk 0"
      let ?b = "blocks_of u ?m ! i"
      have b: "?b = blocks_of u m ! i" "i < length (blocks_of u m)"
        using a keep[of i] len by (auto split: if_splits)
      then have f: "block_keys p ?b = []" "count (block_refs m) ?b = 1"
        using fresh_partD[OF d(6)[OF c], of u i] a by simp_all
      have "0 < count (mset (blocks_of u ?m)) ?b" using a by simp
      then have "0 < count (block_refs ?m) ?b" using count_blocks_le[of u ?m ?b] by linarith
      then have "count (block_refs ?m) ?b = 1" using cm[of ?b] f(2) a by linarith
      then show "block_keys p1 ?b = [] \<and> count (block_refs ?m) ?b = 1" using f(1) p1(5) by simp
    qed
  qed (use d(2,3) in simp_all)
  then show ?thesis using run p1(3,5) len keep
    by (intro exI[of _ p1] exI[of _ ?m] exI[of _ ys]) auto
qed

lemma remove_skipped_ok:
  assumes inv: "gm_inv p m xs"
  shows "\<exists>p1 m1 ys. remove_skipped_blocks rid n (p, m) = Inr (p1, m1) \<and> gm_inv p1 m1 ys \<and>
    same_config p p1 \<and> same_params m m1 \<and> num_cached_block m1 = num_cached_block m \<and>
    (\<forall>u. u \<noteq> rid \<longrightarrow> blocks_of u m1 = blocks_of u m) \<and> length (blocks_of rid m1) = length (blocks_of rid m) \<and>
    (\<forall>j < length (blocks_of rid m). blocks_of rid m1 ! j \<noteq> blocks_of rid m ! j \<longrightarrow>
       j < num_skipped_tokens (gm_kind m) n div gm_block_size m \<and> blocks_of rid m1 ! j = Blk 0) \<and>
    (\<forall>c. block_keys p1 c = block_keys p c)"
proof (cases "num_skipped_tokens (gm_kind m) n = 0")
  case True
  then have "remove_skipped_blocks rid n (p, m) = Inr (p, m)" by (simp add: remove_skipped_blocks_def)
  then show ?thesis using inv by (intro exI[of _ p] exI[of _ m] exI[of _ xs]) simp
next
  case False
  let ?m = "default_blocks rid m"
  let ?n = "min (num_skipped_tokens (gm_kind m) n div gm_block_size m) (length (blocks_of rid m))"
  have f: "blocks_of u ?m = blocks_of u m" "num_cached_block ?m = num_cached_block m" "same_params ?m m1 = same_params m m1"
    for u m1 by (simp_all add: default_blocks_eq) (simp add: same_params_def set_blocks_def)
  have "remove_skipped_blocks rid n (p, m) = remove_blocks_in_range rid 0 ?n (p, ?m)"
    using False by (simp add: remove_skipped_blocks_def Let_def)
  then show ?thesis
    using remove_blocks_ok[OF default_inv[OF inv, of rid], of rid 0 ?n] by (simp add: f)
qed

end
