(* ===== verification/Lookup_Facts.thy ===== *)
theory Lookup_Facts
  imports Cache_Lookup
begin

text \<open>
  What the two lookups find when hits are aligned to the block size, which is the hash block size (a
  coordinator with one KV cache group): the longest run of cached blocks for full attention, and for a
  sliding window the longest prefix whose last window of blocks is cached.
\<close>

definition cached_for :: "block_pool \<Rightarrow> int \<Rightarrow> bytes \<Rightarrow> bref \<Rightarrow> bool" where
  "cached_for p g h b \<longleftrightarrow> b \<in> usable p \<and>
     (\<exists>key. make_block_hash_with_group_id h g = Inr key \<and> key \<in> set (block_keys p b))"

definition is_cached :: "block_pool \<Rightarrow> int \<Rightarrow> bytes \<Rightarrow> bool" where
  "is_cached p g h \<longleftrightarrow> (\<exists>b. cached_for p g h b)"

lemma get_hit_cases:
  assumes inv: "pool_inv p xs" and g: "0 \<le> g" "g < 2 ^ 32"
  obtains (hit) b where "get_hit (cached_block_hash_to_block p) h [g] = Inr (Some [b])" "cached_for p g h b"
    "is_cached p g h"
  | (miss) "get_hit (cached_block_hash_to_block p) h [g] = Inr None" "\<not> is_cached p g h"
proof -
  obtain key where key: "make_block_hash_with_group_id h g = Inr key" using make_key_total[OF g] by blast
  have ix: "pool_index p" using inv by (simp add: pool_inv_def)
  have lift: "get_cached_block (cached_block_hash_to_block p) h [g] = Inr r \<Longrightarrow> r \<noteq> Some [] \<Longrightarrow>
      get_hit (cached_block_hash_to_block p) h [g] = Inr r" for r
    unfolding get_hit_def by (simp del: get_cached_block.simps)
  show thesis
  proof (cases "is_cached p g h")
    case True
    then obtain c where "c \<in> usable p" "key \<in> set (block_keys p c)" by (auto simp: is_cached_def cached_for_def key)
    from get_cached_single(2)[OF ix key this] obtain b where
      "get_cached_block (cached_block_hash_to_block p) h [g] = Inr (Some [b])" "b \<in> usable p"
      "key \<in> set (block_keys p b)" by blast
    then show thesis using hit[of b] True key lift[of "Some [b]"] by (auto simp: cached_for_def)
  next
    case False
    then have "\<forall>c \<in> usable p. key \<notin> set (block_keys p c)" by (auto simp: is_cached_def cached_for_def key)
    from get_cached_single(3)[OF ix key this] show thesis using miss False lift[of None] by simp
  qed
qed

lemma cdiv_nat_mult [simp]: "0 < b \<Longrightarrow> cdiv_nat (n * b) b = n"
proof -
  assume "0 < b"
  moreover have "- (int n * int b) div int b = - int n"
    using \<open>0 < b\<close> nonzero_mult_div_cancel_right[of "int b" "- int n"] by simp
  ultimately show ?thesis by (simp add: cdiv_nat_def div_minus_right)
qed


subsection \<open>Full attention\<close>

lemma hit_run_single:
  assumes inv: "pool_inv p xs" and g: "0 \<le> g" "g < 2 ^ 32"
  shows "\<exists>bs. hit_run (cached_block_hash_to_block p) [g] hs [c] = Inr [c @ bs] \<and>
    length bs = length (takeWhile (is_cached p g) hs) \<and> (\<forall>i < length bs. cached_for p g (hs ! i) (bs ! i))"
proof (induction hs arbitrary: c)
  case (Cons h hs)
  show ?case
  proof (rule get_hit_cases[OF inv g, of h])
    fix b assume hit: "get_hit (cached_block_hash_to_block p) h [g] = Inr (Some [b])" "cached_for p g h b" "is_cached p g h"
    obtain bs where bs: "hit_run (cached_block_hash_to_block p) [g] hs [c @ [b]] = Inr [(c @ [b]) @ bs]"
      "length bs = length (takeWhile (is_cached p g) hs)" "\<forall>i < length bs. cached_for p g (hs ! i) (bs ! i)"
      using Cons.IH by blast
    then show ?thesis using hit by (intro exI[of _ "b # bs"]) (auto simp: append_hit_def nth_Cons split: nat.split)
  next
    assume "get_hit (cached_block_hash_to_block p) h [g] = Inr None" "\<not> is_cached p g h"
    then show ?thesis by simp
  qed
qed simp

lemma full_longest_hit_single:
  assumes inv: "pool_inv p xs" and g: "0 \<le> g" "g < 2 ^ 32" and bs: "bp_hash_block_size p = bs" "0 < bs"
    and n: "n = length (takeWhile (is_cached p g) (take (max_len div bs) hs))"
    and n': "n' = (if drop_eagle then n - 1 else n)"
  shows "\<exists>blocks. full_longest_hit (RawHashes hs) max_len [g] bs drop_eagle bs oh p = Inr ([blocks], n' * bs, p) \<and>
    length blocks = n' \<and> (\<forall>i < n'. cached_for p g (hs ! i) (blocks ! i))"
proof -
  obtain run where run: "hit_run (cached_block_hash_to_block p) [g] (take (max_len div bs) hs) [[]] = Inr [run]"
    "length run = n" "\<forall>i < length run. cached_for p g (take (max_len div bs) hs ! i) (run ! i)"
    using hit_run_single[OF inv g, of "take (max_len div bs) hs" "[]"] n by auto
  have "n \<le> max_len div bs" using n length_takeWhile_le[of "is_cached p g" "take (max_len div bs) hs"] by simp
  then have c: "\<forall>i < n. cached_for p g (hs ! i) (run ! i)" using run(2,3) by simp
  have hit: "drop_eagle \<Longrightarrow> n * bs - bs = n' * bs" "\<not> drop_eagle \<Longrightarrow> n' = n" "n = 0 \<Longrightarrow> n' = 0"
    using bs(2) n' by (cases n; simp)+
  have le: "n' \<le> n" using n' by simp
  have "full_longest_hit (RawHashes hs) max_len [g] bs drop_eagle bs oh p = Inr ([take n' run], n' * bs, p)"
    using run(1,2) bs by (simp add: full_longest_hit_def view_iter_def view_from_def Let_def first_length_def
        py_nth_def) (auto simp: hit)
  moreover have "length (take n' run) = n'" using run(2) le by simp
  moreover have "\<forall>i < n'. cached_for p g (hs ! i) (take n' run ! i)" using c le by simp
  ultimately show ?thesis by blast
qed


subsection \<open>Sliding window\<close>

text \<open>The last \<open>need\<close> of the first \<open>n\<close> blocks, or all \<open>n\<close>, are cached.\<close>

definition window_hit :: "block_pool \<Rightarrow> int \<Rightarrow> bytes list \<Rightarrow> nat \<Rightarrow> nat \<Rightarrow> bool" where
  "window_hit p g hs need n \<longleftrightarrow> (\<forall>i < n. n - need \<le> i \<longrightarrow> is_cached p g (hs ! i))"

text \<open>What the scan knows when it has examined the blocks from \<open>k\<close> on: a run of \<open>r\<close> cached blocks begins
  at \<open>k\<close>, and no longer prefix is a hit.\<close>

definition scan_inv :: "block_pool \<Rightarrow> int \<Rightarrow> bytes list \<Rightarrow> nat \<Rightarrow> nat \<Rightarrow> nat \<Rightarrow> bref list \<Rightarrow> nat \<Rightarrow> bool" where
  "scan_inv p g hs need N k c r \<longleftrightarrow> length c = N \<and> k + r \<le> N \<and> r < need \<and>
     (\<forall>j < k. c ! j = null_block p) \<and> (\<forall>j. k \<le> j \<and> j < k + r \<longrightarrow> cached_for p g (hs ! j) (c ! j)) \<and>
     (\<forall>n. k + r < n \<and> n \<le> N \<longrightarrow> \<not> window_hit p g hs need n)"

definition scan_result :: "block_pool \<Rightarrow> int \<Rightarrow> bytes list \<Rightarrow> nat \<Rightarrow> nat \<Rightarrow> bref list \<Rightarrow> bool" where
  "scan_result p g hs need N c \<longleftrightarrow> length c \<le> N \<and>
     (\<forall>i < length c. if length c - need \<le> i then cached_for p g (hs ! i) (c ! i) else c ! i = null_block p) \<and>
     (\<forall>n. length c < n \<and> n \<le> N \<longrightarrow> \<not> window_hit p g hs need n)"

lemma scan_inv_miss:
  assumes "scan_inv p g hs need N (Suc i) c r" "\<not> is_cached p g (hs ! i)"
  shows "scan_inv p g hs need N i c 0"
proof -
  have "\<not> window_hit p g hs need n" if "i < n" "n \<le> N" for n
  proof (cases "Suc i + r < n")
    case True
    then show ?thesis using assms(1) that by (simp add: scan_inv_def)
  next
    case False
    then have "n - need \<le> i" using assms(1) by (auto simp: scan_inv_def)
    then show ?thesis using assms(2) that(1) by (auto simp: window_hit_def)
  qed
  moreover have "length c = N" "Suc (i + r) \<le> N" "r < need" "\<forall>j < Suc i. c ! j = null_block p"
    using assms(1) by (simp_all add: scan_inv_def)
  ultimately show ?thesis unfolding scan_inv_def by auto
qed

lemma scan_found:
  assumes "scan_inv p g hs need N (Suc i) c r" "cached_for p g (hs ! i) b" "need \<le> r + 1"
  shows "scan_result p g hs need N (take (i + (r + 1)) (c[i := b]))"
proof -
  have eq: "need = r + 1" and len: "length (take (i + (r + 1)) (c[i := b])) = i + (r + 1)"
    using assms by (auto simp: scan_inv_def)
  show ?thesis
    using assms(1,2) unfolding scan_result_def len
    by (auto simp: eq scan_inv_def nth_list_update)
qed

lemma scan_inv_hit:
  assumes "scan_inv p g hs need N (Suc i) c r" "cached_for p g (hs ! i) b" "\<not> need \<le> r + 1"
  shows "scan_inv p g hs need N i (c[i := b]) (r + 1)"
  using assms by (auto simp: scan_inv_def nth_list_update)

lemma scan_done:
  assumes "scan_inv p g hs need N 0 c r"
  shows "scan_result p g hs need N (take r c)"
proof -
  have "length (take r c) = r" using assms by (simp add: scan_inv_def)
  then show ?thesis using assms unfolding scan_result_def by (auto simp: scan_inv_def)
qed

lemma sliding_scan_single:
  assumes inv: "pool_inv p xs" and g: "0 \<le> g" "g < 2 ^ 32" and N: "N \<le> length hs"
    and "scan_inv p g hs (max 1 need) N k c r" "k \<le> N"
  shows "\<exists>c' r' found. sliding_scan k (cached_block_hash_to_block p) [g] (RawHashes hs) bs bs False d need [c] r =
      Inr ([c'], r', found) \<and> scan_result p g hs (max 1 need) N (if found then c' else take r' c')"
  using assms(5,6)
proof (induction k arbitrary: c r)
  case 0
  then show ?case using scan_done by auto
next
  case (Suc i)
  have v: "view_at (RawHashes hs) (int i) = Inr (hs ! i)" using Suc.prems(2) N by simp
  show ?case
  proof (rule get_hit_cases[OF inv g, of "hs ! i"])
    fix b assume hit: "get_hit (cached_block_hash_to_block p) (hs ! i) [g] = Inr (Some [b])"
      "cached_for p g (hs ! i) b" "is_cached p g (hs ! i)"
    show ?thesis
    proof (cases "need \<le> r + 1")
      case True
      then have "max 1 need \<le> r + 1" by simp
      from scan_found[OF Suc.prems(1) hit(2) this] show ?thesis using True hit(1) v by (auto simp: Let_def)
    next
      case False
      then have "\<not> max 1 need \<le> r + 1" by simp
      from scan_inv_hit[OF Suc.prems(1) hit(2) this] show ?thesis
        using Suc.IH[of "c[i := b]" "r + 1"] Suc.prems(2) False hit(1) v by (auto simp: Let_def)
    qed
  next
    assume miss: "get_hit (cached_block_hash_to_block p) (hs ! i) [g] = Inr None" "\<not> is_cached p g (hs ! i)"
    from scan_inv_miss[OF Suc.prems(1) miss(2)] show ?thesis
      using Suc.IH[of c 0] Suc.prems(2) miss(1) v by auto
  qed
qed

lemma sliding_longest_hit_single:
  assumes inv: "pool_inv p xs" and g: "0 \<le> g" "g < 2 ^ 32" and bs: "bp_hash_block_size p = bs" "0 < bs"
    and N: "max_len div bs \<le> length hs"
    and need: "need = max 1 (contiguous_blocks_for_hit window bs drop_eagle)"
  shows "\<exists>c. sliding_longest_hit (RawHashes hs) max_len [g] bs window drop_eagle bs oh p =
      Inr ([if drop_eagle then butlast c else c], length (if drop_eagle then butlast c else c) * bs, p) \<and>
    scan_result p g hs need (max_len div bs) c"
proof -
  let ?N = "max_len div bs"
  have "scan_inv p g hs need ?N ?N (replicate ?N (null_block p)) 0" by (auto simp: scan_inv_def need)
  from sliding_scan_single[OF inv g N this[unfolded need] order_refl, of bs drop_eagle]
  obtain c' r' found where s: "sliding_scan ?N (cached_block_hash_to_block p) [g] (RawHashes hs) bs bs False drop_eagle
      (contiguous_blocks_for_hit window bs drop_eagle) [replicate ?N (null_block p)] 0 = Inr ([c'], r', found)"
    "scan_result p g hs need ?N (if found then c' else take r' c')"
    by (auto simp: need)
  let ?c = "if found then c' else take r' c'"
  have "sliding_longest_hit (RawHashes hs) max_len [g] bs window drop_eagle bs oh p =
      Inr ([if drop_eagle then butlast ?c else ?c], length (if drop_eagle then butlast ?c else ?c) * bs, p)"
    using s(1) bs by (cases "?c = []") (auto simp: sliding_longest_hit_def Let_def first_length_def py_nth_def)
  then show ?thesis using s(2) by blast
qed

end
