(* ===== verification/KV_Slots.thy ===== *)
theory KV_Slots
  imports KV_Release Lookup_Facts
begin

text \<open>
  Caching the full blocks of a request, and the KV cache manager with one group: what
  \<open>allocate_slots\<close> does when its caller keeps the conditions \<open>slots_ok\<close>, in particular that the check
  it makes covers everything it then takes.
\<close>

subsection \<open>Caching full blocks\<close>

lemma mark_boundary_length [simp]: "length (mark_boundary first n need e marks) = length marks"
proof -
  have "length (fold (\<lambda>j ms. ms[nat (j - int first) := True]) js marks) = length marks" for js
    by (induction js arbitrary: marks) simp_all
  then show ?thesis by (simp add: mark_boundary_def)
qed

lemma fold_mark_length: "length (fold (\<lambda>b. mark_boundary first n need (f b)) bs marks) = length marks"
  by (induction bs arbitrary: marks) simp_all

lemma reachable_mask_total:
  assumes "cache_hit_alignment_tokens m = gm_block_size m" "0 < gm_block_size m"
  shows "\<exists>bmask. reachable_block_mask m first n retention bounds = Inr bmask \<and>
    (case bmask of None \<Rightarrow> True | Some marks \<Rightarrow> length marks = n - first)"
  using assms
  by (auto simp: reachable_block_mask_def sliding_mask_def Let_def segment_mask_def fold_mark_length
      split: manager_kind.splits option.splits)

lemma cache_full_prefix_ok:
  assumes inv: "gm_inv p m xs" and caching: "enable_caching p" and full: "full = toks div gm_block_size m"
    and len: "full \<le> length (blocks_of (request_id r) m)" "full \<le> length (block_hashes r)"
  shows "\<exists>p1 m1. cache_full_prefix H r toks retention (p, m) = Inr (p1, m1) \<and> gm_inv p1 m1 xs \<and>
    same_config p p1 \<and> same_params m m1 \<and> (\<forall>u. blocks_of u m1 = blocks_of u m)"
proof -
  note d = gm_invD[OF inv]
  let ?rid = "request_id r"
  let ?c = "cached_count ?rid m" and ?bs = "blocks_of ?rid m"
  have st: "gm_block_size m = bp_hash_block_size p" "cache_hit_alignment_tokens m = gm_block_size m"
      "0 < gm_block_size m" "0 \<le> gm_group_id m" "gm_group_id m < 2 ^ 32"
    using d(2) caching by (simp_all add: gm_static_def)
  have def: "cache_full_prefix H r toks retention (p, m) =
      (if full \<le> ?c then Inr (p, m)
       else rbind (reachable_block_mask m ?c full retention (reachable_boundaries r)) (\<lambda>bmask.
         rbind (cache_full_blocks H r ?bs ?c full (gm_block_size m) (gm_group_id m) bmask True p)
           (\<lambda>p1. Inr (p1, set_cached ?rid full (default_blocks ?rid m)))))"
    by (simp add: cache_full_prefix_def Let_def full cached_count_def)
  show ?thesis
  proof (cases "full \<le> ?c")
    case True
    then show ?thesis using def inv by (intro exI[of _ p] exI[of _ m]) simp
  next
    case False
    obtain bmask where bm: "reachable_block_mask m ?c full retention (reachable_boundaries r) = Inr bmask"
        "case bmask of None \<Rightarrow> True | Some marks \<Rightarrow> length marks = full - ?c"
      using reachable_mask_total[OF st(2,3)] by blast
    have fresh: "i \<in> {?c..<full} \<Longrightarrow> ?bs ! i \<noteq> Blk 0 \<Longrightarrow>
        block_keys p (?bs ! i) = [] \<and> count (block_refs m) (?bs ! i) = 1" for i
      using fresh_partD[OF d(6)[OF caching], of ?rid i] len(1) by auto
    have in_us: "i < length ?bs \<Longrightarrow> ?bs ! i \<noteq> Blk 0 \<Longrightarrow> ?bs ! i \<in> usable p" for i
      using blocks_of_subset[OF d(4), of ?rid] nth_mem by blast
    have once: "i = j" if "count (block_refs m) (?bs ! i) = 1" "i < length ?bs" "j < length ?bs" "?bs ! i = ?bs ! j" for i j
      using count_two_positions[of i ?bs j] count_blocks_le[of ?rid m "?bs ! i"] that by fastforce
    have promo: "promotable p b n" if "b \<in> usable p" "block_keys p b = []" for b n
    proof -
      have "keys_ok p b" using d(1) that(1) by (auto simp: pool_inv_def pool_index_def)
      then show ?thesis using that(2) block_keys_Nil_iff[of p b] by (auto simp: keys_ok_def promotable_def)
    qed
    have null0: "is_null (pool_heap p (Blk 0))" using d(1) null_static by (auto simp: pool_inv_def)
    have ca: "cacheable p r ?bs ?c full 1 (gm_group_id m) bmask"
      unfolding cacheable_def
    proof (intro conjI ballI impI)
      fix i assume i: "i \<in> {?c..<full}" "\<not> skip_block (pool_heap p) bmask (i - ?c) (?bs ! i)"
      then have nz: "?bs ! i \<noteq> Blk 0" using null0 by (auto simp: skip_block_def)
      have il: "i < length ?bs" using i(1) len(1) by auto
      show "?bs ! i \<in> usable p" by (rule in_us[OF il nz])
      then show "promotable p (?bs ! i) (int ((i + 1) * (1 * bp_hash_block_size p)))"
        using promo fresh[OF i(1) nz] by blast
      fix j assume "j \<in> {?c..<full}" "?bs ! i = ?bs ! j"
      then show "i = j" using once[of i j] fresh[OF i(1) nz] il len(1) by auto
    qed (use st False len bm(2) in auto)
    obtain p1 where p1: "cache_full_blocks H r ?bs ?c full (1 * bp_hash_block_size p) (gm_group_id m) bmask True p = Inr p1"
      "pool_inv p1 xs" "only_keys_of (newly_cached p ?bs ?c full bmask) p p1"
      using cacheable_ok[OF d(1) ca] by blast
    note ok = only_keysD[OF p1(3)]
    let ?m = "set_cached ?rid full (default_blocks ?rid m)"
    have run: "cache_full_prefix H r toks retention (p, m) = Inr (p1, ?m)"
      using def False bm(1) p1(1) st(1) by simp
    have refs: "block_refs ?m = block_refs m"
      using count_set_blocks[of ?rid ?bs m] by (simp add: default_blocks_eq multiset_eq_iff)
    have bl: "blocks_of u ?m = blocks_of u m" for u by (simp add: default_blocks_eq)
    have "gm_inv p1 ?m xs"
    proof (rule gm_inv_update[OF inv p1(2) ok(1)])
      assume "enable_caching p"
      show "fresh_part p1 ?m"
        unfolding fresh_part_def bl refs
      proof (intro allI impI)
        fix u i assume a: "cached_count u ?m \<le> i \<and> i < length (blocks_of u m) \<and> blocks_of u m ! i \<noteq> Blk 0"
        let ?b = "blocks_of u m ! i"
        have ge: "cached_count u m \<le> i" using a False by (auto simp: default_blocks_eq split: if_splits)
        have f: "block_keys p ?b = []" "count (block_refs m) ?b = 1"
          using fresh_partD[OF d(6)[OF caching] ge] a by simp_all
        have "?b \<notin> newly_cached p ?bs ?c full bmask"
        proof
          assume "?b \<in> newly_cached p ?bs ?c full bmask"
          then obtain j where j: "?b = ?bs ! j" "?c \<le> j" "j < full" by (auto simp: newly_cached_def)
          show False
          proof (cases "u = ?rid")
            case True
            then have "i = j" using once[of i j] f(2) a j len(1) by auto
            then show False using a j(3) True by simp
          next
            case False
            have "?b \<in> set (blocks_of u m)" using a nth_mem by blast
            moreover have "?b \<in> set ?bs" unfolding j(1) using j(3) len(1) by (intro nth_mem) simp
            ultimately have "0 < count (mset (blocks_of u m)) ?b" "0 < count (mset ?bs) ?b" by simp_all
            then show False using two_lists_count[OF False, of m ?b] f(2) by linarith
          qed
        qed
        moreover have "?b \<in> usable p" using blocks_of_subset[OF d(4), of u] a nth_mem by blast
        ultimately show "block_keys p1 ?b = [] \<and> count (block_refs m) ?b = 1" using ok(5) f by simp
      qed
    qed (use d(2-4) ok(2) refs in \<open>simp_all add: default_blocks_eq\<close>)
    then show ?thesis using run ok(1) bl by (intro exI[of _ p1] exI[of _ ?m]) (simp add: default_blocks_eq)
  qed
qed

lemma cache_blocks_ok:
  assumes inv: "gm_inv p m xs" and caching: "enable_caching p"
    and len: "toks div gm_block_size m \<le> length (blocks_of (request_id r) m)"
      "toks div gm_block_size m \<le> length (block_hashes r)"
  shows "\<exists>p1 m1. cache_blocks H Ho r toks retention (p, m) = Inr (r, p1, m1) \<and> gm_inv p1 m1 xs \<and>
    same_config p p1 \<and> same_params m m1 \<and> (\<forall>u. blocks_of u m1 = blocks_of u m)"
proof -
  obtain p1 m1 where c: "cache_full_prefix H r toks retention (p, m) = Inr (p1, m1)" "gm_inv p1 m1 xs"
    "same_config p p1" "same_params m m1" "\<forall>u. blocks_of u m1 = blocks_of u m"
    using cache_full_prefix_ok[OF inv caching refl len] by blast
  moreover have "gm_block_size m1 = bp_hash_block_size p1"
    using gm_invD(2)[OF c(2)] c(3) caching by (simp add: gm_static_def same_config_def)
  ultimately show ?thesis by (simp add: cache_blocks_def)
qed


subsection \<open>Rounding up\<close>

lemma cdiv_nat_bounds:
  assumes "0 < b"
  shows "a \<le> cdiv_nat a b * b" "a \<le> k * b \<Longrightarrow> cdiv_nat a b \<le> k"
proof -
  let ?c = "- (- int a div int b)"
  have c: "cdiv_nat a b = nat ?c" by (simp add: cdiv_nat_def div_minus_right)
  have "- int a div int b * int b + - int a mod int b = - int a" by (rule div_mult_mod_eq)
  moreover have "0 \<le> - int a mod int b" using assms by simp
  ultimately have "- int a div int b * int b \<le> - int a" by linarith
  then have ge: "int a \<le> ?c * int b" by (simp add: minus_mult_left[symmetric] del: minus_mult_left)
  have "- int a div int b \<le> 0" using assms by (simp add: div_nonpos_pos_le0)
  then have ci: "int (cdiv_nat a b) = ?c" by (simp add: c)
  show "a \<le> cdiv_nat a b * b" using ge ci by (metis of_nat_le_iff of_nat_mult)
  show "cdiv_nat a b \<le> k" if "a \<le> k * b"
  proof -
    have "- (int k * int b) \<le> - int a" using that by (metis neg_le_iff_le of_nat_le_iff of_nat_mult)
    then have "- (int k * int b) div int b \<le> - int a div int b" by (rule zdiv_mono1) (use assms in simp)
    moreover have "- (int k * int b) div int b = - int k"
      using assms nonzero_mult_div_cancel_right[of "int b" "- int k"] by simp
    ultimately show ?thesis using ci by linarith
  qed
qed

lemma cdiv_nat_mono: "0 < b \<Longrightarrow> a \<le> c \<Longrightarrow> cdiv_nat a b \<le> cdiv_nat c b"
  using cdiv_nat_bounds(1)[of b c] cdiv_nat_bounds(2)[of b a "cdiv_nat c b"] by simp

lemma div_le_cdiv: "0 < b \<Longrightarrow> a div b \<le> cdiv_nat a b"
proof -
  assume b: "0 < b"
  have "a div b * b \<le> cdiv_nat a b * b" using cdiv_nat_bounds(1)[OF b, of a] div_times_less_eq_dividend[of a b] by linarith
  then show ?thesis using b by simp
qed

end
