(* ===== verification/KV_Alloc.thy ===== *)
theory KV_Alloc
  imports KV_Slots
begin

text \<open>
  \<open>allocate_slots\<close> of a KV cache manager with one group: what its caller must keep (\<open>slots_ok\<close>), and
  that the check it makes before it takes blocks covers every block it then takes.
\<close>

subsection \<open>One group\<close>

definition one_group :: "kv_manager \<Rightarrow> block_pool \<Rightarrow> group_manager \<Rightarrow> kv_manager" where
  "one_group kv p m = kv\<lparr>kv_pool := p, kv_groups := [m]\<rparr>"

lemma one_group_simps [simp]:
  "kv_pool (one_group kv p m) = p" "kv_groups (one_group kv p m) = [m]"
  "kv_max_model_len (one_group kv p m) = kv_max_model_len kv"
  "kv_enable_caching (one_group kv p m) = kv_enable_caching kv"
  "kv_watermark_blocks (one_group kv p m) = kv_watermark_blocks kv"
  "kv_retention_interval (one_group kv p m) = kv_retention_interval kv"
  "one_group (one_group kv p' m') p m = one_group kv p m"
  by (simp_all add: one_group_def)

lemma one_group_same: "kv_groups kv = [m] \<Longrightarrow> kv_pool kv = p \<Longrightarrow> one_group kv p m = kv"
  by (simp add: one_group_def)

lemma on_groups_single:
  assumes "kv_groups kv = [m]" "f x (kv_pool kv, m) = Inr (a, p1, m1)"
  shows "on_groups f [x] kv = Inr ([a], one_group kv p1 m1)"
  using assms by (simp add: on_groups_def one_group_def)

lemma all_groups_single:
  assumes "kv_groups kv = [m]" "f (kv_pool kv, m) = Inr (p1, m1)"
  shows "all_groups f kv = Inr (one_group kv p1 m1)"
proof -
  have "no_value f () (kv_pool kv, m) = Inr ((), p1, m1)" using assms(2) by (simp add: no_value_def)
  then show ?thesis using on_groups_single[of kv m "no_value f" "()" "()" p1 m1] assms(1)
    by (simp add: all_groups_def drop_value_def)
qed

lemma sum_blocks_single:
  "kv_groups kv = [m] \<Longrightarrow> sum_blocks_to_allocate (kv_pool kv) (kv_groups kv) rid toks [bs] total_toks local_toks cap =
     get_num_blocks_to_allocate (kv_pool kv) m rid toks bs total_toks local_toks cap"
  by (cases "get_num_blocks_to_allocate (kv_pool kv) m rid toks bs total_toks local_toks cap") simp_all


subsection \<open>The caller's part\<close>

text \<open>
  Without cached tokens counted for the request, either the call brings computed blocks and the request
  has none yet, or its blocks cover its computed tokens.  A hit consists of cached blocks.
\<close>

definition takes_computed :: "slot_request \<Rightarrow> bool" where
  "takes_computed q \<longleftrightarrow> sr_new_computed_blocks q \<noteq> None \<or> 0 < sr_external_tokens q"

definition new_blocks :: "slot_request \<Rightarrow> bref list" where
  "new_blocks q = (case sr_new_computed_blocks q of None \<Rightarrow> [] | Some bss \<Rightarrow> hd bss)"

definition group_ready :: "request \<Rightarrow> slot_request \<Rightarrow> group_manager \<Rightarrow> bool" where
  "group_ready r q m \<longleftrightarrow>
     (new_blocks q \<noteq> [] \<longrightarrow> sr_local_tokens r q mod gm_block_size m = 0) \<and>
     (if map_of (num_cached_block m) (request_id r) \<noteq> None then new_blocks q = []
      else if takes_computed q then blocks_of (request_id r) m = []
      else sr_local_tokens r q \<le> length (blocks_of (request_id r) m) * gm_block_size m) \<and>
     num_tokens r div gm_block_size m \<le> length (block_hashes r)"

definition slots_ok :: "request \<Rightarrow> slot_request \<Rightarrow> kv_manager \<Rightarrow> bool" where
  "slots_ok r q kv \<longleftrightarrow>
     (case sr_new_computed_blocks q of None \<Rightarrow> True | Some bss \<Rightarrow> length bss = 1) \<and>
     (\<forall>m \<in> set (kv_groups kv). group_ready r q m) \<and>
     hit_blocks_ok (kv_pool kv) (new_blocks q) \<and>
     sr_local_tokens r q + sr_external_tokens q \<le> kv_max_model_len kv \<and>
     num_tokens r \<le> kv_max_model_len kv \<and> 0 \<le> sr_reserved_blocks q \<and>
     \<not> (sr_new_tokens q = 0 \<and> sr_external_tokens q = 0)"

lemma skipped_le: "num_skipped_tokens k n \<le> n" if "k \<noteq> SlidingWindow 0"
proof (cases k)
  case (SlidingWindow w)
  then have "0 < w" using that by (cases w) auto
  then show ?thesis using SlidingWindow by auto
qed simp


subsection \<open>Taking what the check counted\<close>

lemma evictable_count:
  assumes "gm_inv p m xs"
  shows "length xs \<le> length (filter (\<lambda>b. b \<notin> set new) xs) + num_evictable_blocks p new"
proof -
  have gap: "pool_gap p xs []" using gm_invD(1)[OF assms] by (simp add: pool_inv_rest)
  have st: "pool_static p" using gm_invD(1)[OF assms] by (simp add: pool_inv_def)
  let ?ev = "\<lambda>b. ref_cnt (pool_heap p b) = 0 \<and> \<not> is_null (pool_heap p b)"
  have free: "b \<in> usable p \<and> ref_cnt (pool_heap p b) = 0" if "b \<in> set xs" for b
    using gapD(5)[OF gap, of b] that by simp
  have "set (filter (\<lambda>b. b \<in> set new) xs) \<subseteq> set (filter ?ev new)"
  proof
    fix b assume "b \<in> set (filter (\<lambda>b. b \<in> set new) xs)"
    moreover then have "b \<in> usable p" "ref_cnt (pool_heap p b) = 0" using free by auto
    ultimately show "b \<in> set (filter ?ev new)" using usable_static[OF st] by auto
  qed
  then have "card (set (filter (\<lambda>b. b \<in> set new) xs)) \<le> card (set (filter ?ev new))" by (intro card_mono) auto
  also have "\<dots> \<le> num_evictable_blocks p new" unfolding num_evictable_blocks_def by (rule card_length)
  also have "card (set (filter (\<lambda>b. b \<in> set new) xs)) = length (filter (\<lambda>b. b \<in> set new) xs)"
    using gapD(3)[OF gap] by (intro distinct_card) simp
  finally show ?thesis using sum_length_filter_compl[of "\<lambda>b. b \<in> set new" xs] by simp
qed

lemma computed_blocks_ok:
  assumes kv: "kv_groups kv = [m]" and inv: "gm_inv (kv_pool kv) m xs" and none: "blocks_of rid m = []"
    and new_req: "map_of (num_cached_block m) rid = None" and hit: "hit_blocks_ok (kv_pool kv) new"
    and aligned: "new \<noteq> [] \<Longrightarrow> num_local mod gm_block_size m = 0"
    and skipped: "skipped = num_skipped_tokens (gm_kind m) (num_local + num_external) div gm_block_size m"
    and req: "cdiv_nat (num_local + num_external) (gm_block_size m) \<le> req"
      "req - max skipped (length new) + num_evictable_blocks (kv_pool kv) (drop skipped new) \<le> length xs"
  shows "\<exists>p1 m1 ys more. allocate_new_computed_blocks rid [new] num_local num_external kv = Inr (one_group kv p1 m1) \<and>
    gm_inv p1 m1 ys \<and> same_config (kv_pool kv) p1 \<and> same_params m m1 \<and>
    req \<le> length (blocks_of rid m1) + length ys \<and>
    (\<forall>u. blocks_of u m1 = (if u = rid then replicate skipped (Blk 0) @ drop skipped new @ more else blocks_of u m))"
proof -
  obtain p1 m1 where a: "add_local_computed_blocks rid new num_local num_external (kv_pool kv, m) = Inr (p1, m1)"
    "gm_inv p1 m1 (filter (\<lambda>b. b \<notin> set (drop skipped new)) xs)" "same_config (kv_pool kv) p1" "same_params m m1"
    "\<And>u. blocks_of u m1 = (if u = rid then replicate skipped (Blk 0) @ drop skipped new else blocks_of u m)"
    using add_local_ok[OF inv none hit aligned skipped] by blast
  let ?ys = "filter (\<lambda>b. b \<notin> set (drop skipped new)) xs"
  have ev: "length xs \<le> length ?ys + num_evictable_blocks (kv_pool kv) (drop skipped new)"
    by (rule evictable_count[OF inv])
  have len: "length (blocks_of rid m1) = max skipped (length new)" using a(5) by simp
  have room: "req \<le> length (blocks_of rid m1) + length ?ys" using ev len req(2) by linarith
  have bs: "gm_block_size m1 = gm_block_size m" using a(4) by (simp add: same_params_def)
  have loc: "drop_value (on_groups (\<lambda>bs. no_value (add_local_computed_blocks rid bs num_local num_external) ()) [new] kv) =
      Inr (one_group kv p1 m1)"
    using on_groups_single[OF kv, of "\<lambda>bs. no_value (add_local_computed_blocks rid bs num_local num_external) ()"
        new "()" p1 m1] a(1) by (simp add: no_value_def drop_value_def)
  show ?thesis
  proof (cases "num_external = 0")
    case True
    then have "allocate_new_computed_blocks rid [new] num_local num_external kv = Inr (one_group kv p1 m1)"
      using kv new_req loc by (simp add: allocate_new_computed_blocks_def)
    then show ?thesis using a(2-5) room
      by (intro exI[of _ p1] exI[of _ m1] exI[of _ ?ys] exI[of _ "[]"]) simp
  next
    case False
    have "cdiv_nat (num_local + num_external) (gm_block_size m1) \<le> length (blocks_of rid m1) + length ?ys"
      using room req(1) unfolding bs by linarith
    from allocate_external_ok[OF a(2) this] obtain more p2 m2 ys where e:
      "allocate_external_computed_blocks rid num_local num_external (p1, m1) = Inr (p2, m2)" "gm_inv p2 m2 ys"
      "length ys + length (blocks_of rid m2) = length ?ys + length (blocks_of rid m1)" "same_config p1 p2"
      "same_params m1 m2"
      "\<And>u. blocks_of u m2 = (if u = rid then blocks_of rid m1 @ more else blocks_of u m1)" by blast
    have "all_groups (allocate_external_computed_blocks rid num_local num_external) (one_group kv p1 m1) =
        Inr (one_group kv p2 m2)"
      using all_groups_single[of "one_group kv p1 m1" m1] e(1) by simp
    then have "allocate_new_computed_blocks rid [new] num_local num_external kv = Inr (one_group kv p2 m2)"
      using kv new_req loc False by (simp add: allocate_new_computed_blocks_def)
    then show ?thesis using a(3-5) e room same_config_trans[OF a(3) e(4)] same_params_trans[OF a(4) e(5)]
      by (intro exI[of _ p2] exI[of _ m2] exI[of _ ys] exI[of _ more]) simp
  qed
qed

lemma num_blocks_parts:
  assumes "get_num_blocks_to_allocate p m rid toks new total_toks num_local False = Inr n"
  shows "map_of (num_cached_block m) rid \<noteq> None \<Longrightarrow> n = cdiv_nat toks (gm_block_size m) - length (blocks_of rid m)"
    "map_of (num_cached_block m) rid = None \<Longrightarrow> skipped = num_skipped_tokens (gm_kind m) total_toks div gm_block_size m \<Longrightarrow>
       cdiv_nat toks (gm_block_size m) - max skipped (length new + length (blocks_of rid m)) +
         num_evictable_blocks p (drop (skipped - length (blocks_of rid m)) new) \<le> n"
  using assms by (auto simp: get_num_blocks_to_allocate_def Let_def guard_def split: option.splits if_splits)

text \<open>What the group has after the steps that take blocks: the hit, without the blocks outside the window,
  and then new blocks; the other requests' blocks are left alone.\<close>

definition keeps_hit :: "request \<Rightarrow> slot_request \<Rightarrow> group_manager \<Rightarrow> group_manager \<Rightarrow> bool" where
  "keeps_hit r q m m' \<longleftrightarrow>
     (let skipped = num_skipped_tokens (gm_kind m) (sr_local_tokens r q + sr_external_tokens q) div gm_block_size m;
          base = (if takes_computed q \<and> map_of (num_cached_block m) (request_id r) = None
                  then replicate skipped (Blk 0) @ drop skipped (new_blocks q) else blocks_of (request_id r) m) in
      (\<exists>more. blocks_of (request_id r) m' = base @ more) \<and>
      (\<forall>u. u \<noteq> request_id r \<longrightarrow> blocks_of u m' = blocks_of u m))"

lemma covered_skip:
  assumes "k \<noteq> SlidingWindow 0" "0 < bs" "t \<le> have * bs"
  shows "num_skipped_tokens k t div bs \<le> have"
proof -
  have "num_skipped_tokens k t div bs \<le> t div bs" using skipped_le[OF assms(1)] by (rule div_le_mono)
  also have "\<dots> \<le> have * bs div bs" by (rule div_le_mono[OF assms(3)])
  finally show ?thesis using assms(2) by simp
qed

lemma computed_step_ok:
  assumes kv: "kv_groups kv = [m]" and inv: "gm_inv (kv_pool kv) m xs" and ready: "group_ready r q m"
    and hit: "hit_blocks_ok (kv_pool kv) (new_blocks q)" and bl: "sr_blocks q kv = [new_blocks q]"
    and need: "get_num_blocks_to_allocate (kv_pool kv) m (request_id r) toks (new_blocks q)
        (sr_local_tokens r q + sr_external_tokens q) (sr_local_tokens r q) False = Inr n" "n \<le> length xs"
    and toks: "sr_local_tokens r q + sr_external_tokens q \<le> toks"
  shows "\<exists>p1 m1 ys. (if sr_new_computed_blocks q \<noteq> None \<or> 0 < sr_external_tokens q
        then allocate_new_computed_blocks (request_id r) (sr_blocks q kv) (sr_local_tokens r q) (sr_external_tokens q) kv
        else Inr kv) = Inr (one_group kv p1 m1) \<and>
      gm_inv p1 m1 ys \<and> same_config (kv_pool kv) p1 \<and> same_params m m1 \<and> keeps_hit r q m m1 \<and>
      cdiv_nat toks (gm_block_size m) \<le> length (blocks_of (request_id r) m1) + length ys"
proof -
  let ?rid = "request_id r" and ?p = "kv_pool kv"
  let ?t = "sr_local_tokens r q + sr_external_tokens q"
  let ?skipped = "num_skipped_tokens (gm_kind m) ?t div gm_block_size m"
  have st: "0 < gm_block_size m" "gm_kind m \<noteq> SlidingWindow 0"
    using gm_invD(2)[OF inv] by (simp_all add: gm_static_def)
  have same: "one_group kv ?p m = kv" by (rule one_group_same[OF kv refl])
  consider (running) "map_of (num_cached_block m) ?rid \<noteq> None" | (fresh) "map_of (num_cached_block m) ?rid = None" "takes_computed q"
    | (none) "map_of (num_cached_block m) ?rid = None" "\<not> takes_computed q" by blast
  then show ?thesis
  proof cases
    case running
    have "new_blocks q = []" using ready running by (simp add: group_ready_def)
    then have "allocate_new_computed_blocks ?rid (sr_blocks q kv) (sr_local_tokens r q) (sr_external_tokens q) kv = Inr kv"
      using kv running bl by (simp add: allocate_new_computed_blocks_def)
    moreover have "cdiv_nat toks (gm_block_size m) \<le> length (blocks_of ?rid m) + length xs"
      using num_blocks_parts(1)[OF need(1) running] need(2) by simp
    moreover have "keeps_hit r q m m" using running by (auto simp: keeps_hit_def Let_def)
    ultimately show ?thesis using inv
      by (intro exI[of _ ?p] exI[of _ m] exI[of _ xs]) (simp add: same)
  next
    case none
    then have cond: "\<not> (sr_new_computed_blocks q \<noteq> None \<or> 0 < sr_external_tokens q)" by (simp add: takes_computed_def)
    then have nil: "new_blocks q = []" "sr_external_tokens q = 0" by (simp_all add: new_blocks_def)
    have "sr_local_tokens r q \<le> length (blocks_of ?rid m) * gm_block_size m"
      using ready none by (simp add: group_ready_def)
    from covered_skip[OF st(2,1) this] have "?skipped \<le> length (blocks_of ?rid m)" using nil by simp
    then have "cdiv_nat toks (gm_block_size m) \<le> length (blocks_of ?rid m) + length xs"
      using num_blocks_parts(2)[OF need(1) none(1) refl] need(2) nil by (simp add: max_def)
    moreover have "keeps_hit r q m m" using none by (simp add: keeps_hit_def Let_def)
    ultimately show ?thesis using inv cond
      by (intro exI[of _ ?p] exI[of _ m] exI[of _ xs]) (simp add: same)
  next
    case fresh
    have nil: "blocks_of ?rid m = []" using ready fresh by (simp add: group_ready_def)
    have al: "new_blocks q \<noteq> [] \<Longrightarrow> sr_local_tokens r q mod gm_block_size m = 0" using ready by (simp add: group_ready_def)
    have "cdiv_nat toks (gm_block_size m) - max ?skipped (length (new_blocks q)) +
        num_evictable_blocks ?p (drop ?skipped (new_blocks q)) \<le> length xs"
      using num_blocks_parts(2)[OF need(1) fresh(1) refl] need(2) nil by simp
    from computed_blocks_ok[OF kv inv nil fresh(1) hit al refl cdiv_nat_mono[OF st(1) toks] this]
    obtain p1 m1 ys more where c:
      "allocate_new_computed_blocks ?rid [new_blocks q] (sr_local_tokens r q) (sr_external_tokens q) kv = Inr (one_group kv p1 m1)"
      "gm_inv p1 m1 ys" "same_config ?p p1" "same_params m m1" "cdiv_nat toks (gm_block_size m) \<le> length (blocks_of ?rid m1) + length ys"
      "\<And>u. blocks_of u m1 = (if u = ?rid then replicate ?skipped (Blk 0) @ drop ?skipped (new_blocks q) @ more else blocks_of u m)"
      by blast
    have "sr_new_computed_blocks q \<noteq> None \<or> 0 < sr_external_tokens q" using fresh(2) by (simp add: takes_computed_def)
    moreover have "keeps_hit r q m m1" using fresh c(6) by (simp add: keeps_hit_def)
    ultimately show ?thesis using c(1-5) bl by (intro exI[of _ p1] exI[of _ m1] exI[of _ ys]) simp
  qed
qed


subsection \<open>The invariant of the manager\<close>

definition kv_inv :: "kv_manager \<Rightarrow> bool" where
  "kv_inv kv \<longleftrightarrow> (\<exists>m xs. kv_groups kv = [m] \<and> gm_inv (kv_pool kv) m xs \<and> kv_enable_caching kv = enable_caching (kv_pool kv))"

lemma kv_invE:
  assumes "kv_inv kv"
  obtains m xs where "kv_groups kv = [m]" "gm_inv (kv_pool kv) m xs" "kv_enable_caching kv = enable_caching (kv_pool kv)"
  using assms by (auto simp: kv_inv_def)

lemma kv_inv_one:
  "gm_inv p1 m1 ys \<Longrightarrow> kv_inv kv \<Longrightarrow> same_config (kv_pool kv) p1 \<Longrightarrow> kv_inv (one_group kv p1 m1)"
  by (auto simp: kv_inv_def same_config_def)

text \<open>After the check the call ends with the blocks the request needs.\<close>

lemma take_slots_ok:
  assumes inv: "kv_inv kv" and kv: "kv_groups kv = [m]" "gm_inv (kv_pool kv) m xs"
    and ready: "group_ready r q m" and hit: "hit_blocks_ok (kv_pool kv) (new_blocks q)" and bl: "sr_blocks q kv = [new_blocks q]"
    and len: "sr_local_tokens r q + sr_external_tokens q \<le> kv_max_model_len kv" "num_tokens r \<le> kv_max_model_len kv"
    and need: "get_num_blocks_to_allocate (kv_pool kv) m (request_id r) (sr_slot_tokens r q kv) (new_blocks q)
        (sr_local_tokens r q + sr_external_tokens q) (sr_local_tokens r q) False = Inr n" "n \<le> length xs"
  shows "\<exists>new p1 m1. take_slots H Ho r q kv = Inr (Some new, r, one_group kv p1 m1) \<and> kv_inv (one_group kv p1 m1) \<and>
    same_params m m1 \<and> keeps_hit r q m m1 \<and>
    cdiv_nat (sr_slot_tokens r q kv) (gm_block_size m) \<le> length (blocks_of (request_id r) m1)"
proof -
  let ?rid = "request_id r" and ?toks = "sr_slot_tokens r q kv"
  let ?cache = "min (sr_total_tokens r q kv + sr_new_tokens q) (num_tokens r)"
  have st: "0 < gm_block_size m" using gm_invD(2)[OF kv(2)] by (simp add: gm_static_def)
  have toks: "sr_local_tokens r q + sr_external_tokens q \<le> ?toks" using len(1) by (simp add: sr_slot_tokens_def sr_total_tokens_def)
  from computed_step_ok[OF kv ready hit bl need toks] obtain p1 m1 ys where c:
    "(if sr_new_computed_blocks q \<noteq> None \<or> 0 < sr_external_tokens q
      then allocate_new_computed_blocks ?rid (sr_blocks q kv) (sr_local_tokens r q) (sr_external_tokens q) kv
      else Inr kv) = Inr (one_group kv p1 m1)"
    "gm_inv p1 m1 ys" "same_config (kv_pool kv) p1" "same_params m m1" "keeps_hit r q m m1"
    "cdiv_nat ?toks (gm_block_size m) \<le> length (blocks_of ?rid m1) + length ys" by blast
  have b1: "gm_block_size m1 = gm_block_size m" using c(4) by (simp add: same_params_def)
  from allocate_new_blocks_ok[OF c(2), of ?toks ?rid] c(6) b1 obtain new p2 m2 zs where a:
    "allocate_new_blocks ?rid ?toks (p1, m1) = Inr (new, p2, m2)" "gm_inv p2 m2 zs" "same_config p1 p2" "same_params m1 m2"
    "\<And>u. blocks_of u m2 = (if u = ?rid then blocks_of ?rid m1 @ new else blocks_of u m1)"
    "cdiv_nat ?toks (gm_block_size m) \<le> length (blocks_of ?rid m2)" by auto
  have con: "coordinator_allocate_new_blocks ?rid ?toks (one_group kv p1 m1) = Inr ([new], one_group kv p2 m2)"
    using on_groups_single[of "one_group kv p1 m1" m1 "\<lambda>_. allocate_new_blocks ?rid ?toks" "()" new p2 m2] a(1)
    by (simp add: coordinator_allocate_new_blocks_def)
  have cfg: "same_config (kv_pool kv) p2" by (rule same_config_trans[OF c(3) a(3)])
  have par: "same_params m m2" by (rule same_params_trans[OF c(4) a(4)])
  have keep: "keeps_hit r q m m2" using c(5) a(5) by (auto simp: keeps_hit_def Let_def)
  have inv2: "kv_inv (one_group kv p2 m2)" by (rule kv_inv_one[OF a(2) inv cfg])
  show ?thesis
  proof (cases "\<not> kv_enable_caching kv \<or> sr_delay_cache_blocks q")
    case True
    then have "take_slots H Ho r q kv = Inr (Some (create_kv_cache_blocks [new]), r, one_group kv p2 m2)"
      using c(1) con by (simp add: take_slots_def)
    then show ?thesis using inv2 par keep a(6) by blast
  next
    case False
    have b2: "gm_block_size m2 = gm_block_size m" using par by (simp add: same_params_def)
    have cm: "?cache \<le> ?toks" using len(2) by (auto simp: sr_slot_tokens_def)
    have "?cache div gm_block_size m \<le> cdiv_nat ?cache (gm_block_size m)" by (rule div_le_cdiv[OF st])
    also have "\<dots> \<le> cdiv_nat ?toks (gm_block_size m)" by (rule cdiv_nat_mono[OF st cm])
    finally have l1: "?cache div gm_block_size m2 \<le> length (blocks_of ?rid m2)" using a(6) b2 by simp
    have "?cache div gm_block_size m \<le> num_tokens r div gm_block_size m" by (intro div_le_mono) simp
    then have l2: "?cache div gm_block_size m2 \<le> length (block_hashes r)" using ready b2 by (simp add: group_ready_def)
    have "enable_caching p2" using False kv_invE[OF inv] cfg by (metis same_config_def)
    from cache_blocks_ok[OF a(2) this l1 l2, of H Ho "kv_retention_interval kv"] obtain p3 m3 where k:
      "cache_blocks H Ho r ?cache (kv_retention_interval kv) (p2, m2) = Inr (r, p3, m3)" "gm_inv p3 m3 zs"
      "same_config p2 p3" "same_params m2 m3" "\<And>u. blocks_of u m3 = blocks_of u m2" by blast
    have "coordinator_cache_blocks H Ho r ?cache (one_group kv p2 m2) = Inr (r, one_group kv p3 m3)"
      using k(1) by (simp add: coordinator_cache_blocks_def one_group_def)
    then have "take_slots H Ho r q kv = Inr (Some (create_kv_cache_blocks [new]), r, one_group kv p3 m3)"
      using c(1) con False by (simp add: take_slots_def)
    moreover have "kv_inv (one_group kv p3 m3)"
      by (rule kv_inv_one[OF k(2) inv same_config_trans[OF cfg k(3)]])
    moreover have "keeps_hit r q m m3" using keep k(5) by (simp add: keeps_hit_def)
    ultimately show ?thesis using same_params_trans[OF par k(4)] a(6) k(5)
      by (intro exI[of _ "create_kv_cache_blocks [new]"] exI[of _ p3] exI[of _ m3]) simp
  qed
qed


text \<open>The blocks outside the window are given back before the check.\<close>

lemma remove_step_ok:
  assumes inv: "kv_inv kv" and kv: "kv_groups kv = [m]"
  shows "\<exists>p1 m1 ys. kv_remove_skipped_blocks rid n kv = Inr (one_group kv p1 m1) \<and> gm_inv p1 m1 ys \<and>
    kv_inv (one_group kv p1 m1) \<and> same_config (kv_pool kv) p1 \<and> same_params m m1 \<and>
    num_cached_block m1 = num_cached_block m \<and> (\<forall>u. u \<noteq> rid \<longrightarrow> blocks_of u m1 = blocks_of u m) \<and>
    length (blocks_of rid m1) = length (blocks_of rid m) \<and>
    (\<forall>j < length (blocks_of rid m). blocks_of rid m1 ! j \<noteq> blocks_of rid m ! j \<longrightarrow>
       j < num_skipped_tokens (gm_kind m) n div gm_block_size m \<and> blocks_of rid m1 ! j = Blk 0) \<and>
    (\<forall>c. block_keys p1 c = block_keys (kv_pool kv) c)"
proof -
  obtain xs where "gm_inv (kv_pool kv) m xs" using inv kv by (auto simp: kv_inv_def)
  from remove_skipped_ok[OF this, of rid n] obtain p1 m1 ys where r:
    "remove_skipped_blocks rid n (kv_pool kv, m) = Inr (p1, m1)" "gm_inv p1 m1 ys" "same_config (kv_pool kv) p1"
    "same_params m m1" "num_cached_block m1 = num_cached_block m" "\<forall>u. u \<noteq> rid \<longrightarrow> blocks_of u m1 = blocks_of u m"
    "length (blocks_of rid m1) = length (blocks_of rid m)"
    "\<forall>j < length (blocks_of rid m). blocks_of rid m1 ! j \<noteq> blocks_of rid m ! j \<longrightarrow>
       j < num_skipped_tokens (gm_kind m) n div gm_block_size m \<and> blocks_of rid m1 ! j = Blk 0"
    "\<forall>c. block_keys p1 c = block_keys (kv_pool kv) c" by blast
  have "kv_remove_skipped_blocks rid n kv = Inr (one_group kv p1 m1)"
    using all_groups_single[OF kv] r(1) by (simp add: kv_remove_skipped_blocks_def)
  then show ?thesis using r(2-) kv_inv_one[OF r(2) inv r(3)] by blast
qed

lemma ready_cong:
  assumes "same_params m m1" "num_cached_block m1 = num_cached_block m"
    "length (blocks_of (request_id r) m1) = length (blocks_of (request_id r) m)"
  shows "group_ready r q m1 = group_ready r q m"
proof -
  have "blocks_of (request_id r) m1 = [] \<longleftrightarrow> blocks_of (request_id r) m = []"
    using assms(3) by (metis length_0_conv)
  then show ?thesis using assms by (simp add: group_ready_def same_params_def)
qed

lemma need_total:
  assumes "group_ready r q m"
  shows "\<exists>n. get_num_blocks_to_allocate p m (request_id r) toks (new_blocks q) total_toks local_toks cap = Inr n"
  using assms by (auto simp: get_num_blocks_to_allocate_def Let_def group_ready_def guard_def)

lemma slots_blocks:
  assumes "slots_ok r q kv" "length (kv_groups kv) = 1"
  shows "sr_blocks q kv = [new_blocks q]"
proof (cases "sr_new_computed_blocks q")
  case None
  then show ?thesis using assms(2) by (auto simp: sr_blocks_def new_blocks_def length_Suc_conv)
next
  case (Some bss)
  then show ?thesis using assms(1) by (auto simp: slots_ok_def sr_blocks_def new_blocks_def length_Suc_conv)
qed

lemma allocate_slots_ok:
  assumes inv: "kv_inv kv" and kv: "kv_groups kv = [m]" and ok: "slots_ok r q kv"
  shows "\<exists>res p1 m1. allocate_slots H Ho r q kv = Inr (res, r, one_group kv p1 m1) \<and> kv_inv (one_group kv p1 m1) \<and>
    same_params m m1 \<and> (\<forall>u. u \<noteq> request_id r \<longrightarrow> blocks_of u m1 = blocks_of u m) \<and>
    (if res = None then length (blocks_of (request_id r) m1) = length (blocks_of (request_id r) m)
     else cdiv_nat (sr_slot_tokens r q kv) (gm_block_size m) \<le> length (blocks_of (request_id r) m1) \<and>
       (takes_computed q \<and> map_of (num_cached_block m) (request_id r) = None \<longrightarrow> keeps_hit r q m m1))"
proof -
  let ?rid = "request_id r"
  let ?n = "nat (max 0 (int (sr_total_tokens r q kv) - num_in_flight_tokens r))"
  have ready: "group_ready r q m" and hit: "hit_blocks_ok (kv_pool kv) (new_blocks q)"
    and len: "sr_local_tokens r q + sr_external_tokens q \<le> kv_max_model_len kv" "num_tokens r \<le> kv_max_model_len kv"
    and misc: "0 \<le> sr_reserved_blocks q" "\<not> (sr_new_tokens q = 0 \<and> sr_external_tokens q = 0)"
    using ok kv by (simp_all add: slots_ok_def)
  have bl: "sr_blocks q kv = [new_blocks q]" by (rule slots_blocks[OF ok]) (simp add: kv)
  obtain n0 where n0: "get_num_blocks_to_allocate (kv_pool kv) m ?rid (min (num_tokens r) (kv_max_model_len kv))
      (new_blocks q) (sr_total_tokens r q kv) (sr_local_tokens r q) True = Inr n0" using need_total[OF ready] by blast
  have "\<exists>okf. full_sequence_fits r q kv = Inr okf"
    by (cases "sr_full_sequence_must_fit q") (simp_all add: full_sequence_fits_def bl sum_blocks_single[OF kv] n0 ex_bool_eq)
  then obtain okf where full: "full_sequence_fits r q kv = Inr okf" by blast
  have start: "allocate_slots H Ho r q kv = (if \<not> okf then Inr (None, r, kv) else
      rbind (kv_remove_skipped_blocks ?rid ?n kv) (\<lambda>kv1.
         rbind (sum_blocks_to_allocate (kv_pool kv1) (kv_groups kv1) ?rid (sr_slot_tokens r q kv)
                  (sr_blocks q kv) (sr_local_tokens r q + sr_external_tokens q) (sr_local_tokens r q) False) (\<lambda>n.
           if \<not> fits n (sr_watermark r q kv) (sr_reserved_blocks q) kv1 then Inr (None, r, kv1)
           else take_slots H Ho r q kv1)))"
    using misc(2) full unfolding allocate_slots_def by (simp add: guard_def)
  show ?thesis
  proof (cases okf)
    case False
    then show ?thesis using start inv one_group_same[OF kv refl]
      by (intro exI[of _ None] exI[of _ "kv_pool kv"] exI[of _ m]) simp
  next
    case True
    from remove_step_ok[OF inv kv, of ?rid ?n] obtain p1 m1 ys where r:
      "kv_remove_skipped_blocks ?rid ?n kv = Inr (one_group kv p1 m1)" "gm_inv p1 m1 ys" "kv_inv (one_group kv p1 m1)"
      "same_config (kv_pool kv) p1" "same_params m m1" "num_cached_block m1 = num_cached_block m"
      "\<forall>u. u \<noteq> ?rid \<longrightarrow> blocks_of u m1 = blocks_of u m" "length (blocks_of ?rid m1) = length (blocks_of ?rid m)"
      "\<forall>c. block_keys p1 c = block_keys (kv_pool kv) c" by blast
    let ?kv = "one_group kv p1 m1"
    have ready1: "group_ready r q m1" using ready_cong[OF r(5,6,8)] ready by simp
    have hit1: "hit_blocks_ok p1 (new_blocks q)"
      using hit r(9) same_config_usable[OF r(4)] r(4) by (simp add: hit_blocks_ok_def same_config_def)
    have sl: "sr_slot_tokens r q ?kv = sr_slot_tokens r q kv" by (simp add: sr_slot_tokens_def sr_total_tokens_def)
    have bl1: "sr_blocks q ?kv = [new_blocks q]" using bl kv by (cases "sr_new_computed_blocks q") (simp_all add: sr_blocks_def)
    obtain n where n: "get_num_blocks_to_allocate p1 m1 ?rid (sr_slot_tokens r q kv) (new_blocks q)
        (sr_local_tokens r q + sr_external_tokens q) (sr_local_tokens r q) False = Inr n"
      using need_total[OF ready1] by blast
    have run: "allocate_slots H Ho r q kv = (if \<not> fits n (sr_watermark r q kv) (sr_reserved_blocks q) ?kv
        then Inr (None, r, ?kv) else take_slots H Ho r q ?kv)"
      using start True r(1) n by (simp add: bl)
    show ?thesis
    proof (cases "fits n (sr_watermark r q kv) (sr_reserved_blocks q) ?kv")
      case False
      then show ?thesis using run r(3,5,7,8)
        by (intro exI[of _ None] exI[of _ p1] exI[of _ m1]) simp
    next
      case True
      have "get_num_free_blocks p1 = int (length ys)" using free_count_eq gm_invD(1)[OF r(2)] by blast
      then have "n \<le> length ys" using True misc(1) by (auto simp: fits_def split: if_splits)
      then obtain new p2 m2 where t: "take_slots H Ho r q ?kv = Inr (Some new, r, one_group kv p2 m2)"
        "kv_inv (one_group kv p2 m2)" "same_params m1 m2" "keeps_hit r q m1 m2"
        "cdiv_nat (sr_slot_tokens r q kv) (gm_block_size m1) \<le> length (blocks_of ?rid m2)"
        using take_slots_ok[OF r(3) _ _ ready1 _ bl1, of ys n H Ho] r(2) hit1 len n by (auto simp: sl)
      have "gm_block_size m1 = gm_block_size m" using r(5) by (simp add: same_params_def)
      moreover have "\<forall>u. u \<noteq> ?rid \<longrightarrow> blocks_of u m2 = blocks_of u m"
        using t(4) r(7) by (auto simp: keeps_hit_def Let_def)
      moreover have "keeps_hit r q m m2" if "takes_computed q \<and> map_of (num_cached_block m) ?rid = None"
        using that t(4) r(5-7) by (auto simp: keeps_hit_def Let_def same_params_def)
      ultimately show ?thesis using run True t same_params_trans[OF r(5) t(3)]
        by (intro exI[of _ "Some new"] exI[of _ p2] exI[of _ m2]) simp
    qed
  qed
qed

end
