(* ===== verification/KV_System.thy ===== *)
theory KV_System
  imports KV_Alloc
begin

text \<open>
  The KV cache manager with one group as a transition system: every call that changes it
  (\<open>allocate_slots\<close>, \<open>free\<close>, \<open>remove_skipped_blocks\<close>, \<open>cache_blocks\<close>, \<open>evict_blocks\<close>,
  \<open>reset_prefix_cache\<close>, \<open>get_computed_blocks\<close>, \<open>take_new_block_ids\<close>) is a step under the conditions
  its caller keeps, and the invariant holds in every reachable state.
\<close>

subsection \<open>Calls that only touch the pool\<close>

definition with_pool :: "kv_manager \<Rightarrow> block_pool \<Rightarrow> kv_manager" where
  "with_pool kv p = kv\<lparr>kv_pool := p\<rparr>"

lemma with_pool_inv:
  assumes inv: "kv_inv kv"
    and p: "\<And>xs. pool_inv (kv_pool kv) xs \<Longrightarrow> pool_inv p xs" "same_config (kv_pool kv) p"
      "\<And>c. ref_cnt (pool_heap p c) = ref_cnt (pool_heap (kv_pool kv) c)"
      "\<And>c. c \<in> usable (kv_pool kv) \<Longrightarrow> block_keys (kv_pool kv) c = [] \<Longrightarrow> block_keys p c = []"
  shows "kv_inv (with_pool kv p)"
proof (rule kv_invE[OF inv])
  fix m xs assume k: "kv_groups kv = [m]" "gm_inv (kv_pool kv) m xs" "kv_enable_caching kv = enable_caching (kv_pool kv)"
  note d = gm_invD[OF k(2)]
  have "gm_inv p m xs"
  proof (rule gm_inv_update[OF k(2) p(1)[OF d(1)] p(2) d(2,3,4)])
    assume c: "enable_caching (kv_pool kv)"
    show "fresh_part p m"
      unfolding fresh_part_def
    proof (intro allI impI)
      fix u i assume a: "cached_count u m \<le> i \<and> i < length (blocks_of u m) \<and> blocks_of u m ! i \<noteq> Blk 0"
      then have "blocks_of u m ! i \<in> usable (kv_pool kv)" using blocks_of_subset[OF d(4), of u] nth_mem by blast
      then show "block_keys p (blocks_of u m ! i) = [] \<and> count (block_refs m) (blocks_of u m ! i) = 1"
        using fresh_partD[OF d(6)[OF c], of u i] a p(4) by simp
    qed
  qed (simp_all add: p(3))
  then show ?thesis using k p(2) by (auto simp: kv_inv_def with_pool_def same_config_def)
qed

lemma reset_refs:
  assumes "reset_prefix_cache p = (ok, p')"
  shows "ref_cnt (pool_heap p' c) = ref_cnt (pool_heap p c)"
  using assms by (auto simp: reset_prefix_cache_def Let_def on_metrics_def split: if_splits option.splits)

lemma reset_inv:
  assumes inv: "kv_inv kv" and r: "kv_reset_prefix_cache kv = (ok, kv')"
  shows "kv_inv kv'"
proof (rule kv_invE[OF inv])
  fix m xs assume k: "kv_groups kv = [m]" "gm_inv (kv_pool kv) m xs" "kv_enable_caching kv = enable_caching (kv_pool kv)"
  note pi = gm_invD(1)[OF k(2)]
  obtain p' where p': "reset_prefix_cache (kv_pool kv) = (ok, p')" "kv' = with_pool kv p'"
    using r by (cases "reset_prefix_cache (kv_pool kv)") (auto simp: kv_reset_prefix_cache_def with_pool_def)
  have keys: "c \<in> usable (kv_pool kv) \<Longrightarrow> block_keys (kv_pool kv) c = [] \<Longrightarrow> block_keys p' c = []" for c
    using reset_ok[OF pi] reset_refused[OF pi] p'(1)
    by (cases "int (length xs) = num_gpu_blocks (kv_pool kv) - 1") auto
  show ?thesis
    unfolding p'(2)
    by (rule with_pool_inv[OF inv _ _ reset_refs[OF p'(1)] keys])
      (use reset_preserves[OF _ p'(1)] pi in blast)+
qed

lemma evict_inv:
  assumes inv: "kv_inv kv" and ids: "\<forall>i \<in> set ids. 0 \<le> i \<and> i < num_gpu_blocks (kv_pool kv)"
    and r: "kv_evict_blocks ids kv = Inr kv'"
  shows "kv_inv kv'"
proof (rule kv_invE[OF inv])
  fix m xs assume k: "kv_groups kv = [m]" "gm_inv (kv_pool kv) m xs" "kv_enable_caching kv = enable_caching (kv_pool kv)"
  obtain p where p: "evict_blocks ids (kv_pool kv) = Inr p" "same_config (kv_pool kv) p"
    "\<forall>c. ref_cnt (pool_heap p c) = ref_cnt (pool_heap (kv_pool kv) c)"
    "\<forall>c \<in> usable (kv_pool kv). block_keys p c = (if c \<in> (Blk \<circ> nat) ` set ids then [] else block_keys (kv_pool kv) c)"
    using evict_blocks_ok[OF gm_invD(1)[OF k(2)] ids] by blast
  have "kv' = with_pool kv p" using r p(1) by (simp add: kv_evict_blocks_def with_pool_def)
  then show ?thesis
    using with_pool_inv[OF inv _ p(2)] p(3,4) evict_preserves[OF _ ids p(1)] by simp
qed

lemma kv_free_ok:
  assumes inv: "kv_inv kv" and k: "kv_groups kv = [m]"
  shows "\<exists>p1. kv_free rid kv = Inr (one_group kv p1 (snd (pop_blocks_for_free rid m))) \<and>
    kv_inv (one_group kv p1 (snd (pop_blocks_for_free rid m)))"
proof -
  obtain xs where "gm_inv (kv_pool kv) m xs" using inv k by (auto simp: kv_inv_def)
  from free_request_ok[OF this, of rid] obtain p1 ys where
    "free_request rid (kv_pool kv, m) = Inr (p1, snd (pop_blocks_for_free rid m))"
    "gm_inv p1 (snd (pop_blocks_for_free rid m)) ys" "same_config (kv_pool kv) p1" by blast
  then show ?thesis using all_groups_single[OF k] kv_inv_one[OF _ inv] by (auto simp: kv_free_def)
qed

definition cache_ready :: "request \<Rightarrow> nat \<Rightarrow> kv_manager \<Rightarrow> bool" where
  "cache_ready r toks kv \<longleftrightarrow> (\<forall>m \<in> set (kv_groups kv).
     toks div gm_block_size m \<le> length (blocks_of (request_id r) m) \<and>
     toks div gm_block_size m \<le> length (block_hashes r))"

lemma kv_cache_ok:
  assumes inv: "kv_inv kv" and rd: "cache_ready r toks kv"
  shows "\<exists>kv'. kv_cache_blocks H Ho r toks kv = Inr (r, kv') \<and> kv_inv kv'"
proof (rule kv_invE[OF inv])
  fix m xs assume k: "kv_groups kv = [m]" "gm_inv (kv_pool kv) m xs" "kv_enable_caching kv = enable_caching (kv_pool kv)"
  show ?thesis
  proof (cases "kv_enable_caching kv")
    case True
    have len: "toks div gm_block_size m \<le> length (blocks_of (request_id r) m)"
      "toks div gm_block_size m \<le> length (block_hashes r)" using rd k(1) by (simp_all add: cache_ready_def)
    obtain p1 m1 where c: "cache_blocks H Ho r toks (kv_retention_interval kv) (kv_pool kv, m) = Inr (r, p1, m1)"
      "gm_inv p1 m1 xs" "same_config (kv_pool kv) p1"
      using cache_blocks_ok[OF k(2) _ len] True k(3) by blast
    then have "kv_cache_blocks H Ho r toks kv = Inr (r, one_group kv p1 m1)"
      using True k(1) by (simp add: kv_cache_blocks_def coordinator_cache_blocks_def one_group_def)
    then show ?thesis using kv_inv_one[OF c(2) inv c(3)] by blast
  qed (use inv in \<open>simp add: kv_cache_blocks_def\<close>)
qed


subsection \<open>The lookup\<close>

lemma window_result_ok:
  assumes st: "pool_static p" and c: "scan_result p g hs need N c" and ec: "enable_caching p"
  shows "hit_blocks_ok p c" "hit_blocks_ok p (butlast c)"
proof -
  have "b = Blk 0 \<or> (b \<in> usable p \<and> block_keys p b \<noteq> [])" if b: "b \<in> set c" for b
  proof -
    obtain i where i: "i < length c" "b = c ! i" using b by (metis in_set_conv_nth)
    have "if length c - need \<le> i then cached_for p g (hs ! i) (c ! i) else c ! i = null_block p"
      using c i(1) by (simp add: scan_result_def)
    then show ?thesis using i(2) st by (auto simp: cached_for_def pool_static_def split: if_splits)
  qed
  then show "hit_blocks_ok p c" "hit_blocks_ok p (butlast c)"
    using ec by (auto simp: hit_blocks_ok_def dest: in_set_butlastD)
qed

lemma lookup_ok:
  assumes inv: "kv_inv kv" and k: "kv_groups kv = [m]" and ec: "kv_enable_caching kv"
    and len: "max_len div gm_block_size m \<le> length hs"
  shows "\<exists>c. unitary_longest_hit hs max_len kv = Inr ([c], length c * gm_block_size m, kv) \<and> hit_blocks_ok (kv_pool kv) c \<and>
    length c \<le> max_len div gm_block_size m"
proof -
  let ?p = "kv_pool kv" and ?bs = "gm_block_size m"
  obtain xs where xs: "gm_inv ?p m xs" using inv k by (auto simp: kv_inv_def)
  have ec': "enable_caching ?p" using inv ec by (auto simp: kv_inv_def)
  note d = gm_invD[OF xs]
  have st: "bp_hash_block_size ?p = ?bs" "0 < ?bs"
    using d(2) ec' by (simp_all add: gm_static_def)
  have g: "(0::int) \<le> 0" "(0::int) < 2 ^ 32" by simp_all
  have "\<exists>c. find_longest_cache_hit (gm_kind m) (RawHashes hs) max_len [0] ?bs (gm_use_eagle m) ?bs None ?p =
      Inr ([c], length c * ?bs, ?p) \<and> hit_blocks_ok ?p c \<and> length c \<le> max_len div ?bs"
  proof (cases "gm_kind m")
    case FullAttention
    let ?n = "length (takeWhile (is_cached ?p 0) (take (max_len div ?bs) hs))"
    have n: "?n \<le> max_len div ?bs" using length_takeWhile_le[of "is_cached ?p 0" "take (max_len div ?bs) hs"] by simp
    define N where "N = (if gm_use_eagle m then ?n - 1 else ?n)"
    have "\<exists>c. full_longest_hit (RawHashes hs) max_len [0] ?bs (gm_use_eagle m) ?bs None ?p = Inr ([c], N * ?bs, ?p) \<and>
        length c = N \<and> (\<forall>i < N. cached_for ?p 0 (hs ! i) (c ! i))"
      by (rule full_longest_hit_single[OF d(1) g st refl N_def])
    then obtain c where c:
      "full_longest_hit (RawHashes hs) max_len [0] ?bs (gm_use_eagle m) ?bs None ?p = Inr ([c], N * ?bs, ?p)"
      "length c = N" "\<forall>i < N. cached_for ?p 0 (hs ! i) (c ! i)" by (elim exE conjE) (rule that)
    have "b \<in> usable ?p \<and> block_keys ?p b \<noteq> []" if b: "b \<in> set c" for b
    proof -
      obtain i where "i < N" "b = c ! i" using b c(2) by (auto simp: in_set_conv_nth)
      then have "cached_for ?p 0 (hs ! i) b" using c(3) by blast
      then show ?thesis by (auto simp: cached_for_def)
    qed
    then have "hit_blocks_ok ?p c" using ec' by (auto simp: hit_blocks_ok_def)
    moreover have "N \<le> ?n" by (simp add: N_def)
    then have "length c \<le> max_len div ?bs" using n c(2) by linarith
    ultimately show ?thesis using FullAttention c(1,2)
      by (intro exI[of _ c]) (simp add: find_longest_cache_hit_def)
  next
    case (SlidingWindow w)
    have ps: "pool_static ?p" using d(1) by (simp add: pool_inv_def)
    from sliding_longest_hit_single[OF d(1) g st len refl, where window = w and drop_eagle = "gm_use_eagle m" and
        oh = None] obtain c where c:
      "sliding_longest_hit (RawHashes hs) max_len [0] ?bs w (gm_use_eagle m) ?bs None ?p =
        Inr ([if gm_use_eagle m then butlast c else c], length (if gm_use_eagle m then butlast c else c) * ?bs, ?p)"
      "scan_result ?p 0 hs (max 1 (contiguous_blocks_for_hit w ?bs (gm_use_eagle m))) (max_len div ?bs) c" by blast
    moreover have l: "length c \<le> max_len div ?bs" using c(2) by (simp add: scan_result_def)
    moreover have "length (butlast c) \<le> max_len div ?bs" using le_trans[OF diff_le_self l] by simp
    ultimately show ?thesis using SlidingWindow window_result_ok[OF ps c(2) ec']
      by (intro exI[of _ "if gm_use_eagle m then butlast c else c"]) (simp add: find_longest_cache_hit_def)
  qed
  then show ?thesis using k by (auto simp: unitary_longest_hit_def)
qed

lemma stored_hashes_total:
  "\<forall>i \<in> set is. i < n \<Longrightarrow> (\<And>j. j < n \<Longrightarrow> \<exists>h. view_at v (int j) = Inr h) \<Longrightarrow> \<exists>hs. stored_hashes ui v is = Inr hs"
proof (induction "is")
  case (Cons i "is")
  then obtain h where "view_at v (int i) = Inr h" by fastforce
  then show ?case using Cons by fastforce
qed simp

lemma emit_total:
  assumes "0 < bp_hash_block_size p" "n \<le> length (block_hashes r)"
  shows "\<exists>es. emit_cached_block_events H r n (bp_hash_block_size p) g p = Inr (p\<lparr>kv_event_queue := es\<rparr>)"
proof (cases "\<not> enable_kv_cache_events p \<or> n = 0")
  case True
  then show ?thesis by (intro exI[of _ "kv_event_queue p"]) (auto simp: emit_cached_block_events_def)
next
  case False
  let ?bs = "bp_hash_block_size p"
  obtain view where v: "resolve_block_hashes (RawHashes (block_hashes r)) (int ?bs) (int (1 * ?bs)) False None = Inr view"
    "\<And>j. j < length (block_hashes r) div 1 \<Longrightarrow> view_at view (int j) = Inr (block_hashes r ! ((j + 1) * 1 - 1))"
    by (rule resolved_hashes[of 1 ?bs "block_hashes r" 0]) (use assms(1) in auto)
  obtain hs where hs: "stored_hashes (use_int_hashes p) view [0..<n] = Inr hs"
    using stored_hashes_total[of "[0..<n]" n view "use_int_hashes p"] v(2) assms(2) by auto
  obtain ks where ks: "stored_extra_keys H r ?bs 0 [0..<n] = Inr ks" using stored_extra_keys_total[of 0] by blast
  show ?thesis
  proof (cases "hs = []")
    case True
    then show ?thesis using False v(1) hs ks
      by (intro exI[of _ "kv_event_queue p"]) (auto simp: emit_cached_block_events_def)
  next
    case nil: False
    then show ?thesis using False v(1) hs ks
      by (auto simp: emit_cached_block_events_def)
  qed
qed

lemma hit_blocks_events [simp]: "hit_blocks_ok (p\<lparr>kv_event_queue := es\<rparr>) c = hit_blocks_ok p c"
proof -
  have "usable (p\<lparr>kv_event_queue := es\<rparr>) = usable p" by (simp add: usable_def)
  then show ?thesis by (simp add: hit_blocks_ok_def block_keys_def extra_hashes_def)
qed

lemma events_inv:
  assumes inv: "kv_inv kv" and kv': "kv' = with_pool kv ((kv_pool kv)\<lparr>kv_event_queue := es\<rparr>)"
  shows "kv_inv kv'"
  unfolding kv'
proof (rule with_pool_inv[OF inv])
  let ?p = "(kv_pool kv)\<lparr>kv_event_queue := es\<rparr>"
  have c: "pool_core ?p = pool_core (kv_pool kv)" by simp
  show "pool_inv ?p xs" if "pool_inv (kv_pool kv) xs" for xs
  proof -
    have "pool_tails ?p = pool_tails (kv_pool kv)" by (simp add: pool_tails_def)
    then show ?thesis using that pool_inv_core[OF c] unfolding pool_inv_def by blast
  qed
  show "same_config (kv_pool kv) ?p" by (rule core_same_config[OF c])
qed (simp_all add: block_keys_def extra_hashes_def)

lemma get_computed_ok:
  assumes inv: "kv_inv kv" and k: "kv_groups kv = [m]"
    and len: "num_tokens r div gm_block_size m \<le> length (block_hashes r)"
  shows "\<exists>bss n kv'. get_computed_blocks H r kv = Inr (bss, n, 0, kv') \<and> kv_inv kv' \<and>
    (\<exists>es. kv' = with_pool kv ((kv_pool kv)\<lparr>kv_event_queue := es\<rparr>)) \<and> n mod gm_block_size m = 0 \<and>
    n \<le> num_tokens r - 1 \<and>
    (case bss of None \<Rightarrow> n = 0 | Some cs \<Rightarrow> \<exists>c. cs = [c] \<and> c \<noteq> [] \<and> n = length c * gm_block_size m \<and> hit_blocks_ok (kv_pool kv) c)"
proof -
  have self: "with_pool kv ((kv_pool kv)\<lparr>kv_event_queue := kv_event_queue (kv_pool kv)\<rparr>) = kv"
    by (simp add: with_pool_def)
  show ?thesis
  proof (cases "prefix_cache_lookup_enabled r kv")
    case False
    then have "get_computed_blocks H r kv = Inr (None, 0, 0, kv)" by (simp add: get_computed_blocks_def)
    then show ?thesis using inv self by (intro exI[of _ None] exI[of _ 0] exI[of _ kv]) (auto intro: self[symmetric])
  next
    case True
    then have ec: "kv_enable_caching kv" by (simp add: prefix_cache_lookup_enabled_def)
    have "(num_tokens r - 1) div gm_block_size m \<le> num_tokens r div gm_block_size m" by (intro div_le_mono) simp
    then have len': "(num_tokens r - 1) div gm_block_size m \<le> length (block_hashes r)" using len by simp
    from lookup_ok[OF inv k ec this] obtain c where
      c: "unitary_longest_hit (block_hashes r) (num_tokens r - 1) kv = Inr ([c], length c * gm_block_size m, kv)"
      "hit_blocks_ok (kv_pool kv) c" "length c \<le> (num_tokens r - 1) div gm_block_size m" by blast
    have bs: "bp_hash_block_size (kv_pool kv) = gm_block_size m" "0 < gm_block_size m"
      using inv k ec by (auto simp: kv_inv_def gm_inv_def gm_static_def)
    have lc: "length c \<le> length (block_hashes r)" using c(3) len'  by linarith
    obtain es where es: "emit_cached_block_events H r (length c) (gm_block_size m) 0 (kv_pool kv) =
        Inr ((kv_pool kv)\<lparr>kv_event_queue := es\<rparr>)"
      using emit_total[of "kv_pool kv" "length c" r H 0] bs lc by auto
    obtain kv' es' where e: "(if 0 < length c * gm_block_size m \<and> enable_kv_cache_events (kv_pool kv) \<and>
          kv_cache_report_mode r = Some ''full''
        then rbind (report_hits H r 0 (zip (kv_groups kv) [c]) (kv_pool kv)) (\<lambda>p. Inr (kv\<lparr>kv_pool := p\<rparr>))
        else Inr kv) = Inr kv'" "kv' = with_pool kv ((kv_pool kv)\<lparr>kv_event_queue := es'\<rparr>)"
    proof (cases "0 < length c * gm_block_size m \<and> enable_kv_cache_events (kv_pool kv) \<and> kv_cache_report_mode r = Some ''full''")
      case True
      then show thesis using that[of _ es] es k by (auto simp: with_pool_def)
    next
      case False
      show thesis by (rule that[OF if_not_P[OF False] self[symmetric]])
    qed
    have run: "get_computed_blocks H r kv = Inr (create_kv_cache_blocks [c], length c * gm_block_size m, 0, kv')"
      using True c(1) e(1) by (simp add: get_computed_blocks_def)
    have "length c * gm_block_size m \<le> (num_tokens r - 1) div gm_block_size m * gm_block_size m"
      using c(3) by (intro mult_le_mono1)
    also have "\<dots> \<le> num_tokens r - 1" by (rule div_times_less_eq_dividend)
    finally show ?thesis using run events_inv[OF inv e(2)] e(2) c(2)
      by (intro exI[of _ "create_kv_cache_blocks [c]"] exI[of _ "length c * gm_block_size m"] exI[of _ kv'])
        (auto simp: create_kv_cache_blocks_def)
  qed
qed


subsection \<open>The system\<close>

text \<open>A manager with one group over a fresh pool, as \<open>KVCacheManager.__init__\<close> leaves it.\<close>

definition single_group_manager ::
  "manager_kind \<Rightarrow> nat \<Rightarrow> nat \<Rightarrow> nat \<Rightarrow> nat option \<Rightarrow> bool \<Rightarrow> nat option \<Rightarrow> block_pool \<Rightarrow> kv_manager" where
  "single_group_manager kind bs max_len watermark retention records cap p =
     \<lparr>kv_pool = p, kv_groups = [manager_init kind bs (enable_caching p) 0 bs records cap], kv_max_model_len = max_len,
      kv_enable_caching = enable_caching p, kv_watermark_blocks = watermark, kv_retention_interval = retention\<rparr>"

inductive kv_step :: "kv_manager \<Rightarrow> kv_manager \<Rightarrow> bool" where
  step_slots: "slots_ok r q kv \<Longrightarrow> allocate_slots H Ho r q kv = Inr (res, r', kv') \<Longrightarrow> kv_step kv kv'"
| step_release: "kv_free rid kv = Inr kv' \<Longrightarrow> kv_step kv kv'"
| step_skipped: "kv_remove_skipped_blocks rid n kv = Inr kv' \<Longrightarrow> kv_step kv kv'"
| step_fill: "cache_ready r toks kv \<Longrightarrow> kv_cache_blocks H Ho r toks kv = Inr (r', kv') \<Longrightarrow> kv_step kv kv'"
| step_evict_ids: "\<forall>i \<in> set ids. 0 \<le> i \<and> i < num_gpu_blocks (kv_pool kv) \<Longrightarrow>
    kv_evict_blocks ids kv = Inr kv' \<Longrightarrow> kv_step kv kv'"
| step_reset_all: "kv_reset_prefix_cache kv = (ok, kv') \<Longrightarrow> kv_step kv kv'"
| step_lookup: "\<forall>m \<in> set (kv_groups kv). num_tokens r div gm_block_size m \<le> length (block_hashes r) \<Longrightarrow>
    get_computed_blocks H r kv = Inr (bss, n, k, kv') \<Longrightarrow> kv_step kv kv'"
| step_take_ids: "kv_take_new_block_ids kv = (ids, kv') \<Longrightarrow> kv_step kv kv'"

inductive kv_reach :: "kv_manager \<Rightarrow> kv_manager \<Rightarrow> bool" for kv0 :: kv_manager where
  kv_start: "kv_reach kv0 kv0"
| kv_next: "kv_reach kv0 kv \<Longrightarrow> kv_step kv kv' \<Longrightarrow> kv_reach kv0 kv'"

lemma fresh_group_inv:
  assumes p: "pool_inv p xs" "\<forall>b \<in> usable p. ref_cnt (pool_heap p b) = 0"
    and m: "kind \<noteq> SlidingWindow 0" "0 < bs" "enable_caching p \<Longrightarrow> bs = bp_hash_block_size p"
    and mgr: "mgr = manager_init kind bs (enable_caching p) 0 bs records cap"
  shows "gm_inv p mgr xs"
proof -
  have refs: "block_refs mgr = {#}" by (simp add: block_refs_def mgr manager_init_def holdings_def)
  have "blocks_of u mgr = []" for u by (simp add: blocks_of_def mgr manager_init_def opt_list_def)
  then have fresh: "fresh_part p mgr" by (simp add: fresh_part_def)
  have "gm_static p mgr" using m by (auto simp: gm_static_def mgr manager_init_def)
  moreover have "distinct (map fst (req_to_blocks mgr))" by (simp add: mgr manager_init_def)
  ultimately show ?thesis using p fresh refs by (simp add: gm_inv_def)
qed

lemma single_group_inv:
  assumes "pool_inv p xs" "\<forall>b \<in> usable p. ref_cnt (pool_heap p b) = 0"
    and "kind \<noteq> SlidingWindow 0" "0 < bs" "enable_caching p \<Longrightarrow> bs = bp_hash_block_size p"
  shows "kv_inv (single_group_manager kind bs max_len watermark retention records cap p)"
  using fresh_group_inv[OF assms refl, of records cap]
  by (auto simp: kv_inv_def single_group_manager_def)

lemma take_ids_inv:
  assumes inv: "kv_inv kv" and t: "kv_take_new_block_ids kv = (ids, kv')"
  shows "kv_inv kv'"
proof (rule kv_invE[OF inv])
  fix m xs assume k: "kv_groups kv = [m]" "gm_inv (kv_pool kv) m xs" "kv_enable_caching kv = enable_caching (kv_pool kv)"
  let ?m = "m\<lparr>new_block_ids := []\<rparr>"
  have "gm_inv (kv_pool kv) ?m xs"
    using k(2) by (simp add: gm_inv_def gm_static_def fresh_part_def block_refs_def blocks_of_def cached_count_def)
  moreover have "kv' = kv\<lparr>kv_groups := [?m]\<rparr>"
    using t k(1) by (auto simp: kv_take_new_block_ids_def take_new_block_ids_def)
  ultimately show ?thesis using k(3) by (simp add: kv_inv_def) blast
qed

lemma kv_step_inv:
  assumes "kv_step kv kv'" "kv_inv kv"
  shows "kv_inv kv'"
proof (rule kv_invE[OF assms(2)])
  fix m xs assume k: "kv_groups kv = [m]" "gm_inv (kv_pool kv) m xs" "kv_enable_caching kv = enable_caching (kv_pool kv)"
  from assms(1) show ?thesis
  proof cases
    case (step_slots r q H Ho res r')
    then show ?thesis using allocate_slots_ok[OF assms(2) k(1) step_slots(1), of H Ho] by auto
  next
    case (step_release rid)
    then show ?thesis using kv_free_ok[OF assms(2) k(1), of rid] by auto
  next
    case (step_skipped rid n)
    then show ?thesis using remove_step_ok[OF assms(2) k(1), of rid n] by auto
  next
    case (step_fill r toks H Ho r')
    then show ?thesis using kv_cache_ok[OF assms(2) step_fill(1), of H Ho] by auto
  next
    case step_evict_ids
    then show ?thesis using evict_inv[OF assms(2)] by blast
  next
    case step_reset_all
    then show ?thesis using reset_inv[OF assms(2)] by blast
  next
    case (step_lookup r H bss n j)
    then have "num_tokens r div gm_block_size m \<le> length (block_hashes r)" using k(1) by simp
    from get_computed_ok[OF assms(2) k(1) this, of H] step_lookup(2) show ?thesis by auto
  next
    case step_take_ids
    then show ?thesis using take_ids_inv[OF assms(2)] by blast
  qed
qed

lemma kv_reach_inv: "kv_reach kv0 kv \<Longrightarrow> kv_inv kv0 \<Longrightarrow> kv_inv kv"
  by (induction rule: kv_reach.induct) (auto intro: kv_step_inv)

lemma pool_init_hash_size:
  assumes "pool_init n caching hbs evs mc pid ui = Inr p"
  shows "bp_hash_block_size p = hbs"
proof -
  obtain h q where hq: "fq_init (initial_heap (nat n) pid) (map Blk [0..<nat n]) = (h, q)" by fastforce
  show ?thesis
    using assms unfolding pool_init_def Let_def hq
    by (cases "n > 0"; cases "fq_popleft h (q\<lparr>fq_pool_id := pid\<rparr>)") (auto simp: guard_def)
qed

lemma fresh_manager_inv:
  assumes "0 < n" "pool_init n caching hbs evs mc pid ui = Inr p" "kind \<noteq> SlidingWindow 0" "0 < bs" "caching \<longrightarrow> bs = hbs"
  shows "kv_inv (single_group_manager kind bs max_len watermark retention records cap p)"
proof -
  from pool_init_ok[OF assms(1), of caching hbs evs mc pid ui] assms(2)
  have p: "pool_inv p (map Blk [1..<nat n])" "num_gpu_blocks p = n" "enable_caching p = caching" by auto
  have gap: "pool_gap p (map Blk [1..<nat n]) []" using p(1) by (simp add: pool_inv_rest)
  have hbs: "bp_hash_block_size p = hbs" by (rule pool_init_hash_size[OF assms(2)])
  have "\<forall>b \<in> usable p. ref_cnt (pool_heap p b) = 0"
  proof
    fix b assume b: "b \<in> usable p"
    then have "b \<in> set (map Blk [1..<nat n])" using p(2) by (simp add: usable_def)
    then show "ref_cnt (pool_heap p b) = 0" using gapD(5)[OF gap, of b] by blast
  qed
  then show ?thesis by (rule single_group_inv[OF p(1) _ assms(3,4)]) (use assms(5) p(3) hbs in simp)
qed

text \<open>The states a manager with one group reaches.\<close>

definition kv_reachable :: "kv_manager \<Rightarrow> bool" where
  "kv_reachable kv \<longleftrightarrow>
     (\<exists>n caching hbs evs mc pid ui p kind bs max_len watermark retention records cap.
        0 < n \<and> pool_init n caching hbs evs mc pid ui = Inr p \<and> kind \<noteq> SlidingWindow 0 \<and> 0 < bs \<and>
        (caching \<longrightarrow> bs = hbs) \<and>
        kv_reach (single_group_manager kind bs max_len watermark retention records cap p) kv)"

lemma kv_reachable_inv: "kv_reachable kv \<Longrightarrow> kv_inv kv"
  unfolding kv_reachable_def using kv_reach_inv fresh_manager_inv by metis

lemma kv_reachable_next: "kv_reachable kv \<Longrightarrow> kv_step kv kv' \<Longrightarrow> kv_reachable kv'"
  unfolding kv_reachable_def using kv_next by metis

lemma kv_reachable_start:
  assumes "0 < n" "pool_init n caching hbs evs mc pid ui = Inr p" "kind \<noteq> SlidingWindow 0" "0 < bs" "caching \<longrightarrow> bs = hbs"
  shows "kv_reachable (single_group_manager kind bs max_len watermark retention records cap p)"
  using assms kv_start unfolding kv_reachable_def by metis

end
