(* ===== verification/KV_Properties.thy ===== *)
theory KV_Properties
  imports KV_System Sample_States
begin

text \<open>
  The properties of the KV cache manager with one group, in every state its calls reach, each with a
  concrete instance.
\<close>

subsection \<open>Instances\<close>

definition sample_kv :: kv_manager where
  "sample_kv = single_group_manager (SlidingWindow 2) 2 64 0 None False None sample_pool"

definition sample_slots :: "kv_blocks \<Rightarrow> nat \<Rightarrow> nat \<Rightarrow> slot_request" where
  "sample_slots bss n new = \<lparr>sr_new_tokens = new, sr_new_computed_tokens = n, sr_new_computed_blocks = bss,
     sr_lookahead_tokens = 0, sr_external_tokens = 0, sr_delay_cache_blocks = False, sr_full_sequence_must_fit = False,
     sr_reserved_blocks = 0, sr_has_scheduled_reqs = False\<rparr>"

lemma sample_kv_reachable: "kv_reachable sample_kv"
  unfolding sample_kv_def by (rule kv_reachable_start[OF _ sample_pool_ok(1)]) simp_all

lemma sample_kv_groups: "kv_groups sample_kv = [manager_init (SlidingWindow 2) 2 True 0 2 False None]"
  by (simp add: sample_kv_def single_group_manager_def sample_pool_ok)

lemma sample_hashed_more [simp]:
  "request_id (sample_hashed toks) = ''r''" "num_computed_tokens (sample_hashed toks) = 0"
  "num_tokens (sample_hashed toks) = length toks"
  by (simp_all add: sample_hashed_def num_tokens_def)

lemma sample_slots_ok: "slots_ok (sample_hashed [10, 11, 12, 13]) (sample_slots None 0 4) sample_kv"
  by (simp add: slots_ok_def group_ready_def sample_kv_groups hit_blocks_ok_def sample_slots_def new_blocks_def
      takes_computed_def sr_local_tokens_def manager_init_def blocks_of_def)
    (simp add: sample_kv_def single_group_manager_def)

text \<open>Two blocks for four tokens whose caching is delayed.\<close>

lemma sample_unfilled:
  "\<exists>kv m. kv_reachable kv \<and> kv_groups kv = [m] \<and> kv_enable_caching kv \<and> blocks_of ''r'' m = [Blk 1, Blk 2] \<and>
     cached_count ''r'' m = 0"
proof -
  let ?m = "manager_init (SlidingWindow 2) 2 True 0 2 False None" and ?r = "sample_hashed [10, 11, 12, 13]"
  let ?q = "(sample_slots None 0 4)\<lparr>sr_delay_cache_blocks := True\<rparr>"
  have "\<forall>b \<in> usable sample_pool. ref_cnt (pool_heap sample_pool b) = 0"
    using sample_pool_ok(2) usable_sample[OF sample_pool_ok(3)] unfolding pool_inv_def pool_free_def pool_gap_def by auto
  then have inv: "gm_inv sample_pool ?m [Blk 1, Blk 2, Blk 3]"
    by (intro fresh_group_inv[OF sample_pool_ok(2)]) (simp_all add: sample_pool_ok)
  have m: "blocks_of ''r'' ?m = []" "num_cached_block ?m = []" "gm_block_size ?m = 2" "gm_kind ?m = SlidingWindow 2"
    "partial_hit_reqs ?m = []" "max_admission_blocks ?m = None"
    by (simp_all add: manager_init_def blocks_of_def)
  have two: "take 2 [Blk 1, Blk 2, Blk 3] = [Blk 1, Blk 2]" by (simp add: numeral_2_eq_2)
  have c2: "cdiv_nat 4 2 = 2" by (simp add: cdiv_nat_def)
  obtain p1 m1 where e: "extend_blocks ''r'' 2 (sample_pool, ?m) = Inr ([Blk 1, Blk 2], p1, m1)"
    "num_cached_block m1 = []" "blocks_of ''r'' m1 = [Blk 1, Blk 2]"
    using extend_blocks_ok[OF inv, of 2 "''r''"] m unfolding two by auto
  have kv: "kv_pool sample_kv = sample_pool" "kv_max_model_len sample_kv = 64" "kv_enable_caching sample_kv"
    by (simp_all add: sample_kv_def single_group_manager_def sample_pool_ok)
  have al: "allocate_new_blocks ''r'' 4 (sample_pool, ?m) = Inr ([Blk 1, Blk 2], p1, m1)"
    using e(1) m c2 by (simp add: allocate_new_blocks_def redirect_partial_hit_def)
  have co: "coordinator_allocate_new_blocks ''r'' 4 sample_kv = Inr ([[Blk 1, Blk 2]], one_group sample_kv p1 m1)"
    using on_groups_single[OF sample_kv_groups, of "\<lambda>_. allocate_new_blocks ''r'' 4" "()"] al kv(1)
    by (simp add: coordinator_allocate_new_blocks_def sample_kv_groups)
  have rm: "kv_remove_skipped_blocks ''r'' 0 sample_kv = Inr sample_kv"
    using all_groups_single[OF sample_kv_groups, of "remove_skipped_blocks ''r'' 0"] m(4) one_group_same[OF sample_kv_groups refl]
    by (simp add: kv_remove_skipped_blocks_def remove_skipped_blocks_def)
  have need: "sum_blocks_to_allocate sample_pool (kv_groups sample_kv) ''r'' 4 [[]] 0 0 False = Inr 2"
    using m c2 by (simp add: sample_kv_groups get_num_blocks_to_allocate_def has_partial_local_hit_def num_evictable_blocks_def)
  have free: "fits 2 False 0 sample_kv" using free_count_eq[OF sample_pool_ok(2)] kv(1) by (simp add: fits_def)
  have q: "sr_local_tokens ?r ?q = 0" "sr_total_tokens ?r ?q sample_kv = 0" "sr_slot_tokens ?r ?q sample_kv = 4"
    "sr_blocks ?q sample_kv = [[]]" "sr_watermark ?r ?q sample_kv = False" "sr_external_tokens ?q = 0"
    "sr_new_tokens ?q = 4" "sr_reserved_blocks ?q = 0" "sr_full_sequence_must_fit ?q = False"
    by (simp_all add: sr_local_tokens_def sr_total_tokens_def sr_slot_tokens_def sample_slots_def kv sr_blocks_def
        sample_kv_groups sr_watermark_def)
  have "num_in_flight_tokens (sample_request [10, 11, 12, 13]) = 0"
    by (simp add: sample_request_def request_fields_def)
  then have fl: "num_in_flight_tokens ?r = 0" by (simp add: sample_hashed_def)
  have "allocate_slots sample_hasher None ?r ?q sample_kv = Inr (Some (Some [[Blk 1, Blk 2]]), ?r, one_group sample_kv p1 m1)"
    using rm need free co kv
    by (simp add: allocate_slots_def full_sequence_fits_def take_slots_def q fl guard_def)
      (simp add: sample_slots_def create_kv_cache_blocks_def)
  moreover have "slots_ok ?r ?q sample_kv"
    using sample_slots_ok by (simp add: slots_ok_def group_ready_def new_blocks_def takes_computed_def q) (simp add: sample_slots_def sr_local_tokens_def)
  ultimately have "kv_reachable (one_group sample_kv p1 m1)"
    using kv_reachable_next[OF sample_kv_reachable step_slots] by blast
  then show ?thesis using e kv(3)
    by (intro exI[of _ "one_group sample_kv p1 m1"] exI[of _ m1]) (simp add: cached_count_def)
qed

subsection \<open>References\<close>



text \<open>C3: a block of a request beyond its cached prefix, the part a step may still write to, has no
  hash, and no other request and no other position holds it.\<close>

theorem unfilled_blocks_are_private:
  assumes "kv_reachable kv" "kv_groups kv = [m]" "kv_enable_caching kv"
    and "cached_count rid m \<le> i" "i < length (blocks_of rid m)" "blocks_of rid m ! i \<noteq> Blk 0"
    and "j < length (blocks_of rid' m)" "blocks_of rid' m ! j = blocks_of rid m ! i"
  shows "rid' = rid \<and> j = i \<and> block_keys (kv_pool kv) (blocks_of rid m ! i) = []"
proof -
  obtain xs where xs: "gm_inv (kv_pool kv) m xs" "enable_caching (kv_pool kv)"
    using kv_reachable_inv[OF assms(1)] assms(2,3) by (auto simp: kv_inv_def)
  let ?b = "blocks_of rid m ! i"
  from fresh_partD[OF gm_invD(6)[OF xs] assms(4-6)] have f: "block_keys (kv_pool kv) ?b = []" "count (block_refs m) ?b = 1"
    by simp_all
  have in1: "0 < count (mset (blocks_of rid m)) ?b" using assms(5) by simp
  have in2: "0 < count (mset (blocks_of rid' m)) ?b" using assms(7) unfolding assms(8)[symmetric] by simp
  have r: "rid' = rid"
  proof (rule ccontr)
    assume ne: "rid' \<noteq> rid"
    show False using two_lists_count[OF ne[symmetric], of m ?b] in1 in2 f(2) by linarith
  qed
  moreover have "j = i"
    using count_two_positions[of i "blocks_of rid m" j] count_blocks_le[of rid m ?b] f(2) assms(5,7,8) r by fastforce
  ultimately show ?thesis using f(1) by blast
qed

theorem unfilled_blocks_are_private_witness:
  "\<exists>(kv :: kv_manager) m. blocks_of ''r'' m = [Blk 1, Blk 2] \<and> block_keys (kv_pool kv) (Blk 2) = []"
proof -
  obtain kv m where s: "kv_reachable kv" "kv_groups kv = [m]" "kv_enable_caching kv" "blocks_of ''r'' m = [Blk 1, Blk 2]"
    "cached_count ''r'' m = 0" using sample_unfilled by blast
  from unfilled_blocks_are_private[OF s(1-3), of "''r''" 1 1 "''r''"] s(4,5)
  have "block_keys (kv_pool kv) (Blk 2) = []" by simp
  then show ?thesis using s(4) by blast
qed

text \<open>when no request holds a block any more, every block but the null block is free again.\<close>

theorem freed_blocks_all_return:
  assumes "kv_reachable kv" "kv_groups kv = [m]" "\<forall>b \<in># block_refs m. b = Blk 0"
  shows "get_num_free_blocks (kv_pool kv) = num_gpu_blocks (kv_pool kv) - 1"
proof -
  obtain xs where xs: "gm_inv (kv_pool kv) m xs"
    using kv_reachable_inv[OF assms(1)] assms(2) by (auto simp: kv_inv_def)
  have "ref_cnt (pool_heap (kv_pool kv) b) = 0" if b: "b \<in> usable (kv_pool kv)" for b
  proof -
    have "b \<noteq> Blk 0" using b by auto
    then have "b \<notin># block_refs m" using assms(3) by blast
    then show ?thesis using gm_invD(5)[OF xs b] by (simp add: not_in_iff)
  qed
  then have none: "{b \<in> usable (kv_pool kv). 0 < ref_cnt (pool_heap (kv_pool kv) b)} = {}" by auto
  show ?thesis using conservation[OF gm_invD(1)[OF xs]] unfolding none by simp
qed

theorem freed_blocks_all_return_witness:
  "get_num_free_blocks (kv_pool sample_kv) = num_gpu_blocks (kv_pool sample_kv) - 1"
  by (rule freed_blocks_all_return[OF sample_kv_reachable sample_kv_groups])
    (simp add: block_refs_def manager_init_def holdings_def)


subsection \<open>The window\<close>

text \<open>C16: \<open>remove_skipped_blocks\<close> gives back only blocks outside the attention window: it replaces a
  block by the null block only when all tokens of the block lie before the window of the next token
  (nothing for full attention), keeps the number of blocks and leaves other requests alone.\<close>

theorem skipped_blocks_outside_window:
  assumes "kv_reachable kv" "kv_groups kv = [m]"
  shows "\<exists>kv' m'. kv_remove_skipped_blocks rid n kv = Inr kv' \<and> kv_groups kv' = [m'] \<and>
    (\<forall>u. u \<noteq> rid \<longrightarrow> blocks_of u m' = blocks_of u m) \<and> length (blocks_of rid m') = length (blocks_of rid m) \<and>
    (\<forall>j < length (blocks_of rid m). blocks_of rid m' ! j = blocks_of rid m ! j \<or>
       (case gm_kind m of FullAttention \<Rightarrow> False
        | SlidingWindow w \<Rightarrow> blocks_of rid m' ! j = Blk 0 \<and>
            (\<forall>t. t < (j + 1) * gm_block_size m \<longrightarrow> int t \<le> int n - int w)))"
proof -
  obtain p1 m1 where r: "kv_remove_skipped_blocks rid n kv = Inr (one_group kv p1 m1)"
    "\<forall>u. u \<noteq> rid \<longrightarrow> blocks_of u m1 = blocks_of u m" "length (blocks_of rid m1) = length (blocks_of rid m)"
    "\<And>j. j < length (blocks_of rid m) \<Longrightarrow> blocks_of rid m1 ! j \<noteq> blocks_of rid m ! j \<Longrightarrow>
       j < num_skipped_tokens (gm_kind m) n div gm_block_size m \<and> blocks_of rid m1 ! j = Blk 0"
    using remove_step_ok[OF kv_reachable_inv[OF assms(1)] assms(2), of rid n] by blast
  have "case gm_kind m of FullAttention \<Rightarrow> False
      | SlidingWindow w \<Rightarrow> blocks_of rid m1 ! j = Blk 0 \<and> (\<forall>t. t < (j + 1) * gm_block_size m \<longrightarrow> int t \<le> int n - int w)"
    if j: "j < length (blocks_of rid m)" "blocks_of rid m1 ! j \<noteq> blocks_of rid m ! j" for j
  proof (cases "gm_kind m")
    case FullAttention
    then show ?thesis using r(4)[OF j] by simp
  next
    case (SlidingWindow w)
    let ?s = "num_skipped_tokens (gm_kind m) n"
    have "(j + 1) * gm_block_size m \<le> ?s div gm_block_size m * gm_block_size m"
      using r(4)[OF j] by (intro mult_le_mono1) simp
    also have "\<dots> \<le> ?s" by (rule div_times_less_eq_dividend)
    finally show ?thesis using r(4)[OF j] SlidingWindow by auto
  qed
  then show ?thesis using r(1-3)
    by (intro exI[of _ "one_group kv p1 m1"] exI[of _ m1]) auto
qed

theorem skipped_blocks_outside_window_witness:
  "\<exists>kv' m'. kv_remove_skipped_blocks ''r'' 5 sample_kv = Inr kv' \<and> kv_groups kv' = [m']"
  using skipped_blocks_outside_window[OF sample_kv_reachable sample_kv_groups, of "''r''" 5] by blast


subsection \<open>Admission\<close>

text \<open>C1: under the conditions its caller keeps, \<open>allocate_slots\<close> never raises: the check it makes covers
  every block it then takes from the pool.  When it returns blocks, the request has enough for all
  computed, new and lookahead tokens; otherwise the request keeps the number of blocks it had.  Other
  requests' blocks stay, and the state is one the calls reach.\<close>

theorem allocate_slots_never_raises:
  assumes "kv_reachable kv" "kv_groups kv = [m]" "slots_ok r q kv"
  shows "\<exists>res kv' m'. allocate_slots H Ho r q kv = Inr (res, r, kv') \<and> kv_reachable kv' \<and> kv_groups kv' = [m'] \<and>
    (\<forall>u. u \<noteq> request_id r \<longrightarrow> blocks_of u m' = blocks_of u m) \<and>
    (case res of None \<Rightarrow> length (blocks_of (request_id r) m') = length (blocks_of (request_id r) m)
     | Some new \<Rightarrow> sr_slot_tokens r q kv \<le> length (blocks_of (request_id r) m') * gm_block_size m)"
proof -
  obtain xs where "gm_inv (kv_pool kv) m xs"
    using kv_reachable_inv[OF assms(1)] assms(2) by (auto simp: kv_inv_def)
  then have bs: "0 < gm_block_size m" using gm_invD(2) by (auto simp: gm_static_def)
  from allocate_slots_ok[OF kv_reachable_inv[OF assms(1)] assms(2,3), of H Ho] obtain res p1 m1 where a:
    "allocate_slots H Ho r q kv = Inr (res, r, one_group kv p1 m1)"
    "\<forall>u. u \<noteq> request_id r \<longrightarrow> blocks_of u m1 = blocks_of u m"
    "if res = None then length (blocks_of (request_id r) m1) = length (blocks_of (request_id r) m)
     else cdiv_nat (sr_slot_tokens r q kv) (gm_block_size m) \<le> length (blocks_of (request_id r) m1) \<and>
       (takes_computed q \<and> map_of (num_cached_block m) (request_id r) = None \<longrightarrow> keeps_hit r q m m1)" by blast
  have "sr_slot_tokens r q kv \<le> cdiv_nat (sr_slot_tokens r q kv) (gm_block_size m) * gm_block_size m"
    by (rule cdiv_nat_bounds(1)[OF bs])
  also have "\<dots> \<le> length (blocks_of (request_id r) m1) * gm_block_size m" if "res \<noteq> None"
    using a(3) that by (intro mult_le_mono1) simp
  finally have "res \<noteq> None \<Longrightarrow> sr_slot_tokens r q kv \<le> length (blocks_of (request_id r) m1) * gm_block_size m" .
  moreover have "kv_reachable (one_group kv p1 m1)"
    by (rule kv_reachable_next[OF assms(1) step_slots[OF assms(3) a(1)]])
  ultimately show ?thesis using a
    by (intro exI[of _ res] exI[of _ "one_group kv p1 m1"] exI[of _ m1]) (auto split: option.splits)
qed

theorem allocate_slots_never_raises_witness:
  "\<exists>res kv'. allocate_slots sample_hasher None (sample_hashed [10, 11, 12, 13]) (sample_slots None 0 4) sample_kv =
     Inr (res, sample_hashed [10, 11, 12, 13], kv') \<and> kv_reachable kv'"
  using allocate_slots_never_raises[OF sample_kv_reachable sample_kv_groups sample_slots_ok] by blast


text \<open>C14: the path of a new request: the lookup does not raise and finds whole blocks short of the last
  token, and \<open>allocate_slots\<close> with what it found does not raise either; when it returns blocks, the
  request's list begins with the hit (null blocks outside the window, then the cached blocks).\<close>

theorem lookup_then_allocate:
  assumes "kv_reachable kv" "kv_groups kv = [m]"
    and "map_of (num_cached_block m) (request_id r) = None" "blocks_of (request_id r) m = []"
    and "num_computed_tokens r = 0" "num_tokens r \<le> kv_max_model_len kv"
    and "num_tokens r div gm_block_size m \<le> length (block_hashes r)" "0 < new_tokens"
  shows "\<exists>bss n kv1. get_computed_blocks H r kv = Inr (bss, n, 0, kv1) \<and> n \<le> num_tokens r - 1 \<and>
    n mod gm_block_size m = 0 \<and>
    (\<forall>q. sr_new_computed_blocks q = bss \<and> sr_new_computed_tokens q = n \<and> sr_external_tokens q = 0 \<and>
       sr_new_tokens q = new_tokens \<and> 0 \<le> sr_reserved_blocks q \<longrightarrow>
       (\<exists>res kv2 m2. allocate_slots H Ho r q kv1 = Inr (res, r, kv2) \<and> kv_reachable kv2 \<and> kv_groups kv2 = [m2] \<and>
          (res \<noteq> None \<and> bss \<noteq> None \<longrightarrow>
             (let skipped = num_skipped_tokens (gm_kind m) n div gm_block_size m in
              \<exists>more. blocks_of (request_id r) m2 = replicate skipped (Blk 0) @ drop skipped (hd (the bss)) @ more))))"
proof -
  let ?bs = "gm_block_size m"
  from get_computed_ok[OF kv_reachable_inv[OF assms(1)] assms(2,7), of H] obtain bss n kv1 es where g:
    "get_computed_blocks H r kv = Inr (bss, n, 0, kv1)" "kv1 = with_pool kv ((kv_pool kv)\<lparr>kv_event_queue := es\<rparr>)"
    "n mod ?bs = 0" "n \<le> num_tokens r - 1"
    "case bss of None \<Rightarrow> n = 0 | Some cs \<Rightarrow> \<exists>c. cs = [c] \<and> c \<noteq> [] \<and> n = length c * ?bs \<and> hit_blocks_ok (kv_pool kv) c"
    by (elim exE conjE) (rule that)
  have k1: "kv_groups kv1 = [m]" "kv_max_model_len kv1 = kv_max_model_len kv"
    "hit_blocks_ok (kv_pool kv1) = hit_blocks_ok (kv_pool kv)"
    using g(2) assms(2) by (simp_all add: with_pool_def fun_eq_iff)
  have "kv_step kv kv1" by (rule step_lookup[OF _ g(1)]) (use assms(2,7) in simp)
  then have r1: "kv_reachable kv1" by (rule kv_reachable_next[OF assms(1)])
  have "\<exists>res kv2 m2. allocate_slots H Ho r q kv1 = Inr (res, r, kv2) \<and> kv_reachable kv2 \<and> kv_groups kv2 = [m2] \<and>
      (res \<noteq> None \<and> bss \<noteq> None \<longrightarrow>
         (let skipped = num_skipped_tokens (gm_kind m) n div ?bs in
          \<exists>more. blocks_of (request_id r) m2 = replicate skipped (Blk 0) @ drop skipped (hd (the bss)) @ more))"
    if q: "sr_new_computed_blocks q = bss" "sr_new_computed_tokens q = n" "sr_external_tokens q = 0"
      "sr_new_tokens q = new_tokens" "0 \<le> sr_reserved_blocks q" for q
  proof -
    have loc: "sr_local_tokens r q = n" using q(2) assms(5) by (simp add: sr_local_tokens_def)
    have new: "new_blocks q = (case bss of None \<Rightarrow> [] | Some cs \<Rightarrow> hd cs)" using q(1) by (simp add: new_blocks_def)
    have "group_ready r q m"
      using assms(3,4,7) g(3,5) q(1,3) by (auto simp: group_ready_def loc new takes_computed_def split: option.splits)
    moreover have "hit_blocks_ok (kv_pool kv) (new_blocks q)"
      using g(5) by (auto simp: new hit_blocks_ok_def split: option.splits)
    ultimately have so: "slots_ok r q kv1"
      using k1 q g(4,5) assms(6,8) by (auto simp: slots_ok_def loc split: option.splits)
    from allocate_slots_ok[OF kv_reachable_inv[OF r1] k1(1) so, of H Ho] obtain res p2 m2 where a:
      "allocate_slots H Ho r q kv1 = Inr (res, r, one_group kv1 p2 m2)"
      "res \<noteq> None \<Longrightarrow> takes_computed q \<Longrightarrow> keeps_hit r q m m2" using assms(3) by (auto split: if_splits)
    have "kv_reachable (one_group kv1 p2 m2)" by (rule kv_reachable_next[OF r1 step_slots[OF so a(1)]])
    moreover have "let skipped = num_skipped_tokens (gm_kind m) n div ?bs in
          \<exists>more. blocks_of (request_id r) m2 = replicate skipped (Blk 0) @ drop skipped (hd (the bss)) @ more"
      if "res \<noteq> None \<and> bss \<noteq> None"
    proof -
      have "takes_computed q" using that q(1) by (simp add: takes_computed_def)
      then show ?thesis using a(2) that assms(3) q(3) new by (auto simp: keeps_hit_def loc Let_def)
    qed
    ultimately show ?thesis using a(1) by (intro exI[of _ res] exI[of _ "one_group kv1 p2 m2"] exI[of _ m2]) simp
  qed
  then show ?thesis
    by (intro exI[of _ bss] exI[of _ n] exI[of _ kv1] conjI allI impI g(1,3,4); elim conjE; assumption)
qed

theorem lookup_then_allocate_witness:
  "\<exists>bss n kv1. get_computed_blocks sample_hasher (sample_hashed [10, 11, 12, 13]) sample_kv = Inr (bss, n, 0, kv1) \<and> n \<le> 3"
proof -
  let ?m = "manager_init (SlidingWindow 2) 2 True 0 2 False None"
  have "map_of (num_cached_block ?m) ''r'' = None" "blocks_of ''r'' ?m = []" "gm_block_size ?m = 2"
    "kv_max_model_len sample_kv = 64"
    by (simp_all add: manager_init_def blocks_of_def sample_kv_def single_group_manager_def)
  then show ?thesis
    using lookup_then_allocate[OF sample_kv_reachable sample_kv_groups, where r = "sample_hashed [10, 11, 12, 13]" and
        new_tokens = 4 and H = sample_hasher] by fastforce
qed



subsection \<open>The lookups\<close>

text \<open>with one group, the full-attention lookup finds the longest run of cached blocks that fits in
  the length limit (one block less when a draft model drops the last one), and for each of its hashes a
  block that is cached under it.\<close>

theorem full_lookup_longest_run:
  assumes "pool_inv p xs" "0 \<le> g" "g < 2 ^ 32" "bp_hash_block_size p = bs" "0 < bs"
    and "n = length (takeWhile (is_cached p g) (take (max_len div bs) hs))"
    and "n' = (if drop_eagle then n - 1 else n)"
  shows "\<exists>blocks. full_longest_hit (RawHashes hs) max_len [g] bs drop_eagle bs oh p = Inr ([blocks], n' * bs, p) \<and>
    length blocks = n' \<and> (\<forall>i < n'. cached_for p g (hs ! i) (blocks ! i))"
  by (rule full_longest_hit_single[OF assms])

theorem full_lookup_longest_run_witness:
  "\<exists>b. full_longest_hit (RawHashes (block_hashes (sample_hashed [10, 11, 12, 13]))) 2 [0] 2 False 2 None cached_pool =
     Inr ([[b]], 2, cached_pool)"
proof -
  let ?r = "sample_hashed [10, 11, 12, 13]"
  let ?hs = "block_hashes ?r"
  have "\<not> skip_block (pool_heap taken_pool) None 0 (Blk 1)"
    using null_taken[of taken_pool 1] taken_pool_ok(2,3) by (simp add: pool_inv_def skip_block_def)
  with cacheable_ok[OF taken_pool_ok(2) sample_cacheable, of sample_hasher False] cached_pool_ok(1)
  obtain key where key: "make_block_hash_with_group_id (?hs ! 0) 0 = Inr key" "key \<in> set (block_keys cached_pool (Blk 1))"
    by (auto simp: taken_pool_ok)
  have cfg: "num_gpu_blocks cached_pool = 4" "bp_hash_block_size cached_pool = 2"
    using cached_pool_ok(3) taken_pool_ok(3,4) by (simp_all add: only_keys_of_def same_config_def)
  then have "is_cached cached_pool 0 (?hs ! 0)"
    using key usable_sample by (auto simp: is_cached_def cached_for_def)
  moreover have "take (2 div 2) ?hs = [?hs ! 0]" by (cases ?hs) (auto simp: sample_hashed_def num_full_blocks_def num_tokens_def)
  ultimately have n: "1 = length (takeWhile (is_cached cached_pool 0) (take (2 div 2) ?hs))" by simp
  from full_lookup_longest_run[OF cached_pool_ok(2) _ _ cfg(2) _ n refl, of False None]
  obtain blocks where "full_longest_hit (RawHashes ?hs) 2 [0] 2 False 2 None cached_pool = Inr ([blocks], 2, cached_pool)"
    "length blocks = 1" by auto
  then show ?thesis by (auto simp: length_Suc_conv)
qed

text \<open>C15: with one group, the sliding-window lookup finds the longest prefix of whole blocks whose last
  window of blocks is cached: those blocks are cached under their hashes, the ones before are the null
  block, and no longer prefix within the limit has its window cached (a draft model drops the last
  block of the result).\<close>

theorem sliding_lookup_longest_window:
  assumes "pool_inv p xs" "0 \<le> g" "g < 2 ^ 32" "bp_hash_block_size p = bs" "0 < bs" "max_len div bs \<le> length hs"
    and "need = max 1 (contiguous_blocks_for_hit window bs drop_eagle)"
  shows "\<exists>c. sliding_longest_hit (RawHashes hs) max_len [g] bs window drop_eagle bs oh p =
      Inr ([if drop_eagle then butlast c else c], length (if drop_eagle then butlast c else c) * bs, p) \<and>
    length c \<le> max_len div bs \<and>
    (\<forall>i < length c. if length c - need \<le> i then cached_for p g (hs ! i) (c ! i) else c ! i = null_block p) \<and>
    (\<forall>n. length c < n \<and> n \<le> max_len div bs \<longrightarrow> \<not> (\<forall>i < n. n - need \<le> i \<longrightarrow> is_cached p g (hs ! i)))"
  using sliding_longest_hit_single[OF assms, of oh] unfolding scan_result_def window_hit_def .

theorem sliding_lookup_longest_window_witness:
  "\<exists>c. sliding_longest_hit (RawHashes [[1], [2]]) 4 [0] 2 3 False 2 None sample_pool = Inr ([c], length c * 2, sample_pool)"
  using sliding_lookup_longest_window[OF sample_pool_ok(2) _ _ sample_pool_ok(6) _ _ refl, where g = 0 and max_len = 4 and
      hs = "[[1], [2]]" and window = 3 and drop_eagle = False and oh = None] by auto

end
