(* ===== verification/Heapq.thy ===== *)
theory Heapq
  imports Prelude "HOL-Library.Multiset"
begin

text \<open>
  The part of Python's \<^verbatim>\<open>heapq\<close> that the request queue uses, with CPython's algorithms on a
  list: \<open>_siftdown\<close> moves an element towards the root, \<open>_siftup\<close> first moves the smaller child up
  until a leaf is reached.  The lemmas show that each call keeps the multiset of elements and
  establishes the heap order.
\<close>

definition hparent :: "nat \<Rightarrow> nat" where
  "hparent j = (j - 1) div 2"

lemma hparent_less: "0 < j \<Longrightarrow> hparent j < j"
  by (simp add: hparent_def)

function siftdown_loop :: "'a::linorder list \<Rightarrow> nat \<Rightarrow> nat \<Rightarrow> 'a \<Rightarrow> 'a list" where
  "siftdown_loop xs start pos new =
     (if pos > start then
        let pp = hparent pos; par = xs ! pp in
        if new < par then siftdown_loop (xs[pos := par]) start pp new else xs[pos := new]
      else xs[pos := new])"
  by pat_completeness auto
termination
  by (relation "measure (\<lambda>(xs, start, pos, new). pos)") (auto simp: hparent_less)

declare siftdown_loop.simps [simp del]

definition heap_siftdown :: "'a::linorder list \<Rightarrow> nat \<Rightarrow> nat \<Rightarrow> 'a list" where
  "heap_siftdown xs start pos = siftdown_loop xs start pos (xs ! pos)"

definition smaller_child :: "'a::linorder list \<Rightarrow> nat \<Rightarrow> nat" where
  "smaller_child xs pos =
     (let c = 2 * pos + 1
      in if c + 1 < length xs \<and> \<not> xs ! c < xs ! (c + 1) then c + 1 else c)"

function siftup_loop :: "'a::linorder list \<Rightarrow> nat \<Rightarrow> 'a list \<times> nat" where
  "siftup_loop xs pos =
     (if 2 * pos + 1 < length xs
      then siftup_loop (xs[pos := xs ! smaller_child xs pos]) (smaller_child xs pos)
      else (xs, pos))"
  by pat_completeness auto
termination
  by (relation "measure (\<lambda>(xs, pos). length xs - pos)") (auto simp: smaller_child_def Let_def)

declare siftup_loop.simps [simp del]

definition heap_siftup :: "'a::linorder list \<Rightarrow> nat \<Rightarrow> 'a list" where
  "heap_siftup xs pos = (let (ys, p) = siftup_loop xs pos in siftdown_loop ys pos p (xs ! pos))"

definition heappush :: "'a::linorder list \<Rightarrow> 'a \<Rightarrow> 'a list" where
  "heappush xs x = heap_siftdown (xs @ [x]) 0 (length xs)"

definition heappop :: "'a::linorder list \<Rightarrow> ('a \<times> 'a list) res" where
  "heappop xs =
     (if xs = [] then Inl IndexError
      else let lst = last xs; ys = butlast xs
           in if ys = [] then Inr (lst, [])
              else Inr (ys ! 0, heap_siftup (ys[0 := lst]) 0))"

definition heapify :: "'a::linorder list \<Rightarrow> 'a list" where
  "heapify xs = fold (\<lambda>i ys. heap_siftup ys i) (rev [0..<length xs div 2]) xs"


subsection \<open>The heap order from an index on\<close>

definition heap_from :: "'a::linorder list \<Rightarrow> nat \<Rightarrow> bool" where
  "heap_from xs s \<longleftrightarrow>
     (\<forall>j < length xs. 0 < j \<longrightarrow> s \<le> hparent j \<longrightarrow> xs ! hparent j \<le> xs ! j)"

abbreviation is_heap :: "'a::linorder list \<Rightarrow> bool" where
  "is_heap xs \<equiv> heap_from xs 0"

text \<open>\<open>pos\<close> lies below \<open>s\<close> in the tree.\<close>

function below :: "nat \<Rightarrow> nat \<Rightarrow> bool" where
  "below s pos = (if pos \<le> s then pos = s else below s (hparent pos))"
  by pat_completeness auto
termination by (relation "measure (\<lambda>(s, pos). pos)") (auto simp: hparent_less)

declare below.simps [simp del]

lemma below_refl [simp]: "below s s"
  by (subst below.simps) simp

lemma below_ge: "below s pos \<Longrightarrow> s \<le> pos"
  by (subst (asm) below.simps) (auto split: if_splits)

lemma below_step: "below s pos \<Longrightarrow> s < pos \<Longrightarrow> below s (hparent pos) \<and> s \<le> hparent pos"
  using below_ge by (subst (asm) below.simps) (auto split: if_splits)

lemma below_child: "below s pos \<Longrightarrow> hparent c = pos \<Longrightarrow> 0 < c \<Longrightarrow> below s c"
  using below_ge[of s pos] hparent_less[of c] by (subst below.simps) auto

lemma below_zero: "below 0 pos"
proof (induction pos rule: less_induct)
  case (less pos)
  then show ?case using hparent_less[of pos] by (subst below.simps) auto
qed

text \<open>The order holds everywhere but between \<open>pos\<close> and its parent.\<close>

definition heap_but :: "'a::linorder list \<Rightarrow> nat \<Rightarrow> nat \<Rightarrow> bool" where
  "heap_but xs s pos \<longleftrightarrow>
     (\<forall>j < length xs. 0 < j \<longrightarrow> s \<le> hparent j \<longrightarrow> j \<noteq> pos \<longrightarrow> xs ! hparent j \<le> xs ! j) \<and>
     (\<forall>c < length xs. 0 < c \<longrightarrow> hparent c = pos \<longrightarrow> s < pos \<longrightarrow> xs ! hparent pos \<le> xs ! c)"

lemma heap_butD:
  assumes "heap_but xs s pos"
  shows "j < length xs \<Longrightarrow> 0 < j \<Longrightarrow> s \<le> hparent j \<Longrightarrow> j \<noteq> pos \<Longrightarrow> xs ! hparent j \<le> xs ! j"
    and "c < length xs \<Longrightarrow> 0 < c \<Longrightarrow> hparent c = pos \<Longrightarrow> s < pos \<Longrightarrow> xs ! hparent pos \<le> xs ! c"
  using assms unfolding heap_but_def by blast+

lemma siftdown_loop_ok:
  assumes "below s pos" "pos < length xs" "heap_but (xs[pos := new]) s pos"
  shows "length (siftdown_loop xs s pos new) = length xs"
    and "mset (siftdown_loop xs s pos new) = mset (xs[pos := new])"
    and "heap_from (siftdown_loop xs s pos new) s"
proof -
  have "length (siftdown_loop xs s pos new) = length xs \<and>
      mset (siftdown_loop xs s pos new) = mset (xs[pos := new]) \<and>
      heap_from (siftdown_loop xs s pos new) s"
    using assms
  proof (induction xs s pos new rule: siftdown_loop.induct)
    case (1 xs s pos new)
    let ?pp = "hparent pos" and ?ys = "xs[pos := new]"
    note b = heap_butD[OF "1.prems"(3)]
    show ?case
    proof (cases "s < pos \<and> new < xs ! ?pp")
      case True
      let ?xs = "xs[pos := xs ! ?pp]"
      have pp: "?pp < pos" "s \<le> ?pp" "below s ?pp"
        using hparent_less[of pos] below_step[OF "1.prems"(1)] True by auto
      have z: "?xs[?pp := new] = ?ys[pos := ?ys ! ?pp, ?pp := ?ys ! pos]"
        using pp(1) "1.prems"(2) by simp
      have ms: "mset (?xs[?pp := new]) = mset ?ys"
        unfolding z using pp(1) "1.prems"(2) by (intro mset_swap) simp_all
      have "heap_but (?xs[?pp := new]) s ?pp"
        unfolding heap_but_def
      proof (intro conjI allI impI)
        fix j assume j: "j < length (?xs[?pp := new])" "0 < j" "s \<le> hparent j" "j \<noteq> ?pp"
        consider "j = pos" | "j \<noteq> pos" "hparent j = pos" | "j \<noteq> pos" "hparent j = ?pp"
          | "j \<noteq> pos" "hparent j \<noteq> pos" "hparent j \<noteq> ?pp" by blast
        then show "?xs[?pp := new] ! hparent j \<le> ?xs[?pp := new] ! j"
        proof cases
          case 1
          then show ?thesis using True pp(1) "1.prems"(2) by (simp add: less_imp_le)
        next
          case 2
          then show ?thesis using b(2)[of j] j pp(1) "1.prems"(2) True by simp
        next
          case 3
          then have "xs ! ?pp \<le> xs ! j" using b(1)[of j] j pp(1) by simp
          then show ?thesis using 3 j pp(1) "1.prems"(2) True by simp
        next
          case 4
          then show ?thesis using b(1)[of j] j by simp
        qed
      next
        fix c assume c: "c < length (?xs[?pp := new])" "0 < c" "hparent c = ?pp" "s < ?pp"
        have gp: "hparent ?pp < ?pp" using c(4) by (intro hparent_less) simp
        have "s \<le> hparent ?pp" using below_step[OF pp(3) c(4)] by simp
        then have top: "xs ! hparent ?pp \<le> xs ! ?pp"
          using b(1)[of ?pp] pp(1) gp c(4) "1.prems"(2) by simp
        show "?xs[?pp := new] ! hparent ?pp \<le> ?xs[?pp := new] ! c"
        proof (cases "c = pos")
          case True
          then show ?thesis using top pp(1) gp "1.prems"(2) by simp
        next
          case False
          have "c \<noteq> ?pp" using hparent_less[OF c(2)] c(3) by simp
          moreover have "xs ! ?pp \<le> xs ! c" using b(1)[of c] c pp False by simp
          ultimately show ?thesis using top gp pp(1) False by simp
        qed
      qed
      then have IH: "length (siftdown_loop ?xs s ?pp new) = length ?xs \<and>
          mset (siftdown_loop ?xs s ?pp new) = mset (?xs[?pp := new]) \<and>
          heap_from (siftdown_loop ?xs s ?pp new) s"
        using "1.IH"[of ?pp "xs ! ?pp"] True pp "1.prems"(2) by simp
      then show ?thesis
        using True ms by (subst (1 2 3) siftdown_loop.simps) (simp add: Let_def)
    next
      case False
      have "heap_from ?ys s"
        unfolding heap_from_def
      proof (intro allI impI)
        fix j assume j: "j < length ?ys" "0 < j" "s \<le> hparent j"
        show "?ys ! hparent j \<le> ?ys ! j"
        proof (cases "j = pos")
          case True
          then have "s < pos" using j hparent_less[of j] by simp
          then show ?thesis using False True j hparent_less[of j] by simp
        next
          case False
          then show ?thesis using b(1)[OF j] by simp
        qed
      qed
      then show ?thesis using False by (subst (1 2 3) siftdown_loop.simps) (simp add: Let_def)
    qed
  qed
  then show "length (siftdown_loop xs s pos new) = length xs"
    "mset (siftdown_loop xs s pos new) = mset (xs[pos := new])"
    "heap_from (siftdown_loop xs s pos new) s" by blast+
qed

text \<open>The hole of \<open>_siftup\<close>: the order holds where neither end is the hole, and across it.\<close>

definition heap_hole :: "'a::linorder list \<Rightarrow> nat \<Rightarrow> nat \<Rightarrow> bool" where
  "heap_hole xs s pos \<longleftrightarrow>
     (\<forall>j < length xs. 0 < j \<longrightarrow> s \<le> hparent j \<longrightarrow> j \<noteq> pos \<longrightarrow> hparent j \<noteq> pos \<longrightarrow>
        xs ! hparent j \<le> xs ! j) \<and>
     (\<forall>c < length xs. 0 < c \<longrightarrow> hparent c = pos \<longrightarrow> s < pos \<longrightarrow> xs ! hparent pos \<le> xs ! c)"

lemma heap_holeD:
  assumes "heap_hole xs s pos"
  shows "j < length xs \<Longrightarrow> 0 < j \<Longrightarrow> s \<le> hparent j \<Longrightarrow> j \<noteq> pos \<Longrightarrow> hparent j \<noteq> pos \<Longrightarrow> xs ! hparent j \<le> xs ! j"
    and "c < length xs \<Longrightarrow> 0 < c \<Longrightarrow> hparent c = pos \<Longrightarrow> s < pos \<Longrightarrow> xs ! hparent pos \<le> xs ! c"
  using assms unfolding heap_hole_def by blast+

lemma child_cases: "hparent c = pos \<Longrightarrow> 0 < c \<Longrightarrow> c = 2 * pos + 1 \<or> c = 2 * pos + 2"
  by (auto simp: hparent_def)

lemma smaller_child_props:
  assumes "2 * pos + 1 < length xs"
  shows "smaller_child xs pos < length xs" "hparent (smaller_child xs pos) = pos"
    "0 < smaller_child xs pos" "pos < smaller_child xs pos"
    "c < length xs \<Longrightarrow> hparent c = pos \<Longrightarrow> 0 < c \<Longrightarrow> xs ! smaller_child xs pos \<le> xs ! c"
proof -
  show "smaller_child xs pos < length xs" "hparent (smaller_child xs pos) = pos"
    "0 < smaller_child xs pos" "pos < smaller_child xs pos"
    using assms by (auto simp: smaller_child_def Let_def hparent_def)
  assume c: "c < length xs" "hparent c = pos" "0 < c"
  from child_cases[OF c(2,3)] show "xs ! smaller_child xs pos \<le> xs ! c"
    using c(1) by (auto simp: smaller_child_def Let_def)
qed

lemma siftup_loop_ok:
  assumes "heap_hole xs s pos" "below s pos" "pos < length xs" "siftup_loop xs pos = (ys, p)"
  shows "length ys = length xs" "mset (ys[p := new]) = mset (xs[pos := new])"
    "heap_but (ys[p := new]) s p" "below s p" "p < length xs"
proof -
  have "length ys = length xs \<and> mset (ys[p := new]) = mset (xs[pos := new]) \<and>
    heap_but (ys[p := new]) s p \<and> below s p \<and> p < length xs"
    using assms
  proof (induction xs pos rule: siftup_loop.induct)
    case (1 xs pos)
    note h = heap_holeD[OF "1.prems"(1)]
    show ?case
    proof (cases "2 * pos + 1 < length xs")
      case True
      define c where "c = smaller_child xs pos"
      define zs where "zs = xs[pos := xs ! c]"
      note cp = smaller_child_props[OF True, folded c_def]
      have rec: "siftup_loop zs c = (ys, p)"
        using "1.prems"(4) True by (subst (asm) siftup_loop.simps) (simp add: c_def zs_def)
      have hole: "heap_hole zs s c"
        unfolding heap_hole_def
      proof (intro conjI allI impI)
        fix j assume j: "j < length zs" "0 < j" "s \<le> hparent j" "j \<noteq> c" "hparent j \<noteq> c"
        consider "j = pos" | "j \<noteq> pos" "hparent j = pos" | "j \<noteq> pos" "hparent j \<noteq> pos" by blast
        then show "zs ! hparent j \<le> zs ! j"
        proof cases
          case 1
          then have "s < pos" using j(2,3) hparent_less[of j] by simp
          then show ?thesis
            using h(2)[OF cp(1,3,2)] 1 hparent_less[of j] j(2) "1.prems"(3) by (simp add: zs_def)
        next
          case 2
          then show ?thesis using cp(5)[of j] j(1,2) "1.prems"(3) by (simp add: zs_def)
        next
          case 3
          then show ?thesis using h(1)[of j] j by (simp add: zs_def)
        qed
      next
        fix d assume d: "d < length zs" "0 < d" "hparent d = c" "s < c"
        have "d \<noteq> pos" using hparent_less[OF d(2)] d(3) cp(4) by simp
        moreover have "s \<le> c" using d(4) by simp
        ultimately have "xs ! c \<le> xs ! d" using h(1)[of d] d(1-3) cp(4) by (simp add: zs_def)
        then show "zs ! hparent c \<le> zs ! d"
          using cp(2) \<open>d \<noteq> pos\<close> "1.prems"(3) by (simp add: zs_def)
      qed
      have bl: "below s c" by (rule below_child[OF "1.prems"(2) cp(2,3)])
      have IH: "length ys = length zs \<and> mset (ys[p := new]) = mset (zs[c := new]) \<and>
          heap_but (ys[p := new]) s p \<and> below s p \<and> p < length zs"
        using "1.IH"[OF True] hole bl cp(1) rec by (simp add: c_def zs_def)
      have z: "zs[c := new] = (xs[pos := new])[pos := (xs[pos := new]) ! c, c := (xs[pos := new]) ! pos]"
        using cp(4) "1.prems"(3) by (simp add: zs_def)
      have "mset (zs[c := new]) = mset (xs[pos := new])"
        unfolding z using cp(1) "1.prems"(3) by (intro mset_swap) simp_all
      then show ?thesis using IH by (simp add: zs_def)
    next
      case False
      then have yp: "ys = xs" "p = pos"
        using "1.prems"(4) by (auto simp: siftup_loop.simps[of xs pos])
      have "heap_but (xs[pos := new]) s pos"
        unfolding heap_but_def
      proof (intro conjI allI impI)
        fix j assume j: "j < length (xs[pos := new])" "0 < j" "s \<le> hparent j" "j \<noteq> pos"
        have "hparent j \<noteq> pos" using child_cases[of j pos] j(1,2) False by auto
        then show "xs[pos := new] ! hparent j \<le> xs[pos := new] ! j" using h(1)[of j] j by simp
      next
        fix c assume "c < length (xs[pos := new])" "0 < c" "hparent c = pos" "s < pos"
        then show "xs[pos := new] ! hparent pos \<le> xs[pos := new] ! c"
          using child_cases[of c pos] False by auto
      qed
      then show ?thesis using yp "1.prems"(2,3) by simp
    qed
  qed
  then show "length ys = length xs" "mset (ys[p := new]) = mset (xs[pos := new])"
    "heap_but (ys[p := new]) s p" "below s p" "p < length xs" by blast+
qed

lemma heap_siftup_ok:
  assumes "heap_from xs (Suc i)" "i < length xs"
  shows "length (heap_siftup xs i) = length xs" "mset (heap_siftup xs i) = mset xs"
    "heap_from (heap_siftup xs i) i"
proof -
  obtain ys p where l: "siftup_loop xs i = (ys, p)" by (metis surj_pair)
  have "heap_hole xs i i"
    unfolding heap_hole_def using assms(1) by (auto simp: heap_from_def)
  note up = siftup_loop_ok[OF this below_refl assms(2) l]
  note up2 = up(2)[of "xs ! i"] and up3 = up(3)[of "xs ! i"]
  note down = siftdown_loop_ok[OF up(4) _ up3]
  have "heap_siftup xs i = siftdown_loop ys i p (xs ! i)" by (simp add: heap_siftup_def l)
  then show "length (heap_siftup xs i) = length xs" "mset (heap_siftup xs i) = mset xs"
    "heap_from (heap_siftup xs i) i"
    using down up(1,5) up2 by simp_all
qed

lemma heapify_ok: "is_heap (heapify xs)" "mset (heapify xs) = mset xs" "length (heapify xs) = length xs"
proof -
  have "heap_from (fold (\<lambda>i ys. heap_siftup ys i) (rev [0..<k]) ys) 0 \<and>
      mset (fold (\<lambda>i ys. heap_siftup ys i) (rev [0..<k]) ys) = mset ys"
    if "heap_from ys k" "k \<le> length ys" for k and ys :: "'a list"
    using that
  proof (induction k arbitrary: ys)
    case (Suc k)
    have "k < length ys" using Suc.prems(2) by simp
    note s = heap_siftup_ok[OF Suc.prems(1) this]
    then show ?case using Suc.IH[OF s(3)] Suc.prems(2) by simp
  qed simp
  moreover have "heap_from xs (length xs div 2)"
    unfolding heap_from_def hparent_def by auto
  ultimately show "is_heap (heapify xs)" "mset (heapify xs) = mset xs"
    by (auto simp: heapify_def)
  then show "length (heapify xs) = length xs" by (metis size_mset)
qed

lemma heappush_ok:
  assumes "is_heap xs"
  shows "is_heap (heappush xs x)" "mset (heappush xs x) = add_mset x (mset xs)"
proof -
  let ?ys = "xs @ [x]"
  have "heap_but (?ys[length xs := ?ys ! length xs]) 0 (length xs)"
    unfolding heap_but_def list_update_id
  proof (intro conjI allI impI)
    fix j assume "j < length ?ys" "0 < j" "j \<noteq> length xs"
    then have "j < length xs" "hparent j < length xs" using hparent_less[of j] by auto
    then show "?ys ! hparent j \<le> ?ys ! j"
      using assms \<open>0 < j\<close> by (simp add: heap_from_def nth_append)
  next
    fix c assume "c < length ?ys" "0 < c" "hparent c = length xs"
    then show "?ys ! hparent (length xs) \<le> ?ys ! c" using hparent_less[of c] by simp
  qed
  note s = siftdown_loop_ok[OF below_zero _ this]
  show "is_heap (heappush xs x)" "mset (heappush xs x) = add_mset x (mset xs)"
    using s by (simp_all add: heappush_def heap_siftdown_def)
qed

lemma heap_root_least:
  assumes "is_heap xs" "j < length xs"
  shows "xs ! 0 \<le> xs ! j"
  using assms(2)
proof (induction j rule: less_induct)
  case (less j)
  show ?case
  proof (cases "j = 0")
    case False
    then have "xs ! 0 \<le> xs ! hparent j" using less hparent_less[of j] by simp
    also have "\<dots> \<le> xs ! j" using assms(1) less.prems False by (simp add: heap_from_def)
    finally show ?thesis .
  qed simp
qed

lemma heappop_ok:
  assumes "is_heap xs" "xs \<noteq> []"
  shows "\<exists>ys. heappop xs = Inr (xs ! 0, ys) \<and> is_heap ys \<and> mset xs = add_mset (xs ! 0) (mset ys)"
proof (cases "butlast xs")
  case Nil
  then have "xs = [last xs]" using assms(2) by (metis append_butlast_last_id append_Nil)
  then obtain x where "xs = [x]" by blast
  then show ?thesis by (simp add: heappop_def heap_from_def)
next
  case (Cons y ys)
  let ?zs = "(butlast xs)[0 := last xs]"
  have xs: "xs = y # ys @ [last xs]" using Cons assms(2) by (metis append_Cons append_butlast_last_id)
  have "heap_from ?zs (Suc 0)"
    unfolding heap_from_def
  proof (intro allI impI)
    fix j assume j: "j < length ?zs" "0 < j" "Suc 0 \<le> hparent j"
    then have "xs ! hparent j \<le> xs ! j" using assms(1) by (simp add: heap_from_def)
    then show "?zs ! hparent j \<le> ?zs ! j"
      using j hparent_less[of j] by (simp add: nth_butlast)
  qed
  note up = heap_siftup_ok[OF this]
  have ne: "0 < length ?zs" using Cons by simp
  have "heappop xs = Inr (y, heap_siftup ?zs 0)"
    using Cons assms(2) by (simp add: heappop_def)
  moreover have "mset xs = add_mset y (mset (heap_siftup ?zs 0))"
    using up(2)[OF ne] Cons by (subst xs) simp
  moreover have "xs ! 0 = y" by (subst xs) simp
  ultimately show ?thesis using up(3)[OF ne] by simp
qed

end
