(* ===== verification/Request_Queue.thy ===== *)
theory Request_Queue
  imports Interfaces Heapq Request_Data "HOL-Library.List_Lexorder" "HOL-Library.Char_ord"
begin

text \<open>
  \<^verbatim>\<open>vllm/v1/core/sched/request_queue.py\<close>: the first-come-first-served queue (a deque), the priority
  queue (a list kept by \<^verbatim>\<open>heapq\<close>) and \<open>create_request_queue\<close>.  The priority queue orders requests by
  \<open>Request.__lt__\<close> (\<^verbatim>\<open>vllm/v1/request.py\<close>); an element is represented by the four fields that order
  reads, which do not change while a request is queued.  Requests have no \<open>__eq__\<close>: equality is
  identity, which the last field (\<open>id(self)\<close>) carries.

  Both queues are interpreted as \<open>request_queue\<close>, the priority queue as \<open>ordered_queue\<close>.
\<close>

datatype req_key =
  ReqKey (rk_priority: int) (rk_arrival_time: rat) (rk_request_id: string) (rk_object: nat)

instantiation req_key :: linorder
begin

definition less_req_key :: "req_key \<Rightarrow> req_key \<Rightarrow> bool" where
  "less_req_key a b \<longleftrightarrow>
     (if rk_priority a \<noteq> rk_priority b then rk_priority a < rk_priority b
      else if rk_arrival_time a \<noteq> rk_arrival_time b then rk_arrival_time a < rk_arrival_time b
      else if rk_request_id a \<noteq> rk_request_id b then rk_request_id a < rk_request_id b
      else rk_object a < rk_object b)"

definition less_eq_req_key :: "req_key \<Rightarrow> req_key \<Rightarrow> bool" where
  "less_eq_req_key a b \<longleftrightarrow> a = b \<or> a < b"

instance
proof
  fix a b c :: req_key
  show lt: "(a < b) = (a \<le> b \<and> \<not> b \<le> a)"
    by (cases a; cases b) (auto simp: less_eq_req_key_def less_req_key_def split: if_splits)
  show "a \<le> a" by (simp add: less_eq_req_key_def)
  show "a \<le> b \<Longrightarrow> b \<le> c \<Longrightarrow> a \<le> c"
    by (cases a; cases b; cases c)
      (auto simp: less_eq_req_key_def less_req_key_def split: if_splits)
  show "a \<le> b \<Longrightarrow> b \<le> a \<Longrightarrow> a = b"
    by (cases a; cases b) (auto simp: less_eq_req_key_def less_req_key_def split: if_splits)
  show "a \<le> b \<or> b \<le> a"
    by (cases a; cases b) (auto simp: less_eq_req_key_def less_req_key_def)
qed

end

definition request_lt :: "request \<Rightarrow> request \<Rightarrow> bool" where
  "request_lt r s \<longleftrightarrow>
     (if priority r \<noteq> priority s then priority r < priority s
      else if arrival_time r \<noteq> arrival_time s then arrival_time r < arrival_time s
      else if request_id r \<noteq> request_id s then request_id r < request_id s
      else object_id r < object_id s)"

definition key_of :: "request \<Rightarrow> req_key" where
  "key_of r = ReqKey (priority r) (arrival_time r) (request_id r) (object_id r)"

lemma request_lt_key: "request_lt r s \<longleftrightarrow> key_of r < key_of s"
  by (simp add: request_lt_def key_of_def less_req_key_def)

subsection \<open>First come, first served\<close>

definition fcfs_add :: "'r list \<Rightarrow> 'r \<Rightarrow> 'r list" where
  "fcfs_add q r = q @ [r]"

definition fcfs_pop :: "'r list \<Rightarrow> ('r \<times> 'r list) res" where
  "fcfs_pop q = (case q of [] \<Rightarrow> Inl IndexError | r # rs \<Rightarrow> Inr (r, rs))"

definition fcfs_peek :: "'r list \<Rightarrow> 'r res" where
  "fcfs_peek q = (if q = [] then Inl IndexError else Inr (q ! 0))"

definition fcfs_prepend :: "'r list \<Rightarrow> 'r \<Rightarrow> 'r list" where
  "fcfs_prepend q r = r # q"

text \<open>\<open>extendleft\<close> puts the requests in one by one, so that they end up reversed.\<close>

definition fcfs_prepend_requests :: "'r list \<Rightarrow> 'r list \<Rightarrow> 'r list" where
  "fcfs_prepend_requests q rs = fold (\<lambda>r q. fcfs_prepend q r) rs q"

definition fcfs_remove :: "'r list \<Rightarrow> 'r \<Rightarrow> 'r list res" where
  "fcfs_remove q r = (if r \<in> set q then Inr (remove1 r q) else Inl ValueError)"

definition fcfs_remove_requests :: "'r list \<Rightarrow> 'r list \<Rightarrow> 'r list" where
  "fcfs_remove_requests q rs = filter (\<lambda>r. r \<notin> set rs) q"

definition fcfs_iter :: "'r list \<Rightarrow> 'r list" where
  "fcfs_iter q = q"

interpretation fcfs: request_queue "\<lambda>q. True" mset fcfs_add fcfs_pop fcfs_peek fcfs_prepend
proof unfold_locales
  fix q :: "'a list"
  show "mset q \<noteq> {#} \<Longrightarrow> \<exists>r q'. fcfs_pop q = Inr (r, q') \<and> fcfs_peek q = Inr r \<and> r \<in># mset q \<and>
      mset q' = mset q - {#r#} \<and> True"
    by (cases q) (auto simp: fcfs_pop_def fcfs_peek_def)
qed (auto simp: fcfs_add_def fcfs_prepend_def fcfs_pop_def fcfs_peek_def)


subsection \<open>Priority\<close>

definition pq_add :: "req_key list \<Rightarrow> req_key \<Rightarrow> req_key list" where
  "pq_add h r = heappush h r"

definition pq_pop :: "req_key list \<Rightarrow> (req_key \<times> req_key list) res" where
  "pq_pop h = (if h = [] then Inl IndexError else heappop h)"

definition pq_peek :: "req_key list \<Rightarrow> req_key res" where
  "pq_peek h = (if h = [] then Inl IndexError else Inr (h ! 0))"

definition pq_prepend :: "req_key list \<Rightarrow> req_key \<Rightarrow> req_key list" where
  "pq_prepend h r = pq_add h r"

definition pq_prepend_requests :: "req_key list \<Rightarrow> req_key list \<Rightarrow> req_key list" where
  "pq_prepend_requests h rs = fold (\<lambda>r h. pq_add h r) rs h"

definition pq_remove :: "req_key list \<Rightarrow> req_key \<Rightarrow> req_key list res" where
  "pq_remove h r = (if r \<in> set h then Inr (heapify (remove1 r h)) else Inl ValueError)"

definition pq_remove_requests :: "req_key list \<Rightarrow> req_key list \<Rightarrow> req_key list" where
  "pq_remove_requests h rs = heapify (filter (\<lambda>r. r \<notin> set rs) h)"

text \<open>\<open>__iter__\<close> pops from a copy until it is empty: as often as the heap is long.\<close>

fun pq_iter_loop :: "nat \<Rightarrow> req_key list \<Rightarrow> req_key list" where
  "pq_iter_loop 0 h = []"
| "pq_iter_loop (Suc n) h = (case heappop h of Inl e \<Rightarrow> [] | Inr (r, h') \<Rightarrow> r # pq_iter_loop n h')"

definition pq_iter :: "req_key list \<Rightarrow> req_key list" where
  "pq_iter h = pq_iter_loop (length h) h"

interpretation pq: ordered_queue "is_heap :: req_key list \<Rightarrow> bool" mset pq_add pq_pop pq_peek pq_prepend
proof unfold_locales
  fix q :: "req_key list" and r x q'
  assume h: "is_heap q"
  show "mset q \<noteq> {#} \<Longrightarrow> \<exists>r q'. pq_pop q = Inr (r, q') \<and> pq_peek q = Inr r \<and> r \<in># mset q \<and>
      mset q' = mset q - {#r#} \<and> is_heap q'"
    using heappop_ok[OF h] by (auto simp: pq_pop_def pq_peek_def)
  show "pq_pop q = Inr (r, q') \<Longrightarrow> x \<in># mset q \<Longrightarrow> r \<le> x"
    using heappop_ok[OF h] heap_root_least[OF h]
    by (auto simp: pq_pop_def in_set_conv_nth split: if_splits)
qed (auto simp: pq_add_def pq_prepend_def pq_pop_def pq_peek_def heappush_ok)

lemma pq_iter_drain: "pq_iter_loop n h = pq.drain n h"
  by (induction n arbitrary: h)
    (auto simp: pq_pop_def heappop_def split: sum.splits)

lemma pq_iter_sorted:
  assumes "is_heap h"
  shows "pq_iter h = sorted_list_of_multiset (mset h)"
proof -
  have "mset (pq_iter h) = mset h" "sorted (pq_iter h)"
    using pq.drain_all[OF assms] pq.drain_sorted[OF assms, of "length h"]
    by (simp_all add: pq_iter_def pq_iter_drain)
  then show ?thesis by (metis properties_for_sort sort_sorted_list_of_multiset_eq sorted_list_of_multiset_mset)
qed

lemma pq_prepend_requests_ok:
  assumes "is_heap h"
  shows "is_heap (pq_prepend_requests h rs)" "mset (pq_prepend_requests h rs) = mset h + mset rs"
proof -
  have "is_heap (fold (\<lambda>r h. pq_add h r) rs h) \<and> mset (fold (\<lambda>r h. pq_add h r) rs h) = mset h + mset rs"
    using assms by (induction rs arbitrary: h) (simp_all add: pq_add_def heappush_ok)
  then show "is_heap (pq_prepend_requests h rs)" "mset (pq_prepend_requests h rs) = mset h + mset rs"
    by (simp_all add: pq_prepend_requests_def)
qed

lemma pq_remove_ok:
  "pq_remove h r = Inr h' \<Longrightarrow> is_heap h' \<and> mset h' = mset h - {#r#}"
  by (auto simp: pq_remove_def heapify_ok split: if_splits)

lemma pq_remove_requests_ok:
  "is_heap (pq_remove_requests h rs)"
  "mset (pq_remove_requests h rs) = filter_mset (\<lambda>r. r \<notin> set rs) (mset h)"
  by (simp_all add: pq_remove_requests_def heapify_ok)

lemma fcfs_prepend_requests_rev: "fcfs_prepend_requests q rs = rev rs @ q"
  unfolding fcfs_prepend_requests_def by (induction rs arbitrary: q) (simp_all add: fcfs_prepend_def)


subsection \<open>The queue of a policy\<close>

datatype scheduling_policy = FCFS | PRIORITY

datatype rq = FCFSQueue "req_key list" | PriorityQueue "req_key list"

text \<open>The \<open>else\<close> branch of \<open>create_request_queue\<close> is unreachable: the policy is an enum of two.\<close>

definition create_request_queue :: "scheduling_policy \<Rightarrow> rq" where
  "create_request_queue pol = (case pol of PRIORITY \<Rightarrow> PriorityQueue [] | FCFS \<Rightarrow> FCFSQueue [])"

fun rq_add :: "rq \<Rightarrow> req_key \<Rightarrow> rq" where
  "rq_add (FCFSQueue q) r = FCFSQueue (fcfs_add q r)"
| "rq_add (PriorityQueue h) r = PriorityQueue (pq_add h r)"

fun rq_pop :: "rq \<Rightarrow> (req_key \<times> rq) res" where
  "rq_pop (FCFSQueue q) = rbind (fcfs_pop q) (\<lambda>(r, q'). Inr (r, FCFSQueue q'))"
| "rq_pop (PriorityQueue h) = rbind (pq_pop h) (\<lambda>(r, h'). Inr (r, PriorityQueue h'))"

fun rq_peek :: "rq \<Rightarrow> req_key res" where
  "rq_peek (FCFSQueue q) = fcfs_peek q"
| "rq_peek (PriorityQueue h) = pq_peek h"

fun rq_prepend :: "rq \<Rightarrow> req_key \<Rightarrow> rq" where
  "rq_prepend (FCFSQueue q) r = FCFSQueue (fcfs_prepend q r)"
| "rq_prepend (PriorityQueue h) r = PriorityQueue (pq_prepend h r)"

fun rq_iter :: "rq \<Rightarrow> req_key list" where
  "rq_iter (FCFSQueue q) = fcfs_iter q"
| "rq_iter (PriorityQueue h) = pq_iter h"

fun rq_prepend_requests :: "rq \<Rightarrow> rq \<Rightarrow> rq" where
  "rq_prepend_requests (FCFSQueue q) other = FCFSQueue (fcfs_prepend_requests q (rq_iter other))"
| "rq_prepend_requests (PriorityQueue h) other = PriorityQueue (pq_prepend_requests h (rq_iter other))"

fun rq_remove :: "rq \<Rightarrow> req_key \<Rightarrow> rq res" where
  "rq_remove (FCFSQueue q) r = rbind (fcfs_remove q r) (\<lambda>q'. Inr (FCFSQueue q'))"
| "rq_remove (PriorityQueue h) r = rbind (pq_remove h r) (\<lambda>h'. Inr (PriorityQueue h'))"

fun rq_remove_requests :: "rq \<Rightarrow> req_key list \<Rightarrow> rq" where
  "rq_remove_requests (FCFSQueue q) rs = FCFSQueue (fcfs_remove_requests q rs)"
| "rq_remove_requests (PriorityQueue h) rs = PriorityQueue (pq_remove_requests h rs)"

fun rq_len :: "rq \<Rightarrow> nat" where
  "rq_len (FCFSQueue q) = length q"
| "rq_len (PriorityQueue h) = length h"

fun rq_elems :: "rq \<Rightarrow> req_key multiset" where
  "rq_elems (FCFSQueue q) = mset q"
| "rq_elems (PriorityQueue h) = mset h"

fun rq_inv :: "rq \<Rightarrow> bool" where
  "rq_inv (FCFSQueue q) = True"
| "rq_inv (PriorityQueue h) = is_heap h"

interpretation rqs: request_queue rq_inv rq_elems rq_add rq_pop rq_peek rq_prepend
proof unfold_locales
  fix q :: rq and r :: req_key
  assume inv: "rq_inv q"
  show "rq_inv (rq_add q r)" "rq_inv (rq_prepend q r)"
    using inv by (cases q; simp add: pq.inv_add pq.inv_prepend)+
  show "rq_elems (rq_add q r) = add_mset r (rq_elems q)"
    "rq_elems (rq_prepend q r) = add_mset r (rq_elems q)"
    using inv by (cases q; simp add: pq.elems_add pq.elems_prepend fcfs.elems_add fcfs.elems_prepend)+
  show "rq_elems q = {#} \<Longrightarrow> rq_pop q = Inl IndexError" "rq_elems q = {#} \<Longrightarrow> rq_peek q = Inl IndexError"
    using inv by (cases q; simp add: fcfs_pop_def fcfs_peek_def pq_pop_def pq_peek_def)+
  assume ne: "rq_elems q \<noteq> {#}"
  show "\<exists>r q'. rq_pop q = Inr (r, q') \<and> rq_peek q = Inr r \<and> r \<in># rq_elems q \<and>
      rq_elems q' = rq_elems q - {#r#} \<and> rq_inv q'"
  proof (cases q)
    case (FCFSQueue xs)
    then obtain r q' where "fcfs_pop xs = Inr (r, q')" "fcfs_peek xs = Inr r" "r \<in># mset xs"
      "mset q' = mset xs - {#r#}" using fcfs.pop_some[of xs] ne by auto
    then show ?thesis using FCFSQueue by (intro exI[of _ r] exI[of _ "FCFSQueue q'"]) simp
  next
    case (PriorityQueue h)
    then obtain r q' where "pq_pop h = Inr (r, q')" "pq_peek h = Inr r" "r \<in># mset h"
      "mset q' = mset h - {#r#}" "is_heap q'" using pq.pop_some[of h] ne inv by auto
    then show ?thesis using PriorityQueue by (intro exI[of _ r] exI[of _ "PriorityQueue q'"]) simp
  qed
qed

lemma rq_iter_elems: "rq_inv q \<Longrightarrow> mset (rq_iter q) = rq_elems q"
  by (cases q) (simp_all add: fcfs_iter_def pq_iter_sorted)

lemma rq_prepend_requests_ok:
  assumes "rq_inv q" "rq_inv other"
  shows "rq_inv (rq_prepend_requests q other)"
    "rq_elems (rq_prepend_requests q other) = rq_elems q + rq_elems other"
  using assms(1) rq_iter_elems[OF assms(2)]
  by (cases q; simp add: fcfs_prepend_requests_rev pq_prepend_requests_ok)+

end
