(* ===== verification/Encoder_Cache.thy ===== *)
theory Encoder_Cache
  imports Request_Data "HOL-Library.AList"
begin

text \<open>
  \<^verbatim>\<open>vllm/v1/core/encoder_cache_manager.py\<close>: \<open>EncoderCacheManager\<close>, \<open>EncoderDecoderCacheManager\<close> and
  \<open>compute_mm_encoder_budget\<close>.  Python sets of request ids and input ids are lists without
  repetitions (\<open>set_add\<close>); the ordered dictionary \<open>freeable\<close> is an association list, oldest first.

  The invariant \<open>encoder_ok\<close> ties the two slot counters to the entries; under it no operation of
  the manager raises, and eviction never takes a referenced entry.
\<close>

record encoder_cache =
  ec_cache_size :: int
  num_free_slots :: int
  num_freeable_slots :: int
  ec_cached :: "string \<rightharpoonup> string list"
  request_cached_ids :: "string \<rightharpoonup> nat list"
  ec_freeable :: "(string \<times> int) list"
  ec_freed :: "string list"

definition ec_init :: "int \<Rightarrow> encoder_cache" where
  "ec_init n = \<lparr>ec_cache_size = n, num_free_slots = n, num_freeable_slots = n, ec_cached = Map.empty,
     request_cached_ids = Map.empty, ec_freeable = [], ec_freed = []\<rparr>"

definition ec_reset :: "encoder_cache \<Rightarrow> encoder_cache" where
  "ec_reset c = c\<lparr>ec_cached := Map.empty, request_cached_ids := Map.empty, ec_freeable := [],
     ec_freed := [], num_free_slots := ec_cache_size c, num_freeable_slots := ec_cache_size c\<rparr>"

definition input_hash :: "request \<Rightarrow> nat \<Rightarrow> string res" where
  "input_hash r i = rbind (py_nth (mm_features r) (int i)) (\<lambda>f. Inr (mm_identifier f))"

definition add_cached_id :: "request \<Rightarrow> nat \<Rightarrow> encoder_cache \<Rightarrow> encoder_cache" where
  "add_cached_id r i c =
     c\<lparr>request_cached_ids := (request_cached_ids c)(request_id r \<mapsto>
          set_add i (opt_list (request_cached_ids c (request_id r))))\<rparr>"

definition check_and_update_cache ::
  "request \<Rightarrow> nat \<Rightarrow> encoder_cache \<Rightarrow> (bool \<times> encoder_cache) res" where
  "check_and_update_cache r i c =
     rbind (input_hash r i) (\<lambda>h.
       case ec_cached c h of
         None \<Rightarrow> Inr (False, c)
       | Some ids \<Rightarrow>
           rbind (if ids = []
                  then (case map_of (ec_freeable c) h of
                          None \<Rightarrow> Inl KeyError
                        | Some n \<Rightarrow> Inr (c\<lparr>ec_freeable := AList.delete h (ec_freeable c),
                                          num_freeable_slots := num_freeable_slots c - n\<rparr>))
                  else Inr c)
             (\<lambda>c1. Inr (True, add_cached_id r i
                (c1\<lparr>ec_cached := (ec_cached c1)(h \<mapsto> set_add (request_id r) ids)\<rparr>))))"

text \<open>The eviction loop of \<open>can_allocate\<close>; \<open>fs\<close> is what is left of \<open>freeable\<close>.\<close>

fun evict_loop :: "int \<Rightarrow> (string \<times> int) list \<Rightarrow> encoder_cache \<Rightarrow> encoder_cache res" where
  "evict_loop n [] c = (if n > num_free_slots c then Inl KeyError else Inr (c\<lparr>ec_freeable := []\<rparr>))"
| "evict_loop n ((h, k) # fs) c =
     (if n > num_free_slots c
      then (case ec_cached c h of
              None \<Rightarrow> Inl KeyError
            | Some _ \<Rightarrow> evict_loop n fs (c\<lparr>ec_cached := (ec_cached c)(h := None),
                          ec_freed := ec_freed c @ [h], num_free_slots := num_free_slots c + k\<rparr>))
      else Inr (c\<lparr>ec_freeable := (h, k) # fs\<rparr>))"

definition can_allocate ::
  "request \<Rightarrow> nat \<Rightarrow> int \<Rightarrow> int \<Rightarrow> encoder_cache \<Rightarrow> (bool \<times> encoder_cache) res" where
  "can_allocate r i budget to_schedule c =
     rbind (get_num_encoder_embeds r i) (\<lambda>n.
       if n > budget then Inr (False, c)
       else
         let need = n + to_schedule in
         if need \<le> num_free_slots c then Inr (True, c)
         else if need > num_freeable_slots c then Inr (False, c)
         else rbind (evict_loop need (ec_freeable c) c) (\<lambda>c'. Inr (True, c')))"

definition allocate :: "request \<Rightarrow> nat \<Rightarrow> encoder_cache \<Rightarrow> encoder_cache res" where
  "allocate r i c =
     rbind (input_hash r i) (\<lambda>h.
       let c1 = (if ec_cached c h = None then c\<lparr>ec_cached := (ec_cached c)(h \<mapsto> [])\<rparr> else c) in
       rbind (get_num_encoder_embeds r i) (\<lambda>n.
       rbind (guard AssertionError (num_free_slots c1 \<ge> n)) (\<lambda>_.
       rbind (guard AssertionError (num_freeable_slots c1 \<ge> n)) (\<lambda>_.
         let c2 = add_cached_id r i (c1\<lparr>ec_cached := (ec_cached c1)(h \<mapsto>
                    set_add (request_id r) (opt_list (ec_cached c1 h)))\<rparr>)
         in Inr (c2\<lparr>num_free_slots := num_free_slots c2 - n,
                    num_freeable_slots := num_freeable_slots c2 - n\<rparr>)))))"

definition get_cached_input_ids :: "request \<Rightarrow> encoder_cache \<Rightarrow> nat list" where
  "get_cached_input_ids r c = opt_list (request_cached_ids c (request_id r))"

definition drop_cached_id :: "request \<Rightarrow> nat \<Rightarrow> encoder_cache \<Rightarrow> encoder_cache" where
  "drop_cached_id r i c =
     (case request_cached_ids c (request_id r) of
        None \<Rightarrow> c
      | Some ids \<Rightarrow>
          let ids' = removeAll i ids
          in c\<lparr>request_cached_ids :=
                 (request_cached_ids c)(request_id r := (if ids' = [] then None else Some ids'))\<rparr>)"

definition free_encoder_input :: "request \<Rightarrow> nat \<Rightarrow> encoder_cache \<Rightarrow> encoder_cache res" where
  "free_encoder_input r i c =
     rbind (input_hash r i) (\<lambda>h.
       let c1 = drop_cached_id r i c in
       case ec_cached c1 h of
         None \<Rightarrow> Inr c1
       | Some ids \<Rightarrow>
           if ids = [] then Inr c1
           else
             let ids' = removeAll (request_id r) ids;
                 c2 = c1\<lparr>ec_cached := (ec_cached c1)(h \<mapsto> ids')\<rparr>
             in if ids' = []
                then rbind (get_num_encoder_embeds r i) (\<lambda>n.
                       Inr (c2\<lparr>ec_freeable := AList.update h n (ec_freeable c2),
                               num_freeable_slots := num_freeable_slots c2 + n\<rparr>))
                else Inr c2)"

definition ec_free :: "request \<Rightarrow> encoder_cache \<Rightarrow> encoder_cache res" where
  "ec_free r c = rfold (free_encoder_input r) (get_cached_input_ids r c) c"

definition get_freed_mm_hashes :: "encoder_cache \<Rightarrow> string list \<times> encoder_cache" where
  "get_freed_mm_hashes c = (ec_freed c, c\<lparr>ec_freed := []\<rparr>)"


subsection \<open>The manager of encoder-decoder models\<close>

record encdec_cache =
  ed_cache_size :: int
  ed_num_free_slots :: int
  ed_allocated :: "string list"
  ed_to_free :: "string list"

definition ed_init :: "int \<Rightarrow> encdec_cache" where
  "ed_init n = \<lparr>ed_cache_size = n, ed_num_free_slots = n, ed_allocated = [], ed_to_free = []\<rparr>"

definition ed_reset :: "encdec_cache \<Rightarrow> encdec_cache" where
  "ed_reset c = c\<lparr>ed_num_free_slots := ed_cache_size c, ed_allocated := [], ed_to_free := []\<rparr>"

definition ed_check_and_update_cache :: "request \<Rightarrow> nat \<Rightarrow> encdec_cache \<Rightarrow> bool" where
  "ed_check_and_update_cache r i c = False"

definition ed_can_allocate :: "request \<Rightarrow> nat \<Rightarrow> int \<Rightarrow> int \<Rightarrow> encdec_cache \<Rightarrow> bool res" where
  "ed_can_allocate r i budget to_schedule c =
     rbind (get_num_encoder_embeds r i) (\<lambda>n.
       if n > budget then Inr False else Inr (n + to_schedule \<le> ed_num_free_slots c))"

definition ed_allocate :: "request \<Rightarrow> nat \<Rightarrow> encdec_cache \<Rightarrow> encdec_cache res" where
  "ed_allocate r i c =
     rbind (get_num_encoder_embeds r i) (\<lambda>n.
     rbind (input_hash r i) (\<lambda>h.
       Inr (c\<lparr>ed_num_free_slots := ed_num_free_slots c - n, ed_allocated := ed_allocated c @ [h]\<rparr>)))"

definition ed_free_encoder_input :: "request \<Rightarrow> nat \<Rightarrow> encdec_cache \<Rightarrow> encdec_cache res" where
  "ed_free_encoder_input r i c =
     rbind (get_num_encoder_embeds r i) (\<lambda>n.
       Inr (c\<lparr>ed_num_free_slots := ed_num_free_slots c + n\<rparr>))"

definition ed_free :: "request \<Rightarrow> encdec_cache \<Rightarrow> encdec_cache res" where
  "ed_free r c = rfold (ed_free_encoder_input r) [0..<length (mm_features r)] c"

definition ed_get_cached_input_ids :: "request \<Rightarrow> nat list" where
  "ed_get_cached_input_ids r = [0..<length (mm_features r)]"

definition ed_get_freed_mm_hashes :: "encdec_cache \<Rightarrow> string list \<times> encdec_cache" where
  "ed_get_freed_mm_hashes c = (ed_to_free c, c\<lparr>ed_to_free := ed_allocated c, ed_allocated := []\<rparr>)"


subsection \<open>\<open>compute_mm_encoder_budget\<close>\<close>

record encoder_config =
  disable_chunked_mm_input :: bool
  ecfg_max_num_batched_tokens :: int
  max_num_encoder_input_tokens :: int
  ecfg_encoder_cache_size :: int

definition compute_mm_encoder_budget :: "encoder_config \<Rightarrow> (string \<times> int) list \<Rightarrow> (int \<times> int) res" where
  "compute_mm_encoder_budget cfg toks =
     (if toks = [] then Inr (0, 0)
      else
        let m = Max (snd ` set toks) in
        if disable_chunked_mm_input cfg \<and> m > ecfg_max_num_batched_tokens cfg then Inl ValueError
        else Inr (max (max_num_encoder_input_tokens cfg) m, max (ecfg_encoder_cache_size cfg) m))"


subsection \<open>The invariant\<close>

definition referenced :: "encoder_cache \<Rightarrow> string set" where
  "referenced c = {h. \<exists>x xs. ec_cached c h = Some (x # xs)}"

definition unreferenced :: "encoder_cache \<Rightarrow> string set" where
  "unreferenced c = {h. ec_cached c h = Some []}"

text \<open>\<open>sz\<close> gives the number of embeddings of each multi-modal item by its hash.\<close>

definition encoder_ok :: "(string \<Rightarrow> int) \<Rightarrow> encoder_cache \<Rightarrow> bool" where
  "encoder_ok sz c \<longleftrightarrow>
     (\<forall>h. 0 \<le> sz h) \<and> finite (referenced c) \<and>
     distinct (map fst (ec_freeable c)) \<and>
     set (ec_freeable c) = (\<lambda>h. (h, sz h)) ` unreferenced c \<and>
     num_freeable_slots c = ec_cache_size c - sum sz (referenced c) \<and>
     num_free_slots c = num_freeable_slots c - sum_list (map snd (ec_freeable c)) \<and>
     0 \<le> num_free_slots c"

definition input_ok :: "(string \<Rightarrow> int) \<Rightarrow> request \<Rightarrow> nat \<Rightarrow> bool" where
  "input_ok sz r i \<longleftrightarrow> i < length (mm_features r) \<and>
     get_num_embeds (mm_features r ! i) = sz (mm_identifier (mm_features r ! i))"

definition hash_at :: "request \<Rightarrow> nat \<Rightarrow> string" where
  "hash_at r i = mm_identifier (mm_features r ! i)"

lemma input_okD:
  assumes "input_ok sz r i"
  shows "input_hash r i = Inr (hash_at r i)" "get_num_encoder_embeds r i = Inr (sz (hash_at r i))"
  using assms by (simp_all add: input_ok_def input_hash_def hash_at_def get_num_encoder_embeds_def)

lemma encoder_okD:
  assumes "encoder_ok sz c"
  shows "0 \<le> sz h" "finite (referenced c)" "distinct (map fst (ec_freeable c))"
    "set (ec_freeable c) = (\<lambda>h. (h, sz h)) ` unreferenced c"
    "num_freeable_slots c = ec_cache_size c - sum sz (referenced c)"
    "num_free_slots c = num_freeable_slots c - sum_list (map snd (ec_freeable c))"
    "0 \<le> num_free_slots c"
  using assms unfolding encoder_ok_def by blast+

lemma freeable_lookup:
  assumes "encoder_ok sz c"
  shows "map_of (ec_freeable c) h = (if ec_cached c h = Some [] then Some (sz h) else None)"
proof (cases "ec_cached c h = Some []")
  case True
  then have "(h, sz h) \<in> set (ec_freeable c)"
    unfolding encoder_okD(4)[OF assms] unreferenced_def by blast
  then show ?thesis using True encoder_okD(3)[OF assms] by simp
next
  case False
  then have "h \<notin> fst ` set (ec_freeable c)"
    unfolding encoder_okD(4)[OF assms] unreferenced_def by auto
  then show ?thesis using False by (simp add: map_of_eq_None_iff)
qed

lemma sum_list_delete:
  fixes d :: "(string \<times> int) list"
  assumes "distinct (map fst d)" "map_of d h = Some n"
  shows "sum_list (map snd (AList.delete h d)) = sum_list (map snd d) - n"
  using assms
proof (induction d)
  case (Cons p d)
  show ?case
  proof (cases "fst p = h")
    case True
    then have "AList.delete h d = d" using Cons.prems(1) by (simp add: delete_idem)
    then show ?thesis using True Cons.prems(2) by (cases p) (simp add: AList.delete_eq)
  next
    case False
    then show ?thesis using Cons by (cases p) (simp add: AList.delete_eq)
  qed
qed simp

lemma alist_update_new: "k \<notin> fst ` set d \<Longrightarrow> AList.update k v d = d @ [(k, v)]"
  by (induction d) auto

text \<open>Fields that bookkeeping of input ids does not touch.\<close>

lemma id_ops_simps [simp]:
  "ec_cached (add_cached_id r i c) = ec_cached c" "ec_cached (drop_cached_id r i c) = ec_cached c"
  "ec_freeable (add_cached_id r i c) = ec_freeable c" "ec_freeable (drop_cached_id r i c) = ec_freeable c"
  "num_free_slots (add_cached_id r i c) = num_free_slots c"
  "num_free_slots (drop_cached_id r i c) = num_free_slots c"
  "num_freeable_slots (add_cached_id r i c) = num_freeable_slots c"
  "num_freeable_slots (drop_cached_id r i c) = num_freeable_slots c"
  "ec_cache_size (add_cached_id r i c) = ec_cache_size c"
  "ec_cache_size (drop_cached_id r i c) = ec_cache_size c"
  "ec_freed (add_cached_id r i c) = ec_freed c" "ec_freed (drop_cached_id r i c) = ec_freed c"
  by (simp_all add: add_cached_id_def drop_cached_id_def Let_def split: option.split)

lemma encoder_ok_cong:
  assumes "ec_cached c' = ec_cached c" "ec_freeable c' = ec_freeable c"
    "num_free_slots c' = num_free_slots c" "num_freeable_slots c' = num_freeable_slots c"
    "ec_cache_size c' = ec_cache_size c"
  shows "encoder_ok sz c' = encoder_ok sz c"
  by (simp add: encoder_ok_def referenced_def unreferenced_def assms)

lemma encoder_ok_ids [simp]:
  "encoder_ok sz (add_cached_id r i c) = encoder_ok sz c"
  "encoder_ok sz (drop_cached_id r i c) = encoder_ok sz c"
  by (rule encoder_ok_cong; simp)+

text \<open>How the reference sets change an entry's class.\<close>

lemma referenced_upd:
  "ec_cached c' = (ec_cached c)(h \<mapsto> ids) \<Longrightarrow>
     referenced c' = (if ids = [] then referenced c - {h} else insert h (referenced c))"
  "ec_cached c' = (ec_cached c)(h \<mapsto> ids) \<Longrightarrow>
     unreferenced c' = (if ids = [] then insert h (unreferenced c) else unreferenced c - {h})"
  by (cases ids; auto simp: referenced_def unreferenced_def)+

lemma check_and_update_ok:
  assumes "encoder_ok sz c" "input_ok sz r i"
  shows "\<exists>c'. check_and_update_cache r i c = Inr (ec_cached c (hash_at r i) \<noteq> None, c') \<and>
    encoder_ok sz c' \<and> (ec_cached c (hash_at r i) = None \<longrightarrow> c' = c) \<and>
    (ec_cached c (hash_at r i) \<noteq> None \<longrightarrow> hash_at r i \<in> referenced c' \<and> i \<in> set (get_cached_input_ids r c'))"
proof (cases "ec_cached c (hash_at r i)")
  case None
  then show ?thesis using assms by (simp add: check_and_update_cache_def input_okD)
next
  case (Some ids)
  let ?h = "hash_at r i"
  note d = encoder_okD[OF assms(1)]
  define c1 where "c1 = (if ids = [] then c\<lparr>ec_freeable := AList.delete ?h (ec_freeable c),
      num_freeable_slots := num_freeable_slots c - sz ?h\<rparr> else c)"
  define c2 where "c2 = c1\<lparr>ec_cached := (ec_cached c1)(?h \<mapsto> set_add (request_id r) ids)\<rparr>"
  have run: "check_and_update_cache r i c = Inr (True, add_cached_id r i c2)"
    using assms Some freeable_lookup[OF assms(1), of ?h]
    by (simp add: check_and_update_cache_def input_okD c2_def c1_def)
  have up: "ec_cached c2 = (ec_cached c)(?h \<mapsto> set_add (request_id r) ids)"
    by (simp add: c2_def c1_def)
  note ru = referenced_upd[OF up, simplified]
  have ok: "encoder_ok sz c2"
  proof (cases "ids = []")
    case True
    have nr: "?h \<notin> referenced c" using Some True by (simp add: referenced_def)
    have fl: "map_of (ec_freeable c) ?h = Some (sz ?h)" using freeable_lookup[OF assms(1)] Some True by simp
    have "set (ec_freeable c2) = (\<lambda>h. (h, sz h)) ` unreferenced c2"
      unfolding ru(2) using d(4) True by (auto simp: c2_def c1_def AList.delete_eq)
    moreover have "sum_list (map snd (ec_freeable c2)) = sum_list (map snd (ec_freeable c)) - sz ?h"
      using sum_list_delete[OF d(3) fl] True by (simp add: c2_def c1_def)
    moreover have "sum sz (referenced c2) = sz ?h + sum sz (referenced c)"
      unfolding ru(1) using d(2) nr by simp
    moreover have "distinct (map fst (ec_freeable c2))"
      using d(3) True by (simp add: c2_def c1_def distinct_delete)
    ultimately show ?thesis
      using d True ru(1) unfolding encoder_ok_def by (simp add: c2_def c1_def)
  next
    case False
    then have "?h \<in> referenced c" "?h \<notin> unreferenced c"
      using Some by (auto simp: referenced_def unreferenced_def neq_Nil_conv)
    then have "referenced c2 = referenced c" "unreferenced c2 = unreferenced c" using ru by auto
    then show ?thesis using d False unfolding encoder_ok_def by (simp add: c2_def c1_def)
  qed
  have "?h \<in> referenced (add_cached_id r i c2)" using ru(1) by (simp add: referenced_def)
  moreover have "i \<in> set (get_cached_input_ids r (add_cached_id r i c2))"
    by (simp add: get_cached_input_ids_def add_cached_id_def opt_list_def)
  ultimately show ?thesis using run ok Some by simp
qed

lemma evict_loop_freeable: "evict_loop n fs (e\<lparr>ec_freeable := gs\<rparr>) = evict_loop n fs e"
proof (induction fs arbitrary: e)
  case (Cons p fs)
  obtain h k where p: "p = (h, k)" by (metis surj_pair)
  let ?e = "e\<lparr>ec_cached := (ec_cached e)(h := None), ec_freed := ec_freed e @ [h],
      num_free_slots := num_free_slots e + k\<rparr>"
  have eq: "e\<lparr>ec_freeable := gs, ec_cached := (ec_cached e)(h := None), ec_freed := ec_freed e @ [h],
      num_free_slots := num_free_slots e + k\<rparr> = ?e\<lparr>ec_freeable := gs\<rparr>" by simp
  show ?case using Cons.IH[of ?e, folded eq] by (simp add: p split: option.split)
qed simp

lemma evict_loop_ok:
  assumes "encoder_ok sz c" "ec_freeable c = fs" "n \<le> num_freeable_slots c"
  shows "\<exists>c' es. evict_loop n fs c = Inr c' \<and> encoder_ok sz c' \<and> n \<le> num_free_slots c' \<and>
    fs = es @ ec_freeable c' \<and> ec_freed c' = ec_freed c @ map fst es \<and>
    referenced c' = referenced c \<and> num_freeable_slots c' = num_freeable_slots c"
  using assms
proof (induction fs arbitrary: c)
  case Nil
  then have le: "n \<le> num_free_slots c" using encoder_okD(6)[OF Nil(1)] by simp
  then have "evict_loop n [] c = Inr c" using Nil(2) by simp
  then show ?case using le Nil by (intro exI[of _ c] exI[of _ "[]"]) simp
next
  case (Cons p fs)
  obtain h k where p: "p = (h, k)" by (metis surj_pair)
  note d = encoder_okD[OF Cons.prems(1)]
  show ?case
  proof (cases "n > num_free_slots c")
    case False
    then have "evict_loop n (p # fs) c = Inr c" using Cons.prems(2) p by simp
    then show ?thesis using False Cons.prems by (intro exI[of _ c] exI[of _ "[]"]) simp
  next
    case True
    have "(h, k) \<in> (\<lambda>h. (h, sz h)) ` unreferenced c"
      using d(4) Cons.prems(2) p by auto
    then have hk: "k = sz h" "ec_cached c h = Some []" by (auto simp: unreferenced_def)
    define c1 where "c1 = c\<lparr>ec_cached := (ec_cached c)(h := None),
        ec_freed := ec_freed c @ [h], num_free_slots := num_free_slots c + k\<rparr>"
    have un: "unreferenced c1 = unreferenced c - {h}" and re: "referenced c1 = referenced c"
      using hk by (auto simp: c1_def unreferenced_def referenced_def)
    have hn: "h \<notin> fst ` set fs" using d(3) Cons.prems(2) p by simp
    have "set fs = set (p # fs) - {p}" using hn p by force
    then have sf: "set fs = (\<lambda>h. (h, sz h)) ` unreferenced c1"
      using d(4) Cons.prems(2) p hk(1) unfolding un by auto
    define c2 where "c2 = c1\<lparr>ec_freeable := fs\<rparr>"
    have r2: "referenced c2 = referenced c" "unreferenced c2 = unreferenced c1"
      using re by (simp_all add: c2_def referenced_def unreferenced_def)
    have "0 \<le> num_free_slots c2" using d(7) d(1)[of h] hk(1) by (simp add: c2_def c1_def)
    moreover have "num_free_slots c2 = num_freeable_slots c2 - sum_list (map snd fs)"
      using d(6) Cons.prems(2) p by (simp add: c2_def c1_def)
    moreover have "distinct (map fst fs)" using d(3) Cons.prems(2) by simp
    ultimately have "encoder_ok sz c2"
      using d(1,2,5) sf unfolding encoder_ok_def r2 by (simp add: c2_def c1_def)
    moreover have "n \<le> num_freeable_slots c2" using Cons.prems(3) by (simp add: c2_def c1_def)
    ultimately obtain c' es where IH: "evict_loop n fs c2 = Inr c'" "encoder_ok sz c'"
      "n \<le> num_free_slots c'" "fs = es @ ec_freeable c'" "ec_freed c' = ec_freed c2 @ map fst es"
      "referenced c' = referenced c2" "num_freeable_slots c' = num_freeable_slots c2"
      using Cons.IH[of c2] by (auto simp: c2_def)
    have "evict_loop n (p # fs) c = Inr c'"
      using True p hk(2) IH(1) evict_loop_freeable[where e = c1 and gs = fs and fs = fs and n = n] by (simp add: c1_def[symmetric] c2_def)
    then show ?thesis
      using IH(2-7) p re by (intro exI[of _ c'] exI[of _ "p # es"]) (simp add: c2_def c1_def referenced_def)
  qed
qed

lemma can_allocate_ok:
  assumes "encoder_ok sz c" "input_ok sz r i"
  shows "\<exists>ok c' es. can_allocate r i budget k c = Inr (ok, c') \<and> encoder_ok sz c' \<and>
    (ok \<longleftrightarrow> sz (hash_at r i) \<le> budget \<and> sz (hash_at r i) + k \<le> num_freeable_slots c \<or>
            sz (hash_at r i) \<le> budget \<and> sz (hash_at r i) + k \<le> num_free_slots c) \<and>
    (ok \<longrightarrow> sz (hash_at r i) + k \<le> num_free_slots c') \<and>
    ec_freeable c = es @ ec_freeable c' \<and> ec_freed c' = ec_freed c @ map fst es \<and>
    referenced c' = referenced c"
proof -
  let ?n = "sz (hash_at r i)"
  show ?thesis
  proof (cases "?n \<le> budget \<and> \<not> ?n + k \<le> num_free_slots c \<and> ?n + k \<le> num_freeable_slots c")
    case True
    then obtain c' es where "evict_loop (?n + k) (ec_freeable c) c = Inr c'" "encoder_ok sz c'"
      "?n + k \<le> num_free_slots c'" "ec_freeable c = es @ ec_freeable c'"
      "ec_freed c' = ec_freed c @ map fst es" "referenced c' = referenced c"
      using evict_loop_ok[OF assms(1) refl, of "?n + k"] by blast
    moreover from this(1) have "can_allocate r i budget k c = Inr (True, c')"
      using True by (simp add: can_allocate_def input_okD[OF assms(2)])
    ultimately show ?thesis using True by blast
  next
    case False
    then show ?thesis
      using assms(1)
      by (intro exI[of _ "?n \<le> budget \<and> ?n + k \<le> num_free_slots c"] exI[of _ c] exI[of _ "[]"])
        (auto simp: can_allocate_def input_okD[OF assms(2)] Let_def)
  qed
qed

lemma allocate_ok:
  assumes "encoder_ok sz c" "input_ok sz r i" "ec_cached c (hash_at r i) = None"
    and "sz (hash_at r i) \<le> num_free_slots c"
  shows "\<exists>c'. allocate r i c = Inr c' \<and> encoder_ok sz c' \<and> referenced c' = insert (hash_at r i) (referenced c) \<and>
    num_free_slots c' = num_free_slots c - sz (hash_at r i) \<and> i \<in> set (get_cached_input_ids r c')"
proof -
  let ?h = "hash_at r i"
  note d = encoder_okD[OF assms(1)]
  have "sum_list (map snd (ec_freeable c)) \<ge> 0"
    using d(1,4) by (intro sum_list_nonneg) auto
  then have fr: "sz ?h \<le> num_freeable_slots c" using assms(4) d(6) by simp
  define c1 where "c1 = c\<lparr>ec_cached := (ec_cached c)(?h \<mapsto> [request_id r]),
      num_free_slots := num_free_slots c - sz ?h, num_freeable_slots := num_freeable_slots c - sz ?h\<rparr>"
  have run: "allocate r i c = Inr (add_cached_id r i c1)"
    using assms(3,4) fr
    by (simp add: allocate_def input_okD[OF assms(2)] c1_def add_cached_id_def)
  have "ec_cached c1 = (ec_cached c)(?h \<mapsto> [request_id r])" by (simp add: c1_def)
  note ru = referenced_upd[OF this, simplified]
  have nu: "?h \<notin> referenced c" "?h \<notin> unreferenced c"
    using assms(3) by (auto simp: referenced_def unreferenced_def)
  then have "unreferenced c1 = unreferenced c" using ru(2) by simp
  moreover have "sum sz (referenced c1) = sz ?h + sum sz (referenced c)" using ru(1) nu(1) d(2) by simp
  ultimately have "encoder_ok sz c1"
    using d assms(4) ru(1) unfolding encoder_ok_def by (simp add: c1_def)
  moreover have "referenced (add_cached_id r i c1) = insert ?h (referenced c)"
    using ru(1) by (simp add: referenced_def)
  moreover have "i \<in> set (get_cached_input_ids r (add_cached_id r i c1))"
    by (simp add: get_cached_input_ids_def add_cached_id_def opt_list_def)
  ultimately show ?thesis using run by (simp add: c1_def)
qed

lemma free_encoder_input_ok:
  assumes "encoder_ok sz c" "input_ok sz r i"
  shows "\<exists>c'. free_encoder_input r i c = Inr c' \<and> encoder_ok sz c' \<and> num_free_slots c' = num_free_slots c \<and>
    dom (ec_cached c') = dom (ec_cached c) \<and> i \<notin> set (get_cached_input_ids r c')"
proof -
  let ?h = "hash_at r i" and ?c = "drop_cached_id r i c"
  note d = encoder_okD[OF assms(1)]
  have ni: "i \<notin> set (get_cached_input_ids r c')" if "request_cached_ids c' = request_cached_ids ?c" for c'
    by (simp add: get_cached_input_ids_def that drop_cached_id_def Let_def opt_list_def split: option.split)
  show ?thesis
  proof (cases "ec_cached c ?h = None \<or> ec_cached c ?h = Some []")
    case True
    then have "free_encoder_input r i c = Inr ?c"
      by (auto simp: free_encoder_input_def input_okD[OF assms(2)])
    then show ?thesis using assms(1) ni by simp
  next
    case False
    then obtain ids where ids: "ec_cached c ?h = Some ids" "ids \<noteq> []" by auto
    let ?ids = "removeAll (request_id r) ids"
    define c2 where "c2 = ?c\<lparr>ec_cached := (ec_cached c)(?h \<mapsto> ?ids)\<rparr>"
    have up: "ec_cached c2 = (ec_cached c)(?h \<mapsto> ?ids)" by (simp add: c2_def)
    have hr: "?h \<in> referenced c" "?h \<notin> unreferenced c"
      using ids by (auto simp: referenced_def unreferenced_def neq_Nil_conv)
    show ?thesis
    proof (cases "?ids = []")
      case False
      then have "free_encoder_input r i c = Inr c2"
        using ids by (simp add: free_encoder_input_def input_okD[OF assms(2)] c2_def)
      moreover have "referenced c2 = referenced c" "unreferenced c2 = unreferenced c"
        using referenced_upd[OF up] False hr by auto
      then have "encoder_ok sz c2" using d unfolding encoder_ok_def by (simp add: c2_def)
      moreover have "dom (ec_cached c2) = dom (ec_cached c)" using ids(1) by (auto simp: up)
      ultimately show ?thesis using ni[of c2] by (simp add: c2_def)
    next
      case True
      define c3 where "c3 = c2\<lparr>ec_freeable := AList.update ?h (sz ?h) (ec_freeable c),
          num_freeable_slots := num_freeable_slots c + sz ?h\<rparr>"
      have "free_encoder_input r i c = Inr c3"
        using ids True by (simp add: free_encoder_input_def input_okD[OF assms(2)] c2_def c3_def Let_def)
      moreover have "encoder_ok sz c3"
      proof -
        have up3: "ec_cached c3 = (ec_cached c)(?h \<mapsto> ?ids)" by (simp add: c3_def up)
        note ru = referenced_upd[OF up3]
        have "?h \<notin> fst ` set (ec_freeable c)" using d(4) hr(2) by auto
        then have fe: "ec_freeable c3 = ec_freeable c @ [(?h, sz ?h)]"
          by (simp add: c3_def alist_update_new)
        have "sum sz (referenced c3) = sum sz (referenced c) - sz ?h"
          using ru(1) True hr(1) d(2) by (simp add: sum_diff1)
        moreover have "set (ec_freeable c3) = (\<lambda>h. (h, sz h)) ` unreferenced c3"
          using ru(2) True d(4) by (simp add: fe)
        moreover have "distinct (map fst (ec_freeable c3))"
          using d(3) \<open>?h \<notin> fst ` set (ec_freeable c)\<close> by (simp add: fe)
        ultimately show ?thesis
          using d fe ru(1) True unfolding encoder_ok_def by (simp add: c3_def c2_def)
      qed
      moreover have "dom (ec_cached c3) = dom (ec_cached c)" using ids(1) by (auto simp: c3_def up)
      ultimately show ?thesis using ni[of c3] by (simp add: c3_def c2_def)
    qed
  qed
qed


lemma ec_free_ok:
  assumes "encoder_ok sz c" "\<forall>i \<in> set (get_cached_input_ids r c). input_ok sz r i"
  shows "\<exists>c'. ec_free r c = Inr c' \<and> encoder_ok sz c' \<and> num_free_slots c' = num_free_slots c \<and>
    dom (ec_cached c') = dom (ec_cached c)"
proof -
  have "\<exists>c'. rfold (free_encoder_input r) ids c = Inr c' \<and> encoder_ok sz c' \<and>
      num_free_slots c' = num_free_slots c \<and> dom (ec_cached c') = dom (ec_cached c)"
    if "\<forall>i \<in> set ids. input_ok sz r i" for ids
    using that assms(1)
  proof (induction ids arbitrary: c)
    case (Cons i ids)
    obtain c1 where "free_encoder_input r i c = Inr c1" "encoder_ok sz c1"
      "num_free_slots c1 = num_free_slots c" "dom (ec_cached c1) = dom (ec_cached c)"
      using free_encoder_input_ok[OF Cons.prems(2), of r i] Cons.prems(1) by auto
    then show ?case using Cons.IH[of c1] Cons.prems(1) by fastforce
  qed simp
  then show ?thesis using assms(2) by (simp add: ec_free_def)
qed

lemma encoder_ok_init: "0 \<le> n \<Longrightarrow> \<forall>h. 0 \<le> sz h \<Longrightarrow> encoder_ok sz (ec_init n)"
  by (simp add: encoder_ok_def ec_init_def referenced_def unreferenced_def)

lemma encoder_ok_reset: "encoder_ok sz c \<Longrightarrow> 0 \<le> ec_cache_size c \<Longrightarrow> encoder_ok sz (ec_reset c)"
  by (simp add: encoder_ok_def ec_reset_def referenced_def unreferenced_def)

lemma encoder_ok_freed: "encoder_ok sz c \<Longrightarrow> encoder_ok sz (snd (get_freed_mm_hashes c))"
  using encoder_ok_cong[of "snd (get_freed_mm_hashes c)" c sz] by (simp add: get_freed_mm_hashes_def)

text \<open>References are counted by request, not by input: when two inputs of one request hold the
  same item, freeing one of them makes the entry evictable.\<close>

lemma shared_item_freed_early:
  assumes "input_ok sz r i" "hash_at r i = hash_at r j" "ec_cached c (hash_at r i) = Some [request_id r]"
    and "request_cached_ids c (request_id r) = Some [i, j]" "i \<noteq> j"
  shows "\<exists>c'. free_encoder_input r i c = Inr c' \<and> j \<in> set (get_cached_input_ids r c') \<and>
    ec_cached c' (hash_at r j) = Some []"
  using assms
  by (simp add: free_encoder_input_def input_okD[OF assms(1)] get_cached_input_ids_def
      drop_cached_id_def Let_def)

subsection \<open>The encoder-decoder manager\<close>

lemma ed_alloc_free:
  assumes "input_ok sz r i" "ed_allocate r i c = Inr c1"
  shows "\<exists>c2. ed_free_encoder_input r i c1 = Inr c2 \<and> ed_num_free_slots c2 = ed_num_free_slots c"
  using assms by (auto simp: ed_allocate_def ed_free_encoder_input_def input_okD[OF assms(1)])

lemma ed_can_allocate_nonneg:
  assumes "ed_can_allocate r i budget k c = Inr True" "0 \<le> k" "ed_allocate r i c = Inr c1"
  shows "0 \<le> ed_num_free_slots c1"
  using assms by (auto simp: ed_can_allocate_def ed_allocate_def split: if_splits)

text \<open>An allocated item is reported as freed by the second report after it, not the first.\<close>

lemma ed_freed_delayed:
  assumes "ed_allocate r i c = Inr c1" "input_hash r i = Inr h"
    and "ed_get_freed_mm_hashes c1 = (f1, c2)" "ed_get_freed_mm_hashes c2 = (f2, c3)"
  shows "f1 = ed_to_free c" "h \<in> set f2" "ed_allocated c3 = []" "ed_to_free c3 = []"
  using assms by (auto simp: ed_allocate_def ed_get_freed_mm_hashes_def)

subsection \<open>The budget\<close>

lemma encoder_budget_covers:
  assumes "compute_mm_encoder_budget cfg toks = Inr (b, s)" "(m, n) \<in> set toks"
  shows "n \<le> b" "n \<le> s"
proof -
  have "n \<le> Max (snd ` set toks)" using assms(2) by (intro Max_ge) force+
  moreover have "b = max (max_num_encoder_input_tokens cfg) (Max (snd ` set toks)) \<and>
      s = max (ecfg_encoder_cache_size cfg) (Max (snd ` set toks))"
    using assms by (auto simp: compute_mm_encoder_budget_def Let_def simp del: Max_ge_iff split: if_splits)
  ultimately show "n \<le> b" "n \<le> s" by simp_all
qed

lemma encoder_budget_error:
  assumes "(m, n) \<in> set toks" "disable_chunked_mm_input cfg" "ecfg_max_num_batched_tokens cfg < n"
  shows "compute_mm_encoder_budget cfg toks = Inl ValueError"
proof -
  have "n \<le> Max (snd ` set toks)" using assms(1) by (intro Max_ge) force+
  then show ?thesis using assms by (auto simp: compute_mm_encoder_budget_def Let_def)
qed


subsection \<open>The cache as a transition system\<close>

text \<open>The calls of the scheduler, each under the conditions it keeps: an input is allocated only
  when it is not cached and the space has been checked.\<close>

inductive encoder_step :: "(string \<Rightarrow> int) \<Rightarrow> encoder_cache \<Rightarrow> encoder_cache \<Rightarrow> bool"
  for sz :: "string \<Rightarrow> int" where
  enc_check: "input_ok sz r i \<Longrightarrow> check_and_update_cache r i c = Inr (hit, c') \<Longrightarrow> encoder_step sz c c'"
| enc_can: "input_ok sz r i \<Longrightarrow> can_allocate r i budget k c = Inr (ok, c') \<Longrightarrow> encoder_step sz c c'"
| enc_alloc: "input_ok sz r i \<Longrightarrow> ec_cached c (hash_at r i) = None \<Longrightarrow> sz (hash_at r i) \<le> num_free_slots c \<Longrightarrow>
    allocate r i c = Inr c' \<Longrightarrow> encoder_step sz c c'"
| enc_free_input: "input_ok sz r i \<Longrightarrow> free_encoder_input r i c = Inr c' \<Longrightarrow> encoder_step sz c c'"
| enc_free: "\<forall>i \<in> set (get_cached_input_ids r c). input_ok sz r i \<Longrightarrow> ec_free r c = Inr c' \<Longrightarrow> encoder_step sz c c'"
| enc_freed: "get_freed_mm_hashes c = (hs, c') \<Longrightarrow> encoder_step sz c c'"

inductive encoder_reach :: "(string \<Rightarrow> int) \<Rightarrow> encoder_cache \<Rightarrow> encoder_cache \<Rightarrow> bool"
  for sz :: "string \<Rightarrow> int" and c0 :: encoder_cache where
  enc_start: "encoder_reach sz c0 c0"
| enc_next: "encoder_reach sz c0 c \<Longrightarrow> encoder_step sz c c' \<Longrightarrow> encoder_reach sz c0 c'"

lemma encoder_step_ok: "encoder_step sz c c' \<Longrightarrow> encoder_ok sz c \<Longrightarrow> encoder_ok sz c'"
proof (induction rule: encoder_step.induct)
  case enc_check then show ?case using check_and_update_ok by fastforce
next
  case (enc_can r i budget k c ok c')
  then show ?case using can_allocate_ok[OF enc_can(3,1), of budget k] by auto
next
  case enc_alloc then show ?case using allocate_ok by fastforce
next
  case enc_free_input then show ?case using free_encoder_input_ok by fastforce
next
  case enc_free then show ?case using ec_free_ok by fastforce
next
  case (enc_freed c hs c') then show ?case using encoder_ok_freed[of sz c] by simp
qed

lemma encoder_reach_ok: "encoder_reach sz c0 c \<Longrightarrow> encoder_ok sz c0 \<Longrightarrow> encoder_ok sz c"
  by (induction rule: encoder_reach.induct) (auto intro: encoder_step_ok)

lemma encoder_ok_bounds:
  assumes "encoder_ok sz c"
  shows "0 \<le> num_free_slots c \<and> num_free_slots c \<le> num_freeable_slots c \<and> num_freeable_slots c \<le> ec_cache_size c"
proof -
  note d = encoder_okD[OF assms]
  have "0 \<le> sum_list (map snd (ec_freeable c))"
    by (rule sum_list_nonneg) (use d(1,4) in auto)
  moreover have "0 \<le> sum sz (referenced c)" by (rule sum_nonneg) (use d(1) in auto)
  ultimately show ?thesis using d(5,6,7) by simp
qed

end
