(* ===== verification/Sched_Utils.thy ===== *)
theory Sched_Utils
  imports Request_Data
begin

text \<open>
  \<^verbatim>\<open>vllm/v1/core/sched/utils.py\<close>: the detection of repeated token patterns, \<open>remove_all\<close> and
  \<open>check_stop\<close>.  Sequence indices are Python's (\<open>py_nth\<close>), so that reading before the start raises;
  the lemmas show that no caller does.
\<close>

text \<open>The two nested loops: all comparisons in order, the first difference ends them.\<close>

fun pattern_inner :: "int list \<Rightarrow> nat \<Rightarrow> nat \<Rightarrow> int \<Rightarrow> nat list \<Rightarrow> bool res" where
  "pattern_inner toks plen n target [] = Inr True"
| "pattern_inner toks plen n target (m # ms) =
     rbind (py_nth toks (- (int plen * int m + int n))) (\<lambda>t.
       if t \<noteq> target then Inr False else pattern_inner toks plen n target ms)"

fun pattern_outer :: "int list \<Rightarrow> nat \<Rightarrow> nat \<Rightarrow> nat list \<Rightarrow> bool res" where
  "pattern_outer toks plen cnt [] = Inr True"
| "pattern_outer toks plen cnt (n # ns) =
     rbind (py_nth toks (- int n)) (\<lambda>target.
       rbind (pattern_inner toks plen n target [1..<cnt]) (\<lambda>ok.
         if \<not> ok then Inr False else pattern_outer toks plen cnt ns))"

definition has_repeating_pattern :: "int list \<Rightarrow> nat \<Rightarrow> nat \<Rightarrow> bool res" where
  "has_repeating_pattern toks plen cnt = pattern_outer toks plen cnt [1..<plen + 1]"

fun repetition_loop :: "int list \<Rightarrow> nat \<Rightarrow> nat list \<Rightarrow> bool res" where
  "repetition_loop toks cnt [] = Inr False"
| "repetition_loop toks cnt (p # ps) =
     (if p * cnt > length toks then Inr False
      else rbind (has_repeating_pattern toks p cnt) (\<lambda>found.
        if found then Inr True else repetition_loop toks cnt ps))"

definition check_sequence_repetition :: "int list \<Rightarrow> repetition_params \<Rightarrow> bool res" where
  "check_sequence_repetition toks ps =
     (let mx = max_pattern_size ps;
          mn = (if min_pattern_size ps \<le> 0 then 1 else min_pattern_size ps)
      in if mx \<le> 0 \<or> min_count ps < 2 \<or> mn > mx then Inr False
         else repetition_loop toks (nat (min_count ps)) [nat mn..<nat mx + 1])"

text \<open>The items to remove are a Python set; with one item only its first occurrence goes.\<close>

definition remove_all :: "'a list \<Rightarrow> 'a list \<Rightarrow> 'a list" where
  "remove_all lst items =
     (if items = [] then lst
      else if length items = 1 then remove1 (items ! 0) lst
      else filter (\<lambda>x. x \<notin> set items) lst)"

definition check_stop :: "request \<Rightarrow> int \<Rightarrow> (bool \<times> request) res" where
  "check_stop r max_model_len =
     rbind (guard AssertionError (r_pooling_params r = None)) (\<lambda>_.
     case r_sampling_params r of
       None \<Rightarrow> Inl AssertionError
     | Some sp \<Rightarrow>
         if int (num_output_tokens r) < sp_min_tokens sp then Inr (False, r)
         else
           rbind (py_nth (output_token_ids r) (- 1)) (\<lambda>lst.
             if Some lst = sp_eos_token_id sp then Inr (True, r\<lparr>status := FINISHED_STOPPED\<rparr>)
             else if lst \<in> set (opt_list (sp_stop_token_ids sp))
             then Inr (True, r\<lparr>status := FINISHED_STOPPED, r_stop_reason := Some (StopToken lst)\<rparr>)
             else if int (num_tokens r) \<ge> max_model_len \<or> int (num_output_tokens r) \<ge> max_tokens r
             then Inr (True, r\<lparr>status := FINISHED_LENGTH_CAPPED\<rparr>)
             else
               rbind (case sp_repetition_detection sp of
                        None \<Rightarrow> Inr False
                      | Some ps \<Rightarrow> check_sequence_repetition (output_token_ids r) ps) (\<lambda>rep.
                 if rep
                 then Inr (True, r\<lparr>status := FINISHED_REPETITION,
                                   r_stop_reason := Some (StopText ''repetition_detected'')\<rparr>)
                 else Inr (False, r))))"


subsection \<open>Repetition\<close>

text \<open>The reference: the sequence ends with \<open>cnt\<close> copies of one block of \<open>plen\<close> tokens.\<close>

definition ends_with_copies :: "int list \<Rightarrow> nat \<Rightarrow> nat \<Rightarrow> bool" where
  "ends_with_copies toks plen cnt \<longleftrightarrow>
     (\<exists>pre blk. length blk = plen \<and> toks = pre @ concat (replicate cnt blk))"

lemma py_nth_back: "0 < k \<Longrightarrow> k \<le> length xs \<Longrightarrow> py_nth xs (- int k) = Inr (xs ! (length xs - k))"
  by (simp add: py_nth_def Let_def nat_diff_distrib of_nat_diff)

lemma pattern_inner_eq:
  assumes "\<forall>m \<in> set ms. plen * m + n \<le> length toks" "0 < n"
  shows "pattern_inner toks plen n target ms =
           Inr (\<forall>m \<in> set ms. toks ! (length toks - (plen * m + n)) = target)"
  using assms(1)
proof (induction ms)
  case (Cons m ms)
  have "py_nth toks (- int (plen * m + n)) = Inr (toks ! (length toks - (plen * m + n)))"
    by (rule py_nth_back) (use Cons.prems assms(2) in auto)
  then show ?case using Cons by (auto simp: algebra_simps)
qed simp

lemma pattern_outer_eq:
  assumes "plen * cnt \<le> length toks" "1 \<le> cnt" "set ns \<subseteq> {1..plen}"
  shows "pattern_outer toks plen cnt ns =
    Inr (\<forall>n \<in> set ns. \<forall>m \<in> {1..<cnt}. toks ! (length toks - (plen * m + n)) = toks ! (length toks - n))"
  using assms(3)
proof (induction ns)
  case (Cons n ns)
  have le: "plen * m + n \<le> length toks" if "m < cnt" for m
  proof -
    have "plen * m + n \<le> plen * Suc m" using Cons.prems by simp
    also have "\<dots> \<le> plen * cnt" using that by (intro mult_le_mono2) simp
    finally show ?thesis using assms(1) by simp
  qed
  have t: "py_nth toks (- int n) = Inr (toks ! (length toks - n))"
    by (rule py_nth_back) (use Cons.prems le[of 0] assms(2) in auto)
  have "pattern_inner toks plen n (toks ! (length toks - n)) [1..<cnt] =
      Inr (\<forall>m \<in> {1..<cnt}. toks ! (length toks - (plen * m + n)) = toks ! (length toks - n))"
    using pattern_inner_eq[of "[1..<cnt]" plen n toks] le Cons.prems by auto
  then show ?case using t Cons by auto
qed simp

lemma nth_concat_replicate:
  assumes "i < cnt * length blk"
  shows "concat (replicate cnt blk) ! i = blk ! (i mod length blk)"
  using assms
proof (induction cnt arbitrary: i)
  case (Suc cnt)
  then show ?case by (cases "i < length blk") (auto simp: nth_append mod_if)
qed simp

lemma length_copies [simp]: "length (concat (replicate cnt blk)) = cnt * length blk"
  by (induction cnt) simp_all

lemma has_repeating_pattern_iff:
  assumes "plen * cnt \<le> length toks" "1 \<le> cnt" "0 < plen"
  shows "has_repeating_pattern toks plen cnt = Inr (ends_with_copies toks plen cnt)"
proof -
  let ?N = "length toks"
  let ?P = "\<forall>n \<in> {1..plen}. \<forall>m \<in> {1..<cnt}. toks ! (?N - (plen * m + n)) = toks ! (?N - n)"
  have "?P \<longleftrightarrow> ends_with_copies toks plen cnt"
  proof
    assume P: ?P
    define pre where "pre = take (?N - plen * cnt) toks"
    define blk where "blk = drop (?N - plen) toks"
    have pc: "plen \<le> plen * cnt" using assms(2) by simp
    then have pN: "plen \<le> ?N" using assms(1) by (rule le_trans)
    then have blk: "length blk = plen" by (simp add: blk_def)
    have "drop (?N - plen * cnt) toks = concat (replicate cnt blk)"
    proof (rule nth_equalityI)
      show "length (drop (?N - plen * cnt) toks) = length (concat (replicate cnt blk))"
        using assms(1) blk by (simp add: mult.commute)
      fix i assume "i < length (drop (?N - plen * cnt) toks)"
      then have i: "i < plen * cnt" using assms(1) by simp
      define q where "q = i div plen"
      define s where "s = i mod plen"
      have iqs: "i = plen * q + s" "s < plen" using assms(3) by (simp_all add: q_def s_def)
      have q: "q < cnt" using i assms(3) by (simp add: q_def less_mult_imp_div_less mult.commute)
      define m where "m = cnt - 1 - q"
      have cnt: "cnt = m + q + 1" using q by (simp add: m_def)
      have idx: "?N - plen * cnt + i = ?N - (plen * m + (plen - s))"
      proof -
        have "plen * cnt = plen * m + plen * q + plen" unfolding cnt by (simp add: algebra_simps)
        then show ?thesis using assms(1) iqs by linarith
      qed
      have "toks ! (?N - (plen * m + (plen - s))) = toks ! (?N - (plen - s))"
      proof (cases "m = 0")
        case False
        then have "plen - s \<in> {1..plen}" "m \<in> {1..<cnt}" using iqs(2) cnt by auto
        then show ?thesis using P by blast
      qed simp
      moreover have "blk ! s = toks ! (?N - (plen - s))"
      proof -
        have e: "?N - plen + s = ?N - (plen - s)" using iqs(2) pN by linarith
        show ?thesis unfolding blk_def by (simp only: nth_drop[OF diff_le_self] e)
      qed
      ultimately show "drop (?N - plen * cnt) toks ! i = concat (replicate cnt blk) ! i"
        using nth_concat_replicate[of i cnt blk] i blk idx assms(1)
        by (simp add: mult.commute s_def)
    qed
    then have "toks = pre @ concat (replicate cnt blk)" unfolding pre_def by (metis append_take_drop_id)
    then show "ends_with_copies toks plen cnt" using blk by (auto simp: ends_with_copies_def)
  next
    assume "ends_with_copies toks plen cnt"
    then obtain pre blk where blk: "length blk = plen" "toks = pre @ concat (replicate cnt blk)"
      by (auto simp: ends_with_copies_def)
    have N: "?N = length pre + cnt * plen" using blk by simp
    have at: "toks ! (?N - (plen * m + n)) = blk ! (plen - n)" if "n \<in> {1..plen}" "m < cnt" for n m
    proof -
      define q where "q = cnt - m - 1"
      have q: "cnt = m + q + 1" using that(2) by (simp add: q_def)
      have i: "cnt * plen - (plen * m + n) = q * plen + (plen - n)"
        using that(1) unfolding q by (simp add: algebra_simps)
      have lt: "cnt * plen - (plen * m + n) < cnt * plen" using that(1) assms(3) q by simp
      have "plen * m + n \<le> cnt * plen" using that(1) unfolding q by (simp add: algebra_simps)
      then have "?N - (plen * m + n) = length pre + (cnt * plen - (plen * m + n))" using N by simp
      then have "toks ! (?N - (plen * m + n)) = concat (replicate cnt blk) ! (cnt * plen - (plen * m + n))"
        using blk(2) by simp
      also have "\<dots> = blk ! (plen - n)"
      proof -
        have "(q * plen + (plen - n)) mod plen = plen - n"
          using that(1) mod_mult_self3[of q plen "plen - n"] by (simp only: mod_less) auto
        then show ?thesis using nth_concat_replicate[of _ cnt blk] lt blk(1) unfolding i by metis
      qed
      finally show ?thesis .
    qed
    show ?P using at at[where m = 0] assms(2) by simp
  qed
  moreover have "set [1..<plen + 1] = {1..plen}" by auto
  ultimately show ?thesis
    using pattern_outer_eq[OF assms(1,2), of "[1..<plen + 1]"]
    by (simp only: has_repeating_pattern_def order_refl simp_thms)
qed

text \<open>The search over the sizes stops at the first one that does not fit, which loses nothing:
  longer patterns do not fit either.\<close>

lemma repetition_loop_eq:
  assumes "sorted ps" "\<forall>p \<in> set ps. 0 < p" "1 \<le> cnt"
  shows "repetition_loop toks cnt ps =
    Inr (\<exists>p \<in> set ps. p * cnt \<le> length toks \<and> ends_with_copies toks p cnt)"
  using assms(1,2)
proof (induction ps)
  case (Cons p ps)
  let ?Q = "\<lambda>q. q * cnt \<le> length toks \<and> ends_with_copies toks q cnt"
  show ?case
  proof (cases "p * cnt > length toks")
    case True
    have "\<not> ?Q q" if "q \<in> set (p # ps)" for q
    proof -
      have "p * cnt \<le> q * cnt" using Cons.prems(1) that by (intro mult_le_mono1) auto
      then have "\<not> q * cnt \<le> length toks" using True by linarith
      then show ?thesis by blast
    qed
    then have "(\<exists>q \<in> set (p # ps). ?Q q) = False" by blast
    moreover have "repetition_loop toks cnt (p # ps) = Inr False" using True by simp
    ultimately show ?thesis by (simp only:)
  next
    case False
    then have le: "p * cnt \<le> length toks" by simp
    have r: "has_repeating_pattern toks p cnt = Inr (ends_with_copies toks p cnt)"
      by (rule has_repeating_pattern_iff[OF le assms(3)]) (use Cons.prems(2) in simp)
    have IH: "repetition_loop toks cnt ps = Inr (\<exists>q \<in> set ps. ?Q q)"
      using Cons.IH Cons.prems by simp
    show ?thesis
    proof (cases "ends_with_copies toks p cnt")
      case True
      then show ?thesis using le r by simp
    next
      case False
      then show ?thesis using le r IH by simp
    qed
  qed
qed simp

lemma check_sequence_repetition_eq:
  "check_sequence_repetition toks ps =
     Inr (0 < max_pattern_size ps \<and> 2 \<le> min_count ps \<and>
       (\<exists>p. max 1 (min_pattern_size ps) \<le> int p \<and> int p \<le> max_pattern_size ps \<and>
            ends_with_copies toks p (nat (min_count ps))))"
proof -
  define mn where "mn = (if min_pattern_size ps \<le> 0 then 1 else min_pattern_size ps)"
  have mn: "mn = max 1 (min_pattern_size ps)" "0 < mn" by (auto simp: mn_def)
  have fits: "p * cnt \<le> length toks" if "ends_with_copies toks p cnt" for p cnt
    using that by (auto simp: ends_with_copies_def mult.commute)
  have "repetition_loop toks (nat (min_count ps)) [nat mn..<nat (max_pattern_size ps) + 1] =
      Inr (\<exists>p \<in> set [nat mn..<nat (max_pattern_size ps) + 1].
        p * nat (min_count ps) \<le> length toks \<and> ends_with_copies toks p (nat (min_count ps)))"
    if "2 \<le> min_count ps"
    using that mn(2) by (intro repetition_loop_eq) (auto simp del: upt_Suc)
  moreover have S: "set [nat mn..<nat (max_pattern_size ps) + 1] =
      {p. mn \<le> int p \<and> int p \<le> max_pattern_size ps}" if "0 < max_pattern_size ps"
    using mn(2) that by (auto simp del: upt_Suc)
  ultimately have L: "repetition_loop toks (nat (min_count ps)) [nat mn..<nat (max_pattern_size ps) + 1] =
      Inr (\<exists>p. mn \<le> int p \<and> int p \<le> max_pattern_size ps \<and> ends_with_copies toks p (nat (min_count ps)))"
    if "2 \<le> min_count ps" "0 < max_pattern_size ps"
    using that fits by auto
  show ?thesis
  proof (cases "max_pattern_size ps \<le> 0 \<or> min_count ps < 2 \<or> mn > max_pattern_size ps")
    case True
    then have "check_sequence_repetition toks ps = Inr False"
      by (simp add: check_sequence_repetition_def Let_def mn_def)
    with True show ?thesis unfolding mn(1)[symmetric] by auto
  next
    case False
    then have "check_sequence_repetition toks ps =
        repetition_loop toks (nat (min_count ps)) [nat mn..<nat (max_pattern_size ps) + 1]"
      by (simp add: check_sequence_repetition_def Let_def mn_def del: upt_Suc)
    with False L show ?thesis unfolding mn(1)[symmetric] by simp
  qed
qed

subsection \<open>\<open>remove_all\<close> and \<open>check_stop\<close>\<close>

lemma remove_all_distinct:
  assumes "distinct lst"
  shows "remove_all lst items = filter (\<lambda>x. x \<notin> set items) lst"
proof (cases "length items = 1")
  case True
  then obtain x where "items = [x]" by (cases items) auto
  then show ?thesis using assms by (simp add: remove_all_def distinct_remove1_removeAll removeAll_filter_not_eq) (rule filter_cong, auto)
qed (auto simp: remove_all_def)

lemma remove_all_single_keeps:
  "remove_all (x # ys @ x # zs) [x] = ys @ x # zs"
  by (simp add: remove_all_def)

lemma finished_statuses [simp]:
  "status_is_finished FINISHED_STOPPED" "status_is_finished FINISHED_LENGTH_CAPPED"
  "status_is_finished FINISHED_REPETITION"
  by (simp_all add: status_is_finished_def less_request_status_def)

lemma check_stop_status:
  assumes "check_stop r n = Inr (stop, r')"
  shows "stop \<Longrightarrow> is_finished r'" "\<not> stop \<Longrightarrow> r' = r"
proof -
  obtain sp where sp: "r_sampling_params r = Some sp" "r_pooling_params r = None"
    using assms by (cases "r_sampling_params r"; cases "r_pooling_params r") (simp_all add: check_stop_def)
  have "(stop \<and> is_finished r') \<or> (\<not> stop \<and> r' = r)"
  proof (cases "int (num_output_tokens r) < sp_min_tokens sp")
    case True
    then show ?thesis using assms sp by (simp add: check_stop_def)
  next
    case False
    then obtain lst where lst: "py_nth (output_token_ids r) (- 1) = Inr lst"
      using assms sp by (cases "py_nth (output_token_ids r) (- 1)") (simp_all add: check_stop_def)
    show ?thesis
      using assms False unfolding check_stop_def sp lst option.case rbind_simps guard_simps
      by (auto simp: is_finished_def split: if_splits)
  qed
  then show "stop \<Longrightarrow> is_finished r'" "\<not> stop \<Longrightarrow> r' = r" by blast+
qed

end
