(* ===== verification/Sched_Properties.thy ===== *)
theory Sched_Properties
  imports Sample_States Request_Queue Encoder_Cache Sched_Utils
begin

text \<open>The properties of the waiting queues, the encoder cache, the stop checks and the residency
  metrics, each with a concrete instance.\<close>

subsection \<open>Waiting queues\<close>

text \<open>the priority queue serves requests in order: iterating a queue built by any adds,
  prepends, pops and removals (a heap) yields its requests sorted by priority, then arrival time,
  then request id.\<close>

theorem priority_queue_serves_sorted:
  assumes "is_heap h"
  shows "pq_iter h = sorted_list_of_multiset (mset h)"
  by (rule pq_iter_sorted[OF assms])

theorem priority_queue_serves_sorted_witness:
  "pq_iter (pq_add (pq_add [] (ReqKey 2 0 ''a'' 0)) (ReqKey 1 5 ''b'' 1)) =
     sorted_list_of_multiset {# ReqKey 2 0 ''a'' 0, ReqKey 1 5 ''b'' 1 #}"
proof -
  have h: "is_heap (pq_add (pq_add [] (ReqKey 2 0 ''a'' 0)) (ReqKey 1 5 ''b'' 1))"
    by (intro pq.inv_add) (simp add: heap_from_def)
  have m: "mset (pq_add (pq_add [] (ReqKey 2 0 ''a'' 0)) (ReqKey 1 5 ''b'' 1)) =
      {# ReqKey 2 0 ''a'' 0, ReqKey 1 5 ''b'' 1 #}"
  proof -
    have "is_heap ([] :: req_key list)" by (simp add: heap_from_def)
    then show ?thesis by (simp add: pq.elems_add pq.inv_add add_mset_commute del: One_nat_def)
  qed
  show ?thesis unfolding m[symmetric] by (rule priority_queue_serves_sorted[OF h])
qed

text \<open>C39: both queue classes keep the contract of \<open>RequestQueue\<close>: adding and prepending enter one
  request, \<open>pop_request\<close> removes and returns the request \<open>peek_request\<close> shows and raises
  \<open>IndexError\<close> exactly on the empty queue, removing takes out exactly the named requests, and
  prepending another queue enters all of its requests.\<close>

theorem request_queue_contract:
  assumes "rq_inv q" "rq_inv other"
  shows "(rq_inv (rq_add q r) \<and> rq_elems (rq_add q r) = add_mset r (rq_elems q)) \<and>
    (rq_inv (rq_prepend q r) \<and> rq_elems (rq_prepend q r) = add_mset r (rq_elems q)) \<and>
    (case rq_pop q of
       Inl e \<Rightarrow> e = IndexError \<and> rq_elems q = {#}
     | Inr (s, q') \<Rightarrow> rq_peek q = Inr s \<and> rq_inv q' \<and> rq_elems q = add_mset s (rq_elems q')) \<and>
    (rq_inv (rq_remove_requests q rs) \<and>
     rq_elems (rq_remove_requests q rs) = filter_mset (\<lambda>r. r \<notin> set rs) (rq_elems q)) \<and>
    (rq_inv (rq_prepend_requests q other) \<and>
     rq_elems (rq_prepend_requests q other) = rq_elems q + rq_elems other)"
proof -
  have "case rq_pop q of Inl e \<Rightarrow> e = IndexError \<and> rq_elems q = {#}
     | Inr (s, q') \<Rightarrow> rq_peek q = Inr s \<and> rq_inv q' \<and> rq_elems q = add_mset s (rq_elems q')"
    using rqs.pop_empty[OF assms(1)] rqs.pop_some[OF assms(1)] by (cases "rq_elems q = {#}") auto
  moreover have "rq_inv (rq_remove_requests q rs)"
    "rq_elems (rq_remove_requests q rs) = filter_mset (\<lambda>r. r \<notin> set rs) (rq_elems q)"
    using assms(1) by (cases q; simp add: pq_remove_requests_ok fcfs_remove_requests_def)+
  ultimately show ?thesis
    using assms(1) rqs.inv_add rqs.elems_add rqs.inv_prepend rqs.elems_prepend
      rq_prepend_requests_ok[OF assms] by blast
qed

theorem request_queue_contract_witness:
  "rq_inv (rq_add (create_request_queue PRIORITY) (ReqKey 1 5 ''b'' 1)) \<and>
   rq_pop (create_request_queue FCFS) = Inl IndexError"
proof -
  have i: "rq_inv (create_request_queue PRIORITY)" "rq_inv (create_request_queue FCFS)"
    by (simp_all add: create_request_queue_def heap_from_def)
  have "rq_elems (create_request_queue FCFS) = {#}" by (simp add: create_request_queue_def)
  with request_queue_contract[OF i(1,1), of "ReqKey 1 5 ''b'' 1" "[]"]
    request_queue_contract[OF i(2,2), of "ReqKey 1 5 ''b'' 1" "[]"]
  show ?thesis by (auto split: sum.splits)
qed


subsection \<open>The encoder cache\<close>


definition sample_mm_request :: request where
  "sample_mm_request = (sample_request [1, 2, 3])\<lparr>mm_features :=
     [\<lparr>mm_identifier = ''img'', mm_offset = 0, mm_length = 2, mm_is_embed = None\<rparr>]\<rparr>"

lemma sample_mm_ok [simp]: "input_ok (\<lambda>h. 2) sample_mm_request 0" "hash_at sample_mm_request 0 = ''img''"
  by (simp_all add: sample_mm_request_def input_ok_def hash_at_def get_num_embeds_def embeds_cumsum_def)


text \<open>\<open>can_allocate\<close> says yes exactly when the item fits the compute budget and the
  reclaimable slots (beside the tokens already scheduled); a yes leaves that many slots really
  free, by evicting unreferenced items in the order they became so, and never a referenced one.\<close>

theorem can_allocate_decides:
  assumes "encoder_ok sz c" "input_ok sz r i" "0 \<le> k"
  shows "\<exists>ok c' es. can_allocate r i budget k c = Inr (ok, c') \<and> encoder_ok sz c' \<and>
    (ok \<longleftrightarrow> sz (hash_at r i) \<le> budget \<and> sz (hash_at r i) + k \<le> num_freeable_slots c) \<and>
    (ok \<longrightarrow> sz (hash_at r i) + k \<le> num_free_slots c') \<and>
    ec_freeable c = es @ ec_freeable c' \<and> ec_freed c' = ec_freed c @ map fst es \<and>
    referenced c' = referenced c"
  using can_allocate_ok[OF assms(1,2), of budget k] encoder_ok_bounds[OF assms(1)] by fastforce

theorem can_allocate_decides_witness:
  "\<exists>c'. can_allocate sample_mm_request 0 4 5 (ec_init 8) = Inr (True, c') \<and> 7 \<le> num_free_slots c'"
  using can_allocate_decides[OF encoder_ok_init sample_mm_ok(1), of 8 5 4] by (auto simp: ec_init_def)

text \<open>the encoder budget covers every single multi-modal item: both the compute budget and the
  cache size are at least the largest item.\<close>

theorem encoder_budget_covers_items:
  assumes "compute_mm_encoder_budget cfg toks = Inr (b, s)" "(m, n) \<in> set toks"
  shows "n \<le> b \<and> n \<le> s"
  using encoder_budget_covers[OF assms] by blast

theorem encoder_budget_covers_items_witness:
  "\<exists>b s. compute_mm_encoder_budget \<lparr>disable_chunked_mm_input = False, ecfg_max_num_batched_tokens = 10,
      max_num_encoder_input_tokens = 20, ecfg_encoder_cache_size = 30\<rparr> [(''image'', 64), (''audio'', 8)] = Inr (b, s) \<and>
     64 \<le> b \<and> 64 \<le> s"
proof -
  obtain b s where "compute_mm_encoder_budget \<lparr>disable_chunked_mm_input = False, ecfg_max_num_batched_tokens = 10,
      max_num_encoder_input_tokens = 20, ecfg_encoder_cache_size = 30\<rparr> [(''image'', 64), (''audio'', 8)] = Inr (b, s)"
    by (simp add: compute_mm_encoder_budget_def Let_def)
  from encoder_budget_covers_items[OF this, of "''image''" 64] this show ?thesis by auto
qed


subsection \<open>Stop checks\<close>

text \<open>C40: repetition detection is equivalent to its meaning: it reports a repetition exactly when
  the output ends with \<open>min_count\<close> copies of one block whose length lies between the pattern
  sizes.\<close>

theorem repetition_detection_meaning:
  "check_sequence_repetition toks ps =
     Inr (0 < max_pattern_size ps \<and> 2 \<le> min_count ps \<and>
       (\<exists>p. max 1 (min_pattern_size ps) \<le> int p \<and> int p \<le> max_pattern_size ps \<and>
            ends_with_copies toks p (nat (min_count ps))))"
  by (rule check_sequence_repetition_eq)

text \<open>\<open>check_stop\<close> on a generating request with output: it never raises, it stops exactly when
  the minimum length is reached and the last token is the end token or a stop token, a length
  bound is reached, or the output repeats; a stopped request has a finished status, any other is
  returned unchanged.\<close>

theorem check_stop_decides:
  assumes "r_pooling_params r = None" "r_sampling_params r = Some sp" "output_token_ids r \<noteq> []"
  shows "\<exists>stop r'. check_stop r n = Inr (stop, r') \<and>
    (stop \<longleftrightarrow> sp_min_tokens sp \<le> int (num_output_tokens r) \<and>
       (Some (last (output_token_ids r)) = sp_eos_token_id sp \<or>
        last (output_token_ids r) \<in> set (opt_list (sp_stop_token_ids sp)) \<or>
        n \<le> int (num_tokens r) \<or> max_tokens r \<le> int (num_output_tokens r) \<or>
        (\<exists>ps. sp_repetition_detection sp = Some ps \<and> check_sequence_repetition (output_token_ids r) ps = Inr True))) \<and>
    (stop \<longrightarrow> is_finished r') \<and> (\<not> stop \<longrightarrow> r' = r)"
proof -
  obtain rep where rep: "(case sp_repetition_detection sp of None \<Rightarrow> Inr False
      | Some ps \<Rightarrow> check_sequence_repetition (output_token_ids r) ps) = Inr rep"
    by (cases "sp_repetition_detection sp") (auto simp: check_sequence_repetition_eq)
  have r: "rep \<longleftrightarrow> (\<exists>ps. sp_repetition_detection sp = Some ps \<and> check_sequence_repetition (output_token_ids r) ps = Inr True)"
    using rep by (cases "sp_repetition_detection sp") auto
  have l: "py_nth (output_token_ids r) (- 1) = Inr (last (output_token_ids r))"
    using assms(3) by (rule py_nth_last)
  have "\<exists>x. check_stop r n = Inr x"
    unfolding check_stop_def assms(1,2) option.case guard_simps rbind_simps l rep by auto
  then obtain stop r' where c: "check_stop r n = Inr (stop, r')" by auto
  have "stop \<longleftrightarrow> sp_min_tokens sp \<le> int (num_output_tokens r) \<and>
       (Some (last (output_token_ids r)) = sp_eos_token_id sp \<or>
        last (output_token_ids r) \<in> set (opt_list (sp_stop_token_ids sp)) \<or>
        n \<le> int (num_tokens r) \<or> max_tokens r \<le> int (num_output_tokens r) \<or> rep)"
    using c unfolding check_stop_def assms(1,2) option.case guard_simps rbind_simps l rep
    by (auto split: if_splits)
  then show ?thesis using check_stop_status[OF c] c unfolding r by blast
qed

definition sample_output :: "int list \<Rightarrow> request" where
  "sample_output out = (sample_request [1, 2])\<lparr>output_token_ids := out, all_token_ids := [1, 2] @ out\<rparr>"

theorem check_stop_decides_witness:
  "\<exists>r'. check_stop (sample_output [5]) 3 = Inr (True, r') \<and> is_finished r'"
proof -
  have "r_pooling_params (sample_output [5]) = None" "output_token_ids (sample_output [5]) \<noteq> []"
    by (simp_all add: sample_output_def sample_request_def request_fields_def sample_args_def)
  moreover obtain sp where "r_sampling_params (sample_output [5]) = Some sp" "sp_min_tokens sp = 0"
    by (simp add: sample_output_def sample_request_def request_fields_def sample_args_def)
  moreover have "num_tokens (sample_output [5]) = 3"
    by (simp add: sample_output_def num_tokens_def)
  ultimately show ?thesis using check_stop_decides[of "sample_output [5]" sp 3] by auto
qed


subsection \<open>Residency metrics\<close>

text \<open>with a clock that never runs backwards, every step of the collector keeps its states in
  time order, and every eviction event it emits has non-negative lifetime, idle time and reuse
  gaps, at most three of the latter.\<close>

theorem metrics_stay_ordered:
  assumes "collector_ok c"
  shows "collector_ok (on_block_allocated b c) \<and> collector_ok (on_block_accessed b c) \<and>
    collector_ok (on_block_evicted b c) \<and> collector_ok (collector_reset c) \<and>
    (\<forall>es c'. drain_events c = (es, c') \<longrightarrow> (\<forall>e \<in> set es. event_ok e) \<and> collector_ok c')"
proof -
  have "(\<forall>e \<in> set es. event_ok e) \<and> collector_ok c'" if "drain_events c = (es, c')" for es c'
    using collector_ok_drain[OF assms] that assms by (auto simp: drain_events_def collector_ok_def)
  then show ?thesis using assms by (blast intro: inv_intros)
qed

theorem metrics_stay_ordered_witness:
  "\<exists>c. collector_init 1 (\<lambda>i. int i) (\<lambda>i. 0) = Inr c \<and>
     collector_ok (on_block_evicted (new_block 1 0) (on_block_allocated (new_block 1 0) c))"
proof -
  obtain c where c: "collector_init 1 (\<lambda>i. int i) (\<lambda>i. 0) = Inr c"
    by (simp add: collector_init_def)
  have "collector_ok c" using collector_ok_init[OF c] by (simp add: mono_def)
  from metrics_stay_ordered[OF this] have "collector_ok (on_block_allocated (new_block 1 0) c)" by blast
  from metrics_stay_ordered[OF this] c show ?thesis by blast
qed

end
