(* ===== verification/Page_Pool.thy ===== *)
theory Page_Pool
  imports Prelude "HOL-Library.AList"
begin

text \<open>
  \<open>ImmutableKVPagePool\<close> and \<open>PageCompletionBarrier\<close> (\<^verbatim>\<open>core/immutable_kv_pages.py\<close>): physical pages
  with a copy on the host and one on disk, reference counts held by leases, and transfers in two
  phases that pin their copies.

  Pages and copies are mutable objects shared by several fields, so they live in two stores, pages
  under their \<open>page_id\<close> and copies under an address; a field that holds an object holds its
  address, and \<open>is\<close> is equality of addresses.  Leases and tickets are immutable, but the code
  compares them by identity: they carry the identity of the Python object, which the operations that
  create one take as an argument.  Dictionaries are association lists in insertion order.
\<close>

datatype tier = Host | Disk

datatype page_operation = Offload | Writeback | Promote | Restore

record page_key =
  key_group_id :: int
  key_block_hash :: bytes

definition make_page_key :: "int \<Rightarrow> bytes \<Rightarrow> page_key res" where
  "make_page_key g bh =
     rbind (guard ValueError (\<not> g < 0)) (\<lambda>_. rbind (guard ValueError (bh \<noteq> [])) (\<lambda>_.
       Inr \<lparr>key_group_id = g, key_block_hash = bh\<rparr>))"

record page_lease =
  lease_id :: nat
  lease_page_id :: nat
  lease_owner :: string
  lease_object :: nat

record page_ticket =
  ticket_id :: nat
  ticket_operation :: page_operation
  ticket_source :: "(tier \<times> nat) option"
  ticket_destination :: "(tier \<times> nat) option"
  ticket_object :: nat

record page_view =
  view_page_id :: nat
  view_references :: int
  view_host_slot :: "nat option"
  view_disk_slot :: "nat option"
  view_host_ready :: bool
  view_disk_ready :: bool

record page_copy =
  copy_tier :: tier
  copy_slot :: nat
  copy_ready :: bool
  copy_pins :: int

record page =
  page_id :: nat
  pg_key :: "page_key option"
  references :: int
  page_host :: "nat option"
  page_disk :: "nat option"

record pending =
  pd_ticket :: page_ticket
  pd_page :: nat
  pd_source :: "nat option"
  pd_destination :: "nat option"
  submitted :: bool

record page_pool =
  capacity :: "tier \<Rightarrow> nat"
  free_slots :: "tier \<Rightarrow> nat list"
  copies :: "tier \<Rightarrow> (nat \<times> nat) list"
  copy_store :: "nat \<Rightarrow> page_copy"
  next_copy :: nat
  page_store :: "nat \<Rightarrow> page"
  page_order :: "nat list"
  canonical :: "(page_key \<times> nat) list"
  leases :: "(nat \<times> page_lease \<times> nat) list"
  pendings :: "(nat \<times> pending) list"
  next_page :: nat
  next_lease :: nat
  next_ticket :: nat

definition page_pool_init :: "int \<Rightarrow> int \<Rightarrow> page_pool res" where
  "page_pool_init host_slots disk_slots =
     rbind (guard ValueError (\<not> host_slots < 1)) (\<lambda>_.
     rbind (guard ValueError (\<not> disk_slots < 0)) (\<lambda>_.
       let cap = (\<lambda>t. case t of Host \<Rightarrow> nat host_slots | Disk \<Rightarrow> nat disk_slots) in
       Inr \<lparr>capacity = cap, free_slots = (\<lambda>t. rev [0..<cap t]), copies = (\<lambda>t. []),
            copy_store = (\<lambda>a. \<lparr>copy_tier = Host, copy_slot = 0, copy_ready = False, copy_pins = 0\<rparr>),
            next_copy = 0,
            page_store = (\<lambda>i. \<lparr>page_id = i, pg_key = None, references = 0, page_host = None, page_disk = None\<rparr>),
            page_order = [], canonical = [], leases = [], pendings = [],
            next_page = 0, next_lease = 0, next_ticket = 0\<rparr>))"


subsection \<open>Reading and writing the stores\<close>

text \<open>\<open>getattr(page, tier)\<close> and \<open>setattr(page, tier, copy)\<close>.\<close>

fun page_copy_of :: "page \<Rightarrow> tier \<Rightarrow> nat option" where
  "page_copy_of pg Host = page_host pg"
| "page_copy_of pg Disk = page_disk pg"

fun set_page_copy :: "tier \<Rightarrow> nat option \<Rightarrow> page \<Rightarrow> page" where
  "set_page_copy Host v pg = pg\<lparr>page_host := v\<rparr>"
| "set_page_copy Disk v pg = pg\<lparr>page_disk := v\<rparr>"

fun other_tier :: "tier \<Rightarrow> tier" where
  "other_tier Host = Disk"
| "other_tier Disk = Host"

definition upd_page :: "nat \<Rightarrow> (page \<Rightarrow> page) \<Rightarrow> page_pool \<Rightarrow> page_pool" where
  "upd_page i f p = p\<lparr>page_store := (page_store p)(i := f (page_store p i))\<rparr>"

definition upd_copy :: "nat \<Rightarrow> (page_copy \<Rightarrow> page_copy) \<Rightarrow> page_pool \<Rightarrow> page_pool" where
  "upd_copy a f p = p\<lparr>copy_store := (copy_store p)(a := f (copy_store p a))\<rparr>"

definition add_pins :: "int \<Rightarrow> nat option \<Rightarrow> page_pool \<Rightarrow> page_pool" where
  "add_pins d oa p =
     (case oa of None \<Rightarrow> p | Some a \<Rightarrow> upd_copy a (\<lambda>c. c\<lparr>copy_pins := copy_pins c + d\<rparr>) p)"

definition attached :: "page_pool \<Rightarrow> nat \<Rightarrow> tier \<Rightarrow> nat option" where
  "attached p i t = page_copy_of (page_store p i) t"

definition is_ready :: "page_pool \<Rightarrow> nat option \<Rightarrow> bool" where
  "is_ready p oa \<longleftrightarrow> (case oa of None \<Rightarrow> False | Some a \<Rightarrow> copy_ready (copy_store p a))"

definition is_pinned :: "page_pool \<Rightarrow> nat option \<Rightarrow> bool" where
  "is_pinned p oa \<longleftrightarrow> (case oa of None \<Rightarrow> False | Some a \<Rightarrow> copy_pins (copy_store p a) \<noteq> 0)"

text \<open>\<open>self._pages.move_to_end(page_id)\<close>.\<close>

definition move_page_to_end :: "nat \<Rightarrow> page_pool \<Rightarrow> page_pool res" where
  "move_page_to_end i p =
     rbind (guard KeyError (i \<in> set (page_order p))) (\<lambda>_.
       Inr (p\<lparr>page_order := remove1 i (page_order p) @ [i]\<rparr>))"


subsection \<open>Copies\<close>

definition drop_copy :: "nat \<Rightarrow> tier \<Rightarrow> page_pool \<Rightarrow> page_pool res" where
  "drop_copy i t p =
     (case attached p i t of
        None \<Rightarrow> Inl RuntimeError
      | Some a \<Rightarrow>
          rbind (guard RuntimeError (copy_pins (copy_store p a) = 0)) (\<lambda>_.
            let s = copy_slot (copy_store p a) in
            rbind (guard RuntimeError (map_of (copies p t) s = Some a)) (\<lambda>_.
              Inr (upd_page i (set_page_copy t None)
                (p\<lparr>copies := (copies p)(t := AList.delete s (copies p t)),
                   free_slots := (free_slots p)(t := free_slots p t @ [s])\<rparr>)))))"

definition evict_copy :: "nat \<Rightarrow> tier \<Rightarrow> page_pool \<Rightarrow> (bool \<times> page_pool) res" where
  "evict_copy i t p =
     (if attached p i t = None \<or> \<not> is_ready p (attached p i t) \<or> is_pinned p (attached p i t) \<or>
         attached p i (other_tier t) = None \<or> \<not> is_ready p (attached p i (other_tier t))
      then Inr (False, p)
      else rbind (drop_copy i t p) (\<lambda>p'. Inr (True, p')))"

text \<open>The loop of \<open>_allocate\<close>: it stops at the first page whose copy could be evicted.\<close>

fun reclaim_copy :: "nat list \<Rightarrow> tier \<Rightarrow> page_pool \<Rightarrow> page_pool res" where
  "reclaim_copy [] t p = Inr p"
| "reclaim_copy (i # is) t p =
     rbind (evict_copy i t p) (\<lambda>(done, p'). if done then Inr p' else reclaim_copy is t p')"

definition allocate_copy :: "nat \<Rightarrow> tier \<Rightarrow> page_pool \<Rightarrow> (nat option \<times> page_pool) res" where
  "allocate_copy i t p =
     rbind (if free_slots p t = [] then reclaim_copy (page_order p) t p else Inr p) (\<lambda>p1.
       if free_slots p1 t = [] then Inr (None, p1)
       else
         let s = last (free_slots p1 t); a = next_copy p1;
             p2 = p1\<lparr>free_slots := (free_slots p1)(t := butlast (free_slots p1 t)), next_copy := a + 1,
                     copy_store := (copy_store p1)(a := \<lparr>copy_tier = t, copy_slot = s,
                       copy_ready = False, copy_pins = 0\<rparr>)\<rparr>
         in rbind (guard RuntimeError (map_of (copies p2 t) s = None)) (\<lambda>_.
              Inr (Some a, upd_page i (set_page_copy t (Some a))
                (p2\<lparr>copies := (copies p2)(t := AList.update s a (copies p2 t))\<rparr>))))"

text \<open>One iteration of the loop over the tiers in \<open>_collect\<close>.\<close>

definition collect_tier :: "nat \<Rightarrow> tier \<Rightarrow> page_pool \<Rightarrow> page_pool res" where
  "collect_tier i t p = (if attached p i t \<noteq> None then drop_copy i t p else Inr p)"

definition collect_page :: "nat \<Rightarrow> page_pool \<Rightarrow> page_pool res" where
  "collect_page i p =
     (if references (page_store p i) \<noteq> 0 \<or> is_pinned p (attached p i Host) \<or> is_pinned p (attached p i Disk)
      then Inr p
      else
        rbind (collect_tier i Host p) (\<lambda>p1.
        rbind (collect_tier i Disk p1) (\<lambda>p2.
        rbind (case pg_key (page_store p2 i) of
                 None \<Rightarrow> Inr p2
               | Some k \<Rightarrow> rbind (guard KeyError (map_of (canonical p2) k \<noteq> None)) (\<lambda>_.
                   Inr (p2\<lparr>canonical := AList.delete k (canonical p2)\<rparr>))) (\<lambda>p3.
        rbind (guard KeyError (i \<in> set (page_order p3))) (\<lambda>_.
          Inr (p3\<lparr>page_order := remove1 i (page_order p3)\<rparr>))))))"


subsection \<open>Leases\<close>

definition new_page :: "page_key option \<Rightarrow> page_pool \<Rightarrow> page_pool" where
  "new_page key p =
     (let i = next_page p;
          p1 = p\<lparr>next_page := i + 1, page_order := page_order p @ [i],
                 page_store := (page_store p)(i := \<lparr>page_id = i, pg_key = key, references = 0,
                   page_host = None, page_disk = None\<rparr>)\<rparr>
      in (case key of None \<Rightarrow> p1 | Some k \<Rightarrow> p1\<lparr>canonical := AList.update k i (canonical p1)\<rparr>))"

definition attach_lease :: "nat \<Rightarrow> string \<Rightarrow> nat \<Rightarrow> page_pool \<Rightarrow> (page_lease \<times> page_pool) res" where
  "attach_lease i owner oid p =
     (let l = \<lparr>lease_id = next_lease p, lease_page_id = page_id (page_store p i), lease_owner = owner,
               lease_object = oid\<rparr>;
          p1 = upd_page i (\<lambda>pg. pg\<lparr>references := references pg + 1\<rparr>)
                 (p\<lparr>next_lease := next_lease p + 1, leases := AList.update (next_lease p) (l, i) (leases p)\<rparr>)
      in rbind (move_page_to_end i p1) (\<lambda>p2. Inr (l, p2)))"

text \<open>\<open>_acquire\<close>; \<open>oid\<close> is the identity of the new lease object.\<close>

definition acquire_page ::
  "page_key option \<Rightarrow> string \<Rightarrow> nat \<Rightarrow> page_pool \<Rightarrow> (page_lease \<times> page_pool) res" where
  "acquire_page key owner oid p =
     rbind (guard ValueError (owner \<noteq> [])) (\<lambda>_.
       case (case key of None \<Rightarrow> None | Some k \<Rightarrow> map_of (canonical p) k) of
         Some i \<Rightarrow> attach_lease i owner oid p
       | None \<Rightarrow> attach_lease (next_page p) owner oid (new_page key p))"

definition acquire_attention :: "page_key \<Rightarrow> string \<Rightarrow> nat \<Rightarrow> page_pool \<Rightarrow> (page_lease \<times> page_pool) res" where
  "acquire_attention k owner oid p = acquire_page (Some k) owner oid p"

definition acquire_private :: "string \<Rightarrow> nat \<Rightarrow> page_pool \<Rightarrow> (page_lease \<times> page_pool) res" where
  "acquire_private owner oid p = acquire_page None owner oid p"

text \<open>The entry of a lease, when the lease is the very object the pool handed out.\<close>

definition lease_entry :: "page_lease \<Rightarrow> page_pool \<Rightarrow> nat option" where
  "lease_entry l p =
     (case map_of (leases p) (lease_id l) of
        None \<Rightarrow> None
      | Some (l', i) \<Rightarrow> if lease_object l' = lease_object l then Some i else None)"

definition page_for :: "page_lease \<Rightarrow> page_pool \<Rightarrow> nat res" where
  "page_for l p = (case lease_entry l p of None \<Rightarrow> Inl ValueError | Some i \<Rightarrow> Inr i)"

definition release_lease :: "page_lease \<Rightarrow> page_pool \<Rightarrow> (bool \<times> page_pool) res" where
  "release_lease l p =
     (case lease_entry l p of
        None \<Rightarrow> Inr (False, p)
      | Some i \<Rightarrow>
          rbind (collect_page i (upd_page i (\<lambda>pg. pg\<lparr>references := references pg - 1\<rparr>)
                   (p\<lparr>leases := AList.delete (lease_id l) (leases p)\<rparr>)))
            (\<lambda>p'. Inr (True, p')))"

definition slot_of :: "page_pool \<Rightarrow> nat option \<Rightarrow> nat option" where
  "slot_of p oa = map_option (\<lambda>a. copy_slot (copy_store p a)) oa"

definition view_page :: "page_lease \<Rightarrow> page_pool \<Rightarrow> page_view res" where
  "view_page l p =
     rbind (page_for l p) (\<lambda>i.
       let h = attached p i Host; d = attached p i Disk in
       Inr \<lparr>view_page_id = page_id (page_store p i), view_references = references (page_store p i),
            view_host_slot = slot_of p h, view_disk_slot = slot_of p d,
            view_host_ready = is_ready p h, view_disk_ready = is_ready p d\<rparr>)"


subsection \<open>Transfers\<close>

definition reserve :: "nat \<Rightarrow> page_operation \<Rightarrow> nat option \<Rightarrow> nat option \<Rightarrow> nat \<Rightarrow> page_pool \<Rightarrow>
    (page_ticket \<times> page_pool) res" where
  "reserve i op src dst oid p =
     (let loc = map_option (\<lambda>a. (copy_tier (copy_store p a), copy_slot (copy_store p a)));
          t = \<lparr>ticket_id = next_ticket p, ticket_operation = op, ticket_source = loc src,
               ticket_destination = loc dst, ticket_object = oid\<rparr>;
          p1 = add_pins 1 dst (add_pins 1 src (p\<lparr>next_ticket := next_ticket p + 1\<rparr>));
          p2 = p1\<lparr>pendings := AList.update (ticket_id t)
                 \<lparr>pd_ticket = t, pd_page = i, pd_source = src, pd_destination = dst, submitted = False\<rparr>
                 (pendings p1)\<rparr>
      in rbind (move_page_to_end (page_id (page_store p2 i)) p2) (\<lambda>p3. Inr (t, p3)))"

definition begin_offload :: "page_lease \<Rightarrow> nat \<Rightarrow> page_pool \<Rightarrow> (page_ticket option \<times> page_pool) res" where
  "begin_offload l oid p =
     rbind (page_for l p) (\<lambda>i.
       if attached p i Host \<noteq> None then Inr (None, p)
       else rbind (allocate_copy i Host p) (\<lambda>(dst, p1).
         if dst = None then Inr (None, p1)
         else rbind (reserve i Offload None dst oid p1) (\<lambda>(t, p2). Inr (Some t, p2))))"

definition begin_writeback :: "page_lease \<Rightarrow> nat \<Rightarrow> page_pool \<Rightarrow> (page_ticket option \<times> page_pool) res" where
  "begin_writeback l oid p =
     rbind (page_for l p) (\<lambda>i.
       if attached p i Disk \<noteq> None \<or> attached p i Host = None \<or> \<not> is_ready p (attached p i Host)
       then Inr (None, p)
       else rbind (allocate_copy i Disk p) (\<lambda>(dst, p1).
         if dst = None then Inr (None, p1)
         else rbind (reserve i Writeback (attached p1 i Host) dst oid p1) (\<lambda>(t, p2). Inr (Some t, p2))))"

definition begin_promotion :: "page_lease \<Rightarrow> nat \<Rightarrow> page_pool \<Rightarrow> (page_ticket option \<times> page_pool) res" where
  "begin_promotion l oid p =
     rbind (page_for l p) (\<lambda>i.
       if attached p i Host \<noteq> None \<or> attached p i Disk = None \<or> \<not> is_ready p (attached p i Disk)
       then Inr (None, p)
       else rbind (allocate_copy i Host p) (\<lambda>(dst, p1).
         if dst = None then Inr (None, p1)
         else rbind (reserve i Promote (attached p1 i Disk) dst oid p1) (\<lambda>(t, p2). Inr (Some t, p2))))"

definition begin_restore :: "page_lease \<Rightarrow> nat \<Rightarrow> page_pool \<Rightarrow> (page_ticket option \<times> page_pool) res" where
  "begin_restore l oid p =
     rbind (page_for l p) (\<lambda>i.
       if attached p i Host = None \<or> \<not> is_ready p (attached p i Host) then Inr (None, p)
       else rbind (reserve i Restore (attached p i Host) None oid p) (\<lambda>(t, p1). Inr (Some t, p1)))"

definition operation_for :: "page_ticket \<Rightarrow> page_pool \<Rightarrow> pending res" where
  "operation_for t p =
     (case map_of (pendings p) (ticket_id t) of
        None \<Rightarrow> Inl ValueError
      | Some pd \<Rightarrow> if ticket_object (pd_ticket pd) = ticket_object t then Inr pd else Inl ValueError)"

definition mark_submitted :: "pending \<Rightarrow> page_pool \<Rightarrow> page_pool" where
  "mark_submitted pd p =
     p\<lparr>pendings := AList.update (ticket_id (pd_ticket pd)) (pd\<lparr>submitted := True\<rparr>) (pendings p)\<rparr>"

definition submit_ticket :: "page_ticket \<Rightarrow> page_pool \<Rightarrow> page_pool res" where
  "submit_ticket t p =
     rbind (operation_for t p) (\<lambda>pd.
       rbind (guard ValueError (\<not> submitted pd)) (\<lambda>_. Inr (mark_submitted pd p)))"

fun operations_for :: "page_ticket list \<Rightarrow> page_pool \<Rightarrow> pending list res" where
  "operations_for [] p = Inr []"
| "operations_for (t # ts) p =
     rbind (operation_for t p) (\<lambda>pd. rbind (operations_for ts p) (\<lambda>pds. Inr (pd # pds)))"

definition validate_many :: "page_ticket list \<Rightarrow> bool \<Rightarrow> page_pool \<Rightarrow> pending list res" where
  "validate_many ts sub p =
     rbind (guard ValueError (\<not> (ts = [] \<or> card (set (map ticket_id ts)) \<noteq> length ts))) (\<lambda>_.
     rbind (operations_for ts p) (\<lambda>pds.
     rbind (guard ValueError (\<not> list_ex (\<lambda>pd. submitted pd \<noteq> sub) pds)) (\<lambda>_. Inr pds)))"

definition submit_all :: "page_ticket list \<Rightarrow> page_pool \<Rightarrow> page_pool res" where
  "submit_all ts p = rbind (validate_many ts False p) (\<lambda>pds. Inr (fold mark_submitted pds p))"

definition finish_ticket :: "bool \<Rightarrow> pending \<Rightarrow> page_pool \<Rightarrow> page_pool res" where
  "finish_ticket success pd p =
     rbind (guard KeyError (map_of (pendings p) (ticket_id (pd_ticket pd)) \<noteq> None)) (\<lambda>_.
       let p1 = add_pins (-1) (pd_destination pd) (add_pins (-1) (pd_source pd)
                  (p\<lparr>pendings := AList.delete (ticket_id (pd_ticket pd)) (pendings p)\<rparr>)) in
       rbind (case pd_destination pd of
                None \<Rightarrow> Inr p1
              | Some a \<Rightarrow>
                  if success then Inr (upd_copy a (\<lambda>c. c\<lparr>copy_ready := True\<rparr>) p1)
                  else drop_copy (pd_page pd) (copy_tier (copy_store p1 a)) p1)
         (collect_page (pd_page pd)))"

definition complete_all :: "page_ticket list \<Rightarrow> bool \<Rightarrow> page_pool \<Rightarrow> page_pool res" where
  "complete_all ts success p =
     rbind (validate_many ts True p) (\<lambda>pds. rfold (finish_ticket success) pds p)"

definition cancel_all :: "page_ticket list \<Rightarrow> page_pool \<Rightarrow> page_pool res" where
  "cancel_all ts p = rbind (validate_many ts False p) (\<lambda>pds. rfold (finish_ticket False) pds p)"

definition cancel_ticket :: "page_ticket \<Rightarrow> page_pool \<Rightarrow> page_pool res" where
  "cancel_ticket t p =
     rbind (operation_for t p) (\<lambda>pd.
       rbind (guard ValueError (\<not> submitted pd)) (\<lambda>_. finish_ticket False pd p))"

definition complete_ticket :: "page_ticket \<Rightarrow> bool \<Rightarrow> page_pool \<Rightarrow> page_pool res" where
  "complete_ticket t success p =
     rbind (operation_for t p) (\<lambda>pd.
       rbind (guard ValueError (submitted pd)) (\<lambda>_. finish_ticket success pd p))"

definition evict_host :: "page_lease \<Rightarrow> page_pool \<Rightarrow> (bool \<times> page_pool) res" where
  "evict_host l p = rbind (page_for l p) (\<lambda>i. evict_copy i Host p)"

definition evict_disk :: "page_lease \<Rightarrow> page_pool \<Rightarrow> (bool \<times> page_pool) res" where
  "evict_disk l p = rbind (page_for l p) (\<lambda>i. evict_copy i Disk p)"


subsection \<open>Statistics and the pool's own diagnostic\<close>

definition page_stats :: "page_pool \<Rightarrow> (string \<times> nat) list" where
  "page_stats p =
     [(''pages'', length (page_order p)),
      (''attention_pages'', length (canonical p)),
      (''leases'', length (leases p)), (''host_used'', length (copies p Host)),
      (''disk_used'', length (copies p Disk)), (''pending'', length (pendings p))]"

text \<open>The counter \<open>pins\<close>: how many pending transfers use the copy in a slot of a tier.\<close>

definition pending_copies :: "pending \<Rightarrow> nat list" where
  "pending_copies pd =
     (case pd_source pd of None \<Rightarrow> [] | Some a \<Rightarrow> [a]) @ (case pd_destination pd of None \<Rightarrow> [] | Some a \<Rightarrow> [a])"

definition copy_loc :: "page_pool \<Rightarrow> nat \<Rightarrow> tier \<times> nat" where
  "copy_loc p a = (copy_tier (copy_store p a), copy_slot (copy_store p a))"

definition pin_count :: "page_pool \<Rightarrow> tier \<Rightarrow> nat \<Rightarrow> nat" where
  "pin_count p t s =
     count_list (map (copy_loc p) (concat (map (\<lambda>(k, pd). pending_copies pd) (pendings p)))) (t, s)"

definition ref_count :: "page_pool \<Rightarrow> nat \<Rightarrow> nat" where
  "ref_count p i = count_list (map (\<lambda>(k, l, j). j) (leases p)) i"

definition check_pending :: "page_pool \<Rightarrow> pending \<Rightarrow> bool" where
  "check_pending p pd \<longleftrightarrow>
     pd_page pd \<in> set (page_order p) \<and>
     (case pd_source pd of None \<Rightarrow> True | Some a \<Rightarrow>
        attached p (pd_page pd) (copy_tier (copy_store p a)) = Some a \<and> copy_ready (copy_store p a)) \<and>
     (case pd_destination pd of None \<Rightarrow> True | Some a \<Rightarrow>
        attached p (pd_page pd) (copy_tier (copy_store p a)) = Some a \<and> \<not> copy_ready (copy_store p a))"

text \<open>The copies of a tier that the pages hold.\<close>

definition physical_copies :: "page_pool \<Rightarrow> tier \<Rightarrow> nat list" where
  "physical_copies p t = map the (filter (\<lambda>oa. oa \<noteq> None) (map (\<lambda>i. attached p i t) (page_order p)))"

definition check_tier :: "page_pool \<Rightarrow> tier \<Rightarrow> bool" where
  "check_tier p t \<longleftrightarrow>
     (let fr = free_slots p t; al = copies p t; ph = physical_copies p t in
      length fr = card (set fr) \<and> set fr \<inter> fst ` set al = {} \<and>
      set fr \<union> fst ` set al = {..<capacity p t} \<and>
      length ph = length al \<and> card ((\<lambda>a. copy_slot (copy_store p a)) ` set ph) = length al \<and>
      (\<forall>(s, a) \<in> set al. map_of (rev (map (\<lambda>c. (copy_slot (copy_store p c), c)) ph)) s = Some a) \<and>
      (\<forall>(s, a) \<in> set al. copy_pins (copy_store p a) = int (pin_count p t s)))"

definition check_page :: "page_pool \<Rightarrow> nat \<Rightarrow> bool" where
  "check_page p i \<longleftrightarrow>
     references (page_store p i) = int (ref_count p i) \<and>
     (references (page_store p i) \<noteq> 0 \<or> is_pinned p (attached p i Host) \<or> is_pinned p (attached p i Disk)) \<and>
     (case pg_key (page_store p i) of None \<Rightarrow> True | Some k \<Rightarrow> map_of (canonical p) k = Some i)"

text \<open>\<open>check_invariants\<close>: true when none of its assertions fails.\<close>

definition check_invariants :: "page_pool \<Rightarrow> bool" where
  "check_invariants p \<longleftrightarrow>
     (\<forall>(k, l, i) \<in> set (leases p). i \<in> set (page_order p) \<and> lease_page_id l = i) \<and>
     (\<forall>(k, pd) \<in> set (pendings p). check_pending p pd) \<and>
     check_tier p Host \<and> check_tier p Disk \<and>
     (\<forall>i \<in> set (page_order p). check_page p i) \<and>
     length (canonical p) = length (filter (\<lambda>i. pg_key (page_store p i) \<noteq> None) (page_order p))"

end
