(* ===== verification/Page_Invariant.thy ===== *)
theory Page_Invariant
  imports Page_Pool
begin

text \<open>
  The invariant of the page pool, in five parts (pages, leases, copies and slots, pending transfers,
  liveness of pages), its preservation by every operation, and the proof that it implies the pool's
  own diagnostic.  \<open>S\<close> in \<open>pool_core p S\<close> are pages that may have lost their last owner and are
  about to be collected.
\<close>

definition users :: "page_pool \<Rightarrow> nat list" where
  "users p = concat (map (\<lambda>(k, pd). pending_copies pd) (pendings p))"

definition pages_inv :: "page_pool \<Rightarrow> bool" where
  "pages_inv p \<longleftrightarrow> distinct (page_order p) \<and> distinct (map fst (canonical p)) \<and>
     (\<forall>i \<in> set (page_order p). i < next_page p \<and> page_id (page_store p i) = i) \<and>
     (\<forall>k i. (k, i) \<in> set (canonical p) \<longleftrightarrow> i \<in> set (page_order p) \<and> pg_key (page_store p i) = Some k)"

definition lease_inv :: "page_pool \<Rightarrow> bool" where
  "lease_inv p \<longleftrightarrow> distinct (map fst (leases p)) \<and>
     (\<forall>(k, l, i) \<in> set (leases p). k < next_lease p \<and> lease_id l = k \<and> lease_page_id l = i \<and>
        i \<in> set (page_order p)) \<and>
     (\<forall>i \<in> set (page_order p). references (page_store p i) = int (ref_count p i))"

definition slots_inv :: "page_pool \<Rightarrow> bool" where
  "slots_inv p \<longleftrightarrow> (\<forall>t. distinct (map fst (copies p t)) \<and> distinct (free_slots p t) \<and>
     set (free_slots p t) \<inter> fst ` set (copies p t) = {} \<and>
     set (free_slots p t) \<union> fst ` set (copies p t) = {..<capacity p t})"

definition copies_inv :: "page_pool \<Rightarrow> bool" where
  "copies_inv p \<longleftrightarrow>
     (\<forall>t s a. (s, a) \<in> set (copies p t) \<longleftrightarrow>
        (\<exists>i \<in> set (page_order p). attached p i t = Some a) \<and> copy_slot (copy_store p a) = s) \<and>
     (\<forall>i \<in> set (page_order p). \<forall>t a. attached p i t = Some a \<longrightarrow>
        copy_tier (copy_store p a) = t \<and> a < next_copy p \<and>
        (\<forall>j \<in> set (page_order p). attached p j t = Some a \<longrightarrow> j = i))"

definition pending_inv :: "page_pool \<Rightarrow> bool" where
  "pending_inv p \<longleftrightarrow> distinct (map fst (pendings p)) \<and>
     (\<forall>(k, pd) \<in> set (pendings p). k < next_ticket p \<and> ticket_id (pd_ticket pd) = k \<and>
        check_pending p pd \<and> pending_copies pd \<noteq> []) \<and>
     (\<forall>(k, pd) \<in> set (pendings p). \<forall>(k', pd') \<in> set (pendings p).
        pd_destination pd \<noteq> None \<longrightarrow> pd_destination pd' = pd_destination pd \<longrightarrow> k' = k) \<and>
     (\<forall>i \<in> set (page_order p). \<forall>t a. attached p i t = Some a \<longrightarrow>
        copy_pins (copy_store p a) = int (count_list (users p) a))"

definition alive :: "page_pool \<Rightarrow> nat \<Rightarrow> bool" where
  "alive p i \<longleftrightarrow> references (page_store p i) \<noteq> 0 \<or>
     is_pinned p (attached p i Host) \<or> is_pinned p (attached p i Disk)"

definition page_core :: "page_pool \<Rightarrow> nat set \<Rightarrow> bool" where
  "page_core p S \<longleftrightarrow> pages_inv p \<and> lease_inv p \<and> slots_inv p \<and> copies_inv p \<and> pending_inv p \<and>
     (\<forall>i \<in> set (page_order p) - S. alive p i)"

abbreviation page_inv :: "page_pool \<Rightarrow> bool" where
  "page_inv p \<equiv> page_core p {}"

lemma page_copy_of_set [simp]:
  "page_copy_of (set_page_copy t v pg) u = (if u = t then v else page_copy_of pg u)"
  by (cases t; cases u) simp_all

lemma set_page_copy_fields [simp]:
  "page_id (set_page_copy t v pg) = page_id pg" "pg_key (set_page_copy t v pg) = pg_key pg"
  "references (set_page_copy t v pg) = references pg"
  by (cases t; simp)+

lemma upd_page_simps [simp]:
  "page_store (upd_page i f p) = (page_store p)(i := f (page_store p i))"
  "page_order (upd_page i f p) = page_order p" "copy_store (upd_page i f p) = copy_store p"
  "copies (upd_page i f p) = copies p" "free_slots (upd_page i f p) = free_slots p"
  "capacity (upd_page i f p) = capacity p" "next_copy (upd_page i f p) = next_copy p"
  "canonical (upd_page i f p) = canonical p" "leases (upd_page i f p) = leases p"
  "pendings (upd_page i f p) = pendings p" "next_page (upd_page i f p) = next_page p"
  "next_lease (upd_page i f p) = next_lease p" "next_ticket (upd_page i f p) = next_ticket p"
  by (simp_all add: upd_page_def)

lemma upd_copy_simps [simp]:
  "page_store (upd_copy a g p) = page_store p"
  "page_order (upd_copy a g p) = page_order p"
  "copy_store (upd_copy a g p) = (copy_store p)(a := g (copy_store p a))"
  "copies (upd_copy a g p) = copies p" "free_slots (upd_copy a g p) = free_slots p"
  "capacity (upd_copy a g p) = capacity p" "next_copy (upd_copy a g p) = next_copy p"
  "canonical (upd_copy a g p) = canonical p" "leases (upd_copy a g p) = leases p"
  "pendings (upd_copy a g p) = pendings p" "next_page (upd_copy a g p) = next_page p"
  "next_lease (upd_copy a g p) = next_lease p" "next_ticket (upd_copy a g p) = next_ticket p"
  by (simp_all add: upd_copy_def)

lemma attached_upd [simp]:
  "attached (upd_page i f p) j t = (if j = i then page_copy_of (f (page_store p i)) t else attached p j t)"
  "attached (upd_copy a g p) j t = attached p j t"
  "attached (p\<lparr>copies := c\<rparr>) j t = attached p j t"
  "attached (p\<lparr>free_slots := fr\<rparr>) j t = attached p j t"
  "attached (p\<lparr>page_order := os\<rparr>) j t = attached p j t"
  "attached (p\<lparr>canonical := cn\<rparr>) j t = attached p j t"
  "attached (p\<lparr>leases := ls\<rparr>) j t = attached p j t"
  "attached (p\<lparr>pendings := ps\<rparr>) j t = attached p j t"
  "attached (p\<lparr>next_copy := n\<rparr>) j t = attached p j t"
  "attached (p\<lparr>next_lease := n\<rparr>) j t = attached p j t"
  "attached (p\<lparr>next_ticket := n\<rparr>) j t = attached p j t"
  "attached (p\<lparr>copy_store := cs\<rparr>) j t = attached p j t"
  by (simp_all add: attached_def upd_page_def upd_copy_def)

lemma page_coreD:
  assumes "page_core p S"
  shows "pages_inv p" "lease_inv p" "slots_inv p" "copies_inv p" "pending_inv p"
    "i \<in> set (page_order p) \<Longrightarrow> i \<notin> S \<Longrightarrow> alive p i"
  using assms by (auto simp: page_core_def)

lemma copies_invD:
  assumes "copies_inv p"
  shows "(s, a) \<in> set (copies p t) \<longleftrightarrow>
      (\<exists>i \<in> set (page_order p). attached p i t = Some a) \<and> copy_slot (copy_store p a) = s"
    and "i \<in> set (page_order p) \<Longrightarrow> attached p i t = Some a \<Longrightarrow> copy_tier (copy_store p a) = t"
    and "i \<in> set (page_order p) \<Longrightarrow> attached p i t = Some a \<Longrightarrow> a < next_copy p"
    and "i \<in> set (page_order p) \<Longrightarrow> j \<in> set (page_order p) \<Longrightarrow> attached p i t = Some a \<Longrightarrow>
      attached p j u = Some a \<Longrightarrow> j = i \<and> u = t"
  using assms unfolding copies_inv_def by metis+

lemma pending_invD:
  assumes "pending_inv p" "(k, pd) \<in> set (pendings p)"
  shows "k < next_ticket p" "ticket_id (pd_ticket pd) = k" "check_pending p pd" "pending_copies pd \<noteq> []"
    and "(k', pd') \<in> set (pendings p) \<Longrightarrow> pd_destination pd = Some a \<Longrightarrow> pd_destination pd' = Some a \<Longrightarrow> k' = k"
  using assms unfolding pending_inv_def by fastforce+

text \<open>Every copy a transfer uses is attached to its page.\<close>

lemma pending_attached:
  assumes "pending_inv p" "(k, pd) \<in> set (pendings p)" "a \<in> set (pending_copies pd)"
  shows "pd_page pd \<in> set (page_order p)" "attached p (pd_page pd) (copy_tier (copy_store p a)) = Some a"
  using pending_invD(3)[OF assms(1,2)] assms(3)
  by (auto simp: check_pending_def pending_copies_def split: option.splits)

lemma users_attached:
  assumes "pending_inv p" "a \<in> set (users p)"
  shows "\<exists>i \<in> set (page_order p). attached p i (copy_tier (copy_store p a)) = Some a"
  using assms pending_attached[OF assms(1)] unfolding users_def by fastforce

lemma unpinned_unused:
  assumes "page_core p S" "i \<in> set (page_order p)" "attached p i t = Some a"
  shows "copy_pins (copy_store p a) = int (count_list (users p) a)"
    and "copy_pins (copy_store p a) = 0 \<longleftrightarrow> a \<notin> set (users p)"
proof -
  show "copy_pins (copy_store p a) = int (count_list (users p) a)"
    using page_coreD(5)[OF assms(1)] assms(2,3) by (auto simp: pending_inv_def)
  then show "copy_pins (copy_store p a) = 0 \<longleftrightarrow> a \<notin> set (users p)"
    by (simp add: count_list_0_iff)
qed


subsection \<open>Dropping a copy\<close>

definition dropped :: "nat \<Rightarrow> tier \<Rightarrow> nat \<Rightarrow> page_pool \<Rightarrow> page_pool" where
  "dropped i t s p = upd_page i (set_page_copy t None)
     (p\<lparr>copies := (copies p)(t := AList.delete s (copies p t)),
        free_slots := (free_slots p)(t := free_slots p t @ [s])\<rparr>)"

lemma dropped_fields [simp]:
  "page_order (dropped i t s p) = page_order p" "copy_store (dropped i t s p) = copy_store p"
  "pendings (dropped i t s p) = pendings p" "leases (dropped i t s p) = leases p"
  "canonical (dropped i t s p) = canonical p" "next_page (dropped i t s p) = next_page p"
  "next_copy (dropped i t s p) = next_copy p" "next_lease (dropped i t s p) = next_lease p"
  "next_ticket (dropped i t s p) = next_ticket p" "capacity (dropped i t s p) = capacity p"
  "page_id (page_store (dropped i t s p) j) = page_id (page_store p j)"
  "pg_key (page_store (dropped i t s p) j) = pg_key (page_store p j)"
  "references (page_store (dropped i t s p) j) = references (page_store p j)"
  "attached (dropped i t s p) j u = (if j = i \<and> u = t then None else attached p j u)"
  by (auto simp: dropped_def) (simp_all add: attached_def)

lemma set_delete: "set (AList.delete k xs) = {q \<in> set xs. fst q \<noteq> k}"
  by (auto simp: AList.delete_eq)

lemma set_update:
  "distinct (map fst xs) \<Longrightarrow> set (AList.update k v xs) = insert (k, v) {x \<in> set xs. fst x \<noteq> k}"
  by (induction xs) (auto simp: image_iff)

lemma distinct_keys_eq: "distinct (map fst xs) \<Longrightarrow> (k, a) \<in> set xs \<Longrightarrow> (k, b) \<in> set xs \<Longrightarrow> a = b"
  by (metis eq_key_imp_eq_value)

lemma dropped_core:
  assumes core: "page_core p S" and i: "i \<in> set (page_order p)" "attached p i t = Some a"
    and z: "copy_pins (copy_store p a) = 0"
  defines "s \<equiv> copy_slot (copy_store p a)"
  shows "drop_copy i t p = Inr (dropped i t s p)" and "page_core (dropped i t s p) S"
proof -
  note c = page_coreD[OF core]
  note d = copies_invD[OF c(4)]
  have sa: "(s, a) \<in> set (copies p t)" using d(1) i s_def by blast
  have sl: "distinct (map fst (copies p u))" "distinct (free_slots p u)"
    "set (free_slots p u) \<inter> fst ` set (copies p u) = {}"
    "set (free_slots p u) \<union> fst ` set (copies p u) = {..<capacity p u}" for u
    using c(3) by (simp_all add: slots_inv_def)
  show "drop_copy i t p = Inr (dropped i t s p)"
    using i z map_of_is_SomeI[OF sl(1) sa] by (simp add: drop_copy_def dropped_def s_def[symmetric] Let_def)
  let ?q = "dropped i t s p"
  have att: "attached ?q j u = (if j = i \<and> u = t then None else attached p j u)" for j u
    by simp
  have un: "a \<notin> set (users p)" using unpinned_unused(2)[OF core i] z by blast
  have f: "users ?q = users p" "ref_count ?q = ref_count p"
    by (auto simp: users_def ref_count_def)
  have cp: "copies ?q = (copies p)(t := AList.delete s (copies p t))"
    "free_slots ?q = (free_slots p)(t := free_slots p t @ [s])"
    by (simp_all add: dropped_def)
  have "pages_inv ?q" using c(1) by (simp add: pages_inv_def f)
  moreover have "lease_inv ?q" using c(2) by (simp add: lease_inv_def f)
  moreover have "slots_inv ?q"
    unfolding slots_inv_def
  proof
    fix u
    have k: "fst ` set (AList.delete s (copies p t)) = fst ` set (copies p t) - {s}"
      by (auto simp: set_delete)
    have "s \<in> fst ` set (copies p t)" using sa by force
    then have "s \<notin> set (free_slots p t)" "s < capacity p t" using sl(3,4)[of t] by auto
    then show "distinct (map fst (copies ?q u)) \<and> distinct (free_slots ?q u) \<and>
        set (free_slots ?q u) \<inter> fst ` set (copies ?q u) = {} \<and>
        set (free_slots ?q u) \<union> fst ` set (copies ?q u) = {..<capacity ?q u}"
      using sl[of u] sa by (cases "u = t") (auto simp: cp f k distinct_delete)
  qed
  moreover have "copies_inv ?q"
  proof -
    have m: "(r, b) \<in> set (AList.delete s (copies p t)) \<longleftrightarrow> (r, b) \<in> set (copies p t) \<and> b \<noteq> a" for r b
      using distinct_keys_eq[OF sl(1) sa] d(1) s_def by (auto simp: set_delete)
    have e: "(\<exists>j \<in> set (page_order p). attached ?q j t = Some b) \<longleftrightarrow>
        (\<exists>j \<in> set (page_order p). attached p j t = Some b) \<and> b \<noteq> a" for b
    proof
      assume "\<exists>j \<in> set (page_order p). attached ?q j t = Some b"
      then obtain j where "j \<in> set (page_order p)" "j \<noteq> i" "attached p j t = Some b"
        by (auto simp: att split: if_splits)
      then show "(\<exists>j \<in> set (page_order p). attached p j t = Some b) \<and> b \<noteq> a"
        using i d(4)[of i j t a t] by blast
    next
      assume "(\<exists>j \<in> set (page_order p). attached p j t = Some b) \<and> b \<noteq> a"
      then obtain j where "j \<in> set (page_order p)" "attached p j t = Some b" "b \<noteq> a" by blast
      then show "\<exists>j \<in> set (page_order p). attached ?q j t = Some b"
        using i by (intro bexI[of _ j]) (auto simp: att)
    qed
    have e': "u \<noteq> t \<Longrightarrow> attached ?q j u = attached p j u" for j u by (simp add: att)
    show ?thesis
      unfolding copies_inv_def cp dropped_fields(1,2,7)
    proof (intro conjI allI ballI impI)
      fix u r b
      show "((r, b) \<in> set (((copies p)(t := AList.delete s (copies p t))) u)) =
          ((\<exists>i\<in>set (page_order p). attached ?q i u = Some b) \<and> copy_slot (copy_store p b) = r)"
        by (cases "u = t") (simp_all add: m e e' d(1) del: dropped_fields, blast)
    qed (auto simp: att split: if_splits dest: d(2-4))
  qed
  moreover have "pending_inv ?q"
  proof -
    have "check_pending ?q pd" if k: "(k, pd) \<in> set (pendings p)" for k pd
    proof -
      have "b \<in> set (pending_copies pd) \<Longrightarrow> b \<noteq> a" for b using un k by (auto simp: users_def)
      then show ?thesis
        using pending_invD(3)[OF c(5) k] i(2)
        by (fastforce simp: check_pending_def att f pending_copies_def split: option.splits)
    qed
    then show ?thesis
      using c(5) by (auto simp: pending_inv_def f)
  qed
  moreover have "alive ?q j" if "j \<in> set (page_order p) - S" for j
    using c(6)[of j] that z i(2) by (cases t) (auto simp: alive_def is_pinned_def split: option.splits)
  ultimately show "page_core ?q S" by (simp add: page_core_def)
qed


subsection \<open>Evicting redundant copies\<close>

text \<open>What eviction in tier \<open>t\<close> may do: take away copies of that tier whose page keeps a ready
  copy in the other tier.\<close>

definition trimmed :: "tier \<Rightarrow> page_pool \<Rightarrow> page_pool \<Rightarrow> bool" where
  "trimmed t p p' \<longleftrightarrow>
     page_order p' = page_order p \<and> copy_store p' = copy_store p \<and> pendings p' = pendings p \<and>
     leases p' = leases p \<and> canonical p' = canonical p \<and> next_page p' = next_page p \<and>
     next_copy p' = next_copy p \<and> next_lease p' = next_lease p \<and> next_ticket p' = next_ticket p \<and>
     capacity p' = capacity p \<and>
     (\<forall>j. page_id (page_store p' j) = page_id (page_store p j) \<and>
          pg_key (page_store p' j) = pg_key (page_store p j) \<and>
          references (page_store p' j) = references (page_store p j)) \<and>
     (\<forall>j u. attached p' j u = attached p j u \<or>
        u = t \<and> attached p' j u = None \<and> is_ready p (attached p j (other_tier t)))"

lemma other_tier_neq [simp]: "other_tier t \<noteq> t" "t \<noteq> other_tier t"
  by (cases t; simp)+

lemma trimmed_refl [simp]: "trimmed t p p"
  by (simp add: trimmed_def)

lemma is_ready_cong: "copy_store p' = copy_store p \<Longrightarrow> is_ready p' oa = is_ready p oa"
  by (cases oa) (simp_all add: is_ready_def)

lemma trimmed_other: "trimmed t p p' \<Longrightarrow> u \<noteq> t \<Longrightarrow> attached p' j u = attached p j u"
  by (auto simp: trimmed_def)

lemma trimmed_trans:
  assumes "trimmed t p q" "trimmed t q r"
  shows "trimmed t p r"
proof -
  have "is_ready q (attached q j (other_tier t)) = is_ready p (attached p j (other_tier t))" for j
    using assms(1) trimmed_other[OF assms(1)] is_ready_cong[of q p] by (simp add: trimmed_def)
  then have "\<forall>j u. attached r j u = attached p j u \<or>
      u = t \<and> attached r j u = None \<and> is_ready p (attached p j (other_tier t))"
    using assms unfolding trimmed_def by (metis (no_types, lifting))
  then show ?thesis using assms by (simp add: trimmed_def)
qed

lemma trimmed_dropped:
  "is_ready p (attached p i (other_tier t)) \<Longrightarrow> trimmed t p (dropped i t s p)"
  by (simp add: trimmed_def)

lemma evict_copy_ok:
  assumes core: "page_core p S" and i: "i \<in> set (page_order p)"
  shows "\<exists>b p'. evict_copy i t p = Inr (b, p') \<and> page_core p' S \<and> trimmed t p p' \<and>
    (b \<longrightarrow> free_slots p' t \<noteq> [])"
proof (cases "attached p i t = None \<or> \<not> is_ready p (attached p i t) \<or> is_pinned p (attached p i t) \<or>
         attached p i (other_tier t) = None \<or> \<not> is_ready p (attached p i (other_tier t))")
  case True
  then show ?thesis using core by (auto simp: evict_copy_def)
next
  case False
  then obtain a where a: "attached p i t = Some a" "copy_pins (copy_store p a) = 0"
    by (auto simp: is_pinned_def)
  let ?s = "copy_slot (copy_store p a)"
  have "evict_copy i t p = Inr (True, dropped i t ?s p)"
    using False dropped_core(1)[OF core i a] by (simp add: evict_copy_def)
  moreover have "free_slots (dropped i t ?s p) t \<noteq> []" by (simp add: dropped_def)
  ultimately show ?thesis
    using dropped_core(2)[OF core i a] trimmed_dropped[of p i t ?s] False by blast
qed

lemma reclaim_copy_ok:
  assumes "page_core p S" "set js \<subseteq> set (page_order p)"
  shows "\<exists>p'. reclaim_copy js t p = Inr p' \<and> page_core p' S \<and> trimmed t p p'"
  using assms
proof (induction js arbitrary: p)
  case (Cons i js)
  obtain b p1 where e: "evict_copy i t p = Inr (b, p1)" "page_core p1 S" "trimmed t p p1"
    using evict_copy_ok[OF Cons.prems(1), of i t] Cons.prems(2) by auto
  show ?case
  proof (cases b)
    case False
    have "set js \<subseteq> set (page_order p1)" using e(3) Cons.prems(2) by (simp add: trimmed_def)
    then obtain p2 where "reclaim_copy js t p1 = Inr p2" "page_core p2 S" "trimmed t p1 p2"
      using Cons.IH[OF e(2)] by blast
    then show ?thesis using e False trimmed_trans[OF e(3)] by auto
  qed (use e in auto)
qed auto


subsection \<open>Allocating a copy\<close>

definition installed :: "nat \<Rightarrow> tier \<Rightarrow> nat \<Rightarrow> page_pool \<Rightarrow> page_pool" where
  "installed i t s p = upd_page i (set_page_copy t (Some (next_copy p)))
     (p\<lparr>free_slots := (free_slots p)(t := butlast (free_slots p t)), next_copy := next_copy p + 1,
        copy_store := (copy_store p)(next_copy p := \<lparr>copy_tier = t, copy_slot = s,
          copy_ready = False, copy_pins = 0\<rparr>),
        copies := (copies p)(t := AList.update s (next_copy p) (copies p t))\<rparr>)"

lemma installed_fields [simp]:
  "page_order (installed i t s p) = page_order p" "pendings (installed i t s p) = pendings p"
  "leases (installed i t s p) = leases p" "canonical (installed i t s p) = canonical p"
  "next_page (installed i t s p) = next_page p" "next_copy (installed i t s p) = Suc (next_copy p)"
  "next_lease (installed i t s p) = next_lease p" "next_ticket (installed i t s p) = next_ticket p"
  "capacity (installed i t s p) = capacity p"
  "page_id (page_store (installed i t s p) j) = page_id (page_store p j)"
  "pg_key (page_store (installed i t s p) j) = pg_key (page_store p j)"
  "references (page_store (installed i t s p) j) = references (page_store p j)"
  "copy_store (installed i t s p) = (copy_store p)(next_copy p := \<lparr>copy_tier = t, copy_slot = s,
          copy_ready = False, copy_pins = 0\<rparr>)"
  "attached (installed i t s p) j u = (if j = i \<and> u = t then Some (next_copy p) else attached p j u)"
  by (auto simp: installed_def) (simp_all add: attached_def)

lemma is_pinned_cong: "copy_store p' = copy_store p \<Longrightarrow> is_pinned p' oa = is_pinned p oa"
  by (cases oa) (simp_all add: is_pinned_def)

lemma users_bound:
  assumes "page_core p S" "a \<in> set (users p)"
  shows "a < next_copy p"
  using users_attached[OF page_coreD(5)[OF assms(1)] assms(2)] copies_invD(3)[OF page_coreD(4)[OF assms(1)]]
  by blast

lemma alist_update_fresh: "k \<notin> fst ` set d \<Longrightarrow> AList.update k v d = d @ [(k, v)]"
  by (induction d) auto

lemma installed_core:
  assumes core: "page_core p S" and i: "i \<in> set (page_order p)" "attached p i t = None"
    and fr: "free_slots p t \<noteq> []"
  defines "s \<equiv> last (free_slots p t)"
  shows "map_of (copies p t) s = None" and "page_core (installed i t s p) S"
proof -
  note c = page_coreD[OF core]
  note d = copies_invD[OF c(4)]
  have sl: "distinct (map fst (copies p u))" "distinct (free_slots p u)"
    "set (free_slots p u) \<inter> fst ` set (copies p u) = {}"
    "set (free_slots p u) \<union> fst ` set (copies p u) = {..<capacity p u}" for u
    using c(3) by (simp_all add: slots_inv_def)
  have s: "s \<in> set (free_slots p t)" "s \<notin> fst ` set (copies p t)"
  proof -
    show *: "s \<in> set (free_slots p t)" using fr by (simp add: s_def)
    show "s \<notin> fst ` set (copies p t)" using sl(3)[of t] * by blast
  qed
  then show "map_of (copies p t) s = None" by (simp add: map_of_eq_None_iff)
  let ?q = "installed i t s p" and ?a = "next_copy p"
  have cp: "copies ?q = (copies p)(t := copies p t @ [(s, ?a)])"
    "free_slots ?q = (free_slots p)(t := butlast (free_slots p t))"
    using s(2) by (simp_all add: installed_def alist_update_fresh)
  have f: "users ?q = users p" "ref_count ?q = ref_count p" by (auto simp: users_def ref_count_def)
  have old: "copy_store ?q b = copy_store p b" if "b < ?a" for b using that by simp
  have bound: "attached p j u = Some b \<Longrightarrow> j \<in> set (page_order p) \<Longrightarrow> b < ?a" for j u b using d(3) by blast
  have "slots_inv ?q"
    unfolding slots_inv_def
  proof
    fix u
    have sp: "set (free_slots p t) = insert s (set (butlast (free_slots p t)))" "s \<notin> set (butlast (free_slots p t))"
      "distinct (butlast (free_slots p t))"
      using fr sl(2)[of t] append_butlast_last_id[OF fr] unfolding s_def
      by (metis Un_insert_right distinct_append list.simps(15) set_append sup_bot.right_neutral empty_set,
          metis distinct_append not_distinct_conv_prefix, metis distinct_butlast)
    show "distinct (map fst (copies ?q u)) \<and> distinct (free_slots ?q u) \<and>
        set (free_slots ?q u) \<inter> fst ` set (copies ?q u) = {} \<and>
        set (free_slots ?q u) \<union> fst ` set (copies ?q u) = {..<capacity ?q u}"
      using sl[of u] s sp by (cases "u = t") (auto simp: cp)
  qed
  moreover have "copies_inv ?q"
    unfolding copies_inv_def
  proof (intro conjI allI ballI impI)
    fix u r b
    show "((r, b) \<in> set (copies ?q u)) =
        ((\<exists>j\<in>set (page_order ?q). attached ?q j u = Some b) \<and> copy_slot (copy_store ?q b) = r)"
    proof (cases "b = ?a")
      case True
      have "(r, ?a) \<notin> set (copies p u)" using d(1) bound by blast
      then show ?thesis using True i(1) bound by (auto simp: cp)
    next
      case False
      have "(\<exists>j\<in>set (page_order ?q). attached ?q j u = Some b) \<longleftrightarrow> (\<exists>j\<in>set (page_order p). attached p j u = Some b)"
        by (rule bex_cong) (use False i(2) in auto)
      moreover have "(r, b) \<in> set (copies ?q u) \<longleftrightarrow> (r, b) \<in> set (copies p u)" using False by (auto simp: cp)
      ultimately show ?thesis using d(1) False by simp
    qed
  next
    fix j u b assume j: "j \<in> set (page_order ?q)" "attached ?q j u = Some b"
    show "copy_tier (copy_store ?q b) = u" using j d(2) bound by (fastforce split: if_splits)
    show "b < next_copy ?q" using j bound by (fastforce split: if_splits)
    fix j' assume "j' \<in> set (page_order ?q)" "attached ?q j' u = Some b"
    then show "j' = j" using j d(4) bound[where b = "next_copy p"] by (auto split: if_splits)
  qed
  moreover have "pending_inv ?q"
  proof -
    have "check_pending ?q pd" if k: "(k, pd) \<in> set (pendings p)" for k pd
    proof -
      have "b < ?a" if "b \<in> set (pending_copies pd)" for b
        using users_bound[OF core, of b] that k by (auto simp: users_def)
      moreover have "pd_page pd = i \<Longrightarrow> b \<in> set (pending_copies pd) \<Longrightarrow> copy_tier (copy_store p b) \<noteq> t" for b
        using pending_attached[OF c(5) k] i(2) by fastforce
      ultimately show ?thesis
        using pending_invD(3)[OF c(5) k]
        by (fastforce simp: check_pending_def pending_copies_def split: option.splits)
    qed
    moreover have "?a \<notin> set (users p)" using users_bound[OF core, of ?a] by blast
    then have "count_list (users p) ?a = 0" by (simp add: count_list_0_iff)
    ultimately show ?thesis
      using c(5) bound by (fastforce simp: pending_inv_def f split: if_splits)
  qed
  moreover have "alive ?q j" if "j \<in> set (page_order p) - S" for j
  proof -
    have "is_pinned p (attached p j u) \<Longrightarrow> is_pinned ?q (attached ?q j u)" for u
      using bound that i(2) by (fastforce simp: is_pinned_def split: option.splits)
    then show ?thesis using c(6)[of j] that unfolding alive_def installed_fields(12) by blast
  qed
  moreover have "pages_inv ?q" using c(1) by (simp add: pages_inv_def)
  moreover have "lease_inv ?q" using c(2) by (simp add: lease_inv_def f)
  ultimately show "page_core ?q S" by (simp add: page_core_def)
qed

lemma allocate_copy_ok:
  assumes core: "page_core p S" and i: "i \<in> set (page_order p)" "attached p i t = None"
  shows "\<exists>oa p'. allocate_copy i t p = Inr (oa, p') \<and> page_core p' S \<and>
    page_order p' = page_order p \<and> leases p' = leases p \<and> pendings p' = pendings p \<and>
    attached p' i (other_tier t) = attached p i (other_tier t) \<and>
    (\<forall>b < next_copy p. copy_store p' b = copy_store p b) \<and>
    (case oa of None \<Rightarrow> True
     | Some a \<Rightarrow> attached p' i t = Some a \<and> a \<notin> set (users p') \<and> copy_tier (copy_store p' a) = t \<and>
         \<not> copy_ready (copy_store p' a))"
proof -
  obtain p1 where p1: "(if free_slots p t = [] then reclaim_copy (page_order p) t p else Inr p) = Inr p1"
    "page_core p1 S" "trimmed t p p1"
    using reclaim_copy_ok[OF core subset_refl, of t] core by (cases "free_slots p t = []") auto
  have tr: "page_order p1 = page_order p" "leases p1 = leases p" "pendings p1 = pendings p"
    "copy_store p1 = copy_store p" "next_copy p1 = next_copy p"
    using p1(3) by (simp_all add: trimmed_def)
  have ot: "attached p1 i (other_tier t) = attached p i (other_tier t)" by (rule trimmed_other[OF p1(3)]) simp
  show ?thesis
  proof (cases "free_slots p1 t = []")
    case True
    then have "allocate_copy i t p = Inr (None, p1)" by (simp add: allocate_copy_def p1(1))
    then show ?thesis using p1(2) tr ot by auto
  next
    case False
    have i1: "i \<in> set (page_order p1)" "attached p1 i t = None"
      using i p1(3) tr(1) unfolding trimmed_def by (simp, metis)
    let ?s = "last (free_slots p1 t)"
    note inst = installed_core[OF p1(2) i1 False]
    have run: "allocate_copy i t p = Inr (Some (next_copy p1), installed i t ?s p1)"
      by (simp add: allocate_copy_def p1(1) False inst(1) installed_def upd_page_def Let_def)
    have "users (installed i t ?s p1) = users p1" by (simp add: users_def)
    then have "next_copy p1 \<notin> set (users (installed i t ?s p1))"
      using users_bound[OF p1(2), of "next_copy p1"] by auto
    then show ?thesis
      using run inst(2) tr ot i1 by (intro exI[of _ "Some (next_copy p1)"] exI[of _ "installed i t ?s p1"]) simp
  qed
qed


subsection \<open>Reservations\<close>

lemma reorder_core:
  assumes "page_core p S" "set os = set (page_order p)" "distinct os"
  shows "page_core (p\<lparr>page_order := os\<rparr>) S"
proof -
  let ?q = "p\<lparr>page_order := os\<rparr>"
  note c = page_coreD[OF assms(1)]
  have f: "users ?q = users p" "ref_count ?q = ref_count p" "check_pending ?q pd = check_pending p pd"
    "is_pinned ?q oa = is_pinned p oa" for pd oa
    using assms(2) by (auto simp: users_def ref_count_def check_pending_def is_pinned_def split: option.splits)
  have "pages_inv ?q" using c(1) assms by (simp add: pages_inv_def)
  moreover have "lease_inv ?q" using c(2) assms by (simp add: lease_inv_def f)
  moreover have "slots_inv ?q" using c(3) by (simp add: slots_inv_def)
  moreover have "copies_inv ?q" using c(4) assms by (simp add: copies_inv_def)
  moreover have "pending_inv ?q" using c(5) assms by (simp add: pending_inv_def f)
  moreover have "alive ?q i = alive p i" for i by (simp add: alive_def f)
  ultimately show ?thesis using assms(1,2) by (simp add: page_core_def)
qed

lemma move_page_ok:
  assumes "page_core p S" "i \<in> set (page_order p)"
  shows "\<exists>p'. move_page_to_end i p = Inr p' \<and> page_core p' S \<and> p' = p\<lparr>page_order := remove1 i (page_order p) @ [i]\<rparr> \<and>
    set (page_order p') = set (page_order p)"
proof -
  have d: "distinct (page_order p)" using page_coreD(1)[OF assms(1)] by (simp add: pages_inv_def)
  then have "set (remove1 i (page_order p) @ [i]) = set (page_order p)" "distinct (remove1 i (page_order p) @ [i])"
    using assms(2) by auto
  then show ?thesis using reorder_core[OF assms(1)] assms(2) by (simp add: move_page_to_end_def)
qed

lemma add_pins_simps [simp]:
  "page_store (add_pins d oa p) = page_store p" "page_order (add_pins d oa p) = page_order p"
  "copies (add_pins d oa p) = copies p" "free_slots (add_pins d oa p) = free_slots p"
  "capacity (add_pins d oa p) = capacity p" "next_copy (add_pins d oa p) = next_copy p"
  "canonical (add_pins d oa p) = canonical p" "leases (add_pins d oa p) = leases p"
  "pendings (add_pins d oa p) = pendings p" "next_page (add_pins d oa p) = next_page p"
  "next_lease (add_pins d oa p) = next_lease p" "next_ticket (add_pins d oa p) = next_ticket p"
  "attached (add_pins d oa p) j t = attached p j t"
  "copy_tier (copy_store (add_pins d oa p) a) = copy_tier (copy_store p a)"
  "copy_slot (copy_store (add_pins d oa p) a) = copy_slot (copy_store p a)"
  "copy_ready (copy_store (add_pins d oa p) a) = copy_ready (copy_store p a)"
  "copy_pins (copy_store (add_pins d oa p) a) = copy_pins (copy_store p a) + (if oa = Some a then d else 0)"
  by (auto simp: add_pins_def attached_def split: option.splits)

lemma count_pending_copies:
  "int (count_list (pending_copies pd) a) =
     (if pd_source pd = Some a then 1 else 0) + (if pd_destination pd = Some a then 1 else 0)"
  by (auto simp: pending_copies_def split: option.splits)

lemma users_append: "users (p\<lparr>pendings := ps @ qs\<rparr>) = users (p\<lparr>pendings := ps\<rparr>) @ users (p\<lparr>pendings := qs\<rparr>)"
  by (simp add: users_def)

lemma pinned_iff:
  assumes "page_core p S" "i \<in> set (page_order p)"
  shows "is_pinned p (attached p i t) \<longleftrightarrow> (\<exists>a. attached p i t = Some a \<and> a \<in> set (users p))"
  using unpinned_unused(2)[OF assms, of t] by (auto simp: is_pinned_def split: option.splits)

text \<open>Adding a pending transfer and the pins it holds.\<close>

definition with_pending :: "pending \<Rightarrow> page_pool \<Rightarrow> page_pool" where
  "with_pending pd p =
     (add_pins 1 (pd_destination pd) (add_pins 1 (pd_source pd) (p\<lparr>next_ticket := next_ticket p + 1\<rparr>)))
       \<lparr>pendings := pendings p @ [(next_ticket p, pd)]\<rparr>"

lemma with_pending_simps [simp]:
  "page_store (with_pending pd p) = page_store p" "page_order (with_pending pd p) = page_order p"
  "copies (with_pending pd p) = copies p" "free_slots (with_pending pd p) = free_slots p"
  "capacity (with_pending pd p) = capacity p" "next_copy (with_pending pd p) = next_copy p"
  "canonical (with_pending pd p) = canonical p" "leases (with_pending pd p) = leases p"
  "pendings (with_pending pd p) = pendings p @ [(next_ticket p, pd)]" "next_page (with_pending pd p) = next_page p"
  "next_lease (with_pending pd p) = next_lease p" "next_ticket (with_pending pd p) = Suc (next_ticket p)"
  "attached (with_pending pd p) j t = attached p j t"
  "copy_tier (copy_store (with_pending pd p) a) = copy_tier (copy_store p a)"
  "copy_slot (copy_store (with_pending pd p) a) = copy_slot (copy_store p a)"
  "copy_ready (copy_store (with_pending pd p) a) = copy_ready (copy_store p a)"
  "copy_pins (copy_store (with_pending pd p) a) =
     copy_pins (copy_store p a) + int (count_list (pending_copies pd) a)"
  "users (with_pending pd p) = users p @ pending_copies pd"
  "ref_count (with_pending pd p) = ref_count p"
  "check_pending (with_pending pd p) pd' = check_pending p pd'"
proof -
  show "attached (with_pending pd p) j t = attached p j t" by (simp add: with_pending_def attached_def)
  then show "check_pending (with_pending pd p) pd' = check_pending p pd'"
    by (simp add: check_pending_def with_pending_def cong: option.case_cong)
qed (auto simp: with_pending_def users_def ref_count_def count_pending_copies)

lemma with_pending_core:
  assumes core: "page_core p S" and chk: "check_pending p pd" "pending_copies pd \<noteq> []"
    and tid: "ticket_id (pd_ticket pd) = next_ticket p"
    and dst: "\<And>b. pd_destination pd = Some b \<Longrightarrow> b \<notin> set (users p)"
  shows "page_core (with_pending pd p) S"
proof -
  note c = page_coreD[OF core]
  let ?q = "with_pending pd p"
  have "pending_inv ?q"
  proof -
    have fresh: "next_ticket p \<notin> fst ` set (pendings p)"
      using pending_invD(1)[OF c(5)] by fastforce
    have "distinct (map fst (pendings ?q))" using c(5) fresh by (simp add: pending_inv_def)
    moreover have "\<forall>(k, d)\<in>set (pendings ?q). k < next_ticket ?q \<and> ticket_id (pd_ticket d) = k \<and>
        check_pending ?q d \<and> pending_copies d \<noteq> []"
      using pending_invD(1-4)[OF c(5)] chk tid by (auto simp: less_Suc_eq)
    moreover have "k' = k" if "(k, d) \<in> set (pendings ?q)" "(k', d') \<in> set (pendings ?q)"
      "pd_destination d \<noteq> None" "pd_destination d' = pd_destination d" for k d k' d'
    proof -
      note kd = that
      obtain b where b: "pd_destination d = Some b" "pd_destination d' = Some b" using kd(3,4) by auto
      have u: "(n, e) \<in> set (pendings p) \<Longrightarrow> pd_destination e = Some b \<Longrightarrow> b \<in> set (users p)" for n e
        by (force simp: users_def pending_copies_def)
      show ?thesis
        using kd(1,2) b u dst pending_invD(5)[OF c(5)] by auto
    qed
    then have "\<forall>(k, d)\<in>set (pendings ?q). \<forall>(k', d')\<in>set (pendings ?q).
        pd_destination d \<noteq> None \<longrightarrow> pd_destination d' = pd_destination d \<longrightarrow> k' = k" by blast
    moreover have "\<forall>i\<in>set (page_order ?q). \<forall>t a. attached ?q i t = Some a \<longrightarrow>
        copy_pins (copy_store ?q a) = int (count_list (users ?q) a)"
      using unpinned_unused(1)[OF core] by simp
    ultimately show ?thesis unfolding pending_inv_def by blast
  qed
  moreover have "alive ?q i" if "i \<in> set (page_order p) - S" for i
  proof -
    have "is_pinned p (attached p i t) \<Longrightarrow> is_pinned ?q (attached ?q i t)" for t
      using unpinned_unused(1)[OF core, of i t] that by (auto simp: is_pinned_def split: option.splits)
    then show ?thesis using c(6)[of i] that unfolding alive_def with_pending_simps(1) by blast
  qed
  moreover have "pages_inv ?q" using c(1) by (simp add: pages_inv_def)
  moreover have "lease_inv ?q" using c(2) by (simp add: lease_inv_def)
  moreover have "slots_inv ?q" using c(3) by (simp add: slots_inv_def)
  moreover have "copies_inv ?q" using c(4) by (simp add: copies_inv_def)
  ultimately show ?thesis by (simp add: page_core_def)
qed

lemma reserve_ok:
  assumes core: "page_core p S" and i: "i \<in> set (page_order p)"
    and src: "\<And>a. src = Some a \<Longrightarrow> attached p i (copy_tier (copy_store p a)) = Some a \<and> copy_ready (copy_store p a)"
    and dst: "\<And>b. dst = Some b \<Longrightarrow> attached p i (copy_tier (copy_store p b)) = Some b \<and>
      \<not> copy_ready (copy_store p b) \<and> b \<notin> set (users p)"
    and some: "src \<noteq> None \<or> dst \<noteq> None"
  shows "\<exists>t p'. reserve i op src dst oid p = Inr (t, p') \<and> page_core p' S"
proof -
  define pd where "pd = \<lparr>pd_ticket = \<lparr>ticket_id = next_ticket p, ticket_operation = op,
      ticket_source = map_option (\<lambda>a. (copy_tier (copy_store p a), copy_slot (copy_store p a))) src,
      ticket_destination = map_option (\<lambda>a. (copy_tier (copy_store p a), copy_slot (copy_store p a))) dst,
      ticket_object = oid\<rparr>, pd_page = i, pd_source = src, pd_destination = dst, submitted = False\<rparr>"
  note c = page_coreD[OF core]
  have fresh: "next_ticket p \<notin> fst ` set (pendings p)"
    using pending_invD(1)[OF c(5)] by fastforce
  have "check_pending p pd" using i src dst by (auto simp: check_pending_def pd_def split: option.splits)
  moreover have "pending_copies pd \<noteq> []" using some by (auto simp: pending_copies_def pd_def split: option.splits)
  ultimately have w: "page_core (with_pending pd p) S"
    by (rule with_pending_core[OF core]) (use dst in \<open>auto simp: pd_def\<close>)
  have id: "page_id (page_store p i) = i" using c(1) i by (simp add: pages_inv_def)
  have "reserve i op src dst oid p = rbind (move_page_to_end i (with_pending pd p)) (\<lambda>p3. Inr (pd_ticket pd, p3))"
    using fresh id by (simp add: reserve_def with_pending_def pd_def Let_def alist_update_fresh)
  moreover obtain p' where "move_page_to_end i (with_pending pd p) = Inr p'" "page_core p' S"
    using move_page_ok[OF w, of i] i by auto
  ultimately show ?thesis by simp
qed


subsection \<open>Operations keep the invariant and raise nothing but \<open>ValueError\<close>\<close>

definition keeps_inv :: "('a \<times> page_pool) res \<Rightarrow> bool" where
  "keeps_inv r \<longleftrightarrow> (case r of Inl e \<Rightarrow> e = ValueError | Inr (x, p) \<Rightarrow> page_inv p)"

definition keeps_pool :: "page_pool res \<Rightarrow> bool" where
  "keeps_pool r \<longleftrightarrow> (case r of Inl e \<Rightarrow> e = ValueError | Inr p \<Rightarrow> page_inv p)"

lemma keeps_simps [simp]:
  "keeps_inv (Inr (x, p)) = page_inv p" "keeps_inv (Inl e) \<longleftrightarrow> e = ValueError"
  "keeps_pool (Inr p) = page_inv p" "keeps_pool (Inl e) \<longleftrightarrow> e = ValueError"
  by (simp_all add: keeps_inv_def keeps_pool_def)

lemma map_of_mem: "map_of xs k = Some v \<Longrightarrow> (k, v) \<in> set xs"
  by (rule map_of_SomeD)

lemma page_for_cases:
  assumes "page_inv p"
  obtains "page_for l p = Inl ValueError"
  | i where "page_for l p = Inr i" "i \<in> set (page_order p)"
proof (cases "lease_entry l p")
  case None
  then show ?thesis using that(1) by (simp add: page_for_def)
next
  case (Some i)
  then obtain l' where "(lease_id l, l', i) \<in> set (leases p)"
    by (auto simp: lease_entry_def split: option.splits if_splits dest: map_of_mem)
  then have "i \<in> set (page_order p)" using page_coreD(2)[OF assms] by (auto simp: lease_inv_def)
  then show ?thesis using that(2) Some by (simp add: page_for_def)
qed

lemma is_ready_Some: "is_ready p oa \<longleftrightarrow> (\<exists>a. oa = Some a \<and> copy_ready (copy_store p a))"
  by (cases oa) (simp_all add: is_ready_def)

text \<open>A transfer into a fresh copy of tier \<open>t\<close>, from the ready copy of the other tier if
  \<open>from_other\<close>.\<close>

lemma begin_transfer_ok:
  assumes core: "page_inv p" and i: "i \<in> set (page_order p)" "attached p i t = None"
    and src: "from_other \<Longrightarrow> is_ready p (attached p i (other_tier t))"
  shows "keeps_inv (rbind (allocate_copy i t p) (\<lambda>(dst, p1).
           if dst = None then Inr (None, p1)
           else rbind (reserve i op (if from_other then attached p1 i (other_tier t) else None) dst oid p1)
             (\<lambda>(t, p2). Inr (Some t, p2))))"
proof -
  obtain oa p1 where al: "allocate_copy i t p = Inr (oa, p1)" "page_inv p1" "page_order p1 = page_order p"
    "attached p1 i (other_tier t) = attached p i (other_tier t)"
    "\<And>b. b < next_copy p \<Longrightarrow> copy_store p1 b = copy_store p b"
    "case oa of None \<Rightarrow> True
     | Some a \<Rightarrow> attached p1 i t = Some a \<and> a \<notin> set (users p1) \<and> copy_tier (copy_store p1 a) = t \<and>
         \<not> copy_ready (copy_store p1 a)"
    using allocate_copy_ok[OF core i] by blast
  show ?thesis
  proof (cases oa)
    case None
    then show ?thesis using al by simp
  next
    case (Some b)
    let ?src = "if from_other then attached p1 i (other_tier t) else None"
    have "\<exists>tk p'. reserve i op ?src (Some b) oid p1 = Inr (tk, p') \<and> page_inv p'"
    proof (rule reserve_ok[OF al(2)])
      show "i \<in> set (page_order p1)" using i al(3) by simp
      fix a assume "?src = Some a"
      then have "from_other" "attached p i (other_tier t) = Some a" using al(4) by (simp_all split: if_splits)
      moreover from this have "copy_ready (copy_store p a)" using src by (simp add: is_ready_def)
      moreover note d = copies_invD(2,3)[OF page_coreD(4)[OF core] i(1) calculation(2)]
      ultimately show "attached p1 i (copy_tier (copy_store p1 a)) = Some a \<and> copy_ready (copy_store p1 a)"
        using al(4,5) by simp
    qed (use al(6) Some in auto)
    then show ?thesis using al(1) Some by auto
  qed
qed

lemmas into_host = begin_transfer_ok[where t = Host and from_other = False, unfolded if_False]
lemmas host_to_disk = begin_transfer_ok[where t = Disk and from_other = True, unfolded if_True other_tier.simps]
lemmas disk_to_host = begin_transfer_ok[where t = Host and from_other = True, unfolded if_True other_tier.simps]

lemma begin_offload_ok:
  assumes "page_inv p"
  shows "keeps_inv (begin_offload l oid p)"
proof (rule page_for_cases[OF assms, of l])
  fix i assume i: "page_for l p = Inr i" "i \<in> set (page_order p)"
  show ?thesis
    using into_host[OF assms i(2), of Offload oid] assms
    by (cases "attached p i Host = None") (simp_all add: begin_offload_def i(1))
qed (simp add: begin_offload_def)

lemma begin_writeback_ok:
  assumes "page_inv p"
  shows "keeps_inv (begin_writeback l oid p)"
proof (rule page_for_cases[OF assms, of l])
  fix i assume i: "page_for l p = Inr i" "i \<in> set (page_order p)"
  show ?thesis
    using host_to_disk[OF assms i(2), of Writeback oid] assms
    by (cases "attached p i Disk \<noteq> None \<or> attached p i Host = None \<or> \<not> is_ready p (attached p i Host)")
      (simp_all add: begin_writeback_def i(1))
qed (simp add: begin_writeback_def)

lemma begin_promotion_ok:
  assumes "page_inv p"
  shows "keeps_inv (begin_promotion l oid p)"
proof (rule page_for_cases[OF assms, of l])
  fix i assume i: "page_for l p = Inr i" "i \<in> set (page_order p)"
  show ?thesis
    using disk_to_host[OF assms i(2), of Promote oid] assms
    by (cases "attached p i Host \<noteq> None \<or> attached p i Disk = None \<or> \<not> is_ready p (attached p i Disk)")
      (simp_all add: begin_promotion_def i(1))
qed (simp add: begin_promotion_def)

lemma begin_restore_ok:
  assumes "page_inv p"
  shows "keeps_inv (begin_restore l oid p)"
proof (rule page_for_cases[OF assms, of l])
  fix i assume i: "page_for l p = Inr i" "i \<in> set (page_order p)"
  show ?thesis
  proof (cases "is_ready p (attached p i Host)")
    case True
    then obtain a where a: "attached p i Host = Some a" "copy_ready (copy_store p a)"
      by (auto simp: is_ready_Some)
    have "copy_tier (copy_store p a) = Host" using copies_invD(2)[OF page_coreD(4)[OF assms] i(2) a(1)] .
    then obtain tk p' where "reserve i Restore (attached p i Host) None oid p = Inr (tk, p')" "page_inv p'"
      using reserve_ok[OF assms i(2), of "Some a" None Restore oid] a by auto
    then show ?thesis using i True a(1) by (simp add: begin_restore_def)
  qed (use i assms in \<open>simp add: begin_restore_def\<close>)
qed (simp add: begin_restore_def)

lemma evict_ok: "page_inv p \<Longrightarrow> keeps_inv (evict_host l p)" "page_inv p \<Longrightarrow> keeps_inv (evict_disk l p)"
proof -
  have "page_inv p \<Longrightarrow> keeps_inv (rbind (page_for l p) (\<lambda>i. evict_copy i t p))" for t
    by (rule page_for_cases[of p l]) (use evict_copy_ok[of p "{}" _ t] in fastforce)+
  then show "page_inv p \<Longrightarrow> keeps_inv (evict_host l p)" "page_inv p \<Longrightarrow> keeps_inv (evict_disk l p)"
    by (simp_all add: evict_host_def evict_disk_def)
qed


subsection \<open>Acquiring\<close>

lemma new_page_core:
  assumes core: "page_inv p" and key: "\<And>k. key = Some k \<Longrightarrow> map_of (canonical p) k = None"
  shows "page_core (new_page key p) {next_page p}"
proof -
  note c = page_coreD[OF core]
  let ?q = "new_page key p" and ?i = "next_page p"
  have ni: "?i \<notin> set (page_order p)" using c(1) by (auto simp: pages_inv_def)
  have f: "page_order ?q = page_order p @ [?i]" "leases ?q = leases p" "pendings ?q = pendings p"
    "copies ?q = copies p" "free_slots ?q = free_slots p" "capacity ?q = capacity p"
    "copy_store ?q = copy_store p" "next_copy ?q = next_copy p" "next_lease ?q = next_lease p"
    "next_ticket ?q = next_ticket p" "next_page ?q = Suc ?i"
    "page_store ?q = (page_store p)(?i := \<lparr>page_id = ?i, pg_key = key, references = 0,
       page_host = None, page_disk = None\<rparr>)"
    "canonical ?q = canonical p @ (case key of None \<Rightarrow> [] | Some k \<Rightarrow> [(k, ?i)])"
    using key by (auto simp: new_page_def Let_def alist_update_fresh map_of_eq_None_iff split: option.splits)
  have att: "attached ?q j t = (if j = ?i then None else attached p j t)" for j t
    by (cases t) (simp_all add: attached_def f)
  have u: "users ?q = users p" "ref_count ?q = ref_count p" by (auto simp: users_def ref_count_def f)
  have noref: "ref_count p ?i = 0"
    using c(2) ni by (auto simp: lease_inv_def ref_count_def count_list_0_iff)
  have nokey: "key = Some k \<Longrightarrow> (k, j) \<notin> set (canonical p)" for k j
    using key[of k] by (force simp: map_of_eq_None_iff)
  have "pages_inv ?q"
    using c(1) ni nokey key
    by (auto simp: pages_inv_def f less_Suc_eq map_of_eq_None_iff split: option.splits)
  moreover have "lease_inv ?q" using c(2) ni noref by (auto simp: lease_inv_def f u)
  moreover have "slots_inv ?q" using c(3) by (simp add: slots_inv_def f)
  moreover have "copies_inv ?q"
  proof -
    have "(\<exists>j\<in>set (page_order ?q). attached ?q j t = Some a) \<longleftrightarrow> (\<exists>j\<in>set (page_order p). attached p j t = Some a)"
      for t a
      using ni by (auto simp: f att intro!: bexI)
    then show ?thesis using c(4) ni by (auto simp: copies_inv_def f(4,7,8) att f(1))
  qed
  moreover have "pending_inv ?q"
  proof -
    have "check_pending ?q pd = check_pending p pd" if "(k, pd) \<in> set (pendings p)" for k pd
      using pending_invD(3)[OF c(5) that] ni
      by (auto simp: check_pending_def f att split: option.splits)
    then show ?thesis using c(5) ni by (fastforce simp: pending_inv_def f att u)
  qed
  moreover have "alive ?q j" if "j \<in> set (page_order p)" "j \<noteq> ?i" for j
    using c(6)[OF that(1)] that(2) is_pinned_cong[of ?q p] by (simp add: alive_def f att)
  ultimately show ?thesis by (auto simp: page_core_def f)
qed

lemma attach_lease_ok:
  assumes core: "page_core p S" and i: "i \<in> set (page_order p)"
  shows "\<exists>l p'. attach_lease i owner oid p = Inr (l, p') \<and> page_core p' (S - {i})"
proof -
  note c = page_coreD[OF core]
  have id: "page_id (page_store p i) = i" using c(1) i by (simp add: pages_inv_def)
  define l where "l = \<lparr>lease_id = next_lease p, lease_page_id = i, lease_owner = owner, lease_object = oid\<rparr>"
  define q where "q = upd_page i (\<lambda>pg. pg\<lparr>references := references pg + 1\<rparr>)
      (p\<lparr>next_lease := next_lease p + 1, leases := leases p @ [(next_lease p, l, i)]\<rparr>)"
  have fresh: "next_lease p \<notin> fst ` set (leases p)" using c(2) by (fastforce simp: lease_inv_def)
  have f: "page_order q = page_order p" "leases q = leases p @ [(next_lease p, l, i)]" "pendings q = pendings p"
    "copies q = copies p" "free_slots q = free_slots p" "capacity q = capacity p"
    "copy_store q = copy_store p" "next_copy q = next_copy p" "next_lease q = Suc (next_lease p)"
    "next_ticket q = next_ticket p" "next_page q = next_page p" "canonical q = canonical p"
    "page_id (page_store q j) = page_id (page_store p j)" "pg_key (page_store q j) = pg_key (page_store p j)"
    "references (page_store q j) = references (page_store p j) + (if j = i then 1 else 0)"
    "attached q j t = attached p j t" "users q = users p"
    "ref_count q j = ref_count p j + (if j = i then 1 else 0)" for j t
    by (auto simp: q_def users_def ref_count_def) (cases t; simp add: attached_def)
  have "pages_inv q" using c(1) by (simp add: pages_inv_def f)
  moreover have "lease_inv q" using c(2) fresh i by (auto simp: lease_inv_def f l_def less_Suc_eq)
  moreover have "slots_inv q" using c(3) by (simp add: slots_inv_def f)
  moreover have "copies_inv q" using c(4) by (simp add: copies_inv_def f)
  moreover have "pending_inv q"
    using c(5) by (simp add: pending_inv_def check_pending_def f cong: option.case_cong)
  moreover have "alive q j" if j: "j \<in> set (page_order p)" "j \<notin> S - {i}" for j
  proof (cases "j = i")
    case True
    then show ?thesis using c(2) i by (simp add: alive_def f lease_inv_def)
  next
    case False
    then show ?thesis using c(6)[of j] j is_pinned_cong[of q p] by (simp add: alive_def f)
  qed
  ultimately have core': "page_core q (S - {i})" by (simp add: page_core_def f)
  have "attach_lease i owner oid p = rbind (move_page_to_end i q) (\<lambda>p2. Inr (l, p2))"
    using fresh id by (simp add: attach_lease_def q_def l_def Let_def alist_update_fresh)
  then show ?thesis using move_page_ok[OF core'] i by (fastforce simp: f)
qed

lemma acquire_page_ok:
  assumes core: "page_inv p"
  shows "keeps_inv (acquire_page key owner oid p)"
    and "owner \<noteq> [] \<Longrightarrow> \<exists>l p'. acquire_page key owner oid p = Inr (l, p')"
proof -
  have "\<exists>l p'. acquire_page key owner oid p = Inr (l, p') \<and> page_inv p'" if owner: "owner \<noteq> []"
  proof (cases "case key of None \<Rightarrow> None | Some k \<Rightarrow> map_of (canonical p) k")
    case None
    then have "\<And>k. key = Some k \<Longrightarrow> map_of (canonical p) k = None" by simp
    note n = new_page_core[OF core this]
    have "next_page p \<in> set (page_order (new_page key p))" by (simp add: new_page_def Let_def split: option.splits)
    from attach_lease_ok[OF n this] show ?thesis using None owner by (auto simp: acquire_page_def)
  next
    case (Some i)
    then obtain k where "(k, i) \<in> set (canonical p)" by (auto split: option.splits dest: map_of_mem)
    then have "i \<in> set (page_order p)" using page_coreD(1)[OF core] by (auto simp: pages_inv_def)
    from attach_lease_ok[OF core this] show ?thesis using Some owner by (auto simp: acquire_page_def)
  qed
  then show "keeps_inv (acquire_page key owner oid p)"
    "owner \<noteq> [] \<Longrightarrow> \<exists>l p'. acquire_page key owner oid p = Inr (l, p')"
    by (cases "owner = []"; fastforce simp: acquire_page_def)+
qed


subsection \<open>Collecting a page without owners\<close>

lemma collect_tier_ok:
  assumes core: "page_core p S" and i: "i \<in> set (page_order p)" "\<not> is_pinned p (attached p i t)"
  shows "\<exists>p'. collect_tier i t p = Inr p' \<and> page_core p' S \<and> page_order p' = page_order p \<and>
    leases p' = leases p \<and> pendings p' = pendings p \<and> canonical p' = canonical p \<and> copy_store p' = copy_store p \<and>
    references (page_store p' i) = references (page_store p i) \<and> pg_key (page_store p' i) = pg_key (page_store p i) \<and>
    (\<forall>u. attached p' i u = (if u = t then None else attached p i u))"
proof (cases "attached p i t")
  case None
  then show ?thesis using core by (simp add: collect_tier_def)
next
  case (Some a)
  then have z: "copy_pins (copy_store p a) = 0" using i(2) by (simp add: is_pinned_def)
  show ?thesis
    using dropped_core[OF core i(1) Some z] Some by (simp add: collect_tier_def)
qed

definition without_page :: "nat \<Rightarrow> page_pool \<Rightarrow> page_pool" where
  "without_page i p =
     (case pg_key (page_store p i) of
        None \<Rightarrow> p
      | Some k \<Rightarrow> p\<lparr>canonical := AList.delete k (canonical p)\<rparr>)\<lparr>page_order := remove1 i (page_order p)\<rparr>"

lemma remove_page_core:
  assumes core: "page_core p {i}" and i: "i \<in> set (page_order p)"
    and gone: "references (page_store p i) = 0" "\<And>t. attached p i t = None"
  shows "page_inv (without_page i p)"
proof -
  note c = page_coreD[OF core]
  let ?q = "without_page i p"
  have f: "page_order ?q = remove1 i (page_order p)" "leases ?q = leases p" "pendings ?q = pendings p"
    "copies ?q = copies p" "free_slots ?q = free_slots p" "capacity ?q = capacity p"
    "copy_store ?q = copy_store p" "next_copy ?q = next_copy p" "next_lease ?q = next_lease p"
    "next_ticket ?q = next_ticket p" "next_page ?q = next_page p" "page_store ?q = page_store p"
    by (simp_all add: without_page_def split: option.split)
  have cn: "set (canonical ?q) = {(k, j) \<in> set (canonical p). j \<noteq> i}" "distinct (map fst (canonical ?q))"
  proof -
    have "(k, j) \<in> set (canonical p) \<Longrightarrow> j = i \<longleftrightarrow> pg_key (page_store p i) = Some k" for k j
      using c(1) i distinct_keys_eq[of "canonical p" k j i] by (auto simp: pages_inv_def)
    then have kk: "(k, j) \<in> set (canonical p) \<Longrightarrow> j \<noteq> i \<longleftrightarrow> pg_key (page_store p i) \<noteq> Some k" for k j by blast
    show "set (canonical ?q) = {(k, j) \<in> set (canonical p). j \<noteq> i}"
    proof (cases "pg_key (page_store p i)")
      case None
      then show ?thesis using kk by (auto simp: without_page_def)
    next
      case (Some k0)
      then have "canonical ?q = AList.delete k0 (canonical p)" by (simp add: without_page_def)
      moreover have d: "(k0, j) \<in> set (canonical p) \<Longrightarrow> j = i" "(k, i) \<in> set (canonical p) \<Longrightarrow> k = k0" for k j
        using kk[of k0 j] kk[of k i] Some by auto
      have "{q \<in> set (canonical p). fst q \<noteq> k0} = {(k, j) \<in> set (canonical p). j \<noteq> i}"
        by (auto dest: d)
      ultimately show ?thesis by (simp add: set_delete)
    qed
    show "distinct (map fst (canonical ?q))"
      using c(1) by (auto simp: without_page_def pages_inv_def distinct_delete split: option.split)
  qed
  have d: "distinct (page_order p)" using c(1) by (simp add: pages_inv_def)
  then have o: "set (page_order ?q) = set (page_order p) - {i}" by (simp add: f)
  have att: "attached ?q j t = attached p j t" for j t by (simp add: attached_def f)
  have u: "users ?q = users p" "ref_count ?q = ref_count p" by (auto simp: users_def ref_count_def f)
  have noref: "(k, l, i) \<notin> set (leases p)" for k l
  proof -
    have "ref_count p i = 0" using c(2) i gone(1) by (simp add: lease_inv_def)
    then show ?thesis by (force simp: ref_count_def count_list_0_iff)
  qed
  have nopd: "(k, pd) \<in> set (pendings p) \<Longrightarrow> pd_page pd \<noteq> i" for k pd
    using pending_attached[OF c(5)] pending_invD(4)[OF c(5)] gone(2)
    by (metis list.set_sel(1) option.distinct(1))
  have "pages_inv ?q" using c(1) d by (auto simp: pages_inv_def o cn f)
  moreover have "lease_inv ?q" using c(2) noref by (fastforce simp: lease_inv_def o u f(2,9,12))
  moreover have "slots_inv ?q" using c(3) by (simp add: slots_inv_def f)
  moreover have "copies_inv ?q"
  proof -
    have "(\<exists>j\<in>set (page_order ?q). attached p j t = Some a) \<longleftrightarrow> (\<exists>j\<in>set (page_order p). attached p j t = Some a)"
      for t a
      using gone(2) unfolding o by (metis Diff_iff empty_iff insert_iff option.distinct(1))
    then show ?thesis using c(4) unfolding copies_inv_def f(4,7,8) att o by simp blast
  qed
  moreover have "pending_inv ?q"
  proof -
    have "check_pending ?q pd" if "(k, pd) \<in> set (pendings p)" for k pd
      using pending_invD(3)[OF c(5) that] nopd[OF that]
      by (simp add: check_pending_def att o f cong: option.case_cong)
    then show ?thesis using c(5) by (fastforce simp: pending_inv_def f(3,7,10) att u o)
  qed
  moreover have "alive ?q j" if "j \<in> set (page_order ?q)" for j
    using c(6)[of j] that is_pinned_cong[of ?q p] by (simp add: alive_def f(7,12) att o)
  ultimately show ?thesis by (simp add: page_core_def)
qed

lemma collect_page_ok:
  assumes core: "page_core p {i}" and i: "i \<in> set (page_order p)"
  shows "\<exists>p'. collect_page i p = Inr p' \<and> page_inv p' \<and> leases p' = leases p \<and> pendings p' = pendings p"
proof (cases "alive p i")
  case True
  then have "page_inv p" using core by (auto simp: page_core_def)
  then show ?thesis using True by (auto simp: collect_page_def alive_def)
next
  case False
  then have z: "references (page_store p i) = 0" "\<not> is_pinned p (attached p i Host)" "\<not> is_pinned p (attached p i Disk)"
    by (auto simp: alive_def)
  obtain p1 where p1: "collect_tier i Host p = Inr p1" "page_core p1 {i}" "page_order p1 = page_order p"
    "leases p1 = leases p" "pendings p1 = pendings p" "copy_store p1 = copy_store p"
    "references (page_store p1 i) = references (page_store p i)"
    "\<And>u. attached p1 i u = (if u = Host then None else attached p i u)"
    using collect_tier_ok[OF core i z(2)] by blast
  have i1: "i \<in> set (page_order p1)" "\<not> is_pinned p1 (attached p1 i Disk)"
    using i z(3) p1(3,8) is_pinned_cong[OF p1(6)] by simp_all
  obtain p2 where p2: "collect_tier i Disk p1 = Inr p2" "page_core p2 {i}" "page_order p2 = page_order p1"
    "leases p2 = leases p1" "pendings p2 = pendings p1"
    "references (page_store p2 i) = references (page_store p1 i)"
    "\<And>u. attached p2 i u = (if u = Disk then None else attached p1 i u)"
    using collect_tier_ok[OF p1(2) i1] by blast
  have i2: "i \<in> set (page_order p2)" using i p1(3) p2(3) by simp
  have at: "attached p2 i t = None" for t using p1(8) p2(7) by (cases t) simp_all
  have inv: "page_inv (without_page i p2)"
    by (rule remove_page_core[OF p2(2) i2]) (use p1(7) p2(6) z(1) at in simp_all)
  have key: "pg_key (page_store p2 i) = Some k \<Longrightarrow> map_of (canonical p2) k \<noteq> None" for k
    using page_coreD(1)[OF p2(2)] i2 by (force simp: pages_inv_def map_of_eq_None_iff)
  have "collect_page i p = Inr (without_page i p2)"
    using z key i2
    by (cases "pg_key (page_store p2 i)") (auto simp: collect_page_def p1(1) p2(1) without_page_def)
  moreover have "leases (without_page i p2) = leases p" "pendings (without_page i p2) = pendings p"
    using p1(4,5) p2(4,5) by (simp_all add: without_page_def split: option.split)
  ultimately show ?thesis using inv by blast
qed

lemma count_delete:
  "distinct (map fst xs) \<Longrightarrow> (k, v) \<in> set xs \<Longrightarrow>
   count_list (concat (map f xs)) a =
     count_list (f (k, v)) a + count_list (concat (map f (AList.delete k xs))) a"
proof (induction xs)
  case (Cons x xs)
  show ?case
  proof (cases "fst x = k")
    case True
    then have n: "k \<notin> fst ` set xs" using Cons.prems(1) by auto
    then have "x = (k, v)" using True Cons.prems(2) by (auto simp: image_iff)
    then show ?thesis using n by (simp add: delete_idem)
  next
    case False
    then show ?thesis using Cons by (cases x) auto
  qed
qed simp

lemma release_lease_ok:
  assumes core: "page_inv p"
  shows "\<exists>b p'. release_lease l p = Inr (b, p') \<and> page_inv p' \<and> (b \<longleftrightarrow> lease_entry l p \<noteq> None)"
proof (cases "lease_entry l p")
  case None
  then show ?thesis using core by (intro exI[of _ False] exI[of _ p]) (simp add: release_lease_def)
next
  case (Some i)
  note c = page_coreD[OF core]
  obtain l' where l': "(lease_id l, l', i) \<in> set (leases p)"
    using Some by (auto simp: lease_entry_def split: option.splits if_splits dest: map_of_mem)
  then have i: "i \<in> set (page_order p)" using c(2) by (auto simp: lease_inv_def)
  define q where "q = upd_page i (\<lambda>pg. pg\<lparr>references := references pg - 1\<rparr>)
      (p\<lparr>leases := AList.delete (lease_id l) (leases p)\<rparr>)"
  have f: "page_order q = page_order p" "leases q = AList.delete (lease_id l) (leases p)" "pendings q = pendings p"
    "copies q = copies p" "free_slots q = free_slots p" "capacity q = capacity p"
    "copy_store q = copy_store p" "next_copy q = next_copy p" "next_lease q = next_lease p"
    "next_ticket q = next_ticket p" "next_page q = next_page p" "canonical q = canonical p"
    "page_id (page_store q j) = page_id (page_store p j)" "pg_key (page_store q j) = pg_key (page_store p j)"
    "references (page_store q j) = references (page_store p j) - (if j = i then 1 else 0)"
    "attached q j t = attached p j t" "users q = users p" for j t
    by (auto simp: q_def users_def) (cases t; simp add: attached_def)
  have dl: "distinct (map fst (leases p))" using c(2) by (simp add: lease_inv_def)
  have rc: "int (ref_count q j) = int (ref_count p j) - (if j = i then 1 else 0)" for j
    using count_delete[OF dl l', of "\<lambda>(k, l, j). [j]" j]
    by (simp add: ref_count_def f(2) case_prod_unfold)
  have "pages_inv q" using c(1) by (simp add: pages_inv_def f)
  moreover have "lease_inv q" using c(2) i
    by (auto simp: lease_inv_def f(1,2,9,15) rc set_delete distinct_delete)
  moreover have "slots_inv q" using c(3) by (simp add: slots_inv_def f)
  moreover have "copies_inv q" using c(4) by (simp add: copies_inv_def f)
  moreover have "pending_inv q"
    using c(5) by (simp add: pending_inv_def check_pending_def f cong: option.case_cong)
  moreover have "alive q j" if "j \<in> set (page_order p)" "j \<noteq> i" for j
    using c(6)[of j] that is_pinned_cong[of q p] by (simp add: alive_def f)
  ultimately have "page_core q {i}" by (auto simp: page_core_def f)
  from collect_page_ok[OF this] i Some show ?thesis
    by (fastforce simp: release_lease_def q_def[symmetric] f)
qed


subsection \<open>Finishing a transfer\<close>

definition without_pending :: "nat \<Rightarrow> pending \<Rightarrow> page_pool \<Rightarrow> page_pool" where
  "without_pending k pd p =
     add_pins (-1) (pd_destination pd) (add_pins (-1) (pd_source pd)
       (p\<lparr>pendings := AList.delete k (pendings p)\<rparr>))"

lemma without_pending_simps [simp]:
  "page_store (without_pending k pd p) = page_store p" "page_order (without_pending k pd p) = page_order p"
  "copies (without_pending k pd p) = copies p" "free_slots (without_pending k pd p) = free_slots p"
  "capacity (without_pending k pd p) = capacity p" "next_copy (without_pending k pd p) = next_copy p"
  "canonical (without_pending k pd p) = canonical p" "leases (without_pending k pd p) = leases p"
  "pendings (without_pending k pd p) = AList.delete k (pendings p)"
  "next_page (without_pending k pd p) = next_page p"
  "next_lease (without_pending k pd p) = next_lease p" "next_ticket (without_pending k pd p) = next_ticket p"
  "attached (without_pending k pd p) j t = attached p j t"
  "copy_tier (copy_store (without_pending k pd p) a) = copy_tier (copy_store p a)"
  "copy_slot (copy_store (without_pending k pd p) a) = copy_slot (copy_store p a)"
  "copy_ready (copy_store (without_pending k pd p) a) = copy_ready (copy_store p a)"
  "copy_pins (copy_store (without_pending k pd p) a) =
     copy_pins (copy_store p a) - int (count_list (pending_copies pd) a)"
  "ref_count (without_pending k pd p) = ref_count p"
  "check_pending (without_pending k pd p) pd' = check_pending p pd'"
proof -
  show "attached (without_pending k pd p) j t = attached p j t" by (simp add: without_pending_def)
  then show "check_pending (without_pending k pd p) pd' = check_pending p pd'"
    by (simp add: check_pending_def without_pending_def cong: option.case_cong)
qed (auto simp: without_pending_def ref_count_def count_pending_copies)

lemma users_without:
  assumes "page_core p S" "(k, pd) \<in> set (pendings p)"
  shows "count_list (users p) a = count_list (pending_copies pd) a + count_list (users (without_pending k pd p)) a"
proof -
  have "distinct (map fst (pendings p))" using page_coreD(5)[OF assms(1)] by (simp add: pending_inv_def)
  from count_delete[OF this assms(2), of "\<lambda>(k, pd). pending_copies pd" a] show ?thesis by (simp add: users_def)
qed

lemma without_pending_core:
  assumes core: "page_inv p" and pd: "(k, pd) \<in> set (pendings p)"
  shows "page_core (without_pending k pd p) {pd_page pd}"
    and "pd_destination pd = Some a \<Longrightarrow> a \<notin> set (users (without_pending k pd p))"
proof -
  note c = page_coreD[OF core]
  let ?q = "without_pending k pd p"
  note uw = users_without[OF core pd]
  have sub: "set (pendings ?q) \<subseteq> set (pendings p)" by (auto simp: set_delete)
  have "pending_inv ?q"
  proof -
    have "distinct (map fst (pendings ?q))" using c(5) by (simp add: pending_inv_def distinct_delete)
    moreover have "\<forall>(k, d)\<in>set (pendings ?q). k < next_ticket ?q \<and> ticket_id (pd_ticket d) = k \<and>
        check_pending ?q d \<and> pending_copies d \<noteq> []"
      using pending_invD(1-4)[OF c(5)] sub by fastforce
    moreover have "\<forall>(k, d)\<in>set (pendings ?q). \<forall>(k', d')\<in>set (pendings ?q).
        pd_destination d \<noteq> None \<longrightarrow> pd_destination d' = pd_destination d \<longrightarrow> k' = k"
    proof clarify
      fix n d n' d' b
      assume "(n, d) \<in> set (pendings ?q)" "(n', d') \<in> set (pendings ?q)"
        and b: "pd_destination d' = pd_destination d" "pd_destination d = Some b"
      then have "(n, d) \<in> set (pendings p)" "(n', d') \<in> set (pendings p)" using sub by blast+
      then show "n' = n" using pending_invD(5)[OF c(5)] b by metis
    qed
    moreover have "\<forall>i\<in>set (page_order ?q). \<forall>t a. attached ?q i t = Some a \<longrightarrow>
        copy_pins (copy_store ?q a) = int (count_list (users ?q) a)"
      using unpinned_unused(1)[OF core] uw by simp
    ultimately show ?thesis unfolding pending_inv_def by blast
  qed
  moreover have "alive ?q j" if j: "j \<in> set (page_order p)" "j \<noteq> pd_page pd" for j
  proof -
    have "is_pinned p (attached p j t) \<Longrightarrow> is_pinned ?q (attached ?q j t)" for t
    proof -
      assume "is_pinned p (attached p j t)"
      then obtain b where b: "attached p j t = Some b" "copy_pins (copy_store p b) \<noteq> 0"
        by (auto simp: is_pinned_def split: option.splits)
      have "b \<notin> set (pending_copies pd)"
        using pending_attached[OF c(5) pd, of b] copies_invD(4)[OF c(4) j(1) _ b(1)] j(2) by blast
      then show ?thesis using b by (simp add: is_pinned_def count_list_0_iff)
    qed
    then show ?thesis using c(6)[OF j(1)] unfolding alive_def without_pending_simps(1) by blast
  qed
  moreover have "pages_inv ?q" using c(1) by (simp add: pages_inv_def)
  moreover have "lease_inv ?q" using c(2) by (simp add: lease_inv_def)
  moreover have "slots_inv ?q" using c(3) by (simp add: slots_inv_def)
  moreover have "copies_inv ?q" using c(4) by (simp add: copies_inv_def)
  ultimately show "page_core ?q {pd_page pd}" by (auto simp: page_core_def)
  assume a: "pd_destination pd = Some a"
  then have nr: "\<not> copy_ready (copy_store p a)"
    using pending_invD(3)[OF c(5) pd] by (simp add: check_pending_def)
  show "a \<notin> set (users ?q)"
  proof
    assume "a \<in> set (users ?q)"
    then obtain k' d where d: "(k', d) \<in> set (pendings p)" "k' \<noteq> k" "a \<in> set (pending_copies d)"
      by (auto simp: users_def set_delete)
    then have "pd_source d = Some a \<or> pd_destination d = Some a"
      by (auto simp: pending_copies_def split: option.splits)
    then show False
      using nr pending_invD(3)[OF c(5) d(1)] pending_invD(5)[OF c(5) pd d(1) a] d(2)
      by (auto simp: check_pending_def)
  qed
qed

lemma ready_core:
  assumes core: "page_core p S" and a: "a \<notin> set (users p)"
  shows "page_core (upd_copy a (\<lambda>c. c\<lparr>copy_ready := True\<rparr>) p) S"
proof -
  note c = page_coreD[OF core]
  let ?q = "upd_copy a (\<lambda>c. c\<lparr>copy_ready := True\<rparr>) p"
  have f: "users ?q = users p" "ref_count ?q = ref_count p"
    "copy_pins (copy_store ?q b) = copy_pins (copy_store p b)"
    "copy_slot (copy_store ?q b) = copy_slot (copy_store p b)"
    "copy_tier (copy_store ?q b) = copy_tier (copy_store p b)" for b
    by (auto simp: users_def ref_count_def)
  have chk: "check_pending ?q pd" if "(k, pd) \<in> set (pendings p)" for k pd
  proof -
    have "b \<in> set (pending_copies pd) \<Longrightarrow> b \<noteq> a" for b using a that by (auto simp: users_def)
    then show ?thesis
      using pending_invD(3)[OF c(5) that]
      by (fastforce simp: check_pending_def pending_copies_def split: option.splits)
  qed
  have "pending_inv ?q"
    unfolding pending_inv_def f upd_copy_simps(2,10,13) attached_upd
  proof (intro conjI)
    show "\<forall>(k, pd)\<in>set (pendings p). k < next_ticket p \<and> ticket_id (pd_ticket pd) = k \<and>
        check_pending ?q pd \<and> pending_copies pd \<noteq> []"
      using pending_invD(1,2,4)[OF c(5)] chk by blast
  qed (use c(5) in \<open>simp_all add: pending_inv_def\<close>)
  moreover have "copies_inv ?q" using c(4) unfolding copies_inv_def f by simp
  moreover have "alive ?q j = alive p j" for j
  proof -
    have "is_pinned ?q oa = is_pinned p oa" for oa
      by (cases oa) (simp_all only: is_pinned_def f option.case)
    then show ?thesis by (simp add: alive_def)
  qed
  moreover have "pages_inv ?q" using c(1) by (simp add: pages_inv_def)
  moreover have "lease_inv ?q" using c(2) by (simp add: lease_inv_def f)
  moreover have "slots_inv ?q" using c(3) by (simp add: slots_inv_def)
  ultimately show ?thesis using c(6) by (simp add: page_core_def)
qed

lemma finish_ticket_ok:
  assumes core: "page_inv p" and pd: "(k, pd) \<in> set (pendings p)"
  shows "\<exists>p'. finish_ticket success pd p = Inr p' \<and> page_inv p' \<and> pendings p' = AList.delete k (pendings p)"
proof -
  note c = page_coreD[OF core]
  have k: "ticket_id (pd_ticket pd) = k" by (rule pending_invD(2)[OF c(5) pd])
  have some: "map_of (pendings p) k \<noteq> None" using weak_map_of_SomeI[OF pd] by auto
  let ?p1 = "without_pending k pd p" and ?i = "pd_page pd"
  note w = without_pending_core[OF core pd]
  have i: "?i \<in> set (page_order ?p1)"
    using pending_invD(3)[OF c(5) pd] by (simp add: check_pending_def)
  have run: "finish_ticket success pd p =
      rbind (case pd_destination pd of None \<Rightarrow> Inr ?p1
             | Some a \<Rightarrow> if success then Inr (upd_copy a (\<lambda>c. c\<lparr>copy_ready := True\<rparr>) ?p1)
                         else drop_copy ?i (copy_tier (copy_store ?p1 a)) ?p1) (collect_page ?i)"
    using some unfolding finish_ticket_def k without_pending_def Let_def by simp
  obtain p2 where p2: "(case pd_destination pd of None \<Rightarrow> Inr ?p1
             | Some a \<Rightarrow> if success then Inr (upd_copy a (\<lambda>c. c\<lparr>copy_ready := True\<rparr>) ?p1)
                         else drop_copy ?i (copy_tier (copy_store ?p1 a)) ?p1) = Inr p2"
    "page_core p2 {?i}" "page_order p2 = page_order p" "pendings p2 = AList.delete k (pendings p)"
  proof (cases "pd_destination pd")
    case None
    then show ?thesis using that[of ?p1] w(1) by simp
  next
    case (Some a)
    show ?thesis
    proof (cases success)
      case True
      then show ?thesis
        using that[of "upd_copy a (\<lambda>c. c\<lparr>copy_ready := True\<rparr>) ?p1"] Some ready_core[OF w(1) w(2)[OF Some]] by simp
    next
      case False
      let ?t = "copy_tier (copy_store ?p1 a)"
      have a: "attached ?p1 ?i ?t = Some a"
        using pending_invD(3)[OF c(5) pd] Some by (simp add: check_pending_def)
      have "copy_pins (copy_store ?p1 a) = 0"
        using unpinned_unused(2)[OF w(1) i a] w(2)[OF Some] by blast
      note dc = dropped_core[OF w(1) i a this]
      then show ?thesis
        using that[of "dropped ?i ?t (copy_slot (copy_store ?p1 a)) ?p1"] Some False by simp
    qed
  qed
  have "?i \<in> set (page_order p2)" using i p2(3) by simp
  from collect_page_ok[OF p2(2) this] show ?thesis unfolding run p2(1) using p2(4) by auto
qed

lemma operation_for_cases:
  assumes "page_inv p"
  obtains "operation_for t p = Inl ValueError"
  | pd where "operation_for t p = Inr pd" "(ticket_id t, pd) \<in> set (pendings p)"
proof (cases "map_of (pendings p) (ticket_id t)")
  case None
  then show ?thesis using that(1) by (simp add: operation_for_def)
next
  case (Some pd)
  then show ?thesis
    using that map_of_SomeD[OF Some]
    by (cases "ticket_object (pd_ticket pd) = ticket_object t") (simp_all add: operation_for_def)
qed

text \<open>Marking a transfer as submitted changes nothing the invariant speaks of.\<close>

lemma mark_submitted_core:
  assumes core: "page_core p S" and pd: "(k, pd) \<in> set (pendings p)"
  shows "page_core (mark_submitted pd p) S"
    and "k' \<noteq> k \<Longrightarrow> (k', d) \<in> set (pendings (mark_submitted pd p)) \<longleftrightarrow> (k', d) \<in> set (pendings p)"
proof -
  note c = page_coreD[OF core]
  let ?q = "mark_submitted pd p" and ?pd = "pd\<lparr>submitted := True\<rparr>"
  have k: "ticket_id (pd_ticket pd) = k" by (rule pending_invD(2)[OF c(5) pd])
  have dk: "distinct (map fst (pendings p))" using c(5) by (simp add: pending_inv_def)
  have same: "pending_copies ?pd = pending_copies pd" by (simp add: pending_copies_def)
  have "map (\<lambda>(n, d). pending_copies d) (AList.update k ?pd xs) = map (\<lambda>(n, d). pending_copies d) xs"
    if "distinct (map fst xs)" "(k, pd) \<in> set xs" for xs
    using that by (induction xs) (auto simp: same image_iff)
  from this[OF dk pd] have u: "users ?q = users p" by (simp add: users_def mark_submitted_def k)
  have set: "set (pendings ?q) = insert (k, ?pd) {x \<in> set (pendings p). fst x \<noteq> k}"
    using set_update[OF dk] by (simp add: mark_submitted_def k)
  then show "k' \<noteq> k \<Longrightarrow> (k', d) \<in> set (pendings ?q) \<longleftrightarrow> (k', d) \<in> set (pendings p)" by auto
  have f: "page_order ?q = page_order p" "leases ?q = leases p" "copies ?q = copies p"
    "free_slots ?q = free_slots p" "capacity ?q = capacity p" "copy_store ?q = copy_store p"
    "next_copy ?q = next_copy p" "next_lease ?q = next_lease p" "next_ticket ?q = next_ticket p"
    "next_page ?q = next_page p" "page_store ?q = page_store p" "canonical ?q = canonical p"
    "attached ?q j t = attached p j t" "ref_count ?q = ref_count p" for j t
    by (auto simp: mark_submitted_def ref_count_def)
  have chk: "check_pending ?q d = check_pending p d" for d
    by (simp add: check_pending_def f cong: option.case_cong)
  have chk': "check_pending p ?pd = check_pending p pd"
    by (simp add: check_pending_def cong: option.case_cong)
  have "pending_inv ?q"
    unfolding pending_inv_def
  proof (intro conjI)
    show "distinct (map fst (pendings ?q))" using dk by (simp add: mark_submitted_def distinct_update)
    show "\<forall>(k, d)\<in>set (pendings ?q). k < next_ticket ?q \<and> ticket_id (pd_ticket d) = k \<and>
        check_pending ?q d \<and> pending_copies d \<noteq> []"
      using pending_invD(1-4)[OF c(5)] pending_invD(1-4)[OF c(5) pd]
      by (auto simp: set f chk chk' same)
    show "\<forall>(n, d)\<in>set (pendings ?q). \<forall>(n', d')\<in>set (pendings ?q).
        pd_destination d \<noteq> None \<longrightarrow> pd_destination d' = pd_destination d \<longrightarrow> n' = n"
      using pending_invD(5)[OF c(5)] pd by (auto simp: set)
    show "\<forall>i\<in>set (page_order ?q). \<forall>t a. attached ?q i t = Some a \<longrightarrow>
        copy_pins (copy_store ?q a) = int (count_list (users ?q) a)"
      using unpinned_unused(1)[OF core] by (simp add: f u)
  qed
  moreover have "alive ?q j = alive p j" for j
    using is_pinned_cong[of ?q p] by (simp add: alive_def f)
  moreover have "pages_inv ?q" using c(1) by (simp add: pages_inv_def f)
  moreover have "lease_inv ?q" using c(2) by (simp add: lease_inv_def f)
  moreover have "slots_inv ?q" using c(3) by (simp add: slots_inv_def f)
  moreover have "copies_inv ?q" using c(4) by (simp add: copies_inv_def f)
  ultimately show "page_core ?q S" using c(6) by (simp add: page_core_def f)
qed


text \<open>The operations of a validated batch are pending and have pairwise different tickets.\<close>

definition batch_of :: "pending list \<Rightarrow> page_pool \<Rightarrow> bool" where
  "batch_of pds p \<longleftrightarrow> distinct (map (\<lambda>pd. ticket_id (pd_ticket pd)) pds) \<and>
     (\<forall>pd \<in> set pds. (ticket_id (pd_ticket pd), pd) \<in> set (pendings p))"

lemma operations_for_cases:
  assumes "page_inv p"
  obtains "operations_for ts p = Inl ValueError"
  | pds where "operations_for ts p = Inr pds" "map (\<lambda>pd. ticket_id (pd_ticket pd)) pds = map ticket_id ts"
      "\<forall>pd \<in> set pds. (ticket_id (pd_ticket pd), pd) \<in> set (pendings p)"
proof -
  have "operations_for ts p = Inl ValueError \<or> (\<exists>pds. operations_for ts p = Inr pds \<and>
      map (\<lambda>pd. ticket_id (pd_ticket pd)) pds = map ticket_id ts \<and>
      (\<forall>pd \<in> set pds. (ticket_id (pd_ticket pd), pd) \<in> set (pendings p)))"
  proof (induction ts)
    case (Cons t ts)
    show ?case
    proof (cases rule: operation_for_cases[OF assms, of t])
      case (2 pd)
      then have "ticket_id (pd_ticket pd) = ticket_id t"
        using pending_invD(2)[OF page_coreD(5)[OF assms]] by blast
      then show ?thesis using 2 Cons.IH by auto
    qed simp
  qed simp
  then show thesis using that by blast
qed

lemma validate_many_cases:
  assumes "page_inv p"
  obtains "validate_many ts sub p = Inl ValueError"
  | pds where "validate_many ts sub p = Inr pds" "batch_of pds p" "pds \<noteq> []"
      "map (\<lambda>pd. ticket_id (pd_ticket pd)) pds = map ticket_id ts"
      "\<forall>pd \<in> set pds. submitted pd = sub"
proof (cases rule: operations_for_cases[OF assms, of ts])
  case 1
  then show ?thesis using that(1) by (auto simp: validate_many_def guard_def)
next
  case (2 pds)
  show ?thesis
  proof (cases "ts = [] \<or> card (set (map ticket_id ts)) \<noteq> length ts \<or> list_ex (\<lambda>pd. submitted pd \<noteq> sub) pds")
    case True
    then show ?thesis using that(1) 2 by (auto simp: validate_many_def guard_def)
  next
    case False
    then have "distinct (map ticket_id ts)" by (intro card_distinct) simp
    then have "batch_of pds p" "pds \<noteq> []" using 2 False by (auto simp: batch_of_def)
    then show ?thesis using that(2)[of pds] 2 False by (auto simp: validate_many_def list_ex_iff)
  qed
qed

lemma mark_submitted_batch:
  assumes "page_core p S" "batch_of (pd # pds) p"
  shows "batch_of pds (mark_submitted pd p)"
  unfolding batch_of_def
proof (intro conjI ballI)
  let ?k = "ticket_id (pd_ticket pd)"
  have pd: "(?k, pd) \<in> set (pendings p)" using assms(2) by (simp add: batch_of_def)
  fix d
  assume d: "d \<in> set pds"
  have "ticket_id (pd_ticket d) \<noteq> ?k"
    using assms(2) imageI[OF d, of "\<lambda>pd. ticket_id (pd_ticket pd)"] by (auto simp: batch_of_def)
  then show "(ticket_id (pd_ticket d), d) \<in> set (pendings (mark_submitted pd p))"
    using mark_submitted_core(2)[OF assms(1) pd] d assms(2) by (simp add: batch_of_def)
qed (use assms(2) in \<open>simp add: batch_of_def\<close>)

lemma mark_submitted_fold:
  assumes "page_core p S" "batch_of pds p"
  shows "page_core (fold mark_submitted pds p) S"
  using assms
proof (induction pds arbitrary: p)
  case (Cons pd pds)
  let ?k = "ticket_id (pd_ticket pd)"
  have pd: "(?k, pd) \<in> set (pendings p)" using Cons.prems(2) by (simp add: batch_of_def)
  note m = mark_submitted_core[OF Cons.prems(1) pd]
  from Cons.IH[OF m(1) mark_submitted_batch[OF Cons.prems]] show ?case by simp
qed simp

lemma finish_tickets_ok:
  assumes "page_inv p" "batch_of pds p"
  shows "\<exists>p'. rfold (finish_ticket success) pds p = Inr p' \<and> page_inv p' \<and>
    set (pendings p') = {x \<in> set (pendings p). fst x \<notin> (\<lambda>pd. ticket_id (pd_ticket pd)) ` set pds}"
  using assms
proof (induction pds arbitrary: p)
  case (Cons pd pds)
  let ?k = "ticket_id (pd_ticket pd)"
  have pd: "(?k, pd) \<in> set (pendings p)" using Cons.prems(2) by (simp add: batch_of_def)
  from finish_ticket_ok[OF Cons.prems(1) pd] obtain p1 where
    p1: "finish_ticket success pd p = Inr p1" "page_inv p1" "pendings p1 = AList.delete ?k (pendings p)" by blast
  have "batch_of pds p1"
    using Cons.prems(2) by (auto simp: batch_of_def p1(3) set_delete image_iff)
  from Cons.IH[OF p1(2) this] show ?case by (auto simp: p1 set_delete)
qed simp

lemma submit_ok:
  assumes core: "page_inv p"
  shows "keeps_pool (submit_ticket t p)" "keeps_pool (submit_all ts p)"
proof -
  show "keeps_pool (submit_ticket t p)"
  proof (cases rule: operation_for_cases[OF core, of t])
    case (2 pd)
    then show ?thesis
      using mark_submitted_core(1)[OF core 2(2)] by (simp add: submit_ticket_def guard_def)
  qed (simp add: submit_ticket_def)
  show "keeps_pool (submit_all ts p)"
  proof (cases rule: validate_many_cases[OF core, of ts False])
    case (2 pds)
    then show ?thesis using mark_submitted_fold[OF core] by (simp add: submit_all_def)
  qed (simp add: submit_all_def)
qed

lemma finish_batch_ok:
  assumes core: "page_inv p"
  shows "keeps_pool (rbind (validate_many ts sub p) (\<lambda>pds. rfold (finish_ticket success) pds p))"
proof (cases rule: validate_many_cases[OF core, of ts sub])
  case (2 pds)
  then show ?thesis using finish_tickets_ok[OF core 2(2), of success] by auto
qed simp

lemma complete_all_ok: "page_inv p \<Longrightarrow> keeps_pool (complete_all ts success p)"
  unfolding complete_all_def by (rule finish_batch_ok)

lemma cancel_all_ok: "page_inv p \<Longrightarrow> keeps_pool (cancel_all ts p)"
  unfolding cancel_all_def by (rule finish_batch_ok)

lemma finish_one_ok:
  assumes core: "page_inv p"
  shows "keeps_pool (rbind (operation_for t p) (\<lambda>pd.
    rbind (guard ValueError (P pd)) (\<lambda>_. finish_ticket success pd p)))"
proof (cases rule: operation_for_cases[OF core, of t])
  case (2 pd)
  then show ?thesis using finish_ticket_ok[OF core 2(2), of success] by (auto simp: guard_def)
qed simp

lemma cancel_complete_ok:
  assumes "page_inv p"
  shows "keeps_pool (cancel_ticket t p)" "keeps_pool (complete_ticket t success p)"
  unfolding cancel_ticket_def complete_ticket_def by (rule finish_one_ok[OF assms])+

lemma page_pool_init_ok:
  assumes "page_pool_init h d = Inr p"
  shows "page_inv p"
proof -
  have e: "page_order p = []" "canonical p = []" "leases p = []" "pendings p = []" "copies p t = []"
    "free_slots p t = rev [0..<capacity p t]" for t
    using assms by (auto simp: page_pool_init_def Let_def)
  have "set (rev [0..<n]) = {..<n}" for n :: nat by auto
  then show ?thesis
    by (simp add: e page_core_def pages_inv_def lease_inv_def slots_inv_def copies_inv_def pending_inv_def)
qed

end
