(* ===== verification/Page_Checks.thy ===== *)
theory Page_Checks
  imports Page_Invariant
begin

text \<open>
  The invariant of the page pool implies its own diagnostic: no assertion of \<open>check_invariants\<close>
  fails in a state that satisfies \<open>page_inv\<close>.
\<close>

lemma physical_copies_set:
  "a \<in> set (physical_copies p t) \<longleftrightarrow> (\<exists>i \<in> set (page_order p). attached p i t = Some a)"
  by (auto simp: physical_copies_def image_iff)

lemma distinct_physical:
  assumes core: "page_core p S"
  shows "distinct (physical_copies p t)"
proof -
  have "distinct (map the (filter (\<lambda>oa. oa \<noteq> None) (map (\<lambda>i. attached p i t) os)))"
    if "distinct os" "set os \<subseteq> set (page_order p)" for os
    using that
  proof (induction os)
    case (Cons i os)
    have "a \<notin> the ` {x \<in> (\<lambda>i. attached p i t) ` set os. x \<noteq> None}" if a: "attached p i t = Some a" for a
    proof
      assume "a \<in> the ` {x \<in> (\<lambda>i. attached p i t) ` set os. x \<noteq> None}"
      then obtain j where "j \<in> set os" "attached p j t = Some a" by auto
      then show False
        using copies_invD(4)[OF page_coreD(4)[OF core], of i j t a t] a Cons.prems by auto
    qed
    then show ?case using Cons by (cases "attached p i t") auto
  qed simp
  then show ?thesis
    using page_coreD(1)[OF core] by (simp add: physical_copies_def pages_inv_def)
qed

text \<open>A copy and its slot determine each other, in the dictionary of a tier and among the pages.\<close>

lemma copies_physical:
  assumes core: "page_core p S"
  shows "set (copies p t) = (\<lambda>a. (copy_slot (copy_store p a), a)) ` set (physical_copies p t)"
    and "inj_on (\<lambda>a. copy_slot (copy_store p a)) (set (physical_copies p t))"
proof -
  note c = page_coreD[OF core]
  have m: "(s, a) \<in> set (copies p t) \<longleftrightarrow> a \<in> set (physical_copies p t) \<and> copy_slot (copy_store p a) = s" for s a
    by (simp add: copies_invD(1)[OF c(4)] physical_copies_set)
  then show "set (copies p t) = (\<lambda>a. (copy_slot (copy_store p a), a)) ` set (physical_copies p t)"
    by (auto simp: image_iff)
  have d: "distinct (map fst (copies p t))" using c(3) by (simp add: slots_inv_def)
  show "inj_on (\<lambda>a. copy_slot (copy_store p a)) (set (physical_copies p t))"
  proof (rule inj_onI)
    fix a b
    assume ab: "a \<in> set (physical_copies p t)" "b \<in> set (physical_copies p t)"
      and e: "copy_slot (copy_store p a) = copy_slot (copy_store p b)"
    have "(copy_slot (copy_store p b), a) \<in> set (copies p t)" "(copy_slot (copy_store p b), b) \<in> set (copies p t)"
      using m ab e by blast+
    then show "a = b" by (rule distinct_keys_eq[OF d])
  qed
qed

lemma pin_count_users:
  assumes core: "page_core p S" and a: "a \<in> set (physical_copies p t)"
  shows "pin_count p t (copy_slot (copy_store p a)) = count_list (users p) a"
proof -
  note c = page_coreD[OF core]
  have t: "copy_tier (copy_store p a) = t"
    using a copies_invD(2)[OF c(4)] by (auto simp: physical_copies_set)
  have e: "copy_loc p b = (t, copy_slot (copy_store p a)) \<longleftrightarrow> b = a" if "b \<in> set (users p)" for b
  proof
    assume b: "copy_loc p b = (t, copy_slot (copy_store p a))"
    then have "b \<in> set (physical_copies p t)"
      using users_attached[OF c(5) that] by (auto simp: copy_loc_def physical_copies_set)
    then show "b = a" using copies_physical(2)[OF core, of t] a b by (auto simp: copy_loc_def inj_on_def)
  qed (simp add: copy_loc_def t)
  have "count_list (map (copy_loc p) us) (t, copy_slot (copy_store p a)) = count_list us a"
    if "set us \<subseteq> set (users p)" for us
    using that e by (induction us) auto
  then show ?thesis by (simp add: pin_count_def users_def)
qed

lemma check_tier_ok:
  assumes core: "page_core p S"
  shows "check_tier p t"
proof -
  note c = page_coreD[OF core] and cp = copies_physical[OF core, of t]
  let ?ph = "physical_copies p t" and ?slot = "\<lambda>a. copy_slot (copy_store p a)"
  have sl: "distinct (map fst (copies p t))" "distinct (free_slots p t)"
    "set (free_slots p t) \<inter> fst ` set (copies p t) = {}"
    "set (free_slots p t) \<union> fst ` set (copies p t) = {..<capacity p t}"
    using c(3) by (simp_all add: slots_inv_def)
  have len: "length (copies p t) = card (set ?ph)"
  proof -
    have "length (copies p t) = card (set (copies p t))"
      using sl(1) by (simp add: distinct_card distinct_map)
    then show ?thesis by (simp add: cp(1) card_image inj_on_def)
  qed
  moreover have "length ?ph = card (set ?ph)" using distinct_physical[OF core] by (simp add: distinct_card)
  moreover have "card (?slot ` set ?ph) = card (set ?ph)" using cp(2) by (rule card_image)
  moreover have "map_of (rev (map (\<lambda>c. (?slot c, c)) ?ph)) s = Some a" if "(s, a) \<in> set (copies p t)" for s a
  proof -
    have "distinct (map fst (rev (map (\<lambda>c. (?slot c, c)) ?ph)))"
      using cp(2) distinct_physical[OF core, of t] by (simp add: rev_map[symmetric] distinct_map comp_def)
    then show ?thesis using that cp(1) by (intro map_of_is_SomeI) auto
  qed
  moreover have "copy_pins (copy_store p a) = int (pin_count p t s)" if "(s, a) \<in> set (copies p t)" for s a
    using that unpinned_unused(1)[OF core, of _ t a] pin_count_users[OF core, of a t]
    by (auto simp: cp(1) physical_copies_set)
  ultimately show ?thesis using sl by (auto simp: check_tier_def Let_def distinct_card)
qed

lemma length_card_fst: "distinct (map fst xs) \<Longrightarrow> length xs = card (set xs)"
  by (simp add: distinct_card distinct_map)

lemma canonical_count:
  assumes "pages_inv p"
  shows "length (canonical p) = length (filter (\<lambda>i. pg_key (page_store p i) \<noteq> None) (page_order p))"
proof -
  let ?K = "{i \<in> set (page_order p). pg_key (page_store p i) \<noteq> None}"
  have m: "(k, i) \<in> set (canonical p) \<longleftrightarrow> i \<in> set (page_order p) \<and> pg_key (page_store p i) = Some k" for k i
    using assms by (simp add: pages_inv_def)
  have "bij_betw snd (set (canonical p)) ?K"
  proof (rule bij_betwI')
    fix x y assume "x \<in> set (canonical p)" "y \<in> set (canonical p)"
    then have "pg_key (page_store p (snd x)) = Some (fst x)" "pg_key (page_store p (snd y)) = Some (fst y)"
      using m[of "fst x" "snd x"] m[of "fst y" "snd y"] by simp_all
    then show "(snd x = snd y) = (x = y)" by (auto intro: prod_eqI)
  next
    fix x assume "x \<in> set (canonical p)"
    then show "snd x \<in> ?K" using m[of "fst x" "snd x"] by simp
  next
    fix i assume "i \<in> ?K"
    then obtain k where "(k, i) \<in> set (canonical p)" using m by blast
    then show "\<exists>x\<in>set (canonical p). i = snd x" by force
  qed
  then have "card (set (canonical p)) = card ?K" by (rule bij_betw_same_card)
  moreover have "length (canonical p) = card (set (canonical p))"
    using assms by (intro length_card_fst) (simp add: pages_inv_def)
  moreover have "card ?K = length (filter (\<lambda>i. pg_key (page_store p i) \<noteq> None) (page_order p))"
    using assms by (simp add: pages_inv_def distinct_length_filter Int_def conj_commute)
  ultimately show ?thesis by simp
qed

lemma check_invariants_ok:
  assumes core: "page_inv p"
  shows "check_invariants p"
proof -
  note c = page_coreD[OF core]
  have "\<forall>(k, l, i) \<in> set (leases p). i \<in> set (page_order p) \<and> lease_page_id l = i"
    using c(2) by (auto simp: lease_inv_def)
  moreover have "\<forall>(k, pd) \<in> set (pendings p). check_pending p pd" using pending_invD(3)[OF c(5)] by auto
  moreover have "check_page p i" if i: "i \<in> set (page_order p)" for i
  proof -
    have "references (page_store p i) = int (ref_count p i)" using c(2) i by (simp add: lease_inv_def)
    moreover have "map_of (canonical p) k = Some i" if "pg_key (page_store p i) = Some k" for k
      using c(1) i that by (intro map_of_is_SomeI) (auto simp: pages_inv_def)
    ultimately show ?thesis using c(6)[OF i] by (auto simp: check_page_def alive_def split: option.split)
  qed
  moreover note canonical_count[OF c(1)]
  ultimately show ?thesis using check_tier_ok[OF core] by (simp add: check_invariants_def)
qed

end
