(* ===== verification/Page_Barrier.thy ===== *)
theory Page_Barrier
  imports Page_Checks
begin

text \<open>
  \<open>PageCompletionBarrier\<close> (\<^verbatim>\<open>core/immutable_kv_pages.py\<close>) and the system made of a page pool, its
  barrier and their callers: every public operation is a \<open>page_call\<close>, and \<open>page_reach\<close> are the states
  that calls can produce.  The barrier owns the tickets of its batches: as its documentation asks, a
  caller does not complete them separately.
\<close>

record rank_batch =
  batch_tickets :: "page_ticket list"
  batch_ranks :: "(int \<times> bool) list"

record barrier =
  num_ranks :: int
  next_batch :: int
  batches :: "(int \<times> rank_batch) list"

definition barrier_init :: "int \<Rightarrow> barrier res" where
  "barrier_init n =
     rbind (guard ValueError (\<not> n < 1)) (\<lambda>_. Inr \<lparr>num_ranks = n, next_batch = 0, batches = []\<rparr>)"

definition barrier_submit :: "page_ticket list \<Rightarrow> page_pool \<times> barrier \<Rightarrow> (int \<times> page_pool \<times> barrier) res" where
  "barrier_submit ts = (\<lambda>(p, b).
     rbind (submit_all ts p) (\<lambda>p'.
       Inr (next_batch b, p', b\<lparr>next_batch := next_batch b + 1,
         batches := AList.update (next_batch b) \<lparr>batch_tickets = ts, batch_ranks = []\<rparr> (batches b)\<rparr>)))"

definition acknowledge :: "int \<Rightarrow> int \<Rightarrow> bool \<Rightarrow> page_pool \<times> barrier \<Rightarrow> (bool \<times> page_pool \<times> barrier) res" where
  "acknowledge batch_id rank success = (\<lambda>(p, b).
     rbind (guard ValueError (0 \<le> rank \<and> rank < num_ranks b)) (\<lambda>_.
     rbind (guard ValueError (0 \<le> batch_id \<and> batch_id < next_batch b)) (\<lambda>_.
       case map_of (batches b) batch_id of
         None \<Rightarrow> Inr (False, p, b)
       | Some batch \<Rightarrow>
           (case map_of (batch_ranks batch) rank of
              Some s \<Rightarrow> if s \<noteq> success then Inl ValueError else Inr (False, p, b)
            | None \<Rightarrow>
                let rs = AList.update rank success (batch_ranks batch);
                    b1 = b\<lparr>batches := AList.update batch_id (batch\<lparr>batch_ranks := rs\<rparr>) (batches b)\<rparr>
                in if int (length rs) \<noteq> num_ranks b then Inr (False, p, b1)
                   else rbind (complete_all (batch_tickets batch) (list_all snd rs) p) (\<lambda>p'.
                     Inr (True, p', b1\<lparr>batches := AList.delete batch_id (batches b1)\<rparr>))))))"

definition barrier_pending :: "barrier \<Rightarrow> nat" where
  "barrier_pending b = length (batches b)"


subsection \<open>The calls of the system\<close>

datatype page_call =
    Acquire "page_key option" string nat
  | Release page_lease
  | Begin page_operation page_lease nat
  | Submit page_ticket
  | SubmitAll "page_ticket list"
  | Cancel page_ticket
  | CancelAll "page_ticket list"
  | Complete page_ticket bool
  | CompleteAll "page_ticket list" bool
  | Evict tier page_lease
  | BarrierSubmit "page_ticket list"
  | Acknowledge int int bool

type_synonym page_system = "page_pool \<times> barrier"

fun begin_transfer :: "page_operation \<Rightarrow> page_lease \<Rightarrow> nat \<Rightarrow> page_pool \<Rightarrow> (page_ticket option \<times> page_pool) res" where
  "begin_transfer Offload = begin_offload"
| "begin_transfer Writeback = begin_writeback"
| "begin_transfer Promote = begin_promotion"
| "begin_transfer Restore = begin_restore"

fun evict_tier :: "tier \<Rightarrow> page_lease \<Rightarrow> page_pool \<Rightarrow> (bool \<times> page_pool) res" where
  "evict_tier Host = evict_host"
| "evict_tier Disk = evict_disk"

definition with_barrier :: "barrier \<Rightarrow> page_pool res \<Rightarrow> page_system res" where
  "with_barrier b r = rbind r (\<lambda>p. Inr (p, b))"

fun run_call :: "page_call \<Rightarrow> page_system \<Rightarrow> page_system res" where
  "run_call (Acquire key owner oid) (p, b) = with_barrier b (drop_value (acquire_page key owner oid p))"
| "run_call (Release l) (p, b) = with_barrier b (drop_value (release_lease l p))"
| "run_call (Begin op l oid) (p, b) = with_barrier b (drop_value (begin_transfer op l oid p))"
| "run_call (Submit t) (p, b) = with_barrier b (submit_ticket t p)"
| "run_call (SubmitAll ts) (p, b) = with_barrier b (submit_all ts p)"
| "run_call (Cancel t) (p, b) = with_barrier b (cancel_ticket t p)"
| "run_call (CancelAll ts) (p, b) = with_barrier b (cancel_all ts p)"
| "run_call (Complete t ok) (p, b) = with_barrier b (complete_ticket t ok p)"
| "run_call (CompleteAll ts ok) (p, b) = with_barrier b (complete_all ts ok p)"
| "run_call (Evict t l) (p, b) = with_barrier b (drop_value (evict_tier t l p))"
| "run_call (BarrierSubmit ts) s = drop_value (barrier_submit ts s)"
| "run_call (Acknowledge k r ok) s = drop_value (acknowledge k r ok s)"

definition owned :: "barrier \<Rightarrow> nat set" where
  "owned b = (\<Union>(k, rb) \<in> set (batches b). ticket_id ` set (batch_tickets rb))"

text \<open>The one obligation on callers: they leave the tickets of the barrier alone.\<close>

fun allowed :: "page_call \<Rightarrow> page_system \<Rightarrow> bool" where
  "allowed (Complete t ok) (p, b) \<longleftrightarrow> ticket_id t \<notin> owned b"
| "allowed (CompleteAll ts ok) (p, b) \<longleftrightarrow> ticket_id ` set ts \<inter> owned b = {}"
| "allowed _ _ \<longleftrightarrow> True"

inductive page_reach :: "page_system \<Rightarrow> bool" where
  init: "page_pool_init h d = Inr p \<Longrightarrow> barrier_init n = Inr b \<Longrightarrow> page_reach (p, b)"
| step: "page_reach s \<Longrightarrow> allowed c s \<Longrightarrow> run_call c s = Inr s' \<Longrightarrow> page_reach s'"


subsection \<open>The pool part of the invariant\<close>

lemma with_barrier_Inr: "with_barrier b r = Inr s \<longleftrightarrow> (\<exists>p. r = Inr p \<and> s = (p, b))"
  by (cases r) (auto simp: with_barrier_def)

lemma with_barrier_Inl: "with_barrier b r = Inl e \<longleftrightarrow> r = Inl e"
  by (cases r) (auto simp: with_barrier_def)

lemmas call_simps = drop_value_Inr drop_value_Inl with_barrier_Inr with_barrier_Inl

text \<open>What \<open>keeps_inv\<close> and \<open>keeps_pool\<close> say, for the result of a call.\<close>

definition keeps_sys :: "page_system res \<Rightarrow> bool" where
  "keeps_sys r \<longleftrightarrow> (case r of Inl e \<Rightarrow> e = ValueError | Inr s \<Rightarrow> page_inv (fst s))"

lemma keeps_sysI [intro]:
  "keeps_inv r \<Longrightarrow> keeps_sys (with_barrier b (drop_value r))"
  "keeps_pool q \<Longrightarrow> keeps_sys (with_barrier b q)"
  by (cases r; cases q; auto simp: keeps_sys_def with_barrier_def drop_value_def)+

lemma begin_transfer_keeps: "page_inv p \<Longrightarrow> keeps_inv (begin_transfer op l oid p)"
  by (cases op) (simp_all add: begin_offload_ok begin_writeback_ok begin_promotion_ok begin_restore_ok)

lemma evict_tier_keeps: "page_inv p \<Longrightarrow> keeps_inv (evict_tier t l p)"
  by (cases t) (simp_all add: evict_ok)

lemma release_keeps: "page_inv p \<Longrightarrow> keeps_inv (release_lease l p)"
  using release_lease_ok[of p l] by auto

lemma barrier_submit_keeps:
  assumes "page_inv p"
  shows "keeps_sys (drop_value (barrier_submit ts (p, b)))"
  using submit_ok(2)[OF assms, of ts]
  by (cases "submit_all ts p") (simp_all add: keeps_sys_def drop_value_def barrier_submit_def)

lemma acknowledge_keeps:
  assumes "page_inv p"
  shows "keeps_sys (drop_value (acknowledge k r ok (p, b)))"
proof (cases "acknowledge k r ok (p, b)")
  case (Inl e)
  then have "e = ValueError \<or> (\<exists>ts s. complete_all ts s p = Inl e)"
    by (auto simp: acknowledge_def rbind_eq_Inl Let_def split: option.splits if_splits)
  then have "e = ValueError" using complete_all_ok[OF assms] by (metis keeps_simps(4))
  then show ?thesis using Inl by (simp add: keeps_sys_def drop_value_def)
next
  case (Inr x)
  obtain fin p' b' where x: "x = (fin, p', b')" by (cases x)
  have "p' = p \<or> (\<exists>ts s. complete_all ts s p = Inr p')"
    using Inr by (auto simp: x acknowledge_def Let_def split: option.splits if_splits)
  then have "page_inv p'" using complete_all_ok[OF assms] assms by (metis keeps_simps(3))
  then show ?thesis using Inr by (simp add: x keeps_sys_def drop_value_def)
qed

lemma run_call_keeps:
  assumes core: "page_inv p"
  shows "keeps_sys (run_call c (p, b))"
  using acquire_page_ok[OF core] release_keeps[OF core] begin_transfer_keeps[OF core] evict_tier_keeps[OF core]
    submit_ok[OF core] cancel_complete_ok[OF core] complete_all_ok[OF core] cancel_all_ok[OF core]
    barrier_submit_keeps[OF core] acknowledge_keeps[OF core]
  by (cases c) (simp_all add: keeps_sysI)

lemma page_reach_inv: "page_reach s \<Longrightarrow> page_inv (fst s)"
proof (induction rule: page_reach.induct)
  case (init h d p n b)
  then show ?case by (simp add: page_pool_init_ok)
next
  case (step s c s')
  then show ?case using run_call_keeps[of "fst s" c "snd s"] by (simp add: keeps_sys_def)
qed

end
