(* ===== verification/Barrier_Invariant.thy ===== *)
theory Barrier_Invariant
  imports Page_Barrier
begin

text \<open>
  The barrier's side of the system: the tickets of its batches stay pending and submitted in the pool
  until the last rank has acknowledged, so that finishing a batch never fails.
\<close>

subsection \<open>Operations that leave the pending transfers alone\<close>

lemma drop_copy_pendings: "drop_copy i t p = Inr p' \<Longrightarrow> pendings p' = pendings p"
  by (auto simp: drop_copy_def Let_def split: option.splits)

lemma evict_copy_pendings: "evict_copy i t p = Inr (d, p') \<Longrightarrow> pendings p' = pendings p"
  by (auto simp: evict_copy_def split: if_splits dest: drop_copy_pendings)

lemma reclaim_copy_pendings: "reclaim_copy js t p = Inr p' \<Longrightarrow> pendings p' = pendings p"
proof (induction js arbitrary: p)
  case (Cons j js)
  then obtain d q where q: "evict_copy j t p = Inr (d, q)" by auto
  then show ?case using Cons evict_copy_pendings[OF q] by (cases d) auto
qed simp

lemma allocate_copy_pendings: "allocate_copy i t p = Inr (oa, p') \<Longrightarrow> pendings p' = pendings p"
  by (auto simp: allocate_copy_def Let_def split: if_splits dest: reclaim_copy_pendings)

lemma collect_tier_pendings: "collect_tier i t p = Inr p' \<Longrightarrow> pendings p' = pendings p"
  by (auto simp: collect_tier_def split: if_splits dest: drop_copy_pendings)

lemma collect_page_pendings: "collect_page i p = Inr p' \<Longrightarrow> pendings p' = pendings p"
  by (auto simp: collect_page_def split: if_splits option.splits dest!: collect_tier_pendings)

lemma move_page_pendings: "move_page_to_end i p = Inr p' \<Longrightarrow> pendings p' = pendings p"
  by (auto simp: move_page_to_end_def)

lemma attach_lease_pendings: "attach_lease i owner oid p = Inr (l, p') \<Longrightarrow> pendings p' = pendings p"
  by (auto simp: attach_lease_def Let_def dest!: move_page_pendings)

lemma acquire_page_pendings: "acquire_page key owner oid p = Inr (l, p') \<Longrightarrow> pendings p' = pendings p"
  by (auto simp: acquire_page_def new_page_def Let_def split: option.splits dest!: attach_lease_pendings)

lemma release_lease_pendings: "release_lease l p = Inr (x, p') \<Longrightarrow> pendings p' = pendings p"
  by (auto simp: release_lease_def split: option.splits dest!: collect_page_pendings)

lemma evict_tier_pendings: "evict_tier t l p = Inr (x, p') \<Longrightarrow> pendings p' = pendings p"
  by (cases t) (auto simp: evict_host_def evict_disk_def dest!: evict_copy_pendings)


subsection \<open>Operations that add, mark or remove one\<close>

text \<open>Submitted transfers outside \<open>K\<close> survive.\<close>

definition keeps_marked :: "nat set \<Rightarrow> page_pool \<Rightarrow> page_pool \<Rightarrow> bool" where
  "keeps_marked K p p' \<longleftrightarrow>
     (\<forall>k pd. (k, pd) \<in> set (pendings p) \<longrightarrow> submitted pd \<longrightarrow> k \<notin> K \<longrightarrow> (k, pd) \<in> set (pendings p'))"

lemma keeps_marked_same: "pendings p' = pendings p \<Longrightarrow> keeps_marked K p p'"
  by (simp add: keeps_marked_def)

lemma keeps_marked_mono: "keeps_marked {} p p' \<Longrightarrow> keeps_marked K p p'"
  by (simp add: keeps_marked_def)

lemma add_pins_pendings [simp]: "pendings (add_pins d oa p) = pendings p"
  by (simp add: add_pins_def split: option.split)

lemma reserve_marked:
  assumes "reserve i op src dst oid p = Inr (t, p')" and "\<forall>k \<in> fst ` set (pendings p). k < next_ticket p"
  shows "keeps_marked K p p'"
proof -
  have "next_ticket p \<notin> fst ` set (pendings p)" using assms(2) by blast
  then have "x \<in> set (pendings p) \<Longrightarrow> x \<in> set (AList.update (next_ticket p) v (pendings p))" for x v
    by (simp add: alist_update_fresh)
  then show ?thesis
    using assms(1) by (fastforce simp: keeps_marked_def reserve_def Let_def dest!: move_page_pendings)
qed

lemma allocate_next_ticket:
  assumes "allocate_copy i t p = Inr (oa, p')"
  shows "next_ticket p' = next_ticket p"
proof -
  have d: "drop_copy j u q = Inr q' \<Longrightarrow> next_ticket q' = next_ticket q" for j u q q'
    by (auto simp: drop_copy_def Let_def split: option.splits)
  have e: "evict_copy j u q = Inr (b, q') \<Longrightarrow> next_ticket q' = next_ticket q" for j u q b q'
    by (auto simp: evict_copy_def split: if_splits dest: d)
  have "reclaim_copy js u q = Inr q' \<Longrightarrow> next_ticket q' = next_ticket q" for js u q q'
  proof (induction js arbitrary: q)
    case (Cons j js)
    then obtain b q1 where q1: "evict_copy j u q = Inr (b, q1)" by auto
    then show ?case using Cons e[OF q1] by (cases b) auto
  qed simp
  then show ?thesis using assms by (auto simp: allocate_copy_def Let_def split: if_splits)
qed

lemma begin_transfer_marked:
  assumes core: "page_inv p" and run: "begin_transfer op l oid p = Inr (x, p')"
  shows "keeps_marked K p p'"
proof -
  have lt: "\<forall>k \<in> fst ` set (pendings p). k < next_ticket p"
    using pending_invD(1)[OF page_coreD(5)[OF core]] by auto
  have r: "reserve i op' src dst oid p = Inr (t, p') \<Longrightarrow> ?thesis" for i op' src dst t
    by (rule reserve_marked[OF _ lt])
  have ra: "?thesis"
    if a: "allocate_copy i u p = Inr (oa, p1)" and r: "reserve i op' src dst oid p1 = Inr (t, p')"
    for i u oa p1 op' src dst t
    using reserve_marked[OF r] lt
    by (simp add: allocate_copy_pendings[OF a] allocate_next_ticket[OF a] keeps_marked_def)
  have same: "?thesis" if "allocate_copy i u p = Inr (oa, p')" for i u oa
    by (rule keeps_marked_same[OF allocate_copy_pendings[OF that]])
  show ?thesis
    using run keeps_marked_same[OF refl, of K p]
    by (cases op) (auto simp: begin_offload_def begin_writeback_def begin_promotion_def begin_restore_def
      split: if_splits intro: r ra same)
qed

lemma mark_submitted_marked:
  assumes "page_core p S" "(k, pd) \<in> set (pendings p)" "\<not> submitted pd"
  shows "keeps_marked {} p (mark_submitted pd p)"
proof -
  have "distinct (map fst (pendings p))"
    using page_coreD(5)[OF assms(1)] by (simp add: pending_inv_def)
  then have "(k, d) \<in> set (pendings p) \<Longrightarrow> submitted d \<Longrightarrow> False" for d
    using distinct_keys_eq assms(2,3) by metis
  then have "(k', d) \<in> set (pendings p) \<Longrightarrow> submitted d \<Longrightarrow> k' \<noteq> k" for k' d by blast
  then show ?thesis
    using mark_submitted_core(2)[OF assms(1,2)] unfolding keeps_marked_def by blast
qed

lemma keeps_marked_trans: "keeps_marked K p q \<Longrightarrow> keeps_marked K q r \<Longrightarrow> keeps_marked K p r"
  by (simp add: keeps_marked_def)

lemma mem_update: "(k, v) \<in> set (AList.update k v xs)"
  by (rule map_of_SomeD) (simp add: update_conv')

lemma mark_fold_marked:
  assumes "page_core p S" "batch_of pds p" "\<forall>pd \<in> set pds. \<not> submitted pd"
  shows "keeps_marked {} p (fold mark_submitted pds p) \<and>
    (\<forall>pd \<in> set pds. (ticket_id (pd_ticket pd), pd\<lparr>submitted := True\<rparr>) \<in> set (pendings (fold mark_submitted pds p)))"
  using assms
proof (induction pds arbitrary: p)
  case Nil
  then show ?case by (simp add: keeps_marked_def)
next
  case (Cons pd pds)
  let ?k = "ticket_id (pd_ticket pd)" and ?q = "mark_submitted pd p"
  have pd: "(?k, pd) \<in> set (pendings p)" using Cons.prems(2) by (simp add: batch_of_def)
  note m = mark_submitted_core[OF Cons.prems(1) pd]
  note b = mark_submitted_batch[OF Cons.prems(1,2)]
  have k1: "keeps_marked {} p ?q" using mark_submitted_marked[OF Cons.prems(1) pd] Cons.prems(3) by simp
  have ih: "keeps_marked {} ?q (fold mark_submitted pds ?q)"
    "\<forall>d \<in> set pds. (ticket_id (pd_ticket d), d\<lparr>submitted := True\<rparr>) \<in> set (pendings (fold mark_submitted pds ?q))"
    using Cons.IH[OF m(1) b] Cons.prems(3) by auto
  have "(?k, pd\<lparr>submitted := True\<rparr>) \<in> set (pendings ?q)" by (simp add: mark_submitted_def mem_update)
  then show ?case using ih k1 keeps_marked_trans by (auto simp: keeps_marked_def)
qed


text \<open>A ticket in flight: pending, submitted, and the very ticket the pool handed out.\<close>

definition in_flight :: "page_pool \<Rightarrow> page_ticket \<Rightarrow> bool" where
  "in_flight p t \<longleftrightarrow> (\<exists>pd. operation_for t p = Inr pd \<and> submitted pd)"

lemma operation_for_Inr:
  assumes "page_inv p"
  shows "operation_for t p = Inr pd \<longleftrightarrow>
    (ticket_id t, pd) \<in> set (pendings p) \<and> ticket_object (pd_ticket pd) = ticket_object t"
proof -
  have "distinct (map fst (pendings p))"
    using page_coreD(5)[OF assms] by (simp add: pending_inv_def)
  then have "map_of (pendings p) (ticket_id t) = Some pd \<longleftrightarrow> (ticket_id t, pd) \<in> set (pendings p)"
    by simp
  then show ?thesis by (auto simp: operation_for_def split: option.splits)
qed

lemma in_flight_marked:
  assumes "page_inv p" "page_inv p'" "keeps_marked K p p'" "ticket_id t \<notin> K" "in_flight p t"
  shows "in_flight p' t"
  using assms by (auto simp: in_flight_def operation_for_Inr keeps_marked_def)

lemma finish_marked:
  assumes core: "page_inv p" and pd: "(k, pd) \<in> set (pendings p)" and run: "finish_ticket ok pd p = Inr p'"
  shows "keeps_marked {k} p p'" and "\<not> submitted pd \<Longrightarrow> keeps_marked {} p p'"
proof -
  have del: "pendings p' = AList.delete k (pendings p)"
    using finish_ticket_ok[OF core pd, of ok] run by auto
  then show m: "keeps_marked {k} p p'" by (auto simp: keeps_marked_def set_delete)
  have "distinct (map fst (pendings p))"
    using page_coreD(5)[OF core] by (simp add: pending_inv_def)
  then show "keeps_marked {} p p'" if "\<not> submitted pd"
    using that m distinct_keys_eq[OF _ pd] by (auto simp: keeps_marked_def)
qed

lemma finish_batch_marked:
  assumes core: "page_inv p" and v: "validate_many ts sub p = Inr pds"
    and run: "rfold (finish_ticket ok) pds p = Inr p'"
  shows "keeps_marked (ticket_id ` set ts) p p'" and "\<not> sub \<Longrightarrow> keeps_marked {} p p'"
proof -
  obtain b: "batch_of pds p" "map (\<lambda>pd. ticket_id (pd_ticket pd)) pds = map ticket_id ts"
    "\<forall>pd \<in> set pds. submitted pd = sub"
    using validate_many_cases[OF core, of ts sub] v by (metis Inl_Inr_False sum.inject(2))
  have ids: "(\<lambda>pd. ticket_id (pd_ticket pd)) ` set pds = ticket_id ` set ts"
    using b(2) by (metis list.set_map)
  have del: "set (pendings p') = {x \<in> set (pendings p). fst x \<notin> ticket_id ` set ts}"
    using finish_tickets_ok[OF core b(1), of ok] run by (simp add: ids)
  then show m: "keeps_marked (ticket_id ` set ts) p p'" by (simp add: keeps_marked_def)
  have d: "distinct (map fst (pendings p))"
    using page_coreD(5)[OF core] by (simp add: pending_inv_def)
  show "keeps_marked {} p p'" if "\<not> sub"
    unfolding keeps_marked_def
  proof (intro allI impI)
    fix k pd
    assume pd: "(k, pd) \<in> set (pendings p)" "submitted pd"
    have "k \<notin> ticket_id ` set ts"
    proof
      assume "k \<in> ticket_id ` set ts"
      then obtain d where "d \<in> set pds" "k = ticket_id (pd_ticket d)" unfolding ids[symmetric] by blast
      then have "(k, d) \<in> set (pendings p)" "\<not> submitted d" using b(1,3) that by (simp_all add: batch_of_def)
      then show False using distinct_keys_eq[OF d pd(1)] pd(2) by blast
    qed
    then show "(k, pd) \<in> set (pendings p')" using m pd by (simp add: keeps_marked_def)
  qed
qed

lemma submit_all_marked:
  assumes core: "page_inv p" and run: "submit_all ts p = Inr p'"
  shows "keeps_marked {} p p'" and "\<forall>t \<in> set ts. in_flight p' t"
    and "t \<in> set ts \<Longrightarrow> \<exists>pd. operation_for t p = Inr pd \<and> \<not> submitted pd"
    and "ts \<noteq> []" and "distinct (map ticket_id ts)"
proof -
  obtain pds where v: "validate_many ts False p = Inr pds" "p' = fold mark_submitted pds p"
    using run by (auto simp: submit_all_def)
  obtain b: "batch_of pds p" "pds \<noteq> []" "map (\<lambda>pd. ticket_id (pd_ticket pd)) pds = map ticket_id ts"
    "\<forall>pd \<in> set pds. submitted pd = False"
    using validate_many_cases[OF core, of ts False] v(1) by (metis Inl_Inr_False sum.inject(2))
  show "ts \<noteq> []" using b(2,3) by auto
  show "distinct (map ticket_id ts)" using b(1,3) by (simp add: batch_of_def)
  have m: "keeps_marked {} p p'"
    "\<forall>pd \<in> set pds. (ticket_id (pd_ticket pd), pd\<lparr>submitted := True\<rparr>) \<in> set (pendings p')"
    using mark_fold_marked[OF core b(1)] b(4) v(2) by simp_all
  then show "keeps_marked {} p p'" by blast
  have core': "page_inv p'" using submit_ok(2)[OF core, of ts] run by simp
  have op: "operations_for us p = Inr qds \<Longrightarrow> t \<in> set us \<Longrightarrow> \<exists>pd \<in> set qds. operation_for t p = Inr pd" for us qds t
    by (induction us arbitrary: qds) auto
  have pd: "\<exists>pd \<in> set pds. operation_for t p = Inr pd" if "t \<in> set ts" for t
    using op that v(1) by (auto simp: validate_many_def)
  then show "t \<in> set ts \<Longrightarrow> \<exists>pd. operation_for t p = Inr pd \<and> \<not> submitted pd" using b(4) by blast
  show "\<forall>t \<in> set ts. in_flight p' t"
  proof
    fix t assume "t \<in> set ts"
    then obtain d where d: "d \<in> set pds" "operation_for t p = Inr d" using pd by blast
    have "ticket_id (pd_ticket d) = ticket_id t"
      using pending_invD(2)[OF page_coreD(5)[OF core]] d(2) by (auto simp: operation_for_Inr[OF core])
    then have "operation_for t p' = Inr (d\<lparr>submitted := True\<rparr>)"
      using m(2) d by (auto simp: operation_for_Inr[OF core] operation_for_Inr[OF core'])
    then show "in_flight p' t" by (simp add: in_flight_def)
  qed
qed

lemma complete_all_in_flight:
  assumes core: "page_inv p" and ts: "ts \<noteq> []" "distinct (map ticket_id ts)" "\<forall>t \<in> set ts. in_flight p t"
  shows "\<exists>p'. complete_all ts ok p = Inr p' \<and> page_inv p' \<and> keeps_marked (ticket_id ` set ts) p p'"
proof -
  have "\<exists>pds. operations_for us p = Inr pds \<and> (\<forall>pd \<in> set pds. submitted pd)" if "\<forall>t \<in> set us. in_flight p t" for us
    using that
  proof (induction us)
    case (Cons u us)
    then show ?case by (auto simp: in_flight_def)
  qed simp
  from this[OF ts(3)] obtain pds where
    "operations_for ts p = Inr pds" "\<forall>pd \<in> set pds. submitted pd" by blast
  moreover have "card (set (map ticket_id ts)) = length ts" using ts(2) distinct_card by fastforce
  ultimately have v: "validate_many ts True p = Inr pds"
    using ts(1) by (simp add: validate_many_def list_ex_iff guard_def)
  obtain b: "batch_of pds p"
    using validate_many_cases[OF core, of ts True] v by (metis Inl_Inr_False sum.inject(2))
  obtain p' where "rfold (finish_ticket ok) pds p = Inr p'" "page_inv p'"
    using finish_tickets_ok[OF core b, of ok] by blast
  then show ?thesis using finish_batch_marked(1)[OF core v] v by (simp add: complete_all_def)
qed


subsection \<open>The invariant of the barrier\<close>

definition batch_ok :: "barrier \<Rightarrow> int \<Rightarrow> rank_batch \<Rightarrow> bool" where
  "batch_ok b k rb \<longleftrightarrow> 0 \<le> k \<and> k < next_batch b \<and> batch_tickets rb \<noteq> [] \<and>
     distinct (map ticket_id (batch_tickets rb)) \<and> distinct (map fst (batch_ranks rb)) \<and>
     fst ` set (batch_ranks rb) \<subseteq> {0..<num_ranks b} \<and> int (length (batch_ranks rb)) < num_ranks b"

definition apart :: "rank_batch \<Rightarrow> rank_batch \<Rightarrow> bool" where
  "apart rb rb' \<longleftrightarrow> ticket_id ` set (batch_tickets rb) \<inter> ticket_id ` set (batch_tickets rb') = {}"

definition barrier_inv :: "page_pool \<Rightarrow> barrier \<Rightarrow> bool" where
  "barrier_inv p b \<longleftrightarrow> 1 \<le> num_ranks b \<and> 0 \<le> next_batch b \<and> distinct (map fst (batches b)) \<and>
     (\<forall>(k, rb) \<in> set (batches b). batch_ok b k rb \<and> (\<forall>t \<in> set (batch_tickets rb). in_flight p t)) \<and>
     (\<forall>(k, rb) \<in> set (batches b). \<forall>(k', rb') \<in> set (batches b). k \<noteq> k' \<longrightarrow> apart rb rb')"

lemma barrier_invD:
  assumes "barrier_inv p b"
  shows "1 \<le> num_ranks b" "0 \<le> next_batch b" "distinct (map fst (batches b))"
    and "(k, rb) \<in> set (batches b) \<Longrightarrow> batch_ok b k rb"
    and "(k, rb) \<in> set (batches b) \<Longrightarrow> t \<in> set (batch_tickets rb) \<Longrightarrow> in_flight p t"
    and "(k, rb) \<in> set (batches b) \<Longrightarrow> (k', rb') \<in> set (batches b) \<Longrightarrow> k \<noteq> k' \<Longrightarrow> apart rb rb'"
  using assms unfolding barrier_inv_def by fast+

lemma barrier_inv_marked:
  assumes "page_inv p" "page_inv p'" "barrier_inv p b" "keeps_marked K p p'" "K \<inter> owned b = {}"
  shows "barrier_inv p' b"
proof -
  have "in_flight p' t" if "(k, rb) \<in> set (batches b)" "t \<in> set (batch_tickets rb)" for k rb t
  proof -
    have "ticket_id t \<in> owned b" using that by (force simp: owned_def)
    then show ?thesis
      using in_flight_marked[OF assms(1,2,4) _ barrier_invD(5)[OF assms(3) that]] assms(5) by blast
  qed
  then show ?thesis using assms(3) unfolding barrier_inv_def by fast
qed

lemma barrier_submit_inv:
  assumes core: "page_inv p" and inv: "barrier_inv p b" and run: "barrier_submit ts (p, b) = Inr (k, p', b')"
  shows "barrier_inv p' b'"
proof -
  let ?rb = "\<lparr>batch_tickets = ts, batch_ranks = []\<rparr>"
  have run': "submit_all ts p = Inr p'" and b': "b' = b\<lparr>next_batch := next_batch b + 1,
      batches := AList.update (next_batch b) ?rb (batches b)\<rparr>"
    using run by (auto simp: barrier_submit_def)
  note m = submit_all_marked[OF core run']
  have core': "page_inv p'" using submit_ok(2)[OF core, of ts] run' by simp
  have inv': "barrier_inv p' b" by (rule barrier_inv_marked[OF core core' inv m(1)]) simp
  note d = barrier_invD[OF inv']
  have "next_batch b \<notin> fst ` set (batches b)" using d(4) by (force simp: batch_ok_def)
  then have bs: "batches b' = batches b @ [(next_batch b, ?rb)]" by (simp add: b' alist_update_fresh)
  have ap: "apart rb ?rb \<and> apart ?rb rb" if "(j, rb) \<in> set (batches b)" for j rb
  proof -
    have "ticket_id t \<noteq> ticket_id u" if t: "t \<in> set (batch_tickets rb)" and u: "u \<in> set ts" for t u
    proof
      assume e: "ticket_id t = ticket_id u"
      have "in_flight p t" by (rule barrier_invD(5)[OF inv \<open>(j, rb) \<in> set (batches b)\<close> t])
      then obtain pd where pd: "(ticket_id t, pd) \<in> set (pendings p)" "submitted pd"
        by (auto simp: in_flight_def operation_for_Inr[OF core])
      obtain qd where qd: "operation_for u p = Inr qd" "\<not> submitted qd"
        using submit_all_marked(3)[OF core run' u] by blast
      then have "(ticket_id t, qd) \<in> set (pendings p)" by (simp add: operation_for_Inr[OF core] e)
      moreover have "distinct (map fst (pendings p))"
        using page_coreD(5)[OF core] by (simp add: pending_inv_def)
      ultimately have "pd = qd" using pd(1) by (intro distinct_keys_eq)
      then show False using pd(2) qd(2) by simp
    qed
    note ne = this
    have "ticket_id ` set (batch_tickets rb) \<inter> ticket_id ` set ts = {}" by (rule equals0I) (use ne in blast)
    then show ?thesis by (simp add: apart_def Int_commute)
  qed
  have ok: "batch_ok b' j rb" if "(j, rb) \<in> set (batches b')" for j rb
  proof (cases "(j, rb) \<in> set (batches b)")
    case True
    then show ?thesis using d(4)[of j rb] by (simp add: batch_ok_def b')
  next
    case False
    then have "j = next_batch b" "rb = ?rb" using that by (simp_all add: bs)
    then show ?thesis using d(1,2) m(4,5) by (simp add: batch_ok_def b')
  qed
  show ?thesis
    unfolding barrier_inv_def
  proof (intro conjI)
    show "distinct (map fst (batches b'))"
      using d(3) \<open>next_batch b \<notin> fst ` set (batches b)\<close> by (simp add: bs)
    show "\<forall>(k, rb) \<in> set (batches b'). batch_ok b' k rb \<and> (\<forall>t \<in> set (batch_tickets rb). in_flight p' t)"
      using ok d(5) m(2) by (auto simp: bs)
    show "\<forall>(k, rb) \<in> set (batches b'). \<forall>(k', rb') \<in> set (batches b'). k \<noteq> k' \<longrightarrow> apart rb rb'"
      using ap d(6) by (auto simp: bs)
  qed (use d(1,2) in \<open>simp_all add: b'\<close>)
qed


text \<open>An acknowledgement of a known batch by a rank that has not acknowledged it yet.\<close>

definition acked :: "int \<Rightarrow> bool \<Rightarrow> rank_batch \<Rightarrow> rank_batch" where
  "acked r ok rb = rb\<lparr>batch_ranks := AList.update r ok (batch_ranks rb)\<rparr>"

definition with_ack :: "int \<Rightarrow> int \<Rightarrow> bool \<Rightarrow> rank_batch \<Rightarrow> barrier \<Rightarrow> barrier" where
  "with_ack k r ok rb b = b\<lparr>batches := AList.update k (acked r ok rb) (batches b)\<rparr>"

lemma acknowledge_new:
  assumes "0 \<le> r" "r < num_ranks b" "0 \<le> k" "k < next_batch b"
    and "map_of (batches b) k = Some rb" "map_of (batch_ranks rb) r = None"
  shows "acknowledge k r ok (p, b) =
    (if int (length (batch_ranks rb)) + 1 \<noteq> num_ranks b then Inr (False, p, with_ack k r ok rb b)
     else rbind (complete_all (batch_tickets rb) (ok \<and> list_all snd (batch_ranks rb)) p) (\<lambda>p'.
       Inr (True, p', b\<lparr>batches := AList.delete k (batches b)\<rparr>)))"
proof -
  have "r \<notin> fst ` set (batch_ranks rb)" using assms(6) by (simp add: map_of_eq_None_iff)
  then have "AList.update r ok (batch_ranks rb) = batch_ranks rb @ [(r, ok)]" by (rule alist_update_fresh)
  moreover have "AList.delete k (AList.update k v xs) = AList.delete k xs" for v and xs :: "(int \<times> rank_batch) list"
    by (induction xs) auto
  ultimately show ?thesis
    using assms by (simp add: acknowledge_def with_ack_def acked_def Let_def conj_commute)
qed

lemma acked_props:
  assumes "batch_ok b k rb" "0 \<le> r" "r < num_ranks b" "map_of (batch_ranks rb) r = None"
    and "int (length (batch_ranks rb)) + 1 \<noteq> num_ranks b"
  shows "batch_ok b k (acked r ok rb)"
proof -
  have n: "r \<notin> fst ` set (batch_ranks rb)" using assms(4) by (simp add: map_of_eq_None_iff)
  then show ?thesis using assms by (auto simp: batch_ok_def acked_def alist_update_fresh)
qed

lemma with_ack_inv:
  assumes inv: "barrier_inv p b" and rb: "map_of (batches b) k = Some rb" and ok': "batch_ok b k (acked r ok rb)"
  shows "barrier_inv p (with_ack k r ok rb b)"
proof -
  let ?b = "with_ack k r ok rb b"
  note d = barrier_invD[OF inv]
  have m: "(k, rb) \<in> set (batches b)" using rb by (rule map_of_SomeD)
  have bs: "set (batches ?b) = insert (k, acked r ok rb) {x \<in> set (batches b). fst x \<noteq> k}"
    by (simp add: with_ack_def set_update[OF d(3)])
  have [simp]: "batch_tickets (acked r ok rb) = batch_tickets rb" by (simp add: acked_def)
  have [simp]: "batch_ok ?b j x = batch_ok b j x" for j x by (simp add: batch_ok_def with_ack_def)
  have ap: "apart x (acked r ok rb) = apart x rb" "apart (acked r ok rb) x = apart rb x" for x
    by (simp_all add: apart_def)
  show ?thesis
    unfolding barrier_inv_def
  proof (intro conjI)
    show "distinct (map fst (batches ?b))" using d(3) by (simp add: with_ack_def distinct_update)
    show "\<forall>(j, x) \<in> set (batches ?b). batch_ok ?b j x \<and> (\<forall>t \<in> set (batch_tickets x). in_flight p t)"
      using d(4,5) m ok' by (auto simp: bs)
    show "\<forall>(j, x) \<in> set (batches ?b). \<forall>(j', x') \<in> set (batches ?b). j \<noteq> j' \<longrightarrow> apart x x'"
      using d(6) m by (auto simp: bs ap)
  qed (use d(1,2) in \<open>simp_all add: with_ack_def\<close>)
qed

lemma retire_inv:
  assumes core: "page_inv p" "page_inv p'" and inv: "barrier_inv p b" and rb: "map_of (batches b) k = Some rb"
    and m: "keeps_marked (ticket_id ` set (batch_tickets rb)) p p'"
  shows "barrier_inv p' (b\<lparr>batches := AList.delete k (batches b)\<rparr>)"
proof -
  let ?b = "b\<lparr>batches := AList.delete k (batches b)\<rparr>"
  note d = barrier_invD[OF inv]
  have in_b: "(k, rb) \<in> set (batches b)" using rb by (rule map_of_SomeD)
  have "barrier_inv p ?b"
    unfolding barrier_inv_def
  proof (intro conjI)
    show "\<forall>(j, x) \<in> set (batches ?b). batch_ok ?b j x \<and> (\<forall>t \<in> set (batch_tickets x). in_flight p t)"
      using d(4,5) by (auto simp: set_delete batch_ok_def)
    show "\<forall>(j, x) \<in> set (batches ?b). \<forall>(j', x') \<in> set (batches ?b). j \<noteq> j' \<longrightarrow> apart x x'"
      using d(6) by (auto simp: set_delete)
  qed (use d(1-3) in \<open>simp_all add: distinct_delete\<close>)
  moreover have "ticket_id ` set (batch_tickets rb) \<inter> owned ?b = {}"
    using d(6)[OF in_b] by (fastforce simp: owned_def set_delete apart_def)
  ultimately show ?thesis using barrier_inv_marked[OF core _ m] by blast
qed

lemma acknowledge_ok:
  assumes core: "page_inv p" and inv: "barrier_inv p b"
    and r: "0 \<le> r" "r < num_ranks b" "0 \<le> k" "k < next_batch b"
    and rb: "map_of (batches b) k = Some rb" "map_of (batch_ranks rb) r = None"
  shows "\<exists>p' b'. acknowledge k r ok (p, b) = Inr (int (length (batch_ranks rb)) + 1 = num_ranks b, p', b') \<and>
    barrier_inv p' b'"
proof (cases "int (length (batch_ranks rb)) + 1 = num_ranks b")
  case False
  have "batch_ok b k rb" using barrier_invD(4)[OF inv map_of_SomeD[OF rb(1)]] .
  then show ?thesis
    using with_ack_inv[OF inv rb(1)] acked_props[OF _ r(1,2) rb(2)] False
    by (simp add: acknowledge_new[OF r rb])
next
  case True
  let ?all = "ok \<and> list_all snd (batch_ranks rb)" and ?ts = "batch_tickets rb"
  have m: "(k, rb) \<in> set (batches b)" using rb(1) by (rule map_of_SomeD)
  have "?ts \<noteq> []" "distinct (map ticket_id ?ts)" "\<forall>t \<in> set ?ts. in_flight p t"
    using barrier_invD(4,5)[OF inv m] by (auto simp: batch_ok_def)
  from complete_all_in_flight[OF core this, of ?all] obtain p' where
    p': "complete_all ?ts ?all p = Inr p'" "page_inv p'" "keeps_marked (ticket_id ` set ?ts) p p'" by blast
  then show ?thesis
    using retire_inv[OF core p'(2) inv rb(1) p'(3)] True by (simp add: acknowledge_new[OF r rb])
qed

lemma acknowledge_old:
  assumes "acknowledge k r ok (p, b) = Inr (fin, p', b')"
  obtains "p' = p" "b' = b"
  | rb where "0 \<le> r" "r < num_ranks b" "0 \<le> k" "k < next_batch b"
      "map_of (batches b) k = Some rb" "map_of (batch_ranks rb) r = None"
proof (cases "map_of (batches b) k")
  case None
  then show ?thesis using that(1) assms by (auto simp: acknowledge_def)
next
  case (Some rb)
  then show ?thesis
    using that(1) that(2)[of rb] assms
    by (cases "map_of (batch_ranks rb) r") (auto simp: acknowledge_def split: if_splits)
qed

lemma acknowledge_inv:
  assumes core: "page_inv p" and inv: "barrier_inv p b" and run: "acknowledge k r ok (p, b) = Inr (fin, p', b')"
  shows "barrier_inv p' b'"
  using run
proof (cases rule: acknowledge_old)
  case (2 rb)
  then show ?thesis using acknowledge_ok[OF core inv, of r k rb ok] run by auto
qed (use inv in simp)


subsection \<open>Every call of the system keeps both invariants\<close>

lemma submit_ticket_marked:
  assumes core: "page_inv p" and run: "submit_ticket t p = Inr p'"
  shows "keeps_marked {} p p'"
proof -
  obtain pd where pd: "operation_for t p = Inr pd" "\<not> submitted pd" "p' = mark_submitted pd p"
    using run by (auto simp: submit_ticket_def)
  then show ?thesis using mark_submitted_marked[OF core] by (auto simp: operation_for_Inr[OF core])
qed

lemma cancel_ticket_marked:
  assumes core: "page_inv p" and run: "cancel_ticket t p = Inr p'"
  shows "keeps_marked {} p p'"
  using run finish_marked(2)[OF core] by (auto simp: cancel_ticket_def operation_for_Inr[OF core])

lemma complete_ticket_marked:
  assumes core: "page_inv p" and run: "complete_ticket t ok p = Inr p'"
  shows "keeps_marked {ticket_id t} p p'"
  using run finish_marked(1)[OF core] by (auto simp: complete_ticket_def operation_for_Inr[OF core])

lemma batch_marked:
  assumes core: "page_inv p"
  shows "cancel_all ts p = Inr p' \<Longrightarrow> keeps_marked {} p p'"
    and "complete_all ts ok p = Inr p' \<Longrightarrow> keeps_marked (ticket_id ` set ts) p p'"
  using finish_batch_marked(1)[OF core] finish_batch_marked(2)[OF core, of ts False]
  by (auto simp: cancel_all_def complete_all_def)

text \<open>The transfers a call of the pool may finish although they were submitted.\<close>

fun finishes :: "page_call \<Rightarrow> nat set" where
  "finishes (Complete t ok) = {ticket_id t}"
| "finishes (CompleteAll ts ok) = ticket_id ` set ts"
| "finishes _ = {}"

lemma run_call_marked:
  assumes core: "page_inv p" and run: "run_call c (p, b) = Inr (p', b')"
    and "\<not> (\<exists>ts. c = BarrierSubmit ts)" "\<not> (\<exists>k r ok. c = Acknowledge k r ok)"
  shows "keeps_marked (finishes c) p p' \<and> b' = b"
  using run assms(3,4)
  by (cases c) (auto simp: call_simps intro: keeps_marked_same[OF acquire_page_pendings]
    keeps_marked_same[OF release_lease_pendings] keeps_marked_same[OF evict_tier_pendings]
    begin_transfer_marked[OF core] submit_ticket_marked[OF core] submit_all_marked(1)[OF core]
    cancel_ticket_marked[OF core] complete_ticket_marked[OF core] batch_marked[OF core])

lemma run_call_barrier:
  assumes core: "page_inv p" and inv: "barrier_inv p b" and ok: "allowed c (p, b)"
    and run: "run_call c (p, b) = Inr (p', b')"
  shows "barrier_inv p' b'"
proof (cases "(\<exists>ts. c = BarrierSubmit ts) \<or> (\<exists>k r ok. c = Acknowledge k r ok)")
  case True
  then show ?thesis
    using run barrier_submit_inv[OF core inv] acknowledge_inv[OF core inv] by (auto simp: call_simps)
next
  case False
  then have m: "keeps_marked (finishes c) p p'" "b' = b" using run_call_marked[OF core run] by blast+
  have "page_inv p'" using run_call_keeps[OF core, of c b] run by (simp add: keeps_sys_def)
  moreover have "finishes c \<inter> owned b = {}" using ok by (cases c) auto
  ultimately show ?thesis using barrier_inv_marked[OF core _ inv m(1)] m(2) by blast
qed

lemma barrier_reach_inv: "page_reach s \<Longrightarrow> barrier_inv (fst s) (snd s)"
proof (induction rule: page_reach.induct)
  case (init h d p n b)
  then show ?case by (auto simp: barrier_init_def barrier_inv_def)
next
  case (step s c s')
  then show ?case
    using run_call_barrier[of "fst s" "snd s" c "fst s'" "snd s'"] page_reach_inv[OF step.hyps(1)] by simp
qed

end
