(* ===== verification/Page_Data.thy ===== *)
theory Page_Data
  imports Barrier_Invariant
begin

text \<open>
  What the pool keeps of the data it holds: a page with a ready copy has one as long as the page
  exists, and a transfer in flight shares its destination with nothing.
\<close>

subsection \<open>Ready copies survive\<close>

definition has_data :: "page_pool \<Rightarrow> nat \<Rightarrow> bool" where
  "has_data p i \<longleftrightarrow> is_ready p (attached p i Host) \<or> is_ready p (attached p i Disk)"

definition keeps_data :: "page_pool \<Rightarrow> page_pool \<Rightarrow> bool" where
  "keeps_data p p' \<longleftrightarrow>
     (\<forall>i \<in> set (page_order p). i \<in> set (page_order p') \<longrightarrow> has_data p i \<longrightarrow> has_data p' i)"

lemma has_data_iff: "has_data p i \<longleftrightarrow> (\<exists>t a. attached p i t = Some a \<and> copy_ready (copy_store p a))"
proof
  assume "\<exists>t a. attached p i t = Some a \<and> copy_ready (copy_store p a)"
  then obtain t a where "attached p i t = Some a" "copy_ready (copy_store p a)" by blast
  then show "has_data p i" by (cases t) (simp_all add: has_data_def is_ready_def)
qed (auto simp: has_data_def is_ready_Some)

lemma keeps_data_refl [simp]: "keeps_data p p"
  by (simp add: keeps_data_def)

lemma keeps_data_trans:
  assumes "keeps_data p q" "keeps_data q r" "set (page_order p) \<inter> set (page_order r) \<subseteq> set (page_order q)"
  shows "keeps_data p r"
  using assms by (auto simp: keeps_data_def)

text \<open>Copies that were ready stay attached and ready.\<close>

lemma keeps_dataI:
  assumes "\<And>i t a. i \<in> set (page_order p) \<Longrightarrow> i \<in> set (page_order p') \<Longrightarrow> attached p i t = Some a \<Longrightarrow>
    copy_ready (copy_store p a) \<Longrightarrow> attached p' i t = Some a \<and> copy_ready (copy_store p' a)"
  shows "keeps_data p p'"
  using assms by (force simp: keeps_data_def has_data_iff)

lemma trimmed_data:
  assumes "trimmed t p p'"
  shows "keeps_data p p'"
  unfolding keeps_data_def
proof (intro ballI impI)
  fix i
  assume "has_data p i"
  then obtain u a where a: "attached p i u = Some a" "copy_ready (copy_store p a)"
    by (auto simp: has_data_iff)
  have r: "is_ready p' oa = is_ready p oa" for oa
    using assms by (intro is_ready_cong) (simp add: trimmed_def)
  show "has_data p' i"
  proof (cases "attached p' i u = attached p i u")
    case True
    then show ?thesis using a r by (cases u) (auto simp: has_data_def is_ready_Some)
  next
    case False
    then have "u = t" "is_ready p (attached p i (other_tier t))" using assms by (auto simp: trimmed_def)
    then show ?thesis
      using trimmed_other[OF assms, of "other_tier t" i] r by (cases t) (auto simp: has_data_def)
  qed
qed

lemma evict_tier_data:
  assumes core: "page_inv p" and run: "evict_tier t l p = Inr (d, p')"
  shows "keeps_data p p'"
proof (cases rule: page_for_cases[OF core, of l])
  case (2 i)
  then have "evict_copy i t p = Inr (d, p')"
    using run by (cases t) (simp_all add: evict_host_def evict_disk_def)
  then show ?thesis using evict_copy_ok[OF core 2(2), of t] trimmed_data by auto
qed (use run in \<open>cases t; simp add: evict_host_def evict_disk_def\<close>)

lemma allocate_copy_data:
  assumes core: "page_core p S" and i: "i \<in> set (page_order p)" "attached p i t = None"
    and run: "allocate_copy i t p = Inr (oa, p')"
  shows "keeps_data p p' \<and> page_order p' = page_order p"
proof -
  obtain p1 where p1: "(if free_slots p t = [] then reclaim_copy (page_order p) t p else Inr p) = Inr p1"
    "page_core p1 S" "trimmed t p p1"
    using reclaim_copy_ok[OF core subset_refl, of t] core by (cases "free_slots p t = []") auto
  have tr: "attached p1 i t = None" "page_order p1 = page_order p"
    using p1(3) i(2) unfolding trimmed_def by metis+
  note d = trimmed_data[OF p1(3)]
  show ?thesis
  proof (cases "free_slots p1 t = []")
    case True
    then show ?thesis using run p1(1) d tr(2) by (simp add: allocate_copy_def)
  next
    case False
    then have p': "page_order p' = page_order p1"
        "copy_store p' = (copy_store p1)(next_copy p1 := \<lparr>copy_tier = t, copy_slot = last (free_slots p1 t),
          copy_ready = False, copy_pins = 0\<rparr>)"
        "attached p' j u = (if j = i \<and> u = t then Some (next_copy p1) else attached p1 j u)" for j u
      using run p1(1) by (auto simp: allocate_copy_def Let_def) (auto simp: attached_def)
    have "keeps_data p1 p'"
    proof (rule keeps_dataI)
      fix j u a
      assume a: "j \<in> set (page_order p1)" "attached p1 j u = Some a" "copy_ready (copy_store p1 a)"
      have "a < next_copy p1" by (rule copies_invD(3)[OF page_coreD(4)[OF p1(2)] a(1,2)])
      then show "attached p' j u = Some a \<and> copy_ready (copy_store p' a)"
        using a tr(1) by (auto simp: p')
    qed
    then show ?thesis using keeps_data_trans[OF d] tr(2) p'(1) by simp
  qed
qed

lemma same_data:
  assumes "\<And>i t. attached p' i t = attached p i t" "\<And>a. copy_ready (copy_store p a) \<Longrightarrow> copy_ready (copy_store p' a)"
  shows "keeps_data p p'"
  using assms by (intro keeps_dataI) simp

lemma add_pins_data [simp]:
  "attached (add_pins d oa p) i t = attached p i t"
  "copy_ready (copy_store (add_pins d oa p) a) = copy_ready (copy_store p a)"
  by (auto simp: add_pins_def split: option.split)

lemma reserve_data:
  assumes "reserve i op src dst oid p = Inr (t, p')"
  shows "keeps_data p p'"
  using assms
  by (intro same_data) (auto simp: reserve_def Let_def move_page_to_end_def)

lemma begin_transfer_data:
  assumes core: "page_inv p" and run: "begin_transfer op l oid p = Inr (x, p')"
  shows "keeps_data p p'"
proof (cases rule: page_for_cases[OF core, of l])
  case 1
  then show ?thesis
    using run by (cases op) (simp_all add: begin_offload_def begin_writeback_def begin_promotion_def begin_restore_def)
next
  case (2 i)
  have al: "keeps_data p p1 \<and> page_order p1 = page_order p"
    if "attached p i t = None" "allocate_copy i t p = Inr (oa, p1)" for t oa p1
    by (rule allocate_copy_data[OF core 2(2) that])
  have both: "keeps_data p p'"
    if "attached p i t = None" "allocate_copy i t p = Inr (oa, p1)" "reserve i op' src dst oid p1 = Inr (tk, p')"
    for t oa p1 op' src dst tk
    using al[OF that(1,2)] reserve_data[OF that(3)] that(3)
    by (auto intro!: keeps_data_trans[of p p1 p'])
  show ?thesis
    using run 2(1) by (cases op) (auto simp: begin_offload_def begin_writeback_def begin_promotion_def
      begin_restore_def split: if_splits intro: both al[THEN conjunct1] reserve_data)
qed

lemma mark_submitted_fold_data:
  "attached (fold mark_submitted pds p) i t = attached p i t"
  "copy_store (fold mark_submitted pds p) = copy_store p"
  by (induction pds arbitrary: p) (auto simp: mark_submitted_def)

lemma submit_data:
  "submit_ticket t p = Inr p' \<Longrightarrow> keeps_data p p'" "submit_all ts p = Inr p' \<Longrightarrow> keeps_data p p'"
  by (auto simp: submit_ticket_def submit_all_def mark_submitted_fold_data mark_submitted_def intro!: same_data)


text \<open>Collecting a page touches no other page, and takes the page out of the table.\<close>

lemma drop_copy_other:
  assumes "drop_copy i t p = Inr p'"
  shows "j \<noteq> i \<Longrightarrow> attached p' j u = attached p j u" "u \<noteq> t \<Longrightarrow> attached p' i u = attached p i u"
    "copy_store p' = copy_store p" "page_order p' = page_order p"
proof -
  obtain s where "p' = dropped i t s p"
    using assms by (auto simp: drop_copy_def dropped_def Let_def split: option.splits)
  then show "j \<noteq> i \<Longrightarrow> attached p' j u = attached p j u" "u \<noteq> t \<Longrightarrow> attached p' i u = attached p i u"
    "copy_store p' = copy_store p" "page_order p' = page_order p" by simp_all
qed

lemma collect_tier_other:
  assumes "collect_tier i t p = Inr p'"
  shows "j \<noteq> i \<Longrightarrow> attached p' j u = attached p j u" "copy_store p' = copy_store p" "page_order p' = page_order p"
  using assms drop_copy_other[of i t p p'] by (auto simp: collect_tier_def split: if_splits)

lemma collect_page_data:
  assumes d: "distinct (page_order p)" and run: "collect_page i p = Inr p'"
  shows "keeps_data p p' \<and> set (page_order p') \<subseteq> set (page_order p)"
proof (cases "p' = p")
  case False
  then obtain p1 p2 where c: "collect_tier i Host p = Inr p1" "collect_tier i Disk p1 = Inr p2"
      and p': "copy_store p' = copy_store p2" "page_order p' = remove1 i (page_order p2)"
        "\<And>j u. attached p' j u = attached p2 j u"
    using run by (auto simp: collect_page_def split: if_splits option.splits)
  note o = collect_tier_other[OF c(1)] collect_tier_other[OF c(2)]
  have "keeps_data p p'"
    using d by (intro keeps_dataI) (auto simp: p' o)
  then show ?thesis using set_remove1_subset[of i "page_order p"] by (simp add: p' o)
qed simp

lemma release_lease_data:
  assumes core: "page_inv p" and run: "release_lease l p = Inr (x, p')"
  shows "keeps_data p p'"
proof (cases "lease_entry l p")
  case None
  then show ?thesis using run by (simp add: release_lease_def)
next
  case (Some i)
  let ?q = "upd_page i (\<lambda>pg. pg\<lparr>references := references pg - 1\<rparr>) (p\<lparr>leases := AList.delete (lease_id l) (leases p)\<rparr>)"
  have a: "attached ?q j t = attached p j t" for j t by (cases t) (auto simp: attached_def)
  have c: "collect_page i ?q = Inr p'" using run Some by (simp add: release_lease_def)
  have "distinct (page_order ?q)" using page_coreD(1)[OF core] by (simp add: pages_inv_def)
  note d = collect_page_data[OF this c]
  have "keeps_data p ?q" by (rule same_data) (simp_all only: a, simp_all)
  then show ?thesis by (rule keeps_data_trans) (use d in auto)
qed

lemma acquire_page_data:
  assumes core: "page_inv p" and run: "acquire_page key owner oid p = Inr (l, p')"
  shows "keeps_data p p'"
proof -
  have att: "keeps_data q p'" if "attach_lease i owner oid q = Inr (l, p')" for i q
  proof (rule same_data)
    show "attached p' j t = attached q j t" for j t
      using that by (cases t) (auto simp: attach_lease_def Let_def move_page_to_end_def attached_def)
  qed (use that in \<open>auto simp: attach_lease_def Let_def move_page_to_end_def\<close>)
  have order: "set (page_order p') \<subseteq> set (page_order q)" if "attach_lease i owner oid q = Inr (l, p')" for i q
    using that set_remove1_subset by (fastforce simp: attach_lease_def Let_def move_page_to_end_def)
  have "keeps_data p (new_page key p)"
  proof (rule keeps_dataI)
    fix i t a
    assume i: "i \<in> set (page_order p)" "attached p i t = Some a" "copy_ready (copy_store p a)"
    have "i \<noteq> next_page p" using page_coreD(1)[OF core] i(1) by (auto simp: pages_inv_def)
    then show "attached (new_page key p) i t = Some a \<and> copy_ready (copy_store (new_page key p) a)"
      using i by (auto simp: new_page_def attached_def Let_def split: option.splits)
  qed
  then have new: "keeps_data p p'" if "attach_lease i owner oid (new_page key p) = Inr (l, p')" for i
    by (rule keeps_data_trans[OF _ att[OF that]]) (use order[OF that] in auto)
  show ?thesis
    using run att new by (auto simp: acquire_page_def split: option.splits)
qed

lemma finish_ticket_data:
  assumes core: "page_inv p" and pd: "(k, pd) \<in> set (pendings p)" and run: "finish_ticket ok pd p = Inr p'"
  shows "keeps_data p p' \<and> set (page_order p') \<subseteq> set (page_order p)"
proof -
  define p1 where "p1 = add_pins (-1) (pd_destination pd) (add_pins (-1) (pd_source pd)
      (p\<lparr>pendings := AList.delete (ticket_id (pd_ticket pd)) (pendings p)\<rparr>))"
  have o1: "page_order p1 = page_order p" by (simp add: p1_def)
  have k1: "attached p1 i t = attached p i t" "copy_ready (copy_store p1 a) = copy_ready (copy_store p a)"
    "copy_tier (copy_store p1 a) = copy_tier (copy_store p a)" for i t a
    by (simp_all add: p1_def)
  obtain p2 where p2: "(case pd_destination pd of None \<Rightarrow> Inr p1
      | Some a \<Rightarrow> if ok then Inr (upd_copy a (\<lambda>c. c\<lparr>copy_ready := True\<rparr>) p1)
                  else drop_copy (pd_page pd) (copy_tier (copy_store p1 a)) p1) = Inr p2"
    "collect_page (pd_page pd) p2 = Inr p'"
    using run unfolding finish_ticket_def p1_def[symmetric] Let_def by auto
  have 12: "keeps_data p p2 \<and> page_order p2 = page_order p"
  proof (cases "pd_destination pd")
    case None
    then show ?thesis using p2(1) k1 o1 by (auto intro!: same_data)
  next
    case (Some a)
    have a: "attached p (pd_page pd) (copy_tier (copy_store p a)) = Some a" "\<not> copy_ready (copy_store p a)"
      using pending_invD(3)[OF page_coreD(5)[OF core] pd] Some by (auto simp: check_pending_def)
    show ?thesis
    proof (cases ok)
      case True
      then show ?thesis using p2(1) Some k1 o1 by (auto intro!: same_data)
    next
      case False
      then have "drop_copy (pd_page pd) (copy_tier (copy_store p1 a)) p1 = Inr p2" using p2(1) Some by simp
      note d = drop_copy_other[OF this]
      have "keeps_data p p2"
      proof (rule keeps_dataI)
        fix i t b
        assume b: "attached p i t = Some b" "copy_ready (copy_store p b)"
        then have "i \<noteq> pd_page pd \<or> t \<noteq> copy_tier (copy_store p1 a)" using a by (auto simp: k1)
        then have "attached p2 i t = attached p i t" using d(1,2) k1(1) by metis
        then show "attached p2 i t = Some b \<and> copy_ready (copy_store p2 b)"
          using b by (simp add: d(3) k1(2))
      qed
      then show ?thesis using d(4) o1 by simp
    qed
  qed
  have "distinct (page_order p2)" using 12 page_coreD(1)[OF core] by (simp add: pages_inv_def)
  from collect_page_data[OF this p2(2)] show ?thesis
    using 12 keeps_data_trans[of p p2 p'] by auto
qed

lemma finish_tickets_data:
  assumes "page_inv p" "batch_of pds p" "rfold (finish_ticket ok) pds p = Inr p'"
  shows "keeps_data p p' \<and> set (page_order p') \<subseteq> set (page_order p)"
  using assms
proof (induction pds arbitrary: p)
  case (Cons pd pds)
  let ?k = "ticket_id (pd_ticket pd)"
  have pd: "(?k, pd) \<in> set (pendings p)" using Cons.prems(2) by (simp add: batch_of_def)
  from finish_ticket_ok[OF Cons.prems(1) pd] obtain p1 where
    p1: "finish_ticket ok pd p = Inr p1" "page_inv p1" "pendings p1 = AList.delete ?k (pendings p)" by blast
  have "batch_of pds p1"
    using Cons.prems(2) by (auto simp: batch_of_def p1(3) set_delete image_iff)
  moreover have "rfold (finish_ticket ok) pds p1 = Inr p'" using Cons.prems(3) p1(1) by simp
  ultimately have "keeps_data p1 p' \<and> set (page_order p') \<subseteq> set (page_order p1)"
    by (rule Cons.IH[OF p1(2)])
  with finish_ticket_data[OF Cons.prems(1) pd p1(1)] show ?case
    using keeps_data_trans[of p p1 p'] by auto
qed simp

lemma finish_batch_data:
  assumes core: "page_inv p"
  shows "cancel_all ts p = Inr p' \<Longrightarrow> keeps_data p p'" "complete_all ts ok p = Inr p' \<Longrightarrow> keeps_data p p'"
proof -
  have "keeps_data p p'" if v: "validate_many ts sub p = Inr pds" "rfold (finish_ticket s) pds p = Inr p'" for sub s pds
  proof -
    have "batch_of pds p" using validate_many_cases[OF core, of ts sub] v(1) by (metis Inl_Inr_False sum.inject(2))
    then show ?thesis using finish_tickets_data[OF core _ v(2)] by blast
  qed
  then show "cancel_all ts p = Inr p' \<Longrightarrow> keeps_data p p'" "complete_all ts ok p = Inr p' \<Longrightarrow> keeps_data p p'"
    by (auto simp: cancel_all_def complete_all_def)
qed

lemma finish_one_data:
  assumes core: "page_inv p"
  shows "cancel_ticket t p = Inr p' \<Longrightarrow> keeps_data p p'" "complete_ticket t ok p = Inr p' \<Longrightarrow> keeps_data p p'"
  using finish_ticket_data[OF core]
  by (auto simp: cancel_ticket_def complete_ticket_def operation_for_Inr[OF core])

lemma run_call_data:
  assumes core: "page_inv p" and run: "run_call c (p, b) = Inr (p', b')"
  shows "keeps_data p p'"
proof (cases "\<exists>k r ok. c = Acknowledge k r ok")
  case True
  then obtain k r ok fin where "acknowledge k r ok (p, b) = Inr (fin, p', b')"
    using run by (auto simp: call_simps)
  then have "p' = p \<or> (\<exists>ts s. complete_all ts s p = Inr p')"
    by (auto simp: acknowledge_def Let_def split: option.splits if_splits)
  then show ?thesis using finish_batch_data(2)[OF core] by auto
next
  case False
  then show ?thesis
    using run
    by (cases c) (auto simp: call_simps barrier_submit_def intro: acquire_page_data[OF core] release_lease_data[OF core]
      begin_transfer_data[OF core] submit_data evict_tier_data[OF core] finish_batch_data[OF core]
      finish_one_data[OF core])
qed

end
