(* ===== verification/Tier_Properties.thy ===== *)
theory Tier_Properties
  imports Page_Data
begin

text \<open>
  The properties of the page pool and its completion barrier, over every state that calls can reach,
  each with the concrete state on which it is exercised.
\<close>

subsection \<open>A small system, run from its start\<close>

fun run_calls :: "page_call list \<Rightarrow> page_system \<Rightarrow> page_system res" where
  "run_calls [] s = Inr s"
| "run_calls (c # cs) s = (if allowed c s then rbind (run_call c s) (run_calls cs) else Inl ValueError)"

lemma run_calls_reach: "page_reach s \<Longrightarrow> run_calls cs s = Inr s' \<Longrightarrow> page_reach s'"
  by (induction cs arbitrary: s) (auto split: if_splits intro: page_reach.step)

definition start_system :: "int \<Rightarrow> int \<Rightarrow> int \<Rightarrow> page_system res" where
  "start_system h d n = rbind (page_pool_init h d) (\<lambda>p. rbind (barrier_init n) (\<lambda>b. Inr (p, b)))"

lemma start_system_reach: "start_system h d n = Inr s \<Longrightarrow> page_reach s"
  by (auto simp: start_system_def intro: page_reach.init)

definition sample_key :: page_key where
  "sample_key = \<lparr>key_group_id = 0, key_block_hash = [7]\<rparr>"

definition sample_lease :: page_lease where
  "sample_lease = \<lparr>lease_id = 0, lease_page_id = 0, lease_owner = ''a'', lease_object = 10\<rparr>"

definition private_lease :: page_lease where
  "private_lease = \<lparr>lease_id = 1, lease_page_id = 1, lease_owner = ''b'', lease_object = 11\<rparr>"

definition offload_ticket :: page_ticket where
  "offload_ticket = \<lparr>ticket_id = 0, ticket_operation = Offload, ticket_source = None,
     ticket_destination = Some (Host, 0), ticket_object = 20\<rparr>"

definition private_ticket :: page_ticket where
  "private_ticket = \<lparr>ticket_id = 1, ticket_operation = Offload, ticket_source = None,
     ticket_destination = Some (Host, 1), ticket_object = 21\<rparr>"

definition writeback_ticket :: page_ticket where
  "writeback_ticket = \<lparr>ticket_id = 2, ticket_operation = Writeback, ticket_source = Some (Host, 0),
     ticket_destination = Some (Disk, 0), ticket_object = 22\<rparr>"

text \<open>Two pages with an offload each; then the first is on the host and being written to disk; then it
  is on both tiers.\<close>

definition offload_calls :: "page_call list" where
  "offload_calls = [Acquire (Some sample_key) ''a'' 10, Acquire None ''b'' 11,
     Begin Offload sample_lease 20, Begin Offload private_lease 21]"

definition writeback_calls :: "page_call list" where
  "writeback_calls = [BarrierSubmit [offload_ticket], Acknowledge 0 1 True, Acknowledge 0 0 True,
     Begin Writeback sample_lease 22]"

definition settle_calls :: "page_call list" where
  "settle_calls = [Submit writeback_ticket, Complete writeback_ticket True]"

definition run_from_start :: "page_call list \<Rightarrow> page_system" where
  "run_from_start cs = projr (rbind (start_system 2 1 2) (run_calls cs))"

lemma run_from_start_reach:
  assumes "\<not> isl (rbind (start_system 2 1 2) (run_calls cs))"
  shows "page_reach (run_from_start cs)"
proof -
  obtain s0 where s0: "start_system 2 1 2 = Inr s0" using assms by (cases "start_system 2 1 2") auto
  obtain s where "run_calls cs s0 = Inr s" using assms by (cases "run_calls cs s0") (auto simp: s0)
  then show ?thesis
    using run_calls_reach[OF start_system_reach[OF s0]] by (simp add: run_from_start_def s0)
qed

lemma offload_reach: "page_reach (run_from_start offload_calls)"
  by (rule run_from_start_reach) code_simp

lemma writeback_reach: "page_reach (run_from_start (offload_calls @ writeback_calls))"
  by (rule run_from_start_reach) code_simp

lemma settle_reach: "page_reach (run_from_start (offload_calls @ writeback_calls @ settle_calls))"
  by (rule run_from_start_reach) code_simp


subsection \<open>Lemmas of the properties\<close>

lemma reach_core: "page_reach (p, b) \<Longrightarrow> page_inv p" "page_reach (p, b) \<Longrightarrow> barrier_inv p b"
  using page_reach_inv[of "(p, b)"] barrier_reach_inv[of "(p, b)"] by simp_all



text \<open>Acknowledgements of one batch, in any order of the ranks.\<close>

fun ack_run :: "int \<Rightarrow> (int \<times> bool) list \<Rightarrow> page_system \<Rightarrow> (bool list \<times> page_system) res" where
  "ack_run k [] s = Inr ([], s)"
| "ack_run k ((r, ok) # acks) s =
     rbind (acknowledge k r ok s) (\<lambda>(x, s'). rbind (ack_run k acks s') (\<lambda>(xs, s''). Inr (x # xs, s'')))"

lemma ack_run_ok:
  assumes "page_inv p" "barrier_inv p b" "0 \<le> k" "k < next_batch b" "map_of (batches b) k = Some rb"
    and "acks \<noteq> []" "distinct (map fst acks)" "fst ` set acks \<inter> fst ` set (batch_ranks rb) = {}"
    and "fst ` set acks \<subseteq> {0..<num_ranks b}"
    and "int (length acks) + int (length (batch_ranks rb)) = num_ranks b"
  shows "\<exists>p2 b2. ack_run k acks (p, b) = Inr (replicate (length acks - 1) False @ [True], p2, b2) \<and>
    complete_all (batch_tickets rb) (list_all snd (batch_ranks rb @ acks)) p = Inr p2 \<and>
    batches b2 = AList.delete k (batches b)"
  using assms
proof (induction acks arbitrary: b rb)
  case (Cons x acks)
  obtain r ok where x: "x = (r, ok)" by fastforce
  have r: "0 \<le> r" "r < num_ranks b" "map_of (batch_ranks rb) r = None"
    using Cons.prems(8,9) by (auto simp: x map_of_eq_None_iff)
  note ack = acknowledge_new[OF r(1,2) Cons.prems(3-5) r(3), of ok p]
  have fresh: "AList.update r ok (batch_ranks rb) = batch_ranks rb @ [(r, ok)]"
    using r(3) by (intro alist_update_fresh) (simp add: map_of_eq_None_iff)
  note prems = Cons.prems and IH = Cons.IH
  show ?case
  proof (cases acks)
    case Nil
    have full: "int (length (batch_ranks rb)) + 1 = num_ranks b" using prems(10) by (simp add: Nil)
    have eq: "(ok \<and> list_all snd (batch_ranks rb)) = list_all snd (batch_ranks rb @ [(r, ok)])" by auto
    obtain p2 where "complete_all (batch_tickets rb) (ok \<and> list_all snd (batch_ranks rb)) p = Inr p2"
      using acknowledge_ok[OF prems(1,2) r(1,2) prems(3-5) r(3), of ok] by (auto simp: ack full)
    then show ?thesis unfolding Nil x eq[symmetric] by (simp add: ack full)
  next
    case (Cons y ys)
    let ?b = "with_ack k r ok rb b" and ?rb = "acked r ok rb"
    have more: "int (length (batch_ranks rb)) + 1 \<noteq> num_ranks b" using prems(10) by (simp add: Cons)
    have run: "acknowledge k r ok (p, b) = Inr (False, p, ?b)" by (simp add: ack more)
    have "batch_ok b k rb" by (rule barrier_invD(4)[OF prems(2) map_of_SomeD[OF prems(5)]])
    then have inv: "barrier_inv p ?b"
      by (intro with_ack_inv[OF prems(2,5)] acked_props[OF _ r more])
    have rk: "batch_ranks ?rb = batch_ranks rb @ [(r, ok)]" by (simp add: acked_def fresh)
    have "\<exists>p2 b2. ack_run k acks (p, ?b) = Inr (replicate (length acks - 1) False @ [True], p2, b2) \<and>
        complete_all (batch_tickets ?rb) (list_all snd (batch_ranks ?rb @ acks)) p = Inr p2 \<and>
        batches b2 = AList.delete k (batches ?b)"
    proof (rule IH[OF prems(1) inv])
      show "map_of (batches ?b) k = Some ?rb" by (simp add: with_ack_def update_conv')
    qed (use prems Cons in \<open>auto simp: x rk with_ack_def\<close>)
    moreover have "AList.delete k (batches ?b) = AList.delete k (batches b)"
      by (simp add: with_ack_def delete_update_same)
    ultimately show ?thesis by (auto simp: x run rk acked_def fresh Cons)
  qed
qed simp


subsection \<open>Properties\<close>



text \<open>C30: In a reachable state no call of the pool or of the barrier raises anything but \<open>ValueError\<close>:
  neither a \<open>RuntimeError\<close> (a slot with two owners, a missing or pinned copy being freed) nor a
  \<open>KeyError\<close> of the tables.\<close>

theorem pool_raises_only_value_error:
  assumes "page_reach (p, b)" and "run_call c (p, b) = Inl e"
  shows "e = ValueError"
  using run_call_keeps[OF reach_core(1)[OF assms(1)], of c b] assms(2) by (simp add: keeps_sys_def)

theorem pool_raises_only_value_error_witness:
  "\<exists>e. run_call (Cancel offload_ticket) (run_from_start (offload_calls @ writeback_calls)) = Inl e \<and> e = ValueError"
proof -
  let ?s = "run_from_start (offload_calls @ writeback_calls)"
  have "isl (run_call (Cancel offload_ticket) ?s)" by code_simp
  then obtain e where "run_call (Cancel offload_ticket) ?s = Inl e" by (auto simp: isl_def)
  then show ?thesis
    using pool_raises_only_value_error[of "fst ?s" "snd ?s" "Cancel offload_ticket" e] writeback_reach by simp
qed



text \<open>C29: No call loses the data of a page that still exists: a page with a ready copy on the host or
  on disk has one after any call, whatever the call evicts, reclaims, cancels, completes or releases.\<close>

theorem calls_keep_data:
  assumes "page_reach (p, b)" and "run_call c (p, b) = Inr (p', b')"
    and "i \<in> set (page_order p)" and "i \<in> set (page_order p')" and "has_data p i"
  shows "has_data p' i"
  using run_call_data[OF reach_core(1)[OF assms(1)] assms(2)] assms(3-5) by (simp add: keeps_data_def)

theorem calls_keep_data_witness:
  "has_data (fst (projr (run_call (Evict Host sample_lease)
     (run_from_start (offload_calls @ writeback_calls @ settle_calls))))) 0"
proof -
  let ?s = "run_from_start (offload_calls @ writeback_calls @ settle_calls)"
  let ?r = "run_call (Evict Host sample_lease) ?s"
  have "\<not> isl ?r" by code_simp
  then obtain p' b' where r: "?r = Inr (p', b')" by (cases ?r) auto
  have "0 \<in> set (page_order (fst ?s))" "0 \<in> set (page_order (fst (projr ?r)))" "has_data (fst ?s) 0"
    by code_simp+
  then show ?thesis
    using calls_keep_data[of "fst ?s" "snd ?s" "Evict Host sample_lease" p' b' 0] settle_reach r by simp
qed

text \<open>C28: A batch submitted to the barrier finishes exactly when its last rank acknowledges: fed one
  acknowledgement per rank, in any order of the ranks, the barrier answers \<open>False\<close> to all but the last
  and \<open>True\<close> to the last, never raises, completes the transfers of the batch in one go, successfully
  if and only if every rank succeeded, and forgets the batch.\<close>

theorem batch_finishes_with_last_rank:
  assumes "page_reach (p, b)" and "barrier_submit ts (p, b) = Inr (k, p1, b1)"
    and "distinct (map fst acks)" and "fst ` set acks = {0..<num_ranks b}"
  shows "\<exists>p2 b2. ack_run k acks (p1, b1) = Inr (replicate (length acks - 1) False @ [True], p2, b2) \<and>
    complete_all ts (list_all snd acks) p1 = Inr p2 \<and> batches b2 = batches b"
proof -
  note core = reach_core(1)[OF assms(1)] and inv = reach_core(2)[OF assms(1)]
  let ?rb = "\<lparr>batch_tickets = ts, batch_ranks = []\<rparr>"
  have run: "submit_all ts p = Inr p1" "k = next_batch b"
    and b1: "b1 = b\<lparr>next_batch := next_batch b + 1, batches := AList.update (next_batch b) ?rb (batches b)\<rparr>"
    using assms(2) by (auto simp: barrier_submit_def)
  have core1: "page_inv p1" using submit_ok(2)[OF core, of ts] run(1) by simp
  have inv1: "barrier_inv p1 b1" by (rule barrier_submit_inv[OF core inv assms(2)])
  note d = barrier_invD[OF inv]
  have fresh: "k \<notin> fst ` set (batches b)" using d(4) by (force simp: batch_ok_def run(2))
  have "length acks = card (fst ` set acks)" using assms(3) by (metis distinct_card length_map set_map)
  then have len: "int (length acks) = num_ranks b" using d(1) by (simp add: assms(4))
  have "\<exists>p2 b2. ack_run k acks (p1, b1) = Inr (replicate (length acks - 1) False @ [True], p2, b2) \<and>
      complete_all (batch_tickets ?rb) (list_all snd (batch_ranks ?rb @ acks)) p1 = Inr p2 \<and>
      batches b2 = AList.delete k (batches b1)"
    using d(1,2) assms(3,4) len by (intro ack_run_ok[OF core1 inv1]) (auto simp: b1 run(2) update_conv')
  moreover have "AList.delete k (batches b1) = batches b"
    using fresh by (simp add: b1 run(2) delete_update_same delete_id)
  ultimately show ?thesis by simp
qed

theorem batch_finishes_with_last_rank_witness:
  "\<exists>p2 b2. ack_run 0 [(1, True), (0, False)] (snd (projr (barrier_submit [offload_ticket, private_ticket]
      (run_from_start offload_calls)))) = Inr ([False, True], p2, b2)"
proof -
  let ?s = "run_from_start offload_calls"
  let ?r = "barrier_submit [offload_ticket, private_ticket] ?s"
  have "\<not> isl ?r" "fst (projr ?r) = 0" by code_simp+
  then obtain p1 b1 where r: "?r = Inr (0, p1, b1)" by (cases ?r) auto
  have "num_ranks (snd ?s) = 2" by code_simp
  then have "fst ` set [(1, True), (0, False)] = {0..<num_ranks (snd ?s)}" by auto
  then obtain p2 b2 where
    "ack_run 0 [(1, True), (0, False)] (p1, b1) = Inr (replicate (length [(1::int, True), (0, False)] - 1) False @ [True], p2, b2)"
    using batch_finishes_with_last_rank[of "fst ?s" "snd ?s" "[offload_ticket, private_ticket]" 0 p1 b1
        "[(1, True), (0, False)]"] offload_reach r by force
  then show ?thesis by (simp add: r del: ack_run.simps)
qed

text \<open>An attention page is shared: acquiring the key of a page that exists returns a lease of that
  very page, with one more reference and the same copies on both tiers, and creates no page.\<close>

theorem acquire_shares_page:
  assumes "page_reach (p, b)" and "i \<in> set (page_order p)" and "pg_key (page_store p i) = Some key"
    and "owner \<noteq> []"
  shows "\<exists>l p'. acquire_attention key owner oid p = Inr (l, p') \<and> lease_page_id l = i \<and>
    lease_entry l p' = Some i \<and> references (page_store p' i) = references (page_store p i) + 1 \<and>
    attached p' i = attached p i \<and> set (page_order p') = set (page_order p)"
proof -
  note c = page_coreD[OF reach_core(1)[OF assms(1)]]
  have "map_of (canonical p) key = Some i"
    using c(1) assms(2,3) by (intro map_of_is_SomeI) (auto simp: pages_inv_def)
  moreover have id: "page_id (page_store p i) = i" using c(1) assms(2) by (simp add: pages_inv_def)
  ultimately have run: "acquire_attention key owner oid p = Inr (l, p')"
    if "l = \<lparr>lease_id = next_lease p, lease_page_id = i, lease_owner = owner, lease_object = oid\<rparr>"
      "p' = (upd_page i (\<lambda>pg. pg\<lparr>references := references pg + 1\<rparr>) (p\<lparr>next_lease := next_lease p + 1,
         leases := AList.update (next_lease p) (l, i) (leases p)\<rparr>))\<lparr>page_order := remove1 i (page_order p) @ [i]\<rparr>"
    for l p'
    using assms(2,4) that
    by (simp add: acquire_attention_def acquire_page_def attach_lease_def move_page_to_end_def Let_def)
  define l where "l = \<lparr>lease_id = next_lease p, lease_page_id = i, lease_owner = owner, lease_object = oid\<rparr>"
  define p' where "p' = (upd_page i (\<lambda>pg. pg\<lparr>references := references pg + 1\<rparr>) (p\<lparr>next_lease := next_lease p + 1,
         leases := AList.update (next_lease p) (l, i) (leases p)\<rparr>))\<lparr>page_order := remove1 i (page_order p) @ [i]\<rparr>"
  have "attached p' i t = attached p i t" for t by (cases t) (simp_all add: p'_def attached_def)
  then have "attached p' i = attached p i" by blast
  moreover have "set (page_order p') = set (page_order p)"
    using c(1) assms(2) by (auto simp: p'_def pages_inv_def)
  ultimately show ?thesis
    using run[OF l_def p'_def]
    by (intro exI[of _ l] exI[of _ p']) (simp add: l_def p'_def lease_entry_def update_conv')
qed

theorem acquire_shares_page_witness:
  "\<exists>l p'. acquire_attention sample_key ''c'' 30 (fst (run_from_start offload_calls)) = Inr (l, p') \<and>
     lease_page_id l = 0"
proof -
  let ?s = "run_from_start offload_calls"
  have "0 \<in> set (page_order (fst ?s))" "pg_key (page_store (fst ?s) 0) = Some sample_key" by code_simp+
  then show ?thesis
    using acquire_shares_page[of "fst ?s" "snd ?s" 0 sample_key "''c''" 30] offload_reach by auto
qed

end
