(* ===== verification/Metal_Tier.thy ===== *)
theory Metal_Tier
  imports Ordered_Dict
begin

text \<open>
  \<open>HostKVTierIndex\<close> of \<^verbatim>\<open>core/metal_kv_tier_index.py\<close>: where the host tier keeps the blocks of every
  conversation (a trajectory), which trajectory a new request can resume, and which cold trajectories
  make room.  \<open>last_touch\<close> is written and never read, and \<open>explain_miss\<close> formats a log line: neither is
  modelled.  A \<open>Counter\<close> reads 0 at a missing key: \<open>readers\<close> is a function.
\<close>

subsection \<open>Trajectories\<close>

record trajectory =
  hashes :: "bytes list"
  attn_slots :: "nat option list list"
  tail_boundary :: int
  tail_state_slots :: "(nat \<times> nat) list"
  tail_hash :: bytes
  tail_pending :: bool

definition new_trajectory :: trajectory where
  "new_trajectory = \<lparr>hashes = [], attn_slots = [], tail_boundary = - 1, tail_state_slots = [],
     tail_hash = [], tail_pending = False\<rparr>"

definition primary_slots :: "trajectory \<Rightarrow> nat option list" where
  "primary_slots tr = (if attn_slots tr = [] then [] else attn_slots tr ! 0)"

text \<open>The loops that count slots up to the first \<open>None\<close>.\<close>

definition gap_free :: "nat option list \<Rightarrow> nat" where
  "gap_free row = length (takeWhile (\<lambda>x. x \<noteq> None) row)"

definition resumable_blocks :: "trajectory \<Rightarrow> nat" where
  "resumable_blocks tr =
     (let b = nat (tail_boundary tr) in
      if tail_boundary tr \<le> 0 \<or> tail_pending tr then 0
      else if tail_hash tr = [] \<or> b > length (hashes tr) \<or> hashes tr ! (b - 1) \<noteq> tail_hash tr then 0
      else let n = gap_free (take b (primary_slots tr)) in if n = b then n else 0)"

definition traj_slots :: "trajectory \<Rightarrow> nat list" where
  "traj_slots tr = concat (map somes (attn_slots tr)) @ map snd (tail_state_slots tr)"


subsection \<open>The index\<close>

record metal_index =
  num_slots :: nat
  free :: "nat list"
  trajs :: "(string \<times> trajectory) list"
  pending_write :: "nat set"
  readers :: "string \<Rightarrow> nat"

definition metal_init :: "int \<Rightarrow> metal_index res" where
  "metal_init n = rbind (guard AssertionError (0 < n)) (\<lambda>_.
     Inr \<lparr>num_slots = nat n, free = rev [0..<nat n], trajs = [], pending_write = {}, readers = (\<lambda>_. 0)\<rparr>)"

definition touch_traj :: "string \<Rightarrow> metal_index \<Rightarrow> metal_index" where
  "touch_traj owner ti = ti\<lparr>trajs := move_to_end owner (trajs ti)\<rparr>"

definition set_traj :: "string \<Rightarrow> trajectory \<Rightarrow> metal_index \<Rightarrow> metal_index" where
  "set_traj owner tr ti = ti\<lparr>trajs := AList.update owner tr (trajs ti)\<rparr>"

text \<open>The value of \<open>setdefault(owner, Trajectory())\<close>.\<close>

definition get_traj :: "string \<Rightarrow> metal_index \<Rightarrow> trajectory" where
  "get_traj owner ti = (case map_of (trajs ti) owner of None \<Rightarrow> new_trajectory | Some tr \<Rightarrow> tr)"

text \<open>Discard the pending writes of slots and put them on the free list, one after the other.\<close>

definition release_slots :: "nat list \<Rightarrow> metal_index \<Rightarrow> metal_index" where
  "release_slots ss ti = ti\<lparr>pending_write := pending_write ti - set ss, free := free ti @ ss\<rparr>"

definition writing :: "metal_index \<Rightarrow> nat list \<Rightarrow> bool" where
  "writing ti ss = list_ex (\<lambda>s. s \<in> pending_write ti) ss"

definition delete_traj :: "string \<Rightarrow> trajectory \<Rightarrow> metal_index \<Rightarrow> metal_index" where
  "delete_traj owner tr ti =
     ti\<lparr>free := free ti @ traj_slots tr, trajs := AList.delete owner (trajs ti)\<rparr>"

fun reclaim_from :: "(string \<times> trajectory) list \<Rightarrow> string \<Rightarrow> metal_index \<Rightarrow> bool \<times> metal_index" where
  "reclaim_from [] protect ti = (False, ti)"
| "reclaim_from ((owner, tr) # rest) protect ti =
     (if owner = protect \<or> readers ti owner \<noteq> 0 \<or> writing ti (traj_slots tr)
      then reclaim_from rest protect ti
      else (True, delete_traj owner tr ti))"

definition reclaim :: "string \<Rightarrow> metal_index \<Rightarrow> bool \<times> metal_index" where
  "reclaim protect ti = reclaim_from (trajs ti) protect ti"

text \<open>\<open>self._free.pop()\<close> takes the last element and raises on an empty list.\<close>

definition pop_slot :: "metal_index \<Rightarrow> (nat option \<times> metal_index) res" where
  "pop_slot ti =
     (if free ti = [] then Inl IndexError
      else let s = last (free ti) in
        Inr (Some s, ti\<lparr>free := butlast (free ti), pending_write := insert s (pending_write ti)\<rparr>))"

definition alloc_slot :: "string \<Rightarrow> metal_index \<Rightarrow> (nat option \<times> metal_index) res" where
  "alloc_slot protect ti =
     (if free ti \<noteq> [] then pop_slot ti
      else let (ok, ti1) = reclaim protect ti in if ok then pop_slot ti1 else Inr (None, ti1))"


subsection \<open>Staging\<close>

text \<open>The padding loops at the start of \<open>stage_attention\<close>: row \<open>gid\<close> reaches position \<open>pos\<close>.\<close>

definition extend_traj :: "nat \<Rightarrow> nat \<Rightarrow> trajectory \<Rightarrow> trajectory" where
  "extend_traj gid pos tr =
     (let rows = pad_to (gid + 1) [] (attn_slots tr) in
      tr\<lparr>attn_slots := rows[gid := pad_to (pos + 1) None (rows ! gid)],
         hashes := if gid = 0 then pad_to (pos + 1) [] (hashes tr) else hashes tr\<rparr>)"

definition put_slot :: "nat \<Rightarrow> nat \<Rightarrow> nat option \<Rightarrow> trajectory \<Rightarrow> trajectory" where
  "put_slot gid pos s tr = tr\<lparr>attn_slots := (attn_slots tr)[gid := (attn_slots tr ! gid)[pos := s]]\<rparr>"

definition stage_attention ::
  "string \<Rightarrow> nat \<Rightarrow> nat \<Rightarrow> bytes \<Rightarrow> metal_index \<Rightarrow> (nat option \<times> metal_index) res" where
  "stage_attention owner gid pos h ti =
     (let tr = extend_traj gid pos (get_traj owner ti);
          ti1 = touch_traj owner (set_traj owner tr ti) in
      if attn_slots tr ! gid ! pos \<noteq> None then Inr (None, ti1)
      else rbind (alloc_slot owner ti1) (\<lambda>(os, ti2).
        case os of
          None \<Rightarrow> Inr (None, ti2)
        | Some s \<Rightarrow>
            let tr1 = put_slot gid pos (Some s) tr;
                tr2 = if gid = 0 then tr1\<lparr>hashes := (hashes tr1)[pos := h]\<rparr> else tr1
            in Inr (Some s, set_traj owner tr2 ti2)))"

text \<open>The allocation loop of \<open>stage_tail_states\<close>; when it runs out, what it took is given back.\<close>

fun alloc_states ::
  "nat list \<Rightarrow> string \<Rightarrow> (nat \<times> nat) list \<Rightarrow> metal_index \<Rightarrow> ((nat \<times> nat) list option \<times> metal_index) res" where
  "alloc_states [] owner slots ti = Inr (Some slots, ti)"
| "alloc_states (g # gs) owner slots ti =
     rbind (alloc_slot owner ti) (\<lambda>(os, ti1).
       case os of
         None \<Rightarrow> Inr (None, release_slots (map snd slots) ti1)
       | Some s \<Rightarrow> alloc_states gs owner (slots @ [(g, s)]) ti1)"

definition stage_tail_states ::
  "string \<Rightarrow> int \<Rightarrow> nat \<Rightarrow> bytes \<Rightarrow> metal_index \<Rightarrow> ((nat \<times> nat) list option \<times> metal_index) res" where
  "stage_tail_states owner boundary num_state_groups boundary_hash ti =
     (if readers ti owner \<noteq> 0 then Inr (None, ti)
      else
        let tr = get_traj owner ti;
            ti1 = touch_traj owner (set_traj owner tr ti) in
        rbind (alloc_states [0..<num_state_groups] owner [] ti1) (\<lambda>(oss, ti2).
          case oss of
            None \<Rightarrow> Inr (None, ti2)
          | Some slots \<Rightarrow>
              Inr (Some slots, set_traj owner
                (tr\<lparr>tail_state_slots := slots, tail_boundary := boundary, tail_hash := boundary_hash,
                    tail_pending := True\<rparr>)
                (release_slots (map snd (tail_state_slots tr)) ti2))))"

definition free_attention :: "string \<Rightarrow> nat \<Rightarrow> nat \<Rightarrow> metal_index \<Rightarrow> bool \<times> metal_index" where
  "free_attention owner gid pos ti =
     (if readers ti owner \<noteq> 0 then (False, ti)
      else case map_of (trajs ti) owner of
        None \<Rightarrow> (False, ti)
      | Some tr \<Rightarrow>
          if gid = 0 \<or> length (attn_slots tr) \<le> gid then (False, ti)
          else
            let row = attn_slots tr ! gid;
                slot = (if pos < length row then row ! pos else None) in
            (case slot of
               None \<Rightarrow> (False, ti)
             | Some s \<Rightarrow>
                 if s \<in> pending_write ti then (False, ti)
                 else (True, let ti1 = set_traj owner (put_slot gid pos None tr) ti
                             in ti1\<lparr>free := free ti1 @ [s]\<rparr>)))"

definition stage_attention_tail :: "string \<Rightarrow> metal_index \<Rightarrow> (nat \<times> metal_index) res" where
  "stage_attention_tail owner ti =
     (case map_of (trajs ti) owner of
        None \<Rightarrow> Inr (0, ti)
      | Some tr \<Rightarrow>
          if tail_state_slots tr \<noteq> [] \<and> readers ti owner \<noteq> 0 then Inr (0, ti)
          else
            let ti1 = touch_traj owner ti;
                n = gap_free (primary_slots tr) in
            if n = 0 then Inr (0, ti1)
            else rbind (py_nth (hashes tr) (int n - 1)) (\<lambda>h.
              Inr (n, set_traj owner
                (tr\<lparr>tail_state_slots := [], tail_boundary := int n, tail_hash := h,
                    tail_pending := False\<rparr>)
                (release_slots (map snd (tail_state_slots tr)) ti1))))"

definition settle_tail :: "nat set \<Rightarrow> trajectory \<Rightarrow> trajectory" where
  "settle_tail pending tr =
     (if tail_pending tr \<and> \<not> list_ex (\<lambda>s. s \<in> pending) (map snd (tail_state_slots tr))
      then tr\<lparr>tail_pending := False\<rparr> else tr)"

definition confirm_writes :: "nat list \<Rightarrow> metal_index \<Rightarrow> metal_index" where
  "confirm_writes slots ti =
     (let pending = pending_write ti - set slots in
      ti\<lparr>pending_write := pending,
         trajs := map (\<lambda>(owner, tr). (owner, settle_tail pending tr)) (trajs ti)\<rparr>)"


subsection \<open>Lookup\<close>

type_synonym hit = "string \<times> nat \<times> nat option list list \<times> (nat \<times> nat) list"

definition agreeing :: "bytes list \<Rightarrow> bytes list \<Rightarrow> nat" where
  "agreeing xs ys = length (takeWhile (\<lambda>(x, y). x = y) (zip xs ys))"

text \<open>How many blocks of the trajectory match, 0 when the loop of \<open>lookup\<close> skips it.\<close>

definition match_len :: "bytes list \<Rightarrow> trajectory \<Rightarrow> nat" where
  "match_len hs tr =
     (let n = resumable_blocks tr in
      if n = 0 then 0
      else if tail_state_slots tr = [] then
        let limit = min n (length hs) in agreeing (take limit (hashes tr)) (take limit hs)
      else if n > length hs \<or> take n (hashes tr) \<noteq> take n hs then 0
      else n)"

definition consider_traj :: "bytes list \<Rightarrow> metal_index \<Rightarrow> string \<times> trajectory \<Rightarrow> hit option \<Rightarrow> hit option" where
  "consider_traj hs ti = (\<lambda>(owner, tr) best.
     let n = match_len hs tr in
     if n = 0 then best
     else if (case best of None \<Rightarrow> False | Some (_, m, _) \<Rightarrow> n \<le> m) then best
     else if writing ti (concat (map somes (attn_slots tr))) then best
     else Some (owner, n, attn_slots tr, tail_state_slots tr))"

definition lookup_tier :: "bytes list \<Rightarrow> metal_index \<Rightarrow> hit option \<times> metal_index" where
  "lookup_tier hs ti =
     (let best = fold (consider_traj hs ti) (trajs ti) None in
      (best, case best of None \<Rightarrow> ti | Some (owner, _) \<Rightarrow> touch_traj owner ti))"


subsection \<open>Readers and eviction\<close>

definition has_traj :: "string \<Rightarrow> metal_index \<Rightarrow> bool" where
  "has_traj owner ti \<longleftrightarrow> map_of (trajs ti) owner \<noteq> None"

definition pin_read :: "string \<Rightarrow> metal_index \<Rightarrow> metal_index res" where
  "pin_read owner ti = rbind (guard AssertionError (has_traj owner ti)) (\<lambda>_.
     Inr (ti\<lparr>readers := (readers ti)(owner := readers ti owner + 1)\<rparr>))"

definition can_extend :: "string \<Rightarrow> int \<Rightarrow> metal_index \<Rightarrow> bool" where
  "can_extend owner boundary ti =
     (case map_of (trajs ti) owner of None \<Rightarrow> False | Some tr \<Rightarrow> boundary = int (length (hashes tr)))"

definition is_read_pinned :: "string \<Rightarrow> metal_index \<Rightarrow> bool" where
  "is_read_pinned owner ti \<longleftrightarrow> 0 < readers ti owner"

definition unpin_read :: "string \<Rightarrow> metal_index \<Rightarrow> metal_index res" where
  "unpin_read owner ti = rbind (guard AssertionError (0 < readers ti owner)) (\<lambda>_.
     Inr (ti\<lparr>readers := (readers ti)(owner := readers ti owner - 1)\<rparr>))"

definition drop_owner :: "string \<Rightarrow> metal_index \<Rightarrow> metal_index" where
  "drop_owner owner ti =
     (case map_of (trajs ti) owner of
        None \<Rightarrow> ti
      | Some tr \<Rightarrow>
          if readers ti owner \<noteq> 0 then set_traj owner (tr\<lparr>tail_boundary := - 1\<rparr>) ti
          else if writing ti (traj_slots tr) then ti
          else delete_traj owner tr ti)"

record tier_stats =
  st_slots :: nat
  st_used :: int
  st_trajectories :: nat
  st_resumable :: nat
  st_pending_writes :: nat

definition tier_stats_of :: "metal_index \<Rightarrow> tier_stats" where
  "tier_stats_of ti = \<lparr>st_slots = num_slots ti, st_used = int (num_slots ti) - int (length (free ti)),
     st_trajectories = length (trajs ti),
     st_resumable = length [e \<leftarrow> trajs ti. 0 < resumable_blocks (snd e)],
     st_pending_writes = card (pending_write ti)\<rparr>"

end
