(* ===== verification/Metal_Invariant.thy ===== *)
theory Metal_Invariant
  imports Metal_Tier
begin

text \<open>
  The invariant of the metal host tier index and its preservation by every operation.  \<open>metal_core L ti\<close>
  is the invariant while an operation holds the slots \<open>L\<close>, taken from the free list or from a trajectory
  and not yet handed on; between calls \<open>L\<close> is empty.
\<close>

definition traj_ok :: "nat set \<Rightarrow> trajectory \<Rightarrow> bool" where
  "traj_ok P tr \<longleftrightarrow> length (hashes tr) = length (primary_slots tr) \<and>
     (\<not> tail_pending tr \<longrightarrow> set (map snd (tail_state_slots tr)) \<inter> P = {})"

definition metal_core :: "nat multiset \<Rightarrow> metal_index \<Rightarrow> bool" where
  "metal_core L ti \<longleftrightarrow> distinct (map fst (trajs ti)) \<and>
     mset (free ti) + holdings traj_slots (trajs ti) + L = mset [0..<num_slots ti] \<and>
     pending_write ti \<subseteq> set_mset (holdings traj_slots (trajs ti) + L) \<and>
     (\<forall>(owner, tr) \<in> set (trajs ti). traj_ok (pending_write ti) tr) \<and>
     (\<forall>owner. readers ti owner \<noteq> 0 \<longrightarrow> owner \<in> fst ` set (trajs ti))"

abbreviation metal_inv :: "metal_index \<Rightarrow> bool" where
  "metal_inv \<equiv> metal_core {#}"

lemma metal_coreD:
  assumes "metal_core L ti"
  shows "distinct (map fst (trajs ti))"
    "mset (free ti) + holdings traj_slots (trajs ti) + L = mset [0..<num_slots ti]"
    "pending_write ti \<subseteq> set_mset (holdings traj_slots (trajs ti) + L)"
    "(owner, tr) \<in> set (trajs ti) \<Longrightarrow> traj_ok (pending_write ti) tr"
    "readers ti owner \<noteq> 0 \<Longrightarrow> owner \<in> fst ` set (trajs ti)"
  using assms by (auto simp: metal_core_def)

lemma traj_ok_antimono: "traj_ok P tr \<Longrightarrow> Q \<subseteq> P \<Longrightarrow> traj_ok Q tr"
  by (auto simp: traj_ok_def)

lemma traj_ok_insert:
  "traj_ok P tr \<Longrightarrow> s \<notin> set (map snd (tail_state_slots tr)) \<Longrightarrow> traj_ok (insert s P) tr"
  by (auto simp: traj_ok_def)

lemma new_trajectory_simps [simp]:
  "traj_ok P new_trajectory" "traj_slots new_trajectory = []" "hashes new_trajectory = []"
  "attn_slots new_trajectory = []" "tail_state_slots new_trajectory = []"
  by (simp_all add: traj_ok_def new_trajectory_def primary_slots_def traj_slots_def)

lemma get_traj_ok: "metal_core L ti \<Longrightarrow> traj_ok (pending_write ti) (get_traj owner ti)"
  by (auto simp: get_traj_def split: option.splits dest: map_of_SomeD metal_coreD(4))

lemma get_traj_Some: "map_of (trajs ti) owner = Some tr \<Longrightarrow> get_traj owner ti = tr"
  by (simp add: get_traj_def)

lemma holdings_set_traj:
  "holdings traj_slots (AList.update owner tr (trajs ti)) + mset (traj_slots (get_traj owner ti)) =
     holdings traj_slots (trajs ti) + mset (traj_slots tr)"
  by (cases "map_of (trajs ti) owner") (simp_all add: get_traj_def holdings_new holdings_set)

text \<open>A slot is in one place only.\<close>

lemma slots_disjoint:
  assumes "metal_core L ti"
  shows "distinct (free ti)" "set (free ti) \<inter> set_mset (holdings traj_slots (trajs ti) + L) = {}"
  using mset_distinct_parts[of "free ti" "holdings traj_slots (trajs ti) + L"] metal_coreD(2)[OF assms]
  by (metis add.assoc distinct_upt)+


subsection \<open>Elementary steps\<close>

lemma init_core: "metal_init n = Inr ti \<Longrightarrow> metal_inv ti"
  by (auto simp: metal_init_def metal_core_def)

lemma touch_core: "metal_core L ti \<Longrightarrow> metal_core L (touch_traj owner ti)"
  by (auto simp: metal_core_def touch_traj_def)

lemma set_traj_core:
  assumes core: "metal_core L ti" and ok: "traj_ok (pending_write ti) tr"
    and slots: "mset (traj_slots tr) + L' = mset (traj_slots (get_traj owner ti)) + L"
  shows "metal_core L' (set_traj owner tr ti)"
proof -
  have same: "holdings traj_slots (AList.update owner tr (trajs ti)) + L' = holdings traj_slots (trajs ti) + L"
    by (rule mset_exchange[OF holdings_set_traj slots])
  have "mset (free ti) + holdings traj_slots (AList.update owner tr (trajs ti)) + L' = mset [0..<num_slots ti]"
    using metal_coreD(2)[OF core] same by (simp add: add.assoc)
  then show ?thesis
    using core ok same
    by (auto simp: metal_core_def set_traj_def distinct_update set_dict_update dom_update)
qed

lemma release_core:
  assumes "metal_core (L + mset ss) ti"
  shows "metal_core L (release_slots ss ti)"
  using assms by (auto simp: metal_core_def release_slots_def ac_simps intro: traj_ok_antimono)

lemma release_inv: "metal_core (mset ss) ti \<Longrightarrow> metal_inv (release_slots ss ti)"
  using release_core[of "{#}"] by simp

lemma release_set_traj:
  "set_traj owner tr (release_slots ss ti) = release_slots ss (set_traj owner tr ti)"
  by (cases ti) (simp add: release_slots_def set_traj_def)

lemma release_one: "s \<notin> pending_write ti \<Longrightarrow> ti\<lparr>free := free ti @ [s]\<rparr> = release_slots [s] ti"
  by (simp add: release_slots_def)

lemma pop_core:
  assumes core: "metal_core L ti" and run: "pop_slot ti = Inr (Some s, ti')"
  shows "metal_core (add_mset s L) ti'"
proof -
  have ne: "free ti \<noteq> []" and s: "s = last (free ti)"
    and ti': "ti' = ti\<lparr>free := butlast (free ti), pending_write := insert s (pending_write ti)\<rparr>"
    using run by (auto simp: pop_slot_def Let_def split: if_splits)
  have split: "mset (free ti) = add_mset s (mset (butlast (free ti)))"
    using ne by (metis append_butlast_last_id mset.simps(2) rotate1.simps(2) mset_append s union_mset_add_mset_right mset.simps(1) add.right_neutral)
  have "s \<in> set (free ti)" using ne s by simp
  then have fresh: "s \<notin># holdings traj_slots (trajs ti)" using slots_disjoint(2)[OF core] by auto
  have "s \<notin> set (map snd (tail_state_slots tr))" if "(owner, tr) \<in> set (trajs ti)" for owner tr
    using fresh that by (force simp: set_holdings traj_slots_def)
  then show ?thesis
    using core split by (auto simp: metal_core_def ti' ac_simps intro!: traj_ok_insert)
qed

lemma delete_core:
  assumes core: "metal_core L ti" and tr: "map_of (trajs ti) owner = Some tr"
    and idle: "\<not> writing ti (traj_slots tr)" "readers ti owner = 0"
  shows "metal_core L (delete_traj owner tr ti)"
proof -
  note d = metal_coreD(1)[OF core]
  have h: "holdings traj_slots (AList.delete owner (trajs ti)) + mset (traj_slots tr) = holdings traj_slots (trajs ti)"
    by (rule holdings_delete[OF tr d])
  have "pending_write ti \<inter> set (traj_slots tr) = {}"
    using idle(1) by (auto simp: writing_def list_ex_iff)
  then have "pending_write ti \<subseteq> set_mset (holdings traj_slots (AList.delete owner (trajs ti)) + L)"
    using metal_coreD(3)[OF core] by (auto simp: h[symmetric])
  moreover have "mset (free ti @ traj_slots tr) + holdings traj_slots (AList.delete owner (trajs ti)) + L =
      mset [0..<num_slots ti]"
    using metal_coreD(2)[OF core] by (simp add: h[symmetric] ac_simps)
  moreover have "owner' \<in> fst ` set (AList.delete owner (trajs ti))" if "readers ti owner' \<noteq> 0" for owner'
  proof -
    have "owner' \<noteq> owner" using that idle(2) by auto
    then show ?thesis using metal_coreD(5)[OF core that] by (force simp: set_dict_delete)
  qed
  ultimately show ?thesis
    using core by (auto simp: metal_core_def delete_traj_def distinct_dict_delete set_dict_delete)
qed

end
