(* ===== verification/Metal_Ops.thy ===== *)
theory Metal_Ops
  imports Metal_Invariant
begin

text \<open>
  Every operation of the metal host tier index keeps its invariant, and keeps the slots of every
  trajectory that is being read in that trajectory.
\<close>

subsection \<open>Allocation\<close>

text \<open>Making room leaves the protected owner and every trajectory with a reader alone.\<close>

definition spares :: "string \<Rightarrow> metal_index \<Rightarrow> metal_index \<Rightarrow> bool" where
  "spares owner ti ti' \<longleftrightarrow> readers ti' = readers ti \<and> num_slots ti' = num_slots ti \<and>
     (\<forall>u. u = owner \<or> readers ti u \<noteq> 0 \<longrightarrow> map_of (trajs ti') u = map_of (trajs ti) u)"

lemma spares_refl [simp]: "spares owner ti ti"
  by (simp add: spares_def)

lemma spares_trans: "spares owner ti ti1 \<Longrightarrow> spares owner ti1 ti2 \<Longrightarrow> spares owner ti ti2"
  by (simp add: spares_def)

lemma spares_get: "spares owner ti ti' \<Longrightarrow> get_traj owner ti' = get_traj owner ti"
  by (simp add: spares_def get_traj_def)

lemma spares_release: "spares owner ti ti' \<Longrightarrow> spares owner ti (release_slots ss ti')"
  by (simp add: spares_def release_slots_def)

lemma reclaim_from_ok:
  assumes "reclaim_from es owner ti = (b, ti')" "metal_core L ti" "set es \<subseteq> set (trajs ti)"
  shows "metal_core L ti' \<and> spares owner ti ti'"
  using assms
proof (induction es)
  case (Cons e es)
  obtain u tr where e: "e = (u, tr)" by (cases e)
  show ?case
  proof (cases "u = owner \<or> readers ti u \<noteq> 0 \<or> writing ti (traj_slots tr)")
    case True
    then show ?thesis using Cons by (simp add: e)
  next
    case False
    then have ti': "ti' = delete_traj u tr ti" using Cons.prems by (simp add: e)
    have "map_of (trajs ti) u = Some tr"
      using Cons.prems metal_coreD(1)[OF Cons.prems(2)] by (simp add: e map_of_eq_Some_iff)
    then show ?thesis
      using False delete_core[OF Cons.prems(2)] by (auto simp: ti' spares_def delete_traj_def delete_conv')
  qed
qed simp

lemma pop_spares: "pop_slot ti = Inr (os, ti') \<Longrightarrow> spares owner ti ti'"
  by (auto simp: pop_slot_def spares_def Let_def split: if_splits)

lemma alloc_slot_ok:
  assumes run: "alloc_slot owner ti = Inr (os, ti')" and core: "metal_core L ti"
  shows "metal_core (L + mset (somes [os])) ti' \<and> spares owner ti ti'"
proof -
  have pop: "metal_core (L + mset (somes [os])) ti' \<and> spares owner ti' ti'"
    if "pop_slot tj = Inr (os, ti')" "metal_core L tj" for tj
    using that pop_core[OF that(2)] by (cases os) (auto simp: pop_slot_def Let_def split: if_splits)
  show ?thesis
  proof (cases "free ti = []")
    case False
    then have "pop_slot ti = Inr (os, ti')" using run by (simp add: alloc_slot_def)
    then show ?thesis using pop[OF _ core] pop_spares by blast
  next
    case True
    obtain ok tj where r: "reclaim owner ti = (ok, tj)" by (cases "reclaim owner ti")
    then have tj: "metal_core L tj" "spares owner ti tj"
      using reclaim_from_ok[OF _ core] by (auto simp: reclaim_def)
    show ?thesis
    proof (cases ok)
      case True
      then have "pop_slot tj = Inr (os, ti')" using run \<open>free ti = []\<close> r by (simp add: alloc_slot_def)
      then show ?thesis using pop[OF _ tj(1)] pop_spares spares_trans[OF tj(2)] by blast
    next
      case False
      then show ?thesis using run \<open>free ti = []\<close> r tj by (auto simp: alloc_slot_def)
    qed
  qed
qed


subsection \<open>Slots of a trajectory\<close>

lemma traj_slots_put:
  assumes "gid < length (attn_slots tr)" "pos < length (attn_slots tr ! gid)"
  shows "mset (traj_slots (put_slot gid pos s tr)) + mset (somes [attn_slots tr ! gid ! pos]) =
    mset (traj_slots tr) + mset (somes [s])"
proof -
  have "mset (concat (map somes ((attn_slots tr)[gid := (attn_slots tr ! gid)[pos := s]]))) +
        mset (somes (attn_slots tr ! gid)) =
      mset (concat (map somes (attn_slots tr))) + mset (somes ((attn_slots tr ! gid)[pos := s]))"
    by (rule mset_concat_update[OF assms(1)])
  from mset_exchange[OF this mset_somes_update[OF assms(2)]]
  show ?thesis by (simp add: traj_slots_def put_slot_def ac_simps)
qed

lemma traj_ok_put:
  assumes "gid < length (attn_slots tr)"
  shows "traj_ok P (put_slot gid pos s tr) = traj_ok P tr"
proof -
  have "length (primary_slots (put_slot gid pos s tr)) = length (primary_slots tr)"
    using assms by (cases gid; cases "attn_slots tr") (auto simp: primary_slots_def put_slot_def)
  then show ?thesis by (simp add: traj_ok_def) (simp add: put_slot_def)
qed

lemma primary_extend:
  "primary_slots (extend_traj gid pos tr) =
     (if gid = 0 then pad_to (pos + 1) None (primary_slots tr) else primary_slots tr)"
proof -
  let ?rows = "pad_to (gid + 1) [] (attn_slots tr)"
  have first: "?rows ! 0 = primary_slots tr"
    by (cases "attn_slots tr") (simp_all add: primary_slots_def pad_to_def)
  let ?new = "?rows[gid := pad_to (pos + 1) None (?rows ! gid)]"
  have ne: "?rows \<noteq> []" by (simp add: pad_to_def)
  then have "?new ! 0 = (if gid = 0 then pad_to (pos + 1) None (?rows ! 0) else ?rows ! 0)" by simp
  moreover have "primary_slots (extend_traj gid pos tr) = ?new ! 0"
    using ne by (simp add: primary_slots_def extend_traj_def Let_def)
  ultimately show ?thesis using first by (cases "gid = 0") simp_all
qed

lemma extend_lengths [simp]:
  "gid < length (attn_slots (extend_traj gid pos tr))"
  "pos < length (attn_slots (extend_traj gid pos tr) ! gid)"
  by (simp_all add: extend_traj_def Let_def)

lemma extend_fields [simp]:
  "tail_state_slots (extend_traj gid pos tr) = tail_state_slots tr"
  "tail_pending (extend_traj gid pos tr) = tail_pending tr"
  by (simp_all add: extend_traj_def Let_def)

lemma extend_ok: "traj_ok P tr \<Longrightarrow> traj_ok P (extend_traj gid pos tr)"
  by (simp add: traj_ok_def primary_extend) (simp add: extend_traj_def Let_def)

lemma extend_slots: "mset (traj_slots (extend_traj gid pos tr)) = mset (traj_slots tr)"
proof -
  let ?rows = "pad_to (gid + 1) [] (attn_slots tr)"
  have "gid < length ?rows" by simp
  from mset_concat_update[OF this, of somes "pad_to (pos + 1) None (?rows ! gid)"]
  have "mset (concat (map somes (?rows[gid := pad_to (pos + 1) None (?rows ! gid)]))) =
      mset (concat (map somes (attn_slots tr)))"
    by (simp only: somes_pad_None concat_map_pad somes_simps add_right_cancel)
  then show ?thesis by (simp add: traj_slots_def extend_traj_def Let_def)
qed

lemma put_fields [simp]:
  "tail_state_slots (put_slot gid pos s tr) = tail_state_slots tr"
  "tail_pending (put_slot gid pos s tr) = tail_pending tr"
  "hashes (put_slot gid pos s tr) = hashes tr"
  by (simp_all add: put_slot_def)

lemma set_hash_simps [simp]:
  "traj_slots (tr\<lparr>hashes := hs\<rparr>) = traj_slots tr"
  "primary_slots (tr\<lparr>hashes := hs\<rparr>) = primary_slots tr"
  by (simp_all add: traj_slots_def primary_slots_def)


subsection \<open>Staging\<close>

lemma get_set_touch [simp]: "get_traj owner (touch_traj owner (set_traj owner tr ti)) = tr"
  by (simp add: get_traj_def touch_traj_def set_traj_def update_conv')

lemma pending_set_touch [simp]:
  "pending_write (touch_traj owner ti) = pending_write ti" "pending_write (set_traj owner tr ti) = pending_write ti"
  by (simp_all add: touch_traj_def set_traj_def)

lemma stage_attention_core:
  assumes run: "stage_attention owner gid pos h ti = Inr (os, ti')" and core: "metal_inv ti"
  shows "metal_inv ti'"
proof -
  define tr where "tr = extend_traj gid pos (get_traj owner ti)"
  define ti1 where "ti1 = touch_traj owner (set_traj owner tr ti)"
  have ok: "traj_ok (pending_write ti) tr" unfolding tr_def by (rule extend_ok[OF get_traj_ok[OF core]])
  have core1: "metal_inv ti1"
    unfolding ti1_def by (intro touch_core set_traj_core[OF core ok]) (simp add: tr_def extend_slots)
  show ?thesis
  proof (cases "attn_slots tr ! gid ! pos")
    case (Some s)
    then show ?thesis using run core1 by (simp add: stage_attention_def tr_def[symmetric] ti1_def[symmetric] Let_def)
  next
    case None
    then obtain os2 ti2 where a: "alloc_slot owner ti1 = Inr (os2, ti2)"
      using run by (auto simp: stage_attention_def tr_def[symmetric] ti1_def[symmetric] Let_def)
    have core2: "metal_core (mset (somes [os2])) ti2" and sp: "spares owner ti1 ti2"
      using alloc_slot_ok[OF a core1] by auto
    have get: "get_traj owner ti2 = tr" using spares_get[OF sp] by (simp add: ti1_def)
    show ?thesis
    proof (cases os2)
      case None
      then show ?thesis using run a core2 \<open>attn_slots tr ! gid ! pos = None\<close>
        by (simp add: stage_attention_def tr_def[symmetric] ti1_def[symmetric] Let_def)
    next
      case (Some s)
      let ?tr1 = "put_slot gid pos (Some s) tr"
      let ?tr2 = "if gid = 0 then ?tr1\<lparr>hashes := (hashes ?tr1)[pos := h]\<rparr> else ?tr1"
      have l: "gid < length (attn_slots tr)" "pos < length (attn_slots tr ! gid)" by (simp_all add: tr_def)
      have ti': "ti' = set_traj owner ?tr2 ti2"
        using run a Some None by (simp add: stage_attention_def tr_def[symmetric] ti1_def[symmetric] Let_def)
      have "traj_ok (pending_write ti2) tr" using get_traj_ok[OF core2] by (simp add: get[symmetric])
      then have ok2: "traj_ok (pending_write ti2) ?tr1" using traj_ok_put[OF l(1)] by simp
      then have ok3: "traj_ok (pending_write ti2) ?tr2" by (auto simp: traj_ok_def)
      have "mset (traj_slots ?tr2) + {#} = mset (traj_slots (get_traj owner ti2)) + mset (somes [os2])"
        using traj_slots_put[OF l, of "Some s"] None by (cases "gid = 0") (simp_all add: get Some)
      from set_traj_core[OF core2 ok3 this] show ?thesis by (simp add: ti')
    qed
  qed
qed

lemma alloc_states_ok:
  assumes "alloc_states gs owner slots ti = Inr (oss, ti')" "metal_core (mset (map snd slots)) ti"
  shows "metal_core (case oss of None \<Rightarrow> {#} | Some sl \<Rightarrow> mset (map snd sl)) ti' \<and> spares owner ti ti'"
  using assms
proof (induction gs arbitrary: slots ti)
  case Nil
  then show ?case by (cases oss) simp_all
next
  case (Cons g gs)
  then obtain os ti1 where a: "alloc_slot owner ti = Inr (os, ti1)" by auto
  note ok = alloc_slot_ok[OF a Cons.prems(2)]
  show ?case
  proof (cases os)
    case None
    then have "oss = None" "ti' = release_slots (map snd slots) ti1" using Cons.prems a by auto
    then show ?thesis using ok None release_core[of "{#}" "map snd slots" ti1] spares_release by simp
  next
    case (Some s)
    then have "alloc_states gs owner (slots @ [(g, s)]) ti1 = Inr (oss, ti')" using Cons.prems a by simp
    moreover have "metal_core (mset (map snd (slots @ [(g, s)]))) ti1" using ok Some by simp
    ultimately show ?thesis using Cons.IH ok spares_trans by blast
  qed
qed

lemma tail_exchange:
  "mset (traj_slots (tr\<lparr>tail_state_slots := sl, tail_boundary := b, tail_hash := h, tail_pending := q\<rparr>)) +
     mset (map snd (tail_state_slots tr)) = mset (traj_slots tr) + mset (map snd sl)"
  by (simp add: traj_slots_def)

lemma stage_tail_core:
  assumes run: "stage_tail_states owner b k h ti = Inr (oss, ti')" and core: "metal_inv ti"
  shows "metal_inv ti'"
proof (cases "readers ti owner = 0")
  case False
  then show ?thesis using run core by (simp add: stage_tail_states_def)
next
  case True
  define tr where "tr = get_traj owner ti"
  define ti1 where "ti1 = touch_traj owner (set_traj owner tr ti)"
  have core1: "metal_inv ti1"
    unfolding ti1_def tr_def by (intro touch_core set_traj_core[OF core get_traj_ok[OF core]]) simp
  obtain os2 ti2 where a: "alloc_states [0..<k] owner [] ti1 = Inr (os2, ti2)"
    using run True by (auto simp: stage_tail_states_def tr_def[symmetric] ti1_def[symmetric] Let_def)
  have ok: "metal_core (case os2 of None \<Rightarrow> {#} | Some sl \<Rightarrow> mset (map snd sl)) ti2" "spares owner ti1 ti2"
    using alloc_states_ok[OF a] core1 by auto
  show ?thesis
  proof (cases os2)
    case None
    then show ?thesis using run True a ok
      by (simp add: stage_tail_states_def tr_def[symmetric] ti1_def[symmetric] Let_def)
  next
    case (Some sl)
    let ?tr = "tr\<lparr>tail_state_slots := sl, tail_boundary := b, tail_hash := h, tail_pending := True\<rparr>"
    let ?old = "map snd (tail_state_slots tr)"
    have ti': "ti' = set_traj owner ?tr (release_slots ?old ti2)"
      using run True a Some by (simp add: stage_tail_states_def tr_def[symmetric] ti1_def[symmetric] Let_def)
    have get: "get_traj owner ti2 = tr" using spares_get[OF ok(2)] by (simp add: ti1_def)
    have "traj_ok (pending_write ti2) tr" using get_traj_ok[OF ok(1)] by (simp add: get[symmetric])
    then have "traj_ok (pending_write ti2) ?tr" by (simp add: traj_ok_def primary_slots_def)
    from set_traj_core[OF ok(1) this, of "mset ?old"] tail_exchange[where tr = tr and sl = sl and b = b and h = h and q = True]
    have "metal_core (mset ?old) (set_traj owner ?tr ti2)" by (simp add: get Some)
    from release_inv[OF this]
    show ?thesis by (simp add: ti' release_set_traj)
  qed
qed

lemma free_attention_core:
  assumes run: "free_attention owner gid pos ti = (b, ti')" and core: "metal_inv ti"
  shows "metal_inv ti'"
proof (cases b)
  case False
  then show ?thesis using run core
    by (auto simp: free_attention_def Let_def split: option.splits if_splits)
next
  case True
  then obtain tr s where m: "map_of (trajs ti) owner = Some tr" "gid < length (attn_slots tr)"
      "pos < length (attn_slots tr ! gid)" "attn_slots tr ! gid ! pos = Some s" "s \<notin> pending_write ti"
      and ti': "ti' = (let ti1 = set_traj owner (put_slot gid pos None tr) ti in ti1\<lparr>free := free ti1 @ [s]\<rparr>)"
    using run by (auto simp: free_attention_def Let_def split: option.splits if_splits)
  have ok: "traj_ok (pending_write ti) (put_slot gid pos None tr)"
    using get_traj_ok[OF core, of owner] traj_ok_put[OF m(2)] by (simp add: get_traj_Some[OF m(1)])
  have "metal_core (mset [s]) (set_traj owner (put_slot gid pos None tr) ti)"
    using traj_slots_put[OF m(2,3), of None] m(4)
    by (intro set_traj_core[OF core ok]) (simp add: get_traj_Some[OF m(1)])
  from release_inv[OF this] show ?thesis
    using m(5) by (simp add: ti' Let_def release_slots_def set_traj_def)
qed

end
