(* ===== verification/Metal_System.thy ===== *)
theory Metal_System
  imports Metal_Ops
begin

text \<open>
  The metal host tier index under its callers: every public operation that changes it is a
  \<open>metal_call\<close>, and \<open>metal_reach\<close> are the states that calls can produce from an empty index.
\<close>

datatype metal_call =
    StageAttention string nat nat bytes
  | StageTailStates string int nat bytes
  | FreeAttention string nat nat
  | StageAttentionTail string
  | ConfirmWrites "nat list"
  | LookupTier "bytes list"
  | TouchTraj string
  | PinRead string
  | UnpinRead string
  | DropOwner string

fun run_metal :: "metal_call \<Rightarrow> metal_index \<Rightarrow> metal_index res" where
  "run_metal (StageAttention owner gid pos h) ti = drop_value (stage_attention owner gid pos h ti)"
| "run_metal (StageTailStates owner b k h) ti = drop_value (stage_tail_states owner b k h ti)"
| "run_metal (FreeAttention owner gid pos) ti = Inr (snd (free_attention owner gid pos ti))"
| "run_metal (StageAttentionTail owner) ti = drop_value (stage_attention_tail owner ti)"
| "run_metal (ConfirmWrites slots) ti = Inr (confirm_writes slots ti)"
| "run_metal (LookupTier hs) ti = Inr (snd (lookup_tier hs ti))"
| "run_metal (TouchTraj owner) ti = Inr (touch_traj owner ti)"
| "run_metal (PinRead owner) ti = pin_read owner ti"
| "run_metal (UnpinRead owner) ti = unpin_read owner ti"
| "run_metal (DropOwner owner) ti = Inr (drop_owner owner ti)"

inductive metal_reach :: "metal_index \<Rightarrow> bool" where
  init: "metal_init n = Inr ti \<Longrightarrow> metal_reach ti"
| step: "metal_reach ti \<Longrightarrow> run_metal c ti = Inr ti' \<Longrightarrow> metal_reach ti'"

fun run_metals :: "metal_call list \<Rightarrow> metal_index \<Rightarrow> metal_index res" where
  "run_metals [] ti = Inr ti"
| "run_metals (c # cs) ti = rbind (run_metal c ti) (run_metals cs)"

lemma run_metals_reach: "metal_reach ti \<Longrightarrow> run_metals cs ti = Inr ti' \<Longrightarrow> metal_reach ti'"
  by (induction cs arbitrary: ti) (auto intro: metal_reach.step)


subsection \<open>The remaining operations keep the invariant\<close>

lemma gap_free_le: "gap_free row \<le> length row"
  by (simp add: gap_free_def length_takeWhile_le)

lemma stage_attention_tail_runs:
  assumes core: "metal_inv ti" and m: "map_of (trajs ti) owner = Some tr"
    and go: "\<not> (tail_state_slots tr \<noteq> [] \<and> readers ti owner \<noteq> 0)" and n: "gap_free (primary_slots tr) \<noteq> 0"
  shows "stage_attention_tail owner ti =
    (let n = gap_free (primary_slots tr) in
     Inr (n, set_traj owner
       (tr\<lparr>tail_state_slots := [], tail_boundary := int n, tail_hash := hashes tr ! (n - 1),
           tail_pending := False\<rparr>)
       (release_slots (map snd (tail_state_slots tr)) (touch_traj owner ti))))"
proof -
  have "length (hashes tr) = length (primary_slots tr)"
    using get_traj_ok[OF core, of owner] by (simp add: get_traj_Some[OF m] traj_ok_def)
  then have "gap_free (primary_slots tr) - 1 < length (hashes tr)" using n gap_free_le[of "primary_slots tr"] by linarith
  moreover have "int (gap_free (primary_slots tr)) - 1 = int (gap_free (primary_slots tr) - 1)" using n by simp
  ultimately have "py_nth (hashes tr) (int (gap_free (primary_slots tr)) - 1) =
      Inr (hashes tr ! (gap_free (primary_slots tr) - 1))"
    by (simp only: py_nth_of_nat if_True)
  then show ?thesis using m go n by (simp add: stage_attention_tail_def Let_def)
qed

lemma stage_attention_tail_core:
  assumes run: "stage_attention_tail owner ti = Inr (n, ti')" and core: "metal_inv ti"
  shows "metal_inv ti'"
proof (cases "map_of (trajs ti) owner")
  case None
  then show ?thesis using run core by (simp add: stage_attention_tail_def)
next
  case (Some tr)
  show ?thesis
  proof (cases "(tail_state_slots tr \<noteq> [] \<and> readers ti owner \<noteq> 0) \<or> gap_free (primary_slots tr) = 0")
    case True
    then show ?thesis using run core Some
      by (auto simp: stage_attention_tail_def Let_def touch_core split: if_splits)
  next
    case False
    let ?n = "gap_free (primary_slots tr)" and ?old = "map snd (tail_state_slots tr)"
    let ?tr = "tr\<lparr>tail_state_slots := [], tail_boundary := int ?n, tail_hash := hashes tr ! (?n - 1),
        tail_pending := False\<rparr>"
    let ?ti = "touch_traj owner ti"
    have ti': "ti' = release_slots ?old (set_traj owner ?tr ?ti)"
      using run stage_attention_tail_runs[OF core Some] False by (simp add: Let_def release_set_traj)
    have get: "get_traj owner ?ti = tr"
      using metal_coreD(1)[OF core] by (simp add: get_traj_def touch_traj_def Some)
    have "traj_ok (pending_write ?ti) tr"
      using get_traj_ok[OF core, of owner] by (simp add: get_traj_Some[OF Some])
    then have "traj_ok (pending_write ?ti) ?tr" by (simp add: traj_ok_def primary_slots_def)
    moreover have "mset (traj_slots ?tr) + mset ?old = mset (traj_slots (get_traj owner ?ti)) + {#}"
      unfolding get using tail_exchange[where tr = tr and sl = "[]" and q = False] by simp
    ultimately show ?thesis
      unfolding ti' using release_inv set_traj_core[OF touch_core[OF core]] by blast
  qed
qed

lemma settle_tail_simps [simp]:
  "traj_slots (settle_tail P tr) = traj_slots tr" "attn_slots (settle_tail P tr) = attn_slots tr"
  "tail_state_slots (settle_tail P tr) = tail_state_slots tr"
  "hashes (settle_tail P tr) = hashes tr"
  by (simp_all add: settle_tail_def traj_slots_def)

lemma settle_tail_ok: "traj_ok Q tr \<Longrightarrow> P \<subseteq> Q \<Longrightarrow> traj_ok P (settle_tail P tr)"
  by (auto simp: traj_ok_def settle_tail_def primary_slots_def list_ex_iff)

lemma map_values_simps [simp]:
  "map fst (map (\<lambda>(k, v). (k, f v)) d) = map fst d"
  "map_of (map (\<lambda>(k, v). (k, f v)) d) k = map_option f (map_of d k)"
  "holdings g (map (\<lambda>(k, v). (k, f v)) d) = holdings (\<lambda>v. g (f v)) d"
  by (induction d) (auto simp: holdings_def)

lemma set_map_values: "x \<in> set (map (\<lambda>(k, v). (k, f v)) d) \<longleftrightarrow> (\<exists>k v. (k, v) \<in> set d \<and> x = (k, f v))"
  by auto

lemma confirm_core:
  assumes "metal_inv ti"
  shows "metal_inv (confirm_writes slots ti)"
proof -
  let ?P = "pending_write ti - set slots"
  have "\<forall>(owner, tr) \<in> set (map (\<lambda>(owner, tr). (owner, settle_tail ?P tr)) (trajs ti)). traj_ok ?P tr"
    using settle_tail_ok[OF metal_coreD(4)[OF assms]] by (auto simp: set_map_values simp del: set_map)
  moreover have "fst ` set (map (\<lambda>(owner, tr). (owner, settle_tail ?P tr)) (trajs ti)) = fst ` set (trajs ti)"
    by force
  moreover have "?P \<subseteq> set_mset (holdings traj_slots (trajs ti))" using metal_coreD(3)[OF assms] by auto
  ultimately show ?thesis
    using metal_coreD(1,2,5)[OF assms]
    by (simp add: metal_core_def confirm_writes_def Let_def del: map_map set_map)
qed

lemma pin_core: "pin_read owner ti = Inr ti' \<Longrightarrow> metal_inv ti \<Longrightarrow> metal_inv ti'"
proof -
  assume run: "pin_read owner ti = Inr ti'" and core: "metal_inv ti"
  have "owner \<in> fst ` set (trajs ti)" using run
    by (auto simp: pin_read_def has_traj_def map_of_eq_None_iff)
  moreover have ti': "ti' = ti\<lparr>readers := (readers ti)(owner := readers ti owner + 1)\<rparr>"
    using run by (simp add: pin_read_def)
  ultimately have "\<forall>u. readers ti' u \<noteq> 0 \<longrightarrow> u \<in> fst ` set (trajs ti')"
    using metal_coreD(5)[OF core] by simp
  then show "metal_inv ti'" using core by (simp add: ti' metal_core_def)
qed

lemma unpin_core: "unpin_read owner ti = Inr ti' \<Longrightarrow> metal_inv ti \<Longrightarrow> metal_inv ti'"
  by (auto simp: unpin_read_def metal_core_def split: if_splits)

lemma drop_owner_core:
  assumes core: "metal_inv ti"
  shows "metal_inv (drop_owner owner ti)"
proof (cases "map_of (trajs ti) owner")
  case (Some tr)
  have "traj_ok (pending_write ti) tr" using get_traj_ok[OF core, of owner] by (simp add: get_traj_Some[OF Some])
  then have "traj_ok (pending_write ti) (tr\<lparr>tail_boundary := - 1\<rparr>)" by (simp add: traj_ok_def primary_slots_def)
  then have "metal_inv (set_traj owner (tr\<lparr>tail_boundary := - 1\<rparr>) ti)"
    by (intro set_traj_core[OF core]) (simp_all add: get_traj_Some[OF Some] traj_slots_def)
  then show ?thesis
    using Some core delete_core[OF core Some] by (auto simp: drop_owner_def)
qed (simp add: drop_owner_def core)

lemma lookup_core: "metal_inv ti \<Longrightarrow> metal_inv (snd (lookup_tier hs ti))"
  by (auto simp: lookup_tier_def Let_def touch_core split: option.splits)

lemma run_metal_core:
  assumes "run_metal c ti = Inr ti'" "metal_inv ti"
  shows "metal_inv ti'"
  using assms
  by (cases c) (auto simp: drop_value_Inr touch_core intro: stage_attention_core stage_tail_core
      stage_attention_tail_core confirm_core pin_core unpin_core drop_owner_core lookup_core
      free_attention_core[OF prod.collapse[symmetric]])

lemma metal_reach_inv: "metal_reach ti \<Longrightarrow> metal_inv ti"
  by (induction rule: metal_reach.induct) (auto intro: init_core run_metal_core)

end
