(* ===== verification/Metal_Lookup.thy ===== *)
theory Metal_Lookup
  imports Metal_System
begin

text \<open>
  What a hit of the metal index means, and what a reader that pinned a trajectory can rely on until it
  unpins it.
\<close>

subsection \<open>Matching\<close>

lemma agreeing_le: "agreeing xs ys \<le> length xs" "agreeing xs ys \<le> length ys"
  using length_takeWhile_le[of "\<lambda>(x, y). x = y" "zip xs ys"] by (simp_all add: agreeing_def)

lemma agreeing_take: "take (agreeing xs ys) xs = take (agreeing xs ys) ys"
proof (induction xs arbitrary: ys)
  case (Cons x xs)
  then show ?case by (cases ys) (auto simp: agreeing_def)
qed (simp add: agreeing_def)

lemma gap_free_nth: "i < gap_free row \<Longrightarrow> row ! i \<noteq> None"
proof -
  assume "i < gap_free row"
  then have i: "i < length (takeWhile (\<lambda>x. x \<noteq> None) row)" by (simp add: gap_free_def)
  have "takeWhile (\<lambda>x. x \<noteq> None) row ! i \<noteq> None" using set_takeWhileD[OF nth_mem[OF i]] by simp
  then show ?thesis unfolding takeWhile_nth[OF i] .
qed

lemma resumable_blocks_pos:
  assumes "resumable_blocks tr = n" "0 < n"
  shows "tail_boundary tr = int n" "\<not> tail_pending tr" "n \<le> length (hashes tr)"
    "hashes tr ! (n - 1) = tail_hash tr" "n \<le> length (primary_slots tr)"
    "i < n \<Longrightarrow> primary_slots tr ! i \<noteq> None"
proof -
  let ?b = "nat (tail_boundary tr)"
  have f: "0 < tail_boundary tr" "\<not> tail_pending tr" "?b \<le> length (hashes tr)"
      "hashes tr ! (?b - 1) = tail_hash tr" "gap_free (take ?b (primary_slots tr)) = ?b" "n = ?b"
    using assms by (auto simp: resumable_blocks_def Let_def split: if_splits)
  then show "tail_boundary tr = int n" "\<not> tail_pending tr" "n \<le> length (hashes tr)"
    "hashes tr ! (n - 1) = tail_hash tr" by simp_all
  show l: "n \<le> length (primary_slots tr)" using f(5,6) gap_free_le[of "take ?b (primary_slots tr)"] by simp
  show "primary_slots tr ! i \<noteq> None" if "i < n"
    using gap_free_nth[of i "take ?b (primary_slots tr)"] that f(5,6) by simp
qed

lemma match_len_pos:
  assumes "match_len hs tr = n" "0 < n"
  shows "n \<le> length hs" "take n (hashes tr) = take n hs" "n \<le> length (primary_slots tr)"
    "i < n \<Longrightarrow> primary_slots tr ! i \<noteq> None" "\<not> tail_pending tr"
    "tail_state_slots tr \<noteq> [] \<Longrightarrow> int n = tail_boundary tr \<and> hs ! (n - 1) = tail_hash tr"
proof -
  define r where "r = resumable_blocks tr"
  have r: "0 < r" using assms by (auto simp: match_len_def r_def[symmetric] Let_def split: if_splits)
  note rf = resumable_blocks_pos[OF r_def[symmetric] r]
  have n: "n \<le> r \<and> n \<le> length hs \<and> take n (hashes tr) = take n hs \<and> (tail_state_slots tr \<noteq> [] \<longrightarrow> n = r)"
  proof (cases "tail_state_slots tr = []")
    case True
    let ?l = "min r (length hs)"
    have n: "n = agreeing (take ?l (hashes tr)) (take ?l hs)"
      using assms r True by (simp add: match_len_def r_def[symmetric] Let_def)
    have "n \<le> ?l" using agreeing_le(2)[of "take ?l (hashes tr)" "take ?l hs"] by (simp add: n)
    moreover have "take n (take ?l (hashes tr)) = take n (take ?l hs)" unfolding n by (rule agreeing_take)
    ultimately show ?thesis using True by (simp add: min_absorb1)
  next
    case False
    then show ?thesis using assms r by (auto simp: match_len_def r_def[symmetric] Let_def split: if_splits)
  qed
  then show "n \<le> length hs" "take n (hashes tr) = take n hs" "n \<le> length (primary_slots tr)"
      "i < n \<Longrightarrow> primary_slots tr ! i \<noteq> None" "\<not> tail_pending tr"
    using rf(2,5,6) by auto
  assume "tail_state_slots tr \<noteq> []"
  then have nr: "n = r" using n by simp
  have "hs ! (n - 1) = take n hs ! (n - 1)" using assms(2) by simp
  also have "\<dots> = hashes tr ! (n - 1)" using n assms(2) by (metis diff_less nth_take zero_less_one)
  finally show "int n = tail_boundary tr \<and> hs ! (n - 1) = tail_hash tr" using rf(1,4) nr by simp
qed

lemma gap_free_take: "gap_free (take (gap_free row) row) = gap_free row"
  unfolding gap_free_def by (simp add: takeWhile_eq_take[symmetric])

lemma agreeing_same [simp]: "agreeing xs xs = length xs"
  by (induction xs) (auto simp: agreeing_def)

text \<open>A trajectory whose tail was just recorded by \<open>stage_attention_tail\<close> matches to its boundary.\<close>

lemma match_len_stateless:
  assumes "tail_state_slots tr = []" "tail_boundary tr = int n" "\<not> tail_pending tr"
    "n = gap_free (primary_slots tr)" "0 < n" "tail_hash tr = hashes tr ! (n - 1)" "tail_hash tr \<noteq> []"
    "n \<le> length (hashes tr)" "take n (hashes tr) = take n hs"
  shows "match_len hs tr = n"
proof -
  have r: "resumable_blocks tr = n"
    using assms gap_free_take[of "primary_slots tr"] by (simp add: resumable_blocks_def)
  have "length (take n (hashes tr)) = length (take n hs)" using assms(9) by simp
  then have l: "n \<le> length hs" using assms(8) by simp
  then show ?thesis using assms r by (simp add: match_len_def Let_def min_absorb1)
qed

definition matches :: "bytes list \<Rightarrow> metal_index \<Rightarrow> trajectory \<Rightarrow> nat" where
  "matches hs ti tr = (if writing ti (concat (map somes (attn_slots tr))) then 0 else match_len hs tr)"

definition hit_ok :: "bytes list \<Rightarrow> metal_index \<Rightarrow> hit \<Rightarrow> bool" where
  "hit_ok hs ti = (\<lambda>(owner, n, attn, tail). \<exists>tr. (owner, tr) \<in> set (trajs ti) \<and> matches hs ti tr = n \<and> 0 < n \<and>
     attn = attn_slots tr \<and> tail = tail_state_slots tr)"

lemma consider_fold:
  assumes "set es \<subseteq> set (trajs ti)"
  shows "case fold (consider_traj hs ti) es None of
      None \<Rightarrow> \<forall>(owner, tr) \<in> set es. matches hs ti tr = 0
    | Some (owner, n, attn, tail) \<Rightarrow> hit_ok hs ti (owner, n, attn, tail) \<and>
        (\<forall>(u, tr) \<in> set es. matches hs ti tr \<le> n)"
  using assms
proof (induction es rule: rev_induct)
  case (snoc e es)
  obtain u tr where e: "e = (u, tr)" by (cases e)
  let ?best = "fold (consider_traj hs ti) es None"
  have step: "fold (consider_traj hs ti) (es @ [e]) None =
      (if matches hs ti tr = 0 \<or> (case ?best of None \<Rightarrow> False | Some (_, m, _) \<Rightarrow> matches hs ti tr \<le> m) then ?best
       else Some (u, matches hs ti tr, attn_slots tr, tail_state_slots tr))"
    by (auto simp: consider_traj_def matches_def e Let_def split: option.splits)
  have new: "hit_ok hs ti (u, matches hs ti tr, attn_slots tr, tail_state_slots tr)" if "0 < matches hs ti tr"
    using that snoc.prems by (auto simp: hit_ok_def e)
  have "set es \<subseteq> set (trajs ti)" using snoc.prems by simp
  note IH = snoc.IH[OF this]
  show ?case
  proof (cases ?best)
    case None
    then show ?thesis unfolding step using IH new by (auto simp: e)
  next
    case (Some h)
    then obtain o1 m a t where h: "?best = Some (o1, m, a, t)" by (cases h) auto
    then show ?thesis unfolding step using IH new by (fastforce simp: e)
  qed
qed simp

lemma lookup_hit:
  assumes "lookup_tier hs ti = (Some (owner, n, attn, tail), ti')"
  shows "hit_ok hs ti (owner, n, attn, tail)" "(u, tr) \<in> set (trajs ti) \<Longrightarrow> matches hs ti tr \<le> n"
    "ti' = touch_traj owner ti"
  using assms consider_fold[of "trajs ti" ti hs] by (auto simp: lookup_tier_def Let_def)

lemma lookup_miss:
  assumes "lookup_tier hs ti = (None, ti')" "(u, tr) \<in> set (trajs ti)"
  shows "matches hs ti tr = 0"
  using assms consider_fold[of "trajs ti" ti hs] by (auto simp: lookup_tier_def Let_def)


subsection \<open>What a reader keeps\<close>

text \<open>The trajectory may grow; no slot in it moves or goes away, and the tail stays.\<close>

definition grows :: "trajectory \<Rightarrow> trajectory \<Rightarrow> bool" where
  "grows tr tr' \<longleftrightarrow> tail_state_slots tr' = tail_state_slots tr \<and>
     length (attn_slots tr) \<le> length (attn_slots tr') \<and>
     (\<forall>g < length (attn_slots tr). \<forall>p < length (attn_slots tr ! g). attn_slots tr ! g ! p \<noteq> None \<longrightarrow>
        p < length (attn_slots tr' ! g) \<and> attn_slots tr' ! g ! p = attn_slots tr ! g ! p)"

definition keeps_source :: "string \<Rightarrow> metal_index \<Rightarrow> metal_index \<Rightarrow> bool" where
  "keeps_source u ti ti' \<longleftrightarrow> (\<forall>tr. map_of (trajs ti) u = Some tr \<longrightarrow>
     (\<exists>tr'. map_of (trajs ti') u = Some tr' \<and> grows tr tr'))"

lemma grows_refl [simp]: "grows tr tr"
  by (simp add: grows_def)

lemma grows_trans: "grows tr tr1 \<Longrightarrow> grows tr1 tr2 \<Longrightarrow> grows tr tr2"
  unfolding grows_def by (metis (no_types, lifting) order_less_le_trans le_trans)

lemma keeps_same: "map_of (trajs ti') u = map_of (trajs ti) u \<Longrightarrow> keeps_source u ti ti'"
  by (simp add: keeps_source_def)

lemma grows_extend: "grows tr (extend_traj gid pos tr)"
  by (auto simp: grows_def extend_traj_def Let_def nth_list_update pad_to_nth)

lemma grows_put: "attn_slots tr ! gid ! pos = None \<Longrightarrow> grows tr (put_slot gid pos s tr)"
proof -
  assume free: "attn_slots tr ! gid ! pos = None"
  have "(attn_slots tr)[gid := (attn_slots tr ! gid)[pos := s]] ! g =
      (if g = gid then (attn_slots tr ! g)[pos := s] else attn_slots tr ! g)" if "g < length (attn_slots tr)" for g
    using that by simp
  moreover have "(attn_slots tr ! gid)[pos := s] ! p = attn_slots tr ! gid ! p"
    if "attn_slots tr ! gid ! p \<noteq> None" for p
    using that free by (cases "p = pos") simp_all
  ultimately show ?thesis by (simp add: grows_def put_slot_def)
qed

lemma grows_hashes: "grows tr tr' \<Longrightarrow> grows tr (tr'\<lparr>hashes := hs\<rparr>)"
  by (simp add: grows_def)

lemma map_of_simps [simp]:
  "map_of (trajs (touch_traj owner ti)) = map_of (trajs ti)"
  "map_of (trajs (set_traj owner tr ti)) = (map_of (trajs ti))(owner \<mapsto> tr)"
  "trajs (release_slots ss ti) = trajs ti"
  by (simp_all add: touch_traj_def set_traj_def update_conv' release_slots_def)

lemma keeps_stage_attention:
  assumes run: "stage_attention owner gid pos h ti = Inr (os, ti')" and core: "metal_inv ti"
    and pin: "readers ti u \<noteq> 0"
  shows "keeps_source u ti ti'"
proof -
  define tr where "tr = extend_traj gid pos (get_traj owner ti)"
  define ti1 where "ti1 = touch_traj owner (set_traj owner tr ti)"
  have ok: "traj_ok (pending_write ti) tr" unfolding tr_def by (rule extend_ok[OF get_traj_ok[OF core]])
  have core1: "metal_inv ti1"
    unfolding ti1_def by (intro touch_core set_traj_core[OF core ok]) (simp add: tr_def extend_slots)
  have pin1: "readers ti1 u \<noteq> 0" using pin by (simp add: ti1_def touch_traj_def set_traj_def)
  have m1: "map_of (trajs ti1) u = (if u = owner then Some tr else map_of (trajs ti) u)"
    by (simp add: ti1_def)
  have old: "map_of (trajs ti) owner = Some w \<Longrightarrow> grows w tr" for w
    using grows_extend[of w gid pos] by (simp add: tr_def get_traj_Some)
  show ?thesis
  proof (cases "attn_slots tr ! gid ! pos = None")
    case False
    then have "ti' = ti1" using run by (simp add: stage_attention_def tr_def[symmetric] ti1_def[symmetric] Let_def)
    then show ?thesis using m1 old by (auto simp: keeps_source_def)
  next
    case True
    then obtain os2 ti2 where a: "alloc_slot owner ti1 = Inr (os2, ti2)"
      using run by (auto simp: stage_attention_def tr_def[symmetric] ti1_def[symmetric] Let_def)
    then have m2: "map_of (trajs ti2) u = map_of (trajs ti1) u"
      using alloc_slot_ok[OF a core1] pin1 by (simp add: spares_def)
    let ?tr2 = "\<lambda>s. if gid = 0 then (put_slot gid pos (Some s) tr)\<lparr>hashes := (hashes tr)[pos := h]\<rparr>
        else put_slot gid pos (Some s) tr"
    have g: "grows tr (?tr2 s)" for s using grows_put[OF True, of "Some s"] grows_hashes by (cases "gid = 0") simp_all
    have "ti' = ti2 \<or> (\<exists>s. ti' = set_traj owner (?tr2 s) ti2)"
      using run a True by (auto simp: stage_attention_def tr_def[symmetric] ti1_def[symmetric] Let_def
          split: option.splits if_splits)
    then show ?thesis using m1 m2 old grows_trans[OF old g] by (auto simp: keeps_source_def)
  qed
qed

lemma keeps_stage_tail:
  assumes run: "stage_tail_states owner b k h ti = Inr (os, ti')" and core: "metal_inv ti"
    and pin: "readers ti u \<noteq> 0"
  shows "keeps_source u ti ti'"
proof (cases "readers ti owner = 0")
  case False
  then show ?thesis using run by (auto simp: stage_tail_states_def intro: keeps_same)
next
  case True
  then have ne: "u \<noteq> owner" using pin by auto
  define ti1 where "ti1 = touch_traj owner (set_traj owner (get_traj owner ti) ti)"
  have core1: "metal_inv ti1"
    unfolding ti1_def by (intro touch_core set_traj_core[OF core get_traj_ok[OF core]]) simp
  obtain os2 ti2 where a: "alloc_states [0..<k] owner [] ti1 = Inr (os2, ti2)"
    using run True by (auto simp: stage_tail_states_def ti1_def[symmetric] Let_def)
  have "readers ti1 u \<noteq> 0" using pin by (simp add: ti1_def touch_traj_def set_traj_def)
  then have "map_of (trajs ti2) u = map_of (trajs ti1) u"
    using alloc_states_ok[OF a] core1 by (simp add: spares_def)
  moreover have "map_of (trajs ti1) u = map_of (trajs ti) u" using ne by (simp add: ti1_def)
  moreover have "map_of (trajs ti') u = map_of (trajs ti2) u"
    using run True a ne by (auto simp: stage_tail_states_def ti1_def[symmetric] Let_def split: option.splits)
  ultimately show ?thesis by (simp add: keeps_same)
qed

lemma keeps_free_attention:
  "free_attention owner gid pos ti = (b, ti') \<Longrightarrow> readers ti u \<noteq> 0 \<Longrightarrow> keeps_source u ti ti'"
  by (cases "u = owner") (auto simp: free_attention_def Let_def intro!: keeps_same split: option.splits if_splits)

lemma keeps_attention_tail:
  assumes run: "stage_attention_tail owner ti = Inr (n, ti')" and pin: "readers ti u \<noteq> 0"
  shows "keeps_source u ti ti'"
proof (cases "map_of (trajs ti) owner")
  case None
  then show ?thesis using run by (auto simp: stage_attention_tail_def intro: keeps_same)
next
  case (Some tr)
  show ?thesis
  proof (cases "tail_state_slots tr \<noteq> [] \<and> readers ti owner \<noteq> 0")
    case True
    then show ?thesis using run Some by (auto simp: stage_attention_tail_def intro: keeps_same)
  next
    case False
    let ?new = "\<lambda>n h. tr\<lparr>tail_state_slots := [], tail_boundary := n, tail_hash := h, tail_pending := False\<rparr>"
    have "ti' = touch_traj owner ti \<or> (\<exists>n h. ti' = set_traj owner (?new n h)
        (release_slots (map snd (tail_state_slots tr)) (touch_traj owner ti)))"
      using run Some False by (auto simp: stage_attention_tail_def Let_def split: if_splits)
    moreover have "u = owner \<Longrightarrow> tail_state_slots tr = []" using False pin by auto
    ultimately show ?thesis using Some by (auto simp: keeps_source_def grows_def)
  qed
qed

lemma run_metal_keeps_source:
  assumes "run_metal c ti = Inr ti'" "metal_inv ti" "readers ti u \<noteq> 0"
  shows "keeps_source u ti ti'"
proof (cases c)
  case (ConfirmWrites slots)
  then show ?thesis using assms
    by (auto simp: keeps_source_def confirm_writes_def Let_def grows_def simp del: map_map)
next
  case (DropOwner owner)
  then show ?thesis using assms
    by (cases "owner = u")
      (auto simp: drop_owner_def delete_traj_def keeps_source_def grows_def split: option.splits)
next
  case (LookupTier hs)
  then show ?thesis using assms by (auto simp: lookup_tier_def Let_def intro!: keeps_same split: option.splits)
qed (use assms in \<open>auto simp: drop_value_Inr pin_read_def unpin_read_def intro: keeps_same keeps_stage_attention
    keeps_stage_tail keeps_attention_tail keeps_free_attention[OF prod.collapse[symmetric]]\<close>)

end
