(* ===== verification/Metal_Properties.thy ===== *)
theory Metal_Properties
  imports Metal_Lookup
begin

text \<open>
  The properties of the metal host tier index over every state that calls can reach, each with the
  concrete state on which it is exercised, and two runs that show where the index does not do what
  its sibling \<^verbatim>\<open>core/kv_tier_index.py\<close> takes care to do.
\<close>

subsection \<open>A small index, run from its start\<close>

definition run_metal_from :: "int \<Rightarrow> metal_call list \<Rightarrow> metal_index res" where
  "run_metal_from n cs = rbind (metal_init n) (run_metals cs)"

lemma run_metal_from_reach: "run_metal_from n cs = Inr ti \<Longrightarrow> metal_reach ti"
  by (auto simp: run_metal_from_def intro: run_metals_reach metal_reach.init)

text \<open>Conversation \<open>a\<close>: two attention blocks and the state at their end, confirmed and pinned by a
  reader; conversation \<open>b\<close> is writing its first block.\<close>

definition metal_calls :: "metal_call list" where
  "metal_calls = [StageAttention ''a'' 0 0 [1], StageAttention ''a'' 0 1 [2], StageTailStates ''a'' 2 1 [2],
     ConfirmWrites [0, 1, 2], StageAttention ''b'' 0 0 [1], PinRead ''a'']"

definition sample_metal :: metal_index where
  "sample_metal = (case run_metal_from 4 metal_calls of Inr ti \<Rightarrow> ti)"

lemma sample_metal_run: "run_metal_from 4 metal_calls = Inr sample_metal"
proof -
  have "isl (run_metal_from 4 metal_calls) = False" by code_simp
  then show ?thesis by (cases "run_metal_from 4 metal_calls") (simp_all add: sample_metal_def)
qed

lemma sample_metal_reach: "metal_reach sample_metal"
  by (rule run_metal_from_reach[OF sample_metal_run])


subsection \<open>Slots\<close>




subsection \<open>Lookup\<close>



text \<open>Lookup finds the best match: no trajectory without attention writes in flight matches more
  blocks than the one reported, and on a miss no such trajectory matches any.\<close>

theorem lookup_tier_deepest:
  assumes "(u, tr) \<in> set (trajs ti)" and "\<forall>row \<in> set (attn_slots tr). \<forall>s. Some s \<in> set row \<longrightarrow> s \<notin> pending_write ti"
  shows "match_len hs tr \<le> (case fst (lookup_tier hs ti) of None \<Rightarrow> 0 | Some (owner, n, attn, tail) \<Rightarrow> n)"
proof -
  have "\<not> writing ti (concat (map somes (attn_slots tr)))"
    using assms(2) by (auto simp: writing_def list_ex_iff set_somes)
  then have m: "matches hs ti tr = match_len hs tr" by (simp add: matches_def)
  obtain best ti' where l: "lookup_tier hs ti = (best, ti')" by (cases "lookup_tier hs ti")
  show ?thesis
  proof (cases best)
    case None
    then show ?thesis using lookup_miss[OF _ assms(1)] l m by simp
  next
    case (Some h)
    then obtain owner n attn tail where h: "best = Some (owner, n, attn, tail)" by (cases h) auto
    then show ?thesis using lookup_hit(2)[OF _ assms(1)] l m by fastforce
  qed
qed

theorem lookup_tier_deepest_witness:
  "\<exists>tr. map_of (trajs sample_metal) ''a'' = Some tr \<and> match_len [[1], [2]] tr = 2 \<and>
     2 \<le> (case fst (lookup_tier [[1], [2]] sample_metal) of None \<Rightarrow> 0 | Some (owner, n, attn, tail) \<Rightarrow> n)"
proof -
  define tr where "tr = get_traj ''a'' sample_metal"
  have ne: "map_of (trajs sample_metal) ''a'' \<noteq> None" by code_simp
  then have m: "map_of (trajs sample_metal) ''a'' = Some tr" by (auto simp: tr_def get_traj_def)
  have "list_all (\<lambda>row. list_all (\<lambda>s. s \<notin> pending_write sample_metal) (somes row))
      (attn_slots (get_traj ''a'' sample_metal))" by code_simp
  then have "\<forall>row \<in> set (attn_slots tr). \<forall>s. Some s \<in> set row \<longrightarrow> s \<notin> pending_write sample_metal"
    by (auto simp: tr_def list_all_iff set_somes)
  from lookup_tier_deepest[OF map_of_SomeD[OF m] this, of "[[1], [2]]"]
  have "match_len [[1], [2]] tr \<le> (case fst (lookup_tier [[1], [2]] sample_metal) of None \<Rightarrow> 0 | Some (owner, n, attn, tail) \<Rightarrow> n)" .
  moreover have "match_len [[1], [2]] (get_traj ''a'' sample_metal) = 2" by code_simp
  ultimately show ?thesis using m by (simp add: tr_def)
qed








subsection \<open>Readers\<close>

text \<open>C25: What a reader restores from stays put: while an owner is pinned, no call of any kind moves or
  releases a slot of its trajectory, replaces its saved state or deletes it; the trajectory can only grow,
  and its slots do not reach the free list.\<close>

theorem readers_keep_slots:
  assumes "metal_reach ti" and "is_read_pinned u ti" and "map_of (trajs ti) u = Some tr"
    and "run_metal c ti = Inr ti'"
  shows "\<exists>tr'. map_of (trajs ti') u = Some tr' \<and> grows tr tr' \<and> set (traj_slots tr') \<inter> set (free ti') = {}"
proof -
  note core = metal_reach_inv[OF assms(1)]
  have core': "metal_inv ti'" by (rule run_metal_core[OF assms(4) core])
  obtain tr' where tr': "map_of (trajs ti') u = Some tr'" "grows tr tr'"
    using run_metal_keeps_source[OF assms(4) core, of u] assms(2,3)
    by (auto simp: keeps_source_def is_read_pinned_def)
  then have "set (traj_slots tr') \<inter> set (free ti') = {}"
    using slots_disjoint(2)[OF core'] by (fastforce simp: set_holdings dest: map_of_SomeD)
  then show ?thesis using tr' by blast
qed

theorem readers_keep_slots_witness:
  "\<exists>ti' tr'. run_metal (StageAttention ''c'' 0 0 [9]) sample_metal = Inr ti' \<and>
     map_of (trajs ti') ''a'' = Some tr' \<and> grows (get_traj ''a'' sample_metal) tr'"
proof -
  have ne: "map_of (trajs sample_metal) ''a'' \<noteq> None" by code_simp
  then have m: "map_of (trajs sample_metal) ''a'' = Some (get_traj ''a'' sample_metal)"
    by (auto simp: get_traj_def)
  have pin: "is_read_pinned ''a'' sample_metal" by code_simp
  have "isl (run_metal (StageAttention ''c'' 0 0 [9]) sample_metal) = False" by code_simp
  then obtain ti' where r: "run_metal (StageAttention ''c'' 0 0 [9]) sample_metal = Inr ti'"
    by (cases "run_metal (StageAttention ''c'' 0 0 [9]) sample_metal") simp_all
  from readers_keep_slots[OF sample_metal_reach pin m r] r show ?thesis by blast
qed


subsection \<open>Running out of slots\<close>

definition evictable :: "string \<Rightarrow> metal_index \<Rightarrow> string \<times> trajectory \<Rightarrow> bool" where
  "evictable protect ti = (\<lambda>(u, tr). u \<noteq> protect \<and> readers ti u = 0 \<and> \<not> writing ti (traj_slots tr))"

lemma reclaim_from_find:
  "reclaim_from es protect ti =
     (case find (evictable protect ti) es of None \<Rightarrow> (False, ti) | Some (u, tr) \<Rightarrow> (True, delete_traj u tr ti))"
proof (induction es)
  case (Cons e es)
  then show ?case by (cases e) (simp add: evictable_def)
qed simp

text \<open>When an allocation finds the free list empty, it looks for the least recently used trajectory
  that is not its own, has no reader and no write in flight.  It returns no slot exactly when there is
  none; it raises IndexError exactly when that trajectory turns out to hold no slot at all, although
  others may hold some.\<close>

theorem alloc_slot_outcome:
  "(alloc_slot protect ti = Inr (None, ti) \<longleftrightarrow> free ti = [] \<and> find (evictable protect ti) (trajs ti) = None) \<and>
   (alloc_slot protect ti = Inl e \<longleftrightarrow> e = IndexError \<and> free ti = [] \<and>
      (\<exists>u tr. find (evictable protect ti) (trajs ti) = Some (u, tr) \<and> traj_slots tr = []))"
  by (auto simp: alloc_slot_def reclaim_def reclaim_from_find pop_slot_def delete_traj_def Let_def
      split: option.splits)

text \<open>This happens: \<open>stage_attention\<close> inserts the trajectory before it asks for a slot, so that a request
  that got none leaves an empty one behind, which the next allocation reclaims.\<close>

lemma stage_attention_can_raise:
  "\<exists>ti. metal_reach ti \<and> stage_attention ''c'' 0 0 [3] ti = Inl IndexError"
proof -
  let ?cs = "[StageAttention ''a'' 0 0 [1], StageAttention ''b'' 0 0 [2]]"
  have "isl (run_metal_from 1 ?cs) = False \<and>
      (case run_metal_from 1 ?cs of Inr ti \<Rightarrow>
       (case stage_attention ''c'' 0 0 [3] ti of Inl e \<Rightarrow> e = IndexError | Inr _ \<Rightarrow> False))" by code_simp
  then show ?thesis
    by (cases "run_metal_from 1 ?cs") (auto dest: run_metal_from_reach split: sum.splits)
qed

text \<open>Replacing a tail frees its slots although their writes may be in flight.  Below slot 0 goes from
  \<open>a\<close>'s first tail to \<open>b\<close>'s block while the write of that tail is in flight; the confirmation of that
  write then counts for \<open>b\<close>'s block, which lookup hands out without any write of \<open>b\<close> confirmed.\<close>

lemma superseded_write_confirms_other_block:
  "\<exists>ti. run_metal_from 3 [StageTailStates ''a'' 1 1 [1], StageTailStates ''a'' 2 1 [2], StageAttention ''b'' 0 0 [7],
       ConfirmWrites [0], StageAttentionTail ''b''] = Inr ti \<and>
     fst (lookup_tier [[7]] ti) = Some (''b'', 1, [[Some 0]], [])"
proof -
  let ?cs = "[StageTailStates ''a'' 1 1 [1], StageTailStates ''a'' 2 1 [2], StageAttention ''b'' 0 0 [7],
       ConfirmWrites [0], StageAttentionTail ''b'']"
  have "isl (run_metal_from 3 ?cs) = False \<and>
      (case run_metal_from 3 ?cs of Inr ti \<Rightarrow> fst (lookup_tier [[7]] ti) = Some (''b'', 1, [[Some 0]], []))"
    by code_simp
  then show ?thesis by (cases "run_metal_from 3 ?cs") auto
qed

end
