(* ===== verification/KV_Spec.thy ===== *)
theory KV_Spec
  imports Prelude
begin

text \<open>
  The KV cache specifications of the layers (\<^verbatim>\<open>kv_cache_interface.py\<close>): page sizes, the memory one
  request of maximal length needs, and the rows of the block table.  A class of the hierarchy is a
  constructor; the fields its ancestors contribute are records.  The size of a torch dtype is the
  parameter \<open>ds\<close>; \<open>head_size_v\<close> is the value that \<open>__post_init__\<close> leaves.
\<close>

definition cdiv :: "int \<Rightarrow> int \<Rightarrow> int res" where
  "cdiv a b = (if b = 0 then Inl ZeroDivisionError else Inr (- (a div - b)))"

definition round_up :: "int \<Rightarrow> int \<Rightarrow> int res" where
  "round_up x y = (if y = 0 then Inl ZeroDivisionError else Inr ((x + y - 1) div y * y))"

text \<open>\<open>[f(x) for x in xs]\<close>, where \<open>f\<close> may raise.\<close>

fun rmap :: "('a \<Rightarrow> 'b res) \<Rightarrow> 'a list \<Rightarrow> 'b list res" where
  "rmap f [] = Inr []"
| "rmap f (x # xs) = rbind (f x) (\<lambda>y. rbind (rmap f xs) (\<lambda>ys. Inr (y # ys)))"

text \<open>\<open>max(xs)\<close>.\<close>

definition py_max :: "int list \<Rightarrow> int res" where
  "py_max xs = (if xs = [] then Inl ValueError else Inr (fold max (tl xs) (hd xs)))"


subsection \<open>Quantization modes\<close>

datatype kv_quant_mode =
    QNone | Fp8PerTensor | Int8PerTokenHead | Fp8PerTokenHead | Int4PerTokenHead | Nvfp4

definition is_per_token_head :: "kv_quant_mode \<Rightarrow> bool" where
  "is_per_token_head m \<longleftrightarrow> m \<in> {Int8PerTokenHead, Fp8PerTokenHead, Int4PerTokenHead}"

definition is_nvfp4 :: "kv_quant_mode \<Rightarrow> bool" where
  "is_nvfp4 m \<longleftrightarrow> m = Nvfp4"

definition get_kv_quant_mode :: "string \<Rightarrow> kv_quant_mode" where
  "get_kv_quant_mode s =
     (if s = ''int4_per_token_head'' then Int4PerTokenHead
      else if s = ''int8_per_token_head'' then Int8PerTokenHead
      else if s = ''fp8_per_token_head'' then Fp8PerTokenHead
      else if s = ''nvfp4'' then Nvfp4
      else if take 3 s = ''fp8'' then Fp8PerTensor
      else QNone)"

definition is_quantized_kv_cache :: "string \<Rightarrow> bool" where
  "is_quantized_kv_cache s \<longleftrightarrow> get_kv_quant_mode s \<noteq> QNone"

definition kv_cache_uses_per_token_head_scales :: "string \<Rightarrow> bool" where
  "kv_cache_uses_per_token_head_scales s = is_per_token_head (get_kv_quant_mode s)"

definition nvfp4_kv_cache_full_dim :: "int \<Rightarrow> int" where
  "nvfp4_kv_cache_full_dim h = h div 2 + h div 16"


subsection \<open>Specifications\<close>

datatype torch_dtype = Float32 | OtherDtype nat

record attn_spec =
  attn_block_size :: int
  num_kv_heads :: int
  head_size :: int
  dtype :: torch_dtype
  kv_quant_mode :: kv_quant_mode
  page_size_padded :: "int option"
  indexes_kv_by_block_stride :: bool

record full_spec = attn_spec +
  head_size_v :: int
  full_sliding_window :: "int option"
  full_chunk_size :: "int option"
  non_causal :: bool

record sliding_spec = attn_spec +
  sliding_window :: int
  sliding_head_v :: int

text \<open>The fields that the MLA formats add.\<close>

record mla_fields =
  cache_dtype_str :: "string option"
  alignment :: "int option"
  compress_ratio :: int
  model_version :: "string option"

record mamba_spec =
  mamba_block_size :: int
  shapes :: "int list list"
  dtypes :: "torch_dtype list"
  mamba_padded :: "int option"
  mamba_type :: nat
  mamba_cache_mode :: string
  num_speculative_blocks :: int
  tp_replicated :: bool

datatype layer_spec =
    FullAttention full_spec
  | TQFullAttention full_spec int string
  | MLAAttention full_spec mla_fields
  | HiddenStateCache full_spec mla_fields
  | RSWA full_spec int
  | SinkFullAttention full_spec "int option"
  | ChunkedLocalAttention attn_spec int
  | SlidingWindow sliding_spec
  | TQSlidingWindow sliding_spec int string
  | SlidingWindowMLA sliding_spec mla_fields
  | CircularBuffer attn_spec int
  | Mamba mamba_spec
  | EncoderOnlyAttention attn_spec
  | CrossAttention attn_spec

text \<open>The specification of a group: one layer's, or several of the same type in one
  (\<open>UniformTypeKVCacheSpecs\<close>, with the block size of the group).\<close>

datatype kv_spec =
    Layer layer_spec
  | UniformType int "(string \<times> layer_spec) list"

text \<open>The part an attention specification inherits from \<open>AttentionSpec\<close>.\<close>

fun attn_of :: "layer_spec \<Rightarrow> attn_spec option" where
  "attn_of (FullAttention s) = Some (attn_spec.truncate s)"
| "attn_of (TQFullAttention s _ _) = Some (attn_spec.truncate s)"
| "attn_of (MLAAttention s _) = Some (attn_spec.truncate s)"
| "attn_of (HiddenStateCache s _) = Some (attn_spec.truncate s)"
| "attn_of (RSWA s _) = Some (attn_spec.truncate s)"
| "attn_of (SinkFullAttention s _) = Some (attn_spec.truncate s)"
| "attn_of (ChunkedLocalAttention s _) = Some s"
| "attn_of (SlidingWindow s) = Some (attn_spec.truncate s)"
| "attn_of (TQSlidingWindow s _ _) = Some (attn_spec.truncate s)"
| "attn_of (SlidingWindowMLA s _) = Some (attn_spec.truncate s)"
| "attn_of (CircularBuffer s _) = Some s"
| "attn_of (Mamba _) = None"
| "attn_of (EncoderOnlyAttention s) = Some s"
| "attn_of (CrossAttention s) = Some s"

fun layer_block_size :: "layer_spec \<Rightarrow> int" where
  "layer_block_size (Mamba m) = mamba_block_size m"
| "layer_block_size s = attn_block_size (the (attn_of s))"

fun spec_block_size :: "kv_spec \<Rightarrow> int" where
  "spec_block_size (Layer s) = layer_block_size s"
| "spec_block_size (UniformType bs _) = bs"

fun layer_prefix_cacheable :: "layer_spec \<Rightarrow> bool" where
  "layer_prefix_cacheable (CircularBuffer _ _) = False"
| "layer_prefix_cacheable _ = True"

fun prefix_cacheable :: "kv_spec \<Rightarrow> bool" where
  "prefix_cacheable (Layer s) = layer_prefix_cacheable s"
| "prefix_cacheable (UniformType _ ss) = list_all (\<lambda>(n, s). layer_prefix_cacheable s) ss"


subsection \<open>Page sizes\<close>

definition mla_storage_block_size :: "int \<Rightarrow> mla_fields \<Rightarrow> int res" where
  "mla_storage_block_size bs m =
     (if compress_ratio m = 0 then Inl ZeroDivisionError else Inr (bs div compress_ratio m))"

definition attn_real_page_size :: "(torch_dtype \<Rightarrow> int) \<Rightarrow> attn_spec \<Rightarrow> int" where
  "attn_real_page_size ds a =
     (let head_dim = (if is_nvfp4 (kv_quant_mode a) then nvfp4_kv_cache_full_dim (head_size a)
                      else if kv_quant_mode a = Int4PerTokenHead then head_size a div 2
                      else head_size a)
      in 2 * attn_block_size a * num_kv_heads a * head_dim * ds (dtype a))"

definition full_real_page_size :: "(torch_dtype \<Rightarrow> int) \<Rightarrow> full_spec \<Rightarrow> int" where
  "full_real_page_size ds a =
     (let last_dim = (if is_nvfp4 (kv_quant_mode a)
                      then nvfp4_kv_cache_full_dim (head_size a) + nvfp4_kv_cache_full_dim (head_size_v a)
                      else if kv_quant_mode a = Int4PerTokenHead then head_size a div 2 + head_size_v a div 2
                      else head_size a + head_size_v a)
      in attn_block_size a * num_kv_heads a * last_dim * ds (dtype a))"

definition mla_real_page_size :: "(torch_dtype \<Rightarrow> int) \<Rightarrow> full_spec \<Rightarrow> mla_fields \<Rightarrow> int res" where
  "mla_real_page_size ds a m =
     (if cache_dtype_str m = Some ''fp8_ds_mla'' then
        if model_version m = Some ''deepseek_v4''
        then rbind (mla_storage_block_size (attn_block_size a) m) (\<lambda>b. Inr (b * 584))
        else Inr (attn_block_size a * 656)
      else
        let head_dim = (if kv_quant_mode a = Int4PerTokenHead then head_size a div 2 else head_size a)
        in rbind (mla_storage_block_size (attn_block_size a) m) (\<lambda>b.
             Inr (b * num_kv_heads a * head_dim * ds (dtype a))))"

definition sliding_real_page_size :: "(torch_dtype \<Rightarrow> int) \<Rightarrow> sliding_spec \<Rightarrow> int" where
  "sliding_real_page_size ds a =
     (if is_nvfp4 (kv_quant_mode a) then
        let last_dim = nvfp4_kv_cache_full_dim (head_size a) + nvfp4_kv_cache_full_dim (sliding_head_v a)
        in attn_block_size a * num_kv_heads a * last_dim * ds (dtype a)
      else attn_block_size a * num_kv_heads a * (head_size a + sliding_head_v a) * ds (dtype a))"

definition sliding_mla_real_page_size :: "(torch_dtype \<Rightarrow> int) \<Rightarrow> sliding_spec \<Rightarrow> mla_fields \<Rightarrow> int res" where
  "sliding_mla_real_page_size ds a m =
     (if model_version m = Some ''deepseek_v4'' \<and> cache_dtype_str m = Some ''fp8_ds_mla''
      then rbind (mla_storage_block_size (attn_block_size a) m) (\<lambda>b. Inr (b * 584))
      else
        rbind (guard AssertionError (model_version m \<in> {None, Some ''deepseek_v4''})) (\<lambda>_.
        rbind (mla_storage_block_size (attn_block_size a) m) (\<lambda>b.
          Inr (b * num_kv_heads a * head_size a * ds (dtype a)))))"

definition tq_real_page_size :: "int \<Rightarrow> attn_spec \<Rightarrow> int \<Rightarrow> int" where
  "tq_real_page_size slot a otherwise =
     (if slot > 0 then attn_block_size a * num_kv_heads a * slot else otherwise)"

definition circular_real_page_size :: "(torch_dtype \<Rightarrow> int) \<Rightarrow> attn_spec \<Rightarrow> int \<Rightarrow> int" where
  "circular_real_page_size ds a hv =
     attn_block_size a * num_kv_heads a * (head_size a + hv) * ds (dtype a)"

fun real_page_size_bytes :: "(torch_dtype \<Rightarrow> int) \<Rightarrow> layer_spec \<Rightarrow> int res" where
  "real_page_size_bytes ds (FullAttention s) = Inr (full_real_page_size ds s)"
| "real_page_size_bytes ds (TQFullAttention s slot _) =
     Inr (tq_real_page_size slot (attn_spec.truncate s) (full_real_page_size ds s))"
| "real_page_size_bytes ds (MLAAttention s m) = mla_real_page_size ds s m"
| "real_page_size_bytes ds (HiddenStateCache s m) = mla_real_page_size ds s m"
| "real_page_size_bytes ds (RSWA s _) = Inr (full_real_page_size ds s)"
| "real_page_size_bytes ds (SinkFullAttention s _) = Inr (full_real_page_size ds s)"
| "real_page_size_bytes ds (ChunkedLocalAttention s _) = Inr (attn_real_page_size ds s)"
| "real_page_size_bytes ds (SlidingWindow s) = Inr (sliding_real_page_size ds s)"
| "real_page_size_bytes ds (TQSlidingWindow s slot _) =
     Inr (tq_real_page_size slot (attn_spec.truncate s) (sliding_real_page_size ds s))"
| "real_page_size_bytes ds (SlidingWindowMLA s m) = sliding_mla_real_page_size ds s m"
| "real_page_size_bytes ds (CircularBuffer s hv) = Inr (circular_real_page_size ds s hv)"
| "real_page_size_bytes ds (Mamba m) = Inl AttributeError"
| "real_page_size_bytes ds (EncoderOnlyAttention s) = Inr (attn_real_page_size ds s)"
| "real_page_size_bytes ds (CrossAttention s) = Inr (attn_real_page_size ds s)"

definition unpadded_page_size_bytes :: "(torch_dtype \<Rightarrow> int) \<Rightarrow> attn_spec \<Rightarrow> layer_spec \<Rightarrow> int res" where
  "unpadded_page_size_bytes ds a s =
     rbind (real_page_size_bytes ds s) (\<lambda>u.
       Inr (if is_per_token_head (kv_quant_mode a)
            then u + 2 * attn_block_size a * num_kv_heads a * ds Float32 else u))"

definition mamba_page_size :: "(torch_dtype \<Rightarrow> int) \<Rightarrow> mamba_spec \<Rightarrow> int" where
  "mamba_page_size ds m = sum_list (map (\<lambda>(sh, d). prod_list sh * ds d) (zip (shapes m) (dtypes m)))"

definition padded_to :: "int option \<Rightarrow> int \<Rightarrow> int res" where
  "padded_to padded u =
     (case padded of None \<Rightarrow> Inr u | Some q \<Rightarrow> rbind (guard AssertionError (q \<ge> u)) (\<lambda>_. Inr q))"

definition layer_page_size :: "(torch_dtype \<Rightarrow> int) \<Rightarrow> layer_spec \<Rightarrow> int res" where
  "layer_page_size ds s =
     (case s of
        Mamba m \<Rightarrow> padded_to (mamba_padded m) (mamba_page_size ds m)
      | _ \<Rightarrow>
          let a = the (attn_of s) in
          rbind (unpadded_page_size_bytes ds a s) (padded_to (page_size_padded a)))"

fun page_size_bytes :: "(torch_dtype \<Rightarrow> int) \<Rightarrow> kv_spec \<Rightarrow> int res" where
  "page_size_bytes ds (Layer s) = layer_page_size ds s"
| "page_size_bytes ds (UniformType _ ss) =
     rbind (rmap (\<lambda>(n, s). layer_page_size ds s) ss) (\<lambda>ps. Inr (sum_list ps))"


subsection \<open>Memory of one request\<close>

record vconfig =
  max_model_len :: int
  dcp_size :: int
  max_in_flight_tokens :: int
  cache_mamba_mode :: string
  max_num_encoder_input_tokens :: int
  num_gpu_blocks_override :: "int option"
  cache_block_size :: int
  enable_prefix_caching :: bool
  connector_enabled :: bool
  prefix_match_unit :: "int option"

definition chunked_admission_blocks :: "int \<Rightarrow> int \<Rightarrow> int \<Rightarrow> int \<Rightarrow> int res" where
  "chunked_admission_blocks bs chunk in_flight len = cdiv (min (chunk + in_flight) len) bs"

definition sliding_admission_blocks :: "int \<Rightarrow> int \<Rightarrow> int \<Rightarrow> int \<Rightarrow> int res" where
  "sliding_admission_blocks bs window in_flight len =
     rbind (cdiv (min (window - 1 + in_flight) len) bs) (\<lambda>n. Inr (n + 1))"

definition full_memory :: "(torch_dtype \<Rightarrow> int) \<Rightarrow> vconfig \<Rightarrow> layer_spec \<Rightarrow> int res" where
  "full_memory ds c s =
     rbind (if dcp_size c > 1 then cdiv (max_model_len c) (dcp_size c) else Inr (max_model_len c)) (\<lambda>len.
     rbind (cdiv len (layer_block_size s)) (\<lambda>n.
     rbind (layer_page_size ds s) (\<lambda>pg. Inr (n * pg))))"

definition sliding_memory :: "(torch_dtype \<Rightarrow> int) \<Rightarrow> vconfig \<Rightarrow> int \<Rightarrow> layer_spec \<Rightarrow> int res" where
  "sliding_memory ds c window s =
     rbind (guard AssertionError (dcp_size c = 1)) (\<lambda>_.
     rbind (sliding_admission_blocks (layer_block_size s) window (max_in_flight_tokens c) (max_model_len c)) (\<lambda>n.
     rbind (layer_page_size ds s) (\<lambda>pg. Inr (n * pg))))"

definition mamba_memory :: "(torch_dtype \<Rightarrow> int) \<Rightarrow> vconfig \<Rightarrow> mamba_spec \<Rightarrow> int res" where
  "mamba_memory ds c m =
     (if cache_mamba_mode c = ''all'' then
        rbind (cdiv (max_model_len c) (mamba_block_size m)) (\<lambda>n.
        rbind (layer_page_size ds (Mamba m)) (\<lambda>pg. Inr ((n + num_speculative_blocks m) * pg)))
      else if cache_mamba_mode c = ''align'' then
        rbind (layer_page_size ds (Mamba m)) (\<lambda>pg. Inr (pg * (2 + num_speculative_blocks m)))
      else rbind (layer_page_size ds (Mamba m)) (\<lambda>pg. Inr (pg * (1 + num_speculative_blocks m))))"

definition chunked_memory :: "(torch_dtype \<Rightarrow> int) \<Rightarrow> vconfig \<Rightarrow> attn_spec \<Rightarrow> int \<Rightarrow> int res" where
  "chunked_memory ds c a chunk =
     rbind (chunked_admission_blocks (attn_block_size a) chunk (max_in_flight_tokens c) (max_model_len c)) (\<lambda>n.
     rbind (layer_page_size ds (ChunkedLocalAttention a chunk)) (\<lambda>pg. Inr (n * pg)))"

definition cross_memory :: "(torch_dtype \<Rightarrow> int) \<Rightarrow> vconfig \<Rightarrow> attn_spec \<Rightarrow> int res" where
  "cross_memory ds c a =
     rbind (cdiv (max_num_encoder_input_tokens c) (attn_block_size a)) (\<lambda>n.
     rbind (layer_page_size ds (CrossAttention a)) (\<lambda>pg. Inr (n * pg)))"

definition circular_memory :: "(torch_dtype \<Rightarrow> int) \<Rightarrow> attn_spec \<Rightarrow> int \<Rightarrow> int res" where
  "circular_memory ds a hv = layer_page_size ds (CircularBuffer a hv)"

text \<open>Dispatch on the class.\<close>

fun layer_memory :: "(torch_dtype \<Rightarrow> int) \<Rightarrow> vconfig \<Rightarrow> layer_spec \<Rightarrow> int res" where
  "layer_memory ds c (ChunkedLocalAttention a chunk) = chunked_memory ds c a chunk"
| "layer_memory ds c (SlidingWindow s) = sliding_memory ds c (sliding_window s) (SlidingWindow s)"
| "layer_memory ds c (TQSlidingWindow s x y) = sliding_memory ds c (sliding_window s) (TQSlidingWindow s x y)"
| "layer_memory ds c (SlidingWindowMLA s m) = sliding_memory ds c (sliding_window s) (SlidingWindowMLA s m)"
| "layer_memory ds c (CircularBuffer a hv) = circular_memory ds a hv"
| "layer_memory ds c (Mamba m) = mamba_memory ds c m"
| "layer_memory ds c (EncoderOnlyAttention a) = Inr 0"
| "layer_memory ds c (CrossAttention a) = cross_memory ds c a"
| "layer_memory ds c s = full_memory ds c s"

definition layer_pages :: "(torch_dtype \<Rightarrow> int) \<Rightarrow> vconfig \<Rightarrow> string \<times> layer_spec \<Rightarrow> int res" where
  "layer_pages ds c = (\<lambda>(n, s).
     rbind (layer_memory ds c s) (\<lambda>m. rbind (layer_page_size ds s) (\<lambda>pg. cdiv m pg)))"

fun spec_memory :: "(torch_dtype \<Rightarrow> int) \<Rightarrow> vconfig \<Rightarrow> kv_spec \<Rightarrow> int res" where
  "spec_memory ds c (Layer s) = layer_memory ds c s"
| "spec_memory ds c (UniformType bs ss) =
     rbind (rmap (layer_pages ds c) ss) (\<lambda>ns.
     rbind (py_max ns) (\<lambda>n.
     rbind (page_size_bytes ds (UniformType bs ss)) (\<lambda>pg. Inr (n * pg))))"

text \<open>\<open>max_num_blocks_per_req\<close>: the rows of the block table.\<close>

definition mamba_rows :: "(torch_dtype \<Rightarrow> int) \<Rightarrow> vconfig \<Rightarrow> int \<Rightarrow> mamba_spec \<Rightarrow> int res" where
  "mamba_rows ds c len m =
     (if cache_mamba_mode c = ''align''
      then rbind (cdiv len (mamba_block_size m)) (\<lambda>n. Inr (n + num_speculative_blocks m))
      else rbind (mamba_memory ds c m) (\<lambda>b. rbind (layer_page_size ds (Mamba m)) (\<lambda>pg. cdiv b pg)))"

definition attn_rows :: "vconfig \<Rightarrow> int \<Rightarrow> attn_spec \<Rightarrow> int res" where
  "attn_rows c len a = cdiv len (attn_block_size a * dcp_size c)"

fun layer_rows :: "(torch_dtype \<Rightarrow> int) \<Rightarrow> vconfig \<Rightarrow> int \<Rightarrow> layer_spec \<Rightarrow> int res" where
  "layer_rows ds c len (CircularBuffer a hv) = Inr 1"
| "layer_rows ds c len (Mamba m) = mamba_rows ds c len m"
| "layer_rows ds c len s = attn_rows c len (the (attn_of s))"

definition spec_rows :: "(torch_dtype \<Rightarrow> int) \<Rightarrow> vconfig \<Rightarrow> int \<Rightarrow> kv_spec \<Rightarrow> int res" where
  "spec_rows ds c len g =
     (case g of Layer s \<Rightarrow> layer_rows ds c len s | UniformType bs ss \<Rightarrow> cdiv len bs)"

end
