(* ===== verification/KV_Sizing.thy ===== *)
theory KV_Sizing
  imports KV_Spec
begin

text \<open>
  Sizing the KV cache (\<^verbatim>\<open>core/kv_cache_utils.py\<close>): the memory check and the binary search for the
  longest context that fits, the number of blocks, uniform page sizes, the grouping of layers into
  groups of equal size, and the block sizes of the scheduler and of hashing.
\<close>

subsection \<open>Memory checks\<close>

text \<open>\<open>sum(spec.max_memory_usage_bytes(c) for spec in specs)\<close>.\<close>

definition max_memory_usage_bytes :: "(torch_dtype \<Rightarrow> int) \<Rightarrow> vconfig \<Rightarrow> kv_spec list \<Rightarrow> int res" where
  "max_memory_usage_bytes ds c specs = rbind (rmap (spec_memory ds c) specs) (\<lambda>ms. Inr (sum_list ms))"

text \<open>\<open>fits_in_memory\<close> writes the length it tries into the configuration.\<close>

definition fits_in_memory :: "(torch_dtype \<Rightarrow> int) \<Rightarrow> kv_spec list \<Rightarrow> int \<Rightarrow> int \<Rightarrow> vconfig \<Rightarrow> (bool \<times> vconfig) res" where
  "fits_in_memory ds specs avail len c =
     (let c1 = c\<lparr>max_model_len := len\<rparr> in
      rbind (max_memory_usage_bytes ds c1 specs) (\<lambda>needed. Inr (needed \<le> avail, c1)))"

function search_len :: "(torch_dtype \<Rightarrow> int) \<Rightarrow> kv_spec list \<Rightarrow> int \<Rightarrow> int \<Rightarrow> int \<Rightarrow> int \<Rightarrow> vconfig \<Rightarrow> (int \<times> vconfig) res" where
  "search_len ds specs avail left right best c =
     (if left \<le> right then
        let mid = (left + right) div 2 in
        rbind (fits_in_memory ds specs avail mid c) (\<lambda>(ok, c1).
          if ok then search_len ds specs avail (mid + 1) right mid c1
          else search_len ds specs avail left (mid - 1) best c1)
      else Inr (best, c))"
  by pat_completeness auto
termination
  by (relation "measure (\<lambda>(ds, specs, avail, left, right, best, c). nat (right - left + 1))") auto

declare search_len.simps [simp del]

definition estimate_max_model_len :: "(torch_dtype \<Rightarrow> int) \<Rightarrow> kv_spec list \<Rightarrow> int \<Rightarrow> vconfig \<Rightarrow> (int \<times> vconfig) res" where
  "estimate_max_model_len ds specs avail c =
     (let original = max_model_len c in
      rbind (rbind (fits_in_memory ds specs avail 1 c) (\<lambda>(ok, c1).
               if \<not> ok then Inr (0, c1) else search_len ds specs avail 1 original 1 c1))
        (\<lambda>(result, c2). Inr (result, c2\<lparr>max_model_len := original\<rparr>)))"

definition check_enough_memory_for ::
  "(torch_dtype \<Rightarrow> int) \<Rightarrow> kv_spec list \<Rightarrow> int \<Rightarrow> vconfig \<Rightarrow> vconfig res" where
  "check_enough_memory_for ds specs avail c =
     rbind (guard ValueError (\<not> avail \<le> 0)) (\<lambda>_.
     rbind (max_memory_usage_bytes ds c specs) (\<lambda>needed.
       if needed > avail
       then rbind (estimate_max_model_len ds specs avail c) (\<lambda>_. Inl ValueError)
       else Inr c))"

definition check_enough_kv_cache_memory ::
  "(torch_dtype \<Rightarrow> int) \<Rightarrow> (string \<times> kv_spec) list \<Rightarrow> int \<Rightarrow> vconfig \<Rightarrow> vconfig res" where
  "check_enough_kv_cache_memory ds specs avail c =
     (if specs \<noteq> [] then check_enough_memory_for ds (map snd specs) avail c else Inr c)"

definition may_override_num_blocks :: "vconfig \<Rightarrow> int \<Rightarrow> int" where
  "may_override_num_blocks c n = (case num_gpu_blocks_override c of None \<Rightarrow> n | Some k \<Rightarrow> k)"

definition get_num_blocks :: "vconfig \<Rightarrow> int \<Rightarrow> int \<Rightarrow> int \<Rightarrow> int res" where
  "get_num_blocks c num_layers avail page_size =
     rbind (guard ZeroDivisionError (page_size \<noteq> 0)) (\<lambda>_.
     rbind (guard ZeroDivisionError (num_layers \<noteq> 0)) (\<lambda>_.
       Inr (may_override_num_blocks c (max (avail div page_size div num_layers) 0))))"

definition get_uniform_page_size :: "(torch_dtype \<Rightarrow> int) \<Rightarrow> kv_spec list \<Rightarrow> int res" where
  "get_uniform_page_size ds specs =
     rbind (rmap (page_size_bytes ds) specs) (\<lambda>ps.
     rbind (guard AssertionError (card (set ps) = 1)) (\<lambda>_. Inr (hd ps)))"


subsection \<open>Uniform page sizes\<close>

fun set_block_size :: "int \<Rightarrow> layer_spec \<Rightarrow> layer_spec" where
  "set_block_size n (FullAttention s) = FullAttention (s\<lparr>attn_block_size := n\<rparr>)"
| "set_block_size n (TQFullAttention s x y) = TQFullAttention (s\<lparr>attn_block_size := n\<rparr>) x y"
| "set_block_size n (MLAAttention s m) = MLAAttention (s\<lparr>attn_block_size := n\<rparr>) m"
| "set_block_size n (HiddenStateCache s m) = HiddenStateCache (s\<lparr>attn_block_size := n\<rparr>) m"
| "set_block_size n (RSWA s x) = RSWA (s\<lparr>attn_block_size := n\<rparr>) x"
| "set_block_size n (SinkFullAttention s x) = SinkFullAttention (s\<lparr>attn_block_size := n\<rparr>) x"
| "set_block_size n (ChunkedLocalAttention s x) = ChunkedLocalAttention (s\<lparr>attn_block_size := n\<rparr>) x"
| "set_block_size n (SlidingWindow s) = SlidingWindow (s\<lparr>attn_block_size := n\<rparr>)"
| "set_block_size n (TQSlidingWindow s x y) = TQSlidingWindow (s\<lparr>attn_block_size := n\<rparr>) x y"
| "set_block_size n (SlidingWindowMLA s m) = SlidingWindowMLA (s\<lparr>attn_block_size := n\<rparr>) m"
| "set_block_size n (CircularBuffer s x) = CircularBuffer (s\<lparr>attn_block_size := n\<rparr>) x"
| "set_block_size n (Mamba m) = Mamba (m\<lparr>mamba_block_size := n\<rparr>)"
| "set_block_size n (EncoderOnlyAttention s) = EncoderOnlyAttention (s\<lparr>attn_block_size := n\<rparr>)"
| "set_block_size n (CrossAttention s) = CrossAttention (s\<lparr>attn_block_size := n\<rparr>)"

fun set_padded :: "int \<Rightarrow> layer_spec \<Rightarrow> layer_spec" where
  "set_padded q (FullAttention s) = FullAttention (s\<lparr>page_size_padded := Some q\<rparr>)"
| "set_padded q (TQFullAttention s x y) = TQFullAttention (s\<lparr>page_size_padded := Some q\<rparr>) x y"
| "set_padded q (MLAAttention s m) = MLAAttention (s\<lparr>page_size_padded := Some q\<rparr>) m"
| "set_padded q (HiddenStateCache s m) = HiddenStateCache (s\<lparr>page_size_padded := Some q\<rparr>) m"
| "set_padded q (RSWA s x) = RSWA (s\<lparr>page_size_padded := Some q\<rparr>) x"
| "set_padded q (SinkFullAttention s x) = SinkFullAttention (s\<lparr>page_size_padded := Some q\<rparr>) x"
| "set_padded q (ChunkedLocalAttention s x) = ChunkedLocalAttention (s\<lparr>page_size_padded := Some q\<rparr>) x"
| "set_padded q (SlidingWindow s) = SlidingWindow (s\<lparr>page_size_padded := Some q\<rparr>)"
| "set_padded q (TQSlidingWindow s x y) = TQSlidingWindow (s\<lparr>page_size_padded := Some q\<rparr>) x y"
| "set_padded q (SlidingWindowMLA s m) = SlidingWindowMLA (s\<lparr>page_size_padded := Some q\<rparr>) m"
| "set_padded q (CircularBuffer s x) = CircularBuffer (s\<lparr>page_size_padded := Some q\<rparr>) x"
| "set_padded q (Mamba m) = Mamba (m\<lparr>mamba_padded := Some q\<rparr>)"
| "set_padded q (EncoderOnlyAttention s) = EncoderOnlyAttention (s\<lparr>page_size_padded := Some q\<rparr>)"
| "set_padded q (CrossAttention s) = CrossAttention (s\<lparr>page_size_padded := Some q\<rparr>)"

fun alignment_of :: "layer_spec \<Rightarrow> int option" where
  "alignment_of (MLAAttention s m) = alignment m"
| "alignment_of (HiddenStateCache s m) = alignment m"
| "alignment_of (SlidingWindowMLA s m) = alignment m"
| "alignment_of _ = None"

definition apply_alignment_padding :: "(torch_dtype \<Rightarrow> int) \<Rightarrow> layer_spec \<Rightarrow> layer_spec res" where
  "apply_alignment_padding ds s =
     (case alignment_of s of
        None \<Rightarrow> Inr s
      | Some al \<Rightarrow>
          rbind (real_page_size_bytes ds s) (\<lambda>actual.
          rbind (round_up actual al) (\<lambda>q. Inr (if q \<noteq> actual then set_padded q s else s))))"

text \<open>\<open>dataclasses.replace\<close> runs \<open>__post_init__\<close> again.\<close>

definition replace_block_size :: "(torch_dtype \<Rightarrow> int) \<Rightarrow> int \<Rightarrow> layer_spec \<Rightarrow> layer_spec res" where
  "replace_block_size ds n s = apply_alignment_padding ds (set_block_size n s)"

definition replace_padded :: "(torch_dtype \<Rightarrow> int) \<Rightarrow> int \<Rightarrow> layer_spec \<Rightarrow> layer_spec res" where
  "replace_padded ds q s = apply_alignment_padding ds (set_padded q s)"

definition indexes_by_stride :: "layer_spec \<Rightarrow> bool" where
  "indexes_by_stride s \<longleftrightarrow> (case attn_of s of None \<Rightarrow> False | Some a \<Rightarrow> indexes_kv_by_block_stride a)"

text \<open>The new specification of a layer whose page is smaller than the largest.\<close>

definition enlarge_layer :: "(torch_dtype \<Rightarrow> int) \<Rightarrow> int \<Rightarrow> int \<Rightarrow> layer_spec \<Rightarrow> layer_spec res" where
  "enlarge_layer ds largest pg s =
     (case s of
        Mamba m \<Rightarrow> replace_padded ds largest s
      | _ \<Rightarrow>
          rbind (guard ZeroDivisionError (pg \<noteq> 0)) (\<lambda>_.
            if largest mod pg = 0 then replace_block_size ds (layer_block_size s * (largest div pg)) s
            else if indexes_by_stride s then replace_padded ds largest s
            else Inl NotImplementedError))"

definition unify_layer :: "(torch_dtype \<Rightarrow> int) \<Rightarrow> string list \<Rightarrow> int \<Rightarrow> string \<times> layer_spec \<Rightarrow> (string \<times> layer_spec) res" where
  "unify_layer ds skip largest = (\<lambda>(name, s).
     if name \<in> set skip then Inr (name, s)
     else
       rbind (layer_page_size ds s) (\<lambda>pg.
         if pg = largest then Inr (name, s)
         else
           rbind (enlarge_layer ds largest pg s) (\<lambda>s'.
           rbind (layer_page_size ds s') (\<lambda>pg'.
           rbind (guard AssertionError (pg' = largest)) (\<lambda>_. Inr (name, s'))))))"

definition unify_kv_cache_spec_page_size ::
  "(torch_dtype \<Rightarrow> int) \<Rightarrow> (string \<times> layer_spec) list \<Rightarrow> string list \<Rightarrow> (string \<times> layer_spec) list res" where
  "unify_kv_cache_spec_page_size ds specs skip =
     rbind (rmap (\<lambda>(n, s). layer_page_size ds s) (filter (\<lambda>(n, s). n \<notin> set skip) specs)) (\<lambda>ps.
       if card (set ps) \<le> 1 then Inr specs
       else rbind (py_max ps) (\<lambda>largest. rmap (unify_layer ds skip largest) specs))"


subsection \<open>Groups of layers\<close>

text \<open>\<open>same_type_layers\<close>: the layers of each specification, in the order of first appearance.\<close>

fun add_layer :: "string \<times> layer_spec \<Rightarrow> (layer_spec \<times> string list) list \<Rightarrow> (layer_spec \<times> string list) list" where
  "add_layer (n, s) [] = [(s, [n])]"
| "add_layer (n, s) ((s', ns) # gs) = (if s' = s then (s', ns @ [n]) # gs else (s', ns) # add_layer (n, s) gs)"

definition same_type_layers :: "(string \<times> layer_spec) list \<Rightarrow> (layer_spec \<times> string list) list" where
  "same_type_layers specs = fold add_layer specs []"

text \<open>\<open>xs[i::k]\<close> for \<open>i < k\<close>.\<close>

definition py_stride :: "nat \<Rightarrow> nat \<Rightarrow> 'a list \<Rightarrow> 'a list" where
  "py_stride i k xs = map ((!) xs) (filter (\<lambda>j. j mod k = i) [0..<length xs])"

definition split_layers :: "nat \<Rightarrow> string list \<Rightarrow> string list list" where
  "split_layers group_size layers =
     (let num_groups = (length layers + group_size - 1) div group_size in
      map (\<lambda>i. py_stride i num_groups layers) [0..<num_groups])"

definition layer_group_size :: "nat list \<Rightarrow> nat" where
  "layer_group_size counts =
     (let least = fold min (tl counts) (hd counts); most = fold max (tl counts) (hd counts) in
      if 2 * most < 3 * least then most else least)"

definition group_layers :: "(string \<times> layer_spec) list \<Rightarrow> string list list res" where
  "group_layers specs =
     (let same = same_type_layers specs; counts = map (\<lambda>(s, ns). length ns) same in
      rbind (guard ValueError (counts \<noteq> [])) (\<lambda>_.
        Inr (concat (map (\<lambda>(s, ns). split_layers (layer_group_size counts) ns) same))))"

text \<open>\<open>_approximate_gcd\<close>: the chunk size of least total padding, by brute force.\<close>

definition total_pad :: "int list \<Rightarrow> int \<Rightarrow> int" where
  "total_pad xs d = sum_list (map (\<lambda>x. (d - x mod d) mod d) xs)"

definition best_chunk_step :: "int list \<Rightarrow> int \<Rightarrow> int \<times> int option \<Rightarrow> int \<times> int option" where
  "best_chunk_step xs d = (\<lambda>(best_d, best_pad).
     let pad = total_pad xs d in
     if (case best_pad of None \<Rightarrow> True | Some b \<Rightarrow> pad < b \<or> (pad = b \<and> d > best_d))
     then (d, Some pad) else (best_d, best_pad))"

definition approximate_gcd :: "int list \<Rightarrow> int option \<Rightarrow> int res" where
  "approximate_gcd xs lower =
     rbind (guard ValueError (xs \<noteq> [])) (\<lambda>_.
     rbind (guard ValueError (\<not> list_ex (\<lambda>x. x \<le> 0) xs)) (\<lambda>_.
     rbind (py_max xs) (\<lambda>max_d.
       let min_d = max 1 (case lower of None \<Rightarrow> 1 | Some l \<Rightarrow> l) in
       Inr (if min_d > max_d then min_d
            else fst (fold (best_chunk_step xs) [min_d..max_d] (min_d, None))))))"


subsection \<open>Block sizes of the scheduler and of hashing\<close>

fun group_block_size :: "vconfig \<Rightarrow> kv_spec \<Rightarrow> int" where
  "group_block_size c (Layer s) =
     (if attn_of s \<noteq> None then layer_block_size s * dcp_size c else layer_block_size s)"
| "group_block_size c (UniformType bs ss) = bs"

fun diverging_mamba :: "vconfig \<Rightarrow> kv_spec \<Rightarrow> bool" where
  "diverging_mamba c (Layer (Mamba m)) \<longleftrightarrow> mamba_block_size m \<noteq> cache_block_size c"
| "diverging_mamba c _ \<longleftrightarrow> False"

definition resolve_kv_cache_block_sizes :: "vconfig \<Rightarrow> kv_spec list \<Rightarrow> (int \<times> int) res" where
  "resolve_kv_cache_block_sizes c groups =
     (if length groups \<le> 1 then
        let bs = cache_block_size c * dcp_size c in Inr (bs, bs)
      else
        let sizes = map (group_block_size c) groups; sched = fold lcm sizes 1 in
        if \<not> (enable_prefix_caching c \<or> connector_enabled c) then Inr (sched, sched)
        else if list_ex (diverging_mamba c) groups then Inr (sched, sched)
        else
          let cacheable = map snd (filter (\<lambda>(g, n). prefix_cacheable g) (zip groups sizes));
              hashing = (if cacheable \<noteq> [] then cacheable else sizes);
              unit = (case prefix_match_unit c of Some r \<Rightarrow> r | None \<Rightarrow> fold gcd hashing 0)
          in rbind (guard ZeroDivisionError (unit \<noteq> 0)) (\<lambda>_.
             rbind (guard ValueError (\<not> list_ex (\<lambda>n. n mod unit \<noteq> 0) hashing)) (\<lambda>_. Inr (sched, unit))))"

end
