(* ===== verification/Sizing_Lemmas.thy ===== *)
theory Sizing_Lemmas
  imports KV_Sizing "HOL-Library.Multiset"
begin

text \<open>
  Facts about sizing: memory grows with the length of the context, the binary search, uniform pages,
  groups of layers.
\<close>

subsection \<open>Memory grows with the context\<close>

definition mono_res :: "int res \<Rightarrow> int res \<Rightarrow> bool" where
  "mono_res r r' \<longleftrightarrow> (case r of Inl e \<Rightarrow> r' = Inl e | Inr m \<Rightarrow> (\<exists>m'. r' = Inr m' \<and> m \<le> m'))"

lemma mono_res_simps [simp]:
  "mono_res (Inl e) r \<longleftrightarrow> r = Inl e"
  "mono_res (Inr m) (Inr m') \<longleftrightarrow> m \<le> m'"
  "\<not> mono_res (Inr m) (Inl e)"
  "mono_res r r"
  by (auto simp: mono_res_def split: sum.splits)

lemma mono_bind:
  assumes "mono_res r r'" "\<And>x y. r = Inr x \<Longrightarrow> r' = Inr y \<Longrightarrow> x \<le> y \<Longrightarrow> mono_res (f x) (f' y)"
  shows "mono_res (rbind r f) (rbind r' f')"
  using assms by (cases r; cases r') auto

lemma mono_bind_same: "(\<And>x. r = Inr x \<Longrightarrow> mono_res (f x) (f' x)) \<Longrightarrow> mono_res (rbind r f) (rbind r f')"
  by (cases r) auto

lemma cdiv_mono: "0 < b \<Longrightarrow> a \<le> a' \<Longrightarrow> mono_res (cdiv a b) (cdiv a' b)"
  by (simp add: cdiv_def zdiv_mono1_neg)

definition layer_ok :: "(torch_dtype \<Rightarrow> int) \<Rightarrow> layer_spec \<Rightarrow> bool" where
  "layer_ok ds s \<longleftrightarrow> 0 < layer_block_size s \<and>
     (case layer_page_size ds s of Inl e \<Rightarrow> True | Inr pg \<Rightarrow> 0 < pg)"

fun spec_ok :: "(torch_dtype \<Rightarrow> int) \<Rightarrow> kv_spec \<Rightarrow> bool" where
  "spec_ok ds (Layer s) = layer_ok ds s"
| "spec_ok ds (UniformType bs ss) = list_all (\<lambda>(n, s). layer_ok ds s) ss"

abbreviation at_len :: "vconfig \<Rightarrow> int \<Rightarrow> vconfig" where
  "at_len c len \<equiv> c\<lparr>max_model_len := len\<rparr>"

lemma layer_okD:
  assumes "layer_ok ds s"
  shows "0 < layer_block_size s" "layer_page_size ds s = Inr pg \<Longrightarrow> 0 < pg"
  using assms by (auto simp: layer_ok_def)

lemma times_page_mono:
  assumes "mono_res r r'" "layer_ok ds s"
  shows "mono_res (rbind r (\<lambda>n. rbind (layer_page_size ds s) (\<lambda>pg. Inr (n * pg))))
    (rbind r' (\<lambda>n. rbind (layer_page_size ds s) (\<lambda>pg. Inr (n * pg))))"
  using layer_okD(2)[OF assms(2)]
  by (intro mono_bind[OF assms(1)] mono_bind_same) (simp add: mult_right_mono less_imp_le)

lemma full_memory_mono:
  assumes "layer_ok ds s" "len \<le> len'"
  shows "mono_res (full_memory ds (at_len c len) s) (full_memory ds (at_len c len') s)"
proof -
  have "mono_res (if dcp_size c > 1 then cdiv len (dcp_size c) else Inr len)
      (if dcp_size c > 1 then cdiv len' (dcp_size c) else Inr len')"
    using assms(2) by (simp add: cdiv_mono)
  then have "mono_res (rbind (if dcp_size c > 1 then cdiv len (dcp_size c) else Inr len) (\<lambda>len. cdiv len (layer_block_size s)))
      (rbind (if dcp_size c > 1 then cdiv len' (dcp_size c) else Inr len') (\<lambda>len. cdiv len (layer_block_size s)))"
    using layer_okD(1)[OF assms(1)] by (intro mono_bind) (simp_all add: cdiv_mono)
  from times_page_mono[OF this assms(1)] show ?thesis by (simp add: full_memory_def rbind_assoc split: if_splits)
qed

lemma sliding_memory_mono:
  assumes "layer_ok ds s" "len \<le> len'"
  shows "mono_res (sliding_memory ds (at_len c len) w s) (sliding_memory ds (at_len c len') w s)"
proof -
  have "mono_res (sliding_admission_blocks (layer_block_size s) w k len) (sliding_admission_blocks (layer_block_size s) w k len')" for k
    using assms(2) layer_okD(1)[OF assms(1)]
    by (auto simp: sliding_admission_blocks_def intro!: mono_bind cdiv_mono)
  from times_page_mono[OF this assms(1)] show ?thesis
    unfolding sliding_memory_def by (auto intro!: mono_bind_same)
qed

lemma mamba_memory_mono:
  assumes "layer_ok ds (Mamba m)" "len \<le> len'"
  shows "mono_res (mamba_memory ds (at_len c len) m) (mamba_memory ds (at_len c len') m)"
proof -
  have "mono_res (rbind (cdiv len (mamba_block_size m)) (\<lambda>n. rbind (layer_page_size ds (Mamba m)) (\<lambda>pg. Inr ((n + num_speculative_blocks m) * pg))))
      (rbind (cdiv len' (mamba_block_size m)) (\<lambda>n. rbind (layer_page_size ds (Mamba m)) (\<lambda>pg. Inr ((n + num_speculative_blocks m) * pg))))"
    using assms(2) layer_okD[OF assms(1)]
    by (intro mono_bind mono_bind_same cdiv_mono) (auto intro!: mult_right_mono)
  then show ?thesis by (simp add: mamba_memory_def)
qed

lemma layer_memory_mono:
  assumes ok: "layer_ok ds s" and len: "len \<le> len'"
  shows "mono_res (layer_memory ds (at_len c len) s) (layer_memory ds (at_len c len') s)"
proof -
  note full = full_memory_mono[OF ok len, of c] and sliding = sliding_memory_mono[OF ok len, of c]
  show ?thesis
  proof (cases s)
    case (ChunkedLocalAttention a chunk)
    have "mono_res (chunked_admission_blocks (attn_block_size a) chunk k len) (chunked_admission_blocks (attn_block_size a) chunk k len')" for k
      using len layer_okD(1)[OF ok] by (simp add: chunked_admission_blocks_def ChunkedLocalAttention cdiv_mono)
    from times_page_mono[OF this ok] show ?thesis by (simp add: ChunkedLocalAttention chunked_memory_def)
  next
    case (Mamba m)
    then show ?thesis using mamba_memory_mono[of ds m len len' c] ok len by simp
  qed (use full sliding in \<open>simp_all add: cross_memory_def circular_memory_def\<close>)
qed

lemma rmap_mono:
  assumes "\<And>x. x \<in> set xs \<Longrightarrow> mono_res (f x) (g x)"
  shows "case rmap f xs of Inl e \<Rightarrow> rmap g xs = Inl e
    | Inr ys \<Rightarrow> (\<exists>zs. rmap g xs = Inr zs \<and> list_all2 (\<le>) ys zs)"
  using assms
proof (induction xs)
  case (Cons x xs)
  have x: "mono_res (f x) (g x)" using Cons.prems by simp
  show ?case
  proof (cases "f x")
    case (Inl e)
    then show ?thesis using x by simp
  next
    case (Inr y)
    then obtain z where z: "g x = Inr z" "y \<le> z" using x by (auto simp: mono_res_def)
    have "case rmap f xs of Inl e \<Rightarrow> rmap g xs = Inl e | Inr ys \<Rightarrow> (\<exists>zs. rmap g xs = Inr zs \<and> list_all2 (\<le>) ys zs)"
      using Cons by simp
    then show ?thesis using Inr z by (cases "rmap f xs") auto
  qed
qed simp

lemma rmap_bind_mono:
  assumes "\<And>x. x \<in> set xs \<Longrightarrow> mono_res (f x) (g x)"
    and "\<And>ys zs. list_all2 (\<le>) ys zs \<Longrightarrow> mono_res (h ys) (h zs)"
  shows "mono_res (rbind (rmap f xs) h) (rbind (rmap g xs) h)"
  using rmap_mono[of xs f g] assms by (cases "rmap f xs") auto

lemma fold_max_mono: "list_all2 (\<le>) xs ys \<Longrightarrow> a \<le> b \<Longrightarrow> fold max xs (a::int) \<le> fold max ys b"
  by (induction arbitrary: a b rule: list_all2_induct) (auto intro: max.mono)

lemma py_max_mono: "list_all2 (\<le>) xs ys \<Longrightarrow> mono_res (py_max xs) (py_max ys)"
  by (cases xs; cases ys) (auto simp: py_max_def fold_max_mono)

lemma sum_list_mono2: "list_all2 (\<le>) xs ys \<Longrightarrow> sum_list xs \<le> (sum_list ys :: int)"
  by (induction rule: list_all2_induct) simp_all

lemma uniform_page_nonneg:
  assumes "spec_ok ds (UniformType bs ss)" "page_size_bytes ds (UniformType bs ss) = Inr pg"
  shows "0 \<le> pg"
proof -
  have "rmap (\<lambda>(n, s). layer_page_size ds s) xs = Inr ps \<Longrightarrow> list_all (\<lambda>(n, s). layer_ok ds s) xs \<Longrightarrow> 0 \<le> sum_list ps" for xs ps
  proof (induction xs arbitrary: ps)
    case (Cons x xs)
    obtain n s where x: "x = (n, s)" by fastforce
    then show ?case using Cons layer_okD(2)[of ds s] by fastforce
  qed simp
  then show ?thesis using assms by auto
qed

lemma spec_memory_mono:
  assumes ok: "spec_ok ds g" and len: "len \<le> len'"
  shows "mono_res (spec_memory ds (at_len c len) g) (spec_memory ds (at_len c len') g)"
proof (cases g)
  case (Layer s)
  then show ?thesis using layer_memory_mono[OF _ len] ok by simp
next
  case (UniformType bs ss)
  have "mono_res (layer_pages ds (at_len c len) x) (layer_pages ds (at_len c len') x)" if x: "x \<in> set ss" for x
  proof -
    obtain n s where ns: "x = (n, s)" by fastforce
    then have s: "layer_ok ds s" using ok x by (auto simp: UniformType list_all_iff)
    show ?thesis
      unfolding layer_pages_def ns prod.case
      using layer_memory_mono[OF s len, of c] layer_okD(2)[OF s]
      by (intro mono_bind mono_bind_same cdiv_mono)
  qed
  then show ?thesis
    using ok uniform_page_nonneg[of ds bs ss]
    unfolding UniformType spec_memory.simps
    by (intro rmap_bind_mono mono_bind py_max_mono mono_bind_same) (auto intro!: mult_right_mono)
qed

lemma max_memory_mono:
  assumes "\<forall>g \<in> set specs. spec_ok ds g" "len \<le> len'"
  shows "mono_res (max_memory_usage_bytes ds (at_len c len) specs) (max_memory_usage_bytes ds (at_len c len') specs)"
  unfolding max_memory_usage_bytes_def
  using assms by (intro rmap_bind_mono spec_memory_mono) (auto simp: sum_list_mono2)


subsection \<open>The binary search\<close>

text \<open>A length fits when the memory it needs is computed and available.\<close>

definition fits_len :: "(torch_dtype \<Rightarrow> int) \<Rightarrow> kv_spec list \<Rightarrow> int \<Rightarrow> vconfig \<Rightarrow> int \<Rightarrow> bool" where
  "fits_len ds specs avail c len \<longleftrightarrow>
     (case max_memory_usage_bytes ds (at_len c len) specs of Inl e \<Rightarrow> False | Inr m \<Rightarrow> m \<le> avail)"

lemma fits_in_memory_eq:
  assumes "\<forall>g \<in> set specs. spec_ok ds g" "max_memory_usage_bytes ds (at_len c 1) specs = Inr m1" "1 \<le> len"
  shows "fits_in_memory ds specs avail len (at_len c l) = Inr (fits_len ds specs avail c len, at_len c len)"
proof -
  have "mono_res (max_memory_usage_bytes ds (at_len c 1) specs) (max_memory_usage_bytes ds (at_len c len) specs)"
    by (rule max_memory_mono[OF assms(1,3)])
  then obtain m where "max_memory_usage_bytes ds (at_len c len) specs = Inr m"
    using assms(2) by (auto simp: mono_res_def)
  then show ?thesis by (simp add: fits_in_memory_def fits_len_def Let_def)
qed

lemma fits_len_antimono:
  assumes "\<forall>g \<in> set specs. spec_ok ds g" "len \<le> len'" "fits_len ds specs avail c len'"
  shows "fits_len ds specs avail c len"
  using max_memory_mono[OF assms(1,2), of c] assms(3)
  by (cases "max_memory_usage_bytes ds (at_len c len) specs") (auto simp: fits_len_def mono_res_def)

lemma search_len_ok:
  assumes specs: "\<forall>g \<in> set specs. spec_ok ds g" "max_memory_usage_bytes ds (at_len c 1) specs = Inr m1"
    and "1 \<le> left" "left \<le> best + 1" "1 \<le> best" "fits_len ds specs avail c best" "best \<le> limit"
    and "right \<le> limit" "\<forall>n. right < n \<longrightarrow> n \<le> limit \<longrightarrow> \<not> fits_len ds specs avail c n"
  shows "\<exists>r l. search_len ds specs avail left right best (at_len c l0) = Inr (r, at_len c l) \<and>
    1 \<le> r \<and> r \<le> limit \<and> fits_len ds specs avail c r \<and> (\<forall>n. r < n \<longrightarrow> n \<le> limit \<longrightarrow> \<not> fits_len ds specs avail c n)"
  using assms(3-9)
proof (induction "nat (right - left + 1)" arbitrary: left right best l0 rule: less_induct)
  case less
  note step = search_len.simps[of ds specs avail left right best "at_len c l0"]
  show ?case
  proof (cases "left \<le> right")
    case False
    then show ?thesis using less.prems step by (intro exI[of _ best] exI[of _ l0]) auto
  next
    case True
    define mid where "mid = (left + right) div 2"
    have mid: "left \<le> mid" "mid \<le> right" using True by (auto simp: mid_def)
    have f: "fits_in_memory ds specs avail mid (at_len c l0) = Inr (fits_len ds specs avail c mid, at_len c mid)"
      using mid less.prems(1) by (intro fits_in_memory_eq[OF specs]) simp
    show ?thesis
    proof (cases "fits_len ds specs avail c mid")
      case fit: True
      have "nat (right - (mid + 1) + 1) < nat (right - left + 1)" using mid by simp
      from less.hyps[OF this, of mid mid] show ?thesis
        using fit mid less.prems True step f by (simp add: mid_def[symmetric])
    next
      case nofit: False
      have "\<not> fits_len ds specs avail c n" if "mid - 1 < n" "n \<le> limit" for n
        using fits_len_antimono[OF specs(1), of mid n avail c] nofit that by auto
      moreover have "nat ((mid - 1) - left + 1) < nat (right - left + 1)" using mid by simp
      moreover note less.hyps[of "mid - 1" left best mid]
      ultimately show ?thesis
        using nofit mid less.prems True step f by (simp add: mid_def[symmetric])
    qed
  qed
qed

lemma estimate_ok:
  assumes specs: "\<forall>g \<in> set specs. spec_ok ds g" "max_memory_usage_bytes ds (at_len c 1) specs = Inr m1"
    and top: "1 \<le> max_model_len c"
  shows "\<exists>r. estimate_max_model_len ds specs avail c = Inr (r, c) \<and> 0 \<le> r \<and> r \<le> max_model_len c \<and>
    (0 < r \<longrightarrow> fits_len ds specs avail c r) \<and> (\<forall>n. r < n \<longrightarrow> n \<le> max_model_len c \<longrightarrow> \<not> fits_len ds specs avail c n)"
proof -
  have c: "at_len c (max_model_len c) = c" by simp
  have f: "fits_in_memory ds specs avail 1 c = Inr (fits_len ds specs avail c 1, at_len c 1)"
    using fits_in_memory_eq[OF specs, of 1 avail "max_model_len c"] by simp
  show ?thesis
  proof (cases "fits_len ds specs avail c 1")
    case False
    have "\<not> fits_len ds specs avail c n" if "0 < n" for n
      using fits_len_antimono[OF specs(1), of 1 n avail c] False that by auto
    then show ?thesis using f False top by (auto simp: estimate_max_model_len_def Let_def)
  next
    case True
    obtain r l where "search_len ds specs avail 1 (max_model_len c) 1 (at_len c 1) = Inr (r, at_len c l)"
      "1 \<le> r" "r \<le> max_model_len c" "fits_len ds specs avail c r"
      "\<forall>n. r < n \<longrightarrow> n \<le> max_model_len c \<longrightarrow> \<not> fits_len ds specs avail c n"
      using search_len_ok[OF specs, of 1 1 avail "max_model_len c" "max_model_len c" 1] True top by auto
    then show ?thesis using f True by (intro exI[of _ r]) (simp add: estimate_max_model_len_def Let_def)
  qed
qed


subsection \<open>Uniform pages\<close>

lemma rmap_Inr: "rmap f xs = Inr ys \<longleftrightarrow> list_all2 (\<lambda>x y. f x = Inr y) xs ys"
proof (induction xs arbitrary: ys)
  case (Cons x xs)
  then show ?case by (cases ys) auto
qed auto

lemma unify_layer_ok:
  assumes "unify_layer ds skip largest x = Inr y"
  shows "fst y = fst x" "fst x \<in> set skip \<Longrightarrow> snd y = snd x"
    "fst x \<notin> set skip \<Longrightarrow> layer_page_size ds (snd y) = Inr largest"
  using assms by (cases x; auto simp: unify_layer_def split: if_splits)+

lemma unify_ok:
  assumes run: "unify_kv_cache_spec_page_size ds specs skip = Inr specs'"
  shows "map fst specs' = map fst specs"
    and "\<exists>pg. \<forall>(n, s) \<in> set specs'. n \<notin> set skip \<longrightarrow> layer_page_size ds s = Inr pg"
    and "\<forall>((n, s), (n', s')) \<in> set (zip specs specs'). n \<in> set skip \<longrightarrow> s' = s"
proof -
  let ?in = "filter (\<lambda>(n, s). n \<notin> set skip) specs"
  obtain ps where ps: "rmap (\<lambda>(n, s). layer_page_size ds s) ?in = Inr ps"
    using run by (auto simp: unify_kv_cache_spec_page_size_def)
  then have psz: "list_all2 (\<lambda>(n, s) p. layer_page_size ds s = Inr p) ?in ps"
    by (simp add: rmap_Inr case_prod_beta')
  show "map fst specs' = map fst specs" and "\<exists>pg. \<forall>(n, s) \<in> set specs'. n \<notin> set skip \<longrightarrow> layer_page_size ds s = Inr pg"
    and "\<forall>((n, s), (n', s')) \<in> set (zip specs specs'). n \<in> set skip \<longrightarrow> s' = s"
  proof (atomize (full), cases "card (set ps) \<le> 1")
    case True
    then have same: "specs' = specs" using run ps by (simp add: unify_kv_cache_spec_page_size_def)
    obtain pg where pg: "set ps \<subseteq> {pg}"
    proof (cases "ps = []")
      case False
      then have "0 < card (set ps)" by (simp add: card_gt_0_iff)
      then have "card (set ps) = 1" using True by simp
      then show thesis using that by (metis card_1_singletonE subset_refl)
    qed (use that in auto)
    have "layer_page_size ds s = Inr pg" if "(n, s) \<in> set specs" "n \<notin> set skip" for n s
    proof -
      have "(n, s) \<in> set ?in" using that by simp
      then obtain i where i: "i < length ?in" "?in ! i = (n, s)" by (meson in_set_conv_nth)
      then have "layer_page_size ds s = Inr (ps ! i)" "ps ! i \<in> set ps"
        using list_all2_nthD[OF psz i(1)] list_all2_lengthD[OF psz] by auto
      then show ?thesis using pg by auto
    qed
    moreover have "\<forall>((n, s), (n', s')) \<in> set (zip specs specs). n \<in> set skip \<longrightarrow> s' = s"
      by (auto simp: set_zip) (metis prod.inject)
    ultimately show "map fst specs' = map fst specs \<and>
      (\<exists>pg. \<forall>(n, s) \<in> set specs'. n \<notin> set skip \<longrightarrow> layer_page_size ds s = Inr pg) \<and>
      (\<forall>((n, s), (n', s')) \<in> set (zip specs specs'). n \<in> set skip \<longrightarrow> s' = s)"
      unfolding same by fast
  next
    case False
    then obtain largest where "rmap (unify_layer ds skip largest) specs = Inr specs'"
      using run ps by (auto simp: unify_kv_cache_spec_page_size_def)
    then have all: "list_all2 (\<lambda>x y. unify_layer ds skip largest x = Inr y) specs specs'" by (simp add: rmap_Inr)
    have nth: "unify_layer ds skip largest (specs ! i) = Inr (specs' ! i)" if "i < length specs" for i
      using all that by (simp add: list_all2_conv_all_nth)
    have len: "length specs' = length specs" using all by (simp add: list_all2_conv_all_nth)
    have u: "fst (specs' ! i) = fst (specs ! i)" "fst (specs ! i) \<in> set skip \<Longrightarrow> snd (specs' ! i) = snd (specs ! i)"
      "fst (specs ! i) \<notin> set skip \<Longrightarrow> layer_page_size ds (snd (specs' ! i)) = Inr largest" if "i < length specs" for i
      using unify_layer_ok[OF nth[OF that]] by blast+
    have "map fst specs' = map fst specs" using u(1) len by (simp add: list_eq_iff_nth_eq)
    moreover have "\<forall>(n, s) \<in> set specs'. n \<notin> set skip \<longrightarrow> layer_page_size ds s = Inr largest"
      using u(1,3) len by (fastforce simp: in_set_conv_nth)
    moreover have "\<forall>((n, s), (n', s')) \<in> set (zip specs specs'). n \<in> set skip \<longrightarrow> s' = s"
    proof (clarsimp simp: set_zip)
      fix n s n' s' i
      assume "(n, s) = specs ! i" "(n', s') = specs' ! i" "i < length specs" "n \<in> set skip"
      then show "s' = s" using u(2)[of i] by (metis fst_conv snd_conv)
    qed
    ultimately show "map fst specs' = map fst specs \<and>
      (\<exists>pg. \<forall>(n, s) \<in> set specs'. n \<notin> set skip \<longrightarrow> layer_page_size ds s = Inr pg) \<and>
      (\<forall>((n, s), (n', s')) \<in> set (zip specs specs'). n \<in> set skip \<longrightarrow> s' = s)" by blast
  qed
qed


subsection \<open>Groups of layers\<close>

lemma add_layer_mset:
  "mset (concat (map snd (add_layer x gs))) = add_mset (fst x) (mset (concat (map snd gs)))"
  by (induction x gs rule: add_layer.induct) auto

lemma add_layer_inv:
  assumes "\<forall>(s, ns) \<in> set gs. ns \<noteq> [] \<and> (\<forall>n \<in> set ns. (n, s) \<in> S)"
  shows "\<forall>(s, ns) \<in> set (add_layer x gs). ns \<noteq> [] \<and> (\<forall>n \<in> set ns. (n, s) \<in> insert x S)"
  using assms by (induction x gs rule: add_layer.induct) auto

lemma same_type_layers_ok:
  "mset (concat (map snd (same_type_layers specs))) = mset (map fst specs)"
  "\<forall>(s, ns) \<in> set (same_type_layers specs). ns \<noteq> [] \<and> (\<forall>n \<in> set ns. (n, s) \<in> set specs)"
proof -
  have "mset (concat (map snd (fold add_layer xs gs))) = mset (map fst xs) + mset (concat (map snd gs))" for xs gs
    by (induction xs arbitrary: gs) (simp_all add: add_layer_mset)
  then show "mset (concat (map snd (same_type_layers specs))) = mset (map fst specs)"
    by (simp add: same_type_layers_def)
  have "\<forall>(s, ns) \<in> set (fold add_layer xs gs). ns \<noteq> [] \<and> (\<forall>n \<in> set ns. (n, s) \<in> S \<union> set xs)"
    if "\<forall>(s, ns) \<in> set gs. ns \<noteq> [] \<and> (\<forall>n \<in> set ns. (n, s) \<in> S)" for xs gs S
    using that
  proof (induction xs arbitrary: gs S)
    case (Cons x xs)
    from Cons.IH[OF add_layer_inv[OF Cons.prems, of x]] show ?case by simp
  qed simp
  from this[of "[]" "{}" specs] show "\<forall>(s, ns) \<in> set (same_type_layers specs). ns \<noteq> [] \<and> (\<forall>n \<in> set ns. (n, s) \<in> set specs)"
    by (simp add: same_type_layers_def)
qed

lemma mset_classes:
  assumes "0 < k"
  shows "mset (concat (map (\<lambda>i. filter (\<lambda>j. j mod k = i) js) [0..<k])) = mset (js :: nat list)"
proof (induction js)
  case (Cons j js)
  have "mset (concat (map (\<lambda>i. filter (\<lambda>j. j mod k = i) (j # js)) [0..<n])) =
      (if j mod k < n then {#j#} else {#}) + mset (concat (map (\<lambda>i. filter (\<lambda>j. j mod k = i) js) [0..<n]))" for n
    by (induction n) (auto simp: less_Suc_eq)
  from this[of k] show ?case using Cons assms by simp
qed simp

lemma stride_length:
  assumes "length xs \<le> k * g" "0 < k"
  shows "length (py_stride i k xs) \<le> g"
proof -
  let ?J = "{j \<in> set [0..<length xs]. j mod k = i}"
  have "inj_on (\<lambda>j. j div k) ?J"
    by (rule inj_onI) (metis (mono_tags, lifting) div_mult_mod_eq mem_Collect_eq)
  moreover have "(\<lambda>j. j div k) ` ?J \<subseteq> {..<g}"
    using assms by (auto simp: less_mult_imp_div_less mult.commute)
  ultimately have "card ?J \<le> g" by (metis card_inj_on_le card_lessThan finite_lessThan)
  moreover have "length (py_stride i k xs) = card ?J"
    by (simp add: py_stride_def distinct_length_filter Int_def conj_commute)
  ultimately show ?thesis by simp
qed

lemma split_layers_ok:
  assumes g: "0 < g"
  shows "mset (concat (split_layers g xs)) = mset xs" and "\<forall>ys \<in> set (split_layers g xs). length ys \<le> g \<and> set ys \<subseteq> set xs"
proof -
  let ?k = "(length xs + g - 1) div g"
  have "length xs + g - 1 < (?k + 1) * g" using g by (metis Suc_eq_plus1 dividend_less_div_times mult.commute mult_Suc_right add.commute)
  then have k: "length xs \<le> ?k * g" by simp
  have "?k = 0 \<Longrightarrow> xs = []" using k by simp
  then have pos: "0 < ?k \<or> xs = []" by blast
  have "concat (split_layers g xs) = map ((!) xs) (concat (map (\<lambda>i. filter (\<lambda>j. j mod ?k = i) [0..<length xs]) [0..<?k]))"
    by (simp add: split_layers_def py_stride_def map_concat comp_def Let_def)
  then have "mset (concat (split_layers g xs)) = image_mset ((!) xs) (mset (concat (map (\<lambda>i. filter (\<lambda>j. j mod ?k = i) [0..<length xs]) [0..<?k])))"
    by simp
  also have "\<dots> = image_mset ((!) xs) (mset [0..<length xs])"
    using pos mset_classes[of ?k "[0..<length xs]"] by (cases "xs = []") simp_all
  also have "\<dots> = mset xs" by (metis map_nth mset_map)
  finally show "mset (concat (split_layers g xs)) = mset xs" .
  show "\<forall>ys \<in> set (split_layers g xs). length ys \<le> g \<and> set ys \<subseteq> set xs"
  proof
    fix ys
    assume "ys \<in> set (split_layers g xs)"
    then obtain i where i: "i < ?k" "ys = py_stride i ?k xs" by (auto simp: split_layers_def Let_def)
    then have "length ys \<le> g" using stride_length[OF k, of i] by simp
    moreover have "set ys \<subseteq> set xs" by (auto simp: i(2) py_stride_def)
    ultimately show "length ys \<le> g \<and> set ys \<subseteq> set xs" by blast
  qed
qed

lemma layer_group_size_pos:
  assumes "xs \<noteq> []" "\<forall>x \<in> set xs. 0 < x"
  shows "0 < layer_group_size xs"
proof -
  have "0 < a \<Longrightarrow> \<forall>x \<in> set ys. 0 < x \<Longrightarrow> 0 < fold min ys (a::nat) \<and> 0 < fold max ys a" for ys a
    by (induction ys arbitrary: a) auto
  from this[of "hd xs" "tl xs"] show ?thesis using assms by (cases xs) (auto simp: layer_group_size_def Let_def)
qed

lemma group_layers_ok:
  assumes run: "group_layers specs = Inr groups"
  shows "mset (concat groups) = mset (map fst specs)"
    and "\<forall>ns \<in> set groups. length ns \<le> layer_group_size (map (\<lambda>(s, ns). length ns) (same_type_layers specs)) \<and>
      (\<exists>s. \<forall>n \<in> set ns. (n, s) \<in> set specs)"
proof -
  let ?same = "same_type_layers specs" and ?g = "layer_group_size (map (\<lambda>(s, ns). length ns) (same_type_layers specs))"
  note st = same_type_layers_ok[of specs]
  have gs: "groups = concat (map (\<lambda>(s, ns). split_layers ?g ns) ?same)" and ne: "?same \<noteq> []"
    using run by (auto simp: group_layers_def Let_def)
  have pos: "0 < ?g" using st(2) ne by (intro layer_group_size_pos) auto
  have "mset (concat (concat (map (\<lambda>(s, ns). split_layers ?g ns) xs))) = mset (concat (map snd xs))" for xs :: "(layer_spec \<times> string list) list"
    by (induction xs) (auto simp: split_layers_ok(1)[OF pos])
  then show "mset (concat groups) = mset (map fst specs)" using st(1) by (simp add: gs)
  have "length ns \<le> ?g \<and> (\<exists>s. \<forall>n \<in> set ns. (n, s) \<in> set specs)" if ns: "ns \<in> set groups" for ns
  proof -
    obtain x where x: "x \<in> set ?same" "ns \<in> set (case x of (s, ns) \<Rightarrow> split_layers ?g ns)"
      using ns unfolding gs set_concat set_map by blast
    obtain s ls where sl: "(s, ls) \<in> set ?same" "ns \<in> set (split_layers ?g ls)" using x by (cases x) auto
    then have "length ns \<le> ?g" "set ns \<subseteq> set ls" using split_layers_ok(2)[OF pos] by blast+
    then show ?thesis using st(2) sl(1) by blast
  qed
  then show "\<forall>ns \<in> set groups. length ns \<le> ?g \<and> (\<exists>s. \<forall>n \<in> set ns. (n, s) \<in> set specs)" by blast
qed


subsection \<open>Block sizes\<close>

lemma fold_lcm_dvd: "x \<in> set xs \<or> x dvd a \<Longrightarrow> x dvd fold lcm xs (a::int)"
proof (induction xs arbitrary: a)
  case (Cons y ys)
  then have "x \<in> set ys \<or> x dvd lcm y a" using dvd_lcmI1 dvd_lcmI2 by auto
  from Cons.IH[OF this] show ?case by simp
qed simp

lemma fold_gcd_dvd: "fold gcd xs (a::int) dvd a \<and> (\<forall>x \<in> set xs. fold gcd xs a dvd x)"
proof (induction xs arbitrary: a)
  case (Cons y ys)
  have "fold gcd ys (gcd y a) dvd y" "fold gcd ys (gcd y a) dvd a"
    using Cons.IH[of "gcd y a"] by simp_all
  then show ?case using Cons.IH[of "gcd y a"] by simp
qed simp

lemma resolve_ok:
  assumes run: "resolve_kv_cache_block_sizes c groups = Inr (sched, unit)" and two: "2 \<le> length groups"
  shows "\<forall>g \<in> set groups. group_block_size c g dvd sched" "unit dvd sched"
    "unit = sched \<or> (\<forall>g \<in> set groups. prefix_cacheable g \<longrightarrow> unit dvd group_block_size c g)"
proof -
  let ?sizes = "map (group_block_size c) groups" and ?sched = "fold lcm (map (group_block_size c) groups) 1"
  let ?cacheable = "map snd (filter (\<lambda>(g, n). prefix_cacheable g) (zip groups ?sizes))"
  let ?hashing = "if ?cacheable \<noteq> [] then ?cacheable else ?sizes"
  have sched: "sched = ?sched" using run two by (auto simp: resolve_kv_cache_block_sizes_def Let_def split: if_splits)
  then show all: "\<forall>g \<in> set groups. group_block_size c g dvd sched" by (auto intro: fold_lcm_dvd)
  have sub: "set ?hashing \<subseteq> set ?sizes" by (auto simp: set_zip)
  have cache: "group_block_size c g \<in> set ?hashing" if "g \<in> set groups" "prefix_cacheable g" for g
  proof -
    have "(g, group_block_size c g) \<in> set (zip groups ?sizes)"
      using that(1) by (auto simp: set_zip in_set_conv_nth)
    then have m: "group_block_size c g \<in> set ?cacheable" using that(2) by force
    then have "?cacheable \<noteq> []" by (metis list.set(1) empty_iff)
    then show ?thesis using m by (simp only: if_True not_False_eq_True)
  qed
  have dv: "unit = sched \<or> (\<forall>n \<in> set ?hashing. unit dvd n)"
    using run two sched
    by (auto simp: resolve_kv_cache_block_sizes_def Let_def list_ex_iff mod_eq_0_iff_dvd split: if_splits)
  then show "unit = sched \<or> (\<forall>g \<in> set groups. prefix_cacheable g \<longrightarrow> unit dvd group_block_size c g)"
    using cache by blast
  have "?hashing \<noteq> []" using two by auto
  then obtain n where n: "n \<in> set ?hashing" using list.set_sel(1) by blast
  have "n \<in> set ?sizes" by (rule subsetD[OF sub n])
  then have nd: "n dvd sched" using all by auto
  show "unit dvd sched"
  proof (cases "unit = sched")
    case False
    then have "unit dvd n" using dv n by blast
    then show ?thesis using nd by (rule dvd_trans)
  qed simp
qed


subsection \<open>The chunk of least padding\<close>

definition better_chunk :: "int list \<Rightarrow> int \<Rightarrow> int \<Rightarrow> bool" where
  "better_chunk xs d e \<longleftrightarrow> total_pad xs d < total_pad xs e \<or> (total_pad xs d = total_pad xs e \<and> e \<le> d)"

lemma best_chunk_fold:
  assumes "lo < hi"
  shows "\<exists>d. fold (best_chunk_step xs) [lo..hi - 1] (d0, None) = (d, Some (total_pad xs d)) \<and> lo \<le> d \<and> d < hi \<and>
    (\<forall>e. lo \<le> e \<longrightarrow> e < hi \<longrightarrow> better_chunk xs d e)"
  using assms
proof (induction hi rule: int_gr_induct)
  case base
  then show ?case by (simp add: best_chunk_step_def better_chunk_def Let_def)
next
  case (step hi)
  then obtain d where d: "fold (best_chunk_step xs) [lo..hi - 1] (d0, None) = (d, Some (total_pad xs d))"
    "lo \<le> d" "d < hi" "\<forall>e. lo \<le> e \<longrightarrow> e < hi \<longrightarrow> better_chunk xs d e" by blast
  have "[lo..hi + 1 - 1] = [lo..hi - 1] @ [hi]" using step.hyps by (simp add: upto_rec2)
  then have f: "fold (best_chunk_step xs) [lo..hi + 1 - 1] (d0, None) = best_chunk_step xs hi (d, Some (total_pad xs d))"
    by (simp add: d(1))
  show ?case
  proof (cases "total_pad xs hi \<le> total_pad xs d")
    case True
    then have "best_chunk_step xs hi (d, Some (total_pad xs d)) = (hi, Some (total_pad xs hi))"
      using d(3) by (auto simp: best_chunk_step_def Let_def)
    then show ?thesis
      unfolding f using True d(4) step.hyps by (force simp: better_chunk_def)
  next
    case False
    then have "best_chunk_step xs hi (d, Some (total_pad xs d)) = (d, Some (total_pad xs d))"
      by (auto simp: best_chunk_step_def Let_def)
    then show ?thesis
      unfolding f using False d(2-4) by (force simp: better_chunk_def)
  qed
qed

end
