(* ===== verification/Ngram.thy ===== *)
theory Ngram
  imports Prelude
begin

text \<open>
  The n-gram drafter (\<^verbatim>\<open>spec_decode/ngram_proposer.py\<close>): the capped Knuth-Morris-Pratt search of
  \<open>_find_longest_matched_ngram_and_propose_tokens\<close> over the reversed tokens, and the batch around it
  with its preallocated buffers.  The loop is a partial function, because that \<open>prev_lps\<close> shrinks at
  a mismatch rests on the contents of \<open>lps\<close>; that it returns is part of its correctness.
\<close>

type_synonym ngram_state = "nat list \<times> nat \<times> nat \<times> nat \<times> nat"

text \<open>The state is \<open>lps\<close>, \<open>longest_ngram\<close>, \<open>position\<close>, \<open>prev_lps\<close>, \<open>i\<close>.\<close>

partial_function (option) ngram_loop :: "int list \<Rightarrow> nat \<Rightarrow> ngram_state \<Rightarrow> ngram_state option" where
  "ngram_loop T M st =
     (case st of (lps, longest, position, prev, i) \<Rightarrow>
        if \<not> i < length T then Some st
        else if T ! prev = T ! i then
          (let prev1 = prev + 1;
               longest1 = (if prev1 \<ge> longest then prev1 else longest);
               position1 = (if prev1 \<ge> longest then i else position);
               lps1 = (if i < M then lps[i := prev1] else lps);
               prev2 = (if prev1 = M then lps1 ! (M - 1) else prev1)
           in ngram_loop T M (lps1, longest1, position1, prev2, i + 1))
        else if prev \<noteq> 0 then ngram_loop T M (lps, longest, position, lps ! (prev - 1), i)
        else ngram_loop T M (lps, longest, position, prev, i + 1))"

definition propose_ngram :: "int list \<Rightarrow> int \<Rightarrow> nat \<Rightarrow> int \<Rightarrow> int \<Rightarrow> int list option" where
  "propose_ngram origin min_ngram max_ngram max_model_len k =
     (let total = length origin; k1 = min k (max_model_len - int total) in
      if int total < min_ngram then Some []
      else if k1 \<le> 0 then Some []
      else case ngram_loop (rev origin) max_ngram (replicate max_ngram 0, 0, 0, 0, 1) of
          None \<Rightarrow> None
        | Some (lps, longest, position, prev, i) \<Rightarrow>
            if int longest < min_ngram then Some []
            else
              let start = total - 1 - position + longest; k2 = min (nat k1) (total - start)
              in Some (take k2 (drop start origin)))"


subsection \<open>The batch\<close>

record ngram_proposer =
  min_n :: int
  max_n :: nat
  spec_k :: int
  model_len :: int
  draft_rows :: "int list list"
  num_drafts :: "nat list"

text \<open>One iteration of \<open>batch_propose_numba\<close>: \<open>valid_ngram_draft[idx, : len] = drafter_output\<close>.\<close>

definition propose_row :: "nat list \<Rightarrow> int list list \<Rightarrow> int \<Rightarrow> nat \<Rightarrow> ngram_proposer \<Rightarrow> ngram_proposer option" where
  "propose_row num_tokens token_ids k idx np =
     (case propose_ngram (take (num_tokens ! idx) (token_ids ! idx)) (min_n np) (max_n np) (model_len np) k of
        None \<Rightarrow> None
      | Some out \<Rightarrow>
          Some (np\<lparr>num_drafts := (num_drafts np)[idx := length out],
                   draft_rows := (if out \<noteq> [] then (draft_rows np)[idx := out @ drop (length out) (draft_rows np ! idx)]
                                  else draft_rows np)\<rparr>))"

fun propose_rows :: "nat list \<Rightarrow> nat list \<Rightarrow> int list list \<Rightarrow> int \<Rightarrow> ngram_proposer \<Rightarrow> ngram_proposer option" where
  "propose_rows [] num_tokens token_ids k np = Some np"
| "propose_rows (idx # is) num_tokens token_ids k np =
     (case propose_row num_tokens token_ids k idx np of
        None \<Rightarrow> None
      | Some np' \<Rightarrow> propose_rows is num_tokens token_ids k np')"

definition batch_propose :: "nat \<Rightarrow> nat list \<Rightarrow> nat list \<Rightarrow> int list list \<Rightarrow> int \<Rightarrow> ngram_proposer \<Rightarrow>
    (int list list \<times> ngram_proposer) option" where
  "batch_propose num_requests valid num_tokens token_ids k np =
     (case propose_rows valid num_tokens token_ids k np of
        None \<Rightarrow> None
      | Some np' \<Rightarrow>
          Some (map (\<lambda>i. if i \<in> set valid \<and> num_drafts np' ! i > 0
                         then take (num_drafts np' ! i) (draft_rows np' ! i) else []) [0..<num_requests], np'))"

definition valid_requests :: "int list list \<Rightarrow> nat list \<Rightarrow> int \<Rightarrow> nat list" where
  "valid_requests sampled num_tokens max_len =
     filter (\<lambda>i. sampled ! i \<noteq> [] \<and> \<not> int (num_tokens ! i) \<ge> max_len) [0..<length sampled]"

text \<open>The loop of the search may not return, an assertion may fail: the two levels of the result.\<close>

definition ngram_propose :: "int \<Rightarrow> int list list \<Rightarrow> nat list \<Rightarrow> int list list \<Rightarrow> ngram_proposer \<Rightarrow>
    (int list list \<times> ngram_proposer) option res" where
  "ngram_propose k sampled num_tokens token_ids np =
     rbind (guard AssertionError (k \<le> spec_k np)) (\<lambda>_.
       Inr (batch_propose (length sampled) (valid_requests sampled num_tokens (model_len np))
              num_tokens token_ids k np))"


subsection \<open>The search it stands for\<close>

text \<open>The last \<open>v\<close> tokens occur at position \<open>s\<close>, before the end.\<close>

definition occurs_at :: "int list \<Rightarrow> nat \<Rightarrow> nat \<Rightarrow> bool" where
  "occurs_at xs v s \<longleftrightarrow> s + v < length xs \<and> take v (drop s xs) = drop (length xs - v) xs"

definition first_match :: "int list \<Rightarrow> nat \<Rightarrow> nat option" where
  "first_match xs v = find (occurs_at xs v) [0..<length xs]"

text \<open>The longest suffix of \<open>lo\<close> to \<open>hi\<close> tokens that occurs earlier, at its first occurrence, and the
  tokens that follow it there.\<close>

definition ngram_ref :: "int list \<Rightarrow> int \<Rightarrow> nat \<Rightarrow> int \<Rightarrow> int \<Rightarrow> int list" where
  "ngram_ref xs lo hi max_len k =
     (case find (\<lambda>v. lo \<le> int v \<and> first_match xs v \<noteq> None) (rev [1..<hi + 1]) of
        None \<Rightarrow> []
      | Some v \<Rightarrow> take (nat (min k (max_len - int (length xs)))) (drop (the (first_match xs v) + v) xs))"


subsection \<open>Borders\<close>

definition border :: "int list \<Rightarrow> nat \<Rightarrow> nat \<Rightarrow> bool" where
  "border T v i \<longleftrightarrow> v < i \<and> (\<forall>q < v. T ! q = T ! (i - v + q))"

lemma border_0 [simp]: "border T 0 i \<longleftrightarrow> 0 < i"
  by (simp add: border_def)

lemma border_Suc: "border T (Suc v) (Suc i) \<longleftrightarrow> border T v i \<and> T ! v = T ! i"
  by (auto simp: border_def less_Suc_eq)

lemma border_trans: "border T u w \<Longrightarrow> border T w i \<Longrightarrow> border T u i"
  unfolding border_def
proof (elim conjE, intro conjI allI impI)
  fix q
  assume a: "u < w" "w < i" "\<forall>q<u. T ! q = T ! (w - u + q)" "\<forall>q<w. T ! q = T ! (i - w + q)" "q < u"
  then have "w - u + q < w" by simp
  then have "T ! (w - u + q) = T ! (i - w + (w - u + q))" using a(4) by blast
  moreover have "i - w + (w - u + q) = i - u + q" using a(1,2) by simp
  ultimately show "T ! q = T ! (i - u + q)" using a(3,5) by simp
qed simp

lemma border_inner: "border T u i \<Longrightarrow> border T w i \<Longrightarrow> u < w \<Longrightarrow> border T u w"
  unfolding border_def
proof (elim conjE, intro conjI allI impI)
  fix q
  assume a: "u < w" "w < i" "\<forall>q<u. T ! q = T ! (i - u + q)" "\<forall>q<w. T ! q = T ! (i - w + q)" "q < u"
  then have "w - u + q < w" by simp
  then have "T ! (w - u + q) = T ! (i - w + (w - u + q))" using a(4) by blast
  moreover have "i - w + (w - u + q) = i - u + q" using a(1,2) by simp
  ultimately show "T ! q = T ! (w - u + q)" using a(3,5) by simp
qed

text \<open>The longest border of at most \<open>M\<close> elements.\<close>

definition longest_border :: "int list \<Rightarrow> nat \<Rightarrow> nat \<Rightarrow> nat" where
  "longest_border T M i = Max {v. v \<le> M \<and> border T v i}"

lemma longest_border_finite: "finite {v. v \<le> M \<and> border T v i}"
  by (rule finite_subset[of _ "{..M}"]) auto

lemma longest_border_ok:
  assumes "0 < i"
  shows "border T (longest_border T M i) i" "longest_border T M i \<le> M"
proof -
  have "longest_border T M i \<in> {v. v \<le> M \<and> border T v i}"
    unfolding longest_border_def
    using assms border_0[of T i] by (intro Max_in longest_border_finite) blast
  then show "border T (longest_border T M i) i" "longest_border T M i \<le> M" by simp_all
qed

lemma longest_border_ge: "border T v i \<Longrightarrow> v \<le> M \<Longrightarrow> v \<le> longest_border T M i"
  unfolding longest_border_def by (rule Max_ge[OF longest_border_finite]) simp

lemma longest_border_eqI:
  assumes "border T v i" "v \<le> M" "\<And>u. border T u i \<Longrightarrow> u \<le> M \<Longrightarrow> u \<le> v"
  shows "longest_border T M i = v"
proof -
  have "0 < i" using assms(1) by (auto simp: border_def)
  then show ?thesis
    using longest_border_ge[OF assms(1,2)] assms(3)[OF longest_border_ok[of i T M]] by simp
qed


subsection \<open>The invariant of the search\<close>

text \<open>What \<open>longest_ngram\<close> and \<open>position\<close> hold: the longest border so far and where it ends last.\<close>

definition best_upto :: "int list \<Rightarrow> nat \<Rightarrow> nat \<Rightarrow> nat \<Rightarrow> nat \<Rightarrow> bool" where
  "best_upto T M i longest position \<longleftrightarrow>
     (\<forall>j. 0 < j \<longrightarrow> j < i \<longrightarrow> longest_border T M (j + 1) \<le> longest) \<and>
     (0 < longest \<longrightarrow> 0 < position \<and> position < i \<and> longest_border T M (position + 1) = longest \<and>
        (\<forall>j. position < j \<longrightarrow> j < i \<longrightarrow> longest_border T M (j + 1) < longest))"

definition search_inv :: "int list \<Rightarrow> nat \<Rightarrow> ngram_state \<Rightarrow> bool" where
  "search_inv T M st \<longleftrightarrow> (case st of (lps, longest, position, prev, i) \<Rightarrow>
     length lps = M \<and> 0 < i \<and> prev < M \<and> border T prev i \<and>
     (\<forall>j < M. lps ! j = (if j < i then longest_border T M (j + 1) else 0)) \<and>
     (\<forall>v. border T v i \<longrightarrow> v < M \<longrightarrow> prev < v \<longrightarrow> T ! v \<noteq> T ! i) \<and>
     best_upto T M i longest position)"

lemma search_invD:
  assumes "search_inv T M (lps, longest, position, prev, i)"
  shows "length lps = M" "0 < i" "prev < M" "border T prev i"
    and "j < M \<Longrightarrow> lps ! j = (if j < i then longest_border T M (j + 1) else 0)"
    and "border T v i \<Longrightarrow> v < M \<Longrightarrow> prev < v \<Longrightarrow> T ! v \<noteq> T ! i"
    and "best_upto T M i longest position"
  using assms by (auto simp: search_inv_def)

text \<open>A match: the next border is one longer, or the loop falls back from \<open>M\<close>.\<close>

lemma match_border:
  assumes inv: "search_inv T M (lps, longest, position, prev, i)" and eq: "T ! prev = T ! i"
  shows "longest_border T M (i + 1) = prev + 1"
proof (rule longest_border_eqI)
  note d = search_invD[OF inv]
  show "border T (prev + 1) (i + 1)" using d(4) eq by (simp add: border_Suc)
  show "prev + 1 \<le> M" using d(3) by simp
  fix u
  assume u: "border T u (i + 1)" "u \<le> M"
  show "u \<le> prev + 1"
  proof (cases u)
    case (Suc v)
    then have "border T v i" "T ! v = T ! i" "v < M" using u by (simp_all add: border_Suc)
    then have "\<not> prev < v" using d(6) by blast
    then show ?thesis using Suc by simp
  qed simp
qed

lemma mismatch_border:
  assumes inv: "search_inv T M (lps, longest, position, 0, i)" and ne: "T ! 0 \<noteq> T ! i"
  shows "longest_border T M (i + 1) = 0"
proof (rule longest_border_eqI)
  note d = search_invD[OF inv]
  fix u
  assume u: "border T u (i + 1)" "u \<le> M"
  show "u \<le> 0"
  proof (cases u)
    case (Suc v)
    then have "border T v i" "T ! v = T ! i" "v < M" using u by (simp_all add: border_Suc)
    then show ?thesis using d(6)[of v] ne by (cases v) auto
  qed simp
qed simp_all

lemma best_upto_longer:
  assumes "best_upto T M i longest position" "longest_border T M (i + 1) = b" "longest \<le> b" "0 < b" "0 < i"
  shows "best_upto T M (i + 1) b i"
  unfolding best_upto_def
proof (intro conjI allI impI)
  fix j
  assume j: "0 < j" "j < i + 1"
  show "longest_border T M (j + 1) \<le> b"
  proof (cases "j = i")
    case False
    then have "longest_border T M (j + 1) \<le> longest" using assms(1) j by (simp add: best_upto_def)
    then show ?thesis using assms(3) by simp
  qed (simp add: assms(2)[simplified])
qed (use assms in auto)

lemma best_upto_shorter:
  assumes "best_upto T M i longest position" "longest_border T M (i + 1) < longest \<or>
    longest_border T M (i + 1) = 0 \<and> longest = 0"
  shows "best_upto T M (i + 1) longest position"
  using assms by (auto simp: best_upto_def less_Suc_eq)

lemma match_inv:
  assumes inv: "search_inv T M (lps, longest, position, prev, i)" and eq: "T ! prev = T ! i"
  defines "lps1 \<equiv> (if i < M then lps[i := prev + 1] else lps)"
  shows "search_inv T M (lps1, if prev + 1 \<ge> longest then prev + 1 else longest,
    if prev + 1 \<ge> longest then i else position, if prev + 1 = M then lps1 ! (M - 1) else prev + 1, i + 1)"
proof -
  note d = search_invD[OF inv]
  note b = match_border[OF inv eq]
  have lps1: "lps1 ! j = (if j < i + 1 then longest_border T M (j + 1) else 0)" if "j < M" for j
    using d(1) d(5)[OF that] that b by (auto simp: lps1_def nth_list_update less_Suc_eq)
  have bt: "border T (prev + 1) (i + 1)" using d(4) eq by (simp add: border_Suc)
  let ?prev2 = "if prev + 1 = M then lps1 ! (M - 1) else prev + 1"
  have p2: "?prev2 < M \<and> border T ?prev2 (i + 1) \<and>
      (\<forall>v. border T v (i + 1) \<longrightarrow> v < M \<longrightarrow> ?prev2 < v \<longrightarrow> T ! v \<noteq> T ! (i + 1))"
  proof (cases "prev + 1 = M")
    case True
    then have Mi: "border T M (i + 1)" using bt by simp
    then have m: "M - 1 < i + 1" "0 < M" using True by (auto simp: border_def)
    then have l: "lps1 ! (M - 1) = longest_border T M M" using lps1[of "M - 1"] by simp
    have w: "border T (longest_border T M M) M" using longest_border_ok(1)[OF m(2)] .
    then have "longest_border T M M < M" by (simp add: border_def)
    moreover have "v \<le> longest_border T M M" if "border T v (i + 1)" "v < M" for v
      using longest_border_ge[OF border_inner[OF that(1) Mi that(2)]] that(2) by simp
    ultimately show ?thesis using border_trans[OF w Mi] True l by force
  next
    case False
    have "v \<le> prev + 1" if "border T v (i + 1)" "v < M" for v
      using longest_border_ge[OF that(1), of M] that(2) b by simp
    then show ?thesis using False bt d(3) by force
  qed
  have "best_upto T M (i + 1) (if prev + 1 \<ge> longest then prev + 1 else longest)
      (if prev + 1 \<ge> longest then i else position)"
    using best_upto_longer[OF d(7) b] best_upto_shorter[OF d(7)] b d(2) by auto
  moreover have "length lps1 = M" using d(1) by (simp add: lps1_def)
  ultimately show ?thesis using p2 lps1 unfolding search_inv_def by simp
qed

lemma fallback_inv:
  assumes inv: "search_inv T M (lps, longest, position, prev, i)" and ne: "T ! prev \<noteq> T ! i" "prev \<noteq> 0"
  shows "search_inv T M (lps, longest, position, lps ! (prev - 1), i)" "lps ! (prev - 1) < prev"
proof -
  note d = search_invD[OF inv]
  have "prev < i" using d(4) by (simp add: border_def)
  then have l: "lps ! (prev - 1) = longest_border T M prev" using d(3) d(5)[of "prev - 1"] ne(2) by (cases prev) simp_all
  have w: "border T (longest_border T M prev) prev" using longest_border_ok(1)[of prev T M] ne(2) by simp
  then show lt: "lps ! (prev - 1) < prev" unfolding l by (simp add: border_def)
  have "T ! v \<noteq> T ! i" if v: "border T v i" "v < M" "lps ! (prev - 1) < v" for v
  proof (cases "v < prev")
    case True
    then have "v \<le> longest_border T M prev"
      using longest_border_ge[OF border_inner[OF v(1) d(4) True]] v(2) by simp
    then show ?thesis using v(3) l by simp
  next
    case False
    then show ?thesis using d(6)[OF v(1,2)] ne(1) by (cases "v = prev") auto
  qed
  then show "search_inv T M (lps, longest, position, lps ! (prev - 1), i)"
    using d lt border_trans[OF w d(4)] by (auto simp: search_inv_def l)
qed

lemma skip_inv:
  assumes inv: "search_inv T M (lps, longest, position, 0, i)" and ne: "T ! 0 \<noteq> T ! i"
  shows "search_inv T M (lps, longest, position, 0, i + 1)"
proof -
  note d = search_invD[OF inv]
  note b = mismatch_border[OF inv ne]
  have "v = 0" if "border T v (i + 1)" "v < M" for v
    using longest_border_ge[OF that(1), of M] that(2) b by simp
  moreover have "best_upto T M (i + 1) longest position"
    using b by (intro best_upto_shorter[OF d(7)]) auto
  moreover have "lps ! j = (if j < i + 1 then longest_border T M (j + 1) else 0)" if "j < M" for j
    using d(5)[OF that] b by (auto simp: less_Suc_eq)
  ultimately show ?thesis using d(1-3) by (auto simp: search_inv_def)
qed

lemma ngram_loop_steps:
  assumes "i < length T"
  shows "T ! prev = T ! i \<Longrightarrow> ngram_loop T M (lps, longest, position, prev, i) =
      ngram_loop T M (if i < M then lps[i := prev + 1] else lps, if prev + 1 \<ge> longest then prev + 1 else longest,
        if prev + 1 \<ge> longest then i else position,
        if prev + 1 = M then (if i < M then lps[i := prev + 1] else lps) ! (M - 1) else prev + 1, i + 1)"
    and "T ! prev \<noteq> T ! i \<Longrightarrow> prev \<noteq> 0 \<Longrightarrow> ngram_loop T M (lps, longest, position, prev, i) =
      ngram_loop T M (lps, longest, position, lps ! (prev - 1), i)"
    and "T ! prev \<noteq> T ! i \<Longrightarrow> prev = 0 \<Longrightarrow> ngram_loop T M (lps, longest, position, prev, i) =
      ngram_loop T M (lps, longest, position, prev, i + 1)"
  using assms by (subst ngram_loop.simps; simp add: Let_def)+

lemma ngram_loop_ok:
  assumes "search_inv T M (lps, longest, position, prev, i)" "i \<le> length T"
  shows "\<exists>lps' longest' position' prev'.
    ngram_loop T M (lps, longest, position, prev, i) = Some (lps', longest', position', prev', length T) \<and>
    best_upto T M (length T) longest' position'"
  using assms
proof (induction "2 * (length T - i) + prev" arbitrary: lps longest position prev i rule: less_induct)
  case less
  note inv = less.prems(1)
  show ?case
  proof (cases "i < length T")
    case False
    then have "i = length T" using less.prems(2) by simp
    then show ?thesis
      using search_invD(7)[OF inv] by (subst ngram_loop.simps) simp
  next
    case True
    note steps = ngram_loop_steps[OF True, of prev M lps longest position]
    consider "T ! prev = T ! i" | "T ! prev \<noteq> T ! i" "prev \<noteq> 0" | "T ! prev \<noteq> T ! i" "prev = 0" by blast
    then show ?thesis
    proof cases
      case 1
      let ?lps1 = "if i < M then lps[i := prev + 1] else lps"
      let ?prev2 = "if prev + 1 = M then ?lps1 ! (M - 1) else prev + 1"
      note m = match_inv[OF inv 1]
      have "?prev2 \<le> prev + 1"
      proof (cases "prev + 1 = M")
        case M: True
        show ?thesis using search_invD(3)[OF m] unfolding if_P[OF M] using M by linarith
      qed simp
      then have lt: "2 * (length T - (i + 1)) + ?prev2 < 2 * (length T - i) + prev" using True by linarith
      show ?thesis unfolding steps(1)[OF 1] by (rule less.hyps[OF lt m]) (use True in simp)
    next
      case 2
      note f = fallback_inv[OF inv 2]
      show ?thesis
        unfolding steps(2)[OF 2] by (rule less.hyps[OF _ f(1)]) (use f(2) less.prems(2) in simp_all)
    next
      case 3
      have "search_inv T M (lps, longest, position, prev, i + 1)" using skip_inv inv 3 by simp
      then show ?thesis
        unfolding steps(3)[OF 3] by (rule less.hyps[rotated]) (use True in simp_all)
    qed
  qed
qed


subsection \<open>The search and its reference\<close>

text \<open>A border of a prefix of the reversed tokens is an earlier occurrence of a suffix of the tokens.\<close>

lemma border_take: "i \<le> length T \<Longrightarrow> border T v i \<longleftrightarrow> v < i \<and> take v T = take v (drop (i - v) T)"
  by (auto simp: border_def list_eq_iff_nth_eq)

lemma border_occurs:
  assumes j: "j < length xs"
  shows "border (rev xs) v (j + 1) \<longleftrightarrow> v \<le> j \<and> occurs_at xs v (length xs - 1 - j)"
proof (cases "v \<le> j")
  case True
  let ?n = "length xs"
  define a d where "a = ?n - 1 - j" and "d = j + 1 - v"
  have e: "?n = a + v + d" "j + 1 - v = d" "?n - 1 - j = a" using True j by (auto simp: a_def d_def)
  have "take v (drop d (rev xs)) = rev (take v (drop a xs))"
    by (simp add: drop_rev take_rev e(1) drop_take)
  then have "take v (drop (j + 1 - v) (rev xs)) = rev (take v (drop (?n - 1 - j) xs))" by (simp only: e(2,3))
  moreover have "take v (rev xs) = rev (drop (?n - v) xs)" by (simp add: take_rev)
  ultimately show ?thesis using True j by (auto simp: border_take occurs_at_def)
qed (simp add: border_def)

lemma occurs_border:
  assumes "occurs_at xs v s"
  shows "border (rev xs) v (length xs - 1 - s + 1)" "length xs - 1 - s < length xs" "v \<le> length xs - 1 - s"
    "length xs - 1 - (length xs - 1 - s) = s"
proof -
  have s: "s + v < length xs" using assms by (simp add: occurs_at_def)
  then show j: "length xs - 1 - s < length xs" "v \<le> length xs - 1 - s" "length xs - 1 - (length xs - 1 - s) = s"
    by auto
  show "border (rev xs) v (length xs - 1 - s + 1)"
    unfolding border_occurs[OF j(1)] using j assms by simp
qed

text \<open>An occurrence of a suffix contains an occurrence of every shorter one.\<close>

lemma search_start: "0 < M \<Longrightarrow> search_inv T M (replicate M 0, 0, 0, 0, 1)"
proof -
  assume "0 < M"
  moreover have "longest_border T M 1 = 0"
    by (rule longest_border_eqI) (auto simp: border_def)
  ultimately show ?thesis by (auto simp: search_inv_def best_upto_def border_def)
qed

lemma find_upt_Some:
  "find P [0..<n] = Some i \<longleftrightarrow> i < n \<and> P i \<and> (\<forall>j < i. \<not> P j)"
  by (auto simp: find_Some_iff intro: exI[of _ i])

lemma find_rev_upt_Some:
  "find P (rev [1..<n + 1]) = Some v \<longleftrightarrow> 1 \<le> v \<and> v \<le> n \<and> P v \<and> (\<forall>u. v < u \<longrightarrow> u \<le> n \<longrightarrow> \<not> P u)"
proof (induction n)
  case (Suc n)
  have e: "rev [1..<Suc n + 1] = Suc n # rev [1..<n + 1]" by simp
  show ?case
  proof (cases "P (Suc n)")
    case True
    then have "(\<forall>u. v < u \<longrightarrow> u \<le> Suc n \<longrightarrow> \<not> P u) \<Longrightarrow> \<not> v < Suc n" by blast
    then show ?thesis unfolding e find.simps using True by auto
  next
    case False
    then show ?thesis unfolding e find.simps using Suc.IH by (auto simp: le_Suc_eq)
  qed
qed simp

lemma first_match_Some:
  "first_match xs v = Some s \<longleftrightarrow> occurs_at xs v s \<and> (\<forall>r < s. \<not> occurs_at xs v r)"
  by (auto simp: first_match_def find_upt_Some occurs_at_def)

lemma first_match_None: "first_match xs v = None \<longleftrightarrow> (\<forall>s. \<not> occurs_at xs v s)"
  by (auto simp: first_match_def find_None_iff occurs_at_def)

lemma best_upto_ref:
  assumes M: "0 < M" and best: "best_upto (rev xs) M (length xs) longest position"
  shows "0 < longest \<Longrightarrow> find (\<lambda>v. first_match xs v \<noteq> None) (rev [1..<M + 1]) = Some longest \<and>
      first_match xs longest = Some (length xs - 1 - position) \<and> position < length xs"
    and "longest = 0 \<Longrightarrow> 0 < v \<Longrightarrow> v \<le> M \<Longrightarrow> first_match xs v = None"
    and "longest < v \<Longrightarrow> v \<le> M \<Longrightarrow> first_match xs v = None"
proof -
  let ?T = "rev xs" and ?n = "length xs"
  have le: "v \<le> longest" if "occurs_at xs v s" "v \<le> M" "0 < v" for v s
  proof -
    note o = occurs_border[OF that(1)]
    have "v \<le> longest_border ?T M (?n - 1 - s + 1)" by (rule longest_border_ge[OF o(1) that(2)])
    also have "\<dots> \<le> longest" using best o(2,3) that(3) by (auto simp: best_upto_def)
    finally show ?thesis .
  qed
  then show none: "longest < v \<Longrightarrow> v \<le> M \<Longrightarrow> first_match xs v = None" for v
    by (fastforce simp: first_match_None)
  then show "longest = 0 \<Longrightarrow> 0 < v \<Longrightarrow> v \<le> M \<Longrightarrow> first_match xs v = None" by blast
  assume pos: "0 < longest"
  then have b: "0 < position" "position < ?n" "longest_border ?T M (position + 1) = longest"
    "\<And>j. position < j \<Longrightarrow> j < ?n \<Longrightarrow> longest_border ?T M (j + 1) < longest"
    using best by (auto simp: best_upto_def)
  have lm: "border ?T longest (position + 1)" "longest \<le> M"
    using longest_border_ok[of "position + 1" ?T M] b(3) by simp_all
  then have occ: "occurs_at xs longest (?n - 1 - position)" using border_occurs[OF b(2)] by blast
  moreover have "\<not> occurs_at xs longest r" if "r < ?n - 1 - position" for r
  proof
    assume o: "occurs_at xs longest r"
    note ob = occurs_border[OF o]
    have "position < ?n - 1 - r" using that by simp
    then have "longest_border ?T M (?n - 1 - r + 1) < longest" using b(4) ob(2) by blast
    then show False using longest_border_ge[OF ob(1) lm(2)] by simp
  qed
  ultimately have fm: "first_match xs longest = Some (?n - 1 - position)" by (simp add: first_match_Some)
  then show "find (\<lambda>v. first_match xs v \<noteq> None) (rev [1..<M + 1]) = Some longest \<and>
      first_match xs longest = Some (?n - 1 - position) \<and> position < ?n"
    unfolding find_rev_upt_Some using pos lm(2) none b(2) by simp
qed

lemma propose_ngram_ref:
  assumes lo: "1 \<le> lo" and M: "0 < M"
  shows "propose_ngram xs lo M max_len k = Some (ngram_ref xs lo M max_len k)"
proof -
  let ?n = "length xs" and ?k = "min k (max_len - int (length xs))"
  have long: "first_match xs v = None" if "?n \<le> v" for v
    using that by (auto simp: first_match_None occurs_at_def)
  show ?thesis
  proof (cases "int ?n < lo \<or> ?k \<le> 0")
    case True
    have "ngram_ref xs lo M max_len k = []"
    proof (cases "int ?n < lo")
      case True
      then have "find (\<lambda>v. lo \<le> int v \<and> first_match xs v \<noteq> None) (rev [1..<M + 1]) = None"
        using long by (fastforce simp: find_None_iff)
      then show ?thesis by (simp add: ngram_ref_def)
    next
      case False
      then have "nat ?k = 0" using True by simp
      then show ?thesis by (simp add: ngram_ref_def split: option.split)
    qed
    then show ?thesis using True by (auto simp: propose_ngram_def Let_def)
  next
    case False
    then have n: "1 \<le> ?n" using lo by linarith
    obtain lps longest position prev where
      loop: "ngram_loop (rev xs) M (replicate M 0, 0, 0, 0, 1) = Some (lps, longest, position, prev, ?n)"
      and best: "best_upto (rev xs) M ?n longest position"
      using ngram_loop_ok[OF search_start[OF M, of "rev xs"]] n by auto
    note r = best_upto_ref[OF M best]
    show ?thesis
    proof (cases "int longest < lo")
      case True
      have "find (\<lambda>v. lo \<le> int v \<and> first_match xs v \<noteq> None) (rev [1..<M + 1]) = None"
        using r(3) True by (fastforce simp: find_None_iff)
      then show ?thesis using False True loop by (simp add: propose_ngram_def ngram_ref_def Let_def)
    next
      case longer: False
      then have f: "find (\<lambda>v. first_match xs v \<noteq> None) (rev [1..<M + 1]) = Some longest"
        "first_match xs longest = Some (?n - 1 - position)" "position < ?n"
        using r(1) lo by auto
      then have "find (\<lambda>v. lo \<le> int v \<and> first_match xs v \<noteq> None) (rev [1..<M + 1]) = Some longest"
        using longer unfolding find_rev_upt_Some by simp
      moreover have "?n - 1 - position + longest \<le> ?n"
        using f(2) by (simp add: first_match_Some occurs_at_def)
      ultimately show ?thesis
        using False longer loop f(2)
        by (simp add: propose_ngram_def ngram_ref_def Let_def min_def)
    qed
  qed
qed


subsection \<open>The batch and its reference\<close>

definition buffers_ok :: "nat \<Rightarrow> ngram_proposer \<Rightarrow> bool" where
  "buffers_ok n np \<longleftrightarrow> n \<le> length (num_drafts np) \<and> n \<le> length (draft_rows np)"

text \<open>The draft the reference gives request \<open>i\<close>.\<close>

definition ref_draft :: "nat list \<Rightarrow> int list list \<Rightarrow> int \<Rightarrow> ngram_proposer \<Rightarrow> nat \<Rightarrow> int list" where
  "ref_draft num_tokens token_ids k np i =
     ngram_ref (take (num_tokens ! i) (token_ids ! i)) (min_n np) (max_n np) (model_len np) k"

lemma propose_rows_ok:
  assumes "1 \<le> min_n np" "0 < max_n np" "distinct is" "\<forall>i \<in> set is. i < n" "buffers_ok n np"
  shows "\<exists>np'. propose_rows is num_tokens token_ids k np = Some np' \<and> buffers_ok n np' \<and>
    (\<forall>i \<in> set is. num_drafts np' ! i = length (ref_draft num_tokens token_ids k np i) \<and>
       take (length (ref_draft num_tokens token_ids k np i)) (draft_rows np' ! i) = ref_draft num_tokens token_ids k np i) \<and>
    (\<forall>i. i \<notin> set is \<longrightarrow> num_drafts np' ! i = num_drafts np ! i \<and> draft_rows np' ! i = draft_rows np ! i)"
  using assms
proof (induction "is" arbitrary: np)
  case (Cons j js)
  define dr where "dr = ref_draft num_tokens token_ids k np j"
  define np1 where "np1 = np\<lparr>num_drafts := (num_drafts np)[j := length dr],
     draft_rows := (if dr \<noteq> [] then (draft_rows np)[j := dr @ drop (length dr) (draft_rows np ! j)] else draft_rows np)\<rparr>"
  have run: "propose_row num_tokens token_ids k j np = Some np1"
    using propose_ngram_ref[OF Cons.prems(1,2)] by (simp add: propose_row_def dr_def ref_draft_def np1_def)
  have keep: "min_n np1 = min_n np" "max_n np1 = max_n np" "model_len np1 = model_len np" "buffers_ok n np1"
    using Cons.prems(5) by (auto simp: np1_def buffers_ok_def)
  then have same: "ref_draft num_tokens token_ids k np1 = ref_draft num_tokens token_ids k np"
    by (simp add: ref_draft_def fun_eq_iff)
  have row: "num_drafts np1 ! j = length dr" "take (length dr) (draft_rows np1 ! j) = dr"
    using Cons.prems(4,5) by (auto simp: np1_def buffers_ok_def)
  have other: "i \<noteq> j \<Longrightarrow> num_drafts np1 ! i = num_drafts np ! i \<and> draft_rows np1 ! i = draft_rows np ! i" for i
    by (simp add: np1_def)
  have "\<exists>np'. propose_rows js num_tokens token_ids k np1 = Some np' \<and> buffers_ok n np' \<and>
    (\<forall>i \<in> set js. num_drafts np' ! i = length (ref_draft num_tokens token_ids k np1 i) \<and>
       take (length (ref_draft num_tokens token_ids k np1 i)) (draft_rows np' ! i) =
       ref_draft num_tokens token_ids k np1 i) \<and>
    (\<forall>i. i \<notin> set js \<longrightarrow> num_drafts np' ! i = num_drafts np1 ! i \<and> draft_rows np' ! i = draft_rows np1 ! i)"
    using Cons.prems keep by (intro Cons.IH) simp_all
  then obtain np' where np': "propose_rows js num_tokens token_ids k np1 = Some np'" "buffers_ok n np'"
    "\<forall>i \<in> set js. num_drafts np' ! i = length (ref_draft num_tokens token_ids k np i) \<and>
       take (length (ref_draft num_tokens token_ids k np i)) (draft_rows np' ! i) =
       ref_draft num_tokens token_ids k np i"
    "\<forall>i. i \<notin> set js \<longrightarrow> num_drafts np' ! i = num_drafts np1 ! i \<and> draft_rows np' ! i = draft_rows np1 ! i"
    unfolding same by blast
  have "j \<notin> set js" using Cons.prems(3) by simp
  then show ?case using np' run row other by (auto simp: dr_def)
qed simp

lemma ngram_propose_ok:
  assumes "1 \<le> min_n np" "0 < max_n np" "k \<le> spec_k np" "buffers_ok (length sampled) np"
  shows "\<exists>np'. ngram_propose k sampled num_tokens token_ids np = Inr (Some (map (\<lambda>i.
      if sampled ! i = [] \<or> model_len np \<le> int (num_tokens ! i) then []
      else ref_draft num_tokens token_ids k np i)
    [0..<length sampled], np'))"
proof -
  let ?valid = "valid_requests sampled num_tokens (model_len np)"
  have "distinct ?valid" "\<forall>i \<in> set ?valid. i < length sampled" by (auto simp: valid_requests_def)
  from propose_rows_ok[OF assms(1,2) this assms(4)] obtain np' where
    np': "propose_rows ?valid num_tokens token_ids k np = Some np'"
    and r: "\<And>i. i \<in> set ?valid \<Longrightarrow> num_drafts np' ! i =
        length (ref_draft num_tokens token_ids k np i) \<and>
      take (length (ref_draft num_tokens token_ids k np i)) (draft_rows np' ! i) =
      ref_draft num_tokens token_ids k np i"
    by blast
  have "map (\<lambda>i. if i \<in> set ?valid \<and> num_drafts np' ! i > 0 then take (num_drafts np' ! i) (draft_rows np' ! i) else [])
      [0..<length sampled] =
    map (\<lambda>i. if sampled ! i = [] \<or> model_len np \<le> int (num_tokens ! i) then []
      else ref_draft num_tokens token_ids k np i) [0..<length sampled]"
  proof (rule map_cong[OF refl])
    fix i
    assume "i \<in> set [0..<length sampled]"
    then have v: "i \<in> set ?valid \<longleftrightarrow> \<not> (sampled ! i = [] \<or> model_len np \<le> int (num_tokens ! i))"
      by (auto simp: valid_requests_def)
    show "(if i \<in> set ?valid \<and> num_drafts np' ! i > 0 then take (num_drafts np' ! i) (draft_rows np' ! i) else []) =
      (if sampled ! i = [] \<or> model_len np \<le> int (num_tokens ! i) then []
       else ref_draft num_tokens token_ids k np i)"
      using v r[of i] by (cases "i \<in> set ?valid") auto
  qed
  then show ?thesis using np' assms(3) by (simp add: ngram_propose_def batch_propose_def)
qed

end
