(* ===== verification/Sizing_Properties.thy ===== *)
theory Sizing_Properties
  imports Sizing_Lemmas Ngram
begin

text \<open>The properties of KV cache sizing and of the n-gram drafter, each with a concrete instance.\<close>

subsection \<open>A small model\<close>

definition half_size :: "torch_dtype \<Rightarrow> int" where
  "half_size d = (case d of Float32 \<Rightarrow> 4 | OtherDtype _ \<Rightarrow> 2)"

definition sample_attn :: "int \<Rightarrow> attn_spec" where
  "sample_attn bs = \<lparr>attn_block_size = bs, num_kv_heads = 2, head_size = 4, dtype = OtherDtype 0,
     kv_quant_mode = QNone, page_size_padded = None, indexes_kv_by_block_stride = False\<rparr>"

definition sample_full :: "int \<Rightarrow> layer_spec" where
  "sample_full bs = FullAttention (attn_spec.extend (sample_attn bs) (full_spec.fields 4 None None False))"

definition sample_sliding :: "int \<Rightarrow> layer_spec" where
  "sample_sliding bs = SlidingWindow (attn_spec.extend (sample_attn bs) (sliding_spec.fields 8 4))"

definition sample_config :: vconfig where
  "sample_config = \<lparr>max_model_len = 100, dcp_size = 1, max_in_flight_tokens = 16, cache_mamba_mode = ''none'',
     max_num_encoder_input_tokens = 0, num_gpu_blocks_override = None, cache_block_size = 4,
     enable_prefix_caching = True, connector_enabled = False, prefix_match_unit = None\<rparr>"

definition sample_specs :: "kv_spec list" where
  "sample_specs = [Layer (sample_full 4), Layer (sample_sliding 4)]"


subsection \<open>Properties\<close>

text \<open>C31: The memory a request needs never shrinks when the context grows, so the binary search of
  \<open>estimate_max_model_len\<close> is exact: it ends, restores the configuration, and returns the largest length
  up to the configured one whose KV cache fits into the available memory, and 0 if even one token does
  not fit.  This holds for every kind of layer, provided that block sizes and pages are positive and the
  memory for one token is defined.\<close>

theorem longest_context_that_fits:
  assumes "\<forall>g \<in> set specs. spec_ok ds g" and "max_memory_usage_bytes ds (c\<lparr>max_model_len := 1\<rparr>) specs = Inr m1"
    and "1 \<le> max_model_len c"
  shows "\<exists>r. estimate_max_model_len ds specs avail c = Inr (r, c) \<and> 0 \<le> r \<and> r \<le> max_model_len c \<and>
    (\<forall>len. 1 \<le> len \<longrightarrow> len \<le> max_model_len c \<longrightarrow> (len \<le> r \<longleftrightarrow> fits_len ds specs avail c len))"
proof -
  obtain r where r: "estimate_max_model_len ds specs avail c = Inr (r, c)" "0 \<le> r" "r \<le> max_model_len c"
    "0 < r \<longrightarrow> fits_len ds specs avail c r"
    "\<forall>n. r < n \<longrightarrow> n \<le> max_model_len c \<longrightarrow> \<not> fits_len ds specs avail c n"
    using estimate_ok[OF assms] by blast
  have "len \<le> r \<longleftrightarrow> fits_len ds specs avail c len" if "1 \<le> len" "len \<le> max_model_len c" for len
    using that r(4,5) fits_len_antimono[OF assms(1), of len r avail c] by force
  then show ?thesis using r(1-3) by blast
qed

theorem longest_context_that_fits_witness:
  "\<exists>r. estimate_max_model_len half_size sample_specs 1500 sample_config = Inr (r, sample_config) \<and> r \<le> 100"
proof -
  have ok: "\<forall>g \<in> set sample_specs. spec_ok half_size g" by code_simp
  have "\<not> isl (max_memory_usage_bytes half_size (sample_config\<lparr>max_model_len := 1\<rparr>) sample_specs)" by code_simp
  then obtain m1 where m1: "max_memory_usage_bytes half_size (sample_config\<lparr>max_model_len := 1\<rparr>) sample_specs = Inr m1"
    by (cases "max_memory_usage_bytes half_size (sample_config\<lparr>max_model_len := 1\<rparr>) sample_specs") auto
  have len: "1 \<le> max_model_len sample_config" "max_model_len sample_config = 100" by (simp_all add: sample_config_def)
  show ?thesis using longest_context_that_fits[OF ok m1 len(1), of 1500] len(2) by auto
qed

text \<open>Whenever \<open>unify_kv_cache_spec_page_size\<close> returns, it returns the same layers in the same order,
  leaves the excluded ones alone, and gives all the others pages of one size.\<close>

theorem unified_pages_are_equal:
  assumes "unify_kv_cache_spec_page_size ds specs skip = Inr specs'"
  shows "map fst specs' = map fst specs \<and>
    (\<forall>((n, s), (n', s')) \<in> set (zip specs specs'). n \<in> set skip \<longrightarrow> s' = s) \<and>
    (\<exists>pg. \<forall>(n, s) \<in> set specs'. n \<notin> set skip \<longrightarrow> layer_page_size ds s = Inr pg)"
  using unify_ok[OF assms] by blast

theorem unified_pages_are_equal_witness:
  "\<exists>s1 s2 pg. unify_kv_cache_spec_page_size half_size [(''a'', sample_full 4), (''b'', sample_full 8)] [] =
       Inr [(''a'', s1), (''b'', s2)] \<and> layer_page_size half_size s1 = Inr pg \<and> layer_page_size half_size s2 = Inr pg"
proof -
  let ?in = "[(''a'', sample_full 4), (''b'', sample_full 8)]"
  have "\<not> isl (unify_kv_cache_spec_page_size half_size ?in [])" by code_simp
  then obtain out where run: "unify_kv_cache_spec_page_size half_size ?in [] = Inr out"
    by (cases "unify_kv_cache_spec_page_size half_size ?in []") auto
  note u = unified_pages_are_equal[OF run]
  obtain x y where out: "out = [x, y]" using u by (auto simp: Cons_eq_map_conv map_eq_Cons_conv)
  have names: "fst x = ''a''" "fst y = ''b''" using u by (auto simp: out)
  obtain pg where "\<forall>(n, s) \<in> set out. n \<notin> set [] \<longrightarrow> layer_page_size half_size s = Inr pg" using u by blast
  then have "layer_page_size half_size (snd x) = Inr pg" "layer_page_size half_size (snd y) = Inr pg"
    by (simp_all add: out case_prod_beta')
  then show ?thesis
    using run names by (intro exI[of _ "snd x"] exI[of _ "snd y"] exI[of _ pg]) (auto simp: out prod_eq_iff)
qed

text \<open>Grouping layers of a hybrid model loses and duplicates none: the groups of
  \<open>_get_kv_cache_groups_uniform_page_size\<close> contain every layer exactly once, the layers of a group share
  one specification, and no group is larger than the common group size.\<close>

theorem layers_are_partitioned:
  assumes "group_layers specs = Inr groups"
  shows "mset (concat groups) = mset (map fst specs) \<and>
    (\<forall>ns \<in> set groups. (\<exists>s. \<forall>n \<in> set ns. (n, s) \<in> set specs) \<and>
       length ns \<le> layer_group_size (map (\<lambda>(s, ns). length ns) (same_type_layers specs)))"
  using group_layers_ok[OF assms] by blast

theorem layers_are_partitioned_witness:
  "group_layers [(''f0'', sample_full 4), (''s0'', sample_sliding 4), (''s1'', sample_sliding 4)] =
     Inr [[''f0''], [''s0''], [''s1'']] \<and>
   mset (concat [[''f0''], [''s0''], [''s1'']]) = mset [''f0'', ''s0'', ''s1'']"
proof -
  let ?in = "[(''f0'', sample_full 4), (''s0'', sample_sliding 4), (''s1'', sample_sliding 4)]"
  have run: "group_layers ?in = Inr [[''f0''], [''s0''], [''s1'']]" by code_simp
  have "mset (concat [[''f0''], [''s0''], [''s1'']]) = mset (map fst ?in)"
    using layers_are_partitioned[OF run] by blast
  then show ?thesis using run by simp
qed

text \<open>C35: The two block sizes fit together: with several groups, every group's block size divides the
  scheduler's block size, the hash block size divides it too, and unless the two are equal (block hashes
  are unused, or a Mamba group diverges) the hash block size divides the block size of every group whose
  prefix can be cached.\<close>

theorem block_sizes_divide:
  assumes "resolve_kv_cache_block_sizes c groups = Inr (sched, unit)" and "2 \<le> length groups"
  shows "(\<forall>g \<in> set groups. group_block_size c g dvd sched) \<and> unit dvd sched \<and>
    (unit = sched \<or> (\<forall>g \<in> set groups. prefix_cacheable g \<longrightarrow> unit dvd group_block_size c g))"
  using resolve_ok[OF assms] by blast

theorem block_sizes_divide_witness:
  "resolve_kv_cache_block_sizes sample_config [Layer (sample_full 4), Layer (sample_sliding 6)] = Inr (12, 2) \<and>
     (2::int) dvd 12"
proof -
  have run: "resolve_kv_cache_block_sizes sample_config [Layer (sample_full 4), Layer (sample_sliding 6)] = Inr (12, 2)"
    by code_simp
  then show ?thesis using block_sizes_divide[OF run] by simp
qed

text \<open>\<open>_approximate_gcd\<close> is optimal: for positive values it returns the chunk size within the bounds
  that pads the values least in total, and the largest of several such.\<close>

theorem approximate_gcd_optimal:
  assumes "xs \<noteq> []" and "\<forall>x \<in> set xs. 0 < x" and "max 1 (case lower of None \<Rightarrow> 1 | Some l \<Rightarrow> l) \<le> Max (set xs)"
  shows "\<exists>d. approximate_gcd xs lower = Inr d \<and> max 1 (case lower of None \<Rightarrow> 1 | Some l \<Rightarrow> l) \<le> d \<and> d \<le> Max (set xs) \<and>
    (\<forall>e. max 1 (case lower of None \<Rightarrow> 1 | Some l \<Rightarrow> l) \<le> e \<longrightarrow> e \<le> Max (set xs) \<longrightarrow>
       total_pad xs d < total_pad xs e \<or> total_pad xs d = total_pad xs e \<and> e \<le> d)"
proof -
  let ?lo = "max 1 (case lower of None \<Rightarrow> 1 | Some l \<Rightarrow> l)"
  have mx: "py_max xs = Inr (Max (set xs))"
  proof (cases xs)
    case (Cons y ys)
    have "fold max ys y = Max (set (y # ys))" by (rule Max.set_eq_fold[symmetric])
    then show ?thesis by (simp add: py_max_def Cons)
  qed (use assms(1) in simp)
  have "\<not> list_ex (\<lambda>x. x \<le> 0) xs" using assms(2) by (auto simp: list_ex_iff)
  then have run: "approximate_gcd xs lower =
      Inr (fst (fold (best_chunk_step xs) [?lo..(Max (set xs) + 1) - 1] (?lo, None)))"
    using assms(1,3) mx by (simp add: approximate_gcd_def Let_def)
  have "?lo < Max (set xs) + 1" using assms(3) by simp
  from best_chunk_fold[OF this, of xs ?lo] show ?thesis
    unfolding run by (auto simp: better_chunk_def)
qed

theorem approximate_gcd_optimal_witness:
  "\<exists>d. approximate_gcd [6, 9] None = Inr d \<and> d \<le> 9 \<and> total_pad [6, 9] d \<le> total_pad [6, 9] 3"
proof -
  have ne: "[6::int, 9] \<noteq> []" and pos: "\<forall>x \<in> set [6::int, 9]. 0 < x" by simp_all
  have lo: "max 1 (case None of None \<Rightarrow> 1 | Some l \<Rightarrow> l) \<le> Max (set [6::int, 9])" by simp
  obtain d where d: "approximate_gcd [6, 9] None = Inr d" "d \<le> Max (set [6, 9])"
    and least: "\<forall>e. max 1 (case None of None \<Rightarrow> 1 | Some l \<Rightarrow> l) \<le> e \<longrightarrow> e \<le> Max (set [6, 9]) \<longrightarrow>
       total_pad [6, 9] d < total_pad [6, 9] e \<or> total_pad [6, 9] d = total_pad [6, 9] e \<and> e \<le> d"
    using approximate_gcd_optimal[OF ne pos lo] by blast
  have "total_pad [6, 9] d < total_pad [6, 9] 3 \<or> total_pad [6, 9] d = total_pad [6, 9] 3 \<and> 3 \<le> d"
    using least[rule_format, of 3] by simp
  then show ?thesis using d by auto
qed

text \<open>C32: The n-gram drafter proposes what the exhaustive search would: for every request that has
  sampled tokens and room left, the draft is the continuation of the first earlier occurrence of the
  longest suffix of its tokens, of \<open>min_n\<close> to \<open>max_n\<close> tokens, that occurs earlier, cut to \<open>k\<close> tokens and
  to the model's length; it is empty for the others.  In particular the search ends.\<close>

theorem ngram_draft_is_longest_match:
  assumes "1 \<le> min_n np" and "0 < max_n np" and "k \<le> spec_k np" and "buffers_ok (length sampled) np"
  shows "\<exists>np'. ngram_propose k sampled num_tokens token_ids np = Inr (Some (map (\<lambda>i.
      if sampled ! i = [] \<or> model_len np \<le> int (num_tokens ! i) then []
      else ngram_ref (take (num_tokens ! i) (token_ids ! i)) (min_n np) (max_n np) (model_len np) k)
    [0..<length sampled], np'))"
  using ngram_propose_ok[OF assms, of num_tokens token_ids] unfolding ref_draft_def .

definition sample_proposer :: ngram_proposer where
  "sample_proposer = \<lparr>min_n = 1, max_n = 3, spec_k = 2, model_len = 20,
     draft_rows = [[0, 0], [0, 0]], num_drafts = [0, 0]\<rparr>"

theorem ngram_draft_is_longest_match_witness:
  "\<exists>np'. ngram_propose 2 [[4], []] [7, 3] [[1, 2, 3, 4, 1, 2, 3], [5, 5, 5]] sample_proposer =
     Inr (Some ([[4, 1], []], np'))"
proof -
  have "1 \<le> min_n sample_proposer" "0 < max_n sample_proposer" "2 \<le> spec_k sample_proposer"
    "buffers_ok (length [[4::int], []]) sample_proposer"
    by (simp_all add: sample_proposer_def buffers_ok_def)
  from ngram_draft_is_longest_match[OF this, of "[7, 3]" "[[1, 2, 3, 4, 1, 2, 3], [5, 5, 5]]"]
  obtain np' where "ngram_propose 2 [[4::int], []] [7, 3] [[1, 2, 3, 4, 1, 2, 3], [5, 5, 5]] sample_proposer =
      Inr (Some (map (\<lambda>i. if [[4::int], []] ! i = [] \<or> model_len sample_proposer \<le> int ([7, 3] ! i) then []
        else ngram_ref (take ([7, 3] ! i) ([[1, 2, 3, 4, 1, 2, 3], [5, 5, 5]] ! i)) (min_n sample_proposer)
          (max_n sample_proposer) (model_len sample_proposer) 2) [0..<length [[4::int], []]], np'))" by blast
  moreover have "map (\<lambda>i. if [[4::int], []] ! i = [] \<or> model_len sample_proposer \<le> int ([7, 3] ! i) then []
        else ngram_ref (take ([7, 3] ! i) ([[1, 2, 3, 4, 1, 2, 3], [5, 5, 5]] ! i)) (min_n sample_proposer)
          (max_n sample_proposer) (model_len sample_proposer) 2) [0..<length [[4::int], []]] = [[4, 1], []]"
    by code_simp
  ultimately show ?thesis by auto
qed

end
