(* ===== verification/Tier_Index.thy ===== *)
theory Tier_Index
  imports Ordered_Dict
begin

text \<open>
  \<open>HostKVTierIndex\<close> of \<^verbatim>\<open>core/kv_tier_index.py\<close>: the host tier with an optional disk tier behind it and
  optional main-KV slots.  A host slot staged for a conversation (a trajectory) gets a disk slot as well;
  a trajectory that is wholly on disk is demoted, not deleted, when the host tier needs room, and promoted
  again when it is hit.  \<open>last_touch\<close>, the log lines and \<open>explain_miss\<close> are not modelled.

  Dictionaries from groups to slots are association lists.  Where the source iterates over a set (the
  groups due at a position, the disk slots of a superseded tail) the model uses the order of
  \<open>attn_gids\<close>, or of the lists the set was made from.
\<close>

subsection \<open>Trajectories\<close>

record tier_traj =
  tj_hashes :: "bytes list"
  tj_attn :: "(nat \<times> nat) list list"
  tj_boundary :: int
  tj_tail :: "(nat \<times> nat) list"
  tj_tail_hash :: bytes
  tj_tail_pending :: bool
  tj_disk_attn :: "(nat \<times> nat) list list"
  tj_disk_tail :: "(nat \<times> nat) list"
  tj_disk_boundary :: int
  tj_main :: "nat option list"

definition empty_traj :: tier_traj where
  "empty_traj = \<lparr>tj_hashes = [], tj_attn = [], tj_boundary = - 1, tj_tail = [], tj_tail_hash = [],
     tj_tail_pending = False, tj_disk_attn = [], tj_disk_tail = [], tj_disk_boundary = - 1, tj_main = []\<rparr>"

definition main_slot_list :: "tier_traj \<Rightarrow> nat list" where
  "main_slot_list tr = somes (tj_main tr)"

text \<open>\<open>xs[i] if i < len(xs) else {}\<close>.\<close>

definition at_position :: "(nat \<times> nat) list list \<Rightarrow> nat \<Rightarrow> (nat \<times> nat) list" where
  "at_position rows i = (if i < length rows then rows ! i else [])"

definition main_ready :: "nat set \<Rightarrow> tier_traj \<Rightarrow> nat \<Rightarrow> bool" where
  "main_ready main_pending tr i \<longleftrightarrow> i < length (tj_main tr) \<and>
     (case tj_main tr ! i of None \<Rightarrow> False | Some m \<Rightarrow> m \<notin> main_pending)"

definition on_disk :: "nat set \<Rightarrow> (nat \<times> nat) list \<Rightarrow> nat \<Rightarrow> bool" where
  "on_disk disk_pending disk gid \<longleftrightarrow> (case map_of disk gid of None \<Rightarrow> False | Some d \<Rightarrow> d \<notin> disk_pending)"

definition attn_complete :: "(nat \<Rightarrow> nat list) \<Rightarrow> nat set \<Rightarrow> tier_traj \<Rightarrow> nat \<Rightarrow> bool" where
  "attn_complete due disk_pending tr i \<longleftrightarrow>
     list_all (\<lambda>gid. map_of (at_position (tj_attn tr) i) gid \<noteq> None \<or>
                on_disk disk_pending (at_position (tj_disk_attn tr) i) gid) (due i)"

definition disk_tail_written :: "nat set \<Rightarrow> tier_traj \<Rightarrow> bool" where
  "disk_tail_written disk_pending tr \<longleftrightarrow>
     tj_disk_tail tr \<noteq> [] \<and> \<not> list_ex (\<lambda>d. d \<in> disk_pending) (map snd (tj_disk_tail tr))"

definition tail_available :: "nat set \<Rightarrow> tier_traj \<Rightarrow> bool" where
  "tail_available disk_pending tr \<longleftrightarrow>
     (tj_tail tr \<noteq> [] \<and> \<not> tj_tail_pending tr) \<or>
     (tj_disk_boundary tr = tj_boundary tr \<and> disk_tail_written disk_pending tr)"

definition resumable_len :: "(nat \<Rightarrow> nat list) \<Rightarrow> nat set \<Rightarrow> nat set option \<Rightarrow> tier_traj \<Rightarrow> nat" where
  "resumable_len due disk_pending main_pending tr =
     (let b = nat (tj_boundary tr) in
      if tj_boundary tr \<le> 0 \<or> \<not> tail_available disk_pending tr then 0
      else if tj_tail_hash tr = [] \<or> b > length (tj_hashes tr) \<or> tj_hashes tr ! (b - 1) \<noteq> tj_tail_hash tr then 0
      else
        let n = length (takeWhile (\<lambda>i. attn_complete due disk_pending tr i \<and>
                  (case main_pending of None \<Rightarrow> True | Some mp \<Rightarrow> main_ready mp tr i)) [0..<b]) in
        if n = b then n else 0)"

definition attn_prefix_len :: "(nat \<Rightarrow> nat list) \<Rightarrow> tier_traj \<Rightarrow> nat" where
  "attn_prefix_len due tr =
     length (takeWhile (\<lambda>(i, slots). list_all (\<lambda>g. map_of slots g \<noteq> None) (due i)) (enumerate 0 (tj_attn tr)))"

definition traj_host_slots :: "tier_traj \<Rightarrow> nat list" where
  "traj_host_slots tr = concat (map (map snd) (tj_attn tr)) @ map snd (tj_tail tr)"

definition traj_disk_slots :: "tier_traj \<Rightarrow> nat list" where
  "traj_disk_slots tr = concat (map (map snd) (tj_disk_attn tr)) @ map snd (tj_disk_tail tr)"

definition fully_on_disk :: "(nat \<Rightarrow> nat list) \<Rightarrow> nat set \<Rightarrow> tier_traj \<Rightarrow> bool" where
  "fully_on_disk due disk_pending tr \<longleftrightarrow>
     0 < tj_boundary tr \<and> tj_disk_boundary tr = tj_boundary tr \<and> disk_tail_written disk_pending tr \<and>
     list_all (\<lambda>i. list_all (on_disk disk_pending (at_position (tj_disk_attn tr) i)) (due i))
       [0..<nat (tj_boundary tr)]"


subsection \<open>The index\<close>

datatype slot_kind = AttnSlot nat | TailSlot nat

record tier_index =
  ti_num_slots :: nat
  ti_attn_gids :: "nat list"
  ti_ratio :: "nat \<Rightarrow> nat"
  ti_align :: nat
  ti_free :: "nat list"
  ti_trajs :: "(string \<times> tier_traj) list"
  ti_pending :: "nat set"
  ti_orphaned :: "nat set"
  ti_orphaned_busy :: "nat set"
  ti_orphaned_disk :: "nat set"
  ti_slot_kind :: "nat \<Rightarrow> slot_kind option"
  ti_num_disk :: nat
  ti_disk_free :: "nat list"
  ti_disk_pending :: "nat set"
  ti_disk_of_host :: "(nat \<times> nat) list"
  ti_host_busy :: "(nat \<times> nat) list"
  ti_promotions :: "(string \<times> nat list) list"
  ti_num_main :: nat
  ti_main_free :: "nat list"
  ti_main_pending :: "nat set"
  ti_main_pinned :: "(nat \<times> string set) list"
  ti_main_held :: "(nat \<times> nat set) list"
  ti_held_by_block :: "(nat \<times> nat set) list"

definition tier_init :: "int \<Rightarrow> nat list \<Rightarrow> int \<Rightarrow> (nat \<Rightarrow> nat) \<Rightarrow> int \<Rightarrow> tier_index res" where
  "tier_init n gids num_disk ratio num_main =
     rbind (guard AssertionError (0 < n)) (\<lambda>_.
     rbind (guard AssertionError (list_all (\<lambda>g. 1 \<le> ratio g) gids)) (\<lambda>_.
       Inr \<lparr>ti_num_slots = nat n, ti_attn_gids = gids, ti_ratio = ratio,
            ti_align = fold (\<lambda>g a. a * ratio g div gcd a (ratio g)) gids 1,
            ti_free = rev [0..<nat n], ti_trajs = [], ti_pending = {}, ti_orphaned = {}, ti_orphaned_busy = {},
            ti_orphaned_disk = {}, ti_slot_kind = Map.empty, ti_num_disk = nat (max 0 num_disk),
            ti_disk_free = rev [0..<nat (max 0 num_disk)], ti_disk_pending = {}, ti_disk_of_host = [],
            ti_host_busy = [], ti_promotions = [], ti_num_main = nat (max 0 num_main),
            ti_main_free = rev [0..<nat (max 0 num_main)], ti_main_pending = {}, ti_main_pinned = [],
            ti_main_held = [], ti_held_by_block = []\<rparr>))"

definition due :: "tier_index \<Rightarrow> nat \<Rightarrow> nat list" where
  "due ti i = (if ti_align ti = 1 then ti_attn_gids ti
     else filter (\<lambda>g. (i + 1) mod ti_ratio ti g = 0) (ti_attn_gids ti))"

definition require_main :: "tier_index \<Rightarrow> bool" where
  "require_main ti \<longleftrightarrow> 0 < ti_num_main ti"

definition touch_owner :: "string \<Rightarrow> tier_index \<Rightarrow> tier_index" where
  "touch_owner owner ti = ti\<lparr>ti_trajs := move_to_end owner (ti_trajs ti)\<rparr>"

definition put_traj :: "string \<Rightarrow> tier_traj \<Rightarrow> tier_index \<Rightarrow> tier_index" where
  "put_traj owner tr ti = ti\<lparr>ti_trajs := AList.update owner tr (ti_trajs ti)\<rparr>"

definition traj_of :: "string \<Rightarrow> tier_index \<Rightarrow> tier_traj" where
  "traj_of owner ti = (case map_of (ti_trajs ti) owner of None \<Rightarrow> empty_traj | Some tr \<Rightarrow> tr)"

text \<open>\<open>self._trajectories.setdefault(owner, Trajectory())\<close> and \<open>self.touch(owner)\<close>.\<close>

definition open_traj :: "string \<Rightarrow> tier_index \<Rightarrow> tier_index" where
  "open_traj owner ti = touch_owner owner (put_traj owner (traj_of owner ti) ti)"

definition free_disk_slot :: "nat \<Rightarrow> tier_index \<Rightarrow> tier_index" where
  "free_disk_slot d ti = ti\<lparr>ti_disk_pending := ti_disk_pending ti - {d}, ti_disk_free := ti_disk_free ti @ [d]\<rparr>"

text \<open>
  The loops that take one element out of the sets at some keys of a dictionary and delete the entries that
  become empty (\<open>_free_main_slot\<close>, \<open>unpin_main\<close>, \<open>unhold_main\<close>).
\<close>

definition forget_in :: "'a \<Rightarrow> 'k set \<Rightarrow> ('k \<times> 'a set) list \<Rightarrow> ('k \<times> 'a set) list" where
  "forget_in x ks d = map (\<lambda>(k, xs). (k, if k \<in> ks then xs - {x} else xs))
     (filter (\<lambda>(k, xs). k \<in> ks \<longrightarrow> xs - {x} \<noteq> {}) d)"

definition free_main_slot :: "nat \<Rightarrow> tier_index \<Rightarrow> tier_index" where
  "free_main_slot slot ti =
     ti\<lparr>ti_main_pending := ti_main_pending ti - {slot},
        ti_main_pinned := AList.delete slot (ti_main_pinned ti),
        ti_held_by_block := (case map_of (ti_main_held ti) slot of
           None \<Rightarrow> ti_held_by_block ti | Some blocks \<Rightarrow> forget_in slot blocks (ti_held_by_block ti)),
        ti_main_held := AList.delete slot (ti_main_held ti),
        ti_main_free := ti_main_free ti @ [slot]\<rparr>"

definition free_host_slots :: "nat list \<Rightarrow> tier_index \<Rightarrow> tier_index" where
  "free_host_slots ss ti =
     ti\<lparr>ti_disk_of_host := filter (\<lambda>(s, d). s \<notin> set ss) (ti_disk_of_host ti), ti_free := ti_free ti @ ss\<rparr>"

definition delete_owner :: "string \<Rightarrow> tier_traj \<Rightarrow> tier_index \<Rightarrow> tier_index" where
  "delete_owner owner tr ti =
     (let ti1 = free_host_slots (traj_host_slots tr) (ti\<lparr>ti_pending := ti_pending ti - set (traj_host_slots tr)\<rparr>);
          ti2 = fold free_disk_slot (traj_disk_slots tr) ti1;
          ti3 = fold free_main_slot (main_slot_list tr) ti2
      in ti3\<lparr>ti_trajs := AList.delete owner (ti_trajs ti3)\<rparr>)"

definition host_active :: "tier_index \<Rightarrow> nat \<Rightarrow> bool" where
  "host_active ti s \<longleftrightarrow> s \<in> ti_pending ti \<or> map_of (ti_host_busy ti) s \<noteq> None"

definition busy_traj :: "tier_index \<Rightarrow> tier_traj \<Rightarrow> bool" where
  "busy_traj ti tr \<longleftrightarrow> list_ex (host_active ti) (concat (map (map snd) (tj_attn tr))) \<or>
     list_ex (host_active ti) (map snd (tj_tail tr))"

definition main_busy :: "tier_index \<Rightarrow> tier_traj \<Rightarrow> bool" where
  "main_busy ti tr \<longleftrightarrow> list_ex (\<lambda>m. m \<in> ti_main_pending ti \<or> map_of (ti_main_pinned ti) m \<noteq> None \<or>
     map_of (ti_main_held ti) m \<noteq> None) (main_slot_list tr)"

definition promoting :: "tier_index \<Rightarrow> string \<Rightarrow> bool" where
  "promoting ti owner \<longleftrightarrow> map_of (ti_promotions ti) owner \<noteq> None"

text \<open>A trajectory whose copies are all on disk gives up its host slots.\<close>

definition demote :: "string \<Rightarrow> tier_traj \<Rightarrow> tier_index \<Rightarrow> tier_index" where
  "demote owner tr ti = put_traj owner
     (tr\<lparr>tj_attn := map (\<lambda>_. []) (tj_attn tr), tj_tail := [], tj_tail_pending := False\<rparr>)
     (free_host_slots (traj_host_slots tr) ti)"

fun reclaim_host_from :: "(string \<times> tier_traj) list \<Rightarrow> string \<Rightarrow> tier_index \<Rightarrow> bool \<times> tier_index" where
  "reclaim_host_from [] protect ti = (False, ti)"
| "reclaim_host_from ((owner, tr) # rest) protect ti =
     (if owner = protect \<or> promoting ti owner then reclaim_host_from rest protect ti
      else if tj_tail tr = [] \<and> list_all (\<lambda>row. row = []) (tj_attn tr) then reclaim_host_from rest protect ti
      else if busy_traj ti tr \<or> main_busy ti tr then reclaim_host_from rest protect ti
      else if traj_host_slots tr = [] then reclaim_host_from rest protect ti
      else (True, if main_slot_list tr = [] \<and> fully_on_disk (due ti) (ti_disk_pending ti) tr
                  then demote owner tr ti else delete_owner owner tr ti))"

definition reclaim_host :: "string \<Rightarrow> tier_index \<Rightarrow> bool \<times> tier_index" where
  "reclaim_host protect ti = reclaim_host_from (ti_trajs ti) protect ti"

text \<open>The disk copies of a trajectory that is also on the host are dropped.\<close>

definition drop_disk :: "string \<Rightarrow> tier_traj \<Rightarrow> tier_index \<Rightarrow> tier_index" where
  "drop_disk owner tr ti =
     (let ti1 = fold free_disk_slot (traj_disk_slots tr) ti in
      put_traj owner (tr\<lparr>tj_disk_attn := map (\<lambda>_. []) (tj_disk_attn tr), tj_disk_tail := [], tj_disk_boundary := - 1\<rparr>)
        (ti1\<lparr>ti_disk_of_host := filter (\<lambda>(s, d). d \<notin> set (traj_disk_slots tr)) (ti_disk_of_host ti1)\<rparr>))"

fun reclaim_disk_from :: "(string \<times> tier_traj) list \<Rightarrow> string \<Rightarrow> tier_index \<Rightarrow> bool \<times> tier_index" where
  "reclaim_disk_from [] protect ti = (False, ti)"
| "reclaim_disk_from ((owner, tr) # rest) protect ti =
     (if owner = protect \<or> promoting ti owner then reclaim_disk_from rest protect ti
      else if traj_disk_slots tr = [] \<or>
              list_ex (\<lambda>d. d \<in> ti_disk_pending ti \<or> d \<in> snd ` set (ti_host_busy ti)) (traj_disk_slots tr)
      then reclaim_disk_from rest protect ti
      else (True, if traj_host_slots tr = [] then delete_owner owner tr ti else drop_disk owner tr ti))"

definition reclaim_disk :: "string \<Rightarrow> tier_index \<Rightarrow> bool \<times> tier_index" where
  "reclaim_disk protect ti = reclaim_disk_from (ti_trajs ti) protect ti"

text \<open>\<open>list.pop()\<close> takes the last element and raises on an empty list.\<close>

definition pop_host :: "tier_index \<Rightarrow> (nat option \<times> tier_index) res" where
  "pop_host ti = (if ti_free ti = [] then Inl IndexError
     else let s = last (ti_free ti) in
       Inr (Some s, ti\<lparr>ti_free := butlast (ti_free ti), ti_pending := insert s (ti_pending ti)\<rparr>))"

definition pop_disk :: "tier_index \<Rightarrow> (nat option \<times> tier_index) res" where
  "pop_disk ti = (if ti_disk_free ti = [] then Inl IndexError
     else let d = last (ti_disk_free ti) in
       Inr (Some d, ti\<lparr>ti_disk_free := butlast (ti_disk_free ti), ti_disk_pending := insert d (ti_disk_pending ti)\<rparr>))"

definition alloc_host :: "string \<Rightarrow> tier_index \<Rightarrow> (nat option \<times> tier_index) res" where
  "alloc_host protect ti =
     (if ti_free ti = [] \<and> (length (ti_host_busy ti) = ti_num_slots ti \<or> card (ti_pending ti) = ti_num_slots ti)
      then Inr (None, ti)
      else if ti_free ti \<noteq> [] then pop_host ti
      else let (ok, ti1) = reclaim_host protect ti in if ok then pop_host ti1 else Inr (None, ti1))"

definition alloc_disk :: "string \<Rightarrow> tier_index \<Rightarrow> (nat option \<times> tier_index) res" where
  "alloc_disk protect ti =
     (if ti_num_disk ti = 0 then Inr (None, ti)
      else if ti_disk_free ti \<noteq> [] then pop_disk ti
      else let (ok, ti1) = reclaim_disk protect ti in if ok then pop_disk ti1 else Inr (None, ti1))"


subsection \<open>Staging\<close>

text \<open>\<open>_release_host_slot\<close>: a slot that is still written is an orphan until its write is confirmed.\<close>

definition release_host_slot :: "nat \<Rightarrow> tier_index \<Rightarrow> tier_index" where
  "release_host_slot s ti =
     (let ti1 = (case map_of (ti_disk_of_host ti) s of
                   None \<Rightarrow> ti
                 | Some d \<Rightarrow> free_disk_slot d (ti\<lparr>ti_disk_of_host := AList.delete s (ti_disk_of_host ti)\<rparr>)) in
      if s \<in> ti_pending ti1 then ti1\<lparr>ti_orphaned := insert s (ti_orphaned ti1)\<rparr>
      else ti1\<lparr>ti_free := ti_free ti1 @ [s]\<rparr>)"

definition release_row :: "(nat \<times> nat) list \<times> (nat \<times> nat) list \<Rightarrow> tier_index \<Rightarrow> tier_index" where
  "release_row = (\<lambda>(host, disk) ti. fold free_disk_slot (map snd disk) (fold release_host_slot (map snd host) ti))"

text \<open>
  \<open>_ensure_position\<close>.  The three position-indexed lists are always padded together, so they have one
  length; the answer is \<open>None\<close> (here \<open>False\<close>) when the position holds another hash and may not be
  superseded.
\<close>

definition pad_traj :: "nat \<Rightarrow> tier_traj \<Rightarrow> tier_traj" where
  "pad_traj n tr = (let k = n - length (tj_attn tr) in
     tr\<lparr>tj_attn := tj_attn tr @ replicate k [], tj_hashes := tj_hashes tr @ replicate k [],
        tj_disk_attn := tj_disk_attn tr @ replicate k []\<rparr>)"

definition cut_traj :: "nat \<Rightarrow> tier_traj \<Rightarrow> tier_traj" where
  "cut_traj n tr = (let k = length (tj_attn tr) - n in
     tr\<lparr>tj_attn := take n (tj_attn tr) @ replicate k [], tj_hashes := take n (tj_hashes tr) @ replicate k [],
        tj_disk_attn := take n (tj_disk_attn tr) @ replicate k []\<rparr>)"

definition bind_hash :: "nat \<Rightarrow> bytes \<Rightarrow> tier_traj \<Rightarrow> tier_traj" where
  "bind_hash i h tr = tr\<lparr>tj_hashes := (tj_hashes tr)[i := h]\<rparr>"

definition ensure_position :: "string \<Rightarrow> nat \<Rightarrow> bytes \<Rightarrow> bool \<Rightarrow> tier_index \<Rightarrow> bool \<times> tier_index" where
  "ensure_position owner logical h supersede ti =
     (let tr = pad_traj (logical + 1) (traj_of owner ti);
          ti1 = touch_owner owner (put_traj owner tr ti) in
      if tj_hashes tr ! logical \<noteq> [] \<and> tj_hashes tr ! logical \<noteq> h then
        if \<not> supersede then (False, ti1)
        else (True, put_traj owner (bind_hash logical h (cut_traj logical tr))
                (fold release_row (drop logical (zip (tj_attn tr) (tj_disk_attn tr))) ti1))
      else (True, put_traj owner (bind_hash logical h tr) ti1))"

definition note_hash :: "string \<Rightarrow> nat \<Rightarrow> bytes \<Rightarrow> bool \<Rightarrow> tier_index \<Rightarrow> bool \<times> tier_index" where
  "note_hash owner logical h supersede ti = ensure_position owner logical h supersede ti"

definition put_attn :: "nat \<Rightarrow> nat \<Rightarrow> nat \<Rightarrow> tier_traj \<Rightarrow> tier_traj" where
  "put_attn i g s tr = tr\<lparr>tj_attn := (tj_attn tr)[i := AList.update g s (tj_attn tr ! i)]\<rparr>"

definition put_disk :: "nat \<Rightarrow> nat \<Rightarrow> nat \<Rightarrow> tier_traj \<Rightarrow> tier_traj" where
  "put_disk i g d tr = tr\<lparr>tj_disk_attn := (tj_disk_attn tr)[i := AList.update g d (tj_disk_attn tr ! i)]\<rparr>"

definition tag_slot :: "nat \<Rightarrow> slot_kind \<Rightarrow> tier_index \<Rightarrow> tier_index" where
  "tag_slot s k ti = ti\<lparr>ti_slot_kind := (ti_slot_kind ti)(s \<mapsto> k)\<rparr>"

text \<open>\<open>stage_attention\<close>.  Making room never touches the trajectory of \<open>owner\<close>, so it is read once.\<close>

definition tier_stage_attention ::
  "string \<Rightarrow> nat \<Rightarrow> bytes \<Rightarrow> nat \<Rightarrow> bool \<Rightarrow> tier_index \<Rightarrow> (nat option \<times> tier_index) res" where
  "tier_stage_attention owner logical h gid supersede ti =
     (let (ok, ti1) = ensure_position owner logical h supersede ti; tr = traj_of owner ti1 in
      if \<not> ok \<or> map_of (tj_attn tr ! logical) gid \<noteq> None then Inr (None, ti1)
      else rbind (alloc_host owner ti1) (\<lambda>(os, ti2).
        case os of
          None \<Rightarrow> Inr (None, ti2)
        | Some s \<Rightarrow>
            let tr1 = bind_hash logical h (put_attn logical gid s tr);
                ti3 = put_traj owner tr1 (tag_slot s (AttnSlot gid) ti2) in
            if map_of (tj_disk_attn tr1 ! logical) gid \<noteq> None then Inr (Some s, ti3)
            else rbind (alloc_disk owner ti3) (\<lambda>(od, ti4).
              case od of
                None \<Rightarrow> Inr (Some s, ti4)
              | Some d \<Rightarrow> Inr (Some s, put_traj owner (put_disk logical gid d tr1)
                              (ti4\<lparr>ti_disk_of_host := AList.update s d (ti_disk_of_host ti4)\<rparr>)))))"

definition give_back :: "nat list \<Rightarrow> tier_index \<Rightarrow> tier_index" where
  "give_back ss ti = ti\<lparr>ti_pending := ti_pending ti - set ss, ti_free := ti_free ti @ ss\<rparr>"

fun alloc_tail ::
  "nat list \<Rightarrow> string \<Rightarrow> (nat \<times> nat) list \<Rightarrow> tier_index \<Rightarrow> ((nat \<times> nat) list option \<times> tier_index) res" where
  "alloc_tail [] owner slots ti = Inr (Some slots, ti)"
| "alloc_tail (g # gs) owner slots ti =
     rbind (alloc_host owner ti) (\<lambda>(os, ti1).
       case os of
         None \<Rightarrow> Inr (None, give_back (map snd slots) ti1)
       | Some s \<Rightarrow> alloc_tail gs owner (slots @ [(g, s)]) (tag_slot s (TailSlot g) ti1))"

definition retire_host :: "nat \<Rightarrow> tier_index \<Rightarrow> tier_index" where
  "retire_host s ti =
     (if map_of (ti_host_busy ti) s \<noteq> None then ti\<lparr>ti_orphaned_busy := insert s (ti_orphaned_busy ti)\<rparr>
      else if s \<in> ti_pending ti then ti\<lparr>ti_orphaned := insert s (ti_orphaned ti)\<rparr>
      else ti\<lparr>ti_free := ti_free ti @ [s]\<rparr>)"

definition retire_disk :: "nat \<Rightarrow> tier_index \<Rightarrow> tier_index" where
  "retire_disk d ti =
     (if d \<in> ti_disk_pending ti then ti\<lparr>ti_orphaned_disk := insert d (ti_orphaned_disk ti)\<rparr>
      else free_disk_slot d ti)"

text \<open>The previous tail of \<open>stage_tail_states\<close>: \<open>old_disk\<close> also collects the disk slots popped on the way.\<close>

definition retire_tail :: "tier_traj \<Rightarrow> tier_index \<Rightarrow> tier_index" where
  "retire_tail tr ti =
     (let old = map snd (tj_tail tr);
          popped = map snd (filter (\<lambda>(s, d). s \<in> set old) (ti_disk_of_host ti));
          ti1 = fold retire_host old
            (ti\<lparr>ti_disk_of_host := filter (\<lambda>(s, d). s \<notin> set old) (ti_disk_of_host ti)\<rparr>)
      in fold retire_disk (remdups (map snd (tj_disk_tail tr) @ popped)) ti1)"

fun alloc_disk_tail ::
  "nat list \<Rightarrow> string \<Rightarrow> (nat \<times> nat) list \<Rightarrow> tier_index \<Rightarrow> ((nat \<times> nat) list \<times> tier_index) res" where
  "alloc_disk_tail [] owner disk ti = Inr (disk, ti)"
| "alloc_disk_tail (g # gs) owner disk ti =
     rbind (alloc_disk owner ti) (\<lambda>(od, ti1).
       case od of
         None \<Rightarrow> Inr ([], fold free_disk_slot (map snd disk) ti1)
       | Some d \<Rightarrow> alloc_disk_tail gs owner (disk @ [(g, d)]) ti1)"

definition tier_stage_tail ::
  "string \<Rightarrow> int \<Rightarrow> nat \<Rightarrow> bytes \<Rightarrow> tier_index \<Rightarrow> ((nat \<times> nat) list option \<times> tier_index) res" where
  "tier_stage_tail owner boundary num_state_groups boundary_hash ti =
     (let ti1 = open_traj owner ti; tr = traj_of owner ti1 in
      rbind (alloc_tail [0..<num_state_groups] owner [] ti1) (\<lambda>(oss, ti2).
        case oss of
          None \<Rightarrow> Inr (None, ti2)
        | Some slots \<Rightarrow>
            let tr1 = tr\<lparr>tj_tail := slots, tj_boundary := boundary, tj_tail_hash := boundary_hash,
                         tj_tail_pending := True, tj_disk_tail := [], tj_disk_boundary := - 1\<rparr>;
                ti3 = put_traj owner tr1 (retire_tail tr ti2) in
            if ti_num_disk ti3 = 0 then Inr (Some slots, ti3)
            else rbind (alloc_disk_tail (map fst slots) owner [] ti3) (\<lambda>(disk, ti4).
              let ti5 = ti4\<lparr>ti_disk_of_host :=
                      fold (\<lambda>(s, d). AList.update s d) (zip (map snd slots) (map snd disk)) (ti_disk_of_host ti4)\<rparr>
              in Inr (Some slots, if disk = [] then ti5
                   else put_traj owner (tr1\<lparr>tj_disk_tail := disk, tj_disk_boundary := boundary\<rparr>) ti5))))"

definition confirm_slot :: "nat \<Rightarrow> tier_index \<Rightarrow> tier_index" where
  "confirm_slot s ti =
     (let ti1 = ti\<lparr>ti_pending := ti_pending ti - {s}\<rparr> in
      if s \<in> ti_orphaned ti1 then ti1\<lparr>ti_orphaned := ti_orphaned ti1 - {s}, ti_free := ti_free ti1 @ [s]\<rparr>
      else ti1)"

definition tier_settle_tail :: "nat set \<Rightarrow> tier_traj \<Rightarrow> tier_traj" where
  "tier_settle_tail pending tr =
     (if tj_tail_pending tr \<and> \<not> list_ex (\<lambda>s. s \<in> pending) (map snd (tj_tail tr))
      then tr\<lparr>tj_tail_pending := False\<rparr> else tr)"

definition tier_confirm_writes :: "nat list \<Rightarrow> tier_index \<Rightarrow> tier_index" where
  "tier_confirm_writes slots ti =
     (let ti1 = fold confirm_slot slots ti in
      ti1\<lparr>ti_trajs := map (\<lambda>(owner, tr). (owner, tier_settle_tail (ti_pending ti1) tr)) (ti_trajs ti1)\<rparr>)"


subsection \<open>Main-KV slots\<close>

definition alloc_main :: "string \<Rightarrow> tier_index \<Rightarrow> nat option \<times> tier_index" where
  "alloc_main protect ti =
     (let (ok, ti1) = (if ti_main_free ti = [] then reclaim_host protect ti else (True, ti)) in
      if \<not> ok \<or> ti_main_free ti1 = [] then (None, ti1)
      else let m = last (ti_main_free ti1) in
        (Some m, ti1\<lparr>ti_main_free := butlast (ti_main_free ti1), ti_main_pending := insert m (ti_main_pending ti1)\<rparr>))"

definition put_main :: "nat \<Rightarrow> nat option \<Rightarrow> tier_traj \<Rightarrow> tier_traj" where
  "put_main i m tr = tr\<lparr>tj_main := (tj_main tr)[i := m]\<rparr>"

definition reserve_main_slot :: "string \<Rightarrow> nat \<Rightarrow> tier_index \<Rightarrow> nat option \<times> tier_index" where
  "reserve_main_slot owner logical ti =
     (if \<not> require_main ti then (None, ti)
      else
        let ti0 = open_traj owner ti;
            tr = (traj_of owner ti0)\<lparr>tj_main := pad_to (logical + 1) None (tj_main (traj_of owner ti0))\<rparr>;
            ti1 = put_traj owner tr ti0 in
        (case tj_main tr ! logical of
           Some m \<Rightarrow> (Some m, ti1)
         | None \<Rightarrow>
             let (om, ti2) = alloc_main owner ti1 in
             (case om of
                None \<Rightarrow> (None, ti2)
              | Some m \<Rightarrow> (Some m, put_traj owner (put_main logical (Some m) tr) ti2))))"

definition main_slot :: "string \<Rightarrow> nat \<Rightarrow> tier_index \<Rightarrow> nat option" where
  "main_slot owner logical ti =
     (case map_of (ti_trajs ti) owner of
        None \<Rightarrow> None
      | Some tr \<Rightarrow> if length (tj_main tr) \<le> logical then None else tj_main tr ! logical)"

definition confirm_main :: "nat list \<Rightarrow> tier_index \<Rightarrow> tier_index" where
  "confirm_main slots ti = ti\<lparr>ti_main_pending := ti_main_pending ti - set slots\<rparr>"

fun release_main_at :: "nat list \<Rightarrow> string \<Rightarrow> nat list \<Rightarrow> tier_index \<Rightarrow> nat list \<times> tier_index" where
  "release_main_at [] owner freed ti = (freed, ti)"
| "release_main_at (i # is) owner freed ti =
     (let tr = traj_of owner ti in
      case tj_main tr ! i of
        None \<Rightarrow> release_main_at is owner freed ti
      | Some m \<Rightarrow>
          if m \<in> ti_main_pending ti
          then release_main_at is owner (freed @ [m]) (free_main_slot m (put_traj owner (put_main i None tr) ti))
          else release_main_at is owner freed ti)"

definition release_main_reservations :: "string \<Rightarrow> nat \<Rightarrow> tier_index \<Rightarrow> nat list \<times> tier_index" where
  "release_main_reservations owner filled_upto ti =
     (case map_of (ti_trajs ti) owner of
        None \<Rightarrow> ([], ti)
      | Some tr \<Rightarrow> release_main_at [filled_upto..<length (tj_main tr)] owner [] ti)"

definition main_slots_for :: "string \<Rightarrow> nat \<Rightarrow> tier_index \<Rightarrow> nat list res" where
  "main_slots_for owner n ti =
     (case map_of (ti_trajs ti) owner of
        None \<Rightarrow> Inl KeyError
      | Some tr \<Rightarrow>
          if length (tj_main tr) < n then Inl IndexError
          else rbind (guard AssertionError (list_all (\<lambda>m. m \<noteq> None) (take n (tj_main tr)))) (\<lambda>_.
            Inr (somes (take n (tj_main tr)))))"

text \<open>\<open>d.setdefault(k, set()).add(x)\<close>.\<close>

definition add_in :: "'a \<Rightarrow> 'k \<Rightarrow> ('k \<times> 'a set) list \<Rightarrow> ('k \<times> 'a set) list" where
  "add_in x k d = AList.update k (insert x (case map_of d k of None \<Rightarrow> {} | Some xs \<Rightarrow> xs)) d"

definition pin_main :: "string \<Rightarrow> nat \<Rightarrow> string \<Rightarrow> tier_index \<Rightarrow> tier_index res" where
  "pin_main owner n req_id ti = rbind (main_slots_for owner n ti) (\<lambda>slots.
     Inr (ti\<lparr>ti_main_pinned := fold (add_in req_id) slots (ti_main_pinned ti)\<rparr>))"

definition unpin_main :: "string \<Rightarrow> tier_index \<Rightarrow> tier_index" where
  "unpin_main req_id ti = ti\<lparr>ti_main_pinned :=
     forget_in req_id (fst ` set (filter (\<lambda>(s, reqs). req_id \<in> reqs) (ti_main_pinned ti))) (ti_main_pinned ti)\<rparr>"

definition hold_main :: "nat \<Rightarrow> nat \<Rightarrow> tier_index \<Rightarrow> tier_index" where
  "hold_main block slot ti = ti\<lparr>ti_main_held := add_in block slot (ti_main_held ti),
     ti_held_by_block := add_in slot block (ti_held_by_block ti)\<rparr>"

definition unhold_main :: "nat \<Rightarrow> nat option \<Rightarrow> tier_index \<Rightarrow> tier_index" where
  "unhold_main block keep ti =
     (let slots = (case map_of (ti_held_by_block ti) block of None \<Rightarrow> {} | Some slots \<Rightarrow> slots);
          kept = {s \<in> slots. Some s = keep} in
      ti\<lparr>ti_main_held := forget_in block (slots - kept) (ti_main_held ti),
         ti_held_by_block := (if kept = {} then AList.delete block (ti_held_by_block ti)
                              else AList.update block kept (ti_held_by_block ti))\<rparr>)"


subsection \<open>Disk writes and promotion\<close>

definition take_disk_write :: "nat \<Rightarrow> (nat \<times> nat) list \<times> tier_index \<Rightarrow> (nat \<times> nat) list \<times> tier_index" where
  "take_disk_write s = (\<lambda>(ops, ti).
     case map_of (ti_disk_of_host ti) s of
       None \<Rightarrow> (ops, ti)
     | Some d \<Rightarrow> (ops @ [(s, d)],
         ti\<lparr>ti_disk_of_host := AList.delete s (ti_disk_of_host ti),
            ti_host_busy := AList.update s d (ti_host_busy ti)\<rparr>))"

definition take_disk_writes :: "nat list \<Rightarrow> tier_index \<Rightarrow> (nat \<times> nat) list \<times> tier_index" where
  "take_disk_writes slots ti = fold take_disk_write slots ([], ti)"

definition confirm_disk_write :: "nat \<times> nat \<Rightarrow> tier_index \<Rightarrow> tier_index" where
  "confirm_disk_write = (\<lambda>(s, d) ti.
     let ti1 = (if map_of (ti_host_busy ti) s = Some d
                then ti\<lparr>ti_host_busy := AList.delete s (ti_host_busy ti)\<rparr> else ti);
         ti2 = ti1\<lparr>ti_disk_pending := ti_disk_pending ti1 - {d}\<rparr> in
     if s \<in> ti_orphaned_busy ti2 then
       free_disk_slot d (ti2\<lparr>ti_orphaned_busy := ti_orphaned_busy ti2 - {s}, ti_free := ti_free ti2 @ [s],
                            ti_orphaned_disk := ti_orphaned_disk ti2 - {d}\<rparr>)
     else if d \<in> ti_orphaned_disk ti2 then free_disk_slot d (ti2\<lparr>ti_orphaned_disk := ti_orphaned_disk ti2 - {d}\<rparr>)
     else ti2)"

definition confirm_disk_writes :: "(nat \<times> nat) list \<Rightarrow> tier_index \<Rightarrow> tier_index" where
  "confirm_disk_writes ops ti = fold confirm_disk_write ops ti"

type_synonym tier_hit = "string \<times> nat \<times> (nat \<times> nat) list list \<times> (nat \<times> nat) list"

definition needs_promotion :: "tier_hit \<Rightarrow> tier_index \<Rightarrow> bool" where
  "needs_promotion hit ti =
     (case hit of (owner, n, attn, tail) \<Rightarrow>
        case map_of (ti_trajs ti) owner of
          None \<Rightarrow> False
        | Some tr \<Rightarrow>
            list_ex (\<lambda>(i, row). \<not> list_all (\<lambda>g. map_of row g \<noteq> None) (due ti i)) (enumerate 0 (take n attn)) \<or>
            (0 < tj_boundary tr \<and> tail = [] \<and> tj_disk_tail tr \<noteq> []))"

definition rollback_promotion :: "string \<Rightarrow> nat list \<Rightarrow> tier_index \<Rightarrow> tier_index" where
  "rollback_promotion owner slots ti =
     (let tr = traj_of owner ti in
      give_back slots (put_traj owner
        (tr\<lparr>tj_attn := map (filter (\<lambda>(g, s). s \<notin> set slots)) (tj_attn tr),
            tj_tail := filter (\<lambda>(g, s). s \<notin> set slots) (tj_tail tr)\<rparr>) ti))"

text \<open>
  The loops of \<open>promote\<close>.  \<open>new_slots\<close> and \<open>reads\<close> grow together, so the new slots are the second
  components of \<open>reads\<close>.
\<close>

fun promote_position ::
  "nat \<Rightarrow> nat list \<Rightarrow> string \<Rightarrow> (nat \<times> nat) list \<Rightarrow> tier_index \<Rightarrow> ((nat \<times> nat) list option \<times> tier_index) res" where
  "promote_position i [] owner reads ti = Inr (Some reads, ti)"
| "promote_position i (g # gs) owner reads ti =
     (let tr = traj_of owner ti in
      if map_of (tj_attn tr ! i) g \<noteq> None then promote_position i gs owner reads ti
      else case map_of (tj_disk_attn tr ! i) g of
        None \<Rightarrow> Inl AssertionError
      | Some d \<Rightarrow>
          if d \<in> ti_disk_pending ti then Inl AssertionError
          else rbind (alloc_host owner ti) (\<lambda>(os, ti1).
            case os of
              None \<Rightarrow> Inr (None, rollback_promotion owner (map snd reads) ti1)
            | Some s \<Rightarrow> promote_position i gs owner (reads @ [(d, s)]) (put_traj owner (put_attn i g s tr) ti1)))"

fun promote_attn ::
  "nat list \<Rightarrow> string \<Rightarrow> (nat \<times> nat) list \<Rightarrow> tier_index \<Rightarrow> ((nat \<times> nat) list option \<times> tier_index) res" where
  "promote_attn [] owner reads ti = Inr (Some reads, ti)"
| "promote_attn (i # is) owner reads ti =
     (if length (tj_attn (traj_of owner ti)) \<le> i then Inl IndexError
      else rbind (promote_position i (due ti i) owner reads ti) (\<lambda>(ors, ti1).
        case ors of
          None \<Rightarrow> Inr (None, ti1)
        | Some reads1 \<Rightarrow> promote_attn is owner reads1 ti1))"

fun promote_tail ::
  "(nat \<times> nat) list \<Rightarrow> string \<Rightarrow> (nat \<times> nat) list \<Rightarrow> (nat \<times> nat) list \<Rightarrow> tier_index
    \<Rightarrow> (((nat \<times> nat) list \<times> (nat \<times> nat) list) option \<times> tier_index) res" where
  "promote_tail [] owner tail reads ti = Inr (Some (tail, reads), ti)"
| "promote_tail ((g, d) # disk) owner tail reads ti =
     rbind (alloc_host owner ti) (\<lambda>(os, ti1).
       case os of
         None \<Rightarrow> Inr (None, rollback_promotion owner (map snd reads) ti1)
       | Some s \<Rightarrow> promote_tail disk owner (tail @ [(g, s)]) (reads @ [(d, s)]) ti1)"

text \<open>\<open>if new_slots: self._promotions.setdefault(owner, []).extend(new_slots)\<close>.\<close>

definition note_promotion :: "string \<Rightarrow> nat list \<Rightarrow> tier_index \<Rightarrow> tier_index" where
  "note_promotion owner slots ti =
     (if slots = [] then ti
      else ti\<lparr>ti_promotions := AList.update owner
        ((case map_of (ti_promotions ti) owner of None \<Rightarrow> [] | Some ss \<Rightarrow> ss) @ slots) (ti_promotions ti)\<rparr>)"

type_synonym promotion = "(nat \<times> nat) list list \<times> (nat \<times> nat) list \<times> (nat \<times> nat) list"

definition tier_promote :: "string \<Rightarrow> nat \<Rightarrow> tier_index \<Rightarrow> (promotion option \<times> tier_index) res" where
  "tier_promote owner n ti =
     (if map_of (ti_trajs ti) owner = None then Inr (None, ti)
      else rbind (promote_attn [0..<n] owner [] ti) (\<lambda>(ors, ti1).
        case ors of
          None \<Rightarrow> Inr (None, ti1)
        | Some reads \<Rightarrow>
            let tr = traj_of owner ti1; attn = take n (tj_attn tr) in
            if tj_tail tr = [] \<or> tj_tail_pending tr then
              rbind (promote_tail (tj_disk_tail tr) owner [] reads ti1) (\<lambda>(ots, ti2).
                case ots of
                  None \<Rightarrow> Inr (None, ti2)
                | Some (tail, reads2) \<Rightarrow>
                    Inr (Some (attn, tail, reads2), note_promotion owner (map snd reads2)
                      (put_traj owner (tr\<lparr>tj_tail := tail, tj_tail_pending := (reads2 \<noteq> [])\<rparr>) ti2)))
            else Inr (Some (attn, tj_tail tr, reads), note_promotion owner (map snd reads) ti1)))"

definition confirm_promotion :: "string \<Rightarrow> tier_index \<Rightarrow> tier_index" where
  "confirm_promotion owner ti =
     (let ti1 = ti\<lparr>ti_promotions := AList.delete owner (ti_promotions ti)\<rparr> in
      case map_of (ti_promotions ti) owner of
        None \<Rightarrow> ti1
      | Some slots \<Rightarrow> if slots = [] then ti1 else tier_confirm_writes slots ti1)"

definition abort_promotion :: "string \<Rightarrow> tier_index \<Rightarrow> tier_index" where
  "abort_promotion owner ti =
     (let ti1 = ti\<lparr>ti_promotions := AList.delete owner (ti_promotions ti)\<rparr> in
      case (map_of (ti_trajs ti) owner, map_of (ti_promotions ti) owner) of
        (Some tr, Some slots) \<Rightarrow> if slots = [] then ti1 else rollback_promotion owner slots ti1
      | _ \<Rightarrow> ti1)"


subsection \<open>Lookup, dropping and statistics\<close>

definition row_pending :: "tier_index \<Rightarrow> (nat \<times> nat) list \<Rightarrow> bool" where
  "row_pending ti row \<longleftrightarrow> list_ex (\<lambda>s. s \<in> ti_pending ti) (map snd row)"

text \<open>The loop of \<open>lookup\<close> with \<open>allow_partial\<close>: positions that agree and are completely written.\<close>

definition partial_match :: "bytes list \<Rightarrow> tier_index \<Rightarrow> tier_traj \<Rightarrow> nat" where
  "partial_match hs ti tr =
     length (takeWhile (\<lambda>m. tj_hashes tr ! m = hs ! m \<and> \<not> row_pending ti (tj_attn tr ! m))
       [0..<min (attn_prefix_len (due ti) tr) (length hs)])"

definition main_pending_for :: "tier_index \<Rightarrow> nat set option" where
  "main_pending_for ti = (if require_main ti then Some (ti_main_pending ti) else None)"

definition no_better :: "nat \<Rightarrow> tier_hit option \<Rightarrow> bool" where
  "no_better n best \<longleftrightarrow> (case best of None \<Rightarrow> False | Some (_, m, _) \<Rightarrow> n \<le> m)"

definition consider_partial :: "bytes list \<Rightarrow> tier_index \<Rightarrow> string \<times> tier_traj \<Rightarrow> tier_hit option \<Rightarrow> tier_hit option" where
  "consider_partial hs ti = (\<lambda>(owner, tr) best.
     if promoting ti owner then best
     else
       let m = partial_match hs ti tr in
       if m = 0 \<or> no_better m best then best
       else Some (owner, m, take m (tj_attn tr), []))"

definition consider_whole :: "bytes list \<Rightarrow> tier_index \<Rightarrow> string \<times> tier_traj \<Rightarrow> tier_hit option \<Rightarrow> tier_hit option" where
  "consider_whole hs ti = (\<lambda>(owner, tr) best.
     let n = nat (tj_boundary tr) in
     if promoting ti owner then best
     else if tj_boundary tr \<le> 0 \<or> length hs < n then best
     else if no_better n best then best
     else if tj_hashes tr = [] \<or> tj_hashes tr ! 0 \<noteq> hs ! 0 then best
     else if \<not> tail_available (ti_disk_pending ti) tr then best
     else if take n (tj_hashes tr) \<noteq> take n hs then best
     else if resumable_len (due ti) (ti_disk_pending ti) (main_pending_for ti) tr \<noteq> n then best
     else if list_ex (row_pending ti) (take n (tj_attn tr)) then best
     else Some (owner, n, take n (tj_attn tr), if tj_tail_pending tr then [] else tj_tail tr))"

definition tier_lookup :: "bytes list \<Rightarrow> bool \<Rightarrow> tier_index \<Rightarrow> tier_hit option \<times> tier_index" where
  "tier_lookup hs allow_partial ti =
     (let best = fold (if allow_partial then consider_partial hs ti else consider_whole hs ti) (ti_trajs ti) None in
      (best, case best of None \<Rightarrow> ti | Some (owner, _) \<Rightarrow> touch_owner owner ti))"

definition tier_drop_owner :: "string \<Rightarrow> tier_index \<Rightarrow> tier_index" where
  "tier_drop_owner owner ti =
     (case map_of (ti_trajs ti) owner of
        None \<Rightarrow> ti
      | Some tr \<Rightarrow>
          if busy_traj ti tr \<or> main_busy ti tr \<or> promoting ti owner then ti
          else if list_ex (\<lambda>d. d \<in> ti_disk_pending ti) (traj_disk_slots tr) then ti
          else delete_owner owner tr ti)"

record index_stats =
  ix_slots :: nat
  ix_used :: int
  ix_trajectories :: nat
  ix_resumable :: nat
  ix_pending_writes :: nat
  ix_disk_slots :: nat
  ix_disk_used :: int
  ix_disk_pending :: nat
  ix_disk_only :: nat
  ix_main_slots :: nat
  ix_main_used :: int
  ix_main_pending :: nat
  ix_main_held :: nat

definition index_stats_of :: "tier_index \<Rightarrow> index_stats" where
  "index_stats_of ti =
     \<lparr>ix_slots = ti_num_slots ti, ix_used = int (ti_num_slots ti) - int (length (ti_free ti)),
      ix_trajectories = length (ti_trajs ti),
      ix_resumable = length (filter (\<lambda>(owner, tr).
        0 < resumable_len (due ti) (ti_disk_pending ti) (main_pending_for ti) tr \<or>
        0 < attn_prefix_len (due ti) tr) (ti_trajs ti)),
      ix_pending_writes = card (ti_pending ti), ix_disk_slots = ti_num_disk ti,
      ix_disk_used = int (ti_num_disk ti) - int (length (ti_disk_free ti)),
      ix_disk_pending = card (ti_disk_pending ti),
      ix_disk_only = length (filter (\<lambda>(owner, tr). traj_host_slots tr = [] \<and> traj_disk_slots tr \<noteq> []) (ti_trajs ti)),
      ix_main_slots = ti_num_main ti, ix_main_used = int (ti_num_main ti) - int (length (ti_main_free ti)),
      ix_main_pending = card (ti_main_pending ti), ix_main_held = length (ti_main_held ti)\<rparr>"

end
