(* ===== verification/Tier_Invariant.thy ===== *)
theory Tier_Invariant
  imports Tier_Index
begin

text \<open>
  The invariant of the tier index with a disk tier.  Host, disk and main-KV slots are each in one place: on
  the free list, in a trajectory, or with a write that still runs after its trajectory let go of them.
  \<open>tier_core L D M ti\<close> is the invariant while an operation holds the host slots \<open>L\<close>, the disk slots \<open>D\<close> and
  the main slots \<open>M\<close>; between calls all three are empty.
\<close>

definition attn_hosts :: "tier_traj \<Rightarrow> nat list" where
  "attn_hosts tr = concat (map (map snd) (tj_attn tr))"

definition attn_disks :: "tier_traj \<Rightarrow> nat list" where
  "attn_disks tr = concat (map (map snd) (tj_disk_attn tr))"

text \<open>A disk write connects the host copy and the disk copy of one block of one trajectory.\<close>

definition link_in :: "tier_traj \<Rightarrow> nat \<times> nat \<Rightarrow> bool" where
  "link_in tr = (\<lambda>(s, d). (s \<in> set (attn_hosts tr) \<and> d \<in> set (attn_disks tr)) \<or>
     (s \<in> set (map snd (tj_tail tr)) \<and> d \<in> set (map snd (tj_disk_tail tr))))"

definition linked :: "(string \<times> tier_traj) list \<Rightarrow> nat \<times> nat \<Rightarrow> bool" where
  "linked ts p \<longleftrightarrow> (\<exists>(owner, tr) \<in> set ts. link_in tr p)"

definition home_ok :: "nat multiset \<Rightarrow> nat multiset \<Rightarrow> tier_index \<Rightarrow> nat \<times> nat \<Rightarrow> bool" where
  "home_ok L D ti = (\<lambda>(s, d). linked (ti_trajs ti) (s, d) \<or> (s \<in># L \<and> d \<in># D) \<or>
     (s \<in> ti_orphaned_busy ti \<and> (d \<in># D \<or> d \<in> ti_orphaned_disk ti)))"

definition links :: "tier_index \<Rightarrow> (nat \<times> nat) list" where
  "links ti = ti_disk_of_host ti @ ti_host_busy ti"

definition tier_traj_ok :: "nat set \<Rightarrow> tier_traj \<Rightarrow> bool" where
  "tier_traj_ok P tr \<longleftrightarrow> length (tj_hashes tr) = length (tj_attn tr) \<and>
     length (tj_disk_attn tr) = length (tj_attn tr) \<and>
     (\<not> tj_tail_pending tr \<longrightarrow> set (map snd (tj_tail tr)) \<inter> P = {})"

abbreviation host_held :: "tier_index \<Rightarrow> nat multiset" where
  "host_held ti \<equiv> holdings traj_host_slots (ti_trajs ti)"

abbreviation disk_held :: "tier_index \<Rightarrow> nat multiset" where
  "disk_held ti \<equiv> holdings traj_disk_slots (ti_trajs ti)"

abbreviation main_slots_held :: "tier_index \<Rightarrow> nat multiset" where
  "main_slots_held ti \<equiv> holdings main_slot_list (ti_trajs ti)"

definition host_ledger :: "nat multiset \<Rightarrow> tier_index \<Rightarrow> bool" where
  "host_ledger L ti \<longleftrightarrow> finite (ti_orphaned ti) \<and> finite (ti_orphaned_busy ti) \<and>
     mset (ti_free ti) + host_held ti + mset_set (ti_orphaned ti) + mset_set (ti_orphaned_busy ti) + L =
       mset [0..<ti_num_slots ti] \<and>
     ti_pending ti \<subseteq> set_mset (host_held ti + L) \<union> ti_orphaned ti \<and> ti_orphaned ti \<subseteq> ti_pending ti"

definition disk_ledger :: "nat multiset \<Rightarrow> tier_index \<Rightarrow> bool" where
  "disk_ledger D ti \<longleftrightarrow> finite (ti_orphaned_disk ti) \<and>
     mset (ti_disk_free ti) + disk_held ti + mset_set (ti_orphaned_disk ti) + D = mset [0..<ti_num_disk ti] \<and>
     ti_disk_pending ti \<subseteq> set_mset (disk_held ti + D) \<union> ti_orphaned_disk ti \<and>
     ti_orphaned_disk ti \<subseteq> ti_disk_pending ti"

definition main_ledger :: "nat multiset \<Rightarrow> tier_index \<Rightarrow> bool" where
  "main_ledger M ti \<longleftrightarrow> mset (ti_main_free ti) + main_slots_held ti + M = mset [0..<ti_num_main ti] \<and>
     ti_main_pending ti \<subseteq> set_mset (main_slots_held ti + M)"

definition links_ok :: "nat multiset \<Rightarrow> nat multiset \<Rightarrow> tier_index \<Rightarrow> bool" where
  "links_ok L D ti \<longleftrightarrow> distinct (map fst (links ti)) \<and> distinct (map snd (links ti)) \<and>
     (\<forall>p \<in> set (links ti). home_ok L D ti p \<and> snd p \<in> ti_disk_pending ti) \<and>
     fst ` set (ti_host_busy ti) \<inter> ti_pending ti = {} \<and> ti_orphaned_busy ti \<subseteq> fst ` set (ti_host_busy ti)"

definition trajs_ok :: "tier_index \<Rightarrow> bool" where
  "trajs_ok ti \<longleftrightarrow> distinct (map fst (ti_trajs ti)) \<and>
     (\<forall>(owner, tr) \<in> set (ti_trajs ti). tier_traj_ok (ti_pending ti) tr)"

definition tier_core :: "nat multiset \<Rightarrow> nat multiset \<Rightarrow> nat multiset \<Rightarrow> tier_index \<Rightarrow> bool" where
  "tier_core L D M ti \<longleftrightarrow>
     trajs_ok ti \<and> host_ledger L ti \<and> disk_ledger D ti \<and> main_ledger M ti \<and> links_ok L D ti"

abbreviation tier_inv :: "tier_index \<Rightarrow> bool" where
  "tier_inv \<equiv> tier_core {#} {#} {#}"

lemma tier_coreD:
  assumes "tier_core L D M ti"
  shows "trajs_ok ti" "host_ledger L ti" "disk_ledger D ti" "main_ledger M ti" "links_ok L D ti"
    "distinct (map fst (ti_trajs ti))"
  using assms by (auto simp: tier_core_def trajs_ok_def)

lemma traj_slots_split:
  "traj_host_slots tr = attn_hosts tr @ map snd (tj_tail tr)"
  "traj_disk_slots tr = attn_disks tr @ map snd (tj_disk_tail tr)"
  by (simp_all add: traj_host_slots_def traj_disk_slots_def attn_hosts_def attn_disks_def)

lemma empty_traj_simps [simp]:
  "tier_traj_ok P empty_traj" "traj_host_slots empty_traj = []" "traj_disk_slots empty_traj = []"
  "main_slot_list empty_traj = []" "tj_attn empty_traj = []" "\<not> link_in empty_traj p"
  by (auto simp: tier_traj_ok_def empty_traj_def traj_host_slots_def traj_disk_slots_def main_slot_list_def
      link_in_def attn_hosts_def attn_disks_def)

lemma link_in_slots:
  "link_in tr (s, d) \<Longrightarrow> s \<in> set (traj_host_slots tr) \<and> d \<in> set (traj_disk_slots tr)"
  by (auto simp: link_in_def traj_slots_split)

lemma linked_held: "linked (ti_trajs ti) (s, d) \<Longrightarrow> s \<in># host_held ti \<and> d \<in># disk_held ti"
  by (force simp: linked_def set_holdings dest: link_in_slots)

text \<open>A slot is in one place only.\<close>

lemma mset_parts_disjoint:
  assumes "X + Y = mset xs" "distinct xs" "x \<in># X"
  shows "x \<notin># Y"
proof -
  have "count (X + Y) x \<le> 1" using assms(1,2) by (simp add: distinct_count_atmost_1)
  then have "count X x + count Y x \<le> 1" by simp
  moreover have "0 < count X x" using assms(3) by simp
  ultimately have "count Y x = 0" by linarith
  then show ?thesis by (simp add: not_in_iff)
qed

lemma host_ledger_sum:
  assumes "host_ledger L ti"
  shows "mset (ti_free ti) + (host_held ti + mset_set (ti_orphaned ti) + mset_set (ti_orphaned_busy ti) + L) =
      mset [0..<ti_num_slots ti]"
    "host_held ti + (mset_set (ti_orphaned ti) + mset_set (ti_orphaned_busy ti) + L + mset (ti_free ti)) =
      mset [0..<ti_num_slots ti]"
    "mset_set (ti_orphaned ti) + (mset_set (ti_orphaned_busy ti) + L + mset (ti_free ti) + host_held ti) =
      mset [0..<ti_num_slots ti]"
    "mset_set (ti_orphaned_busy ti) + (L + mset (ti_free ti) + host_held ti + mset_set (ti_orphaned ti)) =
      mset [0..<ti_num_slots ti]"
    "finite (ti_orphaned ti)" "finite (ti_orphaned_busy ti)"
  using assms by (auto simp: host_ledger_def ac_simps)

lemma disk_ledger_sum:
  assumes "disk_ledger D ti"
  shows "mset (ti_disk_free ti) + (disk_held ti + mset_set (ti_orphaned_disk ti) + D) = mset [0..<ti_num_disk ti]"
    "disk_held ti + (mset_set (ti_orphaned_disk ti) + D + mset (ti_disk_free ti)) = mset [0..<ti_num_disk ti]"
    "mset_set (ti_orphaned_disk ti) + (D + mset (ti_disk_free ti) + disk_held ti) = mset [0..<ti_num_disk ti]"
    "finite (ti_orphaned_disk ti)"
  using assms by (auto simp: disk_ledger_def ac_simps)

lemma host_places:
  assumes "host_ledger L ti"
  shows "s \<in> set (ti_free ti) \<Longrightarrow> s \<notin># host_held ti \<and> s \<notin> ti_orphaned ti \<and> s \<notin> ti_orphaned_busy ti \<and> s \<notin># L"
    "s \<in># host_held ti \<Longrightarrow> s \<notin> ti_orphaned ti \<and> s \<notin> ti_orphaned_busy ti \<and> s \<notin># L"
    "s \<in> ti_orphaned ti \<Longrightarrow> s \<notin> ti_orphaned_busy ti \<and> s \<notin># L"
    "s \<in> ti_orphaned_busy ti \<Longrightarrow> s \<notin># L"
  using mset_parts_disjoint[OF host_ledger_sum(1)[OF assms] distinct_upt, of s]
    mset_parts_disjoint[OF host_ledger_sum(2)[OF assms] distinct_upt, of s]
    mset_parts_disjoint[OF host_ledger_sum(3)[OF assms] distinct_upt, of s]
    mset_parts_disjoint[OF host_ledger_sum(4)[OF assms] distinct_upt, of s]
    host_ledger_sum(5,6)[OF assms] by auto

lemma disk_places:
  assumes "disk_ledger D ti"
  shows "d \<in> set (ti_disk_free ti) \<Longrightarrow> d \<notin># disk_held ti \<and> d \<notin> ti_orphaned_disk ti \<and> d \<notin># D"
    "d \<in># disk_held ti \<Longrightarrow> d \<notin> ti_orphaned_disk ti \<and> d \<notin># D"
    "d \<in> ti_orphaned_disk ti \<Longrightarrow> d \<notin># D"
  using mset_parts_disjoint[OF disk_ledger_sum(1)[OF assms] distinct_upt, of d]
    mset_parts_disjoint[OF disk_ledger_sum(2)[OF assms] distinct_upt, of d]
    mset_parts_disjoint[OF disk_ledger_sum(3)[OF assms] distinct_upt, of d]
    disk_ledger_sum(4)[OF assms] by auto

text \<open>Two trajectories have no slot in common.\<close>

lemma holdings_apart:
  assumes "holdings f d + R = mset xs" "distinct xs" "(k, v) \<in> set d" "(j, w) \<in> set d" "j \<noteq> k"
    "x \<in> set (f v)"
  shows "x \<notin> set (f w)"
  using assms
proof (induction d arbitrary: R)
  case (Cons e d)
  obtain i u where e: "e = (i, u)" by (cases e)
  have sum: "mset (f u) + (holdings f d + R) = mset xs" "holdings f d + (mset (f u) + R) = mset xs"
    using Cons.prems(1) by (simp_all add: e ac_simps)
  show ?case
  proof (cases "(k, v) \<in> set d \<and> (j, w) \<in> set d")
    case True
    then show ?thesis using Cons.IH[OF sum(2)] Cons.prems by blast
  next
    case False
    have in_d: "y \<in># holdings f d" if "(i', u') \<in> set d" "y \<in> set (f u')" for i' u' y
      using that by (force simp: set_holdings)
    show ?thesis
      using False Cons.prems(3-6) mset_parts_disjoint[OF sum(1) Cons.prems(2), of x] in_d[of k v x] in_d[of j w x]
      by (auto simp: e)
  qed
qed simp


subsection \<open>Elementary steps\<close>

lemma tier_init_inv: "tier_init n gids nd ratio nm = Inr ti \<Longrightarrow> tier_inv ti"
  by (auto simp: tier_init_def tier_core_def trajs_ok_def host_ledger_def disk_ledger_def main_ledger_def
      links_ok_def links_def)

lemma home_ok_move: "distinct (map fst (ti_trajs ti)) \<Longrightarrow> home_ok L D (touch_owner owner ti) p = home_ok L D ti p"
  by (simp add: home_ok_def touch_owner_def linked_def)

lemma touch_fields [simp]:
  "ti_free (touch_owner owner ti) = ti_free ti" "ti_pending (touch_owner owner ti) = ti_pending ti"
  "ti_orphaned (touch_owner owner ti) = ti_orphaned ti"
  "ti_orphaned_busy (touch_owner owner ti) = ti_orphaned_busy ti"
  "ti_orphaned_disk (touch_owner owner ti) = ti_orphaned_disk ti"
  "ti_disk_free (touch_owner owner ti) = ti_disk_free ti"
  "ti_disk_pending (touch_owner owner ti) = ti_disk_pending ti"
  "ti_disk_of_host (touch_owner owner ti) = ti_disk_of_host ti"
  "ti_host_busy (touch_owner owner ti) = ti_host_busy ti" "links (touch_owner owner ti) = links ti"
  "ti_main_free (touch_owner owner ti) = ti_main_free ti"
  "ti_main_pending (touch_owner owner ti) = ti_main_pending ti"
  "ti_num_slots (touch_owner owner ti) = ti_num_slots ti" "ti_num_disk (touch_owner owner ti) = ti_num_disk ti"
  "ti_num_main (touch_owner owner ti) = ti_num_main ti" "ti_promotions (touch_owner owner ti) = ti_promotions ti"
  "ti_attn_gids (touch_owner owner ti) = ti_attn_gids ti" "ti_ratio (touch_owner owner ti) = ti_ratio ti"
  "ti_align (touch_owner owner ti) = ti_align ti"
  by (simp_all add: touch_owner_def links_def)

lemma touch_trajs:
  assumes "distinct (map fst (ti_trajs ti))"
  shows "holdings f (ti_trajs (touch_owner owner ti)) = holdings f (ti_trajs ti)"
    "set (ti_trajs (touch_owner owner ti)) = set (ti_trajs ti)"
    "distinct (map fst (ti_trajs (touch_owner owner ti)))"
  using assms by (simp_all add: touch_owner_def)

lemma touch_owner_core:
  assumes "tier_core L D M ti"
  shows "tier_core L D M (touch_owner owner ti)"
  using assms
  by (simp add: touch_trajs[OF tier_coreD(6)[OF assms]] home_ok_move[OF tier_coreD(6)[OF assms]] tier_core_def trajs_ok_def host_ledger_def disk_ledger_def main_ledger_def links_ok_def)

lemma traj_of_Some: "map_of (ti_trajs ti) owner = Some tr \<Longrightarrow> traj_of owner ti = tr"
  by (simp add: traj_of_def)

lemma traj_of_put [simp]: "traj_of owner (put_traj owner tr ti) = tr"
  by (simp add: traj_of_def put_traj_def update_conv')

lemma traj_of_touch [simp]: "traj_of u (touch_owner owner ti) = traj_of u ti"
  by (simp add: traj_of_def touch_owner_def)

lemma traj_of_ok: "trajs_ok ti \<Longrightarrow> tier_traj_ok (ti_pending ti) (traj_of owner ti)"
  by (auto simp: traj_of_def trajs_ok_def split: option.splits dest: map_of_SomeD)

lemma holdings_put_traj:
  assumes "f empty_traj = []"
  shows "holdings f (ti_trajs (put_traj owner tr ti)) + mset (f (traj_of owner ti)) =
     holdings f (ti_trajs ti) + mset (f tr)"
  using assms
  by (cases "map_of (ti_trajs ti) owner") (simp_all add: traj_of_def put_traj_def holdings_new holdings_set)

lemma holdings_exchange:
  assumes "f empty_traj = []" "mset (f tr) + L' = mset (f (traj_of owner ti)) + L"
  shows "holdings f (ti_trajs (put_traj owner tr ti)) + L' = holdings f (ti_trajs ti) + L"
  by (rule mset_exchange[OF holdings_put_traj assms(2)]) (rule assms(1))

lemma put_traj_fields [simp]:
  "ti_free (put_traj owner tr ti) = ti_free ti" "ti_pending (put_traj owner tr ti) = ti_pending ti"
  "ti_orphaned (put_traj owner tr ti) = ti_orphaned ti"
  "ti_orphaned_busy (put_traj owner tr ti) = ti_orphaned_busy ti"
  "ti_orphaned_disk (put_traj owner tr ti) = ti_orphaned_disk ti"
  "ti_disk_free (put_traj owner tr ti) = ti_disk_free ti"
  "ti_disk_pending (put_traj owner tr ti) = ti_disk_pending ti"
  "ti_disk_of_host (put_traj owner tr ti) = ti_disk_of_host ti"
  "ti_host_busy (put_traj owner tr ti) = ti_host_busy ti" "links (put_traj owner tr ti) = links ti"
  "ti_main_free (put_traj owner tr ti) = ti_main_free ti"
  "ti_main_pending (put_traj owner tr ti) = ti_main_pending ti"
  "ti_num_slots (put_traj owner tr ti) = ti_num_slots ti" "ti_num_disk (put_traj owner tr ti) = ti_num_disk ti"
  "ti_num_main (put_traj owner tr ti) = ti_num_main ti" "ti_promotions (put_traj owner tr ti) = ti_promotions ti"
  "ti_attn_gids (put_traj owner tr ti) = ti_attn_gids ti" "ti_ratio (put_traj owner tr ti) = ti_ratio ti"
  "ti_align (put_traj owner tr ti) = ti_align ti"
  by (simp_all add: put_traj_def links_def)

text \<open>Storing a trajectory: what it no longer holds is in hand, and what it newly holds was in hand.\<close>

lemma put_traj_core:
  assumes core: "tier_core L D M ti" and ok: "tier_traj_ok (ti_pending ti) tr"
    and host: "mset (traj_host_slots tr) + L' = mset (traj_host_slots (traj_of owner ti)) + L"
    and disk: "mset (traj_disk_slots tr) + D' = mset (traj_disk_slots (traj_of owner ti)) + D"
    and main: "mset (main_slot_list tr) + M' = mset (main_slot_list (traj_of owner ti)) + M"
    and home: "\<And>p. p \<in> set (links ti) \<Longrightarrow> home_ok L' D' (put_traj owner tr ti) p"
  shows "tier_core L' D' M' (put_traj owner tr ti)"
proof -
  have h: "host_held (put_traj owner tr ti) + L' = host_held ti + L"
    by (rule holdings_exchange[where ti = ti]) (simp_all add: host)
  have d: "disk_held (put_traj owner tr ti) + D' = disk_held ti + D"
    by (rule holdings_exchange[where ti = ti]) (simp_all add: disk)
  have m: "main_slots_held (put_traj owner tr ti) + M' = main_slots_held ti + M"
    by (rule holdings_exchange[where ti = ti]) (simp_all add: main)
  have hs: "set_mset (host_held (put_traj owner tr ti) + L') = set_mset (host_held ti + L)" by (simp only: h)
  have ds: "set_mset (disk_held (put_traj owner tr ti) + D') = set_mset (disk_held ti + D)" by (simp only: d)
  have ms: "set_mset (main_slots_held (put_traj owner tr ti) + M') = set_mset (main_slots_held ti + M)"
    by (simp only: m)
  let ?X = "mset (ti_free ti) + mset_set (ti_orphaned ti) + mset_set (ti_orphaned_busy ti)"
  have "?X + (host_held (put_traj owner tr ti) + L') = mset [0..<ti_num_slots ti]"
    using host_ledger_sum(1)[OF tier_coreD(2)[OF core]] unfolding h by (simp add: ac_simps)
  then have "host_ledger L' (put_traj owner tr ti)"
    using tier_coreD(2)[OF core] hs by (simp add: host_ledger_def ac_simps)
  moreover have "mset (ti_disk_free ti) + mset_set (ti_orphaned_disk ti) +
      (disk_held (put_traj owner tr ti) + D') = mset [0..<ti_num_disk ti]"
    using disk_ledger_sum(1)[OF tier_coreD(3)[OF core]] unfolding d by (simp add: ac_simps)
  then have "disk_ledger D' (put_traj owner tr ti)"
    using tier_coreD(3)[OF core] ds by (simp add: disk_ledger_def ac_simps)
  moreover have "main_ledger M' (put_traj owner tr ti)"
    using tier_coreD(4)[OF core] m ms by (simp add: main_ledger_def add.assoc)
  moreover have "trajs_ok (put_traj owner tr ti)"
    using tier_coreD(1)[OF core] ok
    by (auto simp: trajs_ok_def) (auto simp: put_traj_def distinct_update set_dict_update)
  moreover have "links_ok L' D' (put_traj owner tr ti)"
    using tier_coreD(5)[OF core] home by (simp add: links_ok_def)
  ultimately show ?thesis by (simp add: tier_core_def)
qed

lemma linked_put:
  assumes "distinct (map fst (ti_trajs ti))"
  shows "linked (ti_trajs (put_traj owner tr ti)) p \<longleftrightarrow>
    link_in tr p \<or> (\<exists>(u, tr') \<in> set (ti_trajs ti). u \<noteq> owner \<and> link_in tr' p)"
  using assms by (auto simp: linked_def put_traj_def set_dict_update)

lemma linked_split:
  assumes "distinct (map fst (ti_trajs ti))" "linked (ti_trajs ti) p"
  shows "link_in (traj_of owner ti) p \<or> (\<exists>(u, tr') \<in> set (ti_trajs ti). u \<noteq> owner \<and> link_in tr' p)"
proof -
  obtain u tr where u: "(u, tr) \<in> set (ti_trajs ti)" "link_in tr p" using assms(2) by (auto simp: linked_def)
  show ?thesis
  proof (cases "u = owner")
    case True
    then have "map_of (ti_trajs ti) owner = Some tr" using u assms(1) by simp
    then show ?thesis using u by (simp add: traj_of_def)
  next
    case False
    then show ?thesis using u by auto
  qed
qed

lemma home_put:
  assumes core: "tier_core L D M ti" and p: "(s, d) \<in> set (links ti)"
    and old: "link_in (traj_of owner ti) (s, d) \<Longrightarrow> link_in tr (s, d) \<or> (s \<in># L' \<and> d \<in># D')"
    and hand: "s \<in># L \<Longrightarrow> d \<in># D \<Longrightarrow> link_in tr (s, d) \<or> (s \<in># L' \<and> d \<in># D')"
    and busy: "s \<in> ti_orphaned_busy ti \<Longrightarrow> d \<in># D \<Longrightarrow> d \<in># D'"
  shows "home_ok L' D' (put_traj owner tr ti) (s, d)"
proof -
  note dist = tier_coreD(6)[OF core]
  have "home_ok L D ti (s, d)" using tier_coreD(5)[OF core] p by (auto simp: links_ok_def)
  then show ?thesis
    using linked_split[OF dist, of "(s, d)" owner] old hand busy
    by (auto simp: home_ok_def linked_put[OF dist])
qed


lemma link_hosts:
  assumes core: "tier_core L D M ti" and s: "s \<in> fst ` set (links ti)"
  shows "s \<in># host_held ti + L \<or> s \<in> ti_orphaned_busy ti"
proof -
  obtain d where p: "(s, d) \<in> set (links ti)" using s by auto
  then have "home_ok L D ti (s, d)" using tier_coreD(5)[OF core] by (auto simp: links_ok_def)
  then show ?thesis by (auto simp: home_ok_def dest: linked_held)
qed

lemma link_disks:
  assumes core: "tier_core L D M ti" and d: "d \<in> snd ` set (links ti)"
  shows "d \<in># disk_held ti + D \<or> d \<in> ti_orphaned_disk ti" "d \<in> ti_disk_pending ti"
proof -
  obtain s where p: "(s, d) \<in> set (links ti)" using d by auto
  then have "home_ok L D ti (s, d)" "d \<in> ti_disk_pending ti"
    using tier_coreD(5)[OF core] by (auto simp: links_ok_def)
  then show "d \<in># disk_held ti + D \<or> d \<in> ti_orphaned_disk ti" "d \<in> ti_disk_pending ti"
    by (auto simp: home_ok_def dest: linked_held)
qed

lemma trajs_ok_pending:
  assumes "trajs_ok ti" "ti_trajs ti' = ti_trajs ti"
    and "\<And>owner tr. (owner, tr) \<in> set (ti_trajs ti) \<Longrightarrow> ti_pending ti' \<inter> set (map snd (tj_tail tr)) \<subseteq> ti_pending ti"
  shows "trajs_ok ti'"
proof -
  have "tier_traj_ok (ti_pending ti') tr" if m: "(owner, tr) \<in> set (ti_trajs ti)" for owner tr
  proof -
    have "tier_traj_ok (ti_pending ti) tr" using assms(1) m by (auto simp: trajs_ok_def)
    then show ?thesis using assms(3)[OF m] by (auto simp: tier_traj_ok_def)
  qed
  then show ?thesis using assms(1,2) by (auto simp: trajs_ok_def)
qed

text \<open>A fresh slot has no links, so it only moves from the free list into the hand.\<close>

lemma split_last: "xs \<noteq> [] \<Longrightarrow> mset xs = add_mset (last xs) (mset (butlast xs))"
  by (metis add_mset_add_single append_butlast_last_id mset.simps(1,2) mset_append)

lemma pop_host_core:
  assumes core: "tier_core L D M ti" and run: "pop_host ti = Inr (Some s, ti')"
  shows "tier_core (add_mset s L) D M ti'" "s \<in> set (ti_free ti)"
    "ti' = ti\<lparr>ti_free := butlast (ti_free ti), ti_pending := insert s (ti_pending ti)\<rparr>"
proof -
  have ne: "ti_free ti \<noteq> []" and s: "s = last (ti_free ti)"
    and ti': "ti' = ti\<lparr>ti_free := butlast (ti_free ti), ti_pending := insert s (ti_pending ti)\<rparr>"
    using run by (auto simp: pop_host_def Let_def split: if_splits)
  show in_free: "s \<in> set (ti_free ti)" using ne s by simp
  show "ti' = ti\<lparr>ti_free := butlast (ti_free ti), ti_pending := insert s (ti_pending ti)\<rparr>" by (rule ti')
  note fresh = host_places(1)[OF tier_coreD(2)[OF core] in_free]
  have "host_ledger (add_mset s L) ti'"
    using tier_coreD(2)[OF core] split_last[OF ne] by (auto simp: host_ledger_def ti' s ac_simps)
  moreover have "disk_ledger D ti'" "main_ledger M ti'"
    using tier_coreD(3,4)[OF core] by (simp_all add: disk_ledger_def main_ledger_def ti')
  moreover have "s \<notin> fst ` set (links ti)" using link_hosts[OF core, of s] fresh by auto
  then have "links_ok (add_mset s L) D ti'"
    using tier_coreD(5)[OF core] by (auto simp: links_ok_def ti' links_def home_ok_def)
  moreover have "s \<notin> set (map snd (tj_tail tr))" if "(owner, tr) \<in> set (ti_trajs ti)" for owner tr
    using fresh that by (force simp: set_holdings traj_slots_split)
  then have "trajs_ok ti'" by (intro trajs_ok_pending[OF tier_coreD(1)[OF core]]) (auto simp: ti')
  ultimately show "tier_core (add_mset s L) D M ti'" by (simp add: tier_core_def)
qed

lemma pop_disk_core:
  assumes core: "tier_core L D M ti" and run: "pop_disk ti = Inr (Some d, ti')"
  shows "tier_core L (add_mset d D) M ti'" "d \<in> set (ti_disk_free ti)"
    "ti' = ti\<lparr>ti_disk_free := butlast (ti_disk_free ti), ti_disk_pending := insert d (ti_disk_pending ti)\<rparr>"
proof -
  have ne: "ti_disk_free ti \<noteq> []" and d: "d = last (ti_disk_free ti)"
    and ti': "ti' = ti\<lparr>ti_disk_free := butlast (ti_disk_free ti), ti_disk_pending := insert d (ti_disk_pending ti)\<rparr>"
    using run by (auto simp: pop_disk_def Let_def split: if_splits)
  show in_free: "d \<in> set (ti_disk_free ti)" using ne d by simp
  show "ti' = ti\<lparr>ti_disk_free := butlast (ti_disk_free ti), ti_disk_pending := insert d (ti_disk_pending ti)\<rparr>"
    by (rule ti')
  have "disk_ledger (add_mset d D) ti'"
    using tier_coreD(3)[OF core] split_last[OF ne] by (auto simp: disk_ledger_def ti' d ac_simps)
  moreover have "host_ledger L ti'" "main_ledger M ti'" "trajs_ok ti'"
    using tier_coreD(1,2,4)[OF core] by (simp_all add: host_ledger_def main_ledger_def trajs_ok_def ti')
  moreover have "links_ok L (add_mset d D) ti'"
    using tier_coreD(5)[OF core] by (auto simp: links_ok_def ti' links_def home_ok_def)
  ultimately show "tier_core L (add_mset d D) M ti'" by (simp add: tier_core_def)
qed

text \<open>A slot in hand that no disk write uses may be freed.\<close>

lemma home_ok_less:
  "home_ok L D ti (s, d) \<Longrightarrow> (s \<in># L \<Longrightarrow> s \<in># L') \<Longrightarrow> (d \<in># D \<Longrightarrow> d \<in># D') \<Longrightarrow> home_ok L' D' ti (s, d)"
  by (auto simp: home_ok_def)

lemma give_back_core:
  assumes core: "tier_core (L + mset ss) D M ti" and idle: "set ss \<inter> fst ` set (links ti) = {}"
  shows "tier_core L D M (give_back ss ti)"
proof -
  note host = tier_coreD(2)[OF core]
  have orph: "ti_orphaned ti \<inter> set ss = {}" using host_places(3)[OF host] by auto
  have "host_ledger L (give_back ss ti)"
    using host orph by (auto simp: host_ledger_def give_back_def ac_simps)
  moreover have "disk_ledger D (give_back ss ti)" "main_ledger M (give_back ss ti)"
    using tier_coreD(3,4)[OF core] by (simp_all add: disk_ledger_def main_ledger_def give_back_def)
  moreover have "trajs_ok (give_back ss ti)"
    by (rule trajs_ok_pending[OF tier_coreD(1)[OF core]]) (auto simp: give_back_def)
  moreover have "links_ok L D (give_back ss ti)"
  proof -
    have h: "home_ok L D (give_back ss ti) p = home_ok L D ti p" for p by (simp add: home_ok_def give_back_def)
    have l: "links (give_back ss ti) = links ti" by (simp add: links_def give_back_def)
    have p: "home_ok L D ti p" if m: "p \<in> set (links ti)" for p
    proof -
      obtain s d where sd: "p = (s, d)" by (cases p)
      have "s \<notin> set ss" using m idle by (force simp: sd)
      moreover have "home_ok (L + mset ss) D ti (s, d)"
        using m tier_coreD(5)[OF core] by (auto simp: links_ok_def sd)
      ultimately show ?thesis using home_ok_less[of "L + mset ss" D ti s d L D] by (simp add: sd)
    qed
    have f: "ti_orphaned_busy (give_back ss ti) = ti_orphaned_busy ti"
        "ti_disk_pending (give_back ss ti) = ti_disk_pending ti" "ti_host_busy (give_back ss ti) = ti_host_busy ti"
        "ti_pending (give_back ss ti) = ti_pending ti - set ss"
      by (simp_all add: give_back_def)
    have "fst ` set (ti_host_busy ti) \<inter> (ti_pending ti - set ss) = {}"
      using tier_coreD(5)[OF core] by (auto simp: links_ok_def)
    then show ?thesis
      using tier_coreD(5)[OF core] p by (simp add: links_ok_def l h f)
  qed
  ultimately show ?thesis by (simp add: tier_core_def)
qed

lemma free_disk_core:
  assumes core: "tier_core L (add_mset d D) M ti" and idle: "d \<notin> snd ` set (links ti)"
  shows "tier_core L D M (free_disk_slot d ti)"
proof -
  note disk = tier_coreD(3)[OF core]
  have orph: "d \<notin> ti_orphaned_disk ti" using disk_places(3)[OF disk] by auto
  have "disk_ledger D (free_disk_slot d ti)"
    using disk orph by (auto simp: disk_ledger_def free_disk_slot_def ac_simps)
  moreover have "host_ledger L (free_disk_slot d ti)" "main_ledger M (free_disk_slot d ti)"
      "trajs_ok (free_disk_slot d ti)"
    using tier_coreD(1,2,4)[OF core] by (simp_all add: host_ledger_def main_ledger_def free_disk_slot_def trajs_ok_def)
  moreover have "links_ok L D (free_disk_slot d ti)"
  proof -
    have h: "home_ok L D (free_disk_slot d ti) p = home_ok L D ti p" for p
      by (simp add: home_ok_def free_disk_slot_def)
    have l: "links (free_disk_slot d ti) = links ti" by (simp add: links_def free_disk_slot_def)
    have p: "home_ok L D ti p \<and> snd p \<in> ti_disk_pending ti - {d}" if m: "p \<in> set (links ti)" for p
    proof -
      obtain s d' where sd: "p = (s, d')" by (cases p)
      have ne: "d' \<noteq> d" using m idle by (force simp: sd)
      have "home_ok L (add_mset d D) ti (s, d')" "d' \<in> ti_disk_pending ti"
        using m tier_coreD(5)[OF core] by (auto simp: links_ok_def sd)
      then show ?thesis using ne home_ok_less[of L "add_mset d D" ti s d' L D] by (simp add: sd)
    qed
    have f: "ti_disk_pending (free_disk_slot d ti) = ti_disk_pending ti - {d}"
        "ti_orphaned_busy (free_disk_slot d ti) = ti_orphaned_busy ti"
        "ti_host_busy (free_disk_slot d ti) = ti_host_busy ti" "ti_pending (free_disk_slot d ti) = ti_pending ti"
      by (simp_all add: free_disk_slot_def)
    show ?thesis
      using tier_coreD(5)[OF core] p by (simp add: links_ok_def l h f)
  qed
  ultimately show ?thesis by (simp add: tier_core_def)
qed

lemma free_disk_links [simp]: "links (free_disk_slot d ti) = links ti"
  by (simp add: links_def free_disk_slot_def)

lemma free_disks_core:
  "tier_core L (D + mset ds) M ti \<Longrightarrow> set ds \<inter> snd ` set (links ti) = {} \<Longrightarrow> tier_core L D M (fold free_disk_slot ds ti)"
proof (induction ds arbitrary: ti)
  case (Cons d ds)
  have "tier_core L (D + mset ds) M (free_disk_slot d ti)" by (rule free_disk_core) (use Cons.prems in simp_all)
  then show ?case using Cons.IH[of "free_disk_slot d ti"] Cons.prems(2) by simp
qed simp

lemma free_main_fields [simp]:
  "ti_free (free_main_slot m ti) = ti_free ti" "ti_pending (free_main_slot m ti) = ti_pending ti"
  "ti_orphaned (free_main_slot m ti) = ti_orphaned ti"
  "ti_orphaned_busy (free_main_slot m ti) = ti_orphaned_busy ti"
  "ti_orphaned_disk (free_main_slot m ti) = ti_orphaned_disk ti"
  "ti_disk_free (free_main_slot m ti) = ti_disk_free ti"
  "ti_disk_pending (free_main_slot m ti) = ti_disk_pending ti"
  "ti_host_busy (free_main_slot m ti) = ti_host_busy ti" "links (free_main_slot m ti) = links ti"
  "ti_trajs (free_main_slot m ti) = ti_trajs ti" "ti_num_slots (free_main_slot m ti) = ti_num_slots ti"
  "ti_num_disk (free_main_slot m ti) = ti_num_disk ti" "ti_num_main (free_main_slot m ti) = ti_num_main ti"
  "ti_promotions (free_main_slot m ti) = ti_promotions ti"
  by (simp_all add: free_main_slot_def links_def)

lemma free_main_core:
  assumes core: "tier_core L D (add_mset m M) ti"
  shows "tier_core L D M (free_main_slot m ti)"
proof -
  have h: "home_ok L D (free_main_slot m ti) p = home_ok L D ti p" for p by (simp add: home_ok_def free_main_slot_def)
  have f: "ti_main_free (free_main_slot m ti) = ti_main_free ti @ [m]"
      "ti_main_pending (free_main_slot m ti) = ti_main_pending ti - {m}"
    by (simp_all add: free_main_slot_def)
  have "main_ledger M (free_main_slot m ti)"
    using tier_coreD(4)[OF core] by (auto simp: main_ledger_def f)
  then show ?thesis
    using core by (simp add: tier_core_def trajs_ok_def host_ledger_def disk_ledger_def links_ok_def h)
qed

end
