(* ===== verification/Tier_Space.thy ===== *)
theory Tier_Space
  imports Tier_Invariant
begin

text \<open>
  Making room in the tier index: demoting, deleting and dropping the disk copies of a trajectory keep the
  invariant, the allocators keep it and never raise, and the trajectory an operation works for is spared.
\<close>

subsection \<open>Which links a trajectory has\<close>

lemma link_home: "tier_core L D M ti \<Longrightarrow> p \<in> set (links ti) \<Longrightarrow> home_ok L D ti p"
  by (auto simp: tier_core_def links_ok_def)

lemma traj_of_mem: "traj_of owner ti \<noteq> empty_traj \<Longrightarrow> (owner, traj_of owner ti) \<in> set (ti_trajs ti)"
  by (auto simp: traj_of_def split: option.splits dest: map_of_SomeD)

lemma slot_traj_mem:
  "s \<in> set (traj_host_slots (traj_of owner ti)) \<Longrightarrow> (owner, traj_of owner ti) \<in> set (ti_trajs ti)"
  "d \<in> set (traj_disk_slots (traj_of owner ti)) \<Longrightarrow> (owner, traj_of owner ti) \<in> set (ti_trajs ti)"
  using traj_of_mem[of owner ti] by (cases "traj_of owner ti = empty_traj"; simp)+

lemma link_by_host:
  assumes core: "tier_core L D M ti" and p: "(s, d) \<in> set (links ti)"
    and s: "s \<in> set (traj_host_slots (traj_of owner ti))"
  shows "link_in (traj_of owner ti) (s, d)"
proof -
  note mem = slot_traj_mem(1)[OF s]
  have "s \<in># host_held ti" using mem s by (force simp: set_holdings)
  note places = host_places(2)[OF tier_coreD(2)[OF core] this]
  then obtain u tr where u: "(u, tr) \<in> set (ti_trajs ti)" "link_in tr (s, d)"
    using link_home[OF core p] by (auto simp: home_ok_def linked_def)
  have sum: "host_held ti + (mset_set (ti_orphaned ti) + mset_set (ti_orphaned_busy ti) + L + mset (ti_free ti)) =
      mset [0..<ti_num_slots ti]" by (rule host_ledger_sum(2)[OF tier_coreD(2)[OF core]])
  have "u = owner"
    using holdings_apart[OF sum distinct_upt mem u(1), of s] s link_in_slots[OF u(2)] by blast
  then have "tr = traj_of owner ti" using u(1) tier_coreD(6)[OF core] by (simp add: traj_of_def)
  then show ?thesis using u(2) by simp
qed

lemma link_by_disk:
  assumes core: "tier_core L D M ti" and p: "(s, d) \<in> set (links ti)"
    and d: "d \<in> set (traj_disk_slots (traj_of owner ti))"
  shows "link_in (traj_of owner ti) (s, d)"
proof -
  note mem = slot_traj_mem(2)[OF d]
  have "d \<in># disk_held ti" using mem d by (force simp: set_holdings)
  note places = disk_places(2)[OF tier_coreD(3)[OF core] this]
  then obtain u tr where u: "(u, tr) \<in> set (ti_trajs ti)" "link_in tr (s, d)"
    using link_home[OF core p] by (auto simp: home_ok_def linked_def)
  have sum: "disk_held ti + (mset_set (ti_orphaned_disk ti) + D + mset (ti_disk_free ti)) = mset [0..<ti_num_disk ti]"
    by (rule disk_ledger_sum(2)[OF tier_coreD(3)[OF core]])
  have "u = owner"
    using holdings_apart[OF sum distinct_upt mem u(1), of d] d link_in_slots[OF u(2)] by blast
  then have "tr = traj_of owner ti" using u(1) tier_coreD(6)[OF core] by (simp add: traj_of_def)
  then show ?thesis using u(2) by simp
qed


subsection \<open>Taking a trajectory apart\<close>

definition unlink :: "(nat \<times> nat \<Rightarrow> bool) \<Rightarrow> tier_index \<Rightarrow> tier_index" where
  "unlink P ti = ti\<lparr>ti_disk_of_host := filter P (ti_disk_of_host ti)\<rparr>"

lemma unlink_fields [simp]:
  "ti_free (unlink P ti) = ti_free ti" "ti_pending (unlink P ti) = ti_pending ti"
  "ti_trajs (unlink P ti) = ti_trajs ti" "ti_host_busy (unlink P ti) = ti_host_busy ti"
  "ti_disk_of_host (unlink P ti) = filter P (ti_disk_of_host ti)" "traj_of owner (unlink P ti) = traj_of owner ti"
  "ti_disk_pending (unlink P ti) = ti_disk_pending ti" "ti_promotions (unlink P ti) = ti_promotions ti"
  "ti_orphaned_busy (unlink P ti) = ti_orphaned_busy ti" "ti_orphaned (unlink P ti) = ti_orphaned ti"
  "ti_orphaned_disk (unlink P ti) = ti_orphaned_disk ti"
  by (simp_all add: unlink_def traj_of_def)

lemma unlink_core:
  assumes core: "tier_core L D M ti"
  shows "tier_core L D M (unlink P ti)"
proof -
  have sub: "set (links (unlink P ti)) \<subseteq> set (links ti)" by (auto simp: links_def)
  have h: "home_ok L D (unlink P ti) p = home_ok L D ti p" for p by (simp add: home_ok_def)
  have "distinct (map fst (links (unlink P ti))) \<and> distinct (map snd (links (unlink P ti)))"
    using tier_coreD(5)[OF core] by (auto simp: links_ok_def links_def distinct_map_filter)
  moreover have "home_ok L D ti p \<and> snd p \<in> ti_disk_pending ti" if "p \<in> set (links (unlink P ti))" for p
    using that sub tier_coreD(5)[OF core] by (auto simp: links_ok_def)
  moreover have "fst ` set (ti_host_busy ti) \<inter> ti_pending ti = {}"
      "ti_orphaned_busy ti \<subseteq> fst ` set (ti_host_busy ti)"
    using tier_coreD(5)[OF core] by (simp_all add: links_ok_def)
  ultimately have "links_ok L D (unlink P ti)" by (simp add: links_ok_def h)
  then show ?thesis
    using core by (simp add: tier_core_def trajs_ok_def host_ledger_def disk_ledger_def main_ledger_def)
      (simp add: unlink_def)
qed

lemma free_disks_eq:
  "fold free_disk_slot ds ti =
     ti\<lparr>ti_disk_pending := ti_disk_pending ti - set ds, ti_disk_free := ti_disk_free ti @ ds\<rparr>"
  by (induction ds arbitrary: ti) (auto simp: free_disk_slot_def intro!: tier_index.equality)

definition without :: "string \<Rightarrow> tier_index \<Rightarrow> tier_index" where
  "without owner ti = ti\<lparr>ti_trajs := AList.delete owner (ti_trajs ti)\<rparr>"

lemma free_main_without: "without owner (free_main_slot m ti) = free_main_slot m (without owner ti)"
  by (cases "map_of (ti_main_held ti) m") (simp_all add: free_main_slot_def without_def)

lemma free_mains_without: "without owner (fold free_main_slot ms ti) = fold free_main_slot ms (without owner ti)"
  by (induction ms arbitrary: ti) (simp_all add: free_main_without)

lemma free_mains_core: "tier_core L D (M + mset ms) ti \<Longrightarrow> tier_core L D M (fold free_main_slot ms ti)"
proof (induction ms arbitrary: ti)
  case (Cons m ms)
  have "tier_core L D (M + mset ms) (free_main_slot m ti)" by (rule free_main_core) (use Cons.prems in simp)
  then show ?case using Cons.IH by simp
qed simp

lemma without_fields [simp]:
  "links (without owner ti) = links ti" "ti_pending (without owner ti) = ti_pending ti"
  "ti_disk_pending (without owner ti) = ti_disk_pending ti" "ti_host_busy (without owner ti) = ti_host_busy ti"
  "ti_orphaned_busy (without owner ti) = ti_orphaned_busy ti" "ti_orphaned_disk (without owner ti) = ti_orphaned_disk ti"
  by (simp_all add: without_def links_def)

lemma without_core:
  assumes core: "tier_core L D M ti" and tr: "map_of (ti_trajs ti) owner = Some tr"
    and apart: "\<And>p. p \<in> set (links ti) \<Longrightarrow> \<not> link_in tr p"
  shows "tier_core (L + mset (traj_host_slots tr)) (D + mset (traj_disk_slots tr)) (M + mset (main_slot_list tr))
    (without owner ti)"
proof -
  note dist = tier_coreD(6)[OF core]
  have h: "holdings f (AList.delete owner (ti_trajs ti)) + mset (f tr) = holdings f (ti_trajs ti)" for f :: "tier_traj \<Rightarrow> nat list"
    by (rule holdings_delete[OF tr dist])
  have "host_ledger (L + mset (traj_host_slots tr)) (without owner ti)"
    using tier_coreD(2)[OF core] unfolding host_ledger_def h[symmetric]
    by (auto simp: without_def ac_simps)
  moreover have "disk_ledger (D + mset (traj_disk_slots tr)) (without owner ti)"
    using tier_coreD(3)[OF core] unfolding disk_ledger_def h[symmetric]
    by (auto simp: without_def ac_simps)
  moreover have "main_ledger (M + mset (main_slot_list tr)) (without owner ti)"
    using tier_coreD(4)[OF core] unfolding main_ledger_def h[symmetric]
    by (auto simp: without_def ac_simps)
  moreover have "trajs_ok (without owner ti)"
    using tier_coreD(1)[OF core] by (auto simp: trajs_ok_def distinct_dict_delete without_def set_dict_delete)
  moreover have "links_ok (L + mset (traj_host_slots tr)) (D + mset (traj_disk_slots tr)) (without owner ti)"
  proof -
    have "home_ok (L + mset (traj_host_slots tr)) (D + mset (traj_disk_slots tr)) (without owner ti) p"
      if m: "p \<in> set (links ti)" for p
    proof -
      have "linked (ti_trajs (without owner ti)) p" if l: "linked (ti_trajs ti) p"
      proof -
        obtain u tr' where u: "(u, tr') \<in> set (ti_trajs ti)" "link_in tr' p" using l by (auto simp: linked_def)
        have "u \<noteq> owner" using u apart[OF m] tr dist by (metis map_of_eq_Some_iff option.inject)
        then show ?thesis using u by (auto simp: linked_def without_def set_dict_delete)
      qed
      then show ?thesis using link_home[OF core m] by (cases p) (auto simp: home_ok_def)
    qed
    then show ?thesis using tier_coreD(5)[OF core] by (simp add: links_ok_def)
  qed
  ultimately show ?thesis by (simp add: tier_core_def)
qed


lemma without_commute:
  "without owner (give_back ss ti) = give_back ss (without owner ti)"
  "without owner (fold free_disk_slot ds ti) = fold free_disk_slot ds (without owner ti)"
  unfolding without_def give_back_def free_disks_eq by (rule tier_index.equality; simp)+

lemma delete_owner_eq:
  "delete_owner owner tr ti = fold free_main_slot (main_slot_list tr)
     (fold free_disk_slot (traj_disk_slots tr) (give_back (traj_host_slots tr)
       (without owner (unlink (\<lambda>(s, d). s \<notin> set (traj_host_slots tr)) ti))))"
proof -
  have "free_host_slots (traj_host_slots tr) (ti\<lparr>ti_pending := ti_pending ti - set (traj_host_slots tr)\<rparr>) =
      give_back (traj_host_slots tr) (unlink (\<lambda>(s, d). s \<notin> set (traj_host_slots tr)) ti)"
    unfolding free_host_slots_def give_back_def unlink_def by (rule tier_index.equality) simp_all
  then have "delete_owner owner tr ti = without owner (fold free_main_slot (main_slot_list tr)
     (fold free_disk_slot (traj_disk_slots tr) (give_back (traj_host_slots tr)
       (unlink (\<lambda>(s, d). s \<notin> set (traj_host_slots tr)) ti))))"
    by (simp add: delete_owner_def without_def Let_def)
  then show ?thesis by (simp add: free_mains_without without_commute)
qed

definition idle_hosts :: "tier_traj \<Rightarrow> tier_index \<Rightarrow> bool" where
  "idle_hosts tr ti \<longleftrightarrow> (\<forall>s \<in> set (traj_host_slots tr). s \<notin> ti_pending ti \<and> map_of (ti_host_busy ti) s = None)"

lemma busy_traj_iff: "busy_traj ti tr \<longleftrightarrow> \<not> idle_hosts tr ti"
  by (auto simp: busy_traj_def idle_hosts_def host_active_def list_ex_iff traj_host_slots_def)

lemma not_busy_key: "map_of kvs k = None \<Longrightarrow> (k, v) \<notin> set kvs"
  by (force simp: map_of_eq_None_iff)

lemma delete_owner_core:
  assumes core: "tier_core L D M ti" and tr: "map_of (ti_trajs ti) owner = Some tr"
    and idle: "\<And>s. s \<in> set (traj_host_slots tr) \<Longrightarrow> map_of (ti_host_busy ti) s = None"
  shows "tier_core L D M (delete_owner owner tr ti)"
proof -
  define t0 where "t0 = unlink (\<lambda>(s, d). s \<notin> set (traj_host_slots tr)) ti"
  have c0: "tier_core L D M t0" unfolding t0_def by (rule unlink_core[OF core])
  have tr0: "map_of (ti_trajs t0) owner = Some tr" "traj_of owner t0 = tr"
    using tr by (simp_all add: t0_def traj_of_def)
  have no_host: "s \<notin> set (traj_host_slots tr)" if "(s, d) \<in> set (links t0)" for s d
    using that idle by (auto simp: t0_def links_def dest: not_busy_key)
  then have no_link: "\<not> link_in tr p" if "p \<in> set (links t0)" for p
    using that by (cases p) (auto dest: link_in_slots)
  have no_disk: "d \<notin> set (traj_disk_slots tr)" if "(s, d) \<in> set (links t0)" for s d
    using link_by_disk[OF c0 that, of owner] no_link[OF that] by (auto simp: tr0)
  have gb: "links (give_back ss t) = links t" for ss t by (simp add: links_def give_back_def)
  have c1: "tier_core (L + mset (traj_host_slots tr)) (D + mset (traj_disk_slots tr)) (M + mset (main_slot_list tr))
      (without owner t0)" by (rule without_core[OF c0 tr0(1) no_link])
  have c2: "tier_core L (D + mset (traj_disk_slots tr)) (M + mset (main_slot_list tr))
      (give_back (traj_host_slots tr) (without owner t0))"
    by (rule give_back_core[OF c1]) (use no_host in auto)
  have c3: "tier_core L D (M + mset (main_slot_list tr)) (fold free_disk_slot (traj_disk_slots tr)
      (give_back (traj_host_slots tr) (without owner t0)))"
    by (rule free_disks_core[OF c2]) (use no_disk in \<open>auto simp: gb\<close>)
  show ?thesis unfolding delete_owner_eq t0_def[symmetric] by (rule free_mains_core[OF c3])
qed

lemma demote_eq:
  assumes "ti_pending ti \<inter> set (traj_host_slots tr) = {}"
  shows "demote owner tr ti = give_back (traj_host_slots tr) (put_traj owner
      (tr\<lparr>tj_attn := map (\<lambda>_. []) (tj_attn tr), tj_tail := [], tj_tail_pending := False\<rparr>)
      (unlink (\<lambda>(s, d). s \<notin> set (traj_host_slots tr)) ti))"
proof -
  have "ti_pending ti - set (traj_host_slots tr) = ti_pending ti" using assms by auto
  then show ?thesis
    by (simp add: demote_def free_host_slots_def give_back_def unlink_def)
      (auto simp: put_traj_def intro!: tier_index.equality)
qed

lemma concat_blank [simp]: "concat (map (map snd) (map (\<lambda>_. []) xs)) = []"
  by (induction xs) simp_all

lemma demote_core:
  assumes core: "tier_core L D M ti" and tr: "map_of (ti_trajs ti) owner = Some tr" and idle: "idle_hosts tr ti"
  shows "tier_core L D M (demote owner tr ti)"
proof -
  define t0 where "t0 = unlink (\<lambda>(s, d). s \<notin> set (traj_host_slots tr)) ti"
  define tr1 where "tr1 = tr\<lparr>tj_attn := map (\<lambda>_. []) (tj_attn tr), tj_tail := [], tj_tail_pending := False\<rparr>"
  have c0: "tier_core L D M t0" unfolding t0_def by (rule unlink_core[OF core])
  have tr0: "traj_of owner t0 = tr" using tr by (simp add: t0_def traj_of_def)
  have no_host: "s \<notin> set (traj_host_slots tr)" if "(s, d) \<in> set (links t0)" for s d
    using that idle by (auto simp: t0_def links_def idle_hosts_def dest: not_busy_key)
  have "tier_traj_ok (ti_pending ti) tr" using traj_of_ok[OF tier_coreD(1)[OF core]] traj_of_Some[OF tr] by metis
  then have ok: "tier_traj_ok (ti_pending t0) tr1" by (simp add: tier_traj_ok_def tr1_def t0_def)
  have slots: "traj_host_slots tr1 = []" "traj_disk_slots tr1 = traj_disk_slots tr" "main_slot_list tr1 = main_slot_list tr"
    unfolding tr1_def traj_host_slots_def traj_disk_slots_def main_slot_list_def by (simp_all add: comp_def)
  have c1: "tier_core (L + mset (traj_host_slots tr)) D M (put_traj owner tr1 t0)"
  proof (rule put_traj_core[OF c0 ok])
    show "home_ok (L + mset (traj_host_slots tr)) D (put_traj owner tr1 t0) p" if "p \<in> set (links t0)" for p
    proof -
      obtain s d where sd: "p = (s, d)" by (cases p)
      show ?thesis unfolding sd
        by (rule home_put[OF c0]) (use that no_host sd in \<open>auto simp: tr0 dest: link_in_slots\<close>)
    qed
  qed (simp_all add: slots tr0)
  have "tier_core L D M (give_back (traj_host_slots tr) (put_traj owner tr1 t0))"
    by (rule give_back_core[OF c1]) (use no_host in auto)
  then show ?thesis
    using idle by (subst demote_eq) (auto simp: idle_hosts_def t0_def tr1_def)
qed

lemma drop_disk_eq:
  "drop_disk owner tr ti = fold free_disk_slot (traj_disk_slots tr) (put_traj owner
      (tr\<lparr>tj_disk_attn := map (\<lambda>_. []) (tj_disk_attn tr), tj_disk_tail := [], tj_disk_boundary := - 1\<rparr>)
      (unlink (\<lambda>(s, d). d \<notin> set (traj_disk_slots tr)) ti))"
  by (simp add: drop_disk_def free_disks_eq put_traj_def unlink_def Let_def)

lemma drop_disk_core:
  assumes core: "tier_core L D M ti" and tr: "map_of (ti_trajs ti) owner = Some tr"
    and idle: "ti_disk_pending ti \<inter> set (traj_disk_slots tr) = {}"
  shows "tier_core L D M (drop_disk owner tr ti)"
proof -
  define t0 where "t0 = unlink (\<lambda>(s, d). d \<notin> set (traj_disk_slots tr)) ti"
  define tr1 where "tr1 = tr\<lparr>tj_disk_attn := map (\<lambda>_. []) (tj_disk_attn tr), tj_disk_tail := [], tj_disk_boundary := - 1\<rparr>"
  have c0: "tier_core L D M t0" unfolding t0_def by (rule unlink_core[OF core])
  have tr0: "traj_of owner t0 = tr" using tr by (simp add: t0_def traj_of_def)
  have no_disk: "d \<notin> set (traj_disk_slots tr)" if "(s, d) \<in> set (links t0)" for s d
    using link_disks(2)[OF c0, of d] that idle by (force simp: t0_def)
  have "tier_traj_ok (ti_pending ti) tr" using traj_of_ok[OF tier_coreD(1)[OF core]] traj_of_Some[OF tr] by metis
  then have ok: "tier_traj_ok (ti_pending t0) tr1" by (simp add: tier_traj_ok_def tr1_def t0_def)
  have slots: "traj_disk_slots tr1 = []" "traj_host_slots tr1 = traj_host_slots tr" "main_slot_list tr1 = main_slot_list tr"
    unfolding tr1_def traj_host_slots_def traj_disk_slots_def main_slot_list_def by (simp_all add: comp_def)
  have c1: "tier_core L (D + mset (traj_disk_slots tr)) M (put_traj owner tr1 t0)"
  proof (rule put_traj_core[OF c0 ok])
    show "home_ok L (D + mset (traj_disk_slots tr)) (put_traj owner tr1 t0) p" if "p \<in> set (links t0)" for p
    proof -
      obtain s d where sd: "p = (s, d)" by (cases p)
      show ?thesis unfolding sd
        by (rule home_put[OF c0]) (use that no_disk sd in \<open>auto simp: tr0 dest: link_in_slots\<close>)
    qed
  qed (simp_all add: slots tr0)
  have "tier_core L D M (fold free_disk_slot (traj_disk_slots tr) (put_traj owner tr1 t0))"
    by (rule free_disks_core[OF c1]) (use no_disk in auto)
  then show ?thesis by (simp add: drop_disk_eq t0_def tr1_def)
qed


subsection \<open>Reclaiming and allocating\<close>

text \<open>What making room for \<open>owner\<close> leaves alone.\<close>

definition tier_spares :: "string \<Rightarrow> tier_index \<Rightarrow> tier_index \<Rightarrow> bool" where
  "tier_spares owner ti ti' \<longleftrightarrow>
     ti_num_slots ti' = ti_num_slots ti \<and> ti_num_disk ti' = ti_num_disk ti \<and> ti_num_main ti' = ti_num_main ti \<and>
     ti_attn_gids ti' = ti_attn_gids ti \<and> ti_ratio ti' = ti_ratio ti \<and> ti_align ti' = ti_align ti \<and>
     ti_promotions ti' = ti_promotions ti \<and>
     (\<forall>u. u = owner \<or> promoting ti u \<longrightarrow> map_of (ti_trajs ti') u = map_of (ti_trajs ti) u) \<and>
     ti_host_busy ti' = ti_host_busy ti \<and> set (ti_disk_of_host ti') \<subseteq> set (ti_disk_of_host ti) \<and>
     ti_pending ti \<subseteq> ti_pending ti'"

lemma spares_self [simp]: "tier_spares owner ti ti"
  by (simp add: tier_spares_def)

lemma tier_spares_trans: "tier_spares owner ti ti1 \<Longrightarrow> tier_spares owner ti1 ti2 \<Longrightarrow> tier_spares owner ti ti2"
  by (auto simp: tier_spares_def promoting_def)

lemma spares_traj_of: "tier_spares owner ti ti' \<Longrightarrow> traj_of owner ti' = traj_of owner ti"
  by (simp add: tier_spares_def traj_of_def)

lemma spares_due: "tier_spares owner ti ti' \<Longrightarrow> due ti' = due ti"
  by (simp add: tier_spares_def due_def fun_eq_iff)

lemma spares_links: "tier_spares owner ti ti' \<Longrightarrow> set (links ti') \<subseteq> set (links ti)"
  by (auto simp: tier_spares_def links_def)

lemma free_mains_fields [simp]:
  "ti_free (fold free_main_slot ms ti) = ti_free ti" "ti_pending (fold free_main_slot ms ti) = ti_pending ti"
  "ti_trajs (fold free_main_slot ms ti) = ti_trajs ti" "ti_promotions (fold free_main_slot ms ti) = ti_promotions ti"
  "ti_disk_of_host (fold free_main_slot ms ti) = ti_disk_of_host ti"
  "ti_host_busy (fold free_main_slot ms ti) = ti_host_busy ti"
  "ti_disk_free (fold free_main_slot ms ti) = ti_disk_free ti"
  "ti_disk_pending (fold free_main_slot ms ti) = ti_disk_pending ti"
  "ti_num_slots (fold free_main_slot ms ti) = ti_num_slots ti" "ti_num_disk (fold free_main_slot ms ti) = ti_num_disk ti"
  "ti_num_main (fold free_main_slot ms ti) = ti_num_main ti" "ti_attn_gids (fold free_main_slot ms ti) = ti_attn_gids ti"
  "ti_ratio (fold free_main_slot ms ti) = ti_ratio ti" "ti_align (fold free_main_slot ms ti) = ti_align ti"
  by (induction ms arbitrary: ti) (simp_all add: free_main_slot_def)

lemma delete_owner_fields:
  "ti_free (delete_owner owner tr ti) = ti_free ti @ traj_host_slots tr"
  "ti_disk_free (delete_owner owner tr ti) = ti_disk_free ti @ traj_disk_slots tr"
  "ti_disk_pending (delete_owner owner tr ti) = ti_disk_pending ti - set (traj_disk_slots tr)"
  "ti_pending (delete_owner owner tr ti) = ti_pending ti - set (traj_host_slots tr)"
  "ti_trajs (delete_owner owner tr ti) = AList.delete owner (ti_trajs ti)"
  by (simp_all add: delete_owner_eq free_disks_eq give_back_def without_def unlink_def)

lemma delete_owner_spares:
  assumes "u \<noteq> owner" "\<not> promoting ti u" "ti_pending ti \<inter> set (traj_host_slots tr) = {}"
  shows "tier_spares owner ti (delete_owner u tr ti)"
  using assms by (auto simp: tier_spares_def delete_owner_eq free_disks_eq give_back_def without_def unlink_def delete_conv')

lemma demote_spares:
  assumes "u \<noteq> owner" "\<not> promoting ti u"
  shows "tier_spares owner ti (demote u tr ti)"
  using assms by (auto simp: tier_spares_def demote_def put_traj_def free_host_slots_def update_conv')

lemma drop_disk_spares:
  assumes "u \<noteq> owner" "\<not> promoting ti u"
  shows "tier_spares owner ti (drop_disk u tr ti)"
  using assms by (auto simp: tier_spares_def drop_disk_eq free_disks_eq put_traj_def unlink_def update_conv')

lemma idle_pending: "idle_hosts tr ti \<Longrightarrow> ti_pending ti \<inter> set (traj_host_slots tr) = {}"
  by (auto simp: idle_hosts_def)

lemma reclaim_host_from_ok:
  assumes "reclaim_host_from es owner ti = (b, ti')" "tier_core L D M ti" "set es \<subseteq> set (ti_trajs ti)"
  shows "tier_core L D M ti' \<and> tier_spares owner ti ti' \<and> (b \<longrightarrow> ti_free ti' \<noteq> []) \<and> (\<not> b \<longrightarrow> ti' = ti) \<and>
    ti_disk_pending ti' \<subseteq> ti_disk_pending ti \<and> ti_pending ti' = ti_pending ti"
  using assms
proof (induction es)
  case (Cons e es)
  obtain u tr where e: "e = (u, tr)" by (cases e)
  show ?case
  proof (cases "u = owner \<or> promoting ti u \<or> tj_tail tr = [] \<and> list_all (\<lambda>row. row = []) (tj_attn tr) \<or>
      busy_traj ti tr \<or> main_busy ti tr \<or> traj_host_slots tr = []")
    case True
    then show ?thesis using Cons by (auto simp: e split: if_splits)
  next
    case False
    have m: "map_of (ti_trajs ti) u = Some tr"
      using Cons.prems tier_coreD(6)[OF Cons.prems(2)] by (simp add: e map_of_eq_Some_iff)
    have idle: "idle_hosts tr ti" using False by (simp add: busy_traj_iff)
    have del: "tier_core L D M (delete_owner u tr ti)"
      using idle by (intro delete_owner_core[OF Cons.prems(2) m]) (simp add: idle_hosts_def)
    have run: "b" "ti' = (if main_slot_list tr = [] \<and> fully_on_disk (due ti) (ti_disk_pending ti) tr
                  then demote u tr ti else delete_owner u tr ti)"
      using Cons.prems(1) False by (auto simp: e)
    show ?thesis
    proof (cases "main_slot_list tr = [] \<and> fully_on_disk (due ti) (ti_disk_pending ti) tr")
      case True
      then show ?thesis
        using run False demote_core[OF Cons.prems(2) m idle] demote_spares[of u owner ti tr]
        by (simp add: demote_def put_traj_def free_host_slots_def)
    next
      case F: False
      have p: "ti_pending ti - set (traj_host_slots tr) = ti_pending ti" using idle_pending[OF idle] by auto
      have "ti' = delete_owner u tr ti" using run F by auto
      then show ?thesis
        using False del delete_owner_spares[of u owner ti tr] idle_pending[OF idle] p run(1)
        by (simp add: delete_owner_fields)
    qed
  qed
qed simp

lemma reclaim_host_ok:
  assumes "reclaim_host owner ti = (b, ti')" "tier_core L D M ti"
  shows "tier_core L D M ti'" "tier_spares owner ti ti'" "b \<Longrightarrow> ti_free ti' \<noteq> []" "\<not> b \<Longrightarrow> ti' = ti"
    "ti_disk_pending ti' \<subseteq> ti_disk_pending ti" "ti_pending ti' = ti_pending ti"
  using reclaim_host_from_ok[OF assms(1)[unfolded reclaim_host_def] assms(2) subset_refl] by blast+

lemma reclaim_disk_from_ok:
  assumes "reclaim_disk_from es owner ti = (b, ti')" "tier_core L D M ti" "set es \<subseteq> set (ti_trajs ti)"
  shows "tier_core L D M ti' \<and> tier_spares owner ti ti' \<and> (b \<longrightarrow> ti_disk_free ti' \<noteq> []) \<and>
    ti_disk_pending ti' = ti_disk_pending ti \<and> ti_pending ti' = ti_pending ti"
  using assms
proof (induction es)
  case (Cons e es)
  obtain u tr where e: "e = (u, tr)" by (cases e)
  show ?case
  proof (cases "u = owner \<or> promoting ti u \<or> traj_disk_slots tr = [] \<or>
      list_ex (\<lambda>d. d \<in> ti_disk_pending ti \<or> d \<in> snd ` set (ti_host_busy ti)) (traj_disk_slots tr)")
    case True
    then show ?thesis using Cons by (auto simp: e split: if_splits)
  next
    case False
    have m: "map_of (ti_trajs ti) u = Some tr"
      using Cons.prems tier_coreD(6)[OF Cons.prems(2)] by (simp add: e map_of_eq_Some_iff)
    have idle: "ti_disk_pending ti \<inter> set (traj_disk_slots tr) = {}" using False by (auto simp: list_ex_iff)
    then have p: "ti_disk_pending ti - set (traj_disk_slots tr) = ti_disk_pending ti" by auto
    have run: "b" "ti' = (if traj_host_slots tr = [] then delete_owner u tr ti else drop_disk u tr ti)"
      using Cons.prems(1) False by (auto simp: e)
    show ?thesis
    proof (cases "traj_host_slots tr = []")
      case True
      then have "tier_core L D M (delete_owner u tr ti)"
        by (intro delete_owner_core[OF Cons.prems(2) m]) simp
      then show ?thesis
        using run True False delete_owner_spares[of u owner ti tr] p by (simp add: delete_owner_fields)
    next
      case F: False
      then show ?thesis
        using run False drop_disk_core[OF Cons.prems(2) m idle] drop_disk_spares[of u owner ti tr] p
        by (simp add: drop_disk_eq free_disks_eq put_traj_def unlink_def)
    qed
  qed
qed simp

lemma reclaim_disk_ok:
  assumes "reclaim_disk owner ti = (b, ti')" "tier_core L D M ti"
  shows "tier_core L D M ti'" "tier_spares owner ti ti'" "b \<Longrightarrow> ti_disk_free ti' \<noteq> []"
    "ti_disk_pending ti' = ti_disk_pending ti" "ti_pending ti' = ti_pending ti"
  using reclaim_disk_from_ok[OF assms(1)[unfolded reclaim_disk_def] assms(2) subset_refl] by blast+


lemma pop_host_ok:
  assumes core: "tier_core L D M ti" and run: "pop_host ti = Inr (os, ti')"
  shows "\<exists>s. os = Some s \<and> tier_core (add_mset s L) D M ti' \<and> s \<notin> fst ` set (links ti') \<and>
    ti_pending ti' = insert s (ti_pending ti)" "tier_spares owner ti ti'"
    "ti_disk_pending ti' = ti_disk_pending ti"
proof -
  obtain s where s: "os = Some s" using run by (auto simp: pop_host_def Let_def split: if_splits)
  note pop = pop_host_core[OF core run[unfolded s]]
  have "s \<notin> fst ` set (links ti)"
    using link_hosts[OF core, of s] host_places(1)[OF tier_coreD(2)[OF core] pop(2)] by auto
  then show "\<exists>s. os = Some s \<and> tier_core (add_mset s L) D M ti' \<and> s \<notin> fst ` set (links ti') \<and>
    ti_pending ti' = insert s (ti_pending ti)"
    using s pop(1,3) by (simp add: links_def)
  show "tier_spares owner ti ti'" "ti_disk_pending ti' = ti_disk_pending ti"
    using pop(3) by (auto simp: tier_spares_def)
qed

lemma alloc_host_cases:
  assumes "alloc_host owner ti = Inr (os, ti')"
  obtains "os = None" "ti' = ti"
  | "pop_host ti = Inr (os, ti')"
  | ti1 where "reclaim_host owner ti = (True, ti1)" "pop_host ti1 = Inr (os, ti')"
proof (cases "ti_free ti = [] \<and> (length (ti_host_busy ti) = ti_num_slots ti \<or> card (ti_pending ti) = ti_num_slots ti)")
  case True
  then show ?thesis using assms that(1) by (simp add: alloc_host_def)
next
  case F: False
  show ?thesis
  proof (cases "ti_free ti = []")
    case True
    obtain ok ti1 where r: "reclaim_host owner ti = (ok, ti1)" by (cases "reclaim_host owner ti")
    have no_change: "ti1 = ti" if "\<not> ok"
    proof -
      have "reclaim_host_from es owner ti = (False, x) \<Longrightarrow> x = ti" for es x
        by (induction es) (auto split: if_splits)
      then show ?thesis using r that by (auto simp: reclaim_host_def)
    qed
    show ?thesis
      using assms F True r no_change that(1) that(3)[of ti1] by (cases ok) (auto simp: alloc_host_def)
  next
    case False
    then show ?thesis using assms F that(2) by (simp add: alloc_host_def)
  qed
qed

text \<open>The outcome of an allocation: a fresh slot that is being written and has no link, or nothing.\<close>

lemma alloc_host_ok:
  assumes run: "alloc_host owner ti = Inr (os, ti')" and core: "tier_core L D M ti"
  shows "tier_core (L + mset (somes [os])) D M ti'" "tier_spares owner ti ti'"
    "ti_disk_pending ti' \<subseteq> ti_disk_pending ti" "ti_pending ti' = ti_pending ti \<union> set (somes [os])"
    "os = Some s \<Longrightarrow> s \<notin> fst ` set (links ti')"
proof -
  from run have "tier_core (L + mset (somes [os])) D M ti' \<and> tier_spares owner ti ti' \<and>
    ti_disk_pending ti' \<subseteq> ti_disk_pending ti \<and> ti_pending ti' = ti_pending ti \<union> set (somes [os]) \<and>
    (os = Some s \<longrightarrow> s \<notin> fst ` set (links ti'))"
  proof (cases rule: alloc_host_cases)
    case 1
    then show ?thesis using core by simp
  next
    case 2
    show ?thesis using pop_host_ok[OF core 2] by auto
  next
    case (3 ti1)
    note r = reclaim_host_ok[OF 3(1) core]
    have "tier_spares owner ti ti'" using r(2) pop_host_ok(2)[OF r(1) 3(2)] tier_spares_trans by blast
    then show ?thesis using pop_host_ok(1,3)[OF r(1) 3(2)] r(5,6) by auto
  qed
  then show "tier_core (L + mset (somes [os])) D M ti'" "tier_spares owner ti ti'"
    "ti_disk_pending ti' \<subseteq> ti_disk_pending ti" "ti_pending ti' = ti_pending ti \<union> set (somes [os])"
    "os = Some s \<Longrightarrow> s \<notin> fst ` set (links ti')" by blast+
qed

lemma alloc_host_total:
  assumes core: "tier_core L D M ti"
  shows "\<exists>os ti'. alloc_host owner ti = Inr (os, ti')"
proof -
  obtain ok ti1 where r: "reclaim_host owner ti = (ok, ti1)" by (cases "reclaim_host owner ti")
  show ?thesis using reclaim_host_ok(3)[OF r core] r by (auto simp: alloc_host_def pop_host_def Let_def)
qed

lemma pop_disk_ok:
  assumes core: "tier_core L D M ti" and run: "pop_disk ti = Inr (od, ti')"
  shows "\<exists>d. od = Some d \<and> tier_core L (add_mset d D) M ti' \<and> d \<notin> snd ` set (links ti')" "tier_spares owner ti ti'"
    "ti_pending ti' = ti_pending ti" "ti_disk_pending ti' = insert (the od) (ti_disk_pending ti)"
proof -
  obtain d where d: "od = Some d" using run by (auto simp: pop_disk_def Let_def split: if_splits)
  note pop = pop_disk_core[OF core run[unfolded d]]
  have "d \<notin> snd ` set (links ti)"
    using link_disks(1)[OF core, of d] disk_places(1)[OF tier_coreD(3)[OF core] pop(2)] by auto
  then show "\<exists>d. od = Some d \<and> tier_core L (add_mset d D) M ti' \<and> d \<notin> snd ` set (links ti')"
    using d pop(1,3) by (simp add: links_def)
  show "tier_spares owner ti ti'" "ti_pending ti' = ti_pending ti" "ti_disk_pending ti' = insert (the od) (ti_disk_pending ti)"
    using pop(3) d by (auto simp: tier_spares_def)
qed

lemma alloc_disk_ok:
  assumes run: "alloc_disk owner ti = Inr (od, ti')" and core: "tier_core L D M ti"
  shows "tier_core L (D + mset (somes [od])) M ti'" "tier_spares owner ti ti'" "ti_pending ti' = ti_pending ti"
    "od = Some d \<Longrightarrow> d \<notin> snd ` set (links ti') \<and> d \<in> ti_disk_pending ti'"
    "ti_disk_pending ti \<subseteq> ti_disk_pending ti'"
proof -
  have "tier_core L (D + mset (somes [od])) M ti' \<and> tier_spares owner ti ti' \<and> ti_pending ti' = ti_pending ti \<and>
    (od = Some d \<longrightarrow> d \<notin> snd ` set (links ti') \<and> d \<in> ti_disk_pending ti') \<and> ti_disk_pending ti \<subseteq> ti_disk_pending ti'"
  proof (cases "ti_num_disk ti = 0")
    case True
    then show ?thesis using run core by (auto simp: alloc_disk_def)
  next
    case num: False
    show ?thesis
    proof (cases "ti_disk_free ti = []")
      case False
      then have "pop_disk ti = Inr (od, ti')" using run num by (simp add: alloc_disk_def)
      from pop_disk_ok[OF core this] show ?thesis by auto
    next
      case True
      obtain ok ti1 where r: "reclaim_disk owner ti = (ok, ti1)" by (cases "reclaim_disk owner ti")
      note ok = reclaim_disk_ok[OF r core]
      show ?thesis
      proof (cases ok)
        case True
        then have "pop_disk ti1 = Inr (od, ti')" using run num \<open>ti_disk_free ti = []\<close> r by (simp add: alloc_disk_def)
        note pop = pop_disk_ok[OF ok(1) this]
        show ?thesis using pop(1,3,4) tier_spares_trans[OF ok(2) pop(2)] ok(4,5) by auto
      next
        case False
        then show ?thesis using run num \<open>ti_disk_free ti = []\<close> r ok by (auto simp: alloc_disk_def)
      qed
    qed
  qed
  then show "tier_core L (D + mset (somes [od])) M ti'" "tier_spares owner ti ti'" "ti_pending ti' = ti_pending ti"
    "od = Some d \<Longrightarrow> d \<notin> snd ` set (links ti') \<and> d \<in> ti_disk_pending ti'"
    "ti_disk_pending ti \<subseteq> ti_disk_pending ti'" by blast+
qed

lemma alloc_disk_total:
  assumes core: "tier_core L D M ti"
  shows "\<exists>od ti'. alloc_disk owner ti = Inr (od, ti')"
proof -
  obtain ok ti1 where r: "reclaim_disk owner ti = (ok, ti1)" by (cases "reclaim_disk owner ti")
  show ?thesis using reclaim_disk_ok(3)[OF r core] r by (auto simp: alloc_disk_def pop_disk_def Let_def)
qed

lemma alloc_main_ok:
  assumes run: "alloc_main owner ti = (om, ti')" and core: "tier_core L D M ti"
  shows "tier_core L D (M + mset (somes [om])) ti'" "tier_spares owner ti ti'" "ti_pending ti' = ti_pending ti"
proof -
  have take_main: "tier_core L D (add_mset (last (ti_main_free t)) M) (t\<lparr>ti_main_free := butlast (ti_main_free t),
      ti_main_pending := insert (last (ti_main_free t)) (ti_main_pending t)\<rparr>)"
    if c: "tier_core L D M t" and ne: "ti_main_free t \<noteq> []" for t
  proof -
    let ?t = "t\<lparr>ti_main_free := butlast (ti_main_free t), ti_main_pending := insert (last (ti_main_free t)) (ti_main_pending t)\<rparr>"
    have "main_ledger (add_mset (last (ti_main_free t)) M) ?t"
      using tier_coreD(4)[OF c] split_last[OF ne] by (auto simp: main_ledger_def ac_simps)
    then show ?thesis
      using c by (simp add: tier_core_def trajs_ok_def host_ledger_def disk_ledger_def links_ok_def links_def home_ok_def)
  qed
  obtain ok ti1 where r: "(if ti_main_free ti = [] then reclaim_host owner ti else (True, ti)) = (ok, ti1)"
    by (meson surj_pair)
  have ti1: "tier_core L D M ti1" "tier_spares owner ti ti1" "ti_pending ti1 = ti_pending ti"
    using r reclaim_host_ok[OF _ core] core by (auto split: if_splits)
  have ti': "om = None \<and> ti' = ti1 \<or> ti_main_free ti1 \<noteq> [] \<and> om = Some (last (ti_main_free ti1)) \<and>
      ti' = ti1\<lparr>ti_main_free := butlast (ti_main_free ti1), ti_main_pending := insert (last (ti_main_free ti1)) (ti_main_pending ti1)\<rparr>"
    using run by (auto simp: alloc_main_def r Let_def split: if_splits)
  then have "tier_spares owner ti1 ti'" by (auto simp: tier_spares_def)
  then show "tier_core L D (M + mset (somes [om])) ti'" "tier_spares owner ti ti'" "ti_pending ti' = ti_pending ti"
    using ti' ti1 take_main[OF ti1(1)] tier_spares_trans by auto
qed

text \<open>
  The early return of \<open>_alloc_slot\<close> never denies a slot: when every slot is being written, or every slot is
  read by a disk write, no trajectory can be reclaimed.
\<close>

lemma full_set:
  assumes "A \<subseteq> {0..<n}" "card A = n" "s < n"
  shows "s \<in> A"
proof -
  have "A = {0..<n}" using assms(1,2) by (intro card_subset_eq) auto
  then show ?thesis using assms(3) by simp
qed

lemma slot_ranges:
  assumes core: "tier_core L D M ti"
  shows "s \<in># host_held ti + L \<Longrightarrow> s < ti_num_slots ti" "s \<in> ti_orphaned ti \<Longrightarrow> s < ti_num_slots ti"
    "s \<in> ti_orphaned_busy ti \<Longrightarrow> s < ti_num_slots ti" "s \<in> set (ti_free ti) \<Longrightarrow> s < ti_num_slots ti"
proof -
  have "set_mset (mset (ti_free ti) + (host_held ti + mset_set (ti_orphaned ti) + mset_set (ti_orphaned_busy ti) + L)) =
      {0..<ti_num_slots ti}"
    unfolding host_ledger_sum(1)[OF tier_coreD(2)[OF core]] by simp
  then show "s \<in># host_held ti + L \<Longrightarrow> s < ti_num_slots ti" "s \<in> ti_orphaned ti \<Longrightarrow> s < ti_num_slots ti"
    "s \<in> ti_orphaned_busy ti \<Longrightarrow> s < ti_num_slots ti" "s \<in> set (ti_free ti) \<Longrightarrow> s < ti_num_slots ti"
    using host_ledger_sum(5,6)[OF tier_coreD(2)[OF core]] by auto
qed

lemma guard_exact:
  assumes core: "tier_core L D M ti"
    and full: "length (ti_host_busy ti) = ti_num_slots ti \<or> card (ti_pending ti) = ti_num_slots ti"
  shows "reclaim_host owner ti = (False, ti)"
proof -
  have pend: "ti_pending ti \<subseteq> {0..<ti_num_slots ti}"
    using tier_coreD(2)[OF core] slot_ranges(1,2)[OF core] by (auto simp: host_ledger_def)
  have keys: "fst ` set (ti_host_busy ti) \<subseteq> {0..<ti_num_slots ti}"
    using link_hosts[OF core] slot_ranges(1,3)[OF core] by (force simp: links_def)
  have "card (fst ` set (ti_host_busy ti)) = length (ti_host_busy ti)"
    using tier_coreD(5)[OF core] distinct_card[of "map fst (ti_host_busy ti)"] by (simp add: links_ok_def links_def)
  then have busy: "s \<in> ti_pending ti \<or> s \<in> fst ` set (ti_host_busy ti)" if "s < ti_num_slots ti" for s
    using full full_set[OF pend] full_set[OF keys] that by metis
  have all: "busy_traj ti tr \<or> traj_host_slots tr = []" if m: "(u, tr) \<in> set (ti_trajs ti)" for u tr
  proof (cases "traj_host_slots tr")
    case (Cons s ss)
    then have "s \<in># host_held ti + L" using m by (force simp: set_holdings)
    then show ?thesis
      using busy[OF slot_ranges(1)[OF core]] Cons
      by (auto simp: busy_traj_iff idle_hosts_def map_of_eq_None_iff)
  qed simp
  have "reclaim_host_from es owner ti = (False, ti)" if "set es \<subseteq> set (ti_trajs ti)" for es
    using that by (induction es) (use all in \<open>fastforce split: prod.splits\<close>)+
  then show ?thesis by (simp add: reclaim_host_def)
qed

end
