(* ===== verification/Tier_Ops.thy ===== *)
theory Tier_Ops
  imports Tier_Space
begin

text \<open>
  Staging, confirming and the main-KV operations of the tier index keep its invariant.  Superseding a
  diverged chain is covered where there is no disk tier: with one, \<open>_ensure_position\<close> frees a disk slot twice
  when its write was not handed out yet (\<open>Disk_Tier_Properties\<close> has the run).
\<close>

subsection \<open>Moving slots out of the hand\<close>

lemma no_disk:
  assumes core: "tier_core L D M ti" and num: "ti_num_disk ti = 0"
  shows "links ti = []" "disk_held ti = {#}" "ti_disk_pending ti = {}" "D = {#}"
proof -
  have d: "mset (ti_disk_free ti) + disk_held ti + mset_set (ti_orphaned_disk ti) + D = {#}"
    using tier_coreD(3)[OF core] num by (simp add: disk_ledger_def)
  then show held: "disk_held ti = {#}" and hand: "D = {#}" by simp_all
  have "ti_orphaned_disk ti = {}" using d disk_ledger_sum(4)[OF tier_coreD(3)[OF core]]
    by (simp add: mset_set_empty_iff)
  then show pend: "ti_disk_pending ti = {}" using tier_coreD(3)[OF core] held hand by (simp add: disk_ledger_def)
  show "links ti = []"
  proof (rule ccontr)
    assume "links ti \<noteq> []"
    then obtain p where "p \<in> set (links ti)" by (cases "links ti") auto
    then show False using link_disks(2)[OF core, of "snd p"] pend by simp
  qed
qed

lemma orphan_core:
  assumes core: "tier_core (add_mset s L) D M ti" and s: "s \<in> ti_pending ti" "s \<notin> fst ` set (links ti)"
  shows "tier_core L D M (ti\<lparr>ti_orphaned := insert s (ti_orphaned ti)\<rparr>)"
proof -
  let ?t = "ti\<lparr>ti_orphaned := insert s (ti_orphaned ti)\<rparr>"
  have "s \<notin> ti_orphaned ti" using host_places(3)[OF tier_coreD(2)[OF core], of s] by auto
  then have "host_ledger L ?t" using tier_coreD(2)[OF core] s by (auto simp: host_ledger_def)
  moreover have "home_ok L D ?t p" if m: "p \<in> set (links ti)" for p
  proof -
    obtain u d where p: "p = (u, d)" by (cases p)
    have "u \<noteq> s" using m s(2) by (force simp: p)
    then have "home_ok L D ti (u, d)" using home_ok_less[of "add_mset s L" D ti u d L D] link_home[OF core m] p by auto
    then show ?thesis by (simp add: home_ok_def p)
  qed
  ultimately show ?thesis
    using core by (simp add: tier_core_def trajs_ok_def disk_ledger_def main_ledger_def links_ok_def links_def)
qed

lemma give_back_one: "s \<notin> ti_pending ti \<Longrightarrow> ti\<lparr>ti_free := ti_free ti @ [s]\<rparr> = give_back [s] ti"
  by (simp add: give_back_def)

lemma free_one_core:
  assumes "tier_core (add_mset s L) D M ti" "s \<notin> ti_pending ti" "s \<notin> fst ` set (links ti)"
  shows "tier_core L D M (ti\<lparr>ti_free := ti_free ti @ [s]\<rparr>)"
  unfolding give_back_one[OF assms(2)] by (rule give_back_core) (use assms in auto)

lemma release_host_core:
  assumes core: "tier_core (add_mset s L) D M ti" and none: "links ti = []"
  shows "tier_core L D M (release_host_slot s ti)" "links (release_host_slot s ti) = []"
    "ti_num_disk (release_host_slot s ti) = ti_num_disk ti"
proof -
  have e: "release_host_slot s ti = (if s \<in> ti_pending ti then ti\<lparr>ti_orphaned := insert s (ti_orphaned ti)\<rparr>
      else ti\<lparr>ti_free := ti_free ti @ [s]\<rparr>)"
    using none by (simp add: release_host_slot_def links_def)
  show "tier_core L D M (release_host_slot s ti)"
    using orphan_core[OF core] free_one_core[OF core] none by (simp add: e)
  show "links (release_host_slot s ti) = []" "ti_num_disk (release_host_slot s ti) = ti_num_disk ti"
    using none by (simp_all add: e links_def)
qed

lemma release_hosts_core:
  assumes "tier_core (L + mset ss) D M ti" "links ti = []"
  shows "tier_core L D M (fold release_host_slot ss ti) \<and> links (fold release_host_slot ss ti) = []"
  using assms
proof (induction ss arbitrary: ti)
  case (Cons s ss)
  have core: "tier_core (add_mset s (L + mset ss)) D M ti" using Cons.prems by simp
  show ?case using Cons.IH release_host_core(1,2)[OF core Cons.prems(2)] by simp
qed simp

lemma release_rows_core:
  assumes "tier_core (L + mset (concat (map (\<lambda>row. map snd (fst row)) rows))) D M ti" "links ti = []"
    "\<And>row. row \<in> set rows \<Longrightarrow> snd row = []"
  shows "tier_core L D M (fold release_row rows ti)"
  using assms
proof (induction rows arbitrary: ti)
  case (Cons row rows)
  have "snd row = []" using Cons.prems(3) by simp
  then have row: "release_row row ti = fold release_host_slot (map snd (fst row)) ti"
    by (simp add: release_row_def case_prod_beta)
  have "tier_core (L + mset (concat (map (\<lambda>row. map snd (fst row)) rows)) + mset (map snd (fst row))) D M ti"
    using Cons.prems(1) by (simp add: ac_simps)
  from release_hosts_core[OF this Cons.prems(2)] show ?case
    using Cons.IH Cons.prems(3) by (simp add: row)
qed simp


subsection \<open>Positions of a trajectory\<close>

lemma traj_simps [simp]:
  "traj_host_slots (bind_hash i h tr) = traj_host_slots tr" "traj_disk_slots (bind_hash i h tr) = traj_disk_slots tr"
  "main_slot_list (bind_hash i h tr) = main_slot_list tr" "link_in (bind_hash i h tr) = link_in tr"
  "tier_traj_ok P (bind_hash i h tr) = tier_traj_ok P tr"
  "tj_attn (bind_hash i h tr) = tj_attn tr" "tj_disk_attn (bind_hash i h tr) = tj_disk_attn tr"
  "tj_tail (bind_hash i h tr) = tj_tail tr" "tj_tail_pending (bind_hash i h tr) = tj_tail_pending tr"
  "attn_hosts (bind_hash i h tr) = attn_hosts tr" "attn_disks (bind_hash i h tr) = attn_disks tr"
  by (simp_all add: bind_hash_def traj_host_slots_def traj_disk_slots_def main_slot_list_def link_in_def
      attn_hosts_def attn_disks_def tier_traj_ok_def)

lemma concat_map_replicate_Nil [simp]: "concat (map (map snd) (replicate k [])) = []"
  by (induction k) simp_all

lemma pad_simps [simp]:
  "traj_host_slots (pad_traj n tr) = traj_host_slots tr" "traj_disk_slots (pad_traj n tr) = traj_disk_slots tr"
  "main_slot_list (pad_traj n tr) = main_slot_list tr" "link_in (pad_traj n tr) = link_in tr"
  "attn_hosts (pad_traj n tr) = attn_hosts tr" "attn_disks (pad_traj n tr) = attn_disks tr"
  "tj_tail (pad_traj n tr) = tj_tail tr" "tj_disk_tail (pad_traj n tr) = tj_disk_tail tr"
  by (simp_all add: pad_traj_def Let_def traj_host_slots_def traj_disk_slots_def main_slot_list_def link_in_def
      attn_hosts_def attn_disks_def)

lemma pad_ok [simp]: "tier_traj_ok P (pad_traj n tr) = tier_traj_ok P tr"
  by (simp add: pad_traj_def tier_traj_ok_def Let_def)

lemma pad_length [simp]: "length (tj_attn (pad_traj n tr)) = max n (length (tj_attn tr))"
  by (simp add: pad_traj_def Let_def)

lemma cut_ok: "tier_traj_ok P tr \<Longrightarrow> n \<le> length (tj_attn tr) \<Longrightarrow> tier_traj_ok P (cut_traj n tr)"
  by (simp add: cut_traj_def tier_traj_ok_def Let_def)

lemma cut_fields [simp]:
  "tj_tail (cut_traj n tr) = tj_tail tr" "tj_disk_tail (cut_traj n tr) = tj_disk_tail tr"
  "main_slot_list (cut_traj n tr) = main_slot_list tr"
  by (simp_all add: cut_traj_def Let_def main_slot_list_def)

lemma cut_slots:
  "mset (traj_host_slots (cut_traj n tr)) + mset (concat (map (map snd) (drop n (tj_attn tr)))) = mset (traj_host_slots tr)"
  "mset (traj_disk_slots (cut_traj n tr)) + mset (concat (map (map snd) (drop n (tj_disk_attn tr)))) =
    mset (traj_disk_slots tr)"
proof -
  have e: "mset (concat (map (map snd) (take n xs))) + mset (concat (map (map snd) (drop n xs))) =
      mset (concat (map (map snd) xs))" for xs :: "(nat \<times> nat) list list"
    by (metis append_take_drop_id concat_append map_append mset_append)
  show "mset (traj_host_slots (cut_traj n tr)) + mset (concat (map (map snd) (drop n (tj_attn tr)))) = mset (traj_host_slots tr)"
    "mset (traj_disk_slots (cut_traj n tr)) + mset (concat (map (map snd) (drop n (tj_disk_attn tr)))) =
    mset (traj_disk_slots tr)"
    using e[of "tj_attn tr"] e[of "tj_disk_attn tr"]
    by (simp_all add: cut_traj_def Let_def traj_host_slots_def traj_disk_slots_def ac_simps)
qed

lemma put_release: "put_traj owner tr (release_host_slot s ti) = release_host_slot s (put_traj owner tr ti)"
  by (cases "map_of (ti_disk_of_host ti) s") (simp_all add: release_host_slot_def put_traj_def free_disk_slot_def Let_def)

lemma put_releases:
  "put_traj owner tr (fold release_host_slot ss ti) = fold release_host_slot ss (put_traj owner tr ti)"
  by (induction ss arbitrary: ti) (simp_all add: put_release)

lemma put_free_disks: "put_traj owner tr (fold free_disk_slot ds ti) = fold free_disk_slot ds (put_traj owner tr ti)"
  unfolding free_disks_eq put_traj_def by (rule tier_index.equality) simp_all

lemma put_release_rows: "put_traj owner tr (fold release_row rows ti) = fold release_row rows (put_traj owner tr ti)"
  by (induction rows arbitrary: ti) (simp_all add: release_row_def case_prod_beta put_releases put_free_disks)

lemma put_put [simp]: "put_traj owner tr (put_traj owner tr' ti) = put_traj owner tr ti"
  by (simp add: put_traj_def)

lemma put_same_core:
  assumes core: "tier_core L D M ti" and ok: "tier_traj_ok (ti_pending ti) tr"
    and same: "traj_host_slots tr = traj_host_slots (traj_of owner ti)" "traj_disk_slots tr = traj_disk_slots (traj_of owner ti)"
      "main_slot_list tr = main_slot_list (traj_of owner ti)" "link_in tr = link_in (traj_of owner ti)"
  shows "tier_core L D M (put_traj owner tr ti)"
proof (rule put_traj_core[OF core ok])
  show "home_ok L D (put_traj owner tr ti) p" if m: "p \<in> set (links ti)" for p
  proof -
    obtain s d where p: "p = (s, d)" by (cases p)
    show ?thesis unfolding p by (rule home_put[OF core]) (use m p same in auto)
  qed
qed (simp_all add: same)

lemma traj_disk_none:
  assumes "disk_held ti = {#}"
  shows "traj_disk_slots (traj_of owner ti) = []"
proof (cases "traj_of owner ti = empty_traj")
  case False
  then have "mset (traj_disk_slots (traj_of owner ti)) \<subseteq># disk_held ti"
    by (intro holdings_ge[of owner] traj_of_mem)
  then show ?thesis using assms by simp
qed simp


lemma fold_pair_rows:
  assumes "length xs = length ys"
  shows "concat (map (\<lambda>row. map snd (fst row)) (drop n (zip xs ys))) = concat (map (map snd) (drop n xs))"
proof -
  have "map fst (drop n (zip xs ys)) = drop n xs" using assms by (simp add: drop_zip)
  then have "map (\<lambda>row. map snd (fst row)) (drop n (zip xs ys)) = map (map snd) (drop n xs)"
    by (metis (no_types, lifting) comp_def list.map_comp map_eq_conv)
  then show ?thesis by simp
qed

lemma ensure_position_ok:
  assumes run: "ensure_position owner i h supersede ti = (ok, ti')" and core: "tier_inv ti"
    and safe: "\<not> supersede \<or> ti_num_disk ti = 0"
  shows "tier_inv ti'" "i < length (tj_attn (traj_of owner ti'))"
proof -
  define tr where "tr = pad_traj (i + 1) (traj_of owner ti)"
  define ti1 where "ti1 = touch_owner owner (put_traj owner tr ti)"
  have ok0: "tier_traj_ok (ti_pending ti) tr" using traj_of_ok[OF tier_coreD(1)[OF core]] by (simp add: tr_def)
  have core1: "tier_inv ti1"
    unfolding ti1_def by (intro touch_owner_core put_same_core[OF core ok0]) (simp_all add: tr_def)
  have tr1: "traj_of owner ti1 = tr" by (simp add: ti1_def)
  have ok1: "tier_traj_ok (ti_pending ti1) tr" using ok0 by (simp add: ti1_def)
  have len: "i < length (tj_attn tr)" by (simp add: tr_def)
  consider "ti' = ti1" | "ti' = put_traj owner (bind_hash i h tr) ti1"
    | "supersede" "ti' = put_traj owner (bind_hash i h (cut_traj i tr)) (fold release_row (drop i (zip (tj_attn tr) (tj_disk_attn tr))) ti1)"
    using run unfolding ensure_position_def tr_def[symmetric] ti1_def[symmetric] Let_def
    by (auto split: if_splits)
  then have "tier_inv ti' \<and> i < length (tj_attn (traj_of owner ti'))"
  proof cases
    case 1
    then show ?thesis using core1 tr1 len by simp_all
  next
    case 2
    then show ?thesis
      using put_same_core[OF core1, of "bind_hash i h tr" owner] ok1 tr1 len by simp_all
  next
    case 3
    let ?rows = "drop i (zip (tj_attn tr) (tj_disk_attn tr))"
    let ?tr = "bind_hash i h (cut_traj i tr)"
    have num: "ti_num_disk ti1 = 0" using safe 3 by (simp add: ti1_def)
    note none = no_disk[OF core1 num]
    have nd: "traj_disk_slots tr = []" using traj_disk_none[OF none(2), of owner] tr1 by simp
    have lens: "length (tj_disk_attn tr) = length (tj_attn tr)" using ok1 by (simp add: tier_traj_ok_def)
    have rows: "concat (map (\<lambda>row. map snd (fst row)) ?rows) = concat (map (map snd) (drop i (tj_attn tr)))"
      by (rule fold_pair_rows) (simp add: lens)
    have blank: "snd row = []" if "row \<in> set ?rows" for row
    proof -
      have "snd row \<in> set (tj_disk_attn tr)" using set_zip_rightD[of "fst row" "snd row"] in_set_dropD[OF that] by simp
      then show ?thesis using nd by (auto simp: traj_disk_slots_def)
    qed
    have cut: "tier_core (mset (concat (map (map snd) (drop i (tj_attn tr))))) {#} {#} (put_traj owner ?tr ti1)"
    proof (rule put_traj_core[OF core1])
      show "tier_traj_ok (ti_pending ti1) ?tr" using cut_ok[OF ok1] len by simp
      show "mset (traj_host_slots ?tr) + mset (concat (map (map snd) (drop i (tj_attn tr)))) =
          mset (traj_host_slots (traj_of owner ti1)) + {#}" using cut_slots(1)[of i tr] by (simp add: tr1)
      have "mset (traj_disk_slots (cut_traj i tr)) = {#}" using cut_slots(2)[of i tr] nd by simp
      then show "mset (traj_disk_slots ?tr) + {#} = mset (traj_disk_slots (traj_of owner ti1)) + {#}" by (simp add: tr1 nd)
    qed (simp_all add: tr1 none(1))
    have "tier_inv (fold release_row ?rows (put_traj owner ?tr ti1))"
      by (rule release_rows_core) (use cut rows none blank in simp_all)
    then have "tier_inv ti'" by (simp add: 3 put_release_rows)
    moreover have "i < length (tj_attn (traj_of owner ti'))" using len by (simp add: 3 cut_traj_def Let_def)
    ultimately show ?thesis by simp
  qed
  then show "tier_inv ti'" "i < length (tj_attn (traj_of owner ti'))" by simp_all
qed

text \<open>A new link: both slots belong to one block and neither has a link.\<close>

lemma link_core:
  assumes core: "tier_core L D M ti" and fresh: "s \<notin> fst ` set (links ti)" "d \<notin> snd ` set (links ti)"
    and l: "linked (ti_trajs ti) (s, d)" "d \<in> ti_disk_pending ti"
  shows "tier_core L D M (ti\<lparr>ti_disk_of_host := AList.update s d (ti_disk_of_host ti)\<rparr>)"
proof -
  let ?t = "ti\<lparr>ti_disk_of_host := AList.update s d (ti_disk_of_host ti)\<rparr>"
  have "s \<notin> fst ` set (ti_disk_of_host ti)" using fresh(1) by (auto simp: links_def)
  then have u: "AList.update s d (ti_disk_of_host ti) = ti_disk_of_host ti @ [(s, d)]" by (rule update_nonmem)
  have h: "home_ok L D ?t p = home_ok L D ti p" for p by (simp add: home_ok_def)
  have "home_ok L D ti p \<and> snd p \<in> ti_disk_pending ti" if "p \<in> set (links ti) \<union> {(s, d)}" for p
    using that l tier_coreD(5)[OF core] by (auto simp: links_ok_def home_ok_def)
  moreover have "set (links ?t) = set (links ti) \<union> {(s, d)}" by (auto simp: links_def u)
  moreover have "distinct (map fst (links ?t)) \<and> distinct (map snd (links ?t))"
    using tier_coreD(5)[OF core] fresh by (auto simp: links_ok_def links_def u)
  ultimately have "links_ok L D ?t" using tier_coreD(5)[OF core] by (simp add: links_ok_def h)
  then show ?thesis
    using core by (simp add: tier_core_def trajs_ok_def host_ledger_def disk_ledger_def main_ledger_def)
qed


subsection \<open>Staging attention\<close>

lemma update_row: "map_of row g = None \<Longrightarrow> AList.update g s row = row @ [(g, s)]"
  by (rule update_nonmem) (simp add: map_of_eq_None_iff)

lemma concat_row_update:
  assumes "i < length rows" "map_of (rows ! i) g = None"
  shows "mset (concat (map (map snd) (rows[i := AList.update g s (rows ! i)]))) =
    add_mset s (mset (concat (map (map snd) rows)))"
  using mset_concat_update[OF assms(1), of "map snd" "AList.update g s (rows ! i)"]
  by (simp add: update_row[OF assms(2)])

lemma put_attn_simps [simp]:
  "tj_tail (put_attn i g s tr) = tj_tail tr" "tj_tail_pending (put_attn i g s tr) = tj_tail_pending tr"
  "traj_disk_slots (put_attn i g s tr) = traj_disk_slots tr" "main_slot_list (put_attn i g s tr) = main_slot_list tr"
  "attn_disks (put_attn i g s tr) = attn_disks tr" "tj_disk_tail (put_attn i g s tr) = tj_disk_tail tr"
  "tj_disk_attn (put_attn i g s tr) = tj_disk_attn tr" "tj_hashes (put_attn i g s tr) = tj_hashes tr"
  "tj_boundary (put_attn i g s tr) = tj_boundary tr" "length (tj_attn (put_attn i g s tr)) = length (tj_attn tr)"
  "tier_traj_ok P (put_attn i g s tr) = tier_traj_ok P tr"
  by (simp_all add: put_attn_def traj_disk_slots_def main_slot_list_def attn_disks_def tier_traj_ok_def)

lemma put_disk_simps [simp]:
  "tj_tail (put_disk i g s tr) = tj_tail tr" "tj_tail_pending (put_disk i g s tr) = tj_tail_pending tr"
  "traj_host_slots (put_disk i g s tr) = traj_host_slots tr" "main_slot_list (put_disk i g s tr) = main_slot_list tr"
  "attn_hosts (put_disk i g s tr) = attn_hosts tr" "tj_disk_tail (put_disk i g s tr) = tj_disk_tail tr"
  "tier_traj_ok P (put_disk i g s tr) = tier_traj_ok P tr"
  by (simp_all add: put_disk_def traj_host_slots_def main_slot_list_def attn_hosts_def tier_traj_ok_def)

lemma put_attn_slots:
  assumes "i < length (tj_attn tr)" "map_of (tj_attn tr ! i) g = None"
  shows "mset (traj_host_slots (put_attn i g s tr)) = add_mset s (mset (traj_host_slots tr))"
    "set (attn_hosts (put_attn i g s tr)) = insert s (set (attn_hosts tr))"
proof -
  have m: "mset (attn_hosts (put_attn i g s tr)) = add_mset s (mset (attn_hosts tr))"
    using concat_row_update[OF assms] by (simp add: attn_hosts_def put_attn_def)
  then show "mset (traj_host_slots (put_attn i g s tr)) = add_mset s (mset (traj_host_slots tr))"
    by (simp add: traj_slots_split)
  show "set (attn_hosts (put_attn i g s tr)) = insert s (set (attn_hosts tr))"
    using arg_cong[OF m, of set_mset] by simp
qed

lemma put_disk_slots:
  assumes "i < length (tj_disk_attn tr)" "map_of (tj_disk_attn tr ! i) g = None"
  shows "mset (traj_disk_slots (put_disk i g d tr)) = add_mset d (mset (traj_disk_slots tr))"
    "set (attn_disks (put_disk i g d tr)) = insert d (set (attn_disks tr))"
proof -
  have m: "mset (attn_disks (put_disk i g d tr)) = add_mset d (mset (attn_disks tr))"
    using concat_row_update[OF assms] by (simp add: attn_disks_def put_disk_def)
  then show "mset (traj_disk_slots (put_disk i g d tr)) = add_mset d (mset (traj_disk_slots tr))"
    by (simp add: traj_slots_split)
  show "set (attn_disks (put_disk i g d tr)) = insert d (set (attn_disks tr))"
    using arg_cong[OF m, of set_mset] by simp
qed

lemma tag_fields [simp]:
  "ti_pending (tag_slot s k ti) = ti_pending ti" "links (tag_slot s k ti) = links ti"
  "traj_of owner (tag_slot s k ti) = traj_of owner ti" "ti_disk_pending (tag_slot s k ti) = ti_disk_pending ti"
  "ti_trajs (tag_slot s k ti) = ti_trajs ti" "ti_num_disk (tag_slot s k ti) = ti_num_disk ti"
  by (simp_all add: tag_slot_def links_def traj_of_def)

lemma tag_core [simp]: "tier_core L D M (tag_slot s k ti) = tier_core L D M ti"
  by (simp add: tier_core_def trajs_ok_def host_ledger_def disk_ledger_def main_ledger_def links_ok_def home_ok_def)
    (simp add: tag_slot_def)

lemma put_attn_core:
  assumes core: "tier_core (add_mset s L) D M ti"
    and i: "i < length (tj_attn (traj_of owner ti))" "map_of (tj_attn (traj_of owner ti) ! i) g = None"
    and fresh: "s \<notin> fst ` set (links ti)"
  shows "tier_core L D M (put_traj owner (put_attn i g s (traj_of owner ti)) ti)"
proof (rule put_traj_core[OF core])
  show "home_ok L D (put_traj owner (put_attn i g s (traj_of owner ti)) ti) p" if m: "p \<in> set (links ti)" for p
  proof -
    obtain u d where p: "p = (u, d)" by (cases p)
    have "u \<noteq> s" using m fresh by (force simp: p)
    then show ?thesis
      unfolding p by (intro home_put[OF core]) (use m p put_attn_slots[OF i] in \<open>auto simp: link_in_def\<close>)
  qed
qed (use traj_of_ok[OF tier_coreD(1)[OF core]] put_attn_slots[OF i] in simp_all)

lemma put_disk_core:
  assumes core: "tier_core L (add_mset d D) M ti"
    and i: "i < length (tj_disk_attn (traj_of owner ti))" "map_of (tj_disk_attn (traj_of owner ti) ! i) g = None"
    and fresh: "d \<notin> snd ` set (links ti)"
  shows "tier_core L D M (put_traj owner (put_disk i g d (traj_of owner ti)) ti)"
proof (rule put_traj_core[OF core])
  show "home_ok L D (put_traj owner (put_disk i g d (traj_of owner ti)) ti) p" if m: "p \<in> set (links ti)" for p
  proof -
    obtain u e where p: "p = (u, e)" by (cases p)
    have "e \<noteq> d" using m fresh by (force simp: p)
    then show ?thesis
      unfolding p by (intro home_put[OF core]) (use m p put_disk_slots[OF i] in \<open>auto simp: link_in_def\<close>)
  qed
qed (use traj_of_ok[OF tier_coreD(1)[OF core]] put_disk_slots[OF i] in simp_all)

lemma traj_of_mem2: "linked (ti_trajs (put_traj owner tr ti)) p" if "distinct (map fst (ti_trajs ti))" "link_in tr p"
  using that by (simp add: linked_put)

lemma put_link: "put_traj owner tr (ti\<lparr>ti_disk_of_host := d\<rparr>) = (put_traj owner tr ti)\<lparr>ti_disk_of_host := d\<rparr>"
  by (simp add: put_traj_def)

lemma stage_attention_inv:
  assumes run: "tier_stage_attention owner i h g supersede ti = Inr (os, ti')" and core: "tier_inv ti"
    and safe: "\<not> supersede \<or> ti_num_disk ti = 0"
  shows "tier_inv ti'"
proof -
  obtain ok ti1 where e: "ensure_position owner i h supersede ti = (ok, ti1)" by (meson surj_pair)
  note pos = ensure_position_ok[OF e core safe]
  define tr where "tr = traj_of owner ti1"
  show ?thesis
  proof (cases "\<not> ok \<or> map_of (tj_attn tr ! i) g \<noteq> None")
    case True
    then show ?thesis using run pos(1) by (auto simp: tier_stage_attention_def e tr_def)
  next
    case F: False
    then obtain os2 ti2 where a: "alloc_host owner ti1 = Inr (os2, ti2)"
      using run by (auto simp: tier_stage_attention_def e tr_def)
    note al = alloc_host_ok[OF a pos(1)]
    show ?thesis
    proof (cases os2)
      case None
      then show ?thesis using run F a al(1) by (auto simp: tier_stage_attention_def e tr_def)
    next
      case (Some s)
      let ?tr1 = "bind_hash i h (put_attn i g s tr)"
      define ti3 where "ti3 = put_traj owner ?tr1 (tag_slot s (AttnSlot g) ti2)"
      have tr2: "traj_of owner ti2 = tr" using spares_traj_of[OF al(2)] by (simp add: tr_def)
      have len: "i < length (tj_attn tr)" using pos(2) by (simp add: tr_def)
      have core2: "tier_core (add_mset s {#}) {#} {#} (tag_slot s (AttnSlot g) ti2)" using al(1) Some by simp
      note fresh2 = al(5)[OF Some]
      have "tier_inv (put_traj owner (put_attn i g s tr) (tag_slot s (AttnSlot g) ti2))"
        using put_attn_core[OF core2, of i owner g] len F fresh2 by (simp add: tr2)
      from put_same_core[OF this, of ?tr1 owner] traj_of_ok[OF tier_coreD(1)[OF this], of owner]
      have core3: "tier_inv ti3" by (simp add: ti3_def)
      have fresh3: "s \<notin> fst ` set (links ti3)" using fresh2 by (simp add: ti3_def)
      have tr3: "traj_of owner ti3 = ?tr1" by (simp add: ti3_def)
      have len3: "i < length (tj_disk_attn ?tr1)"
        using traj_of_ok[OF tier_coreD(1)[OF core3], of owner] len unfolding tr3 by (simp add: tier_traj_ok_def)
      show ?thesis
      proof (cases "map_of (tj_disk_attn ?tr1 ! i) g = None")
        case False
        then have "ti' = ti3" using run F a Some by (auto simp: tier_stage_attention_def e tr_def[symmetric] ti3_def Let_def)
        then show ?thesis using core3 by simp
      next
        case True
        then obtain od ti4 where d: "alloc_disk owner ti3 = Inr (od, ti4)"
          using run F a Some by (auto simp: tier_stage_attention_def e tr_def[symmetric] ti3_def Let_def)
        note ad = alloc_disk_ok[OF d core3]
        show ?thesis
        proof (cases od)
          case None
          then have "ti' = ti4" using run F a Some True d
            by (auto simp: tier_stage_attention_def e tr_def[symmetric] ti3_def Let_def)
          then show ?thesis using ad(1) None by simp
        next
          case (Some d1)
          have tr4: "traj_of owner ti4 = ?tr1" using spares_traj_of[OF ad(2)] tr3 by simp
          define ti5 where "ti5 = put_traj owner (put_disk i g d1 ?tr1) ti4"
          have core4: "tier_core {#} (add_mset d1 {#}) {#} ti4" using ad(1) Some by simp
          have core5: "tier_inv ti5"
            using put_disk_core[OF core4, of i owner g] len3 True ad(4)[OF Some] by (simp add: tr4 ti5_def)
          have slot: "s \<in> set (attn_hosts ?tr1)" using put_attn_slots(2)[OF len, of g s] F by simp
          have "d1 \<in> set (attn_disks (put_disk i g d1 ?tr1))" using put_disk_slots(2)[OF len3 True] by simp
          then have "link_in (put_disk i g d1 ?tr1) (s, d1)" using slot by (simp add: link_in_def)
          then have "linked (ti_trajs ti5) (s, d1)"
            unfolding ti5_def by (rule traj_of_mem2[OF tier_coreD(6)[OF core4]])
          moreover have "s \<notin> fst ` set (links ti5)" using fresh3 spares_links[OF ad(2)] by (auto simp: ti5_def)
          ultimately have "tier_inv (ti5\<lparr>ti_disk_of_host := AList.update s d1 (ti_disk_of_host ti5)\<rparr>)"
            using ad(4)[OF Some] by (intro link_core[OF core5]) (simp_all add: ti5_def)
          moreover have "ti' = ti5\<lparr>ti_disk_of_host := AList.update s d1 (ti_disk_of_host ti5)\<rparr>"
            using run F a \<open>os2 = Some s\<close> True d Some
            by (auto simp: tier_stage_attention_def e tr_def[symmetric] ti3_def[symmetric] ti5_def put_link Let_def)
          ultimately show ?thesis by simp
        qed
      qed
    qed
  qed
qed

end
