(* ===== verification/Tier_Tail.thy ===== *)
theory Tier_Tail
  imports Tier_Ops
begin

text \<open>
  Staging the tail states of a trajectory and confirming writes.  A retired tail keeps the slots that the
  IO thread still reads or writes out of the free lists until their writes are reported.
\<close>

subsection \<open>Allocating the new tail\<close>

definition unlinked :: "nat list \<Rightarrow> tier_index \<Rightarrow> bool" where
  "unlinked ss ti \<longleftrightarrow> set ss \<inter> fst ` set (links ti) = {}"

definition disk_unlinked :: "nat list \<Rightarrow> tier_index \<Rightarrow> bool" where
  "disk_unlinked ds ti \<longleftrightarrow> set ds \<inter> snd ` set (links ti) = {}"

lemma unlinked_mono: "unlinked ss ti \<Longrightarrow> set (links ti') \<subseteq> set (links ti) \<Longrightarrow> unlinked ss ti'"
  by (auto simp: unlinked_def)

lemma disk_unlinked_mono: "disk_unlinked ds ti \<Longrightarrow> set (links ti') \<subseteq> set (links ti) \<Longrightarrow> disk_unlinked ds ti'"
  by (auto simp: disk_unlinked_def)

lemma spares_tag: "tier_spares owner ti (tag_slot s k ti') = tier_spares owner ti ti'"
  by (simp add: tier_spares_def) (simp add: tag_slot_def)

lemma spares_give_back:
  "tier_spares owner ti ti' \<Longrightarrow> ti_pending ti \<inter> set ss = {} \<Longrightarrow> tier_spares owner ti (give_back ss ti')"
  by (auto simp: tier_spares_def give_back_def)

lemma links_give_back [simp]: "links (give_back ss ti) = links ti"
  by (simp add: links_def give_back_def)

text \<open>What a loop that allocates host slots has in hand, and what it leaves alone, whatever its outcome.\<close>

lemma alloc_tail_ok:
  assumes "alloc_tail gs owner slots ti = Inr (oss, ti')" "tier_core (mset (map snd slots)) D M ti"
    "unlinked (map snd slots) ti"
  shows "tier_core (case oss of None \<Rightarrow> {#} | Some sl \<Rightarrow> mset (map snd sl)) D M ti' \<and>
    map_of (ti_trajs ti') owner = map_of (ti_trajs ti) owner \<and> ti_num_disk ti' = ti_num_disk ti \<and>
    set (links ti') \<subseteq> set (links ti) \<and>
    (\<forall>sl. oss = Some sl \<longrightarrow> unlinked (map snd sl) ti' \<and> map fst sl = map fst slots @ gs)"
  using assms
proof (induction gs arbitrary: slots ti)
  case Nil
  then show ?case by (cases oss) (auto dest: sym)
next
  case (Cons g gs)
  then obtain os ti1 where a: "alloc_host owner ti = Inr (os, ti1)" by auto
  note ok = alloc_host_ok[OF a Cons.prems(2)]
  have keep: "map_of (ti_trajs ti1) owner = map_of (ti_trajs ti) owner" "ti_num_disk ti1 = ti_num_disk ti"
      "set (links ti1) \<subseteq> set (links ti)" "unlinked (map snd slots) ti1"
    using ok(2) spares_links[OF ok(2)] unlinked_mono[OF Cons.prems(3)] by (auto simp: tier_spares_def)
  show ?case
  proof (cases os)
    case None
    then have r: "oss = None" "ti' = give_back (map snd slots) ti1" using Cons.prems(1) a by auto
    have "tier_core {#} D M ti'" unfolding r
      by (rule give_back_core) (use ok(1) None keep(4) in \<open>simp_all add: unlinked_def\<close>)
    then show ?thesis using r keep by (simp add: give_back_def links_def)
  next
    case (Some s)
    let ?ti2 = "tag_slot s (TailSlot g) ti1"
    have run: "alloc_tail gs owner (slots @ [(g, s)]) ?ti2 = Inr (oss, ti')" using Cons.prems(1) a Some by simp
    have core: "tier_core (mset (map snd (slots @ [(g, s)]))) D M ?ti2" using ok(1) Some by simp
    have "unlinked (map snd (slots @ [(g, s)])) ?ti2" using keep(4) ok(5)[OF Some] by (simp add: unlinked_def)
    from Cons.IH[OF run core this] show ?thesis using keep by auto
  qed
qed

lemma alloc_disk_tail_ok:
  assumes "alloc_disk_tail gs owner disk ti = Inr (disk', ti')" "tier_core L (mset (map snd disk)) M ti"
    "disk_unlinked (map snd disk) ti" "set (map snd disk) \<subseteq> ti_disk_pending ti"
  shows "tier_core L (mset (map snd disk')) M ti' \<and> map_of (ti_trajs ti') owner = map_of (ti_trajs ti) owner \<and>
    set (links ti') \<subseteq> set (links ti) \<and> disk_unlinked (map snd disk') ti' \<and>
    set (map snd disk') \<subseteq> ti_disk_pending ti' \<and> (disk' = [] \<or> map fst disk' = map fst disk @ gs)"
  using assms
proof (induction gs arbitrary: disk ti)
  case Nil
  then show ?case by auto
next
  case (Cons g gs)
  then obtain od ti1 where a: "alloc_disk owner ti = Inr (od, ti1)" by auto
  note ok = alloc_disk_ok[OF a Cons.prems(2)]
  have keep: "map_of (ti_trajs ti1) owner = map_of (ti_trajs ti) owner"
      "set (links ti1) \<subseteq> set (links ti)" "disk_unlinked (map snd disk) ti1"
    using ok(2) spares_links[OF ok(2)] disk_unlinked_mono[OF Cons.prems(3)] by (auto simp: tier_spares_def)
  show ?case
  proof (cases od)
    case None
    then have r: "disk' = []" "ti' = fold free_disk_slot (map snd disk) ti1" using Cons.prems(1) a by auto
    have "tier_core L {#} M ti'" unfolding r
      by (rule free_disks_core) (use ok(1) None keep(3) in \<open>simp_all add: disk_unlinked_def\<close>)
    then show ?thesis using r keep by (simp add: free_disks_eq links_def disk_unlinked_def)
  next
    case (Some d)
    have run: "alloc_disk_tail gs owner (disk @ [(g, d)]) ti1 = Inr (disk', ti')" using Cons.prems(1) a Some by simp
    have core: "tier_core L (mset (map snd (disk @ [(g, d)]))) M ti1" using ok(1) Some by simp
    have "disk_unlinked (map snd (disk @ [(g, d)])) ti1" using keep(3) ok(4)[OF Some] by (simp add: disk_unlinked_def)
    moreover have "set (map snd (disk @ [(g, d)])) \<subseteq> ti_disk_pending ti1"
      using Cons.prems(4) ok(4)[OF Some] ok(5) by auto
    ultimately show ?thesis using Cons.IH[OF run core] keep by auto
  qed
qed


subsection \<open>Retiring the old tail\<close>

lemma retire_host_core:
  assumes core: "tier_core (add_mset s L) D M ti" and doh: "s \<notin> fst ` set (ti_disk_of_host ti)"
  shows "tier_core L D M (retire_host s ti)"
proof (cases "map_of (ti_host_busy ti) s")
  case None
  then have free: "s \<notin> fst ` set (links ti)" using doh by (auto simp: links_def map_of_eq_None_iff)
  show ?thesis using orphan_core[OF core _ free] free_one_core[OF core _ free] None by (simp add: retire_host_def)
next
  case (Some d)
  let ?t = "ti\<lparr>ti_orphaned_busy := insert s (ti_orphaned_busy ti)\<rparr>"
  have key: "s \<in> fst ` set (ti_host_busy ti)" using map_of_SomeD[OF Some] by force
  have idle: "s \<notin> ti_pending ti" using tier_coreD(5)[OF core] key by (auto simp: links_ok_def)
  have new: "s \<notin> ti_orphaned_busy ti" using host_places(4)[OF tier_coreD(2)[OF core], of s] by auto
  have "host_ledger L ?t"
    using tier_coreD(2)[OF core] new idle by (auto simp: host_ledger_def)
  moreover have "home_ok L D ?t p" if m: "p \<in> set (links ti)" for p
    using link_home[OF core m] by (cases p) (auto simp: home_ok_def)
  ultimately have "tier_core L D M ?t"
    using core key by (simp add: tier_core_def trajs_ok_def disk_ledger_def main_ledger_def links_ok_def links_def)
  then show ?thesis using Some by (simp add: retire_host_def)
qed

lemma retire_host_fields [simp]:
  "ti_disk_of_host (retire_host s ti) = ti_disk_of_host ti" "links (retire_host s ti) = links ti"
  "ti_trajs (retire_host s ti) = ti_trajs ti" "ti_num_disk (retire_host s ti) = ti_num_disk ti"
  "ti_disk_pending (retire_host s ti) = ti_disk_pending ti"
  by (simp_all add: retire_host_def links_def)

lemma retire_hosts_core:
  assumes "tier_core (L + mset ss) D M ti" "set ss \<inter> fst ` set (ti_disk_of_host ti) = {}"
  shows "tier_core L D M (fold retire_host ss ti) \<and> ti_trajs (fold retire_host ss ti) = ti_trajs ti \<and>
    links (fold retire_host ss ti) = links ti \<and> ti_num_disk (fold retire_host ss ti) = ti_num_disk ti"
  using assms
proof (induction ss arbitrary: ti)
  case (Cons s ss)
  have core: "tier_core (add_mset s (L + mset ss)) D M ti" using Cons.prems by simp
  then have "tier_core (L + mset ss) D M (retire_host s ti)" by (rule retire_host_core) (use Cons.prems in simp)
  then show ?case using Cons.IH[of "retire_host s ti"] Cons.prems(2) by simp
qed simp

lemma retire_disk_core:
  assumes core: "tier_core {#} (add_mset d D) M ti"
  shows "tier_core {#} D M (retire_disk d ti)"
proof (cases "d \<in> ti_disk_pending ti")
  case False
  then have "d \<notin> snd ` set (links ti)" using link_disks(2)[OF core] by blast
  then show ?thesis using free_disk_core[OF core] False by (simp add: retire_disk_def)
next
  case True
  let ?t = "ti\<lparr>ti_orphaned_disk := insert d (ti_orphaned_disk ti)\<rparr>"
  have new: "d \<notin> ti_orphaned_disk ti" using disk_places(3)[OF tier_coreD(3)[OF core], of d] by auto
  have "disk_ledger D ?t" using tier_coreD(3)[OF core] new True by (auto simp: disk_ledger_def)
  moreover have "home_ok {#} D ?t p" if m: "p \<in> set (links ti)" for p
    using link_home[OF core m] by (cases p) (auto simp: home_ok_def)
  ultimately have "tier_core {#} D M ?t"
    using core by (simp add: tier_core_def trajs_ok_def host_ledger_def main_ledger_def links_ok_def links_def)
  then show ?thesis using True by (simp add: retire_disk_def)
qed

lemma retire_disk_fields [simp]:
  "links (retire_disk d ti) = links ti" "ti_trajs (retire_disk d ti) = ti_trajs ti"
  "ti_num_disk (retire_disk d ti) = ti_num_disk ti"
  by (simp_all add: retire_disk_def links_def free_disk_slot_def)

lemma retire_disks_core:
  "tier_core {#} (D + mset ds) M ti \<Longrightarrow> tier_core {#} D M (fold retire_disk ds ti) \<and>
    links (fold retire_disk ds ti) = links ti \<and> ti_trajs (fold retire_disk ds ti) = ti_trajs ti \<and>
    ti_num_disk (fold retire_disk ds ti) = ti_num_disk ti"
proof (induction ds arbitrary: ti)
  case (Cons d ds)
  have "tier_core {#} (D + mset ds) M (retire_disk d ti)" by (rule retire_disk_core) (use Cons.prems in simp)
  then show ?case using Cons.IH[of "retire_disk d ti"] by simp
qed simp

lemma hand_distinct:
  assumes "tier_core L D M ti"
  shows "L = mset ss \<Longrightarrow> distinct ss" "D = mset ds \<Longrightarrow> distinct ds"
proof -
  show "distinct ss" if l: "L = mset ss"
  proof -
    have "mset ss + (mset (ti_free ti) + host_held ti + mset_set (ti_orphaned ti) + mset_set (ti_orphaned_busy ti)) =
        mset [0..<ti_num_slots ti]"
      using host_ledger_sum(1)[OF tier_coreD(2)[OF assms]] l by (simp add: ac_simps)
    then show ?thesis using mset_distinct_parts(1) distinct_upt by metis
  qed
  show "distinct ds" if l: "D = mset ds"
  proof -
    have "mset ds + (mset (ti_disk_free ti) + disk_held ti + mset_set (ti_orphaned_disk ti)) = mset [0..<ti_num_disk ti]"
      using disk_ledger_sum(1)[OF tier_coreD(3)[OF assms]] l by (simp add: ac_simps)
    then show ?thesis using mset_distinct_parts(1) distinct_upt by metis
  qed
qed

text \<open>The disk slots popped with the old tail are the disk slots of the old tail.\<close>

lemma retire_tail_core:
  assumes core: "tier_core (mset (map snd (tj_tail tr))) (mset (map snd (tj_disk_tail tr))) M ti"
  shows "tier_core {#} {#} M (retire_tail tr ti)" "ti_trajs (retire_tail tr ti) = ti_trajs ti"
    "set (links (retire_tail tr ti)) \<subseteq> set (links ti)" "ti_num_disk (retire_tail tr ti) = ti_num_disk ti"
proof -
  let ?old = "map snd (tj_tail tr)" and ?disk = "map snd (tj_disk_tail tr)"
  let ?popped = "map snd (filter (\<lambda>(s, d). s \<in> set ?old) (ti_disk_of_host ti))"
  define t1 where "t1 = unlink (\<lambda>(s, d). s \<notin> set ?old) ti"
  define t2 where "t2 = fold retire_host ?old t1"
  have home: "d \<in> set ?disk" if m: "(s, d) \<in> set (ti_disk_of_host ti)" "s \<in> set ?old" for s d
  proof -
    have p: "(s, d) \<in> set (links ti)" using m by (simp add: links_def)
    have "s \<notin># host_held ti" "s \<notin> ti_orphaned_busy ti"
      using host_places(2,4)[OF tier_coreD(2)[OF core], of s] m(2) by auto
    then show ?thesis using link_home[OF core p] m(2) linked_held[of ti s d] by (auto simp: home_ok_def)
  qed
  have sub: "set ?popped \<subseteq> set ?disk"
  proof
    fix d
    assume "d \<in> set ?popped"
    then obtain s where "(s, d) \<in> set (ti_disk_of_host ti)" "s \<in> set ?old" by force
    then show "d \<in> set ?disk" by (rule home)
  qed
  have dd: "distinct ?disk" by (rule hand_distinct(2)[OF core refl])
  have same: "mset (remdups (?disk @ ?popped)) = mset ?disk"
    using sub dd by (subst set_eq_iff_mset_eq_distinct[symmetric]) auto
  have c1: "tier_core ({#} + mset ?old) (mset ?disk) M t1" unfolding t1_def using unlink_core[OF core] by simp
  have c2: "tier_core {#} (mset ?disk) M t2 \<and> ti_trajs t2 = ti_trajs t1 \<and> links t2 = links t1 \<and> ti_num_disk t2 = ti_num_disk t1"
    unfolding t2_def by (rule retire_hosts_core[OF c1]) (force simp: t1_def)
  then have "tier_core {#} ({#} + mset (remdups (?disk @ ?popped))) M t2" unfolding same by simp
  note c3 = retire_disks_core[OF this]
  have eq: "retire_tail tr ti = fold retire_disk (remdups (?disk @ ?popped)) t2"
    unfolding retire_tail_def Let_def t2_def t1_def unlink_def by simp
  have l1: "set (links t1) \<subseteq> set (links ti)" by (auto simp: t1_def links_def)
  have n1: "ti_num_disk t1 = ti_num_disk ti" by (simp add: t1_def unlink_def)
  show "tier_core {#} {#} M (retire_tail tr ti)" "ti_trajs (retire_tail tr ti) = ti_trajs ti"
    "set (links (retire_tail tr ti)) \<subseteq> set (links ti)" "ti_num_disk (retire_tail tr ti) = ti_num_disk ti"
    using c2 c3 l1 n1 by (simp_all add: eq) (simp_all add: t1_def)
qed



subsection \<open>Staging the tail\<close>

lemma put_retire_host: "put_traj owner tr (retire_host s ti) = retire_host s (put_traj owner tr ti)"
  by (cases "map_of (ti_host_busy ti) s") (simp_all add: retire_host_def put_traj_def)

lemma put_retire_disk: "put_traj owner tr (retire_disk d ti) = retire_disk d (put_traj owner tr ti)"
  by (simp add: retire_disk_def put_traj_def free_disk_slot_def)

lemma put_retire: "put_traj owner tr (retire_tail tr' ti) = retire_tail tr' (put_traj owner tr ti)"
proof -
  have h: "put_traj owner tr (fold retire_host ss t) = fold retire_host ss (put_traj owner tr t)" for ss t
    by (induction ss arbitrary: t) (simp_all add: put_retire_host)
  have d: "put_traj owner tr (fold retire_disk ds t) = fold retire_disk ds (put_traj owner tr t)" for ds t
    by (induction ds arbitrary: t) (simp_all add: put_retire_disk)
  show ?thesis by (simp add: retire_tail_def Let_def h d put_link)
qed

definition new_tail :: "(nat \<times> nat) list \<Rightarrow> int \<Rightarrow> bytes \<Rightarrow> tier_traj \<Rightarrow> tier_traj" where
  "new_tail slots b h tr = tr\<lparr>tj_tail := slots, tj_boundary := b, tj_tail_hash := h, tj_tail_pending := True,
     tj_disk_tail := [], tj_disk_boundary := - 1\<rparr>"

lemma new_tail_simps [simp]:
  "attn_hosts (new_tail slots b h tr) = attn_hosts tr" "attn_disks (new_tail slots b h tr) = attn_disks tr"
  "tj_tail (new_tail slots b h tr) = slots" "tj_disk_tail (new_tail slots b h tr) = []"
  "main_slot_list (new_tail slots b h tr) = main_slot_list tr"
  by (simp_all add: new_tail_def attn_hosts_def attn_disks_def main_slot_list_def)

lemma put_new_tail_core:
  assumes core: "tier_core (mset (map snd slots)) {#} M ti"
  shows "tier_core (mset (map snd (tj_tail (traj_of owner ti)))) (mset (map snd (tj_disk_tail (traj_of owner ti)))) M
    (put_traj owner (new_tail slots b h (traj_of owner ti)) ti)"
proof (rule put_traj_core[OF core])
  show "tier_traj_ok (ti_pending ti) (new_tail slots b h (traj_of owner ti))"
    using traj_of_ok[OF tier_coreD(1)[OF core], of owner] by (simp add: tier_traj_ok_def new_tail_def)
  show "home_ok (mset (map snd (tj_tail (traj_of owner ti)))) (mset (map snd (tj_disk_tail (traj_of owner ti))))
      (put_traj owner (new_tail slots b h (traj_of owner ti)) ti) p" if m: "p \<in> set (links ti)" for p
  proof -
    obtain s d where p: "p = (s, d)" by (cases p)
    show ?thesis unfolding p by (rule home_put[OF core]) (use m p in \<open>auto simp: link_in_def\<close>)
  qed
qed (simp_all add: traj_slots_split)

text \<open>Recording the write-throughs of the new tail.\<close>

lemma links_core:
  assumes "tier_core L D M ti" "distinct (map fst ps)" "distinct (map snd ps)"
    "unlinked (map fst ps) ti" "disk_unlinked (map snd ps) ti"
    "\<And>p. p \<in> set ps \<Longrightarrow> linked (ti_trajs ti) p \<and> snd p \<in> ti_disk_pending ti"
  shows "tier_core L D M (ti\<lparr>ti_disk_of_host := fold (\<lambda>(s, d). AList.update s d) ps (ti_disk_of_host ti)\<rparr>)"
  using assms
proof (induction ps arbitrary: ti)
  case (Cons p ps)
  obtain s d where p: "p = (s, d)" by (cases p)
  let ?t = "ti\<lparr>ti_disk_of_host := AList.update s d (ti_disk_of_host ti)\<rparr>"
  have core: "tier_core L D M ?t"
    by (rule link_core[OF Cons.prems(1)])
      (use Cons.prems(4,5) Cons.prems(6)[of p] p in \<open>auto simp: unlinked_def disk_unlinked_def\<close>)
  have "s \<notin> fst ` set (ti_disk_of_host ti)" using Cons.prems(4) by (auto simp: p unlinked_def links_def)
  then have l: "set (links ?t) = insert (s, d) (set (links ti))" by (auto simp: links_def update_nonmem)
  have "tier_core L D M (?t\<lparr>ti_disk_of_host := fold (\<lambda>(s, d). AList.update s d) ps (ti_disk_of_host ?t)\<rparr>)"
    by (rule Cons.IH[OF core]) (use Cons.prems p in \<open>auto simp: unlinked_def disk_unlinked_def l\<close>)
  then show ?case by (simp add: p)
qed simp

lemma put_disk_tail_core:
  assumes core: "tier_core L (mset (map snd disk)) M ti" and none: "tj_disk_tail (traj_of owner ti) = []"
    and free: "disk_unlinked (map snd disk) ti"
  shows "tier_core L {#} M (put_traj owner ((traj_of owner ti)\<lparr>tj_disk_tail := disk, tj_disk_boundary := b\<rparr>) ti)"
proof (rule put_traj_core[OF core])
  show "home_ok L {#} (put_traj owner ((traj_of owner ti)\<lparr>tj_disk_tail := disk, tj_disk_boundary := b\<rparr>) ti) p"
    if m: "p \<in> set (links ti)" for p
  proof -
    obtain s d where p: "p = (s, d)" by (cases p)
    have "d \<notin># mset (map snd disk)" using m free by (force simp: p disk_unlinked_def)
    then show ?thesis unfolding p
      by (intro home_put[OF core]) (use m p none in \<open>auto simp: link_in_def attn_hosts_def attn_disks_def\<close>)
  qed
qed (use traj_of_ok[OF tier_coreD(1)[OF core], of owner] none in
      \<open>simp_all add: tier_traj_ok_def traj_host_slots_def traj_disk_slots_def main_slot_list_def\<close>)

lemma stage_tail_unfold:
  "tier_stage_tail owner b k h ti =
     (let ti1 = open_traj owner ti; tr = traj_of owner ti1 in
      rbind (alloc_tail [0..<k] owner [] ti1) (\<lambda>(oss, ti2).
        case oss of
          None \<Rightarrow> Inr (None, ti2)
        | Some slots \<Rightarrow>
            let ti3 = put_traj owner (new_tail slots b h tr) (retire_tail tr ti2) in
            if ti_num_disk ti3 = 0 then Inr (Some slots, ti3)
            else rbind (alloc_disk_tail (map fst slots) owner [] ti3) (\<lambda>(disk, ti4).
              let ti5 = ti4\<lparr>ti_disk_of_host :=
                      fold (\<lambda>(s, d). AList.update s d) (zip (map snd slots) (map snd disk)) (ti_disk_of_host ti4)\<rparr>
              in Inr (Some slots, if disk = [] then ti5
                   else put_traj owner ((new_tail slots b h tr)\<lparr>tj_disk_tail := disk, tj_disk_boundary := b\<rparr>) ti5))))"
  unfolding tier_stage_tail_def new_tail_def Let_def by simp

lemma open_traj_core:
  assumes core: "tier_core L D M ti"
  shows "tier_core L D M (open_traj owner ti)" "traj_of owner (open_traj owner ti) = traj_of owner ti"
proof -
  have "tier_core L D M (put_traj owner (traj_of owner ti) ti)"
    by (rule put_same_core[OF core traj_of_ok[OF tier_coreD(1)[OF core]]]) simp_all
  then show "tier_core L D M (open_traj owner ti)" unfolding open_traj_def by (rule touch_owner_core)
  show "traj_of owner (open_traj owner ti) = traj_of owner ti" by (simp add: open_traj_def)
qed


text \<open>The second half of \<open>stage_tail_states\<close>: the disk slots of a tail that was just recorded.\<close>

lemma disk_tail_inv:
  assumes core: "tier_inv ti3" and tr3: "traj_of owner ti3 = new_tail slots b h tr"
    and free: "unlinked (map snd slots) ti3" and dist: "distinct (map snd slots)"
    and run: "alloc_disk_tail (map fst slots) owner [] ti3 = Inr (disk, ti4)"
    and ti5: "ti5 = ti4\<lparr>ti_disk_of_host :=
      fold (\<lambda>(s, d). AList.update s d) (zip (map snd slots) (map snd disk)) (ti_disk_of_host ti4)\<rparr>"
  shows "tier_inv (if disk = [] then ti5
    else put_traj owner ((new_tail slots b h tr)\<lparr>tj_disk_tail := disk, tj_disk_boundary := b\<rparr>) ti5)"
proof -
  have core3: "tier_core {#} (mset (map snd ([] :: (nat \<times> nat) list))) {#} ti3" using core by simp
  note al = alloc_disk_tail_ok[OF run core3]
  have ok: "tier_core {#} (mset (map snd disk)) {#} ti4" "map_of (ti_trajs ti4) owner = map_of (ti_trajs ti3) owner"
      "set (links ti4) \<subseteq> set (links ti3)" "disk_unlinked (map snd disk) ti4" "set (map snd disk) \<subseteq> ti_disk_pending ti4"
      "disk = [] \<or> map fst disk = map fst slots"
    using al by (simp_all add: disk_unlinked_def)
  have tr4: "traj_of owner ti4 = new_tail slots b h tr" using ok(2) tr3 by (simp add: traj_of_def)
  show ?thesis
  proof (cases "disk = []")
    case True
    then show ?thesis using ok(1) by (simp add: ti5)
  next
    case False
    let ?tr = "(new_tail slots b h tr)\<lparr>tj_disk_tail := disk, tj_disk_boundary := b\<rparr>"
    let ?ps = "zip (map snd slots) (map snd disk)"
    define t where "t = put_traj owner ?tr ti4"
    have len: "length disk = length slots" using ok(6) False by (metis length_map)
    have core4: "tier_inv t" using put_disk_tail_core[OF ok(1) _ ok(4), of owner b] by (simp add: t_def tr4)
    have free4: "unlinked (map snd slots) ti4" by (rule unlinked_mono[OF free ok(3)])
    have dd: "distinct (map snd disk)" by (rule hand_distinct(2)[OF ok(1) refl])
    have "tier_inv (t\<lparr>ti_disk_of_host := fold (\<lambda>(s, d). AList.update s d) ?ps (ti_disk_of_host t)\<rparr>)"
    proof (rule links_core[OF core4])
      show "distinct (map fst ?ps)" "distinct (map snd ?ps)" using dist dd len by simp_all
      show "unlinked (map fst ?ps) t" "disk_unlinked (map snd ?ps) t"
        using free4 ok(4) len by (simp_all add: t_def unlinked_def disk_unlinked_def)
      show "linked (ti_trajs t) p \<and> snd p \<in> ti_disk_pending t" if m: "p \<in> set ?ps" for p
      proof -
        obtain s d where p: "p = (s, d)" by (cases p)
        have sd: "s \<in> set (map snd slots)" "d \<in> set (map snd disk)"
          using m set_zip_leftD set_zip_rightD unfolding p by metis+
        have "link_in ?tr p" using sd by (auto simp: p link_in_def)
        then have "linked (ti_trajs t) p" unfolding t_def by (rule traj_of_mem2[OF tier_coreD(6)[OF ok(1)]])
        then show ?thesis using sd(2) ok(5) by (auto simp: p t_def)
      qed
    qed
    then show ?thesis using False by (simp add: ti5 t_def put_link)
  qed
qed

lemma stage_tail_inv:
  assumes run: "tier_stage_tail owner b k h ti = Inr (oss, ti')" and core: "tier_inv ti"
  shows "tier_inv ti'"
proof -
  define ti1 where "ti1 = open_traj owner ti"
  define tr where "tr = traj_of owner ti1"
  have core1: "tier_core (mset (map snd ([] :: (nat \<times> nat) list))) {#} {#} ti1"
    using open_traj_core(1)[OF core] by (simp add: ti1_def)
  obtain oss2 ti2 where a: "alloc_tail [0..<k] owner [] ti1 = Inr (oss2, ti2)"
    using run by (auto simp: stage_tail_unfold ti1_def[symmetric] Let_def)
  have al: "tier_core (case oss2 of None \<Rightarrow> {#} | Some sl \<Rightarrow> mset (map snd sl)) {#} {#} ti2"
      "map_of (ti_trajs ti2) owner = map_of (ti_trajs ti1) owner"
      "\<And>sl. oss2 = Some sl \<Longrightarrow> unlinked (map snd sl) ti2"
    using alloc_tail_ok[OF a core1] by (auto simp: unlinked_def)
  show ?thesis
  proof (cases oss2)
    case None
    then show ?thesis using run a al(1) by (simp add: stage_tail_unfold ti1_def[symmetric] Let_def)
  next
    case (Some slots)
    define ti3 where "ti3 = put_traj owner (new_tail slots b h tr) (retire_tail tr ti2)"
    have tr2: "traj_of owner ti2 = tr" using al(2) by (simp add: tr_def traj_of_def)
    have core2: "tier_core (mset (map snd slots)) {#} {#} ti2" using al(1) Some by simp
    have p: "tier_core (mset (map snd (tj_tail tr))) (mset (map snd (tj_disk_tail tr))) {#}
        (put_traj owner (new_tail slots b h tr) ti2)"
      using put_new_tail_core[OF core2, where owner = owner and b = b and h = h] by (simp add: tr2)
    note ret = retire_tail_core[OF p]
    have core3: "tier_inv ti3" using ret(1) by (simp add: ti3_def put_retire)
    have tr3: "traj_of owner ti3 = new_tail slots b h tr" by (simp add: ti3_def)
    have "set (links ti3) \<subseteq> set (links ti2)" using ret(3) by (simp add: ti3_def put_retire)
    from unlinked_mono[OF al(3)[OF Some] this] have free: "unlinked (map snd slots) ti3" .
    have dist: "distinct (map snd slots)" by (rule hand_distinct(1)[OF core2 refl])
    have body: "(if ti_num_disk ti3 = 0 then Inr (Some slots, ti3)
        else rbind (alloc_disk_tail (map fst slots) owner [] ti3) (\<lambda>(disk, ti4).
          let ti5 = ti4\<lparr>ti_disk_of_host :=
                  fold (\<lambda>(s, d). AList.update s d) (zip (map snd slots) (map snd disk)) (ti_disk_of_host ti4)\<rparr>
          in Inr (Some slots, if disk = [] then ti5
               else put_traj owner ((new_tail slots b h tr)\<lparr>tj_disk_tail := disk, tj_disk_boundary := b\<rparr>) ti5))) =
        Inr (oss, ti')"
      using run unfolding stage_tail_unfold ti1_def[symmetric] tr_def[symmetric] ti3_def Let_def a Some
      by (simp del: put_traj_fields split del: if_split)
    show ?thesis
    proof (cases "ti_num_disk ti3 = 0")
      case True
      then show ?thesis using body core3 by simp
    next
      case False
      then obtain disk ti4 where d: "alloc_disk_tail (map fst slots) owner [] ti3 = Inr (disk, ti4)"
        using body by auto
      show ?thesis using disk_tail_inv[OF core3 tr3 free dist d refl] body False d by (simp add: Let_def)
    qed
  qed
qed


subsection \<open>Confirmed writes\<close>

lemma confirm_slot_core:
  assumes core: "tier_core L D M ti"
  shows "tier_core L D M (confirm_slot s ti)"
proof -
  have h: "home_ok L D (confirm_slot s ti) p = home_ok L D ti p" for p
    by (simp add: home_ok_def confirm_slot_def Let_def)
  have f: "ti_pending (confirm_slot s ti) = ti_pending ti - {s}" "links (confirm_slot s ti) = links ti"
      "ti_trajs (confirm_slot s ti) = ti_trajs ti" "ti_host_busy (confirm_slot s ti) = ti_host_busy ti"
      "ti_disk_pending (confirm_slot s ti) = ti_disk_pending ti" "ti_orphaned_busy (confirm_slot s ti) = ti_orphaned_busy ti"
    by (simp_all add: confirm_slot_def Let_def links_def)
  have "host_ledger L (confirm_slot s ti)"
  proof (cases "s \<in> ti_orphaned ti")
    case True
    have "mset_set (ti_orphaned ti) = add_mset s (mset_set (ti_orphaned ti - {s}))"
      using True host_ledger_sum(5)[OF tier_coreD(2)[OF core]] by (simp add: mset_set.remove)
    then show ?thesis
      using tier_coreD(2)[OF core] True by (auto simp: host_ledger_def confirm_slot_def Let_def)
  next
    case False
    then show ?thesis using tier_coreD(2)[OF core] by (auto simp: host_ledger_def confirm_slot_def Let_def)
  qed
  moreover have "trajs_ok (confirm_slot s ti)"
    by (rule trajs_ok_pending[OF tier_coreD(1)[OF core]]) (auto simp: f)
  moreover have "links_ok L D (confirm_slot s ti)"
    using tier_coreD(5)[OF core] by (auto simp: links_ok_def f h)
  moreover have "disk_ledger D (confirm_slot s ti)" "main_ledger M (confirm_slot s ti)"
    using tier_coreD(3,4)[OF core] by (simp_all add: disk_ledger_def main_ledger_def f) (simp_all add: confirm_slot_def Let_def)
  ultimately show ?thesis by (simp add: tier_core_def)
qed

lemma settle_simps [simp]:
  "traj_host_slots (tier_settle_tail P tr) = traj_host_slots tr" "traj_disk_slots (tier_settle_tail P tr) = traj_disk_slots tr"
  "main_slot_list (tier_settle_tail P tr) = main_slot_list tr" "link_in (tier_settle_tail P tr) = link_in tr"
  by (simp_all add: tier_settle_tail_def traj_host_slots_def traj_disk_slots_def main_slot_list_def link_in_def
      attn_hosts_def attn_disks_def)

lemma settle_ok: "tier_traj_ok P tr \<Longrightarrow> tier_traj_ok P (tier_settle_tail P tr)"
  by (auto simp: tier_traj_ok_def tier_settle_tail_def list_ex_iff)

lemma holdings_settle:
  "(\<And>tr. f (g tr) = f tr) \<Longrightarrow> holdings f (map (\<lambda>(k, tr). (k, g tr)) d) = holdings f d"
  by (induction d) auto

lemma settle_core:
  assumes core: "tier_core L D M ti"
  shows "tier_core L D M (ti\<lparr>ti_trajs := map (\<lambda>(owner, tr). (owner, tier_settle_tail (ti_pending ti) tr)) (ti_trajs ti)\<rparr>)"
proof -
  let ?ts = "map (\<lambda>(owner, tr). (owner, tier_settle_tail (ti_pending ti) tr)) (ti_trajs ti)"
  let ?t = "ti\<lparr>ti_trajs := ?ts\<rparr>"
  have "linked ?ts p = linked (ti_trajs ti) p" for p by (force simp: linked_def)
  then have h: "home_ok L D ?t p = home_ok L D ti p" for p by (simp add: home_ok_def)
  have "map fst ?ts = map fst (ti_trajs ti)" by (auto simp: case_prod_beta)
  then have "distinct (map fst ?ts)" using tier_coreD(6)[OF core] by (simp only:)
  moreover have "\<forall>(owner, tr) \<in> set ?ts. tier_traj_ok (ti_pending ti) tr"
    using tier_coreD(1)[OF core] by (auto simp: trajs_ok_def intro: settle_ok)
  moreover have t: "ti_trajs ?t = ?ts" "ti_pending ?t = ti_pending ti" by simp_all
  ultimately have "trajs_ok ?t" unfolding trajs_ok_def t by blast
  then show ?thesis
    using core
    by (simp add: tier_core_def host_ledger_def disk_ledger_def main_ledger_def links_ok_def h holdings_settle links_def)
qed

lemma confirm_writes_inv: "tier_core L D M ti \<Longrightarrow> tier_core L D M (tier_confirm_writes ss ti)"
proof -
  have "tier_core L D M ti \<Longrightarrow> tier_core L D M (fold confirm_slot ss ti)" for ti
    by (induction ss arbitrary: ti) (simp_all add: confirm_slot_core)
  then show "tier_core L D M ti \<Longrightarrow> tier_core L D M (tier_confirm_writes ss ti)"
    unfolding tier_confirm_writes_def Let_def by (intro settle_core)
qed


subsection \<open>Main-KV slots\<close>

lemma put_main_core:
  assumes core: "tier_core L D M ti"
    and main: "mset (somes ms) + M' = mset (main_slot_list (traj_of owner ti)) + M"
  shows "tier_core L D M' (put_traj owner ((traj_of owner ti)\<lparr>tj_main := ms\<rparr>) ti)"
proof (rule put_traj_core[OF core])
  show "home_ok L D (put_traj owner ((traj_of owner ti)\<lparr>tj_main := ms\<rparr>) ti) p" if m: "p \<in> set (links ti)" for p
  proof -
    obtain s d where p: "p = (s, d)" by (cases p)
    show ?thesis unfolding p
      by (rule home_put[OF core]) (use m p in \<open>auto simp: link_in_def attn_hosts_def attn_disks_def\<close>)
  qed
qed (use traj_of_ok[OF tier_coreD(1)[OF core], of owner] main in
      \<open>simp_all add: tier_traj_ok_def traj_host_slots_def traj_disk_slots_def main_slot_list_def\<close>)

lemma reserve_main_inv:
  assumes run: "reserve_main_slot owner i ti = (om, ti')" and core: "tier_inv ti"
  shows "tier_inv ti'"
proof (cases "require_main ti")
  case False
  then show ?thesis using run core by (simp add: reserve_main_slot_def)
next
  case True
  define ti0 where "ti0 = open_traj owner ti"
  define row where "row = pad_to (i + 1) None (tj_main (traj_of owner ti0))"
  define tr where "tr = (traj_of owner ti0)\<lparr>tj_main := row\<rparr>"
  define ti1 where "ti1 = put_traj owner tr ti0"
  have core0: "tier_inv ti0" unfolding ti0_def by (rule open_traj_core(1)[OF core])
  have core1: "tier_inv ti1"
    unfolding ti1_def tr_def by (rule put_main_core[OF core0]) (simp add: row_def main_slot_list_def)
  have len: "i < length row" by (simp add: row_def)
  have body: "(case row ! i of Some m \<Rightarrow> (Some m, ti1)
      | None \<Rightarrow> (case alloc_main owner ti1 of (om, ti2) \<Rightarrow>
          (case om of None \<Rightarrow> (None, ti2) | Some m \<Rightarrow> (Some m, put_traj owner (put_main i (Some m) tr) ti2)))) =
      (om, ti')"
    using run True unfolding reserve_main_slot_def tr_def ti1_def row_def ti0_def Let_def by simp
  show ?thesis
  proof (cases "row ! i")
    case (Some m)
    then show ?thesis using body core1 by simp
  next
    case None
    obtain om2 ti2 where a: "alloc_main owner ti1 = (om2, ti2)" by (meson surj_pair)
    note al = alloc_main_ok[OF a core1]
    have tr2: "traj_of owner ti2 = tr" using spares_traj_of[OF al(2)] by (simp add: ti1_def)
    have ti': "ti' = (case om2 of None \<Rightarrow> ti2 | Some m \<Rightarrow> put_traj owner (put_main i (Some m) tr) ti2)"
      using body None a by (cases om2) auto
    show ?thesis
    proof (cases om2)
      case None
      then show ?thesis using al(1) ti' by simp
    next
      case (Some m)
      have "mset (somes (row[i := Some m])) + {#} = mset (main_slot_list (traj_of owner ti2)) + ({#} + mset (somes [om2]))"
        using mset_somes_update[OF len, of "Some m"] \<open>row ! i = None\<close> Some
        by (simp add: tr2) (simp add: tr_def main_slot_list_def)
      from put_main_core[OF al(1) this]
      show ?thesis using Some by (simp add: ti' put_main_def tr2) (simp add: tr_def)
    qed
  qed
qed

end
