(* ===== verification/Tier_Disk.thy ===== *)
theory Tier_Disk
  imports Tier_Tail
begin

text \<open>
  Main-KV reservations, disk writes and promotion keep the invariant of the tier index; with the staging
  operations they are the steps of the reachable states.
\<close>

subsection \<open>Main-KV slots, continued\<close>

lemma release_main_at_core:
  assumes "release_main_at is owner freed ti = (freed', ti')" "tier_core L D M ti"
    "\<And>i. i \<in> set is \<Longrightarrow> i < length (tj_main (traj_of owner ti))"
  shows "tier_core L D M ti'"
  using assms
proof (induction "is" arbitrary: freed ti)
  case (Cons i "is")
  define tr where "tr = traj_of owner ti"
  have len: "i < length (tj_main tr)" using Cons.prems(3) by (simp add: tr_def)
  show ?case
  proof (cases "tj_main tr ! i")
    case None
    then show ?thesis using Cons by (simp add: tr_def)
  next
    case (Some m)
    show ?thesis
    proof (cases "m \<in> ti_main_pending ti")
      case False
      then show ?thesis using Cons Some by (simp add: tr_def)
    next
      case True
      define ti1 where "ti1 = free_main_slot m (put_traj owner (put_main i None tr) ti)"
      have "mset (somes ((tj_main tr)[i := None])) + add_mset m M = mset (main_slot_list (traj_of owner ti)) + M"
        using mset_somes_update[OF len, of None] Some by (simp add: main_slot_list_def tr_def)
      from put_main_core[OF Cons.prems(2) this]
      have "tier_core L D (add_mset m M) (put_traj owner (put_main i None tr) ti)" by (simp add: put_main_def tr_def)
      then have core1: "tier_core L D M ti1" unfolding ti1_def by (rule free_main_core)
      have tr1: "length (tj_main (traj_of owner ti1)) = length (tj_main tr)"
        by (simp add: ti1_def traj_of_def put_traj_def update_conv' put_main_def)
      have run: "release_main_at is owner (freed @ [m]) ti1 = (freed', ti')"
        using Cons.prems(1) Some True by (simp add: tr_def ti1_def Let_def)
      show ?thesis by (rule Cons.IH[OF run core1]) (use Cons.prems(3) in \<open>simp add: tr1 tr_def\<close>)
    qed
  qed
qed simp

lemma release_main_inv: "release_main_reservations owner k ti = (freed, ti') \<Longrightarrow> tier_inv ti \<Longrightarrow> tier_inv ti'"
  by (auto simp: release_main_reservations_def traj_of_def split: option.splits intro: release_main_at_core)

lemma main_only_core:
  assumes "tier_core L D M ti" "ti_trajs ti' = ti_trajs ti" "ti_free ti' = ti_free ti" "ti_pending ti' = ti_pending ti"
    "ti_orphaned ti' = ti_orphaned ti" "ti_orphaned_busy ti' = ti_orphaned_busy ti"
    "ti_orphaned_disk ti' = ti_orphaned_disk ti" "ti_disk_free ti' = ti_disk_free ti"
    "ti_disk_pending ti' = ti_disk_pending ti" "ti_disk_of_host ti' = ti_disk_of_host ti"
    "ti_host_busy ti' = ti_host_busy ti" "ti_main_free ti' = ti_main_free ti"
    "ti_main_pending ti' \<subseteq> ti_main_pending ti" "ti_num_slots ti' = ti_num_slots ti"
    "ti_num_disk ti' = ti_num_disk ti" "ti_num_main ti' = ti_num_main ti"
  shows "tier_core L D M ti'"
proof -
  have h: "home_ok L D ti' p = home_ok L D ti p" for p using assms by (simp add: home_ok_def)
  have l: "links ti' = links ti" using assms by (simp add: links_def)
  have "main_ledger M ti'" using tier_coreD(4)[OF assms(1)] assms by (auto simp: main_ledger_def)
  then show ?thesis
    using assms by (simp add: tier_core_def trajs_ok_def host_ledger_def disk_ledger_def links_ok_def h l)
qed

lemma main_marks_inv:
  assumes "tier_core L D M ti"
  shows "tier_core L D M (confirm_main ss ti)" "tier_core L D M (unpin_main req ti)"
    "tier_core L D M (hold_main block m ti)" "tier_core L D M (unhold_main block keep ti)"
    "pin_main owner n req ti = Inr ti' \<Longrightarrow> tier_core L D M ti'"
    "tier_core L D M (ti\<lparr>ti_promotions := ps\<rparr>)"
  by (rule main_only_core[OF assms]; auto simp: confirm_main_def unpin_main_def hold_main_def unhold_main_def Let_def
    pin_main_def rbind_eq_Inr)+


subsection \<open>Disk writes\<close>

lemma take_disk_core:
  assumes run: "take_disk_write s (ops, ti) = (ops', ti')" and core: "tier_core L D M ti"
    and idle: "s \<notin> ti_pending ti"
  shows "tier_core L D M ti' \<and> ti_pending ti' = ti_pending ti"
proof (cases "map_of (ti_disk_of_host ti) s")
  case None
  then show ?thesis using run core by (simp add: take_disk_write_def)
next
  case (Some d)
  have ti': "ti' = ti\<lparr>ti_disk_of_host := AList.delete s (ti_disk_of_host ti), ti_host_busy := AList.update s d (ti_host_busy ti)\<rparr>"
    using run Some by (simp add: take_disk_write_def)
  note ok = tier_coreD(5)[OF core]
  have mem: "(s, d) \<in> set (ti_disk_of_host ti)" by (rule map_of_SomeD[OF Some])
  have "fst ` set (ti_disk_of_host ti) \<inter> fst ` set (ti_host_busy ti) = {}"
    using ok by (simp add: links_ok_def links_def)
  then have "s \<notin> fst ` set (ti_host_busy ti)" using imageI[OF mem, of fst] by auto
  then have u: "AList.update s d (ti_host_busy ti) = ti_host_busy ti @ [(s, d)]" by (rule update_nonmem)
  have dist: "distinct (map fst (ti_disk_of_host ti))" using ok by (simp add: links_ok_def links_def)
  have "mset (links ti') = mset (links ti)"
    using mset_dict_delete[OF Some dist] by (simp add: links_def ti' u)
  then have set: "set (links ti') = set (links ti)" and f: "mset (map fst (links ti')) = mset (map fst (links ti))"
      and g: "mset (map snd (links ti')) = mset (map snd (links ti))"
    by (metis set_mset_mset, metis mset_map, metis mset_map)
  have "distinct (map fst (links ti'))" "distinct (map snd (links ti'))"
    using ok mset_eq_imp_distinct_iff[OF f] mset_eq_imp_distinct_iff[OF g] by (auto simp: links_ok_def)
  moreover have h: "home_ok L D ti' p = home_ok L D ti p" for p by (simp add: home_ok_def ti')
  moreover have "fst ` set (ti_host_busy ti') \<inter> ti_pending ti' = {}"
    using ok idle by (auto simp: links_ok_def ti' u)
  moreover have "ti_orphaned_busy ti \<subseteq> fst ` set (ti_host_busy ti)" using ok by (simp add: links_ok_def)
  then have "ti_orphaned_busy ti' \<subseteq> fst ` set (ti_host_busy ti')" by (simp add: ti' u subset_insertI2)
  moreover have "ti_disk_pending ti' = ti_disk_pending ti" by (simp add: ti')
  ultimately have "links_ok L D ti'" using ok set by (simp add: links_ok_def)
  then show ?thesis
    using core by (simp add: tier_core_def trajs_ok_def host_ledger_def disk_ledger_def main_ledger_def ti')
qed

lemma take_disk_writes_inv:
  assumes "take_disk_writes ss ti = (ops, ti')" "tier_core L D M ti" "set ss \<inter> ti_pending ti = {}"
  shows "tier_core L D M ti'"
proof -
  have "fold take_disk_write ss (ops0, ti) = (ops, ti') \<Longrightarrow> tier_core L D M ti \<Longrightarrow> set ss \<inter> ti_pending ti = {} \<Longrightarrow>
      tier_core L D M ti'" for ops0 ti
  proof (induction ss arbitrary: ops0 ti)
    case (Cons s ss)
    obtain ops1 ti1 where r: "take_disk_write s (ops0, ti) = (ops1, ti1)" by (meson surj_pair)
    have "tier_core L D M ti1 \<and> ti_pending ti1 = ti_pending ti"
      by (rule take_disk_core[OF r Cons.prems(2)]) (use Cons.prems(3) in simp)
    then show ?case using Cons.IH[of ops1 ti1] Cons.prems r by simp
  qed simp
  then show ?thesis using assms unfolding take_disk_writes_def by blast
qed

text \<open>A disk write that is in flight: the host slot is read and the disk slot written.\<close>

lemma confirm_disk_core:
  assumes core: "tier_inv ti" and w: "(s, d) \<in> set (ti_host_busy ti)"
  shows "tier_inv (confirm_disk_write (s, d) ti)"
    "set (ti_host_busy (confirm_disk_write (s, d) ti)) = set (ti_host_busy ti) - {(s, d)}"
proof -
  note ok = tier_coreD(5)[OF core]
  have dist: "distinct (map fst (ti_host_busy ti))" using ok by (simp add: links_ok_def links_def)
  have busy: "map_of (ti_host_busy ti) s = Some d" using w dist by simp
  let ?b = "AList.delete s (ti_host_busy ti)"
  have del: "set ?b = set (ti_host_busy ti) - {(s, d)}"
    using w dist by (auto simp: set_dict_delete dest: eq_key_imp_eq_value)
  define t where "t = ti\<lparr>ti_host_busy := ?b, ti_disk_pending := ti_disk_pending ti - {d}\<rparr>"
  have out: "mset (links ti) = add_mset (s, d) (mset (links t))"
    using mset_dict_delete[OF busy dist] by (simp add: links_def t_def)
  have dl: "distinct (map fst (links t))" "distinct (map snd (links t))"
      "s \<notin> fst ` set (links t)" "d \<notin> snd ` set (links t)"
    using distinct_take_out[OF out, of fst] distinct_take_out[OF out, of snd] ok by (simp_all add: links_ok_def)
  have sub: "set (links t) \<subseteq> set (links ti)" using del by (auto simp: t_def links_def)
  have links_t: "home_ok {#} {#} ti (u, e) \<and> u \<noteq> s \<and> e \<noteq> d \<and> e \<in> ti_disk_pending ti"
    if m: "(u, e) \<in> set (links t)" for u e
  proof -
    have "(u, e) \<in> set (links ti)" using m sub by blast
    then have "home_ok {#} {#} ti (u, e)" "e \<in> ti_disk_pending ti" using ok by (auto simp: links_ok_def)
    moreover have "u \<noteq> s" "e \<noteq> d" using dl(3,4) imageI[OF m, of fst] imageI[OF m, of snd] by auto
    ultimately show ?thesis by simp
  qed
  show "set (ti_host_busy (confirm_disk_write (s, d) ti)) = set (ti_host_busy ti) - {(s, d)}"
    using busy del by (auto simp: confirm_disk_write_def free_disk_slot_def Let_def)
  have wl: "(s, d) \<in> set (links ti)" using w by (simp add: links_def)
  have "fst ` set (ti_host_busy ti) \<inter> ti_pending ti = {}" using ok by (simp add: links_ok_def)
  then have idle: "s \<notin> ti_pending ti" using imageI[OF w, of fst] by auto
  have rest: "fst ` set ?b \<inter> ti_pending ti = {}" using ok del by (auto simp: links_ok_def)
  have lk: "links_ok {#} {#} t'"
    if "links t' = links t" "ti_host_busy t' = ?b" "ti_pending t' = ti_pending ti"
      "ti_disk_pending t' = ti_disk_pending ti - {d}" "\<And>p. p \<in> set (links t) \<Longrightarrow> home_ok {#} {#} t' p"
      "ti_orphaned_busy t' = ti_orphaned_busy ti - {s}" for t'
  proof -
    have "snd p \<in> ti_disk_pending ti - {d}" if "p \<in> set (links t)" for p
      using links_t[of "fst p" "snd p"] that by simp
    moreover have "ti_orphaned_busy ti - {s} \<subseteq> fst ` set ?b"
    proof -
      have b: "fst ` set ?b = fst ` set (ti_host_busy ti) - {s}"
        using arg_cong[OF delete_keys[of s "ti_host_busy ti"], of set] by simp
      have "ti_orphaned_busy ti \<subseteq> fst ` set (ti_host_busy ti)" using ok by (simp add: links_ok_def)
      then show ?thesis unfolding b by (rule Diff_mono) simp
    qed
    ultimately show ?thesis using that dl(1,2) rest by (simp add: links_ok_def)
  qed
  show "tier_inv (confirm_disk_write (s, d) ti)"
  proof (cases "s \<in> ti_orphaned_busy ti")
    case True
    let ?t = "ti\<lparr>ti_host_busy := ?b, ti_disk_pending := ti_disk_pending ti - {d},
      ti_orphaned_busy := ti_orphaned_busy ti - {s}, ti_free := ti_free ti @ [s],
      ti_orphaned_disk := ti_orphaned_disk ti - {d}, ti_disk_free := ti_disk_free ti @ [d]\<rparr>"
    have held: "s \<notin># host_held ti" using host_places(2)[OF tier_coreD(2)[OF core], of s] True by auto
    then have od: "d \<in> ti_orphaned_disk ti"
      using link_home[OF core wl] linked_held[of ti s d] by (auto simp: home_ok_def)
    have e: "confirm_disk_write (s, d) ti = ?t"
      using busy True by (simp add: confirm_disk_write_def free_disk_slot_def Let_def)
    have "mset_set (ti_orphaned_busy ti) = add_mset s (mset_set (ti_orphaned_busy ti - {s}))"
      using True host_ledger_sum(6)[OF tier_coreD(2)[OF core]] by (simp add: mset_set.remove)
    then have "host_ledger {#} ?t" using tier_coreD(2)[OF core] by (simp add: host_ledger_def)
    moreover have "mset_set (ti_orphaned_disk ti) = add_mset d (mset_set (ti_orphaned_disk ti - {d}))"
      using od disk_ledger_sum(4)[OF tier_coreD(3)[OF core]] by (simp add: mset_set.remove)
    then have "disk_ledger {#} ?t" using tier_coreD(3)[OF core] by (auto simp: disk_ledger_def)
    moreover have "home_ok {#} {#} ?t p" if "p \<in> set (links t)" for p
      using links_t[of "fst p" "snd p"] that by (cases p) (auto simp: home_ok_def)
    then have "links_ok {#} {#} ?t" by (intro lk) (simp_all add: links_def t_def)
    ultimately show ?thesis
      using core by (simp add: e tier_core_def trajs_ok_def main_ledger_def)
  next
    case False
    then have "linked (ti_trajs ti) (s, d)" using link_home[OF core wl] by (auto simp: home_ok_def)
    then have "d \<in># disk_held ti" using linked_held by blast
    then have nd: "d \<notin> ti_orphaned_disk ti" using disk_places(2)[OF tier_coreD(3)[OF core]] by blast
    have e: "confirm_disk_write (s, d) ti = t"
      using busy False nd by (simp add: confirm_disk_write_def t_def Let_def)
    have "disk_ledger {#} t" using tier_coreD(3)[OF core] nd by (auto simp: disk_ledger_def t_def)
    moreover have "home_ok {#} {#} t p" if "p \<in> set (links t)" for p
      using links_t[of "fst p" "snd p"] that by (cases p) (auto simp: home_ok_def t_def)
    then have "links_ok {#} {#} t" using False by (intro lk) (simp_all add: t_def)
    ultimately show ?thesis
      using core by (simp add: e tier_core_def trajs_ok_def main_ledger_def host_ledger_def) (simp add: t_def)
  qed
qed

end
