(* ===== verification/Tier_Promote.thy ===== *)
theory Tier_Promote
  imports Tier_Disk
begin

text \<open>
  Promotion: the disk-only copies of a trajectory get host slots, or the trajectory is left as it was.
\<close>

subsection \<open>How promotion changes a trajectory\<close>

text \<open>Promotion only adds host slots to positions.\<close>

definition host_grows :: "tier_traj \<Rightarrow> tier_traj \<Rightarrow> bool" where
  "host_grows tr tr' \<longleftrightarrow> (\<exists>rows. tr' = tr\<lparr>tj_attn := rows\<rparr> \<and> length rows = length (tj_attn tr) \<and>
     (\<forall>i < length rows. map_of (tj_attn tr ! i) \<subseteq>\<^sub>m map_of (rows ! i)))"

lemma host_grows_refl: "host_grows tr tr"
  by (auto simp: host_grows_def intro: exI[of _ "tj_attn tr"])

lemma host_grows_trans: "host_grows tr tr1 \<Longrightarrow> host_grows tr1 tr2 \<Longrightarrow> host_grows tr tr2"
proof -
  assume "host_grows tr tr1" "host_grows tr1 tr2"
  then obtain r1 r2 where r: "tr1 = tr\<lparr>tj_attn := r1\<rparr>" "tr2 = tr\<lparr>tj_attn := r2\<rparr>"
      "length r1 = length (tj_attn tr)" "length r2 = length (tj_attn tr)"
      "\<forall>i < length r1. map_of (tj_attn tr ! i) \<subseteq>\<^sub>m map_of (r1 ! i)" "\<forall>i < length r2. map_of (r1 ! i) \<subseteq>\<^sub>m map_of (r2 ! i)"
    by (auto simp: host_grows_def)
  then have "\<forall>i < length r2. map_of (tj_attn tr ! i) \<subseteq>\<^sub>m map_of (r2 ! i)" using map_le_trans by metis
  then show ?thesis using r unfolding host_grows_def by blast
qed

lemma host_growsD:
  assumes "host_grows tr tr'"
  shows "tj_hashes tr' = tj_hashes tr" "tj_boundary tr' = tj_boundary tr" "tj_tail tr' = tj_tail tr"
    "tj_tail_pending tr' = tj_tail_pending tr" "tj_disk_attn tr' = tj_disk_attn tr" "tj_disk_tail tr' = tj_disk_tail tr"
    "length (tj_attn tr') = length (tj_attn tr)"
    "i < length (tj_attn tr) \<Longrightarrow> map_of (tj_attn tr ! i) g = Some s \<Longrightarrow> map_of (tj_attn tr' ! i) g = Some s"
    "tj_tail_hash tr' = tj_tail_hash tr" "tj_disk_boundary tr' = tj_disk_boundary tr" "tj_main tr' = tj_main tr"
  using assms by (auto simp: host_grows_def map_le_def dom_def)

lemma host_grows_put:
  assumes "map_of (tj_attn tr ! i) g = None"
  shows "host_grows tr (put_attn i g s tr)"
proof -
  have "map_of (tj_attn tr ! j) \<subseteq>\<^sub>m map_of ((tj_attn tr)[i := AList.update g s (tj_attn tr ! i)] ! j)"
    if "j < length (tj_attn tr)" for j
    using assms that by (cases "j = i") (auto simp: update_conv' map_le_def)
  then show ?thesis by (auto simp: host_grows_def put_attn_def)
qed

text \<open>Each disk read fills the host slot of the same block.\<close>

definition read_ok :: "tier_traj \<Rightarrow> nat \<times> nat \<Rightarrow> bool" where
  "read_ok tr = (\<lambda>(d, s). \<exists>i g. i < length (tj_attn tr) \<and> map_of (tj_disk_attn tr ! i) g = Some d \<and>
     map_of (tj_attn tr ! i) g = Some s)"

lemma read_ok_grows: "read_ok tr p \<Longrightarrow> host_grows tr tr' \<Longrightarrow> read_ok tr' p"
  using host_growsD[of tr tr'] by (cases p) (simp add: read_ok_def, blast)

lemma read_ok_host: "read_ok tr (d, s) \<Longrightarrow> s \<in> set (attn_hosts tr)"
  by (force simp: read_ok_def attn_hosts_def dest: map_of_SomeD)

definition reads_ok :: "string \<Rightarrow> (nat \<times> nat) list \<Rightarrow> tier_index \<Rightarrow> bool" where
  "reads_ok owner reads ti \<longleftrightarrow> distinct (map snd reads) \<and> unlinked (map snd reads) ti \<and>
     set (map snd reads) \<subseteq> ti_pending ti \<and> (\<forall>p \<in> set reads. read_ok (traj_of owner ti) p)"


subsection \<open>Rolling back\<close>

lemma filter_parts: "mset (filter P xs) + mset (filter (\<lambda>x. \<not> P x) xs) = mset xs"
  by (metis mset_filter multiset_partition)

definition drop_slots :: "nat set \<Rightarrow> tier_traj \<Rightarrow> tier_traj" where
  "drop_slots S tr = tr\<lparr>tj_attn := map (filter (\<lambda>(g, s). s \<notin> S)) (tj_attn tr), tj_tail := filter (\<lambda>(g, s). s \<notin> S) (tj_tail tr)\<rparr>"

lemma map_snd_filter: "map snd (filter (\<lambda>(g, s). P s) row) = filter P (map snd row)"
  by (induction row) auto

lemma drop_slots_simps:
  "traj_host_slots (drop_slots S tr) = filter (\<lambda>s. s \<notin> S) (traj_host_slots tr)"
  "attn_hosts (drop_slots S tr) = filter (\<lambda>s. s \<notin> S) (attn_hosts tr)"
  "map snd (tj_tail (drop_slots S tr)) = filter (\<lambda>s. s \<notin> S) (map snd (tj_tail tr))"
  "attn_disks (drop_slots S tr) = attn_disks tr" "tj_disk_tail (drop_slots S tr) = tj_disk_tail tr"
  "traj_disk_slots (drop_slots S tr) = traj_disk_slots tr" "main_slot_list (drop_slots S tr) = main_slot_list tr"
  by (simp_all add: drop_slots_def traj_host_slots_def attn_hosts_def attn_disks_def traj_disk_slots_def
      main_slot_list_def filter_concat comp_def map_snd_filter)

lemma drop_slots_ok: "tier_traj_ok P tr \<Longrightarrow> tier_traj_ok P (drop_slots S tr)"
  by (auto simp: tier_traj_ok_def drop_slots_def)

lemma drop_no_slots [simp]: "drop_slots {} tr = tr"
proof -
  have "map (filter (\<lambda>(g, s). s \<notin> {})) rows = rows" for rows :: "(nat \<times> nat) list list"
    by (induction rows) (auto simp: filter_True)
  then show ?thesis by (simp add: drop_slots_def case_prod_beta)
qed

lemma filter_row_same:
  "(\<And>s. s \<in> snd ` set row \<Longrightarrow> s \<in> S \<longleftrightarrow> s \<in> S') \<Longrightarrow>
    filter (\<lambda>(g, s). s \<notin> S) row = filter (\<lambda>(g, s). s \<notin> S') row"
  by (induction row) auto

lemma drop_slots_cong:
  assumes "\<And>s. s \<in> set (traj_host_slots tr) \<Longrightarrow> s \<in> S \<longleftrightarrow> s \<in> S'"
  shows "drop_slots S tr = drop_slots S' tr"
proof -
  have "map (filter (\<lambda>(g, s). s \<notin> S)) (tj_attn tr) = map (filter (\<lambda>(g, s). s \<notin> S')) (tj_attn tr)"
    using assms by (intro map_cong refl filter_row_same) (auto simp: traj_host_slots_def)
  moreover have "filter (\<lambda>(g, s). s \<notin> S) (tj_tail tr) = filter (\<lambda>(g, s). s \<notin> S') (tj_tail tr)"
    using assms by (intro filter_row_same) (auto simp: traj_host_slots_def)
  ultimately show ?thesis by (simp add: drop_slots_def)
qed

text \<open>Dropping a slot that was just added gives the trajectory back.\<close>

lemma drop_put_attn:
  assumes "map_of (tj_attn tr ! i) g = None" "i < length (tj_attn tr)" "s \<notin> set (traj_host_slots tr)"
  shows "drop_slots (insert s S) (put_attn i g s tr) = drop_slots S tr"
proof -
  let ?f = "filter (\<lambda>(g, x). x \<notin> insert s S)"
  have "?f (AList.update g s (tj_attn tr ! i)) = ?f (tj_attn tr ! i)" by (simp add: update_row[OF assms(1)])
  then have "map ?f ((tj_attn tr)[i := AList.update g s (tj_attn tr ! i)]) = map ?f (tj_attn tr)"
    by (simp add: map_update list_update_same_conv assms(2))
  then have "drop_slots (insert s S) (put_attn i g s tr) = drop_slots (insert s S) tr"
    by (simp add: drop_slots_def put_attn_def)
  also have "\<dots> = drop_slots S tr" using assms(3) by (intro drop_slots_cong) auto
  finally show ?thesis .
qed

lemma traj_of_give_back [simp]: "traj_of owner (give_back ss ti) = traj_of owner ti"
  by (simp add: give_back_def traj_of_def)

lemma traj_of_rollback: "traj_of owner (rollback_promotion owner ss ti) = drop_slots (set ss) (traj_of owner ti)"
  by (simp add: rollback_promotion_def drop_slots_def Let_def)

definition undone :: "string \<Rightarrow> (nat \<times> nat) list \<Rightarrow> tier_index \<Rightarrow> tier_traj" where
  "undone owner reads ti = drop_slots (set (map snd reads)) (traj_of owner ti)"

lemma rollback_core:
  assumes core: "tier_core (mset extra) D M ti" and dist: "distinct ss" and free: "unlinked ss ti"
    and ss: "set extra \<subseteq> set ss" "set ss \<subseteq> set (traj_host_slots (traj_of owner ti)) \<union> set extra"
  shows "tier_core {#} D M (rollback_promotion owner ss ti)"
proof -
  define tr where "tr = traj_of owner ti"
  let ?hs = "traj_host_slots tr"
  let ?F = "filter (\<lambda>s. s \<in> set ss) ?hs"
  have sub: "mset ?hs \<subseteq># host_held ti"
  proof (cases "tr = empty_traj")
    case False
    then show ?thesis using holdings_ge[OF traj_of_mem] by (simp add: tr_def)
  qed simp
  then obtain R where R: "host_held ti = mset ?hs + R" by (metis subset_mset.le_iff_add)
  have "mset (?hs @ extra) + (R + mset (ti_free ti) + mset_set (ti_orphaned ti) + mset_set (ti_orphaned_busy ti)) =
      mset [0..<ti_num_slots ti]"
    using host_ledger_sum(1)[OF tier_coreD(2)[OF core]] by (simp add: R ac_simps)
  then have dist2: "distinct (?hs @ extra)" using mset_distinct_parts(1) distinct_upt by metis
  have same: "mset ?F + mset extra = mset ss"
  proof -
    have "distinct (?F @ extra)" using dist2 by auto
    moreover have "set (?F @ extra) = set ss" using ss by (auto simp: tr_def)
    ultimately have "mset (?F @ extra) = mset ss" using dist set_eq_iff_mset_eq_distinct by blast
    then show ?thesis by simp
  qed
  have "tier_core (mset ss) D M (put_traj owner (drop_slots (set ss) tr) ti)"
  proof (rule put_traj_core[OF core])
    show "tier_traj_ok (ti_pending ti) (drop_slots (set ss) tr)"
      unfolding tr_def by (rule drop_slots_ok[OF traj_of_ok[OF tier_coreD(1)[OF core]]])
    show "mset (traj_host_slots (drop_slots (set ss) tr)) + mset ss = mset (traj_host_slots (traj_of owner ti)) + mset extra"
      unfolding same[symmetric] drop_slots_simps(1) tr_def[symmetric]
      using filter_parts[of "\<lambda>s. s \<in> set ss" ?hs] by (simp add: ac_simps)
    show "home_ok (mset ss) D (put_traj owner (drop_slots (set ss) tr) ti) p" if m: "p \<in> set (links ti)" for p
    proof -
      obtain s d where p: "p = (s, d)" by (cases p)
      have "s \<notin> set ss" using m free by (force simp: p unlinked_def)
      then show ?thesis unfolding p
        by (intro home_put[OF core]) (use m p ss in \<open>auto simp: link_in_def drop_slots_simps tr_def simp del: set_map\<close>)
    qed
  qed (simp_all add: drop_slots_simps tr_def)
  then have "tier_core {#} D M (give_back ss (put_traj owner (drop_slots (set ss) tr) ti))"
    by (intro give_back_core) (use free in \<open>simp_all add: unlinked_def\<close>)
  then show ?thesis by (simp add: rollback_promotion_def drop_slots_def tr_def Let_def)
qed



subsection \<open>The loops of promote\<close>

lemma alloc_host_keeps:
  assumes "alloc_host owner ti = Inr (os, ti')" "tier_core L D M ti"
  shows "traj_of owner ti' = traj_of owner ti" "due ti' = due ti" "ti_promotions ti' = ti_promotions ti"
    "unlinked ss ti \<Longrightarrow> unlinked ss ti'" "ti_pending ti \<subseteq> ti_pending ti'"
    "map_of (ti_trajs ti') owner = map_of (ti_trajs ti) owner" "ti_disk_pending ti' \<subseteq> ti_disk_pending ti"
proof -
  note sp = alloc_host_ok(2)[OF assms]
  show "traj_of owner ti' = traj_of owner ti" "due ti' = due ti" by (rule spares_traj_of[OF sp] spares_due[OF sp])+
  show "unlinked ss ti \<Longrightarrow> unlinked ss ti'" using unlinked_mono spares_links[OF sp] by blast
  show "ti_promotions ti' = ti_promotions ti" "ti_pending ti \<subseteq> ti_pending ti'"
    "map_of (ti_trajs ti') owner = map_of (ti_trajs ti) owner"
    using sp by (simp_all add: tier_spares_def)
  show "ti_disk_pending ti' \<subseteq> ti_disk_pending ti" by (rule alloc_host_ok(3)[OF assms])
qed

lemma reads_ok_alloc:
  assumes "alloc_host owner ti = Inr (os, ti')" "tier_core L D M ti" "reads_ok owner reads ti"
  shows "reads_ok owner reads ti'"
  using assms(3) alloc_host_keeps[OF assms(1,2)] by (auto simp: reads_ok_def)

lemma rollback_reads:
  assumes core: "tier_core (mset (map snd tail)) {#} {#} ti"
    and reads: "reads_ok owner reads ti" and tail: "distinct (map snd tail)" "unlinked (map snd tail) ti"
      "set (map snd reads) \<inter> set (map snd tail) = {}"
  shows "tier_inv (rollback_promotion owner (map snd reads @ map snd tail) ti)"
proof (rule rollback_core[OF core])
  show "distinct (map snd reads @ map snd tail)" "unlinked (map snd reads @ map snd tail) ti"
    using reads tail by (auto simp: reads_ok_def unlinked_def)
  have "s \<in> set (traj_host_slots (traj_of owner ti))" if s: "s \<in> set (map snd reads)" for s
  proof -
    obtain d where "(d, s) \<in> set reads" using s by auto
    then show ?thesis using reads read_ok_host[of "traj_of owner ti" d s] by (auto simp: reads_ok_def traj_slots_split)
  qed
  then show "set (map snd reads @ map snd tail) \<subseteq> set (traj_host_slots (traj_of owner ti)) \<union> set (map snd tail)"
    by auto
qed simp

text \<open>One more host slot: the new slot is in no read and no trajectory yet.\<close>

lemma promote_step:
  assumes core: "tier_inv ti" and reads: "reads_ok owner reads ti" and i: "i < length (tj_attn (traj_of owner ti))"
    and new: "map_of (tj_attn (traj_of owner ti) ! i) g = None" "map_of (tj_disk_attn (traj_of owner ti) ! i) g = Some d"
    and a: "alloc_host owner ti = Inr (Some s, ti1)"
  shows "tier_inv (put_traj owner (put_attn i g s (traj_of owner ti)) ti1)"
    "reads_ok owner (reads @ [(d, s)]) (put_traj owner (put_attn i g s (traj_of owner ti)) ti1)"
    "undone owner (reads @ [(d, s)]) (put_traj owner (put_attn i g s (traj_of owner ti)) ti1) = undone owner reads ti"
proof -
  let ?tr = "traj_of owner ti"
  note keep = alloc_host_keeps[OF a core]
  note ok = alloc_host_ok[OF a core]
  have core1: "tier_core (add_mset s {#}) {#} {#} ti1" using ok(1) by simp
  have fresh: "s \<notin> fst ` set (links ti1)" by (rule ok(5)) simp
  show "tier_inv (put_traj owner (put_attn i g s ?tr) ti1)"
    using put_attn_core[OF core1, of i owner g] i new(1) fresh by (simp add: keep(1))
  have r1: "reads_ok owner reads ti1" by (rule reads_ok_alloc[OF a core reads])
  have not_held: "s \<notin># host_held ti1" using host_places(2)[OF tier_coreD(2)[OF core1], of s] by auto
  have "s \<notin> set (map snd reads)"
  proof
    assume "s \<in> set (map snd reads)"
    then obtain e where "(e, s) \<in> set reads" by auto
    then have "s \<in> set (traj_host_slots (traj_of owner ti1))"
      using r1 read_ok_host[of "traj_of owner ti1" e s] by (auto simp: reads_ok_def traj_slots_split)
    then have "s \<in># host_held ti1" using slot_traj_mem(1) by (force simp: set_holdings)
    then show False using not_held by simp
  qed
  moreover have "read_ok (put_attn i g s ?tr) p" if "p \<in> set reads" for p
    using that reads by (intro read_ok_grows[OF _ host_grows_put[OF new(1)]]) (simp add: reads_ok_def)
  moreover have "read_ok (put_attn i g s ?tr) (d, s)"
    unfolding read_ok_def using i new(2)
    by (intro case_prodI exI[of _ i] exI[of _ g]) (simp add: put_attn_def update_conv')
  ultimately show "reads_ok owner (reads @ [(d, s)]) (put_traj owner (put_attn i g s ?tr) ti1)"
    using r1 fresh ok(4) by (auto simp: reads_ok_def unlinked_def)
  have "s \<notin> set (traj_host_slots ?tr)"
    using not_held slot_traj_mem(1)[of s owner ti1] keep(1) by (force simp: set_holdings)
  then show "undone owner (reads @ [(d, s)]) (put_traj owner (put_attn i g s ?tr) ti1) = undone owner reads ti"
    using drop_put_attn[OF new(1) i, of s "snd ` set reads"] by (simp add: undone_def)
qed

definition staged :: "nat \<Rightarrow> nat list \<Rightarrow> tier_traj \<Rightarrow> bool" where
  "staged i gs tr \<longleftrightarrow> (\<forall>g \<in> set gs. map_of (tj_attn tr ! i) g \<noteq> None)"

lemma staged_grows: "staged i gs tr \<Longrightarrow> host_grows tr tr' \<Longrightarrow> i < length (tj_attn tr) \<Longrightarrow> staged i gs tr'"
  using host_growsD(8)[of tr tr' i] by (fastforce simp: staged_def)

text \<open>What a loop of \<open>promote\<close> keeps, and what it gives when it does not run out of slots.\<close>

definition promotes ::
  "string \<Rightarrow> (nat \<times> nat) list \<Rightarrow> tier_index \<Rightarrow> (nat \<times> nat) list option \<Rightarrow> tier_index \<Rightarrow> bool" where
  "promotes owner reads0 ti ors ti' \<longleftrightarrow> tier_inv ti' \<and> due ti' = due ti \<and> ti_promotions ti' = ti_promotions ti \<and>
     ti_disk_pending ti' \<subseteq> ti_disk_pending ti \<and>
     (ors = None \<longrightarrow> traj_of owner ti' = undone owner reads0 ti) \<and>
     (\<forall>reads. ors = Some reads \<longrightarrow> reads_ok owner reads ti' \<and> undone owner reads ti' = undone owner reads0 ti \<and>
       host_grows (traj_of owner ti) (traj_of owner ti') \<and>
       (map_of (ti_trajs ti') owner = None \<longleftrightarrow> map_of (ti_trajs ti) owner = None))"

lemma promotes_trans:
  "promotes owner reads0 ti (Some reads) ti1 \<Longrightarrow> promotes owner reads ti1 ors ti2 \<Longrightarrow> promotes owner reads0 ti ors ti2"
  by (auto simp: promotes_def intro: host_grows_trans)

lemma rollback_fields [simp]:
  "ti_disk_pending (rollback_promotion owner ss ti) = ti_disk_pending ti" "due (rollback_promotion owner ss ti) = due ti" "ti_promotions (rollback_promotion owner ss ti) = ti_promotions ti"
  by (simp_all add: rollback_promotion_def Let_def give_back_def put_traj_def due_def fun_eq_iff)

lemma due_put [simp]: "due (put_traj owner tr ti) = due ti"
  by (simp add: due_def fun_eq_iff)

lemma put_traj_dom: "map_of (ti_trajs (put_traj owner tr ti)) owner = Some tr"
  by (simp add: put_traj_def update_conv')

lemma promote_position_ok:
  assumes "promote_position i gs owner reads ti = Inr (ors, ti')" "tier_inv ti" "reads_ok owner reads ti"
    "i < length (tj_attn (traj_of owner ti))" "map_of (ti_trajs ti) owner \<noteq> None"
  shows "promotes owner reads ti ors ti' \<and> (ors \<noteq> None \<longrightarrow> staged i gs (traj_of owner ti'))"
  using assms
proof (induction gs arbitrary: reads ti)
  case Nil
  then show ?case by (auto simp: promotes_def staged_def host_grows_refl)
next
  case (Cons g gs)
  let ?tr = "traj_of owner ti"
  show ?case
  proof (cases "map_of (tj_attn ?tr ! i) g")
    case (Some s)
    have "promote_position i gs owner reads ti = Inr (ors, ti')" using Cons.prems(1) Some by simp
    note IH = Cons.IH[OF this Cons.prems(2-5)]
    have "map_of (tj_attn (traj_of owner ti') ! i) g = Some s" if "ors \<noteq> None"
      using IH that Cons.prems(4) host_growsD(8) Some by (auto simp: promotes_def)
    then show ?thesis using IH by (auto simp: staged_def)
  next
    case None
    then obtain d os ti1 where d: "map_of (tj_disk_attn ?tr ! i) g = Some d" and a: "alloc_host owner ti = Inr (os, ti1)"
      using Cons.prems(1) by (auto simp: Let_def split: option.splits if_splits)
    note keep = alloc_host_keeps[OF a Cons.prems(2)]
    show ?thesis
    proof (cases os)
      case None
      then have r: "ors = None" "ti' = rollback_promotion owner (map snd reads) ti1"
        using Cons.prems(1) \<open>map_of (tj_attn ?tr ! i) g = None\<close> d a by (auto simp: Let_def split: if_splits)
      have "tier_core (mset (map snd ([] :: (nat \<times> nat) list))) {#} {#} ti1"
        using alloc_host_ok(1)[OF a Cons.prems(2)] None by simp
      from rollback_reads[OF this reads_ok_alloc[OF a Cons.prems(2,3)]]
      show ?thesis using keep r by (simp add: promotes_def unlinked_def traj_of_rollback undone_def)
    next
      case (Some s)
      define ti2 where "ti2 = put_traj owner (put_attn i g s ?tr) ti1"
      have run: "promote_position i gs owner (reads @ [(d, s)]) ti2 = Inr (ors, ti')"
        using Cons.prems(1) None d a Some by (auto simp: Let_def ti2_def split: if_splits)
      note st = promote_step[OF Cons.prems(2,3,4) None d a[unfolded Some], folded ti2_def]
      have tr2: "traj_of owner ti2 = put_attn i g s ?tr" by (simp add: ti2_def)
      have IH: "promotes owner (reads @ [(d, s)]) ti2 ors ti' \<and> (ors \<noteq> None \<longrightarrow> staged i gs (traj_of owner ti'))"
        by (rule Cons.IH[OF run st(1,2)]) (use Cons.prems(4) in \<open>simp_all add: tr2 put_traj_dom ti2_def\<close>)
      have p: "promotes owner reads ti (Some (reads @ [(d, s)])) ti2"
        using st host_grows_put[OF None] keep Cons.prems(5)
        by (simp add: promotes_def tr2) (simp add: ti2_def put_traj_dom)
      have "map_of (tj_attn (traj_of owner ti') ! i) g = Some s" if "ors \<noteq> None"
      proof -
        have "host_grows (traj_of owner ti2) (traj_of owner ti')" using IH that by (auto simp: promotes_def)
        moreover have "map_of (tj_attn (traj_of owner ti2) ! i) g = Some s"
          using Cons.prems(4) by (simp add: tr2 put_attn_def update_conv')
        ultimately show ?thesis using host_growsD(8) Cons.prems(4) by (metis put_attn_simps(10) tr2)
      qed
      then show ?thesis using IH promotes_trans[OF p] by (auto simp: staged_def)
    qed
  qed
qed


lemma promote_attn_ok:
  assumes "promote_attn is owner reads ti = Inr (ors, ti')" "tier_inv ti" "reads_ok owner reads ti"
    "map_of (ti_trajs ti) owner \<noteq> None"
  shows "promotes owner reads ti ors ti' \<and> (ors \<noteq> None \<longrightarrow>
    (\<forall>i \<in> set is. i < length (tj_attn (traj_of owner ti)) \<and> staged i (due ti i) (traj_of owner ti')))"
  using assms
proof (induction "is" arbitrary: reads ti)
  case Nil
  then show ?case by (auto simp: promotes_def host_grows_refl)
next
  case (Cons i "is")
  then have i: "i < length (tj_attn (traj_of owner ti))" by (auto split: if_splits)
  obtain ors1 ti1 where r: "promote_position i (due ti i) owner reads ti = Inr (ors1, ti1)"
    using Cons.prems(1) i by (auto split: if_splits)
  note ok = promote_position_ok[OF r Cons.prems(2,3) i Cons.prems(4)]
  show ?case
  proof (cases ors1)
    case None
    then have "ors = None" "ti' = ti1" using Cons.prems(1) i r by auto
    then show ?thesis using ok None by (simp add: promotes_def)
  next
    case (Some reads1)
    have run: "promote_attn is owner reads1 ti1 = Inr (ors, ti')" using Cons.prems(1) i r Some by simp
    have p1: "promotes owner reads ti (Some reads1) ti1" and st: "staged i (due ti i) (traj_of owner ti1)"
      using ok Some by simp_all
    have IH: "promotes owner reads1 ti1 ors ti' \<and> (ors \<noteq> None \<longrightarrow>
        (\<forall>i \<in> set is. i < length (tj_attn (traj_of owner ti1)) \<and> staged i (due ti1 i) (traj_of owner ti')))"
      by (rule Cons.IH[OF run]) (use p1 Cons.prems(4) in \<open>simp_all add: promotes_def\<close>)
    have len: "length (tj_attn (traj_of owner ti1)) = length (tj_attn (traj_of owner ti))" "due ti1 = due ti"
      using p1 host_growsD(7) by (auto simp: promotes_def)
    have "staged i (due ti i) (traj_of owner ti')" if "ors \<noteq> None"
      using staged_grows[OF st] IH that i len by (auto simp: promotes_def)
    then show ?thesis using IH promotes_trans[OF p1] len i by auto
  qed
qed

text \<open>The tail loop holds the new tail slots in hand until the trajectory takes them over.\<close>

lemma reads_apart:
  assumes core: "tier_core L D M ti" and reads: "reads_ok owner reads ti"
  shows "set (map snd reads) \<inter> set_mset L = {}"
proof -
  have "s \<notin># L" if s: "s \<in> set (map snd reads)" for s
  proof -
    obtain d where "(d, s) \<in> set reads" using s by auto
    then have "s \<in> set (traj_host_slots (traj_of owner ti))"
      using reads read_ok_host[of "traj_of owner ti" d s] by (auto simp: reads_ok_def traj_slots_split)
    then have "s \<in># host_held ti" using slot_traj_mem(1) by (force simp: set_holdings)
    then show ?thesis using host_places(2)[OF tier_coreD(2)[OF core]] by blast
  qed
  then show ?thesis by blast
qed

lemma promote_tail_ok:
  assumes "promote_tail disk owner tail (ra @ rt) ti = Inr (ots, ti')"
    "tier_core (mset (map snd tail)) {#} {#} ti" "reads_ok owner ra ti" "map snd rt = map snd tail"
    "unlinked (map snd tail) ti" "set (map snd tail) \<subseteq> ti_pending ti"
  shows "due ti' = due ti \<and> ti_promotions ti' = ti_promotions ti \<and>
    (ots = None \<longrightarrow> tier_inv ti' \<and> traj_of owner ti' = undone owner ra ti) \<and>
    (\<forall>tail' reads'. ots = Some (tail', reads') \<longrightarrow> tier_core (mset (map snd tail')) {#} {#} ti' \<and>
      reads_ok owner ra ti' \<and> traj_of owner ti' = traj_of owner ti \<and> unlinked (map snd tail') ti' \<and>
      set (map snd tail') \<subseteq> ti_pending ti' \<and> map fst tail' = map fst tail @ map fst disk \<and>
      (\<exists>rt'. reads' = ra @ rt' \<and> map snd rt' = map snd tail' \<and> map fst rt' = map fst rt @ map snd disk))"
  using assms
proof (induction disk arbitrary: tail rt ti)
  case Nil
  then show ?case by auto
next
  case (Cons e disk)
  obtain g d where e: "e = (g, d)" by (cases e)
  then obtain os ti1 where a: "alloc_host owner ti = Inr (os, ti1)" using Cons.prems(1) by auto
  note keep = alloc_host_keeps[OF a Cons.prems(2)]
  note ok = alloc_host_ok[OF a Cons.prems(2)]
  have ra1: "reads_ok owner ra ti1" by (rule reads_ok_alloc[OF a Cons.prems(2,3)])
  show ?case
  proof (cases os)
    case None
    then have r: "ots = None" "ti' = rollback_promotion owner (map snd ra @ map snd tail) ti1"
      using Cons.prems(1,4) a e by auto
    have c1: "tier_core (mset (map snd tail)) {#} {#} ti1" using ok(1) None by simp
    have "tier_inv ti'" unfolding r(2)
      by (rule rollback_reads[OF c1 ra1 hand_distinct(1)[OF c1 refl] keep(4)[OF Cons.prems(5)]])
        (use reads_apart[OF c1 ra1] in simp)
    moreover have "traj_of owner ti' = undone owner ra ti"
    proof -
      have "s \<notin> set (map snd tail)" if s: "s \<in> set (traj_host_slots (traj_of owner ti1))" for s
      proof -
        have "s \<in># host_held ti1" using s slot_traj_mem(1) by (force simp: set_holdings)
        then show ?thesis using host_places(2)[OF tier_coreD(2)[OF c1]] by auto
      qed
      then show ?thesis unfolding r(2) traj_of_rollback undone_def keep(1)[symmetric]
        by (intro drop_slots_cong) (auto simp: image_iff)
    qed
    ultimately show ?thesis using r keep by simp
  next
    case (Some s)
    have run: "promote_tail disk owner (tail @ [(g, s)]) (ra @ (rt @ [(d, s)])) ti1 = Inr (ots, ti')"
      using Cons.prems(1) a e Some by simp
    have c1: "tier_core (mset (map snd (tail @ [(g, s)]))) {#} {#} ti1" using ok(1) Some by simp
    have "unlinked (map snd (tail @ [(g, s)])) ti1"
      using keep(4)[OF Cons.prems(5)] ok(5)[OF Some] by (simp add: unlinked_def)
    moreover have "set (map snd (tail @ [(g, s)])) \<subseteq> ti_pending ti1" using Cons.prems(6) ok(4) Some by auto
    ultimately have "due ti' = due ti1 \<and> ti_promotions ti' = ti_promotions ti1 \<and>
      (ots = None \<longrightarrow> tier_inv ti' \<and> traj_of owner ti' = undone owner ra ti1) \<and>
      (\<forall>tail' reads'. ots = Some (tail', reads') \<longrightarrow> tier_core (mset (map snd tail')) {#} {#} ti' \<and>
        reads_ok owner ra ti' \<and> traj_of owner ti' = traj_of owner ti1 \<and> unlinked (map snd tail') ti' \<and>
        set (map snd tail') \<subseteq> ti_pending ti' \<and> map fst tail' = map fst (tail @ [(g, s)]) @ map fst disk \<and>
        (\<exists>rt'. reads' = ra @ rt' \<and> map snd rt' = map snd tail' \<and> map fst rt' = map fst (rt @ [(d, s)]) @ map snd disk))"
      using Cons.IH[OF run c1 ra1] Cons.prems(4) by simp
    then show ?thesis using keep by (simp add: e undone_def)
  qed
qed

lemma put_promoted_tail_core:
  assumes core: "tier_core (mset (map snd tail)) {#} {#} ti" and none: "tj_tail (traj_of owner ti) = []"
    and pend: "\<not> q \<Longrightarrow> tail = []"
  shows "tier_inv (put_traj owner ((traj_of owner ti)\<lparr>tj_tail := tail, tj_tail_pending := q\<rparr>) ti)"
proof (rule put_traj_core[OF core])
  show "home_ok {#} {#} (put_traj owner ((traj_of owner ti)\<lparr>tj_tail := tail, tj_tail_pending := q\<rparr>) ti) p"
    if m: "p \<in> set (links ti)" for p
  proof -
    obtain s d where p: "p = (s, d)" by (cases p)
    show ?thesis unfolding p
      by (rule home_put[OF core]) (use m p none in \<open>auto simp: link_in_def attn_hosts_def attn_disks_def\<close>)
  qed
qed (use traj_of_ok[OF tier_coreD(1)[OF core], of owner] none pend in
      \<open>auto simp: tier_traj_ok_def traj_host_slots_def traj_disk_slots_def main_slot_list_def\<close>)

lemma note_promotion_core: "tier_core L D M ti \<Longrightarrow> tier_core L D M (note_promotion owner ss ti)"
  unfolding note_promotion_def by (auto intro: main_marks_inv(6))

text \<open>
  The call as a whole.  The tail is promoted when there is none on the host; a host tail that is still being
  written would be overwritten, so the callers only promote a trajectory whose lookup succeeded.
\<close>

lemma promote_inv:
  assumes run: "tier_promote owner n ti = Inr (r, ti')" and core: "tier_inv ti"
    and tail: "tj_tail (traj_of owner ti) = [] \<or> \<not> tj_tail_pending (traj_of owner ti)"
  shows "tier_inv ti'"
proof (cases "map_of (ti_trajs ti) owner")
  case None
  then show ?thesis using run core by (simp add: tier_promote_def)
next
  case (Some tr0)
  then have here: "map_of (ti_trajs ti) owner \<noteq> None" by simp
  obtain ors ti1 where a: "promote_attn [0..<n] owner [] ti = Inr (ors, ti1)"
    using run here by (auto simp: tier_promote_def)
  have p: "promotes owner [] ti ors ti1"
    using promote_attn_ok[OF a core _ here] by (simp add: reads_ok_def unlinked_def)
  show ?thesis
  proof (cases ors)
    case None
    then show ?thesis using run here a p by (auto simp: tier_promote_def promotes_def)
  next
    case (Some reads)
    define tr where "tr = traj_of owner ti1"
    have core1: "tier_core (mset (map snd ([] :: (nat \<times> nat) list))) {#} {#} ti1" and ra: "reads_ok owner reads ti1"
      and g: "host_grows (traj_of owner ti) tr"
      using p Some by (auto simp: promotes_def tr_def)
    show ?thesis
    proof (cases "tj_tail tr = [] \<or> tj_tail_pending tr")
      case False
      then have "ti' = note_promotion owner (map snd reads) ti1"
        using run here a Some by (auto simp: tier_promote_def tr_def Let_def)
      then show ?thesis using core1 by (simp add: note_promotion_core)
    next
      case True
      have none: "tj_tail tr = []" using True tail host_growsD(3,4)[OF g] by auto
      obtain ots ti2 where t: "promote_tail (tj_disk_tail tr) owner [] (reads @ []) ti1 = Inr (ots, ti2)"
        using run here a Some True by (auto simp: tier_promote_def tr_def Let_def)
      note tl = promote_tail_ok[OF t core1 ra refl]
      show ?thesis
      proof (cases ots)
        case None
        then have "ti' = ti2" using run here a Some True t by (auto simp: tier_promote_def tr_def Let_def)
        then show ?thesis using tl None by (simp add: unlinked_def)
      next
        case (Some tr2)
        obtain tail2 reads2 where tr2: "tr2 = (tail2, reads2)" by (cases tr2)
        have t2: "tier_core (mset (map snd tail2)) {#} {#} ti2" "traj_of owner ti2 = tr"
            "\<exists>rt. reads2 = reads @ rt \<and> map snd rt = map snd tail2"
          using tl Some tr2 by (auto simp: unlinked_def tr_def)
        then have "reads2 = [] \<Longrightarrow> tail2 = []" by auto
        then have "tier_inv (put_traj owner (tr\<lparr>tj_tail := tail2, tj_tail_pending := (reads2 \<noteq> [])\<rparr>) ti2)"
          using put_promoted_tail_core[OF t2(1), of owner "reads2 \<noteq> []"] none by (simp add: t2(2))
        moreover have "ti' = note_promotion owner (map snd reads2)
            (put_traj owner (tr\<lparr>tj_tail := tail2, tj_tail_pending := (reads2 \<noteq> [])\<rparr>) ti2)"
          using run here a \<open>ors = Some reads\<close> True t Some tr2 by (auto simp: tier_promote_def tr_def Let_def)
        ultimately show ?thesis by (simp add: note_promotion_core)
      qed
    qed
  qed
qed

lemma confirm_promotion_inv: "tier_inv ti \<Longrightarrow> tier_inv (confirm_promotion owner ti)"
  unfolding confirm_promotion_def Let_def
  by (auto split: option.splits intro: main_marks_inv(6) confirm_writes_inv)



subsection \<open>Promotion never raises after a hit\<close>

definition covered :: "nat \<Rightarrow> nat list \<Rightarrow> nat set \<Rightarrow> tier_traj \<Rightarrow> bool" where
  "covered i gs pending tr \<longleftrightarrow> (\<forall>g \<in> set gs. map_of (tj_attn tr ! i) g \<noteq> None \<or> on_disk pending (tj_disk_attn tr ! i) g)"

lemma on_disk_shrink: "on_disk P row g \<Longrightarrow> Q \<subseteq> P \<Longrightarrow> on_disk Q row g"
  by (auto simp: on_disk_def split: option.splits)

lemma covered_grows:
  assumes "covered i gs P tr" "host_grows tr tr'" "Q \<subseteq> P" "i < length (tj_attn tr)"
  shows "covered i gs Q tr'"
  using assms host_growsD(5,8)[OF assms(2)] on_disk_shrink by (fastforce simp: covered_def)

lemma promote_position_total:
  assumes "tier_inv ti" "reads_ok owner reads ti" "i < length (tj_attn (traj_of owner ti))"
    "covered i gs (ti_disk_pending ti) (traj_of owner ti)"
  shows "\<exists>r. promote_position i gs owner reads ti = Inr r"
  using assms
proof (induction gs arbitrary: reads ti)
  case (Cons g gs)
  let ?tr = "traj_of owner ti"
  show ?case
  proof (cases "map_of (tj_attn ?tr ! i) g")
    case (Some s)
    then show ?thesis using Cons.IH[OF Cons.prems(1-3)] Cons.prems(4) by (auto simp: covered_def)
  next
    case None
    then obtain d where d: "map_of (tj_disk_attn ?tr ! i) g = Some d" "d \<notin> ti_disk_pending ti"
      using Cons.prems(4) by (auto simp: covered_def on_disk_def split: option.splits)
    obtain os ti1 where a: "alloc_host owner ti = Inr (os, ti1)" using alloc_host_total[OF Cons.prems(1)] by blast
    show ?thesis
    proof (cases os)
      case (Some s)
      note st = promote_step[OF Cons.prems(1-3) None d(1) a[unfolded Some]]
      let ?ti2 = "put_traj owner (put_attn i g s ?tr) ti1"
      have "covered i gs (ti_disk_pending ti) ?tr" using Cons.prems(4) by (simp add: covered_def)
      from covered_grows[OF this host_grows_put[OF None] alloc_host_keeps(7)[OF a Cons.prems(1)] Cons.prems(3)]
      have "\<exists>r. promote_position i gs owner (reads @ [(d, s)]) ?ti2 = Inr r"
        by (intro Cons.IH) (use st Cons.prems(3) in simp_all)
      then show ?thesis using None d a Some by (simp add: Let_def)
    qed (use None d a in \<open>simp add: Let_def\<close>)
  qed
qed simp

lemma promote_attn_total:
  assumes "tier_inv ti" "reads_ok owner reads ti" "map_of (ti_trajs ti) owner \<noteq> None"
    "\<And>i. i \<in> set is \<Longrightarrow> i < length (tj_attn (traj_of owner ti)) \<and> covered i (due ti i) (ti_disk_pending ti) (traj_of owner ti)"
  shows "\<exists>r. promote_attn is owner reads ti = Inr r"
  using assms
proof (induction "is" arbitrary: reads ti)
  case (Cons i "is")
  have i: "i < length (tj_attn (traj_of owner ti))" "covered i (due ti i) (ti_disk_pending ti) (traj_of owner ti)"
    using Cons.prems(4) by simp_all
  obtain ors ti1 where r: "promote_position i (due ti i) owner reads ti = Inr (ors, ti1)"
    using promote_position_total[OF Cons.prems(1,2) i] by auto
  note ok = promote_position_ok[OF r Cons.prems(1,2) i(1) Cons.prems(3)]
  show ?case
  proof (cases ors)
    case (Some reads1)
    have p: "tier_inv ti1" "reads_ok owner reads1 ti1" "map_of (ti_trajs ti1) owner \<noteq> None" "due ti1 = due ti"
        "host_grows (traj_of owner ti) (traj_of owner ti1)" "ti_disk_pending ti1 \<subseteq> ti_disk_pending ti"
      using ok Some Cons.prems(3) by (auto simp: promotes_def)
    have "\<exists>r. promote_attn is owner reads1 ti1 = Inr r"
    proof (rule Cons.IH[OF p(1-3)])
      fix j
      assume "j \<in> set is"
      then have "j < length (tj_attn (traj_of owner ti))" "covered j (due ti j) (ti_disk_pending ti) (traj_of owner ti)"
        using Cons.prems(4) by simp_all
      then show "j < length (tj_attn (traj_of owner ti1)) \<and> covered j (due ti1 j) (ti_disk_pending ti1) (traj_of owner ti1)"
        using host_growsD(7)[OF p(5)] covered_grows[OF _ p(5,6)] p(4) by simp
    qed
    then show ?thesis using i r Some by simp
  qed (use i r in simp)
qed simp

lemma promote_tail_total:
  assumes "tier_core L {#} {#} ti"
  shows "\<exists>r. promote_tail disk owner tail reads ti = Inr r"
  using assms
proof (induction disk arbitrary: tail reads ti L)
  case (Cons e disk)
  obtain g d where e: "e = (g, d)" by (cases e)
  obtain os ti1 where a: "alloc_host owner ti = Inr (os, ti1)" using alloc_host_total[OF Cons.prems] by blast
  show ?case
  proof (cases os)
    case (Some s)
    then show ?thesis using Cons.IH[OF alloc_host_ok(1)[OF a Cons.prems]] a e by simp
  qed (use a e in simp)
qed simp

text \<open>
  The outcome of \<open>promote\<close> for a trajectory whose first \<open>n\<close> positions are on the host or on disk: every group
  due there has a host slot, each read fills the slot of its own block, or nothing has changed.
\<close>

definition tail_read :: "tier_traj \<Rightarrow> (nat \<times> nat) list \<Rightarrow> nat \<times> nat \<Rightarrow> bool" where
  "tail_read tr tail = (\<lambda>(d, s). \<exists>k < length tail. k < length (tj_disk_tail tr) \<and> snd (tj_disk_tail tr ! k) = d \<and>
     snd (tail ! k) = s \<and> fst (tail ! k) = fst (tj_disk_tail tr ! k))"

definition promotion_ok :: "string \<Rightarrow> nat \<Rightarrow> tier_index \<Rightarrow> promotion \<Rightarrow> tier_index \<Rightarrow> bool" where
  "promotion_ok owner n ti = (\<lambda>(attn, tail, reads) ti'.
     attn = take n (tj_attn (traj_of owner ti')) \<and> tail = tj_tail (traj_of owner ti') \<and>
     (\<forall>i < n. \<forall>g \<in> set (due ti i). map_of (attn ! i) g \<noteq> None) \<and>
     (\<forall>i < n. map_of (tj_attn (traj_of owner ti) ! i) \<subseteq>\<^sub>m map_of (attn ! i)) \<and>
     distinct (map snd reads) \<and> set (map snd reads) \<subseteq> ti_pending ti' \<and>
     (\<forall>p \<in> set reads. read_ok (traj_of owner ti') p \<or> tail_read (traj_of owner ti) tail p) \<and>
     map fst tail = map fst (if tj_tail (traj_of owner ti) = [] \<or> tj_tail_pending (traj_of owner ti)
                             then tj_disk_tail (traj_of owner ti) else tj_tail (traj_of owner ti)))"

lemma note_promotion_traj [simp]:
  "traj_of u (note_promotion owner ss ti) = traj_of u ti" "ti_pending (note_promotion owner ss ti) = ti_pending ti"
  by (simp_all add: note_promotion_def traj_of_def)

lemma promoted_rows:
  assumes g: "host_grows tr tr'" and n: "n \<le> length (tj_attn tr)"
    and st: "\<And>i. i < n \<Longrightarrow> staged i (gs i) tr'"
  shows "\<forall>i < n. \<forall>g \<in> set (gs i). map_of (take n (tj_attn tr') ! i) g \<noteq> None"
    "\<forall>i < n. map_of (tj_attn tr ! i) \<subseteq>\<^sub>m map_of (take n (tj_attn tr') ! i)"
proof -
  show "\<forall>i < n. \<forall>g \<in> set (gs i). map_of (take n (tj_attn tr') ! i) g \<noteq> None" using st by (simp add: staged_def)
  have "map_of (tj_attn tr ! i) \<subseteq>\<^sub>m map_of (tj_attn tr' ! i)" if "i < n" for i
    using host_growsD(8)[OF g, of i] that n by (auto simp: map_le_def)
  then show "\<forall>i < n. map_of (tj_attn tr ! i) \<subseteq>\<^sub>m map_of (take n (tj_attn tr') ! i)" by simp
qed

lemma promote_spec:
  assumes core: "tier_inv ti" and here: "map_of (ti_trajs ti) owner \<noteq> None"
    and pos: "\<And>i. i < n \<Longrightarrow> i < length (tj_attn (traj_of owner ti)) \<and>
      covered i (due ti i) (ti_disk_pending ti) (traj_of owner ti)"
  shows "\<exists>r ti'. tier_promote owner n ti = Inr (r, ti') \<and>
    (case r of None \<Rightarrow> tier_inv ti' \<and> traj_of owner ti' = traj_of owner ti | Some pr \<Rightarrow> promotion_ok owner n ti pr ti')"
proof -
  have r0: "reads_ok owner [] ti" by (simp add: reads_ok_def unlinked_def)
  obtain ors ti1 where a: "promote_attn [0..<n] owner [] ti = Inr (ors, ti1)"
    using promote_attn_total[OF core r0 here] pos by fastforce
  have p: "promotes owner [] ti ors ti1" and st: "ors \<noteq> None \<Longrightarrow> i < n \<Longrightarrow> staged i (due ti i) (traj_of owner ti1)" for i
    using promote_attn_ok[OF a core r0 here] by auto
  show ?thesis
  proof (cases ors)
    case None
    then have "tier_promote owner n ti = Inr (None, ti1)" using a here by (auto simp: tier_promote_def)
    then show ?thesis using None p by (simp add: promotes_def undone_def)
  next
    case (Some reads)
    define tr where "tr = traj_of owner ti1"
    have core1: "tier_core (mset (map snd ([] :: (nat \<times> nat) list))) {#} {#} ti1" and ra: "reads_ok owner reads ti1"
      and g: "host_grows (traj_of owner ti) tr" and un: "undone owner reads ti1 = traj_of owner ti"
      using p Some by (auto simp: promotes_def tr_def undone_def)
    have len: "n \<le> length (tj_attn (traj_of owner ti))"
    proof (rule ccontr)
      assume "\<not> n \<le> length (tj_attn (traj_of owner ti))"
      then show False using pos[of "length (tj_attn (traj_of owner ti))"] by simp
    qed
    note rows = promoted_rows[OF g len, of "due ti", OF st[unfolded Some, folded tr_def]]
    note gD = host_growsD[OF g]
    show ?thesis
    proof (cases "tj_tail tr = [] \<or> tj_tail_pending tr")
      case False
      then have "tier_promote owner n ti = Inr (Some (take n (tj_attn tr), tj_tail tr, reads),
          note_promotion owner (map snd reads) ti1)"
        using a here Some by (auto simp: tier_promote_def tr_def Let_def)
      then show ?thesis
        using rows ra False gD by (simp add: promotion_ok_def tr_def[symmetric] reads_ok_def)
    next
      case True
      obtain ots ti2 where t: "promote_tail (tj_disk_tail tr) owner [] (reads @ []) ti1 = Inr (ots, ti2)"
        using promote_tail_total[OF core1, of "tj_disk_tail tr" owner "[]" "reads @ []"] by auto
      note tl = promote_tail_ok[OF t core1 ra refl]
      show ?thesis
      proof (cases ots)
        case None
        then have "tier_promote owner n ti = Inr (None, ti2)"
          using a here Some True t by (auto simp: tier_promote_def tr_def Let_def)
        then show ?thesis using tl None un by (simp add: unlinked_def)
      next
        case (Some tr2)
        obtain tail2 reads2 where tr2: "tr2 = (tail2, reads2)" by (cases tr2)
        obtain rt where t2: "reads_ok owner reads ti2" "traj_of owner ti2 = tr" "set (map snd tail2) \<subseteq> ti_pending ti2"
            "map fst tail2 = map fst (tj_disk_tail tr)" "reads2 = reads @ rt" "map snd rt = map snd tail2"
            "map fst rt = map snd (tj_disk_tail tr)" "tier_core (mset (map snd tail2)) {#} {#} ti2"
          using tl Some tr2 by (auto simp: unlinked_def tr_def)
        let ?ti3 = "put_traj owner (tr\<lparr>tj_tail := tail2, tj_tail_pending := (reads2 \<noteq> [])\<rparr>) ti2"
        have run: "tier_promote owner n ti = Inr (Some (take n (tj_attn tr), tail2, reads2),
            note_promotion owner (map snd reads2) ?ti3)"
          using a here \<open>ors = Some reads\<close> True t Some tr2 by (auto simp: tier_promote_def tr_def Let_def)
        have "distinct (map snd reads2)"
          using t2(1,5,6) hand_distinct(1)[OF t2(8) refl] reads_apart[OF t2(8,1)] by (auto simp: reads_ok_def)
        moreover have "set (map snd reads2) \<subseteq> ti_pending ti2"
          using t2(1,3,5,6) by (auto simp: reads_ok_def simp del: set_map)
        moreover have "tail_read tr tail2 p" if m: "p \<in> set rt" for p
        proof -
          obtain k where k: "k < length rt" "p = rt ! k" using m by (metis in_set_conv_nth)
          have l: "length rt = length tail2" "length rt = length (tj_disk_tail tr)"
            using t2(6,7) by (metis length_map)+
          have "snd (rt ! k) = snd (tail2 ! k)" "fst (rt ! k) = snd (tj_disk_tail tr ! k)"
              "fst (tail2 ! k) = fst (tj_disk_tail tr ! k)"
            using t2(4,6,7) k(1) l by (metis nth_map)+
          then show ?thesis using k l by (auto simp: tail_read_def case_prod_beta)
        qed
        then have "tail_read (traj_of owner ti) tail2 p" if m: "p \<in> set rt" for p
          using m gD(6) by (simp add: tail_read_def case_prod_beta)
        moreover have "read_ok (tr\<lparr>tj_tail := tail2, tj_tail_pending := (reads2 \<noteq> [])\<rparr>) p" if "p \<in> set reads" for p
          using that t2(1,2) by (auto simp: reads_ok_def read_ok_def)
        ultimately have "promotion_ok owner n ti (take n (tj_attn tr), tail2, reads2) (note_promotion owner (map snd reads2) ?ti3)"
          using rows True t2(4,5) gD(3,4,6) by (auto simp: promotion_ok_def simp del: set_map)
        then show ?thesis using run by simp
      qed
    qed
  qed
qed

end
