(* ===== verification/Tier_System.thy ===== *)
theory Tier_System
  imports Tier_Promote
begin

text \<open>
  The tier index under its callers: every public operation that changes it is a \<open>tier_call\<close>, with what the
  connector guarantees about the call, and \<open>tier_reach\<close> are the states calls can produce from an empty index.
  The connector never calls \<open>abort_promotion\<close>.  Lookup is here with its meaning.
\<close>

datatype tier_call =
    TStageAttention string nat bytes nat bool
  | TNoteHash string nat bytes bool
  | TStageTail string int nat bytes
  | TConfirmWrites "nat list"
  | TReserveMain string nat
  | TConfirmMain "nat list"
  | TReleaseMain string nat
  | TPinMain string nat string
  | TUnpinMain string
  | THoldMain nat nat
  | TUnholdMain nat "nat option"
  | TTakeDiskWrites "nat list"
  | TConfirmDiskWrites "(nat \<times> nat) list"
  | TPromote string nat
  | TConfirmPromotion string
  | TLookup "bytes list" bool
  | TTouch string
  | TDropOwner string

fun run_tier :: "tier_call \<Rightarrow> tier_index \<Rightarrow> tier_index res" where
  "run_tier (TStageAttention owner i h g supersede) ti = drop_value (tier_stage_attention owner i h g supersede ti)"
| "run_tier (TNoteHash owner i h supersede) ti = Inr (snd (note_hash owner i h supersede ti))"
| "run_tier (TStageTail owner b k h) ti = drop_value (tier_stage_tail owner b k h ti)"
| "run_tier (TConfirmWrites ss) ti = Inr (tier_confirm_writes ss ti)"
| "run_tier (TReserveMain owner i) ti = Inr (snd (reserve_main_slot owner i ti))"
| "run_tier (TConfirmMain ss) ti = Inr (confirm_main ss ti)"
| "run_tier (TReleaseMain owner k) ti = Inr (snd (release_main_reservations owner k ti))"
| "run_tier (TPinMain owner n req) ti = pin_main owner n req ti"
| "run_tier (TUnpinMain req) ti = Inr (unpin_main req ti)"
| "run_tier (THoldMain block m) ti = Inr (hold_main block m ti)"
| "run_tier (TUnholdMain block keep) ti = Inr (unhold_main block keep ti)"
| "run_tier (TTakeDiskWrites ss) ti = Inr (snd (take_disk_writes ss ti))"
| "run_tier (TConfirmDiskWrites ops) ti = Inr (confirm_disk_writes ops ti)"
| "run_tier (TPromote owner n) ti = drop_value (tier_promote owner n ti)"
| "run_tier (TConfirmPromotion owner) ti = Inr (confirm_promotion owner ti)"
| "run_tier (TLookup hs partial) ti = Inr (snd (tier_lookup hs partial ti))"
| "run_tier (TTouch owner) ti = Inr (touch_owner owner ti)"
| "run_tier (TDropOwner owner) ti = Inr (tier_drop_owner owner ti)"

text \<open>
  What a caller keeps to: it supersedes a diverged chain only without a disk tier, hands out disk writes only
  for slots whose own write was confirmed, reports disk writes that are in flight, each once, and promotes a
  trajectory that has no host tail or a complete one.
\<close>

fun call_ok :: "tier_call \<Rightarrow> tier_index \<Rightarrow> bool" where
  "call_ok (TStageAttention owner i h g supersede) ti \<longleftrightarrow> \<not> supersede \<or> ti_num_disk ti = 0"
| "call_ok (TNoteHash owner i h supersede) ti \<longleftrightarrow> \<not> supersede \<or> ti_num_disk ti = 0"
| "call_ok (TTakeDiskWrites ss) ti \<longleftrightarrow> list_all (\<lambda>s. s \<notin> ti_pending ti) ss"
| "call_ok (TConfirmDiskWrites ops) ti \<longleftrightarrow> distinct ops \<and> list_all (\<lambda>p. p \<in> set (ti_host_busy ti)) ops"
| "call_ok (TPromote owner n) ti \<longleftrightarrow> tj_tail (traj_of owner ti) = [] \<or> \<not> tj_tail_pending (traj_of owner ti)"
| "call_ok _ ti \<longleftrightarrow> True"

inductive tier_reach :: "tier_index \<Rightarrow> bool" where
  init: "tier_init n gids nd ratio nm = Inr ti \<Longrightarrow> tier_reach ti"
| step: "tier_reach ti \<Longrightarrow> call_ok c ti \<Longrightarrow> run_tier c ti = Inr ti' \<Longrightarrow> tier_reach ti'"

fun run_tiers :: "tier_call list \<Rightarrow> tier_index \<Rightarrow> tier_index res" where
  "run_tiers [] ti = Inr ti"
| "run_tiers (c # cs) ti = (if call_ok c ti then rbind (run_tier c ti) (run_tiers cs) else Inl ValueError)"

lemma run_tiers_reach: "tier_reach ti \<Longrightarrow> run_tiers cs ti = Inr ti' \<Longrightarrow> tier_reach ti'"
  by (induction cs arbitrary: ti) (auto intro: tier_reach.step split: if_splits)

lemma confirm_disk_writes_inv:
  "tier_inv ti \<Longrightarrow> distinct ops \<Longrightarrow> set ops \<subseteq> set (ti_host_busy ti) \<Longrightarrow> tier_inv (confirm_disk_writes ops ti)"
  unfolding confirm_disk_writes_def
proof (induction ops arbitrary: ti)
  case (Cons p ops)
  obtain s d where p: "p = (s, d)" by (cases p)
  have "(s, d) \<in> set (ti_host_busy ti)" using Cons.prems(3) by (simp add: p)
  note one = confirm_disk_core[OF Cons.prems(1) this]
  show ?case using Cons.IH[of "confirm_disk_write p ti"] Cons.prems one by (auto simp: p)
qed simp

lemma drop_owner_inv:
  assumes "tier_inv ti"
  shows "tier_inv (tier_drop_owner owner ti)"
proof (cases "map_of (ti_trajs ti) owner")
  case (Some tr)
  have "tier_inv (delete_owner owner tr ti)" if "idle_hosts tr ti"
    by (rule delete_owner_core[OF assms Some]) (use that in \<open>simp add: idle_hosts_def\<close>)
  then show ?thesis using assms Some by (simp add: tier_drop_owner_def busy_traj_iff)
qed (simp add: tier_drop_owner_def assms)

lemma lookup_inv: "tier_inv ti \<Longrightarrow> tier_inv (snd (tier_lookup hs partial ti))"
  by (auto simp: tier_lookup_def Let_def touch_owner_core split: option.splits)

lemma run_tier_inv:
  assumes "run_tier c ti = Inr ti'" "tier_inv ti" "call_ok c ti"
  shows "tier_inv ti'"
proof (cases c)
  case (TTakeDiskWrites ss)
  have "set ss \<inter> ti_pending ti = {}" using assms(3) TTakeDiskWrites by (auto simp: list_all_iff)
  then show ?thesis
    using take_disk_writes_inv[OF prod.collapse[symmetric] assms(2)] assms(1) TTakeDiskWrites by auto
next
  case (TConfirmDiskWrites ops)
  then show ?thesis using assms by (auto simp: list_all_iff subset_iff intro: confirm_disk_writes_inv)
qed (use assms in \<open>auto simp: drop_value_Inr note_hash_def touch_owner_core
      intro: stage_attention_inv stage_tail_inv confirm_writes_inv main_marks_inv promote_inv confirm_promotion_inv
        drop_owner_inv lookup_inv ensure_position_ok(1)[OF prod.collapse[symmetric]]
        reserve_main_inv[OF prod.collapse[symmetric]] release_main_inv[OF prod.collapse[symmetric]]\<close>)

lemma tier_reach_inv: "tier_reach ti \<Longrightarrow> tier_inv ti"
  by (induction rule: tier_reach.induct) (auto intro: tier_init_inv run_tier_inv)

end
