(* ===== verification/Tier_Lookup.thy ===== *)
theory Tier_Lookup
  imports Tier_System
begin

text \<open>
  What a hit of the tier index means.  \<open>whole_match\<close> is the reference for the hybrid lookup: a trajectory
  matches to its tail boundary or not at all; the quick rejections of the source change nothing.
\<close>

definition whole_match :: "bytes list \<Rightarrow> tier_index \<Rightarrow> tier_traj \<Rightarrow> nat" where
  "whole_match hs ti tr =
     (let n = resumable_len (due ti) (ti_disk_pending ti) (main_pending_for ti) tr in
      if n \<le> length hs \<and> take n (tj_hashes tr) = take n hs \<and> \<not> list_ex (row_pending ti) (take n (tj_attn tr))
      then n else 0)"

definition tier_match :: "bool \<Rightarrow> bytes list \<Rightarrow> tier_index \<Rightarrow> string \<Rightarrow> tier_traj \<Rightarrow> nat" where
  "tier_match allow_partial hs ti owner tr = (if promoting ti owner then 0
     else if allow_partial then partial_match hs ti tr else whole_match hs ti tr)"

definition hit_tail :: "bool \<Rightarrow> tier_traj \<Rightarrow> (nat \<times> nat) list" where
  "hit_tail allow_partial tr = (if allow_partial \<or> tj_tail_pending tr then [] else tj_tail tr)"

lemma takeWhile_upt_nth:
  assumes "i < length (takeWhile Q [0..<k])"
  shows "Q i" "i < k"
proof -
  have "takeWhile Q [0..<k] ! i = i" using assms takeWhile_nth[OF assms] length_takeWhile_le[of Q "[0..<k]"] by simp
  then show "Q i" using nth_mem[OF assms] set_takeWhileD by metis
  show "i < k" using assms length_takeWhile_le[of Q "[0..<k]"] by simp
qed

lemma resumable_len_pos:
  assumes "resumable_len du P mp tr = n" "0 < n"
  shows "tj_boundary tr = int n" "tail_available P tr" "tj_tail_hash tr \<noteq> []" "n \<le> length (tj_hashes tr)"
    "tj_hashes tr ! (n - 1) = tj_tail_hash tr" "i < n \<Longrightarrow> attn_complete du P tr i"
    "i < n \<Longrightarrow> mp = Some pend \<Longrightarrow> main_ready pend tr i"
proof -
  let ?b = "nat (tj_boundary tr)"
  let ?Q = "\<lambda>i. attn_complete du P tr i \<and> (case mp of None \<Rightarrow> True | Some mp \<Rightarrow> main_ready mp tr i)"
  have f: "0 < tj_boundary tr" "tail_available P tr" "tj_tail_hash tr \<noteq> []" "?b \<le> length (tj_hashes tr)"
      "tj_hashes tr ! (?b - 1) = tj_tail_hash tr" "length (takeWhile ?Q [0..<?b]) = ?b" "n = ?b"
    using assms unfolding resumable_len_def Let_def by (auto split: if_splits)
  then show "tj_boundary tr = int n" "tail_available P tr" "tj_tail_hash tr \<noteq> []" "n \<le> length (tj_hashes tr)"
    "tj_hashes tr ! (n - 1) = tj_tail_hash tr" by simp_all
  have all: "?Q i" if "i < n" for i
    using that f(6,7) takeWhile_upt_nth(1)[of i ?Q ?b] by simp
  show "i < n \<Longrightarrow> attn_complete du P tr i" "i < n \<Longrightarrow> mp = Some pend \<Longrightarrow> main_ready pend tr i"
    using all by auto
qed

lemma whole_match_pos:
  assumes "whole_match hs ti tr = n" "0 < n"
  shows "resumable_len (due ti) (ti_disk_pending ti) (main_pending_for ti) tr = n" "n \<le> length hs"
    "take n (tj_hashes tr) = take n hs" "\<not> list_ex (row_pending ti) (take n (tj_attn tr))"
  using assms by (auto simp: whole_match_def Let_def split: if_splits)

lemma consider_whole_match:
  "consider_whole hs ti (owner, tr) best =
     (let m = tier_match False hs ti owner tr in
      if m = 0 \<or> no_better m best then best else Some (owner, m, take m (tj_attn tr), hit_tail False tr))"
proof (cases "promoting ti owner \<or> whole_match hs ti tr = 0")
  case True
  have "consider_whole hs ti (owner, tr) best = best" if np: "\<not> promoting ti owner"
  proof -
    have "whole_match hs ti tr = 0" using True np by simp
    then have "resumable_len (due ti) (ti_disk_pending ti) (main_pending_for ti) tr = nat (tj_boundary tr) \<Longrightarrow>
        0 < nat (tj_boundary tr) \<Longrightarrow> nat (tj_boundary tr) \<le> length hs \<Longrightarrow>
        take (nat (tj_boundary tr)) (tj_hashes tr) = take (nat (tj_boundary tr)) hs \<Longrightarrow>
        list_ex (row_pending ti) (take (nat (tj_boundary tr)) (tj_attn tr))"
      by (auto simp: whole_match_def Let_def split: if_splits)
    then show ?thesis by (auto simp: consider_whole_def Let_def)
  qed
  then show ?thesis using True by (cases "promoting ti owner") (auto simp: consider_whole_def tier_match_def)
next
  case False
  define n where "n = whole_match hs ti tr"
  have n: "0 < n" using False by (simp add: n_def)
  note w = whole_match_pos[OF n_def[symmetric] n]
  note r = resumable_len_pos[OF w(1) n]
  have b: "nat (tj_boundary tr) = n" "0 < tj_boundary tr" using r(1) n by simp_all
  have "tj_hashes tr \<noteq> [] \<and> tj_hashes tr ! 0 = hs ! 0"
    using r(4) n w(3) by (metis length_greater_0_conv nth_take order_less_le_trans)
  then have "consider_whole hs ti (owner, tr) best =
      (if no_better n best then best else Some (owner, n, take n (tj_attn tr), hit_tail False tr))"
    using False w r(2) b by (simp add: consider_whole_def hit_tail_def)
  then show ?thesis using False n by (simp add: tier_match_def n_def[symmetric])
qed

lemma consider_partial_match:
  "consider_partial hs ti (owner, tr) best =
     (let m = tier_match True hs ti owner tr in
      if m = 0 \<or> no_better m best then best else Some (owner, m, take m (tj_attn tr), hit_tail True tr))"
  by (simp add: consider_partial_def tier_match_def hit_tail_def Let_def)

definition consider_match :: "bool \<Rightarrow> bytes list \<Rightarrow> tier_index \<Rightarrow> string \<times> tier_traj \<Rightarrow> tier_hit option \<Rightarrow> tier_hit option" where
  "consider_match partial hs ti = (\<lambda>(owner, tr) best.
     let m = tier_match partial hs ti owner tr in
      if m = 0 \<or> no_better m best then best else Some (owner, m, take m (tj_attn tr), hit_tail partial tr))"

lemma tier_lookup_match: "fst (tier_lookup hs partial ti) = fold (consider_match partial hs ti) (ti_trajs ti) None"
proof -
  have "(if partial then consider_partial hs ti else consider_whole hs ti) = consider_match partial hs ti"
    by (cases partial) (auto simp: fun_eq_iff consider_match_def consider_partial_match consider_whole_match)
  then show ?thesis by (simp add: tier_lookup_def Let_def)
qed

definition tier_hit_ok :: "bool \<Rightarrow> bytes list \<Rightarrow> tier_index \<Rightarrow> tier_hit \<Rightarrow> bool" where
  "tier_hit_ok partial hs ti = (\<lambda>(owner, n, attn, tail). \<exists>tr. (owner, tr) \<in> set (ti_trajs ti) \<and>
     tier_match partial hs ti owner tr = n \<and> 0 < n \<and> attn = take n (tj_attn tr) \<and> tail = hit_tail partial tr)"

lemma consider_match_fold:
  assumes "set es \<subseteq> set (ti_trajs ti)"
  shows "case fold (consider_match partial hs ti) es None of
      None \<Rightarrow> \<forall>(u, tr) \<in> set es. tier_match partial hs ti u tr = 0
    | Some (owner, n, attn, tail) \<Rightarrow> tier_hit_ok partial hs ti (owner, n, attn, tail) \<and>
        (\<forall>(u, tr) \<in> set es. tier_match partial hs ti u tr \<le> n)"
  using assms
proof (induction es rule: rev_induct)
  case (snoc e es)
  obtain u tr where e: "e = (u, tr)" by (cases e)
  let ?best = "fold (consider_match partial hs ti) es None" and ?m = "tier_match partial hs ti u tr"
  have step: "fold (consider_match partial hs ti) (es @ [e]) None =
      (if ?m = 0 \<or> no_better ?m ?best then ?best else Some (u, ?m, take ?m (tj_attn tr), hit_tail partial tr))"
    by (simp add: consider_match_def e Let_def)
  have new: "tier_hit_ok partial hs ti (u, ?m, take ?m (tj_attn tr), hit_tail partial tr)" if "0 < ?m"
    using that snoc.prems by (auto simp: tier_hit_ok_def e)
  have "set es \<subseteq> set (ti_trajs ti)" using snoc.prems by simp
  note IH = snoc.IH[OF this]
  show ?case
  proof (cases ?best)
    case None
    then show ?thesis unfolding step using IH new by (auto simp: e no_better_def)
  next
    case (Some h)
    then obtain o1 m a t where h: "?best = Some (o1, m, a, t)" by (cases h) auto
    then show ?thesis unfolding step using IH new by (fastforce simp: e no_better_def)
  qed
qed simp

lemma tier_lookup_hit:
  assumes "tier_lookup hs partial ti = (Some (owner, n, attn, tail), ti')"
  shows "tier_hit_ok partial hs ti (owner, n, attn, tail)" "(u, tr) \<in> set (ti_trajs ti) \<Longrightarrow> tier_match partial hs ti u tr \<le> n"
    "ti' = touch_owner owner ti"
proof -
  have f: "fold (consider_match partial hs ti) (ti_trajs ti) None = Some (owner, n, attn, tail)"
    using assms tier_lookup_match[of hs partial ti] by simp
  show "tier_hit_ok partial hs ti (owner, n, attn, tail)" "(u, tr) \<in> set (ti_trajs ti) \<Longrightarrow> tier_match partial hs ti u tr \<le> n"
    using consider_match_fold[of "ti_trajs ti" ti partial hs] by (auto simp: f)
  show "ti' = touch_owner owner ti" using assms by (auto simp: tier_lookup_def Let_def split: if_splits)
qed

lemma tier_lookup_miss:
  assumes "fst (tier_lookup hs partial ti) = None" "(u, tr) \<in> set (ti_trajs ti)"
  shows "tier_match partial hs ti u tr = 0"
proof -
  have f: "fold (consider_match partial hs ti) (ti_trajs ti) None = None"
    using assms(1) tier_lookup_match[of hs partial ti] by simp
  show ?thesis using consider_match_fold[of "ti_trajs ti" ti partial hs] assms(2) by (auto simp: f)
qed

lemma attn_prefix_nth:
  assumes "i < attn_prefix_len du tr"
  shows "i < length (tj_attn tr)" "g \<in> set (du i) \<Longrightarrow> map_of (tj_attn tr ! i) g \<noteq> None"
proof -
  let ?Q = "\<lambda>(i, slots). list_all (\<lambda>g. map_of slots g \<noteq> None) (du i)"
  let ?es = "enumerate 0 (tj_attn tr)"
  have i: "i < length (takeWhile ?Q ?es)" using assms by (simp add: attn_prefix_len_def)
  then show l: "i < length (tj_attn tr)" using length_takeWhile_le[of ?Q ?es] by simp
  have "?es ! i = (i, tj_attn tr ! i)" using l by (simp add: nth_enumerate_eq)
  then have "?Q (i, tj_attn tr ! i)" using nth_mem[OF i] set_takeWhileD takeWhile_nth[OF i] by metis
  then show "g \<in> set (du i) \<Longrightarrow> map_of (tj_attn tr ! i) g \<noteq> None" by (simp add: list_all_iff)
qed

lemma partial_match_pos:
  assumes "partial_match hs ti tr = n"
  shows "n \<le> length hs" "n \<le> attn_prefix_len (due ti) tr" "i < n \<Longrightarrow> tj_hashes tr ! i = hs ! i"
    "i < n \<Longrightarrow> \<not> row_pending ti (tj_attn tr ! i)"
proof -
  let ?Q = "\<lambda>m. tj_hashes tr ! m = hs ! m \<and> \<not> row_pending ti (tj_attn tr ! m)"
  let ?k = "min (attn_prefix_len (due ti) tr) (length hs)"
  have n: "n = length (takeWhile ?Q [0..<?k])" using assms by (simp add: partial_match_def)
  have "n \<le> ?k" using length_takeWhile_le[of ?Q "[0..<?k]"] n by simp
  then show "n \<le> length hs" "n \<le> attn_prefix_len (due ti) tr" by simp_all
  show "i < n \<Longrightarrow> tj_hashes tr ! i = hs ! i" "i < n \<Longrightarrow> \<not> row_pending ti (tj_attn tr ! i)"
    using takeWhile_upt_nth(1)[of i ?Q ?k] n by auto
qed

end
