(* ===== verification/Disk_Tier_Properties.thy ===== *)
theory Disk_Tier_Properties
  imports Tier_Lookup
begin

text \<open>
  The properties of the tier index with a disk tier over every state its callers can reach, and the runs that
  show where superseding a diverged chain breaks it.
\<close>

subsection \<open>Small indexes, run from their start\<close>

definition run_tier_from :: "int \<Rightarrow> int \<Rightarrow> tier_call list \<Rightarrow> tier_index res" where
  "run_tier_from n nd cs = rbind (tier_init n [0] nd (\<lambda>_. 1) 0) (run_tiers cs)"

lemma run_tier_from_reach: "run_tier_from n nd cs = Inr ti \<Longrightarrow> tier_reach ti"
  by (auto simp: run_tier_from_def intro: run_tiers_reach tier_reach.init)

text \<open>Conversation \<open>a\<close> saved two blocks and its tail; the tail was replaced while its disk write ran.\<close>

definition retire_calls :: "tier_call list" where
  "retire_calls = [TStageAttention ''a'' 0 [1] 0 False, TStageAttention ''a'' 1 [2] 0 False, TStageTail ''a'' 2 1 [2],
     TConfirmWrites [0, 1, 2], TTakeDiskWrites [0, 1, 2], TConfirmDiskWrites [(0, 0), (1, 1)], TStageTail ''a'' 2 1 [2]]"

definition retired_tier :: tier_index where
  "retired_tier = (case run_tier_from 4 4 retire_calls of Inr ti \<Rightarrow> ti)"

text \<open>Conversation \<open>a\<close> is wholly on disk; \<open>b\<close> took its host slots.\<close>

definition demote_calls :: "tier_call list" where
  "demote_calls = [TStageAttention ''a'' 0 [1] 0 False, TStageAttention ''a'' 1 [2] 0 False, TStageTail ''a'' 2 1 [2],
     TConfirmWrites [0, 1, 2], TTakeDiskWrites [0, 1, 2], TConfirmDiskWrites [(0, 0), (1, 1), (2, 2)],
     TStageAttention ''b'' 0 [1] 0 False, TStageAttention ''b'' 1 [9] 0 False, TConfirmWrites [2, 3]]"

definition demoted_tier :: tier_index where
  "demoted_tier = (case run_tier_from 4 5 demote_calls of Inr ti \<Rightarrow> ti)"

lemma samples_run:
  "run_tier_from 4 4 retire_calls = Inr retired_tier" "run_tier_from 4 5 demote_calls = Inr demoted_tier"
proof -
  have "isl (run_tier_from 4 4 retire_calls) = False" "isl (run_tier_from 4 5 demote_calls) = False" by code_simp+
  then show "run_tier_from 4 4 retire_calls = Inr retired_tier" "run_tier_from 4 5 demote_calls = Inr demoted_tier"
    by (cases "run_tier_from 4 4 retire_calls"; cases "run_tier_from 4 5 demote_calls";
        simp add: retired_tier_def demoted_tier_def)+
qed

lemma samples_reach: "tier_reach retired_tier" "tier_reach demoted_tier"
  by (rule run_tier_from_reach[OF samples_run(1)] run_tier_from_reach[OF samples_run(2)])+



subsection \<open>Slots\<close>

lemma sum_is_holdings: "(\<Sum>(owner, tr) \<leftarrow> d. mset (f tr)) = holdings f d"
  by (induction d) auto





text \<open>C20: Nothing stays behind on the host: once every write to the host tier is confirmed and every disk write
  is reported, the free list and the trajectories hold all host slots.\<close>

theorem no_host_slot_leaks:
  assumes "tier_reach ti" "ti_pending ti = {}" "ti_host_busy ti = []"
  shows "mset (ti_free ti) + (\<Sum>(owner, tr) \<leftarrow> ti_trajs ti. mset (traj_host_slots tr)) = mset [0..<ti_num_slots ti]"
proof -
  note core = tier_reach_inv[OF assms(1)]
  have "ti_orphaned ti = {}" using tier_coreD(2)[OF core] assms(2) by (simp add: host_ledger_def)
  moreover have "ti_orphaned_busy ti = {}" using tier_coreD(5)[OF core] assms(3) by (simp add: links_ok_def)
  ultimately show ?thesis using tier_coreD(2)[OF core] by (simp add: host_ledger_def sum_is_holdings)
qed

theorem no_host_slot_leaks_witness:
  "mset (ti_free demoted_tier) + (\<Sum>(owner, tr) \<leftarrow> ti_trajs demoted_tier. mset (traj_host_slots tr)) =
     mset [0..<ti_num_slots demoted_tier]"
proof -
  have "ti_pending demoted_tier = {}" "ti_host_busy demoted_tier = []" by code_simp+
  then show ?thesis by (rule no_host_slot_leaks[OF samples_reach(2)])
qed

text \<open>C21: Trajectories are well formed: the three position-indexed lists have one length, so the code's accesses
  by position never raise; a tail that is not marked pending has no slot being written; and every slot number
  a trajectory holds is a slot of its tier.\<close>

theorem trajectories_well_formed:
  assumes "tier_reach ti" and "map_of (ti_trajs ti) owner = Some tr"
  shows "length (tj_hashes tr) = length (tj_attn tr) \<and> length (tj_disk_attn tr) = length (tj_attn tr) \<and>
    (\<not> tj_tail_pending tr \<longrightarrow> set (map snd (tj_tail tr)) \<inter> ti_pending ti = {}) \<and>
    set (traj_host_slots tr) \<subseteq> {0..<ti_num_slots ti} \<and> set (traj_disk_slots tr) \<subseteq> {0..<ti_num_disk ti} \<and>
    set (main_slot_list tr) \<subseteq> {0..<ti_num_main ti}"
proof -
  note core = tier_reach_inv[OF assms(1)]
  have mem: "(owner, tr) \<in> set (ti_trajs ti)" by (rule map_of_SomeD[OF assms(2)])
  have ok: "tier_traj_ok (ti_pending ti) tr"
    using traj_of_ok[OF tier_coreD(1)[OF core], of owner] by (simp add: traj_of_Some[OF assms(2)])
  have host: "set_mset (host_held ti) \<subseteq> {0..<ti_num_slots ti}"
    using arg_cong[OF host_ledger_sum(2)[OF tier_coreD(2)[OF core]], of set_mset] by auto
  have disk: "set_mset (disk_held ti) \<subseteq> {0..<ti_num_disk ti}"
    using arg_cong[OF disk_ledger_sum(2)[OF tier_coreD(3)[OF core]], of set_mset] by auto
  have "mset (ti_main_free ti) + main_slots_held ti = mset [0..<ti_num_main ti]"
    using tier_coreD(4)[OF core] by (simp add: main_ledger_def)
  then have main: "set_mset (main_slots_held ti) \<subseteq> {0..<ti_num_main ti}"
    by (metis atLeastLessThan_upt mset_subset_eq_add_right set_mset_mset set_mset_mono)
  have held: "set (f tr) \<subseteq> set_mset (holdings f (ti_trajs ti))" for f
    using mem by (auto simp: set_holdings)
  show ?thesis
    using ok held[of traj_host_slots] held[of traj_disk_slots] held[of main_slot_list] host disk main
    unfolding tier_traj_ok_def by blast
qed

theorem trajectories_well_formed_witness:
  "\<exists>tr. map_of (ti_trajs retired_tier) ''a'' = Some tr \<and> length (tj_hashes tr) = length (tj_attn tr) \<and>
     set (traj_host_slots tr) \<subseteq> {0..<4}"
proof -
  have "map_of (ti_trajs retired_tier) ''a'' \<noteq> None" "ti_num_slots retired_tier = 4" by code_simp+
  then show ?thesis using trajectories_well_formed[OF samples_reach(1), of "''a''"] by auto
qed


subsection \<open>Allocation\<close>





subsection \<open>Lookup\<close>

text \<open>C12: A hit can be resumed.  The first \<open>n\<close> block hashes of the request are those of the trajectory, whose
  first \<open>n\<close> positions are reported, and no slot handed out is being written or free.  With
  \<open>allow_partial\<close> every group due at these positions has a host slot; otherwise the hit ends at the
  boundary where the tail was saved, with the tail's own hash, every group due has a host slot or a disk
  copy that is completely written, a missing tail is completely on disk, and where main-KV slots are
  required every position has a confirmed one.\<close>

theorem tier_lookup_sound:
  assumes "tier_reach ti" and "tier_lookup hs allow_partial ti = (Some (owner, n, attn, tail), ti')"
  shows "0 < n \<and> n \<le> length hs \<and> (\<exists>tr. map_of (ti_trajs ti) owner = Some tr \<and> \<not> promoting ti owner \<and>
    attn = take n (tj_attn tr) \<and> length attn = n \<and> take n (tj_hashes tr) = take n hs \<and>
    set (concat (map (map snd) attn) @ map snd tail) \<inter> (ti_pending ti \<union> set (ti_free ti)) = {} \<and>
    (if allow_partial then tail = [] \<and> (\<forall>i < n. \<forall>g \<in> set (due ti i). map_of (attn ! i) g \<noteq> None)
     else int n = tj_boundary tr \<and> hs ! (n - 1) = tj_tail_hash tr \<and>
       (\<forall>i < n. attn_complete (due ti) (ti_disk_pending ti) tr i) \<and>
       (tail = [] \<longrightarrow> tj_disk_boundary tr = tj_boundary tr \<and> disk_tail_written (ti_disk_pending ti) tr) \<and>
       (require_main ti \<longrightarrow> (\<forall>i < n. main_ready (ti_main_pending ti) tr i))))"
proof -
  note core = tier_reach_inv[OF assms(1)]
  obtain tr where tr: "(owner, tr) \<in> set (ti_trajs ti)" "tier_match allow_partial hs ti owner tr = n" "0 < n"
      "attn = take n (tj_attn tr)" "tail = hit_tail allow_partial tr"
    using tier_lookup_hit(1)[OF assms(2)] by (auto simp: tier_hit_ok_def)
  have m: "map_of (ti_trajs ti) owner = Some tr" using tr(1) tier_coreD(6)[OF core] by simp
  have ok: "tier_traj_ok (ti_pending ti) tr" using traj_of_ok[OF tier_coreD(1)[OF core], of owner] by (simp add: traj_of_Some[OF m])
  have np: "\<not> promoting ti owner" using tr(2,3) by (auto simp: tier_match_def split: if_splits)
  have tail: "set (map snd tail) \<inter> ti_pending ti = {}" "set (map snd tail) \<subseteq> set (traj_host_slots tr)"
    using ok by (auto simp: tr(5) hit_tail_def tier_traj_ok_def traj_host_slots_def)
  have main: "n \<le> length hs \<and> n \<le> length (tj_attn tr) \<and> take n (tj_hashes tr) = take n hs \<and>
    (\<forall>row \<in> set attn. \<not> row_pending ti row) \<and>
    (if allow_partial then tail = [] \<and> (\<forall>i < n. \<forall>g \<in> set (due ti i). map_of (attn ! i) g \<noteq> None)
     else int n = tj_boundary tr \<and> hs ! (n - 1) = tj_tail_hash tr \<and>
       (\<forall>i < n. attn_complete (due ti) (ti_disk_pending ti) tr i) \<and>
       (tail = [] \<longrightarrow> tj_disk_boundary tr = tj_boundary tr \<and> disk_tail_written (ti_disk_pending ti) tr) \<and>
       (require_main ti \<longrightarrow> (\<forall>i < n. main_ready (ti_main_pending ti) tr i)))"
  proof (cases allow_partial)
    case True
    have "partial_match hs ti tr = n" using tr(2) True np by (simp add: tier_match_def)
    note pm = partial_match_pos[OF this]
    have "n - 1 < attn_prefix_len (due ti) tr" using pm(2) tr(3) by linarith
    then have "n - 1 < length (tj_attn tr)" by (rule attn_prefix_nth(1))
    then have l: "n \<le> length (tj_attn tr)" using tr(3) by linarith
    have h: "take n (tj_hashes tr) = take n hs"
      using pm(1,3) l ok by (intro nth_equalityI) (auto simp: tier_traj_ok_def)
    have "\<forall>row \<in> set attn. \<not> row_pending ti row"
      using pm(4) l by (auto simp: tr(4) in_set_conv_nth)
    moreover have "\<forall>i < n. \<forall>g \<in> set (due ti i). map_of (attn ! i) g \<noteq> None"
      using attn_prefix_nth(2)[of _ "due ti" tr] pm(2) by (simp add: tr(4))
    ultimately show ?thesis using True l h pm(1) by (simp add: tr(5) hit_tail_def)
  next
    case False
    have wm: "whole_match hs ti tr = n" using tr(2) False np by (simp add: tier_match_def)
    note w = whole_match_pos[OF wm tr(3)]
    note r = resumable_len_pos[OF w(1) tr(3)]
    have l: "n \<le> length (tj_attn tr)" using r(4) ok by (simp add: tier_traj_ok_def)
    have "hs ! (n - 1) = take n hs ! (n - 1)" using tr(3) by simp
    also have "\<dots> = tj_tail_hash tr" using w(3) r(5) tr(3) by (metis diff_less nth_take zero_less_one)
    finally have "hs ! (n - 1) = tj_tail_hash tr" .
    moreover have "tail = [] \<Longrightarrow> tj_disk_boundary tr = tj_boundary tr \<and> disk_tail_written (ti_disk_pending ti) tr"
      using r(2) False by (auto simp: tr(5) hit_tail_def tail_available_def split: if_splits)
    moreover have "require_main ti \<Longrightarrow> i < n \<Longrightarrow> main_ready (ti_main_pending ti) tr i" for i
      using r(7)[of i "ti_main_pending ti"] by (simp add: main_pending_for_def)
    moreover have "\<forall>row \<in> set attn. \<not> row_pending ti row" using w(4) by (auto simp: tr(4) list_ex_iff)
    ultimately show ?thesis using False l w r by simp
  qed
  have free: "set (traj_host_slots tr) \<inter> set (ti_free ti) = {}"
    using host_places(2)[OF tier_coreD(2)[OF core]] host_places(1)[OF tier_coreD(2)[OF core]] tr(1)
    by (fastforce simp: set_holdings)
  have "set (concat (map (map snd) attn)) \<subseteq> set (traj_host_slots tr)"
    by (auto simp: tr(4) traj_host_slots_def dest: in_set_takeD)
  moreover have "set (concat (map (map snd) attn)) \<inter> ti_pending ti = {}"
    using main by (auto simp: row_pending_def list_ex_iff)
  ultimately have "set (concat (map (map snd) attn) @ map snd tail) \<inter> (ti_pending ti \<union> set (ti_free ti)) = {}"
    using tail free unfolding set_append by blast
  then show ?thesis using main m np tr(3,4) by (cases allow_partial; simp)
qed

theorem tier_lookup_sound_witness:
  "\<exists>tr. map_of (ti_trajs demoted_tier) ''a'' = Some tr \<and> take 2 (tj_hashes tr) = [[1], [2]] \<and>
     disk_tail_written (ti_disk_pending demoted_tier) tr"
proof -
  have "fst (tier_lookup [[1], [2], [3]] False demoted_tier) = Some (''a'', 2, [[], []], [])" by code_simp
  then obtain ti' where "tier_lookup [[1], [2], [3]] False demoted_tier = (Some (''a'', 2, [[], []], []), ti')"
    by (metis prod.collapse)
  from tier_lookup_sound[OF samples_reach(2) this] show ?thesis by auto
qed

text \<open>C18: Lookup returns the deepest match.  \<open>tier_match\<close> is the reference, without the quick rejections of the
  source: no trajectory matches deeper than the one reported, and on a miss none matches at all.\<close>

theorem tier_lookup_deepest:
  "case fst (tier_lookup hs allow_partial ti) of
     None \<Rightarrow> \<forall>(u, tr) \<in> set (ti_trajs ti). tier_match allow_partial hs ti u tr = 0
   | Some (owner, n, attn, tail) \<Rightarrow>
       (\<exists>tr. (owner, tr) \<in> set (ti_trajs ti) \<and> tier_match allow_partial hs ti owner tr = n \<and> 0 < n) \<and>
       (\<forall>(u, tr) \<in> set (ti_trajs ti). tier_match allow_partial hs ti u tr \<le> n)"
proof (cases "fst (tier_lookup hs allow_partial ti)")
  case None
  then show ?thesis using tier_lookup_miss[OF None] by auto
next
  case (Some h)
  obtain owner n attn tail where h: "h = (owner, n, attn, tail)" by (cases h) auto
  obtain ti' where run: "tier_lookup hs allow_partial ti = (Some (owner, n, attn, tail), ti')"
    using Some h by (metis prod.collapse)
  show ?thesis using tier_lookup_hit(1,2)[OF run] Some h by (auto simp: tier_hit_ok_def)
qed

theorem tier_lookup_deepest_witness:
  "fst (tier_lookup [[1], [9], [5]] True demoted_tier) = Some (''b'', 2, [[(0, 3)], [(0, 2)]], []) \<and>
   list_all (\<lambda>(u, tr). tier_match True [[1], [9], [5]] demoted_tier u tr \<le> 2) (ti_trajs demoted_tier)"
proof -
  have f: "fst (tier_lookup [[1], [9], [5]] True demoted_tier) = Some (''b'', 2, [[(0, 3)], [(0, 2)]], [])" by code_simp
  show ?thesis using tier_lookup_deepest[where hs = "[[1], [9], [5]]" and allow_partial = True and ti = demoted_tier] unfolding f by (simp add: list_all_iff)
qed


subsection \<open>Demotion and promotion\<close>

text \<open>C19: Demoting a trajectory that is wholly on disk frees all its host slots and loses nothing: it matches
  every request exactly as far as before, and no other trajectory changes.\<close>

theorem demotion_keeps_conversation:
  assumes "map_of (ti_trajs ti) owner = Some tr" "\<not> busy_traj ti tr"
    and "fully_on_disk (due ti) (ti_disk_pending ti) tr"
  shows "whole_match hs (demote owner tr ti) (traj_of owner (demote owner tr ti)) = whole_match hs ti tr \<and>
    traj_host_slots (traj_of owner (demote owner tr ti)) = [] \<and>
    ti_free (demote owner tr ti) = ti_free ti @ traj_host_slots tr \<and>
    (\<forall>u. u \<noteq> owner \<longrightarrow> map_of (ti_trajs (demote owner tr ti)) u = map_of (ti_trajs ti) u)"
proof -
  define tr' where "tr' = tr\<lparr>tj_attn := map (\<lambda>_. []) (tj_attn tr), tj_tail := [], tj_tail_pending := False\<rparr>"
  let ?ti = "demote owner tr ti"
  have t: "traj_of owner ?ti = tr'" by (simp add: demote_def tr'_def)
  have f: "due ?ti = due ti" "ti_disk_pending ?ti = ti_disk_pending ti" "main_pending_for ?ti = main_pending_for ti"
      "ti_pending ?ti = ti_pending ti"
    by (simp_all add: demote_def put_traj_def free_host_slots_def due_def main_pending_for_def require_main_def fun_eq_iff)
  have disk: "tj_disk_boundary tr = tj_boundary tr" "disk_tail_written (ti_disk_pending ti) tr"
      "\<And>i. i < nat (tj_boundary tr) \<Longrightarrow> list_all (on_disk (ti_disk_pending ti) (at_position (tj_disk_attn tr) i)) (due ti i)"
    using assms(3) by (auto simp: fully_on_disk_def list_all_iff)
  have complete: "attn_complete (due ti) (ti_disk_pending ti) tr i" "attn_complete (due ti) (ti_disk_pending ti) tr' i"
    if "i < nat (tj_boundary tr)" for i
    using disk(3)[OF that] by (auto simp: attn_complete_def list_all_iff tr'_def)
  have avail: "tail_available (ti_disk_pending ti) tr" "tail_available (ti_disk_pending ti) tr'"
    using disk(1,2) by (auto simp: tail_available_def tr'_def disk_tail_written_def)
  have ready: "main_ready mp tr' i = main_ready mp tr i" for mp i by (simp add: main_ready_def tr'_def)
  have len: "takeWhile (\<lambda>i. attn_complete (due ti) (ti_disk_pending ti) tr' i \<and>
        (case main_pending_for ti of None \<Rightarrow> True | Some mp \<Rightarrow> main_ready mp tr' i)) [0..<nat (tj_boundary tr)] =
      takeWhile (\<lambda>i. attn_complete (due ti) (ti_disk_pending ti) tr i \<and>
        (case main_pending_for ti of None \<Rightarrow> True | Some mp \<Rightarrow> main_ready mp tr i)) [0..<nat (tj_boundary tr)]"
    using complete by (intro takeWhile_cong) (auto simp: ready split: option.splits)
  have same: "resumable_len (due ti) (ti_disk_pending ti) (main_pending_for ti) tr' =
      resumable_len (due ti) (ti_disk_pending ti) (main_pending_for ti) tr"
    using avail len by (simp add: resumable_len_def Let_def) (simp add: tr'_def)
  have idle: "\<not> list_ex (row_pending ti) (take k (tj_attn tr))" for k
    using assms(2) by (auto simp: busy_traj_def host_active_def row_pending_def list_ex_iff dest: in_set_takeD)
  have hashes: "tj_hashes tr' = tj_hashes tr" by (simp add: tr'_def)
  have "\<not> row_pending ?ti row" if "row \<in> set (tj_attn tr')" for row
    using that by (auto simp: tr'_def row_pending_def)
  then have idle': "\<not> list_ex (row_pending ?ti) (take k (tj_attn tr'))" for k
    unfolding list_ex_iff using in_set_takeD by metis
  have "whole_match hs ?ti tr' = whole_match hs ti tr"
    using idle idle' hashes by (simp add: whole_match_def f same Let_def)
  moreover have "traj_host_slots tr' = []" by (simp add: tr'_def traj_host_slots_def comp_def)
  ultimately show ?thesis
    by (simp add: t) (simp add: demote_def put_traj_def free_host_slots_def update_conv')
qed

definition saved_tier :: tier_index where
  "saved_tier = (case run_tier_from 4 5 (take 6 demote_calls) of Inr ti \<Rightarrow> ti)"

theorem demotion_keeps_conversation_witness:
  "whole_match [[1], [2], [3]] saved_tier (traj_of ''a'' saved_tier) = 2 \<and>
   whole_match [[1], [2], [3]] (demote ''a'' (traj_of ''a'' saved_tier) saved_tier)
     (traj_of ''a'' (demote ''a'' (traj_of ''a'' saved_tier) saved_tier)) = 2"
proof -
  have "map_of (ti_trajs saved_tier) ''a'' \<noteq> None" by code_simp
  then have m: "map_of (ti_trajs saved_tier) ''a'' = Some (traj_of ''a'' saved_tier)" by (auto simp: traj_of_def)
  have "\<not> busy_traj saved_tier (traj_of ''a'' saved_tier)"
    "fully_on_disk (due saved_tier) (ti_disk_pending saved_tier) (traj_of ''a'' saved_tier)"
    "whole_match [[1], [2], [3]] saved_tier (traj_of ''a'' saved_tier) = 2" by code_simp+
  then show ?thesis using demotion_keeps_conversation[OF m, of "[[1], [2], [3]]"] by simp
qed

text \<open>C13: Promoting a hit never raises.  Either host slots run out, and the trajectory is exactly as before; or
  every group due at the positions of the hit has a host slot, the host slots it had are unchanged, each disk
  read fills a fresh slot of the block it was written from, and the tail has one host slot per state group.\<close>

theorem promoting_a_hit:
  assumes "tier_reach ti" and "tier_lookup hs False ti = (Some (owner, n, attn, tail), ti1)"
  shows "\<exists>r ti2. tier_promote owner n ti1 = Inr (r, ti2) \<and>
    (case r of None \<Rightarrow> traj_of owner ti2 = traj_of owner ti1 | Some pr \<Rightarrow> promotion_ok owner n ti1 pr ti2)"
proof -
  have core: "tier_inv ti1" using lookup_inv[OF tier_reach_inv[OF assms(1)], of hs False] assms(2) by simp
  have ti1: "ti1 = touch_owner owner ti" by (rule tier_lookup_hit(3)[OF assms(2)])
  obtain tr where tr: "map_of (ti_trajs ti) owner = Some tr" "attn = take n (tj_attn tr)" "length attn = n"
      "\<And>i. i < n \<Longrightarrow> attn_complete (due ti) (ti_disk_pending ti) tr i"
    using tier_lookup_sound[OF assms] by auto
  have here: "map_of (ti_trajs ti1) owner = Some tr" using tr(1) by (simp add: ti1 touch_owner_def)
  then have t: "traj_of owner ti1 = tr" by (rule traj_of_Some)
  have due: "due ti1 = due ti" by (simp add: ti1 due_def fun_eq_iff)
  have n: "n \<le> length (tj_attn tr)" using tr(2,3) by simp
  have len: "length (tj_disk_attn tr) = length (tj_attn tr)"
    using traj_of_ok[OF tier_coreD(1)[OF core], of owner] by (simp add: t tier_traj_ok_def)
  have "i < length (tj_attn tr) \<and> covered i (due ti i) (ti_disk_pending ti1) tr" if "i < n" for i
    using tr(4)[OF that] that n len by (auto simp: attn_complete_def covered_def at_position_def list_all_iff ti1)
  then obtain r ti2 where p: "tier_promote owner n ti1 = Inr (r, ti2)"
      "case r of None \<Rightarrow> tier_inv ti2 \<and> traj_of owner ti2 = traj_of owner ti1 | Some pr \<Rightarrow> promotion_ok owner n ti1 pr ti2"
    using promote_spec[OF core, of owner n] here t due by auto
  then show ?thesis by (cases r) auto
qed

theorem promoting_a_hit_witness:
  "\<exists>ti1 ti2 pr. tier_lookup [[1], [2], [3]] False demoted_tier = (Some (''a'', 2, [[], []], []), ti1) \<and>
     tier_promote ''a'' 2 ti1 = Inr (Some pr, ti2) \<and> promotion_ok ''a'' 2 ti1 pr ti2"
proof -
  have f: "fst (tier_lookup [[1], [2], [3]] False demoted_tier) = Some (''a'', 2, [[], []], [])" by code_simp
  define ti1 where "ti1 = snd (tier_lookup [[1], [2], [3]] False demoted_tier)"
  have run: "tier_lookup [[1], [2], [3]] False demoted_tier = (Some (''a'', 2, [[], []], []), ti1)"
    using f by (metis prod.collapse ti1_def)
  have some: "case tier_promote ''a'' 2 (snd (tier_lookup [[1], [2], [3]] False demoted_tier)) of
      Inl e \<Rightarrow> False | Inr (r, ti2) \<Rightarrow> r \<noteq> None" by code_simp
  obtain r ti2 where p: "tier_promote ''a'' 2 ti1 = Inr (r, ti2)"
      "case r of None \<Rightarrow> traj_of ''a'' ti2 = traj_of ''a'' ti1 | Some pr \<Rightarrow> promotion_ok ''a'' 2 ti1 pr ti2"
    using promoting_a_hit[OF samples_reach(2) run] by blast
  then obtain pr where pr: "r = Some pr" using some by (auto simp: ti1_def)
  show ?thesis
    by (intro exI[of _ ti1] exI[of _ ti2] exI[of _ pr]) (use p run pr in simp)
qed


subsection \<open>Where slots go wrong\<close>

text \<open>
  Superseding with a disk tier.  The write-through of conversation \<open>a\<close>'s block is not handed out yet:
  \<open>_release_host_slot\<close> frees its disk slot and the loop over \<open>disk_attn\<close> frees it again, so two
  conversations are given disk slot 0.
\<close>

lemma superseding_shares_a_disk_slot:
  "(case rbind (tier_init 4 [0] 4 (\<lambda>_. 1) 0) (\<lambda>t0.
      rbind (run_tier (TStageAttention ''a'' 0 [1] 0 False) t0) (\<lambda>t1.
      rbind (run_tier (TStageAttention ''a'' 0 [2] 0 True) t1) (run_tier (TStageAttention ''b'' 0 [5] 0 False)))) of
      Inl e \<Rightarrow> None
    | Inr ti \<Rightarrow> Some (traj_disk_slots (traj_of ''a'' ti), traj_disk_slots (traj_of ''b'' ti))) = Some ([0], [0])"
  by code_simp

text \<open>
  With the write-through in flight, superseding frees the host slot the IO engine reads and the disk slot it
  writes, and both are reused at once: host slot 0 is being refilled while its old write still runs.
\<close>

lemma superseding_reuses_slots_in_flight:
  "(case rbind (tier_init 4 [0] 4 (\<lambda>_. 1) 0) (\<lambda>t0.
      rbind (run_tier (TStageAttention ''a'' 0 [1] 0 False) t0) (\<lambda>t1.
      rbind (run_tier (TConfirmWrites [0]) t1) (\<lambda>t2.
      rbind (run_tier (TTakeDiskWrites [0]) t2) (run_tier (TStageAttention ''a'' 0 [2] 0 True))))) of
      Inl e \<Rightarrow> None
    | Inr ti \<Rightarrow> Some (ti_host_busy ti, ti_disk_of_host ti, ti_pending ti)) = Some ([(0, 0)], [(0, 0)], {0})"
  by code_simp

text \<open>
  A tail that is replaced before its write-through is handed out: its disk slot waits for a write that is never
  issued.  Nothing is in flight in this reachable state, and disk slot 0 is neither free nor held.
\<close>

lemma replaced_tail_leaks_disk_slot:
  "(case run_tier_from 4 4 [TStageTail ''a'' 1 1 [1], TStageTail ''a'' 1 1 [1], TConfirmWrites [0, 1],
        TTakeDiskWrites [0, 1], TConfirmDiskWrites [(1, 1)]] of
      Inl e \<Rightarrow> None
    | Inr ti \<Rightarrow> Some (ti_pending ti, ti_host_busy ti, ti_disk_of_host ti, ti_disk_free ti, ti_orphaned_disk ti)) =
   Some ({}, [], [], [3, 2], {0})"
  by code_simp

end
