(* ===== verification/Hybrid_Lookup.thy ===== *)
theory Hybrid_Lookup
  imports Lookup_Facts KV_Spec KV_Manager
begin

text \<open>
  \<open>HybridKVCacheCoordinator\<close> (\<^verbatim>\<open>core/kv_cache_coordinator.py\<close>): KV cache groups of several kinds, grouped
  by specification, and the search for the longest prefix that all of them have cached; with the lookups
  of the chunked-local, Mamba and circular-buffer managers (\<^verbatim>\<open>core/single_type_kv_cache_manager.py\<close>) beside
  the two of \<^verbatim>\<open>Cache_Lookup\<close>.  Context parallelism is off.  A group's manager class is the one that
  \<open>register_all_kvcache_specs\<close> registers for its specification, so it is a function of it.
\<close>

subsection \<open>The other lookups\<close>

text \<open>Chunked local attention: blocks before the current chunk count as computed, the run starts there.\<close>

fun chunked_scan ::
  "nat list \<Rightarrow> hash_map \<Rightarrow> int list \<Rightarrow> hash_view \<Rightarrow> bref list list \<Rightarrow> bref list list res" where
  "chunked_scan [] m gs view computed = Inr computed"
| "chunked_scan (i # is) m gs view computed =
     rbind (view_at view (int i)) (\<lambda>h. rbind (get_hit m h gs) (\<lambda>r. case r of
       None \<Rightarrow> Inr computed
     | Some cached \<Rightarrow> chunked_scan is m gs view (append_hit computed cached)))"

definition chunked_longest_hit ::
  "hash_view \<Rightarrow> nat \<Rightarrow> int list \<Rightarrow> nat \<Rightarrow> nat \<Rightarrow> bool \<Rightarrow> nat \<Rightarrow> block_pool \<Rightarrow>
   (bref list list \<times> nat \<times> block_pool) res" where
  "chunked_longest_hit hashes max_len gs bs chunk drop_eagle align p =
     rbind (guard AssertionError (\<not> drop_eagle)) (\<lambda>_.
     rbind (guard AssertionError (bs = align)) (\<lambda>_.
     rbind (resolve_block_hashes hashes (int (bp_hash_block_size p)) (int bs) False (Some (int align))) (\<lambda>view.
     rbind (guard ZeroDivisionError (max_len = 0 \<or> chunk \<noteq> 0)) (\<lambda>_.
     let start = max_len div chunk * chunk div bs in
     rbind (chunked_scan [start..<max_len div bs] (cached_block_hash_to_block p) gs view
              (map (\<lambda>_. replicate start (null_block p)) gs)) (\<lambda>computed.
     rbind (first_length computed) (\<lambda>n. Inr (computed, n * bs, p)))))))"

text \<open>Mamba: only the state at the end of the prefix matters.  The first argument is \<open>i + 1\<close>.\<close>

fun mamba_scan ::
  "nat \<Rightarrow> hash_map \<Rightarrow> int list \<Rightarrow> hash_view \<Rightarrow> nat \<Rightarrow> nat \<Rightarrow> bref \<Rightarrow> (bref list list \<times> nat) res" where
  "mamba_scan 0 m gs view bs align null = Inr (map (\<lambda>_. []) gs, 0)"
| "mamba_scan (Suc i) m gs view bs align null =
     rbind (view_at view (int i)) (\<lambda>h. rbind (get_hit m h gs) (\<lambda>r. case r of
       None \<Rightarrow> mamba_scan i m gs view bs align null
     | Some cached \<Rightarrow>
         if bs \<noteq> align \<and> ((i + 1) * bs) mod align \<noteq> 0 then mamba_scan i m gs view bs align null
         else Inr (append_hit (map (\<lambda>_. replicate i null) gs) cached, (i + 1) * bs)))"

definition mamba_longest_hit ::
  "hash_view \<Rightarrow> nat \<Rightarrow> int list \<Rightarrow> nat \<Rightarrow> nat \<Rightarrow> (nat \<Rightarrow> bytes option) option \<Rightarrow> block_pool \<Rightarrow>
   (bref list list \<times> nat \<times> block_pool) res" where
  "mamba_longest_hit hashes max_len gs bs align own_hash p =
     rbind (resolve_block_hashes hashes (int (bp_hash_block_size p)) (int bs) True (Some (int align))) (\<lambda>view.
       if align < bs \<and> bs mod align = 0 then
         rbind (raw_hashes view) (\<lambda>hs.
         rbind (find_partial_block_hit hs 0 (min (max_len div align) (length hs)) align max_len own_hash gs p) (\<lambda>(hit, p1).
           case hit of
             None \<Rightarrow> Inr (map (\<lambda>_. []) gs, 0, p1)
           | Some (cached, hit_length, fine_idx, _) \<Rightarrow>
               Inr (append_hit (map (\<lambda>_. replicate (fine_idx div (bs div align)) (null_block p1)) gs) cached,
                    hit_length, p1)))
       else
         rbind (mamba_scan (max_len div bs) (cached_block_hash_to_block p) gs view bs align (null_block p))
           (\<lambda>(computed, n). Inr (computed, n, p)))"


subsection \<open>The managers of the specifications\<close>

fun is_full_attention :: "layer_spec \<Rightarrow> bool" where
  "is_full_attention (layer_spec.FullAttention _) = True"
| "is_full_attention (TQFullAttention _ _ _) = True"
| "is_full_attention (MLAAttention _ _) = True"
| "is_full_attention (HiddenStateCache _ _) = True"
| "is_full_attention (RSWA _ _) = True"
| "is_full_attention (SinkFullAttention _ _) = True"
| "is_full_attention _ = False"

text \<open>The window of a \<open>SlidingWindowSpec\<close>.\<close>

fun window_of :: "layer_spec \<Rightarrow> int option" where
  "window_of (layer_spec.SlidingWindow s) = Some (sliding_window s)"
| "window_of (TQSlidingWindow s _ _) = Some (sliding_window s)"
| "window_of (SlidingWindowMLA s _) = Some (sliding_window s)"
| "window_of _ = None"

fun is_mamba :: "layer_spec \<Rightarrow> bool" where
  "is_mamba (Mamba _) = True"
| "is_mamba _ = False"

definition supports_fine_grained :: "layer_spec \<Rightarrow> bool" where
  "supports_fine_grained s \<longleftrightarrow> is_full_attention s \<or> window_of s \<noteq> None \<or> is_mamba s"

definition block_size_of :: "layer_spec \<Rightarrow> nat" where
  "block_size_of s = nat (layer_block_size s)"

text \<open>\<open>manager_cls.find_longest_cache_hit\<close>.\<close>

definition spec_longest_hit ::
  "layer_spec \<Rightarrow> hash_view \<Rightarrow> nat \<Rightarrow> int list \<Rightarrow> bool \<Rightarrow> nat \<Rightarrow> (nat \<Rightarrow> bytes option) option \<Rightarrow> block_pool \<Rightarrow>
   (bref list list \<times> nat \<times> block_pool) res" where
  "spec_longest_hit s hashes max_len gs drop_eagle align own_hash p =
     (if is_full_attention s then full_longest_hit hashes max_len gs (block_size_of s) drop_eagle align own_hash p
      else case window_of s of
        Some w \<Rightarrow> sliding_longest_hit hashes max_len gs (block_size_of s) (nat w) drop_eagle align own_hash p
      | None \<Rightarrow> (case s of
          ChunkedLocalAttention _ c \<Rightarrow>
            chunked_longest_hit hashes max_len gs (block_size_of s) (nat c) drop_eagle align p
        | Mamba _ \<Rightarrow> mamba_longest_hit hashes max_len gs (block_size_of s) align own_hash p
        | CircularBuffer _ _ \<Rightarrow> Inr (map (\<lambda>_. []) gs, 0, p)
        | CrossAttention _ \<Rightarrow> Inl NotImplementedError
        | _ \<Rightarrow> Inl AssertionError))"


subsection \<open>Groups of one specification\<close>

record spec_group =
  sg_spec :: layer_spec
  sg_ids :: "nat list"
  sg_eagle :: bool

fun add_to_group :: "layer_spec \<Rightarrow> nat \<Rightarrow> bool \<Rightarrow> spec_group list \<Rightarrow> spec_group list" where
  "add_to_group s i eagle [] = [\<lparr>sg_spec = s, sg_ids = [i], sg_eagle = eagle\<rparr>]"
| "add_to_group s i eagle (g # gs) =
     (if sg_spec g = s then g\<lparr>sg_ids := sg_ids g @ [i], sg_eagle := sg_eagle g \<or> eagle\<rparr> # gs
      else g # add_to_group s i eagle gs)"

text \<open>The stable sort puts full attention first.\<close>

definition split_groups :: "layer_spec list \<Rightarrow> nat list \<Rightarrow> spec_group list" where
  "split_groups specs eagle_ids =
     (let groups = fold (\<lambda>(i, s) gs. if layer_prefix_cacheable s then add_to_group s i (i \<in> set eagle_ids) gs else gs)
            (enumerate 0 specs) [] in
      filter (\<lambda>g. is_full_attention (sg_spec g)) groups @ filter (\<lambda>g. \<not> is_full_attention (sg_spec g)) groups)"

text \<open>The groups that drop the last block for a draft model; all of them when none is flagged.\<close>

definition eagle_group_ids :: "bool \<Rightarrow> bool list \<Rightarrow> nat list" where
  "eagle_group_ids use_eagle flags =
     (if \<not> use_eagle then []
      else let ids = filter (\<lambda>i. flags ! i) [0..<length flags] in
        if ids = [] then [0..<length flags] else ids)"

record hybrid_coordinator =
  hy_specs :: "layer_spec list"
  hy_pools :: "block_pool list"
  hy_group_pool :: "nat list"
  hy_hash_block_size :: nat
  hy_scheduler_block_size :: nat
  hy_partial_hits :: bool
  hy_tail_replay :: bool
  hy_groups :: "spec_group list"

definition coarse_specs :: "layer_spec list \<Rightarrow> nat \<Rightarrow> layer_spec list" where
  "coarse_specs specs hash_bs = filter (\<lambda>s. layer_prefix_cacheable s \<and> hash_bs < block_size_of s) specs"

definition mamba_align :: "layer_spec \<Rightarrow> bool" where
  "mamba_align s \<longleftrightarrow> (case s of Mamba m \<Rightarrow> mamba_cache_mode m = ''align'' | _ \<Rightarrow> False)"

definition partial_hash_hits :: "layer_spec list \<Rightarrow> nat \<Rightarrow> bool" where
  "partial_hash_hits specs hash_bs \<longleftrightarrow>
     list_ex mamba_align specs \<and> coarse_specs specs hash_bs \<noteq> [] \<and>
     list_all supports_fine_grained (coarse_specs specs hash_bs)"

definition hybrid_init ::
  "layer_spec list \<Rightarrow> bool list \<Rightarrow> bool \<Rightarrow> block_pool list \<Rightarrow> nat list \<Rightarrow> nat \<Rightarrow> nat \<Rightarrow> hybrid_coordinator res" where
  "hybrid_init specs eagle_flags use_eagle pools group_pool scheduler_bs hash_bs =
     rbind (guard AssertionError (scheduler_bs mod hash_bs = 0 \<and>
              list_all (\<lambda>s. scheduler_bs mod block_size_of s = 0) specs)) (\<lambda>_.
     rbind (guard AssertionError (list_all (\<lambda>s. layer_prefix_cacheable s \<longrightarrow> block_size_of s mod hash_bs = 0) specs)) (\<lambda>_.
       let partial = partial_hash_hits specs hash_bs;
           groups = split_groups specs (eagle_group_ids use_eagle eagle_flags) in
       rbind (guard AssertionError (groups \<noteq> [])) (\<lambda>_.
         Inr \<lparr>hy_specs = specs, hy_pools = pools, hy_group_pool = group_pool, hy_hash_block_size = hash_bs,
              hy_scheduler_block_size = scheduler_bs, hy_partial_hits = partial,
              hy_tail_replay = (partial \<and> list_ex is_mamba (coarse_specs specs hash_bs)), hy_groups = groups\<rparr>)))"

definition hit_alignment :: "hybrid_coordinator \<Rightarrow> nat" where
  "hit_alignment hy = (if hy_partial_hits hy then hy_hash_block_size hy else hy_scheduler_block_size hy)"

definition full_attention_group_id :: "hybrid_coordinator \<Rightarrow> nat option" where
  "full_attention_group_id hy =
     (case hy_groups hy of
        g # _ \<Rightarrow> if is_full_attention (sg_spec g) then Some (hd (sg_ids g)) else None
      | [] \<Rightarrow> None)"

text \<open>\<open>_validate_prefix_cache_retention_interval\<close>.\<close>

definition validate_retention_interval :: "int option \<Rightarrow> nat \<Rightarrow> layer_spec list \<Rightarrow> unit res" where
  "validate_retention_interval retention scheduler_bs specs =
     (case retention of
        None \<Rightarrow> Inr ()
      | Some r \<Rightarrow>
          rbind (guard ValueError (list_ex (\<lambda>s. window_of s \<noteq> None \<or> is_mamba s) specs)) (\<lambda>_.
            guard ValueError (\<not> (r < 0 \<or> r mod int scheduler_bs \<noteq> 0))))"


subsection \<open>The search\<close>

text \<open>The variables of \<open>find_longest_cache_hit\<close>: the candidate length of the round, the longest length
  seen, each KV cache group's blocks and length, and the spec groups whose drop is verified.\<close>

record lookup_state =
  lk_len :: nat
  lk_longest :: nat
  lk_blocks :: "bref list option list"
  lk_lens :: "nat list"
  lk_verified :: "nat set"
  lk_pools :: "block_pool list"

definition store_hits :: "nat list \<Rightarrow> bref list list \<Rightarrow> nat \<Rightarrow> lookup_state \<Rightarrow> lookup_state" where
  "store_hits ids blocks n st =
     fold (\<lambda>(i, bs) st. st\<lparr>lk_blocks := (lk_blocks st)[i := Some bs], lk_lens := (lk_lens st)[i := n]\<rparr>)
       (zip ids blocks) st"

definition eagle_margin :: "hybrid_coordinator \<Rightarrow> layer_spec \<Rightarrow> nat" where
  "eagle_margin hy s =
     (if hy_partial_hits hy \<and> supports_fine_grained s \<and> hy_hash_block_size hy < block_size_of s
      then hy_hash_block_size hy else block_size_of s)"

definition look_group ::
  "hybrid_coordinator \<Rightarrow> bytes list \<Rightarrow> nat \<Rightarrow> (nat \<Rightarrow> bytes option) option \<Rightarrow> nat \<times> spec_group \<Rightarrow> lookup_state \<Rightarrow>
   lookup_state res" where
  "look_group hy hs max_len own_hash = (\<lambda>(idx, g) st.
     let s = sg_spec g; first = hd (sg_ids g); k = hy_group_pool hy ! first in
     if is_full_attention s \<and> lk_blocks st ! first \<noteq> None
     then Inr (st\<lparr>lk_len := min (lk_len st) (lk_lens st ! first)\<rparr>)
     else
       let drop_eagle = (sg_eagle g \<and> idx \<notin> lk_verified st);
           m = (if drop_eagle \<and> \<not> is_mamba s then min (lk_len st + eagle_margin hy s) max_len else lk_len st) in
       rbind (spec_longest_hit s (RawHashes hs) m (map int (sg_ids g)) drop_eagle (hit_alignment hy) own_hash
                (lk_pools st ! k)) (\<lambda>(blocks, n, p).
         Inr (store_hits (sg_ids g) blocks n
           (st\<lparr>lk_len := n, lk_longest := max (lk_longest st) n, lk_pools := (lk_pools st)[k := p],
               lk_verified := (if drop_eagle then insert idx (lk_verified st)
                               else if n < lk_len st then {} else lk_verified st)\<rparr>))))"

definition look_round ::
  "hybrid_coordinator \<Rightarrow> bytes list \<Rightarrow> nat \<Rightarrow> (nat \<Rightarrow> bytes option) option \<Rightarrow> lookup_state \<Rightarrow> lookup_state res" where
  "look_round hy hs max_len own_hash = rfold (look_group hy hs max_len own_hash) (enumerate 0 (hy_groups hy))"

definition simple_hybrid :: "hybrid_coordinator \<Rightarrow> bool" where
  "simple_hybrid hy \<longleftrightarrow> length (hy_groups hy) = 2 \<and> is_full_attention (sg_spec (hd (hy_groups hy)))"

text \<open>\<open>while True\<close>: every further round starts with a smaller length.\<close>

function hybrid_loop ::
  "hybrid_coordinator \<Rightarrow> bytes list \<Rightarrow> nat \<Rightarrow> (nat \<Rightarrow> bytes option) option \<Rightarrow> nat \<Rightarrow> lookup_state \<Rightarrow>
   (nat \<times> lookup_state) res" where
  "hybrid_loop hy hs max_len own_hash hit st =
     rbind (look_round hy hs max_len own_hash (st\<lparr>lk_len := hit\<rparr>)) (\<lambda>st1.
       if hit \<le> lk_len st1 then Inr (hit, st1)
       else if simple_hybrid hy then Inr (lk_len st1, st1)
       else hybrid_loop hy hs max_len own_hash (lk_len st1) st1)"
  by pat_completeness auto
termination
  by (relation "measure (\<lambda>(hy, hs, max_len, own_hash, hit, st). hit)") auto

declare hybrid_loop.simps [simp del]

text \<open>The blocks of a leading full-attention group are cut to the final length.\<close>

definition cut_full :: "hybrid_coordinator \<Rightarrow> nat \<Rightarrow> lookup_state \<Rightarrow> lookup_state" where
  "cut_full hy hit st =
     (let g = hd (hy_groups hy); k = cdiv_nat hit (block_size_of (sg_spec g)) in
      if is_full_attention (sg_spec g)
      then fold (\<lambda>i st. case lk_blocks st ! i of
             None \<Rightarrow> st
           | Some bs \<Rightarrow> st\<lparr>lk_blocks := (lk_blocks st)[i := Some (take k bs)], lk_lens := (lk_lens st)[i := hit]\<rparr>)
             (sg_ids g) st
      else st)"

definition lookup_start :: "hybrid_coordinator \<Rightarrow> nat \<Rightarrow> lookup_state" where
  "lookup_start hy max_len =
     \<lparr>lk_len = max_len, lk_longest = 0, lk_blocks = replicate (length (hy_specs hy)) None,
      lk_lens = replicate (length (hy_specs hy)) 0, lk_verified = {}, lk_pools = hy_pools hy\<rparr>"

definition hybrid_longest_hit ::
  "hybrid_coordinator \<Rightarrow> bytes list \<Rightarrow> nat \<Rightarrow> (nat \<Rightarrow> bytes option) option \<Rightarrow>
   (bref list list \<times> nat \<times> int \<times> hybrid_coordinator) res" where
  "hybrid_longest_hit hy hs max_len own_hash =
     rbind (hybrid_loop hy hs max_len own_hash max_len (lookup_start hy max_len)) (\<lambda>(hit, st).
       Inr (map opt_list (lk_blocks (cut_full hy hit st)), hit, int (lk_longest st) - int hit,
            hy\<lparr>hy_pools := lk_pools st\<rparr>))"

definition look_group_alone ::
  "hybrid_coordinator \<Rightarrow> bytes list \<Rightarrow> nat \<Rightarrow> (nat \<Rightarrow> bytes option) option \<Rightarrow> spec_group \<Rightarrow> lookup_state \<Rightarrow>
   lookup_state res" where
  "look_group_alone hy hs max_len own_hash g st =
     (let k = hy_group_pool hy ! hd (sg_ids g) in
      rbind (spec_longest_hit (sg_spec g) (RawHashes hs) max_len (map int (sg_ids g)) (sg_eagle g) (hit_alignment hy)
               own_hash (lk_pools st ! k)) (\<lambda>(blocks, n, p).
        Inr (store_hits (sg_ids g) blocks n (st\<lparr>lk_pools := (lk_pools st)[k := p]\<rparr>))))"

definition hybrid_longest_hit_per_group ::
  "hybrid_coordinator \<Rightarrow> bytes list \<Rightarrow> nat \<Rightarrow> (nat \<Rightarrow> bytes option) option \<Rightarrow>
   (bref list list \<times> nat list \<times> hybrid_coordinator) res" where
  "hybrid_longest_hit_per_group hy hs max_len own_hash =
     rbind (rfold (look_group_alone hy hs max_len own_hash) (hy_groups hy) (lookup_start hy max_len)) (\<lambda>st.
       Inr (map opt_list (lk_blocks st), lk_lens st, hy\<lparr>hy_pools := lk_pools st\<rparr>))"


subsection \<open>Caching\<close>

text \<open>\<open>HybridKVCacheCoordinator.cache_blocks\<close> over managers on one pool: each group caches up to an
  aligned length, and one block more where a draft model drops it.\<close>

definition tokens_to_cache :: "nat \<Rightarrow> nat \<Rightarrow> group_manager \<Rightarrow> nat" where
  "tokens_to_cache computed aligned m =
     (if gm_use_eagle m \<and> 0 < aligned then min computed (aligned + gm_block_size m) else aligned)"

fun hybrid_cache_each ::
  "block_hasher \<Rightarrow> block_hasher option \<Rightarrow> request \<Rightarrow> nat \<Rightarrow> nat \<Rightarrow> nat option \<Rightarrow> block_pool \<Rightarrow> group_manager list \<Rightarrow>
   (request \<times> block_pool \<times> group_manager list) res" where
  "hybrid_cache_each H Ho r computed aligned retention p [] = Inr (r, p, [])"
| "hybrid_cache_each H Ho r computed aligned retention p (m # ms) =
     rbind (cache_blocks H Ho r (tokens_to_cache computed aligned m) retention (p, m)) (\<lambda>(r1, p1, m1).
     rbind (hybrid_cache_each H Ho r1 computed aligned retention p1 ms) (\<lambda>(r2, p2, ms2). Inr (r2, p2, m1 # ms2)))"

definition hybrid_cache_blocks ::
  "block_hasher \<Rightarrow> block_hasher option \<Rightarrow> hybrid_coordinator \<Rightarrow> request \<Rightarrow> nat \<Rightarrow> kv_manager \<Rightarrow>
   (request \<times> kv_manager) res" where
  "hybrid_cache_blocks H Ho hy r computed kv =
     (let aligned = (if hy_partial_hits hy then computed
                     else computed div hy_scheduler_block_size hy * hy_scheduler_block_size hy) in
      rbind (hybrid_cache_each H Ho r computed aligned (kv_retention_interval kv) (kv_pool kv) (kv_groups kv))
        (\<lambda>(r1, p, ms). Inr (r1, kv\<lparr>kv_pool := p, kv_groups := ms\<rparr>)))"

end
