(* ===== verification/Hybrid_Facts.thy ===== *)
theory Hybrid_Facts
  imports Hybrid_Lookup
begin

text \<open>
  What each manager's lookup finds when hits are aligned to a multiple of its block size and no draft model
  drops a block: the deepest aligned prefix whose needed blocks are cached in every group.  The contract is
  the locale \<open>prefix_finder\<close>, interpreted on \<open>spec_longest_hit\<close>.
\<close>

subsection \<open>The contract of a lookup\<close>

text \<open>\<open>find c m\<close> is the deepest length up to \<open>m\<close> at which \<open>c\<close> hits; \<open>ok c m\<close> says that the lookup may be
  made.  \<open>turns\<close> runs several lookups in turn, each limited by the one before.\<close>

locale prefix_finder =
  fixes ok :: "'c \<Rightarrow> nat \<Rightarrow> bool"
    and find :: "'c \<Rightarrow> nat \<Rightarrow> nat"
    and hit :: "'c \<Rightarrow> nat \<Rightarrow> bool"
  assumes ok_less: "ok c m \<Longrightarrow> n \<le> m \<Longrightarrow> ok c n"
    and found: "ok c m \<Longrightarrow> hit c (find c m) \<and> find c m \<le> m"
    and deepest: "ok c m \<Longrightarrow> hit c n \<Longrightarrow> n \<le> m \<Longrightarrow> n \<le> find c m"
begin

abbreviation turns :: "'c list \<Rightarrow> nat \<Rightarrow> nat" where
  "turns cs m \<equiv> fold find cs m"

lemma find_unique:
  assumes "ok c m" "hit c n" "n \<le> m" "\<And>n'. hit c n' \<Longrightarrow> n' \<le> m \<Longrightarrow> n' \<le> n"
  shows "find c m = n"
  using found[OF assms(1)] deepest[OF assms(1-3)] assms(4) by (meson order_antisym)

lemma find_fixed: "ok c m \<Longrightarrow> find c m = m \<longleftrightarrow> hit c m"
  using found[of c m] deepest[of c m m] by fastforce

lemma turns_le: "list_all (\<lambda>c. ok c m) cs \<Longrightarrow> turns cs m \<le> m"
proof (induction cs arbitrary: m)
  case (Cons c cs)
  then have f: "find c m \<le> m" using found by simp
  then have "list_all (\<lambda>d. ok d (find c m)) cs"
    using Cons.prems ok_less by (auto simp: list_all_iff)
  then show ?case using Cons.IH[of "find c m"] Cons.prems f ok_less by (auto simp: list_all_iff)
qed simp

lemma common_le_turns:
  assumes "list_all (\<lambda>c. ok c m) cs" "list_all (\<lambda>c. hit c n) cs" "n \<le> m"
  shows "n \<le> turns cs m"
  using assms
proof (induction cs arbitrary: m)
  case (Cons c cs)
  have f: "find c m \<le> m" "n \<le> find c m" using found deepest Cons.prems by auto
  have "list_all (\<lambda>d. ok d (find c m)) cs" using Cons.prems(1) f(1) ok_less by (auto simp: list_all_iff)
  then show ?case using Cons.IH f(2) Cons.prems(2) by simp
qed simp

text \<open>When no lookup reduces the length, they all hit at it.\<close>

lemma turns_fixed:
  assumes "list_all (\<lambda>c. ok c m) cs" "turns cs m = m"
  shows "list_all (\<lambda>c. hit c m) cs"
  using assms
proof (induction cs)
  case (Cons c cs)
  have f: "find c m \<le> m" using found Cons.prems(1) by simp
  then have "list_all (\<lambda>d. ok d (find c m)) cs" using Cons.prems(1) ok_less by (auto simp: list_all_iff)
  from turns_le[OF this] have "find c m = m" using f Cons.prems(2) by simp
  then show ?case using Cons find_fixed by simp
qed simp

end


subsection \<open>One hash, all groups\<close>

definition all_cached :: "block_pool \<Rightarrow> int list \<Rightarrow> bytes \<Rightarrow> bool" where
  "all_cached p gs h \<longleftrightarrow> (\<forall>g \<in> set gs. is_cached p g h)"

lemma get_cached_all:
  assumes "pool_inv p xs" "\<forall>g \<in> set gs. 0 \<le> g \<and> g < 2 ^ 32"
  shows "if all_cached p gs h
    then \<exists>bs. get_cached_block (cached_block_hash_to_block p) h gs = Inr (Some bs) \<and>
      list_all2 (\<lambda>g b. cached_for p g h b) gs bs
    else get_cached_block (cached_block_hash_to_block p) h gs = Inr None"
  using assms(2)
proof (induction gs)
  case (Cons g gs)
  let ?m = "cached_block_hash_to_block p"
  have g: "0 \<le> g" "g < 2 ^ 32" using Cons.prems by auto
  obtain key where key: "make_block_hash_with_group_id h g = Inr key" using make_key_total[OF g] by blast
  have one: "get_cached_block ?m h [g] = Inr r \<Longrightarrow> hm_get_one_block ?m key = Inr (map_option hd r)" for r
    by (auto simp: key split: option.splits)
  have un: "get_hit ?m h [g] = Inr r \<Longrightarrow> r \<noteq> None \<Longrightarrow> get_cached_block ?m h [g] = Inr r" for r
    by (auto simp: get_hit_def simp del: get_cached_block.simps split: if_splits)
  have un': "get_hit ?m h [g] = Inr None \<Longrightarrow> get_cached_block ?m h [g] = Inr None"
    by (auto simp: get_hit_def key split: if_splits option.splits)
  show ?case
  proof (rule get_hit_cases[OF assms(1) g, of h])
    fix b assume b: "get_hit ?m h [g] = Inr (Some [b])" "cached_for p g h b" "is_cached p g h"
    have "hm_get_one_block ?m key = Inr (Some b)" using one[OF un[OF b(1)]] by simp
    then show ?thesis using Cons b(2,3) by (auto simp: key all_cached_def split: if_splits)
  next
    assume b: "get_hit ?m h [g] = Inr None" "\<not> is_cached p g h"
    have "hm_get_one_block ?m key = Inr None" using one[OF un'[OF b(1)]] by simp
    then show ?thesis using b(2) by (simp add: key all_cached_def)
  qed
qed (simp add: all_cached_def)

lemma get_hit_all:
  assumes "pool_inv p xs" "\<forall>g \<in> set gs. 0 \<le> g \<and> g < 2 ^ 32" "gs \<noteq> []"
  obtains (hit) bs where "get_hit (cached_block_hash_to_block p) h gs = Inr (Some bs)" "all_cached p gs h"
    "list_all2 (\<lambda>g b. cached_for p g h b) gs bs"
  | (miss) "get_hit (cached_block_hash_to_block p) h gs = Inr None" "\<not> all_cached p gs h"
proof (cases "all_cached p gs h")
  case True
  then obtain bs where bs: "get_cached_block (cached_block_hash_to_block p) h gs = Inr (Some bs)"
    "list_all2 (\<lambda>g b. cached_for p g h b) gs bs" using get_cached_all[OF assms(1,2), of h] by auto
  then have "bs \<noteq> []" using assms(3) by auto
  then show thesis using hit True bs by (simp add: get_hit_def)
next
  case False
  then show thesis using miss get_cached_all[OF assms(1,2), of h] by (simp add: get_hit_def)
qed


subsection \<open>Hashes of coarser blocks\<close>

definition block_hash_of :: "nat \<Rightarrow> bytes list \<Rightarrow> nat \<Rightarrow> bytes" where
  "block_hash_of k hs i = hs ! ((i + 1) * k - 1)"

definition view_of :: "nat \<Rightarrow> bytes list \<Rightarrow> hash_view" where
  "view_of k hs = (if k = 1 then RawHashes hs else ScaledHashes hs (int k))"

lemma resolve_view:
  assumes "0 < hbs" "0 < k" "bs = hbs * k" "align mod bs = 0" "0 < align"
  shows "resolve_block_hashes (RawHashes hs) (int hbs) (int bs) fine (Some (int align)) = Inr (view_of k hs)"
proof -
  have "\<not> align < bs" using assms(4,5) by (metis mod_less not_less_zero less_nat_zero_code neq0_conv)
  moreover have "int (hbs * k) = int hbs \<longleftrightarrow> k = 1" using assms(1) by (simp add: nat_mult_eq_cancel_disj)
  moreover have "int (hbs * k) div int hbs = int k" using assms(1) by simp
  ultimately show ?thesis using assms(1-3)
    by (auto simp: resolve_block_hashes_def view_of_def make_scaled_def simp flip: of_nat_mult)
qed

lemma view_of_at:
  assumes "0 < k" "i < length hs div k"
  shows "view_at (view_of k hs) (int i) = Inr (block_hash_of k hs i)"
  using view_at_scaled[OF assms(1), of "int i" hs] assms
  by (auto simp: view_of_def block_hash_of_def zdiv_int[symmetric] simp del: view_at.simps(2))

lemma view_of_iter:
  assumes "0 < k"
  shows "view_iter (view_of k hs) = Inr (map (block_hash_of k hs) [0..<length hs div k])"
proof (cases "k = 1")
  case True
  have "block_hash_of 1 hs = (!) hs" by (auto simp: block_hash_of_def)
  then show ?thesis using True by (simp add: view_of_def view_iter_def view_from_def map_nth)
next
  case False
  then show ?thesis using view_from_scaled[OF assms, of hs 0]
    by (simp add: view_of_def view_iter_def block_hash_of_def)
qed


subsection \<open>Blocks found\<close>

text \<open>One list of \<open>n\<close> blocks per group: the ones from \<open>w\<close> on are cached under their hashes, the others null.\<close>

definition rows :: "block_pool \<Rightarrow> int list \<Rightarrow> (nat \<Rightarrow> bytes) \<Rightarrow> nat \<Rightarrow> nat \<Rightarrow> bref list list \<Rightarrow> bool" where
  "rows p gs h w n cs \<longleftrightarrow> length cs = length gs \<and> (\<forall>j < length gs. length (cs ! j) = n \<and>
     (\<forall>i < n. if w \<le> i then cached_for p (gs ! j) (h i) (cs ! j ! i) else cs ! j ! i = null_block p))"

lemma rows_nulls: "rows p gs h w w (map (\<lambda>_. replicate w (null_block p)) gs)"
  by (simp add: rows_def)

lemma rows_Nil: "rows p gs h w 0 (map (\<lambda>_. []) gs)"
  by (simp add: rows_def)

lemma rows_append:
  assumes "rows p gs h w n cs" "list_all2 (\<lambda>g b. cached_for p g (h n) b) gs bs" "w \<le> n"
  shows "rows p gs h w (Suc n) (append_hit cs bs)"
  using assms by (auto simp: rows_def append_hit_def list_all2_conv_all_nth nth_append less_Suc_eq)

lemma rows_first: "rows p gs h w n cs \<Longrightarrow> gs \<noteq> [] \<Longrightarrow> first_length cs = Inr n"
  by (auto simp: rows_def first_length_def py_nth_def hd_conv_nth)

lemma rows_take: "rows p gs h 0 n cs \<Longrightarrow> m \<le> n \<Longrightarrow> rows p gs h 0 m (map (take m) cs)"
  by (simp add: rows_def)

lemma rows_weaken: "rows p gs h w n cs \<Longrightarrow> w = w' \<or> n \<le> w \<and> n \<le> w' \<Longrightarrow> rows p gs h w' n cs"
  by (auto simp: rows_def)


subsection \<open>The scans\<close>

lemma hit_run_rows:
  assumes inv: "pool_inv p xs" "\<forall>g \<in> set gs. 0 \<le> g \<and> g < 2 ^ 32" "gs \<noteq> []"
    and "rows p gs h w a cs" "w \<le> a" "a \<le> b"
  shows "\<exists>n cs'. hit_run (cached_block_hash_to_block p) gs (map h [a..<b]) cs = Inr cs' \<and> rows p gs h w n cs' \<and>
    a \<le> n \<and> n \<le> b \<and> (\<forall>i. a \<le> i \<and> i < n \<longrightarrow> all_cached p gs (h i)) \<and> (n < b \<longrightarrow> \<not> all_cached p gs (h n))"
  using assms(4-6)
proof (induction "b - a" arbitrary: a cs)
  case 0
  then show ?case by (intro exI[of _ a] exI[of _ cs]) auto
next
  case (Suc k)
  then have ab: "[a..<b] = a # [Suc a..<b]" by (simp add: upt_conv_Cons)
  show ?case
  proof (rule get_hit_all[OF inv, of "h a"])
    fix bs assume hit: "get_hit (cached_block_hash_to_block p) (h a) gs = Inr (Some bs)" "all_cached p gs (h a)"
      "list_all2 (\<lambda>g b. cached_for p g (h a) b) gs bs"
    have r: "rows p gs h w (Suc a) (append_hit cs bs)" using rows_append[OF Suc.prems(1) hit(3) Suc.prems(2)] .
    have "k = b - Suc a" "w \<le> Suc a" "Suc a \<le> b" using Suc.hyps(2) Suc.prems(2) by simp_all
    from Suc.hyps(1)[OF this(1) r this(2,3)] obtain n cs' where
      "hit_run (cached_block_hash_to_block p) gs (map h [Suc a..<b]) (append_hit cs bs) = Inr cs'" "rows p gs h w n cs'"
      "Suc a \<le> n" "n \<le> b" "\<forall>i. Suc a \<le> i \<and> i < n \<longrightarrow> all_cached p gs (h i)" "n < b \<longrightarrow> \<not> all_cached p gs (h n)"
      by blast
    moreover have "\<forall>i. a \<le> i \<and> i < n \<longrightarrow> all_cached p gs (h i)"
      using calculation(5) hit(2) by (metis Suc_leI le_neq_implies_less)
    ultimately show ?thesis using hit ab by (intro exI[of _ n] exI[of _ cs']) simp
  next
    assume "get_hit (cached_block_hash_to_block p) (h a) gs = Inr None" "\<not> all_cached p gs (h a)"
    then show ?thesis using Suc.prems ab by (intro exI[of _ a] exI[of _ cs]) auto
  qed
qed

lemma chunked_scan_is_run:
  assumes "\<And>i. i \<in> set is \<Longrightarrow> view_at view (int i) = Inr (h i)"
  shows "chunked_scan is m gs view cs = hit_run m gs (map h is) cs"
  using assms by (induction "is" arbitrary: cs) (auto intro!: rbind_cong split: option.splits)

text \<open>The sliding-window scan: the blocks from \<open>k\<close> on are examined, and a run of \<open>r\<close> cached blocks that
  ends at an aligned length begins at \<open>k\<close>.\<close>

definition aligned :: "nat \<Rightarrow> nat \<Rightarrow> nat \<Rightarrow> bool" where
  "aligned bs align n \<longleftrightarrow> align dvd n * bs"

definition window_cached :: "block_pool \<Rightarrow> int list \<Rightarrow> (nat \<Rightarrow> bytes) \<Rightarrow> nat \<Rightarrow> nat \<Rightarrow> bool" where
  "window_cached p gs h need n \<longleftrightarrow> (\<forall>i < n. n - need \<le> i \<longrightarrow> all_cached p gs (h i))"

definition wscan ::
  "block_pool \<Rightarrow> int list \<Rightarrow> (nat \<Rightarrow> bytes) \<Rightarrow> nat \<Rightarrow> nat \<Rightarrow> nat \<Rightarrow> nat \<Rightarrow> nat \<Rightarrow> bref list list \<Rightarrow> nat \<Rightarrow> bool" where
  "wscan p gs h bs align need N k cs r \<longleftrightarrow> length cs = length gs \<and> k + r \<le> N \<and> r < need \<and>
     (r = 0 \<or> aligned bs align (k + r)) \<and>
     (\<forall>j < length gs. length (cs ! j) = N \<and> (\<forall>i < k. cs ! j ! i = null_block p) \<and>
       (\<forall>i. k \<le> i \<and> i < k + r \<longrightarrow> cached_for p (gs ! j) (h i) (cs ! j ! i))) \<and>
     (\<forall>i. k \<le> i \<and> i < k + r \<longrightarrow> all_cached p gs (h i)) \<and>
     (\<forall>n. k + r < n \<and> n \<le> N \<and> aligned bs align n \<longrightarrow> \<not> window_cached p gs h need n)"

definition wresult ::
  "block_pool \<Rightarrow> int list \<Rightarrow> (nat \<Rightarrow> bytes) \<Rightarrow> nat \<Rightarrow> nat \<Rightarrow> nat \<Rightarrow> nat \<Rightarrow> nat \<Rightarrow> bref list list \<Rightarrow> bool" where
  "wresult p gs h bs align need N n cs \<longleftrightarrow> n \<le> N \<and> aligned bs align n \<and> window_cached p gs h need n \<and>
     rows p gs h (n - need) n cs \<and> (\<forall>n'. n < n' \<and> n' \<le> N \<and> aligned bs align n' \<longrightarrow> \<not> window_cached p gs h need n')"

lemma wscan_miss:
  assumes "wscan p gs h bs align need N (Suc i) cs r" "\<not> all_cached p gs (h i)"
  shows "wscan p gs h bs align need N i cs 0"
proof -
  have "\<not> window_cached p gs h need n" if "i < n" "n \<le> N" "aligned bs align n" for n
  proof (cases "Suc i + r < n")
    case True
    then show ?thesis using assms(1) that by (simp add: wscan_def)
  next
    case False
    then have "n - need \<le> i" using assms(1) by (auto simp: wscan_def)
    then show ?thesis using assms(2) that(1) by (auto simp: window_cached_def)
  qed
  then show ?thesis using assms(1) by (auto simp: wscan_def)
qed

lemma wscan_skip:
  assumes "wscan p gs h bs align need N (Suc i) cs 0" "\<not> aligned bs align (Suc i)"
  shows "wscan p gs h bs align need N i cs 0"
proof -
  have "\<not> window_cached p gs h need n" if "i < n" "n \<le> N" "aligned bs align n" for n
    using assms that by (cases "n = Suc i") (auto simp: wscan_def)
  then show ?thesis using assms(1) by (auto simp: wscan_def)
qed

definition put_row :: "nat \<Rightarrow> bref list list \<Rightarrow> bref list \<Rightarrow> bref list list" where
  "put_row i cs bs = map (\<lambda>(c, b). c[i := b]) (zip cs bs)"

lemma put_row_nth:
  "length bs = length cs \<Longrightarrow> j < length cs \<Longrightarrow> put_row i cs bs ! j = (cs ! j)[i := bs ! j]"
  by (simp add: put_row_def)

lemma extend_run:
  assumes "\<forall>a. Suc i \<le> a \<and> a < Suc i + r \<longrightarrow> P a (c ! a)" "P i b" "i < length c" "i \<le> a" "a < i + (r + 1)"
  shows "P a (c[i := b] ! a)"
  using assms by (cases "a = i") auto

lemma put_row_step:
  assumes w: "wscan p gs h bs align need N (Suc i) cs r" and c: "list_all2 (\<lambda>g b. cached_for p g (h i) b) gs row"
  shows "length (put_row i cs row) = length gs"
    and "\<forall>j < length gs. length (put_row i cs row ! j) = N \<and> (\<forall>a < i. put_row i cs row ! j ! a = null_block p) \<and>
      (\<forall>a. i \<le> a \<and> a < i + (r + 1) \<longrightarrow> cached_for p (gs ! j) (h a) (put_row i cs row ! j ! a))"
proof -
  have l: "length row = length gs" "length cs = length gs" using w c by (auto simp: wscan_def dest: list_all2_lengthD)
  show "length (put_row i cs row) = length gs" using l by (simp add: put_row_def)
  have "cached_for p (gs ! j) (h a) (put_row i cs row ! j ! a)"
    if "j < length gs" "i \<le> a" "a < i + (r + 1)" for j a
    using extend_run[of i r "\<lambda>a b. cached_for p (gs ! j) (h a) b" "cs ! j" "row ! j" a] that w c l
    by (auto simp: wscan_def put_row_nth list_all2_conv_all_nth)
  then show "\<forall>j < length gs. length (put_row i cs row ! j) = N \<and> (\<forall>a < i. put_row i cs row ! j ! a = null_block p) \<and>
      (\<forall>a. i \<le> a \<and> a < i + (r + 1) \<longrightarrow> cached_for p (gs ! j) (h a) (put_row i cs row ! j ! a))"
    using w l by (auto simp: wscan_def put_row_nth)
qed

lemma wscan_hit:
  assumes w: "wscan p gs h bs align need N (Suc i) cs r" and c: "all_cached p gs (h i)"
    "list_all2 (\<lambda>g b. cached_for p g (h i) b) gs row" and al: "r = 0 \<Longrightarrow> aligned bs align (Suc i)"
    and more: "r + 1 < need"
  shows "wscan p gs h bs align need N i (put_row i cs row) (r + 1)"
proof -
  have cached: "\<forall>a. i \<le> a \<and> a < i + (r + 1) \<longrightarrow> all_cached p gs (h a)"
  proof (intro allI impI)
    fix a assume "i \<le> a \<and> a < i + (r + 1)"
    then show "all_cached p gs (h a)" using w c(1) by (cases "a = i") (auto simp: wscan_def)
  qed
  show ?thesis
    unfolding wscan_def
    using put_row_step[OF w c(2)] cached w al more by (auto simp: wscan_def)
qed

lemma wscan_found:
  assumes w: "wscan p gs h bs align need N (Suc i) cs r" and c: "all_cached p gs (h i)"
    "list_all2 (\<lambda>g b. cached_for p g (h i) b) gs row" and al: "r = 0 \<Longrightarrow> aligned bs align (Suc i)"
    and enough: "need \<le> r + 1"
  shows "wresult p gs h bs align need N (i + (r + 1)) (map (take (i + (r + 1))) (put_row i cs row))"
proof -
  have n: "need = r + 1" "i + (r + 1) \<le> N" using w enough by (auto simp: wscan_def)
  have "rows p gs h i (i + (r + 1)) (map (take (i + (r + 1))) (put_row i cs row))"
    using put_row_step[OF w c(2)] n(2) by (auto simp: rows_def)
  moreover have "window_cached p gs h need (i + (r + 1))"
    unfolding window_cached_def
  proof (intro allI impI)
    fix a assume "a < i + (r + 1)" "i + (r + 1) - need \<le> a"
    then show "all_cached p gs (h a)" using w c(1) n(1) by (cases "a = i") (auto simp: wscan_def)
  qed
  moreover have "aligned bs align (i + (r + 1))" using w al by (auto simp: wscan_def)
  ultimately show ?thesis using w n by (simp add: wresult_def wscan_def)
qed

lemma wscan_done:
  assumes "wscan p gs h bs align need N 0 cs r"
  shows "wresult p gs h bs align need N r (map (take r) cs)"
proof -
  have "r - need = 0" "r \<le> N" using assms by (auto simp: wscan_def)
  then show ?thesis using assms unfolding wresult_def
    by (auto simp: wscan_def rows_def window_cached_def aligned_def)
qed

lemma sliding_scan_rows:
  assumes inv: "pool_inv p xs" "\<forall>g \<in> set gs. 0 \<le> g \<and> g < 2 ^ 32" "gs \<noteq> []"
    and v: "\<And>i. i < N \<Longrightarrow> view_at view (int i) = Inr (h i)"
    and w: "wscan p gs h bs align (max 1 need) N k cs r"
  shows "\<exists>cs' r' found n. sliding_scan k (cached_block_hash_to_block p) gs view bs align False False need cs r =
      Inr (cs', r', found) \<and> wresult p gs h bs align (max 1 need) N n (if found then cs' else map (take r') cs') \<and>
      (\<not> found \<longrightarrow> n = r')"
  using w
proof (induction k arbitrary: cs r)
  case 0
  then show ?case using wscan_done by fastforce
next
  case (Suc i)
  have i: "view_at view (int i) = Inr (h i)" using Suc.prems v by (simp add: wscan_def)
  show ?case
  proof (rule get_hit_all[OF inv, of "h i"])
    fix row assume hit: "get_hit (cached_block_hash_to_block p) (h i) gs = Inr (Some row)" "all_cached p gs (h i)"
      "list_all2 (\<lambda>g b. cached_for p g (h i) b) gs row"
    show ?thesis
    proof (cases "r = 0 \<and> \<not> aligned bs align (Suc i)")
      case True
      then have "bs \<noteq> align" "\<not> align dvd Suc i * bs" by (auto simp: aligned_def)
      then show ?thesis using Suc.IH[OF wscan_skip[of p gs h bs align "max 1 need" N i cs]] Suc.prems True i hit(1)
        by (simp add: mod_eq_0_iff_dvd)
    next
      case False
      then have al: "r = 0 \<Longrightarrow> aligned bs align (Suc i)" by simp
      then have go: "\<not> (r = 0 \<and> bs \<noteq> align \<and> (i + 1) * bs mod align \<noteq> 0)"
        by (auto simp: aligned_def mod_eq_0_iff_dvd)
      show ?thesis
      proof (cases "need \<le> r + 1")
        case True
        then have "max 1 need \<le> r + 1" by simp
        from wscan_found[OF Suc.prems hit(2,3) al this] show ?thesis
          using True hit(1) i go by (auto simp: Let_def put_row_def)
      next
        case F: False
        then have "r + 1 < max 1 need" by simp
        from Suc.IH[OF wscan_hit[OF Suc.prems hit(2,3) al this]] show ?thesis
          using F hit(1) i go by (auto simp: Let_def put_row_def)
      qed
    qed
  next
    assume miss: "get_hit (cached_block_hash_to_block p) (h i) gs = Inr None" "\<not> all_cached p gs (h i)"
    then show ?thesis using Suc.IH[OF wscan_miss[OF Suc.prems miss(2)]] i by auto
  qed
qed

lemma mamba_scan_rows:
  assumes inv: "pool_inv p xs" "\<forall>g \<in> set gs. 0 \<le> g \<and> g < 2 ^ 32" "gs \<noteq> []"
    and v: "\<And>i. i < k \<Longrightarrow> view_at view (int i) = Inr (h i)"
  shows "\<exists>cs n. mamba_scan k (cached_block_hash_to_block p) gs view bs align (null_block p) = Inr (cs, n * bs) \<and>
    n \<le> k \<and> aligned bs align n \<and> rows p gs h (n - 1) n cs \<and> (0 < n \<longrightarrow> all_cached p gs (h (n - 1))) \<and>
    (\<forall>n'. n < n' \<and> n' \<le> k \<and> aligned bs align n' \<longrightarrow> \<not> all_cached p gs (h (n' - 1)))"
  using v
proof (induction k)
  case 0
  then show ?case using rows_Nil by (intro exI[of _ "map (\<lambda>_. []) gs"] exI[of _ 0]) (auto simp: aligned_def)
next
  case (Suc i)
  obtain cs n where IH: "mamba_scan i (cached_block_hash_to_block p) gs view bs align (null_block p) = Inr (cs, n * bs)"
    "n \<le> i" "aligned bs align n" "rows p gs h (n - 1) n cs" "0 < n \<longrightarrow> all_cached p gs (h (n - 1))"
    "\<forall>n'. n < n' \<and> n' \<le> i \<and> aligned bs align n' \<longrightarrow> \<not> all_cached p gs (h (n' - 1))"
    using Suc by auto
  show ?case
  proof (cases "all_cached p gs (h i) \<and> aligned bs align (Suc i)")
    case True
    then obtain row where hit: "get_hit (cached_block_hash_to_block p) (h i) gs = Inr (Some row)"
      "list_all2 (\<lambda>g b. cached_for p g (h i) b) gs row"
      using get_hit_all[OF inv, of "h i"] by metis
    have "\<not> (bs \<noteq> align \<and> (i + 1) * bs mod align \<noteq> 0)" using True by (auto simp: aligned_def mod_eq_0_iff_dvd)
    then show ?thesis
      using True hit(1) Suc.prems rows_append[where h = h and n = i and w = i, OF rows_nulls hit(2)]
      by (intro exI[of _ "append_hit (map (\<lambda>_. replicate i (null_block p)) gs) row"] exI[of _ "Suc i"])
        (auto simp: if_not_P)
  next
    case False
    then have no: "\<forall>n'. n < n' \<and> n' \<le> Suc i \<and> aligned bs align n' \<longrightarrow> \<not> all_cached p gs (h (n' - 1))"
      using IH(6) by (metis diff_Suc_1 le_Suc_eq)
    have "mamba_scan (Suc i) (cached_block_hash_to_block p) gs view bs align (null_block p) = Inr (cs, n * bs)"
    proof (rule get_hit_all[OF inv, of "h i"])
      fix row assume hit: "get_hit (cached_block_hash_to_block p) (h i) gs = Inr (Some row)" "all_cached p gs (h i)"
      then have "bs \<noteq> align \<and> (i + 1) * bs mod align \<noteq> 0" using False by (auto simp: aligned_def mod_eq_0_iff_dvd)
      then show ?thesis using hit(1) IH(1) Suc.prems by simp
    next
      assume "get_hit (cached_block_hash_to_block p) (h i) gs = Inr None"
      then show ?thesis using IH(1) Suc.prems by simp
    qed
    then show ?thesis using IH(2-5) no by (intro exI[of _ cs] exI[of _ n]) simp
  qed
qed


subsection \<open>The lookups of the managers\<close>

text \<open>A query: the pool, the specification, the groups that must all hit, the alignment of hits and the
  request's hashes.\<close>

record hit_query =
  hq_pool :: block_pool
  hq_spec :: layer_spec
  hq_ids :: "nat list"
  hq_align :: nat
  hq_hashes :: "bytes list"

abbreviation hq_bs :: "hit_query \<Rightarrow> nat" where
  "hq_bs q \<equiv> block_size_of (hq_spec q)"

abbreviation hq_groups :: "hit_query \<Rightarrow> int list" where
  "hq_groups q \<equiv> map int (hq_ids q)"

definition hq_hash :: "hit_query \<Rightarrow> nat \<Rightarrow> bytes" where
  "hq_hash q = block_hash_of (hq_bs q div bp_hash_block_size (hq_pool q)) (hq_hashes q)"

text \<open>The first block that a hit of \<open>n\<close> tokens needs.\<close>

definition needed_from :: "layer_spec \<Rightarrow> nat \<Rightarrow> nat" where
  "needed_from s n =
     (let bs = block_size_of s in
      if is_full_attention s then 0
      else case window_of s of
        Some w \<Rightarrow> n div bs - max 1 (contiguous_blocks_for_hit (nat w) bs False)
      | None \<Rightarrow> (case s of
          ChunkedLocalAttention _ c \<Rightarrow> n div nat c * nat c div bs
        | Mamba _ \<Rightarrow> n div bs - 1
        | _ \<Rightarrow> 0))"

text \<open>The group can resume after \<open>n\<close> tokens.\<close>

definition query_hit :: "hit_query \<Rightarrow> nat \<Rightarrow> bool" where
  "query_hit q n \<longleftrightarrow> hq_align q dvd n \<and>
     (\<forall>i < n div hq_bs q. needed_from (hq_spec q) n \<le> i \<longrightarrow> all_cached (hq_pool q) (hq_groups q) (hq_hash q i))"

definition query_rows :: "hit_query \<Rightarrow> nat \<Rightarrow> bref list list \<Rightarrow> bool" where
  "query_rows q n cs \<longleftrightarrow>
     rows (hq_pool q) (hq_groups q) (hq_hash q) (needed_from (hq_spec q) n) (n div hq_bs q) cs"

text \<open>Chunks of whole blocks, as \<open>ChunkedLocalAttentionManager\<close> requires; the manager of a circular buffer
  and of cross attention takes no part.\<close>

definition spec_searchable :: "layer_spec \<Rightarrow> nat \<Rightarrow> bool" where
  "spec_searchable s align \<longleftrightarrow> is_full_attention s \<or> window_of s \<noteq> None \<or>
     (case s of
        Mamba _ \<Rightarrow> True
      | ChunkedLocalAttention _ c \<Rightarrow> block_size_of s = align \<and> 0 < nat c \<and> nat c mod align = 0
      | _ \<Rightarrow> False)"

definition query_ok :: "hit_query \<Rightarrow> nat \<Rightarrow> bool" where
  "query_ok q m \<longleftrightarrow> (\<exists>xs. pool_inv (hq_pool q) xs) \<and> hq_ids q \<noteq> [] \<and> (\<forall>i \<in> set (hq_ids q). i < 2 ^ 32) \<and>
     0 < bp_hash_block_size (hq_pool q) \<and> 0 < hq_bs q \<and> hq_bs q mod bp_hash_block_size (hq_pool q) = 0 \<and>
     0 < hq_align q \<and> hq_align q mod hq_bs q = 0 \<and> m div bp_hash_block_size (hq_pool q) \<le> length (hq_hashes q) \<and>
     spec_searchable (hq_spec q) (hq_align q)"

lemma query_view:
  assumes "query_ok q m"
  shows "resolve_block_hashes (RawHashes (hq_hashes q)) (int (bp_hash_block_size (hq_pool q))) (int (hq_bs q)) fine
           (Some (int (hq_align q))) = Inr (view_of (hq_bs q div bp_hash_block_size (hq_pool q)) (hq_hashes q))"
    and "i < m div hq_bs q \<Longrightarrow>
      view_at (view_of (hq_bs q div bp_hash_block_size (hq_pool q)) (hq_hashes q)) (int i) = Inr (hq_hash q i)"
    and "view_iter (view_of (hq_bs q div bp_hash_block_size (hq_pool q)) (hq_hashes q)) =
      Inr (map (hq_hash q) [0..<length (hq_hashes q) div (hq_bs q div bp_hash_block_size (hq_pool q))])"
    and "m div hq_bs q \<le> length (hq_hashes q) div (hq_bs q div bp_hash_block_size (hq_pool q))"
    and "\<not> hq_align q < hq_bs q"
proof -
  let ?hbs = "bp_hash_block_size (hq_pool q)" and ?k = "hq_bs q div bp_hash_block_size (hq_pool q)"
  have ok: "0 < ?hbs" "0 < hq_bs q" "hq_bs q = ?hbs * ?k" "0 < hq_align q" "hq_align q mod hq_bs q = 0"
    "m div ?hbs \<le> length (hq_hashes q)"
    using assms by (auto simp: query_ok_def)
  then have k: "0 < ?k" by (metis mult_0_right neq0_conv)
  show "resolve_block_hashes (RawHashes (hq_hashes q)) (int ?hbs) (int (hq_bs q)) fine (Some (int (hq_align q))) =
      Inr (view_of ?k (hq_hashes q))"
    using resolve_view[OF ok(1) k ok(3,5,4)] .
  have "m div hq_bs q = m div ?hbs div ?k" using ok(3) div_mult2_eq[of m ?hbs ?k] by simp
  then show le: "m div hq_bs q \<le> length (hq_hashes q) div ?k" using ok(6) by (simp add: div_le_mono)
  show "view_at (view_of ?k (hq_hashes q)) (int i) = Inr (hq_hash q i)" if "i < m div hq_bs q"
    using view_of_at[OF k, of i "hq_hashes q"] that le by (simp add: hq_hash_def)
  show "view_iter (view_of ?k (hq_hashes q)) = Inr (map (hq_hash q) [0..<length (hq_hashes q) div ?k])"
    using view_of_iter[OF k] by (simp add: hq_hash_def)
  show "\<not> hq_align q < hq_bs q" using ok(4,5) by (auto dest: mod_less)
qed

lemma query_pool:
  assumes "query_ok q m"
  obtains xs where "pool_inv (hq_pool q) xs" "\<forall>g \<in> set (hq_groups q). 0 \<le> g \<and> g < 2 ^ 32" "hq_groups q \<noteq> []"
  using assms by (fastforce simp: query_ok_def)

text \<open>A length in whole blocks, and what an aligned length is.\<close>

lemma aligned_iff:
  assumes "query_ok q m" "hq_align q dvd n"
  shows "n = n div hq_bs q * hq_bs q"
proof -
  have "hq_bs q dvd n" using assms by (auto simp: query_ok_def mod_eq_0_iff_dvd intro: dvd_trans)
  then show ?thesis by simp
qed

lemma lookup_result_by_blocks:
  assumes ok: "query_ok q m" and n: "n \<le> m div hq_bs q" "hq_align q dvd n * hq_bs q"
    and deepest: "\<And>n'. n < n' \<Longrightarrow> n' \<le> m div hq_bs q \<Longrightarrow> hq_align q dvd n' * hq_bs q \<Longrightarrow>
      \<not> query_hit q (n' * hq_bs q)"
  shows "n * hq_bs q \<le> m" "\<And>n'. query_hit q n' \<Longrightarrow> n' \<le> m \<Longrightarrow> n' \<le> n * hq_bs q"
proof -
  have bs: "0 < hq_bs q" using ok by (simp add: query_ok_def)
  show "n * hq_bs q \<le> m" using n(1) bs by (simp add: less_eq_div_iff_mult_less_eq)
  fix n' assume h: "query_hit q n'" "n' \<le> m"
  have e: "n' = n' div hq_bs q * hq_bs q" using aligned_iff[OF ok] h(1) by (simp add: query_hit_def)
  have "n' div hq_bs q \<le> m div hq_bs q" using h(2) by (rule div_le_mono)
  then have "\<not> n < n' div hq_bs q"
    using deepest[of "n' div hq_bs q"] h(1) e by (auto simp: query_hit_def)
  then have "n' div hq_bs q * hq_bs q \<le> n * hq_bs q" by simp
  then show "n' \<le> n * hq_bs q" using e by simp
qed

definition lookup_ok :: "hit_query \<Rightarrow> nat \<Rightarrow> (bref list list \<times> nat \<times> block_pool) res \<Rightarrow> bool" where
  "lookup_ok q m r \<longleftrightarrow> (\<exists>cs n. r = Inr (cs, n, hq_pool q) \<and> n \<le> m \<and> query_hit q n \<and> query_rows q n cs \<and>
     (\<forall>n'. query_hit q n' \<longrightarrow> n' \<le> m \<longrightarrow> n' \<le> n))"

lemma lookup_okI:
  assumes ok: "query_ok q m" and n: "n \<le> m div hq_bs q" "hq_align q dvd n * hq_bs q"
    and r: "r = Inr (cs, n * hq_bs q, hq_pool q)"
    and hit: "\<And>i. i < n \<Longrightarrow> needed_from (hq_spec q) (n * hq_bs q) \<le> i \<Longrightarrow>
      all_cached (hq_pool q) (hq_groups q) (hq_hash q i)"
    and rows: "rows (hq_pool q) (hq_groups q) (hq_hash q) (needed_from (hq_spec q) (n * hq_bs q)) n cs"
    and deepest: "\<And>n'. n < n' \<Longrightarrow> n' \<le> m div hq_bs q \<Longrightarrow> hq_align q dvd n' * hq_bs q \<Longrightarrow>
      \<not> query_hit q (n' * hq_bs q)"
  shows "lookup_ok q m r"
proof -
  have bs: "0 < hq_bs q" using ok by (simp add: query_ok_def)
  note b = lookup_result_by_blocks[OF ok n deepest]
  have "query_hit q (n * hq_bs q)" "query_rows q (n * hq_bs q) cs"
    using n(2) hit rows bs by (auto simp: query_hit_def query_rows_def)
  then show ?thesis using r b unfolding lookup_ok_def by blast
qed

lemma dvd_le_floor:
  assumes "(a::nat) dvd x" "x \<le> y"
  shows "x \<le> y - y mod a"
proof -
  have "x div a * a \<le> y div a * a" using assms(2) by (simp add: div_le_mono)
  then show ?thesis using assms(1) by (simp add: minus_mod_eq_div_mult)
qed

lemma full_lookup_ok:
  assumes ok: "query_ok q m" and s: "is_full_attention (hq_spec q)"
  shows "lookup_ok q m (spec_longest_hit (hq_spec q) (RawHashes (hq_hashes q)) m (hq_groups q) False (hq_align q) oh (hq_pool q))"
proof (rule query_pool[OF ok])
  fix xs assume inv: "pool_inv (hq_pool q) xs" "\<forall>g \<in> set (hq_groups q). 0 \<le> g \<and> g < 2 ^ 32" "hq_groups q \<noteq> []"
  let ?p = "hq_pool q" and ?gs = "hq_groups q" and ?h = "hq_hash q" and ?bs = "hq_bs q" and ?A = "hq_align q"
  note v = query_view[OF ok]
  have bs: "0 < ?bs" "0 < ?A" "?bs dvd ?A" using ok by (auto simp: query_ok_def)
  obtain r cs where run: "hit_run (cached_block_hash_to_block ?p) ?gs (map ?h [0..<m div ?bs]) (map (\<lambda>_. []) ?gs) = Inr cs"
    "rows ?p ?gs ?h 0 r cs" "r \<le> m div ?bs" "\<forall>i < r. all_cached ?p ?gs (?h i)"
    "r < m div ?bs \<longrightarrow> \<not> all_cached ?p ?gs (?h r)"
    using hit_run_rows[OF inv rows_Nil[of ?p ?gs ?h 0], of "m div ?bs"] by auto
  define n where "n = (r * ?bs - r * ?bs mod ?A) div ?bs"
  have "?A dvd r * ?bs - r * ?bs mod ?A" by simp
  then have nb: "n * ?bs = r * ?bs - r * ?bs mod ?A" using bs(3) unfolding n_def by (metis dvd_div_mult_self dvd_trans)
  then have "n * ?bs \<le> r * ?bs" by simp
  then have n: "n \<le> r" "?A dvd n * ?bs" using bs(1) by simp (simp add: nb)
  have c: "cdiv_nat (r * ?bs - r * ?bs mod ?A) ?bs = n" using bs(1) by (simp flip: nb)
  have take: "take (m div ?bs) (map ?h [0..<length (hq_hashes q) div (?bs div bp_hash_block_size ?p)]) = map ?h [0..<m div ?bs]"
    using v(4) by (simp add: take_map)
  show ?thesis
  proof (rule lookup_okI[OF ok _ n(2)])
    show "spec_longest_hit (hq_spec q) (RawHashes (hq_hashes q)) m ?gs False ?A oh ?p =
        Inr (map (take n) cs, n * ?bs, ?p)"
      using c s v(1)[of True] v(3,5) run(1) take rows_first[OF run(2) inv(3)] nb bs(1)
      by (simp add: spec_longest_hit_def full_longest_hit_def Let_def)
    have f: "needed_from (hq_spec q) (k * ?bs) = 0" for k using s by (simp add: needed_from_def)
    show "rows ?p ?gs ?h (needed_from (hq_spec q) (n * ?bs)) n (map (take n) cs)"
      unfolding f using rows_take[OF run(2) n(1)] .
    show "all_cached ?p ?gs (?h i)" if "i < n" for i using run(4) that n(1) by simp
    show "n \<le> m div ?bs" using n(1) run(3) by simp
    show "\<not> query_hit q (n' * ?bs)" if "n < n'" "n' \<le> m div ?bs" "?A dvd n' * ?bs" for n'
    proof
      assume h: "query_hit q (n' * ?bs)"
      have "\<not> n' \<le> r"
      proof
        assume "n' \<le> r"
        then have "n' * ?bs \<le> r * ?bs" by simp
        then have "n' * ?bs \<le> n * ?bs" unfolding nb using that(3) dvd_le_floor by blast
        then show False using that(1) bs(1) by simp
      qed
      then have "r < n'" by simp
      then show False using h f run(5) that(2) bs(1) by (auto simp: query_hit_def)
    qed
  qed
qed

lemma sliding_lookup_ok:
  assumes ok: "query_ok q m" and s: "\<not> is_full_attention (hq_spec q)" "window_of (hq_spec q) = Some w"
  shows "lookup_ok q m (spec_longest_hit (hq_spec q) (RawHashes (hq_hashes q)) m (hq_groups q) False (hq_align q) oh (hq_pool q))"
proof (rule query_pool[OF ok])
  fix xs assume inv: "pool_inv (hq_pool q) xs" "\<forall>g \<in> set (hq_groups q). 0 \<le> g \<and> g < 2 ^ 32" "hq_groups q \<noteq> []"
  let ?p = "hq_pool q" and ?gs = "hq_groups q" and ?h = "hq_hash q" and ?bs = "hq_bs q" and ?A = "hq_align q"
  let ?N = "m div ?bs" and ?need = "contiguous_blocks_for_hit (nat w) ?bs False"
  let ?null = "map (\<lambda>_. replicate ?N (null_block ?p)) ?gs"
  note v = query_view[OF ok]
  have bs: "0 < ?bs" "?A mod ?bs = 0" using ok by (auto simp: query_ok_def)
  have start: "wscan ?p ?gs ?h ?bs ?A (max 1 ?need) ?N ?N ?null 0" by (auto simp: wscan_def)
  obtain cs r found n where scan: "sliding_scan ?N (cached_block_hash_to_block ?p) ?gs
      (view_of (?bs div bp_hash_block_size ?p) (hq_hashes q)) ?bs ?A False False ?need ?null 0 = Inr (cs, r, found)"
    and res: "wresult ?p ?gs ?h ?bs ?A (max 1 ?need) ?N n (if found then cs else map (take r) cs)"
    and nr: "\<not> found \<longrightarrow> n = r"
    using sliding_scan_rows[OF inv v(2) start] by blast
  define out where "out = (if found then cs else map (take r) cs)"
  have w: "n \<le> ?N" "?A dvd n * ?bs" "window_cached ?p ?gs ?h (max 1 ?need) n"
    "rows ?p ?gs ?h (n - max 1 ?need) n out"
    "\<And>n'. n < n' \<Longrightarrow> n' \<le> ?N \<Longrightarrow> ?A dvd n' * ?bs \<Longrightarrow> \<not> window_cached ?p ?gs ?h (max 1 ?need) n'"
    using res by (auto simp: wresult_def aligned_def out_def)
  have down: "align_down ?bs ?A n = n" using w(2) by (cases n) (auto simp: mod_eq_0_iff_dvd)
  have "list_all (\<lambda>c. length c = n) out" using w(4) by (simp add: rows_def list_all_length)
  then have len: "\<And>c. c \<in> set out \<Longrightarrow> length c = n" by (simp add: list_all_iff)
  have realign: "map (\<lambda>c. if ?bs \<noteq> ?A then take (align_down ?bs ?A (length (take r c))) (take r c) else take r c) cs = out"
    if no: "\<not> found"
  proof -
    have "(if ?bs \<noteq> ?A then take (align_down ?bs ?A (length (take r c))) (take r c) else take r c) = take r c"
      if "c \<in> set cs" for c
    proof -
      have l: "length (take r c) = n" using len[of "take r c"] that no by (simp add: out_def)
      have whole: "take n (take r c) = take r c" by (rule take_all) (simp only: l order_refl)
      show ?thesis unfolding l down by (simp only: whole if_cancel)
    qed
    then show ?thesis using no by (simp add: out_def)
  qed
  show ?thesis
  proof (rule lookup_okI[OF ok w(1,2)])
    show "spec_longest_hit (hq_spec q) (RawHashes (hq_hashes q)) m ?gs False ?A oh ?p = Inr (out, n * ?bs, ?p)"
    proof (cases found)
      case True
      then have "out = cs" by (simp add: out_def)
      then show ?thesis using s v(1)[of True] v(5) scan rows_first[OF w(4) inv(3)] bs True
        by (simp add: spec_longest_hit_def sliding_longest_hit_def Let_def)
    next
      case False
      then show ?thesis using s v(1)[of True] v(5) scan rows_first[OF w(4) inv(3)] bs realign[OF False]
        by (simp add: spec_longest_hit_def sliding_longest_hit_def Let_def)
    qed
    have f: "needed_from (hq_spec q) (k * ?bs) = k - max 1 ?need" for k using s bs(1) by (simp add: needed_from_def Let_def)
    show "rows ?p ?gs ?h (needed_from (hq_spec q) (n * ?bs)) n out" unfolding f by (rule w(4))
    show "all_cached ?p ?gs (?h i)" if "i < n" "needed_from (hq_spec q) (n * ?bs) \<le> i" for i
      using w(3) that unfolding f by (simp add: window_cached_def)
    show "\<not> query_hit q (n' * ?bs)" if "n < n'" "n' \<le> ?N" "?A dvd n' * ?bs" for n'
      using w(5)[OF that] f bs(1) by (auto simp: query_hit_def window_cached_def)
  qed
qed

lemma mamba_lookup_ok:
  assumes ok: "query_ok q m" and s: "hq_spec q = Mamba f"
  shows "lookup_ok q m (spec_longest_hit (hq_spec q) (RawHashes (hq_hashes q)) m (hq_groups q) False (hq_align q) oh (hq_pool q))"
proof (rule query_pool[OF ok])
  fix xs assume inv: "pool_inv (hq_pool q) xs" "\<forall>g \<in> set (hq_groups q). 0 \<le> g \<and> g < 2 ^ 32" "hq_groups q \<noteq> []"
  let ?p = "hq_pool q" and ?gs = "hq_groups q" and ?h = "hq_hash q" and ?bs = "hq_bs q" and ?A = "hq_align q"
  note v = query_view[OF ok]
  have bs: "0 < ?bs" using ok by (simp add: query_ok_def)
  obtain cs n where scan: "mamba_scan (m div ?bs) (cached_block_hash_to_block ?p) ?gs
      (view_of (?bs div bp_hash_block_size ?p) (hq_hashes q)) ?bs ?A (null_block ?p) = Inr (cs, n * ?bs)"
    and n: "n \<le> m div ?bs" "?A dvd n * ?bs" and rows: "rows ?p ?gs ?h (n - 1) n cs"
    and hit: "0 < n \<longrightarrow> all_cached ?p ?gs (?h (n - 1))"
    and deepest: "\<forall>n'. n < n' \<and> n' \<le> m div ?bs \<and> ?A dvd n' * ?bs \<longrightarrow> \<not> all_cached ?p ?gs (?h (n' - 1))"
    using mamba_scan_rows[OF inv v(2), where bs = ?bs and align = ?A] unfolding aligned_def by blast
  have f: "needed_from (hq_spec q) (k * ?bs) = k - 1" for k using s bs by (simp add: needed_from_def Let_def)
  show ?thesis
  proof (rule lookup_okI[OF ok n])
    show "spec_longest_hit (hq_spec q) (RawHashes (hq_hashes q)) m ?gs False ?A oh ?p = Inr (cs, n * ?bs, ?p)"
      using s v(1)[of True] v(5) scan by (simp add: spec_longest_hit_def mamba_longest_hit_def)
    show "rows ?p ?gs ?h (needed_from (hq_spec q) (n * ?bs)) n cs" unfolding f by (rule rows)
    show "all_cached ?p ?gs (?h i)" if "i < n" "needed_from (hq_spec q) (n * ?bs) \<le> i" for i
    proof -
      have "i = n - 1" using that unfolding f by simp
      then show ?thesis using hit that(1) by simp
    qed
    show "\<not> query_hit q (n' * ?bs)" if "n < n'" "n' \<le> m div ?bs" "?A dvd n' * ?bs" for n'
    proof
      assume "query_hit q (n' * ?bs)"
      then have "all_cached ?p ?gs (?h (n' - 1))" using that(1) f bs by (auto simp: query_hit_def)
      then show False using deepest that by blast
    qed
  qed
qed

lemma div_between:
  assumes "0 < (c::nat)" "m div c * c \<le> x" "x \<le> m"
  shows "x div c = m div c"
proof -
  have "m div c \<le> x div c" using assms(1,2) by (simp add: less_eq_div_iff_mult_less_eq)
  then show ?thesis using div_le_mono[OF assms(3), of c] by simp
qed

lemma chunked_lookup_ok:
  assumes ok: "query_ok q m" and s: "hq_spec q = ChunkedLocalAttention a ci"
  shows "lookup_ok q m (spec_longest_hit (hq_spec q) (RawHashes (hq_hashes q)) m (hq_groups q) False (hq_align q) oh (hq_pool q))"
proof (rule query_pool[OF ok])
  fix xs assume inv: "pool_inv (hq_pool q) xs" "\<forall>g \<in> set (hq_groups q). 0 \<le> g \<and> g < 2 ^ 32" "hq_groups q \<noteq> []"
  let ?p = "hq_pool q" and ?gs = "hq_groups q" and ?h = "hq_hash q" and ?bs = "hq_bs q" and ?c = "nat ci"
  let ?N = "m div ?bs" and ?start = "m div ?c * ?c div ?bs"
  note v = query_view[OF ok]
  have bs: "0 < ?bs" "?bs = hq_align q" "0 < ?c" "?c mod ?bs = 0"
    using ok s by (auto simp: query_ok_def spec_searchable_def)
  have sb: "?start * ?bs = m div ?c * ?c" using bs(4) by (simp add: mod_eq_0_iff_dvd)
  have SN: "?start \<le> ?N" by (rule div_le_mono) simp
  have f: "needed_from (hq_spec q) (k * ?bs) = ?start" if "?start \<le> k" "k \<le> ?N" for k
  proof -
    have "m div ?c * ?c \<le> k * ?bs" using that(1) sb by (metis mult_le_mono1)
    moreover have "k * ?bs \<le> m" using that(2) bs(1) by (simp add: less_eq_div_iff_mult_less_eq)
    ultimately have "k * ?bs div ?c = m div ?c" by (rule div_between[OF bs(3)])
    then show ?thesis using s by (simp add: needed_from_def Let_def)
  qed
  have "chunked_scan [?start..<?N] (cached_block_hash_to_block ?p) ?gs (view_of (?bs div bp_hash_block_size ?p) (hq_hashes q))
      cs = hit_run (cached_block_hash_to_block ?p) ?gs (map ?h [?start..<?N]) cs" for cs
    by (rule chunked_scan_is_run) (simp add: v(2))
  moreover obtain n cs where "hit_run (cached_block_hash_to_block ?p) ?gs (map ?h [?start..<?N])
      (map (\<lambda>_. replicate ?start (null_block ?p)) ?gs) = Inr cs"
    and n: "?start \<le> n" "n \<le> ?N" and rows: "rows ?p ?gs ?h ?start n cs"
    and hit: "\<forall>i. ?start \<le> i \<and> i < n \<longrightarrow> all_cached ?p ?gs (?h i)" "n < ?N \<longrightarrow> \<not> all_cached ?p ?gs (?h n)"
    using hit_run_rows[OF inv rows_nulls order_refl SN] by blast
  ultimately have scan: "chunked_scan [?start..<?N] (cached_block_hash_to_block ?p) ?gs
      (view_of (?bs div bp_hash_block_size ?p) (hq_hashes q)) (map (\<lambda>_. replicate ?start (null_block ?p)) ?gs) = Inr cs"
    by simp
  show ?thesis
  proof (rule lookup_okI[OF ok n(2)])
    show "spec_longest_hit (hq_spec q) (RawHashes (hq_hashes q)) m ?gs False (hq_align q) oh ?p = Inr (cs, n * ?bs, ?p)"
      using s v(1)[of False] scan rows_first[OF rows inv(3)] bs(1-3)
      by (simp add: spec_longest_hit_def chunked_longest_hit_def Let_def)
    show "hq_align q dvd n * ?bs" using bs(2) by simp
    show "rows ?p ?gs ?h (needed_from (hq_spec q) (n * ?bs)) n cs" unfolding f[OF n] by (rule rows)
    show "all_cached ?p ?gs (?h i)" if "i < n" "needed_from (hq_spec q) (n * ?bs) \<le> i" for i
      using hit(1) that unfolding f[OF n] by blast
    show "\<not> query_hit q (n' * ?bs)" if "n < n'" "n' \<le> ?N" for n'
      using hit(2) that n f[of n'] bs(1) by (auto simp: query_hit_def)
  qed
qed

theorem query_lookup_ok:
  assumes ok: "query_ok q m"
  shows "lookup_ok q m (spec_longest_hit (hq_spec q) (RawHashes (hq_hashes q)) m (hq_groups q) False (hq_align q) oh (hq_pool q))"
proof (cases "is_full_attention (hq_spec q)")
  case full: False
  show ?thesis
  proof (cases "window_of (hq_spec q)")
    case None
    then obtain a ci f where "hq_spec q = ChunkedLocalAttention a ci \<or> hq_spec q = Mamba f"
      using ok full unfolding query_ok_def spec_searchable_def by (cases "hq_spec q") auto
    then show ?thesis using chunked_lookup_ok[OF ok, where a = a and ci = ci and oh = oh] mamba_lookup_ok[OF ok, where f = f and oh = oh] by argo
  qed (rule sliding_lookup_ok[OF ok full])
qed (rule full_lookup_ok[OF ok])

text \<open>The length that the lookup of a query finds.\<close>

definition query_find :: "hit_query \<Rightarrow> nat \<Rightarrow> nat" where
  "query_find q m =
     (case spec_longest_hit (hq_spec q) (RawHashes (hq_hashes q)) m (hq_groups q) False (hq_align q) None (hq_pool q) of
        Inr (_, n, _) \<Rightarrow> n | Inl _ \<Rightarrow> 0)"

lemma query_ok_less: "query_ok q m \<Longrightarrow> n \<le> m \<Longrightarrow> query_ok q n"
  unfolding query_ok_def by (meson div_le_mono le_trans)

lemma lookup_ok_unique:
  assumes "lookup_ok q m (Inr (cs, n, p))" "lookup_ok q m (Inr (cs', n', p'))"
  shows "n = n'"
  using assms by (auto simp: lookup_ok_def intro: order_antisym)

interpretation spec_finder: prefix_finder query_ok query_find query_hit
proof (standard, goal_cases)
  case (1 c m n)
  then show ?case by (rule query_ok_less)
next
  case (2 c m)
  then show ?case using query_lookup_ok[OF 2, of None] by (auto simp: query_find_def lookup_ok_def)
next
  case (3 c m n)
  then show ?case using query_lookup_ok[OF 3(1), of None] by (auto simp: query_find_def lookup_ok_def)
qed

lemma query_lookup:
  assumes ok: "query_ok q m"
  shows "\<exists>cs. spec_longest_hit (hq_spec q) (RawHashes (hq_hashes q)) m (hq_groups q) False (hq_align q) oh (hq_pool q) =
    Inr (cs, query_find q m, hq_pool q) \<and> query_rows q (query_find q m) cs"
proof -
  obtain cs n where r: "spec_longest_hit (hq_spec q) (RawHashes (hq_hashes q)) m (hq_groups q) False (hq_align q) oh (hq_pool q) =
      Inr (cs, n, hq_pool q)" "n \<le> m" "query_hit q n" "query_rows q n cs" "\<forall>n'. query_hit q n' \<longrightarrow> n' \<le> m \<longrightarrow> n' \<le> n"
    using query_lookup_ok[OF ok, of oh] unfolding lookup_ok_def by blast
  have "query_find q m = n" using spec_finder.find_unique[OF ok r(3,2)] r(5) by blast
  then show ?thesis using r(1,4) by blast
qed

text \<open>Full attention hits at every aligned length below a hit.\<close>

lemma full_closed:
  assumes "is_full_attention (hq_spec q)" "query_hit q n" "hq_align q dvd n'" "n' \<le> n"
  shows "query_hit q n'"
  using assms div_le_mono[OF assms(4), of "hq_bs q"] by (auto simp: query_hit_def needed_from_def)

end
