(* ===== verification/Hybrid_Search.thy ===== *)
theory Hybrid_Search
  imports Hybrid_Facts
begin

text \<open>
  The search of the hybrid coordinator without draft model and without partial hits: every round runs the
  lookups of all spec groups in turn (\<open>spec_finder.turns\<close>), and the search ends at the deepest length at
  which all of them hit.
\<close>

definition hy_query :: "hybrid_coordinator \<Rightarrow> bytes list \<Rightarrow> spec_group \<Rightarrow> hit_query" where
  "hy_query hy hs g = \<lparr>hq_pool = hy_pools hy ! (hy_group_pool hy ! hd (sg_ids g)), hq_spec = sg_spec g,
     hq_ids = sg_ids g, hq_align = hy_scheduler_block_size hy, hq_hashes = hs\<rparr>"

lemma hy_query_sel [simp]:
  "hq_pool (hy_query hy hs g) = hy_pools hy ! (hy_group_pool hy ! hd (sg_ids g))"
  "hq_spec (hy_query hy hs g) = sg_spec g" "hq_ids (hy_query hy hs g) = sg_ids g"
  "hq_align (hy_query hy hs g) = hy_scheduler_block_size hy" "hq_hashes (hy_query hy hs g) = hs"
  by (simp_all add: hy_query_def)

definition hybrid_ready :: "hybrid_coordinator \<Rightarrow> bytes list \<Rightarrow> nat \<Rightarrow> bool" where
  "hybrid_ready hy hs max_len \<longleftrightarrow> \<not> hy_partial_hits hy \<and> hy_groups hy \<noteq> [] \<and>
     distinct (concat (map sg_ids (hy_groups hy))) \<and>
     (\<forall>g \<in> set (hy_groups hy). \<not> sg_eagle g \<and> (\<forall>i \<in> set (sg_ids g). i < length (hy_specs hy)) \<and>
        query_ok (hy_query hy hs g) max_len)"

text \<open>All spec groups can resume after \<open>n\<close> tokens.\<close>

definition common_hit :: "hybrid_coordinator \<Rightarrow> bytes list \<Rightarrow> nat \<Rightarrow> bool" where
  "common_hit hy hs n \<longleftrightarrow> list_all (\<lambda>g. query_hit (hy_query hy hs g) n) (hy_groups hy)"


subsection \<open>Recording a result\<close>

lemma store_hits_frame [simp]:
  "lk_len (store_hits ids bss n st) = lk_len st" "lk_longest (store_hits ids bss n st) = lk_longest st"
  "lk_pools (store_hits ids bss n st) = lk_pools st"
  "length (lk_blocks (store_hits ids bss n st)) = length (lk_blocks st)"
  "length (lk_lens (store_hits ids bss n st)) = length (lk_lens st)"
proof -
  have "lk_len (store_hits ids bss n st) = lk_len st \<and> lk_longest (store_hits ids bss n st) = lk_longest st \<and>
    lk_pools (store_hits ids bss n st) = lk_pools st \<and>
    length (lk_blocks (store_hits ids bss n st)) = length (lk_blocks st) \<and>
    length (lk_lens (store_hits ids bss n st)) = length (lk_lens st)"
  proof (induction ids arbitrary: bss st)
    case (Cons i ids)
    then show ?case by (cases bss) (simp_all add: store_hits_def)
  qed (simp add: store_hits_def)
  then show "lk_len (store_hits ids bss n st) = lk_len st" "lk_longest (store_hits ids bss n st) = lk_longest st"
    "lk_pools (store_hits ids bss n st) = lk_pools st"
    "length (lk_blocks (store_hits ids bss n st)) = length (lk_blocks st)"
    "length (lk_lens (store_hits ids bss n st)) = length (lk_lens st)" by simp_all
qed

lemma store_hits_other:
  assumes "i \<notin> set ids"
  shows "lk_blocks (store_hits ids bss n st) ! i = lk_blocks st ! i \<and> lk_lens (store_hits ids bss n st) ! i = lk_lens st ! i"
  using assms
proof (induction ids arbitrary: bss st)
  case (Cons j ids)
  then show ?case by (cases bss) (simp_all add: store_hits_def)
qed (simp add: store_hits_def)

lemma store_hits_at:
  assumes "distinct ids" "length bss = length ids" "\<forall>i \<in> set ids. i < length (lk_blocks st) \<and> i < length (lk_lens st)"
    and "j < length ids"
  shows "lk_blocks (store_hits ids bss n st) ! (ids ! j) = Some (bss ! j) \<and> lk_lens (store_hits ids bss n st) ! (ids ! j) = n"
  using assms
proof (induction ids arbitrary: bss st j)
  case (Cons i ids)
  obtain b bs where bss: "bss = b # bs" using Cons.prems(2) by (cases bss) auto
  define st1 where "st1 = st\<lparr>lk_blocks := (lk_blocks st)[i := Some b], lk_lens := (lk_lens st)[i := n]\<rparr>"
  have step: "store_hits (i # ids) bss n st = store_hits ids bs n st1" by (simp add: store_hits_def bss st1_def)
  show ?case
  proof (cases j)
    case 0
    then show ?thesis unfolding step using store_hits_other[of i ids bs n st1] Cons.prems(1,3) by (simp add: st1_def bss)
  next
    case (Suc k)
    then show ?thesis unfolding step using Cons.IH[of bs st1 k] Cons.prems by (simp add: st1_def bss)
  qed
qed simp


subsection \<open>One group\<close>

definition recorded :: "hybrid_coordinator \<Rightarrow> bytes list \<Rightarrow> lookup_state \<Rightarrow> spec_group \<Rightarrow> nat \<Rightarrow> bool" where
  "recorded hy hs st g n \<longleftrightarrow> (\<exists>cs. query_rows (hy_query hy hs g) n cs \<and>
     (\<forall>j < length (sg_ids g). lk_blocks st ! (sg_ids g ! j) = Some (cs ! j) \<and> lk_lens st ! (sg_ids g ! j) = n))"

definition unseen :: "lookup_state \<Rightarrow> spec_group \<Rightarrow> bool" where
  "unseen st g \<longleftrightarrow> (\<forall>i \<in> set (sg_ids g). lk_blocks st ! i = None)"

text \<open>What the search knows of a state: a group not looked at yet has no blocks; of another one the blocks
  are those its lookup found for some limit that is not below the current length.\<close>

definition look_inv :: "hybrid_coordinator \<Rightarrow> bytes list \<Rightarrow> nat \<Rightarrow> lookup_state \<Rightarrow> bool" where
  "look_inv hy hs max_len st \<longleftrightarrow> lk_pools st = hy_pools hy \<and> length (lk_blocks st) = length (hy_specs hy) \<and>
     length (lk_lens st) = length (hy_specs hy) \<and> lk_len st \<le> max_len \<and>
     (\<forall>g \<in> set (hy_groups hy). unseen st g \<or>
        hy_scheduler_block_size hy dvd lk_len st \<and>
        (\<exists>m. lk_len st \<le> m \<and> m \<le> max_len \<and> recorded hy hs st g (query_find (hy_query hy hs g) m)))"

lemma full_find_min:
  assumes ok: "query_ok q m" and full: "is_full_attention (hq_spec q)" and n: "n \<le> m" "hq_align q dvd n"
  shows "query_find q n = min n (query_find q m)"
proof -
  have okn: "query_ok q n" using query_ok_less[OF ok n(1)] .
  note f = spec_finder.found[OF ok] and d = spec_finder.deepest[OF ok]
  show ?thesis
  proof (rule spec_finder.find_unique[OF okn])
    show "query_hit q (min n (query_find q m))"
    proof (cases "n \<le> query_find q m")
      case True
      then show ?thesis using full_closed[OF full conjunct1[OF f] n(2) True] by (simp add: min_def)
    qed (use f in \<open>simp add: min_def\<close>)
    show "n' \<le> min n (query_find q m)" if "query_hit q n'" "n' \<le> n" for n' using d[OF that(1)] that(2) n(1) by simp
  qed simp
qed

lemma recorded_cong:
  assumes "\<And>i. i \<in> set (sg_ids g) \<Longrightarrow> lk_blocks st' ! i = lk_blocks st ! i \<and> lk_lens st' ! i = lk_lens st ! i"
  shows "recorded hy hs st' g n = recorded hy hs st g n" "unseen st' g = unseen st g"
  using assms by (simp_all add: recorded_def unseen_def)

lemma groups_disjoint:
  assumes "distinct (concat (map sg_ids gs))" "g \<in> set gs" "g' \<in> set gs" "g \<noteq> g'"
  shows "set (sg_ids g) \<inter> set (sg_ids g') = {}"
  using assms by (induction gs) auto

text \<open>One step: the length becomes what the group's lookup finds, its result is recorded (a full-attention
  group keeps the blocks it has), and no other group's record changes.\<close>

definition looked :: "hybrid_coordinator \<Rightarrow> bytes list \<Rightarrow> lookup_state \<Rightarrow> spec_group \<Rightarrow> lookup_state \<Rightarrow> bool" where
  "looked hy hs st g st' \<longleftrightarrow> lk_len st' = query_find (hy_query hy hs g) (lk_len st) \<and> lk_longest st \<le> lk_longest st' \<and>
     (\<exists>n. recorded hy hs st' g n \<and> lk_len st' \<le> n \<and> (\<not> is_full_attention (sg_spec g) \<longrightarrow> n = lk_len st') \<and>
        (unseen st g \<longrightarrow> n = lk_len st' \<and> lk_len st' \<le> lk_longest st')) \<and>
     (\<forall>i. i \<notin> set (sg_ids g) \<longrightarrow> lk_blocks st' ! i = lk_blocks st ! i \<and> lk_lens st' ! i = lk_lens st ! i)"

lemma look_group_ok:
  assumes rdy: "hybrid_ready hy hs max_len" and g: "g \<in> set (hy_groups hy)" and inv: "look_inv hy hs max_len st"
  shows "\<exists>st'. look_group hy hs max_len oh (idx, g) st = Inr st' \<and> look_inv hy hs max_len st' \<and> looked hy hs st g st'"
proof -
  let ?q = "hy_query hy hs g" and ?A = "hy_scheduler_block_size hy"
  have ok: "query_ok ?q max_len" and gi: "\<forall>i \<in> set (sg_ids g). i < length (hy_specs hy)" "\<not> sg_eagle g"
    and al: "hit_alignment hy = ?A" using rdy g by (auto simp: hybrid_ready_def hit_alignment_def)
  have st: "lk_pools st = hy_pools hy" "length (lk_blocks st) = length (hy_specs hy)"
    "length (lk_lens st) = length (hy_specs hy)" "lk_len st \<le> max_len" using inv by (auto simp: look_inv_def)
  have okl: "query_ok ?q (lk_len st)" using query_ok_less[OF ok st(4)] .
  note f = spec_finder.found[OF okl]
  have ids: "sg_ids g \<noteq> []" "distinct (sg_ids g)"
    using ok rdy g by (auto simp: query_ok_def hybrid_ready_def distinct_concat_iff)
  then have first: "hd (sg_ids g) \<in> set (sg_ids g)" "sg_ids g ! 0 = hd (sg_ids g)" by (simp_all add: hd_conv_nth)
  have dvd: "?A dvd query_find ?q (lk_len st)" using f by (simp add: query_hit_def)
  have others: "unseen st' h \<or> ?A dvd lk_len st' \<and>
      (\<exists>m. lk_len st' \<le> m \<and> m \<le> max_len \<and> recorded hy hs st' h (query_find (hy_query hy hs h) m))"
    if h: "h \<in> set (hy_groups hy)" "h \<noteq> g" and new: "lk_len st' = query_find ?q (lk_len st)"
      "\<forall>i. i \<notin> set (sg_ids g) \<longrightarrow> lk_blocks st' ! i = lk_blocks st ! i \<and> lk_lens st' ! i = lk_lens st ! i" for st' h
  proof -
    have "set (sg_ids h) \<inter> set (sg_ids g) = {}"
      using groups_disjoint[of "hy_groups hy" h g] rdy h g by (auto simp: hybrid_ready_def)
    then have same: "\<And>i. i \<in> set (sg_ids h) \<Longrightarrow> lk_blocks st' ! i = lk_blocks st ! i \<and> lk_lens st' ! i = lk_lens st ! i"
      using new(2) by blast
    have "unseen st h \<or> (\<exists>m. lk_len st \<le> m \<and> m \<le> max_len \<and> recorded hy hs st h (query_find (hy_query hy hs h) m))"
      using inv h(1) by (auto simp: look_inv_def)
    then show ?thesis
      using dvd f new(1) recorded_cong[where st' = st' and st = st and g = h, OF same] by (metis (no_types, lifting) le_trans)
  qed
  show ?thesis
  proof (cases "is_full_attention (sg_spec g) \<and> lk_blocks st ! hd (sg_ids g) \<noteq> None")
    case True
    then have "\<not> unseen st g" using first(1) by (auto simp: unseen_def)
    then obtain m where m: "?A dvd lk_len st" "lk_len st \<le> m" "m \<le> max_len" "recorded hy hs st g (query_find ?q m)"
      using inv g by (auto simp: look_inv_def)
    have okm: "query_ok ?q m" using query_ok_less[OF ok m(3)] .
    have len: "lk_lens st ! hd (sg_ids g) = query_find ?q m"
      using m(4) ids(1) first(2) by (auto simp: recorded_def)
    define st' where "st' = st\<lparr>lk_len := min (lk_len st) (lk_lens st ! hd (sg_ids g))\<rparr>"
    have l: "lk_len st' = query_find ?q (lk_len st)" "lk_len st' = min (lk_len st) (query_find ?q m)"
      using full_find_min[OF okm _ m(2)] m(1) True len by (simp_all add: st'_def)
    have same: "lk_blocks st' ! i = lk_blocks st ! i \<and> lk_lens st' ! i = lk_lens st ! i" for i by (simp add: st'_def)
    have rec: "recorded hy hs st' g (query_find ?q m)" using m(4) recorded_cong(1)[OF same] by blast
    have lm: "lk_len st' \<le> m" using l(2) m(2) by simp
    have own: "unseen st' g \<or> ?A dvd lk_len st' \<and>
      (\<exists>m. lk_len st' \<le> m \<and> m \<le> max_len \<and> recorded hy hs st' g (query_find ?q m))"
      using rec lm m(3) dvd l(1) by metis
    have "\<forall>h \<in> set (hy_groups hy). unseen st' h \<or> ?A dvd lk_len st' \<and>
      (\<exists>m. lk_len st' \<le> m \<and> m \<le> max_len \<and> recorded hy hs st' h (query_find (hy_query hy hs h) m))"
      using others[OF _ _ l(1)] own same by metis
    then have inv': "look_inv hy hs max_len st'" using st l(1) f unfolding look_inv_def by (simp add: st'_def)
    have "looked hy hs st g st'"
      unfolding looked_def using l rec same True \<open>\<not> unseen st g\<close> by (auto simp: st'_def)
    moreover have "look_group hy hs max_len oh (idx, g) st = Inr st'"
      using True by (simp add: look_group_def st'_def)
    ultimately show ?thesis using inv' by blast
  next
    case False
    let ?n = "query_find ?q (lk_len st)"
    obtain cs where run: "spec_longest_hit (sg_spec g) (RawHashes hs) (lk_len st) (map int (sg_ids g)) False ?A oh
        (lk_pools st ! (hy_group_pool hy ! hd (sg_ids g))) = Inr (cs, ?n, lk_pools st ! (hy_group_pool hy ! hd (sg_ids g)))"
      and rows: "query_rows ?q ?n cs"
      using query_lookup[OF okl, of oh] st(1) by auto
    define st1 where "st1 = st\<lparr>lk_len := ?n, lk_longest := max (lk_longest st) ?n,
      lk_verified := (if ?n < lk_len st then {} else lk_verified st)\<rparr>"
    define st' where "st' = store_hits (sg_ids g) cs ?n st1"
    have len: "length cs = length (sg_ids g)" using rows by (simp add: query_rows_def rows_def)
    have bnd: "\<forall>i \<in> set (sg_ids g). i < length (lk_blocks st1) \<and> i < length (lk_lens st1)"
      using gi(1) st by (simp add: st1_def)
    have at: "lk_blocks st' ! (sg_ids g ! j) = Some (cs ! j) \<and> lk_lens st' ! (sg_ids g ! j) = ?n" if "j < length (sg_ids g)" for j
      unfolding st'_def using store_hits_at[OF ids(2) len bnd that] .
    have fields: "lk_len st' = ?n" "lk_pools st' = hy_pools hy" "length (lk_blocks st') = length (hy_specs hy)"
      "length (lk_lens st') = length (hy_specs hy)" "lk_longest st' = max (lk_longest st) ?n"
      using st by (simp_all add: st'_def st1_def)
    have same: "\<forall>i. i \<notin> set (sg_ids g) \<longrightarrow> lk_blocks st' ! i = lk_blocks st ! i \<and> lk_lens st' ! i = lk_lens st ! i"
      using store_hits_other[of _ "sg_ids g" cs ?n st1] by (simp add: st'_def st1_def)
    have rec: "recorded hy hs st' g ?n" using rows at by (auto simp: recorded_def)
    have own: "unseen st' g \<or> ?A dvd lk_len st' \<and>
      (\<exists>m. lk_len st' \<le> m \<and> m \<le> max_len \<and> recorded hy hs st' g (query_find ?q m))"
      using rec fields(1) f st(4) dvd by metis
    have "\<forall>h \<in> set (hy_groups hy). unseen st' h \<or> ?A dvd lk_len st' \<and>
      (\<exists>m. lk_len st' \<le> m \<and> m \<le> max_len \<and> recorded hy hs st' h (query_find (hy_query hy hs h) m))"
      using others[OF _ _ fields(1) same] own by metis
    then have inv': "look_inv hy hs max_len st'" using fields st(4) f unfolding look_inv_def by simp
    have "looked hy hs st g st'" unfolding looked_def using fields rec same by auto
    moreover have "look_group hy hs max_len oh (idx, g) st = Inr st'"
      using False run gi(2) al by (auto simp: look_group_def Let_def st'_def st1_def)
    ultimately show ?thesis using inv' by blast
  qed
qed


subsection \<open>A round\<close>

definition round_done :: "hybrid_coordinator \<Rightarrow> bytes list \<Rightarrow> lookup_state \<Rightarrow> spec_group list \<Rightarrow> lookup_state \<Rightarrow> bool" where
  "round_done hy hs st gs st' \<longleftrightarrow> lk_len st' = spec_finder.turns (map (hy_query hy hs) gs) (lk_len st) \<and>
     lk_longest st \<le> lk_longest st' \<and>
     (\<forall>g \<in> set gs. \<exists>n. recorded hy hs st' g n \<and> lk_len st' \<le> n \<and> (\<not> is_full_attention (sg_spec g) \<longrightarrow> n \<le> lk_len st)) \<and>
     (gs \<noteq> [] \<and> \<not> is_full_attention (sg_spec (last gs)) \<longrightarrow> recorded hy hs st' (last gs) (lk_len st')) \<and>
     (gs \<noteq> [] \<and> (\<forall>g \<in> set gs. unseen st g) \<longrightarrow> lk_len st' \<le> lk_longest st') \<and>
     (\<forall>i. (\<forall>g \<in> set gs. i \<notin> set (sg_ids g)) \<longrightarrow> lk_blocks st' ! i = lk_blocks st ! i \<and> lk_lens st' ! i = lk_lens st ! i)"

lemma turns_bound:
  assumes "hybrid_ready hy hs max_len" "set gs \<subseteq> set (hy_groups hy)" "m \<le> max_len"
  shows "spec_finder.turns (map (hy_query hy hs) gs) m \<le> m"
proof (rule spec_finder.turns_le)
  show "list_all (\<lambda>c. query_ok c m) (map (hy_query hy hs) gs)"
    using assms query_ok_less[OF _ assms(3)] by (auto simp: list_all_iff hybrid_ready_def)
qed

lemma round_cons:
  assumes rdy: "hybrid_ready hy hs max_len" and gs: "set (g # gs) \<subseteq> set (hy_groups hy)"
    and dis: "distinct (concat (map sg_ids (g # gs)))"
    and one: "looked hy hs st g st1" and inv: "look_inv hy hs max_len st" "look_inv hy hs max_len st1"
    and rest: "round_done hy hs st1 gs st'"
  shows "round_done hy hs st (g # gs) st'"
proof -
  have le1: "lk_len st1 \<le> lk_len st"
    using one turns_bound[OF rdy, of "[g]" "lk_len st"] gs inv(1) by (simp add: looked_def look_inv_def)
  have le2: "lk_len st' \<le> lk_len st1"
    using rest turns_bound[OF rdy, of gs "lk_len st1"] gs inv(2) by (simp add: round_done_def look_inv_def)
  have keep: "lk_blocks st' ! i = lk_blocks st1 ! i \<and> lk_lens st' ! i = lk_lens st1 ! i" if "i \<in> set (sg_ids g)" for i
  proof -
    have "\<forall>h \<in> set gs. i \<notin> set (sg_ids h)" using dis that by auto
    then show ?thesis using rest unfolding round_done_def by blast
  qed
  have skip: "lk_blocks st1 ! i = lk_blocks st ! i \<and> lk_lens st1 ! i = lk_lens st ! i"
    if "h \<in> set gs" "i \<in> set (sg_ids h)" for h i
  proof -
    have "i \<notin> set (sg_ids g)" using dis that by auto
    then show ?thesis using one unfolding looked_def by blast
  qed
  obtain n where n: "recorded hy hs st1 g n" "lk_len st1 \<le> n" "\<not> is_full_attention (sg_spec g) \<longrightarrow> n = lk_len st1"
    "unseen st g \<longrightarrow> n = lk_len st1 \<and> lk_len st1 \<le> lk_longest st1" using one unfolding looked_def by blast
  have own: "recorded hy hs st' g n" using n(1) recorded_cong(1)[OF keep] by blast
  have "\<forall>h \<in> set (g # gs). \<exists>n. recorded hy hs st' h n \<and> lk_len st' \<le> n \<and> (\<not> is_full_attention (sg_spec h) \<longrightarrow> n \<le> lk_len st)"
  proof
    fix h assume "h \<in> set (g # gs)"
    then consider "h = g" | "h \<in> set gs" by auto
    then show "\<exists>n. recorded hy hs st' h n \<and> lk_len st' \<le> n \<and> (\<not> is_full_attention (sg_spec h) \<longrightarrow> n \<le> lk_len st)"
    proof cases
      case 1
      then show ?thesis using own n(2,3) le1 le2 by (intro exI[of _ n]) auto
    next
      case 2
      then show ?thesis using rest le1 unfolding round_done_def by (meson le_trans)
    qed
  qed
  moreover have "recorded hy hs st' (last (g # gs)) (lk_len st')" if "\<not> is_full_attention (sg_spec (last (g # gs)))"
  proof (cases "gs = []")
    case True
    then have "st' = st1 \<or> lk_len st' = lk_len st1" using rest by (simp add: round_done_def)
    then show ?thesis using own n(3) that True by auto
  next
    case False
    then show ?thesis using rest that unfolding round_done_def by (metis last_ConsR)
  qed
  moreover have "lk_len st' \<le> lk_longest st'" if "\<forall>h \<in> set (g # gs). unseen st h"
  proof (cases "gs = []")
    case True
    have "lk_longest st1 \<le> lk_longest st'" using rest by (simp add: round_done_def)
    moreover have "unseen st g" using that by simp
    ultimately show ?thesis using n(4) le2 by linarith
  next
    case False
    have "\<forall>h \<in> set gs. unseen st1 h" using that skip recorded_cong(2)[of _ st1 st] by auto
    then show ?thesis using rest False by (simp add: round_done_def)
  qed
  moreover have "lk_longest st \<le> lk_longest st'" using one rest by (simp add: looked_def round_done_def)
  moreover have "lk_len st' = spec_finder.turns (map (hy_query hy hs) (g # gs)) (lk_len st)"
    using one rest by (simp add: looked_def round_done_def)
  moreover have "lk_blocks st' ! i = lk_blocks st ! i \<and> lk_lens st' ! i = lk_lens st ! i"
    if "\<forall>h \<in> set (g # gs). i \<notin> set (sg_ids h)" for i
    using one rest that by (auto simp: looked_def round_done_def)
  ultimately show ?thesis unfolding round_done_def by blast
qed

lemma look_list_ok:
  assumes rdy: "hybrid_ready hy hs max_len" and gs: "set gs \<subseteq> set (hy_groups hy)"
    and dis: "distinct (concat (map sg_ids gs))" and inv: "look_inv hy hs max_len st"
  shows "\<exists>st'. rfold (look_group hy hs max_len oh) (enumerate k gs) st = Inr st' \<and> look_inv hy hs max_len st' \<and>
    round_done hy hs st gs st'"
  using gs dis inv
proof (induction gs arbitrary: k st)
  case Nil
  then show ?case by (auto simp: round_done_def)
next
  case (Cons g gs)
  obtain st1 where st1: "look_group hy hs max_len oh (k, g) st = Inr st1" "look_inv hy hs max_len st1" "looked hy hs st g st1"
    using look_group_ok[OF rdy _ Cons.prems(3)] Cons.prems(1) by (metis list.set_intros(1) subsetD)
  obtain st' where st': "rfold (look_group hy hs max_len oh) (enumerate (Suc k) gs) st1 = Inr st'" "look_inv hy hs max_len st'"
    "round_done hy hs st1 gs st'"
    using Cons.IH[OF _ _ st1(2), of "Suc k"] Cons.prems(1,2) by fastforce
  have "round_done hy hs st (g # gs) st'" using round_cons[OF rdy Cons.prems(1,2) st1(3) Cons.prems(3) st1(2) st'(3)] .
  then show ?case using st1(1) st'(1,2) by simp
qed

lemma look_round_ok:
  assumes "hybrid_ready hy hs max_len" "look_inv hy hs max_len st"
  shows "\<exists>st'. look_round hy hs max_len oh st = Inr st' \<and> look_inv hy hs max_len st' \<and>
    round_done hy hs st (hy_groups hy) st'"
  unfolding look_round_def using look_list_ok[OF assms(1) order_refl _ assms(2)] assms(1) by (simp add: hybrid_ready_def)


subsection \<open>The loop\<close>

text \<open>The end of the search at length \<open>n\<close>: all groups hit there, and their blocks reach at least that far.\<close>

definition search_done :: "hybrid_coordinator \<Rightarrow> bytes list \<Rightarrow> nat \<Rightarrow> lookup_state \<Rightarrow> bool" where
  "search_done hy hs n st \<longleftrightarrow> common_hit hy hs n \<and> lk_pools st = hy_pools hy \<and>
     length (lk_blocks st) = length (hy_specs hy) \<and> n \<le> lk_longest st \<and>
     (\<forall>g \<in> set (hy_groups hy). \<exists>k. recorded hy hs st g k \<and> n \<le> k \<and> (\<not> is_full_attention (sg_spec g) \<longrightarrow> k = n))"

lemma round_fixed:
  assumes rdy: "hybrid_ready hy hs max_len" and rd: "round_done hy hs st (hy_groups hy) st'"
    and inv: "look_inv hy hs max_len st" "look_inv hy hs max_len st'" and eq: "lk_len st \<le> lk_len st'"
    and longest: "lk_len st' \<le> lk_longest st'"
  shows "search_done hy hs (lk_len st) st'"
proof -
  have m: "lk_len st \<le> max_len" using inv(1) by (simp add: look_inv_def)
  have ok: "list_all (\<lambda>c. query_ok c (lk_len st)) (map (hy_query hy hs) (hy_groups hy))"
    using rdy query_ok_less[OF _ m] by (auto simp: list_all_iff hybrid_ready_def)
  have "lk_len st' = lk_len st"
    using rd turns_bound[OF rdy order_refl m] eq by (simp add: round_done_def)
  moreover from this have "common_hit hy hs (lk_len st)"
    using spec_finder.turns_fixed[OF ok] rd by (simp add: round_done_def common_hit_def list.pred_map comp_def)
  moreover have "\<forall>g \<in> set (hy_groups hy). \<exists>k. recorded hy hs st' g k \<and> lk_len st \<le> k \<and>
      (\<not> is_full_attention (sg_spec g) \<longrightarrow> k = lk_len st)"
    using rd \<open>lk_len st' = lk_len st\<close> unfolding round_done_def by (metis order_antisym)
  ultimately show ?thesis using inv(2) longest by (simp add: search_done_def look_inv_def)
qed

text \<open>One full-attention group and another one: a single round is enough, since full attention hits at every
  shorter length too.\<close>

lemma round_simple:
  assumes rdy: "hybrid_ready hy hs max_len" and rd: "round_done hy hs st (hy_groups hy) st'"
    and inv: "look_inv hy hs max_len st" "look_inv hy hs max_len st'" and simple: "simple_hybrid hy"
    and fresh: "\<forall>g \<in> set (hy_groups hy). unseen st g"
  shows "search_done hy hs (lk_len st') st'"
proof -
  obtain g h where gh: "hy_groups hy = [g, h]" "is_full_attention (sg_spec g)"
    using simple by (auto simp: simple_hybrid_def length_Suc_conv numeral_2_eq_2)
  let ?q = "hy_query hy hs g" and ?r = "hy_query hy hs h"
  have m: "lk_len st \<le> max_len" using inv(1) by (simp add: look_inv_def)
  have okq: "query_ok ?q (lk_len st)" using rdy query_ok_less[OF _ m] gh(1) by (simp add: hybrid_ready_def)
  define n where "n = query_find ?q (lk_len st)"
  have okr: "query_ok ?r n"
    using rdy query_ok_less[of ?r max_len n] gh(1) m spec_finder.found[OF okq] by (simp add: hybrid_ready_def n_def)
  have len: "lk_len st' = query_find ?r n" using rd gh(1) by (simp add: round_done_def n_def)
  have hit: "query_hit ?r (lk_len st')" "lk_len st' \<le> n" using spec_finder.found[OF okr] len by simp_all
  have "query_hit ?q (lk_len st')"
    using full_closed[of ?q n "lk_len st'"] gh(2) spec_finder.found[OF okq] hit by (simp add: n_def query_hit_def)
  then have "common_hit hy hs (lk_len st')" using gh(1) hit(1) by (simp add: common_hit_def)
  moreover have "\<forall>x \<in> set (hy_groups hy). \<exists>k. recorded hy hs st' x k \<and> lk_len st' \<le> k \<and>
      (\<not> is_full_attention (sg_spec x) \<longrightarrow> k = lk_len st')"
    using rd gh unfolding round_done_def by auto
  moreover have "lk_len st' \<le> lk_longest st'" using rd fresh gh(1) by (auto simp: round_done_def)
  ultimately show ?thesis using inv(2) by (simp add: search_done_def look_inv_def)
qed

lemma hybrid_loop_ok:
  assumes rdy: "hybrid_ready hy hs max_len" and inv: "look_inv hy hs max_len (st\<lparr>lk_len := hit\<rparr>)"
    and start: "(\<forall>g \<in> set (hy_groups hy). unseen st g) \<or> hit \<le> lk_longest st \<and> \<not> simple_hybrid hy"
    and above: "\<forall>n. common_hit hy hs n \<longrightarrow> n \<le> max_len \<longrightarrow> n \<le> hit"
  shows "\<exists>n st'. hybrid_loop hy hs max_len oh hit st = Inr (n, st') \<and> n \<le> hit \<and> search_done hy hs n st' \<and>
    (\<forall>n'. common_hit hy hs n' \<longrightarrow> n' \<le> max_len \<longrightarrow> n' \<le> n)"
  using inv start above
proof (induction hit arbitrary: st rule: less_induct)
  case (less hit)
  let ?st = "st\<lparr>lk_len := hit\<rparr>"
  have hm: "hit \<le> max_len" using less.prems(1) by (simp add: look_inv_def)
  obtain st1 where st1: "look_round hy hs max_len oh ?st = Inr st1" "look_inv hy hs max_len st1"
    "round_done hy hs ?st (hy_groups hy) st1"
    using look_round_ok[OF rdy less.prems(1)] by blast
  have ne: "hy_groups hy \<noteq> []" using rdy by (simp add: hybrid_ready_def)
  have unseen_st: "unseen ?st g = unseen st g" for g by (simp add: unseen_def)
  have turn: "lk_len st1 = spec_finder.turns (map (hy_query hy hs) (hy_groups hy)) hit" using st1(3) by (simp add: round_done_def)
  then have le: "lk_len st1 \<le> hit" using turns_bound[OF rdy order_refl hm] by simp
  have longest: "lk_len st1 \<le> lk_longest st1"
    using less.prems(2)
  proof
    assume "\<forall>g \<in> set (hy_groups hy). unseen st g"
    then show ?thesis using st1(3) ne by (simp add: round_done_def unseen_st)
  next
    assume "hit \<le> lk_longest st \<and> \<not> simple_hybrid hy"
    then show ?thesis using st1(3) le by (simp add: round_done_def)
  qed
  have deeper: "n \<le> lk_len st1" if n: "common_hit hy hs n" "n \<le> max_len" for n
  proof -
    have "list_all (\<lambda>c. query_ok c hit) (map (hy_query hy hs) (hy_groups hy))"
      using rdy query_ok_less[OF _ hm] by (auto simp: list_all_iff hybrid_ready_def)
    moreover have "list_all (\<lambda>c. query_hit c n) (map (hy_query hy hs) (hy_groups hy))"
      using n(1) by (simp add: common_hit_def list.pred_map comp_def)
    ultimately show ?thesis unfolding turn using spec_finder.common_le_turns less.prems(3) n by blast
  qed
  show ?case
  proof (cases "hit \<le> lk_len st1")
    case True
    then have "search_done hy hs hit st1" using round_fixed[OF rdy st1(3) less.prems(1) st1(2) _ longest] by simp
    then show ?thesis using True st1(1) less.prems(3) by (simp add: hybrid_loop.simps)
  next
    case False
    show ?thesis
    proof (cases "simple_hybrid hy")
      case True
      then have "\<forall>g \<in> set (hy_groups hy). unseen ?st g" using less.prems(2) by (simp add: unseen_st)
      then have "search_done hy hs (lk_len st1) st1" using round_simple[OF rdy st1(3) less.prems(1) st1(2) True] by blast
      then show ?thesis using False True st1(1) le deeper by (simp add: hybrid_loop.simps)
    next
      case no: False
      have eq: "st1\<lparr>lk_len := lk_len st1\<rparr> = st1" by simp
      have "\<exists>n st'. hybrid_loop hy hs max_len oh (lk_len st1) st1 = Inr (n, st') \<and> n \<le> lk_len st1 \<and>
          search_done hy hs n st' \<and> (\<forall>n'. common_hit hy hs n' \<longrightarrow> n' \<le> max_len \<longrightarrow> n' \<le> n)"
        using less.IH[of "lk_len st1" st1] False st1(2) longest no deeper by (simp add: eq)
      then show ?thesis
        using False no st1(1) le by (subst hybrid_loop.simps) auto
    qed
  qed
qed

end
