(* ===== verification/Hybrid_Properties.thy ===== *)
theory Hybrid_Properties
  imports Hybrid_Search Sample_States
begin

text \<open>
  The properties of the hybrid coordinator: from a coordinator as \<open>hybrid_init\<close> builds it, the search
  returns, and it returns the deepest prefix that all groups can resume.
\<close>

subsection \<open>The groups of the coordinator\<close>

lemma add_to_group_ids:
  "set (concat (map sg_ids (add_to_group s i e gs))) = insert i (set (concat (map sg_ids gs)))"
  "distinct (concat (map sg_ids gs)) \<Longrightarrow> i \<notin> set (concat (map sg_ids gs)) \<Longrightarrow>
     distinct (concat (map sg_ids (add_to_group s i e gs)))"
proof -
  show a: "set (concat (map sg_ids (add_to_group s i e gs))) = insert i (set (concat (map sg_ids gs)))" for gs
    by (induction gs) auto
  show "distinct (concat (map sg_ids gs)) \<Longrightarrow> i \<notin> set (concat (map sg_ids gs)) \<Longrightarrow>
     distinct (concat (map sg_ids (add_to_group s i e gs)))"
  proof (induction gs)
    case (Cons g gs)
    then show ?case using a[of gs] by auto
  qed simp
qed

definition group_ok :: "layer_spec list \<Rightarrow> spec_group \<Rightarrow> bool" where
  "group_ok specs g \<longleftrightarrow> sg_ids g \<noteq> [] \<and> \<not> sg_eagle g \<and>
     (\<forall>i \<in> set (sg_ids g). i < length specs \<and> specs ! i = sg_spec g \<and> layer_prefix_cacheable (sg_spec g))"

lemma add_to_group_ok:
  assumes "\<forall>g \<in> set gs. group_ok specs g" "i < length specs" "specs ! i = s" "layer_prefix_cacheable s"
  shows "\<forall>g \<in> set (add_to_group s i False gs). group_ok specs g"
  using assms(1)
proof (induction gs)
  case Nil
  then show ?case using assms(2-4) by (simp add: group_ok_def)
next
  case (Cons g gs)
  show ?case
  proof (cases "sg_spec g = s")
    case True
    have "group_ok specs (g\<lparr>sg_ids := sg_ids g @ [i], sg_eagle := sg_eagle g \<or> False\<rparr>)"
      using Cons.prems assms(2-4) True unfolding group_ok_def by simp
    then show ?thesis using Cons.prems True by simp
  qed (use Cons in simp)
qed

lemma group_ok_append: "group_ok specs g \<Longrightarrow> group_ok (specs @ [s]) g"
  unfolding group_ok_def by (metis length_append_singleton less_SucI nth_append)

definition step_group :: "nat list \<Rightarrow> nat \<times> layer_spec \<Rightarrow> spec_group list \<Rightarrow> spec_group list" where
  "step_group eagle_ids = (\<lambda>(i, s) gs.
     if layer_prefix_cacheable s then add_to_group s i (i \<in> set eagle_ids) gs else gs)"

lemma split_fold:
  "(\<forall>g \<in> set (fold (step_group []) (enumerate 0 specs) []). group_ok specs g) \<and>
   distinct (concat (map sg_ids (fold (step_group []) (enumerate 0 specs) []))) \<and>
   set (concat (map sg_ids (fold (step_group []) (enumerate 0 specs) []))) =
     {i. i < length specs \<and> layer_prefix_cacheable (specs ! i)}"
proof (induction specs rule: rev_induct)
  case (snoc s specs)
  let ?gs = "fold (step_group []) (enumerate 0 specs) []"
  have e: "enumerate 0 (specs @ [s]) = enumerate 0 specs @ [(length specs, s)]" by (simp add: enumerate_append_eq)
  have up: "\<forall>g \<in> set ?gs. group_ok (specs @ [s]) g" using snoc group_ok_append by blast
  have new: "length specs \<notin> set (concat (map sg_ids ?gs))" using snoc by auto
  show ?case
  proof (cases "layer_prefix_cacheable s")
    case True
    then have "fold (step_group []) (enumerate 0 (specs @ [s])) [] = add_to_group s (length specs) False ?gs"
      unfolding e by (simp add: step_group_def)
    moreover have "{i. i < length (specs @ [s]) \<and> layer_prefix_cacheable ((specs @ [s]) ! i)} =
        insert (length specs) {i. i < length specs \<and> layer_prefix_cacheable (specs ! i)}"
      using True by (auto simp: nth_append less_Suc_eq)
    ultimately show ?thesis
      using add_to_group_ok[OF up, where i = "length specs" and s = s] add_to_group_ids[where s = s and i = "length specs" and e = False and gs = ?gs] new snoc True by simp
  next
    case False
    then have "fold (step_group []) (enumerate 0 (specs @ [s])) [] = ?gs" unfolding e by (simp add: step_group_def)
    moreover have "{i. i < length (specs @ [s]) \<and> layer_prefix_cacheable ((specs @ [s]) ! i)} =
        {i. i < length specs \<and> layer_prefix_cacheable (specs ! i)}"
      using False by (auto simp: nth_append less_Suc_eq)
    ultimately show ?thesis using up snoc by simp
  qed
qed simp

lemma mset_concat_map: "mset (concat (map f xs)) = (\<Sum>x \<in># mset xs. mset (f x))"
  by (induction xs) simp_all

lemma split_groups_ok:
  "\<forall>g \<in> set (split_groups specs []). group_ok specs g"
  "distinct (concat (map sg_ids (split_groups specs [])))"
  "set (concat (map sg_ids (split_groups specs []))) = {i. i < length specs \<and> layer_prefix_cacheable (specs ! i)}"
proof -
  let ?gs = "fold (step_group []) (enumerate 0 specs) []"
  let ?P = "\<lambda>g. is_full_attention (sg_spec g)"
  have s: "split_groups specs [] = filter ?P ?gs @ filter (\<lambda>g. \<not> ?P g) ?gs"
    by (simp add: split_groups_def step_group_def[abs_def] Let_def)
  have m: "mset (split_groups specs []) = mset ?gs" unfolding s by simp
  then have c: "mset (concat (map sg_ids (split_groups specs []))) = mset (concat (map sg_ids ?gs))"
    by (simp only: mset_concat_map)
  show "\<forall>g \<in> set (split_groups specs []). group_ok specs g" using split_fold mset_eq_setD[OF m] by simp
  show "distinct (concat (map sg_ids (split_groups specs [])))" using split_fold mset_eq_imp_distinct_iff[OF c] by blast
  show "set (concat (map sg_ids (split_groups specs []))) = {i. i < length specs \<and> layer_prefix_cacheable (specs ! i)}"
    using split_fold[of specs] mset_eq_setD[OF c] by simp
qed

text \<open>What the constructor is given: pools in their invariant with the hash block size, group ids of 32 bits,
  specifications whose managers search, and enough hashes for the length limit.\<close>

definition hybrid_config ::
  "layer_spec list \<Rightarrow> block_pool list \<Rightarrow> nat list \<Rightarrow> nat \<Rightarrow> nat \<Rightarrow> bytes list \<Rightarrow> nat \<Rightarrow> bool" where
  "hybrid_config specs pools group_pool scheduler_bs hash_bs hs max_len \<longleftrightarrow>
     \<not> partial_hash_hits specs hash_bs \<and> 0 < hash_bs \<and> 0 < scheduler_bs \<and> length specs \<le> 2 ^ 32 \<and>
     max_len div hash_bs \<le> length hs \<and>
     (\<forall>i < length specs. layer_prefix_cacheable (specs ! i) \<longrightarrow>
        0 < block_size_of (specs ! i) \<and> spec_searchable (specs ! i) scheduler_bs \<and>
        bp_hash_block_size (pools ! (group_pool ! i)) = hash_bs \<and> (\<exists>xs. pool_inv (pools ! (group_pool ! i)) xs))"

lemma init_ready:
  assumes init: "hybrid_init specs flags False pools group_pool scheduler_bs hash_bs = Inr hy"
    and cfg: "hybrid_config specs pools group_pool scheduler_bs hash_bs hs max_len"
  shows "hybrid_ready hy hs max_len" "hy_groups hy = split_groups specs []" "hy_specs hy = specs"
proof -
  have i: "list_all (\<lambda>s. scheduler_bs mod block_size_of s = 0) specs"
    "list_all (\<lambda>s. layer_prefix_cacheable s \<longrightarrow> block_size_of s mod hash_bs = 0) specs" "split_groups specs [] \<noteq> []"
    "hy = \<lparr>hy_specs = specs, hy_pools = pools, hy_group_pool = group_pool, hy_hash_block_size = hash_bs,
       hy_scheduler_block_size = scheduler_bs, hy_partial_hits = partial_hash_hits specs hash_bs,
       hy_tail_replay = (partial_hash_hits specs hash_bs \<and> list_ex is_mamba (coarse_specs specs hash_bs)),
       hy_groups = split_groups specs []\<rparr>"
    using init by (auto simp: hybrid_init_def Let_def eagle_group_ids_def)
  show "hy_groups hy = split_groups specs []" "hy_specs hy = specs" using i(4) by simp_all
  have "query_ok (hy_query hy hs g) max_len" if g: "g \<in> set (split_groups specs [])" for g
  proof -
    have ok: "group_ok specs g" using split_groups_ok(1) g by blast
    let ?i = "hd (sg_ids g)"
    have ii: "?i \<in> set (sg_ids g)" using ok by (simp add: group_ok_def)
    then have h: "?i < length specs" "specs ! ?i = sg_spec g" "layer_prefix_cacheable (sg_spec g)"
      using ok unfolding group_ok_def by blast+
    have n: "\<forall>i \<in> set (sg_ids g). i < 2 ^ 32" using ok cfg unfolding group_ok_def hybrid_config_def by auto
    have mod: "scheduler_bs mod block_size_of (sg_spec g) = 0" "block_size_of (sg_spec g) mod hash_bs = 0"
      using i(1,2) h nth_mem[OF h(1)] by (auto simp: list_all_iff)
    have c: "0 < block_size_of (sg_spec g)" "spec_searchable (sg_spec g) scheduler_bs"
      "bp_hash_block_size (pools ! (group_pool ! ?i)) = hash_bs" "\<exists>xs. pool_inv (pools ! (group_pool ! ?i)) xs"
      using cfg h unfolding hybrid_config_def by metis+
    have "sg_ids g \<noteq> []" using ok by (simp add: group_ok_def)
    then show ?thesis using cfg n mod c unfolding query_ok_def hybrid_config_def by (simp add: i(4))
  qed
  then show "hybrid_ready hy hs max_len"
    using split_groups_ok[of specs] i(3) cfg unfolding hybrid_ready_def hybrid_config_def
    by (auto simp: i(4) group_ok_def)
qed


subsection \<open>The result\<close>

lemma cut_full_blocks:
  assumes "distinct ids"
  shows "length (lk_blocks (fold (\<lambda>i st. case lk_blocks st ! i of None \<Rightarrow> st
      | Some bs \<Rightarrow> st\<lparr>lk_blocks := (lk_blocks st)[i := Some (take k bs)], lk_lens := (lk_lens st)[i := n]\<rparr>) ids st)) =
        length (lk_blocks st) \<and>
    (\<forall>i < length (lk_blocks st). lk_blocks (fold (\<lambda>i st. case lk_blocks st ! i of None \<Rightarrow> st
      | Some bs \<Rightarrow> st\<lparr>lk_blocks := (lk_blocks st)[i := Some (take k bs)], lk_lens := (lk_lens st)[i := n]\<rparr>) ids st) ! i =
        (if i \<in> set ids then map_option (take k) (lk_blocks st ! i) else lk_blocks st ! i))"
  using assms
proof (induction ids arbitrary: st)
  case (Cons j ids)
  show ?case
  proof (cases "lk_blocks st ! j")
    case None
    then show ?thesis using Cons by auto
  next
    case (Some bs)
    let ?st = "st\<lparr>lk_blocks := (lk_blocks st)[j := Some (take k bs)], lk_lens := (lk_lens st)[j := n]\<rparr>"
    have "(lk_blocks st)[j := Some (take k bs)] ! i = (if i = j then Some (take k bs) else lk_blocks st ! i)"
      if "i < length (lk_blocks st)" for i using that by simp
    then show ?thesis using Cons.IH[of ?st] Cons.prems Some by auto
  qed
qed simp

text \<open>The blocks of a group after the search, cut to the final length.\<close>

definition result_ok :: "hybrid_coordinator \<Rightarrow> bytes list \<Rightarrow> nat \<Rightarrow> bref list list \<Rightarrow> spec_group \<Rightarrow> bool" where
  "result_ok hy hs n blocks g \<longleftrightarrow>
     query_rows (hy_query hy hs g) n (map (\<lambda>i. take (n div block_size_of (sg_spec g)) (blocks ! i)) (sg_ids g)) \<and>
     (g = hd (hy_groups hy) \<or> \<not> is_full_attention (sg_spec g) \<longrightarrow>
        (\<forall>i \<in> set (sg_ids g). length (blocks ! i) = n div block_size_of (sg_spec g)))"

lemma recorded_rows:
  assumes rec: "recorded hy hs st g k" and hit: "hy_scheduler_block_size hy dvd n" "n \<le> k"
    and full: "\<not> is_full_attention (sg_spec g) \<longrightarrow> k = n"
  shows "query_rows (hy_query hy hs g) n
      (map (\<lambda>i. take (n div block_size_of (sg_spec g)) (opt_list (lk_blocks st ! i))) (sg_ids g))"
    and "i \<in> set (sg_ids g) \<Longrightarrow> length (opt_list (lk_blocks st ! i)) = k div block_size_of (sg_spec g)"
proof -
  let ?q = "hy_query hy hs g" and ?bs = "block_size_of (sg_spec g)"
  obtain cs where cs: "query_rows ?q k cs" "\<forall>j < length (sg_ids g). lk_blocks st ! (sg_ids g ! j) = Some (cs ! j)"
    using rec by (auto simp: recorded_def)
  have len: "length cs = length (sg_ids g)" "\<forall>j < length cs. length (cs ! j) = k div ?bs"
    using cs(1) by (auto simp: query_rows_def rows_def)
  have e: "map (\<lambda>i. take (n div ?bs) (opt_list (lk_blocks st ! i))) (sg_ids g) = map (take (n div ?bs)) cs"
    using cs(2) len(1) by (auto intro!: nth_equalityI)
  show "query_rows ?q n (map (\<lambda>i. take (n div ?bs) (opt_list (lk_blocks st ! i))) (sg_ids g))"
    unfolding e
  proof (cases "is_full_attention (sg_spec g)")
    case True
    then show "query_rows ?q n (map (take (n div ?bs)) cs)"
      using cs(1) rows_take div_le_mono[OF hit(2), of ?bs] by (simp add: query_rows_def needed_from_def)
  next
    case False
    then have "map (take (n div ?bs)) cs = cs" using full len(2) by (auto intro!: nth_equalityI)
    then show "query_rows ?q n (map (take (n div ?bs)) cs)" using cs(1) full False by simp
  qed
  show "length (opt_list (lk_blocks st ! i)) = k div ?bs" if "i \<in> set (sg_ids g)"
    using that cs(2) len by (auto simp: in_set_conv_nth)
qed

lemma cdiv_whole:
  assumes "0 < b" "b dvd n"
  shows "cdiv_nat n b = n div b"
  using assms cdiv_nat_mult[of b "n div b"] by simp

lemma search_result:
  assumes rdy: "hybrid_ready hy hs max_len" and sd: "search_done hy hs n st" and g: "g \<in> set (hy_groups hy)"
  shows "result_ok hy hs n (map opt_list (lk_blocks (cut_full hy n st))) g"
proof -
  let ?bs = "block_size_of (sg_spec g)" and ?h = "hd (hy_groups hy)"
  have len: "length (lk_blocks st) = length (hy_specs hy)" using sd by (simp add: search_done_def)
  have ids: "\<forall>i \<in> set (sg_ids g). i < length (lk_blocks st)" and ok: "query_ok (hy_query hy hs g) max_len"
    using rdy g len by (auto simp: hybrid_ready_def)
  have hh: "?h \<in> set (hy_groups hy)" using rdy by (simp add: hybrid_ready_def)
  have bs: "0 < ?bs" "?bs dvd n" "hy_scheduler_block_size hy dvd n"
    using ok sd g unfolding query_ok_def search_done_def common_hit_def list_all_iff query_hit_def
    by (auto intro: dvd_trans)
  have dis: "distinct (sg_ids ?h)" using rdy hh by (auto simp: hybrid_ready_def distinct_concat_iff)
  note cut = cut_full_blocks[OF dis, where k = "cdiv_nat n (block_size_of (sg_spec ?h))" and n = n and st = st]
  obtain k where k: "recorded hy hs st g k" "n \<le> k" "\<not> is_full_attention (sg_spec g) \<longrightarrow> k = n"
    using sd g by (auto simp: search_done_def)
  note r = recorded_rows[OF k(1) bs(3) k(2,3)]
  let ?out = "map opt_list (lk_blocks (cut_full hy n st))"
  have out: "?out ! i = (if g = ?h \<and> is_full_attention (sg_spec g) then take (n div ?bs) (opt_list (lk_blocks st ! i))
      else opt_list (lk_blocks st ! i))" if i: "i \<in> set (sg_ids g)" for i
  proof (cases "is_full_attention (sg_spec ?h)")
    case False
    then show ?thesis using i ids by (auto simp: cut_full_def Let_def)
  next
    case True
    have "lk_blocks (cut_full hy n st) ! i = (if i \<in> set (sg_ids ?h)
        then map_option (take (cdiv_nat n (block_size_of (sg_spec ?h)))) (lk_blocks st ! i) else lk_blocks st ! i)"
      "length (lk_blocks (cut_full hy n st)) = length (lk_blocks st)"
      using cut True ids i by (simp_all add: cut_full_def Let_def)
    moreover have "i \<in> set (sg_ids ?h) \<longleftrightarrow> g = ?h"
      using groups_disjoint[of "hy_groups hy" g ?h] rdy g hh i by (auto simp: hybrid_ready_def)
    ultimately show ?thesis
      using True ids i cdiv_whole[OF bs(1,2)] by (cases "lk_blocks st ! i") auto
  qed
  have "map (\<lambda>i. take (n div ?bs) (?out ! i)) (sg_ids g) =
      map (\<lambda>i. take (n div ?bs) (opt_list (lk_blocks st ! i))) (sg_ids g)"
    using out by (auto simp del: length_map nth_map)
  moreover have "length (?out ! i) = n div ?bs"
    if "g = ?h \<or> \<not> is_full_attention (sg_spec g)" "i \<in> set (sg_ids g)" for i
    using out[OF that(2)] r(2)[OF that(2)] that(1) k(2,3) div_le_mono[OF k(2), of ?bs] by auto
  ultimately show ?thesis unfolding result_ok_def using r(1) by metis
qed


subsection \<open>A sample coordinator\<close>

text \<open>Two full-attention specifications and a sliding window of three tokens, over blocks of two tokens.  The
  first block is cached in all three groups, the second one in the two with full attention.\<close>

definition sample_attn :: "int \<Rightarrow> attn_spec" where
  "sample_attn heads = \<lparr>attn_block_size = 2, num_kv_heads = heads, head_size = 8, dtype = Float32,
     kv_quant_mode = QNone, page_size_padded = None, indexes_kv_by_block_stride = False\<rparr>"

definition sample_full :: "int \<Rightarrow> layer_spec" where
  "sample_full heads = layer_spec.FullAttention
     (attn_spec.extend (sample_attn heads)
        \<lparr>head_size_v = 8, full_sliding_window = None, full_chunk_size = None, non_causal = False\<rparr>)"

definition sample_sliding :: layer_spec where
  "sample_sliding = layer_spec.SlidingWindow
     (attn_spec.extend (sample_attn 1) \<lparr>sliding_window = 3, sliding_head_v = 8\<rparr>)"

definition sample_specs :: "layer_spec list" where
  "sample_specs = [sample_full 1, sample_full 2, sample_sliding]"

definition put_key :: "bytes \<Rightarrow> int \<Rightarrow> bref \<Rightarrow> block_pool \<Rightarrow> block_pool" where
  "put_key h g b p = fst (projr (insert_block_hash (projr (make_block_hash_with_group_id h g)) b (Some 2) p))"

definition hybrid_pool :: block_pool where
  "hybrid_pool = put_key [2] 1 (Blk 2) (put_key [2] 0 (Blk 2)
     (put_key [1] 2 (Blk 1) (put_key [1] 1 (Blk 1) (put_key [1] 0 (Blk 1) sample_pool))))"

definition sample_hybrid :: hybrid_coordinator where
  "sample_hybrid = projr (hybrid_init sample_specs [False, False, False] False [hybrid_pool] [0, 0, 0] 2 2)"

lemma put_key_ok:
  assumes "pool_inv p [Blk 1, Blk 2, Blk 3] \<and> num_gpu_blocks p = 4 \<and> bp_hash_block_size p = 2" "b \<in> {Blk 1, Blk 2, Blk 3}"
  shows "pool_inv (put_key h g b p) [Blk 1, Blk 2, Blk 3] \<and> num_gpu_blocks (put_key h g b p) = 4 \<and>
    bp_hash_block_size (put_key h g b p) = 2"
proof -
  let ?key = "projr (make_block_hash_with_group_id h g)"
  have "pool_rest p" "pool_gap p [Blk 1, Blk 2, Blk 3] []" "b \<in> usable p"
    using assms usable_sample[of p] by (simp_all add: pool_inv_rest)
  from insert_block_hash_ok[OF this, of ?key 2] obtain p' where
    "insert_block_hash ?key b (Some 2) p = Inr (p', ?key \<notin> set (block_keys p b))"
    "pool_rest p'" "pool_gap p' [Blk 1, Blk 2, Blk 3] []" "only_keys_of {b} p p'" by blast
  then show ?thesis using assms(1) by (simp add: put_key_def pool_inv_rest only_keys_of_def same_config_def)
qed

lemma hybrid_pool_ok: "pool_inv hybrid_pool [Blk 1, Blk 2, Blk 3]" "bp_hash_block_size hybrid_pool = 2"
  using put_key_ok sample_pool_ok by (simp_all add: hybrid_pool_def)

lemma sample_hybrid_run:
  "(case hybrid_longest_hit sample_hybrid [[1], [2]] 4 None of
      Inl e \<Rightarrow> None | Inr (blocks, n, u, hy) \<Rightarrow> Some (blocks, n, u)) =
    Some ([[Blk 1], [Blk 1, Blk 2], [Blk 1]], 2, 2)"
  by code_simp


text \<open>C8: The hybrid lookup returns, changes nothing, and returns the deepest common prefix: a length at which
  every group of the coordinator can resume (its needed blocks are cached in all KV cache groups of its
  specification), such that no longer length within the limit has this property.  Each group gets one block
  per whole block of that length, cached under the request's hash where the group needs it and the null
  block elsewhere; the blocks of a second full-attention group may be followed by more.  Without draft
  model and partial hits.\<close>

theorem hybrid_finds_deepest_common_prefix:
  assumes "hybrid_init specs flags False pools group_pool scheduler_bs hash_bs = Inr hy"
    and "hybrid_config specs pools group_pool scheduler_bs hash_bs hs max_len"
  shows "\<exists>blocks n u. hybrid_longest_hit hy hs max_len oh = Inr (blocks, n, u, hy) \<and> 0 \<le> u \<and> n \<le> max_len \<and>
    common_hit hy hs n \<and> (\<forall>n'. common_hit hy hs n' \<longrightarrow> n' \<le> max_len \<longrightarrow> n' \<le> n) \<and>
    (\<forall>g \<in> set (hy_groups hy). result_ok hy hs n blocks g)"
proof -
  note rdy = init_ready(1)[OF assms]
  have un: "unseen (lookup_start hy max_len) g" if "g \<in> set (hy_groups hy)" for g
    using rdy that by (simp add: hybrid_ready_def unseen_def lookup_start_def)
  have "look_inv hy hs max_len ((lookup_start hy max_len)\<lparr>lk_len := max_len\<rparr>)"
    using un unfolding look_inv_def by (simp add: lookup_start_def unseen_def)
  from hybrid_loop_ok[OF rdy this, of oh] un
  obtain n st where l: "hybrid_loop hy hs max_len oh max_len (lookup_start hy max_len) = Inr (n, st)" "n \<le> max_len"
    "search_done hy hs n st" "\<forall>n'. common_hit hy hs n' \<longrightarrow> n' \<le> max_len \<longrightarrow> n' \<le> n"
    by blast
  have "hybrid_longest_hit hy hs max_len oh =
      Inr (map opt_list (lk_blocks (cut_full hy n st)), n, int (lk_longest st) - int n, hy)"
    using l(1,3) by (simp add: hybrid_longest_hit_def search_done_def)
  moreover have "0 \<le> int (lk_longest st) - int n" "common_hit hy hs n" using l(3) by (simp_all add: search_done_def)
  ultimately show ?thesis using l(2,4) search_result[OF rdy l(3)] by blast
qed

lemma sample_hybrid_init: "hybrid_init sample_specs [False, False, False] False [hybrid_pool] [0, 0, 0] 2 2 = Inr sample_hybrid"
proof -
  have "list_all (\<lambda>s. 2 mod block_size_of s = 0) sample_specs"
    "list_all (\<lambda>s. layer_prefix_cacheable s \<longrightarrow> block_size_of s mod 2 = 0) sample_specs"
    "length (split_groups sample_specs []) = 3" by code_simp+
  moreover from this(3) have "split_groups sample_specs [] \<noteq> []" by auto
  ultimately show ?thesis by (simp add: sample_hybrid_def hybrid_init_def eagle_group_ids_def Let_def)
qed

lemma sample_hybrid_config: "hybrid_config sample_specs [hybrid_pool] [0, 0, 0] 2 2 [[1], [2]] 4"
proof -
  have "list_all (\<lambda>s. 0 < block_size_of s \<and> spec_searchable s 2) sample_specs" "\<not> partial_hash_hits sample_specs 2"
    "length sample_specs = 3" by code_simp+
  moreover have "[0, 0, 0] ! i = (0::nat)" if "i < 3" for i :: nat
    using that by (auto simp: numeral_3_eq_3 less_Suc_eq)
  ultimately show ?thesis
    using hybrid_pool_ok by (auto simp: hybrid_config_def list_all_length)
qed

theorem hybrid_finds_deepest_common_prefix_witness:
  "\<exists>blocks u. hybrid_longest_hit sample_hybrid [[1], [2]] 4 None = Inr (blocks, 2, u, sample_hybrid) \<and>
     common_hit sample_hybrid [[1], [2]] 2 \<and> \<not> common_hit sample_hybrid [[1], [2]] 4"
proof -
  obtain blocks n u where run: "hybrid_longest_hit sample_hybrid [[1], [2]] 4 None = Inr (blocks, n, u, sample_hybrid)"
    "common_hit sample_hybrid [[1], [2]] n"
    "\<forall>n'. common_hit sample_hybrid [[1], [2]] n' \<longrightarrow> n' \<le> 4 \<longrightarrow> n' \<le> n"
    using hybrid_finds_deepest_common_prefix[OF sample_hybrid_init sample_hybrid_config, of None] by blast
  have "n = 2" using sample_hybrid_run run(1) by simp
  then show ?thesis using run by auto
qed

text \<open>
  Only the first spec group of full attention is cut to the final length: the second one keeps the block
  after it, which the request would then share although it has to compute its tokens.
\<close>

lemma second_full_group_not_cut:
  "\<exists>blocks u hy. hybrid_longest_hit sample_hybrid [[1], [2]] 4 None = Inr (blocks, 2, u, hy) \<and>
     length (blocks ! 0) = 1 \<and> length (blocks ! 1) = 2"
proof -
  obtain r where "hybrid_longest_hit sample_hybrid [[1], [2]] 4 None = Inr r"
    using sample_hybrid_run by (auto split: sum.splits)
  then show ?thesis using sample_hybrid_run by (cases r) auto
qed



end
