(* ===== verification/Spec2Isabelle.thy ===== *)
theory Spec2Isabelle
  imports Hash_Properties Pool_Properties KV_Properties Sched_Properties Tier_Properties Metal_Properties Sizing_Properties Disk_Tier_Properties Hybrid_Properties
begin

text \<open>
  A verification library for the prefix-caching core of the inference engine: how requests are
  hashed block by block, how the block pool hands out, shares, frees and caches KV blocks, how the
  KV cache manager admits requests and finds cached prefixes, how KV pages move to other tiers, and
  how the scheduler's queues, encoder cache and stop checks behave.

  How the parts interact (files under \<^verbatim>\<open>src/vllm/v1\<close>): a \<open>Request\<close> (\<^verbatim>\<open>request.py\<close>) keeps its tokens
  and one chained hash per full block, computed by \<open>RequestBlockHasher\<close>
  (\<^verbatim>\<open>core/kv_cache_utils.py\<close>).  The \<open>BlockPool\<close> (\<^verbatim>\<open>core/block_pool.py\<close>) owns the blocks, the
  doubly linked free list (\<open>FreeKVCacheBlockQueue\<close>) and the index from packed hash keys to blocks;
  full blocks of a request are entered under its hashes and found again by other requests with the
  same prefix.  A manager per KV cache group (\<^verbatim>\<open>core/single_type_kv_cache_manager.py\<close>) holds the block
  list of each request; \<open>KVCacheManager.allocate_slots\<close> (\<^verbatim>\<open>core/kv_cache_manager.py\<close>) checks that the
  pool can supply what a request needs and then takes the blocks.  Two further tiers keep KV off the
  device: immutable pages with copies on the host and on disk (\<^verbatim>\<open>core/immutable_kv_pages.py\<close>) and the
  saved conversations, on the host for the Metal backend (\<^verbatim>\<open>core/metal_kv_tier_index.py\<close>) and on the
  host and on disk for the others (\<^verbatim>\<open>core/kv_tier_index.py\<close>).  The scheduler keeps waiting requests in a queue (\<^verbatim>\<open>core/sched/request_queue.py\<close>),
  accounts for encoder outputs (\<^verbatim>\<open>core/encoder_cache_manager.py\<close>) and stops requests
  (\<^verbatim>\<open>core/sched/utils.py\<close>).

  Theories, bottom up:
  \<^item> \<^verbatim>\<open>Prelude\<close>: Python errors as values, the result type, sequencing, indexing and slicing;
    \<^verbatim>\<open>Interfaces\<close>: the locales \<open>eviction_list\<close>, \<open>hash_index\<close>, \<open>request_queue\<close>,
    \<open>ordered_queue\<close> that the components provide and rely on (\<open>prefix_finder\<close> is in \<^verbatim>\<open>Hybrid_Facts\<close>).
  \<^item> \<^verbatim>\<open>Free_Queue\<close>: blocks as records in an explicit heap (a function from block references), the
    free list with every method; \<open>queue_repr\<close> relates the links to a list, each method refines a
    list operation, walks terminate; interpretation of \<open>eviction_list\<close>.
  \<^item> \<^verbatim>\<open>Hash_Keys\<close>, \<^verbatim>\<open>Block_Hasher\<close>, \<^verbatim>\<open>Hash_Soundness\<close>: packed keys, extra keys, the hasher
    loop; its equivalence with \<open>ref_hash\<close>, the hash of a block by its position; what equal hashes
    mean.  \<^verbatim>\<open>Request_Data\<close>, \<^verbatim>\<open>Request_Ops\<close>: the request and its methods, and the invariant
    \<open>hashes_consistent\<close>.
  \<^item> \<^verbatim>\<open>Hash_Index\<close>: \<open>BlockHashToBlockMap\<close> as a relation from keys to block sets (\<open>hm_at\<close>),
    interpretation of \<open>hash_index\<close>; the scaled view of the hashes.  \<^verbatim>\<open>KV_Metrics\<close>: residency
    metrics over a sequence of clock readings.
  \<^item> \<^verbatim>\<open>Block_Pool\<close>: the pool and all of its methods; \<^verbatim>\<open>Pool_Invariant\<close>, \<^verbatim>\<open>Pool_Alloc\<close>,
    \<^verbatim>\<open>Pool_Caching\<close>: the invariant and the effect of each method; \<^verbatim>\<open>Pool_System\<close>: the pool as a
    transition system, with reachability and the origin of every cached key.
  \<^item> \<^verbatim>\<open>Ordered_Dict\<close>: insertion-ordered dictionaries and the multiset of what their values hold.
    \<^verbatim>\<open>Group_Manager\<close>, \<^verbatim>\<open>Cache_Lookup\<close>, \<^verbatim>\<open>KV_Manager\<close>: the managers of full-attention and
    sliding-window groups, their lookups, the coordinator and the KV cache manager over one pool.
    \<^verbatim>\<open>Lookup_Facts\<close>: what the lookups find; \<^verbatim>\<open>KV_Invariant\<close>, \<^verbatim>\<open>KV_Ops\<close>, \<^verbatim>\<open>KV_Release\<close>,
    \<^verbatim>\<open>KV_Slots\<close>: the invariant of a group (a block's references are the places that hold it; blocks not
    yet cached are private) and that each method keeps it; \<^verbatim>\<open>KV_Alloc\<close>: the admission check of
    \<open>allocate_slots\<close> covers what it takes; \<^verbatim>\<open>KV_System\<close>: the states the calls reach;
    \<^verbatim>\<open>KV_Properties\<close>: the properties.  Invariant and properties are for one group.
  \<^item> \<^verbatim>\<open>Hybrid_Lookup\<close>: the hybrid coordinator (\<^verbatim>\<open>core/kv_cache_coordinator.py\<close>), groups of several
    kinds over several pools, and the lookups of the chunked-local and Mamba managers;
    \<^verbatim>\<open>Hybrid_Facts\<close>: the locale \<open>prefix_finder\<close> of a lookup that finds the deepest hit, interpreted on the
    managers' lookups; \<^verbatim>\<open>Hybrid_Search\<close>: the rounds of the search; \<^verbatim>\<open>Hybrid_Properties\<close>: its result is
    the deepest prefix common to all groups (without draft model and partial hits).
  \<^item> \<^verbatim>\<open>Metal_Tier\<close>: the host tier index of the Metal backend; \<^verbatim>\<open>Metal_Invariant\<close>, \<^verbatim>\<open>Metal_Ops\<close>,
    \<^verbatim>\<open>Metal_System\<close>: its slots are partitioned between the free list and the trajectories in every state
    its calls reach; \<^verbatim>\<open>Metal_Lookup\<close>, \<^verbatim>\<open>Metal_Properties\<close>: what a lookup returns.
  \<^item> \<^verbatim>\<open>Tier_Index\<close>: the conversation index with a host tier, a disk tier and main-KV slots, every
    operation of it; \<^verbatim>\<open>Tier_Invariant\<close>: the invariant (where each slot is, which slots have I/O in
    flight, and that a copy being written to disk stays put); \<^verbatim>\<open>Tier_Space\<close> (reclaiming and
    allocating), \<^verbatim>\<open>Tier_Ops\<close> (staging attention blocks, main-KV slots), \<^verbatim>\<open>Tier_Tail\<close> (staging a tail),
    \<^verbatim>\<open>Tier_Disk\<close> (write-through), \<^verbatim>\<open>Tier_Promote\<close> (promotion): that each operation keeps it;
    \<^verbatim>\<open>Tier_System\<close>: the states that calls reach (\<open>tier_reach\<close>); \<^verbatim>\<open>Tier_Lookup\<close>: the two lookups
    against their reference \<open>tier_match\<close>; \<^verbatim>\<open>Disk_Tier_Properties\<close>: the properties.  Calls that supersede
    a diverged branch while a disk tier is configured break the partition of the disk slots (shown
    there by example) and are not among the calls of \<open>tier_reach\<close>.
  \<^item> \<^verbatim>\<open>Heapq\<close>, \<^verbatim>\<open>Request_Queue\<close>: CPython's heap and the two waiting queues; \<^verbatim>\<open>Encoder_Cache\<close>:
    both encoder caches and the budget; \<^verbatim>\<open>Sched_Utils\<close>: repetition detection and stopping.
  \<^item> \<^verbatim>\<open>Page_Pool\<close>, \<^verbatim>\<open>Page_Barrier\<close>: the pool of immutable KV pages with copies on the host and on
    disk, its leases and two-phase transfers, and the barrier that waits for every rank
    (\<^verbatim>\<open>core/immutable_kv_pages.py\<close>); \<^verbatim>\<open>Page_Invariant\<close>, \<^verbatim>\<open>Page_Checks\<close>, \<^verbatim>\<open>Barrier_Invariant\<close>,
    \<^verbatim>\<open>Page_Data\<close>: the invariant, the pool's own diagnostic, the tickets in flight, and the data that
    survives; \<open>page_reach\<close> are the states that calls reach.  \<^verbatim>\<open>Tier_Properties\<close>: its properties.
  \<^item> \<^verbatim>\<open>KV_Spec\<close>, \<^verbatim>\<open>KV_Sizing\<close>, \<^verbatim>\<open>Sizing_Lemmas\<close>: the KV cache specification of each kind of layer
    (\<^verbatim>\<open>kv_cache_interface.py\<close>), its page size and the memory of one request, and what the engine derives
    from them at start-up (\<^verbatim>\<open>core/kv_cache_utils.py\<close>); \<^verbatim>\<open>Ngram\<close>: the n-gram drafter
    (\<^verbatim>\<open>spec_decode/ngram_proposer.py\<close>) and the exhaustive search it stands for.
    \<^verbatim>\<open>Sizing_Properties\<close>: their properties.
  \<^item> \<^verbatim>\<open>Sample_States\<close>: the concrete states of the instances; \<^verbatim>\<open>Hash_Properties\<close>,
    \<^verbatim>\<open>Pool_Properties\<close>, \<^verbatim>\<open>Sched_Properties\<close>: the properties.

  Conventions.  A method that may raise returns \<open>py_error + 'a\<close>; the state after a raise is not
  modelled.  Python integers are \<open>int\<close> where they may be negative and \<open>nat\<close> where the code only
  stores sizes; packed group ids and external hashes keep their 4 and 8 bytes.  Hash functions,
  the clock and the random numbers are parameters; that a hash function has no collision is
  assumed only for the finitely many inputs a statement names (\<open>collision_free\<close>).  The hasher
  loop is total because a block size of zero, at which the source would not end, hashes nothing.
  Loops over the free list are partial functions, and that they return is proved from
  \<open>queue_repr\<close>.

  Not modelled: logging and the trace ring of the free list; torch tensor code (models, kernels,
  workers), process and socket code (engine core, API server), the scheduler's step loop, the
  diagnostic strings of the tier indices, and of the KV cache manager allocation from several pools and, their lookups
  apart, the Mamba, chunked, circular and cross-attention groups.
\<close>

end
